(* ===== verification/GoPrelude.thy ===== *)
theory GoPrelude
  imports Main "HOL-Library.Word" "HOL-Library.AList" "HOL-Library.Multiset"
begin

text \<open>
  Shared vocabulary of the development.

  \<^item> Go's fixed-width integers: \<open>i64\<close> and \<open>i32\<close> reduce a mathematical integer to the value a
    Go \<open>int64\<close>/\<open>int\<close> or \<open>int32\<close> variable holds after an operation (two's complement
    wrap-around); unsigned counters are machine words.
  \<^item> Clock readings (\<open>time.Time\<close>) and durations are integers in nanoseconds.  Every call of
    \<open>time.Now()\<close> in the code is an argument of the definition that models the calling function,
    so two readings in one function are two arguments.
  \<^item> \<open>fmt.Sprintf("%d")\<close> is \<open>itoa\<close>, with the lemmas that make identifiers built from
    counters unique.
  \<^item> A Go map is a partial function; \<open>delete\<close> in a \<open>range\<close> loop is \<open>keep\<close>.  A map whose
    length is taken or whose entries are searched is an association list with distinct keys.
  \<^item> An object whose methods run under one mutex is a step function; a history of calls by any number
    of goroutines is the sequence of steps in the order in which they take the lock.  The locales
    \<open>guarded_object\<close>, \<open>locked_object\<close> and \<open>monotone_object\<close> are the interfaces every such component interprets;
    \<open>refined_object\<close> adds an abstract specification.
\<close>

named_theorems unchanged "fields of a state that an operation leaves as they are"

section \<open>Machine integers\<close>

type_synonym gotime = int
type_synonym duration = int
type_synonym u64 = "64 word"
type_synonym u32 = "32 word"

text \<open>The zero value of \<open>time.Time\<close>, the first of January of the year 1, and \<open>Truncate\<close>, which rounds down to a multiple of a duration since
  then.\<close>

definition zeroTime :: gotime where
  "zeroTime = - 62135596800000000000"

definition goTruncate :: "duration \<Rightarrow> gotime \<Rightarrow> gotime" where
  "goTruncate d t = (if d \<le> 0 then t else t - (t - zeroTime) mod d)"

definition i64 :: "int \<Rightarrow> int" where
  "i64 x = (x + 2 ^ 63) mod 2 ^ 64 - 2 ^ 63"

definition i32 :: "int \<Rightarrow> int" where
  "i32 x = (x + 2 ^ 31) mod 2 ^ 32 - 2 ^ 31"

definition in_i64 :: "int \<Rightarrow> bool" where
  "in_i64 x \<longleftrightarrow> - (2 ^ 63) \<le> x \<and> x < 2 ^ 63"

definition in_i32 :: "int \<Rightarrow> bool" where
  "in_i32 x \<longleftrightarrow> - (2 ^ 31) \<le> x \<and> x < 2 ^ 31"

lemma i64_id [simp]: "in_i64 x \<Longrightarrow> i64 x = x"
  by (simp add: i64_def in_i64_def)

lemma i32_id [simp]: "in_i32 x \<Longrightarrow> i32 x = x"
  by (simp add: i32_def in_i32_def)

lemma in_i64_i64 [simp]: "in_i64 (i64 x)"
proof -
  have "0 \<le> (x + 2 ^ 63) mod 2 ^ 64" and "(x + 2 ^ 63) mod 2 ^ 64 < (2::int) ^ 64"
    by (rule pos_mod_sign, simp) (rule pos_mod_bound, simp)
  then show ?thesis by (simp add: i64_def in_i64_def)
qed

lemma in_i32_i32 [simp]: "in_i32 (i32 x)"
proof -
  have "0 \<le> (x + 2 ^ 31) mod 2 ^ 32" and "(x + 2 ^ 31) mod 2 ^ 32 < (2::int) ^ 32"
    by (rule pos_mod_sign, simp) (rule pos_mod_bound, simp)
  then show ?thesis by (simp add: i32_def in_i32_def)
qed

lemma in_i64I [intro]: "0 \<le> x \<Longrightarrow> x < 2 ^ 63 \<Longrightarrow> in_i64 x"
  by (simp add: in_i64_def)

text \<open>Adding after a wrap is the wrap of the sum: increments and decrements that cancel in the
  mathematical integers cancel in the machine integers too.\<close>

lemma i32_add_wrap [simp]: "i32 (i32 x + y) = i32 (x + y)"
proof -
  have "(i32 x + y + 2 ^ 31) mod 2 ^ 32 = ((x + 2 ^ 31) mod 2 ^ 32 + y) mod 2 ^ 32"
    by (simp add: i32_def [of x] add.commute)
  also have "\<dots> = (x + 2 ^ 31 + y) mod 2 ^ 32" by (rule mod_add_left_eq)
  also have "x + 2 ^ 31 + y = x + y + 2 ^ 31" by simp
  finally show ?thesis by (simp only: i32_def [of "i32 x + y"] i32_def [of "x + y"])
qed

lemma i64_add_wrap [simp]: "i64 (i64 x + y) = i64 (x + y)"
proof -
  have "(i64 x + y + 2 ^ 63) mod 2 ^ 64 = ((x + 2 ^ 63) mod 2 ^ 64 + y) mod 2 ^ 64"
    by (simp add: i64_def [of x] add.commute)
  also have "\<dots> = (x + 2 ^ 63 + y) mod 2 ^ 64" by (rule mod_add_left_eq)
  also have "x + 2 ^ 63 + y = x + y + 2 ^ 63" by simp
  finally show ?thesis by (simp only: i64_def [of "i64 x + y"] i64_def [of "x + y"])
qed

lemma i64_add_wrap2: "i64 (y + i64 x) = i64 (y + x)"
  using i64_add_wrap [of x y] by (simp add: add.commute)

lemma i32_diff_wrap [simp]: "i32 (i32 x - y) = i32 (x - y)"
  using i32_add_wrap [of x "- y"] by simp

lemma i32_add_wrap2 [simp]: "i32 (y + i32 x) = i32 (y + x)"
  using i32_add_wrap [of x y] by (simp add: add.commute)

lemma i32_uminus_wrap [simp]: "i32 (- i32 x) = i32 (- x)"
proof -
  define k where "k = (x + 2 ^ 31) div 2 ^ 32"
  have "(x + 2 ^ 31) mod 2 ^ 32 = x + 2 ^ 31 - k * 2 ^ 32"
    unfolding k_def by (rule minus_div_mult_eq_mod [symmetric])
  then have "- i32 x + 2 ^ 31 = - x + 2 ^ 31 + k * 2 ^ 32" unfolding i32_def by simp
  then have "(- i32 x + 2 ^ 31) mod 2 ^ 32 = (- x + 2 ^ 31) mod 2 ^ 32" by (metis mod_mult_self1)
  then show ?thesis by (simp only: i32_def [of "- i32 x"] i32_def [of "- x"])
qed

lemma i32_diff_wrap2 [simp]: "i32 (y - i32 x) = i32 (y - x)"
  using i32_add_wrap2 [of y "- i32 x"] by simp

lemma i32_add_cancel: "in_i32 x \<Longrightarrow> i32 (i32 (x - y) + y) = x"
  by simp

section \<open>Decimal printing\<close>

fun digits10 :: "nat \<Rightarrow> string" where
  "digits10 n =
     (if n < 10 then [char_of (48 + n)] else digits10 (n div 10) @ [char_of (48 + n mod 10)])"

declare digits10.simps [simp del]

definition itoa :: "int \<Rightarrow> string" where
  "itoa i = (if i < 0 then CHR ''-'' # digits10 (nat (- i)) else digits10 (nat i))"

fun undigits :: "nat \<Rightarrow> string \<Rightarrow> nat" where
  "undigits a [] = a"
| "undigits a (c # cs) = undigits (10 * a + (of_char c - 48)) cs"

lemma undigits_append [simp]: "undigits a (xs @ ys) = undigits (undigits a xs) ys"
  by (induction xs arbitrary: a) auto

lemma undigits_digits10: "undigits 0 (digits10 n) = n"
proof (induction n rule: digits10.induct)
  case (1 n)
  show ?case
  proof (cases "n < 10")
    case True
    then show ?thesis by (simp add: digits10.simps)
  next
    case False
    with 1 show ?thesis by (subst digits10.simps) simp
  qed
qed

lemma digits10_inj: "digits10 m = digits10 n \<Longrightarrow> m = n"
  by (metis undigits_digits10)

lemma digits10_digit: "c \<in> set (digits10 n) \<Longrightarrow> 48 \<le> (of_char c :: nat) \<and> (of_char c :: nat) \<le> 57"
proof (induction n rule: digits10.induct)
  case (1 n)
  show ?case
  proof (cases "n < 10")
    case True
    with "1.prems" show ?thesis by (simp add: digits10.simps [of n])
  next
    case False
    with "1.prems" consider "c \<in> set (digits10 (n div 10))" | "c = char_of (48 + n mod 10)"
      by (auto simp: digits10.simps [of n])
    then show ?thesis
    proof cases
      case 1
      then show ?thesis using "1.IH" False by simp
    next
      case 2
      have "n mod 10 < 10" by simp
      then have "48 + n mod 10 < 256" by linarith
      then have "(of_char c :: nat) = 48 + n mod 10" using 2 by simp
      with \<open>n mod 10 < 10\<close> show ?thesis by linarith
    qed
  qed
qed

lemma digits10_no_minus: "CHR ''-'' \<notin> set (digits10 n)"
  using digits10_digit [of "CHR ''-''" n] by auto

lemma itoa_nat_no_minus: "CHR ''-'' \<notin> set (itoa (int n))"
  using digits10_no_minus by (simp add: itoa_def)

lemma itoa_inj: "itoa i = itoa j \<Longrightarrow> i = j"
proof -
  assume eq: "itoa i = itoa j"
  have "digits10 m \<noteq> CHR ''-'' # xs" and "CHR ''-'' # xs \<noteq> digits10 m" for m xs
    using digits10_no_minus [of m] by (metis list.set_intros(1))+
  then show "i = j"
    using eq by (auto simp: itoa_def split: if_splits dest: digits10_inj)
qed

lemma itoa_eq_iff [simp]: "itoa i = itoa j \<longleftrightarrow> i = j"
  by (auto dest: itoa_inj)

lemma itoa_digit: "c \<in> set (itoa i) \<Longrightarrow> c = CHR ''-'' \<or> (of_char c :: nat) \<le> 57"
  by (auto simp: itoa_def split: if_splits dest: digits10_digit)

text \<open>An identifier \<open>name_counter\<close> determines the name and the counter.\<close>

lemma append_sep_inj:
  "xs @ c # ys = xs' @ c # ys' \<Longrightarrow> c \<notin> set ys \<Longrightarrow> c \<notin> set ys' \<Longrightarrow> xs = xs' \<and> ys = ys'"
proof (induction xs arbitrary: xs')
  case Nil
  then show ?case by (cases xs') auto
next
  case (Cons x xs)
  then show ?case by (cases xs') auto
qed

lemma tagged_itoa_inj: "p @ ''_'' @ itoa i = q @ ''_'' @ itoa j \<longleftrightarrow> p = q \<and> i = j"
proof
  have no: "CHR ''_'' \<notin> set (itoa k)" for k using itoa_digit [of "CHR ''_''" k] by auto
  assume "p @ ''_'' @ itoa i = q @ ''_'' @ itoa j"
  then have "p @ CHR ''_'' # itoa i = q @ CHR ''_'' # itoa j" by simp
  from append_sep_inj [OF this no no] show "p = q \<and> i = j" by simp
qed simp

section \<open>Lists\<close>

lemma fold_update_own_nth:
  "distinct order \<Longrightarrow> set order \<subseteq> {..<length ps} \<Longrightarrow> j < length ps \<Longrightarrow>
     fold (\<lambda>i ps. ps[i := f i (ps ! i)]) order ps ! j = (if j \<in> set order then f j (ps ! j) else ps ! j)"
  by (induction order arbitrary: ps) (auto simp: nth_list_update)

lemma length_fold_update_own [simp]: "length (fold (\<lambda>i ps. ps[i := f i (ps ! i)]) order ps) = length ps"
  by (induction order arbitrary: ps) auto

lemma length_filter_update:
  "i < length xs \<Longrightarrow> length (filter P (xs[i := y])) + (if P (xs ! i) then 1 else 0) = length (filter P xs) + (if P y then 1 else 0)"
proof (induction xs arbitrary: i)
  case (Cons x xs)
  then show ?case by (cases i) auto
qed simp

lemma length_filter_eq: "length (filter P xs) = length xs \<Longrightarrow> filter P xs = xs"
  by (metis filter_True length_filter_less nat_neq_iff)

lemma map_filter_append [simp]: "List.map_filter f (xs @ ys) = List.map_filter f xs @ List.map_filter f ys"
  by (simp add: List.map_filter_def)

lemma map_filter_update:
  "i < length xs \<Longrightarrow>
     mset (List.map_filter f (xs[i := y])) + mset_set (set_option (f (xs ! i))) = mset (List.map_filter f xs) + mset_set (set_option (f y))"
proof (induction xs arbitrary: i)
  case (Cons x xs)
  then show ?case by (cases i) (auto simp: List.map_filter_simps split: option.splits)
qed simp

lemma sum_list_map_update:
  "i < length xs \<Longrightarrow> sum_list (map f (xs[i := y])) + f (xs ! i) = sum_list (map f xs) + (f y :: nat)"
proof (induction xs arbitrary: i)
  case (Cons x xs)
  then show ?case by (cases i) (auto simp: algebra_simps)
qed simp

lemma mset_exchange:
  fixes a b c :: "'a multiset"
  assumes "a' + f + c' = a + g + c" and "S' + g = S + f"
  shows "a' + S' + c' = a + S + c"
proof (rule multiset_eqI)
  fix x
  have "count a' x + count f x + count c' x = count a x + count g x + count c x" and "count S' x + count g x = count S x + count f x"
    using arg_cong [OF assms(1), of "\<lambda>m. count m x"] arg_cong [OF assms(2), of "\<lambda>m. count m x"] by simp_all
  then show "count (a' + S' + c') x = count (a + S + c) x" by simp
qed

text \<open>Two majorities of the same list meet.\<close>

lemma quorum_intersect:
  "length xs < length (filter P xs) + length (filter Q xs) \<Longrightarrow> \<exists>x \<in> set xs. P x \<and> Q x"
proof (induction xs)
  case Nil
  then show ?case by simp
next
  case (Cons x xs)
  then show ?case by (cases "P x"; cases "Q x") auto
qed

lemma sorted_wrt_snoc:
  "sorted_wrt R (xs @ [x]) \<longleftrightarrow> sorted_wrt R xs \<and> (\<forall>y \<in> set xs. R y x)"
  by (simp add: sorted_wrt_append)

text \<open>Sorting by a key without ties gives a result that depends on the elements only.\<close>

lemma sort_key_unique:
  assumes "set xs = set ys" and "inj_on f (set xs)" and "distinct xs" "distinct ys"
  shows "sort_key f xs = sort_key f ys"
  by (rule map_sorted_distinct_set_unique [of f])
    (use assms in \<open>auto simp: distinct_map\<close>)

lemma upto_snoc: "[1..int n] @ [int n + 1] = [1..1 + int n]"
  using upto_rec2 [of 1 "1 + int n"] by (simp add: ac_simps)

text \<open>One goroutine per element of a slice, each updating its own element: in whatever order they run,
  the result is the pointwise image.\<close>

lemma fold_update_nth:
  "distinct order \<Longrightarrow> set order \<subseteq> {..<length ps} \<Longrightarrow> j < length ps \<Longrightarrow>
     fold (\<lambda>i ps. ps[i := f (ps ! i)]) order ps ! j = (if j \<in> set order then f (ps ! j) else ps ! j)"
  by (induction order arbitrary: ps) (auto simp: nth_list_update)

lemma length_fold_update [simp]: "length (fold (\<lambda>i ps. ps[i := f (ps ! i)]) order ps) = length ps"
  by (induction order arbitrary: ps) auto

lemma fold_update_perm:
  "mset order = mset [0..<length ps] \<Longrightarrow> fold (\<lambda>i ps. ps[i := f (ps ! i)]) order ps = map f ps"
proof -
  assume order: "mset order = mset [0..<length ps]"
  then have d: "distinct order" by (metis distinct_upt mset_eq_imp_distinct_iff)
  from order have s: "set order = {..<length ps}" by (metis atLeast_upt set_mset_mset)
  show ?thesis
    by (rule nth_equalityI) (use fold_update_nth [OF d, of ps _ f] s in auto)
qed

text \<open>The first occurrences of the elements of a list.\<close>

fun firsts :: "'a list \<Rightarrow> 'a list" where
  "firsts [] = []"
| "firsts (x # xs) = x # filter (\<lambda>y. y \<noteq> x) (firsts xs)"

lemma set_firsts [simp]: "set (firsts xs) = set xs"
  by (induction xs) auto

lemma distinct_firsts [simp]: "distinct (firsts xs)"
  by (induction xs) auto

lemma firsts_snoc: "firsts (xs @ [x]) = (if x \<in> set xs then firsts xs else firsts xs @ [x])"
  by (induction xs) auto

lemma distinct_singleton_list: "set xs = {x} \<Longrightarrow> distinct xs \<Longrightarrow> xs = [x]"
  by (cases xs; cases "tl xs") auto

section \<open>Maps\<close>

text \<open>What remains of a map after a \<open>range\<close> loop deleted the entries that fail a test.\<close>

definition keep :: "('k \<Rightarrow> 'v \<Rightarrow> bool) \<Rightarrow> ('k \<rightharpoonup> 'v) \<Rightarrow> ('k \<rightharpoonup> 'v)" where
  "keep P m k = (case m k of None \<Rightarrow> None | Some v \<Rightarrow> if P k v then Some v else None)"

lemma keep_Some_iff [simp]: "keep P m k = Some v \<longleftrightarrow> m k = Some v \<and> P k v"
  by (auto simp: keep_def split: option.splits)

lemma keep_None_iff: "keep P m k = None \<longleftrightarrow> (\<forall>v. m k = Some v \<longrightarrow> \<not> P k v)"
  by (auto simp: keep_def split: option.splits)

lemma dom_keep: "dom (keep P m) \<subseteq> dom m"
  by (auto simp: dom_def)

lemma ran_keep: "v \<in> ran (keep P m) \<Longrightarrow> v \<in> ran m"
  by (auto simp: ran_def)

text \<open>A missing key of a map of numbers reads as zero, as in Go.\<close>

definition get0 :: "('k \<rightharpoonup> int) \<Rightarrow> 'k \<Rightarrow> int" where
  "get0 m k = (case m k of None \<Rightarrow> 0 | Some v \<Rightarrow> v)"

lemma get0_upd [simp]: "get0 (m(k \<mapsto> v)) k' = (if k' = k then v else get0 m k')"
  by (simp add: get0_def)

text \<open>Association lists with distinct keys, as multisets of values.\<close>

lemma length_delete_less: "map_of xs k = Some v \<Longrightarrow> length (AList.delete k xs) < length xs"
proof (induction xs)
  case (Cons x xs)
  have "length (AList.delete k xs) \<le> length xs" by (rule AList.length_delete_le)
  with Cons show ?case by (cases x) (auto split: if_splits)
qed simp

lemma mset_alist_delete:
  "map_of ps s = Some m \<Longrightarrow> distinct (map fst ps) \<Longrightarrow>
     mset (map snd ps) = add_mset m (mset (map snd (AList.delete s ps)))"
  by (induction ps) (auto split: if_splits)

lemma mset_alist_update_new:
  "s \<notin> fst ` set ps \<Longrightarrow> mset (map snd (AList.update s m ps)) = add_mset m (mset (map snd ps))"
  by (induction ps) auto

lemma mset_alist_update: "mset (map snd (AList.update s m ps)) \<subseteq># add_mset m (mset (map snd ps))"
proof (induction ps)
  case (Cons p ps)
  then show ?case
    by (cases p) (auto simp: add_mset_commute intro: subset_mset.order_trans)
qed simp

lemma set_alist_update: "distinct (map fst ps) \<Longrightarrow> set (AList.update k v ps) = insert (k, v) {p \<in> set ps. fst p \<noteq> k}"
  by (induction ps) force+

lemma set_alist_delete: "set (AList.delete k ps) = {p \<in> set ps. fst p \<noteq> k}"
  by (auto simp: AList.delete_eq)

section \<open>Objects behind a mutex\<close>

primrec run :: "('s \<Rightarrow> 'e \<Rightarrow> 's) \<Rightarrow> 's \<Rightarrow> 'e list \<Rightarrow> 's" where
  "run step s [] = s"
| "run step s (e # es) = run step (step s e) es"

lemma run_append [simp]: "run step s (xs @ ys) = run step (run step s xs) ys"
  by (induction xs arbitrary: s) auto

text \<open>A history in which every operation meets its precondition (typically: the counter it
  increments has not reached the top of its machine word).\<close>

primrec admissible :: "('s \<Rightarrow> 'e \<Rightarrow> 's) \<Rightarrow> ('s \<Rightarrow> 'e \<Rightarrow> bool) \<Rightarrow> 's \<Rightarrow> 'e list \<Rightarrow> bool" where
  "admissible step ok s [] = True"
| "admissible step ok s (e # es) = (ok s e \<and> admissible step ok (step s e) es)"

lemma admissible_True [simp]: "admissible step (\<lambda>_ _. True) s es"
  by (induction es arbitrary: s) auto

lemma admissible_append [simp]:
  "admissible step ok s (xs @ ys) \<longleftrightarrow> admissible step ok s xs \<and> admissible step ok (run step s xs) ys"
  by (induction xs arbitrary: s) auto

text \<open>The interface of a component whose operations are serialised by a lock: each operation keeps
  the invariant, hence so does every interleaving of operations.\<close>

locale guarded_object =
  fixes step :: "'s \<Rightarrow> 'e \<Rightarrow> 's"
    and inv :: "'s \<Rightarrow> bool"
    and ok :: "'s \<Rightarrow> 'e \<Rightarrow> bool"
  assumes guarded_step: "inv s \<Longrightarrow> ok s e \<Longrightarrow> inv (step s e)"
begin

lemma guarded_run: "inv s \<Longrightarrow> admissible step ok s es \<Longrightarrow> inv (run step s es)"
  by (induction es arbitrary: s) (auto intro: guarded_step)

end

text \<open>The common case without preconditions.\<close>

locale locked_object =
  fixes step :: "'s \<Rightarrow> 'e \<Rightarrow> 's"
    and inv :: "'s \<Rightarrow> bool"
  assumes inv_step: "inv s \<Longrightarrow> inv (step s e)"
begin

lemma inv_run: "inv s \<Longrightarrow> inv (run step s es)"
  by (induction es arbitrary: s) (auto intro: inv_step)

end

sublocale locked_object \<subseteq> unguarded: guarded_object step inv "\<lambda>_ _. True"
  by unfold_locales (rule inv_step)

text \<open>A guarded object with a quantity that no operation decreases (a logical clock, a watermark, a
  level).\<close>

locale monotone_object = guarded_object +
  fixes rank :: "'a \<Rightarrow> 'r::preorder"
  assumes rank_step: "inv s \<Longrightarrow> ok s e \<Longrightarrow> rank s \<le> rank (step s e)"
begin

lemma rank_run: "inv s \<Longrightarrow> admissible step ok s es \<Longrightarrow> rank s \<le> rank (run step s es)"
proof (induction es arbitrary: s)
  case Nil
  then show ?case by simp
next
  case (Cons e es)
  then have "rank s \<le> rank (step s e)" and "rank (step s e) \<le> rank (run step (step s e) es)"
    by (auto intro: rank_step guarded_step)
  then show ?case by (auto intro: order_trans)
qed

end

text \<open>Refinement: every operation of the detailed object, seen through an abstraction of its state, is an
  operation of the abstract one; which one may depend on the state (a step of a goroutine that has
  nothing to do, a write that is refused).  The operations a history performs are its \<open>observed\<close> list.\<close>

primrec observed :: "('s \<Rightarrow> 'e \<Rightarrow> 's) \<Rightarrow> ('s \<Rightarrow> 'e \<Rightarrow> 'l list) \<Rightarrow> 's \<Rightarrow> 'e list \<Rightarrow> 'l list" where
  "observed step label s [] = []"
| "observed step label s (e # es) = label s e @ observed step label (step s e) es"

lemma observed_append [simp]:
  "observed step label s (xs @ ys) = observed step label s xs @ observed step label (run step s xs) ys"
  by (induction xs arbitrary: s) auto

lemma observed_all [simp]: "observed step (\<lambda>_ e. [e]) s es = es"
  by (induction es arbitrary: s) auto

lemma admissible_list_all: "admissible step (\<lambda>_. P) s es \<longleftrightarrow> list_all P es"
  by (induction es arbitrary: s) auto

text \<open>A forward simulation: related states stay related under every operation and the abstract operations it
  performs.\<close>

locale simulation =
  fixes step :: "'s \<Rightarrow> 'e \<Rightarrow> 's"
    and ok :: "'s \<Rightarrow> 'e \<Rightarrow> bool"
    and rel :: "'s \<Rightarrow> 'a \<Rightarrow> bool"
    and label :: "'s \<Rightarrow> 'e \<Rightarrow> 'l list"
    and astep :: "'a \<Rightarrow> 'l \<Rightarrow> 'a"
  assumes rel_step: "rel s a \<Longrightarrow> ok s e \<Longrightarrow> rel (step s e) (run astep a (label s e))"
begin

lemma rel_run: "rel s a \<Longrightarrow> admissible step ok s es \<Longrightarrow> rel (run step s es) (run astep a (observed step label s es))"
  by (induction es arbitrary: s a) (simp_all add: rel_step)

end

text \<open>The functional case: the abstract state is determined by the detailed one.\<close>

locale refined_object = guarded_object step inv ok
  for step :: "'s \<Rightarrow> 'e \<Rightarrow> 's" and inv :: "'s \<Rightarrow> bool" and ok :: "'s \<Rightarrow> 'e \<Rightarrow> bool" +
  fixes abs :: "'s \<Rightarrow> 'a"
    and label :: "'s \<Rightarrow> 'e \<Rightarrow> 'l list"
    and astep :: "'a \<Rightarrow> 'l \<Rightarrow> 'a"
  assumes abs_step: "inv s \<Longrightarrow> ok s e \<Longrightarrow> abs (step s e) = run astep (abs s) (label s e)"
begin

end

sublocale refined_object \<subseteq> sim: simulation step ok "\<lambda>s a. inv s \<and> abs s = a" label astep
  by unfold_locales (auto simp: abs_step guarded_step)

context refined_object
begin

lemma abs_run: "inv s \<Longrightarrow> admissible step ok s es \<Longrightarrow> abs (run step s es) = run astep (abs s) (observed step label s es)"
  using sim.rel_run [of s "abs s" es] by simp

end

end
