(* ===== verification/DistributedLock.thy ===== *)
theory DistributedLock
  imports GoPrelude
begin

text \<open>
  \<open>src/solutions/challenge09_solution.go\<close>, solution 1: a lock service with time-to-live and
  fencing tokens.  The state is \<open>DistributedLock\<close>; the operations are the closures
  \<open>acquire\<close>, \<open>release\<close>, \<open>extend\<close> and the periodic clean-up goroutine.  Each runs under
  \<open>dl.mu\<close> and is one step.  Shown: before its deadline a lock cannot be taken, released or
  altered by anybody but its holder, whatever the interleaving; fencing tokens of new grants strictly
  increase, and a token that has lost its lock never opens it again.
\<close>

record LockInfo =
  li_holder :: string
  li_timestamp :: gotime
  li_ttl :: duration
  li_fencingToken :: u64
  li_version :: int

record DistributedLock =
  dl_locks :: "string \<rightharpoonup> LockInfo"
  dl_fencingToken :: u64

definition newDistributedLock :: DistributedLock where
  "newDistributedLock = \<lparr>dl_locks = Map.empty, dl_fencingToken = 0\<rparr>"

text \<open>One tick of the clean-up goroutine; \<open>now\<close> is its \<open>time.Now()\<close>.\<close>

definition dl_cleanup :: "gotime \<Rightarrow> DistributedLock \<Rightarrow> DistributedLock" where
  "dl_cleanup now dl =
     dl\<lparr>dl_locks := keep (\<lambda>_ lock. \<not> now - li_timestamp lock > li_ttl lock) (dl_locks dl)\<rparr>"

text \<open>\<open>acquire\<close> reads the clock for \<open>time.Since\<close> (\<open>now\<close>) and again when it stores the time stamp
  (\<open>now'\<close>).\<close>

definition dl_acquire ::
    "gotime \<Rightarrow> gotime \<Rightarrow> string \<Rightarrow> string \<Rightarrow> duration \<Rightarrow> DistributedLock \<Rightarrow>
     (u64 \<times> bool) \<times> DistributedLock" where
  "dl_acquire now now' nodeID resource ttl dl =
     (let fresh =
        (let token = dl_fencingToken dl + 1
         in ((token, True),
             dl\<lparr>dl_fencingToken := token,
                dl_locks := (dl_locks dl)(resource \<mapsto>
                  \<lparr>li_holder = nodeID, li_timestamp = now', li_ttl = ttl,
                   li_fencingToken = token, li_version = 1\<rparr>)\<rparr>))
      in case dl_locks dl resource of
           Some lock \<Rightarrow>
             if now - li_timestamp lock < li_ttl lock then
               if li_holder lock \<noteq> nodeID then ((0, False), dl)
               else ((li_fencingToken lock, True),
                     dl\<lparr>dl_locks := (dl_locks dl)(resource \<mapsto>
                       lock\<lparr>li_timestamp := now', li_ttl := ttl\<rparr>)\<rparr>)
             else fresh
         | None \<Rightarrow> fresh)"

definition dl_release :: "string \<Rightarrow> string \<Rightarrow> u64 \<Rightarrow> DistributedLock \<Rightarrow> bool \<times> DistributedLock" where
  "dl_release nodeID resource token dl =
     (case dl_locks dl resource of
        None \<Rightarrow> (False, dl)
      | Some lock \<Rightarrow>
          if li_holder lock \<noteq> nodeID \<or> li_fencingToken lock \<noteq> token then (False, dl)
          else (True, dl\<lparr>dl_locks := (dl_locks dl)(resource := None)\<rparr>))"

definition dl_extend ::
    "gotime \<Rightarrow> string \<Rightarrow> string \<Rightarrow> u64 \<Rightarrow> duration \<Rightarrow> DistributedLock \<Rightarrow> bool \<times> DistributedLock" where
  "dl_extend now nodeID resource token newTTL dl =
     (case dl_locks dl resource of
        None \<Rightarrow> (False, dl)
      | Some lock \<Rightarrow>
          if li_holder lock \<noteq> nodeID \<or> li_fencingToken lock \<noteq> token then (False, dl)
          else (True, dl\<lparr>dl_locks := (dl_locks dl)(resource \<mapsto>
                 lock\<lparr>li_timestamp := now, li_ttl := newTTL\<rparr>)\<rparr>))"

section \<open>Histories\<close>

datatype dl_op =
    Cleanup gotime
  | Acquire gotime gotime string string duration
  | Release string string u64
  | Extend gotime string string u64 duration

fun dl_step :: "DistributedLock \<Rightarrow> dl_op \<Rightarrow> DistributedLock" where
  "dl_step s (Cleanup now) = dl_cleanup now s"
| "dl_step s (Acquire now now' n r ttl) = snd (dl_acquire now now' n r ttl s)"
| "dl_step s (Release n r t) = snd (dl_release n r t s)"
| "dl_step s (Extend now n r t ttl) = snd (dl_extend now n r t ttl s)"

lemmas dl_defs = dl_cleanup_def dl_acquire_def dl_release_def dl_extend_def Let_def

text \<open>The operation reads no clock value at or past \<open>T\<close>.\<close>

fun reads_before :: "gotime \<Rightarrow> dl_op \<Rightarrow> bool" where
  "reads_before T (Cleanup now) = (now < T)"
| "reads_before T (Acquire now now' n r ttl) = (now < T)"
| "reads_before T (Release n r t) = True"
| "reads_before T (Extend now n r t ttl) = True"

text \<open>The operation is not the holder acting on its own lock \<open>l\<close> of resource \<open>r\<close>.\<close>

fun foreign :: "string \<Rightarrow> LockInfo \<Rightarrow> dl_op \<Rightarrow> bool" where
  "foreign r l (Cleanup now) = True"
| "foreign r l (Acquire now now' n r' ttl) = (r' = r \<longrightarrow> n \<noteq> li_holder l)"
| "foreign r l (Release n r' t) = (r' = r \<longrightarrow> n \<noteq> li_holder l \<or> t \<noteq> li_fencingToken l)"
| "foreign r l (Extend now n r' t ttl) = (r' = r \<longrightarrow> n \<noteq> li_holder l \<or> t \<noteq> li_fencingToken l)"

lemma dl_step_foreign:
  assumes "dl_locks s r = Some l" and "foreign r l e" and "reads_before (li_timestamp l + li_ttl l) e"
  shows "dl_locks (dl_step s e) r = Some l"
  using assms by (cases e) (auto simp: dl_defs split: option.splits)

lemma dl_run_foreign:
  assumes "dl_locks s r = Some l"
    and "\<forall>e \<in> set es. foreign r l e \<and> reads_before (li_timestamp l + li_ttl l) e"
  shows "dl_locks (run dl_step s es) r = Some l"
  using assms by (induction es arbitrary: s) (auto intro: dl_step_foreign)

section \<open>Fencing tokens\<close>

text \<open>The token of a new grant, if the operation makes one: an \<open>acquire\<close> that did not just
  refresh the caller's own lock.\<close>

definition granted :: "DistributedLock \<Rightarrow> dl_op \<Rightarrow> u64 option" where
  "granted s e =
     (case e of
        Acquire now now' n r ttl \<Rightarrow>
          (case dl_locks s r of
             Some lock \<Rightarrow> if now - li_timestamp lock < li_ttl lock then None
                         else Some (fst (fst (dl_acquire now now' n r ttl s)))
           | None \<Rightarrow> Some (fst (fst (dl_acquire now now' n r ttl s))))
      | _ \<Rightarrow> None)"

primrec grants :: "DistributedLock \<Rightarrow> dl_op list \<Rightarrow> u64 list" where
  "grants s [] = []"
| "grants s (e # es) =
     (case granted s e of Some t \<Rightarrow> [t] | None \<Rightarrow> []) @ grants (dl_step s e) es"

lemma granted_token:
  "granted s e = Some t \<Longrightarrow> t = dl_fencingToken s + 1 \<and> dl_fencingToken (dl_step s e) = t"
  by (cases e) (auto simp: granted_def dl_defs split: option.splits if_splits)

lemma not_granted_counter: "granted s e = None \<Longrightarrow> dl_fencingToken (dl_step s e) = dl_fencingToken s"
  by (cases e) (auto simp: granted_def dl_defs split: option.splits if_splits)

lemma unat_Suc_below: "unat (x :: u64) < 2 ^ 64 - 1 \<Longrightarrow> unat (x + 1) = Suc (unat x)"
  by (simp add: unat_word_ariths)

lemma dl_step_counter:
  assumes "unat (dl_fencingToken s) < 2 ^ 64 - 1"
  shows "unat (dl_fencingToken (dl_step s e)) =
           unat (dl_fencingToken s) + (if granted s e = None then 0 else 1)"
proof (cases "granted s e")
  case None
  then show ?thesis by (simp add: not_granted_counter)
next
  case (Some t)
  then show ?thesis using granted_token [OF Some] unat_Suc_below [OF assms] by simp
qed

lemma grants_bounds:
  assumes "unat (dl_fencingToken s) + length es < 2 ^ 64"
  shows "sorted_wrt (<) (grants s es) \<and> (\<forall>t \<in> set (grants s es). dl_fencingToken s < t)"
  using assms
proof (induction es arbitrary: s)
  case Nil
  then show ?case by simp
next
  case (Cons e es)
  let ?s = "dl_step s e"
  have top: "unat (dl_fencingToken s) < 2 ^ 64 - 1" using Cons.prems by simp
  note cnt = dl_step_counter [OF top, of e]
  have "unat (dl_fencingToken ?s) + length es < 2 ^ 64"
    using Cons.prems cnt by (auto split: if_splits)
  then have IH: "sorted_wrt (<) (grants ?s es)" "\<forall>t \<in> set (grants ?s es). dl_fencingToken ?s < t"
    using Cons.IH by blast+
  have le: "dl_fencingToken s \<le> dl_fencingToken ?s" using cnt by (simp add: word_le_nat_alt)
  show ?case
  proof (cases "granted s e")
    case None
    with IH le show ?thesis by auto
  next
    case (Some t)
    have "dl_fencingToken ?s = t" using granted_token [OF Some] by simp
    moreover have "dl_fencingToken s < dl_fencingToken ?s" using cnt Some by (simp add: word_less_nat_alt)
    ultimately show ?thesis using IH Some by auto
  qed
qed

text \<open>Table invariant: no lock carries a token the counter has not reached.\<close>

definition dl_inv :: "DistributedLock \<Rightarrow> bool" where
  "dl_inv s \<longleftrightarrow> (\<forall>r l. dl_locks s r = Some l \<longrightarrow> li_fencingToken l \<le> dl_fencingToken s) \<and>
     (\<forall>r r' l l'. dl_locks s r = Some l \<longrightarrow> dl_locks s r' = Some l' \<longrightarrow>
        li_fencingToken l = li_fencingToken l' \<longrightarrow> r = r')"

definition dl_room :: "DistributedLock \<Rightarrow> dl_op \<Rightarrow> bool" where
  "dl_room s e \<longleftrightarrow> unat (dl_fencingToken s) < 2 ^ 64 - 1"

lemma u64_less_Suc: "dl_room s e \<Longrightarrow> dl_fencingToken s < dl_fencingToken s + 1"
  by (simp add: dl_room_def word_less_nat_alt unat_Suc_below)

text \<open>What an operation can put into the table: an old token at its old place, or a new token above
  the counter.\<close>

lemma dl_step_entry:
  assumes "dl_locks (dl_step s e) r = Some l"
  shows "(\<exists>l0. dl_locks s r = Some l0 \<and> li_fencingToken l = li_fencingToken l0) \<or>
         (granted s e = Some (li_fencingToken l) \<and>
          (\<forall>r'. r' \<noteq> r \<longrightarrow> dl_locks (dl_step s e) r' = dl_locks s r'))"
  using assms by (cases e) (auto simp: dl_defs granted_def split: option.splits if_splits)

lemma dl_inv_step:
  assumes inv: "dl_inv s" and room: "dl_room s e"
  shows "dl_inv (dl_step s e)"
proof -
  let ?s = "dl_step s e"
  have le: "dl_fencingToken s \<le> dl_fencingToken ?s"
    using room dl_step_counter [of s e] by (simp add: dl_room_def word_le_nat_alt)
  have old: "li_fencingToken l \<le> dl_fencingToken s" if "dl_locks s r = Some l" for r l
    using inv that by (auto simp: dl_inv_def)
  have new: "dl_fencingToken ?s = t \<and> dl_fencingToken s < t" if "granted s e = Some t" for t
    using granted_token [OF that] u64_less_Suc [OF room] by simp
  have "li_fencingToken l \<le> dl_fencingToken ?s" if "dl_locks ?s r = Some l" for r l
    using dl_step_entry [OF that] old new le by (metis order.refl order.trans)
  moreover have "r = r'"
    if "dl_locks ?s r = Some l" "dl_locks ?s r' = Some l'" "li_fencingToken l = li_fencingToken l'"
    for r r' l l'
    using dl_step_entry [OF that(1)] dl_step_entry [OF that(2)] that inv old new
    unfolding dl_inv_def by (metis leD)
  ultimately show ?thesis unfolding dl_inv_def by blast
qed

interpretation ttl: guarded_object dl_step dl_inv dl_room
  by unfold_locales (rule dl_inv_step)

text \<open>Token \<open>t\<close> has been issued and no longer opens resource \<open>r\<close>.\<close>

definition lost :: "string \<Rightarrow> u64 \<Rightarrow> DistributedLock \<Rightarrow> bool" where
  "lost r t s \<longleftrightarrow> t \<le> dl_fencingToken s \<and> (\<forall>l. dl_locks s r = Some l \<longrightarrow> li_fencingToken l \<noteq> t)"

lemma lost_step:
  assumes "lost r t s" and room: "dl_room s e"
  shows "lost r t (dl_step s e)"
proof -
  have "dl_fencingToken s \<le> dl_fencingToken (dl_step s e)"
    using room dl_step_counter [of s e] by (simp add: dl_room_def word_le_nat_alt)
  moreover have "t \<le> dl_fencingToken s" using assms(1) by (simp add: lost_def)
  ultimately have "t \<le> dl_fencingToken (dl_step s e)" by (rule order.trans [rotated])
  moreover have "li_fencingToken l \<noteq> t" if "dl_locks (dl_step s e) r = Some l" for l
    using dl_step_entry [OF that] granted_token [of s e] u64_less_Suc [OF room] assms(1)
    unfolding lost_def by (metis leD)
  ultimately show ?thesis unfolding lost_def by blast
qed

interpretation fenced: guarded_object dl_step "lost r t" dl_room
  by unfold_locales (rule lost_step)

lemma lost_rejected:
  "lost r t s \<Longrightarrow> dl_release n r t s = (False, s) \<and> dl_extend now n r t d s = (False, s)"
  by (auto simp: lost_def dl_defs split: option.splits)

section \<open>Properties\<close>

text \<open>C1.  Mutual exclusion of the TTL lock.  While \<open>l\<close> is the record of resource \<open>r\<close>, any
  number of operations by other clients (clean-up ticks, acquisitions, releases and extensions that
  are not the holder's own) in any order, as long as the clock stays before the record's deadline,
  leave the record exactly as it was, and every acquisition attempt by another node then fails with
  token 0 and changes nothing.\<close>

theorem ttl_lock_exclusive:
  assumes "dl_locks s r = Some l"
    and "\<forall>e \<in> set es. foreign r l e \<and> reads_before (li_timestamp l + li_ttl l) e"
    and "n \<noteq> li_holder l" and "now < li_timestamp l + li_ttl l"
  shows "dl_locks (run dl_step s es) r = Some l \<and>
         dl_acquire now now' n r ttl (run dl_step s es) = ((0, False), run dl_step s es)"
  using dl_run_foreign [OF assms(1,2)] assms(3,4) by (simp add: dl_defs)

theorem ttl_lock_exclusive_witness:
  "dl_locks (run dl_step (snd (dl_acquire 0 0 ''a'' ''r'' 500 newDistributedLock))
      [Cleanup 100, Acquire 200 200 ''b'' ''r'' 500, Release ''b'' ''r'' 1]) ''r'' =
    Some \<lparr>li_holder = ''a'', li_timestamp = 0, li_ttl = 500, li_fencingToken = 1, li_version = 1\<rparr>"
  using ttl_lock_exclusive
    [of "snd (dl_acquire 0 0 ''a'' ''r'' 500 newDistributedLock)" "''r''"
        "\<lparr>li_holder = ''a'', li_timestamp = 0, li_ttl = 500, li_fencingToken = 1, li_version = 1\<rparr>"
        "[Cleanup 100, Acquire 200 200 ''b'' ''r'' 500, Release ''b'' ''r'' 1]" "''b''" 300 300 500]
  by (simp add: dl_acquire_def newDistributedLock_def)

text \<open>C2.  Fencing tokens.  Along any history short enough for the 64-bit counter not to wrap, the
  tokens of new grants (to any nodes, on any resources) are strictly increasing and exceed every token
  issued before; no table entry carries a token the counter has not reached and no two resources share
  a token.\<close>

theorem fencing_tokens_increase:
  assumes "dl_inv s" and "unat (dl_fencingToken s) + length es < 2 ^ 64"
  shows "sorted_wrt (<) (grants s es) \<and> (\<forall>t \<in> set (grants s es). dl_fencingToken s < t) \<and>
         dl_inv (run dl_step s es)"
proof -
  have "admissible dl_step dl_room s es"
    using assms(2)
  proof (induction es arbitrary: s)
    case (Cons e es)
    then have "unat (dl_fencingToken s) < 2 ^ 64 - 1" by simp
    with dl_step_counter [OF this, of e] Cons show ?case by (auto simp: dl_room_def split: if_splits)
  qed simp
  with assms show ?thesis using grants_bounds ttl.guarded_run by blast
qed

theorem fencing_tokens_increase_witness:
  "grants newDistributedLock
     [Acquire 0 0 ''a'' ''r'' 5, Acquire 1 1 ''b'' ''q'' 5, Cleanup 9, Acquire 10 10 ''b'' ''r'' 5]
     = [1, 2, 3] \<and>
   dl_inv (run dl_step newDistributedLock
     [Acquire 0 0 ''a'' ''r'' 5, Acquire 1 1 ''b'' ''q'' 5, Cleanup 9, Acquire 10 10 ''b'' ''r'' 5])"
proof -
  have "dl_inv newDistributedLock" by (simp add: dl_inv_def newDistributedLock_def)
  then show ?thesis
    using fencing_tokens_increase [of newDistributedLock
        "[Acquire 0 0 ''a'' ''r'' 5, Acquire 1 1 ''b'' ''q'' 5, Cleanup 9, Acquire 10 10 ''b'' ''r'' 5]"]
    by (simp add: newDistributedLock_def granted_def dl_defs keep_def)
qed

text \<open> A stale holder is fenced off for ever.  Once token \<open>t\<close> no longer opens resource
  \<open>r\<close> (the lock expired and was cleaned up, was taken over, or was released), then after any
  further history in which the counter has room, releasing or extending with \<open>t\<close> is refused
  without touching the state, whoever presents it.\<close>

theorem stale_token_rejected:
  assumes "lost r t s" and "admissible dl_step dl_room s es"
  shows "dl_release n r t (run dl_step s es) = (False, run dl_step s es) \<and>
         dl_extend now n r t d (run dl_step s es) = (False, run dl_step s es)"
  using assms by (intro lost_rejected fenced.guarded_run)

theorem stale_token_rejected_witness:
  "fst (dl_release ''a'' ''r'' 1
     (run dl_step (run dl_step newDistributedLock [Acquire 0 0 ''a'' ''r'' 5, Acquire 6 6 ''b'' ''r'' 5])
        [Release ''b'' ''r'' 2, Acquire 7 7 ''a'' ''r'' 5])) = False"
  using stale_token_rejected [of "''r''" 1
      "run dl_step newDistributedLock [Acquire 0 0 ''a'' ''r'' 5, Acquire 6 6 ''b'' ''r'' 5]"
      "[Release ''b'' ''r'' 2, Acquire 7 7 ''a'' ''r'' 5]" "''a''" 8 5]
  by (simp add: lost_def newDistributedLock_def dl_room_def dl_defs)

end
