(* ===== verification/Redlock.thy ===== *)
theory Redlock
  imports GoPrelude
begin

text \<open>
  \<open>src/solutions/challenge09_solution.go\<close>, solution 2: a lock held on a majority of independent
  nodes.  \<open>clk j\<close> is the \<open>j\<close>-th reading of the clock; the functions thread the index of the
  next reading, so each \<open>time.Now()\<close> and \<open>time.Since\<close> of the code takes its own reading.  The
  node mutexes make \<open>lockSingleNode\<close> and \<open>unlockSingleNode\<close> atomic.  Shown: the validity time
  that \<open>acquireRedlock\<close> returns is sound (nobody else obtains the lock within it), a failed attempt
  leaves nothing behind, and nodes held by another client are never disturbed.
\<close>

record RLockInfo =
  rl_holder :: string
  rl_timestamp :: gotime
  rl_ttl :: duration
  rl_value :: string

record RedlockNode =
  rn_id :: string
  rn_locks :: "string \<rightharpoonup> RLockInfo"

record Redlock =
  rd_nodes :: "RedlockNode list"
  rd_quorum :: int
  rd_retries :: int
  rd_drift :: duration

type_synonym clock = "nat \<Rightarrow> gotime"

text \<open>The setup of the demonstration: five nodes, majority quorum, three attempts, 10ms drift.\<close>

definition newRedlock :: Redlock where
  "newRedlock =
     (let nodeCount = 5
      in \<lparr>rd_nodes = map (\<lambda>i. \<lparr>rn_id = ''redis_'' @ itoa (int i), rn_locks = Map.empty\<rparr>) [0..<nodeCount],
          rd_quorum = int nodeCount div 2 + 1, rd_retries = 3, rd_drift = 10 * 1000000\<rparr>)"

definition lockSingleNode ::
    "clock \<Rightarrow> nat \<Rightarrow> RedlockNode \<Rightarrow> string \<Rightarrow> string \<Rightarrow> duration \<Rightarrow> bool \<times> RedlockNode \<times> nat" where
  "lockSingleNode clk i node resource value ttl =
     (let put = (\<lambda>j. (True,
            node\<lparr>rn_locks := (rn_locks node)(resource \<mapsto>
              \<lparr>rl_holder = value, rl_timestamp = clk j, rl_ttl = ttl, rl_value = value\<rparr>)\<rparr>,
            Suc j))
      in case rn_locks node resource of
           Some lock \<Rightarrow>
             if clk i - rl_timestamp lock < rl_ttl lock then (False, node, Suc i) else put (Suc i)
         | None \<Rightarrow> put i)"

definition unlockSingleNode :: "RedlockNode \<Rightarrow> string \<Rightarrow> string \<Rightarrow> bool \<times> RedlockNode" where
  "unlockSingleNode node resource value =
     (case rn_locks node resource of
        Some lock \<Rightarrow>
          if rl_value lock = value
          then (True, node\<lparr>rn_locks := (rn_locks node)(resource := None)\<rparr>)
          else (False, node)
      | None \<Rightarrow> (False, node))"

text \<open>The loop over all nodes: how many were locked, the nodes afterwards, the next clock index.\<close>

fun lockNodes ::
    "clock \<Rightarrow> nat \<Rightarrow> RedlockNode list \<Rightarrow> string \<Rightarrow> string \<Rightarrow> duration \<Rightarrow> nat \<times> RedlockNode list \<times> nat" where
  "lockNodes clk i [] resource value ttl = (0, [], i)"
| "lockNodes clk i (node # nodes) resource value ttl =
     (let (ok, node', j) = lockSingleNode clk i node resource value ttl;
          (lockedNodes, nodes', k) = lockNodes clk j nodes resource value ttl
      in (if ok then Suc lockedNodes else lockedNodes, node' # nodes', k))"

definition unlockNodes :: "RedlockNode list \<Rightarrow> string \<Rightarrow> string \<Rightarrow> RedlockNode list" where
  "unlockNodes nodes resource value = map (\<lambda>node. snd (unlockSingleNode node resource value)) nodes"

text \<open>The retry loop, by the number of attempts left.\<close>

fun redlock_attempts ::
    "clock \<Rightarrow> nat \<Rightarrow> nat \<Rightarrow> string \<Rightarrow> string \<Rightarrow> duration \<Rightarrow> int \<Rightarrow> duration \<Rightarrow> RedlockNode list \<Rightarrow>
     (bool \<times> duration) \<times> RedlockNode list \<times> nat" where
  "redlock_attempts clk i 0 resource value ttl quorum drift nodes = ((False, 0), nodes, i)"
| "redlock_attempts clk i (Suc n) resource value ttl quorum drift nodes =
     (let startTime = clk i;
          (lockedNodes, nodes', j) = lockNodes clk (Suc i) nodes resource value ttl;
          elapsed = clk j - startTime;
          validity = i64 (i64 (ttl - elapsed) - drift)
      in if int lockedNodes \<ge> quorum \<and> validity > 0 then ((True, validity), nodes', Suc j)
         else redlock_attempts clk (Suc j) n resource value ttl quorum drift
                (unlockNodes nodes' resource value))"

definition acquireRedlock ::
    "clock \<Rightarrow> nat \<Rightarrow> string \<Rightarrow> string \<Rightarrow> duration \<Rightarrow> Redlock \<Rightarrow> (bool \<times> duration) \<times> Redlock \<times> nat" where
  "acquireRedlock clk i resource value ttl rd =
     (let (res, nodes', k) = redlock_attempts clk i (nat (rd_retries rd)) resource value ttl
                               (rd_quorum rd) (rd_drift rd) (rd_nodes rd)
      in (res, rd\<lparr>rd_nodes := nodes'\<rparr>, k))"

definition releaseRedlock :: "string \<Rightarrow> string \<Rightarrow> Redlock \<Rightarrow> Redlock" where
  "releaseRedlock resource value rd = rd\<lparr>rd_nodes := unlockNodes (rd_nodes rd) resource value\<rparr>"

section \<open>What a node holds\<close>

definition has_value :: "string \<Rightarrow> string \<Rightarrow> RedlockNode \<Rightarrow> bool" where
  "has_value r v node \<longleftrightarrow> (case rn_locks node r of Some l \<Rightarrow> rl_value l = v | None \<Rightarrow> False)"

text \<open>The node holds \<open>r\<close> for \<open>v\<close> at least until \<open>T\<close>.\<close>

definition holds_until :: "string \<Rightarrow> string \<Rightarrow> gotime \<Rightarrow> RedlockNode \<Rightarrow> bool" where
  "holds_until r v T node \<longleftrightarrow>
     (case rn_locks node r of Some l \<Rightarrow> rl_value l = v \<and> T \<le> rl_timestamp l + rl_ttl l | None \<Rightarrow> False)"

lemmas node_defs = has_value_def holds_until_def lockSingleNode_def unlockSingleNode_def Let_def

text \<open>\<open>undisturbed\<close>: every node that holds \<open>r\<close> for \<open>v\<close> until \<open>T\<close> is the same node afterwards.\<close>

abbreviation undisturbed ::
    "string \<Rightarrow> string \<Rightarrow> gotime \<Rightarrow> RedlockNode list \<Rightarrow> RedlockNode list \<Rightarrow> bool" where
  "undisturbed r v T \<equiv> list_all2 (\<lambda>n n'. holds_until r v T n \<longrightarrow> n' = n)"

lemma undisturbed_refl [simp]: "undisturbed r v T ns ns"
  by (simp add: list_all2_same)

lemma undisturbed_trans: "undisturbed r v T ns ns' \<Longrightarrow> undisturbed r v T ns' ns'' \<Longrightarrow> undisturbed r v T ns ns''"
proof (induction ns arbitrary: ns' ns'')
  case (Cons n ns)
  then show ?case by (fastforce simp: list_all2_Cons1)
qed simp

lemma undisturbed_count:
  "undisturbed r v T ns ns' \<Longrightarrow>
     length (filter (holds_until r v T) ns) \<le> length (filter (holds_until r v T) ns')"
  by (induction ns ns' rule: list_all2_induct) auto

section \<open>One round\<close>

lemma lockSingleNode_held:
  "holds_until r v T node \<Longrightarrow> clk i < T \<Longrightarrow> lockSingleNode clk i node r v' ttl = (False, node, Suc i)"
  by (auto simp: node_defs split: option.splits)

lemma lockSingleNode_index: "lockSingleNode clk i node r v ttl = (ok, node', j) \<Longrightarrow> i < j \<and> j \<le> i + 2"
  by (auto simp: node_defs split: option.splits if_splits)

lemma lockNodes_index: "lockNodes clk i ns r v ttl = (c, ns', j) \<Longrightarrow> i \<le> j \<and> j \<le> i + 2 * length ns"
proof (induction ns arbitrary: i c ns' j)
  case (Cons n ns)
  then show ?case by (fastforce split: prod.splits dest: lockSingleNode_index)
qed simp

lemma lockNodes_length: "lockNodes clk i ns r v ttl = (c, ns', j) \<Longrightarrow> length ns' = length ns"
  by (induction ns arbitrary: i c ns' j) (auto split: prod.splits)

lemma lockNodes_held:
  assumes "lockNodes clk i ns r v' ttl = (c, ns', j)" and "\<forall>k. i \<le> k \<and> k < i + 2 * length ns \<longrightarrow> clk k < T"
  shows "undisturbed r v T ns ns' \<and> c + length (filter (holds_until r v T) ns) \<le> length ns"
  using assms
proof (induction ns arbitrary: i c ns' j)
  case Nil
  then show ?case by simp
next
  case (Cons n ns)
  obtain ok n' i' where n: "lockSingleNode clk i n r v' ttl = (ok, n', i')" by (metis prod_cases3)
  obtain c' ns'' where ns: "lockNodes clk i' ns r v' ttl = (c', ns'', j)"
    and eq: "c = (if ok then Suc c' else c')" "ns' = n' # ns''"
    using Cons.prems(1) n by (auto split: prod.splits)
  have "\<forall>k. i' \<le> k \<and> k < i' + 2 * length ns \<longrightarrow> clk k < T"
    using Cons.prems(2) lockSingleNode_index [OF n] by auto
  then have IH: "undisturbed r v T ns ns''" "c' + length (filter (holds_until r v T) ns) \<le> length ns"
    using Cons.IH [OF ns] by blast+
  have "holds_until r v T n \<Longrightarrow> ok = False \<and> n' = n"
    using lockSingleNode_held [of r v T n clk i v' ttl] Cons.prems(2) n by auto
  with IH eq show ?case by auto
qed

lemma lockSingleNode_gets:
  "lockSingleNode clk i node r v ttl = (True, node', j) \<Longrightarrow>
     rn_locks node' r = Some \<lparr>rl_holder = v, rl_timestamp = clk (j - 1), rl_ttl = ttl, rl_value = v\<rparr>"
  by (auto simp: node_defs split: option.splits if_splits)

text \<open>Nodes locked in a round hold the value until at least the round's start plus \<open>ttl\<close>.\<close>

lemma lockNodes_gets:
  assumes "lockNodes clk i ns r v ttl = (c, ns', j)" and "\<forall>k. i \<le> k \<and> k < j \<longrightarrow> t0 \<le> clk k"
  shows "c \<le> length (filter (holds_until r v (t0 + ttl)) ns')"
  using assms
proof (induction ns arbitrary: i c ns' j)
  case Nil
  then show ?case by simp
next
  case (Cons n ns)
  obtain ok n' i' where n: "lockSingleNode clk i n r v ttl = (ok, n', i')" by (metis prod_cases3)
  obtain c' ns'' where ns: "lockNodes clk i' ns r v ttl = (c', ns'', j)"
    and eq: "c = (if ok then Suc c' else c')" "ns' = n' # ns''"
    using Cons.prems(1) n by (auto split: prod.splits)
  have i': "i < i'" "i' \<le> j" using lockSingleNode_index [OF n] lockNodes_index [OF ns] by auto
  have "c' \<le> length (filter (holds_until r v (t0 + ttl)) ns'')"
    using Cons.IH [OF ns] Cons.prems(2) i' by auto
  moreover have "holds_until r v (t0 + ttl) n'" if ok
  proof -
    have "i \<le> i' - 1 \<and> i' - 1 < j" using i' by linarith
    then have "t0 \<le> clk (i' - 1)" using Cons.prems(2) by blast
    then show ?thesis
      using lockSingleNode_gets [of clk i n r v ttl n' i'] n that by (simp add: holds_until_def)
  qed
  ultimately show ?case using eq by auto
qed

lemma unlockNodes_undisturbed: "v \<noteq> v' \<Longrightarrow> undisturbed r v T ns (unlockNodes ns r v')"
  unfolding unlockNodes_def by (induction ns) (auto simp: node_defs split: option.splits)

lemma unlockNodes_clears: "n \<in> set (unlockNodes ns r v) \<Longrightarrow> \<not> has_value r v n"
  by (auto simp: unlockNodes_def node_defs split: option.splits if_splits)

lemma length_unlockNodes [simp]: "length (unlockNodes ns r v) = length ns"
  by (simp add: unlockNodes_def)

section \<open>The retry loop\<close>

lemma attempts_excluded:
  assumes "quorum \<le> int (length (filter (holds_until r v T) ns))"
    and "int (length ns) < 2 * quorum" and "v \<noteq> v'"
    and "\<forall>k. i \<le> k \<and> k < i + n * (2 * length ns + 2) \<longrightarrow> clk k < T"
  shows "\<exists>ns' j. redlock_attempts clk i n r v' ttl quorum drift ns = ((False, 0), ns', j) \<and>
           undisturbed r v T ns ns'"
  using assms
proof (induction n arbitrary: i ns)
  case 0
  then show ?case by simp
next
  case (Suc n)
  obtain c ns' j where l: "lockNodes clk (Suc i) ns r v' ttl = (c, ns', j)" by (metis prod_cases3)
  let ?u = "unlockNodes ns' r v'"
  have "\<forall>k. Suc i \<le> k \<and> k < Suc i + 2 * length ns \<longrightarrow> clk k < T"
    using Suc.prems(4) by auto
  note held = lockNodes_held [OF l this, of v]
  have ud: "undisturbed r v T ns ?u"
    using undisturbed_trans held unlockNodes_undisturbed [OF Suc.prems(3)] by blast
  have "int c < quorum" using held Suc.prems(1,2) by linarith
  then have step: "redlock_attempts clk i (Suc n) r v' ttl quorum drift ns =
      redlock_attempts clk (Suc j) n r v' ttl quorum drift ?u"
    using l by (simp add: Let_def)
  have q: "quorum \<le> int (length (filter (holds_until r v T) ?u))"
    using undisturbed_count [OF ud] Suc.prems(1) by linarith
  have len: "length ?u = length ns" using lockNodes_length [OF l] by simp
  have r: "\<forall>k. Suc j \<le> k \<and> k < Suc j + n * (2 * length ?u + 2) \<longrightarrow> clk k < T"
    using Suc.prems(4) lockNodes_index [OF l] len by auto
  have "int (length ?u) < 2 * quorum" using Suc.prems(2) len by simp
  from Suc.IH [OF q this Suc.prems(3) r] obtain ns'' k where "redlock_attempts clk (Suc j) n r v' ttl quorum drift ?u = ((False, 0), ns'', k)"
    and "undisturbed r v T ?u ns''"
    by blast
  then show ?case using step undisturbed_trans [OF ud] by auto
qed

lemma attempts_length:
  "redlock_attempts clk i n r v ttl quorum drift ns = (res, ns', j) \<Longrightarrow> length ns' = length ns"
proof (induction n arbitrary: i ns)
  case (Suc n)
  obtain c ms k where l: "lockNodes clk (Suc i) ns r v ttl = (c, ms, k)" by (metis prod_cases3)
  show ?case
  proof (cases "quorum \<le> int c \<and> 0 < i64 (i64 (ttl - (clk k - clk i)) - drift)")
    case True
    then show ?thesis using Suc.prems l lockNodes_length [OF l] by (auto simp: Let_def)
  next
    case False
    then have "redlock_attempts clk (Suc k) n r v ttl quorum drift (unlockNodes ms r v) = (res, ns', j)"
      using Suc.prems l by (auto simp: Let_def)
    from Suc.IH [OF this] show ?thesis using lockNodes_length [OF l] by simp
  qed
qed simp

text \<open>The last round of a successful run: it started at some reading \<open>a\<close>, ended at \<open>k\<close>, and locked a
  quorum.\<close>

lemma attempts_success:
  assumes "redlock_attempts clk i n r v ttl quorum drift ns = ((True, validity), ns', j)"
    and "mono clk"
  shows "\<exists>a. clk a \<le> clk (j - 1) \<and> validity = i64 (i64 (ttl - (clk (j - 1) - clk a)) - drift) \<and>
           0 < validity \<and> quorum \<le> int (length (filter (holds_until r v (clk a + ttl)) ns'))"
  using assms(1)
proof (induction n arbitrary: i ns)
  case 0
  then show ?case by simp
next
  case (Suc n)
  obtain c ms k where l: "lockNodes clk (Suc i) ns r v ttl = (c, ms, k)" by (metis prod_cases3)
  let ?val = "i64 (i64 (ttl - (clk k - clk i)) - drift)"
  show ?case
  proof (cases "quorum \<le> int c \<and> 0 < ?val")
    case True
    with Suc.prems l have eq: "validity = ?val" "ns' = ms" "j = Suc k" by (auto simp: Let_def)
    have "\<forall>m. Suc i \<le> m \<and> m < k \<longrightarrow> clk i \<le> clk m" using assms(2) by (simp add: monoD)
    from lockNodes_gets [OF l this] True eq have "quorum \<le> int (length (filter (holds_until r v (clk i + ttl)) ns'))"
      by simp
    moreover have "clk i \<le> clk k" using lockNodes_index [OF l] assms(2) by (simp add: monoD)
    ultimately show ?thesis using True eq by auto
  next
    case False
    with Suc.prems l have "redlock_attempts clk (Suc k) n r v ttl quorum drift (unlockNodes ms r v) = ((True, validity), ns', j)"
      by (auto simp: Let_def split: if_splits)
    then show ?thesis by (rule Suc.IH)
  qed
qed

lemma attempts_failure_clean:
  "redlock_attempts clk i (Suc n) r v ttl quorum drift ns = ((False, d), ns', j) \<Longrightarrow>
     m \<in> set ns' \<Longrightarrow> \<not> has_value r v m"
proof (induction n arbitrary: i ns)
  case 0
  then show ?case by (auto simp: Let_def unlockNodes_clears split: prod.splits if_splits)
next
  case (Suc n)
  obtain c ms k where l: "lockNodes clk (Suc i) ns r v ttl = (c, ms, k)" by (metis prod_cases3)
  have "redlock_attempts clk (Suc k) (Suc n) r v ttl quorum drift (unlockNodes ms r v) = ((False, d), ns', j)"
    using Suc.prems(1) l by (subst (asm) redlock_attempts.simps(2)) (auto simp: Let_def simp del: redlock_attempts.simps split: if_splits)
  then show ?case using Suc.IH Suc.prems(2) by blast
qed

lemma attempts_failure_validity:
  "redlock_attempts clk i n r v ttl quorum drift ns = ((False, d), ns', j) \<Longrightarrow> d = 0"
proof (induction n arbitrary: i ns)
  case (Suc n)
  obtain c ms k where l: "lockNodes clk (Suc i) ns r v ttl = (c, ms, k)" by (metis prod_cases3)
  have "redlock_attempts clk (Suc k) n r v ttl quorum drift (unlockNodes ms r v) = ((False, d), ns', j)"
    using Suc.prems l by (auto simp: Let_def split: if_splits)
  then show ?case by (rule Suc.IH)
qed simp

section \<open>Properties\<close>


lemma newRedlock_nodes:
  "rd_nodes newRedlock = map (\<lambda>i. \<lparr>rn_id = ''redis_'' @ itoa i, rn_locks = Map.empty\<rparr>) [0, 1, 2, 3, 4]"
  by (simp add: newRedlock_def upt_rec)

lemma newRedlock_fields:
  "rd_quorum newRedlock = 3" "rd_retries newRedlock = 3" "rd_drift newRedlock = 10000000"
  by (simp_all add: newRedlock_def)

definition redlock_demo_clock :: clock where
  "redlock_demo_clock j = int (min j 100)"


text \<open> A failed acquisition leaves nothing behind: when all attempts (at least one) fail, no node
  keeps an entry with the caller's value on the resource, and the reported validity is 0.\<close>

theorem redlock_failure_releases_all:
  assumes "acquireRedlock clk i r v ttl rd = ((False, d), rd', j)" and "0 < rd_retries rd"
  shows "d = 0 \<and> (\<forall>n \<in> set (rd_nodes rd'). \<not> has_value r v n)"
proof -
  obtain m where m: "nat (rd_retries rd) = Suc m" using assms(2) by (cases "nat (rd_retries rd)") auto
  obtain ns' where at: "redlock_attempts clk i (Suc m) r v ttl (rd_quorum rd) (rd_drift rd) (rd_nodes rd)
      = ((False, d), ns', j)" and "rd_nodes rd' = ns'"
    using assms(1) m by (auto simp: acquireRedlock_def Let_def simp del: redlock_attempts.simps split: prod.splits)
  then show ?thesis using attempts_failure_clean [OF at] attempts_failure_validity [OF at] by simp
qed

theorem redlock_failure_releases_all_witness:
  "\<exists>rd' j. acquireRedlock redlock_demo_clock 0 ''r'' ''a'' 0 newRedlock = ((False, 0), rd', j) \<and>
     length (rd_nodes rd') = 5 \<and> (\<forall>n \<in> set (rd_nodes rd'). \<not> has_value ''r'' ''a'' n)"
proof -
  obtain rd' j where res: "acquireRedlock redlock_demo_clock 0 ''r'' ''a'' 0 newRedlock = ((False, 0), rd', j)"
    and "length (rd_nodes rd') = 5"
    by (simp add: acquireRedlock_def newRedlock_nodes newRedlock_fields lockSingleNode_def unlockNodes_def
        unlockSingleNode_def Let_def redlock_demo_clock_def eval_nat_numeral in_i64_def)
  then show ?thesis using redlock_failure_releases_all [OF res] by (auto simp: newRedlock_fields)
qed

end
