(* ===== verification/LeaseLock.thy ===== *)
theory LeaseLock
  imports GoPrelude
begin

text \<open>
  \<open>src/solutions/challenge09_solution.go\<close>, solution 3: leases.  \<open>acquireLease\<close> hands out the very
  pointer it stores in the table, and \<open>renewLease\<close> reads and writes through the caller's pointer, so
  the model keeps an explicit store: \<open>lm_heap\<close> holds the \<open>Lease\<close> objects, an address is an
  index, and the table maps resources to addresses.  Shown: identifiers are unique, no two resources
  share an object, a renewal is decided by pointer identity alone, and nobody else can take, renew or
  release an unexpired lease.
\<close>

record Lease =
  ls_ID :: string
  ls_Holder :: string
  ls_ExpiresAt :: gotime
  ls_Version :: int

record LeaseManager =
  lm_leases :: "string \<rightharpoonup> nat"
  lm_heap :: "Lease list"
  lm_counter :: int

datatype lease_error = AlreadyLeased string | LeaseNotFound | LeaseModified | InvalidLeaseID

definition newLeaseManager :: LeaseManager where
  "newLeaseManager = \<lparr>lm_leases = Map.empty, lm_heap = [], lm_counter = 0\<rparr>"

text \<open>The branch of \<open>acquireLease\<close> that allocates a lease.\<close>

definition createLease :: "gotime \<Rightarrow> string \<Rightarrow> string \<Rightarrow> duration \<Rightarrow> LeaseManager \<Rightarrow>
    (lease_error + nat) \<times> LeaseManager" where
  "createLease now resource holder d lm =
     (let n = i64 (lm_counter lm + 1);
          lease = \<lparr>ls_ID = ''lease_'' @ itoa n, ls_Holder = holder, ls_ExpiresAt = now + d, ls_Version = 1\<rparr>;
          a = length (lm_heap lm)
      in (Inr a, lm\<lparr>lm_counter := n, lm_heap := lm_heap lm @ [lease],
                    lm_leases := (lm_leases lm)(resource \<mapsto> a)\<rparr>))"

definition acquireLease :: "gotime \<Rightarrow> string \<Rightarrow> string \<Rightarrow> duration \<Rightarrow> LeaseManager \<Rightarrow>
    (lease_error + nat) \<times> LeaseManager" where
  "acquireLease now resource holder d lm =
     (case lm_leases lm resource of
        Some a \<Rightarrow>
          (let lease = lm_heap lm ! a
           in if now < ls_ExpiresAt lease then
                if ls_Holder lease = holder then
                  (Inr a, lm\<lparr>lm_heap := (lm_heap lm)[a :=
                     lease\<lparr>ls_ExpiresAt := now + d, ls_Version := i64 (ls_Version lease + 1)\<rparr>]\<rparr>)
                else (Inl (AlreadyLeased (ls_Holder lease)), lm)
              else createLease now resource holder d
                     (lm\<lparr>lm_leases := (lm_leases lm)(resource := None)\<rparr>))
      | None \<Rightarrow> createLease now resource holder d lm)"

text \<open>\<open>a\<close> is the caller's pointer; the last assignment is \<open>*lease = *current\<close>.\<close>

definition renewLease :: "gotime \<Rightarrow> string \<Rightarrow> nat \<Rightarrow> duration \<Rightarrow> LeaseManager \<Rightarrow>
    (lease_error + unit) \<times> LeaseManager" where
  "renewLease now resource a d lm =
     (case lm_leases lm resource of
        None \<Rightarrow> (Inl LeaseNotFound, lm)
      | Some b \<Rightarrow>
          (let current = lm_heap lm ! b; lease = lm_heap lm ! a
           in if ls_ID current \<noteq> ls_ID lease \<or> ls_Version current \<noteq> ls_Version lease
              then (Inl LeaseModified, lm)
              else
                (let current' = current\<lparr>ls_ExpiresAt := now + d, ls_Version := i64 (ls_Version current + 1)\<rparr>
                 in (Inr (), lm\<lparr>lm_heap := ((lm_heap lm)[b := current'])[a := current']\<rparr>))))"

definition releaseLease :: "string \<Rightarrow> nat \<Rightarrow> LeaseManager \<Rightarrow> (lease_error + unit) \<times> LeaseManager" where
  "releaseLease resource a lm =
     (case lm_leases lm resource of
        None \<Rightarrow> (Inl LeaseNotFound, lm)
      | Some b \<Rightarrow>
          if ls_ID (lm_heap lm ! b) \<noteq> ls_ID (lm_heap lm ! a) then (Inl InvalidLeaseID, lm)
          else (Inr (), lm\<lparr>lm_leases := (lm_leases lm)(resource := None)\<rparr>))"

definition lease_cleanup :: "gotime \<Rightarrow> LeaseManager \<Rightarrow> LeaseManager" where
  "lease_cleanup now lm =
     lm\<lparr>lm_leases := keep (\<lambda>_ b. \<not> now > ls_ExpiresAt (lm_heap lm ! b)) (lm_leases lm)\<rparr>"

lemmas lease_defs = createLease_def acquireLease_def renewLease_def releaseLease_def lease_cleanup_def Let_def

section \<open>Histories\<close>

datatype lm_op =
    LAcquire gotime string string duration
  | LRenew gotime string nat duration
  | LRelease string nat
  | LCleanup gotime

fun lm_step :: "LeaseManager \<Rightarrow> lm_op \<Rightarrow> LeaseManager" where
  "lm_step s (LAcquire now r h d) = snd (acquireLease now r h d s)"
| "lm_step s (LRenew now r a d) = snd (renewLease now r a d s)"
| "lm_step s (LRelease r a) = snd (releaseLease r a s)"
| "lm_step s (LCleanup now) = lease_cleanup now s"

text \<open>Callers only pass pointers they obtained, and the 64-bit counter has room.\<close>

fun lm_ok :: "LeaseManager \<Rightarrow> lm_op \<Rightarrow> bool" where
  "lm_ok s (LAcquire now r h d) = (int (length (lm_heap s)) < 2 ^ 63 - 1)"
| "lm_ok s (LRenew now r a d) = (a < length (lm_heap s))"
| "lm_ok s (LRelease r a) = (a < length (lm_heap s))"
| "lm_ok s (LCleanup now) = True"

definition lm_inv :: "LeaseManager \<Rightarrow> bool" where
  "lm_inv s \<longleftrightarrow> lm_counter s = int (length (lm_heap s)) \<and>
     (\<forall>k < length (lm_heap s). ls_ID (lm_heap s ! k) = ''lease_'' @ itoa (int k + 1)) \<and>
     (\<forall>r a. lm_leases s r = Some a \<longrightarrow> a < length (lm_heap s)) \<and>
     (\<forall>r r' a. lm_leases s r = Some a \<longrightarrow> lm_leases s r' = Some a \<longrightarrow> r = r')"

lemma lm_invD:
  assumes "lm_inv s"
  shows "lm_counter s = int (length (lm_heap s))"
    and "k < length (lm_heap s) \<Longrightarrow> ls_ID (lm_heap s ! k) = ''lease_'' @ itoa (int k + 1)"
    and "lm_leases s r = Some a \<Longrightarrow> a < length (lm_heap s)"
    and "lm_leases s r = Some a \<Longrightarrow> lm_leases s r' = Some a \<Longrightarrow> r = r'"
  using assms by (auto simp: lm_inv_def)

lemma lm_inv_ID:
  "lm_inv s \<Longrightarrow> a < length (lm_heap s) \<Longrightarrow> b < length (lm_heap s) \<Longrightarrow>
     ls_ID (lm_heap s ! a) = ls_ID (lm_heap s ! b) \<longleftrightarrow> a = b"
  by (auto simp: lm_invD(2))

text \<open>Writing an object in place keeps the invariant when the identifier stays.\<close>

lemma lm_inv_write:
  "lm_inv s \<Longrightarrow> ls_ID x = ls_ID (lm_heap s ! a) \<Longrightarrow> lm_inv (s\<lparr>lm_heap := (lm_heap s)[a := x]\<rparr>)"
  unfolding lm_inv_def by simp (metis nth_list_update_eq nth_list_update_neq)

lemma lm_inv_table: "lm_inv s \<Longrightarrow> m \<subseteq>\<^sub>m lm_leases s \<Longrightarrow> lm_inv (s\<lparr>lm_leases := m\<rparr>)"
  unfolding lm_inv_def map_le_def by simp (metis domI)

lemma lm_inv_create:
  assumes "lm_inv s" and "int (length (lm_heap s)) < 2 ^ 63 - 1"
  shows "lm_inv (snd (createLease now r h d s))"
proof -
  have "i64 (lm_counter s + 1) = int (length (lm_heap s)) + 1"
    using assms by (simp add: lm_invD(1) in_i64_def)
  then show ?thesis
    using assms(1) unfolding lm_inv_def createLease_def Let_def
    by (auto simp: nth_append less_Suc_eq)
qed

lemma lm_inv_acquire:
  assumes "lm_inv s" and "int (length (lm_heap s)) < 2 ^ 63 - 1"
  shows "lm_inv (snd (acquireLease now r h d s))"
  using assms lm_inv_create [OF assms]
    lm_inv_create [OF lm_inv_table [OF assms(1), of "(lm_leases s)(r := None)"]]
  by (auto simp: acquireLease_def Let_def map_le_def intro!: lm_inv_write split: option.splits)

text \<open>Renewal is decided by pointer identity.\<close>

lemma renewLease_outcome:
  assumes "lm_inv s" and "a < length (lm_heap s)"
  shows "renewLease now r a d s =
    (case lm_leases s r of
       None \<Rightarrow> (Inl LeaseNotFound, s)
     | Some b \<Rightarrow>
         if b = a
         then (Inr (), s\<lparr>lm_heap := (lm_heap s)[a := (lm_heap s ! a)
                 \<lparr>ls_ExpiresAt := now + d, ls_Version := i64 (ls_Version (lm_heap s ! a) + 1)\<rparr>]\<rparr>)
         else (Inl LeaseModified, s))"
  using assms lm_inv_ID [OF assms(1)] lm_invD(3) [OF assms(1)]
  by (auto simp: renewLease_def Let_def split: option.splits)

lemma lm_inv_step: "lm_inv s \<Longrightarrow> lm_ok s e \<Longrightarrow> lm_inv (lm_step s e)"
proof (cases e)
  case (LAcquire now r h d)
  assume "lm_inv s" "lm_ok s e"
  with LAcquire show ?thesis by (simp add: lm_inv_acquire)
next
  case (LRenew now r a d)
  assume "lm_inv s" "lm_ok s e"
  with LRenew show ?thesis
    by (auto simp: renewLease_outcome intro!: lm_inv_write split: option.splits)
next
  case (LRelease r a)
  assume "lm_inv s"
  with LRelease show ?thesis
    by (auto simp: releaseLease_def map_le_def intro!: lm_inv_table split: option.splits)
next
  case (LCleanup now)
  assume "lm_inv s"
  with LCleanup show ?thesis
    by (auto simp: lease_cleanup_def map_le_def keep_def intro!: lm_inv_table split: option.splits)
qed

interpretation lease: guarded_object lm_step lm_inv lm_ok
  by unfold_locales (rule lm_inv_step)

section \<open>Exclusivity\<close>

text \<open>The operation is not one by the holder of lease \<open>l\<close> (object \<open>a\<close>, resource \<open>r\<close>) on its own
  lease, and reads no clock value past the expiry.\<close>

fun lease_foreign :: "string \<Rightarrow> nat \<Rightarrow> Lease \<Rightarrow> lm_op \<Rightarrow> bool" where
  "lease_foreign r a l (LAcquire now r' h d) = (r' = r \<longrightarrow> h \<noteq> ls_Holder l \<and> now < ls_ExpiresAt l)"
| "lease_foreign r a l (LRenew now r' b d) = (r' = r \<longrightarrow> b \<noteq> a)"
| "lease_foreign r a l (LRelease r' b) = (r' = r \<longrightarrow> b \<noteq> a)"
| "lease_foreign r a l (LCleanup now) = (now \<le> ls_ExpiresAt l)"

definition leased :: "string \<Rightarrow> nat \<Rightarrow> Lease \<Rightarrow> LeaseManager \<Rightarrow> bool" where
  "leased r a l s \<longleftrightarrow> lm_inv s \<and> lm_leases s r = Some a \<and> lm_heap s ! a = l"

lemma leased_step:
  assumes l: "leased r a l s" and ok: "lm_ok s e \<and> lease_foreign r a l e"
  shows "leased r a l (lm_step s e)"
proof -
  have inv: "lm_inv s" and tab: "lm_leases s r = Some a" and obj: "lm_heap s ! a = l"
    using l by (auto simp: leased_def)
  have a: "a < length (lm_heap s)" using lm_invD(3) [OF inv tab] .
  have other: "b \<noteq> a" if "lm_leases s r' = Some b" "r' \<noteq> r" for r' b
    using lm_invD(4) [OF inv tab] that by blast
  have "lm_leases (lm_step s e) r = Some a \<and> lm_heap (lm_step s e) ! a = l"
  proof (cases e)
    case (LAcquire now r' h d)
    then show ?thesis
      using ok tab obj a other
      by (cases "r' = r") (auto simp: acquireLease_def createLease_def Let_def nth_append split: option.splits)
  next
    case (LRenew now r' b d)
    then have "b < length (lm_heap s)" using ok by simp
    then show ?thesis
      using LRenew ok tab obj other by (cases "r' = r") (auto simp: renewLease_outcome [OF inv] split: option.splits)
  next
    case (LRelease r' b)
    then have "b < length (lm_heap s)" using ok by simp
    then show ?thesis
      using LRelease ok tab obj lm_inv_ID [OF inv a]
      by (cases "r' = r") (auto simp: releaseLease_def split: option.splits)
  next
    case (LCleanup now)
    then show ?thesis using ok tab obj by (simp add: lease_cleanup_def)
  qed
  then show ?thesis using lm_inv_step inv ok by (simp add: leased_def)
qed

interpretation held: guarded_object lm_step "leased r a l" "\<lambda>s e. lm_ok s e \<and> lease_foreign r a l e"
  by unfold_locales (rule leased_step)

section \<open>Properties\<close>

text \<open> Lease exclusivity.  Starting with a lease \<open>l\<close> installed for \<open>r\<close>, any history of
  operations by others (acquisitions by other holders before the expiry, renewals and releases with
  other lease pointers or on other resources, clean-up not past the expiry) leaves the lease in place
  and unmodified; a further acquisition by another holder is then refused naming the holder.\<close>

theorem lease_exclusive:
  assumes "lm_inv s" and "lm_leases s r = Some a" and "lm_heap s ! a = l"
    and "admissible lm_step (\<lambda>s e. lm_ok s e \<and> lease_foreign r a l e) s es"
    and "h \<noteq> ls_Holder l" and "now < ls_ExpiresAt l"
  shows "lm_leases (run lm_step s es) r = Some a \<and> lm_heap (run lm_step s es) ! a = l \<and>
         acquireLease now r h d (run lm_step s es) = (Inl (AlreadyLeased (ls_Holder l)), run lm_step s es)"
proof -
  have "leased r a l (run lm_step s es)"
    using assms(1-4) by (intro held.guarded_run) (auto simp: leased_def)
  then show ?thesis using assms(5,6) by (simp add: leased_def acquireLease_def)
qed

theorem lease_exclusive_witness:
  "fst (acquireLease 200 ''r'' ''b'' 300
     (run lm_step (run lm_step newLeaseManager [LAcquire 0 ''r'' ''a'' 300, LAcquire 0 ''q'' ''b'' 300])
        [LAcquire 100 ''r'' ''b'' 300, LRenew 150 ''r'' 1 300, LRelease ''r'' 1, LCleanup 300]))
   = Inl (AlreadyLeased ''a'')"
proof -
  let ?s = "run lm_step newLeaseManager [LAcquire 0 ''r'' ''a'' 300, LAcquire 0 ''q'' ''b'' 300]"
  have start: "lm_inv newLeaseManager" by (simp add: lm_inv_def newLeaseManager_def)
  have i2: "i64 2 = 2" "i64 1 = 1" by (simp_all add: in_i64_def)
  have "lm_inv ?s"
    by (rule lease.guarded_run [OF start]) (simp add: newLeaseManager_def lease_defs i2)
  then show ?thesis
    using lease_exclusive [of ?s "''r''" 0 "lm_heap ?s ! 0"
        "[LAcquire 100 ''r'' ''b'' 300, LRenew 150 ''r'' 1 300, LRelease ''r'' 1, LCleanup 300]" "''b''" 200 300]
    by (simp add: newLeaseManager_def lease_defs i2)
qed

text \<open> Renewal is decided by pointer identity.  In every reachable state, \<open>renewLease\<close> with a
  pointer the caller obtained succeeds exactly when that object is the one installed for the resource,
  and reports a modified lease otherwise: because the caller's pointer is the table's own object, the
  version comparison can never be what rejects a renewal.\<close>

theorem renew_by_pointer_identity:
  assumes "admissible lm_step lm_ok newLeaseManager es"
    and "s = run lm_step newLeaseManager es" and "a < length (lm_heap s)"
  shows "fst (renewLease now r a d s) =
    (case lm_leases s r of
       None \<Rightarrow> Inl LeaseNotFound
     | Some b \<Rightarrow> if b = a then Inr () else Inl LeaseModified)"
proof -
  have "lm_inv newLeaseManager" by (simp add: lm_inv_def newLeaseManager_def)
  then have "lm_inv s" using assms(1,2) lease.guarded_run by blast
  then show ?thesis using assms(3) by (auto simp: renewLease_outcome split: option.splits)
qed

theorem renew_by_pointer_identity_witness:
  "fst (renewLease 50 ''r'' 0 300
     (run lm_step newLeaseManager [LAcquire 0 ''r'' ''a'' 300, LAcquire 10 ''r'' ''a'' 300])) = Inr ()"
  using renew_by_pointer_identity [of "[LAcquire 0 ''r'' ''a'' 300, LAcquire 10 ''r'' ''a'' 300]"
      "run lm_step newLeaseManager [LAcquire 0 ''r'' ''a'' 300, LAcquire 10 ''r'' ''a'' 300]" 0 50 "''r''" 300]
  by (simp add: newLeaseManager_def lease_defs)

end
