(* ===== verification/CausalOrder.thy ===== *)
theory CausalOrder
  imports GoPrelude
begin

text \<open>
  Causal broadcast with vector clocks (\<open>src/solutions/challenge10_solution.go\<close>,
  \<open>solution1_VectorClock\<close>).  A vector clock is a Go map from node names to \<open>int\<close>; since the code
  ranges over it, it is an association list.  The receiving goroutine's local \<open>pending\<close> slice is a
  field of the node.  The second half composes the nodes with the broadcast goroutine: any message sent
  may reach any other node at any time.  Shown: deliveries respect the happened-before order in every
  execution, no message is lost or invented, and the single scan of \<open>pending\<close> can leave a message that
  is ready undelivered.
\<close>

section \<open>Vector clocks\<close>

type_synonym VectorClock = "(string \<times> int) list"

record VMessage =
  vm_ID :: string
  vm_Sender :: string
  vm_Content :: string
  vm_VC :: VectorClock

record VNode =
  vn_ID :: string
  vn_VC :: VectorClock
  vn_delivered :: "VMessage list"
  vn_pending :: "VMessage list"
  vn_running :: bool

abbreviation vget :: "VectorClock \<Rightarrow> string \<Rightarrow> int" where
  "vget vc k \<equiv> get0 (map_of vc) k"

definition newVectorClock :: "string list \<Rightarrow> VectorClock" where
  "newVectorClock nodeIDs = fold (\<lambda>nid vc. AList.update nid 0 vc) nodeIDs []"

definition copyVectorClock :: "VectorClock \<Rightarrow> VectorClock" where
  "copyVectorClock vc = fold (\<lambda>(k, v) c. AList.update k v c) vc []"

definition isCausallyReady :: "VMessage \<Rightarrow> VNode \<Rightarrow> bool" where
  "isCausallyReady msg node =
     (let copy = copyVectorClock (vn_VC node);
          expectedVC = AList.update (vm_Sender msg) (i64 (vget copy (vm_Sender msg) + 1)) copy
      in vget (vm_VC msg) (vm_Sender msg) = vget expectedVC (vm_Sender msg) \<and>
         (\<forall>(k, v) \<in> set (vm_VC msg). k \<noteq> vm_Sender msg \<longrightarrow> \<not> v > vget (vn_VC node) k))"

definition createNode :: "string \<Rightarrow> string list \<Rightarrow> VNode" where
  "createNode nid nodeIDs =
     \<lparr>vn_ID = nid, vn_VC = newVectorClock nodeIDs, vn_delivered = [], vn_pending = [], vn_running = True\<rparr>"

definition sendMessage :: "VNode \<Rightarrow> string \<Rightarrow> VNode \<times> VMessage" where
  "sendMessage node content =
     (let vc = AList.update (vn_ID node) (i64 (vget (vn_VC node) (vn_ID node) + 1)) (vn_VC node);
          cp = copyVectorClock vc
      in (node\<lparr>vn_VC := vc\<rparr>,
          \<lparr>vm_ID = vn_ID node @ ''_'' @ itoa (vget cp (vn_ID node)), vm_Sender = vn_ID node,
           vm_Content = content, vm_VC = cp\<rparr>))"

text \<open>The merge loop and the append under the node's lock.\<close>

definition mergeVC :: "VectorClock \<Rightarrow> VectorClock \<Rightarrow> VectorClock" where
  "mergeVC mvc vc = fold (\<lambda>(k, v) c. if v > vget c k then AList.update k v c else c) mvc vc"

definition deliverMessage :: "VMessage \<Rightarrow> VNode \<Rightarrow> VNode" where
  "deliverMessage msg node =
     node\<lparr>vn_VC := mergeVC (vm_VC msg) (vn_VC node), vn_delivered := vn_delivered node @ [msg]\<rparr>"

text \<open>The re-check of the pending messages: the node after it and \<open>newPending\<close>.\<close>

fun recheckPending :: "VMessage list \<Rightarrow> VNode \<Rightarrow> VNode \<times> VMessage list" where
  "recheckPending [] node = (node, [])"
| "recheckPending (pm # pending) node =
     (if isCausallyReady pm node then recheckPending pending (deliverMessage pm node)
      else (let (node', newPending) = recheckPending pending node in (node', pm # newPending)))"

text \<open>One message taken from the inbox by \<open>processMessages\<close>.\<close>

definition processMessage :: "VMessage \<Rightarrow> VNode \<Rightarrow> VNode" where
  "processMessage msg node =
     (if \<not> vn_running node then node
      else if vm_Content msg = ''STOP'' then node\<lparr>vn_running := False\<rparr>
      else if isCausallyReady msg node then
        (let (node', newPending) = recheckPending (vn_pending node) (deliverMessage msg node)
         in node'\<lparr>vn_pending := newPending\<rparr>)
      else node\<lparr>vn_pending := vn_pending node @ [msg]\<rparr>)"

section \<open>The nodes and the broadcast\<close>

text \<open>The system: the nodes, and the messages sent so far, each with what its sender had sent or
  delivered before (a ghost component: the causal past).  \<open>VRecv n i\<close> hands the \<open>i\<close>-th message sent to
  node \<open>n\<close>; the broadcast goroutine skips the sender.\<close>

record VSystem =
  vs_node :: "string \<Rightarrow> VNode"
  vs_sent :: "(VMessage \<times> VMessage list) list"

datatype vevent = VSend string string | VRecv string nat

fun broadcast :: "VSystem \<Rightarrow> vevent \<Rightarrow> VSystem" where
  "broadcast s (VSend n content) =
     (let (node', msg) = sendMessage (vs_node s n) content
      in s\<lparr>vs_node := (vs_node s)(n := node'),
           vs_sent := vs_sent s @ [(msg, vn_delivered (vs_node s n) @
             filter (\<lambda>m. vm_Sender m = n) (map fst (vs_sent s)))]\<rparr>)"
| "broadcast s (VRecv n i) =
     (if i < length (vs_sent s) \<and> vm_Sender (fst (vs_sent s ! i)) \<noteq> n
      then s\<lparr>vs_node := (vs_node s)(n := processMessage (fst (vs_sent s ! i)) (vs_node s n))\<rparr>
      else s)"

definition startNodes :: "string list \<Rightarrow> VSystem" where
  "startNodes nodeIDs = \<lparr>vs_node = (\<lambda>nid. createNode nid nodeIDs), vs_sent = []\<rparr>"

section \<open>Vector clock lemmas\<close>

lemma fold_update_zero: "\<forall>p \<in> set vc. snd p = 0 \<Longrightarrow> \<forall>p \<in> set (fold (\<lambda>nid vc. AList.update nid (0::int) vc) ids vc). snd p = 0"
proof (induction ids arbitrary: vc)
  case (Cons a ids)
  have "\<forall>p \<in> set (AList.update a 0 vc). snd p = 0"
    using Cons.prems by (induction vc) auto
  then show ?case using Cons.IH by simp
qed simp

lemma vget_zero: "\<forall>p \<in> set vc. snd p = 0 \<Longrightarrow> vget vc k = 0"
  by (auto simp: get0_def split: option.splits dest!: map_of_SomeD)

lemma vget_new [simp]: "vget (newVectorClock ids) k = 0"
  unfolding newVectorClock_def by (rule vget_zero, rule fold_update_zero) simp

lemma distinct_fold_update:
  "distinct (map fst c) \<Longrightarrow> distinct (map fst (fold (\<lambda>x c. AList.update (f x) (g x) c) xs c))"
  by (induction xs arbitrary: c) (auto simp: distinct_update)

lemma distinct_new [simp]: "distinct (map fst (newVectorClock ids))"
  unfolding newVectorClock_def using distinct_fold_update [of "[]" "\<lambda>x. x" "\<lambda>_. 0"] by simp

lemma distinct_copy [simp]: "distinct (map fst (copyVectorClock vc))"
  unfolding copyVectorClock_def case_prod_unfold by (rule distinct_fold_update) simp

lemma map_of_fold_update:
  "distinct (map fst xs) \<Longrightarrow> map_of (fold (\<lambda>(k, v) c. AList.update k v c) xs c) = map_of c ++ map_of xs"
proof (induction xs arbitrary: c)
  case (Cons x xs)
  obtain j w where x: "x = (j, w)" by fastforce
  with Cons.prems have "map_of xs j = None" by (auto simp: map_of_eq_None_iff)
  then show ?case using Cons by (auto simp: x update_conv' map_add_def fun_eq_iff split: option.splits)
qed simp

lemma map_of_copy [simp]: "distinct (map fst vc) \<Longrightarrow> map_of (copyVectorClock vc) = map_of vc"
  by (simp add: copyVectorClock_def map_of_fold_update)

lemma vget_update [simp]: "vget (AList.update k v vc) j = (if j = k then v else vget vc j)"
  by (simp add: update_conv' get0_def)

lemma distinct_merge: "distinct (map fst c) \<Longrightarrow> distinct (map fst (mergeVC mvc c))"
  unfolding mergeVC_def by (induction mvc arbitrary: c) (auto simp: distinct_update)

lemma vget_merge:
  "distinct (map fst mvc) \<Longrightarrow>
     vget (mergeVC mvc c) k = (case map_of mvc k of None \<Rightarrow> vget c k | Some v \<Rightarrow> max (vget c k) v)"
  unfolding mergeVC_def
proof (induction mvc arbitrary: c)
  case (Cons x mvc)
  obtain j w where x: "x = (j, w)" by fastforce
  with Cons.prems have "map_of mvc j = None" and "distinct (map fst mvc)"
    by (auto simp: map_of_eq_None_iff)
  then show ?case using Cons.IH by (auto simp: x max_def split: option.splits)
qed simp

lemma ready_iff:
  assumes "distinct (map fst (vn_VC node))"
  shows "isCausallyReady msg node \<longleftrightarrow>
     vget (vm_VC msg) (vm_Sender msg) = i64 (vget (vn_VC node) (vm_Sender msg) + 1) \<and>
     (\<forall>(k, v) \<in> set (vm_VC msg). k \<noteq> vm_Sender msg \<longrightarrow> v \<le> vget (vn_VC node) k)"
  using assms by (simp add: isCausallyReady_def Let_def not_less)

text \<open>Delivering a ready message advances the sender's entry by one and nothing else.\<close>

lemma vget_deliver:
  assumes "distinct (map fst (vn_VC node))" and mvc: "distinct (map fst (vm_VC msg))"
    and "isCausallyReady msg node"
    and "0 \<le> vget (vn_VC node) (vm_Sender msg)" and "vget (vn_VC node) (vm_Sender msg) < 2 ^ 62"
  shows "vget (vn_VC (deliverMessage msg node)) k =
           vget (vn_VC node) k + (if k = vm_Sender msg then 1 else 0)"
proof -
  let ?s = "vm_Sender msg"
  have "in_i64 (vget (vn_VC node) ?s + 1)" using assms(4,5) by (intro in_i64I) auto
  then have s: "vget (vm_VC msg) ?s = vget (vn_VC node) ?s + 1"
    and others: "\<And>j v. map_of (vm_VC msg) j = Some v \<Longrightarrow> j \<noteq> ?s \<Longrightarrow> v \<le> vget (vn_VC node) j"
    using assms(1,3) by (auto simp: ready_iff dest: map_of_SomeD)
  from s assms(4) obtain v where "map_of (vm_VC msg) ?s = Some v" "v = vget (vn_VC node) ?s + 1"
    by (auto simp: get0_def split: option.splits)
  then show ?thesis
    using others [of k] by (auto simp: deliverMessage_def vget_merge [OF mvc] split: option.splits)
qed

section \<open>The invariant of a node\<close>

abbreviation from_sender :: "string \<Rightarrow> VMessage list \<Rightarrow> VMessage list" where
  "from_sender k ms \<equiv> filter (\<lambda>m. vm_Sender m = k) ms"

text \<open>The number a message has among its sender's messages.\<close>

abbreviation seqno :: "VMessage \<Rightarrow> int" where
  "seqno m \<equiv> vget (vm_VC m) (vm_Sender m)"

text \<open>Deliveries of node \<open>n\<close>: from every other node the messages 1, 2, 3, ... without a gap, and before
  each message everything its clock counts.\<close>

definition causal_list :: "string \<Rightarrow> VMessage list \<Rightarrow> bool" where
  "causal_list n L \<longleftrightarrow>
     (\<forall>m \<in> set L. vm_Sender m \<noteq> n) \<and>
     (\<forall>k. map seqno (from_sender k L) = [1..int (length (from_sender k L))]) \<and>
     (\<forall>xs m ys. L = xs @ m # ys \<longrightarrow>
        (\<forall>k. k \<noteq> n \<longrightarrow> k \<noteq> vm_Sender m \<longrightarrow> vget (vm_VC m) k \<le> int (length (from_sender k xs))))"

definition node_inv :: "string \<Rightarrow> VNode \<Rightarrow> bool" where
  "node_inv n node \<longleftrightarrow>
     vn_ID node = n \<and> distinct (map fst (vn_VC node)) \<and> causal_list n (vn_delivered node) \<and>
     (\<forall>k. k \<noteq> n \<longrightarrow> vget (vn_VC node) k = int (length (from_sender k (vn_delivered node))))"

lemma causal_list_snoc:
  assumes "causal_list n L" and "vm_Sender m \<noteq> n"
    and "seqno m = int (length (from_sender (vm_Sender m) L)) + 1"
    and "\<And>k. k \<noteq> n \<Longrightarrow> k \<noteq> vm_Sender m \<Longrightarrow> vget (vm_VC m) k \<le> int (length (from_sender k L))"
  shows "causal_list n (L @ [m])"
proof -
  have "map seqno (from_sender k (L @ [m])) = [1..int (length (from_sender k (L @ [m])))]" for k
    using assms(1,3) upto_snoc [of "length (from_sender k L)"]
    by (auto simp: causal_list_def add.commute)
  moreover have "vget (vm_VC x) k \<le> int (length (from_sender k xs))"
    if "L @ [m] = xs @ x # ys" "k \<noteq> n" "k \<noteq> vm_Sender x" for xs x ys k
  proof (cases ys rule: rev_cases)
    case Nil
    then show ?thesis using that assms(4) by simp
  next
    case (snoc zs z)
    then have "L = xs @ x # zs" using that(1) by simp
    then show ?thesis using that assms(1) unfolding causal_list_def by blast
  qed
  ultimately show ?thesis using assms(1,2) unfolding causal_list_def by auto
qed

lemma causal_list_prefix:
  assumes "causal_list n (xs @ ys)"
  shows "map seqno (from_sender k xs) = [1..int (length (from_sender k xs))]"
proof -
  have "map seqno (from_sender k xs) @ map seqno (from_sender k ys) =
        [1..int (length (from_sender k xs) + length (from_sender k ys))]"
    using assms by (auto simp: causal_list_def)
  moreover have "[1..int (a + b)] = [1..int a] @ [int a + 1..int (a + b)]" for a b
    using upto_split1 [of 1 "int a + 1" "int (a + b)"] upto_split2 [of 1 "int a" "int (a + b)"]
    by (cases a) auto
  ultimately show ?thesis by (simp add: append_eq_append_conv)
qed

lemma node_inv_create [simp]: "node_inv n (createNode n ids)"
  by (simp add: node_inv_def createNode_def causal_list_def)

lemma deliver_ID [simp]: "vn_ID (deliverMessage m node) = vn_ID node"
  "vn_pending (deliverMessage m node) = vn_pending node"
  "vn_delivered (deliverMessage m node) = vn_delivered node @ [m]"
  by (simp_all add: deliverMessage_def)

lemma node_inv_deliver:
  assumes inv: "node_inv n node" and "vm_Sender m \<noteq> n" "distinct (map fst (vm_VC m))"
    and ready: "isCausallyReady m node" and small: "length (from_sender (vm_Sender m) (vn_delivered node)) < 2 ^ 62"
  shows "node_inv n (deliverMessage m node)"
    and "vget (vn_VC (deliverMessage m node)) n = vget (vn_VC node) n"
    and "seqno m = int (length (from_sender (vm_Sender m) (vn_delivered node))) + 1"
proof -
  let ?c = "int (length (from_sender (vm_Sender m) (vn_delivered node)))"
  have c: "vget (vn_VC node) (vm_Sender m) = ?c" "0 \<le> ?c" "?c < 2 ^ 62"
    using inv assms(2) small by (auto simp: node_inv_def)
  have dist: "distinct (map fst (vn_VC node))" using inv by (simp add: node_inv_def)
  have vg: "vget (vn_VC (deliverMessage m node)) k = vget (vn_VC node) k + (if k = vm_Sender m then 1 else 0)" for k
    using vget_deliver [OF dist assms(3) ready, of k] c by simp
  then show "vget (vn_VC (deliverMessage m node)) n = vget (vn_VC node) n" using assms(2) by simp
  have "in_i64 (?c + 1)" using c by (intro in_i64I) auto
  then show seq: "seqno m = ?c + 1" using ready c(1) by (simp add: ready_iff [OF dist])
  have le: "vget (vm_VC m) k \<le> int (length (from_sender k (vn_delivered node)))"
    if "k \<noteq> n" "k \<noteq> vm_Sender m" for k
  proof (cases "map_of (vm_VC m) k")
    case None
    then show ?thesis by (simp add: get0_def)
  next
    case (Some v)
    then have "v \<le> vget (vn_VC node) k" using ready that(2) dist by (auto simp: ready_iff dest!: map_of_SomeD)
    then show ?thesis using Some inv that(1) by (simp add: get0_def node_inv_def)
  qed
  have "causal_list n (vn_delivered node @ [m])"
    using inv by (intro causal_list_snoc [OF _ assms(2) seq le]) (auto simp: node_inv_def)
  moreover have "distinct (map fst (vn_VC (deliverMessage m node)))"
    using dist by (simp add: deliverMessage_def distinct_merge)
  ultimately show "node_inv n (deliverMessage m node)"
    using inv vg by (auto simp: node_inv_def)
qed

text \<open>What a node may be handed: another node's message with a proper clock.\<close>

definition deliverable :: "string \<Rightarrow> nat \<Rightarrow> VMessage \<Rightarrow> bool" where
  "deliverable n b m \<longleftrightarrow> vm_Sender m \<noteq> n \<and> distinct (map fst (vm_VC m)) \<and> seqno m \<le> int b"

lemma count_bound:
  assumes "causal_list n L" and "\<forall>m \<in> set L. deliverable n b m"
  shows "length (from_sender k L) \<le> b"
proof (cases "length (from_sender k L) = 0")
  case False
  then have "int (length (from_sender k L)) \<in> set (map seqno (from_sender k L))"
    using assms(1) by (simp add: causal_list_def Suc_le_eq)
  then obtain m where "m \<in> set L" "seqno m = int (length (from_sender k L))" by auto
  then show ?thesis using assms(2) by (auto simp: deliverable_def)
qed simp

lemma node_inv_deliver':
  assumes "node_inv n node" and "isCausallyReady m node" and "b < 2 ^ 62"
    and "deliverable n b m" and "\<forall>x \<in> set (vn_delivered node). deliverable n b x"
  shows "node_inv n (deliverMessage m node)"
    and "vget (vn_VC (deliverMessage m node)) n = vget (vn_VC node) n"
proof -
  have "length (from_sender (vm_Sender m) (vn_delivered node)) \<le> b"
    using assms(1,5) by (intro count_bound) (auto simp: node_inv_def)
  then have "length (from_sender (vm_Sender m) (vn_delivered node)) < 2 ^ 62" using assms(3) by simp
  then show "node_inv n (deliverMessage m node)"
    and "vget (vn_VC (deliverMessage m node)) n = vget (vn_VC node) n"
    using node_inv_deliver [OF assms(1) _ _ assms(2)] assms(4) by (auto simp: deliverable_def)
qed

lemma recheck_inv:
  "node_inv n node \<Longrightarrow> b < 2 ^ 62 \<Longrightarrow> \<forall>x \<in> set (vn_delivered node) \<union> set ps. deliverable n b x \<Longrightarrow>
   recheckPending ps node = (node', np) \<Longrightarrow>
     node_inv n node' \<and> vget (vn_VC node') n = vget (vn_VC node) n \<and>
     mset (vn_delivered node') + mset np = mset (vn_delivered node) + mset ps"
proof (induction ps node arbitrary: node' np rule: recheckPending.induct)
  case (1 node)
  then show ?case by simp
next
  case (2 pm ps node)
  show ?case
  proof (cases "isCausallyReady pm node")
    case True
    have ok: "node_inv n (deliverMessage pm node)"
      "vget (vn_VC (deliverMessage pm node)) n = vget (vn_VC node) n"
      using node_inv_deliver' [OF 2(3) True 2(4)] 2(5) by auto
    have "\<forall>x \<in> set (vn_delivered (deliverMessage pm node)) \<union> set ps. deliverable n b x"
      using 2(5) by auto
    moreover have "recheckPending ps (deliverMessage pm node) = (node', np)" using 2(6) True by simp
    ultimately show ?thesis using 2(1) [OF True ok(1) 2(4)] ok(2) by simp
  next
    case False
    then obtain np' where "recheckPending ps node = (node', np')" "np = pm # np'"
      using 2(6) by (auto split: prod.splits)
    moreover have "\<forall>x \<in> set (vn_delivered node) \<union> set ps. deliverable n b x" using 2(5) by simp
    ultimately show ?thesis using 2(2) [OF False 2(3,4)] by simp
  qed
qed

lemma process_inv:
  assumes "node_inv n node" and "b < 2 ^ 62" and "deliverable n b m"
    and "\<forall>x \<in> set (vn_delivered node) \<union> set (vn_pending node). deliverable n b x"
  shows "node_inv n (processMessage m node) \<and>
    vget (vn_VC (processMessage m node)) n = vget (vn_VC node) n \<and>
    mset (vn_delivered (processMessage m node)) + mset (vn_pending (processMessage m node)) =
      mset (vn_delivered node) + mset (vn_pending node) +
      (if vn_running node \<and> vm_Content m \<noteq> ''STOP'' then {#m#} else {#})"
proof (cases "vn_running node \<and> vm_Content m \<noteq> ''STOP'' \<and> isCausallyReady m node")
  case True
  then have ready: "isCausallyReady m node" by simp
  obtain node' np where r: "recheckPending (vn_pending node) (deliverMessage m node) = (node', np)"
    by fastforce
  have d: "node_inv n (deliverMessage m node)"
    "vget (vn_VC (deliverMessage m node)) n = vget (vn_VC node) n"
    using node_inv_deliver' [OF assms(1) ready assms(2,3)] assms(4) by auto
  have "\<forall>x \<in> set (vn_delivered (deliverMessage m node)) \<union> set (vn_pending node). deliverable n b x"
    using assms(3,4) by auto
  from recheck_inv [OF d(1) assms(2) this r]
  have "node_inv n node'" "vget (vn_VC node') n = vget (vn_VC node) n"
    "mset (vn_delivered node') + mset np = add_mset m (mset (vn_delivered node) + mset (vn_pending node))"
    using d(2) by simp_all
  moreover have "processMessage m node = node'\<lparr>vn_pending := np\<rparr>"
    using True r by (simp add: processMessage_def)
  ultimately show ?thesis using True by (simp add: node_inv_def)
next
  case False
  then show ?thesis using assms(1) by (auto simp: processMessage_def node_inv_def)
qed

section \<open>The invariant of the system\<close>

abbreviation sent_by :: "string \<Rightarrow> VSystem \<Rightarrow> VMessage list" where
  "sent_by n s \<equiv> from_sender n (map fst (vs_sent s))"

definition vs_inv :: "VSystem \<Rightarrow> bool" where
  "vs_inv s \<longleftrightarrow>
     (\<forall>n. node_inv n (vs_node s n)) \<and>
     (\<forall>n. set (vn_delivered (vs_node s n)) \<union> set (vn_pending (vs_node s n)) \<subseteq>
            {m \<in> fst ` set (vs_sent s). vm_Sender m \<noteq> n}) \<and>
     (\<forall>m \<in> fst ` set (vs_sent s). distinct (map fst (vm_VC m))) \<and>
     (\<forall>n. vget (vn_VC (vs_node s n)) n = int (length (sent_by n s)) \<and>
          map seqno (sent_by n s) = [1..int (length (sent_by n s))]) \<and>
     (\<forall>(m, past) \<in> set (vs_sent s). \<forall>x \<in> set past.
        x \<in> fst ` set (vs_sent s) \<and> seqno x \<le> vget (vm_VC m) (vm_Sender x) \<and>
        (vm_Sender x = vm_Sender m \<longrightarrow> seqno x < seqno m))"

lemma vs_inv_start [simp]: "vs_inv (startNodes ids)"
  by (simp add: vs_inv_def startNodes_def) (simp add: createNode_def)

lemma vs_inv_deliverable:
  assumes "vs_inv s" and "m \<in> fst ` set (vs_sent s)" and "vm_Sender m \<noteq> n"
  shows "deliverable n (length (vs_sent s)) m"
proof -
  have "seqno m \<in> set (map seqno (sent_by (vm_Sender m) s))" using assms(2) by auto
  also have "\<dots> = set [1..int (length (sent_by (vm_Sender m) s))]" using assms(1) unfolding vs_inv_def by metis
  finally have "seqno m \<le> int (length (sent_by (vm_Sender m) s))" by simp
  also have "\<dots> \<le> int (length (vs_sent s))" by (metis length_filter_le length_map of_nat_mono)
  finally show ?thesis using assms by (auto simp: deliverable_def vs_inv_def)
qed

lemma vs_inv_recv:
  assumes inv: "vs_inv s" and small: "length (vs_sent s) < 2 ^ 62"
  shows "vs_inv (broadcast s (VRecv n i))"
proof (cases "i < length (vs_sent s) \<and> vm_Sender (fst (vs_sent s ! i)) \<noteq> n")
  case True
  define m node where "m = fst (vs_sent s ! i)" and "node = vs_node s n"
  have m: "m \<in> fst ` set (vs_sent s)" "vm_Sender m \<noteq> n" using True by (auto simp: m_def)
  have dm: "deliverable n (length (vs_sent s)) m" by (rule vs_inv_deliverable [OF inv m])
  have sub: "set (vn_delivered node) \<union> set (vn_pending node) \<subseteq> {x \<in> fst ` set (vs_sent s). vm_Sender x \<noteq> n}"
    and ni: "node_inv n node" and own: "vget (vn_VC node) n = int (length (sent_by n s))"
    using inv unfolding vs_inv_def node_def by blast+
  then have all: "\<forall>x \<in> set (vn_delivered node) \<union> set (vn_pending node). deliverable n (length (vs_sent s)) x"
    using vs_inv_deliverable [OF inv] by blast
  note P = process_inv [OF ni small dm all]
  have "set (vn_delivered (processMessage m node)) \<union> set (vn_pending (processMessage m node)) \<subseteq>
        insert m (set (vn_delivered node) \<union> set (vn_pending node))"
    using arg_cong [OF P [THEN conjunct2, THEN conjunct2], of set_mset] by (auto split: if_splits)
  then have "set (vn_delivered (processMessage m node)) \<union> set (vn_pending (processMessage m node)) \<subseteq>
        {x \<in> fst ` set (vs_sent s). vm_Sender x \<noteq> n}"
    using sub m by blast
  moreover have "broadcast s (VRecv n i) = s\<lparr>vs_node := (vs_node s)(n := processMessage m node)\<rparr>"
    using True by (simp add: m_def node_def)
  ultimately show ?thesis using inv P own unfolding vs_inv_def by simp
next
  case False
  then show ?thesis using inv by auto
qed

lemma sendMessage_facts:
  assumes "node_inv n node" and "vget (vn_VC node) n = int c" and "c < 2 ^ 62"
    and "sendMessage node content = (node', msg)"
  shows "node_inv n node'" and "vn_delivered node' = vn_delivered node" and "vn_pending node' = vn_pending node"
    and "vget (vn_VC node') n = int c + 1" and "vm_Sender msg = n" and "seqno msg = int c + 1"
    and "distinct (map fst (vm_VC msg))" and "k \<noteq> n \<Longrightarrow> vget (vm_VC msg) k = vget (vn_VC node) k"
proof -
  have "in_i64 (int c + 1)" using assms(3) by (intro in_i64I) auto
  moreover have "vn_ID node = n" and d: "distinct (map fst (vn_VC node))" using assms(1) by (auto simp: node_inv_def)
  moreover have "distinct (map fst (AList.update n (int c + 1) (vn_VC node)))" using d by (rule distinct_update)
  ultimately show "node_inv n node'" and "vn_delivered node' = vn_delivered node" and "vn_pending node' = vn_pending node"
    and "vget (vn_VC node') n = int c + 1" and "vm_Sender msg = n" and "seqno msg = int c + 1"
    and "distinct (map fst (vm_VC msg))" and "k \<noteq> n \<Longrightarrow> vget (vm_VC msg) k = vget (vn_VC node) k"
    using assms(1,2,4) by (auto simp: sendMessage_def Let_def node_inv_def)
qed

lemma vs_inv_send:
  assumes inv: "vs_inv s" and small: "length (vs_sent s) < 2 ^ 62"
  shows "vs_inv (broadcast s (VSend n content))"
proof -
  define node c where "node = vs_node s n" and "c = length (sent_by n s)"
  obtain node' msg where send: "sendMessage node content = (node', msg)" by fastforce
  have c: "c < 2 ^ 62" using small unfolding c_def
    by (metis length_filter_le length_map order_le_less_trans)
  have ni: "node_inv n node" and own: "vget (vn_VC node) n = int c"
    and sub: "set (vn_delivered node) \<union> set (vn_pending node) \<subseteq> {x \<in> fst ` set (vs_sent s). vm_Sender x \<noteq> n}"
    and seqs: "map seqno (sent_by n s) = [1..int c]"
    using inv unfolding vs_inv_def node_def c_def by blast+
  note F = sendMessage_facts [OF ni own c send]
  let ?past = "vn_delivered node @ sent_by n s"
  have s': "broadcast s (VSend n content) =
      s\<lparr>vs_node := (vs_node s)(n := node'), vs_sent := vs_sent s @ [(msg, ?past)]\<rparr>"
    using send by (simp add: node_def)
  have past: "x \<in> fst ` set (vs_sent s) \<and> seqno x \<le> vget (vm_VC msg) (vm_Sender x) \<and>
      (vm_Sender x = n \<longrightarrow> seqno x < seqno msg)" if "x \<in> set ?past" for x
  proof (cases "vm_Sender x = n")
    case True
    then have "x \<in> set (sent_by n s)" using that sub by auto
    then have "seqno x \<in> set [1..int c]" unfolding seqs [symmetric] by force
    with True F(5,6) \<open>x \<in> set (sent_by n s)\<close> show ?thesis by auto
  next
    case False
    then have x: "x \<in> set (vn_delivered node)" using that by auto
    then have "seqno x \<in> set (map seqno (from_sender (vm_Sender x) (vn_delivered node)))" by force
    also have "\<dots> = {1..vget (vn_VC node) (vm_Sender x)}"
      using ni False unfolding node_inv_def causal_list_def by (metis set_upto)
    finally show ?thesis using F(8) [OF False] False x sub by auto
  qed
  have "map seqno (sent_by n s @ [msg]) = [1..int c + 1]"
    using seqs F(6) upto_snoc [of c] by (simp add: add.commute)
  then show ?thesis
    using inv past F sub unfolding s' vs_inv_def
    by (auto simp: c_def add.commute node_def subset_iff image_iff split: prod.splits)
qed

interpretation causal: guarded_object broadcast vs_inv "\<lambda>s e. length (vs_sent s) < 2 ^ 62"
proof
  fix s e
  assume "vs_inv s" "length (vs_sent s) < 2 ^ 62"
  then show "vs_inv (broadcast s e)" by (cases e) (auto intro: vs_inv_recv vs_inv_send simp del: broadcast.simps)
qed

lemma broadcast_sent_length: "length (vs_sent (broadcast s e)) \<le> Suc (length (vs_sent s))"
  by (cases e) (auto split: prod.splits)

lemma broadcast_admissible:
  "length (vs_sent s) + length es < 2 ^ 62 \<Longrightarrow> admissible broadcast (\<lambda>s e. length (vs_sent s) < 2 ^ 62) s es"
proof (induction es arbitrary: s)
  case (Cons e es)
  then show ?case using broadcast_sent_length [of s e] by (auto simp del: broadcast.simps)
qed simp

lemma vs_inv_run: "length es < 2 ^ 62 \<Longrightarrow> vs_inv (run broadcast (startNodes ids) es)"
  by (rule causal.guarded_run [OF _ broadcast_admissible]) (auto simp: startNodes_def intro: vs_inv_start [unfolded startNodes_def])

lemma seqno_inj:
  assumes "vs_inv s" and "x \<in> fst ` set (vs_sent s)" "y \<in> fst ` set (vs_sent s)"
    and "vm_Sender x = vm_Sender y" "seqno x = seqno y"
  shows "x = y"
proof -
  have "distinct (map seqno (sent_by (vm_Sender y) s))"
    using assms(1) unfolding vs_inv_def by (metis distinct_upto)
  then have "inj_on seqno (set (sent_by (vm_Sender y) s))" unfolding distinct_map by (rule conjunct2)
  then show ?thesis by (rule inj_onD) (use assms(2-) in auto)
qed

lemma causal_list_has:
  assumes "causal_list n (xs @ ys)" and "1 \<le> j" "j \<le> int (length (from_sender k xs))"
  obtains m where "m \<in> set xs" "vm_Sender m = k" "seqno m = j"
proof -
  have "j \<in> set (map seqno (from_sender k xs))"
    using assms(2,3) unfolding causal_list_prefix [OF assms(1)] by simp
  then show thesis using that by auto
qed

section \<open>Properties\<close>

text \<open>C4.  Causal delivery.  In every execution of any number of nodes, with messages handed over in any
  order and any number of times: if the sender of \<open>m2\<close> had sent or delivered \<open>m1\<close> before sending
  \<open>m2\<close>, then every node that delivers \<open>m2\<close> has delivered \<open>m1\<close> before it (unless it sent \<open>m1\<close> itself).\<close>

theorem causal_delivery:
  assumes "length es < 2 ^ 62" and "s = run broadcast (startNodes ids) es"
    and sent: "(m2, past) \<in> set (vs_sent s)" and past: "m1 \<in> set past"
    and del: "vn_delivered (vs_node s n) = xs @ m2 # ys" and other: "vm_Sender m1 \<noteq> n"
  shows "m1 \<in> set xs"
proof -
  have inv: "vs_inv s" using vs_inv_run assms(1,2) by simp
  let ?k = "vm_Sender m1"
  have m1: "m1 \<in> fst ` set (vs_sent s)" and le: "seqno m1 \<le> vget (vm_VC m2) ?k"
    and less: "?k = vm_Sender m2 \<Longrightarrow> seqno m1 < seqno m2"
    using inv sent past unfolding vs_inv_def by blast+
  have "node_inv n (vs_node s n)" and "set (vn_delivered (vs_node s n)) \<subseteq> fst ` set (vs_sent s)"
    using inv unfolding vs_inv_def by blast+
  then have cl: "causal_list n (xs @ m2 # ys)" and dsent: "set xs \<subseteq> fst ` set (vs_sent s)"
    unfolding node_inv_def del by auto
  have "seqno m1 \<in> set (map seqno (sent_by ?k s))" using m1 by auto
  also have "\<dots> = set [1..int (length (sent_by ?k s))]" using inv unfolding vs_inv_def by metis
  finally have pos: "1 \<le> seqno m1" by simp
  have "seqno m1 \<le> int (length (from_sender ?k xs))"
  proof (cases "?k = vm_Sender m2")
    case True
    have "map seqno (from_sender ?k (xs @ [m2])) = [1..int (length (from_sender ?k (xs @ [m2])))]"
      using causal_list_prefix [of n "xs @ [m2]" ys] cl by simp
    then have "seqno ` set (from_sender ?k (xs @ [m2])) = set [1..int (length (from_sender ?k (xs @ [m2])))]"
      by (metis set_map)
    moreover have "m2 \<in> set (from_sender ?k (xs @ [m2]))" using True by simp
    ultimately have "seqno m2 \<in> set [1..int (length (from_sender ?k (xs @ [m2])))]" by blast
    then show ?thesis using less [OF True] True by simp
  next
    case False
    then show ?thesis using cl le other unfolding causal_list_def by fastforce
  qed
  then obtain m where "m \<in> set xs" "vm_Sender m = ?k" "seqno m = seqno m1"
    using causal_list_has [OF cl pos] by blast
  then show ?thesis using seqno_inj [OF inv _ m1] dsent by blast
qed

definition demo_causal :: "vevent list" where
  "demo_causal = [VSend ''A'' ''q'', VRecv ''B'' 0, VSend ''B'' ''r'', VRecv ''C'' 1, VRecv ''C'' 0, VRecv ''C'' 0]"

definition demo_sys :: VSystem where
  "demo_sys = run broadcast (startNodes [''A'', ''B'', ''C'']) demo_causal"

theorem causal_delivery_witness:
  "length demo_causal < 2 ^ 62 \<and>
   (\<exists>m1 m2 past. (m2, past) \<in> set (vs_sent demo_sys) \<and> m1 \<in> set past \<and> vm_Content m2 = ''r'' \<and>
     vn_delivered (vs_node demo_sys ''C'') = [m1] @ m2 # [] \<and> m1 \<in> set [m1])"
proof -
  let ?m1 = "fst (vs_sent demo_sys ! 0)" and ?m2 = "fst (vs_sent demo_sys ! 1)"
  have len: "length demo_causal < 2 ^ 62" by (simp add: demo_causal_def)
  have a: "(?m2, snd (vs_sent demo_sys ! 1)) \<in> set (vs_sent demo_sys)"
    and b: "?m1 \<in> set (snd (vs_sent demo_sys ! 1))" and e: "vm_Content ?m2 = ''r''"
    and c: "vn_delivered (vs_node demo_sys ''C'') = [?m1] @ ?m2 # []" and d: "vm_Sender ?m1 \<noteq> ''C''"
    by code_simp+
  from causal_delivery [OF len demo_sys_def a b c d] a b c e len show ?thesis by blast
qed

text \<open> FIFO, gap-free, at-most-once.  What a node has delivered from another node is a prefix of what
  that node has sent, in order, whatever the order and multiplicity in which messages reach it.\<close>

theorem delivered_prefix_of_sent:
  assumes "length es < 2 ^ 62" and "k \<noteq> n"
  shows "\<exists>j. filter (\<lambda>m. vm_Sender m = k) (vn_delivered (vs_node (run broadcast (startNodes ids) es) n)) =
    take j (filter (\<lambda>m. vm_Sender m = k) (map fst (vs_sent (run broadcast (startNodes ids) es))))"
proof -
  define s where "s = run broadcast (startNodes ids) es"
  have inv: "vs_inv s" using vs_inv_run [OF assms(1)] by (simp add: s_def)
  define D S where "D = from_sender k (vn_delivered (vs_node s n))" and "S = sent_by k s"
  have D: "map seqno D = [1..int (length D)]" and S: "map seqno S = [1..int (length S)]"
    and sub: "set D \<subseteq> set S"
    using inv unfolding vs_inv_def node_inv_def causal_list_def D_def S_def by (blast, blast, auto)
  have "length D \<le> length S"
  proof (cases "D = []")
    case False
    then have "int (length D) \<in> seqno ` set D" using D by (metis Suc_le_eq atLeastAtMost_iff length_greater_0_conv nat_int_comparison(3) of_nat_1 One_nat_def order_refl set_map set_upto)
    then have "int (length D) \<in> set [1..int (length S)]" unfolding S [symmetric] using sub by auto
    then show ?thesis by simp
  qed simp
  have "D ! i = S ! i" if "i < length D" for i
  proof -
    have "map seqno D ! i = 1 + int i" "map seqno S ! i = 1 + int i"
      unfolding D S using that \<open>length D \<le> length S\<close> by simp_all
    then have "seqno (D ! i) = 1 + int i" "seqno (S ! i) = 1 + int i"
      using that \<open>length D \<le> length S\<close> by simp_all
    moreover have "D ! i \<in> set S" "S ! i \<in> set S" using that \<open>length D \<le> length S\<close> sub nth_mem by (blast, auto)
    ultimately show ?thesis using seqno_inj [OF inv, of "D ! i" "S ! i"] by (auto simp: S_def)
  qed
  then have "D = take (length D) S" using \<open>length D \<le> length S\<close> by (intro nth_equalityI) auto
  then show ?thesis unfolding D_def S_def s_def by blast
qed

theorem delivered_prefix_of_sent_witness:
  "length demo_causal < 2 ^ 62 \<and>
   (\<exists>j. filter (\<lambda>m. vm_Sender m = ''A'') (vn_delivered (vs_node (run broadcast (startNodes [''A'', ''B'', ''C'']) demo_causal) ''C'')) =
     take j (filter (\<lambda>m. vm_Sender m = ''A'') (map fst (vs_sent (run broadcast (startNodes [''A'', ''B'', ''C'']) demo_causal)))))"
proof
  show len: "length demo_causal < 2 ^ 62" by (simp add: demo_causal_def)
  show "\<exists>j. filter (\<lambda>m. vm_Sender m = ''A'') (vn_delivered (vs_node (run broadcast (startNodes [''A'', ''B'', ''C'']) demo_causal) ''C'')) =
     take j (filter (\<lambda>m. vm_Sender m = ''A'') (map fst (vs_sent (run broadcast (startNodes [''A'', ''B'', ''C'']) demo_causal))))"
    by (rule delivered_prefix_of_sent [OF len]) simp
qed

text \<open> The single scan of \<open>pending\<close> loses deliveries.  Node B is handed A's messages 3, 2, 1: after
  the last of them message 3 is causally ready at B and all messages have arrived, but it stays in
  \<open>pending\<close>, and only another delivery would cause a new scan.\<close>

theorem ready_message_left_pending:
  "\<exists>s. s = run broadcast (startNodes [''A'', ''B''])
          [VSend ''A'' ''1'', VSend ''A'' ''2'', VSend ''A'' ''3'', VRecv ''B'' 2, VRecv ''B'' 1, VRecv ''B'' 0] \<and>
     map vm_Content (vn_delivered (vs_node s ''B'')) = [''1'', ''2''] \<and>
     vn_pending (vs_node s ''B'') = [fst (vs_sent s ! 2)] \<and>
     isCausallyReady (fst (vs_sent s ! 2)) (vs_node s ''B'')"
  unfolding simp_thms by (intro conjI; code_simp)

end
