(* ===== verification/LamportOrder.thy ===== *)
theory LamportOrder
  imports GoPrelude "HOL-Library.List_Lexorder" "HOL-Library.Char_ord" "HOL-Library.Product_Lexorder"
begin

text \<open>
  Lamport timestamps and the total order built from them (\<open>src/solutions/challenge10_solution.go\<close>,
  \<open>solution2_LamportTimestamp\<close>).  The compare-and-swap loop of \<open>receive\<close> takes effect in its one
  successful iteration, so \<open>tick\<close>, the clock update of \<open>receive\<close> and the appends under the mutex are the
  atomic steps.  Go compares strings bytewise, which is the lexicographic order on character lists.
  Shown: the clock condition in every execution, and that \<open>getTotalOrder\<close> yields one and the same list
  whatever the order of its argument, a linear extension of happened-before.
\<close>

record LMessage =
  lm_ID :: string
  lm_Sender :: string
  lm_Content :: string
  lm_Timestamp :: int
  lm_Delivered :: bool

record LProcess =
  lp_ID :: string
  lp_clock :: int
  lp_messages :: "LMessage list"

definition createProcess :: "string \<Rightarrow> LProcess" where
  "createProcess pid = \<lparr>lp_ID = pid, lp_clock = 0, lp_messages = []\<rparr>"

definition tick :: "LProcess \<Rightarrow> LProcess \<times> int" where
  "tick p = (let c = i64 (lp_clock p + 1) in (p\<lparr>lp_clock := c\<rparr>, c))"

definition send :: "LProcess \<Rightarrow> string \<Rightarrow> LProcess \<times> LMessage" where
  "send p content =
     (let (p', ts) = tick p;
          msg = \<lparr>lm_ID = lp_ID p @ ''_'' @ itoa ts, lm_Sender = lp_ID p, lm_Content = content,
                 lm_Timestamp = ts, lm_Delivered = False\<rparr>
      in (p'\<lparr>lp_messages := lp_messages p' @ [msg]\<rparr>, msg))"

definition receive :: "LProcess \<Rightarrow> LMessage \<Rightarrow> LProcess" where
  "receive p msg =
     (let local = lp_clock p;
          newClock = (if local \<ge> lm_Timestamp msg then local else lm_Timestamp msg)
      in p\<lparr>lp_clock := i64 (newClock + 1), lp_messages := lp_messages p @ [msg]\<rparr>)"

text \<open>The collection loop over one process, with the \<open>seen\<close> set, and over all of them.\<close>

definition collectMessages :: "LMessage list \<Rightarrow> LMessage list \<times> string set \<Rightarrow> LMessage list \<times> string set" where
  "collectMessages ms acc =
     fold (\<lambda>msg (allMessages, seen).
        if lm_ID msg \<notin> seen then (allMessages @ [msg], insert (lm_ID msg) seen)
        else (allMessages, seen)) ms acc"

definition total_key :: "LMessage \<Rightarrow> int \<times> string" where
  "total_key m = (lm_Timestamp m, lm_Sender m)"

definition getTotalOrder :: "LProcess list \<Rightarrow> LMessage list" where
  "getTotalOrder processes =
     sort_key total_key (fst (fold (\<lambda>p. collectMessages (lp_messages p)) processes ([], {})))"

section \<open>Processes exchanging messages\<close>

text \<open>The processes and the messages sent so far, each with what its sender had sent or received before
  (a ghost component).\<close>

record LSystem =
  ls_procs :: "LProcess list"
  ls_sent :: "(LMessage \<times> LMessage list) list"

datatype levent = LSend nat string | LRecv nat nat

fun lstep :: "LSystem \<Rightarrow> levent \<Rightarrow> LSystem" where
  "lstep s (LSend i content) =
     (if i < length (ls_procs s) then
        (let (p', msg) = send (ls_procs s ! i) content
         in s\<lparr>ls_procs := (ls_procs s)[i := p'],
              ls_sent := ls_sent s @ [(msg, lp_messages (ls_procs s ! i))]\<rparr>)
      else s)"
| "lstep s (LRecv i j) =
     (if i < length (ls_procs s) \<and> j < length (ls_sent s) then
        s\<lparr>ls_procs := (ls_procs s)[i := receive (ls_procs s ! i) (fst (ls_sent s ! j))]\<rparr>
      else s)"

definition startProcesses :: "string list \<Rightarrow> LSystem" where
  "startProcesses ids = \<lparr>ls_procs = map createProcess ids, ls_sent = []\<rparr>"

section \<open>The invariant\<close>

definition msg_ok :: "LProcess list \<Rightarrow> LMessage \<Rightarrow> bool" where
  "msg_ok ps m \<longleftrightarrow> lm_ID m = lm_Sender m @ ''_'' @ itoa (lm_Timestamp m) \<and>
     (\<exists>p \<in> set ps. lp_ID p = lm_Sender m \<and> lm_Timestamp m \<le> lp_clock p)"

definition proc_ok :: "LMessage set \<Rightarrow> LProcess \<Rightarrow> bool" where
  "proc_ok M p \<longleftrightarrow> 0 \<le> lp_clock p \<and> (\<forall>m \<in> set (lp_messages p). m \<in> M \<and> lm_Timestamp m \<le> lp_clock p)"

definition ls_inv :: "string list \<Rightarrow> LSystem \<Rightarrow> bool" where
  "ls_inv ids s \<longleftrightarrow>
     map lp_ID (ls_procs s) = ids \<and> distinct ids \<and>
     (\<forall>m \<in> fst ` set (ls_sent s). msg_ok (ls_procs s) m) \<and>
     inj_on total_key (fst ` set (ls_sent s)) \<and>
     (\<forall>p \<in> set (ls_procs s). proc_ok (fst ` set (ls_sent s)) p) \<and>
     (\<forall>(m, past) \<in> set (ls_sent s). \<forall>x \<in> set past. lm_Timestamp x < lm_Timestamp m)"

definition clocks_small :: "LSystem \<Rightarrow> bool" where
  "clocks_small s \<longleftrightarrow> (\<forall>p \<in> set (ls_procs s). lp_clock p < 2 ^ 62)"

lemma ls_inv_start [simp]: "distinct ids \<Longrightarrow> ls_inv ids (startProcesses ids)"
  by (auto simp: ls_inv_def startProcesses_def createProcess_def proc_ok_def comp_def)

lemma send_facts:
  assumes "0 \<le> lp_clock p" "lp_clock p < 2 ^ 62" and "send p content = (p', msg)"
  shows "lp_ID p' = lp_ID p" "lp_clock p' = lp_clock p + 1" "lp_messages p' = lp_messages p @ [msg]"
    "lm_Sender msg = lp_ID p" "lm_Timestamp msg = lp_clock p + 1"
    "lm_ID msg = lp_ID p @ ''_'' @ itoa (lp_clock p + 1)"
proof -
  have "in_i64 (lp_clock p + 1)" using assms by (intro in_i64I) auto
  then show "lp_ID p' = lp_ID p" "lp_clock p' = lp_clock p + 1" "lp_messages p' = lp_messages p @ [msg]"
    "lm_Sender msg = lp_ID p" "lm_Timestamp msg = lp_clock p + 1"
    "lm_ID msg = lp_ID p @ ''_'' @ itoa (lp_clock p + 1)"
    using assms(3) by (auto simp: send_def tick_def Let_def)
qed

lemma receive_facts:
  assumes "0 \<le> lp_clock p" "lp_clock p < 2 ^ 62" "lm_Timestamp m < 2 ^ 62"
  shows "lp_ID (receive p m) = lp_ID p" "lp_clock (receive p m) = max (lp_clock p) (lm_Timestamp m) + 1"
    "lp_messages (receive p m) = lp_messages p @ [m]"
proof -
  have "in_i64 (max (lp_clock p) (lm_Timestamp m) + 1)" using assms by (intro in_i64I) auto
  then show "lp_ID (receive p m) = lp_ID p" "lp_clock (receive p m) = max (lp_clock p) (lm_Timestamp m) + 1"
    "lp_messages (receive p m) = lp_messages p @ [m]"
    by (auto simp: receive_def max_def Let_def)
qed

text \<open>Replacing one process by one with the same name and a later clock.\<close>

lemma msg_ok_update:
  assumes "msg_ok ps m" and "i < length ps"
    and "lp_ID p' = lp_ID (ps ! i)" "lp_clock (ps ! i) \<le> lp_clock p'"
  shows "msg_ok (ps[i := p']) m"
proof -
  obtain k where k: "k < length ps" "lp_ID (ps ! k) = lm_Sender m" "lm_Timestamp m \<le> lp_clock (ps ! k)"
    using assms(1) by (auto simp: in_set_conv_nth msg_ok_def)
  then have "ps[i := p'] ! k \<in> set (ps[i := p'])" by simp
  moreover have "lp_ID (ps[i := p'] ! k) = lm_Sender m \<and> lm_Timestamp m \<le> lp_clock (ps[i := p'] ! k)"
    using k assms by (cases "k = i") auto
  ultimately show ?thesis using assms(1) unfolding msg_ok_def by blast
qed

lemma map_ID_update: "i < length ps \<Longrightarrow> lp_ID p' = lp_ID (ps ! i) \<Longrightarrow> map lp_ID (ps[i := p']) = map lp_ID ps"
  by (metis list_update_id map_update nth_map)

lemma ball_update: "\<forall>p \<in> set ps. P p \<Longrightarrow> P p' \<Longrightarrow> \<forall>p \<in> set (ps[i := p']). P p"
  using set_update_subset_insert [of ps i p'] by blast

text \<open>The state after a step that replaces process \<open>i\<close> and adds the sent messages \<open>new\<close>.\<close>

lemma ls_inv_update:
  assumes inv: "ls_inv ids s" and i: "i < length (ls_procs s)"
    and p': "lp_ID p' = lp_ID (ls_procs s ! i)" "lp_clock (ls_procs s ! i) \<le> lp_clock p'"
    and M: "M = fst ` set (ls_sent s @ new)" "proc_ok M p'"
    and new: "\<forall>m \<in> fst ` set new. msg_ok ((ls_procs s)[i := p']) m"
    and inj: "inj_on total_key M"
    and past: "\<forall>(m, past) \<in> set new. \<forall>x \<in> set past. lm_Timestamp x < lm_Timestamp m"
  shows "ls_inv ids (s\<lparr>ls_procs := (ls_procs s)[i := p'], ls_sent := ls_sent s @ new\<rparr>)"
proof -
  have "\<forall>m \<in> fst ` set (ls_sent s). msg_ok ((ls_procs s)[i := p']) m"
    using inv msg_ok_update [OF _ i p'] unfolding ls_inv_def by blast
  moreover have "\<forall>p \<in> set (ls_procs s). proc_ok M p"
    using inv unfolding ls_inv_def proc_ok_def M set_append image_Un by blast
  then have "\<forall>p \<in> set ((ls_procs s)[i := p']). proc_ok M p" using M(2) by (rule ball_update)
  moreover have "map lp_ID ((ls_procs s)[i := p']) = ids" "distinct ids"
    using inv map_ID_update [OF i p'(1)] unfolding ls_inv_def by simp_all
  moreover have "\<forall>(m, past) \<in> set (ls_sent s). \<forall>x \<in> set past. lm_Timestamp x < lm_Timestamp m"
    using inv unfolding ls_inv_def by blast
  ultimately show ?thesis using new inj past unfolding ls_inv_def M by auto
qed

lemma ls_inv_send:
  assumes inv: "ls_inv ids s" and small: "clocks_small s"
  shows "ls_inv ids (lstep s (LSend i content))"
proof (cases "i < length (ls_procs s)")
  case True
  define p M where "p = ls_procs s ! i" and "M = fst ` set (ls_sent s)"
  obtain p' msg where send: "send p content = (p', msg)" by fastforce
  have p: "p \<in> set (ls_procs s)" using True by (simp add: p_def)
  have ok: "proc_ok M p" "\<forall>m \<in> M. msg_ok (ls_procs s) m" "inj_on total_key M"
    and names: "inj_on lp_ID (set (ls_procs s))"
    using inv p unfolding ls_inv_def M_def distinct_map by (blast, blast, blast, metis distinct_map)
  have "0 \<le> lp_clock p" "lp_clock p < 2 ^ 62" using p ok small by (auto simp: proc_ok_def clocks_small_def)
  note F = send_facts [OF this send]
  have p': "lp_ID p' = lp_ID (ls_procs s ! i)" "lp_clock (ls_procs s ! i) \<le> lp_clock p'"
    using F by (auto simp: p_def)
  have fresh: "total_key x \<noteq> total_key msg" if "x \<in> M" for x
  proof
    assume eq: "total_key x = total_key msg"
    obtain q where q: "q \<in> set (ls_procs s)" "lp_ID q = lm_Sender x" "lm_Timestamp x \<le> lp_clock q"
      using ok(2) \<open>x \<in> M\<close> unfolding msg_ok_def by blast
    then have "q = p" using names p eq F(4) by (auto simp: total_key_def dest: inj_onD)
    then show False using q eq F(5) by (simp add: total_key_def)
  qed
  have "ls_inv ids (s\<lparr>ls_procs := (ls_procs s)[i := p'], ls_sent := ls_sent s @ [(msg, lp_messages p)]\<rparr>)"
  proof (rule ls_inv_update [OF inv True p' refl])
    show "proc_ok (fst ` set (ls_sent s @ [(msg, lp_messages p)])) p'"
      using ok(1) F unfolding proc_ok_def M_def by auto
    have "total_key msg \<notin> total_key ` (M - {msg})" using fresh by (metis DiffD1 imageE)
    moreover have "fst ` set (ls_sent s @ [(msg, lp_messages p)]) = insert msg M" by (simp add: M_def)
    ultimately show "inj_on total_key (fst ` set (ls_sent s @ [(msg, lp_messages p)]))"
      using ok(3) by (simp only: inj_on_insert simp_thms)
    show "\<forall>m \<in> fst ` set [(msg, lp_messages p)]. msg_ok ((ls_procs s)[i := p']) m"
      using True F by (auto simp: msg_ok_def intro!: bexI [of _ p'] set_update_memI)
  qed (use ok(1) F in \<open>auto simp: proc_ok_def\<close>)
  then show ?thesis using True send by (simp add: p_def)
qed (use inv in simp)

lemma ls_inv_recv:
  assumes inv: "ls_inv ids s" and small: "clocks_small s"
  shows "ls_inv ids (lstep s (LRecv i j))"
proof (cases "i < length (ls_procs s) \<and> j < length (ls_sent s)")
  case True
  define p M m where "p = ls_procs s ! i" and "M = fst ` set (ls_sent s)" and "m = fst (ls_sent s ! j)"
  have p: "p \<in> set (ls_procs s)" and m: "m \<in> M" using True by (auto simp: p_def m_def M_def)
  have ok: "proc_ok M p" "msg_ok (ls_procs s) m" "inj_on total_key M"
    using inv p m unfolding ls_inv_def M_def by blast+
  then have "0 \<le> lp_clock p" "lp_clock p < 2 ^ 62" "lm_Timestamp m < 2 ^ 62"
    using p small by (auto simp: proc_ok_def msg_ok_def clocks_small_def)
  note F = receive_facts [OF this]
  have "ls_inv ids (s\<lparr>ls_procs := (ls_procs s)[i := receive p m], ls_sent := ls_sent s @ []\<rparr>)"
  proof (rule ls_inv_update [OF inv _ _ _ refl])
    show "proc_ok (fst ` set (ls_sent s @ [])) (receive p m)"
      using ok(1) m F unfolding proc_ok_def M_def by auto
  qed (use True F ok(3) in \<open>auto simp: p_def M_def\<close>)
  then show ?thesis using True by (simp add: p_def m_def)
qed (use inv in auto)

interpretation lamport: guarded_object lstep "ls_inv ids" "\<lambda>s e. clocks_small s" for ids
proof
  fix s e
  assume "ls_inv ids s" "clocks_small s"
  then show "ls_inv ids (lstep s e)" by (cases e) (auto intro: ls_inv_send ls_inv_recv simp del: lstep.simps)
qed

text \<open>Clocks advance by at most one per step, so a history of fewer than \<open>2 ^ 62\<close> events never wraps.\<close>

lemma lstep_clocks:
  assumes inv: "ls_inv ids s" and le: "\<forall>p \<in> set (ls_procs s). lp_clock p \<le> b" and b: "b < 2 ^ 62"
  shows "\<forall>p \<in> set (ls_procs (lstep s e)). lp_clock p \<le> b + 1"
proof -
  have le': "\<forall>p \<in> set (ls_procs s). lp_clock p \<le> b + 1" using le by force
  have nn: "\<forall>p \<in> set (ls_procs s). 0 \<le> lp_clock p" using inv by (auto simp: ls_inv_def proc_ok_def)
  show ?thesis
  proof (cases e)
    case (LSend i content)
    show ?thesis
    proof (cases "i < length (ls_procs s)")
      case True
      obtain p' msg where send: "send (ls_procs s ! i) content = (p', msg)" by fastforce
      have "lp_clock p' \<le> b + 1"
        using send_facts(2) [OF _ _ send] True nn le b by (metis add_right_mono nth_mem order_le_less_trans)
      then show ?thesis using ball_update [OF le'] True LSend send by simp
    qed (use le' LSend in simp)
  next
    case (LRecv i j)
    show ?thesis
    proof (cases "i < length (ls_procs s) \<and> j < length (ls_sent s)")
      case True
      define p m where "p = ls_procs s ! i" and "m = fst (ls_sent s ! j)"
      have p: "0 \<le> lp_clock p" "lp_clock p \<le> b" using nn le True by (auto simp: p_def)
      have "msg_ok (ls_procs s) m" using inv True by (auto simp: ls_inv_def m_def)
      then have "lm_Timestamp m \<le> b" using le by (force simp: msg_ok_def)
      then have "lp_clock (receive p m) \<le> b + 1" using receive_facts(2) [of p m] p b by simp
      then show ?thesis using ball_update [OF le'] True LRecv by (simp add: p_def m_def)
    qed (use le' LRecv in auto)
  qed
qed

lemma lstep_admissible:
  "ls_inv ids s \<Longrightarrow> \<forall>p \<in> set (ls_procs s). lp_clock p \<le> b \<Longrightarrow> b + int (length es) < 2 ^ 62 \<Longrightarrow>
     admissible lstep (\<lambda>s e. clocks_small s) s es"
proof (induction es arbitrary: s b)
  case (Cons e es)
  then have small: "clocks_small s" and "b < 2 ^ 62" by (force simp: clocks_small_def)+
  moreover have "ls_inv ids (lstep s e)" by (rule lamport.guarded_step [OF Cons.prems(1) small])
  ultimately show ?case
    using Cons.IH [of "lstep s e" "b + 1"] lstep_clocks [OF Cons.prems(1,2), of e] Cons.prems(3) by simp
qed simp

lemma ls_inv_run:
  assumes "distinct ids" and "length es < 2 ^ 62"
  shows "ls_inv ids (run lstep (startProcesses ids) es)"
proof (rule lamport.guarded_run)
  show "ls_inv ids (startProcesses ids)" using assms(1) by simp
  then show "admissible lstep (\<lambda>s e. clocks_small s) (startProcesses ids) es"
    using assms(2) by (intro lstep_admissible [where b = 0]) (auto simp: startProcesses_def createProcess_def)
qed

section \<open>The total order\<close>

lemma collect_facts:
  assumes "inj_on lm_ID (set ms \<union> set a)" and "seen = lm_ID ` set a" and "distinct a"
    and "collectMessages ms (a, seen) = (a', seen')"
  shows "set a' = set a \<union> set ms \<and> seen' = lm_ID ` set a' \<and> distinct a'"
  using assms unfolding collectMessages_def
proof (induction ms arbitrary: a seen)
  case (Cons m ms)
  show ?case
  proof (cases "lm_ID m \<in> seen")
    case True
    then have "m \<in> set a" using Cons.prems(1,2) by (auto dest: inj_onD)
    moreover have "inj_on lm_ID (set ms \<union> set a)" using Cons.prems(1) by (rule inj_on_subset) auto
    ultimately show ?thesis using Cons.IH [OF _ Cons.prems(2,3)] Cons.prems(4) True by auto
  next
    case False
    moreover have "inj_on lm_ID (set ms \<union> set (a @ [m]))" using Cons.prems(1) by (rule inj_on_subset) auto
    moreover have "distinct (a @ [m])" using False Cons.prems(2,3) by auto
    ultimately show ?thesis using Cons.IH [of "a @ [m]" "insert (lm_ID m) seen"] Cons.prems(2,4) by auto
  qed
qed simp

lemma collect_all_facts:
  assumes "inj_on lm_ID ((\<Union>p \<in> set ps. set (lp_messages p)) \<union> set a)" and "seen = lm_ID ` set a" and "distinct a"
    and "fold (\<lambda>p. collectMessages (lp_messages p)) ps (a, seen) = (a', seen')"
  shows "set a' = set a \<union> (\<Union>p \<in> set ps. set (lp_messages p)) \<and> distinct a'"
  using assms
proof (induction ps arbitrary: a seen)
  case (Cons p ps)
  obtain b sb where c: "collectMessages (lp_messages p) (a, seen) = (b, sb)" by fastforce
  have "inj_on lm_ID (set (lp_messages p) \<union> set a)" using Cons.prems(1) by (rule inj_on_subset) auto
  from collect_facts [OF this Cons.prems(2,3) c]
  have b: "set b = set a \<union> set (lp_messages p)" "sb = lm_ID ` set b" "distinct b" by auto
  moreover have "inj_on lm_ID ((\<Union>p \<in> set ps. set (lp_messages p)) \<union> set b)"
    using Cons.prems(1) by (rule inj_on_subset) (auto simp: b(1))
  ultimately show ?case using Cons.IH [OF _ b(2,3)] Cons.prems(4) c by auto
qed simp

lemma total_order_facts:
  assumes "ls_inv ids s" and "set ps \<subseteq> set (ls_procs s)"
  shows "set (getTotalOrder ps) = (\<Union>p \<in> set ps. set (lp_messages p))"
    and "distinct (getTotalOrder ps)"
    and "set ps = set qs \<Longrightarrow> getTotalOrder ps = getTotalOrder qs"
    and "inj_on total_key (set (getTotalOrder ps))"
proof -
  define M where "M = fst ` set (ls_sent s)"
  have M: "(\<Union>p \<in> set ps. set (lp_messages p)) \<subseteq> M" "inj_on total_key M"
    using assms unfolding ls_inv_def proc_ok_def M_def by (blast, blast)
  have "inj_on lm_ID M"
  proof (rule inj_onI)
    fix x y
    assume xy: "x \<in> M" "y \<in> M" "lm_ID x = lm_ID y"
    then have "lm_Sender x @ ''_'' @ itoa (lm_Timestamp x) = lm_Sender y @ ''_'' @ itoa (lm_Timestamp y)"
      using assms(1) unfolding ls_inv_def msg_ok_def M_def by metis
    then have "total_key x = total_key y" unfolding tagged_itoa_inj by (simp add: total_key_def)
    then show "x = y" using M(2) xy by (auto dest: inj_onD)
  qed
  then have inj: "inj_on lm_ID (\<Union>p \<in> set ps. set (lp_messages p))" using M(1) by (rule inj_on_subset)
  have coll: "set (fst (fold (\<lambda>p. collectMessages (lp_messages p)) rs ([], {}))) = (\<Union>p \<in> set ps. set (lp_messages p))
      \<and> distinct (fst (fold (\<lambda>p. collectMessages (lp_messages p)) rs ([], {})))" if "set rs = set ps" for rs
    using collect_all_facts [of rs "[]" "{}"] inj that
    by (cases "fold (\<lambda>p. collectMessages (lp_messages p)) rs ([], {})") auto
  then show "set (getTotalOrder ps) = (\<Union>p \<in> set ps. set (lp_messages p))" "distinct (getTotalOrder ps)"
    unfolding getTotalOrder_def by simp_all
  then show "inj_on total_key (set (getTotalOrder ps))" using M by (auto intro: inj_on_subset)
  show "getTotalOrder ps = getTotalOrder qs" if "set ps = set qs"
    unfolding getTotalOrder_def
    by (rule sort_key_unique) (use coll that M in \<open>auto intro: inj_on_subset\<close>)
qed

section \<open>Properties\<close>

text \<open> The clock condition.  In every execution, the timestamp of a message is greater than the
  timestamp of everything its sender had sent or received before, and no two messages have both the same
  timestamp and the same sender.\<close>

theorem lamport_clock_condition:
  assumes "distinct ids" and "length es < 2 ^ 62"
  shows "(\<forall>(m, past) \<in> set (ls_sent (run lstep (startProcesses ids) es)).
            \<forall>x \<in> set past. lm_Timestamp x < lm_Timestamp m) \<and>
         inj_on total_key (fst ` set (ls_sent (run lstep (startProcesses ids) es)))"
  using ls_inv_run [OF assms] unfolding ls_inv_def by blast

definition demo_lamport :: "levent list" where
  "demo_lamport = [LSend 0 ''init'', LRecv 2 0, LSend 2 ''r3'', LRecv 1 0, LSend 1 ''r2'', LRecv 0 1, LRecv 2 2]"

theorem lamport_clock_condition_witness:
  "distinct [''P1'', ''P2'', ''P3''] \<and> length demo_lamport < 2 ^ 62 \<and>
   inj_on total_key (fst ` set (ls_sent (run lstep (startProcesses [''P1'', ''P2'', ''P3'']) demo_lamport))) \<and>
   map (\<lambda>(m, past). (lm_Timestamp m, map lm_Timestamp past))
     (ls_sent (run lstep (startProcesses [''P1'', ''P2'', ''P3'']) demo_lamport)) = [(1, []), (3, [1]), (3, [1])]"
proof (intro conjI)
  show d: "distinct [''P1'', ''P2'', ''P3'']" by simp
  show l: "length demo_lamport < 2 ^ 62" by (simp add: demo_lamport_def)
  show "inj_on total_key (fst ` set (ls_sent (run lstep (startProcesses [''P1'', ''P2'', ''P3'']) demo_lamport)))"
    using lamport_clock_condition [OF d l] by (rule conjunct2)
qed code_simp

text \<open>C5.  Agreement on one total order.  In every execution \<open>getTotalOrder\<close> of any selection of the
  processes contains exactly the messages these processes know, each once, strictly ordered by timestamp
  and then sender; it does not depend on the order (or repetition) in which the processes are listed; and
  what happened before a message stands before it.\<close>

theorem total_order_agreement:
  assumes "distinct ids" and "length es < 2 ^ 62" and "s = run lstep (startProcesses ids) es"
    and "set ps \<subseteq> set (ls_procs s)"
  shows "set (getTotalOrder ps) = (\<Union>p \<in> set ps. set (lp_messages p)) \<and>
         sorted_wrt (\<lambda>a b. total_key a < total_key b) (getTotalOrder ps) \<and>
         (\<forall>qs. set qs = set ps \<longrightarrow> getTotalOrder qs = getTotalOrder ps) \<and>
         (\<forall>m past x xs ys. (m, past) \<in> set (ls_sent s) \<longrightarrow> x \<in> set past \<longrightarrow>
            getTotalOrder ps = xs @ m # ys \<longrightarrow> x \<notin> set ys)"
proof -
  have inv: "ls_inv ids s" using ls_inv_run [OF assms(1,2)] assms(3) by simp
  note T = total_order_facts [OF inv assms(4)]
  have "sorted (map total_key (getTotalOrder ps))" by (simp add: getTotalOrder_def)
  moreover have "distinct (map total_key (getTotalOrder ps))" using T(2,4) by (simp add: distinct_map)
  ultimately have "sorted_wrt (<) (map total_key (getTotalOrder ps))" by (simp add: strict_sorted_iff)
  then have sorted: "sorted_wrt (\<lambda>a b. total_key a < total_key b) (getTotalOrder ps)" by (simp add: sorted_wrt_map)
  moreover have "x \<notin> set ys"
    if "(m, past) \<in> set (ls_sent s)" "x \<in> set past" "getTotalOrder ps = xs @ m # ys" for m past x xs ys
  proof
    assume "x \<in> set ys"
    then have "total_key m < total_key x" using sorted that(3) by (simp add: sorted_wrt_append)
    moreover have "lm_Timestamp x < lm_Timestamp m" using inv that(1,2) unfolding ls_inv_def by blast
    ultimately show False by (simp add: total_key_def less_prod_def)
  qed
  moreover have "getTotalOrder qs = getTotalOrder ps" if "set qs = set ps" for qs
    using T(3) [of qs] that by simp
  ultimately show ?thesis using T(1) by blast
qed

theorem total_order_agreement_witness:
  "map lm_Content (getTotalOrder (rev (ls_procs (run lstep (startProcesses [''P1'', ''P2'', ''P3'']) demo_lamport)))) =
     [''init'', ''r2'', ''r3''] \<and>
   getTotalOrder (rev (ls_procs (run lstep (startProcesses [''P1'', ''P2'', ''P3'']) demo_lamport))) =
     getTotalOrder (ls_procs (run lstep (startProcesses [''P1'', ''P2'', ''P3'']) demo_lamport))"
proof
  let ?s = "run lstep (startProcesses [''P1'', ''P2'', ''P3'']) demo_lamport"
  show "map lm_Content (getTotalOrder (rev (ls_procs ?s))) = [''init'', ''r2'', ''r3'']" by code_simp
  have d: "distinct [''P1'', ''P2'', ''P3'']" by simp
  have l: "length demo_lamport < 2 ^ 62" by (simp add: demo_lamport_def)
  from total_order_agreement [OF d l refl order_refl]
  have "set (rev (ls_procs ?s)) = set (ls_procs ?s) \<longrightarrow> getTotalOrder (rev (ls_procs ?s)) = getTotalOrder (ls_procs ?s)"
    by blast
  then show "getTotalOrder (rev (ls_procs ?s)) = getTotalOrder (ls_procs ?s)" by (simp only: set_rev simp_thms)
qed

end
