(* ===== verification/SequenceBuffer.thy ===== *)
theory SequenceBuffer
  imports GoPrelude
begin

text \<open>
  \<open>src/solutions/challenge10_solution.go\<close>, solution 3: a reordering buffer with one sequence of
  numbers per partition key.  \<open>pending\<close> is an association list, since the code ranges over it
  and takes its length; the delivery channel is the list of messages sent on it.  \<open>clk i\<close> is the
  \<open>i\<close>-th clock reading.  Shown: without time-outs every partition is delivered gap-free, in order
  and exactly once, whatever arrives; a permuted stream comes out sorted and complete; and the
  interplay of the time-out skip with a resent message delivers a message twice.
\<close>

record SMessage =
  sm_PartitionKey :: string
  sm_SequenceNum :: int
  sm_Content :: string
  sm_Timestamp :: gotime

record PartitionBuffer =
  pb_nextSeq :: int
  pb_pending :: "(int \<times> SMessage) list"
  pb_maxBufferSize :: int
  pb_lastDelivery :: gotime
  pb_timeout :: duration

record OrderedBuffer =
  ob_buffers :: "string \<rightharpoonup> PartitionBuffer"
  ob_deliveryChan :: "SMessage list"

definition createOrderedBuffer :: OrderedBuffer where
  "createOrderedBuffer = \<lparr>ob_buffers = Map.empty, ob_deliveryChan = []\<rparr>"

definition newPartitionBuffer :: "gotime \<Rightarrow> PartitionBuffer" where
  "newPartitionBuffer now =
     \<lparr>pb_nextSeq = 1, pb_pending = [], pb_maxBufferSize = 100, pb_lastDelivery = now,
      pb_timeout = 500 * 1000000\<rparr>"

text \<open>The loop that delivers consecutive pending messages: the new buffer, the messages sent on the
  channel, the next clock index.\<close>

function deliverPending ::
    "(nat \<Rightarrow> gotime) \<Rightarrow> nat \<Rightarrow> PartitionBuffer \<Rightarrow> PartitionBuffer \<times> SMessage list \<times> nat" where
  "deliverPending clk i pb =
     (case map_of (pb_pending pb) (pb_nextSeq pb) of
        Some pendingMsg \<Rightarrow>
          (let (pb', ms, j) = deliverPending clk (Suc i)
             (pb\<lparr>pb_pending := AList.delete (pb_nextSeq pb) (pb_pending pb),
                 pb_nextSeq := i64 (pb_nextSeq pb + 1), pb_lastDelivery := clk i\<rparr>)
           in (pb', pendingMsg # ms, j))
      | None \<Rightarrow> (pb, [], i))"
  by pat_completeness auto
termination
  by (relation "measure (\<lambda>(clk, i, pb). length (pb_pending pb))") (auto simp: length_delete_less)

declare deliverPending.simps [simp del]

text \<open>The three-way branch of \<open>addMessage\<close> on one partition.\<close>

definition addToPartition ::
    "(nat \<Rightarrow> gotime) \<Rightarrow> nat \<Rightarrow> SMessage \<Rightarrow> PartitionBuffer \<Rightarrow> PartitionBuffer \<times> SMessage list" where
  "addToPartition clk i msg pb =
     (if sm_SequenceNum msg = pb_nextSeq pb then
        (let (pb', ms, _) = deliverPending clk (Suc i)
               (pb\<lparr>pb_nextSeq := i64 (pb_nextSeq pb + 1), pb_lastDelivery := clk i\<rparr>)
         in (pb', msg # ms))
      else if sm_SequenceNum msg > pb_nextSeq pb then
        (pb\<lparr>pb_pending := AList.update (sm_SequenceNum msg) msg (pb_pending pb)\<rparr>, [])
      else (pb, []))"

definition addMessage :: "(nat \<Rightarrow> gotime) \<Rightarrow> SMessage \<Rightarrow> OrderedBuffer \<Rightarrow> OrderedBuffer" where
  "addMessage clk msg ob =
     (let (pb, i) = (case ob_buffers ob (sm_PartitionKey msg) of
                       None \<Rightarrow> (newPartitionBuffer (clk 0), 1)
                     | Some pb \<Rightarrow> (pb, 0));
          (pb', ms) = addToPartition clk i msg pb
      in ob\<lparr>ob_buffers := (ob_buffers ob)(sm_PartitionKey msg \<mapsto> pb'),
            ob_deliveryChan := ob_deliveryChan ob @ ms\<rparr>)"

text \<open>The search for the smallest pending sequence number, with the code's start value \<open>-1\<close>.\<close>

definition minPending :: "(int \<times> SMessage) list \<Rightarrow> int" where
  "minPending ps = foldl (\<lambda>minSeq seq. if minSeq = -1 \<or> seq < minSeq then seq else minSeq) (-1) (map fst ps)"

text \<open>One partition in one tick of \<open>checkTimeouts\<close>.\<close>

definition timeoutPartition :: "gotime \<Rightarrow> PartitionBuffer \<Rightarrow> PartitionBuffer \<times> SMessage list" where
  "timeoutPartition now pb =
     (let (pb1, ms) =
        (if now - pb_lastDelivery pb > pb_timeout pb \<and> length (pb_pending pb) > 0 then
           (let minSeq = minPending (pb_pending pb)
            in if minSeq \<noteq> -1 then
                 (case map_of (pb_pending pb) minSeq of
                    Some msg \<Rightarrow>
                      (pb\<lparr>pb_nextSeq := i64 (minSeq + 1), pb_pending := AList.delete minSeq (pb_pending pb),
                          pb_lastDelivery := now\<rparr>, [msg])
                  | None \<Rightarrow> (pb, []))
               else (pb, []))
         else (pb, []))
      in if int (length (pb_pending pb1)) > pb_maxBufferSize pb1 then
           (pb1\<lparr>pb_pending := filter (\<lambda>(seq, _).
              \<not> seq < i64 (pb_nextSeq pb1 + pb_maxBufferSize pb1 div 2)) (pb_pending pb1)\<rparr>, ms)
         else (pb1, ms))"

text \<open>A tick of \<open>checkTimeouts\<close>; \<open>keys\<close> is the order in which Go's \<open>range\<close> visits the partitions.\<close>

fun checkTimeouts :: "gotime \<Rightarrow> string list \<Rightarrow> OrderedBuffer \<Rightarrow> OrderedBuffer" where
  "checkTimeouts now [] ob = ob"
| "checkTimeouts now (key # keys) ob =
     checkTimeouts now keys
       (case ob_buffers ob key of
          None \<Rightarrow> ob
        | Some pb \<Rightarrow>
            (let (pb', ms) = timeoutPartition now pb
             in ob\<lparr>ob_buffers := (ob_buffers ob)(key \<mapsto> pb'), ob_deliveryChan := ob_deliveryChan ob @ ms\<rparr>))"

section \<open>Draining\<close>

text \<open>Representation invariant of one partition: \<open>L\<close> has been delivered, and everything delivered or
  pending is among the arrivals \<open>A\<close>.\<close>

definition pb_rep :: "string \<Rightarrow> SMessage multiset \<Rightarrow> SMessage list \<Rightarrow> PartitionBuffer \<Rightarrow> bool" where
  "pb_rep k A L pb \<longleftrightarrow>
     map sm_SequenceNum L = [1..int (length L)] \<and> pb_nextSeq pb = int (length L) + 1 \<and>
     (\<forall>(s, m) \<in> set (pb_pending pb). s = sm_SequenceNum m \<and> sm_PartitionKey m = k \<and> pb_nextSeq pb \<le> s) \<and>
     distinct (map fst (pb_pending pb)) \<and> (\<forall>m \<in> set L. sm_PartitionKey m = k) \<and>
     mset L + mset (map snd (pb_pending pb)) \<subseteq># A"

lemma pb_rep_length:
  assumes "pb_rep k A L pb"
  shows "length L \<le> size A"
proof -
  have "size (mset L + mset (map snd (pb_pending pb))) \<le> size A"
    using assms unfolding pb_rep_def by (blast intro: size_mset_mono)
  then show ?thesis by simp
qed

lemma deliverPending_rep:
  assumes "deliverPending clk i pb = (pb', ms, j)" and "pb_rep k A L pb" and "size A < 2 ^ 62"
  shows "pb_rep k A (L @ ms) pb' \<and> map_of (pb_pending pb') (pb_nextSeq pb') = None \<and>
         mset ms + mset (map snd (pb_pending pb')) = mset (map snd (pb_pending pb))"
  using assms
proof (induction clk i pb arbitrary: L pb' ms j rule: deliverPending.induct)
  case (1 clk i pb)
  show ?case
  proof (cases "map_of (pb_pending pb) (pb_nextSeq pb)")
    case None
    with "1.prems" show ?thesis by (simp add: deliverPending.simps [of clk i pb])
  next
    case (Some m)
    let ?pb = "pb\<lparr>pb_pending := AList.delete (pb_nextSeq pb) (pb_pending pb),
                 pb_nextSeq := i64 (pb_nextSeq pb + 1), pb_lastDelivery := clk i\<rparr>"
    obtain ns where d: "deliverPending clk (Suc i) ?pb = (pb', ns, j)" and ms: "ms = m # ns"
      using "1.prems"(1) Some by (auto simp: deliverPending.simps [of clk i pb] split: prod.splits)
    have rep: "pb_rep k A L pb" by fact
    then have dist: "distinct (map fst (pb_pending pb))" by (simp add: pb_rep_def)
    note del = mset_alist_delete [OF Some dist]
    have "(pb_nextSeq pb, m) \<in> set (pb_pending pb)" using Some by (rule map_of_SomeD)
    then have m: "sm_SequenceNum m = pb_nextSeq pb" "sm_PartitionKey m = k" using rep by (auto simp: pb_rep_def)
    have "length L \<le> size A" using rep by (rule pb_rep_length)
    then have i: "i64 (pb_nextSeq pb + 1) = pb_nextSeq pb + 1"
      using rep "1.prems"(3) by (simp add: pb_rep_def in_i64_def)
    have "pb_rep k A (L @ [m]) ?pb"
      using rep m i dist del unfolding pb_rep_def
      by (auto simp: set_alist_delete AList.distinct_delete upto_snoc
          intro: order_neq_le_trans)
    from "1.IH" [OF Some d this "1.prems"(3)] ms show ?thesis using del by simp
  qed
qed

text \<open>Between operations the next expected message is not pending.\<close>

definition pb_ok :: "string \<Rightarrow> SMessage multiset \<Rightarrow> SMessage list \<Rightarrow> PartitionBuffer \<Rightarrow> bool" where
  "pb_ok k A L pb \<longleftrightarrow> pb_rep k A L pb \<and> map_of (pb_pending pb) (pb_nextSeq pb) = None"

lemma pb_ok_new: "pb_ok k A [] (newPartitionBuffer now)"
  by (simp add: pb_ok_def pb_rep_def newPartitionBuffer_def)

lemma pb_rep_more: "pb_rep k A L pb \<Longrightarrow> A \<subseteq># B \<Longrightarrow> pb_rep k B L pb"
  unfolding pb_rep_def by (blast intro: subset_mset.order_trans)

text \<open>A message that neither was delivered nor is pending.\<close>

definition fresh_msg :: "SMessage list \<Rightarrow> PartitionBuffer \<Rightarrow> SMessage \<Rightarrow> bool" where
  "fresh_msg L pb m \<longleftrightarrow> sm_SequenceNum m \<notin> set (map sm_SequenceNum L) \<and>
     sm_SequenceNum m \<notin> set (map fst (pb_pending pb)) \<and> 1 \<le> sm_SequenceNum m"

lemma addToPartition_now:
  assumes ok: "pb_ok k A L pb" and key: "sm_PartitionKey msg = k" and size: "size A < 2 ^ 62 - 1"
    and now: "sm_SequenceNum msg = pb_nextSeq pb" and add: "addToPartition clk i msg pb = (pb', ms)"
  shows "pb_ok k (add_mset msg A) (L @ ms) pb' \<and>
         mset ms + mset (map snd (pb_pending pb')) = add_mset msg (mset (map snd (pb_pending pb)))"
proof -
  let ?pb = "pb\<lparr>pb_nextSeq := i64 (pb_nextSeq pb + 1), pb_lastDelivery := clk i\<rparr>"
  obtain ns j where d: "deliverPending clk (Suc i) ?pb = (pb', ns, j)" and ms: "ms = msg # ns"
    using add now by (auto simp: addToPartition_def split: prod.splits)
  have rep: "pb_rep k A L pb" and free: "pb_nextSeq pb \<notin> fst ` set (pb_pending pb)"
    using ok by (auto simp: pb_ok_def map_of_eq_None_iff)
  have "i64 (pb_nextSeq pb + 1) = pb_nextSeq pb + 1"
    using pb_rep_length [OF rep] rep size by (simp add: pb_rep_def in_i64_def)
  moreover have "\<forall>(s, m) \<in> set (pb_pending pb). pb_nextSeq pb + 1 \<le> s"
    using rep free unfolding pb_rep_def by (force simp: order.order_iff_strict)
  ultimately have "pb_rep k (add_mset msg A) (L @ [msg]) ?pb"
    using rep key now unfolding pb_rep_def
    by (auto simp: upto_snoc Ball_def)
  from deliverPending_rep [OF d this] size ms show ?thesis by (simp add: pb_ok_def)
qed

lemma addToPartition_later:
  assumes ok: "pb_ok k A L pb" and key: "sm_PartitionKey msg = k"
    and later: "sm_SequenceNum msg > pb_nextSeq pb" and add: "addToPartition clk i msg pb = (pb', ms)"
  shows "pb_ok k (add_mset msg A) (L @ ms) pb'"
proof -
  have rep: "pb_rep k A L pb" and free: "map_of (pb_pending pb) (pb_nextSeq pb) = None"
    using ok by (auto simp: pb_ok_def)
  have eq: "pb' = pb\<lparr>pb_pending := AList.update (sm_SequenceNum msg) msg (pb_pending pb)\<rparr>" "ms = []"
    using add later by (auto simp: addToPartition_def)
  have dist: "distinct (map fst (pb_pending pb))" using rep by (simp add: pb_rep_def)
  have "mset L + mset (map snd (AList.update (sm_SequenceNum msg) msg (pb_pending pb)))
      \<subseteq># mset L + add_mset msg (mset (map snd (pb_pending pb)))"
    by (rule subset_mset.add_left_mono [OF mset_alist_update])
  also have "\<dots> \<subseteq># add_mset msg A" using rep by (simp add: pb_rep_def)
  finally show ?thesis
    using rep free later key eq dist unfolding pb_ok_def pb_rep_def
    by (auto simp: set_alist_update AList.distinct_update AList.update_conv')
qed

lemma addToPartition_ok:
  assumes ok: "pb_ok k A L pb" and key: "sm_PartitionKey msg = k" and size: "size A < 2 ^ 62 - 1"
    and add: "addToPartition clk i msg pb = (pb', ms)"
  shows "pb_ok k (add_mset msg A) (L @ ms) pb'"
proof -
  consider "sm_SequenceNum msg = pb_nextSeq pb" | "sm_SequenceNum msg > pb_nextSeq pb"
    | "sm_SequenceNum msg < pb_nextSeq pb" by linarith
  then show ?thesis
  proof cases
    case 3
    then have "pb' = pb" "ms = []" using add by (auto simp: addToPartition_def)
    then show ?thesis using ok pb_rep_more [of k A L pb "add_mset msg A"] by (simp add: pb_ok_def)
  qed (use addToPartition_now [OF ok key size _ add] addToPartition_later [OF ok key _ add] in auto)
qed

lemma addToPartition_keeps:
  assumes ok: "pb_ok k A L pb" and key: "sm_PartitionKey msg = k" and size: "size A < 2 ^ 62 - 1"
    and new: "fresh_msg L pb msg" and add: "addToPartition clk i msg pb = (pb', ms)"
  shows "mset (L @ ms) + mset (map snd (pb_pending pb')) = add_mset msg (mset L + mset (map snd (pb_pending pb)))"
proof -
  have "map sm_SequenceNum L = [1..pb_nextSeq pb - 1]" using ok by (simp add: pb_ok_def pb_rep_def)
  then have "sm_SequenceNum msg \<ge> pb_nextSeq pb" using new by (auto simp: fresh_msg_def)
  then consider "sm_SequenceNum msg = pb_nextSeq pb" | "sm_SequenceNum msg > pb_nextSeq pb" by linarith
  then show ?thesis
  proof cases
    case 1
    then show ?thesis using addToPartition_now [OF ok key size 1 add] by simp
  next
    case 2
    then show ?thesis
      using add new mset_alist_update_new [of "sm_SequenceNum msg" "pb_pending pb" msg]
      by (auto simp: addToPartition_def fresh_msg_def)
  qed
qed

section \<open>Histories of arrivals\<close>

abbreviation key_msgs :: "string \<Rightarrow> SMessage list \<Rightarrow> SMessage list" where
  "key_msgs k ms \<equiv> filter (\<lambda>m. sm_PartitionKey m = k) ms"

text \<open>An arrival is a message with the clock readings its handling takes.\<close>

fun add_step :: "OrderedBuffer \<Rightarrow> (nat \<Rightarrow> gotime) \<times> SMessage \<Rightarrow> OrderedBuffer" where
  "add_step ob (clk, msg) = addMessage clk msg ob"

definition partition_of :: "OrderedBuffer \<Rightarrow> string \<Rightarrow> PartitionBuffer" where
  "partition_of ob k = (case ob_buffers ob k of None \<Rightarrow> newPartitionBuffer 0 | Some pb \<Rightarrow> pb)"

definition delivered_of :: "OrderedBuffer \<Rightarrow> string \<Rightarrow> SMessage list" where
  "delivered_of ob k = key_msgs k (ob_deliveryChan ob)"

text \<open>Other partitions are not affected; the partition of the message changes as \<open>addToPartition\<close>
  says.\<close>

lemma addMessage_other:
  assumes "sm_PartitionKey msg \<noteq> k" and "\<forall>k. pb_ok k (A k) (delivered_of ob k) (partition_of ob k)"
    and "size (A (sm_PartitionKey msg)) < 2 ^ 62 - 1"
  shows "partition_of (addMessage clk msg ob) k = partition_of ob k \<and>
         delivered_of (addMessage clk msg ob) k = delivered_of ob k"
proof -
  let ?k = "sm_PartitionKey msg"
  obtain pb i where pb: "(case ob_buffers ob ?k of None \<Rightarrow> (newPartitionBuffer (clk 0), 1) | Some pb \<Rightarrow> (pb, 0 :: nat)) = (pb, i)"
    by (metis surj_pair)
  obtain pb' ms where add: "addToPartition clk i msg pb = (pb', ms)" by (metis surj_pair)
  have "pb_ok ?k (A ?k) (delivered_of ob ?k) pb"
    using assms(2) [rule_format, of ?k] pb
    by (auto simp: partition_of_def pb_ok_def pb_rep_def newPartitionBuffer_def split: option.splits)
  from addToPartition_ok [OF this refl assms(3) add] have "\<forall>m \<in> set ms. sm_PartitionKey m = ?k"
    by (auto simp: pb_ok_def pb_rep_def)
  then have "key_msgs k ms = []" using assms(1) by (auto simp: filter_empty_conv)
  then show ?thesis using assms(1) pb add
    by (simp add: addMessage_def partition_of_def delivered_of_def)
qed

lemma addMessage_same:
  assumes ok: "pb_ok k A (delivered_of ob k) (partition_of ob k)" and key: "sm_PartitionKey msg = k"
    and size: "size A < 2 ^ 62 - 1"
  shows "pb_ok k (add_mset msg A) (delivered_of (addMessage clk msg ob) k) (partition_of (addMessage clk msg ob) k) \<and>
    (fresh_msg (delivered_of ob k) (partition_of ob k) msg \<longrightarrow>
      mset (delivered_of (addMessage clk msg ob) k) + mset (map snd (pb_pending (partition_of (addMessage clk msg ob) k)))
      = add_mset msg (mset (delivered_of ob k) + mset (map snd (pb_pending (partition_of ob k)))))"
proof -
  obtain pb i where pb: "(case ob_buffers ob k of None \<Rightarrow> (newPartitionBuffer (clk 0), 1) | Some pb \<Rightarrow> (pb, 0 :: nat)) = (pb, i)"
    by (metis surj_pair)
  obtain pb' ms where add: "addToPartition clk i msg pb = (pb', ms)" by (metis surj_pair)
  have same: "pb_nextSeq pb = pb_nextSeq (partition_of ob k)" "pb_pending pb = pb_pending (partition_of ob k)"
    using pb by (auto simp: partition_of_def newPartitionBuffer_def split: option.splits)
  have ok': "pb_ok k A (delivered_of ob k) pb"
    using ok unfolding pb_ok_def pb_rep_def same .
  note res = addToPartition_ok [OF ok' key size add]
  then have "\<forall>m \<in> set ms. sm_PartitionKey m = k" by (simp add: pb_ok_def pb_rep_def)
  then have "delivered_of (addMessage clk msg ob) k = delivered_of ob k @ ms"
    and "partition_of (addMessage clk msg ob) k = pb'"
    using pb add key by (auto simp: addMessage_def delivered_of_def partition_of_def)
  then show ?thesis using res addToPartition_keeps [OF ok' key size _ add] same by (simp add: fresh_msg_def)
qed

lemma key_msgs_size:
  assumes "length (es @ [e]) < 2 ^ 62"
  shows "size (mset (key_msgs k (map snd es))) < 2 ^ 62 - 1"
proof -
  have "length (key_msgs k (map snd es)) \<le> length es"
    using length_filter_le [of "\<lambda>m. sm_PartitionKey m = k" "map snd es"] by simp
  moreover have "length es < 2 ^ 62 - 1" using assms by simp
  ultimately show ?thesis unfolding size_mset by (rule order_le_less_trans)
qed

lemma add_run_ok:
  assumes "length es < 2 ^ 62"
  shows "pb_ok k (mset (key_msgs k (map snd es)))
           (delivered_of (run add_step createOrderedBuffer es) k) (partition_of (run add_step createOrderedBuffer es) k)"
  using assms
proof (induction es arbitrary: k rule: rev_induct)
  case Nil
  have "pb_ok k {#} [] (newPartitionBuffer 0)" by (rule pb_ok_new)
  then show ?case by (simp add: createOrderedBuffer_def partition_of_def delivered_of_def)
next
  case (snoc e es)
  obtain clk msg where e: "e = (clk, msg)" by (cases e)
  let ?ob = "run add_step createOrderedBuffer es"
  have IH: "\<forall>k. pb_ok k (mset (key_msgs k (map snd es))) (delivered_of ?ob k) (partition_of ?ob k)"
    using snoc by simp
  note size = key_msgs_size [OF snoc.prems]
  show ?case
  proof (cases "sm_PartitionKey msg = k")
    case True
    then show ?thesis using addMessage_same [OF IH [rule_format] True size, of clk] e by simp
  next
    case False
    then show ?thesis using addMessage_other [OF False IH size, of clk] IH e by simp
  qed
qed

text \<open>With distinct sequence numbers nothing is lost: everything that arrived is delivered or pending.\<close>

lemma add_run_keeps:
  assumes "length es < 2 ^ 62" and "distinct (map sm_SequenceNum (key_msgs k (map snd es)))"
    and "\<forall>m \<in> set (key_msgs k (map snd es)). 1 \<le> sm_SequenceNum m"
  shows "mset (delivered_of (run add_step createOrderedBuffer es) k) +
           mset (map snd (pb_pending (partition_of (run add_step createOrderedBuffer es) k)))
         = mset (key_msgs k (map snd es))"
  using assms
proof (induction es rule: rev_induct)
  case Nil
  then show ?case
    by (simp add: createOrderedBuffer_def partition_of_def delivered_of_def newPartitionBuffer_def)
next
  case (snoc e es)
  obtain clk msg where e: "e = (clk, msg)" by (cases e)
  let ?ob = "run add_step createOrderedBuffer es" and ?A = "mset (key_msgs k (map snd es))"
  have IH: "mset (delivered_of ?ob k) + mset (map snd (pb_pending (partition_of ?ob k))) = ?A"
    using snoc by auto
  have ok: "\<forall>k. pb_ok k (mset (key_msgs k (map snd es))) (delivered_of ?ob k) (partition_of ?ob k)"
    using add_run_ok snoc.prems(1) by simp
  note size = key_msgs_size [OF snoc.prems(1)]
  show ?case
  proof (cases "sm_PartitionKey msg = k")
    case False
    then show ?thesis using addMessage_other [OF False ok size, of clk] IH e by simp
  next
    case True
    have "fresh_msg (delivered_of ?ob k) (partition_of ?ob k) msg"
    proof -
      have seqs: "s = sm_SequenceNum m" if "(s, m) \<in> set (pb_pending (partition_of ?ob k))" for s m
        using ok that unfolding pb_ok_def pb_rep_def by blast
      have "set (delivered_of ?ob k) \<subseteq> set_mset ?A \<and> snd ` set (pb_pending (partition_of ?ob k)) \<subseteq> set_mset ?A"
        unfolding IH [symmetric] by auto
      then have "sm_SequenceNum ` set (delivered_of ?ob k) \<subseteq> sm_SequenceNum ` set_mset ?A"
        and "fst ` set (pb_pending (partition_of ?ob k)) \<subseteq> sm_SequenceNum ` set_mset ?A"
        using seqs by (blast, force)
      moreover have "sm_SequenceNum msg \<notin> sm_SequenceNum ` set_mset ?A" and "1 \<le> sm_SequenceNum msg"
        using snoc.prems(2,3) e True by auto
      ultimately show ?thesis unfolding fresh_msg_def set_map by blast
    qed
    then show ?thesis using addMessage_same [OF ok [rule_format] True size, of clk] IH e True by simp
  qed
qed

section \<open>Properties\<close>


definition demo_msg :: "string \<Rightarrow> int \<Rightarrow> SMessage" where
  "demo_msg k n = \<lparr>sm_PartitionKey = k, sm_SequenceNum = n, sm_Content = '''', sm_Timestamp = 0\<rparr>"

definition demo_adds :: "(string \<times> int) list \<Rightarrow> ((nat \<Rightarrow> gotime) \<times> SMessage) list" where
  "demo_adds = map (\<lambda>(k, n). (\<lambda>i. int i, demo_msg k n))"


text \<open>A partition that has seen all its numbers has delivered them all.\<close>

lemma pb_complete:
  assumes rep: "pb_rep k (mset A) D pb" and all: "mset D + mset (map snd (pb_pending pb)) = mset A"
    and free: "pb_nextSeq pb \<notin> fst ` set (pb_pending pb)"
    and nums: "sm_SequenceNum ` set A = {1..int n}"
  shows "map sm_SequenceNum D = [1..int n] \<and> pb_pending pb = []"
proof -
  let ?K = "fst ` set (pb_pending pb)"
  have D: "sm_SequenceNum ` set D = {1..int (length D)}" and "pb_nextSeq pb = int (length D) + 1"
    using rep unfolding pb_rep_def by (metis set_map set_upto, blast)
  have "\<forall>(s, m) \<in> set (pb_pending pb). s = sm_SequenceNum m \<and> sm_PartitionKey m = k \<and> pb_nextSeq pb \<le> s"
    using rep unfolding pb_rep_def by blast
  then have P: "fst p = sm_SequenceNum (snd p)" "int (length D) + 1 \<le> fst p" if "p \<in> set (pb_pending pb)" for p
    using that \<open>pb_nextSeq pb = int (length D) + 1\<close> by fastforce+
  have keys: "?K = sm_SequenceNum ` snd ` set (pb_pending pb)"
    unfolding image_image by (rule image_cong) (simp_all add: P)
  have above: "int (length D) + 1 < s" if "s \<in> ?K" for s
    using P(2) that free \<open>pb_nextSeq pb = int (length D) + 1\<close> by (metis imageE order_le_less)
  have "set A = set D \<union> snd ` set (pb_pending pb)"
    using arg_cong [OF all, of set_mset] by simp
  then have cover: "{1..int n} = {1..int (length D)} \<union> ?K"
    unfolding nums [symmetric] keys D [symmetric] by (simp add: image_Un)
  have len: "length D = n"
  proof (rule ccontr)
    assume "length D \<noteq> n"
    moreover have "int (length D) \<le> int n"
      using cover by (cases "length D") auto
    ultimately have "int (length D) + 1 \<in> {1..int n}" by simp
    then have "int (length D) + 1 \<in> ?K" unfolding cover by simp
    then show False using above by blast
  qed
  have "?K = {}"
  proof (rule equals0I)
    fix s assume s: "s \<in> ?K"
    then have "s \<in> {1..int n}" unfolding cover by (rule UnI2)
    moreover have "int (length D) + 1 < s" by (rule above [OF s])
    ultimately show False unfolding len by simp
  qed
  then show ?thesis using rep len by (simp add: pb_rep_def)
qed

text \<open> A permuted stream is restored.  If the messages of a partition arrive in any order but
  carry the numbers 1 to n once each, then after the last arrival the partition's deliveries are exactly
  these messages in increasing order, and nothing is left pending.\<close>

theorem permuted_stream_restored:
  assumes "length es < 2 ^ 62"
    and "mset (map sm_SequenceNum (key_msgs k (map snd es))) = mset [1..int n]"
  shows "map sm_SequenceNum (delivered_of (run add_step createOrderedBuffer es) k) = [1..int n] \<and>
         mset (delivered_of (run add_step createOrderedBuffer es) k) = mset (key_msgs k (map snd es)) \<and>
         pb_pending (partition_of (run add_step createOrderedBuffer es) k) = []"
proof -
  define A D pb where "A = key_msgs k (map snd es)" and "D = delivered_of (run add_step createOrderedBuffer es) k"
    and "pb = partition_of (run add_step createOrderedBuffer es) k"
  have nums: "sm_SequenceNum ` set A = {1..int n}" and dist: "distinct (map sm_SequenceNum A)"
    using assms(2) unfolding A_def [symmetric]
    by (metis set_map set_mset_mset set_upto, metis distinct_upto mset_eq_imp_distinct_iff)
  have "\<forall>m \<in> set A. 1 \<le> sm_SequenceNum m"
    using nums by (metis atLeastAtMost_iff image_eqI)
  with add_run_keeps [OF assms(1), of k] dist have all: "mset D + mset (map snd (pb_pending pb)) = mset A"
    unfolding A_def D_def pb_def by blast
  have "pb_rep k (mset A) D pb" and "pb_nextSeq pb \<notin> fst ` set (pb_pending pb)"
    using add_run_ok [OF assms(1), of k] unfolding A_def [symmetric] D_def [symmetric] pb_def [symmetric]
    by (auto simp: pb_ok_def map_of_eq_None_iff)
  from pb_complete [OF this(1) all this(2) nums] all
  show ?thesis unfolding A_def [symmetric] D_def [symmetric] pb_def [symmetric] by simp
qed

theorem permuted_stream_restored_witness:
  "map sm_SequenceNum (delivered_of (run add_step createOrderedBuffer
     (demo_adds [(''u'', 3), (''v'', 7), (''u'', 2), (''u'', 4), (''u'', 1)])) ''u'') = [1..int 4]"
proof -
  let ?es = "demo_adds [(''u'', 3), (''v'', 7), (''u'', 2), (''u'', 4), (''u'', 1)]"
  have len: "length ?es < 2 ^ 62" by (simp add: demo_adds_def)
  have "mset (map sm_SequenceNum (key_msgs ''u'' (map snd ?es))) = mset [1..int 4]"
    by (simp add: demo_adds_def demo_msg_def upto.simps)
  from permuted_stream_restored [OF len this] show ?thesis by (rule conjunct1)
qed

text \<open> The time-out skip breaks exactly-once delivery.  Messages 3 and 4 are buffered; the
  time-out skips to 3 and leaves 4 in the buffer although it is now the expected number; a resent 4 is
  then delivered at once while the old copy stays buffered; the next time-out moves the expected number
  back and delivers 4 again.\<close>

theorem timeout_redelivers:
  "\<exists>now now'. map sm_SequenceNum (ob_deliveryChan
      (checkTimeouts now' [''u''] (run add_step
        (checkTimeouts now [''u''] (run add_step createOrderedBuffer (demo_adds [(''u'', 3), (''u'', 4)])))
        (demo_adds [(''u'', 4)])))) = [3, 4, 4]"
  by (rule exI [of _ 1000000000], rule exI [of _ 2000000000]) code_simp

end
