(* ===== verification/TwoPhaseCommit.thy ===== *)
theory TwoPhaseCommit
  imports GoPrelude
begin

text \<open>
  Two-phase commit (\<open>src/solutions/challenge12_solution.go\<close>, \<open>solution1_TwoPhaseCommit\<close>).  Each
  participant's goroutine runs under that participant's mutex, so it is one atomic update of one element
  of the participants slice; the order in which the goroutines of a phase get to run is an argument.  The
  values stored are of an arbitrary type.  Shown: after any sequence of transactions, in any goroutine
  order, all replicas hold the same data and the same versions as the abstract key-value store; an aborted
  prepare leaves no trace; and two transactions that run concurrently on one key can leave the replicas
  different for good, since preparing never conflicts.
\<close>

record 'v Transaction =
  tx_ID :: string
  tx_Timestamp :: gotime
  tx_State :: string
  tx_Data :: "(string \<times> 'v) list"

record 'v Participant =
  pt_ID :: string
  pt_data :: "string \<rightharpoonup> 'v"
  pt_prepared :: "string \<rightharpoonup> 'v Transaction"
  pt_versions :: "string \<rightharpoonup> int"

definition newParticipant :: "string \<Rightarrow> 'v Participant" where
  "newParticipant pid = \<lparr>pt_ID = pid, pt_data = Map.empty, pt_prepared = Map.empty, pt_versions = Map.empty\<rparr>"

definition coordinator :: "'v Participant list" where
  "coordinator = map newParticipant [''primary'', ''cache'', ''search'']"

text \<open>The body of a participant's goroutine in the prepare phase; its vote is always yes.\<close>

definition prepareAt :: "'v Transaction \<Rightarrow> 'v Participant \<Rightarrow> 'v Participant" where
  "prepareAt tx p = p\<lparr>pt_prepared := (pt_prepared p)(tx_ID tx \<mapsto> tx)\<rparr>"

definition newTx :: "string \<Rightarrow> gotime \<Rightarrow> string \<Rightarrow> 'v \<Rightarrow> 'v Transaction" where
  "newTx txID now key value = \<lparr>tx_ID = txID, tx_Timestamp = now, tx_State = ''prepare'', tx_Data = [(key, value)]\<rparr>"

text \<open>\<open>prepare\<close>: the decision, the participants for which a rollback closure was appended, and the
  participants.\<close>

definition prepare ::
    "string \<Rightarrow> gotime \<Rightarrow> string \<Rightarrow> 'v \<Rightarrow> nat list \<Rightarrow> 'v Participant list \<Rightarrow> bool \<times> nat list \<times> 'v Participant list" where
  "prepare txID now key value order ps =
     (let tx = newTx txID now key value;
          votes = map (\<lambda>i. True) order;
          allVotesYes = fold (\<lambda>vote acc. if \<not> vote then False else acc) votes True
      in (allVotesYes, order, fold (\<lambda>i ps. ps[i := prepareAt tx (ps ! i)]) order ps))"

text \<open>The bodies of the commit and abort goroutines.\<close>

definition commitAt :: "string \<Rightarrow> 'v Participant \<Rightarrow> 'v Participant" where
  "commitAt txID p =
     (case pt_prepared p txID of
        None \<Rightarrow> p
      | Some tx \<Rightarrow>
          (let p' = fold (\<lambda>(k, v) p. p\<lparr>pt_data := (pt_data p)(k \<mapsto> v),
                            pt_versions := (pt_versions p)(k \<mapsto> i64 (get0 (pt_versions p) k + 1))\<rparr>) (tx_Data tx) p
           in p'\<lparr>pt_prepared := (pt_prepared p')(txID := None)\<rparr>))"

definition commit :: "string \<Rightarrow> nat list \<Rightarrow> 'v Participant list \<Rightarrow> 'v Participant list" where
  "commit txID order ps = fold (\<lambda>i ps. ps[i := commitAt txID (ps ! i)]) order ps"

definition rollbackAt :: "string \<Rightarrow> 'v Participant \<Rightarrow> 'v Participant" where
  "rollbackAt txID p = p\<lparr>pt_prepared := (pt_prepared p)(txID := None)\<rparr>"

definition abort :: "string \<Rightarrow> nat list \<Rightarrow> nat list \<Rightarrow> 'v Participant list \<Rightarrow> 'v Participant list" where
  "abort txID rollbacks order ps =
     fold (\<lambda>i ps. ps[i := rollbackAt txID (ps ! i)]) order
       (fold (\<lambda>i ps. ps[i := rollbackAt txID (ps ! i)]) rollbacks ps)"

text \<open>One call of \<open>executeTx\<close>: its two clock readings, key, value, and the goroutine orders of the two
  phases.\<close>

record 'v TxCall =
  tc_nano :: gotime
  tc_now :: gotime
  tc_key :: string
  tc_value :: 'v
  tc_order1 :: "nat list"
  tc_order2 :: "nat list"

definition executeTx :: "'v Participant list \<Rightarrow> 'v TxCall \<Rightarrow> 'v Participant list" where
  "executeTx ps c =
     (let txID = ''tx_'' @ itoa (tc_nano c);
          (canCommit, rollbacks, ps') = prepare txID (tc_now c) (tc_key c) (tc_value c) (tc_order1 c) ps
      in if canCommit then commit txID (tc_order2 c) ps'
         else abort txID rollbacks (tc_order2 c) ps')"

text \<open>Single goroutine steps, for transactions that overlap.\<close>

datatype 'v tpc_step = PrepareAt nat "'v Transaction" | CommitAt nat string

fun tpc :: "'v Participant list \<Rightarrow> 'v tpc_step \<Rightarrow> 'v Participant list" where
  "tpc ps (PrepareAt i tx) = ps[i := prepareAt tx (ps ! i)]"
| "tpc ps (CommitAt i txID) = ps[i := commitAt txID (ps ! i)]"

section \<open>The abstract store\<close>

definition scheduled :: "nat \<Rightarrow> 'v TxCall \<Rightarrow> bool" where
  "scheduled n c \<longleftrightarrow> mset (tc_order1 c) = mset [0..<n] \<and> mset (tc_order2 c) = mset [0..<n]"

primrec kv_put :: "(string \<rightharpoonup> 'v) \<Rightarrow> 'v TxCall list \<Rightarrow> (string \<rightharpoonup> 'v)" where
  "kv_put m [] = m"
| "kv_put m (c # cs) = kv_put (m(tc_key c \<mapsto> tc_value c)) cs"

lemma all_yes [simp]: "fold (\<lambda>vote acc. if \<not> vote then False else acc) (map (\<lambda>i. True) order) True"
  by (induction order) auto

lemma executeTx_map:
  assumes "scheduled (length ps) c"
  shows "executeTx ps c =
    map (\<lambda>p. commitAt (''tx_'' @ itoa (tc_nano c))
          (prepareAt (newTx (''tx_'' @ itoa (tc_nano c)) (tc_now c) (tc_key c) (tc_value c)) p)) ps"
  using assms by (simp add: executeTx_def prepare_def commit_def scheduled_def fold_update_perm Let_def comp_def)

lemma executeTx_participant:
  assumes "scheduled (length ps) c" and "p' \<in> set (executeTx ps c)"
  obtains p where "p \<in> set ps" "pt_ID p' = pt_ID p" "pt_data p' = (pt_data p)(tc_key c \<mapsto> tc_value c)"
    "pt_versions p' = (pt_versions p)(tc_key c \<mapsto> i64 (get0 (pt_versions p) (tc_key c) + 1))"
    "pt_prepared p' = (pt_prepared p)(''tx_'' @ itoa (tc_nano c) := None)"
  using assms unfolding executeTx_map [OF assms(1)]
  by (auto simp: commitAt_def prepareAt_def newTx_def)

lemma length_executeTx [simp]: "scheduled (length ps) c \<Longrightarrow> length (executeTx ps c) = length ps"
  by (simp add: executeTx_map)

lemma replicas_run:
  assumes "\<forall>c \<in> set cs. scheduled (length ps) c"
    and "\<forall>p \<in> set ps. pt_data p = d \<and> pt_prepared p = Map.empty \<and> (\<forall>k. get0 (pt_versions p) k = i64 (v k))"
  shows "\<forall>p \<in> set (run executeTx ps cs). pt_data p = kv_put d cs \<and> pt_prepared p = Map.empty \<and>
           (\<forall>k. get0 (pt_versions p) k = i64 (v k + int (length (filter (\<lambda>c. tc_key c = k) cs))))"
  using assms
proof (induction cs arbitrary: ps d v)
  case (Cons c cs)
  have c: "scheduled (length ps) c" using Cons.prems(1) by simp
  let ?v = "\<lambda>k. v k + (if k = tc_key c then 1 else 0)"
  have "\<forall>p \<in> set (executeTx ps c). pt_data p = d(tc_key c \<mapsto> tc_value c) \<and> pt_prepared p = Map.empty \<and>
      (\<forall>k. get0 (pt_versions p) k = i64 (?v k))"
  proof
    fix p'
    assume "p' \<in> set (executeTx ps c)"
    with c obtain p where "p \<in> set ps" "pt_data p' = (pt_data p)(tc_key c \<mapsto> tc_value c)"
      "pt_versions p' = (pt_versions p)(tc_key c \<mapsto> i64 (get0 (pt_versions p) (tc_key c) + 1))"
      "pt_prepared p' = (pt_prepared p)(''tx_'' @ itoa (tc_nano c) := None)"
      by (rule executeTx_participant)
    then show "pt_data p' = d(tc_key c \<mapsto> tc_value c) \<and> pt_prepared p' = Map.empty \<and>
        (\<forall>k. get0 (pt_versions p') k = i64 (?v k))"
      using Cons.prems(2) by auto
  qed
  then have "\<forall>p \<in> set (run executeTx (executeTx ps c) cs). pt_data p = kv_put (d(tc_key c \<mapsto> tc_value c)) cs \<and>
      pt_prepared p = Map.empty \<and> (\<forall>k. get0 (pt_versions p) k = i64 (?v k + int (length (filter (\<lambda>c. tc_key c = k) cs))))"
    using Cons.prems(1) c by (intro Cons.IH) simp_all
  then show ?case by (auto simp: ac_simps)
qed simp

section \<open>Properties\<close>

text \<open>C7.  Replicas agree.  After any sequence of \<open>executeTx\<close> calls, with the goroutines of each phase
  running in any order, all three participants hold exactly the abstract store's data, equal version
  numbers (the number of transactions on the key, as a 64-bit counter), and nothing is left prepared.\<close>

theorem two_phase_replicas_agree:
  assumes "\<forall>c \<in> set cs. mset (tc_order1 c) = mset [0..<3] \<and> mset (tc_order2 c) = mset [0..<3]"
  shows "\<forall>p \<in> set (run executeTx coordinator cs).
           pt_data p = kv_put Map.empty cs \<and> pt_prepared p = Map.empty \<and>
           (\<forall>k. get0 (pt_versions p) k = i64 (int (length (filter (\<lambda>c. tc_key c = k) cs))))"
proof -
  have n: "length (coordinator :: 'a Participant list) = 3" by (simp add: coordinator_def)
  have "\<forall>p \<in> set coordinator. pt_data p = Map.empty \<and> pt_prepared p = Map.empty \<and> (\<forall>k. get0 (pt_versions p) k = i64 0)"
    by (simp add: coordinator_def newParticipant_def get0_def in_i64_def)
  from replicas_run [OF _ this, of cs] assms show ?thesis unfolding n scheduled_def add_0 by blast
qed

definition demo_call :: "int \<Rightarrow> string \<Rightarrow> int \<Rightarrow> nat list \<Rightarrow> nat list \<Rightarrow> int TxCall" where
  "demo_call t k v o1 o2 = \<lparr>tc_nano = t, tc_now = t, tc_key = k, tc_value = v, tc_order1 = o1, tc_order2 = o2\<rparr>"

definition demo_calls :: "int TxCall list" where
  "demo_calls =
     [demo_call 5 ''user_1'' 30 [0, 1, 2] [2, 1, 0], demo_call 6 ''user_2'' 25 [1, 0, 2] [1, 2, 0],
      demo_call 7 ''user_1'' 31 [2, 0, 1] [0, 1, 2]]"

theorem two_phase_replicas_agree_witness:
  "list_all (\<lambda>p. pt_data p ''user_1'' = Some 31 \<and> pt_data p ''user_2'' = Some 25 \<and>
       get0 (pt_versions p) ''user_1'' = 2) (run executeTx coordinator demo_calls)"
proof -
  have "\<forall>c \<in> set demo_calls. mset (tc_order1 c) = mset [0..<3] \<and> mset (tc_order2 c) = mset [0..<3]"
    by (simp add: demo_calls_def demo_call_def upt_rec)
  note agree = two_phase_replicas_agree [OF this]
  have "kv_put Map.empty demo_calls ''user_1'' = Some 31" "kv_put Map.empty demo_calls ''user_2'' = Some 25"
    "i64 (int (length (filter (\<lambda>c. tc_key c = ''user_1'') demo_calls))) = 2"
    by code_simp+
  with agree show ?thesis by (simp add: list_all_iff)
qed

text \<open> An aborted transaction leaves no trace.  If the decision after \<open>prepare\<close> is to abort, then
  afterwards every participant is exactly as it was before, whatever the goroutine orders, provided the
  transaction's identifier was not in use.\<close>

theorem abort_restores:
  assumes "\<forall>p \<in> set ps. pt_prepared p txID = None"
    and "mset order1 = mset [0..<length ps]" "mset order2 = mset [0..<length ps]"
  shows "case prepare txID now key value order1 ps of (_, rollbacks, ps') \<Rightarrow> abort txID rollbacks order2 ps' = ps"
proof -
  have "rollbackAt txID (rollbackAt txID (prepareAt (newTx txID now key value) p)) = p" if "p \<in> set ps" for p
    using assms(1) that by (cases p) (auto simp: rollbackAt_def prepareAt_def newTx_def fun_eq_iff)
  then show ?thesis
    using assms(2,3) by (simp add: prepare_def abort_def fold_update_perm map_idI)
qed

theorem abort_restores_witness:
  "(case prepare ''tx_1'' 0 ''k'' (7::int) [2, 0, 1] coordinator of
      (_, rollbacks, ps') \<Rightarrow> abort ''tx_1'' rollbacks [1, 0, 2] ps' = coordinator)"
  by (rule abort_restores) (simp_all add: coordinator_def newParticipant_def upt_rec)

text \<open> Overlapping transactions on one key diverge.  Two transactions are both prepared at all
  participants before either commits (so both decisions are to commit), every commit goroutine runs at
  every participant, and yet the first two replicas end up with different values, since a prepare never
  conflicts with another and commits of different transactions are not ordered.\<close>

theorem concurrent_commits_diverge:
  "\<exists>A B sched. tx_ID A \<noteq> tx_ID B \<and>
     mset sched = mset (concat (map (\<lambda>i. [PrepareAt i A, PrepareAt i B, CommitAt i (tx_ID A), CommitAt i (tx_ID B)]) [0..<3])) \<and>
     take 6 sched = concat (map (\<lambda>i. [PrepareAt i A, PrepareAt i B]) [0..<3]) \<and>
     (case run tpc (coordinator :: int Participant list) sched of
        ps \<Rightarrow> pt_data (ps ! 0) ''k'' = Some 2 \<and> pt_data (ps ! 1) ''k'' = Some 1 \<and>
              list_all (\<lambda>p. get0 (pt_versions p) ''k'' = 2) ps)"
proof -
  define A B :: "int Transaction" where "A = newTx ''tx_1'' 1 ''k'' 1" and "B = newTx ''tx_2'' 2 ''k'' 2"
  let ?sched = "concat (map (\<lambda>i. [PrepareAt i A, PrepareAt i B]) [0..<3]) @
    [CommitAt 0 (tx_ID A), CommitAt 0 (tx_ID B), CommitAt 1 (tx_ID B), CommitAt 1 (tx_ID A),
     CommitAt 2 (tx_ID A), CommitAt 2 (tx_ID B)]"
  have "tx_ID A \<noteq> tx_ID B" by (simp add: A_def B_def newTx_def)
  moreover have "mset ?sched = mset (concat (map (\<lambda>i. [PrepareAt i A, PrepareAt i B, CommitAt i (tx_ID A), CommitAt i (tx_ID B)]) [0..<3]))"
    by (simp add: upt_rec numeral_2_eq_2)
  moreover have "take 6 ?sched = concat (map (\<lambda>i. [PrepareAt i A, PrepareAt i B]) [0..<3])"
    by (simp add: upt_rec)
  moreover have "case run tpc coordinator ?sched of
      ps \<Rightarrow> pt_data (ps ! 0) ''k'' = Some 2 \<and> pt_data (ps ! 1) ''k'' = Some 1 \<and>
            list_all (\<lambda>p. get0 (pt_versions p) ''k'' = 2) ps"
    unfolding A_def B_def by code_simp
  ultimately show ?thesis by blast
qed

end
