(* ===== verification/Saga.thy ===== *)
theory Saga
  imports GoPrelude
begin

text \<open>
  The saga of \<open>src/solutions/challenge12_solution.go\<close> (\<open>solution2_SagaPattern\<close>) and the contract all
  sagas of the repository rely on.  A step's closures read and write the shared atomics, so they are
  functions from the shop's state to an error or nil and a new state; a closure that reads the clock gets
  the reading as its first argument.  The locale \<open>compensable\<close> states the contract of steps (a failing
  \<open>Execute\<close> changes nothing, \<open>Compensate\<close> undoes a successful \<open>Execute\<close>) and proves once that
  compensating in reverse order restores the state; it is interpreted on the order saga's steps here and
  on those of the retrying saga in \<open>RetrySaga\<close>.
\<close>

section \<open>The contract of a step\<close>

primrec forward :: "('a \<Rightarrow> 's \<Rightarrow> 'e option \<times> 's) \<Rightarrow> 'a list \<Rightarrow> 's \<Rightarrow> 's option" where
  "forward exec [] s = Some s"
| "forward exec (a # as) s = (case exec a s of (None, s') \<Rightarrow> forward exec as s' | (Some _, _) \<Rightarrow> None)"

primrec backward :: "('a \<Rightarrow> 's \<Rightarrow> 'e option \<times> 's) \<Rightarrow> 'a list \<Rightarrow> 's \<Rightarrow> 's" where
  "backward undo [] s = s"
| "backward undo (a # as) s = backward undo as (snd (undo a s))"

lemma forward_append: "forward exec (as @ bs) s = (case forward exec as s of None \<Rightarrow> None | Some s' \<Rightarrow> forward exec bs s')"
  by (induction as arbitrary: s) (auto split: prod.splits option.splits)

lemma backward_append [simp]: "backward undo (as @ bs) s = backward undo bs (backward undo as s)"
  by (induction as arbitrary: s) auto

locale compensable =
  fixes exec :: "'a \<Rightarrow> 's \<Rightarrow> 'e option \<times> 's"
    and undo :: "'a \<Rightarrow> 's \<Rightarrow> 'e option \<times> 's"
    and valid :: "'s \<Rightarrow> bool"
    and good :: "'a \<Rightarrow> bool"
  assumes failure_keeps: "good a \<Longrightarrow> valid s \<Longrightarrow> exec a s = (Some e, s') \<Longrightarrow> s' = s"
    and success_undone: "good a \<Longrightarrow> valid s \<Longrightarrow> exec a s = (None, s') \<Longrightarrow> valid s' \<and> snd (undo a s') = s"
begin

lemma backward_restores:
  "\<forall>a \<in> set as. good a \<Longrightarrow> valid s \<Longrightarrow> forward exec as s = Some s' \<Longrightarrow> valid s' \<and> backward undo (rev as) s' = s"
proof (induction as arbitrary: s)
  case (Cons a as)
  from Cons.prems(3) obtain t where t: "exec a s = (None, t)" "forward exec as t = Some s'"
    by (auto split: prod.splits option.splits)
  with success_undone [of a s t] Cons.prems have "valid t" "snd (undo a t) = s" by auto
  with Cons.IH [of t] t(2) Cons.prems(1) show ?case by simp
qed simp

end

section \<open>The saga\<close>

record ('s, 'e) SagaStep =
  sg_Name :: string
  sg_Execute :: "gotime \<Rightarrow> 's \<Rightarrow> 'e option \<times> 's"
  sg_Compensate :: "'s \<Rightarrow> 'e option \<times> 's"
  sg_Executed :: bool
  sg_Failed :: bool

record ('s, 'e) Saga =
  saga_ID :: string
  saga_Steps :: "('s, 'e) SagaStep list"

text \<open>The compensation loop over the earlier steps, last first; an error of a compensation is only
  printed.\<close>

fun compensateSteps :: "('s, 'e) SagaStep list \<Rightarrow> 's \<Rightarrow> 's" where
  "compensateSteps [] s = s"
| "compensateSteps (st # sts) s =
     compensateSteps sts (if sg_Executed st then snd (sg_Compensate st s) else s)"

text \<open>The loop of \<open>executeSaga\<close> with the steps before and from the current one; \<open>clk i\<close> is the clock at
  step \<open>i\<close>.\<close>

fun executeSteps ::
    "(nat \<Rightarrow> gotime) \<Rightarrow> ('s, 'e) SagaStep list \<Rightarrow> ('s, 'e) SagaStep list \<Rightarrow> 's \<Rightarrow> 'e option \<times> ('s, 'e) SagaStep list \<times> 's" where
  "executeSteps clk pre [] s = (None, pre, s)"
| "executeSteps clk pre (st # rest) s =
     (case sg_Execute st (clk (length pre)) s of
        (Some err, s') \<Rightarrow> (Some err, pre @ st\<lparr>sg_Failed := True\<rparr> # rest, compensateSteps (rev pre) s')
      | (None, s') \<Rightarrow> executeSteps clk (pre @ [st\<lparr>sg_Executed := True\<rparr>]) rest s')"

definition executeSaga :: "(nat \<Rightarrow> gotime) \<Rightarrow> ('s, 'e) Saga \<Rightarrow> 's \<Rightarrow> 'e option \<times> ('s, 'e) Saga \<times> 's" where
  "executeSaga clk saga s =
     (let (err, steps, s') = executeSteps clk [] (saga_Steps saga) s
      in (err, saga\<lparr>saga_Steps := steps\<rparr>, s'))"

section \<open>The order saga\<close>

record shop =
  inventory :: int
  balance :: int

datatype order_error = InsufficientStock int int | InsufficientBalance int int | ShippingUnavailable

definition reserveExecute :: "int \<Rightarrow> gotime \<Rightarrow> shop \<Rightarrow> order_error option \<times> shop" where
  "reserveExecute quantity now s =
     (let current = inventory s
      in if current < quantity then (Some (InsufficientStock current quantity), s)
         else (None, s\<lparr>inventory := i32 (inventory s + i32 (- quantity))\<rparr>))"

definition reserveCompensate :: "int \<Rightarrow> shop \<Rightarrow> order_error option \<times> shop" where
  "reserveCompensate quantity s = (None, s\<lparr>inventory := i32 (inventory s + quantity)\<rparr>)"

definition payExecute :: "int \<Rightarrow> int \<Rightarrow> gotime \<Rightarrow> shop \<Rightarrow> order_error option \<times> shop" where
  "payExecute quantity price now s =
     (let current = balance s; total = i32 (quantity * price)
      in if current < total then (Some (InsufficientBalance current total), s)
         else (None, s\<lparr>balance := i32 (balance s + i32 (- total))\<rparr>))"

definition payCompensate :: "int \<Rightarrow> int \<Rightarrow> shop \<Rightarrow> order_error option \<times> shop" where
  "payCompensate quantity price s = (None, s\<lparr>balance := i32 (balance s + i32 (quantity * price))\<rparr>)"

definition shipExecute :: "gotime \<Rightarrow> shop \<Rightarrow> order_error option \<times> shop" where
  "shipExecute now s = (if now mod 2 = 0 then (Some ShippingUnavailable, s) else (None, s))"

definition shipCompensate :: "shop \<Rightarrow> order_error option \<times> shop" where
  "shipCompensate s = (None, s)"

text \<open>\<open>createOrderSaga\<close> with the counter \<open>orderID\<close>; the product identifier is not used by the code.\<close>

definition createOrderSaga :: "int \<Rightarrow> int \<Rightarrow> int \<Rightarrow> int \<times> (shop, order_error) Saga" where
  "createOrderSaga orderID quantity price =
     (let ordID = i32 (orderID + 1);
          step = (\<lambda>name ex co. \<lparr>sg_Name = name, sg_Execute = ex, sg_Compensate = co, sg_Executed = False, sg_Failed = False\<rparr>)
      in (ordID, \<lparr>saga_ID = ''order_'' @ itoa ordID,
            saga_Steps = [step ''reserve inventory'' (reserveExecute quantity) (reserveCompensate quantity),
                          step ''process payment'' (payExecute quantity price) (payCompensate quantity price),
                          step ''arrange shipping'' shipExecute shipCompensate]\<rparr>))"

section \<open>Failure restores the state\<close>

text \<open>Steps paired with the clock reading of their execution.\<close>

abbreviation step_exec :: "('s, 'e) SagaStep \<times> gotime \<Rightarrow> 's \<Rightarrow> 'e option \<times> 's" where
  "step_exec \<equiv> \<lambda>(st, t). sg_Execute st t"

abbreviation step_comp :: "('s, 'e) SagaStep \<times> gotime \<Rightarrow> 's \<Rightarrow> 'e option \<times> 's" where
  "step_comp \<equiv> \<lambda>(st, t). sg_Compensate st"

lemma compensate_backward:
  "\<forall>st \<in> set (map fst as). sg_Executed st \<Longrightarrow> compensateSteps (map fst as) s = backward step_comp as s"
  by (induction as arbitrary: s) auto

definition order_step :: "(shop, order_error) SagaStep \<Rightarrow> bool" where
  "order_step st \<longleftrightarrow>
     (\<exists>q. sg_Execute st = reserveExecute q \<and> sg_Compensate st = reserveCompensate q) \<or>
     (\<exists>q p. sg_Execute st = payExecute q p \<and> sg_Compensate st = payCompensate q p) \<or>
     (sg_Execute st = shipExecute \<and> sg_Compensate st = shipCompensate)"

definition shop_ok :: "shop \<Rightarrow> bool" where
  "shop_ok s \<longleftrightarrow> in_i32 (inventory s) \<and> in_i32 (balance s)"

lemma i32_undo: "in_i32 x \<Longrightarrow> i32 (x + i32 (- y) + y) = x"
  using i32_add_wrap2 [of "x + y" "- y"] by (simp add: ac_simps)

interpretation order: compensable step_exec step_comp shop_ok "order_step \<circ> fst"
proof
  fix a :: "(shop, order_error) SagaStep \<times> gotime" and s e s'
  assume good: "(order_step \<circ> fst) a" and ok: "shop_ok s"
  then show "step_exec a s = (Some e, s') \<Longrightarrow> s' = s"
    by (cases a) (auto simp: order_step_def reserveExecute_def payExecute_def shipExecute_def Let_def split: if_splits)
  assume "step_exec a s = (None, s')"
  with good ok show "shop_ok s' \<and> snd (step_comp a s') = s"
    by (cases a) (auto simp: order_step_def shop_ok_def reserveExecute_def payExecute_def shipExecute_def
        reserveCompensate_def payCompensate_def shipCompensate_def i32_undo Let_def split: if_splits)
qed

lemma executeSteps_failure:
  assumes "executeSteps clk (map fst as) rest s = (Some err, steps, s')"
    and "\<forall>st \<in> set (map fst as). sg_Executed st" and "\<forall>st \<in> set (map fst as @ rest). order_step st"
    and "shop_ok s0" and "forward step_exec as s0 = Some s"
  shows "s' = s0"
  using assms
proof (induction rest arbitrary: as s)
  case (Cons st rest)
  have undo: "shop_ok s" "backward step_comp (rev as) s = s0"
    using order.backward_restores [of as s0 s] Cons.prems(3,4,5) by auto
  obtain r t where ex: "sg_Execute st (clk (length as)) s = (r, t)" by fastforce
  show ?case
  proof (cases r)
    case None
    let ?as = "as @ [(st\<lparr>sg_Executed := True\<rparr>, clk (length as))]"
    have "order_step (st\<lparr>sg_Executed := True\<rparr>)" using Cons.prems(3) by (auto simp: order_step_def)
    then show ?thesis
      using Cons.IH [of ?as t] Cons.prems ex None by (auto simp: forward_append)
  next
    case (Some e)
    have "t = s" using order.failure_keeps [of "(st, clk (length as))" s e t] ex Some undo(1) Cons.prems(3) by simp
    then show ?thesis
      using Cons.prems(1,2) ex Some undo(2) compensate_backward [of "rev as" s] by (simp add: rev_map)
  qed
qed simp

section \<open>Properties\<close>

text \<open>C8.  Atomicity of the order saga.  For all 32-bit inventories and balances, every quantity, price
  and clock: either the saga returns nil, the stock sufficed, the balance covered the total, and exactly
  these amounts were taken; or it returns an error and inventory and balance are exactly as before.\<close>

theorem order_saga_atomic:
  assumes "in_i32 (inventory s)" "in_i32 (balance s)"
    and "executeSaga clk (snd (createOrderSaga n quantity price)) s = (err, saga', s')"
  shows "case err of
     None \<Rightarrow> quantity \<le> inventory s \<and> i32 (quantity * price) \<le> balance s \<and>
             inventory s' = i32 (inventory s - quantity) \<and> balance s' = i32 (balance s - quantity * price)
   | Some _ \<Rightarrow> s' = s"
proof (cases err)
  case (Some e)
  then obtain steps where ex: "executeSteps clk (map fst ([] :: ((shop, order_error) SagaStep \<times> gotime) list)) (saga_Steps (snd (createOrderSaga n quantity price))) s = (Some e, steps, s')"
    using assms(3) by (auto simp: executeSaga_def split: prod.splits)
  have "s' = s"
    by (rule executeSteps_failure [OF ex]) (use assms(1,2) in \<open>auto simp: createOrderSaga_def order_step_def shop_ok_def Let_def\<close>)
  then show ?thesis using Some by simp
next
  case None
  then show ?thesis
    using assms(3)
    by (auto simp: executeSaga_def createOrderSaga_def reserveExecute_def payExecute_def shipExecute_def Let_def
        split: if_splits prod.splits)
qed

theorem order_saga_atomic_witness:
  "in_i32 10 \<and> in_i32 1000 \<and>
   (case executeSaga (\<lambda>i. 7) (snd (createOrderSaga 0 2 100)) \<lparr>inventory = 10, balance = 1000\<rparr> of
      (err, saga', s') \<Rightarrow> err = None \<and> inventory s' = i32 (10 - 2) \<and> balance s' = i32 (1000 - 2 * 100)) \<and>
   (case executeSaga (\<lambda>i. 8) (snd (createOrderSaga 0 2 100)) \<lparr>inventory = 10, balance = 1000\<rparr> of
      (err, saga', s') \<Rightarrow> err = Some ShippingUnavailable \<and> s' = \<lparr>inventory = 10, balance = 1000\<rparr>)"
proof (intro conjI)
  let ?s = "\<lparr>inventory = 10, balance = 1000\<rparr>"
  show i: "in_i32 10" "in_i32 1000" by (simp_all add: in_i32_def)
  note atomic = order_saga_atomic [of ?s, simplified, OF i]
  have "fst (executeSaga (\<lambda>i. 7) (snd (createOrderSaga 0 2 100)) ?s) = None"
    "fst (executeSaga (\<lambda>i. 8) (snd (createOrderSaga 0 2 100)) ?s) = Some ShippingUnavailable"
    by code_simp+
  then obtain g1 s1 g2 s2 where
    r1: "executeSaga (\<lambda>i. 7) (snd (createOrderSaga 0 2 100)) ?s = (None, g1, s1)" and
    r2: "executeSaga (\<lambda>i. 8) (snd (createOrderSaga 0 2 100)) ?s = (Some ShippingUnavailable, g2, s2)"
    by (metis prod.collapse)
  show "case executeSaga (\<lambda>i. 7) (snd (createOrderSaga 0 2 100)) ?s of
      (err, saga', s') \<Rightarrow> err = None \<and> inventory s' = i32 (10 - 2) \<and> balance s' = i32 (1000 - 2 * 100)"
    unfolding r1 using atomic [OF r1] by simp
  show "case executeSaga (\<lambda>i. 8) (snd (createOrderSaga 0 2 100)) ?s of
      (err, saga', s') \<Rightarrow> err = Some ShippingUnavailable \<and> s' = ?s"
    unfolding r2 using atomic [OF r2] by simp
qed

text \<open> The total is computed in 32 bits.  An order of 65536 items at price 65536 with an empty account
  goes through: the stock is taken and nothing is paid, because \<open>quantity * price\<close> wraps to 0.\<close>

theorem order_total_overflows:
  "\<exists>saga'. executeSaga (\<lambda>i. 1) (snd (createOrderSaga 0 65536 65536)) \<lparr>inventory = 70000, balance = 0\<rparr> =
     (None, saga', \<lparr>inventory = 4464, balance = 0\<rparr>)"
proof -
  have "(case executeSaga (\<lambda>i. 1) (snd (createOrderSaga 0 65536 65536)) \<lparr>inventory = 70000, balance = 0\<rparr> of
      (err, saga', s') \<Rightarrow> err = None \<and> s' = \<lparr>inventory = 4464, balance = 0\<rparr>)" by code_simp
  then show ?thesis by (auto split: prod.splits)
qed

end
