(* ===== verification/RetrySaga.thy ===== *)
theory RetrySaga
  imports Saga
begin

text \<open>
  The saga with retries, an idempotency history and compensation flags
  (\<open>src/solutions/challenge14_solution.go\<close>, \<open>solution1_CompensatingSaga\<close>).  The closures are functions
  of a clock reading and the shop's state, as in theory \<open>Saga\<close>, whose contract \<open>compensable\<close> is
  interpreted on the steps of this saga.  \<open>clk i\<close> is the reading of the \<open>i\<close>-th call of a closure.  Shown:
  for every clock the saga either takes exactly the ordered amounts or restores the shop, and running a
  compensated saga again skips the steps whose effects were undone.
\<close>

record ('s, 'e) RStep =
  rs_ID :: string
  rs_Name :: string
  rs_Execute :: "gotime \<Rightarrow> 's \<Rightarrow> 'e option \<times> 's"
  rs_Compensate :: "'s \<Rightarrow> 'e option \<times> 's"
  rs_Idempotent :: bool
  rs_MaxRetries :: int
  rs_RetryDelay :: duration
  rs_ExecutionID :: string
  rs_executed :: bool
  rs_compensated :: bool

datatype saga_log = SagaStarted string gotime | SagaCompleted string gotime

record ('s, 'e) RSaga =
  rg_ID :: string
  rg_Steps :: "('s, 'e) RStep list"
  rg_executionLog :: "saga_log list"
  rg_compensationLog :: "(string \<times> 'e) list"

text \<open>The error of a step: its name, the number of attempts and the last error.\<close>

datatype 'e step_error = StepFailed string int "'e option"

section \<open>Executing one step\<close>

text \<open>The retry loop with the number of attempts left: nil or the last error, the state, the next clock
  index.\<close>

fun retryLoop ::
    "(nat \<Rightarrow> gotime) \<Rightarrow> nat \<Rightarrow> nat \<Rightarrow> 'e option \<Rightarrow> ('s, 'e) RStep \<Rightarrow> 's \<Rightarrow> ('e option + unit) \<times> 's \<times> nat" where
  "retryLoop clk i 0 lastErr st s = (Inl lastErr, s, i)"
| "retryLoop clk i (Suc n) lastErr st s =
     (case rs_Execute st (clk i) s of
        (Some err, s') \<Rightarrow> retryLoop clk (Suc i) n (Some err) st s'
      | (None, s') \<Rightarrow> (Inr (), s', Suc i))"

definition executeStep ::
    "(nat \<Rightarrow> gotime) \<Rightarrow> nat \<Rightarrow> ('s, 'e) RStep \<Rightarrow> string set \<Rightarrow> 's \<Rightarrow>
       'e step_error option \<times> ('s, 'e) RStep \<times> string set \<times> 's \<times> nat" where
  "executeStep clk i st history s =
     (if rs_Idempotent st \<and> rs_ExecutionID st \<in> history then (None, st, history, s, i)
      else (case retryLoop clk i (nat (rs_MaxRetries st + 1)) None st s of
              (Inr _, s', j) \<Rightarrow>
                (None, st\<lparr>rs_executed := True\<rparr>,
                 if rs_Idempotent st then insert (rs_ExecutionID st) history else history, s', j)
            | (Inl lastErr, s', j) \<Rightarrow>
                (Some (StepFailed (rs_Name st) (rs_MaxRetries st + 1) lastErr), st, history, s', j)))"

section \<open>Executing the saga\<close>

text \<open>The compensation loop over the earlier steps, last first: the steps with their flags, the
  compensation log, the state.\<close>

fun compensateLoop ::
    "('s, 'e) RStep list \<Rightarrow> (string \<times> 'e) list \<Rightarrow> 's \<Rightarrow> ('s, 'e) RStep list \<times> (string \<times> 'e) list \<times> 's" where
  "compensateLoop [] log s = ([], log, s)"
| "compensateLoop (st # sts) log s =
     (if rs_executed st \<and> \<not> rs_compensated st then
        (case rs_Compensate st s of
           (Some compErr, s') \<Rightarrow>
             (let (sts', log', s'') = compensateLoop sts (log @ [(rs_Name st, compErr)]) s' in (st # sts', log', s''))
         | (None, s') \<Rightarrow>
             (let (sts', log', s'') = compensateLoop sts log s' in (st\<lparr>rs_compensated := True\<rparr> # sts', log', s'')))
      else (let (sts', log', s'') = compensateLoop sts log s in (st # sts', log', s'')))"

fun sagaLoop ::
    "(nat \<Rightarrow> gotime) \<Rightarrow> nat \<Rightarrow> ('s, 'e) RStep list \<Rightarrow> ('s, 'e) RStep list \<Rightarrow> (string \<times> 'e) list \<Rightarrow> string set \<Rightarrow> 's \<Rightarrow>
       'e step_error option \<times> ('s, 'e) RStep list \<times> (string \<times> 'e) list \<times> string set \<times> 's" where
  "sagaLoop clk i pre [] log history s = (None, pre, log, history, s)"
| "sagaLoop clk i pre (st # rest) log history s =
     (case executeStep clk i st history s of
        (Some err, st', history', s', j) \<Rightarrow>
          (let (sts, log', s'') = compensateLoop (rev pre) log s'
           in (Some err, rev sts @ st' # rest, log', history', s''))
      | (None, st', history', s', j) \<Rightarrow> sagaLoop clk j (pre @ [st']) rest log history' s')"

definition executeRSaga ::
    "(nat \<Rightarrow> gotime) \<Rightarrow> gotime \<Rightarrow> gotime \<Rightarrow> ('s, 'e) RSaga \<Rightarrow> string set \<Rightarrow> 's \<Rightarrow>
       'e step_error option \<times> ('s, 'e) RSaga \<times> string set \<times> 's" where
  "executeRSaga clk t0 t1 saga history s =
     (let log0 = rg_executionLog saga @ [SagaStarted (rg_ID saga) t0];
          (err, steps, clog, history', s') = sagaLoop clk 0 [] (rg_Steps saga) (rg_compensationLog saga) history s
      in (err,
          saga\<lparr>rg_Steps := steps, rg_compensationLog := clog,
               rg_executionLog := (if err = None then log0 @ [SagaCompleted (rg_ID saga) t1] else log0)\<rparr>,
          history', s'))"

section \<open>The order saga with retries\<close>

datatype shop_error = NoInventory | NoFunds | NoShipping

definition rReserve :: "gotime \<Rightarrow> shop \<Rightarrow> shop_error option \<times> shop" where
  "rReserve now s =
     (if inventory s < 2 then (Some NoInventory, s) else (None, s\<lparr>inventory := i32 (inventory s + - 2)\<rparr>))"

definition rRestock :: "shop \<Rightarrow> shop_error option \<times> shop" where
  "rRestock s = (None, s\<lparr>inventory := i32 (inventory s + 2)\<rparr>)"

definition rPay :: "gotime \<Rightarrow> shop \<Rightarrow> shop_error option \<times> shop" where
  "rPay now s =
     (let amount = 200
      in if balance s < amount then (Some NoFunds, s) else (None, s\<lparr>balance := i32 (balance s + - amount)\<rparr>))"

definition rRefund :: "shop \<Rightarrow> shop_error option \<times> shop" where
  "rRefund s = (None, s\<lparr>balance := i32 (balance s + 200)\<rparr>)"

definition rShip :: "gotime \<Rightarrow> shop \<Rightarrow> shop_error option \<times> shop" where
  "rShip now s = (if now mod 2 = 0 then (Some NoShipping, s) else (None, s))"

definition rCancelShip :: "shop \<Rightarrow> shop_error option \<times> shop" where
  "rCancelShip s = (None, s)"

text \<open>\<open>createOrderSaga\<close> with the counter and the three readings of \<open>time.Now().Unix()\<close>.\<close>

definition createRSaga :: "int \<Rightarrow> int \<Rightarrow> int \<Rightarrow> int \<Rightarrow> int \<times> (shop, shop_error) RSaga" where
  "createRSaga orderID u1 u2 u3 =
     (let ordID = i32 (orderID + 1); sagaID = ''saga_'' @ itoa ordID
      in (ordID, \<lparr>rg_ID = sagaID, rg_Steps =
        [\<lparr>rs_ID = sagaID @ ''_step1'', rs_Name = ''Reserve Inventory'', rs_Execute = rReserve, rs_Compensate = rRestock,
          rs_Idempotent = True, rs_MaxRetries = 2, rs_RetryDelay = 100 * 1000000,
          rs_ExecutionID = sagaID @ ''_reserve_'' @ itoa u1, rs_executed = False, rs_compensated = False\<rparr>,
         \<lparr>rs_ID = sagaID @ ''_step2'', rs_Name = ''Process Payment'', rs_Execute = rPay, rs_Compensate = rRefund,
          rs_Idempotent = True, rs_MaxRetries = 3, rs_RetryDelay = 200 * 1000000,
          rs_ExecutionID = sagaID @ ''_payment_'' @ itoa u2, rs_executed = False, rs_compensated = False\<rparr>,
         \<lparr>rs_ID = sagaID @ ''_step3'', rs_Name = ''Ship Order'', rs_Execute = rShip, rs_Compensate = rCancelShip,
          rs_Idempotent = False, rs_MaxRetries = 1, rs_RetryDelay = 100 * 1000000,
          rs_ExecutionID = sagaID @ ''_ship_'' @ itoa u3, rs_executed = False, rs_compensated = False\<rparr>],
        rg_executionLog = [], rg_compensationLog = []\<rparr>))"

section \<open>Failure restores the shop\<close>

definition rstep_ok :: "(shop, shop_error) RStep \<Rightarrow> bool" where
  "rstep_ok st \<longleftrightarrow> (rs_Execute st, rs_Compensate st) \<in> {(rReserve, rRestock), (rPay, rRefund), (rShip, rCancelShip)}"

abbreviation rs_exec :: "('s, 'e) RStep \<times> gotime \<Rightarrow> 's \<Rightarrow> 'e option \<times> 's" where
  "rs_exec \<equiv> \<lambda>(st, t). rs_Execute st t"

abbreviation rs_undo :: "('s, 'e) RStep \<times> gotime \<Rightarrow> 's \<Rightarrow> 'e option \<times> 's" where
  "rs_undo \<equiv> \<lambda>(st, t). rs_Compensate st"

lemmas rstep_defs = rReserve_def rRestock_def rPay_def rRefund_def rShip_def rCancelShip_def

interpretation retry: compensable rs_exec rs_undo shop_ok "rstep_ok \<circ> fst"
proof
  fix a :: "(shop, shop_error) RStep \<times> gotime" and s e s'
  assume good: "(rstep_ok \<circ> fst) a" and ok: "shop_ok s"
  then show "rs_exec a s = (Some e, s') \<Longrightarrow> s' = s"
    by (cases a) (auto simp: rstep_ok_def rstep_defs Let_def split: if_splits)
  assume "rs_exec a s = (None, s')"
  with good ok show "shop_ok s' \<and> snd (rs_undo a s') = s"
    by (cases a) (auto simp: rstep_ok_def shop_ok_def rstep_defs Let_def split: if_splits)
qed

lemma retryLoop_cases:
  assumes "rstep_ok st" and "shop_ok s" and "retryLoop clk i n lastErr st s = (r, s', j)"
  shows "case r of Inl _ \<Rightarrow> s' = s | Inr _ \<Rightarrow> \<exists>t. rs_Execute st t s = (None, s')"
  using assms
proof (induction n arbitrary: i lastErr)
  case (Suc n)
  obtain e t where ex: "rs_Execute st (clk i) s = (e, t)" by fastforce
  show ?case
  proof (cases e)
    case None
    then show ?thesis using Suc.prems(3) ex by (auto split: sum.splits)
  next
    case (Some err)
    then have "t = s" using retry.failure_keeps [of "(st, clk i)" s err t] Suc.prems(1,2) ex by simp
    then show ?thesis using Suc.IH [OF Suc.prems(1,2)] Suc.prems(3) ex Some by simp
  qed
qed auto

lemma compensateLoop_backward:
  assumes "\<forall>st \<in> set (map fst as). rs_executed st \<and> \<not> rs_compensated st \<and> (\<forall>s. fst (rs_Compensate st s) = None)"
  shows "\<exists>sts. compensateLoop (map fst as) log s = (sts, log, backward rs_undo as s)"
  using assms
proof (induction as arbitrary: s)
  case (Cons a as)
  obtain st t where a: "a = (st, t)" by fastforce
  from Cons.prems have "fst (rs_Compensate st s) = None" by (simp add: a)
  then obtain s1 where s1: "rs_Compensate st s = (None, s1)" by (metis prod.collapse)
  moreover obtain sts where "compensateLoop (map fst as) log s1 = (sts, log, backward rs_undo as s1)"
    using Cons.IH Cons.prems by fastforce
  ultimately show ?case using Cons.prems by (auto simp: a)
qed simp

lemma rstep_undo_ok: "rstep_ok st \<Longrightarrow> fst (rs_Compensate st s) = None"
  by (auto simp: rstep_ok_def rstep_defs)

text \<open>Both outcomes of the loop: an error restores the initial state and logs nothing; nil means that
  all steps were executed.\<close>

lemma sagaLoop_cases:
  assumes "sagaLoop clk i (map fst as) rest log history s = (err, steps, log', history', s')"
    and "\<forall>st \<in> set (map fst as). rs_executed st \<and> \<not> rs_compensated st"
    and "\<forall>st \<in> set (map fst as @ rest). rstep_ok st" and "\<forall>st \<in> set rest. \<not> rs_compensated st"
    and "distinct (map rs_ExecutionID rest)" and "history \<inter> rs_ExecutionID ` set rest = {}"
    and "shop_ok s0" and "forward rs_exec as s0 = Some s"
  shows "log' = log \<and> (case err of Some _ \<Rightarrow> s' = s0
     | None \<Rightarrow> \<exists>bs. map (\<lambda>a. (rs_Execute (fst a), rs_Compensate (fst a))) bs = map (\<lambda>st. (rs_Execute st, rs_Compensate st)) rest \<and>
                forward rs_exec (as @ bs) s0 = Some s')"
  using assms
proof (induction rest arbitrary: as i history s)
  case Nil
  then show ?case by (auto intro: exI [of _ "[]"])
next
  case (Cons st rest)
  have undo: "shop_ok s" "backward rs_undo (rev as) s = s0"
    using retry.backward_restores [of as s0 s] Cons.prems(3,7,8) by auto
  have ok: "rstep_ok st" and new: "rs_ExecutionID st \<notin> history" using Cons.prems(3,6) by auto
  obtain r t j where loop: "retryLoop clk i (nat (rs_MaxRetries st + 1)) None st s = (r, t, j)"
    using prod_cases3 by blast
  note R = retryLoop_cases [OF ok undo(1) loop]
  show ?case
  proof (cases r)
    case (Inl lastErr)
    then have "t = s" using R by simp
    moreover have "\<exists>sts. compensateLoop (map fst (rev as)) log s = (sts, log, backward rs_undo (rev as) s)"
      by (rule compensateLoop_backward) (use Cons.prems(2,3) rstep_undo_ok in auto)
    ultimately show ?thesis
      using Cons.prems(1) loop new Inl undo(2) by (auto simp: executeStep_def rev_map split: prod.splits)
  next
    case (Inr u)
    then obtain t0 where t0: "rs_Execute st t0 s = (None, t)" using R by auto
    let ?st = "st\<lparr>rs_executed := True\<rparr>" and ?h = "if rs_Idempotent st then insert (rs_ExecutionID st) history else history"
    have "sagaLoop clk j (map fst (as @ [(?st, t0)])) rest log ?h t = (err, steps, log', history', s')"
      using Cons.prems(1) loop new Inr by (simp add: executeStep_def)
    moreover have "rstep_ok ?st" using ok by (simp add: rstep_ok_def)
    moreover have "?h \<inter> rs_ExecutionID ` set rest = {}" using Cons.prems(5,6) by auto
    moreover have "forward rs_exec (as @ [(?st, t0)]) s0 = Some t" using Cons.prems(8) t0 by (simp add: forward_append)
    ultimately have "log' = log \<and> (case err of Some _ \<Rightarrow> s' = s0
      | None \<Rightarrow> \<exists>bs. map (\<lambda>a. (rs_Execute (fst a), rs_Compensate (fst a))) bs = map (\<lambda>st. (rs_Execute st, rs_Compensate st)) rest \<and>
                forward rs_exec ((as @ [(?st, t0)]) @ bs) s0 = Some s')"
      using Cons.prems(2,3,4,5,7) by (intro Cons.IH) auto
    then show ?thesis
    proof (cases err)
      case None
      with \<open>log' = log \<and> _\<close> obtain bs where
        bs: "map (\<lambda>a. (rs_Execute (fst a), rs_Compensate (fst a))) bs = map (\<lambda>st. (rs_Execute st, rs_Compensate st)) rest"
          "forward rs_exec ((as @ [(?st, t0)]) @ bs) s0 = Some s'" and "log' = log"
        by auto
      then show ?thesis using None by (auto intro!: exI [of _ "(?st, t0) # bs"])
    qed auto
  qed
qed

lemma execution_ids_distinct: "distinct (map rs_ExecutionID (rg_Steps (snd (createRSaga n u1 u2 u3))))"
  by (simp add: createRSaga_def Let_def)

lemma order_forward:
  assumes "map (\<lambda>a. (rs_Execute (fst a), rs_Compensate (fst a))) bs =
      map (\<lambda>st. (rs_Execute st, rs_Compensate st)) (rg_Steps (snd (createRSaga n u1 u2 u3)))"
    and "forward rs_exec bs s = Some s'" and "shop_ok s"
  shows "2 \<le> inventory s \<and> 200 \<le> balance s \<and> inventory s' = inventory s - 2 \<and> balance s' = balance s - 200"
proof -
  obtain a b c where bs: "bs = [a, b, c]" and
    ex: "rs_Execute (fst a) = rReserve" "rs_Execute (fst b) = rPay" "rs_Execute (fst c) = rShip"
    using assms(1) by (auto simp: createRSaga_def Let_def)
  have "in_i32 (inventory s - 2)" if "2 \<le> inventory s" using that assms(3) by (simp add: shop_ok_def in_i32_def)
  moreover have "in_i32 (balance s - 200)" if "200 \<le> balance s" using that assms(3) by (simp add: shop_ok_def in_i32_def)
  ultimately show ?thesis
    using assms(2) by (auto simp: bs case_prod_beta ex rstep_defs Let_def split: if_splits)
qed

section \<open>Properties\<close>

text \<open>C10.  Atomicity with retries.  For every clock (so for every pattern of shipping failures), every
  32-bit inventory and balance, and a saga whose execution identifiers are new to the history: either the
  saga returns nil and exactly 2 items and 200 units were taken, although steps may have been attempted
  several times, or it returns an error and the shop is exactly as before, and no compensation failed.\<close>

theorem retry_saga_atomic:
  assumes "in_i32 (inventory s)" "in_i32 (balance s)"
    and "history \<inter> rs_ExecutionID ` set (rg_Steps (snd (createRSaga n u1 u2 u3))) = {}"
    and "executeRSaga clk t0 t1 (snd (createRSaga n u1 u2 u3)) history s = (err, saga', history', s')"
  shows "rg_compensationLog saga' = [] \<and>
    (case err of
       None \<Rightarrow> 2 \<le> inventory s \<and> 200 \<le> balance s \<and> inventory s' = inventory s - 2 \<and> balance s' = balance s - 200
     | Some _ \<Rightarrow> s' = s)"
proof -
  define steps where "steps = rg_Steps (snd (createRSaga n u1 u2 u3))"
  obtain steps' log' where
    loop: "sagaLoop clk 0 (map fst ([] :: ((shop, shop_error) RStep \<times> gotime) list)) steps [] history s = (err, steps', log', history', s')"
    and log': "rg_compensationLog saga' = log'"
    using assms(4) by (auto simp: executeRSaga_def steps_def Let_def createRSaga_def split: prod.splits)
  have ok: "shop_ok s" using assms(1,2) by (simp add: shop_ok_def)
  have "distinct (map rs_ExecutionID steps)" unfolding steps_def by (rule execution_ids_distinct)
  moreover have "\<forall>st \<in> set steps. rstep_ok st \<and> \<not> rs_compensated st"
    by (simp add: steps_def createRSaga_def rstep_ok_def Let_def)
  ultimately have "log' = [] \<and> (case err of Some _ \<Rightarrow> s' = s
     | None \<Rightarrow> \<exists>bs. map (\<lambda>a. (rs_Execute (fst a), rs_Compensate (fst a))) bs = map (\<lambda>st. (rs_Execute st, rs_Compensate st)) steps \<and>
                forward rs_exec ([] @ bs) s = Some s')"
    using assms(3) ok by (intro sagaLoop_cases [OF loop]) (auto simp: steps_def)
  then show ?thesis
    using order_forward [of _ n u1 u2 u3, OF _ _ ok] log' unfolding steps_def append_Nil
    by (cases err) (simp, blast, simp)
qed

theorem retry_saga_atomic_witness:
  "in_i32 10 \<and> in_i32 1000 \<and>
   {} \<inter> rs_ExecutionID ` set (rg_Steps (snd (createRSaga 0 5 5 5))) = {} \<and>
   (\<exists>saga' history' s'. executeRSaga (\<lambda>i. if i = 2 then 4 else 7) 0 0 (snd (createRSaga 0 5 5 5)) {}
        \<lparr>inventory = 10, balance = 1000\<rparr> = (None, saga', history', s') \<and> inventory s' = 10 - 2 \<and> balance s' = 1000 - 200)"
proof (intro conjI)
  let ?s = "\<lparr>inventory = 10, balance = 1000\<rparr>" and ?clk = "\<lambda>i::nat. if i = 2 then 4 else 7 :: int"
  show i: "in_i32 10" "in_i32 1000" by (simp_all add: in_i32_def)
  show h: "{} \<inter> rs_ExecutionID ` set (rg_Steps (snd (createRSaga 0 5 5 5))) = {}" by simp
  have "fst (executeRSaga ?clk 0 0 (snd (createRSaga 0 5 5 5)) {} ?s) = None" by code_simp
  then obtain g h' s' where r: "executeRSaga ?clk 0 0 (snd (createRSaga 0 5 5 5)) {} ?s = (None, g, h', s')"
    by (metis prod.collapse)
  from retry_saga_atomic [OF _ _ h r] i r
  show "\<exists>saga' history' s'. executeRSaga ?clk 0 0 (snd (createRSaga 0 5 5 5)) {} ?s = (None, saga', history', s') \<and>
      inventory s' = 10 - 2 \<and> balance s' = 1000 - 200"
    by simp
qed

text \<open> Running a compensated saga again.  The first run fails at shipping and is compensated; the
  identifiers of its steps stay in the history, so the second run skips the reservation and the payment as
  already executed, ships, and reports success although nothing was reserved or paid.\<close>

theorem rerun_after_compensation_skips:
  "\<exists>saga' history' saga'' history''.
     executeRSaga (\<lambda>i. 0) 0 0 (snd (createRSaga 0 5 5 5)) {} \<lparr>inventory = 10, balance = 1000\<rparr> =
       (Some (StepFailed ''Ship Order'' 2 (Some NoShipping)), saga', history', \<lparr>inventory = 10, balance = 1000\<rparr>) \<and>
     executeRSaga (\<lambda>i. 1) 0 0 saga' history' \<lparr>inventory = 10, balance = 1000\<rparr> =
       (None, saga'', history'', \<lparr>inventory = 10, balance = 1000\<rparr>)"
proof -
  let ?s = "\<lparr>inventory = 10, balance = 1000\<rparr>"
  have "(case executeRSaga (\<lambda>i. 0) 0 0 (snd (createRSaga 0 5 5 5)) {} ?s of
      (err, saga', history', s') \<Rightarrow> err = Some (StepFailed ''Ship Order'' 2 (Some NoShipping)) \<and> s' = ?s \<and>
        (case executeRSaga (\<lambda>i. 1) 0 0 saga' history' ?s of
           (err, saga'', history'', s'') \<Rightarrow> err = None \<and> s'' = ?s))" by code_simp
  then show ?thesis by (auto split: prod.splits)
qed

end
