(* ===== verification/Orchestrator.thy ===== *)
theory Orchestrator
  imports GoPrelude
begin

text \<open>
  The orchestrated saga (\<open>src/solutions/challenge14_solution.go\<close>, \<open>solution2_OrchestrationSaga\<close>).  The
  orchestrator loop, the goroutine it starts per command, and the compensation goroutines interleave
  freely; the two buses are queues (their capacity of 100 is not modelled).  Saga objects live in a store,
  because the compensation goroutine holds a pointer to the object.  Shown: a running saga has exactly one
  command or event under way, namely for its current step, and has completed exactly the steps before it,
  in order; and a saga whose last step failed can end with status "completed".
\<close>

record OCommand =
  oc_ID :: string
  oc_Type :: string

record OEvent =
  oe_ID :: string
  oe_Type :: string
  oe_Success :: bool

record SagaState =
  ss_ID :: string
  ss_CurrentStep :: int
  ss_Steps :: "string list"
  ss_Status :: string
  ss_CompletedSteps :: "string list"

text \<open>\<open>or_heap\<close> holds the saga objects, \<open>or_goroutines\<close> the commands being processed, \<open>or_comp\<close> the
  compensation goroutines (object, loop index); \<open>or_panic\<close> records an index out of range.\<close>

record Orch =
  or_sagas :: "string \<rightharpoonup> nat"
  or_heap :: "SagaState list"
  or_commandBus :: "OCommand list"
  or_eventBus :: "OEvent list"
  or_goroutines :: "OCommand list"
  or_comp :: "(nat \<times> int) list"
  or_panic :: bool

definition newOrchestrator :: Orch where
  "newOrchestrator = \<lparr>or_sagas = Map.empty, or_heap = [], or_commandBus = [], or_eventBus = [],
     or_goroutines = [], or_comp = [], or_panic = False\<rparr>"

section \<open>Services and routing\<close>

definition completedEvent :: "OCommand \<Rightarrow> OEvent" where
  "completedEvent cmd = \<lparr>oe_ID = oc_ID cmd, oe_Type = oc_Type cmd @ ''_completed'', oe_Success = True\<rparr>"

definition shippingService :: "gotime \<Rightarrow> OCommand \<Rightarrow> OEvent" where
  "shippingService now cmd =
     (if now mod 10 < 3 then \<lparr>oe_ID = oc_ID cmd, oe_Type = oc_Type cmd @ ''_failed'', oe_Success = False\<rparr>
      else completedEvent cmd)"

definition routeCommand :: "gotime \<Rightarrow> OCommand \<Rightarrow> OEvent" where
  "routeCommand now c =
     (if oc_Type c \<in> {''reserve_inventory'', ''release_inventory''} then completedEvent c
      else if oc_Type c \<in> {''process_payment'', ''refund_payment''} then completedEvent c
      else if oc_Type c \<in> {''ship_order'', ''cancel_shipping''} then shippingService now c
      else \<lparr>oe_ID = oc_ID c, oe_Type = ''unknown_command'', oe_Success = False\<rparr>)"

definition compensationSteps :: "string \<rightharpoonup> string" where
  "compensationSteps = [''reserve_inventory_completed'' \<mapsto> ''release_inventory'',
     ''process_payment_completed'' \<mapsto> ''refund_payment'', ''ship_order_completed'' \<mapsto> ''cancel_shipping'']"

section \<open>The orchestrator loop\<close>

text \<open>The event case of the loop: the effect on the saga object and the command sent, if any.\<close>

definition onSuccess :: "OEvent \<Rightarrow> SagaState \<Rightarrow> SagaState \<times> OCommand list" where
  "onSuccess event saga =
     (let saga' = saga\<lparr>ss_CompletedSteps := ss_CompletedSteps saga @ [oe_Type event],
                       ss_CurrentStep := i64 (ss_CurrentStep saga + 1)\<rparr>
      in if ss_CurrentStep saga' \<ge> int (length (ss_Steps saga')) then (saga'\<lparr>ss_Status := ''completed''\<rparr>, [])
         else (saga', [\<lparr>oc_ID = ss_ID saga', oc_Type = ss_Steps saga' ! nat (ss_CurrentStep saga')\<rparr>]))"

definition handleEvent :: "OEvent \<Rightarrow> Orch \<Rightarrow> Orch" where
  "handleEvent event s =
     (case or_sagas s (oe_ID event) of
        None \<Rightarrow> s
      | Some r \<Rightarrow>
          (if oe_Success event then
             (let (saga', cmds) = onSuccess event (or_heap s ! r)
              in s\<lparr>or_heap := (or_heap s)[r := saga'], or_commandBus := or_commandBus s @ cmds\<rparr>)
           else s\<lparr>or_heap := (or_heap s)[r := (or_heap s ! r)\<lparr>ss_Status := ''compensating''\<rparr>],
                  or_comp := or_comp s @ [(r, int (length (ss_CompletedSteps (or_heap s ! r))) - 1)]\<rparr>))"

text \<open>One iteration of a compensation goroutine; after the last one it sets the status.\<close>

definition compensateIter :: "nat \<Rightarrow> int \<Rightarrow> SagaState \<Rightarrow> SagaState \<times> OCommand list \<times> (nat \<times> int) list" where
  "compensateIter r i saga =
     (if i \<ge> 0 then
        (saga,
         (case compensationSteps (ss_CompletedSteps saga ! nat i) of
            None \<Rightarrow> []
          | Some compCmd \<Rightarrow> [\<lparr>oc_ID = ss_ID saga, oc_Type = compCmd\<rparr>]), [(r, i - 1)])
      else (saga\<lparr>ss_Status := ''compensated''\<rparr>, [], []))"

definition startSaga :: "string \<Rightarrow> string list \<Rightarrow> Orch \<Rightarrow> Orch" where
  "startSaga sagaID steps s =
     (let s' = s\<lparr>or_heap := or_heap s @ [\<lparr>ss_ID = sagaID, ss_CurrentStep = 0, ss_Steps = steps,
                   ss_Status = ''running'', ss_CompletedSteps = []\<rparr>],
                 or_sagas := (or_sagas s)(sagaID \<mapsto> length (or_heap s))\<rparr>
      in if steps = [] then s'\<lparr>or_panic := True\<rparr>
         else s'\<lparr>or_commandBus := or_commandBus s' @ [\<lparr>oc_ID = sagaID, oc_Type = steps ! 0\<rparr>]\<rparr>)"

text \<open>Removing the \<open>k\<close>-th element of a list of goroutines.\<close>

definition drop_nth :: "nat \<Rightarrow> 'a list \<Rightarrow> 'a list" where
  "drop_nth k xs = take k xs @ drop (Suc k) xs"

datatype oevent =
    OStart string "string list"
  | ORoute
  | OService nat gotime
  | OHandle
  | OCompensate nat

fun runOrchestrator :: "Orch \<Rightarrow> oevent \<Rightarrow> Orch" where
  "runOrchestrator s (OStart sagaID steps) = startSaga sagaID steps s"
| "runOrchestrator s ORoute =
     (case or_commandBus s of
        [] \<Rightarrow> s
      | cmd # cmds \<Rightarrow> s\<lparr>or_commandBus := cmds, or_goroutines := or_goroutines s @ [cmd]\<rparr>)"
| "runOrchestrator s (OService k now) =
     (if k < length (or_goroutines s) then
        s\<lparr>or_goroutines := drop_nth k (or_goroutines s),
          or_eventBus := or_eventBus s @ [routeCommand now (or_goroutines s ! k)]\<rparr>
      else s)"
| "runOrchestrator s OHandle =
     (case or_eventBus s of
        [] \<Rightarrow> s
      | event # events \<Rightarrow> handleEvent event (s\<lparr>or_eventBus := events\<rparr>))"
| "runOrchestrator s (OCompensate k) =
     (if k < length (or_comp s) then
        (let (r, i) = or_comp s ! k; (saga', cmds, cont) = compensateIter r i (or_heap s ! r)
         in s\<lparr>or_heap := (or_heap s)[r := saga'], or_commandBus := or_commandBus s @ cmds,
              or_comp := drop_nth k (or_comp s) @ cont\<rparr>)
      else s)"

section \<open>The invariant\<close>

text \<open>What is under way for a saga: commands queued or being processed, and events.\<close>

datatype token = Cmd string | Evt string bool

definition tokens :: "string \<Rightarrow> Orch \<Rightarrow> token multiset" where
  "tokens x s =
     image_mset (Cmd \<circ> oc_Type) (filter_mset (\<lambda>c. oc_ID c = x) (mset (or_commandBus s) + mset (or_goroutines s))) +
     image_mset (\<lambda>e. Evt (oe_Type e) (oe_Success e)) (filter_mset (\<lambda>e. oe_ID e = x) (mset (or_eventBus s)))"

definition token_for :: "string \<Rightarrow> token \<Rightarrow> bool" where
  "token_for step t \<longleftrightarrow> t = Cmd step \<or> t = Evt (step @ ''_completed'') True \<or> (\<exists>ty. t = Evt ty False)"

definition running_ok :: "SagaState \<Rightarrow> token multiset \<Rightarrow> bool" where
  "running_ok g ts \<longleftrightarrow>
     0 \<le> ss_CurrentStep g \<and> ss_CurrentStep g < int (length (ss_Steps g)) \<and> length (ss_Steps g) < 2 ^ 62 \<and>
     ss_CompletedSteps g = map (\<lambda>st. st @ ''_completed'') (take (nat (ss_CurrentStep g)) (ss_Steps g)) \<and>
     (\<exists>t. ts = {#t#} \<and> token_for (ss_Steps g ! nat (ss_CurrentStep g)) t)"

definition or_inv :: "Orch \<Rightarrow> bool" where
  "or_inv s \<longleftrightarrow>
     (\<forall>x r. or_sagas s x = Some r \<longleftrightarrow> r < length (or_heap s) \<and> ss_ID (or_heap s ! r) = x) \<and>
     (\<forall>x. tokens x s \<noteq> {#} \<longrightarrow> or_sagas s x \<noteq> None) \<and>
     (\<forall>r < length (or_heap s). ss_Status (or_heap s ! r) = ''running'' \<longrightarrow>
        running_ok (or_heap s ! r) (tokens (ss_ID (or_heap s ! r)) s)) \<and>
     (\<forall>r \<in> fst ` set (or_comp s). r < length (or_heap s) \<and> ss_Status (or_heap s ! r) \<noteq> ''running'')"

definition or_ok :: "Orch \<Rightarrow> oevent \<Rightarrow> bool" where
  "or_ok s e = (case e of OStart x steps \<Rightarrow> or_sagas s x = None \<and> steps \<noteq> [] \<and> length steps < 2 ^ 62 | _ \<Rightarrow> True)"

lemma or_inv_start [simp]: "or_inv newOrchestrator"
  by (simp add: or_inv_def newOrchestrator_def tokens_def)

lemma or_inv_sagas: "or_inv s \<Longrightarrow> or_sagas s x = Some r \<longleftrightarrow> r < length (or_heap s) \<and> ss_ID (or_heap s ! r) = x"
  unfolding or_inv_def by (elim conjE) (rule spec2)

lemma or_inv_known: "or_inv s \<Longrightarrow> tokens x s \<noteq> {#} \<Longrightarrow> or_sagas s x \<noteq> None"
  unfolding or_inv_def by (elim conjE) (drule spec, erule mp, assumption)

lemma or_inv_running:
  "or_inv s \<Longrightarrow> r < length (or_heap s) \<Longrightarrow> ss_Status (or_heap s ! r) = ''running'' \<Longrightarrow>
     running_ok (or_heap s ! r) (tokens (ss_ID (or_heap s ! r)) s)"
  unfolding or_inv_def by metis

lemma or_inv_comp:
  "or_inv s \<Longrightarrow> r \<in> fst ` set (or_comp s) \<Longrightarrow> r < length (or_heap s) \<and> ss_Status (or_heap s ! r) \<noteq> ''running''"
  unfolding or_inv_def by metis

lemma or_invI:
  assumes "\<And>x r. or_sagas s x = Some r \<longleftrightarrow> r < length (or_heap s) \<and> ss_ID (or_heap s ! r) = x"
    and "\<And>x. tokens x s \<noteq> {#} \<Longrightarrow> or_sagas s x \<noteq> None"
    and "\<And>r. r < length (or_heap s) \<Longrightarrow> ss_Status (or_heap s ! r) = ''running'' \<Longrightarrow>
        running_ok (or_heap s ! r) (tokens (ss_ID (or_heap s ! r)) s)"
    and "\<And>r. r \<in> fst ` set (or_comp s) \<Longrightarrow> r < length (or_heap s) \<and> ss_Status (or_heap s ! r) \<noteq> ''running''"
  shows "or_inv s"
  unfolding or_inv_def
proof (intro conjI allI impI)
  show "\<forall>r \<in> fst ` set (or_comp s). r < length (or_heap s) \<and> ss_Status (or_heap s ! r) \<noteq> ''running''"
    by (rule ballI) (rule assms(4))
qed (rule assms(1), rule assms(2), assumption, rule assms(3), assumption, assumption)

text \<open>A step that touches the object \<open>r\<close>, the tokens of its saga, and the compensation goroutines.\<close>

lemma or_inv_change:
  assumes inv: "or_inv s" and r: "r < length (or_heap s)" and g: "ss_ID g = ss_ID (or_heap s ! r)"
    and s': "or_sagas s' = or_sagas s" "or_heap s' = (or_heap s)[r := g]"
    and ts: "\<And>x. x \<noteq> ss_ID g \<Longrightarrow> tokens x s' = tokens x s"
    and run: "ss_Status g = ''running'' \<Longrightarrow> running_ok g (tokens (ss_ID g) s')"
    and comp: "fst ` set (or_comp s') \<subseteq> fst ` set (or_comp s) \<union> {r}"
    and stop: "ss_Status g = ''running'' \<Longrightarrow> r \<notin> fst ` set (or_comp s')"
  shows "or_inv s'"
proof -
  note sagas = or_inv_sagas [OF inv]
  have id: "ss_ID (or_heap s' ! q) = ss_ID (or_heap s ! q)" if "q < length (or_heap s)" for q
    using that g by (cases "q = r") (auto simp: s')
  have len: "length (or_heap s') = length (or_heap s)" by (simp add: s')
  have known: "or_sagas s (ss_ID g) = Some r" using sagas r g by simp
  show ?thesis
  proof (rule or_invI)
    show "or_sagas s' x = Some q \<longleftrightarrow> q < length (or_heap s') \<and> ss_ID (or_heap s' ! q) = x" for x q
      unfolding s'(1) len using sagas id by auto
    show "or_sagas s' x \<noteq> None" if "tokens x s' \<noteq> {#}" for x
      using that known or_inv_known [OF inv, of x] ts [of x] by (cases "x = ss_ID g") (simp_all add: s'(1))
    show "running_ok (or_heap s' ! q) (tokens (ss_ID (or_heap s' ! q)) s')"
      if "q < length (or_heap s')" "ss_Status (or_heap s' ! q) = ''running''" for q
    proof (cases "q = r")
      case True
      then show ?thesis using run that r by (simp add: s')
    next
      case False
      then have "ss_ID (or_heap s ! q) \<noteq> ss_ID g" using sagas [of "ss_ID g" q] known that(1) len by auto
      then show ?thesis using False that or_inv_running [OF inv, of q] ts len by (simp add: s')
    qed
    show "q < length (or_heap s') \<and> ss_Status (or_heap s' ! q) \<noteq> ''running''" if "q \<in> fst ` set (or_comp s')" for q
    proof (cases "q = r")
      case True
      then show ?thesis using stop that r by (auto simp: s')
    next
      case False
      then show ?thesis using comp that or_inv_comp [OF inv, of q] by (auto simp: s')
    qed
  qed
qed

lemma mset_drop_nth: "k < length xs \<Longrightarrow> mset xs = add_mset (xs ! k) (mset (drop_nth k xs))"
  unfolding drop_nth_def by (metis id_take_nth_drop mset.simps(2) mset_append union_mset_add_mset_right)

text \<open>Only the token structure changes.\<close>

lemma or_inv_tokens:
  assumes inv: "or_inv s" and s': "or_sagas s' = or_sagas s" "or_heap s' = or_heap s" "or_comp s' = or_comp s"
    and ts: "\<And>x. tokens x s' = tokens x s"
  shows "or_inv s'"
  using inv unfolding or_inv_def s' ts .

lemma or_inv_service:
  assumes inv: "or_inv s"
  shows "or_inv (runOrchestrator s (OService k now))"
proof (cases "k < length (or_goroutines s)")
  case True
  define c s' where "c = or_goroutines s ! k" and "s' = runOrchestrator s (OService k now)"
  let ?e = "routeCommand now c"
  have id: "oe_ID ?e = oc_ID c" by (simp add: routeCommand_def shippingService_def completedEvent_def)
  define rest where "rest x = image_mset (Cmd \<circ> oc_Type) (filter_mset (\<lambda>c. oc_ID c = x) (mset (or_commandBus s) + mset (drop_nth k (or_goroutines s)))) +
     image_mset (\<lambda>e. Evt (oe_Type e) (oe_Success e)) (filter_mset (\<lambda>e. oe_ID e = x) (mset (or_eventBus s)))" for x
  have old: "tokens x s = (if x = oc_ID c then add_mset (Cmd (oc_Type c)) (rest x) else rest x)" for x
    using mset_drop_nth [OF True] by (simp add: tokens_def rest_def c_def)
  have new: "tokens x s' = (if x = oc_ID c then add_mset (Evt (oe_Type ?e) (oe_Success ?e)) (rest x) else rest x)" for x
    using True id by (simp add: tokens_def rest_def c_def s'_def)
  have "or_sagas s (oc_ID c) \<noteq> None" using or_inv_known [OF inv, of "oc_ID c"] old by simp
  then obtain r where r: "r < length (or_heap s)" "ss_ID (or_heap s ! r) = oc_ID c"
    using or_inv_sagas [OF inv] by auto
  have "or_inv s'"
  proof (rule or_inv_change [OF inv r(1) refl])
    assume "ss_Status (or_heap s ! r) = ''running''"
    then have ok: "running_ok (or_heap s ! r) (tokens (oc_ID c) s)" using or_inv_running [OF inv r(1)] r(2) by simp
    then have "rest (oc_ID c) = {#}" "oc_Type c = ss_Steps (or_heap s ! r) ! nat (ss_CurrentStep (or_heap s ! r))"
      using old by (auto simp: running_ok_def token_for_def)
    moreover have "token_for (oc_Type c) (Evt (oe_Type ?e) (oe_Success ?e))"
      by (simp add: token_for_def routeCommand_def shippingService_def completedEvent_def)
    ultimately show "running_ok (or_heap s ! r) (tokens (ss_ID (or_heap s ! r)) s')"
      using ok new r(2) by (auto simp: running_ok_def)
  next
    assume "ss_Status (or_heap s ! r) = ''running''"
    then show "r \<notin> fst ` set (or_comp s')" using or_inv_comp [OF inv, of r] True unfolding s'_def by auto
  qed (use True r new old in \<open>auto simp: s'_def\<close>)
  then show ?thesis by (simp add: s'_def)
qed (use inv in simp)

lemma or_inv_route:
  assumes inv: "or_inv s"
  shows "or_inv (runOrchestrator s ORoute)"
proof (cases "or_commandBus s")
  case (Cons c cs)
  then show ?thesis by (intro or_inv_tokens [OF inv]) (simp_all add: tokens_def)
qed (use inv in simp)

lemma running_ok_advance:
  assumes ok: "running_ok g {#Evt ty True#}" and adv: "onSuccess e g = (g', cmds)" and e: "oe_Type e = ty"
    and run: "ss_Status g' = ''running''"
  shows "\<exists>c. cmds = [c] \<and> oc_ID c = ss_ID g \<and> running_ok g' {#Cmd (oc_Type c)#}"
proof -
  let ?n = "ss_CurrentStep g"
  have n: "0 \<le> ?n" "?n < int (length (ss_Steps g))" "length (ss_Steps g) < 2 ^ 62"
    and ty: "ty = ss_Steps g ! nat ?n @ ''_completed''"
    and prev: "ss_CompletedSteps g = map (\<lambda>st. st @ ''_completed'') (take (nat ?n) (ss_Steps g))"
    using ok by (auto simp: running_ok_def token_for_def)
  have "in_i64 (?n + 1)" using n by (intro in_i64I) auto
  then have g': "ss_CurrentStep g' = ?n + 1" "ss_Steps g' = ss_Steps g"
    "ss_CompletedSteps g' = ss_CompletedSteps g @ [ty]" and
    less: "?n + 1 < int (length (ss_Steps g))" and
    cmds: "cmds = [\<lparr>oc_ID = ss_ID g, oc_Type = ss_Steps g ! nat (?n + 1)\<rparr>]"
    using adv e run by (auto simp: onSuccess_def Let_def split: if_splits)
  have "take (nat (?n + 1)) (ss_Steps g) = take (nat ?n) (ss_Steps g) @ [ss_Steps g ! nat ?n]"
    using n by (simp add: nat_add_distrib take_Suc_conv_app_nth)
  then have "running_ok g' {#Cmd (ss_Steps g ! nat (?n + 1))#}"
    using n less ty prev by (simp add: running_ok_def token_for_def g')
  then show ?thesis using cmds by simp
qed

lemma onSuccess_stays:
  "onSuccess e g = (g', cmds) \<Longrightarrow> ss_ID g' = ss_ID g \<and> (ss_Status g' = ''running'' \<longrightarrow> ss_Status g = ''running'') \<and>
     (\<forall>c \<in> set cmds. oc_ID c = ss_ID g)"
  by (auto simp: onSuccess_def Let_def split: if_splits)

lemma or_inv_handle:
  assumes inv: "or_inv s"
  shows "or_inv (runOrchestrator s OHandle)"
proof (cases "or_eventBus s")
  case (Cons e es)
  define s' where "s' = runOrchestrator s OHandle"
  let ?t = "Evt (oe_Type e) (oe_Success e)"
  have old: "tokens x s = (if x = oe_ID e then add_mset ?t (tokens x (s\<lparr>or_eventBus := es\<rparr>)) else tokens x (s\<lparr>or_eventBus := es\<rparr>))" for x
    by (simp add: tokens_def Cons)
  have "or_sagas s (oe_ID e) \<noteq> None" using or_inv_known [OF inv, of "oe_ID e"] old by simp
  then obtain r where r: "or_sagas s (oe_ID e) = Some r" by blast
  then have heap: "r < length (or_heap s)" "ss_ID (or_heap s ! r) = oe_ID e" using or_inv_sagas [OF inv] by auto
  have single: "tokens (oe_ID e) (s\<lparr>or_eventBus := es\<rparr>) = {#} \<and> running_ok (or_heap s ! r) {#?t#}"
    if "ss_Status (or_heap s ! r) = ''running''"
    using or_inv_running [OF inv heap(1) that] old heap(2) by (auto simp: running_ok_def)
  have nocomp: "r \<notin> fst ` set (or_comp s)" if "ss_Status (or_heap s ! r) = ''running''"
    using or_inv_comp [OF inv, of r] that by blast
  have "or_inv s'"
  proof (cases "oe_Success e")
    case False
    then have s': "s' = s\<lparr>or_eventBus := es, or_heap := (or_heap s)[r := (or_heap s ! r)\<lparr>ss_Status := ''compensating''\<rparr>],
        or_comp := or_comp s @ [(r, int (length (ss_CompletedSteps (or_heap s ! r))) - 1)]\<rparr>"
      using Cons r by (simp add: s'_def handleEvent_def)
    show ?thesis
      by (rule or_inv_change [OF inv heap(1), of "(or_heap s ! r)\<lparr>ss_Status := ''compensating''\<rparr>"])
        (use old heap in \<open>auto simp: s' tokens_def\<close>)
  next
    case True
    obtain g cmds where g: "onSuccess e (or_heap s ! r) = (g, cmds)" by fastforce
    note G = onSuccess_stays [OF g]
    have s': "s' = s\<lparr>or_eventBus := es, or_heap := (or_heap s)[r := g], or_commandBus := or_commandBus s @ cmds\<rparr>"
      using Cons r True g by (simp add: s'_def handleEvent_def)
    have new: "tokens x s' = tokens x (s\<lparr>or_eventBus := es\<rparr>) + image_mset (Cmd \<circ> oc_Type) (filter_mset (\<lambda>c. oc_ID c = x) (mset cmds))" for x
      by (simp add: tokens_def s')
    have none: "filter_mset (\<lambda>c. oc_ID c = x) (mset cmds) = {#}" if "x \<noteq> ss_ID g" for x
      using G that by auto
    show ?thesis
    proof (rule or_inv_change [OF inv heap(1), of g])
      assume run: "ss_Status g = ''running''"
      then have sr: "ss_Status (or_heap s ! r) = ''running''" using G by blast
      then obtain c where "cmds = [c]" "oc_ID c = ss_ID (or_heap s ! r)" "running_ok g {#Cmd (oc_Type c)#}"
        using running_ok_advance [OF _ g refl run] single True by auto
      then show "running_ok g (tokens (ss_ID g) s')"
        using single [OF sr] G heap(2) by (simp add: new)
      show "r \<notin> fst ` set (or_comp s')" using nocomp [OF sr] by (simp add: s')
    qed (use G old none new heap in \<open>auto simp: s'\<close>)
  qed
  then show ?thesis by (simp add: s'_def)
qed (use inv in simp)

lemma or_inv_compensate:
  assumes inv: "or_inv s"
  shows "or_inv (runOrchestrator s (OCompensate k))"
proof (cases "k < length (or_comp s)")
  case True
  obtain r i where ri: "or_comp s ! k = (r, i)" by fastforce
  then have mem: "r \<in> fst ` set (or_comp s)" using True by (metis fst_conv image_eqI nth_mem)
  note heap = or_inv_comp [OF inv mem]
  obtain g cmds cont where g: "compensateIter r i (or_heap s ! r) = (g, cmds, cont)" using prod_cases3 by blast
  have G: "ss_ID g = ss_ID (or_heap s ! r)" "ss_Status g \<noteq> ''running''" "\<forall>c \<in> set cmds. oc_ID c = ss_ID g"
    "fst ` set cont \<subseteq> {r}"
    using g heap by (auto simp: compensateIter_def split: if_splits option.splits)
  have sub: "set (drop_nth k (or_comp s)) \<subseteq> set (or_comp s)"
    by (auto simp: drop_nth_def dest: in_set_takeD in_set_dropD)
  have s': "runOrchestrator s (OCompensate k) = s\<lparr>or_heap := (or_heap s)[r := g], or_commandBus := or_commandBus s @ cmds,
      or_comp := drop_nth k (or_comp s) @ cont\<rparr>"
    using True ri g by simp
  have none: "filter_mset (\<lambda>c. oc_ID c = x) (mset cmds) = {#}" if "x \<noteq> ss_ID g" for x
    using G(3) that by auto
  show ?thesis unfolding s'
    by (rule or_inv_change [OF inv, of r g]) (use heap G sub none in \<open>auto simp: tokens_def\<close>)
qed (use inv in simp)

lemma or_inv_startSaga:
  assumes inv: "or_inv s" and new: "or_sagas s x = None" and steps: "steps \<noteq> []" "length steps < 2 ^ 62"
  shows "or_inv (startSaga x steps s)"
proof -
  define g where "g = \<lparr>ss_ID = x, ss_CurrentStep = 0, ss_Steps = steps, ss_Status = ''running'', ss_CompletedSteps = []\<rparr>"
  define s' where "s' = startSaga x steps s"
  have s': "s' = s\<lparr>or_heap := or_heap s @ [g], or_sagas := (or_sagas s)(x \<mapsto> length (or_heap s)),
      or_commandBus := or_commandBus s @ [\<lparr>oc_ID = x, oc_Type = steps ! 0\<rparr>]\<rparr>"
    using steps(1) by (simp add: s'_def startSaga_def g_def)
  have empty: "tokens x s = {#}" using or_inv_known [OF inv, of x] new by blast
  have tk: "tokens y s' = (if y = x then add_mset (Cmd (steps ! 0)) (tokens y s) else tokens y s)" for y
    by (simp add: tokens_def s')
  have noid: "ss_ID (or_heap s ! q) \<noteq> x" if "q < length (or_heap s)" for q
    using or_inv_sagas [OF inv, of x q] new that by simp
  have "or_inv s'"
  proof (rule or_invI)
    fix y q
    show "or_sagas s' y = Some q \<longleftrightarrow> q < length (or_heap s') \<and> ss_ID (or_heap s' ! q) = y"
      using or_inv_sagas [OF inv, of y q] noid by (auto simp: s' nth_append g_def less_Suc_eq)
    show "tokens y s' \<noteq> {#} \<Longrightarrow> or_sagas s' y \<noteq> None"
      using or_inv_known [OF inv, of y] unfolding tk by (auto simp: s' split: if_splits)
    show "q < length (or_heap s') \<Longrightarrow> ss_Status (or_heap s' ! q) = ''running'' \<Longrightarrow>
        running_ok (or_heap s' ! q) (tokens (ss_ID (or_heap s' ! q)) s')"
      using or_inv_running [OF inv, of q] noid steps empty unfolding tk
      by (auto simp: s' nth_append less_Suc_eq g_def running_ok_def token_for_def)
    show "q \<in> fst ` set (or_comp s') \<Longrightarrow> q < length (or_heap s') \<and> ss_Status (or_heap s' ! q) \<noteq> ''running''"
      using or_inv_comp [OF inv, of q] by (auto simp: s' nth_append)
  qed
  then show ?thesis by (simp add: s'_def)
qed

interpretation orch: guarded_object runOrchestrator or_inv or_ok
proof
  fix s e
  assume inv: "or_inv s" and ok: "or_ok s e"
  show "or_inv (runOrchestrator s e)"
  proof (cases e)
    case (OStart x steps)
    then show ?thesis using or_inv_startSaga [OF inv] ok by (simp add: or_ok_def)
  qed (use inv in \<open>auto intro: or_inv_route or_inv_service or_inv_handle or_inv_compensate simp del: runOrchestrator.simps\<close>)
qed

section \<open>Properties\<close>

text \<open> A running saga advances step by step.  In every interleaving of the orchestrator, the service
  goroutines and the compensations, with any number of sagas started under distinct identifiers and with
  any outcome of the services: a saga with status "running" has completed exactly the steps before its
  current one, in order, and exactly one command or event of it is under way, namely for the current
  step.\<close>

theorem running_saga_one_step_at_a_time:
  assumes "admissible runOrchestrator or_ok newOrchestrator es" and "s = run runOrchestrator newOrchestrator es"
    and "or_sagas s x = Some r" and "ss_Status (or_heap s ! r) = ''running''"
  shows "0 \<le> ss_CurrentStep (or_heap s ! r) \<and> ss_CurrentStep (or_heap s ! r) < int (length (ss_Steps (or_heap s ! r))) \<and>
    ss_CompletedSteps (or_heap s ! r) =
      map (\<lambda>st. st @ ''_completed'') (take (nat (ss_CurrentStep (or_heap s ! r))) (ss_Steps (or_heap s ! r))) \<and>
    (\<exists>t. tokens x s = {#t#} \<and> token_for (ss_Steps (or_heap s ! r) ! nat (ss_CurrentStep (or_heap s ! r))) t)"
proof -
  have inv: "or_inv s" using orch.guarded_run [OF or_inv_start assms(1)] assms(2) by simp
  then have "r < length (or_heap s)" "ss_ID (or_heap s ! r) = x" using or_inv_sagas [of s x r] assms(3) by auto
  with or_inv_running [OF inv] assms(4) show ?thesis by (auto simp: running_ok_def)
qed

definition demo_steps :: "string list" where
  "demo_steps = [''reserve_inventory'', ''process_payment'', ''ship_order'']"

definition demo_two :: "oevent list" where
  "demo_two = [OStart ''order_saga_1'' demo_steps, OStart ''order_saga_2'' demo_steps, ORoute, OService 0 9, OHandle]"

theorem running_saga_one_step_at_a_time_witness:
  "admissible runOrchestrator or_ok newOrchestrator demo_two \<and>
   or_sagas (run runOrchestrator newOrchestrator demo_two) ''order_saga_1'' = Some 0 \<and>
   (\<exists>t. tokens ''order_saga_1'' (run runOrchestrator newOrchestrator demo_two) = {#t#} \<and>
        token_for ''process_payment'' t)"
proof -
  have a: "admissible runOrchestrator or_ok newOrchestrator demo_two"
    by (simp add: demo_two_def demo_steps_def or_ok_def newOrchestrator_def startSaga_def)
  define s where "s = run runOrchestrator newOrchestrator demo_two"
  have b: "or_sagas s ''order_saga_1'' = Some 0" "ss_Status (or_heap s ! 0) = ''running''"
    "ss_Steps (or_heap s ! 0) ! nat (ss_CurrentStep (or_heap s ! 0)) = ''process_payment''"
    unfolding s_def by code_simp+
  from running_saga_one_step_at_a_time [OF a s_def b(1,2)] a b show ?thesis unfolding s_def by simp
qed

text \<open> A failed saga can end as "completed".  Shipping fails, the saga is compensated, every queue is
  empty in the end; but the orchestrator treats the success events of the compensation commands like
  forward steps, so the refund advances \<open>CurrentStep\<close> to the end and the status becomes "completed".\<close>

theorem failed_saga_ends_completed:
  "\<exists>s. s = run runOrchestrator newOrchestrator
      ([OStart ''order_saga_1'' demo_steps, ORoute, OService 0 9, OHandle, ORoute, OService 0 9, OHandle,
        ORoute, OService 0 0, OHandle, OCompensate 0, OCompensate 0, OCompensate 0,
        ORoute, OService 0 9, OHandle, ORoute, OService 0 9, OHandle]) \<and>
     ss_Status (or_heap s ! 0) = ''completed'' \<and>
     ss_CompletedSteps (or_heap s ! 0) =
       [''reserve_inventory_completed'', ''process_payment_completed'', ''refund_payment_completed'', ''release_inventory_completed''] \<and>
     or_commandBus s = [] \<and> or_goroutines s = [] \<and> or_eventBus s = [] \<and> or_comp s = []"
  unfolding simp_thms by (intro conjI; code_simp)

end
