(* ===== verification/Choreography.thy ===== *)
theory Choreography
  imports GoPrelude
begin

text \<open>
  The choreographed saga (\<open>src/solutions/challenge14_solution.go\<close>, \<open>solution3_ChoreographySaga\<close>): an
  event bus with buffered channels that drop when full, and the inventory, payment, shipping and monitoring
  goroutines.  A service step takes an event from one of its channels and publishes its reaction; the two
  publications of a refund are separate steps.  The fields \<open>Payload\<close>, \<open>Timestamp\<close> and \<open>Error\<close> are
  written but never read and are omitted.  Shown: with at most ten orders nothing is ever dropped, each
  service reacts exactly once to each event, and when the system is quiet every order was either shipped
  or refunded and released, never both.
\<close>

record CEvent =
  ce_ID :: string
  ce_Type :: string
  ce_SagaID :: string
  ce_Success :: bool

record EventBus =
  eb_subscribers :: "string \<rightharpoonup> nat list"
  eb_channels :: "CEvent list list"

definition newEventBus :: EventBus where
  "newEventBus = \<lparr>eb_subscribers = Map.empty, eb_channels = []\<rparr>"

definition subscribe :: "string \<Rightarrow> EventBus \<Rightarrow> EventBus" where
  "subscribe eventType bus =
     bus\<lparr>eb_channels := eb_channels bus @ [[]],
         eb_subscribers := (eb_subscribers bus)(eventType \<mapsto>
           (case eb_subscribers bus eventType of None \<Rightarrow> [] | Some chs \<Rightarrow> chs) @ [length (eb_channels bus)])\<rparr>"

text \<open>A non-blocking send on a channel with capacity 10.\<close>

definition trySend :: "CEvent \<Rightarrow> nat \<Rightarrow> CEvent list list \<Rightarrow> CEvent list list" where
  "trySend event ch chans = (if length (chans ! ch) < 10 then chans[ch := chans ! ch @ [event]] else chans)"

definition publishBus :: "CEvent \<Rightarrow> EventBus \<Rightarrow> EventBus" where
  "publishBus event bus =
     (case eb_subscribers bus (ce_Type event) of
        None \<Rightarrow> bus
      | Some subscribers \<Rightarrow> bus\<lparr>eb_channels := fold (trySend event) subscribers (eb_channels bus)\<rparr>)"

text \<open>The system: the bus, what was published so far, and the event for which the payment service still has
  to publish \<open>PaymentFailed\<close>.\<close>

record Chor =
  ch_bus :: EventBus
  ch_log :: "CEvent list"
  ch_refunding :: "CEvent option"

definition publish :: "CEvent \<Rightarrow> Chor \<Rightarrow> Chor" where
  "publish event s = s\<lparr>ch_bus := publishBus event (ch_bus s), ch_log := ch_log s @ [event]\<rparr>"

text \<open>The subscriptions of the services, in the order of the source: channels 0 to 6.\<close>

definition startServices :: Chor where
  "startServices = \<lparr>ch_bus = fold subscribe
     [''OrderCreated'', ''PaymentFailed'', ''InventoryReserved'', ''ShippingFailed'', ''PaymentProcessed'',
      ''OrderShipped'', ''PaymentRefunded''] newEventBus, ch_log = [], ch_refunding = None\<rparr>"

section \<open>The services\<close>

text \<open>Receiving from channel \<open>ch\<close>, and reacting to the event received.\<close>

definition receiveFrom :: "nat \<Rightarrow> (CEvent \<Rightarrow> Chor \<Rightarrow> Chor) \<Rightarrow> Chor \<Rightarrow> Chor" where
  "receiveFrom ch react s =
     (case eb_channels (ch_bus s) ! ch of
        [] \<Rightarrow> s
      | event # events \<Rightarrow>
          react event (s\<lparr>ch_bus := (ch_bus s)\<lparr>eb_channels := (eb_channels (ch_bus s))[ch := events]\<rparr>\<rparr>))"

definition reply :: "string \<Rightarrow> string \<Rightarrow> bool \<Rightarrow> gotime \<Rightarrow> CEvent \<Rightarrow> CEvent" where
  "reply prefix eventType success now event =
     \<lparr>ce_ID = prefix @ itoa now, ce_Type = eventType, ce_SagaID = ce_SagaID event, ce_Success = success\<rparr>"

definition inventoryReserve :: "gotime \<Rightarrow> CEvent \<Rightarrow> Chor \<Rightarrow> Chor" where
  "inventoryReserve now event = publish (reply ''inv_'' ''InventoryReserved'' True now event)"

definition inventoryRelease :: "gotime \<Rightarrow> CEvent \<Rightarrow> Chor \<Rightarrow> Chor" where
  "inventoryRelease now event = publish (reply ''inv_'' ''InventoryReleased'' True now event)"

definition paymentProcess :: "gotime \<Rightarrow> CEvent \<Rightarrow> Chor \<Rightarrow> Chor" where
  "paymentProcess now event = publish (reply ''pay_'' ''PaymentProcessed'' True now event)"

definition paymentRefund :: "gotime \<Rightarrow> CEvent \<Rightarrow> Chor \<Rightarrow> Chor" where
  "paymentRefund now event s = (publish (reply ''pay_'' ''PaymentRefunded'' True now event) s)\<lparr>ch_refunding := Some event\<rparr>"

definition paymentFailed :: "gotime \<Rightarrow> CEvent \<Rightarrow> Chor \<Rightarrow> Chor" where
  "paymentFailed now event s = (publish (reply ''pay_'' ''PaymentFailed'' False now event) s)\<lparr>ch_refunding := None\<rparr>"

definition shippingProcess :: "gotime \<Rightarrow> gotime \<Rightarrow> CEvent \<Rightarrow> Chor \<Rightarrow> Chor" where
  "shippingProcess now1 now2 event =
     (if now1 mod 10 < 3 then publish (reply ''ship_'' ''ShippingFailed'' False now2 event)
      else publish (reply ''ship_'' ''OrderShipped'' True now2 event))"

datatype cevent =
    CCreate int
  | CInventory bool gotime
  | CPayment bool gotime
  | CShipping gotime gotime
  | CMonitor bool

fun choreography :: "Chor \<Rightarrow> cevent \<Rightarrow> Chor" where
  "choreography s (CCreate i) =
     publish \<lparr>ce_ID = ''order_'' @ itoa i, ce_Type = ''OrderCreated'', ce_SagaID = ''saga_'' @ itoa i, ce_Success = False\<rparr> s"
| "choreography s (CInventory created now) =
     (if created then receiveFrom 0 (inventoryReserve now) s else receiveFrom 1 (inventoryRelease now) s)"
| "choreography s (CPayment reserved now) =
     (case ch_refunding s of
        Some event \<Rightarrow> paymentFailed now event s
      | None \<Rightarrow> if reserved then receiveFrom 2 (paymentProcess now) s else receiveFrom 3 (paymentRefund now) s)"
| "choreography s (CShipping now1 now2) = receiveFrom 4 (shippingProcess now1 now2) s"
| "choreography s (CMonitor shipped) = receiveFrom (if shipped then 5 else 6) (\<lambda>event s. s) s"

section \<open>Conservation of orders\<close>

text \<open>Events of a type published for sagas in \<open>X\<close>; events waiting in a channel for sagas in \<open>X\<close>.\<close>

definition cnt :: "string \<Rightarrow> string set \<Rightarrow> Chor \<Rightarrow> nat" where
  "cnt ty X s = length (filter (\<lambda>e. ce_Type e = ty \<and> ce_SagaID e \<in> X) (ch_log s))"

definition waiting :: "nat \<Rightarrow> string set \<Rightarrow> Chor \<Rightarrow> nat" where
  "waiting c X s = length (filter (\<lambda>e. ce_SagaID e \<in> X) (eb_channels (ch_bus s) ! c))"

definition half :: "string set \<Rightarrow> Chor \<Rightarrow> nat" where
  "half X s = (case ch_refunding s of None \<Rightarrow> 0 | Some e \<Rightarrow> if ce_SagaID e \<in> X then 1 else 0)"

definition flow :: "string set \<Rightarrow> Chor \<Rightarrow> bool" where
  "flow X s \<longleftrightarrow>
     cnt ''OrderCreated'' X s = waiting 0 X s + cnt ''InventoryReserved'' X s \<and>
     cnt ''InventoryReserved'' X s = waiting 2 X s + cnt ''PaymentProcessed'' X s \<and>
     cnt ''PaymentProcessed'' X s = waiting 4 X s + cnt ''OrderShipped'' X s + cnt ''ShippingFailed'' X s \<and>
     cnt ''ShippingFailed'' X s = waiting 3 X s + cnt ''PaymentRefunded'' X s \<and>
     cnt ''PaymentRefunded'' X s = half X s + cnt ''PaymentFailed'' X s \<and>
     cnt ''PaymentFailed'' X s = waiting 1 X s + cnt ''InventoryReleased'' X s"

definition ch_inv :: "Chor \<Rightarrow> bool" where
  "ch_inv s \<longleftrightarrow> eb_subscribers (ch_bus s) = eb_subscribers (ch_bus startServices) \<and>
     length (eb_channels (ch_bus s)) = 7 \<and> (\<forall>X. flow X s) \<and> cnt ''OrderCreated'' UNIV s \<le> 10"

definition ch_ok :: "Chor \<Rightarrow> cevent \<Rightarrow> bool" where
  "ch_ok s e = (case e of CCreate _ \<Rightarrow> cnt ''OrderCreated'' UNIV s < 10 | _ \<Rightarrow> True)"

lemma subscriptions:
  "eb_subscribers (ch_bus startServices) =
     [''OrderCreated'' \<mapsto> [0], ''PaymentFailed'' \<mapsto> [1], ''InventoryReserved'' \<mapsto> [2], ''ShippingFailed'' \<mapsto> [3],
      ''PaymentProcessed'' \<mapsto> [4], ''OrderShipped'' \<mapsto> [5], ''PaymentRefunded'' \<mapsto> [6]]"
  by (simp add: startServices_def newEventBus_def subscribe_def fun_eq_iff)

lemma ch_inv_start [simp]: "ch_inv startServices"
  by (simp add: ch_inv_def flow_def cnt_def waiting_def half_def)
     (simp add: startServices_def newEventBus_def subscribe_def)

text \<open>The effect of a publication and of a reception on the counters.\<close>

lemma cnt_publish [simp]:
  "cnt ty X (publish e s) = cnt ty X s + (if ce_Type e = ty \<and> ce_SagaID e \<in> X then 1 else 0)"
  by (simp add: cnt_def publish_def)

lemma publish_subscribed:
  assumes "eb_subscribers (ch_bus s) (ce_Type e) = Some [c]" and "c < length (eb_channels (ch_bus s))"
    and "waiting c UNIV s < 10"
  shows "waiting d X (publish e s) = waiting d X s + (if d = c \<and> ce_SagaID e \<in> X then 1 else 0)"
  using assms by (cases "d = c") (auto simp: publish_def publishBus_def trySend_def waiting_def)

lemma publish_other:
  assumes "\<And>c. eb_subscribers (ch_bus s) (ce_Type e) = Some [c] \<Longrightarrow> d \<noteq> c"
    and "eb_subscribers (ch_bus s) (ce_Type e) = None \<or> (\<exists>c. eb_subscribers (ch_bus s) (ce_Type e) = Some [c])"
  shows "waiting d X (publish e s) = waiting d X s"
  using assms by (auto simp: publish_def publishBus_def trySend_def waiting_def split: option.splits)

lemma publish_shape [simp]:
  "eb_subscribers (ch_bus (publish e s)) = eb_subscribers (ch_bus s)"
  "ch_refunding (publish e s) = ch_refunding s"
  "half X (publish e s) = half X s"
  by (auto simp: publish_def publishBus_def half_def split: option.splits)

lemma length_fold_trySend [simp]: "length (fold (trySend e) cs chans) = length chans"
  by (induction cs arbitrary: chans) (auto simp: trySend_def)

lemma publish_length [simp]: "length (eb_channels (ch_bus (publish e s))) = length (eb_channels (ch_bus s))"
  by (auto simp: publish_def publishBus_def split: option.splits)

text \<open>The state after taking the first event of a channel.\<close>

definition pop :: "nat \<Rightarrow> Chor \<Rightarrow> Chor" where
  "pop ch s = s\<lparr>ch_bus := (ch_bus s)\<lparr>eb_channels := (eb_channels (ch_bus s))[ch := tl (eb_channels (ch_bus s) ! ch)]\<rparr>\<rparr>"

lemma receiveFrom_cases:
  obtains "receiveFrom ch react s = s"
  | e where "receiveFrom ch react s = react e (pop ch s)" "eb_channels (ch_bus s) ! ch \<noteq> []"
      "e = hd (eb_channels (ch_bus s) ! ch)"
  by (cases "eb_channels (ch_bus s) ! ch") (auto simp: receiveFrom_def pop_def)

lemma pop_shape [simp]:
  "eb_subscribers (ch_bus (pop ch s)) = eb_subscribers (ch_bus s)" "ch_refunding (pop ch s) = ch_refunding s"
  "half X (pop ch s) = half X s" "cnt ty X (pop ch s) = cnt ty X s"
  "length (eb_channels (ch_bus (pop ch s))) = length (eb_channels (ch_bus s))"
  by (auto simp: pop_def half_def cnt_def)

lemma waiting_pop_other: "d \<noteq> ch \<Longrightarrow> waiting d X (pop ch s) = waiting d X s"
  by (simp add: pop_def waiting_def)

lemma waiting_pop:
  assumes "eb_channels (ch_bus s) ! ch \<noteq> []" and "ch < length (eb_channels (ch_bus s))"
  shows "waiting ch X s = waiting ch X (pop ch s) +
    (if ce_SagaID (hd (eb_channels (ch_bus s) ! ch)) \<in> X then 1 else 0)"
  using assms by (cases "eb_channels (ch_bus s) ! ch") (auto simp: pop_def waiting_def)

lemma reply_simps [simp]: "ce_Type (reply p ty b now e) = ty" "ce_SagaID (reply p ty b now e) = ce_SagaID e"
  by (simp_all add: reply_def)

lemma half_refunding [simp]:
  "half X (s\<lparr>ch_refunding := r\<rparr>) = (case r of None \<Rightarrow> 0 | Some e \<Rightarrow> if ce_SagaID e \<in> X then 1 else 0)"
  "cnt ty X (s\<lparr>ch_refunding := r\<rparr>) = cnt ty X s" "waiting c X (s\<lparr>ch_refunding := r\<rparr>) = waiting c X s"
  by (simp_all add: half_def cnt_def waiting_def split: option.splits)

lemma ch_invD:
  assumes "ch_inv s"
  shows "flow X s" "cnt ''OrderCreated'' UNIV s \<le> 10" "length (eb_channels (ch_bus s)) = 7"
    "eb_subscribers (ch_bus s) = eb_subscribers (ch_bus startServices)"
  using assms by (auto simp: ch_inv_def)

text \<open>One lemma per service.\<close>

lemma ch_inv_publish_create:
  assumes inv: "ch_inv s" and room: "cnt ''OrderCreated'' UNIV s < 10" and e: "ce_Type e = ''OrderCreated''"
  shows "ch_inv (publish e s)"
proof -
  note D = ch_invD [OF inv]
  have "waiting 0 UNIV s < 10" using D(1) [of UNIV] room by (simp add: flow_def)
  then have "waiting d X (publish e s) = waiting d X s + (if d = 0 \<and> ce_SagaID e \<in> X then 1 else 0)" for d X
    by (intro publish_subscribed) (simp_all add: D e subscriptions)
  then have "flow X (publish e s)" for X using D(1) [of X] e by (simp add: flow_def)
  then show ?thesis using D(2-) room e by (simp add: ch_inv_def)
qed

text \<open>The counters after receiving from \<open>ch\<close> and replying on channel \<open>c\<close>.\<close>

lemma react_counters:
  assumes inv: "ch_inv s" and ch: "ch < 7" and ne: "eb_channels (ch_bus s) ! ch \<noteq> []"
    and sub: "eb_subscribers (ch_bus startServices) (ce_Type r) = Some [c]" and c: "c < 7" "c \<noteq> ch"
    and saga: "ce_SagaID r = ce_SagaID (hd (eb_channels (ch_bus s) ! ch))"
    and room: "waiting c UNIV s < 10"
  shows "waiting d X (publish r (pop ch s)) + (if d = ch \<and> ce_SagaID r \<in> X then 1 else 0) =
         waiting d X s + (if d = c \<and> ce_SagaID r \<in> X then 1 else 0)"
proof -
  note D = ch_invD [OF inv]
  have "waiting c UNIV (pop ch s) < 10" using room waiting_pop_other [OF c(2)] by simp
  then have "waiting d X (publish r (pop ch s)) = waiting d X (pop ch s) + (if d = c \<and> ce_SagaID r \<in> X then 1 else 0)"
    using c(1) by (intro publish_subscribed) (simp_all add: D sub)
  then show ?thesis
    using waiting_pop [OF ne] ch D(3) saga waiting_pop_other [of d ch X s] c(2) by (cases "d = ch") auto
qed

text \<open>The counters after receiving from \<open>ch\<close> when the reply does not concern channel \<open>d\<close>.\<close>

lemma react_unobserved:
  assumes inv: "ch_inv s" and ch: "ch < 7" and ne: "eb_channels (ch_bus s) ! ch \<noteq> []"
    and sub: "eb_subscribers (ch_bus startServices) (ce_Type r) \<in> {None, Some [c]}" and "d \<noteq> c"
    and saga: "ce_SagaID r = ce_SagaID (hd (eb_channels (ch_bus s) ! ch))"
  shows "waiting d X (publish r (pop ch s)) + (if d = ch \<and> ce_SagaID r \<in> X then 1 else 0) = waiting d X s"
proof -
  note D = ch_invD [OF inv]
  have "waiting d X (publish r (pop ch s)) = waiting d X (pop ch s)"
    by (rule publish_other) (use sub assms(5) in \<open>auto simp: D\<close>)
  then show ?thesis
    using waiting_pop [OF ne] ch D(3) saga waiting_pop_other [of d ch X s] by (cases "d = ch") auto
qed

lemma waiting_pos: "eb_channels (ch_bus s) ! ch \<noteq> [] \<Longrightarrow> 0 < waiting ch UNIV s"
  by (simp add: waiting_def)

lemma ch_inv_flowI:
  assumes "ch_inv s" and "\<And>X. flow X (publish r (pop ch s))" and "ce_Type r \<noteq> ''OrderCreated''"
  shows "ch_inv (publish r (pop ch s))"
  using ch_invD [OF assms(1)] assms(2,3) by (simp add: ch_inv_def)

lemma ch_inv_reserve:
  assumes inv: "ch_inv s" and ne: "eb_channels (ch_bus s) ! 0 \<noteq> []"
  shows "ch_inv (inventoryReserve now (hd (eb_channels (ch_bus s) ! 0)) (pop 0 s))"
  unfolding inventoryReserve_def
proof (rule ch_inv_flowI [OF inv])
  fix X
  let ?r = "reply ''inv_'' ''InventoryReserved'' True now (hd (eb_channels (ch_bus s) ! 0))"
  have "waiting 2 UNIV s < 10"
    using ch_invD(1) [OF inv, of UNIV] ch_invD(2) [OF inv] waiting_pos [OF ne] by (simp add: flow_def)
  note W = react_counters [OF inv _ ne, of ?r 2 _ X, OF _ _ _ _ _ this, simplified subscriptions, simplified]
  show "flow X (publish ?r (pop 0 s))"
    using ch_invD(1) [OF inv, of X] W [of 0] W [of 1] W [of 2] W [of 3] W [of 4] by (simp add: flow_def)
qed simp

lemma ch_inv_process:
  assumes inv: "ch_inv s" and ne: "eb_channels (ch_bus s) ! 2 \<noteq> []"
  shows "ch_inv (paymentProcess now (hd (eb_channels (ch_bus s) ! 2)) (pop 2 s))"
  unfolding paymentProcess_def
proof (rule ch_inv_flowI [OF inv])
  fix X
  let ?r = "reply ''pay_'' ''PaymentProcessed'' True now (hd (eb_channels (ch_bus s) ! 2))"
  have "waiting 4 UNIV s < 10"
    using ch_invD(1) [OF inv, of UNIV] ch_invD(2) [OF inv] waiting_pos [OF ne] by (simp add: flow_def)
  note W = react_counters [OF inv _ ne, of ?r 4 _ X, OF _ _ _ _ _ this, simplified subscriptions, simplified]
  show "flow X (publish ?r (pop 2 s))"
    using ch_invD(1) [OF inv, of X] W [of 0] W [of 1] W [of 2] W [of 3] W [of 4] by (simp add: flow_def)
qed simp

lemma ch_inv_ship:
  assumes inv: "ch_inv s" and ne: "eb_channels (ch_bus s) ! 4 \<noteq> []"
  shows "ch_inv (shippingProcess now1 now2 (hd (eb_channels (ch_bus s) ! 4)) (pop 4 s))"
proof (cases "now1 mod 10 < 3")
  case True
  let ?r = "reply ''ship_'' ''ShippingFailed'' False now2 (hd (eb_channels (ch_bus s) ! 4))"
  have "ch_inv (publish ?r (pop 4 s))"
  proof (rule ch_inv_flowI [OF inv])
    fix X
    have "waiting 3 UNIV s < 10"
      using ch_invD(1) [OF inv, of UNIV] ch_invD(2) [OF inv] waiting_pos [OF ne] by (simp add: flow_def)
    note W = react_counters [OF inv _ ne, of ?r 3 _ X, OF _ _ _ _ _ this, simplified subscriptions, simplified]
    show "flow X (publish ?r (pop 4 s))"
      using ch_invD(1) [OF inv, of X] W [of 0] W [of 1] W [of 2] W [of 3] W [of 4] by (simp add: flow_def)
  qed simp
  then show ?thesis using True by (simp add: shippingProcess_def)
next
  case False
  let ?r = "reply ''ship_'' ''OrderShipped'' True now2 (hd (eb_channels (ch_bus s) ! 4))"
  have "ch_inv (publish ?r (pop 4 s))"
  proof (rule ch_inv_flowI [OF inv])
    fix X
    note W = react_unobserved [OF inv _ ne, of ?r 5 _ X, simplified subscriptions, simplified]
    show "flow X (publish ?r (pop 4 s))"
      using ch_invD(1) [OF inv, of X] W [of 0] W [of 1] W [of 2] W [of 3] W [of 4] by (simp add: flow_def)
  qed simp
  then show ?thesis using False by (simp add: shippingProcess_def)
qed

lemma ch_inv_release:
  assumes inv: "ch_inv s" and ne: "eb_channels (ch_bus s) ! 1 \<noteq> []"
  shows "ch_inv (inventoryRelease now (hd (eb_channels (ch_bus s) ! 1)) (pop 1 s))"
  unfolding inventoryRelease_def
proof (rule ch_inv_flowI [OF inv])
  fix X
  let ?r = "reply ''inv_'' ''InventoryReleased'' True now (hd (eb_channels (ch_bus s) ! 1))"
  note W = react_unobserved [OF inv _ ne, of ?r 5 _ X, simplified subscriptions, simplified]
  show "flow X (publish ?r (pop 1 s))"
    using ch_invD(1) [OF inv, of X] W [of 0] W [of 1] W [of 2] W [of 3] W [of 4] by (simp add: flow_def)
qed simp

lemma ch_inv_refund:
  assumes inv: "ch_inv s" and ne: "eb_channels (ch_bus s) ! 3 \<noteq> []" and free: "ch_refunding s = None"
  shows "ch_inv (paymentRefund now (hd (eb_channels (ch_bus s) ! 3)) (pop 3 s))"
proof -
  note D = ch_invD [OF inv]
  let ?e = "hd (eb_channels (ch_bus s) ! 3)" and ?s = "pop 3 s"
  let ?r = "reply ''pay_'' ''PaymentRefunded'' True now ?e"
  have w: "waiting 3 X s = waiting 3 X ?s + (if ce_SagaID ?e \<in> X then 1 else 0)" for X
    using waiting_pop [OF ne] D(3) by simp
  have other: "d \<noteq> 3 \<Longrightarrow> waiting d X ?s = waiting d X s" for d X by (rule waiting_pop_other)
  have none: "d \<noteq> 6 \<Longrightarrow> waiting d X (publish ?r ?s) = waiting d X ?s" for d X
    by (rule publish_other) (auto simp: D subscriptions)
  have "half X s = 0" for X using free by (simp add: half_def)
  then have "flow X (paymentRefund now ?e ?s)" for X
    using D(1) [of X] w [of X] other [of _ X] none by (simp add: flow_def paymentRefund_def)
  then show ?thesis using D(2-) by (simp add: ch_inv_def paymentRefund_def)
qed

lemma ch_inv_failed:
  assumes inv: "ch_inv s" and e: "ch_refunding s = Some e"
  shows "ch_inv (paymentFailed now e s)"
proof -
  note D = ch_invD [OF inv]
  let ?r = "reply ''pay_'' ''PaymentFailed'' False now e"
  have h: "half X s = (if ce_SagaID e \<in> X then 1 else 0)" for X using e by (simp add: half_def)
  have "waiting 1 UNIV s < 10" using D(1) [of UNIV] D(2) h [of UNIV] by (simp add: flow_def)
  then have "waiting d X (publish ?r s) = waiting d X s + (if d = 1 \<and> ce_SagaID ?r \<in> X then 1 else 0)" for d X
    by (intro publish_subscribed) (simp_all add: D subscriptions)
  then have "flow X (paymentFailed now e s)" for X
    using D(1) [of X] h [of X] by (simp add: flow_def paymentFailed_def)
  then show ?thesis using D(2-) by (simp add: ch_inv_def paymentFailed_def)
qed

lemma ch_inv_monitor:
  assumes inv: "ch_inv s" and "ch = 5 \<or> ch = 6"
  shows "ch_inv (pop ch s)"
proof -
  have "waiting d X (pop ch s) = waiting d X s" if "d < 5" for d X
    using assms(2) that by (intro waiting_pop_other) auto
  then show ?thesis using ch_invD [OF inv] by (simp add: ch_inv_def flow_def)
qed

interpretation choreo: guarded_object choreography ch_inv ch_ok
proof
  fix s e
  assume inv: "ch_inv s" and ok: "ch_ok s e"
  have recv: "ch_inv (receiveFrom ch react s)"
    if "\<And>e. eb_channels (ch_bus s) ! ch \<noteq> [] \<Longrightarrow> e = hd (eb_channels (ch_bus s) ! ch) \<Longrightarrow> ch_inv (react e (pop ch s))" for ch react
    using that inv by (cases rule: receiveFrom_cases [of ch react s]) auto
  show "ch_inv (choreography s e)"
  proof (cases e)
    case (CCreate i)
    then show ?thesis using ch_inv_publish_create [OF inv] ok by (simp add: ch_ok_def)
  next
    case (CInventory created now)
    then show ?thesis using recv ch_inv_reserve [OF inv] ch_inv_release [OF inv] by simp
  next
    case (CPayment reserved now)
    show ?thesis
    proof (cases "ch_refunding s")
      case None
      then show ?thesis using CPayment recv ch_inv_process [OF inv] ch_inv_refund [OF inv] by simp
    next
      case (Some ev)
      then show ?thesis using CPayment ch_inv_failed [OF inv] by simp
    qed
  next
    case (CShipping now1 now2)
    then show ?thesis using recv ch_inv_ship [OF inv] by simp
  next
    case (CMonitor shipped)
    then show ?thesis using recv ch_inv_monitor [OF inv] by simp
  qed
qed

abbreviation is_create :: "cevent \<Rightarrow> bool" where
  "is_create e \<equiv> (case e of CCreate _ \<Rightarrow> True | _ \<Rightarrow> False)"

lemma cnt_receive:
  assumes "\<And>e s. cnt ty X (react e s) = cnt ty X s"
  shows "cnt ty X (receiveFrom ch react s) = cnt ty X s"
  by (cases rule: receiveFrom_cases [of ch react s]) (auto simp: assms)

lemma created_step:
  "cnt ''OrderCreated'' UNIV (choreography s e) = cnt ''OrderCreated'' UNIV s + (if is_create e then 1 else 0)"
proof (cases e)
  case (CPayment reserved now)
  then show ?thesis
    by (auto simp: paymentFailed_def paymentProcess_def paymentRefund_def intro!: cnt_receive split: option.splits)
next
  case (CInventory created now)
  then show ?thesis by (auto simp: inventoryReserve_def inventoryRelease_def intro!: cnt_receive)
next
  case (CShipping now1 now2)
  then show ?thesis by (auto simp: shippingProcess_def intro!: cnt_receive)
next
  case (CMonitor shipped)
  then show ?thesis by (auto intro!: cnt_receive)
qed simp

lemma choreography_admissible:
  "cnt ''OrderCreated'' UNIV s + length (filter is_create es) \<le> 10 \<Longrightarrow> admissible choreography ch_ok s es"
proof (induction es arbitrary: s)
  case (Cons e es)
  have "ch_ok s e" using Cons.prems by (cases e) (auto simp: ch_ok_def)
  then show ?case using Cons.prems Cons.IH [of "choreography s e"] created_step [of s e] by (auto split: if_splits)
qed simp

lemma ch_inv_run:
  assumes "length (filter is_create es) \<le> 10"
  shows "ch_inv (run choreography startServices es)"
proof (rule choreo.guarded_run [OF ch_inv_start choreography_admissible])
  show "cnt ''OrderCreated'' UNIV startServices + length (filter is_create es) \<le> 10"
    using assms by (simp add: cnt_def startServices_def)
qed

section \<open>Properties\<close>

text \<open>C11.  Every order is settled exactly once.  With at most ten orders created, in every interleaving of
  the services and for every outcome of shipping: the publications for a saga never exceed its orders
  (shipped plus refunded at most created, released at most refunded), and once no event is waiting at a
  service and no refund is half done, each order was either shipped, or failed, refunded and released.\<close>

theorem choreography_settles_orders:
  assumes "length (filter is_create es) \<le> 10" and "s = run choreography startServices es"
  shows "cnt ''OrderShipped'' {x} s + cnt ''PaymentRefunded'' {x} s \<le> cnt ''OrderCreated'' {x} s \<and>
         cnt ''InventoryReleased'' {x} s \<le> cnt ''PaymentRefunded'' {x} s \<and>
         (take 5 (eb_channels (ch_bus s)) = replicate 5 [] \<and> ch_refunding s = None \<longrightarrow>
            cnt ''OrderCreated'' {x} s = cnt ''OrderShipped'' {x} s + cnt ''InventoryReleased'' {x} s \<and>
            cnt ''PaymentRefunded'' {x} s = cnt ''InventoryReleased'' {x} s \<and>
            cnt ''ShippingFailed'' {x} s = cnt ''InventoryReleased'' {x} s)"
proof -
  have inv: "ch_inv s" using ch_inv_run [OF assms(1)] assms(2) by simp
  have flow: "flow {x} s" by (rule ch_invD(1) [OF inv])
  have "waiting c {x} s = 0" if "take 5 (eb_channels (ch_bus s)) = replicate 5 []" "c < 5" for c
  proof -
    have "eb_channels (ch_bus s) ! c = take 5 (eb_channels (ch_bus s)) ! c" using that(2) by simp
    also have "\<dots> = []" unfolding that(1) using that(2) by simp
    finally show ?thesis by (simp add: waiting_def)
  qed
  moreover have "half {x} s = 0" if "ch_refunding s = None" using that by (simp add: half_def)
  ultimately show ?thesis using flow unfolding flow_def by auto
qed

definition demo_chor :: "cevent list" where
  "demo_chor = [CCreate 1, CCreate 2, CInventory True 0, CInventory True 0, CPayment True 0, CPayment True 0,
     CShipping 1 0, CShipping 7 0, CPayment False 0, CPayment False 0, CInventory False 0]"

theorem choreography_settles_orders_witness:
  "length (filter is_create demo_chor) \<le> 10 \<and>
   cnt ''OrderCreated'' {''saga_1''} (run choreography startServices demo_chor) = 1 \<and>
   cnt ''OrderCreated'' {''saga_1''} (run choreography startServices demo_chor) =
     cnt ''OrderShipped'' {''saga_1''} (run choreography startServices demo_chor) +
     cnt ''InventoryReleased'' {''saga_1''} (run choreography startServices demo_chor)"
proof (intro conjI)
  define s where "s = run choreography startServices demo_chor"
  show l: "length (filter is_create demo_chor) \<le> 10" by (simp add: demo_chor_def)
  show "cnt ''OrderCreated'' {''saga_1''} (run choreography startServices demo_chor) = 1" by code_simp
  have "take 5 (eb_channels (ch_bus s)) = replicate 5 []" "ch_refunding s = None" unfolding s_def by code_simp+
  with choreography_settles_orders [OF l s_def, of "''saga_1''"]
  show "cnt ''OrderCreated'' {''saga_1''} (run choreography startServices demo_chor) =
     cnt ''OrderShipped'' {''saga_1''} (run choreography startServices demo_chor) +
     cnt ''InventoryReleased'' {''saga_1''} (run choreography startServices demo_chor)"
    unfolding s_def [symmetric] by blast
qed

end
