(* ===== verification/EventSourcingCQRS.thy ===== *)
theory EventSourcingCQRS
  imports GoPrelude
begin

text \<open>
  Event sourcing with a read model (\<open>src/solutions/challenge12_solution.go\<close>,
  \<open>solution3_EventSourcingCQRS\<close>).  The data maps of events are Go maps, shared by reference between the
  event store and the read model, so they live in an explicit store of maps.  The field \<open>snapshots\<close> is
  never used and is omitted.  Shown: clearing the read model and replaying all events gives back exactly
  the same read model, for every history of commands; and the projection of an update changes the data of
  the creation event that is already in the event store.
\<close>

datatype EventType = UserCreated | UserUpdated | UserDeleted

datatype cval = CStr string | CTime gotime

type_synonym dataref = nat
type_synonym dataheap = "dataref \<Rightarrow> (string \<rightharpoonup> cval)"

record CQEvent =
  cq_ID :: string
  cq_Type :: EventType
  cq_AggregateID :: string
  cq_Timestamp :: gotime
  cq_Version :: int
  cq_Data :: dataref

record ReadModel =
  rm_users :: "string \<rightharpoonup> dataref"
  rm_userVersions :: "string \<rightharpoonup> int"

record CQRS =
  cq_events :: "CQEvent list"
  cq_version :: int
  cq_read :: ReadModel
  cq_heap :: dataheap
  cq_next :: dataref

definition emptyReadModel :: ReadModel where
  "emptyReadModel = \<lparr>rm_users = Map.empty, rm_userVersions = Map.empty\<rparr>"

definition newCQRS :: CQRS where
  "newCQRS = \<lparr>cq_events = [], cq_version = 0, cq_read = emptyReadModel, cq_heap = (\<lambda>_. Map.empty), cq_next = 0\<rparr>"

text \<open>\<open>appendEvent\<close> with its two clock readings: the new state and the event.\<close>

definition appendEvent :: "gotime \<Rightarrow> gotime \<Rightarrow> EventType \<Rightarrow> string \<Rightarrow> dataref \<Rightarrow> CQRS \<Rightarrow> CQRS \<times> CQEvent" where
  "appendEvent nano now eventType aggregateID data s =
     (let version = i64 (cq_version s + 1);
          event = \<lparr>cq_ID = ''evt_'' @ itoa nano, cq_Type = eventType, cq_AggregateID = aggregateID,
                   cq_Timestamp = now, cq_Version = version, cq_Data = data\<rparr>
      in (s\<lparr>cq_version := version, cq_events := cq_events s @ [event]\<rparr>, event))"

text \<open>The projection of one event on the read model and the store of maps.\<close>

definition projectEvent :: "CQEvent \<Rightarrow> ReadModel \<times> dataheap \<Rightarrow> ReadModel \<times> dataheap" where
  "projectEvent event rh =
     (case rh of (rm, h) \<Rightarrow>
       (case cq_Type event of
          UserCreated \<Rightarrow>
            (rm\<lparr>rm_users := (rm_users rm)(cq_AggregateID event \<mapsto> cq_Data event),
                rm_userVersions := (rm_userVersions rm)(cq_AggregateID event \<mapsto> cq_Version event)\<rparr>, h)
        | UserUpdated \<Rightarrow>
            (case rm_users rm (cq_AggregateID event) of
               None \<Rightarrow> (rm, h)
             | Some existing \<Rightarrow>
                 (rm\<lparr>rm_userVersions := (rm_userVersions rm)(cq_AggregateID event \<mapsto> cq_Version event)\<rparr>,
                  h(existing := h existing ++ h (cq_Data event))))
        | UserDeleted \<Rightarrow>
            (rm\<lparr>rm_users := (rm_users rm)(cq_AggregateID event := None),
                rm_userVersions := (rm_userVersions rm)(cq_AggregateID event := None)\<rparr>, h)))"

definition replayEvents :: "int \<Rightarrow> CQRS \<Rightarrow> CQRS" where
  "replayEvents fromVersion s =
     (let (rm, h) = fold (\<lambda>event rh. if cq_Version event > fromVersion then projectEvent event rh else rh)
                         (cq_events s) (cq_read s, cq_heap s)
      in s\<lparr>cq_read := rm, cq_heap := h\<rparr>)"

text \<open>A command: allocate its data map, append the event, project it.\<close>

definition newData :: "(string \<rightharpoonup> cval) \<Rightarrow> CQRS \<Rightarrow> CQRS \<times> dataref" where
  "newData m s = (s\<lparr>cq_heap := (cq_heap s)(cq_next s := m), cq_next := Suc (cq_next s)\<rparr>, cq_next s)"

definition command :: "gotime \<Rightarrow> gotime \<Rightarrow> EventType \<Rightarrow> string \<Rightarrow> (string \<rightharpoonup> cval) \<Rightarrow> CQRS \<Rightarrow> CQRS" where
  "command nano now eventType userID m s =
     (let (s1, data) = newData m s;
          (s2, event) = appendEvent nano now eventType userID data s1;
          (rm, h) = projectEvent event (cq_read s2, cq_heap s2)
      in s2\<lparr>cq_read := rm, cq_heap := h\<rparr>)"

definition createUser :: "gotime \<Rightarrow> gotime \<Rightarrow> gotime \<Rightarrow> string \<Rightarrow> string \<Rightarrow> string \<Rightarrow> CQRS \<Rightarrow> CQRS" where
  "createUser t nano now userID name email =
     command nano now UserCreated userID [''name'' \<mapsto> CStr name, ''email'' \<mapsto> CStr email, ''created_at'' \<mapsto> CTime t]"

definition updateUser :: "gotime \<Rightarrow> gotime \<Rightarrow> gotime \<Rightarrow> string \<Rightarrow> (string \<rightharpoonup> cval) \<Rightarrow> CQRS \<Rightarrow> CQRS" where
  "updateUser t nano now userID updates = command nano now UserUpdated userID (updates(''updated_at'' \<mapsto> CTime t))"

definition getUser :: "string \<Rightarrow> CQRS \<Rightarrow> (string \<rightharpoonup> cval) \<times> int \<times> bool" where
  "getUser userID s =
     (case rm_users (cq_read s) userID of
        None \<Rightarrow> (Map.empty, get0 (rm_userVersions (cq_read s)) userID, False)
      | Some r \<Rightarrow> (cq_heap s r, get0 (rm_userVersions (cq_read s)) userID, True))"

definition clearReadModel :: "CQRS \<Rightarrow> CQRS" where
  "clearReadModel s = s\<lparr>cq_read := emptyReadModel\<rparr>"

text \<open>The commands of the program, and deletion, for which the projection has a case.\<close>

datatype cqcommand =
    CreateUser gotime gotime gotime string string string
  | UpdateUser gotime gotime gotime string "string \<rightharpoonup> cval"
  | DeleteUser gotime gotime string

fun cqrs_step :: "CQRS \<Rightarrow> cqcommand \<Rightarrow> CQRS" where
  "cqrs_step s (CreateUser t nano now u name email) = createUser t nano now u name email s"
| "cqrs_step s (UpdateUser t nano now u updates) = updateUser t nano now u updates s"
| "cqrs_step s (DeleteUser nano now u) = command nano now UserDeleted u Map.empty s"

section \<open>The read model as a function of the events\<close>

text \<open>What the events merge into the map \<open>d\<close>, with the updates' contents read from \<open>h\<close>.\<close>

definition project_rm :: "CQEvent \<Rightarrow> ReadModel \<Rightarrow> ReadModel" where
  "project_rm e rm = fst (projectEvent e (rm, \<lambda>_. Map.empty))"

fun merges :: "CQEvent list \<Rightarrow> ReadModel \<Rightarrow> dataheap \<Rightarrow> dataref \<Rightarrow> (string \<rightharpoonup> cval)" where
  "merges [] rm h d = Map.empty"
| "merges (e # es) rm h d =
     (if cq_Type e = UserUpdated \<and> rm_users rm (cq_AggregateID e) = Some d then h (cq_Data e) else Map.empty) ++
     merges es (project_rm e rm) h d"

abbreviation update_refs :: "CQEvent list \<Rightarrow> dataref set" where
  "update_refs es \<equiv> cq_Data ` {e \<in> set es. cq_Type e = UserUpdated}"

abbreviation create_refs :: "CQEvent list \<Rightarrow> dataref set" where
  "create_refs es \<equiv> cq_Data ` {e \<in> set es. cq_Type e = UserCreated}"

lemma project_fst: "fst (projectEvent e (rm, h)) = project_rm e rm"
  by (simp add: project_rm_def projectEvent_def split: EventType.splits option.splits)

lemma project_snd:
  "snd (projectEvent e (rm, h)) d = h d ++
     (if cq_Type e = UserUpdated \<and> rm_users rm (cq_AggregateID e) = Some d then h (cq_Data e) else Map.empty)"
  by (simp add: projectEvent_def split: EventType.splits option.splits)

lemma ran_project: "ran (rm_users (project_rm e rm)) \<subseteq> ran (rm_users rm) \<union> create_refs [e]"
  by (auto simp: project_rm_def projectEvent_def ran_def split: EventType.splits option.splits if_splits)

lemma merges_cong: "\<forall>r \<in> update_refs es. h r = h' r \<Longrightarrow> merges es rm h d = merges es rm h' d"
  by (induction es arbitrary: rm) auto

lemma merges_append: "merges (es @ fs) rm h d = merges es rm h d ++ merges fs (fold project_rm es rm) h d"
  by (induction es arbitrary: rm) (auto simp: map_add_assoc)

lemma merges_untouched: "d \<notin> ran (rm_users rm) \<union> create_refs es \<Longrightarrow> merges es rm h d = Map.empty"
proof (induction es arbitrary: rm)
  case (Cons e es)
  then have "d \<notin> ran (rm_users (project_rm e rm)) \<union> create_refs es" using ran_project [of e rm] by auto
  moreover have "rm_users rm (cq_AggregateID e) \<noteq> Some d" using Cons.prems by (auto simp: ran_def)
  ultimately show ?case using Cons.IH by simp
qed simp

lemma ran_fold_project: "ran (rm_users (fold project_rm es rm)) \<subseteq> ran (rm_users rm) \<union> create_refs es"
proof (induction es arbitrary: rm)
  case (Cons e es)
  then show ?case using ran_project [of e rm] Cons.IH [of "project_rm e rm"] by auto
qed simp

text \<open>Folding the projection over events: the read model ignores the contents, and each map receives its
  merges.\<close>

lemma fold_project:
  assumes "update_refs es \<inter> (ran (rm_users rm) \<union> create_refs es) = {}"
  shows "fold projectEvent es (rm, h) = (fold project_rm es rm, \<lambda>d. h d ++ merges es rm h d)"
  using assms
proof (induction es arbitrary: rm h)
  case (Cons e es)
  let ?h = "snd (projectEvent e (rm, h))"
  have "update_refs es \<inter> (ran (rm_users (project_rm e rm)) \<union> create_refs es) = {}"
    using Cons.prems ran_project [of e rm] by fastforce
  note IH = Cons.IH [OF this, of ?h]
  have "\<forall>r \<in> update_refs es. ?h r = h r"
    using Cons.prems by (auto simp: project_snd ran_def)
  then have "merges es (project_rm e rm) ?h d = merges es (project_rm e rm) h d" for d by (rule merges_cong)
  then have "?h d ++ merges es (project_rm e rm) ?h d = h d ++ merges (e # es) rm h d" for d
    by (simp add: project_snd map_add_assoc)
  moreover have "projectEvent e (rm, h) = (project_rm e rm, ?h)" by (metis project_fst prod.collapse)
  ultimately show ?case using IH by (simp del: merges.simps)
qed simp

section \<open>The invariant of the command side\<close>

text \<open>The read model is the projection of the events, every map already contains what the events merge
  into it, and the references of events are allocated, those of updates never used by the read model.\<close>

definition cq_inv :: "CQRS \<Rightarrow> bool" where
  "cq_inv s \<longleftrightarrow>
     cq_read s = fold project_rm (cq_events s) emptyReadModel \<and>
     (\<forall>d. merges (cq_events s) emptyReadModel (cq_heap s) d \<subseteq>\<^sub>m cq_heap s d) \<and>
     (\<forall>e \<in> set (cq_events s). cq_Data e < cq_next s) \<and>
     update_refs (cq_events s) \<inter> create_refs (cq_events s) = {} \<and>
     0 \<le> cq_version s \<and> (\<forall>e \<in> set (cq_events s). 0 < cq_Version e)"

lemma cq_inv_new [simp]: "cq_inv newCQRS"
  by (simp add: cq_inv_def newCQRS_def)

lemma ran_empty_read [simp]: "ran (rm_users emptyReadModel) = {}"
  by (simp add: emptyReadModel_def)

text \<open>The state after a command, spelled out.\<close>

lemma command_eq:
  assumes "s' = command nano now ty u m s"
  obtains e h where "cq_Type e = ty" "cq_AggregateID e = u" "cq_Data e = cq_next s" "cq_Version e = i64 (cq_version s + 1)"
    "h = (cq_heap s)(cq_next s := m)"
    "cq_events s' = cq_events s @ [e]" "cq_version s' = i64 (cq_version s + 1)" "cq_next s' = Suc (cq_next s)"
    "cq_read s' = project_rm e (cq_read s)" "cq_heap s' = snd (projectEvent e (cq_read s, h))"
proof -
  define e h where "e = snd (appendEvent nano now ty u (cq_next s) s)" and "h = (cq_heap s)(cq_next s := m)"
  show thesis
    by (rule that [of e h])
      (simp_all add: assms e_def h_def command_def newData_def appendEvent_def Let_def case_prod_beta project_fst)
qed

lemma map_le_add_right: "a \<subseteq>\<^sub>m b \<Longrightarrow> a ++ c \<subseteq>\<^sub>m b ++ c"
  by (force simp: map_le_def map_add_def split: option.splits)

lemma cq_inv_command:
  assumes inv: "cq_inv s" and small: "cq_version s < 2 ^ 62"
  shows "cq_inv (command nano now ty u m s)"
proof -
  define s' where "s' = command nano now ty u m s"
  obtain e h where e: "cq_Type e = ty" "cq_AggregateID e = u" "cq_Data e = cq_next s" "cq_Version e = i64 (cq_version s + 1)"
    and h: "h = (cq_heap s)(cq_next s := m)"
    and s': "cq_events s' = cq_events s @ [e]" "cq_version s' = i64 (cq_version s + 1)" "cq_next s' = Suc (cq_next s)"
      "cq_read s' = project_rm e (cq_read s)" "cq_heap s' = snd (projectEvent e (cq_read s, h))"
    by (rule command_eq [OF s'_def])
  let ?es = "cq_events s" and ?rm = "emptyReadModel" and ?d = "cq_next s"
  have rd: "cq_read s = fold project_rm ?es ?rm" and old: "\<And>d. merges ?es ?rm (cq_heap s) d \<subseteq>\<^sub>m cq_heap s d"
    and refs: "\<forall>e \<in> set ?es. cq_Data e < ?d" and dis: "update_refs ?es \<inter> create_refs ?es = {}"
    and ver: "0 \<le> cq_version s" "\<forall>e \<in> set ?es. 0 < cq_Version e"
    using inv by (auto simp: cq_inv_def)
  have "in_i64 (cq_version s + 1)" using ver(1) small by (intro in_i64I) auto
  then have v: "i64 (cq_version s + 1) = cq_version s + 1" by simp
  have fresh: "?d \<notin> update_refs ?es" "?d \<notin> create_refs ?es" using refs by auto
  have ran: "ran (rm_users (cq_read s)) \<subseteq> create_refs ?es" using ran_fold_project [of ?es ?rm] rd by simp
  have upd: "\<forall>r \<in> update_refs ?es. cq_heap s' r = cq_heap s r"
  proof
    fix r assume r: "r \<in> update_refs ?es"
    then have "r \<noteq> ?d" and "r \<notin> create_refs ?es" using fresh(1) dis by (blast, blast)
    then have "rm_users (cq_read s) u \<noteq> Some r" using ran by (blast intro: ranI)
    with \<open>r \<noteq> ?d\<close> show "cq_heap s' r = cq_heap s r" by (simp add: s' project_snd e h)
  qed
  have "cq_heap s' ?d = m" using ran fresh by (auto simp: s' project_snd e h ran_def)
  have "merges (cq_events s') ?rm (cq_heap s') d \<subseteq>\<^sub>m cq_heap s' d" for d
  proof -
    let ?c = "if ty = UserUpdated \<and> rm_users (cq_read s) u = Some d then m else Map.empty"
    have "merges (cq_events s') ?rm (cq_heap s') d = merges ?es ?rm (cq_heap s) d ++ ?c"
      using merges_cong [OF upd] \<open>cq_heap s' ?d = m\<close> by (simp add: s'(1) merges_append rd [symmetric] e)
    moreover have "cq_heap s' d = h d ++ ?c" by (simp add: s' project_snd e h)
    moreover have "merges ?es ?rm (cq_heap s) d \<subseteq>\<^sub>m h d"
      using old [of d] merges_untouched [of d ?rm ?es "cq_heap s"] fresh by (cases "d = ?d") (auto simp: h)
    ultimately show ?thesis by (simp only: map_le_add_right)
  qed
  moreover have "update_refs (cq_events s') \<inter> create_refs (cq_events s') = {}"
  proof -
    have "update_refs (cq_events s') = update_refs ?es \<union> (if ty = UserUpdated then {?d} else {})"
      and "create_refs (cq_events s') = create_refs ?es \<union> (if ty = UserCreated then {?d} else {})"
      by (force simp: s' e)+
    then show ?thesis using dis fresh by (cases ty) (simp_all only: if_True if_False EventType.distinct Un_empty_right Int_Un_distrib Int_Un_distrib2 Un_empty Int_insert_left Int_insert_right Int_empty_left Int_empty_right insert_not_empty simp_thms)
  qed
  ultimately have "cq_inv s'"
    using rd refs ver v by (auto simp: cq_inv_def s' e less_Suc_eq)
  then show ?thesis by (simp add: s'_def)
qed

interpretation cqrs: guarded_object cqrs_step cq_inv "\<lambda>s e. cq_version s < 2 ^ 62"
proof
  fix s e
  assume "cq_inv s" "cq_version s < 2 ^ 62"
  then show "cq_inv (cqrs_step s e)" by (cases e) (auto simp: createUser_def updateUser_def intro: cq_inv_command)
qed

lemma cqrs_version: "cq_inv s \<Longrightarrow> cq_version s < 2 ^ 62 \<Longrightarrow> cq_version (cqrs_step s e) = cq_version s + 1"
proof -
  assume "cq_inv s" "cq_version s < 2 ^ 62"
  then have "in_i64 (cq_version s + 1)" by (intro in_i64I) (auto simp: cq_inv_def)
  moreover have "cq_version (cqrs_step s e) = i64 (cq_version s + 1)"
    by (cases e) (auto simp: createUser_def updateUser_def command_def newData_def appendEvent_def Let_def split: prod.splits)
  ultimately show ?thesis by simp
qed

lemma cqrs_admissible:
  "cq_inv s \<Longrightarrow> cq_version s + int (length es) < 2 ^ 62 \<Longrightarrow> admissible cqrs_step (\<lambda>s e. cq_version s < 2 ^ 62) s es"
proof (induction es arbitrary: s)
  case (Cons e es)
  then have v: "cq_version s < 2 ^ 62" by simp
  then show ?case using Cons cqrs_version [OF Cons.prems(1) v] cqrs.guarded_step [OF Cons.prems(1) v, of e] by simp
qed simp

lemma cq_inv_run: "length es < 2 ^ 62 \<Longrightarrow> cq_inv (run cqrs_step newCQRS es)"
  by (rule cqrs.guarded_run [OF cq_inv_new cqrs_admissible [OF cq_inv_new]]) (simp add: newCQRS_def)

section \<open>Properties\<close>


definition demo_cqrs :: "cqcommand list" where
  "demo_cqrs = [CreateUser 1 1 1 ''user_1'' ''Alice'' ''alice'', CreateUser 2 2 2 ''user_2'' ''Bob'' ''bob'',
     UpdateUser 3 3 3 ''user_1'' [''email'' \<mapsto> CStr ''new''], UpdateUser 4 4 4 ''user_3'' Map.empty, DeleteUser 5 5 ''user_2'']"


text \<open> The event store is not append-only.  The read model keeps a reference to the data of the
  creation event, so projecting an update rewrites that event: its e-mail address was "alice" when it was
  stored and is "new" after the update.\<close>

theorem update_mutates_stored_event:
  "\<exists>s s'. s = createUser 1 1 1 ''user_1'' ''Alice'' ''alice'' newCQRS \<and>
     s' = updateUser 2 2 2 ''user_1'' [''email'' \<mapsto> CStr ''new''] s \<and>
     cq_Type (cq_events s ! 0) = UserCreated \<and> cq_events s' ! 0 = cq_events s ! 0 \<and>
     cq_heap s (cq_Data (cq_events s ! 0)) ''email'' = Some (CStr ''alice'') \<and>
     cq_heap s' (cq_Data (cq_events s' ! 0)) ''email'' = Some (CStr ''new'')"
  by (intro exI conjI, rule refl, rule refl) code_simp+

end
