(* ===== verification/EventStore.thy ===== *)
theory EventStore
  imports GoPrelude
begin

text \<open>
  Event sourcing (\<open>src/solutions/challenge13_solution.go\<close>): the event store with snapshots
  (\<open>solution1_EventStoreWithSnapshot\<close>), the projections updated by goroutines
  (\<open>solution2_ProjectionSeparation\<close>) and the versioned event handlers (\<open>solution3_EventVersioning\<close>).
  Event data is of an arbitrary type; \<open>float64\<close> amounts are of an arbitrary type with the addition (and
  the tax computation) as parameters.  Shown: a stream read with or without a snapshot is gap-free; the
  counters of the projections do not depend on the order in which the update goroutines run, while the
  status does; and an event of an old version is upgraded exactly when only the new handler exists.
\<close>

section \<open>Event store with snapshots\<close>

record 'd SEvent =
  se_ID :: string
  se_StreamID :: string
  se_Type :: string
  se_Version :: int
  se_Data :: 'd
  se_Timestamp :: gotime
  se_Metadata :: "(string \<times> string) list"

record 'd Snapshot =
  sn_StreamID :: string
  sn_Version :: int
  sn_State :: 'd
  sn_Timestamp :: gotime

record 'd SStore =
  st_events :: "string \<rightharpoonup> 'd SEvent list"
  st_snapshots :: "string \<rightharpoonup> 'd Snapshot"
  st_globalVersion :: int
  st_snapshotInterval :: int

definition newStore :: "'d SStore" where
  "newStore = \<lparr>st_events = Map.empty, st_snapshots = Map.empty, st_globalVersion = 0, st_snapshotInterval = 5\<rparr>"

text \<open>Reading a missing key of \<open>events\<close> gives the nil slice.\<close>

definition stream :: "'d SStore \<Rightarrow> string \<Rightarrow> 'd SEvent list" where
  "stream store streamID = (case st_events store streamID of None \<Rightarrow> [] | Some es \<Rightarrow> es)"

definition storeAppend :: "gotime \<Rightarrow> gotime \<Rightarrow> string \<Rightarrow> string \<Rightarrow> 'd \<Rightarrow> 'd SStore \<Rightarrow> 'd SStore \<times> 'd SEvent" where
  "storeAppend t1 t2 streamID eventType data store =
     (let streamVersion = int (length (stream store streamID));
          globalVersion = i64 (st_globalVersion store + 1);
          event = \<lparr>se_ID = ''evt_'' @ itoa globalVersion, se_StreamID = streamID, se_Type = eventType,
                   se_Version = i64 (streamVersion + 1), se_Data = data, se_Timestamp = t1,
                   se_Metadata = [(''source'', ''api'')]\<rparr>;
          store' = store\<lparr>st_globalVersion := globalVersion,
                         st_events := (st_events store)(streamID \<mapsto> stream store streamID @ [event])\<rparr>
      in (if i64 (streamVersion + 1) mod st_snapshotInterval store = 0
          then store'\<lparr>st_snapshots := (st_snapshots store)(streamID \<mapsto>
                 \<lparr>sn_StreamID = streamID, sn_Version = i64 (streamVersion + 1), sn_State = data, sn_Timestamp = t2\<rparr>)\<rparr>
          else store', event))"

definition getStream :: "string \<Rightarrow> int \<Rightarrow> 'd SStore \<Rightarrow> 'd SEvent list \<times> 'd Snapshot option" where
  "getStream streamID fromVersion store =
     (let events = stream store streamID
      in case st_snapshots store streamID of
           Some snapshot \<Rightarrow>
             (if sn_Version snapshot > fromVersion
              then (filter (\<lambda>e. se_Version e > sn_Version snapshot) events, Some snapshot)
              else (filter (\<lambda>e. se_Version e > fromVersion) events, None))
         | None \<Rightarrow> (filter (\<lambda>e. se_Version e > fromVersion) events, None))"

record 'd append_call =
  ac_t1 :: gotime
  ac_t2 :: gotime
  ac_stream :: string
  ac_type :: string
  ac_data :: 'd

definition append_step :: "'d SStore \<Rightarrow> 'd append_call \<Rightarrow> 'd SStore" where
  "append_step store c = fst (storeAppend (ac_t1 c) (ac_t2 c) (ac_stream c) (ac_type c) (ac_data c) store)"

text \<open>The invariant: a stream carries the versions 1 to n; its snapshot is the one of the last multiple of
  the interval.\<close>

definition stream_ok :: "'d SEvent list \<Rightarrow> 'd Snapshot option \<Rightarrow> bool" where
  "stream_ok es sn \<longleftrightarrow>
     map se_Version es = [1..int (length es)] \<and>
     (case sn of
        None \<Rightarrow> length es < 5
      | Some s \<Rightarrow> sn_Version s = 5 * (int (length es) div 5) \<and> 5 \<le> length es \<and>
                  sn_State s = se_Data (es ! nat (sn_Version s - 1)))"

definition store_ok :: "'d SStore \<Rightarrow> bool" where
  "store_ok store \<longleftrightarrow> st_snapshotInterval store = 5 \<and> (\<forall>x. stream_ok (stream store x) (st_snapshots store x))"

definition streams_small :: "'d SStore \<Rightarrow> bool" where
  "streams_small store \<longleftrightarrow> (\<forall>x. length (stream store x) < 2 ^ 62)"

lemma store_ok_new [simp]: "store_ok newStore"
  by (simp add: store_ok_def stream_ok_def newStore_def stream_def)

lemma stream_append [simp]:
  "stream (append_step store c) x = stream store x @
     (if x = ac_stream c then [snd (storeAppend (ac_t1 c) (ac_t2 c) (ac_stream c) (ac_type c) (ac_data c) store)] else [])"
  by (simp add: append_step_def storeAppend_def Let_def stream_def)

lemma div5_step:
  fixes n :: int
  shows "(n + 1) mod 5 = 0 \<Longrightarrow> 5 * ((n + 1) div 5) = n + 1" "(n + 1) mod 5 \<noteq> 0 \<Longrightarrow> (n + 1) div 5 = n div 5"
  by presburger+

lemma stream_ok_append:
  assumes ok: "stream_ok es sn" and v: "se_Version e = int (length es) + 1"
    and sn': "sn' = (if (int (length es) + 1) mod 5 = 0 then Some s else sn)"
    and s: "sn_Version s = int (length es) + 1" "sn_State s = se_Data e"
  shows "stream_ok (es @ [e]) sn'"
proof -
  let ?n = "int (length es)"
  have vers: "map se_Version (es @ [e]) = [1..int (length (es @ [e]))]"
    using ok v upto_snoc [of "length es"] by (simp add: stream_ok_def add.commute)
  show ?thesis
  proof (cases "(?n + 1) mod 5 = 0")
    case True
    moreover have "4 \<le> length es" using True by presburger
    ultimately show ?thesis
      using vers s div5_step(1) [OF True] by (simp add: stream_ok_def sn' nth_append add.commute)
  next
    case False
    have old: "5 * ((1 + ?n) div 5) = 5 * (?n div 5)" using div5_step(2) [OF False] by (simp add: add.commute)
    show ?thesis
    proof (cases sn)
      case None
      then have "length es < 5" using ok by (simp add: stream_ok_def)
      then have "length es \<noteq> 4" using False by auto
      then show ?thesis using vers None False \<open>length es < 5\<close> by (simp add: stream_ok_def sn')
    next
      case (Some t)
      then have t: "sn_Version t = 5 * (?n div 5)" "5 \<le> length es" "sn_State t = se_Data (es ! nat (sn_Version t - 1))"
        using ok by (auto simp: stream_ok_def)
      have "nat (sn_Version t - 1) < length es" using t(1,2) by linarith
      then show ?thesis using vers Some False old t by (simp add: stream_ok_def sn' nth_append)
    qed
  qed
qed

interpretation evstore: guarded_object append_step store_ok "\<lambda>s e. streams_small s"
proof
  fix store :: "'d SStore" and c :: "'d append_call"
  assume ok: "store_ok store" and small: "streams_small store"
  have len: "length (stream store x) < 2 ^ 62" for x
    using small by (simp add: streams_small_def)
  have "in_i64 (int (length (stream store x)) + 1)" for x
    using len [of x] by (intro in_i64I) auto
  then have i: "i64 (int (length (stream store x)) + 1) = int (length (stream store x)) + 1" for x by simp
  have five: "st_snapshotInterval store = 5" using ok by (simp add: store_ok_def)
  have "stream_ok (stream (append_step store c) x) (st_snapshots (append_step store c) x)" for x
  proof (cases "x = ac_stream c")
    case True
    have "stream_ok (stream store x) (st_snapshots store x)" using ok by (simp add: store_ok_def)
    then have "stream_ok (stream store x @ [snd (storeAppend (ac_t1 c) (ac_t2 c) x (ac_type c) (ac_data c) store)])
        (st_snapshots (append_step store c) x)"
      by (rule stream_ok_append [where s = "\<lparr>sn_StreamID = x, sn_Version = int (length (stream store x)) + 1,
            sn_State = ac_data c, sn_Timestamp = ac_t2 c\<rparr>"])
        (simp_all add: append_step_def storeAppend_def Let_def i five True)
    then show ?thesis using True by simp
  next
    case False
    then show ?thesis using ok by (simp add: store_ok_def) (simp add: append_step_def storeAppend_def Let_def)
  qed
  then show "store_ok (append_step store c)"
    using five by (simp add: store_ok_def) (simp add: append_step_def storeAppend_def Let_def)
qed

lemma append_admissible:
  "\<forall>x. length (stream store x) \<le> b \<Longrightarrow> b + length cs < 2 ^ 62 \<Longrightarrow> admissible append_step (\<lambda>s e. streams_small s) store cs"
proof (induction cs arbitrary: store b)
  case (Cons c cs)
  have "length (stream store x) < 2 ^ 62" for x
    using Cons.prems(1) [rule_format, of x] Cons.prems(2) by linarith
  moreover have "\<forall>x. length (stream (append_step store c) x) \<le> Suc b"
    using Cons.prems(1) by (auto simp: le_SucI)
  ultimately show ?case using Cons.IH [of "append_step store c" "Suc b"] Cons.prems(2) by (simp add: streams_small_def)
qed simp

lemma store_ok_run: "length cs < 2 ^ 62 \<Longrightarrow> store_ok (run append_step newStore cs)"
  by (rule evstore.guarded_run [OF store_ok_new append_admissible [where b = 0]]) (auto simp: newStore_def stream_def)

lemma filter_versions:
  assumes "map se_Version es = [1..int (length es)]" and "0 \<le> v"
  shows "map se_Version (filter (\<lambda>e. se_Version e > v) es) = [v + 1..int (length es)]"
proof -
  have "map se_Version (filter (\<lambda>e. se_Version e > v) es) = filter (\<lambda>x. x > v) [1..int (length es)]"
    unfolding assms(1) [symmetric] by (simp add: filter_map comp_def)
  also have "\<dots> = [v + 1..int (length es)]"
  proof (rule sorted_distinct_set_unique)
    show "sorted (filter (\<lambda>x. x > v) [1..int (length es)])" by (rule sorted_filter [of "\<lambda>x. x", simplified]) simp
    show "set (filter (\<lambda>x. x > v) [1..int (length es)]) = set [v + 1..int (length es)]" using assms(2) by auto
  qed auto
  finally show ?thesis .
qed

section \<open>Properties of the store\<close>

text \<open> Stream reads are gap-free.  After any sequence of appends to any streams, reading stream \<open>x\<close>
  from a version returns either no snapshot and exactly the events after that version, or the snapshot of
  the last multiple of five (whose state is the data of the event with that version) and exactly the
  events after the snapshot.\<close>

theorem stream_reads_gap_free:
  assumes "length cs < 2 ^ 62" and "0 \<le> fromVersion" and "store = run append_step newStore cs"
    and "getStream x fromVersion store = (es, sn)" and "n = int (length (filter (\<lambda>c. ac_stream c = x) cs))"
  shows "case sn of
     None \<Rightarrow> map se_Version es = [fromVersion + 1..n]
   | Some s \<Rightarrow> map se_Version es = [sn_Version s + 1..n] \<and> sn_Version s = 5 * (n div 5) \<and> fromVersion < sn_Version s \<and>
       sn_State s = se_Data (stream store x ! nat (sn_Version s - 1)) \<and>
       se_Version (stream store x ! nat (sn_Version s - 1)) = sn_Version s"
proof -
  have "store_ok store" using store_ok_run [OF assms(1)] assms(3) by simp
  then have ok: "stream_ok (stream store x) (st_snapshots store x)" by (simp add: store_ok_def)
  have "length (stream (run append_step st cs) x) = length (stream st x) + length (filter (\<lambda>c. ac_stream c = x) cs)" for st :: "'a SStore"
    by (induction cs arbitrary: st) auto
  then have n: "n = int (length (stream store x))" using assms(3,5) by (simp add: newStore_def stream_def)
  have vers: "map se_Version (stream store x) = [1..n]" using ok by (simp add: stream_ok_def n)
  note F = filter_versions [OF vers [unfolded n], folded n]
  show ?thesis
  proof (cases sn)
    case None
    then have "es = filter (\<lambda>e. se_Version e > fromVersion) (stream store x)"
      using assms(4) by (auto simp: getStream_def Let_def split: option.splits if_splits)
    then show ?thesis using None F [OF assms(2)] by simp
  next
    case (Some s)
    then have s: "st_snapshots store x = Some s" "fromVersion < sn_Version s"
      and es: "es = filter (\<lambda>e. se_Version e > sn_Version s) (stream store x)"
      using assms(4) by (auto simp: getStream_def Let_def split: option.splits if_splits)
    have v: "sn_Version s = 5 * (n div 5)" "5 \<le> n" "sn_State s = se_Data (stream store x ! nat (sn_Version s - 1))"
      using ok s by (auto simp: stream_ok_def n)
    have lt: "nat (sn_Version s - 1) < length (stream store x)" using v(1,2) n by linarith
    have "map se_Version (stream store x) ! nat (sn_Version s - 1) = sn_Version s"
      unfolding vers using v(1,2) by (subst nth_upto) linarith+
    then have "se_Version (stream store x ! nat (sn_Version s - 1)) = sn_Version s" using lt by simp
    then show ?thesis using Some es F [of "sn_Version s"] v s(2) assms(2) by simp
  qed
qed

definition demo_appends :: "nat append_call list" where
  "demo_appends = map (\<lambda>i. \<lparr>ac_t1 = 0, ac_t2 = 0, ac_stream = if i = 3 then ''other'' else ''order_123'', ac_type = ''T'', ac_data = i\<rparr>) [0..<8]"

theorem stream_reads_gap_free_witness:
  "\<exists>s. map se_Version (fst (getStream ''order_123'' 0 (run append_step newStore demo_appends))) = [5 + 1..7] \<and>
     snd (getStream ''order_123'' 0 (run append_step newStore demo_appends)) = Some s \<and> sn_State s = 5"
proof -
  have l: "length demo_appends < 2 ^ 62" by (simp add: demo_appends_def)
  define store where "store = run append_step newStore demo_appends"
  define s where "s = the (snd (getStream ''order_123'' 0 store))"
  have s: "snd (getStream ''order_123'' 0 store) = Some s" "sn_Version s = 5" "sn_State s = 5"
    "int (length (filter (\<lambda>c. ac_stream c = ''order_123'') demo_appends)) = 7"
    unfolding s_def store_def by code_simp+
  then have "getStream ''order_123'' 0 store = (fst (getStream ''order_123'' 0 store), Some s)" by (metis prod.collapse)
  from stream_reads_gap_free [OF l order_refl store_def this refl] s show ?thesis unfolding store_def by simp
qed

section \<open>Projections\<close>

datatype 'f dvalue = DString string | DFloat 'f | DOther

record 'f OrderEvent =
  oev_OrderID :: string
  oev_Type :: string
  oev_Timestamp :: gotime
  oev_Data :: "string \<rightharpoonup> 'f dvalue"

record 'f OrderSummary =
  osum_OrderID :: string
  osum_Status :: string
  osum_TotalAmount :: 'f
  osum_ItemCount :: int
  osum_LastUpdated :: gotime

record 'f CustomerView =
  cv_CustomerID :: string
  cv_OrderCount :: int
  cv_TotalSpent :: 'f
  cv_LastOrderDate :: gotime

record 'f Projections =
  pr_orderSummary :: "string \<rightharpoonup> 'f OrderSummary"
  pr_customerView :: "string \<rightharpoonup> 'f CustomerView"

definition emptyProjections :: "'f Projections" where
  "emptyProjections = \<lparr>pr_orderSummary = Map.empty, pr_customerView = Map.empty\<rparr>"

text \<open>The type assertions \<open>Data["amount"].(float64)\<close> and \<open>Data["customer_id"].(string)\<close>.\<close>

definition amountOf :: "'f OrderEvent \<Rightarrow> 'f option" where
  "amountOf e = (case oev_Data e ''amount'' of Some (DFloat a) \<Rightarrow> Some a | _ \<Rightarrow> None)"

definition customerOf :: "'f OrderEvent \<Rightarrow> string option" where
  "customerOf e = (case oev_Data e ''customer_id'' of Some (DString c) \<Rightarrow> Some c | _ \<Rightarrow> None)"

text \<open>The switch on the event type, on the order's summary.\<close>

definition updateSummary :: "('f \<Rightarrow> 'f \<Rightarrow> 'f) \<Rightarrow> 'f OrderEvent \<Rightarrow> 'f OrderSummary \<Rightarrow> 'f OrderSummary" where
  "updateSummary fadd event summary =
     (if oev_Type event = ''OrderCreated'' then
        summary\<lparr>osum_Status := ''Created'', osum_LastUpdated := oev_Timestamp event\<rparr>
      else if oev_Type event = ''ItemAdded'' then
        summary\<lparr>osum_ItemCount := i64 (osum_ItemCount summary + 1),
                osum_TotalAmount := (case amountOf event of None \<Rightarrow> osum_TotalAmount summary
                                      | Some amount \<Rightarrow> fadd (osum_TotalAmount summary) amount),
                osum_LastUpdated := oev_Timestamp event\<rparr>
      else if oev_Type event = ''OrderShipped'' then
        summary\<lparr>osum_Status := ''Shipped'', osum_LastUpdated := oev_Timestamp event\<rparr>
      else summary)"

definition updateView :: "('f \<Rightarrow> 'f \<Rightarrow> 'f) \<Rightarrow> 'f OrderEvent \<Rightarrow> 'f CustomerView \<Rightarrow> 'f CustomerView" where
  "updateView fadd event view =
     (let view' = (if oev_Type event = ''OrderCreated''
                   then view\<lparr>cv_OrderCount := i64 (cv_OrderCount view + 1), cv_LastOrderDate := oev_Timestamp event\<rparr>
                   else view)
      in case amountOf event of None \<Rightarrow> view'
         | Some amount \<Rightarrow> view'\<lparr>cv_TotalSpent := fadd (cv_TotalSpent view') amount\<rparr>)"

definition updateProjections ::
    "'f \<Rightarrow> ('f \<Rightarrow> 'f \<Rightarrow> 'f) \<Rightarrow> 'f Projections \<Rightarrow> 'f OrderEvent \<Rightarrow> 'f Projections" where
  "updateProjections fzero fadd model event =
     (let summary = (case pr_orderSummary model (oev_OrderID event) of
            Some summary \<Rightarrow> summary
          | None \<Rightarrow> \<lparr>osum_OrderID = oev_OrderID event, osum_Status = '''', osum_TotalAmount = fzero,
                     osum_ItemCount = 0, osum_LastUpdated = 0\<rparr>);
          model' = model\<lparr>pr_orderSummary := (pr_orderSummary model)(oev_OrderID event \<mapsto> updateSummary fadd event summary)\<rparr>
      in case customerOf event of
           None \<Rightarrow> model'
         | Some customerID \<Rightarrow>
             (let view = (case pr_customerView model' customerID of
                    Some view \<Rightarrow> view
                  | None \<Rightarrow> \<lparr>cv_CustomerID = customerID, cv_OrderCount = 0, cv_TotalSpent = fzero, cv_LastOrderDate = 0\<rparr>)
              in model'\<lparr>pr_customerView := (pr_customerView model')(customerID \<mapsto> updateView fadd event view)\<rparr>))"

text \<open>The write side: the events and the update goroutines not yet run; \<open>UpdateRuns k\<close> runs the
  \<open>k\<close>-th of them.\<close>

record 'f OrderSystem =
  os_events :: "'f OrderEvent list"
  os_pending :: "'f OrderEvent list"
  os_read :: "'f Projections"

datatype 'f pstep = PublishEvent "'f OrderEvent" | UpdateRuns nat

fun publishEvent :: "'f \<Rightarrow> ('f \<Rightarrow> 'f \<Rightarrow> 'f) \<Rightarrow> 'f OrderSystem \<Rightarrow> 'f pstep \<Rightarrow> 'f OrderSystem" where
  "publishEvent fzero fadd s (PublishEvent event) =
     s\<lparr>os_events := os_events s @ [event], os_pending := os_pending s @ [event]\<rparr>"
| "publishEvent fzero fadd s (UpdateRuns k) =
     (if k < length (os_pending s)
      then s\<lparr>os_pending := take k (os_pending s) @ drop (Suc k) (os_pending s),
             os_read := updateProjections fzero fadd (os_read s) (os_pending s ! k)\<rparr>
      else s)"

definition getOrderSummary :: "string \<Rightarrow> 'f OrderSystem \<Rightarrow> 'f OrderSummary option" where
  "getOrderSummary orderID s = pr_orderSummary (os_read s) orderID"

definition getCustomerView :: "string \<Rightarrow> 'f OrderSystem \<Rightarrow> 'f CustomerView option" where
  "getCustomerView customerID s = pr_customerView (os_read s) customerID"

definition newOrderSystem :: "'f OrderSystem" where
  "newOrderSystem = \<lparr>os_events = [], os_pending = [], os_read = emptyProjections\<rparr>"

text \<open>What the counters should be for a multiset of processed events.\<close>

definition items_of :: "string \<Rightarrow> 'f OrderEvent multiset \<Rightarrow> nat" where
  "items_of x M = size (filter_mset (\<lambda>e. oev_OrderID e = x \<and> oev_Type e = ''ItemAdded'') M)"

definition orders_of :: "string \<Rightarrow> 'f OrderEvent multiset \<Rightarrow> nat" where
  "orders_of c M = size (filter_mset (\<lambda>e. customerOf e = Some c \<and> oev_Type e = ''OrderCreated'') M)"

definition proj_ok :: "'f OrderEvent multiset \<Rightarrow> 'f Projections \<Rightarrow> bool" where
  "proj_ok M p \<longleftrightarrow>
     (\<forall>x. case pr_orderSummary p x of
        None \<Rightarrow> \<forall>e \<in># M. oev_OrderID e \<noteq> x
      | Some s \<Rightarrow> (\<exists>e \<in># M. oev_OrderID e = x) \<and> osum_OrderID s = x \<and> osum_ItemCount s = i64 (int (items_of x M))) \<and>
     (\<forall>c. case pr_customerView p c of
        None \<Rightarrow> \<forall>e \<in># M. customerOf e \<noteq> Some c
      | Some v \<Rightarrow> (\<exists>e \<in># M. customerOf e = Some c) \<and> cv_CustomerID v = c \<and> cv_OrderCount v = i64 (int (orders_of c M)))"

lemma items_none: "\<forall>e \<in># M. oev_OrderID e \<noteq> x \<Longrightarrow> items_of x M = 0"
  by (auto simp: items_of_def)

lemma orders_none: "\<forall>e \<in># M. customerOf e \<noteq> Some c \<Longrightarrow> orders_of c M = 0"
  by (auto simp: orders_of_def)

lemma items_add: "items_of x (add_mset e M) = items_of x M + (if oev_OrderID e = x \<and> oev_Type e = ''ItemAdded'' then 1 else 0)"
  by (simp add: items_of_def)

lemma orders_add: "orders_of c (add_mset e M) = orders_of c M + (if customerOf e = Some c \<and> oev_Type e = ''OrderCreated'' then 1 else 0)"
  by (simp add: orders_of_def)

lemma updateSummary_facts [simp]:
  "osum_OrderID (updateSummary fadd e s) = osum_OrderID s"
  "osum_ItemCount (updateSummary fadd e s) = (if oev_Type e = ''ItemAdded'' then i64 (osum_ItemCount s + 1) else osum_ItemCount s)"
  by (simp_all add: updateSummary_def)

lemma updateView_facts [simp]:
  "cv_CustomerID (updateView fadd e v) = cv_CustomerID v"
  "cv_OrderCount (updateView fadd e v) = (if oev_Type e = ''OrderCreated'' then i64 (cv_OrderCount v + 1) else cv_OrderCount v)"
  by (simp_all add: updateView_def Let_def split: option.splits)

lemma i64_Suc: "i64 (int n + 1) = i64 (1 + int n)" "i64 0 = 0" "i64 1 = 1"
  by (simp_all add: add.commute in_i64_def)

lemma summary_step:
  "pr_orderSummary (updateProjections fzero fadd p e) x =
     (if x = oev_OrderID e then Some (updateSummary fadd e (case pr_orderSummary p x of Some s \<Rightarrow> s
        | None \<Rightarrow> \<lparr>osum_OrderID = x, osum_Status = '''', osum_TotalAmount = fzero, osum_ItemCount = 0, osum_LastUpdated = 0\<rparr>))
      else pr_orderSummary p x)"
  by (simp add: updateProjections_def Let_def split: option.splits)

lemma view_step:
  "pr_customerView (updateProjections fzero fadd p e) c =
     (if customerOf e = Some c then Some (updateView fadd e (case pr_customerView p c of Some v \<Rightarrow> v
        | None \<Rightarrow> \<lparr>cv_CustomerID = c, cv_OrderCount = 0, cv_TotalSpent = fzero, cv_LastOrderDate = 0\<rparr>))
      else pr_customerView p c)"
  by (simp add: updateProjections_def Let_def split: option.splits)

lemma proj_ok_update:
  assumes ok: "proj_ok M p"
  shows "proj_ok (add_mset e M) (updateProjections fzero fadd p e)"
proof -
  have "case pr_orderSummary (updateProjections fzero fadd p e) x of
        None \<Rightarrow> \<forall>e' \<in># add_mset e M. oev_OrderID e' \<noteq> x
      | Some s \<Rightarrow> (\<exists>e' \<in># add_mset e M. oev_OrderID e' = x) \<and> osum_OrderID s = x \<and> osum_ItemCount s = i64 (int (items_of x (add_mset e M)))" for x
    using ok [unfolded proj_ok_def, THEN conjunct1, rule_format, of x] items_none [of M x]
    by (auto simp: summary_step items_add i64_Suc split: option.splits)
  moreover have "case pr_customerView (updateProjections fzero fadd p e) c of
        None \<Rightarrow> \<forall>e' \<in># add_mset e M. customerOf e' \<noteq> Some c
      | Some v \<Rightarrow> (\<exists>e' \<in># add_mset e M. customerOf e' = Some c) \<and> cv_CustomerID v = c \<and> cv_OrderCount v = i64 (int (orders_of c (add_mset e M)))" for c
    using ok [unfolded proj_ok_def, THEN conjunct2, rule_format, of c] orders_none [of M c]
    by (auto simp: view_step orders_add i64_Suc split: option.splits)
  ultimately show ?thesis unfolding proj_ok_def by blast
qed

text \<open>The events whose update goroutine has run: all events less the pending ones.\<close>

definition os_inv :: "'f OrderSystem \<Rightarrow> bool" where
  "os_inv s \<longleftrightarrow> (\<exists>M. mset (os_events s) = M + mset (os_pending s) \<and> proj_ok M (os_read s))"

lemma os_inv_new [simp]: "os_inv newOrderSystem"
  by (auto simp: os_inv_def newOrderSystem_def proj_ok_def emptyProjections_def)

interpretation projections: locked_object "publishEvent fzero fadd" os_inv for fzero :: 'f and fadd
proof
  fix s :: "'f OrderSystem" and e
  assume "os_inv s"
  then obtain M where M: "mset (os_events s) = M + mset (os_pending s)" "proj_ok M (os_read s)"
    by (auto simp: os_inv_def)
  show "os_inv (publishEvent fzero fadd s e)"
  proof (cases e)
    case (PublishEvent ev)
    then show ?thesis using M by (auto simp: os_inv_def)
  next
    case (UpdateRuns k)
    show ?thesis
    proof (cases "k < length (os_pending s)")
      case True
      then have "mset (os_pending s) = add_mset (os_pending s ! k) (mset (take k (os_pending s) @ drop (Suc k) (os_pending s)))"
        by (metis id_take_nth_drop mset.simps(2) mset_append union_mset_add_mset_right)
      then show ?thesis
        using True UpdateRuns M proj_ok_update [OF M(2)]
        by (auto simp: os_inv_def intro!: exI [of _ "add_mset (os_pending s ! k) M"])
    qed (use \<open>os_inv s\<close> UpdateRuns in simp)
  qed
qed

text \<open> Counters are eventually consistent.  Whatever the order in which the update goroutines run, and
  whatever the floating-point addition does: once none is pending, an order has a summary exactly if an
  event for it was published, and its item count is the number of \<open>ItemAdded\<close> events published for it; a
  customer has a view exactly if an event names the customer, and its order count is the number of
  \<open>OrderCreated\<close> events that do (as 64-bit counters).\<close>

theorem projection_counters_converge:
  assumes "s = run (publishEvent fzero fadd) newOrderSystem es" and "os_pending s = []"
  shows "(case getOrderSummary x s of
            None \<Rightarrow> \<forall>e \<in> set (os_events s). oev_OrderID e \<noteq> x
          | Some sm \<Rightarrow> (\<exists>e \<in> set (os_events s). oev_OrderID e = x) \<and> osum_ItemCount sm =
              i64 (int (length (filter (\<lambda>e. oev_OrderID e = x \<and> oev_Type e = ''ItemAdded'') (os_events s))))) \<and>
         (case getCustomerView c s of
            None \<Rightarrow> \<forall>e \<in> set (os_events s). customerOf e \<noteq> Some c
          | Some v \<Rightarrow> (\<exists>e \<in> set (os_events s). customerOf e = Some c) \<and> cv_OrderCount v =
              i64 (int (length (filter (\<lambda>e. customerOf e = Some c \<and> oev_Type e = ''OrderCreated'') (os_events s)))))"
proof -
  have "os_inv s" using projections.inv_run [OF os_inv_new] assms(1) by simp
  then have ok: "proj_ok (mset (os_events s)) (os_read s)" using assms(2) by (auto simp: os_inv_def)
  have size: "size (filter_mset P (mset xs)) = length (filter P xs)" for P and xs :: "'a OrderEvent list"
    by (metis mset_filter size_mset)
  show ?thesis
    using ok [unfolded proj_ok_def, THEN conjunct1, rule_format, of x]
      ok [unfolded proj_ok_def, THEN conjunct2, rule_format, of c]
    by (auto simp: getOrderSummary_def getCustomerView_def items_of_def orders_of_def size split: option.splits)
qed

definition demo_order :: "string \<Rightarrow> gotime \<Rightarrow> int OrderEvent" where
  "demo_order ty t = \<lparr>oev_OrderID = ''o'', oev_Type = ty, oev_Timestamp = t,
     oev_Data = [''customer_id'' \<mapsto> DString ''c'', ''amount'' \<mapsto> DFloat 5]\<rparr>"

definition demo_publish :: "int pstep list" where
  "demo_publish = [PublishEvent (demo_order ''OrderCreated'' 1), PublishEvent (demo_order ''ItemAdded'' 2),
     PublishEvent (demo_order ''OrderShipped'' 3), UpdateRuns 2, UpdateRuns 1, UpdateRuns 0]"

theorem projection_counters_converge_witness:
  "os_pending (run (publishEvent 0 (+)) newOrderSystem demo_publish) = [] \<and>
   (\<exists>sm. getOrderSummary ''o'' (run (publishEvent 0 (+)) newOrderSystem demo_publish) = Some sm \<and>
     osum_ItemCount sm = i64 (int (length (filter (\<lambda>e. oev_OrderID e = ''o'' \<and> oev_Type e = ''ItemAdded'')
       (os_events (run (publishEvent 0 (+)) newOrderSystem demo_publish))))))"
proof -
  define s where "s = run (publishEvent 0 (+)) newOrderSystem demo_publish"
  have p: "os_pending s = []" and "getOrderSummary ''o'' s \<noteq> None" unfolding s_def by code_simp+
  then obtain sm where "getOrderSummary ''o'' s = Some sm" by blast
  with projection_counters_converge [OF s_def p, of "''o''" "''c''"] p show ?thesis unfolding s_def [symmetric] by simp
qed

text \<open>The status depends on the goroutine order.  An order is created and then shipped; if the update
  goroutine of the second event runs first, the summary stays at "Created" with no update pending.\<close>

theorem projection_status_stale:
  "\<exists>sm. getOrderSummary ''o'' (run (publishEvent 0 (+)) newOrderSystem
        [PublishEvent (demo_order ''OrderCreated'' 1), PublishEvent (demo_order ''OrderShipped'' 2), UpdateRuns 1, UpdateRuns 0]) = Some sm \<and>
     osum_Status sm = ''Created'' \<and> osum_LastUpdated sm = 1"
proof -
  have "(case getOrderSummary ''o'' (run (publishEvent 0 (+)) newOrderSystem
        [PublishEvent (demo_order ''OrderCreated'' 1), PublishEvent (demo_order ''OrderShipped'' 2), UpdateRuns 1, UpdateRuns 0]) of
      None \<Rightarrow> False | Some sm \<Rightarrow> osum_Status sm = ''Created'' \<and> osum_LastUpdated sm = 1)" by code_simp
  then show ?thesis by (auto split: option.splits)
qed

section \<open>Versioned handlers\<close>

record 'f OrderCreatedV1 =
  v1_OrderID :: string
  v1_CustomerID :: string
  v1_Amount :: 'f
  v1_Version :: string

record 'f OrderCreatedV2 =
  v2_OrderID :: string
  v2_CustomerID :: string
  v2_Amount :: 'f
  v2_Currency :: string
  v2_Tax :: 'f
  v2_Version :: string

datatype 'f anyevent = EvV1 "'f OrderCreatedV1" | EvV2 "'f OrderCreatedV2" | EvOther

text \<open>Handlers are closures with an effect on some state \<open>'s\<close> (in the program, the output).\<close>

type_synonym ('f, 's) handlers = "string \<rightharpoonup> (string \<rightharpoonup> ('f anyevent \<Rightarrow> 's \<Rightarrow> 's))"

definition registerHandler :: "string \<Rightarrow> string \<Rightarrow> ('f anyevent \<Rightarrow> 's \<Rightarrow> 's) \<Rightarrow> ('f, 's) handlers \<Rightarrow> ('f, 's) handlers" where
  "registerHandler eventType version fn handlers =
     handlers(eventType \<mapsto> (case handlers eventType of None \<Rightarrow> Map.empty | Some hs \<Rightarrow> hs)(version \<mapsto> fn))"

definition upgradeV1 :: "('f \<Rightarrow> 'f) \<Rightarrow> 'f OrderCreatedV1 \<Rightarrow> 'f OrderCreatedV2" where
  "upgradeV1 tax e = \<lparr>v2_OrderID = v1_OrderID e, v2_CustomerID = v1_CustomerID e, v2_Amount = v1_Amount e,
     v2_Currency = ''USD'', v2_Tax = tax (v1_Amount e), v2_Version = ''v2''\<rparr>"

definition processEvent :: "('f \<Rightarrow> 'f) \<Rightarrow> ('f, 's) handlers \<Rightarrow> string \<Rightarrow> string \<Rightarrow> 'f anyevent \<Rightarrow> 's \<Rightarrow> 's" where
  "processEvent tax handlers eventType version event s =
     (case handlers eventType of
        None \<Rightarrow> s
      | Some hs \<Rightarrow>
          (case hs version of
             Some h \<Rightarrow> h event s
           | None \<Rightarrow>
               (if version = ''v1'' then
                  (case hs ''v2'' of
                     None \<Rightarrow> s
                   | Some h2 \<Rightarrow> (case event of EvV1 e \<Rightarrow> h2 (EvV2 (upgradeV1 tax e)) s | _ \<Rightarrow> s))
                else s)))"

text \<open>\<open>delete(handler.handlers[eventType], version)\<close>.\<close>

definition removeHandler :: "string \<Rightarrow> string \<Rightarrow> ('f, 's) handlers \<Rightarrow> ('f, 's) handlers" where
  "removeHandler eventType version handlers =
     (case handlers eventType of None \<Rightarrow> handlers | Some hs \<Rightarrow> handlers(eventType \<mapsto> hs(version := None)))"

text \<open> Old events survive the removal of their handler.  With both handlers registered each version
  goes to its own handler; after removing the v1 handler a v1 event is handled by the v2 handler, once, as
  the upgraded event with the same order, customer and amount, while v2 events are handled as before; with
  neither handler nothing happens.\<close>

theorem versioned_dispatch:
  "let hs = registerHandler ty ''v2'' h2 (registerHandler ty ''v1'' h1 hs0);
       hs' = removeHandler ty ''v1'' hs; hs'' = removeHandler ty ''v2'' hs'
   in processEvent tax hs ty ''v1'' (EvV1 e) s = h1 (EvV1 e) s \<and>
      processEvent tax hs ty ''v2'' (EvV2 e2) s = h2 (EvV2 e2) s \<and>
      processEvent tax hs' ty ''v1'' (EvV1 e) s = h2 (EvV2 (upgradeV1 tax e)) s \<and>
      processEvent tax hs' ty ''v2'' (EvV2 e2) s = h2 (EvV2 e2) s \<and>
      processEvent tax hs'' ty ''v1'' (EvV1 e) s = s \<and>
      v2_OrderID (upgradeV1 tax e) = v1_OrderID e \<and> v2_Amount (upgradeV1 tax e) = v1_Amount e \<and>
      v2_CustomerID (upgradeV1 tax e) = v1_CustomerID e"
  by (simp add: processEvent_def registerHandler_def removeHandler_def upgradeV1_def Let_def split: option.splits)

end
