(* ===== verification/StreamProcessing.thy ===== *)
theory StreamProcessing
  imports GoPrelude
begin

text \<open>
  Stream processing (\<open>src/solutions/challenge16_solution.go\<close>): tumbling windows with eviction
  (\<open>solution1_WindowManagement\<close>), watermarks and late data (\<open>solution2_LateDataHandling\<close>), checkpoints and
  recovery (\<open>solution3_CheckpointRecovery\<close>).  A window key is the RFC 3339 text of the window's start, a
  whole number of seconds, so the model uses the start itself as the key; the capacity hint of a new slice
  is ignored.  Shown: events are only ever stored in the window that covers their timestamp; the watermark
  never goes back when updates do not overlap, and can go back when they do; and the aggregates count
  every event exactly once through any sequence of deliveries, duplicates, checkpoints and recoveries.
\<close>

section \<open>Windows\<close>

record 'd StreamEvent =
  sv_ID :: string
  sv_Data :: 'd
  sv_Timestamp :: gotime

record 'd Window =
  wn_Start :: gotime
  wn_End :: gotime
  wn_Events :: "'d StreamEvent list"
  wn_Closed :: bool
  wn_EventCount :: int

record 'd WindowManager =
  wm_windows :: "(gotime \<times> 'd Window) list"
  wm_windowDuration :: duration
  wm_maxWindows :: int
  wm_closedWindows :: "gotime list"

definition newWindowManager :: "'d WindowManager" where
  "newWindowManager = \<lparr>wm_windows = [], wm_windowDuration = 5 * 1000000000, wm_maxWindows = 10, wm_closedWindows = []\<rparr>"

text \<open>\<open>time.Time.Truncate\<close>: rounding down to a multiple of the duration.\<close>

definition truncateTime :: "duration \<Rightarrow> gotime \<Rightarrow> gotime" where
  "truncateTime d t = t - t mod d"

definition getWindowKey :: "'d WindowManager \<Rightarrow> gotime \<Rightarrow> gotime" where
  "getWindowKey m timestamp = truncateTime (wm_windowDuration m) timestamp"

definition getOrCreateWindow :: "gotime \<Rightarrow> 'd WindowManager \<Rightarrow> 'd WindowManager \<times> 'd Window" where
  "getOrCreateWindow timestamp m =
     (let key = getWindowKey m timestamp
      in case map_of (wm_windows m) key of
           Some window \<Rightarrow> (m, window)
         | None \<Rightarrow>
             (let windowStart = truncateTime (wm_windowDuration m) timestamp;
                  window = \<lparr>wn_Start = windowStart, wn_End = windowStart + wm_windowDuration m, wn_Events = [],
                            wn_Closed = False, wn_EventCount = 0\<rparr>
              in (m\<lparr>wm_windows := AList.update key window (wm_windows m)\<rparr>, window)))"

definition addEvent :: "'d StreamEvent \<Rightarrow> 'd WindowManager \<Rightarrow> 'd WindowManager \<times> bool" where
  "addEvent event m =
     (let (m', window) = getOrCreateWindow (sv_Timestamp event) m
      in if wn_Closed window then (m', False)
         else if length (wn_Events window) \<ge> 1000 then (m', False)
         else (m'\<lparr>wm_windows := AList.update (getWindowKey m (sv_Timestamp event))
                    (window\<lparr>wn_Events := wn_Events window @ [event], wn_EventCount := i64 (wn_EventCount window + 1)\<rparr>)
                    (wm_windows m')\<rparr>, True))"

text \<open>The loop over the windows closes and collects; then the collected keys are deleted.\<close>

definition closeWindow :: "gotime \<Rightarrow> duration \<Rightarrow> 'd Window \<Rightarrow> 'd Window" where
  "closeWindow currentTime d w = (if currentTime > wn_End w + d then w\<lparr>wn_Closed := True\<rparr> else w)"

definition closeAndEvictOldWindows :: "gotime \<Rightarrow> 'd WindowManager \<Rightarrow> 'd WindowManager" where
  "closeAndEvictOldWindows currentTime m =
     (let d = wm_windowDuration m;
          closing = filter (\<lambda>(k, w). currentTime > wn_End w + d \<and> \<not> wn_Closed w) (wm_windows m);
          keysToEvict = map fst (filter (\<lambda>(k, w). currentTime > wn_End w + d \<and> currentTime > wn_End w + d * 2) (wm_windows m));
          closed = map (\<lambda>(k, w). (k, closeWindow currentTime d w)) (wm_windows m)
      in m\<lparr>wm_closedWindows := wm_closedWindows m @ map fst closing,
           wm_windows := filter (\<lambda>(k, w). k \<notin> set keysToEvict) closed\<rparr>)"

datatype 'd wop = AddEvent "'d StreamEvent" | CloseAndEvict gotime

fun window_step :: "'d WindowManager \<Rightarrow> 'd wop \<Rightarrow> 'd WindowManager" where
  "window_step m (AddEvent e) = fst (addEvent e m)"
| "window_step m (CloseAndEvict t) = closeAndEvictOldWindows t m"

definition window_ok :: "duration \<Rightarrow> gotime \<Rightarrow> 'd Window \<Rightarrow> bool" where
  "window_ok d k w \<longleftrightarrow> wn_Start w = k \<and> wn_End w = k + d \<and> k mod d = 0 \<and>
     (\<forall>e \<in> set (wn_Events w). k \<le> sv_Timestamp e \<and> sv_Timestamp e < k + d) \<and>
     wn_EventCount w = int (length (wn_Events w)) \<and> length (wn_Events w) \<le> 1000"

definition wm_inv :: "'d WindowManager \<Rightarrow> bool" where
  "wm_inv m \<longleftrightarrow> wm_windowDuration m = 5000000000 \<and> distinct (map fst (wm_windows m)) \<and>
     (\<forall>(k, w) \<in> set (wm_windows m). window_ok (wm_windowDuration m) k w)"

lemma truncate_bounds: "0 < d \<Longrightarrow> truncateTime d t \<le> t \<and> t < truncateTime d t + d \<and> truncateTime d t mod d = 0"
proof -
  assume d: "0 < d"
  have "(t - t mod d) mod d = 0" by (metis minus_mod_eq_mult_div mod_mult_self1_is_0)
  moreover have "0 \<le> t mod d" "t mod d < d" using d by simp_all
  ultimately show ?thesis by (simp add: truncateTime_def)
qed

lemma wm_inv_new [simp]: "wm_inv newWindowManager"
  by (simp add: wm_inv_def newWindowManager_def)

lemma wm_inv_update:
  assumes "wm_inv m" and "window_ok (wm_windowDuration m) k w"
  shows "wm_inv (m\<lparr>wm_windows := AList.update k w (wm_windows m)\<rparr>)"
  using assms by (auto simp: wm_inv_def distinct_update set_alist_update)

lemma getOrCreate_facts:
  assumes inv: "wm_inv m" and g: "getOrCreateWindow t m = (m', w)"
  shows "wm_inv m' \<and> wm_windowDuration m' = wm_windowDuration m \<and>
    window_ok (wm_windowDuration m) (getWindowKey m t) w"
proof (cases "map_of (wm_windows m) (getWindowKey m t)")
  case None
  let ?k = "getWindowKey m t"
  have d: "0 < wm_windowDuration m" using inv by (simp add: wm_inv_def)
  have w: "window_ok (wm_windowDuration m) ?k w" and m': "m' = m\<lparr>wm_windows := AList.update ?k w (wm_windows m)\<rparr>"
    using g None truncate_bounds [OF d, of t]
    by (auto simp: getOrCreateWindow_def getWindowKey_def window_ok_def Let_def)
  show ?thesis using wm_inv_update [OF inv w] w by (simp add: m')
next
  case (Some x)
  then show ?thesis using g inv by (auto simp: getOrCreateWindow_def wm_inv_def Let_def dest!: map_of_SomeD)
qed

lemma wm_inv_add:
  assumes inv: "wm_inv m"
  shows "wm_inv (fst (addEvent e m))"
proof -
  obtain m' w where g: "getOrCreateWindow (sv_Timestamp e) m = (m', w)" by fastforce
  let ?k = "getWindowKey m (sv_Timestamp e)"
  note G = getOrCreate_facts [OF inv g]
  have d: "0 < wm_windowDuration m" using inv by (simp add: wm_inv_def)
  show ?thesis
  proof (cases "wn_Closed w \<or> length (wn_Events w) \<ge> 1000")
    case True
    then show ?thesis using G g by (auto simp: addEvent_def Let_def)
  next
    case False
    have "in_i64 (int (length (wn_Events w)) + 1)" using False by (intro in_i64I) auto
    then have "window_ok (wm_windowDuration m') ?k (w\<lparr>wn_Events := wn_Events w @ [e], wn_EventCount := i64 (wn_EventCount w + 1)\<rparr>)"
      using G False truncate_bounds [OF d, of "sv_Timestamp e"] by (auto simp: window_ok_def getWindowKey_def)
    from wm_inv_update [OF _ this] G show ?thesis using g False by (simp add: addEvent_def)
  qed
qed

lemma wm_inv_close:
  assumes inv: "wm_inv m"
  shows "wm_inv (closeAndEvictOldWindows t m)"
proof -
  have ok: "window_ok d k (closeWindow t d' w)" if "window_ok d k w" for d d' k and w :: "'a Window"
    using that by (simp add: window_ok_def closeWindow_def)
  have "distinct (map fst (filter P (map (\<lambda>(k, w). (k, f w)) xs)))" if "distinct (map fst xs)" for P f and xs :: "(gotime \<times> 'a Window) list"
  proof -
    have eq: "map fst (map (\<lambda>(k, w). (k, f w)) xs) = map fst xs" by (induction xs) auto
    have "distinct (map fst (map (\<lambda>(k, w). (k, f w)) xs))" unfolding eq by (rule that)
    then show ?thesis by (rule distinct_map_filter)
  qed
  with inv ok show ?thesis by (fastforce simp: wm_inv_def closeAndEvictOldWindows_def Let_def)
qed

interpretation windows: locked_object window_step wm_inv
proof
  fix m :: "'d WindowManager" and e
  assume "wm_inv m"
  then show "wm_inv (window_step m e)" by (cases e) (auto intro: wm_inv_add wm_inv_close)
qed

section \<open>Watermark\<close>

record 'd WatermarkProcessor =
  wp_watermark :: gotime
  wp_allowedLateness :: duration
  wp_lateEvents :: "'d StreamEvent list"
  wp_onTimeEvents :: "'d StreamEvent list"

definition newWatermarkProcessor :: "gotime \<Rightarrow> 'd WatermarkProcessor" where
  "newWatermarkProcessor now = \<lparr>wp_watermark = now, wp_allowedLateness = 3 * 1000000000, wp_lateEvents = [], wp_onTimeEvents = []\<rparr>"

text \<open>\<open>updateWatermark\<close> is a load and a later store; \<open>currentWatermark\<close> is what was loaded.\<close>

definition storeWatermark :: "gotime \<Rightarrow> gotime \<Rightarrow> 'd WatermarkProcessor \<Rightarrow> 'd WatermarkProcessor" where
  "storeWatermark currentWatermark eventTime p =
     (if eventTime > currentWatermark then p\<lparr>wp_watermark := eventTime\<rparr> else p)"

definition updateWatermark :: "gotime \<Rightarrow> 'd WatermarkProcessor \<Rightarrow> 'd WatermarkProcessor" where
  "updateWatermark eventTime p = storeWatermark (wp_watermark p) eventTime p"

definition processLate :: "'d StreamEvent \<Rightarrow> 'd WatermarkProcessor \<Rightarrow> 'd WatermarkProcessor \<times> bool \<times> string" where
  "processLate event p =
     (let currentWatermark = wp_watermark p; lateness = currentWatermark - sv_Timestamp event
      in if sv_Timestamp event > currentWatermark \<or> sv_Timestamp event = currentWatermark
         then (p\<lparr>wp_onTimeEvents := wp_onTimeEvents p @ [event]\<rparr>, True, ''on-time'')
         else if lateness \<le> wp_allowedLateness p
         then (p\<lparr>wp_lateEvents := wp_lateEvents p @ [event]\<rparr>, True, ''late-accepted'')
         else (p, False, ''too-late''))"

datatype 'd wmop = UpdateWatermark gotime | ProcessLate "'d StreamEvent"

fun watermark_step :: "'d WatermarkProcessor \<Rightarrow> 'd wmop \<Rightarrow> 'd WatermarkProcessor" where
  "watermark_step p (UpdateWatermark t) = updateWatermark t p"
| "watermark_step p (ProcessLate e) = fst (processLate e p)"

interpretation watermark: monotone_object watermark_step "\<lambda>p. True" "\<lambda>p e. True" wp_watermark
proof
  fix p :: "'d WatermarkProcessor" and e
  show "wp_watermark p \<le> wp_watermark (watermark_step p e)"
    by (cases e) (auto simp: updateWatermark_def storeWatermark_def processLate_def Let_def)
qed simp

section \<open>Checkpoints\<close>

text \<open>\<open>Data.(int)\<close> succeeds for integer data only; \<open>None\<close> stands for any other data.\<close>

record CkEvent =
  ke_ID :: string
  ke_Offset :: int
  ke_Data :: "int option"
  ke_Timestamp :: gotime

record Checkpoint =
  ck_Offset :: int
  ck_ProcessedIDs :: "string set"
  ck_WindowStates :: "gotime \<rightharpoonup> int"
  ck_CheckpointTime :: gotime

record CheckpointManager =
  cm_current :: Checkpoint
  cm_history :: "Checkpoint list"
  cm_maxHistory :: int
  cm_processedCount :: int

definition newCheckpointManager :: CheckpointManager where
  "newCheckpointManager =
     \<lparr>cm_current = \<lparr>ck_Offset = 0, ck_ProcessedIDs = {}, ck_WindowStates = Map.empty, ck_CheckpointTime = 0\<rparr>,
      cm_history = [], cm_maxHistory = 5, cm_processedCount = 0\<rparr>"

abbreviation ck_key :: "CkEvent \<Rightarrow> gotime" where
  "ck_key e \<equiv> truncateTime (5 * 1000000000) (ke_Timestamp e)"

definition ckProcess :: "CkEvent \<Rightarrow> CheckpointManager \<Rightarrow> CheckpointManager \<times> bool" where
  "ckProcess event m =
     (let c = cm_current m
      in if ke_ID event \<in> ck_ProcessedIDs c then (m, False)
         else (let states = (case ke_Data event of
                      None \<Rightarrow> ck_WindowStates c
                    | Some value \<Rightarrow> (ck_WindowStates c)(ck_key event \<mapsto>
                        i64 (get0 (ck_WindowStates c) (ck_key event) + value)))
               in (m\<lparr>cm_current := c\<lparr>ck_WindowStates := states,
                       ck_ProcessedIDs := insert (ke_ID event) (ck_ProcessedIDs c), ck_Offset := ke_Offset event\<rparr>,
                     cm_processedCount := i64 (cm_processedCount m + 1)\<rparr>, True)))"

definition createCheckpoint :: "gotime \<Rightarrow> CheckpointManager \<Rightarrow> CheckpointManager \<times> Checkpoint" where
  "createCheckpoint now m =
     (let c = cm_current m;
          checkpoint = \<lparr>ck_Offset = ck_Offset c, ck_ProcessedIDs = ck_ProcessedIDs c,
                        ck_WindowStates = ck_WindowStates c, ck_CheckpointTime = now\<rparr>;
          history = cm_history m @ [checkpoint]
      in (m\<lparr>cm_history := (if int (length history) > cm_maxHistory m then drop 1 history else history)\<rparr>, checkpoint))"

definition recoverFromCheckpoint :: "Checkpoint \<Rightarrow> CheckpointManager \<Rightarrow> CheckpointManager" where
  "recoverFromCheckpoint checkpoint m =
     m\<lparr>cm_current := \<lparr>ck_Offset = ck_Offset checkpoint, ck_ProcessedIDs = ck_ProcessedIDs checkpoint,
        ck_WindowStates = ck_WindowStates checkpoint, ck_CheckpointTime = 0\<rparr>\<rparr>"

text \<open>A history of the manager: deliveries, checkpoints (which the caller keeps, also when they are dropped
  from the bounded history) and recoveries from a checkpoint the caller kept.\<close>

datatype ckop = Deliver CkEvent | TakeCheckpoint gotime | Crash nat

fun ck_step :: "CheckpointManager \<times> Checkpoint list \<Rightarrow> ckop \<Rightarrow> CheckpointManager \<times> Checkpoint list" where
  "ck_step (m, kept) (Deliver e) = (fst (ckProcess e m), kept)"
| "ck_step (m, kept) (TakeCheckpoint now) = (let (m', c) = createCheckpoint now m in (m', kept @ [c]))"
| "ck_step (m, kept) (Crash i) = (if i < length kept then (recoverFromCheckpoint (kept ! i) m, kept) else (m, kept))"

text \<open>The aggregate a window should have when exactly the events with identifiers in \<open>I\<close> are counted;
  \<open>ev\<close> gives the event with an identifier.\<close>

definition aggregate :: "(string \<Rightarrow> CkEvent) \<Rightarrow> string set \<Rightarrow> gotime \<Rightarrow> int" where
  "aggregate ev I k = (\<Sum>x \<in> {x \<in> I. ck_key (ev x) = k}. case ke_Data (ev x) of None \<Rightarrow> 0 | Some v \<Rightarrow> v)"

definition consistent :: "(string \<Rightarrow> CkEvent) \<Rightarrow> Checkpoint \<Rightarrow> bool" where
  "consistent ev c \<longleftrightarrow> finite (ck_ProcessedIDs c) \<and>
     (\<forall>k. get0 (ck_WindowStates c) k = i64 (aggregate ev (ck_ProcessedIDs c) k))"

definition ck_inv :: "(string \<Rightarrow> CkEvent) \<Rightarrow> CheckpointManager \<times> Checkpoint list \<Rightarrow> bool" where
  "ck_inv ev s \<longleftrightarrow> consistent ev (cm_current (fst s)) \<and> (\<forall>c \<in> set (snd s). consistent ev c)"

definition ck_ok :: "(string \<Rightarrow> CkEvent) \<Rightarrow> ckop \<Rightarrow> bool" where
  "ck_ok ev e = (case e of Deliver x \<Rightarrow> ev (ke_ID x) = x | _ \<Rightarrow> True)"

lemma i64_zero [simp]: "i64 0 = 0"
  by (simp add: in_i64_def)

lemma ck_inv_start [simp]: "ck_inv ev (newCheckpointManager, [])"
  by (simp add: ck_inv_def consistent_def newCheckpointManager_def aggregate_def get0_def)

lemma aggregate_insert:
  assumes "finite I" and "ke_ID e \<notin> I" and "ev (ke_ID e) = e"
  shows "aggregate ev (insert (ke_ID e) I) k =
    aggregate ev I k + (if ck_key e = k then case ke_Data e of None \<Rightarrow> 0 | Some v \<Rightarrow> v else 0)"
proof -
  let ?S = "{x \<in> I. ck_key (ev x) = k}"
  have "{x \<in> insert (ke_ID e) I. ck_key (ev x) = k} = (if ck_key e = k then insert (ke_ID e) ?S else ?S)"
    using assms(3) by auto
  then show ?thesis using assms by (simp add: aggregate_def add.commute)
qed

lemma consistent_process:
  assumes c: "consistent ev (cm_current m)" and e: "ev (ke_ID e) = e"
  shows "consistent ev (cm_current (fst (ckProcess e m)))"
proof (cases "ke_ID e \<in> ck_ProcessedIDs (cm_current m)")
  case True
  then show ?thesis using c by (simp add: ckProcess_def)
next
  case False
  have fin: "finite (ck_ProcessedIDs (cm_current m))" using c by (simp add: consistent_def)
  note A = aggregate_insert [of _ e ev, OF fin False e]
  show ?thesis
    using c False fin unfolding consistent_def A
    by (auto simp: ckProcess_def Let_def A split: option.splits)
qed

interpretation exactly_once: guarded_object ck_step "ck_inv ev" "\<lambda>s. ck_ok ev" for ev
proof
  fix s e
  assume inv: "ck_inv ev s" and ok: "ck_ok ev e"
  obtain m kept where s: "s = (m, kept)" by fastforce
  show "ck_inv ev (ck_step s e)"
  proof (cases e)
    case (Deliver x)
    then show ?thesis using inv ok consistent_process [of ev m x] by (simp add: s ck_inv_def ck_ok_def)
  next
    case (TakeCheckpoint now)
    then show ?thesis using inv by (simp add: s ck_inv_def createCheckpoint_def consistent_def Let_def)
  next
    case (Crash i)
    have "consistent ev (kept ! i)" if "i < length kept" using inv that by (simp add: ck_inv_def s)
    then show ?thesis using inv Crash by (simp add: s ck_inv_def recoverFromCheckpoint_def consistent_def)
  qed
qed

lemma admissible_stateless: "admissible step (\<lambda>s. P) s es \<longleftrightarrow> (\<forall>e \<in> set es. P e)"
  by (induction es arbitrary: s) auto

section \<open>Properties\<close>

text \<open>C12.  Exactly-once aggregation.  Let every identifier denote one event.  Through any sequence of
  deliveries in any order, duplicates, checkpoints and recoveries from any kept checkpoint, the aggregate
  of every window is the (64-bit) sum over the processed identifiers, each counted exactly once.\<close>

theorem checkpoint_exactly_once:
  assumes "\<forall>x. Deliver x \<in> set ops \<longrightarrow> ev (ke_ID x) = x"
    and "(m, kept) = run ck_step (newCheckpointManager, []) ops"
  shows "get0 (ck_WindowStates (cm_current m)) k = i64 (aggregate ev (ck_ProcessedIDs (cm_current m)) k)"
proof -
  have "admissible ck_step (\<lambda>s. ck_ok ev) (newCheckpointManager, []) ops"
    unfolding admissible_stateless using assms(1) by (auto simp: ck_ok_def split: ckop.splits)
  from exactly_once.guarded_run [OF ck_inv_start this] have "ck_inv ev (m, kept)" by (simp add: assms(2))
  then show ?thesis by (simp add: ck_inv_def consistent_def)
qed

definition demo_ck :: "int \<Rightarrow> CkEvent" where
  "demo_ck n = \<lparr>ke_ID = itoa n, ke_Offset = n, ke_Data = Some (100 * n), ke_Timestamp = n\<rparr>"

definition demo_ev :: "string \<Rightarrow> CkEvent" where
  "demo_ev x = (if x = itoa 1 then demo_ck 1 else if x = itoa 2 then demo_ck 2 else demo_ck 3)"

definition demo_ops :: "ckop list" where
  "demo_ops = [Deliver (demo_ck 1), TakeCheckpoint 7, Deliver (demo_ck 2), Crash 0, Deliver (demo_ck 1), Deliver (demo_ck 2), Deliver (demo_ck 3)]"

theorem checkpoint_exactly_once_witness:
  "get0 (ck_WindowStates (cm_current (fst (run ck_step (newCheckpointManager, []) demo_ops)))) 0 =
     i64 (aggregate demo_ev (ck_ProcessedIDs (cm_current (fst (run ck_step (newCheckpointManager, []) demo_ops)))) 0) \<and>
   get0 (ck_WindowStates (cm_current (fst (run ck_step (newCheckpointManager, []) demo_ops)))) 0 = 600"
proof
  have "\<forall>x. Deliver x \<in> set demo_ops \<longrightarrow> demo_ev (ke_ID x) = x"
    by (simp add: demo_ops_def demo_ev_def demo_ck_def)
  from checkpoint_exactly_once [OF this prod.collapse]
  show "get0 (ck_WindowStates (cm_current (fst (run ck_step (newCheckpointManager, []) demo_ops)))) 0 =
     i64 (aggregate demo_ev (ck_ProcessedIDs (cm_current (fst (run ck_step (newCheckpointManager, []) demo_ops)))) 0)" .
qed code_simp

text \<open> Windows hold what they cover.  After any sequence of additions and evictions: every event in a
  window has a timestamp in \<open>[Start, End)\<close>, the window is the one its timestamp truncates to, windows have
  the length of five seconds, and the event counter is the number of events, at most 1000.\<close>

theorem windows_hold_their_events:
  assumes "m = run window_step newWindowManager ops" and "(k, w) \<in> set (wm_windows m)" and "e \<in> set (wn_Events w)"
  shows "wn_Start w \<le> sv_Timestamp e \<and> sv_Timestamp e < wn_End w \<and> wn_End w = wn_Start w + 5000000000 \<and>
    k = wn_Start w \<and> k = truncateTime 5000000000 (sv_Timestamp e) \<and>
    wn_EventCount w = int (length (wn_Events w)) \<and> length (wn_Events w) \<le> 1000"
proof -
  have inv: "wm_inv m" using windows.inv_run [OF wm_inv_new] assms(1) by simp
  then have "window_ok 5000000000 k w" using assms(2) by (auto simp: wm_inv_def)
  then have w: "wn_Start w = k" "wn_End w = k + 5000000000" "k mod 5000000000 = 0"
    "k \<le> sv_Timestamp e" "sv_Timestamp e < k + 5000000000"
    "wn_EventCount w = int (length (wn_Events w))" "length (wn_Events w) \<le> 1000"
    using assms(3) by (auto simp: window_ok_def)
  have "sv_Timestamp e mod 5000000000 = sv_Timestamp e - k"
  proof -
    have "(k + (sv_Timestamp e - k)) mod 5000000000 = (sv_Timestamp e - k) mod 5000000000"
      using w(3) by (metis add_0 mod_add_left_eq)
    then show ?thesis using w(4,5) by simp
  qed
  then show ?thesis using w by (simp add: truncateTime_def)
qed

definition demo_windows :: "int wop list" where
  "demo_windows = [AddEvent \<lparr>sv_ID = ''a'', sv_Data = 1, sv_Timestamp = 7000000000\<rparr>,
     AddEvent \<lparr>sv_ID = ''b'', sv_Data = 2, sv_Timestamp = 1\<rparr>, CloseAndEvict 16000000000]"

theorem windows_hold_their_events_witness:
  "\<exists>k w e. (k, w) \<in> set (wm_windows (run window_step newWindowManager demo_windows)) \<and> e \<in> set (wn_Events w) \<and>
     k = truncateTime 5000000000 (sv_Timestamp e) \<and> sv_ID e = ''a''"
proof -
  define m where "m = run window_step newWindowManager demo_windows"
  define kw where "kw = hd (wm_windows m)"
  define e where "e = hd (wn_Events (snd kw))"
  have "kw \<in> set (wm_windows m)" and e: "e \<in> set (wn_Events (snd kw))" "sv_ID e = ''a''"
    unfolding e_def kw_def m_def by code_simp+
  then have kw: "(fst kw, snd kw) \<in> set (wm_windows m)" by simp
  from windows_hold_their_events [OF m_def kw e(1)] kw e show ?thesis unfolding m_def by blast
qed

text \<open> Too late stays too late.  Once an event has been refused as too late, every later attempt to
  process it is refused too, whatever events and watermarks come in between.\<close>

theorem too_late_stays_too_late:
  assumes "snd (processLate e p) = (False, ''too-late'')"
  shows "snd (processLate e (run watermark_step p ops)) = (False, ''too-late'')"
proof -
  have "wp_watermark p \<le> wp_watermark (run watermark_step p ops)" by (rule watermark.rank_run) simp_all
  moreover have "wp_allowedLateness (run watermark_step p ops) = wp_allowedLateness p"
  proof (induction ops arbitrary: p)
    case (Cons a ops)
    have "wp_allowedLateness (watermark_step p a) = wp_allowedLateness p"
      by (cases a) (auto simp: updateWatermark_def storeWatermark_def processLate_def Let_def)
    then show ?case using Cons by simp
  qed simp
  ultimately show ?thesis
    using assms by (auto simp: processLate_def Let_def split: if_splits)
qed

definition demo_event :: "int StreamEvent" where
  "demo_event = \<lparr>sv_ID = ''e'', sv_Data = 1, sv_Timestamp = 0\<rparr>"

theorem too_late_stays_too_late_witness:
  "snd (processLate demo_event (newWatermarkProcessor 3000000001)) = (False, ''too-late'') \<and>
   snd (processLate demo_event (run watermark_step (newWatermarkProcessor 3000000001) [UpdateWatermark 5, ProcessLate demo_event])) =
     (False, ''too-late'')"
proof
  show l: "snd (processLate demo_event (newWatermarkProcessor 3000000001)) = (False, ''too-late'')" by code_simp
  show "snd (processLate demo_event (run watermark_step (newWatermarkProcessor 3000000001) [UpdateWatermark 5, ProcessLate demo_event])) =
     (False, ''too-late'')" by (rule too_late_stays_too_late [OF l])
qed

text \<open>Two overlapping calls of \<open>updateWatermark\<close> can move the watermark back: both load 1, one stores 10,
  then the other stores 5.\<close>

theorem watermark_race:
  "\<exists>p :: int WatermarkProcessor. let p0 = newWatermarkProcessor 1; p1 = storeWatermark (wp_watermark p0) 10 p0; p2 = storeWatermark (wp_watermark p0) 5 p1
     in p = p2 \<and> wp_watermark p1 = 10 \<and> wp_watermark p2 = 5"
  by (simp add: newWatermarkProcessor_def storeWatermark_def)

text \<open>An event refused because its window is closed is accepted once that window has been evicted, in a
  new open window for the same interval.\<close>

theorem evicted_window_reopens:
  "let m = run window_step newWindowManager [AddEvent demo_event, CloseAndEvict 11000000000] in
   snd (addEvent demo_event m) = False \<and> snd (addEvent demo_event (closeAndEvictOldWindows 16000000000 m)) = True"
  by code_simp

end
