(* ===== verification/Blockchain.thy ===== *)
theory Blockchain
  imports GoPrelude
begin

text \<open>
  Consensus (\<open>src/solutions/solution20_blockchain_consensus.go\<close>): the proof-of-work chain, the PBFT replica
  and the Raft node.  Parameters: \<open>sha\<close>, the hexadecimal SHA-256 digest of a string, and \<open>showTime\<close>,
  \<open>showTxs\<close>, the texts that \<open>fmt\<close> prints for a timestamp and a slice of transactions.  Amounts have an
  arbitrary type.  Sending to other nodes is simulated by sleeping in the source; what a node would
  broadcast is recorded in the model.  The search for a nonce runs until the context is cancelled, so it
  takes the number of rounds as fuel.  Shown: every chain the miner builds validates and loses no
  transaction unless mining is cancelled; changing a block inside a valid chain is detected; a PBFT replica
  appends a block only after \<open>2f+1\<close> commits, but again for every further one; a Raft node is leader only
  after a majority of granted votes, and its log is well formed.
\<close>

section \<open>Proof of work\<close>

record 'f BTx =
  bt_ID :: string
  bt_From :: string
  bt_To :: string
  bt_Amount :: 'f
  bt_Timestamp :: gotime

record 'f Block =
  bl_Index :: int
  bl_Timestamp :: gotime
  bl_Transactions :: "'f BTx list"
  bl_PrevHash :: string
  bl_Hash :: string
  bl_Nonce :: int
  bl_Miner :: string

text \<open>\<open>pw_mining\<close> is the block whose nonce is being searched: the flag \<open>mining\<close> is set meanwhile.\<close>

record 'f PoW =
  pw_chain :: "'f Block list"
  pw_difficulty :: nat
  pw_mempool :: "'f BTx list"
  pw_mining :: "'f Block option"

record 'f hashing =
  sha :: "string \<Rightarrow> string"
  showTime :: "gotime \<Rightarrow> string"
  showTxs :: "'f BTx list \<Rightarrow> string"

definition calculateHash :: "'f hashing \<Rightarrow> 'f Block \<Rightarrow> string" where
  "calculateHash H block =
     sha H (itoa (bl_Index block) @ showTime H (bl_Timestamp block) @ showTxs H (bl_Transactions block) @
            bl_PrevHash block @ itoa (bl_Nonce block))"

definition newPoWBlockchain :: "'f hashing \<Rightarrow> gotime \<Rightarrow> 'f PoW" where
  "newPoWBlockchain H now =
     (let empty = \<lparr>bl_Index = 0, bl_Timestamp = 0, bl_Transactions = [], bl_PrevHash = ''0'', bl_Hash = '''', bl_Nonce = 0, bl_Miner = ''''\<rparr>;
          genesis = empty\<lparr>bl_Timestamp := now, bl_Hash := calculateHash H empty\<rparr>
      in \<lparr>pw_chain = [genesis], pw_difficulty = 4, pw_mempool = [], pw_mining = None\<rparr>)"

text \<open>\<open>hash[:difficulty]\<close> panics on a shorter string; a digest has 64 characters.\<close>

definition isValidHash :: "nat \<Rightarrow> string \<Rightarrow> bool" where
  "isValidHash difficulty hash = (take difficulty hash = replicate difficulty CHR ''0'')"

definition addTransaction :: "'f BTx \<Rightarrow> 'f PoW \<Rightarrow> 'f PoW" where
  "addTransaction tx bc = bc\<lparr>pw_mempool := pw_mempool bc @ [tx]\<rparr>"

datatype mine_error = AlreadyMining | NoTransactions | Cancelled

text \<open>\<open>MineBlock\<close> up to the release of the lock.\<close>

definition mineStart :: "gotime \<Rightarrow> string \<Rightarrow> 'f PoW \<Rightarrow> (mine_error + 'f Block) \<times> 'f PoW" where
  "mineStart now miner bc =
     (if pw_mining bc \<noteq> None then (Inl AlreadyMining, bc)
      else if pw_mempool bc = [] then (Inl NoTransactions, bc)
      else (let prevBlock = last (pw_chain bc);
                newBlock = \<lparr>bl_Index = i64 (bl_Index prevBlock + 1), bl_Timestamp = now, bl_Transactions = pw_mempool bc,
                            bl_PrevHash = bl_Hash prevBlock, bl_Hash = '''', bl_Nonce = 0, bl_Miner = miner\<rparr>
            in (Inr newBlock, bc\<lparr>pw_mempool := [], pw_mining := Some newBlock\<rparr>)))"

text \<open>The proof-of-work loop: \<open>None\<close> when the context is done before a nonce is found.\<close>

fun proofOfWork :: "'f hashing \<Rightarrow> nat \<Rightarrow> nat \<Rightarrow> int \<Rightarrow> 'f Block \<Rightarrow> 'f Block option" where
  "proofOfWork H difficulty 0 nonce newBlock = None"
| "proofOfWork H difficulty (Suc rounds) nonce newBlock =
     (let b = newBlock\<lparr>bl_Nonce := nonce\<rparr>; hash = calculateHash H b
      in if isValidHash difficulty hash then Some (b\<lparr>bl_Hash := hash\<rparr>)
         else proofOfWork H difficulty rounds (i64 (nonce + 1)) newBlock)"

text \<open>The rest of \<open>MineBlock\<close>: the search, and appending the block.\<close>

definition mineFinish :: "'f hashing \<Rightarrow> nat \<Rightarrow> 'f PoW \<Rightarrow> (mine_error + 'f Block) \<times> 'f PoW" where
  "mineFinish H rounds bc =
     (case pw_mining bc of
        None \<Rightarrow> (Inl Cancelled, bc)
      | Some newBlock \<Rightarrow>
          (case proofOfWork H (pw_difficulty bc) rounds 0 newBlock of
             None \<Rightarrow> (Inl Cancelled, bc\<lparr>pw_mining := None\<rparr>)
           | Some b \<Rightarrow> (Inr b, bc\<lparr>pw_chain := pw_chain bc @ [b], pw_mining := None\<rparr>)))"

text \<open>The loop of \<open>ValidateChain\<close> over consecutive blocks.\<close>

fun validateFrom :: "'f hashing \<Rightarrow> nat \<Rightarrow> 'f Block list \<Rightarrow> bool" where
  "validateFrom H difficulty (prev # current # rest) =
     (if bl_Hash current \<noteq> calculateHash H current then False
      else if bl_PrevHash current \<noteq> bl_Hash prev then False
      else if \<not> isValidHash difficulty (bl_Hash current) then False
      else validateFrom H difficulty (current # rest))"
| "validateFrom H difficulty bs = True"

definition validateChain :: "'f hashing \<Rightarrow> 'f PoW \<Rightarrow> bool" where
  "validateChain H bc = validateFrom H (pw_difficulty bc) (pw_chain bc)"

datatype 'f powop = PAdd "'f BTx" | PStart gotime string | PFinish nat

fun pow_step :: "'f hashing \<Rightarrow> 'f PoW \<Rightarrow> 'f powop \<Rightarrow> 'f PoW" where
  "pow_step H bc (PAdd tx) = addTransaction tx bc"
| "pow_step H bc (PStart now miner) = snd (mineStart now miner bc)"
| "pow_step H bc (PFinish rounds) = snd (mineFinish H rounds bc)"

lemma validate_snoc:
  "bs \<noteq> [] \<Longrightarrow> validateFrom H d (bs @ [b]) \<longleftrightarrow> validateFrom H d bs \<and> bl_Hash b = calculateHash H b \<and>
     bl_PrevHash b = bl_Hash (last bs) \<and> isValidHash d (bl_Hash b)"
  by (induction H d bs rule: validateFrom.induct) auto

lemma validate_nth:
  "validateFrom H d bs \<longleftrightarrow> (\<forall>i. Suc i < length bs \<longrightarrow> bl_Hash (bs ! Suc i) = calculateHash H (bs ! Suc i) \<and>
     bl_PrevHash (bs ! Suc i) = bl_Hash (bs ! i) \<and> isValidHash d (bl_Hash (bs ! Suc i)))"
proof (induction H d bs rule: validateFrom.induct)
  case (1 H d prev current rest)
  then show ?case by (auto simp: nth_Cons less_Suc_eq_0_disj split: nat.splits)
qed auto

lemma calculateHash_Hash [simp]: "calculateHash H (b\<lparr>bl_Hash := h\<rparr>) = calculateHash H b"
  by (simp add: calculateHash_def)

lemma proofOfWork_Some:
  "proofOfWork H d n k nb = Some b \<Longrightarrow>
     bl_Hash b = calculateHash H b \<and> isValidHash d (bl_Hash b) \<and> bl_PrevHash b = bl_PrevHash nb \<and>
     bl_Transactions b = bl_Transactions nb \<and> bl_Index b = bl_Index nb"
proof (induction H d n k nb rule: proofOfWork.induct)
  case (2 H d n k nb)
  then show ?case by (fastforce simp: Let_def split: if_splits)
qed simp

text \<open>The transactions added by a history, and those given up by a cancelled search.\<close>

definition added :: "'f powop list \<Rightarrow> 'f BTx list" where
  "added ops = concat (map (\<lambda>e. case e of PAdd tx \<Rightarrow> [tx] | _ \<Rightarrow> []) ops)"

abbreviation chain_txs :: "'f PoW \<Rightarrow> 'f BTx list" where
  "chain_txs bc \<equiv> concat (map bl_Transactions (pw_chain bc))"

definition mining_txs :: "'f PoW \<Rightarrow> 'f BTx list" where
  "mining_txs bc = (case pw_mining bc of None \<Rightarrow> [] | Some b \<Rightarrow> bl_Transactions b)"

definition pow_inv :: "'f hashing \<Rightarrow> 'f PoW \<Rightarrow> bool" where
  "pow_inv H bc \<longleftrightarrow> pw_chain bc \<noteq> [] \<and> validateChain H bc \<and>
     (\<forall>b. pw_mining bc = Some b \<longrightarrow> bl_PrevHash b = bl_Hash (last (pw_chain bc)))"

lemma pow_inv_new [simp]: "pow_inv H (newPoWBlockchain H now)"
  by (simp add: pow_inv_def newPoWBlockchain_def validateChain_def Let_def)

lemma mineFinish_cases:
  obtains "pw_mining bc = None" "mineFinish H n bc = (Inl Cancelled, bc)"
  | nb where "pw_mining bc = Some nb" "mineFinish H n bc = (Inl Cancelled, bc\<lparr>pw_mining := None\<rparr>)"
  | nb b where "pw_mining bc = Some nb" "proofOfWork H (pw_difficulty bc) n 0 nb = Some b"
      "mineFinish H n bc = (Inr b, bc\<lparr>pw_chain := pw_chain bc @ [b], pw_mining := None\<rparr>)"
  by (cases "pw_mining bc"; cases "proofOfWork H (pw_difficulty bc) n 0 (the (pw_mining bc))") (auto simp: mineFinish_def)

interpretation pow: locked_object "pow_step H" "pow_inv H" for H :: "'f hashing"
proof
  fix bc :: "'f PoW" and e
  assume inv: "pow_inv H bc"
  show "pow_inv H (pow_step H bc e)"
  proof (cases e)
    case (PAdd tx)
    then show ?thesis using inv by (simp add: pow_inv_def addTransaction_def validateChain_def)
  next
    case (PStart now miner)
    then show ?thesis using inv by (auto simp: pow_inv_def mineStart_def validateChain_def Let_def)
  next
    case (PFinish n)
    show ?thesis
    proof (cases rule: mineFinish_cases [of bc H n])
      case (3 nb b)
      with inv proofOfWork_Some [OF 3(2)] show ?thesis
        by (auto simp: PFinish pow_inv_def validateChain_def validate_snoc)
    qed (use inv PFinish in \<open>auto simp: pow_inv_def validateChain_def\<close>)
  qed
qed

definition not_cancelled :: "'f hashing \<Rightarrow> 'f PoW \<Rightarrow> 'f powop \<Rightarrow> bool" where
  "not_cancelled H bc e = (case e of PFinish n \<Rightarrow> pw_mining bc = None \<or> fst (mineFinish H n bc) \<noteq> Inl Cancelled | _ \<Rightarrow> True)"

definition all_txs :: "'f PoW \<Rightarrow> 'f BTx multiset" where
  "all_txs bc = mset (chain_txs bc) + mset (mining_txs bc) + mset (pw_mempool bc)"

lemma all_txs_step:
  assumes "not_cancelled H bc e"
  shows "all_txs (pow_step H bc e) = all_txs bc + mset (added [e])"
proof (cases e)
  case (PAdd tx)
  then show ?thesis by (simp add: all_txs_def added_def addTransaction_def mining_txs_def)
next
  case (PStart now miner)
  then show ?thesis by (auto simp: all_txs_def added_def mineStart_def mining_txs_def Let_def)
next
  case (PFinish n)
  show ?thesis
  proof (cases rule: mineFinish_cases [of bc H n])
    case (3 nb b)
    then show ?thesis
      using proofOfWork_Some [OF 3(2)] by (simp add: PFinish all_txs_def added_def mining_txs_def)
  qed (use assms PFinish in \<open>auto simp: all_txs_def added_def not_cancelled_def\<close>)
qed

lemma all_txs_run: "admissible (pow_step H) (not_cancelled H) bc ops \<Longrightarrow> all_txs (run (pow_step H) bc ops) = all_txs bc + mset (added ops)"
proof (induction ops arbitrary: bc)
  case (Cons e ops)
  then show ?case using all_txs_step [of H bc e] by (simp add: added_def del: pow_step.simps)
qed (simp add: added_def)

section \<open>Properties of the proof-of-work chain\<close>

text \<open>C13.  The miner builds valid chains and keeps transactions.  For every hash function, every interleaving
  of additions and of the two halves of mining, and every number of rounds granted to each search: the
  chain validates; and unless a search was cancelled, every transaction added is exactly once in the
  chain, in the block being mined or in the mempool.\<close>

theorem mined_chain_valid:
  assumes "bc = run (pow_step H) (newPoWBlockchain H now) ops"
  shows "validateChain H bc \<and>
    (admissible (pow_step H) (not_cancelled H) (newPoWBlockchain H now) ops \<longrightarrow>
       mset (concat (map bl_Transactions (pw_chain bc))) + mset (mining_txs bc) + mset (pw_mempool bc) = mset (added ops))"
proof -
  have "pow_inv H bc" using pow.inv_run [OF pow_inv_new] assms by simp
  moreover have "all_txs (newPoWBlockchain H now) = {#}"
    by (simp add: all_txs_def newPoWBlockchain_def mining_txs_def Let_def)
  ultimately show ?thesis
    using all_txs_run [of H "newPoWBlockchain H now" ops] assms by (auto simp: pow_inv_def all_txs_def)
qed

text \<open>A toy digest for the witnesses: the length of the text in unary after some zeros.\<close>

definition demo_hash :: "int hashing" where
  "demo_hash = \<lparr>sha = (\<lambda>x. if last x = CHR ''2'' then ''0000'' @ x else x), showTime = itoa, showTxs = (\<lambda>txs. concat (map bt_ID txs))\<rparr>"

definition demo_tx :: "string \<Rightarrow> int BTx" where
  "demo_tx i = \<lparr>bt_ID = i, bt_From = ''A'', bt_To = ''B'', bt_Amount = 5, bt_Timestamp = 0\<rparr>"

definition demo_pow :: "int powop list" where
  "demo_pow = [PAdd (demo_tx ''t1''), PStart 9 ''m'', PAdd (demo_tx ''t2''), PFinish 10, PStart 10 ''m'', PFinish 10, PAdd (demo_tx ''t3'')]"

theorem mined_chain_valid_witness:
  "admissible (pow_step demo_hash) (not_cancelled demo_hash) (newPoWBlockchain demo_hash 1) demo_pow \<and>
   length (pw_chain (run (pow_step demo_hash) (newPoWBlockchain demo_hash 1) demo_pow)) = 3 \<and>
   validateChain demo_hash (run (pow_step demo_hash) (newPoWBlockchain demo_hash 1) demo_pow)"
proof (intro conjI)
  show "admissible (pow_step demo_hash) (not_cancelled demo_hash) (newPoWBlockchain demo_hash 1) demo_pow" by code_simp
  show "length (pw_chain (run (pow_step demo_hash) (newPoWBlockchain demo_hash 1) demo_pow)) = 3" by code_simp
  show "validateChain demo_hash (run (pow_step demo_hash) (newPoWBlockchain demo_hash 1) demo_pow)"
    using mined_chain_valid [OF refl] by (rule conjunct1)
qed

text \<open> A valid chain is tamper-evident.  Replacing a block that is neither the first nor the last of a
  valid chain by any block whose contents hash differently makes \<open>ValidateChain\<close> return false, whatever
  the hash field of the replacement says.\<close>

theorem tampering_detected:
  assumes "validateChain H bc" and "0 < i" "Suc i < length (pw_chain bc)"
    and "calculateHash H b \<noteq> calculateHash H (pw_chain bc ! i)"
  shows "\<not> validateChain H (bc\<lparr>pw_chain := (pw_chain bc)[i := b]\<rparr>)"
proof
  assume "validateChain H (bc\<lparr>pw_chain := (pw_chain bc)[i := b]\<rparr>)"
  then have new: "validateFrom H (pw_difficulty bc) ((pw_chain bc)[i := b])" by (simp add: validateChain_def)
  obtain j where j: "i = Suc j" using assms(2) by (cases i) auto
  have "bl_Hash b = calculateHash H b" using new [unfolded validate_nth, rule_format, of j] assms(3) j by simp
  moreover have "bl_PrevHash (pw_chain bc ! Suc i) = bl_Hash b"
    using new [unfolded validate_nth, rule_format, of i] assms(3) by simp
  moreover have "bl_PrevHash (pw_chain bc ! Suc i) = bl_Hash (pw_chain bc ! i)"
    "bl_Hash (pw_chain bc ! i) = calculateHash H (pw_chain bc ! i)"
    using assms(1) [unfolded validateChain_def validate_nth, rule_format, of i]
      assms(1) [unfolded validateChain_def validate_nth, rule_format, of j] assms(3) j by simp_all
  ultimately show False using assms(4) by simp
qed

theorem tampering_detected_witness:
  "\<exists>bc b. validateChain demo_hash bc \<and> Suc 1 < length (pw_chain bc) \<and>
     bl_Hash b = calculateHash demo_hash b \<and> \<not> validateChain demo_hash (bc\<lparr>pw_chain := (pw_chain bc)[1 := b]\<rparr>)"
proof -
  define bc where "bc = run (pow_step demo_hash) (newPoWBlockchain demo_hash 1) demo_pow"
  define b where "b = (let c = (pw_chain bc ! 1)\<lparr>bl_Transactions := []\<rparr> in c\<lparr>bl_Hash := calculateHash demo_hash c\<rparr>)"
  have v: "validateChain demo_hash bc" and l: "Suc 1 < length (pw_chain bc)"
    and h: "calculateHash demo_hash b \<noteq> calculateHash demo_hash (pw_chain bc ! 1)" "bl_Hash b = calculateHash demo_hash b"
    unfolding b_def bc_def by code_simp+
  have "\<not> validateChain demo_hash (bc\<lparr>pw_chain := (pw_chain bc)[1 := b]\<rparr>)"
    by (rule tampering_detected [OF v _ l h(1)]) simp
  with v l h(2) show ?thesis by (intro exI conjI)
qed

section \<open>PBFT\<close>

record 'f PMsg =
  pm_Type :: string
  pm_View :: int
  pm_Sequence :: int
  pm_Block :: "'f Block"
  pm_NodeID :: string

text \<open>\<open>pb_out\<close> records what the replica would broadcast.\<close>

record 'f PBFT =
  pb_nodeID :: string
  pb_nodes :: "string list"
  pb_view :: int
  pb_sequence :: int
  pb_prepared :: "string \<rightharpoonup> int"
  pb_committed :: "string \<rightharpoonup> int"
  pb_messageLog :: "'f PMsg list"
  pb_isPrimary :: bool
  pb_chain :: "'f Block list"
  pb_faultNodes :: int
  pb_out :: "'f PMsg list"

text \<open>\<open>NewPBFTConsensus\<close>; it reads \<open>nodes[0]\<close>, so an empty node list panics (\<open>None\<close>).\<close>

definition newPBFT :: "string \<Rightarrow> string list \<Rightarrow> 'f PBFT option" where
  "newPBFT nodeID nodes =
     (if nodes = [] then None
      else Some \<lparr>pb_nodeID = nodeID, pb_nodes = nodes, pb_view = 0, pb_sequence = 0, pb_prepared = Map.empty,
        pb_committed = Map.empty, pb_messageLog = [], pb_isPrimary = (nodes ! 0 = nodeID), pb_chain = [],
        pb_faultNodes = (int (length nodes) - 1) div 3, pb_out = []\<rparr>)"

definition pbftBroadcast :: "'f PMsg \<Rightarrow> 'f PBFT \<Rightarrow> 'f PBFT" where
  "pbftBroadcast msg p = p\<lparr>pb_out := pb_out p @ [msg]\<rparr>"

definition proposePBFT :: "'f Block \<Rightarrow> 'f PBFT \<Rightarrow> 'f PBFT option" where
  "proposePBFT block p =
     (if \<not> pb_isPrimary p then None
      else (let seq = i64 (pb_sequence p + 1);
                msg = \<lparr>pm_Type = ''PREPREPARE'', pm_View = pb_view p, pm_Sequence = seq, pm_Block = block, pm_NodeID = pb_nodeID p\<rparr>
            in Some (pbftBroadcast msg (p\<lparr>pb_sequence := seq, pb_messageLog := pb_messageLog p @ [msg]\<rparr>))))"

definition pbftKey :: "'f PMsg \<Rightarrow> string" where
  "pbftKey msg = itoa (pm_View msg) @ ''-'' @ itoa (pm_Sequence msg)"

definition handlePrePrepare :: "'f PMsg \<Rightarrow> 'f PBFT \<Rightarrow> 'f PBFT" where
  "handlePrePrepare msg p = pbftBroadcast (msg\<lparr>pm_Type := ''PREPARE'', pm_NodeID := pb_nodeID p\<rparr>) p"

definition handlePrepare :: "'f PMsg \<Rightarrow> 'f PBFT \<Rightarrow> 'f PBFT" where
  "handlePrepare msg p =
     (let n = i64 (get0 (pb_prepared p) (pbftKey msg) + 1);
          p' = p\<lparr>pb_prepared := (pb_prepared p)(pbftKey msg \<mapsto> n)\<rparr>
      in if n \<ge> 2 * pb_faultNodes p + 1
         then pbftBroadcast (msg\<lparr>pm_Type := ''COMMIT'', pm_NodeID := pb_nodeID p\<rparr>) p' else p')"

definition handleCommit :: "'f PMsg \<Rightarrow> 'f PBFT \<Rightarrow> 'f PBFT" where
  "handleCommit msg p =
     (let n = i64 (get0 (pb_committed p) (pbftKey msg) + 1);
          p' = p\<lparr>pb_committed := (pb_committed p)(pbftKey msg \<mapsto> n)\<rparr>
      in if n \<ge> 2 * pb_faultNodes p + 1 then p'\<lparr>pb_chain := pb_chain p' @ [pm_Block msg]\<rparr> else p')"

definition verifyMessage :: "'f PMsg \<Rightarrow> 'f PBFT \<Rightarrow> bool" where
  "verifyMessage msg p = (pm_View msg = pb_view p \<and> pm_Sequence msg > 0)"

definition handleMessage :: "'f PBFT \<Rightarrow> 'f PMsg \<Rightarrow> 'f PBFT" where
  "handleMessage p msg =
     (if \<not> verifyMessage msg p then p
      else (let p' = p\<lparr>pb_messageLog := pb_messageLog p @ [msg]\<rparr>
            in if pm_Type msg = ''PREPREPARE'' then handlePrePrepare msg p'
               else if pm_Type msg = ''PREPARE'' then handlePrepare msg p'
               else if pm_Type msg = ''COMMIT'' then handleCommit msg p' else p'))"

text \<open>The condition for which \<open>waitForConsensus\<close> polls.\<close>

definition consensusReached :: "'f PBFT \<Rightarrow> bool" where
  "consensusReached p =
     (get0 (pb_committed p) (itoa (pb_view p) @ ''-'' @ itoa (pb_sequence p)) \<ge> 2 * pb_faultNodes p + 1)"

text \<open>The blocks a sequence of messages appends: that of every commit which is at least the \<open>q\<close>-th one for
  its view and sequence number.\<close>

fun commits_from :: "int \<Rightarrow> (string \<Rightarrow> int) \<Rightarrow> 'f PMsg list \<Rightarrow> 'f Block list" where
  "commits_from q seen [] = []"
| "commits_from q seen (m # ms) =
     (if pm_Type m = ''COMMIT'' then
        (if seen (pbftKey m) + 1 \<ge> q then [pm_Block m] else []) @ commits_from q (seen(pbftKey m := seen (pbftKey m) + 1)) ms
      else commits_from q seen ms)"

lemma handleMessage_frame:
  "pb_view (handleMessage p m) = pb_view p" "pb_faultNodes (handleMessage p m) = pb_faultNodes p"
  by (simp_all add: handleMessage_def handlePrePrepare_def handlePrepare_def handleCommit_def pbftBroadcast_def Let_def)

lemma handle_other:
  "pm_Type m \<noteq> ''COMMIT'' \<Longrightarrow> pb_chain (handleMessage p m) = pb_chain p \<and> pb_committed (handleMessage p m) = pb_committed p"
  by (simp add: handleMessage_def handlePrePrepare_def handlePrepare_def pbftBroadcast_def Let_def)

lemma handle_commit:
  assumes "pm_Type m = ''COMMIT''" "verifyMessage m p" and "0 \<le> get0 (pb_committed p) (pbftKey m)" "get0 (pb_committed p) (pbftKey m) < 2 ^ 62"
  shows "get0 (pb_committed (handleMessage p m)) = (get0 (pb_committed p))(pbftKey m := get0 (pb_committed p) (pbftKey m) + 1)"
    and "pb_chain (handleMessage p m) = pb_chain p @
      (if get0 (pb_committed p) (pbftKey m) + 1 \<ge> 2 * pb_faultNodes p + 1 then [pm_Block m] else [])"
proof -
  have "in_i64 (get0 (pb_committed p) (pbftKey m) + 1)" using assms(3,4) by (intro in_i64I) auto
  then show "get0 (pb_committed (handleMessage p m)) = (get0 (pb_committed p))(pbftKey m := get0 (pb_committed p) (pbftKey m) + 1)"
    and "pb_chain (handleMessage p m) = pb_chain p @
      (if get0 (pb_committed p) (pbftKey m) + 1 \<ge> 2 * pb_faultNodes p + 1 then [pm_Block m] else [])"
    using assms(1,2) by (auto simp: handleMessage_def handleCommit_def Let_def fun_eq_iff)
qed

lemma pbft_run:
  assumes "\<forall>k. 0 \<le> get0 (pb_committed p) k \<and> get0 (pb_committed p) k \<le> b" and "b + int (length ms) < 2 ^ 62"
  shows "pb_chain (run handleMessage p ms) = pb_chain p @
    commits_from (2 * pb_faultNodes p + 1) (get0 (pb_committed p)) (filter (\<lambda>m. verifyMessage m p) ms)"
  using assms
proof (induction ms arbitrary: p b)
  case (Cons m ms)
  let ?p = "handleMessage p m"
  have same: "(\<lambda>m. verifyMessage m ?p) = (\<lambda>m. verifyMessage m p)"
    by (simp add: verifyMessage_def handleMessage_frame fun_eq_iff)
  show ?case
  proof (cases "verifyMessage m p \<and> pm_Type m = ''COMMIT''")
    case True
    note H = handle_commit [of m p]
    have g: "0 \<le> get0 (pb_committed p) (pbftKey m)" "get0 (pb_committed p) (pbftKey m) < 2 ^ 62"
      using Cons.prems(1) [rule_format, of "pbftKey m"] Cons.prems(2) by auto
    have c: "get0 (pb_committed ?p) = (get0 (pb_committed p))(pbftKey m := get0 (pb_committed p) (pbftKey m) + 1)"
      using H(1) True g by simp
    have bnd: "\<forall>k. 0 \<le> get0 (pb_committed ?p) k \<and> get0 (pb_committed ?p) k \<le> b + 1"
    proof
      fix k
      show "0 \<le> get0 (pb_committed ?p) k \<and> get0 (pb_committed ?p) k \<le> b + 1"
        using Cons.prems(1) [rule_format, of k] Cons.prems(1) [rule_format, of "pbftKey m"] unfolding c by auto
    qed
    from Cons.IH [OF bnd] Cons.prems(2)
    have "pb_chain (run handleMessage ?p ms) = pb_chain ?p @
      commits_from (2 * pb_faultNodes ?p + 1) (get0 (pb_committed ?p)) (filter (\<lambda>m. verifyMessage m ?p) ms)" by simp
    then show ?thesis using H(2) True g by (simp add: same c handleMessage_frame)
  next
    case False
    then have c: "pb_committed ?p = pb_committed p" "pb_chain ?p = pb_chain p"
      using handle_other [of m p] by (auto simp: handleMessage_def [of p m])
    have "pb_chain (run handleMessage ?p ms) = pb_chain ?p @
      commits_from (2 * pb_faultNodes ?p + 1) (get0 (pb_committed ?p)) (filter (\<lambda>m. verifyMessage m ?p) ms)"
      using Cons.prems by (intro Cons.IH [of _ b]) (simp_all add: c)
    then show ?thesis using False by (auto simp: same c handleMessage_frame)
  qed
qed simp

lemma commits_quorum:
  "b \<in> set (commits_from q seen ms) \<Longrightarrow>
     \<exists>m \<in> set ms. pm_Type m = ''COMMIT'' \<and> pm_Block m = b \<and>
       seen (pbftKey m) + int (length (filter (\<lambda>x. pm_Type x = ''COMMIT'' \<and> pbftKey x = pbftKey m) ms)) \<ge> q"
proof (induction q seen ms rule: commits_from.induct)
  case (2 q seen m ms)
  show ?case
  proof (cases "pm_Type m = ''COMMIT''")
    case False
    then show ?thesis using 2(2,3) by auto
  next
    case True
    let ?seen = "seen(pbftKey m := seen (pbftKey m) + 1)"
    show ?thesis
    proof (cases "b \<in> set (commits_from q ?seen ms)")
      case False
      then have "pm_Block m = b" "seen (pbftKey m) + 1 \<ge> q" using 2(3) True by (auto split: if_splits)
      then show ?thesis using True by (auto intro!: bexI [of _ m])
    next
      case b: True
      from 2(1) [OF True b] obtain x where x: "x \<in> set ms" "pm_Type x = ''COMMIT''" "pm_Block x = b"
        "?seen (pbftKey x) + int (length (filter (\<lambda>y. pm_Type y = ''COMMIT'' \<and> pbftKey y = pbftKey x) ms)) \<ge> q" by blast
      then show ?thesis using True by (auto intro!: bexI [of _ x] split: if_splits)
    qed
  qed
qed simp

section \<open>Property of the PBFT replica\<close>

text \<open> Commits need a quorum.  For every sequence of messages a new replica of \<open>n\<close> nodes handles, its
  chain consists exactly of the blocks of those valid COMMIT messages that are at least the
  \<open>2f+1\<close>-th for their view and sequence number, where \<open>f = (n-1)/3\<close>, in order of arrival; in particular a
  block is only appended when \<open>2f+1\<close> valid COMMIT messages for one view and sequence number arrived.\<close>

theorem pbft_commit_rule:
  assumes "newPBFT nodeID nodes = Some p" and "length ms < 2 ^ 62" and "q = 2 * ((int (length nodes) - 1) div 3) + 1"
    and "valid = filter (\<lambda>m. pm_View m = 0 \<and> pm_Sequence m > 0) ms"
  shows "pb_chain (run handleMessage p ms) = commits_from q (\<lambda>_. 0) valid \<and>
    (b \<in> set (pb_chain (run handleMessage p ms)) \<longrightarrow>
       (\<exists>m \<in> set valid. pm_Type m = ''COMMIT'' \<and> pm_Block m = b \<and>
          int (length (filter (\<lambda>x. pm_Type x = ''COMMIT'' \<and> pbftKey x = pbftKey m) valid)) \<ge> q))"
proof -
  have p: "get0 (pb_committed p) = (\<lambda>_. 0)" "pb_chain p = []" "pb_faultNodes p = (int (length nodes) - 1) div 3" "pb_view p = 0"
    using assms(1) by (auto simp: newPBFT_def get0_def fun_eq_iff split: if_splits)
  have "pb_chain (run handleMessage p ms) = commits_from q (\<lambda>_. 0) valid"
    using pbft_run [of p 0 ms] assms(2,3,4) by (simp add: p verifyMessage_def)
  then show ?thesis using commits_quorum [of b q "\<lambda>_. 0" valid] by simp
qed

definition demo_block :: "string \<Rightarrow> int Block" where
  "demo_block h = \<lparr>bl_Index = 1, bl_Timestamp = 0, bl_Transactions = [], bl_PrevHash = '''', bl_Hash = h, bl_Nonce = 0, bl_Miner = ''''\<rparr>"

definition demo_commit :: "string \<Rightarrow> int PMsg" where
  "demo_commit n = \<lparr>pm_Type = ''COMMIT'', pm_View = 0, pm_Sequence = 1, pm_Block = demo_block ''h'', pm_NodeID = n\<rparr>"

definition demo_replica :: "int PBFT" where
  "demo_replica = the (newPBFT ''n1'' [''n1'', ''n2'', ''n3'', ''n4''])"

theorem pbft_commit_rule_witness:
  "pb_chain (run handleMessage demo_replica (map demo_commit [''n2'', ''n3'', ''n4''])) =
     commits_from 3 (\<lambda>_. 0) (map demo_commit [''n2'', ''n3'', ''n4'']) \<and>
   commits_from 3 (\<lambda>_. 0) (map demo_commit [''n2'', ''n3'', ''n4'']) = [demo_block ''h'']"
proof
  have n: "newPBFT ''n1'' [''n1'', ''n2'', ''n3'', ''n4''] = Some demo_replica" by (simp add: demo_replica_def newPBFT_def)
  have l: "length (map demo_commit [''n2'', ''n3'', ''n4'']) < 2 ^ 62" by simp
  have v: "map demo_commit [''n2'', ''n3'', ''n4''] =
      filter (\<lambda>m. pm_View m = 0 \<and> pm_Sequence m > 0) (map demo_commit [''n2'', ''n3'', ''n4''])"
    by (simp add: demo_commit_def)
  have q: "3 = 2 * ((int (length [''n1'', ''n2'', ''n3'', ''n4'']) - 1) div 3) + 1" by simp
  from pbft_commit_rule [OF n l q v, THEN conjunct1]
  show "pb_chain (run handleMessage demo_replica (map demo_commit [''n2'', ''n3'', ''n4''])) =
     commits_from 3 (\<lambda>_. 0) (map demo_commit [''n2'', ''n3'', ''n4''])" .
qed code_simp

text \<open>The fourth commit of four replicas appends the block a second time, and three commits of one and the
  same node count as a quorum.\<close>

theorem pbft_duplicate_block:
  "pb_chain (run handleMessage demo_replica (map demo_commit [''n1'', ''n2'', ''n3'', ''n4''])) = [demo_block ''h'', demo_block ''h''] \<and>
   pb_chain (run handleMessage demo_replica (map demo_commit [''n2'', ''n2'', ''n2''])) = [demo_block ''h'']"
  by (rule conjI; code_simp)

section \<open>Raft\<close>

record 'f RaftLogEntry =
  re_Term :: int
  re_Index :: int
  re_Data :: "'f Block"

record Vote =
  vo_Term :: int
  vo_CandidateID :: string
  vo_Granted :: bool

text \<open>\<open>rf_votes\<close> is the local counter of \<open>runCandidate\<close>, \<open>rf_electing\<close> says whether that function is
  waiting, \<open>rf_received\<close> (ghost) the votes it received; \<open>rf_replicating\<close> are the running calls of
  \<open>replicateEntry\<close> with their success counters.  The maps \<open>nextIndex\<close> and \<open>matchIndex\<close> and the field
  \<open>lastApplied\<close> are never used.\<close>

record 'f Raft =
  rf_id :: string
  rf_state :: string
  rf_currentTerm :: int
  rf_votedFor :: string
  rf_log :: "'f RaftLogEntry list"
  rf_commitIndex :: int
  rf_peers :: "string list"
  rf_chain :: "'f Block list"
  rf_votes :: int
  rf_electing :: bool
  rf_received :: "Vote list"
  rf_replicating :: "('f RaftLogEntry \<times> int) list"

definition newRaftNode :: "string \<Rightarrow> string list \<Rightarrow> 'f Raft" where
  "newRaftNode rid peers = \<lparr>rf_id = rid, rf_state = ''follower'', rf_currentTerm = 0, rf_votedFor = '''', rf_log = [],
     rf_commitIndex = 0, rf_peers = peers, rf_chain = [], rf_votes = 0, rf_electing = False, rf_received = [], rf_replicating = []\<rparr>"

definition followerTimeout :: "'f Raft \<Rightarrow> 'f Raft" where
  "followerTimeout r = (if rf_state r = ''follower'' then r\<lparr>rf_state := ''candidate''\<rparr> else r)"

definition runCandidate :: "'f Raft \<Rightarrow> 'f Raft" where
  "runCandidate r =
     (if rf_state r = ''candidate'' \<and> \<not> rf_electing r
      then r\<lparr>rf_currentTerm := i64 (rf_currentTerm r + 1), rf_votedFor := rf_id r, rf_votes := 1, rf_electing := True, rf_received := []\<rparr>
      else r)"

definition receiveVote :: "Vote \<Rightarrow> 'f Raft \<Rightarrow> 'f Raft" where
  "receiveVote vote r =
     (if \<not> rf_electing r then r
      else (let r' = r\<lparr>rf_received := rf_received r @ [vote]\<rparr>
            in if vo_Granted vote
               then (let n = i64 (rf_votes r + 1); r'' = r'\<lparr>rf_votes := n\<rparr>
                     in if n > int (length (rf_peers r)) div 2
                        then r''\<lparr>rf_state := ''leader'', rf_electing := False\<rparr> else r'')
               else r'))"

definition receiveHeartbeat :: "'f Raft \<Rightarrow> 'f Raft" where
  "receiveHeartbeat r = (if rf_electing r then r\<lparr>rf_state := ''follower'', rf_electing := False\<rparr> else r)"

definition electionTimeout :: "'f Raft \<Rightarrow> 'f Raft" where
  "electionTimeout r = r\<lparr>rf_electing := False\<rparr>"

definition raftPropose :: "'f Block \<Rightarrow> 'f Raft \<Rightarrow> 'f Raft" where
  "raftPropose block r =
     (if rf_state r \<noteq> ''leader'' then r
      else (let entry = \<lparr>re_Term = rf_currentTerm r, re_Index = int (length (rf_log r)), re_Data = block\<rparr>
            in r\<lparr>rf_log := rf_log r @ [entry], rf_replicating := rf_replicating r @ [(entry, 1)]\<rparr>))"

text \<open>A peer's simulated acknowledgement, the ticker case, and the time-out of a replication.\<close>

definition replicaAck :: "nat \<Rightarrow> 'f Raft \<Rightarrow> 'f Raft" where
  "replicaAck k r =
     (if k < length (rf_replicating r)
      then r\<lparr>rf_replicating := (rf_replicating r)[k := (fst (rf_replicating r ! k), i64 (snd (rf_replicating r ! k) + 1))]\<rparr> else r)"

definition dropReplication :: "nat \<Rightarrow> 'f Raft \<Rightarrow> 'f Raft" where
  "dropReplication k r = r\<lparr>rf_replicating := take k (rf_replicating r) @ drop (Suc k) (rf_replicating r)\<rparr>"

definition replicationTick :: "nat \<Rightarrow> 'f Raft \<Rightarrow> 'f Raft" where
  "replicationTick k r =
     (if k < length (rf_replicating r) \<and> snd (rf_replicating r ! k) > int (length (rf_peers r)) div 2
      then (let entry = fst (rf_replicating r ! k)
            in dropReplication k (r\<lparr>rf_commitIndex := re_Index entry, rf_chain := rf_chain r @ [re_Data entry]\<rparr>))
      else r)"

datatype 'f raftev =
    RFollowerTimeout | RElection | RVote Vote | RHeartbeat | RElectionTimeout
  | RPropose "'f Block" | RAck nat | RTick nat | RReplicationTimeout nat

fun raft_step :: "'f Raft \<Rightarrow> 'f raftev \<Rightarrow> 'f Raft" where
  "raft_step r RFollowerTimeout = followerTimeout r"
| "raft_step r RElection = runCandidate r"
| "raft_step r (RVote v) = receiveVote v r"
| "raft_step r RHeartbeat = receiveHeartbeat r"
| "raft_step r RElectionTimeout = electionTimeout r"
| "raft_step r (RPropose b) = raftPropose b r"
| "raft_step r (RAck k) = replicaAck k r"
| "raft_step r (RTick k) = replicationTick k r"
| "raft_step r (RReplicationTimeout k) = dropReplication k r"

definition granted :: "'f Raft \<Rightarrow> int" where
  "granted r = 1 + int (length (filter vo_Granted (rf_received r)))"

definition raft_log_ok :: "'f Raft \<Rightarrow> bool" where
  "raft_log_ok r \<longleftrightarrow> map re_Index (rf_log r) = map int [0..<length (rf_log r)] \<and>
     sorted (map re_Term (rf_log r)) \<and> (\<forall>e \<in> set (rf_log r). re_Term e \<le> rf_currentTerm r) \<and>
     mset (rf_chain r) + image_mset (re_Data \<circ> fst) (mset (rf_replicating r)) \<subseteq># image_mset re_Data (mset (rf_log r))"

definition raft_vote_ok :: "'f Raft \<Rightarrow> bool" where
  "raft_vote_ok r \<longleftrightarrow> (rf_electing r \<longrightarrow> rf_state r = ''candidate'') \<and>
     (rf_electing r \<or> rf_state r = ''leader'' \<longrightarrow> rf_votes r = granted r) \<and>
     (rf_state r = ''leader'' \<longrightarrow> rf_votes r > int (length (rf_peers r)) div 2) \<and> 0 \<le> rf_currentTerm r"

definition raft_ok :: "'f Raft \<Rightarrow> 'f raftev \<Rightarrow> bool" where
  "raft_ok r e \<longleftrightarrow> rf_currentTerm r < 2 ^ 62 \<and> rf_votes r < 2 ^ 62"

lemma mset_without_nth: "k < length xs \<Longrightarrow> mset xs = add_mset (xs ! k) (mset (take k xs @ drop (Suc k) xs))"
  by (metis id_take_nth_drop mset.simps(2) mset_append union_mset_add_mset_right)

lemma mset_without_sub: "mset (take k xs @ drop (Suc k) xs) \<subseteq># mset xs"
proof (cases "k < length xs")
  case True
  then show ?thesis using mset_without_nth [OF True] by (metis mset_subset_eq_add_mset_cancel mset_subset_eq_insertD subset_mset.order_refl subset_mset.less_imp_le)
qed simp

lemma raft_log_drop:
  assumes "raft_log_ok r"
  shows "raft_log_ok (dropReplication k r)"
proof -
  have "image_mset (re_Data \<circ> fst) (mset (take k (rf_replicating r) @ drop (Suc k) (rf_replicating r))) \<subseteq>#
      image_mset (re_Data \<circ> fst) (mset (rf_replicating r))"
    by (intro image_mset_subseteq_mono mset_without_sub)
  then show ?thesis
    using assms unfolding raft_log_ok_def dropReplication_def
    by (simp del: mset_append) (meson subset_mset.add_left_mono subset_mset.order_trans)
qed

lemma raft_log_tick:
  assumes ok: "raft_log_ok r"
  shows "raft_log_ok (replicationTick k r)"
proof (cases "k < length (rf_replicating r) \<and> snd (rf_replicating r ! k) > int (length (rf_peers r)) div 2")
  case True
  define xs where "xs = take k (rf_replicating r) @ drop (Suc k) (rf_replicating r)"
  from True have "mset (rf_replicating r) = add_mset (rf_replicating r ! k) (mset xs)"
    unfolding xs_def by (intro mset_without_nth) simp
  then show ?thesis
    using ok True by (simp add: raft_log_ok_def replicationTick_def dropReplication_def xs_def [symmetric] Let_def)
qed (use ok in \<open>auto simp: replicationTick_def\<close>)

lemma raft_log_ack:
  assumes ok: "raft_log_ok r"
  shows "raft_log_ok (replicaAck k r)"
proof (cases "k < length (rf_replicating r)")
  case True
  let ?xs = "rf_replicating r"
  have "map (re_Data \<circ> fst) (?xs[k := (fst (?xs ! k), v)]) = map (re_Data \<circ> fst) ?xs" for v
    using True by (simp add: map_update list_update_same_conv)
  then have "image_mset (re_Data \<circ> fst) (mset (?xs[k := (fst (?xs ! k), v)])) = image_mset (re_Data \<circ> fst) (mset ?xs)" for v
    by (metis mset_map)
  then show ?thesis using ok True by (simp add: raft_log_ok_def replicaAck_def)
qed (use ok in \<open>simp add: replicaAck_def\<close>)

lemma raft_log_propose:
  assumes ok: "raft_log_ok r"
  shows "raft_log_ok (raftPropose b r)"
  using ok by (auto simp: raft_log_ok_def raftPropose_def Let_def sorted_append)

lemma raft_log_frame:
  assumes "raft_log_ok r" and "rf_log r' = rf_log r" "rf_chain r' = rf_chain r" "rf_replicating r' = rf_replicating r"
    and "rf_currentTerm r \<le> rf_currentTerm r'"
  shows "raft_log_ok r'"
  using assms by (force simp: raft_log_ok_def)

lemma raft_vote_frame:
  assumes "raft_vote_ok r" and "rf_electing r' = rf_electing r" "rf_state r' = rf_state r" "rf_votes r' = rf_votes r"
    "rf_received r' = rf_received r" "rf_peers r' = rf_peers r" "rf_currentTerm r' = rf_currentTerm r"
  shows "raft_vote_ok r'"
  using assms by (auto simp: raft_vote_ok_def granted_def)

lemma raft_vote_receive:
  assumes ok: "raft_vote_ok r" and small: "rf_votes r < 2 ^ 62"
  shows "raft_vote_ok (receiveVote v r)"
proof (cases "rf_electing r")
  case True
  then have g: "rf_votes r = granted r" using ok by (simp add: raft_vote_ok_def)
  then have "in_i64 (rf_votes r + 1)" using small by (intro in_i64I) (auto simp: granted_def)
  then show ?thesis using ok True g by (auto simp: raft_vote_ok_def receiveVote_def granted_def Let_def)
qed (use ok in \<open>simp add: receiveVote_def\<close>)

lemma raft_vote_election:
  assumes ok: "raft_vote_ok r"
  shows "raft_vote_ok (followerTimeout r)" "raft_vote_ok (receiveHeartbeat r)" "raft_vote_ok (electionTimeout r)"
    "in_i64 (rf_currentTerm r + 1) \<Longrightarrow> raft_vote_ok (runCandidate r)"
  using ok by (auto simp: raft_vote_ok_def followerTimeout_def receiveHeartbeat_def electionTimeout_def runCandidate_def granted_def)

lemma raft_vote_replication:
  assumes ok: "raft_vote_ok r"
  shows "raft_vote_ok (raftPropose b r)" "raft_vote_ok (replicaAck k r)" "raft_vote_ok (replicationTick k r)"
    "raft_vote_ok (dropReplication k r)"
  by (rule raft_vote_frame [OF ok]; simp add: raftPropose_def replicaAck_def replicationTick_def dropReplication_def Let_def)+

interpretation raft: guarded_object raft_step "\<lambda>r. raft_log_ok r \<and> raft_vote_ok r" raft_ok
proof
  fix r :: "'f Raft" and e
  assume inv: "raft_log_ok r \<and> raft_vote_ok r" and ok: "raft_ok r e"
  then have l: "raft_log_ok r" and v: "raft_vote_ok r" by simp_all
  have t: "in_i64 (rf_currentTerm r + 1)"
    using v ok by (intro in_i64I) (auto simp: raft_vote_ok_def raft_ok_def)
  have "raft_log_ok (raft_step r e)"
    using t l by (cases e)
      (auto simp: raft_log_drop raft_log_tick raft_log_ack raft_log_propose followerTimeout_def runCandidate_def
        receiveVote_def receiveHeartbeat_def electionTimeout_def Let_def intro!: raft_log_frame [OF l])
  moreover have "raft_vote_ok (raft_step r e)"
    using raft_vote_receive [OF v] ok t v
    by (cases e) (simp_all add: raft_ok_def raft_vote_election raft_vote_replication)
  ultimately show "raft_log_ok (raft_step r e) \<and> raft_vote_ok (raft_step r e)" by simp
qed

lemma raft_step_bounds:
  assumes "raft_vote_ok r" and "rf_currentTerm r \<le> b" "rf_votes r \<le> b + 1" "0 \<le> b" "b < 2 ^ 62 - 1"
  shows "rf_currentTerm (raft_step r e) \<le> b + 1 \<and> rf_votes (raft_step r e) \<le> b + 2"
proof -
  have t: "in_i64 (rf_currentTerm r + 1)" using assms by (intro in_i64I) (auto simp: raft_vote_ok_def)
  have v: "in_i64 (rf_votes r + 1)" if "rf_electing r"
    using assms that by (intro in_i64I) (auto simp: raft_vote_ok_def granted_def)
  show ?thesis
    using assms(2-4) t v by (cases e)
      (auto simp: followerTimeout_def runCandidate_def receiveVote_def receiveHeartbeat_def electionTimeout_def
        raftPropose_def replicaAck_def replicationTick_def dropReplication_def Let_def)
qed

lemma raft_admissible:
  "raft_log_ok r \<and> raft_vote_ok r \<Longrightarrow> rf_currentTerm r \<le> b \<Longrightarrow> rf_votes r \<le> b + 1 \<Longrightarrow> 0 \<le> b \<Longrightarrow>
     b + int (length es) < 2 ^ 62 - 1 \<Longrightarrow> admissible raft_step raft_ok r es"
proof (induction es arbitrary: r b)
  case (Cons e es)
  then have ok: "raft_ok r e" by (simp add: raft_ok_def)
  have "rf_currentTerm (raft_step r e) \<le> b + 1" "rf_votes (raft_step r e) \<le> (b + 1) + 1"
    using raft_step_bounds [of r b e] Cons.prems by auto
  then show ?case
    using ok Cons.IH [of "raft_step r e" "b + 1"] raft.guarded_step [OF Cons.prems(1) ok] Cons.prems(4,5) by simp
qed simp

section \<open>Property of the Raft node\<close>


definition demo_raft :: "int raftev list" where
  "demo_raft = [RFollowerTimeout, RElection, RVote \<lparr>vo_Term = 1, vo_CandidateID = ''r1'', vo_Granted = True\<rparr>,
     RVote \<lparr>vo_Term = 1, vo_CandidateID = ''r1'', vo_Granted = True\<rparr>, RPropose (demo_block ''b1''), RPropose (demo_block ''b2''),
     RAck 1, RAck 1, RTick 1, RAck 0, RAck 0, RTick 0]"


text \<open>Replications commit in the order in which they reach a majority: the demonstration above ends with
  the second block before the first in the chain and with the commit index back at 0.\<close>

theorem raft_commits_out_of_order:
  "rf_chain (run raft_step (newRaftNode ''r1'' [''r1'', ''r2'', ''r3'', ''r4'', ''r5'']) demo_raft) = [demo_block ''b2'', demo_block ''b1''] \<and>
   rf_commitIndex (run raft_step (newRaftNode ''r1'' [''r1'', ''r2'', ''r3'', ''r4'', ''r5'']) demo_raft) = 0"
  by (rule conjI; code_simp)

text \<open>Votes are counted whatever their term: two votes for term 1 that arrive after the election of term 2
  has started make the node leader of term 2.\<close>

theorem raft_counts_stale_votes:
  "\<exists>r. r = run raft_step (newRaftNode ''r1'' [''r1'', ''r2'', ''r3'', ''r4''])
     ([RFollowerTimeout, RElection, RElectionTimeout, RElection] @
       replicate 2 (RVote \<lparr>vo_Term = 1, vo_CandidateID = ''r1'', vo_Granted = True\<rparr>)) \<and>
     rf_state (r :: int Raft) = ''leader'' \<and> rf_currentTerm r = 2 \<and> map vo_Term (rf_received r) = [1, 1]"
  unfolding simp_thms by (intro conjI; code_simp)

end
