(* ===== verification/ConsistentHashing.thy ===== *)
theory ConsistentHashing
  imports GoPrelude
begin

text \<open>
  The consistent-hash ring of the distributed column store
  (\<open>src/solutions/solution23_columnar_storage.go\<close>, \<open>ConsistentHash\<close>).  Hashes are 32-bit words, so the
  multiplication by 31 wraps as in the source.  Go's \<open>range\<close> over a string yields code points; for keys of
  ASCII characters these are the characters of the model.  The ring is a Go map that is ranged over, hence
  an association list.  Shown: the binary search is the successor on the ring; \<open>GetNodes\<close> returns the first
  distinct nodes clockwise; and adding a node moves keys only to the new node.
\<close>

record ConsistentHash =
  ch_ring :: "(u32 \<times> string) list"
  ch_sortedKeys :: "u32 list"
  ch_replicas :: nat

definition newConsistentHash :: "nat \<Rightarrow> ConsistentHash" where
  "newConsistentHash replicas = \<lparr>ch_ring = [], ch_sortedKeys = [], ch_replicas = replicas\<rparr>"

definition hashKey :: "string \<Rightarrow> u32" where
  "hashKey key = foldl (\<lambda>h c. h * 31 + of_nat (of_char c)) 0 key"

definition updateSortedKeys :: "ConsistentHash \<Rightarrow> ConsistentHash" where
  "updateSortedKeys ch = ch\<lparr>ch_sortedKeys := sort (map fst (ch_ring ch))\<rparr>"

definition addNode :: "string \<Rightarrow> ConsistentHash \<Rightarrow> ConsistentHash" where
  "addNode nodeID ch =
     updateSortedKeys (ch\<lparr>ch_ring :=
       fold (\<lambda>i ring. AList.update (hashKey (nodeID @ ''-'' @ itoa (int i))) nodeID ring) [0..<ch_replicas ch] (ch_ring ch)\<rparr>)"

text \<open>The binary search; it is called with a non-empty list only.\<close>

function searchLoop :: "u32 list \<Rightarrow> u32 \<Rightarrow> int \<Rightarrow> int \<Rightarrow> int" where
  "searchLoop sortedKeys hash left right =
     (if left \<le> right then
        (let mid = (left + right) div 2
         in if sortedKeys ! nat mid = hash then mid
            else if sortedKeys ! nat mid < hash then searchLoop sortedKeys hash (mid + 1) right
            else searchLoop sortedKeys hash left (mid - 1))
      else left mod int (length sortedKeys))"
  by pat_completeness auto
termination
  by (relation "measure (\<lambda>(ks, h, left, right). nat (right - left + 1))") auto

declare searchLoop.simps [simp del]

definition search :: "ConsistentHash \<Rightarrow> u32 \<Rightarrow> int" where
  "search ch hash = searchLoop (ch_sortedKeys ch) hash 0 (int (length (ch_sortedKeys ch)) - 1)"

text \<open>The loop of \<open>GetNodes\<close> from position \<open>i\<close> on.\<close>

definition nodeAt :: "ConsistentHash \<Rightarrow> nat \<Rightarrow> string" where
  "nodeAt ch keyIdx = (case map_of (ch_ring ch) (ch_sortedKeys ch ! keyIdx) of None \<Rightarrow> '''' | Some nodeID \<Rightarrow> nodeID)"

function walkRing :: "ConsistentHash \<Rightarrow> nat \<Rightarrow> nat \<Rightarrow> nat \<Rightarrow> string list \<Rightarrow> string set \<Rightarrow> string list" where
  "walkRing ch idx n i nodes seen =
     (if i < length (ch_sortedKeys ch) \<and> length nodes < n then
        (let nodeID = nodeAt ch ((idx + i) mod length (ch_sortedKeys ch))
         in if nodeID \<notin> seen then walkRing ch idx n (Suc i) (nodes @ [nodeID]) (insert nodeID seen)
            else walkRing ch idx n (Suc i) nodes seen)
      else nodes)"
  by pat_completeness auto
termination
  by (relation "measure (\<lambda>(ch, idx, n, i, nodes, seen). length (ch_sortedKeys ch) - i)") auto

declare walkRing.simps [simp del]

definition getNodes :: "ConsistentHash \<Rightarrow> string \<Rightarrow> nat \<Rightarrow> string list" where
  "getNodes ch key n =
     (if ch_sortedKeys ch = [] then [] else walkRing ch (nat (search ch (hashKey key))) n 0 [] {})"

section \<open>Binary search\<close>

text \<open>The reference: the position of the first key not below the hash, or 0 past the last.\<close>

definition successor :: "u32 list \<Rightarrow> u32 \<Rightarrow> nat" where
  "successor ks h = length (takeWhile (\<lambda>k. k < h) ks) mod length ks"

lemma takeWhile_prefix:
  fixes ks :: "u32 list"
  assumes "m \<le> length ks" and "\<forall>i < m. ks ! i < h" and "\<forall>i. m \<le> i \<and> i < length ks \<longrightarrow> h \<le> ks ! i"
  shows "length (takeWhile (\<lambda>k. k < h) ks) = m"
proof -
  have "takeWhile (\<lambda>k. k < h) ks = take m ks"
  proof (rule takeWhile_eq_take_P_nth)
    fix i assume "i < m" "i < length ks"
    then show "ks ! i < h" using assms(2) by blast
  next
    assume "m < length ks"
    then show "\<not> ks ! m < h" using assms(3) by (simp add: not_less)
  qed
  then show ?thesis using assms(1) by simp
qed

lemma searchLoop_successor:
  assumes "sorted ks" and "distinct ks" and "ks \<noteq> []"
    and "0 \<le> left" "right < int (length ks)" "left \<le> right + 1"
    and "\<forall>i < nat left. ks ! i < h" and "\<forall>i. right < int i \<and> i < length ks \<longrightarrow> h < ks ! i"
  shows "searchLoop ks h left right = int (successor ks h)"
  using assms
proof (induction ks h left right rule: searchLoop.induct)
  case (1 ks h left right)
  show ?case
  proof (cases "left \<le> right")
    case False
    then have m: "nat left \<le> length ks" "right = left - 1" using "1.prems"(4-6) by auto
    have "length (takeWhile (\<lambda>k. k < h) ks) = nat left"
      using "1.prems"(4,7,8) m by (intro takeWhile_prefix) (auto intro: less_imp_le)
    then show ?thesis using False "1.prems"(4)
      by (simp add: searchLoop.simps [of ks h left right] successor_def zmod_int)
  next
    case True
    define mid where "mid = (left + right) div 2"
    have mid: "left \<le> mid" "mid \<le> right" "0 \<le> mid" "nat mid < length ks" using True "1.prems"(4,5) by (auto simp: mid_def)
    have lt: "i < j \<Longrightarrow> j < length ks \<Longrightarrow> ks ! i < ks ! j" for i j
      using "1.prems"(1,2) sorted_wrt_nth_less [of "(<)" ks i j] by (simp add: strict_sorted_iff)
    consider "ks ! nat mid = h" | "ks ! nat mid < h" | "h < ks ! nat mid" by (meson neqE)
    then show ?thesis
    proof cases
      case 1
      have "length (takeWhile (\<lambda>k. k < h) ks) = nat mid"
        using mid(4) lt 1 by (intro takeWhile_prefix) (auto simp: order_le_less)
      then show ?thesis using True 1 mid by (simp add: searchLoop.simps [of ks h left right] successor_def mid_def [symmetric])
    next
      case 2
      have low: "\<forall>i < nat (mid + 1). ks ! i < h"
        using lt mid 2 by (metis (no_types, lifting) Suc_nat_eq_nat_zadd1 add.commute dual_order.strict_trans less_antisym)
      have "searchLoop ks h (mid + 1) right = int (successor ks h)"
        using "1.IH"(1) [OF True mid_def less_imp_neq [OF 2] 2] "1.prems" mid low by auto
      then show ?thesis using True 2 less_imp_neq [OF 2] by (simp add: searchLoop.simps [of ks h left right] mid_def [symmetric])
    next
      case 3
      have high: "\<forall>i. mid - 1 < int i \<and> i < length ks \<longrightarrow> h < ks ! i"
      proof (intro allI impI)
        fix i assume i: "mid - 1 < int i \<and> i < length ks"
        show "h < ks ! i"
        proof (cases "i = nat mid")
          case False
          then have "nat mid < i" using i mid(3) by linarith
          then show ?thesis using lt [of "nat mid" i] i 3 by (meson order.strict_trans)
        qed (use 3 in simp)
      qed
      have "searchLoop ks h left (mid - 1) = int (successor ks h)"
        using "1.IH"(2) [OF True mid_def] less_imp_neq [OF 3] less_not_sym [OF 3] "1.prems" mid high by auto
      then show ?thesis using True 3 less_imp_neq [OF 3] less_not_sym [OF 3] by (simp add: searchLoop.simps [of ks h left right] mid_def [symmetric])
    qed
  qed
qed

text \<open>On the keys themselves: the least key not below the hash, or the least key of all.\<close>

lemma successor_less: "ks \<noteq> [] \<Longrightarrow> successor ks h < length ks"
  by (simp add: successor_def)

lemma successor_Min:
  assumes "sorted ks" and "ks \<noteq> []"
  shows "ks ! successor ks h = (if \<exists>k \<in> set ks. h \<le> k then Min {k \<in> set ks. h \<le> k} else Min (set ks))"
proof -
  define m where "m = length (takeWhile (\<lambda>k. k < h) ks)"
  have low: "ks ! i < h" if "i < m" for i
    using that nth_mem [of i "takeWhile (\<lambda>k. k < h) ks"] by (auto simp: m_def takeWhile_nth dest: set_takeWhileD)
  have Min0: "ks ! 0 = Min (set ks)"
    using assms by (cases ks) (auto intro: Min_eqI [symmetric])
  show ?thesis
  proof (cases "m < length ks")
    case True
    have hm: "h \<le> ks ! m" using True nth_length_takeWhile [of "\<lambda>k. k < h" ks] by (simp add: m_def not_less)
    have "ks ! m \<le> k" if k: "k \<in> set ks" "h \<le> k" for k
    proof -
      obtain j where j: "j < length ks" "k = ks ! j" using k(1) by (auto simp: in_set_conv_nth)
      then have "m \<le> j" using k(2) low [of j] by (meson leD not_less)
      then show ?thesis using j assms(1) by (simp add: sorted_nth_mono)
    qed
    then have "Min {k \<in> set ks. h \<le> k} = ks ! m"
      using True hm by (intro Min_eqI) auto
    then show ?thesis using True hm by (auto simp: successor_def m_def [symmetric])
  next
    case False
    then have "m = length ks" using length_takeWhile_le [of "\<lambda>k. k < h" ks] by (simp add: m_def)
    then have "\<not> (\<exists>k \<in> set ks. h \<le> k)" using low by (metis in_set_conv_nth leD)
    then show ?thesis using \<open>m = length ks\<close> Min0 assms(2) by (auto simp: successor_def m_def [symmetric])
  qed
qed

text \<open>In a larger set of keys the successor is one of the additional keys or stays the same.\<close>

lemma successor_superset:
  assumes "sorted ks" "sorted ks'" "ks \<noteq> []" "set ks \<subseteq> set ks'" and mem: "ks' ! successor ks' h \<in> set ks"
  shows "ks' ! successor ks' h = ks ! successor ks h"
proof -
  have ne': "ks' \<noteq> []" using assms(3,4) by auto
  note S' = successor_Min [OF assms(2) ne', of h] and S = successor_Min [OF assms(1,3), of h]
  show ?thesis
  proof (cases "\<exists>k \<in> set ks'. h \<le> k")
    case True
    then have e: "ks' ! successor ks' h = Min {k \<in> set ks'. h \<le> k}" using S' by simp
    then have ge: "h \<le> ks' ! successor ks' h" using Min_in [of "{k \<in> set ks'. h \<le> k}"] True by fastforce
    have "Min {k \<in> set ks. h \<le> k} = ks' ! successor ks' h"
      using mem ge e assms(4) by (intro Min_eqI) auto
    then show ?thesis using S mem ge by auto
  next
    case False
    then have "\<not> (\<exists>k \<in> set ks. h \<le> k)" using assms(4) by auto
    moreover have "Min (set ks) = ks' ! successor ks' h"
      using mem S' False assms(4) by (intro Min_eqI) auto
    ultimately show ?thesis using S by simp
  qed
qed

section \<open>The ring invariant\<close>

definition ring_ok :: "ConsistentHash \<Rightarrow> bool" where
  "ring_ok ch \<longleftrightarrow> distinct (map fst (ch_ring ch)) \<and> ch_sortedKeys ch = sort (map fst (ch_ring ch))"

lemma ring_ok_new [simp]: "ring_ok (newConsistentHash r)"
  by (simp add: ring_ok_def newConsistentHash_def)

lemma fold_update_distinct:
  "distinct (map fst ring) \<Longrightarrow> distinct (map fst (fold (\<lambda>i. AList.update (f i) x) is ring))"
  by (induction "is" arbitrary: ring) (auto intro: distinct_update)

lemma map_of_ring_update:
  "map_of (fold (\<lambda>i. AList.update (f i) x) is ring) k = (if k \<in> f ` set is then Some x else map_of ring k)"
  by (induction "is" arbitrary: ring) (auto simp: update_conv')

lemma ring_ok_addNode: "ring_ok ch \<Longrightarrow> ring_ok (addNode nodeID ch)"
  by (simp add: ring_ok_def addNode_def updateSortedKeys_def fold_update_distinct)

lemma ring_ok_fold: "ring_ok ch \<Longrightarrow> ring_ok (fold addNode ids ch)"
  by (induction ids arbitrary: ch) (auto intro: ring_ok_addNode)

lemma ring_ok_keys:
  assumes "ring_ok ch"
  shows "sorted (ch_sortedKeys ch)" "distinct (ch_sortedKeys ch)" "set (ch_sortedKeys ch) = dom (map_of (ch_ring ch))"
  using assms by (auto simp: ring_ok_def dom_map_of_conv_image_fst)

lemma search_successor:
  assumes "ring_ok ch" and "ch_sortedKeys ch \<noteq> []"
  shows "nat (search ch h) = successor (ch_sortedKeys ch) h"
proof -
  have "searchLoop (ch_sortedKeys ch) h 0 (int (length (ch_sortedKeys ch)) - 1) = int (successor (ch_sortedKeys ch) h)"
    using ring_ok_keys [OF assms(1)] assms(2) by (intro searchLoop_successor) auto
  then show ?thesis by (simp add: search_def)
qed

section \<open>Replica lists\<close>

text \<open>The owners met clockwise from the successor of a hash.\<close>

definition clockwise :: "ConsistentHash \<Rightarrow> u32 \<Rightarrow> string list" where
  "clockwise ch h =
     map (\<lambda>i. nodeAt ch ((successor (ch_sortedKeys ch) h + i) mod length (ch_sortedKeys ch))) [0..<length (ch_sortedKeys ch)]"

lemma walkRing_take:
  assumes "xs = map (\<lambda>i. nodeAt ch ((idx + i) mod length (ch_sortedKeys ch))) [i..<length (ch_sortedKeys ch)]"
    and "length nodes \<le> n"
  shows "walkRing ch idx n i nodes (set nodes) = take n (nodes @ filter (\<lambda>y. y \<notin> set nodes) (firsts xs))"
  using assms
proof (induction xs arbitrary: i nodes)
  case Nil
  then have "\<not> i < length (ch_sortedKeys ch)" by auto
  then show ?case using Nil.prems(2) by (subst walkRing.simps) simp
next
  case (Cons x xs)
  have i: "i < length (ch_sortedKeys ch)" using Cons.prems(1) by (cases "i < length (ch_sortedKeys ch)") auto
  then have x: "x = nodeAt ch ((idx + i) mod length (ch_sortedKeys ch))"
    and xs: "xs = map (\<lambda>i. nodeAt ch ((idx + i) mod length (ch_sortedKeys ch))) [Suc i..<length (ch_sortedKeys ch)]"
    using Cons.prems(1) by (simp_all add: upt_conv_Cons)
  show ?case
  proof (cases "length nodes < n")
    case True
    show ?thesis
    proof (cases "x \<in> set nodes")
      case in_nodes: True
      have "filter (\<lambda>y. y \<notin> set nodes) (firsts (x # xs)) = filter (\<lambda>y. y \<notin> set nodes) (firsts xs)"
        using in_nodes by (auto intro: filter_cong)
      then show ?thesis
        using Cons.IH [OF xs Cons.prems(2)] i True in_nodes by (simp add: walkRing.simps [of ch idx n i] x [symmetric])
    next
      case False
      have "filter (\<lambda>y. y \<notin> set nodes) (firsts (x # xs)) = x # filter (\<lambda>y. y \<notin> set (nodes @ [x])) (firsts xs)"
        using False by (auto intro: filter_cong)
      then show ?thesis
        using Cons.IH [OF xs, of "nodes @ [x]"] i True False by (simp add: walkRing.simps [of ch idx n i] x [symmetric])
    qed
  next
    case False
    then show ?thesis using Cons.prems(2) by (simp add: walkRing.simps)
  qed
qed

lemma getNodes_clockwise:
  assumes "ring_ok ch"
  shows "getNodes ch key n = take n (firsts (clockwise ch (hashKey key)))"
proof (cases "ch_sortedKeys ch = []")
  case False
  then show ?thesis
    using walkRing_take [OF refl, of "[]" n ch "successor (ch_sortedKeys ch) (hashKey key)" 0] search_successor [OF assms False]
    by (simp add: getNodes_def clockwise_def)
qed (simp add: getNodes_def clockwise_def)

text \<open>Walking all positions from any start meets every owner.\<close>

lemma rotate_positions:
  assumes "s < L"
  shows "(\<lambda>i. (s + i) mod L) ` {0..<L} = {0..<(L::nat)}"
proof
  show "{0..<L} \<subseteq> (\<lambda>i. (s + i) mod L) ` {0..<L}"
  proof
    fix j assume "j \<in> {0..<L}"
    then have "(s + (j + (L - s)) mod L) mod L = j" and "(j + (L - s)) mod L \<in> {0..<L}"
      using assms by (auto simp: mod_simps)
    then show "j \<in> (\<lambda>i. (s + i) mod L) ` {0..<L}" by (metis (no_types, lifting) imageI)
  qed
qed (use assms in auto)

lemma nodeAt_owner: "ring_ok ch \<Longrightarrow> i < length (ch_sortedKeys ch) \<Longrightarrow> Some (nodeAt ch i) = map_of (ch_ring ch) (ch_sortedKeys ch ! i)"
  using nth_mem [of i "ch_sortedKeys ch"] by (auto simp: nodeAt_def ring_ok_keys(3))

lemma clockwise_owners:
  assumes "ring_ok ch"
  shows "set (clockwise ch h) = ran (map_of (ch_ring ch))"
proof -
  define L where "L = length (ch_sortedKeys ch)"
  have "set (clockwise ch h) = nodeAt ch ` ((\<lambda>i. (successor (ch_sortedKeys ch) h + i) mod L) ` {0..<L})"
    by (simp add: clockwise_def L_def image_image)
  also have "\<dots> = nodeAt ch ` {0..<L}"
  proof (cases "ch_sortedKeys ch = []")
    case False
    then show ?thesis using rotate_positions [of "successor (ch_sortedKeys ch) h" L] successor_less [OF False, of h] by (simp only: L_def)
  qed (simp add: L_def)
  finally have cw: "set (clockwise ch h) = nodeAt ch ` {0..<L}" .
  have "Some ` nodeAt ch ` {0..<L} = (\<lambda>i. map_of (ch_ring ch) (ch_sortedKeys ch ! i)) ` {0..<L}"
    unfolding image_image by (rule image_cong) (simp_all add: nodeAt_owner [OF assms] L_def)
  also have "\<dots> = map_of (ch_ring ch) ` set (ch_sortedKeys ch)"
    unfolding set_conv_nth L_def by (force simp: setcompr_eq_image)
  also have "\<dots> = Some ` ran (map_of (ch_ring ch))"
    using ring_ok_keys(3) [OF assms] by (force simp: ran_def image_iff)
  finally show ?thesis using cw by (simp add: inj_image_eq_iff)
qed

text \<open>The first entry belongs to the successor's owner.\<close>

lemma getNodes_one:
  assumes "ring_ok ch" and "ch_sortedKeys ch \<noteq> []"
  shows "getNodes ch key 1 = [nodeAt ch (successor (ch_sortedKeys ch) (hashKey key))]"
proof -
  obtain k ks where k: "ch_sortedKeys ch = k # ks" using assms(2) by (cases "ch_sortedKeys ch") auto
  have "[0..<length (ch_sortedKeys ch)] = 0 # [1..<length (ch_sortedKeys ch)]" using k upt_conv_Cons [of 0 "Suc (length ks)"] by (simp del: upt_Suc)
  then show ?thesis
    using successor_less [OF assms(2), of "hashKey key"] by (simp add: getNodes_clockwise [OF assms(1)] clockwise_def)
qed

text \<open>C15. Replica placement.  On a ring built by any sequence of \<open>AddNode\<close> calls, \<open>GetNodes key n\<close> returns
  the first \<open>n\<close> distinct owners met clockwise from the first ring position that is not below the hash of
  the key, without repetition, and as many as asked for as long as the ring has that many owners.\<close>

theorem get_nodes_clockwise:
  "let ch = fold addNode ids (newConsistentHash r) in
     getNodes ch key n = take n (firsts (clockwise ch (hashKey key))) \<and>
     distinct (getNodes ch key n) \<and>
     set (getNodes ch key n) \<subseteq> ran (map_of (ch_ring ch)) \<and>
     length (getNodes ch key n) = min n (card (ran (map_of (ch_ring ch))))"
proof -
  define ch where "ch = fold addNode ids (newConsistentHash r)"
  have ok: "ring_ok ch" by (simp add: ch_def ring_ok_fold)
  have "length (firsts (clockwise ch (hashKey key))) = card (ran (map_of (ch_ring ch)))"
    using distinct_card [OF distinct_firsts, of "clockwise ch (hashKey key)"] by (simp add: clockwise_owners [OF ok])
  then show ?thesis
    using set_take_subset [of n "firsts (clockwise ch (hashKey key))"]
    by (simp add: Let_def ch_def [symmetric] getNodes_clockwise [OF ok] clockwise_owners [OF ok] min.commute)
qed

text \<open>The keys and owners after a node was added.\<close>

lemma addNode_ring:
  "map_of (ch_ring (addNode x ch)) k =
     (if k \<in> (\<lambda>i. hashKey (x @ ''-'' @ itoa (int i))) ` {0..<ch_replicas ch} then Some x else map_of (ch_ring ch) k)"
  by (simp add: addNode_def updateSortedKeys_def map_of_ring_update)

lemma replicas_fold [simp]: "ch_replicas (fold addNode ids ch) = ch_replicas ch"
  by (induction ids arbitrary: ch) (simp_all add: addNode_def updateSortedKeys_def)

lemma fold_addNode_nonempty:
  assumes "ids \<noteq> []" and "0 < r"
  shows "ch_sortedKeys (fold addNode ids (newConsistentHash r)) \<noteq> []"
proof -
  define ch where "ch = fold addNode (butlast ids) (newConsistentHash r)"
  have eq: "fold addNode ids (newConsistentHash r) = addNode (last ids) ch"
    using assms(1) fold_append [of addNode "butlast ids" "[last ids]"] by (simp add: ch_def)
  have ok: "ring_ok (addNode (last ids) ch)" by (simp add: ch_def ring_ok_fold ring_ok_addNode)
  have "ch_replicas ch = r" by (simp add: ch_def newConsistentHash_def)
  then have "map_of (ch_ring (addNode (last ids) ch)) (hashKey (last ids @ ''-'' @ itoa (int 0))) = Some (last ids)"
    using assms(2) unfolding addNode_ring by (subst if_P) (auto intro: image_eqI [where x = 0])
  then show ?thesis using ring_ok_keys(3) [OF ok] eq by (metis domI empty_iff list.set(1))
qed

text \<open>Minimal disruption.  Adding a node to any ring moves a key to the new node or leaves it with the
  node that owned it; no key moves between old nodes.\<close>

theorem add_node_minimal_disruption:
  assumes "ids \<noteq> []" and "0 < r"
  shows "let ch = fold addNode ids (newConsistentHash r) in
           getNodes (addNode x ch) key 1 = [x] \<or> getNodes (addNode x ch) key 1 = getNodes ch key 1"
proof -
  define ch where "ch = fold addNode ids (newConsistentHash r)"
  define ch' where "ch' = addNode x ch"
  define h where "h = hashKey key"
  have ok: "ring_ok ch" "ring_ok ch'" by (simp_all add: ch_def ch'_def ring_ok_fold ring_ok_addNode)
  have ne: "ch_sortedKeys ch \<noteq> []" using fold_addNode_nonempty [OF assms] by (simp add: ch_def)
  have sub: "set (ch_sortedKeys ch) \<subseteq> set (ch_sortedKeys ch')"
    using ring_ok_keys(3) [OF ok(1)] ring_ok_keys(3) [OF ok(2)] by (auto simp: ch'_def addNode_ring domIff)
  then have ne': "ch_sortedKeys ch' \<noteq> []" using ne by auto
  define k where "k = ch_sortedKeys ch' ! successor (ch_sortedKeys ch') h"
  have k: "Some (nodeAt ch' (successor (ch_sortedKeys ch') h)) = map_of (ch_ring ch') k"
    using nodeAt_owner [OF ok(2) successor_less [OF ne']] by (simp add: k_def)
  show ?thesis
  proof (cases "map_of (ch_ring ch') k = Some x")
    case True
    then show ?thesis
      using getNodes_one [OF ok(2) ne', of key] k by (simp add: ch_def [symmetric] ch'_def [symmetric] h_def Let_def)
  next
    case False
    then have old: "map_of (ch_ring ch') k = map_of (ch_ring ch) k" by (auto simp: ch'_def addNode_ring split: if_splits)
    then have "k \<in> set (ch_sortedKeys ch)" using k ring_ok_keys(3) [OF ok(1)] by (metis domIff option.distinct(1))
    then have "k = ch_sortedKeys ch ! successor (ch_sortedKeys ch) h"
      unfolding k_def using ok sub ne by (intro successor_superset ring_ok_keys(1))
    then have "nodeAt ch' (successor (ch_sortedKeys ch') h) = nodeAt ch (successor (ch_sortedKeys ch) h)"
      using k old nodeAt_owner [OF ok(1) successor_less [OF ne], of h] by (metis option.inject)
    then show ?thesis
      using getNodes_one [OF ok(2) ne', of key] getNodes_one [OF ok(1) ne, of key]
      by (simp add: ch_def [symmetric] ch'_def [symmetric] h_def Let_def)
  qed
qed

theorem add_node_minimal_disruption_witness:
  "let ch = fold addNode [''node-0'', ''node-1''] (newConsistentHash 3) in
     getNodes ch ''k'' 1 = [''node-0''] \<and> getNodes ch ''k'' 2 = [''node-0'', ''node-1''] \<and>
     (getNodes (addNode ''node-2'' ch) ''k'' 1 = [''node-2''] \<or>
      getNodes (addNode ''node-2'' ch) ''k'' 1 = getNodes ch ''k'' 1)"
  using add_node_minimal_disruption [of "[''node-0'', ''node-1'']" 3 "''node-2''" "''k''"]
  by (simp add: Let_def) code_simp

end
