(* ===== verification/ColumnarStorage.thy ===== *)
theory ColumnarStorage
  imports GoPrelude "HOL-Library.Monad_Syntax"
begin

text \<open>
  The column-oriented storage of \<open>src/solutions/solution23_columnar_storage.go\<close> (\<open>ColumnarStorage\<close>): columns,
  \<open>Insert\<close>, \<open>Query\<close>, row groups and the three encodings.  A Go panic is the result \<open>None\<close>.  \<open>Insert\<close> holds the
  read lock of the store and the lock of one column at a time; \<open>insertColumn\<close> is the body of one iteration,
  and the interleaving of two inserts is modelled with it.  Shown: rows of integers that cover all columns
  are returned by \<open>Query\<close> in insertion order, with the minima and maxima kept; the dictionary encoding is
  invertible given the dictionary.  Statistics that no code sets (null and distinct counts, sizes) are left
  out.
\<close>

unbundle bit_operations_syntax

section \<open>Values and columns\<close>

text \<open>The dynamic values of an \<open>interface{}\<close>: nil, an int, a string, or a float64 by its bit pattern (not a
  NaN or a negative zero, for which Go's equality is not equality of the bits).\<close>

datatype GoValue = NilV | IntV int | StringV string | Float64V u64

text \<open>The type assertion \<open>v.(int)\<close> panics for every other dynamic type.\<close>

fun asInt :: "GoValue \<Rightarrow> int option" where
  "asInt (IntV i) = Some i"
| "asInt _ = None"

datatype EncodingType = PlainEncoding | DictionaryEncoding | RunLengthEncoding | DeltaEncoding

record ColumnStats =
  st_Min :: GoValue
  st_Max :: GoValue

record Column =
  col_Name :: string
  col_DataType :: string
  col_Values :: "GoValue list"
  col_Encoding :: EncodingType
  col_Stats :: ColumnStats

type_synonym byte = "8 word"

record ColumnChunk =
  ck_Data :: "byte list"
  ck_Encoding :: EncodingType
  ck_Compressed :: bool
  ck_Stats :: ColumnStats

record RowGroup =
  rg_ID :: nat
  rg_StartRow :: int
  rg_EndRow :: int
  rg_Columns :: "string \<rightharpoonup> ColumnChunk"
  rg_NumRows :: int
  rg_CreatedAt :: gotime

type_synonym row = "(string \<times> GoValue) list"

record WALEntry =
  wal_Timestamp :: gotime
  wal_Operation :: string
  wal_Data :: row

record ColumnarStorage =
  cs_columns :: "string \<rightharpoonup> Column"
  cs_rowGroups :: "RowGroup list"
  cs_wal :: "WALEntry list"
  cs_TotalRows :: int
  cs_TotalColumns :: int
  cs_trigger :: bool

definition newColumnarStorage :: ColumnarStorage where
  "newColumnarStorage = \<lparr>cs_columns = Map.empty, cs_rowGroups = [], cs_wal = [], cs_TotalRows = 0, cs_TotalColumns = 0, cs_trigger = False\<rparr>"

definition createColumn :: "string \<Rightarrow> string \<Rightarrow> ColumnarStorage \<Rightarrow> ColumnarStorage" where
  "createColumn name dataType cs =
     cs\<lparr>cs_columns := (cs_columns cs)(name \<mapsto>
          \<lparr>col_Name = name, col_DataType = dataType, col_Values = [], col_Encoding = PlainEncoding,
           col_Stats = \<lparr>st_Min = NilV, st_Max = NilV\<rparr>\<rparr>),
        cs_TotalColumns := i64 (cs_TotalColumns cs + 1)\<rparr>"

section \<open>Insert and Query\<close>

text \<open>The test \<open>old == nil || value.(int) < old.(int)\<close> and its mirror image; \<open>||\<close> does not evaluate the
  assertions when the statistic is still nil.\<close>

definition statTest :: "(int \<Rightarrow> int \<Rightarrow> bool) \<Rightarrow> GoValue \<Rightarrow> GoValue \<Rightarrow> bool option" where
  "statTest rel old v = (if old = NilV then Some True else do { x \<leftarrow> asInt v; y \<leftarrow> asInt old; Some (rel x y) })"

definition updateColumnStats :: "Column \<Rightarrow> GoValue \<Rightarrow> Column option" where
  "updateColumnStats col v = do {
     newMin \<leftarrow> statTest (<) (st_Min (col_Stats col)) v;
     let col = (if newMin then col\<lparr>col_Stats := (col_Stats col)\<lparr>st_Min := v\<rparr>\<rparr> else col);
     newMax \<leftarrow> statTest (>) (st_Max (col_Stats col)) v;
     Some (if newMax then col\<lparr>col_Stats := (col_Stats col)\<lparr>st_Max := v\<rparr>\<rparr> else col)
   }"

definition insertColumn :: "string \<times> GoValue \<Rightarrow> ColumnarStorage \<Rightarrow> ColumnarStorage option" where
  "insertColumn = (\<lambda>(colName, v) cs.
     case cs_columns cs colName of
       None \<Rightarrow> Some cs
     | Some col \<Rightarrow> do {
         col' \<leftarrow> updateColumnStats (col\<lparr>col_Values := col_Values col @ [v]\<rparr>) v;
         Some (cs\<lparr>cs_columns := (cs_columns cs)(colName \<mapsto> col')\<rparr>)
       })"

text \<open>The row is a Go map that is ranged over; its entries are given in the order of the iteration.\<close>

fun insertColumns :: "row \<Rightarrow> ColumnarStorage \<Rightarrow> ColumnarStorage option" where
  "insertColumns [] cs = Some cs"
| "insertColumns (e # es) cs = do { cs' \<leftarrow> insertColumn e cs; insertColumns es cs' }"

definition walAppend :: "gotime \<Rightarrow> row \<Rightarrow> ColumnarStorage \<Rightarrow> ColumnarStorage" where
  "walAppend now r cs = cs\<lparr>cs_wal := cs_wal cs @ [\<lparr>wal_Timestamp = now, wal_Operation = ''INSERT'', wal_Data = r\<rparr>]\<rparr>"

definition countRow :: "ColumnarStorage \<Rightarrow> ColumnarStorage" where
  "countRow cs =
     (let total = i64 (cs_TotalRows cs + 1)
      in cs\<lparr>cs_TotalRows := total, cs_trigger := (if total mod 10000 = 0 then True else cs_trigger cs)\<rparr>)"

definition insertRow :: "gotime \<Rightarrow> row \<Rightarrow> ColumnarStorage \<Rightarrow> ColumnarStorage option" where
  "insertRow now r cs = do { cs' \<leftarrow> insertColumns r (walAppend now r cs); Some (countRow cs') }"

text \<open>\<open>Query\<close>: the columns that exist, the length of the last of them, and one map per row.\<close>

definition columnData :: "string list \<Rightarrow> ColumnarStorage \<Rightarrow> string \<rightharpoonup> GoValue list" where
  "columnData columns cs c = (if c \<in> set columns then map_option col_Values (cs_columns cs c) else None)"

fun numRows :: "string list \<Rightarrow> ColumnarStorage \<Rightarrow> nat \<Rightarrow> nat" where
  "numRows [] cs n = n"
| "numRows (c # cols) cs n = numRows cols cs (case cs_columns cs c of None \<Rightarrow> n | Some col \<Rightarrow> length (col_Values col))"

definition buildRow :: "(string \<rightharpoonup> GoValue list) \<Rightarrow> nat \<Rightarrow> (string \<rightharpoonup> GoValue)" where
  "buildRow data i c = (case data c of None \<Rightarrow> None | Some vs \<Rightarrow> if i < length vs then Some (vs ! i) else None)"

definition queryRows :: "string list \<Rightarrow> ((string \<rightharpoonup> GoValue) \<Rightarrow> bool) option \<Rightarrow> ColumnarStorage \<Rightarrow> (string \<rightharpoonup> GoValue) list" where
  "queryRows columns predicate cs =
     filter (\<lambda>row. case predicate of None \<Rightarrow> True | Some p \<Rightarrow> p row)
       (map (buildRow (columnData columns cs)) [0..<numRows columns cs 0])"

section \<open>Row groups and encodings\<close>

text \<open>\<open>binary.LittleEndian.PutUint32\<close>.\<close>

definition putUint32 :: "u32 \<Rightarrow> byte list" where
  "putUint32 w = map (\<lambda>i. ucast (drop_bit (8 * i) w)) [0, 1, 2, 3]"

text \<open>Cardinality below 0.1 and 0.3: the quotient of two lengths rounds to the constant itself when it is
  exactly 1/10 or 3/10, so for lengths of a row group the comparisons are those of the fractions; for an
  empty column the quotient is NaN and both comparisons fail.\<close>

definition selectEncoding :: "'a list \<Rightarrow> EncodingType" where
  "selectEncoding vs =
     (let u = length (remdups vs); n = length vs
      in if 10 * u < n then DictionaryEncoding else if 10 * u < 3 * n then RunLengthEncoding else PlainEncoding)"

definition buildDict :: "'a list \<Rightarrow> ('a \<rightharpoonup> u32) \<times> u32" where
  "buildDict vs = foldl (\<lambda>(dict, i) v. case dict v of None \<Rightarrow> (dict(v \<mapsto> i), i + 1) | Some _ \<Rightarrow> (dict, i)) (Map.empty, 0) vs"

definition dictionaryEncode :: "'a list \<Rightarrow> byte list" where
  "dictionaryEncode vs =
     (let dict = fst (buildDict vs)
      in concat (map (\<lambda>v. putUint32 (case dict v of None \<Rightarrow> 0 | Some i \<Rightarrow> i)) vs))"

definition encodeRun :: "'a \<Rightarrow> nat \<Rightarrow> byte list" where
  "encodeRun value cnt = putUint32 (of_nat cnt) @ [0, 0, 0, 0]"

fun runLengthLoop :: "'a list \<Rightarrow> 'a \<Rightarrow> nat \<Rightarrow> byte list \<Rightarrow> byte list" where
  "runLengthLoop [] currentValue cnt encoded = encoded @ encodeRun currentValue cnt"
| "runLengthLoop (v # vs) currentValue cnt encoded =
     (if v = currentValue then runLengthLoop vs currentValue (cnt + 1) encoded
      else runLengthLoop vs v 1 (encoded @ encodeRun currentValue cnt))"

fun runLengthEncode :: "'a list \<Rightarrow> byte list" where
  "runLengthEncode [] = []"
| "runLengthEncode (v # vs) = runLengthLoop vs v 1 []"

text \<open>\<open>fmt.Sprintf("%v")\<close>; the printing of floats is a parameter.\<close>

fun formatV :: "(u64 \<Rightarrow> string) \<Rightarrow> GoValue \<Rightarrow> string" where
  "formatV fmtFloat NilV = ''<nil>''"
| "formatV fmtFloat (IntV i) = itoa i"
| "formatV fmtFloat (StringV s) = s"
| "formatV fmtFloat (Float64V b) = fmtFloat b"

definition plainEncode :: "(u64 \<Rightarrow> string) \<Rightarrow> GoValue list \<Rightarrow> byte list" where
  "plainEncode fmtFloat vs = concat (map (\<lambda>v. map of_char (formatV fmtFloat v) @ [0]) vs)"

text \<open>Slicing \<open>Values[start:end]\<close> panics when \<open>start > end\<close>.\<close>

definition encodeColumn :: "(u64 \<Rightarrow> string) \<Rightarrow> Column \<Rightarrow> nat \<Rightarrow> nat \<Rightarrow> ColumnChunk option" where
  "encodeColumn fmtFloat col start stop =
     (let e = (if stop > length (col_Values col) then length (col_Values col) else stop)
      in if start > e then None
         else (let vs = drop start (take e (col_Values col)); enc = selectEncoding vs;
                   encoded = (case enc of DictionaryEncoding \<Rightarrow> dictionaryEncode vs
                                        | RunLengthEncoding \<Rightarrow> runLengthEncode vs
                                        | _ \<Rightarrow> plainEncode fmtFloat vs)
               in Some \<lparr>ck_Data = encoded, ck_Encoding = enc, ck_Compressed = True, ck_Stats = col_Stats col\<rparr>))"

text \<open>\<open>createRowGroup\<close> ranges over the columns; \<open>names\<close> lists the keys of the map.\<close>

definition createRowGroup :: "(u64 \<Rightarrow> string) \<Rightarrow> string list \<Rightarrow> gotime \<Rightarrow> int \<Rightarrow> int \<Rightarrow> ColumnarStorage \<Rightarrow> RowGroup option" where
  "createRowGroup fmtFloat names now startRow endRow cs =
     (let chunk = (\<lambda>name. Option.bind (cs_columns cs name) (\<lambda>col. encodeColumn fmtFloat col (nat startRow) (nat endRow)))
      in if list_all (\<lambda>name. chunk name \<noteq> None) names
         then Some \<lparr>rg_ID = length (cs_rowGroups cs), rg_StartRow = startRow, rg_EndRow = endRow,
                    rg_Columns = chunk, rg_NumRows = endRow - startRow, rg_CreatedAt = now\<rparr>
         else None)"

definition compact :: "(u64 \<Rightarrow> string) \<Rightarrow> string list \<Rightarrow> gotime \<Rightarrow> ColumnarStorage \<Rightarrow> ColumnarStorage option" where
  "compact fmtFloat names now cs =
     (if cs_TotalRows cs > 0 \<and> int (length (cs_rowGroups cs)) * 10000 < cs_TotalRows cs
      then (let startRow = int (length (cs_rowGroups cs)) * 10000
            in do { rg \<leftarrow> createRowGroup fmtFloat names now startRow (startRow + 10000) cs;
                    Some (cs\<lparr>cs_rowGroups := cs_rowGroups cs @ [rg]\<rparr>) })
      else Some cs)"

text \<open>One round of the compactor goroutine; it is the only one that touches the flag \<open>running\<close>, so its
  compare-and-swap always succeeds.\<close>

definition runCompactor :: "(u64 \<Rightarrow> string) \<Rightarrow> string list \<Rightarrow> gotime \<Rightarrow> ColumnarStorage \<Rightarrow> ColumnarStorage option" where
  "runCompactor fmtFloat names now cs = (if cs_trigger cs then compact fmtFloat names now (cs\<lparr>cs_trigger := False\<rparr>) else Some cs)"

section \<open>Rows of integers\<close>

text \<open>A row of integers with exactly the given columns, each once.\<close>

definition int_row :: "string list \<Rightarrow> row \<Rightarrow> bool" where
  "int_row names r \<longleftrightarrow> distinct (map fst r) \<and> set (map fst r) = set names \<and> list_all (\<lambda>(c, v). \<exists>i. v = IntV i) r"

text \<open>What a column must hold after the integers \<open>vs\<close> were appended to it.\<close>

definition stat_of :: "(int list \<Rightarrow> int) \<Rightarrow> int list \<Rightarrow> GoValue" where
  "stat_of f vs = (if vs = [] then NilV else IntV (f vs))"

definition holds :: "Column \<Rightarrow> int list \<Rightarrow> bool" where
  "holds col vs \<longleftrightarrow> col_Values col = map IntV vs \<and>
     st_Min (col_Stats col) = stat_of (\<lambda>vs. Min (set vs)) vs \<and> st_Max (col_Stats col) = stat_of (\<lambda>vs. Max (set vs)) vs"

lemma holds_append:
  assumes "holds col vs"
  shows "\<exists>col'. updateColumnStats (col\<lparr>col_Values := col_Values col @ [IntV i]\<rparr>) (IntV i) = Some col' \<and> holds col' (vs @ [i])"
proof (cases "vs = []")
  case True
  then show ?thesis using assms by (simp add: holds_def stat_of_def updateColumnStats_def statTest_def)
next
  case False
  define mn mx where "mn = Min (set vs)" and "mx = Max (set vs)"
  have "Min (set (vs @ [i])) = min i mn" "Max (set (vs @ [i])) = max i mx" using False by (simp_all add: mn_def mx_def)
  moreover have "st_Min (col_Stats col) = IntV mn" "st_Max (col_Stats col) = IntV mx" "col_Values col = map IntV vs"
    using assms False by (simp_all add: holds_def stat_of_def mn_def mx_def)
  ultimately show ?thesis
    by (simp add: holds_def stat_of_def updateColumnStats_def statTest_def min_def max_def Let_def)
qed

text \<open>The value a row has in a column, and the column of values of a list of rows.\<close>

definition cell :: "row \<Rightarrow> string \<Rightarrow> int" where
  "cell r c = (case map_of r c of Some (IntV i) \<Rightarrow> i | _ \<Rightarrow> 0)"

definition table_of :: "ColumnarStorage \<Rightarrow> string set \<Rightarrow> (string \<Rightarrow> int list) \<Rightarrow> bool" where
  "table_of cs names cells \<longleftrightarrow> dom (cs_columns cs) = names \<and> (\<forall>c \<in> names. holds (the (cs_columns cs c)) (cells c))"

lemma insertColumns_ok:
  assumes "table_of cs names cells" and "distinct (map fst r)" and "set (map fst r) \<subseteq> names"
    and "list_all (\<lambda>(c, v). \<exists>i. v = IntV i) r"
  shows "\<exists>cs'. insertColumns r cs = Some cs' \<and> cs_TotalRows cs' = cs_TotalRows cs \<and>
               table_of cs' names (\<lambda>c. if c \<in> set (map fst r) then cells c @ [cell r c] else cells c)"
  using assms
proof (induction r arbitrary: cs cells)
  case Nil
  then show ?case by simp
next
  case (Cons e r)
  obtain c i where e: "e = (c, IntV i)" using Cons.prems(4) by (cases e) auto
  have c: "c \<in> names" "c \<in> dom (cs_columns cs)" using Cons.prems(1,3) e by (auto simp: table_of_def)
  have "holds (the (cs_columns cs c)) (cells c)" using Cons.prems(1) c(1) unfolding table_of_def by blast
  then obtain col where col: "cs_columns cs c = Some col" "holds col (cells c)" using c(2) by auto
  obtain col' where col': "updateColumnStats (col\<lparr>col_Values := col_Values col @ [IntV i]\<rparr>) (IntV i) = Some col'"
    "holds col' (cells c @ [i])" using holds_append [OF col(2)] by blast
  define cs1 where "cs1 = cs\<lparr>cs_columns := (cs_columns cs)(c \<mapsto> col')\<rparr>"
  have step: "insertColumn e cs = Some cs1" using e col col' by (simp add: insertColumn_def cs1_def)
  have t1: "table_of cs1 names (cells(c := cells c @ [i]))"
    using Cons.prems(1) col col' by (auto simp: table_of_def cs1_def)
  have "distinct (map fst r)" "set (map fst r) \<subseteq> names" "list_all (\<lambda>(c, v). \<exists>i. v = IntV i) r"
    using Cons.prems(2-4) by auto
  from Cons.IH [OF t1 this] obtain cs' where cs': "insertColumns r cs1 = Some cs'" "cs_TotalRows cs' = cs_TotalRows cs1"
    "table_of cs' names (\<lambda>d. if d \<in> set (map fst r) then (cells(c := cells c @ [i])) d @ [cell r d] else (cells(c := cells c @ [i])) d)" by blast
  have "(\<lambda>d. if d \<in> set (map fst r) then (cells(c := cells c @ [i])) d @ [cell r d] else (cells(c := cells c @ [i])) d)
      = (\<lambda>d. if d \<in> set (map fst (e # r)) then cells d @ [cell (e # r) d] else cells d)"
    using Cons.prems(2) e by (auto simp: cell_def)
  then show ?case using cs' step by (simp add: cs1_def)
qed

fun insertAll :: "(gotime \<times> row) list \<Rightarrow> ColumnarStorage \<Rightarrow> ColumnarStorage option" where
  "insertAll [] cs = Some cs"
| "insertAll ((now, r) # rs) cs = do { cs' \<leftarrow> insertRow now r cs; insertAll rs cs' }"

lemma table_of_extra [simp]:
  "table_of (walAppend now r cs) names cells = table_of cs names cells" "table_of (countRow cs) names cells = table_of cs names cells"
  by (simp_all add: table_of_def walAppend_def countRow_def Let_def)

lemma total_walAppend: "cs_TotalRows (walAppend now r cs) = cs_TotalRows cs"
  by (simp add: walAppend_def)

lemma total_countRow: "cs_TotalRows (countRow cs) = i64 (cs_TotalRows cs + 1)"
  by (simp add: countRow_def Let_def)

lemma insertRow_ok:
  assumes "table_of cs (set names) cells" and "int_row names r"
  shows "\<exists>cs'. insertRow now r cs = Some cs' \<and> cs_TotalRows cs' = i64 (cs_TotalRows cs + 1) \<and>
               table_of cs' (set names) (\<lambda>c. if c \<in> set names then cells c @ [cell r c] else cells c)"
proof -
  obtain cs1 where cs1: "insertColumns r (walAppend now r cs) = Some cs1" "cs_TotalRows cs1 = cs_TotalRows cs"
    "table_of cs1 (set names) (\<lambda>c. if c \<in> set names then cells c @ [cell r c] else cells c)"
    using insertColumns_ok [of "walAppend now r cs" "set names" cells r] assms by (auto simp: int_row_def total_walAppend)
  then show ?thesis by (intro exI [of _ "countRow cs1"]) (simp add: insertRow_def total_countRow)
qed

lemma insertAll_ok:
  assumes "table_of cs (set names) cells" and "list_all (int_row names) (map snd rs)"
  shows "\<exists>cs'. insertAll rs cs = Some cs' \<and> table_of cs' (set names) (\<lambda>c. cells c @ (if c \<in> set names then map (\<lambda>r. cell r c) (map snd rs) else []))"
  using assms
proof (induction rs arbitrary: cs cells)
  case (Cons x rs)
  obtain now r where x: "x = (now, r)" by (cases x)
  obtain cs1 where cs1: "insertRow now r cs = Some cs1"
    "table_of cs1 (set names) (\<lambda>c. if c \<in> set names then cells c @ [cell r c] else cells c)"
    using insertRow_ok [OF Cons.prems(1)] Cons.prems(2) x by fastforce
  obtain cs' where "insertAll rs cs1 = Some cs'"
    "table_of cs' (set names) (\<lambda>c. (if c \<in> set names then cells c @ [cell r c] else cells c) @ (if c \<in> set names then map (\<lambda>r. cell r c) (map snd rs) else []))"
    using Cons.IH [OF cs1(2)] Cons.prems(2) by auto
  moreover have "(\<lambda>c. (if c \<in> set names then cells c @ [cell r c] else cells c) @ (if c \<in> set names then map (\<lambda>r. cell r c) (map snd rs) else []))
      = (\<lambda>c. cells c @ (if c \<in> set names then map (\<lambda>r. cell r c) (map snd (x # rs)) else []))"
    using x by auto
  ultimately show ?case using cs1(1) x by auto
qed (simp add: table_of_def)

section \<open>What Query returns\<close>

text \<open>A store with the given integer columns.\<close>

definition withColumns :: "string list \<Rightarrow> ColumnarStorage" where
  "withColumns names = fold (\<lambda>n. createColumn n ''int'') names newColumnarStorage"

lemma table_of_createColumn:
  "table_of cs N (\<lambda>_. []) \<Longrightarrow> table_of (createColumn n t cs) (insert n N) (\<lambda>_. [])"
  by (auto simp: table_of_def createColumn_def holds_def stat_of_def)

lemma table_of_fold_createColumn:
  "table_of cs N (\<lambda>_. []) \<Longrightarrow> table_of (fold (\<lambda>n. createColumn n t) names cs) (set names \<union> N) (\<lambda>_. [])"
proof (induction names arbitrary: cs N)
  case (Cons n names)
  then show ?case using table_of_createColumn [of cs N n t] by fastforce
qed simp

lemma table_of_withColumns: "table_of (withColumns names) (set names) (\<lambda>_. [])"
  using table_of_fold_createColumn [of newColumnarStorage "{}" "''int''" names]
  by (simp add: withColumns_def table_of_def newColumnarStorage_def)

lemma numRows_const:
  assumes "\<And>c col. cs_columns cs c = Some col \<Longrightarrow> length (col_Values col) = n"
  shows "numRows columns cs m = (if set columns \<inter> dom (cs_columns cs) = {} then m else n)"
  by (induction columns arbitrary: m) (auto split: option.splits dest: assms)

lemma cell_int_row: "int_row names r \<Longrightarrow> c \<in> set names \<Longrightarrow> map_of r c = Some (IntV (cell r c))"
  by (force simp: int_row_def cell_def list_all_iff split: option.splits GoValue.splits
      dest: map_of_SomeD simp flip: map_of_eq_None_iff)

lemma queryRows_table:
  assumes "table_of cs (set names) (\<lambda>c. if c \<in> set names then map (\<lambda>r. cell r c) rs else [])"
    and "list_all (int_row names) rs" and "set columns \<inter> set names \<noteq> {}"
  shows "queryRows columns None cs = map (\<lambda>r. map_of r |` set columns) rs"
proof -
  have dom: "dom (cs_columns cs) = set names" using assms(1) by (simp add: table_of_def)
  have vals: "map_option col_Values (cs_columns cs c) = (if c \<in> set names then Some (map (\<lambda>r. IntV (cell r c)) rs) else None)" for c
  proof (cases "c \<in> set names")
    case True
    then have "holds (the (cs_columns cs c)) (map (\<lambda>r. cell r c) rs)" and "c \<in> dom (cs_columns cs)"
      using assms(1) dom unfolding table_of_def by auto
    then show ?thesis using True by (auto simp: holds_def)
  qed (use dom in auto)
  have "length (col_Values col) = length rs" if "cs_columns cs c = Some col" for c col
    using vals [of c] that by (auto split: if_splits)
  then have n: "numRows columns cs 0 = length rs" using numRows_const [of cs "length rs" columns 0] assms(3) dom by auto
  have "buildRow (columnData columns cs) i = map_of (rs ! i) |` set columns" if i: "i < length rs" for i
  proof
    fix c
    have r: "int_row names (rs ! i)" using assms(2) i by (simp add: list_all_length)
    show "buildRow (columnData columns cs) i c = (map_of (rs ! i) |` set columns) c"
    proof (cases "c \<in> set names")
      case True
      then show ?thesis using i cell_int_row [OF r True] by (auto simp: buildRow_def columnData_def vals restrict_map_def)
    next
      case False
      then have "map_of (rs ! i) c = None" using r by (simp add: int_row_def map_of_eq_None_iff)
      then show ?thesis using False by (simp add: buildRow_def columnData_def vals restrict_map_def)
    qed
  qed
  then show ?thesis by (auto simp: queryRows_def n intro: nth_equalityI)
qed

lemma queryRows_filter: "queryRows columns (Some p) cs = filter p (queryRows columns None cs)"
  by (simp add: queryRows_def)

text \<open>Insert and query.  After rows of integers that cover exactly the columns of the store were inserted,
  none of the inserts panics, \<open>Query\<close> returns for any choice of columns that has an existing one the
  projections of the rows that satisfy the predicate, in insertion order, and every column keeps the
  minimum and maximum of its values.\<close>

theorem query_returns_inserted_rows:
  assumes "list_all (int_row names) (map snd rs)" and "set columns \<inter> set names \<noteq> {}"
  shows "\<exists>cs. insertAll rs (withColumns names) = Some cs \<and>
           queryRows columns (Some p) cs = filter p (map (\<lambda>(now, r). map_of r |` set columns) rs) \<and>
           (\<forall>c. c \<in> set names \<longrightarrow> (\<exists>col. cs_columns cs c = Some col \<and>
              st_Min (col_Stats col) = stat_of (\<lambda>vs. Min (set vs)) (map (\<lambda>(now, r). cell r c) rs) \<and>
              st_Max (col_Stats col) = stat_of (\<lambda>vs. Max (set vs)) (map (\<lambda>(now, r). cell r c) rs)))"
proof -
  obtain cs where cs: "insertAll rs (withColumns names) = Some cs"
    "table_of cs (set names) (\<lambda>c. if c \<in> set names then map (\<lambda>r. cell r c) (map snd rs) else [])"
    using insertAll_ok [OF table_of_withColumns assms(1)] by auto
  have q: "queryRows columns None cs = map (\<lambda>(now, r). map_of r |` set columns) rs"
    using queryRows_table [OF cs(2) assms] by (simp add: case_prod_unfold)
  have stats: "\<exists>col. cs_columns cs c = Some col \<and>
              st_Min (col_Stats col) = stat_of (\<lambda>vs. Min (set vs)) (map (\<lambda>(now, r). cell r c) rs) \<and>
              st_Max (col_Stats col) = stat_of (\<lambda>vs. Max (set vs)) (map (\<lambda>(now, r). cell r c) rs)" if c: "c \<in> set names" for c
  proof -
    have "holds (the (cs_columns cs c)) (map (\<lambda>(now, r). cell r c) rs)" "c \<in> dom (cs_columns cs)"
      using cs(2) c by (auto simp: table_of_def case_prod_unfold comp_def)
    then show ?thesis by (auto simp: holds_def)
  qed
  show ?thesis using cs(1) q stats by (auto simp: queryRows_filter)
qed

theorem query_returns_inserted_rows_witness:
  "list_all (int_row [''id'', ''v'']) [[(''id'', IntV 1), (''v'', IntV 30)], [(''v'', IntV 20), (''id'', IntV 2)]] \<and>
   (\<exists>cs. insertAll [(0, [(''id'', IntV 1), (''v'', IntV 30)]), (5, [(''v'', IntV 20), (''id'', IntV 2)])] (withColumns [''id'', ''v'']) = Some cs \<and>
      queryRows [''v''] (Some (\<lambda>r. True)) cs = [Map.empty(''v'' \<mapsto> IntV 30), Map.empty(''v'' \<mapsto> IntV 20)])"
proof -
  have ok: "list_all (int_row [''id'', ''v'']) (map snd [(0::gotime, [(''id'', IntV 1), (''v'', IntV 30)]), (5, [(''v'', IntV 20), (''id'', IntV 2)])])"
    by (auto simp: int_row_def)
  have "set [''v''] \<inter> set [''id'', ''v''] \<noteq> {}" by simp
  from query_returns_inserted_rows [OF ok this, of "\<lambda>_. True"]
  obtain cs where cs: "insertAll [(0, [(''id'', IntV 1), (''v'', IntV 30)]), (5, [(''v'', IntV 20), (''id'', IntV 2)])] (withColumns [''id'', ''v'']) = Some cs"
    "queryRows [''v''] (Some (\<lambda>r. True)) cs = filter (\<lambda>r. True)
       (map (\<lambda>(now, r). map_of r |` set [''v'']) [(0::gotime, [(''id'', IntV 1), (''v'', IntV 30)]), (5, [(''v'', IntV 20), (''id'', IntV 2)])])"
    by blast
  have "map_of [(''id'', IntV 1), (''v'', IntV 30)] |` set [''v''] = Map.empty(''v'' \<mapsto> IntV 30)"
    "map_of [(''v'', IntV 20), (''id'', IntV 2)] |` set [''v''] = Map.empty(''v'' \<mapsto> IntV 20)"
    by (auto simp: restrict_map_def)
  then have "queryRows [''v''] (Some (\<lambda>r. True)) cs = [Map.empty(''v'' \<mapsto> IntV 30), Map.empty(''v'' \<mapsto> IntV 20)]"
    using cs(2) by (simp only: list.map prod.case filter_True list.set simp_thms ball_simps)
  then show ?thesis using cs(1) ok by (auto simp only: list.map snd_conv)
qed

section \<open>Dictionary encoding\<close>

text \<open>The reader's side: four bytes give a position in the dictionary.\<close>

fun getUint32 :: "byte \<Rightarrow> byte \<Rightarrow> byte \<Rightarrow> byte \<Rightarrow> u32" where
  "getUint32 a b c d = ucast a OR push_bit 8 (ucast b) OR push_bit 16 (ucast c) OR push_bit 24 (ucast d)"

fun dictDecode :: "'a list \<Rightarrow> byte list \<Rightarrow> 'a list" where
  "dictDecode dict (a # b # c # d # bs) = dict ! unat (getUint32 a b c d) # dictDecode dict bs"
| "dictDecode dict _ = []"

lemma getUint32_putUint32: "putUint32 w = [a, b, c, d] \<Longrightarrow> getUint32 a b c d = w"
proof (rule bit_word_eqI)
  fix n assume eq: "putUint32 w = [a, b, c, d]" and n: "n < LENGTH(32)"
  consider "n < 8" | "8 \<le> n" "n < 16" | "16 \<le> n" "n < 24" | "24 \<le> n" "n < 32" using n by fastforce
  then show "bit (getUint32 a b c d) n = bit w n"
    by cases (use eq n in \<open>auto simp: putUint32_def bit_simps\<close>)
qed

text \<open>The dictionary numbers the values in the order of their first occurrence.\<close>

definition numbering :: "'a list \<Rightarrow> 'a \<rightharpoonup> u32" where
  "numbering ds = map_of (zip ds (map of_nat [0..<length ds]))"

lemma dom_numbering [simp]: "dom (numbering ds) = set ds"
  by (simp add: numbering_def dom_map_of_zip)

lemma numbering_None: "v \<notin> set ds \<Longrightarrow> numbering ds v = None"
  by (metis domIff dom_numbering)

lemma numbering_snoc: "v \<notin> set ds \<Longrightarrow> numbering (ds @ [v]) = (numbering ds)(v \<mapsto> of_nat (length ds))"
proof -
  assume v: "v \<notin> set ds"
  have "numbering (ds @ [v]) = [v \<mapsto> of_nat (length ds)] ++ numbering ds"
    by (simp add: numbering_def)
  also have "\<dots> = numbering ds ++ [v \<mapsto> of_nat (length ds)]"
    using v by (intro map_add_comm) simp
  finally show ?thesis by simp
qed

lemma numbering_nth: "distinct ds \<Longrightarrow> i < length ds \<Longrightarrow> numbering ds (ds ! i) = Some (of_nat i)"
  by (simp add: numbering_def map_of_zip_nth)

lemma buildDict_numbering: "buildDict vs = (numbering (firsts vs), of_nat (length (firsts vs)))"
proof (induction vs rule: rev_induct)
  case Nil
  then show ?case by (simp add: buildDict_def numbering_def)
next
  case (snoc v vs)
  have split: "buildDict (vs @ [v]) = (case buildDict vs of (dict, i) \<Rightarrow> (case dict v of None \<Rightarrow> (dict(v \<mapsto> i), i + 1) | Some _ \<Rightarrow> (dict, i)))"
    by (simp add: buildDict_def case_prod_unfold)
  show ?case
  proof (cases "v \<in> set vs")
    case True
    then have "v \<in> dom (numbering (firsts vs))" by simp
    then obtain i where "numbering (firsts vs) v = Some i" by blast
    then show ?thesis using True unfolding split snoc.IH by (simp add: firsts_snoc)
  next
    case False
    then have "numbering (firsts vs) v = None" by (simp add: numbering_None)
    then show ?thesis using False unfolding split snoc.IH by (simp add: firsts_snoc numbering_snoc add.commute fun_upd_def)
  qed
qed

lemma putUint32_four: "\<exists>a b c d. putUint32 w = [a, b, c, d]"
  by (simp add: putUint32_def)

lemma dictDecode_step: "dictDecode ds (putUint32 w @ bs) = ds ! unat w # dictDecode ds bs"
proof -
  obtain a b c d where eq: "putUint32 w = [a, b, c, d]" using putUint32_four by blast
  have "dictDecode ds (putUint32 w @ bs) = ds ! unat (getUint32 a b c d) # dictDecode ds bs"
    unfolding eq by (simp del: getUint32.simps)
  then show ?thesis by (simp only: getUint32_putUint32 [OF eq])
qed

lemma dictDecode_list:
  assumes "\<And>v. v \<in> set vs \<Longrightarrow> ds ! unat (f v) = v"
  shows "dictDecode ds (concat (map (\<lambda>v. putUint32 (f v)) vs)) = vs"
  using assms by (induction vs) (simp_all add: dictDecode_step)

text \<open>Dictionary encoding.  The indices \<open>dictionaryEncode\<close> writes, four bytes per value, decode to the
  original values with the dictionary that lists the distinct values in the order of their first
  occurrence, as long as their number fits the 32-bit index.\<close>

theorem dictionary_roundtrip:
  assumes "card (set vs) \<le> 2 ^ 32"
  shows "dictDecode (firsts vs) (dictionaryEncode vs) = vs \<and> length (dictionaryEncode vs) = 4 * length vs"
proof
  define f where "f = (\<lambda>v. case numbering (firsts vs) v of None \<Rightarrow> 0 | Some i \<Rightarrow> i)"
  have enc: "dictionaryEncode vs = concat (map (\<lambda>v. putUint32 (f v)) vs)"
    by (simp add: dictionaryEncode_def buildDict_numbering f_def Let_def)
  have len: "length (firsts vs) \<le> 2 ^ 32" using assms distinct_card [OF distinct_firsts, of vs] by simp
  have "firsts vs ! unat (f v) = v" if v: "v \<in> set vs" for v
  proof -
    from v obtain i where i: "i < length (firsts vs)" "v = firsts vs ! i" by (metis in_set_conv_nth set_firsts)
    then have "unat (f v) = i" using len by (simp add: f_def numbering_nth unat_of_nat take_bit_nat_eq_self)
    then show ?thesis using i by simp
  qed
  then show "dictDecode (firsts vs) (dictionaryEncode vs) = vs" unfolding enc by (rule dictDecode_list)
  show "length (dictionaryEncode vs) = 4 * length vs"
    unfolding enc by (induction vs) (simp_all add: putUint32_def)
qed

theorem dictionary_roundtrip_witness:
  "card (set [''b'', ''a'', ''b'']) \<le> 2 ^ 32 \<and> dictionaryEncode [''b'', ''a'', ''b''] = [0,0,0,0, 1,0,0,0, 0,0,0,0] \<and>
   dictDecode [''b'', ''a''] (dictionaryEncode [''b'', ''a'', ''b'']) = [''b'', ''a'', ''b'']"
proof -
  have c: "card (set [''b'', ''a'', ''b'']) \<le> 2 ^ 32" using card_length [of "[''b'', ''a'', ''b'']"] by simp
  have "firsts [''b'', ''a'', ''b''] = [''b'', ''a'']" by simp
  with dictionary_roundtrip [OF c] have "dictDecode [''b'', ''a''] (dictionaryEncode [''b'', ''a'', ''b'']) = [''b'', ''a'', ''b'']"
    by metis
  moreover have "dictionaryEncode [''b'', ''a'', ''b''] = [0,0,0,0, 1,0,0,0, 0,0,0,0]" by code_simp
  ultimately show ?thesis using c by blast
qed

section \<open>Where the storage goes wrong\<close>

text \<open>The chunks do not determine the column: neither the dictionary nor the value of a run is stored.\<close>

theorem chunks_not_decodable:
  "dictionaryEncode [IntV 1, IntV 1, IntV 2] = dictionaryEncode [IntV 7, IntV 7, IntV 9] \<and>
   runLengthEncode [IntV 1, IntV 1, IntV 2] = runLengthEncode [IntV 7, IntV 7, IntV 9]"
  by code_simp

text \<open>The second value of a column of strings panics in \<open>updateColumnStats\<close>: this is what the demonstration
  program does with its column of names.\<close>

theorem string_column_panics:
  "insertAll [(0, [(''name'', StringV ''item-0'')]), (1, [(''name'', StringV ''item-1'')])]
     (createColumn ''name'' ''string'' newColumnarStorage) = None"
  by code_simp

text \<open>Rows that omit a column are shifted against the others.\<close>

theorem sparse_rows_shift:
  "map_option (\<lambda>cs. map (\<lambda>r. (r ''id'', r ''v'')) (queryRows [''id'', ''v''] None cs))
     (insertAll [(0, [(''id'', IntV 1)]), (1, [(''id'', IntV 2), (''v'', IntV 20)])] (withColumns [''id'', ''v'']))
   = Some [(Some (IntV 1), Some (IntV 20))]"
  by code_simp

text \<open>Two concurrent inserts whose iterations interleave mix their rows.\<close>

theorem interleaved_inserts_mix_rows:
  "map_option (\<lambda>cs. map (\<lambda>r. (r ''id'', r ''v'')) (queryRows [''id'', ''v''] None cs))
     (insertColumns [(''id'', IntV 1), (''id'', IntV 2), (''v'', IntV 20), (''v'', IntV 10)] (withColumns [''id'', ''v'']))
   = Some [(Some (IntV 1), Some (IntV 20)), (Some (IntV 2), Some (IntV 10))]"
  by code_simp

end
