(* ===== verification/WideColumnStore.thy ===== *)
theory WideColumnStore
  imports GoPrelude "HOL-Library.List_Lexorder" "HOL-Library.Char_ord"
begin

text \<open>
  The wide column store of \<open>src/solutions/solution23_columnar_storage.go\<close> (\<open>WideColumnStore\<close>): the memtable with
  its versioned columns, \<open>Put\<close>, \<open>Get\<close>, \<open>Scan\<close> and the flush.  \<open>Put\<close>, \<open>Get\<close> and \<open>Scan\<close> hold the memtable's lock; the
  flush goroutine takes it twice and is modelled as the steps between which other operations can run.  Row
  and column keys are byte strings, ordered as Go orders strings.  Shown: in every interleaving the store
  refines a map from (row, column) to the last value written, which the flush empties; \<open>Scan\<close> lists the rows
  in key order.  The fields that no code reads (TTL, index, cache options) are left out.
\<close>

section \<open>Data\<close>

type_synonym bytes = "8 word list"

record VersionedValue =
  vv_Value :: bytes
  vv_Timestamp :: int
  vv_Deleted :: bool

record WideColumn =
  wc_Qualifier :: string
  wc_Versions :: "VersionedValue list"

record CFOptions =
  cf_MaxVersions :: int
  cf_Compression :: string

record ColumnFamily =
  fam_Name :: string
  fam_Options :: CFOptions

record Memtable =
  mt_data :: "(string \<times> (string \<rightharpoonup> WideColumn)) list"
  mt_size :: int
  mt_maxSize :: int

record BloomFilter =
  bf_bits :: "8 word list"
  bf_size :: nat

record SSTable =
  sst_ID :: nat
  sst_Level :: nat
  sst_StartKey :: string
  sst_EndKey :: string
  sst_Size :: int
  sst_BloomFilter :: "BloomFilter option"

record CompactionLevel =
  lv_Level :: nat
  lv_SSTables :: "SSTable list"
  lv_MaxSize :: int

text \<open>Where the flush goroutine stands; the compare-and-swap on \<open>running\<close> admits one at a time.  \<open>pending\<close>
  counts the goroutines \<open>Put\<close> started that have not reached the compare-and-swap.\<close>

datatype FlushPhase = Idle | Created SSTable | Keyed SSTable | Appended SSTable | Cleared

record WideColumnStore =
  ws_columnFamilies :: "string \<rightharpoonup> ColumnFamily"
  ws_memtable :: Memtable
  ws_sstables :: "SSTable list"
  ws_levels :: "CompactionLevel list"
  ws_running :: bool
  ws_pending :: nat
  ws_flush :: FlushPhase

definition newWideColumnStore :: WideColumnStore where
  "newWideColumnStore =
     \<lparr>ws_columnFamilies = Map.empty,
      ws_memtable = \<lparr>mt_data = [], mt_size = 0, mt_maxSize = 100 * 1024 * 1024\<rparr>,
      ws_sstables = [],
      ws_levels = map (\<lambda>i. \<lparr>lv_Level = i, lv_SSTables = [], lv_MaxSize = int (10 * (i + 1)) * 1024 * 1024\<rparr>) [0..<5],
      ws_running = False, ws_pending = 0, ws_flush = Idle\<rparr>"

definition createColumnFamily :: "string \<Rightarrow> CFOptions \<Rightarrow> WideColumnStore \<Rightarrow> WideColumnStore" where
  "createColumnFamily name options ws =
     ws\<lparr>ws_columnFamilies := (ws_columnFamilies ws)(name \<mapsto> \<lparr>fam_Name = name, fam_Options = options\<rparr>)\<rparr>"

section \<open>Operations\<close>

definition columnKey :: "string \<Rightarrow> string \<Rightarrow> string" where
  "columnKey cfName qualifier = cfName @ '':'' @ qualifier"

text \<open>A row that is not in the memtable reads as a nil map.\<close>

definition rowOf :: "Memtable \<Rightarrow> string \<Rightarrow> (string \<rightharpoonup> WideColumn)" where
  "rowOf mt rowKey = (case map_of (mt_data mt) rowKey of None \<Rightarrow> Map.empty | Some r \<Rightarrow> r)"

definition addVersion :: "gotime \<Rightarrow> string \<Rightarrow> bytes \<Rightarrow> WideColumn option \<Rightarrow> WideColumn" where
  "addVersion now qualifier value col =
     (let c = (case col of None \<Rightarrow> \<lparr>wc_Qualifier = qualifier, wc_Versions = []\<rparr> | Some c \<Rightarrow> c)
      in c\<lparr>wc_Versions := wc_Versions c @ [\<lparr>vv_Value = value, vv_Timestamp = now, vv_Deleted = False\<rparr>]\<rparr>)"

definition memPut :: "gotime \<Rightarrow> string \<Rightarrow> string \<Rightarrow> string \<Rightarrow> bytes \<Rightarrow> Memtable \<Rightarrow> Memtable" where
  "memPut now rowKey cfName qualifier value mt =
     (let r = rowOf mt rowKey; k = columnKey cfName qualifier
      in mt\<lparr>mt_data := AList.update rowKey (r(k \<mapsto> addVersion now qualifier value (r k))) (mt_data mt),
            mt_size := i64 (mt_size mt + int (length value))\<rparr>)"

definition put :: "gotime \<Rightarrow> string \<Rightarrow> string \<Rightarrow> string \<Rightarrow> bytes \<Rightarrow> WideColumnStore \<Rightarrow> WideColumnStore" where
  "put now rowKey cfName qualifier value ws =
     (let mt = memPut now rowKey cfName qualifier value (ws_memtable ws)
      in ws\<lparr>ws_memtable := mt, ws_pending := (if mt_size mt > mt_maxSize mt then ws_pending ws + 1 else ws_pending ws)\<rparr>)"

text \<open>\<open>BloomFilter.Contains\<close>; the remainder by a zero size panics.\<close>

definition bloomContains :: "BloomFilter \<Rightarrow> string \<Rightarrow> bool option" where
  "bloomContains bf key =
     (if bf_size bf = 0 \<and> key \<noteq> [] then None
      else (let hash = foldl (\<lambda>h c. (h * 31 + of_char c) mod bf_size bf) 0 key;
                byteIdx = hash div 8; bitIdx = hash mod 8
            in Some (byteIdx < length (bf_bits bf) \<and> bit (bf_bits bf ! byteIdx) bitIdx)))"

datatype GetError = GetDeleted | GetNotFound | GetPanic

text \<open>The loop over the SSTables, from the newest down.\<close>

fun searchTables :: "SSTable list \<Rightarrow> string \<Rightarrow> GetError + bytes" where
  "searchTables [] rowKey = Inl GetNotFound"
| "searchTables (t # ts) rowKey =
     (case (case sst_BloomFilter t of None \<Rightarrow> Some True | Some bf \<Rightarrow> bloomContains bf rowKey) of
        None \<Rightarrow> Inl GetPanic
      | Some False \<Rightarrow> searchTables ts rowKey
      | Some True \<Rightarrow> (if sst_StartKey t \<le> rowKey \<and> rowKey \<le> sst_EndKey t then Inr (map of_char ''from_sstable'')
                       else searchTables ts rowKey))"

definition get :: "string \<Rightarrow> string \<Rightarrow> string \<Rightarrow> WideColumnStore \<Rightarrow> GetError + bytes" where
  "get rowKey cfName qualifier ws =
     (case Option.bind (map_of (mt_data (ws_memtable ws)) rowKey) (\<lambda>r. r (columnKey cfName qualifier)) of
        Some c \<Rightarrow> (if wc_Versions c \<noteq> []
                   then (let latest = last (wc_Versions c) in if \<not> vv_Deleted latest then Inr (vv_Value latest) else Inl GetDeleted)
                   else searchTables (rev (ws_sstables ws)) rowKey)
      | None \<Rightarrow> searchTables (rev (ws_sstables ws)) rowKey)"

text \<open>A row of \<open>Scan\<close> holds the row key under \<open>"key"\<close> and the latest values under the column keys.\<close>

datatype ScanValue = KeyV string | BytesV bytes

definition scanColumn :: "WideColumn \<Rightarrow> ScanValue option" where
  "scanColumn c =
     (if wc_Versions c \<noteq> [] \<and> \<not> vv_Deleted (last (wc_Versions c)) then Some (BytesV (vv_Value (last (wc_Versions c)))) else None)"

definition scanRow :: "Memtable \<Rightarrow> string \<Rightarrow> (string \<rightharpoonup> ScanValue)" where
  "scanRow mt key colKey =
     (case Option.bind (rowOf mt key colKey) scanColumn of
        Some v \<Rightarrow> Some v
      | None \<Rightarrow> if colKey = ''key'' then Some (KeyV key) else None)"

fun scanLoop :: "Memtable \<Rightarrow> string list \<Rightarrow> int \<Rightarrow> (string \<rightharpoonup> ScanValue) list \<Rightarrow> (string \<rightharpoonup> ScanValue) list" where
  "scanLoop mt [] limit results = results"
| "scanLoop mt (key # keys) limit results =
     (if int (length results) \<ge> limit then results else scanLoop mt keys limit (results @ [scanRow mt key]))"

definition scan :: "string \<Rightarrow> string \<Rightarrow> int \<Rightarrow> WideColumnStore \<Rightarrow> (string \<rightharpoonup> ScanValue) list" where
  "scan startKey endKey limit ws =
     scanLoop (ws_memtable ws)
       (sort (filter (\<lambda>k. k \<ge> startKey \<and> k \<le> endKey) (map fst (mt_data (ws_memtable ws))))) limit []"

text \<open>\<open>flushMemtable\<close> in its steps: the compare-and-swap with the creation of the table, the reading of the
  keys, the append to level 0, the clearing of the memtable, and the deferred reset of \<open>running\<close>.\<close>

definition flushStart :: "WideColumnStore \<Rightarrow> WideColumnStore" where
  "flushStart ws =
     (if ws_pending ws = 0 then ws
      else if ws_running ws then ws\<lparr>ws_pending := ws_pending ws - 1\<rparr>
      else ws\<lparr>ws_pending := ws_pending ws - 1, ws_running := True,
              ws_flush := Created \<lparr>sst_ID = length (ws_sstables ws), sst_Level = 0, sst_StartKey = '''', sst_EndKey = '''',
                                  sst_Size = mt_size (ws_memtable ws), sst_BloomFilter = None\<rparr>\<rparr>)"

definition flushKeys :: "WideColumnStore \<Rightarrow> WideColumnStore" where
  "flushKeys ws =
     (case ws_flush ws of
        Created t \<Rightarrow>
          (let keys = sort (map fst (mt_data (ws_memtable ws)))
           in ws\<lparr>ws_flush := Keyed (if keys \<noteq> [] then t\<lparr>sst_StartKey := hd keys, sst_EndKey := last keys\<rparr> else t)\<rparr>)
      | _ \<Rightarrow> ws)"

definition flushAppend :: "WideColumnStore \<Rightarrow> WideColumnStore" where
  "flushAppend ws =
     (case ws_flush ws of
        Keyed t \<Rightarrow> ws\<lparr>ws_levels := (ws_levels ws)[0 := (ws_levels ws ! 0)\<lparr>lv_SSTables := lv_SSTables (ws_levels ws ! 0) @ [t]\<rparr>],
                      ws_flush := Appended t\<rparr>
      | _ \<Rightarrow> ws)"

definition flushClear :: "WideColumnStore \<Rightarrow> WideColumnStore" where
  "flushClear ws =
     (case ws_flush ws of
        Appended t \<Rightarrow> ws\<lparr>ws_memtable := (ws_memtable ws)\<lparr>mt_data := [], mt_size := 0\<rparr>, ws_flush := Cleared\<rparr>
      | _ \<Rightarrow> ws)"

definition flushEnd :: "WideColumnStore \<Rightarrow> WideColumnStore" where
  "flushEnd ws = (case ws_flush ws of Cleared \<Rightarrow> ws\<lparr>ws_running := False, ws_flush := Idle\<rparr> | _ \<Rightarrow> ws)"

text \<open>\<open>compact\<close> only reports the levels over their size; it changes nothing.\<close>

definition compactReport :: "WideColumnStore \<Rightarrow> nat list" where
  "compactReport ws =
     filter (\<lambda>i. foldl (\<lambda>n t. i64 (n + sst_Size t)) 0 (lv_SSTables (ws_levels ws ! i)) > lv_MaxSize (ws_levels ws ! i))
       [0..<length (ws_levels ws) - 1]"

datatype WOp = OpCreate string CFOptions | OpPut gotime string string string bytes
  | OpFlushStart | OpFlushKeys | OpFlushAppend | OpFlushClear | OpFlushEnd

fun wstep :: "WideColumnStore \<Rightarrow> WOp \<Rightarrow> WideColumnStore" where
  "wstep ws (OpCreate name options) = createColumnFamily name options ws"
| "wstep ws (OpPut now rowKey cfName qualifier value) = put now rowKey cfName qualifier value ws"
| "wstep ws OpFlushStart = flushStart ws"
| "wstep ws OpFlushKeys = flushKeys ws"
| "wstep ws OpFlushAppend = flushAppend ws"
| "wstep ws OpFlushClear = flushClear ws"
| "wstep ws OpFlushEnd = flushEnd ws"

section \<open>The abstract store\<close>

text \<open>The specification: a map from (row, column key) to the last value written, and a clearing.\<close>

type_synonym kv = "string \<times> string \<rightharpoonup> bytes"

datatype KvOp = KvPut string string bytes | KvClear

fun kvStep :: "kv \<Rightarrow> KvOp \<Rightarrow> kv" where
  "kvStep m (KvPut rowKey k value) = m((rowKey, k) \<mapsto> value)"
| "kvStep m KvClear = Map.empty"

fun kvLabel :: "WideColumnStore \<Rightarrow> WOp \<Rightarrow> KvOp list" where
  "kvLabel ws (OpPut now rowKey cfName qualifier value) = [KvPut rowKey (columnKey cfName qualifier) value]"
| "kvLabel ws OpFlushClear = (case ws_flush ws of Appended t \<Rightarrow> [KvClear] | _ \<Rightarrow> [])"
| "kvLabel ws _ = []"

definition latest :: "WideColumnStore \<Rightarrow> kv" where
  "latest ws = (\<lambda>(rowKey, k). map_option (\<lambda>c. vv_Value (last (wc_Versions c))) (rowOf (ws_memtable ws) rowKey k))"

definition column_ok :: "WideColumn \<Rightarrow> bool" where
  "column_ok c \<longleftrightarrow> wc_Versions c \<noteq> [] \<and> list_all (\<lambda>v. \<not> vv_Deleted v) (wc_Versions c)"

definition wide_ok :: "WideColumnStore \<Rightarrow> bool" where
  "wide_ok ws \<longleftrightarrow> ws_sstables ws = [] \<and> distinct (map fst (mt_data (ws_memtable ws))) \<and>
     (\<forall>r k c. rowOf (ws_memtable ws) r k = Some c \<longrightarrow> column_ok c \<and> (\<exists>cf q. k = columnKey cf q)) \<and>
     Map.empty \<notin> ran (map_of (mt_data (ws_memtable ws))) \<and>
     (ws_running ws \<longleftrightarrow> ws_flush ws \<noteq> Idle)"

lemma wide_ok_new [simp]: "wide_ok newWideColumnStore"
  by (simp add: wide_ok_def newWideColumnStore_def rowOf_def)

lemma rowOf_memPut:
  "rowOf (memPut now rowKey cf q v mt) r =
     (if r = rowKey then (rowOf mt r)(columnKey cf q \<mapsto> addVersion now q v (rowOf mt r (columnKey cf q))) else rowOf mt r)"
  by (simp add: rowOf_def memPut_def Let_def update_conv')

lemma addVersion_ok: "(\<And>c. col = Some c \<Longrightarrow> column_ok c) \<Longrightarrow> column_ok (addVersion now q v col)"
  by (cases col) (simp_all add: addVersion_def column_ok_def)

lemma addVersion_last [simp]: "vv_Value (last (wc_Versions (addVersion now q v col))) = v"
  by (simp add: addVersion_def Let_def)

lemma put_fields [simp]:
  "ws_sstables (put now r cf q v ws) = ws_sstables ws" "ws_running (put now r cf q v ws) = ws_running ws"
  "ws_flush (put now r cf q v ws) = ws_flush ws"
  "ws_memtable (put now r cf q v ws) = memPut now r cf q v (ws_memtable ws)"
  by (simp_all add: put_def Let_def)

lemma wide_ok_put:
  assumes "wide_ok ws"
  shows "wide_ok (put now rowKey cf q v ws)"
proof -
  define mt where "mt = ws_memtable ws"
  have cols: "rowOf mt r k = Some c \<Longrightarrow> column_ok c \<and> (\<exists>cf q. k = columnKey cf q)" for r k c
    using assms by (simp add: wide_ok_def mt_def)
  have "distinct (map fst (mt_data (memPut now rowKey cf q v mt)))"
    using assms by (simp add: wide_ok_def mt_def memPut_def Let_def distinct_update)
  moreover have "column_ok c \<and> (\<exists>cf q. k = columnKey cf q)" if "rowOf (memPut now rowKey cf q v mt) r k = Some c" for r k c
    using that cols addVersion_ok [of "rowOf mt r k" now q v] by (auto simp: rowOf_memPut split: if_splits)
  moreover have "Map.empty \<notin> ran (map_of (mt_data (memPut now rowKey cf q v mt)))"
    using assms by (auto simp: wide_ok_def mt_def memPut_def Let_def update_conv' ran_def split: if_splits)
  ultimately show ?thesis using assms unfolding wide_ok_def by (simp add: mt_def [symmetric])
qed

lemmas flush_defs = flushStart_def flushKeys_def flushAppend_def flushClear_def flushEnd_def createColumnFamily_def

lemma wide_ok_step: "wide_ok ws \<Longrightarrow> wide_ok (wstep ws e)"
  by (cases e) (auto simp: wide_ok_put, auto simp: flush_defs wide_ok_def rowOf_def Let_def split: FlushPhase.splits)

lemma latest_put: "latest (put now r cf q v ws) = (latest ws)((r, columnKey cf q) \<mapsto> v)"
  by (rule ext) (auto simp: latest_def rowOf_memPut split: if_splits)

lemma latest_step: "latest (wstep ws e) = run kvStep (latest ws) (kvLabel ws e)"
  by (cases e) (auto simp: latest_put, auto simp: latest_def flush_defs rowOf_def Let_def split: FlushPhase.splits)

interpretation wide: refined_object wstep wide_ok "\<lambda>_ _. True" latest kvLabel kvStep
  by unfold_locales (rule wide_ok_step, assumption, rule latest_step)

text \<open>What \<open>Get\<close> and \<open>Scan\<close> answer, in terms of the abstract map.\<close>

lemma get_latest:
  assumes "wide_ok ws"
  shows "get r cf q ws = (case latest ws (r, columnKey cf q) of None \<Rightarrow> Inl GetNotFound | Some v \<Rightarrow> Inr v)"
proof -
  define mt where "mt = ws_memtable ws"
  have row: "Option.bind (map_of (mt_data mt) r) (\<lambda>row. row k) = rowOf mt r k" for k
    by (cases "map_of (mt_data mt) r") (simp_all add: rowOf_def)
  show ?thesis
  proof (cases "rowOf mt r (columnKey cf q)")
    case None
    then show ?thesis using assms row by (simp add: get_def latest_def mt_def wide_ok_def)
  next
    case (Some c)
    then have "column_ok c" using assms by (simp add: wide_ok_def mt_def)
    then have "wc_Versions c \<noteq> []" "\<not> vv_Deleted (last (wc_Versions c))" by (auto simp: column_ok_def list_all_iff)
    then show ?thesis using Some row by (simp add: get_def latest_def mt_def)
  qed
qed

lemma columnKey_not_key [simp]: "columnKey cf q \<noteq> ''key''" "''key'' \<noteq> columnKey cf q"
proof -
  have "CHR '':'' \<in> set (columnKey cf q)" by (simp add: columnKey_def)
  moreover have "CHR '':'' \<notin> set ''key''" by simp
  ultimately show "columnKey cf q \<noteq> ''key''" "''key'' \<noteq> columnKey cf q" by metis+
qed

lemma scanRow_latest:
  assumes "wide_ok ws"
  shows "scanRow (ws_memtable ws) key ''key'' = Some (KeyV key)"
    and "scanRow (ws_memtable ws) key (columnKey cf q) = map_option BytesV (latest ws (key, columnKey cf q))"
proof -
  define mt where "mt = ws_memtable ws"
  have cols: "rowOf mt r k = Some c \<Longrightarrow> column_ok c \<and> (\<exists>cf q. k = columnKey cf q)" for r k c
    using assms by (simp add: wide_ok_def mt_def)
  have "rowOf mt key ''key'' = None" using cols [of key "''key''"] by fastforce
  then show "scanRow (ws_memtable ws) key ''key'' = Some (KeyV key)" by (simp add: scanRow_def mt_def)
  show "scanRow (ws_memtable ws) key (columnKey cf q) = map_option BytesV (latest ws (key, columnKey cf q))"
  proof (cases "rowOf mt key (columnKey cf q)")
    case None
    then show ?thesis by (simp add: scanRow_def latest_def mt_def)
  next
    case (Some c)
    then have "column_ok c" using cols by blast
    then have "scanColumn c = Some (BytesV (vv_Value (last (wc_Versions c))))" by (auto simp: scanColumn_def column_ok_def list_all_iff)
    then show ?thesis using Some by (simp add: scanRow_def latest_def mt_def)
  qed
qed

lemma scanLoop_take: "scanLoop mt keys limit results = results @ take (nat (limit - int (length results))) (map (scanRow mt) keys)"
proof (induction keys arbitrary: results)
  case (Cons k keys)
  show ?case
  proof (cases "limit \<le> int (length results)")
    case False
    then have "nat (limit - int (length results)) = Suc (nat (limit - int (length (results @ [scanRow mt k]))))" by simp
    then show ?thesis using False Cons.IH by simp
  qed simp
qed simp

lemma memtable_keys:
  assumes "wide_ok ws"
  shows "set (map fst (mt_data (ws_memtable ws))) = {r. \<exists>k. latest ws (r, k) \<noteq> None}"
proof -
  define mt where "mt = ws_memtable ws"
  have "r \<in> dom (map_of (mt_data mt)) \<longleftrightarrow> (\<exists>k. rowOf mt r k \<noteq> None)" for r
  proof (cases "map_of (mt_data mt) r")
    case (Some cols)
    then have "cols \<noteq> Map.empty" using assms by (auto simp: wide_ok_def mt_def ran_def)
    then show ?thesis using Some by (auto simp: rowOf_def fun_eq_iff)
  qed (simp add: rowOf_def domIff)
  then show ?thesis unfolding dom_map_of_conv_image_fst by (simp add: latest_def mt_def set_eq_iff)
qed

lemma scan_keys:
  assumes "wide_ok ws"
  shows "scan lo hi limit ws =
    map (scanRow (ws_memtable ws)) (take (nat limit) (sorted_list_of_set {r. lo \<le> r \<and> r \<le> hi \<and> (\<exists>k. latest ws (r, k) \<noteq> None)}))"
proof -
  define keys where "keys = map fst (mt_data (ws_memtable ws))"
  have "distinct keys" using assms by (simp add: wide_ok_def keys_def)
  then have "sort (filter (\<lambda>k. k \<ge> lo \<and> k \<le> hi) keys) = sorted_list_of_set (set (filter (\<lambda>k. k \<ge> lo \<and> k \<le> hi) keys))"
    unfolding sorted_list_of_set_sort_remdups by (simp add: distinct_remdups_id)
  also have "set (filter (\<lambda>k. k \<ge> lo \<and> k \<le> hi) keys) = {r. lo \<le> r \<and> r \<le> hi \<and> (\<exists>k. latest ws (r, k) \<noteq> None)}"
    using memtable_keys [OF assms] by (auto simp: keys_def)
  finally show ?thesis unfolding scan_def keys_def by (simp add: scanLoop_take take_map)
qed

lemma wide_run_new:
  "latest (run wstep newWideColumnStore es) = run kvStep Map.empty (observed wstep kvLabel newWideColumnStore es)"
proof -
  have "latest newWideColumnStore = Map.empty" by (rule ext) (auto simp: latest_def newWideColumnStore_def rowOf_def)
  then show ?thesis using wide.abs_run [of newWideColumnStore es] by simp
qed

text \<open>C16. The store as a map.  After any interleaving of writes and of the steps of the flush goroutines, \<open>Get\<close>
  returns the value last written to the column, and "not found" when nothing was written since the last
  flush cleared the memtable: the store refines a map with updates and a clearing.\<close>

theorem wide_store_refines_map:
  "let ws = run wstep newWideColumnStore es;
       m = run kvStep Map.empty (observed wstep kvLabel newWideColumnStore es)
   in get rowKey cfName qualifier ws =
        (case m (rowKey, columnKey cfName qualifier) of None \<Rightarrow> Inl GetNotFound | Some v \<Rightarrow> Inr v)"
proof -
  have "wide_ok (run wstep newWideColumnStore es)" by (rule wide.guarded_run) simp_all
  then show ?thesis
    unfolding Let_def wide_run_new [symmetric] by (rule get_latest)
qed

text \<open>Scans.  In every reachable state \<open>Scan\<close> returns the rows of the interval that hold a value, in
  increasing key order and at most \<open>limit\<close> of them, each with its key and the last value of every column.\<close>

theorem wide_scan_in_key_order:
  "let ws = run wstep newWideColumnStore es;
       m = run kvStep Map.empty (observed wstep kvLabel newWideColumnStore es);
       keys = take (nat limit) (sorted_list_of_set {r. startKey \<le> r \<and> r \<le> endKey \<and> (\<exists>k. m (r, k) \<noteq> None)})
   in map (\<lambda>row. row ''key'') (scan startKey endKey limit ws) = map (\<lambda>k. Some (KeyV k)) keys \<and>
      map (\<lambda>row. row (columnKey cfName qualifier)) (scan startKey endKey limit ws) =
        map (\<lambda>k. map_option BytesV (m (k, columnKey cfName qualifier))) keys"
proof -
  have ok: "wide_ok (run wstep newWideColumnStore es)" by (rule wide.guarded_run) simp_all
  show ?thesis
    unfolding Let_def wide_run_new [symmetric] scan_keys [OF ok] by (simp add: scanRow_latest [OF ok])
qed

section \<open>The flush\<close>

text \<open>The flushed table goes to level 0 of the compactor only, which \<open>Get\<close> does not read: once the memtable
  is cleared every value is gone.\<close>

lemma flush_started:
  assumes "length v > 100 * 1024 * 1024" and "length v < 2 ^ 62"
  shows "get r cf q (run wstep newWideColumnStore
           [OpPut now r cf q v, OpFlushStart, OpFlushKeys, OpFlushAppend, OpFlushClear]) = Inl GetNotFound"
proof -
  have "in_i64 (int (length v))" using assms(2) by (intro in_i64I) simp_all
  then have "mt_size (memPut now r cf q v (ws_memtable newWideColumnStore)) = int (length v)"
    by (simp add: memPut_def newWideColumnStore_def Let_def)
  moreover have "mt_maxSize (memPut now r cf q v (ws_memtable newWideColumnStore)) = 100 * 1024 * 1024"
    by (simp add: memPut_def newWideColumnStore_def Let_def)
  ultimately have "ws_pending (put now r cf q v newWideColumnStore) = 1"
    using assms(1) by (simp add: put_def Let_def newWideColumnStore_def)
  moreover have "\<not> ws_running (put now r cf q v newWideColumnStore)" by (simp add: newWideColumnStore_def)
  moreover have "ws_sstables (put now r cf q v newWideColumnStore) = []" by (simp add: newWideColumnStore_def)
  ultimately show ?thesis by (simp add: flush_defs Let_def get_def)
qed

theorem flushed_value_lost:
  "\<exists>v. get r cf q (run wstep newWideColumnStore
           [OpPut now r cf q v, OpFlushStart, OpFlushKeys, OpFlushAppend, OpFlushClear]) = Inl GetNotFound"
  by (rule exI [of _ "replicate (100 * 1024 * 1024 + 1) 0"], rule flush_started) (simp_all only: length_replicate, simp_all)

text \<open>Two different columns can share a key, because the separator may occur in the names.\<close>

theorem column_keys_collide: "columnKey ''a:b'' ''c'' = columnKey ''a'' ''b:c''"
  by (simp add: columnKey_def)

end
