(* ===== verification/DistributedColumnar.thy ===== *)
theory DistributedColumnar
  imports ConsistentHashing ColumnarStorage
begin

text \<open>
  The distributed column store of \<open>src/solutions/solution23_columnar_storage.go\<close> (\<open>DistributedColumnar\<close>): \<open>Write\<close>
  with its quorum, \<open>Query\<close> with its deduplication, the health check and the rebalancing flag.  The slice of
  nodes and the coordinator's map point to the same node objects, which are kept in one map by their
  identifiers.  The goroutines of \<open>Write\<close> work on different nodes; they run in the order given by an argument, as
  do the results that \<open>Query\<close> receives.  Composes the hash ring of \<open>ConsistentHashing\<close> with the stores of
  \<open>ColumnarStorage\<close>.  Shown: when a write is acknowledged and what it leaves on every node, in every reachable
  state; and that a query returns nothing, because no operation creates the columns of the nodes.
\<close>

section \<open>Data and operations\<close>

record StorageNode =
  sn_ID :: string
  sn_Storage :: ColumnarStorage
  sn_Status :: string
  sn_LastHeartbeat :: gotime

record DistributedColumnar =
  dc_nodes :: "string list"
  dc_heap :: "string \<rightharpoonup> StorageNode"
  dc_rebalancing :: bool
  dc_replication :: nat
  dc_shardMap :: ConsistentHash

definition nodeName :: "nat \<Rightarrow> string" where
  "nodeName i = ''node-'' @ itoa (int i)"

definition newDistributedColumnar :: "nat \<Rightarrow> nat \<Rightarrow> gotime \<Rightarrow> DistributedColumnar" where
  "newDistributedColumnar numNodes replication now =
     (let ids = map nodeName [0..<numNodes]
      in \<lparr>dc_nodes = ids,
          dc_heap = (\<lambda>nid. if nid \<in> set ids
                       then Some \<lparr>sn_ID = nid, sn_Storage = newColumnarStorage, sn_Status = ''active'', sn_LastHeartbeat = now\<rparr>
                       else None),
          dc_rebalancing = False, dc_replication = replication,
          dc_shardMap = fold addNode ids (newConsistentHash 100)\<rparr>)"

datatype WriteError = NoNodesAvailable | NoWriteQuorum

text \<open>The goroutine of one target node: the new state and whether it sent an error; \<open>None\<close> when the insert
  panics.\<close>

definition writeNode :: "gotime \<Rightarrow> row \<Rightarrow> string \<Rightarrow> DistributedColumnar \<Rightarrow> (nat \<times> DistributedColumnar) option" where
  "writeNode now r nid dc =
     (case dc_heap dc nid of
        None \<Rightarrow> Some (1, dc)
      | Some node \<Rightarrow>
          if sn_Status node \<noteq> ''active'' then Some (1, dc)
          else map_option (\<lambda>cs. (0, dc\<lparr>dc_heap := (dc_heap dc)(nid \<mapsto> node\<lparr>sn_Storage := cs\<rparr>)\<rparr>))
                 (insertRow now r (sn_Storage node)))"

fun writeNodes :: "(string \<Rightarrow> gotime) \<Rightarrow> row \<Rightarrow> string list \<Rightarrow> nat \<Rightarrow> DistributedColumnar \<Rightarrow> (nat \<times> DistributedColumnar) option" where
  "writeNodes now r [] errs dc = Some (errs, dc)"
| "writeNodes now r (nid # nids) errs dc =
     (case writeNode (now nid) r nid dc of None \<Rightarrow> None | Some (e, dc') \<Rightarrow> writeNodes now r nids (errs + e) dc')"

definition rowKey :: "(u64 \<Rightarrow> string) \<Rightarrow> string \<Rightarrow> row \<Rightarrow> string" where
  "rowKey fmtFloat table r = table @ ''-'' @ formatV fmtFloat (case map_of r ''id'' of None \<Rightarrow> NilV | Some v \<Rightarrow> v)"

definition targets :: "(u64 \<Rightarrow> string) \<Rightarrow> string \<Rightarrow> row \<Rightarrow> DistributedColumnar \<Rightarrow> string list" where
  "targets fmtFloat table r dc = getNodes (dc_shardMap dc) (rowKey fmtFloat table r) (dc_replication dc)"

text \<open>\<open>order\<close> lists the target nodes in the order in which their goroutines run.\<close>

definition writeRow :: "(u64 \<Rightarrow> string) \<Rightarrow> (string \<Rightarrow> gotime) \<Rightarrow> string list \<Rightarrow> string \<Rightarrow> row \<Rightarrow> DistributedColumnar
    \<Rightarrow> ((WriteError + unit) \<times> DistributedColumnar) option" where
  "writeRow fmtFloat now order table r dc =
     (if targets fmtFloat table r dc = [] then Some (Inl NoNodesAvailable, dc)
      else (case writeNodes now r order 0 dc of
              None \<Rightarrow> None
            | Some (errs, dc') \<Rightarrow>
                if errs > dc_replication dc div 2 then Some (Inl NoWriteQuorum, dc') else Some (Inr (), dc')))"

text \<open>The merge of \<open>Query\<close>: rows without an id are dropped, ids seen before too.\<close>

fun mergeRows :: "(u64 \<Rightarrow> string) \<Rightarrow> (string \<rightharpoonup> GoValue) list \<Rightarrow> string set \<Rightarrow> (string \<rightharpoonup> GoValue) list \<Rightarrow> (string \<rightharpoonup> GoValue) list" where
  "mergeRows fmtFloat [] seen allResults = allResults"
| "mergeRows fmtFloat (r # rs) seen allResults =
     (case r ''id'' of
        None \<Rightarrow> mergeRows fmtFloat rs seen allResults
      | Some v \<Rightarrow>
          if formatV fmtFloat v \<notin> seen then mergeRows fmtFloat rs (insert (formatV fmtFloat v) seen) (allResults @ [r])
          else mergeRows fmtFloat rs seen allResults)"

definition nodeResults :: "string list \<Rightarrow> DistributedColumnar \<Rightarrow> string \<Rightarrow> (string \<rightharpoonup> GoValue) list" where
  "nodeResults columns dc nid =
     (case dc_heap dc nid of
        None \<Rightarrow> []
      | Some node \<Rightarrow> if sn_Status node \<noteq> ''active'' then [] else queryRows columns None (sn_Storage node))"

text \<open>\<open>order\<close> lists the nodes in the order in which their results arrive.\<close>

definition queryAll :: "(u64 \<Rightarrow> string) \<Rightarrow> string list \<Rightarrow> string list \<Rightarrow> DistributedColumnar \<Rightarrow> (string \<rightharpoonup> GoValue) list" where
  "queryAll fmtFloat order columns dc = mergeRows fmtFloat (concat (map (nodeResults columns dc) order)) {} []"

definition heartbeatTimeout :: int where
  "heartbeatTimeout = 30 * 1000000000"

definition expired :: "gotime \<Rightarrow> StorageNode \<Rightarrow> bool" where
  "expired now node \<longleftrightarrow> now - sn_LastHeartbeat node > heartbeatTimeout"

text \<open>One tick of \<open>healthCheck\<close>; the first expired node starts a rebalancing goroutine unless one is running.\<close>

definition healthCheck :: "gotime \<Rightarrow> DistributedColumnar \<Rightarrow> DistributedColumnar" where
  "healthCheck now dc =
     dc\<lparr>dc_heap := (\<lambda>nid. map_option (\<lambda>node. if expired now node then node\<lparr>sn_Status := ''failed''\<rparr> else node) (dc_heap dc nid)),
        dc_rebalancing := (dc_rebalancing dc \<or> (\<exists>nid \<in> set (dc_nodes dc). case dc_heap dc nid of None \<Rightarrow> False | Some node \<Rightarrow> expired now node))\<rparr>"

definition rebalance :: "DistributedColumnar \<Rightarrow> DistributedColumnar" where
  "rebalance dc = dc\<lparr>dc_rebalancing := False\<rparr>"

text \<open>Histories; a write whose insert panics ends the program, so the state after it does not matter.\<close>

datatype DOp = DWrite "string \<Rightarrow> gotime" "string list" string row | DHealth gotime | DRebalance

fun dstep :: "(u64 \<Rightarrow> string) \<Rightarrow> DistributedColumnar \<Rightarrow> DOp \<Rightarrow> DistributedColumnar" where
  "dstep fmtFloat dc (DWrite now order table r) =
     (case writeRow fmtFloat now order table r dc of None \<Rightarrow> dc | Some (_, dc') \<Rightarrow> dc')"
| "dstep fmtFloat dc (DHealth now) = healthCheck now dc"
| "dstep fmtFloat dc DRebalance = rebalance dc"

section \<open>The effect of a write\<close>

text \<open>The nodes of a store built by \<open>NewDistributedColumnar\<close> have no columns.\<close>

definition dc_ok :: "DistributedColumnar \<Rightarrow> bool" where
  "dc_ok dc \<longleftrightarrow> dc_shardMap dc = fold addNode (dc_nodes dc) (newConsistentHash 100) \<and>
     (\<forall>nid. case dc_heap dc nid of None \<Rightarrow> True
             | Some node \<Rightarrow> nid \<in> set (dc_nodes dc) \<and> cs_columns (sn_Storage node) = Map.empty)"

lemma dc_ok_columns: "dc_ok dc \<Longrightarrow> dc_heap dc nid = Some node \<Longrightarrow> cs_columns (sn_Storage node) = Map.empty"
  by (auto simp: dc_ok_def split: option.splits)

definition available :: "DistributedColumnar \<Rightarrow> string \<Rightarrow> bool" where
  "available dc nid = (case dc_heap dc nid of None \<Rightarrow> False | Some node \<Rightarrow> sn_Status node = ''active'')"

text \<open>What one write does to a node without columns.\<close>

definition logged :: "gotime \<Rightarrow> row \<Rightarrow> StorageNode \<Rightarrow> StorageNode" where
  "logged now r node = node\<lparr>sn_Storage := countRow (walAppend now r (sn_Storage node))\<rparr>"

lemma insertColumns_no_columns: "cs_columns cs = Map.empty \<Longrightarrow> insertColumns r cs = Some cs"
  by (induction r) (auto simp: insertColumn_def)

lemma insertRow_no_columns: "cs_columns cs = Map.empty \<Longrightarrow> insertRow now r cs = Some (countRow (walAppend now r cs))"
  by (simp add: insertRow_def insertColumns_no_columns walAppend_def)

lemma writeNode_no_columns:
  assumes "dc_ok dc"
  shows "writeNode now r nid dc =
    Some (if available dc nid then (0, dc\<lparr>dc_heap := (dc_heap dc)(nid \<mapsto> logged now r (the (dc_heap dc nid)))\<rparr>) else (1, dc))"
proof (cases "dc_heap dc nid")
  case (Some node)
  then have "cs_columns (sn_Storage node) = Map.empty" using dc_ok_columns [OF assms] by blast
  then show ?thesis using Some by (simp add: writeNode_def available_def insertRow_no_columns logged_def)
qed (simp add: writeNode_def available_def)

lemma logged_fields [simp]:
  "cs_columns (sn_Storage (logged now r node)) = cs_columns (sn_Storage node)" "sn_Status (logged now r node) = sn_Status node"
  by (simp_all add: logged_def countRow_def walAppend_def Let_def)

lemma dc_ok_logged:
  assumes "dc_ok dc" and "available dc nid"
  shows "dc_ok (dc\<lparr>dc_heap := (dc_heap dc)(nid \<mapsto> logged now r (the (dc_heap dc nid)))\<rparr>)"
proof -
  obtain node where "dc_heap dc nid = Some node" using assms(2) by (auto simp: available_def split: option.splits)
  then show ?thesis using assms(1) by (auto simp: dc_ok_def split: option.splits)
qed

text \<open>All goroutines of a write: every available target logs the row, the others count as errors.\<close>

definition write_effect :: "(string \<Rightarrow> gotime) \<Rightarrow> row \<Rightarrow> string list \<Rightarrow> DistributedColumnar \<Rightarrow> DistributedColumnar" where
  "write_effect now r nids dc =
     dc\<lparr>dc_heap := (\<lambda>nid. if nid \<in> set nids \<and> available dc nid then Some (logged (now nid) r (the (dc_heap dc nid))) else dc_heap dc nid)\<rparr>"

lemma available_logged:
  "available dc nid \<Longrightarrow> available (dc\<lparr>dc_heap := (dc_heap dc)(nid \<mapsto> logged now r (the (dc_heap dc nid)))\<rparr>) = available dc"
  by (rule ext) (auto simp: available_def split: option.splits)

lemma write_effect_Cons:
  assumes "nid \<notin> set nids"
  shows "write_effect now r (nid # nids) dc =
    write_effect now r nids (if available dc nid then dc\<lparr>dc_heap := (dc_heap dc)(nid \<mapsto> logged (now nid) r (the (dc_heap dc nid)))\<rparr> else dc)"
  using assms by (auto simp: write_effect_def available_logged fun_eq_iff intro!: DistributedColumnar.equality)

lemma writeNodes_effect:
  assumes "dc_ok dc" and "distinct nids"
  shows "writeNodes now r nids errs dc = Some (errs + length (filter (\<lambda>nid. \<not> available dc nid) nids), write_effect now r nids dc)"
  using assms
proof (induction nids arbitrary: errs dc)
  case Nil
  then show ?case by (simp add: write_effect_def)
next
  case (Cons nid nids)
  show ?case
  proof (cases "available dc nid")
    case True
    then show ?thesis
      using Cons.IH [OF dc_ok_logged [OF Cons.prems(1) True]] Cons.prems
      by (simp add: writeNode_no_columns write_effect_Cons available_logged)
  next
    case False
    then show ?thesis using Cons by (simp add: writeNode_no_columns write_effect_Cons)
  qed
qed

lemma dc_ok_write_effect: "dc_ok dc \<Longrightarrow> dc_ok (write_effect now r nids dc)"
  unfolding dc_ok_def by (auto simp: write_effect_def available_def split: option.splits)

lemma dc_ok_new: "dc_ok (newDistributedColumnar numNodes replication now)"
  by (simp add: dc_ok_def newDistributedColumnar_def newColumnarStorage_def Let_def)

lemma distinct_targets: "dc_ok dc \<Longrightarrow> distinct (targets fmtFloat table r dc)"
  by (simp add: dc_ok_def targets_def getNodes_clockwise ring_ok_fold)

text \<open>A write, for every order of its goroutines.\<close>

lemma writeRow_effect:
  assumes "dc_ok dc" and "mset order = mset (targets fmtFloat table r dc)"
  shows "writeRow fmtFloat now order table r dc =
    Some (if order = [] then Inl NoNodesAvailable
          else if length (filter (\<lambda>nid. \<not> available dc nid) order) > dc_replication dc div 2 then Inl NoWriteQuorum
          else Inr (), write_effect now r order dc)"
proof -
  have "distinct order" using distinct_targets [OF assms(1), of fmtFloat table r] assms(2) by (metis mset_eq_imp_distinct_iff)
  moreover have "targets fmtFloat table r dc = [] \<longleftrightarrow> order = []" using assms(2) by auto
  ultimately show ?thesis
    using writeNodes_effect [OF assms(1)] by (simp add: writeRow_def write_effect_def [of _ _ "[]"])
qed

definition dop_ok :: "(u64 \<Rightarrow> string) \<Rightarrow> DistributedColumnar \<Rightarrow> DOp \<Rightarrow> bool" where
  "dop_ok fmtFloat dc e = (case e of DWrite now order table r \<Rightarrow> mset order = mset (targets fmtFloat table r dc) | _ \<Rightarrow> True)"

lemma dc_ok_step: "dc_ok dc \<Longrightarrow> dop_ok fmtFloat dc e \<Longrightarrow> dc_ok (dstep fmtFloat dc e)"
proof (cases e)
  case (DWrite now order table r)
  assume "dc_ok dc" and "dop_ok fmtFloat dc e"
  then show ?thesis using DWrite by (simp add: dop_ok_def writeRow_effect dc_ok_write_effect)
qed (auto simp: dc_ok_def healthCheck_def rebalance_def split: option.splits)

interpretation dcol: guarded_object "dstep fmtFloat" dc_ok "dop_ok fmtFloat" for fmtFloat
  by unfold_locales (rule dc_ok_step)

text \<open>C17. Quorum writes.  In every state reached by writes, health checks and rebalancing, a write addresses
  distinct nodes of the ring and never panics; it fails when there is no target or when more than half of the
  replication factor of them is unavailable, and in every case the available targets, and no other node,
  have appended the row to their log, in whatever order the goroutines ran.\<close>

theorem write_quorum:
  assumes "admissible (dstep fmtFloat) (dop_ok fmtFloat) (newDistributedColumnar numNodes replication t0) es"
    and "dc = run (dstep fmtFloat) (newDistributedColumnar numNodes replication t0) es"
    and "mset order = mset (targets fmtFloat table r dc)"
  shows "distinct order \<and>
    (\<exists>result. writeRow fmtFloat now order table r dc = Some (result, write_effect now r order dc) \<and>
       (result = Inr () \<longleftrightarrow> order \<noteq> [] \<and> length (filter (\<lambda>nid. \<not> available dc nid) order) \<le> dc_replication dc div 2))"
proof -
  have ok: "dc_ok dc" unfolding assms(2) by (rule dcol.guarded_run [OF dc_ok_new assms(1)])
  have "distinct order" using distinct_targets [OF ok, of fmtFloat table r] assms(3) by (metis mset_eq_imp_distinct_iff)
  then show ?thesis using writeRow_effect [OF ok assms(3), of now] by auto
qed

text \<open>On a ring with a single node every key belongs to it.\<close>

lemma single_node_targets:
  assumes "dc = newDistributedColumnar 1 (Suc k) t0"
  shows "targets fmtFloat table r dc = [''node-0'']"
proof -
  have n0: "nodeName 0 = ''node-0''" by code_simp
  define ch where "ch = fold addNode [''node-0''] (newConsistentHash 100)"
  have ch: "dc_shardMap dc = ch" "dc_replication dc = Suc k"
    using assms n0 by (simp_all add: newDistributedColumnar_def ch_def Let_def)
  have "map_of (ch_ring ch) x = Some v \<Longrightarrow> v = ''node-0''" for x v
    by (auto simp: ch_def addNode_ring newConsistentHash_def split: if_splits)
  then have sub: "ran (map_of (ch_ring ch)) \<subseteq> {''node-0''}" by (auto simp: ran_def)
  have "map_of (ch_ring ch) (hashKey (''node-0'' @ ''-'' @ itoa (int 0))) = Some ''node-0''"
    unfolding ch_def by (simp only: fold_simps id_apply comp_apply addNode_ring newConsistentHash_def ConsistentHash.select_convs)
      (subst if_P, auto intro: image_eqI [where x = 0])
  then have ran: "ran (map_of (ch_ring ch)) = {''node-0''}" using sub by (auto simp: ran_def)
  define ns where "ns = getNodes ch (rowKey fmtFloat table r) (Suc k)"
  have ok: "ring_ok ch" unfolding ch_def by (rule ring_ok_fold) simp
  have "ns = take (Suc k) (firsts (clockwise ch (hashKey (rowKey fmtFloat table r))))"
    by (simp only: ns_def getNodes_clockwise [OF ok])
  moreover have "set (firsts (clockwise ch (hashKey (rowKey fmtFloat table r)))) = {''node-0''}"
    by (simp only: set_firsts clockwise_owners [OF ok] ran)
  then have "firsts (clockwise ch (hashKey (rowKey fmtFloat table r))) = [''node-0'']"
    using distinct_firsts by (rule distinct_singleton_list)
  ultimately show ?thesis by (simp add: targets_def ch ns_def)
qed

theorem write_quorum_witness:
  "let dc = newDistributedColumnar 1 2 0; r = [(''id'', IntV 7)] in
     mset [''node-0''] = mset (targets (\<lambda>_. '''') ''metrics'' r dc) \<and>
     writeRow (\<lambda>_. '''') (\<lambda>_. 5) [''node-0''] ''metrics'' r dc = Some (Inr (), write_effect (\<lambda>_. 5) r [''node-0''] dc)"
proof -
  define dc where "dc = newDistributedColumnar 1 2 0"
  have dc: "dc = run (dstep (\<lambda>_. '''')) (newDistributedColumnar 1 2 0) []" by (simp add: dc_def)
  have t: "mset [''node-0''] = mset (targets (\<lambda>_. '''') ''metrics'' [(''id'', IntV 7)] dc)"
    using single_node_targets [of dc 1 0 "\<lambda>_. ''''" "''metrics''" "[(''id'', IntV 7)]"] by (simp add: dc_def numeral_2_eq_2)
  have r: "dc_replication dc = 2" by (simp add: dc_def newDistributedColumnar_def Let_def)
  have adm: "admissible (dstep (\<lambda>_. '''')) (dop_ok (\<lambda>_. '''')) (newDistributedColumnar 1 2 0) []" by simp
  have le: "length (filter (\<lambda>nid. \<not> available dc nid) [''node-0'']) \<le> dc_replication dc div 2" using r by simp
  have "writeRow (\<lambda>_. '''') (\<lambda>_. 5) [''node-0''] ''metrics'' [(''id'', IntV 7)] dc =
      Some (Inr (), write_effect (\<lambda>_. 5) [(''id'', IntV 7)] [''node-0''] dc)"
    using write_quorum [OF adm dc t, of "\<lambda>_. 5"] le by auto
  then show ?thesis using t unfolding Let_def dc_def [symmetric] by blast
qed

text \<open>Queries.  In every state reached by writes, health checks and rebalancing, a distributed query
  returns no rows, whatever was written and acknowledged: the nodes' stores are created without columns
  and no operation of the distributed store creates any, so the inserts drop the values.\<close>

theorem distributed_query_empty:
  assumes "admissible (dstep fmtFloat) (dop_ok fmtFloat) (newDistributedColumnar numNodes replication t0) es"
  shows "queryAll fmtFloat order columns (run (dstep fmtFloat) (newDistributedColumnar numNodes replication t0) es) = []"
proof -
  define dc where "dc = run (dstep fmtFloat) (newDistributedColumnar numNodes replication t0) es"
  have ok: "dc_ok dc" unfolding dc_def by (rule dcol.guarded_run [OF dc_ok_new assms])
  have "nodeResults columns dc nid = []" for nid
  proof (cases "dc_heap dc nid")
    case (Some node)
    then have "cs_columns (sn_Storage node) = Map.empty" using dc_ok_columns [OF ok] by blast
    then show ?thesis using Some numRows_const [of "sn_Storage node" 0 columns 0] by (simp add: nodeResults_def queryRows_def)
  qed (simp add: nodeResults_def)
  then have "concat (map (nodeResults columns dc) order) = []" by (induction order) simp_all
  then show ?thesis by (simp only: dc_def [symmetric] queryAll_def mergeRows.simps)
qed

theorem distributed_query_empty_witness:
  "let dc = newDistributedColumnar 1 2 0; r = [(''id'', IntV 7)] in
     dop_ok (\<lambda>_. '''') dc (DWrite (\<lambda>_. 5) [''node-0''] ''metrics'' r) \<and>
     queryAll (\<lambda>_. '''') [''node-0''] [''id''] (dstep (\<lambda>_. '''') dc (DWrite (\<lambda>_. 5) [''node-0''] ''metrics'' r)) = []"
proof -
  define dc where "dc = newDistributedColumnar 1 2 0"
  define e where "e = DWrite (\<lambda>_. 5) [''node-0''] ''metrics'' [(''id'', IntV 7)]"
  have ok: "dop_ok (\<lambda>_. '''') dc e"
    using single_node_targets [of dc 1 0 "\<lambda>_. ''''" "''metrics''" "[(''id'', IntV 7)]"] by (simp add: dc_def e_def dop_ok_def numeral_2_eq_2)
  have "queryAll (\<lambda>_. '''') [''node-0''] [''id''] (dstep (\<lambda>_. '''') dc e) = []"
    using distributed_query_empty [of "\<lambda>_. ''''" 1 2 0 "[e]" "[''node-0'']" "[''id'']"] ok by (simp add: dc_def)
  then show ?thesis using ok by (simp only: dc_def e_def Let_def)
qed

text \<open>With fewer nodes than replicas the quorum test accepts a write that no node stored: 35 seconds after
  the start the only node counts as failed, since nothing renews its heartbeat.\<close>

theorem write_acknowledged_without_copy:
  "let dc = healthCheck 35000000000 (newDistributedColumnar 1 2 0) in
     \<not> available dc ''node-0'' \<and>
     writeRow (\<lambda>_. '''') (\<lambda>_. 0) [''node-0''] ''metrics'' [(''id'', IntV 7)] dc = Some (Inr (), dc)"
proof -
  define dc0 where "dc0 = newDistributedColumnar 1 2 0"
  define dc where "dc = healthCheck 35000000000 dc0"
  have n0: "nodeName 0 = ''node-0''" by code_simp
  have un: "\<not> available dc ''node-0''"
    by (simp add: dc_def dc0_def newDistributedColumnar_def healthCheck_def available_def expired_def heartbeatTimeout_def n0 Let_def)
  have t: "targets (\<lambda>_. '''') ''metrics'' [(''id'', IntV 7)] dc = [''node-0'']"
    using single_node_targets [of dc0 1 0 "\<lambda>_. ''''" "''metrics''" "[(''id'', IntV 7)]"]
    by (simp add: dc_def dc0_def healthCheck_def targets_def numeral_2_eq_2)
  have ok: "dc_ok dc" using dc_ok_step [OF dc_ok_new, of "\<lambda>_. ''''" 1 2 0 "DHealth 35000000000"] by (simp add: dc_def dc0_def dop_ok_def)
  have "dc_replication dc = 2" by (simp add: dc_def dc0_def healthCheck_def newDistributedColumnar_def Let_def)
  then have "writeRow (\<lambda>_. '''') (\<lambda>_. 0) [''node-0''] ''metrics'' [(''id'', IntV 7)] dc =
      Some (Inr (), write_effect (\<lambda>_. 0) [(''id'', IntV 7)] [''node-0''] dc)"
    using writeRow_effect [OF ok, of "[''node-0'']" "\<lambda>_. ''''" "''metrics''"] t un by simp
  moreover have "write_effect (\<lambda>_. 0) [(''id'', IntV 7)] [''node-0''] dc = dc"
    using un by (auto simp: write_effect_def fun_eq_iff intro!: DistributedColumnar.equality)
  ultimately show ?thesis using un by (simp add: dc_def dc0_def Let_def)
qed

end
