(* ===== verification/GraphTraversal.thy ===== *)
theory GraphTraversal
  imports GoPrelude
begin

text \<open>
  The lock-free graph of \<open>src/solutions/solution21_graph_database.go\<close> (\<open>LockFreeGraph\<close>): adding nodes and edges,
  breadth-first search by levels and depth-first search.  The concurrent maps are read and written one entry at
  a time; \<open>AddNode\<close> and \<open>AddEdge\<close> are atomic steps, and the traversals run on a graph that no one changes under a
  context that is not cancelled.  The order in which \<open>Range\<close> visits the edges of a node is an argument, and so is
  the order in which the goroutines of a level reach the queue.  A level with more than 1000 nodes fills the
  queue's channel and blocks, which is an error of the model.  Shown: the graph stays well formed; the
  breadth-first search returns every node closer than the depth bound once, nearest first, with a shortest path;
  the depth-first search ends and finds a path exactly when there is one.
\<close>

section \<open>The graph\<close>

record Edge =
  ed_ID :: string
  ed_From :: string
  ed_To :: string
  ed_Label :: string

record Node =
  nd_ID :: string
  nd_OutEdges :: "(string \<times> Edge) list"
  nd_InEdges :: "(string \<times> Edge) list"

record LockFreeGraph =
  lg_nodes :: "string \<rightharpoonup> Node"
  lg_edges :: "string \<rightharpoonup> Edge"
  lg_nodeCount :: int
  lg_edgeCount :: int

definition newLockFreeGraph :: LockFreeGraph where
  "newLockFreeGraph = \<lparr>lg_nodes = Map.empty, lg_edges = Map.empty, lg_nodeCount = 0, lg_edgeCount = 0\<rparr>"

definition addGraphNode :: "string \<Rightarrow> LockFreeGraph \<Rightarrow> LockFreeGraph" where
  "addGraphNode nid g =
     (case lg_nodes g nid of
        Some _ \<Rightarrow> g
      | None \<Rightarrow> g\<lparr>lg_nodes := (lg_nodes g)(nid \<mapsto> \<lparr>nd_ID = nid, nd_OutEdges = [], nd_InEdges = []\<rparr>),
                  lg_nodeCount := i64 (lg_nodeCount g + 1)\<rparr>)"

text \<open>Storing an edge in the edge map of a node that the code holds a pointer to.\<close>

definition storeOut :: "Edge \<Rightarrow> Node option \<Rightarrow> Node option" where
  "storeOut e = map_option (\<lambda>n. n\<lparr>nd_OutEdges := AList.update (ed_ID e) e (nd_OutEdges n)\<rparr>)"

definition storeIn :: "Edge \<Rightarrow> Node option \<Rightarrow> Node option" where
  "storeIn e = map_option (\<lambda>n. n\<lparr>nd_InEdges := AList.update (ed_ID e) e (nd_InEdges n)\<rparr>)"

definition addGraphEdge :: "string \<Rightarrow> string \<Rightarrow> string \<Rightarrow> string \<Rightarrow> LockFreeGraph \<Rightarrow> LockFreeGraph" where
  "addGraphEdge eid from to label g0 =
     (let g = addGraphNode to (addGraphNode from g0);
          e = \<lparr>ed_ID = eid, ed_From = from, ed_To = to, ed_Label = label\<rparr>
      in case lg_edges g eid of
           Some _ \<Rightarrow> g
         | None \<Rightarrow>
             (let ns1 = (lg_nodes g)(from := storeOut e (lg_nodes g from));
                  ns2 = ns1(to := storeIn e (ns1 to))
              in g\<lparr>lg_edges := (lg_edges g)(eid \<mapsto> e), lg_nodes := ns2, lg_edgeCount := i64 (lg_edgeCount g + 1)\<rparr>))"

datatype GOp = GNode string | GEdge string string string string

fun gstep :: "LockFreeGraph \<Rightarrow> GOp \<Rightarrow> LockFreeGraph" where
  "gstep g (GNode nid) = addGraphNode nid g"
| "gstep g (GEdge eid from to label) = addGraphEdge eid from to label g"

text \<open>The successors of a node, and the edge relation.\<close>

definition outEdges :: "LockFreeGraph \<Rightarrow> string \<Rightarrow> Edge list" where
  "outEdges g nid = (case lg_nodes g nid of None \<Rightarrow> [] | Some n \<Rightarrow> map snd (nd_OutEdges n))"

definition arcs :: "LockFreeGraph \<Rightarrow> (string \<times> string) set" where
  "arcs g = {(u, ed_To e) | u e. e \<in> set (outEdges g u)}"

text \<open>Well-formedness: the out-edges of a node start there, are registered, and lead to nodes of the graph;
  every registered edge is an out-edge of its source and an in-edge of its target.\<close>

definition node_ok :: "Node \<Rightarrow> bool" where
  "node_ok n \<longleftrightarrow> distinct (map fst (nd_OutEdges n)) \<and> list_all (\<lambda>(i, e). ed_ID e = i) (nd_OutEdges n)"

definition graph_ok :: "LockFreeGraph \<Rightarrow> bool" where
  "graph_ok g \<longleftrightarrow>
     (\<forall>u e. e \<in> set (outEdges g u) \<longleftrightarrow> ed_From e = u \<and> lg_edges g (ed_ID e) = Some e) \<and>
     (\<forall>eid e. lg_edges g eid = Some e \<longrightarrow> ed_ID e = eid \<and> ed_From e \<in> dom (lg_nodes g) \<and> ed_To e \<in> dom (lg_nodes g)) \<and>
     (\<forall>u n. lg_nodes g u = Some n \<longrightarrow> node_ok n) \<and>
     finite (dom (lg_nodes g))"

lemma graph_okI:
  assumes "\<And>u e. e \<in> set (outEdges g u) \<longleftrightarrow> ed_From e = u \<and> lg_edges g (ed_ID e) = Some e"
    and "\<And>eid e. lg_edges g eid = Some e \<Longrightarrow> ed_ID e = eid \<and> ed_From e \<in> dom (lg_nodes g) \<and> ed_To e \<in> dom (lg_nodes g)"
    and "\<And>u n. lg_nodes g u = Some n \<Longrightarrow> node_ok n" and "finite (dom (lg_nodes g))"
  shows "graph_ok g"
  using assms unfolding graph_ok_def by blast

lemma graph_ok_new: "graph_ok newLockFreeGraph"
  by (simp add: graph_ok_def newLockFreeGraph_def outEdges_def)

lemma outEdges_addGraphNode [simp]: "outEdges (addGraphNode nid g) u = outEdges g u"
  by (auto simp: addGraphNode_def outEdges_def split: option.splits)

lemma edges_addGraphNode [simp]: "lg_edges (addGraphNode nid g) = lg_edges g"
  by (auto simp: addGraphNode_def split: option.splits)

lemma dom_addGraphNode [simp]: "dom (lg_nodes (addGraphNode nid g)) = insert nid (dom (lg_nodes g))"
  by (auto simp: addGraphNode_def split: option.splits)

lemma node_addGraphNode:
  "lg_nodes (addGraphNode nid g) u = Some n \<Longrightarrow> lg_nodes g u = Some n \<or> node_ok n"
  by (auto simp: addGraphNode_def node_ok_def split: option.splits if_splits)

lemma graph_ok_addGraphNode:
  assumes "graph_ok g"
  shows "graph_ok (addGraphNode nid g)"
proof -
  have "node_ok n" if "lg_nodes (addGraphNode nid g) u = Some n" for u n
    using node_addGraphNode [OF that] assms unfolding graph_ok_def by auto
  then show ?thesis using assms unfolding graph_ok_def by auto
qed

lemma storeOut_ok:
  assumes "node_ok n" and "ed_ID e \<notin> ed_ID ` snd ` set (nd_OutEdges n)"
  shows "node_ok (the (storeOut e (Some n)))"
    and "set (map snd (nd_OutEdges (the (storeOut e (Some n))))) = insert e (set (map snd (nd_OutEdges n)))"
proof -
  have new: "ed_ID e \<notin> fst ` set (nd_OutEdges n)"
    using assms by (force simp: node_ok_def list_all_iff image_iff)
  have upd: "set (AList.update (ed_ID e) e (nd_OutEdges n)) = insert (ed_ID e, e) (set (nd_OutEdges n))"
    using new assms(1) by (subst set_alist_update) (auto simp: node_ok_def image_iff)
  then show "set (map snd (nd_OutEdges (the (storeOut e (Some n))))) = insert e (set (map snd (nd_OutEdges n)))"
    by (simp add: storeOut_def)
  show "node_ok (the (storeOut e (Some n)))"
    using assms(1) upd by (simp add: node_ok_def storeOut_def distinct_update list_all_iff)
qed

text \<open>Adding a new edge between nodes of the graph.\<close>

definition linked :: "Edge \<Rightarrow> LockFreeGraph \<Rightarrow> string \<rightharpoonup> Node" where
  "linked e g =
     (let ns1 = (lg_nodes g)(ed_From e := storeOut e (lg_nodes g (ed_From e)))
      in ns1(ed_To e := storeIn e (ns1 (ed_To e))))"

lemma linked_node:
  "linked e g u = Some n \<Longrightarrow>
     \<exists>n0. lg_nodes g u = Some n0 \<and> nd_OutEdges n = nd_OutEdges (if u = ed_From e then the (storeOut e (Some n0)) else n0)"
  by (auto simp: linked_def Let_def storeOut_def storeIn_def split: if_splits)

lemma dom_linked: "dom (linked e g) = dom (lg_nodes g)"
  by (auto simp: linked_def Let_def storeOut_def storeIn_def domIff)

lemma graph_ok_link:
  assumes ok: "graph_ok g" and new: "lg_edges g (ed_ID e) = None"
    and dom: "ed_From e \<in> dom (lg_nodes g)" "ed_To e \<in> dom (lg_nodes g)"
  shows "graph_ok (g\<lparr>lg_edges := (lg_edges g)(ed_ID e \<mapsto> e), lg_nodes := linked e g, lg_edgeCount := c\<rparr>)" (is "graph_ok ?g")
proof -
  have fresh: "ed_ID e \<notin> ed_ID ` snd ` set (nd_OutEdges n)" if n: "lg_nodes g u = Some n" for u n
  proof
    assume "ed_ID e \<in> ed_ID ` snd ` set (nd_OutEdges n)"
    then obtain e' where "e' \<in> set (outEdges g u)" "ed_ID e' = ed_ID e" using n by (fastforce simp: outEdges_def)
    then show False using ok new by (auto simp: graph_ok_def)
  qed
  have out: "set (outEdges ?g u) = (if u = ed_From e then insert e (set (outEdges g u)) else set (outEdges g u))" for u
  proof (cases "linked e g u")
    case None
    then have "u \<notin> dom (lg_nodes g)" using dom_linked [of e g] by (metis domIff)
    then have "lg_nodes g u = None" "u \<noteq> ed_From e" using dom(1) by auto
    then show ?thesis using None by (simp add: outEdges_def)
  next
    case (Some n)
    then obtain n0 where n0: "lg_nodes g u = Some n0"
      "nd_OutEdges n = nd_OutEdges (if u = ed_From e then the (storeOut e (Some n0)) else n0)" using linked_node by blast
    have "node_ok n0" using ok n0(1) by (auto simp: graph_ok_def)
    then show ?thesis using Some n0 storeOut_ok(2) [OF \<open>node_ok n0\<close> fresh [OF n0(1)]]
      by (cases "u = ed_From e") (simp_all add: outEdges_def)
  qed
  have N: "node_ok n" if n: "linked e g u = Some n" for u n
  proof -
    obtain n0 where n0: "lg_nodes g u = Some n0"
      "nd_OutEdges n = nd_OutEdges (if u = ed_From e then the (storeOut e (Some n0)) else n0)" using linked_node [OF n] by blast
    have "node_ok n0" using ok n0(1) by (auto simp: graph_ok_def)
    then have "node_ok (if u = ed_From e then the (storeOut e (Some n0)) else n0)" using storeOut_ok(1) fresh [OF n0(1)] by simp
    then show ?thesis using n0(2) by (simp add: node_ok_def)
  qed
  have O: "e' \<in> set (outEdges ?g u) \<longleftrightarrow> ed_From e' = u \<and> lg_edges ?g (ed_ID e') = Some e'" for u e'
  proof -
    have "e' \<in> set (outEdges g u) \<longleftrightarrow> ed_From e' = u \<and> lg_edges g (ed_ID e') = Some e'" using ok by (simp add: graph_ok_def)
    then show ?thesis using new by (auto simp: out)
  qed
  have R: "ed_ID e' = eid \<and> ed_From e' \<in> dom (linked e g) \<and> ed_To e' \<in> dom (linked e g)"
    if "((lg_edges g)(ed_ID e \<mapsto> e)) eid = Some e'" for eid e'
    using that ok dom unfolding dom_linked graph_ok_def by (auto split: if_splits)
  show ?thesis
  proof (rule graph_okI)
    show "e' \<in> set (outEdges ?g u) \<longleftrightarrow> ed_From e' = u \<and> lg_edges ?g (ed_ID e') = Some e'" for u e' by (rule O)
    show "ed_ID e' = eid \<and> ed_From e' \<in> dom (lg_nodes ?g) \<and> ed_To e' \<in> dom (lg_nodes ?g)" if "lg_edges ?g eid = Some e'" for eid e'
      using R [of eid e'] that by simp
    show "node_ok n" if "lg_nodes ?g u = Some n" for u n using N [of u n] that by simp
    show "finite (dom (lg_nodes ?g))" using ok by (simp add: dom_linked graph_ok_def)
  qed
qed

lemma graph_ok_addGraphEdge:
  assumes "graph_ok g"
  shows "graph_ok (addGraphEdge eid from to label g)"
proof -
  define g' where "g' = addGraphNode to (addGraphNode from g)"
  define e where "e = \<lparr>ed_ID = eid, ed_From = from, ed_To = to, ed_Label = label\<rparr>"
  have ok: "graph_ok g'" using assms by (simp add: g'_def graph_ok_addGraphNode)
  have dom: "ed_From e \<in> dom (lg_nodes g')" "ed_To e \<in> dom (lg_nodes g')" by (simp_all add: g'_def e_def)
  show ?thesis
  proof (cases "lg_edges g' eid")
    case None
    have "addGraphEdge eid from to label g =
        g'\<lparr>lg_edges := (lg_edges g')(ed_ID e \<mapsto> e), lg_nodes := linked e g', lg_edgeCount := i64 (lg_edgeCount g' + 1)\<rparr>"
      using None by (simp add: addGraphEdge_def g'_def [symmetric] e_def linked_def Let_def)
    then show ?thesis using graph_ok_link [OF ok _ dom] None by (simp add: e_def)
  next
    case (Some e')
    then show ?thesis using ok by (simp add: addGraphEdge_def g'_def [symmetric] Let_def)
  qed
qed

interpretation graph: locked_object gstep graph_ok
proof
  fix g e assume "graph_ok g"
  then show "graph_ok (gstep g e)" by (cases e) (simp_all add: graph_ok_addGraphNode graph_ok_addGraphEdge)
qed

section \<open>Breadth-first search\<close>

record TraversalResult =
  tr_Path :: "string list"
  tr_Distance :: int

datatype BfsError = NodeNotFound | QueueBlocked

text \<open>The orders the code leaves open: in which order \<open>Range\<close> visits the edges of a node, and in which order the
  goroutines of a level send to the queue.\<close>

record Schedule =
  sc_range :: "string \<Rightarrow> Edge list \<Rightarrow> Edge list"
  sc_level :: "nat \<Rightarrow> TraversalResult list \<Rightarrow> TraversalResult list"

text \<open>The callback of \<open>Range\<close> on the edges of the node at the end of a path; new targets are marked at once and
  a goroutine with the extended path is started.\<close>

fun bfsEdges :: "TraversalResult \<Rightarrow> Edge list \<Rightarrow> string set \<Rightarrow> TraversalResult list \<Rightarrow> string set \<times> TraversalResult list" where
  "bfsEdges current [] visited started = (visited, started)"
| "bfsEdges current (e # es) visited started =
     (if ed_To e \<notin> visited
      then bfsEdges current es (insert (ed_To e) visited)
             (started @ [\<lparr>tr_Path = tr_Path current @ [ed_To e], tr_Distance = tr_Distance current + 1\<rparr>])
      else bfsEdges current es visited started)"

text \<open>One level: all entries that were in the queue when the level began.\<close>

fun bfsLevel :: "Schedule \<Rightarrow> LockFreeGraph \<Rightarrow> TraversalResult list \<Rightarrow> string set \<Rightarrow> TraversalResult list \<Rightarrow> string set \<times> TraversalResult list" where
  "bfsLevel sc g [] visited started = (visited, started)"
| "bfsLevel sc g (current # queue) visited started =
     (let u = last (tr_Path current);
          (visited', started') = bfsEdges current (sc_range sc u (outEdges g u)) visited started
      in bfsLevel sc g queue visited' started')"

text \<open>The loop over the depths; \<open>rest\<close> is the number of rounds left.  The channel of the queue has room for
  1000 results; it is empty when the goroutines of a level must all have sent.\<close>

fun bfsLoop :: "Schedule \<Rightarrow> LockFreeGraph \<Rightarrow> nat \<Rightarrow> nat \<Rightarrow> TraversalResult list \<Rightarrow> string set \<Rightarrow> TraversalResult list
    \<Rightarrow> BfsError + TraversalResult list" where
  "bfsLoop sc g depth 0 queue visited results = Inr results"
| "bfsLoop sc g depth (Suc rest) queue visited results =
     (if queue = [] then Inr results
      else (let (visited', started) = bfsLevel sc g queue visited []
            in if length started > 1000 then Inl QueueBlocked
               else bfsLoop sc g (Suc depth) rest (sc_level sc depth started) visited' (results @ queue)))"

definition BFS :: "Schedule \<Rightarrow> LockFreeGraph \<Rightarrow> string \<Rightarrow> int \<Rightarrow> BfsError + TraversalResult list" where
  "BFS sc g start maxDepth =
     (if lg_nodes g start = None then Inl NodeNotFound
      else bfsLoop sc g 0 (nat maxDepth) [\<lparr>tr_Path = [start], tr_Distance = 0\<rparr>] {start} [])"

definition fair :: "Schedule \<Rightarrow> bool" where
  "fair sc \<longleftrightarrow> (\<forall>u es. mset (sc_range sc u es) = mset es) \<and> (\<forall>d ts. mset (sc_level sc d ts) = mset ts)"

text \<open>Paths of the graph, the nodes within a distance, and the nodes at a distance.\<close>

fun is_path :: "('a \<times> 'a) set \<Rightarrow> 'a list \<Rightarrow> bool" where
  "is_path E [] = False"
| "is_path E [x] = True"
| "is_path E (x # y # xs) = ((x, y) \<in> E \<and> is_path E (y # xs))"

definition within :: "('a \<times> 'a) set \<Rightarrow> 'a \<Rightarrow> nat \<Rightarrow> 'a set" where
  "within E s d = {v. \<exists>k \<le> d. (s, v) \<in> E ^^ k}"

definition at_distance :: "('a \<times> 'a) set \<Rightarrow> 'a \<Rightarrow> nat \<Rightarrow> 'a set" where
  "at_distance E s d = {v. (s, v) \<in> E ^^ d \<and> (\<forall>k < d. (s, v) \<notin> E ^^ k)}"

lemma within_0 [simp]: "within E s 0 = {s}"
  by (auto simp: within_def)

lemma at_distance_0 [simp]: "at_distance E s 0 = {s}"
  by (auto simp: at_distance_def)

lemma within_Suc: "within E s (Suc d) = within E s d \<union> at_distance E s (Suc d)"
proof -
  have "v \<in> within E s d \<or> v \<in> at_distance E s (Suc d)" if "(s, v) \<in> E ^^ k" "k \<le> Suc d" for v k
  proof (cases "v \<in> within E s d")
    case False
    then have "k = Suc d" using that unfolding within_def by (metis (mono_tags, lifting) le_SucE mem_Collect_eq)
    then show ?thesis using that False by (auto simp: within_def at_distance_def)
  qed simp
  moreover have "at_distance E s (Suc d) \<subseteq> within E s (Suc d)" "within E s d \<subseteq> within E s (Suc d)"
    by (auto simp: within_def at_distance_def simp del: relpow.simps intro: le_SucI)
  ultimately show ?thesis by (auto simp: within_def simp del: relpow.simps)
qed

lemma at_distance_Suc: "at_distance E s (Suc d) = E `` at_distance E s d - within E s d"
proof
  show "at_distance E s (Suc d) \<subseteq> E `` at_distance E s d - within E s d"
  proof
    fix v assume v: "v \<in> at_distance E s (Suc d)"
    then obtain u where u: "(s, u) \<in> E ^^ d" "(u, v) \<in> E" by (auto simp: at_distance_def)
    have "(s, u) \<notin> E ^^ k" if "k < d" for k
      using v u(2) that unfolding at_distance_def by (metis (mono_tags, lifting) Suc_mono mem_Collect_eq relpow_Suc_I)
    then show "v \<in> E `` at_distance E s d - within E s d" using u v by (auto simp: at_distance_def within_def)
  qed
  show "E `` at_distance E s d - within E s d \<subseteq> at_distance E s (Suc d)"
    by (auto simp: at_distance_def within_def less_Suc_eq_le)
qed

lemma is_path_snoc: "is_path E (p @ [v]) \<longleftrightarrow> p = [] \<or> is_path E p \<and> (last p, v) \<in> E"
  by (induction p rule: is_path.induct) auto

text \<open>What a level starts: the unvisited targets once each, with paths that extend those of the queue.\<close>

definition ends :: "TraversalResult list \<Rightarrow> string list" where
  "ends ts = map (\<lambda>t. last (tr_Path t)) ts"

definition paths_ok :: "(string \<times> string) set \<Rightarrow> string \<Rightarrow> nat \<Rightarrow> TraversalResult list \<Rightarrow> bool" where
  "paths_ok E s d ts \<longleftrightarrow>
     list_all (\<lambda>t. is_path E (tr_Path t) \<and> hd (tr_Path t) = s \<and> length (tr_Path t) = Suc d \<and> tr_Distance t = int d) ts"

lemma bfsEdges_facts:
  assumes "bfsEdges c es V st = (V', st')" and "distinct (ends st)" and "set (ends st) \<subseteq> V"
    and "is_path E (tr_Path c)" "hd (tr_Path c) = s" "length (tr_Path c) = Suc d" "tr_Distance c = int d"
    and "\<forall>e \<in> set es. (last (tr_Path c), ed_To e) \<in> E" and "paths_ok E s (Suc d) st"
  shows "V' = V \<union> ed_To ` set es \<and> distinct (ends st') \<and> set (ends st') = set (ends st) \<union> (ed_To ` set es - V) \<and>
         paths_ok E s (Suc d) st'"
  using assms
proof (induction es arbitrary: V st)
  case Nil
  then show ?case by auto
next
  case (Cons e es)
  show ?case
  proof (cases "ed_To e \<in> V")
    case True
    then show ?thesis using Cons.IH [of V st] Cons.prems by (auto simp: insert_absorb)
  next
    case False
    define t where "t = \<lparr>tr_Path = tr_Path c @ [ed_To e], tr_Distance = tr_Distance c + 1\<rparr>"
    have p: "paths_ok E s (Suc d) (st @ [t])"
      using Cons.prems(4-9) is_path_snoc [of E "tr_Path c" "ed_To e"] by (auto simp: paths_ok_def t_def hd_append)
    have en: "ends (st @ [t]) = ends st @ [ed_To e]" by (simp add: ends_def t_def)
    have "bfsEdges c es (insert (ed_To e) V) (st @ [t]) = (V', st')" using Cons.prems(1) False by (simp add: t_def)
    then have "V' = insert (ed_To e) V \<union> ed_To ` set es \<and> distinct (ends st') \<and>
        set (ends st') = set (ends (st @ [t])) \<union> (ed_To ` set es - insert (ed_To e) V) \<and> paths_ok E s (Suc d) st'"
      using Cons.prems(2-8) False p en by (intro Cons.IH) auto
    then show ?thesis using False en by auto
  qed
qed

lemma arcs_range:
  assumes "fair sc"
  shows "ed_To ` set (sc_range sc u (outEdges g u)) = arcs g `` {u}"
proof -
  have "mset (sc_range sc u (outEdges g u)) = mset (outEdges g u)" using assms by (simp add: fair_def)
  then have "set (sc_range sc u (outEdges g u)) = set (outEdges g u)" by (rule mset_eq_setD)
  then show ?thesis by (auto simp: arcs_def)
qed

lemma bfsLevel_facts:
  assumes "bfsLevel sc g q V st = (V', st')" and "fair sc" and "distinct (ends st)" and "set (ends st) \<subseteq> V"
    and "paths_ok (arcs g) s d q" and "paths_ok (arcs g) s (Suc d) st"
  shows "V' = V \<union> arcs g `` set (ends q) \<and> distinct (ends st') \<and> set (ends st') = set (ends st) \<union> (arcs g `` set (ends q) - V) \<and>
         paths_ok (arcs g) s (Suc d) st'"
  using assms
proof (induction q arbitrary: V st)
  case Nil
  then show ?case by (auto simp: ends_def)
next
  case (Cons c q)
  define u where "u = last (tr_Path c)"
  obtain V1 st1 where 1: "bfsEdges c (sc_range sc u (outEdges g u)) V st = (V1, st1)" by fastforce
  have succ: "ed_To ` set (sc_range sc u (outEdges g u)) = arcs g `` {u}" by (rule arcs_range [OF Cons.prems(2)])
  then have "\<forall>e \<in> set (sc_range sc u (outEdges g u)). (u, ed_To e) \<in> arcs g" by blast
  then have f: "V1 = V \<union> arcs g `` {u} \<and> distinct (ends st1) \<and> set (ends st1) = set (ends st) \<union> (arcs g `` {u} - V) \<and>
      paths_ok (arcs g) s (Suc d) st1"
    using bfsEdges_facts [OF 1 Cons.prems(3,4), of "arcs g" s d] Cons.prems(5,6) succ by (simp add: paths_ok_def u_def)
  have "bfsLevel sc g q V1 st1 = (V', st')" using Cons.prems(1) 1 by (simp add: u_def [symmetric])
  then have "V' = V1 \<union> arcs g `` set (ends q) \<and> distinct (ends st') \<and> set (ends st') = set (ends st1) \<union> (arcs g `` set (ends q) - V1) \<and>
      paths_ok (arcs g) s (Suc d) st'"
    using f Cons.prems(2,4,5) by (intro Cons.IH) (auto simp: paths_ok_def)
  then show ?case using f by (auto simp: ends_def u_def)
qed

lemma at_distance_empty: "at_distance E s d = {} \<Longrightarrow> at_distance E s (d + i) = {}"
  by (induction i) (auto simp: at_distance_Suc)

text \<open>The list of levels the loop produces.\<close>

definition levels_ok :: "(string \<times> string) set \<Rightarrow> string \<Rightarrow> nat \<Rightarrow> TraversalResult list list \<Rightarrow> bool" where
  "levels_ok E s d ls \<longleftrightarrow>
     (\<forall>i < length ls. distinct (ends (ls ! i)) \<and> set (ends (ls ! i)) = at_distance E s (d + i) \<and> paths_ok E s (d + i) (ls ! i))"

lemma levels_ok_Cons:
  "levels_ok E s d (q # ls) \<longleftrightarrow>
     distinct (ends q) \<and> set (ends q) = at_distance E s d \<and> paths_ok E s d q \<and> levels_ok E s (Suc d) ls"
  by (simp add: levels_ok_def All_less_Suc2)

lemma levels_ok_empty: "at_distance E s d = {} \<Longrightarrow> levels_ok E s d (replicate n [])"
  by (simp add: levels_ok_def ends_def paths_ok_def at_distance_empty)

lemma paths_ok_mset: "mset ts = mset us \<Longrightarrow> paths_ok E s d ts \<Longrightarrow> paths_ok E s d us"
  using mset_eq_setD [of ts us] by (simp add: paths_ok_def list_all_iff)

lemma ends_mset: "mset ts = mset us \<Longrightarrow> mset (ends ts) = mset (ends us)"
  by (simp add: ends_def)

lemma bfsLoop_levels:
  assumes "fair sc" and "arcs g \<subseteq> UNIV \<times> D" and "finite D" and "card D \<le> 1000"
    and "distinct (ends q)" "set (ends q) = at_distance (arcs g) s d" "paths_ok (arcs g) s d q" "V = within (arcs g) s d"
  shows "\<exists>ls. bfsLoop sc g d n q V res = Inr (res @ concat ls) \<and> length ls = n \<and> levels_ok (arcs g) s d ls"
  using assms(5-8)
proof (induction n arbitrary: d q V res)
  case 0
  then show ?case by (simp add: levels_ok_def)
next
  case (Suc n)
  show ?case
  proof (cases "q = []")
    case True
    then have "at_distance (arcs g) s d = {}" using Suc.prems(2) by (simp add: ends_def)
    then have "levels_ok (arcs g) s d (replicate (Suc n) [])"
      by (rule levels_ok_empty)
    then show ?thesis using True by (intro exI [of _ "replicate (Suc n) []"]) simp
  next
    case False
    obtain V' st where lev: "bfsLevel sc g q V [] = (V', st)" by fastforce
    define st' where "st' = sc_level sc d st"
    have f: "V' = V \<union> arcs g `` set (ends q)" "distinct (ends st)" "set (ends st) = arcs g `` set (ends q) - V"
      "paths_ok (arcs g) s (Suc d) st"
      using bfsLevel_facts [OF lev assms(1), of s d] Suc.prems(3) by (simp_all add: ends_def paths_ok_def)
    have next_level: "set (ends st) = at_distance (arcs g) s (Suc d)" using f(3) Suc.prems(2,4) by (simp add: at_distance_Suc)
    have "set (ends st) \<subseteq> D" using f(3) assms(2) by auto
    then have "card (set (ends st)) \<le> card D" by (rule card_mono [OF assms(3)])
    moreover have "length (ends st) = length st" by (simp add: ends_def)
    ultimately have "length st \<le> 1000" using distinct_card [OF f(2)] assms(4) by linarith
    have m: "mset st' = mset st" using assms(1) by (simp add: fair_def st'_def)
    have d': "distinct (ends st')" using f(2) ends_mset [OF m] by (metis mset_eq_imp_distinct_iff)
    have s': "set (ends st') = at_distance (arcs g) s (Suc d)" using next_level ends_mset [OF m] by (metis mset_eq_setD)
    have p': "paths_ok (arcs g) s (Suc d) st'" using paths_ok_mset [OF m [symmetric] f(4)] .
    have v': "V' = within (arcs g) s (Suc d)" using f(1) Suc.prems(2,4) by (auto simp: within_Suc at_distance_Suc)
    obtain ls where ls: "bfsLoop sc g (Suc d) n st' V' (res @ q) = Inr ((res @ q) @ concat ls)" "length ls = n"
      "levels_ok (arcs g) s (Suc d) ls" using Suc.IH [OF d' s' p' v'] by blast
    have "bfsLoop sc g d (Suc n) q V res = Inr (res @ concat (q # ls))"
      using False lev \<open>length st \<le> 1000\<close> ls(1) by (simp add: st'_def)
    moreover have "levels_ok (arcs g) s d (q # ls)" using Suc.prems(1-3) ls(3) by (simp add: levels_ok_Cons)
    ultimately show ?thesis using ls(2) by (metis length_Cons)
  qed
qed

lemma graph_ok_run: "graph_ok (run gstep newLockFreeGraph es)"
  using graph.inv_run graph_ok_new by blast

lemma graph_ok_arcs:
  assumes "graph_ok g"
  shows "arcs g \<subseteq> UNIV \<times> dom (lg_nodes g)"
proof -
  have "ed_To e \<in> dom (lg_nodes g)" if "e \<in> set (outEdges g u)" for u e
  proof -
    have "lg_edges g (ed_ID e) = Some e" using assms that unfolding graph_ok_def by blast
    then show ?thesis using assms unfolding graph_ok_def by blast
  qed
  then show ?thesis by (auto simp: arcs_def)
qed

text \<open>The concatenation of the levels.\<close>

definition shortest :: "(string \<times> string) set \<Rightarrow> string \<Rightarrow> TraversalResult \<Rightarrow> bool" where
  "shortest E s t \<longleftrightarrow> is_path E (tr_Path t) \<and> hd (tr_Path t) = s \<and> int (length (tr_Path t)) = tr_Distance t + 1 \<and>
     last (tr_Path t) \<in> at_distance E s (nat (tr_Distance t))"

definition ranked :: "(string \<times> string) set \<Rightarrow> string \<Rightarrow> nat \<Rightarrow> nat \<Rightarrow> TraversalResult list \<Rightarrow> bool" where
  "ranked E s d n ts \<longleftrightarrow> distinct (ends ts) \<and> set (ends ts) = (\<Union>i < n. at_distance E s (d + i)) \<and>
     sorted (map tr_Distance ts) \<and> list_all (\<lambda>t. shortest E s t \<and> int d \<le> tr_Distance t) ts"

lemma levels_ranked: "levels_ok E s d ls \<Longrightarrow> ranked E s d (length ls) (concat ls)"
proof (induction ls arbitrary: d)
  case (Cons q ls)
  have q: "distinct (ends q)" "set (ends q) = at_distance E s d" "paths_ok E s d q"
    and IH: "ranked E s (Suc d) (length ls) (concat ls)"
    using Cons by (simp_all add: levels_ok_Cons)
  have dist_q: "\<forall>t \<in> set q. tr_Distance t = int d" using q(3) by (auto simp: paths_ok_def list_all_iff)
  have later: "\<forall>t \<in> set (concat ls). int (Suc d) \<le> tr_Distance t" using IH by (simp add: ranked_def list_all_iff)
  have ends_app: "ends (q @ concat ls) = ends q @ ends (concat ls)" by (simp add: ends_def)
  have ends_ls: "set (ends (concat ls)) = (\<Union>i < length ls. at_distance E s (Suc d + i))" using IH by (simp add: ranked_def)
  have "at_distance E s d \<inter> at_distance E s (Suc d + i) = {}" for i
    by (auto simp: at_distance_def simp del: relpow.simps)
  then have "distinct (ends (q @ concat ls))"
    using q(1,2) IH ends_ls unfolding ends_app distinct_append by (auto simp: ranked_def)
  moreover have "set (ends (q @ concat ls)) = (\<Union>i < Suc (length ls). at_distance E s (d + i))"
    unfolding ends_app set_append q(2) ends_ls lessThan_Suc_eq_insert_0 by simp
  moreover have "sorted (map tr_Distance q)" using dist_q by (simp add: sorted_wrt_map sorted_wrt_iff_nth_less)
  then have "sorted (map tr_Distance (q @ concat ls))"
    using IH dist_q later unfolding map_append sorted_append by (fastforce simp: ranked_def)
  moreover have "shortest E s t \<and> int d \<le> tr_Distance t" if t: "t \<in> set q" for t
  proof -
    have "last (tr_Path t) \<in> at_distance E s d" using q(2) t by (auto simp: ends_def)
    then show ?thesis using q(3) t by (auto simp: shortest_def paths_ok_def list_all_iff)
  qed
  then have "list_all (\<lambda>t. shortest E s t \<and> int d \<le> tr_Distance t) (q @ concat ls)"
    using IH by (force simp: ranked_def list_all_iff)
  ultimately show ?case by (simp add: ranked_def)
qed (simp add: ranked_def ends_def)


definition sc0 :: Schedule where
  "sc0 = \<lparr>sc_range = (\<lambda>_ es. es), sc_level = (\<lambda>_ ts. rev ts)\<rparr>"

definition triangle :: LockFreeGraph where
  "triangle = run gstep newLockFreeGraph [GEdge ''e1'' ''A'' ''B'' ''x'', GEdge ''e2'' ''B'' ''C'' ''x'', GEdge ''e3'' ''A'' ''C'' ''x'']"

lemma dom_triangle: "dom (lg_nodes triangle) = {''A'', ''B'', ''C''}"
  by (auto simp: triangle_def addGraphEdge_def addGraphNode_def newLockFreeGraph_def storeOut_def storeIn_def Let_def split: if_splits)


section \<open>Depth-first search\<close>

text \<open>The recursive closure \<open>dfs\<close> and its \<open>Range\<close> loop, with the shared \<open>visited\<close> map as state and the depth of the
  recursion bounded by fuel: the result is \<open>None\<close> when the fuel does not suffice.  The inner option is the result
  that is sent to the channel.  \<open>append(path, edge.To)\<close> may write into a shared array, but a sibling's path is
  only overwritten after its search has failed.\<close>

function dfs :: "Schedule \<Rightarrow> LockFreeGraph \<Rightarrow> string \<Rightarrow> nat \<Rightarrow> string \<Rightarrow> string list \<Rightarrow> int \<Rightarrow> string set
      \<Rightarrow> (string set \<times> TraversalResult option) option"
  and dfsEdges :: "Schedule \<Rightarrow> LockFreeGraph \<Rightarrow> string \<Rightarrow> nat \<Rightarrow> Edge list \<Rightarrow> string list \<Rightarrow> int \<Rightarrow> string set
      \<Rightarrow> (string set \<times> TraversalResult option) option" where
  "dfs sc g target 0 nid path depth visited = None"
| "dfs sc g target (Suc fuel) nid path depth visited =
     (if nid = target then Some (visited, Some \<lparr>tr_Path = path, tr_Distance = depth\<rparr>)
      else if nid \<in> visited then Some (visited, None)
      else dfsEdges sc g target fuel (sc_range sc nid (outEdges g nid)) path depth (insert nid visited))"
| "dfsEdges sc g target fuel [] path depth visited = Some (visited, None)"
| "dfsEdges sc g target fuel (e # es) path depth visited =
     (case dfs sc g target fuel (ed_To e) (path @ [ed_To e]) (depth + 1) visited of
        None \<Rightarrow> None
      | Some (visited', Some t) \<Rightarrow> Some (visited', Some t)
      | Some (visited', None) \<Rightarrow> dfsEdges sc g target fuel es path depth visited')"
  by pat_completeness auto
termination
  by (relation "measures [\<lambda>x. case x of Inl (sc, g, t, fuel, _) \<Rightarrow> 2 * fuel | Inr (sc, g, t, fuel, _) \<Rightarrow> Suc (2 * fuel),
                          \<lambda>x. case x of Inl _ \<Rightarrow> 0 | Inr (sc, g, t, fuel, es, _) \<Rightarrow> length es]") auto

definition DFS :: "Schedule \<Rightarrow> LockFreeGraph \<Rightarrow> nat \<Rightarrow> string \<Rightarrow> string \<Rightarrow> TraversalResult option option" where
  "DFS sc g fuel start target = map_option snd (dfs sc g target fuel start [start] 0 {})"

text \<open>What a search returns: a path that extends the one so far, or a set of visited nodes that is closed under
  the edges as far as it was enlarged.\<close>

definition dfs_found :: "(string \<times> string) set \<Rightarrow> string \<Rightarrow> string list \<Rightarrow> int \<Rightarrow> TraversalResult \<Rightarrow> bool" where
  "dfs_found E target path depth t \<longleftrightarrow>
     is_path E (tr_Path t) \<and> hd (tr_Path t) = hd path \<and> last (tr_Path t) = target \<and>
     int (length (tr_Path t)) - tr_Distance t = int (length path) - depth"

definition dfs_closed :: "(string \<times> string) set \<Rightarrow> string set \<Rightarrow> string \<Rightarrow> string set \<Rightarrow> string set \<Rightarrow> bool" where
  "dfs_closed E N target V V' \<longleftrightarrow> V \<subseteq> V' \<and> V' \<subseteq> N \<and> target \<notin> V' \<and> E `` (V' - V) \<subseteq> V'"

lemma dfs_closed_trans:
  assumes "dfs_closed E N target V V1" and "dfs_closed E N target V1 V'"
  shows "dfs_closed E N target V V'"
proof -
  have "E `` (V' - V) \<subseteq> E `` (V' - V1) \<union> E `` (V1 - V)" by blast
  then have "E `` (V' - V) \<subseteq> V'" using assms unfolding dfs_closed_def by (meson Un_least subset_trans)
  then show ?thesis using assms by (auto simp: dfs_closed_def)
qed

lemma dfs_outcome:
  assumes "fair sc" and "arcs g \<subseteq> UNIV \<times> N" and "finite N" and "target \<notin> V" and "V \<subseteq> N"
  shows "nid \<in> N \<Longrightarrow> is_path (arcs g) path \<Longrightarrow> last path = nid \<Longrightarrow> card (N - V) < fuel \<Longrightarrow>
      \<exists>V' r. dfs sc g target fuel nid path depth V = Some (V', r) \<and>
        (case r of Some t \<Rightarrow> dfs_found (arcs g) target path depth t
                 | None \<Rightarrow> dfs_closed (arcs g) N target V V' \<and> nid \<in> V')"
    and "is_path (arcs g) path \<Longrightarrow> ed_To ` set es \<subseteq> arcs g `` {last path} \<Longrightarrow> card (N - V) < fuel \<Longrightarrow>
      \<exists>V' r. dfsEdges sc g target fuel es path depth V = Some (V', r) \<and>
        (case r of Some t \<Rightarrow> dfs_found (arcs g) target path depth t
                 | None \<Rightarrow> dfs_closed (arcs g) N target V V' \<and> ed_To ` set es \<subseteq> V')"
  using assms
proof (induction sc g target fuel nid path depth V and sc g target fuel es path depth V rule: dfs_dfsEdges.induct)
  case (2 sc g target fuel nid path depth V)
  show ?case
  proof (cases "nid = target \<or> nid \<in> V")
    case True
    then show ?thesis using "2.prems" by (cases path) (auto simp: dfs_found_def dfs_closed_def)
  next
    case False
    let ?es = "sc_range sc nid (outEdges g nid)"
    have succ: "ed_To ` set ?es = arcs g `` {nid}" by (rule arcs_range [OF "2.prems"(5)])
    have "N - insert nid V \<subset> N - V" using "2.prems"(1) False by auto
    then have "card (N - insert nid V) < card (N - V)" using "2.prems"(7) by (intro psubset_card_mono) auto
    then have "card (N - insert nid V) < fuel" using "2.prems"(4) by linarith
    then obtain V' r where r: "dfsEdges sc g target fuel ?es path depth (insert nid V) = Some (V', r)"
      "case r of Some t \<Rightarrow> dfs_found (arcs g) target path depth t
               | None \<Rightarrow> dfs_closed (arcs g) N target (insert nid V) V' \<and> ed_To ` set ?es \<subseteq> V'"
      using "2.IH" False "2.prems" succ by auto
    have "case r of Some t \<Rightarrow> dfs_found (arcs g) target path depth t
               | None \<Rightarrow> dfs_closed (arcs g) N target V V' \<and> nid \<in> V'"
    proof (cases r)
      case None
      have "dfs_closed (arcs g) N target (insert nid V) V'" "arcs g `` {nid} \<subseteq> V'" using None r(2) unfolding succ by simp_all
      moreover have "arcs g `` (V' - V) \<subseteq> arcs g `` (V' - insert nid V) \<union> arcs g `` {nid}" by blast
      ultimately have "arcs g `` (V' - V) \<subseteq> V'" unfolding dfs_closed_def by (meson Un_least subset_trans)
      then show ?thesis using None \<open>dfs_closed (arcs g) N target (insert nid V) V'\<close> by (simp add: dfs_closed_def)
    qed (use r(2) in simp)
    then show ?thesis using r(1) False by (metis dfs.simps(2))
  qed
next
  case (4 sc g target fuel e es path depth V)
  have to: "(last path, ed_To e) \<in> arcs g" using "4.prems"(2) by auto
  have ne: "path \<noteq> []" using "4.prems"(1) by auto
  have p: "is_path (arcs g) (path @ [ed_To e])" using to "4.prems"(1) by (simp add: is_path_snoc)
  obtain V1 r1 where r1: "dfs sc g target fuel (ed_To e) (path @ [ed_To e]) (depth + 1) V = Some (V1, r1)"
    "case r1 of Some t \<Rightarrow> dfs_found (arcs g) target (path @ [ed_To e]) (depth + 1) t
              | None \<Rightarrow> dfs_closed (arcs g) N target V V1 \<and> ed_To e \<in> V1"
    using "4.IH"(1) p to "4.prems" by fastforce
  show ?case
  proof (cases r1)
    case (Some t)
    then show ?thesis using r1 ne by (simp add: dfs_found_def hd_append)
  next
    case None
    then have V1: "dfs_closed (arcs g) N target V V1" "ed_To e \<in> V1" using r1(2) by simp_all
    then have "card (N - V1) \<le> card (N - V)" using "4.prems"(6) by (intro card_mono) (auto simp: dfs_closed_def)
    then have "card (N - V1) < fuel" using "4.prems"(3) by linarith
    then obtain V' r where r: "dfsEdges sc g target fuel es path depth V1 = Some (V', r)"
      "case r of Some t \<Rightarrow> dfs_found (arcs g) target path depth t
               | None \<Rightarrow> dfs_closed (arcs g) N target V1 V' \<and> ed_To ` set es \<subseteq> V'"
      using "4.IH"(2) [OF r1(1) [unfolded None] refl refl] V1 "4.prems" by (auto simp: dfs_closed_def)
    have "case r of Some t \<Rightarrow> dfs_found (arcs g) target path depth t
               | None \<Rightarrow> dfs_closed (arcs g) N target V V' \<and> ed_To ` set (e # es) \<subseteq> V'"
    proof (cases r)
      case None
      then have "dfs_closed (arcs g) N target V V'" using r(2) dfs_closed_trans [OF V1(1)] by simp
      then show ?thesis using None r(2) V1(2) by (auto simp: dfs_closed_def)
    qed (use r(2) in simp)
    then show ?thesis using r(1) r1(1) None by auto
  qed
qed (auto simp: dfs_closed_def)

lemma closed_unreachable:
  assumes "E `` V \<subseteq> V" and "s \<in> V" and "(s, v) \<in> E\<^sup>*"
  shows "v \<in> V"
  using assms(3,1,2) by (induction rule: rtrancl_induct) auto

lemma is_path_reaches: "is_path E p \<Longrightarrow> (hd p, last p) \<in> E\<^sup>*"
  by (induction E p rule: is_path.induct) (auto intro: converse_rtrancl_into_rtrancl)

text \<open>C19. Depth-first search.  On a graph built by any sequence of additions, and for any order of iteration, the
  recursion ends within a depth of the number of nodes plus two, and the search returns a path of the graph
  from the start to the target when the target is reachable and nothing otherwise.\<close>

theorem dfs_finds_path:
  assumes "fair sc" and "g = run gstep newLockFreeGraph es" and "card (dom (lg_nodes g)) + 2 \<le> fuel"
  shows "\<exists>r. DFS sc g fuel start target = Some r \<and>
     (r \<noteq> None \<longleftrightarrow> (start, target) \<in> (arcs g)\<^sup>*) \<and>
     (\<forall>t. r = Some t \<longrightarrow> is_path (arcs g) (tr_Path t) \<and> hd (tr_Path t) = start \<and> last (tr_Path t) = target \<and>
                       int (length (tr_Path t)) = tr_Distance t + 1)"
proof -
  define N where "N = insert start (dom (lg_nodes g))"
  have ok: "graph_ok g" unfolding assms(2) by (rule graph_ok_run)
  then have fin: "finite N" by (simp add: graph_ok_def N_def)
  have sub: "arcs g \<subseteq> UNIV \<times> N" using graph_ok_arcs [OF ok] by (auto simp: N_def)
  have "card N \<le> Suc (card (dom (lg_nodes g)))" unfolding N_def by (rule card_insert_le_m1) simp_all
  then have fuel: "card (N - {}) < fuel" using assms(3) by simp
  obtain V r where r: "dfs sc g target fuel start [start] 0 {} = Some (V, r)"
    "case r of Some t \<Rightarrow> dfs_found (arcs g) target [start] 0 t
             | None \<Rightarrow> dfs_closed (arcs g) N target {} V \<and> start \<in> V"
    using dfs_outcome(1) [OF assms(1) sub fin, of target "{}" start "[start]" fuel 0] fuel by (auto simp: N_def)
  show ?thesis
  proof (cases r)
    case None
    then have "arcs g `` V \<subseteq> V" "start \<in> V" "target \<notin> V" using r(2) by (auto simp: dfs_closed_def)
    then have "(start, target) \<notin> (arcs g)\<^sup>*" using closed_unreachable by metis
    then show ?thesis using None r(1) by (simp add: DFS_def)
  next
    case (Some t)
    then have t: "dfs_found (arcs g) target [start] 0 t" using r(2) by simp
    then have "(start, target) \<in> (arcs g)\<^sup>*" using is_path_reaches [of "arcs g" "tr_Path t"] by (simp add: dfs_found_def)
    then show ?thesis using Some r(1) t by (simp add: DFS_def dfs_found_def)
  qed
qed

theorem dfs_finds_path_witness:
  "card (dom (lg_nodes triangle)) + 2 \<le> (5::nat) \<and>
   map_option (map_option tr_Path) (DFS sc0 triangle 5 ''A'' ''C'') = Some (Some [''A'', ''B'', ''C'']) \<and>
   (''A'', ''C'') \<in> (arcs triangle)\<^sup>*"
proof -
  have f: "fair sc0" by (simp add: fair_def sc0_def)
  have c: "card (dom (lg_nodes triangle)) + 2 \<le> (5::nat)" by (simp add: dom_triangle)
  have e: "map_option (map_option tr_Path) (DFS sc0 triangle 5 ''A'' ''C'') = Some (Some [''A'', ''B'', ''C''])" by code_simp
  then obtain t where "DFS sc0 triangle 5 ''A'' ''C'' = Some (Some t)" by auto
  then have "(''A'', ''C'') \<in> (arcs triangle)\<^sup>*" using dfs_finds_path [OF f triangle_def c, of "''A''" "''C''"] by auto
  then show ?thesis using c e by blast
qed

end
