(* ===== verification/PartitionedGraph.thy ===== *)
theory PartitionedGraph
  imports GraphTraversal
begin

text \<open>
  The partitioned graph of \<open>src/solutions/solution21_graph_database.go\<close> (\<open>PartitionedGraph\<close>): the router that assigns
  nodes to the partition with the lowest load, the additions, and the parallel traversal.  The additions are
  atomic steps; the router's look-up and assignment are also given separately, since the code releases its lock
  in between.  Every call of \<open>traverse\<close> is one goroutine; a step of the model runs any one of those that are
  waiting.  A graph has at least one partition (with none the code panics at its first use).  Shown: the routing
  invariant; and that under every schedule the traversal ends, after at most one step per edge plus one, with
  every reachable node reported exactly once.
\<close>

section \<open>The graph\<close>

record 'v PartitionNode =
  pn_ID :: string
  pn_Partition :: nat
  pn_Properties :: "string \<rightharpoonup> 'v"
  pn_Edges :: "string list"

record 'v PartitionEdge =
  pe_ID :: string
  pe_From :: string
  pe_To :: string
  pe_FromPart :: nat
  pe_ToPart :: nat
  pe_Properties :: "string \<rightharpoonup> 'v"

record 'v GraphPartition =
  gp_id :: nat
  gp_nodes :: "string \<rightharpoonup> 'v PartitionNode"
  gp_edges :: "string \<rightharpoonup> 'v PartitionEdge"
  gp_crossRef :: "string \<rightharpoonup> nat"

record PartitionRouter =
  ro_nodeMap :: "string \<rightharpoonup> nat"
  ro_loadFactor :: "int list"

record 'v PartitionedGraph =
  pg_partitions :: "'v GraphPartition list"
  pg_numParts :: nat
  pg_router :: PartitionRouter

definition newPartitionedGraph :: "nat \<Rightarrow> 'v PartitionedGraph" where
  "newPartitionedGraph numPartitions =
     \<lparr>pg_partitions = map (\<lambda>i. \<lparr>gp_id = i, gp_nodes = Map.empty, gp_edges = Map.empty, gp_crossRef = Map.empty\<rparr>) [0..<numPartitions],
      pg_numParts = numPartitions,
      pg_router = \<lparr>ro_nodeMap = Map.empty, ro_loadFactor = replicate numPartitions 0\<rparr>\<rparr>"

text \<open>The loop that looks for the lowest load.\<close>

fun minPartLoop :: "int list \<Rightarrow> nat list \<Rightarrow> int \<Rightarrow> nat \<Rightarrow> nat" where
  "minPartLoop loads [] minLoad minPart = minPart"
| "minPartLoop loads (i # is) minLoad minPart =
     (if loads ! i < minLoad then minPartLoop loads is (loads ! i) i else minPartLoop loads is minLoad minPart)"

definition assignPartition :: "string \<Rightarrow> 'v PartitionedGraph \<Rightarrow> nat \<times> 'v PartitionedGraph" where
  "assignPartition nid pg =
     (let loads = ro_loadFactor (pg_router pg);
          minPart = minPartLoop loads [1..<pg_numParts pg] (loads ! 0) 0
      in (minPart, pg\<lparr>pg_router := \<lparr>ro_nodeMap = (ro_nodeMap (pg_router pg))(nid \<mapsto> minPart),
                                   ro_loadFactor = loads[minPart := i64 (loads ! minPart + 1)]\<rparr>\<rparr>))"

definition getPartition :: "string \<Rightarrow> 'v PartitionedGraph \<Rightarrow> nat \<times> 'v PartitionedGraph" where
  "getPartition nid pg =
     (case ro_nodeMap (pg_router pg) nid of Some part \<Rightarrow> (part, pg) | None \<Rightarrow> assignPartition nid pg)"

definition pgAddNode :: "string \<Rightarrow> (string \<rightharpoonup> 'v) \<Rightarrow> 'v PartitionedGraph \<Rightarrow> 'v PartitionedGraph" where
  "pgAddNode nid properties pg0 =
     (let (partID, pg) = getPartition nid pg0; p = pg_partitions pg ! partID
      in pg\<lparr>pg_partitions := (pg_partitions pg)[partID := p\<lparr>gp_nodes := (gp_nodes p)(nid \<mapsto>
              \<lparr>pn_ID = nid, pn_Partition = partID, pn_Properties = properties, pn_Edges = []\<rparr>)\<rparr>]\<rparr>)"

definition pgAddEdge :: "string \<Rightarrow> string \<Rightarrow> string \<Rightarrow> (string \<rightharpoonup> 'v) \<Rightarrow> 'v PartitionedGraph \<Rightarrow> 'v PartitionedGraph" where
  "pgAddEdge eid from to properties pg0 =
     (let (fromPart, pg1) = getPartition from pg0;
          (toPart, pg) = getPartition to pg1;
          edge = \<lparr>pe_ID = eid, pe_From = from, pe_To = to, pe_FromPart = fromPart, pe_ToPart = toPart, pe_Properties = properties\<rparr>;
          p = pg_partitions pg ! fromPart;
          nodes = (case gp_nodes p from of None \<Rightarrow> gp_nodes p
                   | Some node \<Rightarrow> (gp_nodes p)(from \<mapsto> node\<lparr>pn_Edges := pn_Edges node @ [eid]\<rparr>));
          refs = (if fromPart \<noteq> toPart then (gp_crossRef p)(to \<mapsto> toPart) else gp_crossRef p)
      in pg\<lparr>pg_partitions := (pg_partitions pg)[fromPart :=
              p\<lparr>gp_edges := (gp_edges p)(eid \<mapsto> edge), gp_nodes := nodes, gp_crossRef := refs\<rparr>]\<rparr>)"

section \<open>Routing\<close>

text \<open>Nodes and edges are where the router says.\<close>

definition part_ok :: "(string \<rightharpoonup> nat) \<Rightarrow> nat \<Rightarrow> 'v GraphPartition \<Rightarrow> bool" where
  "part_ok m i p \<longleftrightarrow> finite (dom (gp_nodes p)) \<and> (\<forall>n. n \<in> dom (gp_nodes p) \<longrightarrow> m n = Some i) \<and>
     (\<forall>e. e \<in> ran (gp_edges p) \<longrightarrow> m (pe_To e) = Some (pe_ToPart e) \<and> pe_FromPart e = i)"

definition pg_ok :: "'v PartitionedGraph \<Rightarrow> bool" where
  "pg_ok pg \<longleftrightarrow> 0 < pg_numParts pg \<and> length (pg_partitions pg) = pg_numParts pg \<and>
     length (ro_loadFactor (pg_router pg)) = pg_numParts pg \<and>
     (\<forall>n i. ro_nodeMap (pg_router pg) n = Some i \<longrightarrow> i < pg_numParts pg) \<and>
     (\<forall>i < pg_numParts pg. part_ok (ro_nodeMap (pg_router pg)) i (pg_partitions pg ! i))"

lemma pg_ok_new: "0 < n \<Longrightarrow> pg_ok (newPartitionedGraph n)"
  by (simp add: pg_ok_def newPartitionedGraph_def part_ok_def)

lemma minPartLoop_bound: "minPart < n \<Longrightarrow> set is \<subseteq> {..<n} \<Longrightarrow> minPartLoop loads is minLoad minPart < n"
  by (induction "is" arbitrary: minLoad minPart) auto

lemma minPartLoop_least:
  assumes "minLoad = loads ! minPart"
  shows "loads ! minPartLoop loads is minLoad minPart \<le> minLoad \<and>
         (\<forall>i \<in> set is. loads ! minPartLoop loads is minLoad minPart \<le> loads ! i)"
  using assms
proof (induction "is" arbitrary: minLoad minPart)
  case (Cons i "is")
  then show ?case by (fastforce simp: not_less)
qed simp

lemma map_le_Some: "m \<subseteq>\<^sub>m m' \<Longrightarrow> m n = Some i \<Longrightarrow> m' n = Some i"
  by (force simp: map_le_def)

lemma part_ok_mono: "part_ok m i p \<Longrightarrow> m \<subseteq>\<^sub>m m' \<Longrightarrow> part_ok m' i p"
  unfolding part_ok_def by (simp add: map_le_Some)

text \<open>What the router does: an assigned node keeps its partition, a new one gets one with the lowest load.\<close>

lemma getPartition_facts:
  assumes "pg_ok pg" and "getPartition nid pg = (part, pg')"
  shows "part < pg_numParts pg" "ro_nodeMap (pg_router pg') nid = Some part" "pg_partitions pg' = pg_partitions pg"
    "ro_nodeMap (pg_router pg) \<subseteq>\<^sub>m ro_nodeMap (pg_router pg')" "pg_numParts pg' = pg_numParts pg" "pg_ok pg'"
proof -
  have "1 \<le> pg_numParts pg" using assms(1) by (simp add: pg_ok_def)
  then have b: "minPartLoop loads [1..<pg_numParts pg] x 0 < pg_numParts pg" for loads x
    by (intro minPartLoop_bound) auto
  show a: "part < pg_numParts pg" "ro_nodeMap (pg_router pg') nid = Some part" "pg_partitions pg' = pg_partitions pg"
    "ro_nodeMap (pg_router pg) \<subseteq>\<^sub>m ro_nodeMap (pg_router pg')" "pg_numParts pg' = pg_numParts pg"
    using assms b
    by (cases "ro_nodeMap (pg_router pg) nid";
        simp add: getPartition_def assignPartition_def Let_def pg_ok_def map_le_def domIff; force)+
  have l: "length (ro_loadFactor (pg_router pg')) = pg_numParts pg"
    using assms by (auto simp: getPartition_def assignPartition_def Let_def pg_ok_def split: option.splits)
  have m: "i < pg_numParts pg" if "ro_nodeMap (pg_router pg') n = Some i" for n i
    using that assms b [of "ro_loadFactor (pg_router pg)" "ro_loadFactor (pg_router pg) ! 0"]
    by (auto simp: getPartition_def assignPartition_def Let_def pg_ok_def split: option.splits if_splits)
  have "part_ok (ro_nodeMap (pg_router pg')) i (pg_partitions pg ! i)" if "i < pg_numParts pg" for i
    using that assms(1) by (intro part_ok_mono [OF _ a(4)]) (simp add: pg_ok_def)
  moreover have "0 < pg_numParts pg" "length (pg_partitions pg) = pg_numParts pg" using assms(1) by (simp_all add: pg_ok_def)
  ultimately show "pg_ok pg'" unfolding pg_ok_def a(3,5) using l m by blast
qed

lemma pg_ok_update:
  assumes "pg_ok pg" and "i < pg_numParts pg" and "part_ok (ro_nodeMap (pg_router pg)) i p"
  shows "pg_ok (pg\<lparr>pg_partitions := (pg_partitions pg)[i := p]\<rparr>)"
  using assms by (simp add: pg_ok_def nth_list_update)

lemma pg_ok_addNode:
  assumes "pg_ok pg"
  shows "pg_ok (pgAddNode nid properties pg)"
proof -
  obtain part pg' where g: "getPartition nid pg = (part, pg')" by fastforce
  note f = getPartition_facts [OF assms g]
  have "part_ok (ro_nodeMap (pg_router pg')) part (pg_partitions pg' ! part)" using f by (simp add: pg_ok_def)
  then show ?thesis unfolding pgAddNode_def g Let_def prod.case
    using f by (intro pg_ok_update) (auto simp: part_ok_def)
qed

lemma ran_upd_subset: "x \<in> ran (m(k \<mapsto> v)) \<Longrightarrow> x = v \<or> x \<in> ran m"
  by (auto simp: ran_def split: if_splits)

lemma pg_ok_addEdge:
  assumes "pg_ok pg"
  shows "pg_ok (pgAddEdge eid from to properties pg)"
proof -
  obtain fromPart pg1 where g1: "getPartition from pg = (fromPart, pg1)" by fastforce
  note f1 = getPartition_facts [OF assms g1]
  obtain toPart pg2 where g2: "getPartition to pg1 = (toPart, pg2)" by fastforce
  note f2 = getPartition_facts [OF f1(6) g2]
  have fr: "ro_nodeMap (pg_router pg2) from = Some fromPart" using f1(2) f2(4) by (rule map_le_Some [rotated])
  have bound: "fromPart < pg_numParts pg2" using f1(1,5) f2(5) by simp
  have part: "part_ok (ro_nodeMap (pg_router pg2)) fromPart (pg_partitions pg2 ! fromPart)" using f2(6) bound by (simp add: pg_ok_def)
  define p where "p = pg_partitions pg2 ! fromPart"
  define edge where "edge = \<lparr>pe_ID = eid, pe_From = from, pe_To = to, pe_FromPart = fromPart, pe_ToPart = toPart, pe_Properties = properties\<rparr>"
  have "part_ok (ro_nodeMap (pg_router pg2)) fromPart (p\<lparr>gp_edges := (gp_edges p)(eid \<mapsto> edge),
      gp_nodes := (case gp_nodes p from of None \<Rightarrow> gp_nodes p | Some node \<Rightarrow> (gp_nodes p)(from \<mapsto> node\<lparr>pn_Edges := pn_Edges node @ [eid]\<rparr>)),
      gp_crossRef := r\<rparr>)" for r
    using part fr f2(2) unfolding part_ok_def p_def [symmetric]
    by (auto simp: edge_def dest!: ran_upd_subset split: option.splits)
  then show ?thesis unfolding pgAddEdge_def g1 g2 Let_def prod.case
    using f2(6) bound by (intro pg_ok_update) (simp_all only: p_def edge_def)
qed

datatype 'v POp = PNode string "string \<rightharpoonup> 'v" | PEdge string string string "string \<rightharpoonup> 'v"

fun pstep :: "'v PartitionedGraph \<Rightarrow> 'v POp \<Rightarrow> 'v PartitionedGraph" where
  "pstep pg (PNode nid properties) = pgAddNode nid properties pg"
| "pstep pg (PEdge eid from to properties) = pgAddEdge eid from to properties pg"

interpretation partitioned: locked_object "pstep :: 'v PartitionedGraph \<Rightarrow> 'v POp \<Rightarrow> 'v PartitionedGraph" pg_ok
proof
  fix pg :: "'v PartitionedGraph" and e :: "'v POp" assume "pg_ok pg"
  then show "pg_ok (pstep pg e)" by (cases e) (simp_all add: pg_ok_addNode pg_ok_addEdge)
qed

section \<open>Parallel traversal\<close>

text \<open>The state of a traversal: the goroutines that wait to run, the shared visited map and the results.\<close>

record Traversal =
  tv_pending :: "(string \<times> nat) list"
  tv_visited :: "string set"
  tv_results :: "string list"

text \<open>The goroutines a node starts.\<close>

definition spawned :: "'v PartitionedGraph \<Rightarrow> string \<Rightarrow> nat \<Rightarrow> (string \<times> nat) list" where
  "spawned pg nid partID =
     (let p = pg_partitions pg ! partID
      in case gp_nodes p nid of
           None \<Rightarrow> []
         | Some node \<Rightarrow> map (\<lambda>e. (pe_To e, pe_ToPart e)) (List.map_filter (gp_edges p) (pn_Edges node)))"

definition traverse :: "'v PartitionedGraph \<Rightarrow> string \<Rightarrow> nat \<Rightarrow> Traversal \<Rightarrow> Traversal" where
  "traverse pg nid partID t =
     (if nid \<in> tv_visited t then t
      else t\<lparr>tv_visited := insert nid (tv_visited t), tv_results := tv_results t @ [nid],
             tv_pending := tv_pending t @ spawned pg nid partID\<rparr>)"

text \<open>One step of the scheduler: some waiting goroutine runs to its end; when none waits the traversal is over.\<close>

definition tstep :: "'v PartitionedGraph \<Rightarrow> Traversal \<Rightarrow> nat \<Rightarrow> Traversal" where
  "tstep pg t choice =
     (if tv_pending t = [] then t
      else (let i = choice mod length (tv_pending t); (nid, partID) = tv_pending t ! i
            in traverse pg nid partID (t\<lparr>tv_pending := take i (tv_pending t) @ drop (Suc i) (tv_pending t)\<rparr>)))"

definition startTraversal :: "string \<Rightarrow> 'v PartitionedGraph \<Rightarrow> Traversal \<times> 'v PartitionedGraph" where
  "startTraversal start pg0 =
     (let (startPart, pg) = getPartition start pg0
      in (\<lparr>tv_pending = [(start, startPart)], tv_visited = {}, tv_results = []\<rparr>, pg))"

text \<open>The successors of a node through the router.\<close>

definition succs :: "'v PartitionedGraph \<Rightarrow> string \<Rightarrow> string list" where
  "succs pg nid = (case ro_nodeMap (pg_router pg) nid of None \<Rightarrow> [] | Some i \<Rightarrow> map fst (spawned pg nid i))"

definition parcs :: "'v PartitionedGraph \<Rightarrow> (string \<times> string) set" where
  "parcs pg = {(u, v). v \<in> set (succs pg u)}"

lemma spawned_routed:
  assumes "pg_ok pg" and "(v, j) \<in> set (spawned pg nid i)" and "i < pg_numParts pg"
  shows "ro_nodeMap (pg_router pg) v = Some j"
proof -
  obtain e where "e \<in> ran (gp_edges (pg_partitions pg ! i))" "v = pe_To e" "j = pe_ToPart e"
    using assms(2) by (fastforce simp: spawned_def Let_def map_filter_def split: option.splits intro: ranI)
  moreover have "part_ok (ro_nodeMap (pg_router pg)) i (pg_partitions pg ! i)" using assms(1,3) by (simp add: pg_ok_def)
  ultimately show ?thesis by (simp add: part_ok_def)
qed

text \<open>The invariant of a traversal of a fixed graph: waiting goroutines carry the right partition and reachable
  nodes; the results are the visited nodes; and what a visited node starts is visited or waiting.\<close>

definition tv_ok :: "'v PartitionedGraph \<Rightarrow> string \<Rightarrow> Traversal \<Rightarrow> bool" where
  "tv_ok pg start t \<longleftrightarrow>
     list_all (\<lambda>(n, i). ro_nodeMap (pg_router pg) n = Some i \<and> (start, n) \<in> (parcs pg)\<^sup>*) (tv_pending t) \<and>
     distinct (tv_results t) \<and> set (tv_results t) = tv_visited t \<and>
     tv_visited t \<subseteq> {n. (start, n) \<in> (parcs pg)\<^sup>*} \<and>
     start \<in> tv_visited t \<union> fst ` set (tv_pending t) \<and>
     parcs pg `` tv_visited t \<subseteq> tv_visited t \<union> fst ` set (tv_pending t)"

text \<open>The work left: the waiting goroutines and those that unvisited nodes can still start.\<close>

definition nodes_of :: "'v PartitionedGraph \<Rightarrow> string set" where
  "nodes_of pg = (\<Union>i < pg_numParts pg. dom (gp_nodes (pg_partitions pg ! i)))"

definition edge_count :: "'v PartitionedGraph \<Rightarrow> nat" where
  "edge_count pg = (\<Sum>n \<in> nodes_of pg. length (succs pg n))"

definition work :: "'v PartitionedGraph \<Rightarrow> Traversal \<Rightarrow> nat" where
  "work pg t = length (tv_pending t) + (\<Sum>n \<in> nodes_of pg - tv_visited t. length (succs pg n))"

lemma pg_ok_part: "pg_ok pg \<Longrightarrow> i < pg_numParts pg \<Longrightarrow> part_ok (ro_nodeMap (pg_router pg)) i (pg_partitions pg ! i)"
  by (simp add: pg_ok_def)

lemma finite_nodes_of: "pg_ok pg \<Longrightarrow> finite (nodes_of pg)"
  unfolding nodes_of_def by (rule finite_UN_I) (use pg_ok_part in \<open>auto simp: part_ok_def\<close>)

lemma succs_outside: "pg_ok pg \<Longrightarrow> n \<notin> nodes_of pg \<Longrightarrow> succs pg n = []"
  by (auto simp: succs_def spawned_def nodes_of_def pg_ok_def domIff Let_def split: option.splits)

lemma work_traverse:
  assumes "pg_ok pg" and "ro_nodeMap (pg_router pg) n = Some i"
  shows "Suc (work pg (traverse pg n i (t\<lparr>tv_pending := xs @ ys\<rparr>))) = work pg (t\<lparr>tv_pending := xs @ (n, i) # ys\<rparr>)"
proof (cases "n \<in> tv_visited t")
  case True
  then show ?thesis by (simp add: work_def traverse_def)
next
  case False
  have len: "length (spawned pg n i) = length (succs pg n)" using assms(2) by (simp add: succs_def)
  have "(\<Sum>m \<in> nodes_of pg - tv_visited t. length (succs pg m)) =
      length (succs pg n) + (\<Sum>m \<in> nodes_of pg - insert n (tv_visited t). length (succs pg m))"
  proof (cases "n \<in> nodes_of pg")
    case True
    then have "n \<in> nodes_of pg - tv_visited t" using False by simp
    moreover have "nodes_of pg - insert n (tv_visited t) = nodes_of pg - tv_visited t - {n}" by blast
    ultimately show ?thesis using finite_nodes_of [OF assms(1)] by (metis finite_Diff sum.remove)
  next
    case out: False
    then have "nodes_of pg - insert n (tv_visited t) = nodes_of pg - tv_visited t" by auto
    then show ?thesis using succs_outside [OF assms(1) out] by simp
  qed
  then show ?thesis using False len by (simp add: work_def traverse_def)
qed



lemma tv_ok_traverse:
  assumes pg: "pg_ok pg" and t: "tv_ok pg start (t\<lparr>tv_pending := xs @ (n, i) # ys\<rparr>)"
  shows "tv_ok pg start (traverse pg n i (t\<lparr>tv_pending := xs @ ys\<rparr>))"
proof -
  have n: "ro_nodeMap (pg_router pg) n = Some i" "(start, n) \<in> (parcs pg)\<^sup>*" using t by (simp_all add: tv_ok_def)
  then have i: "i < pg_numParts pg" using pg by (simp add: pg_ok_def)
  have sp: "parcs pg `` {n} = fst ` set (spawned pg n i)" using n(1) by (auto simp: parcs_def succs_def)
  show ?thesis
  proof (cases "n \<in> tv_visited t")
    case True
    then show ?thesis using t by (auto simp: tv_ok_def traverse_def)
  next
    case False
    have "list_all (\<lambda>(n, i). ro_nodeMap (pg_router pg) n = Some i \<and> (start, n) \<in> (parcs pg)\<^sup>*) (spawned pg n i)"
      unfolding list_all_iff
    proof clarify
      fix v j assume vj: "(v, j) \<in> set (spawned pg n i)"
      then have "(n, v) \<in> parcs pg" using sp by force
      then show "ro_nodeMap (pg_router pg) v = Some j \<and> (start, v) \<in> (parcs pg)\<^sup>*"
        using spawned_routed [OF pg vj i] n(2) by (meson rtrancl.rtrancl_into_rtrancl)
    qed
    moreover have "parcs pg `` insert n (tv_visited t) = parcs pg `` tv_visited t \<union> fst ` set (spawned pg n i)" using sp by blast
    ultimately show ?thesis using False t n(2) by (auto simp: tv_ok_def traverse_def)
  qed
qed

text \<open>A step of the scheduler takes one waiting goroutine out of the list.\<close>

lemma tstep_split:
  assumes "tv_pending t \<noteq> []"
  obtains xs n i ys where "tv_pending t = xs @ (n, i) # ys" and "tstep pg t c = traverse pg n i (t\<lparr>tv_pending := xs @ ys\<rparr>)"
proof -
  define k where "k = c mod length (tv_pending t)"
  have k: "k < length (tv_pending t)" using assms by (simp add: k_def)
  obtain n i where ni: "tv_pending t ! k = (n, i)" by fastforce
  have "tv_pending t = take k (tv_pending t) @ (n, i) # drop (Suc k) (tv_pending t)" using id_take_nth_drop [OF k] ni by simp
  moreover have "tstep pg t c = traverse pg n i (t\<lparr>tv_pending := take k (tv_pending t) @ drop (Suc k) (tv_pending t)\<rparr>)"
    using assms ni by (simp add: tstep_def k_def [symmetric] Let_def)
  ultimately show ?thesis by (rule that)
qed

lemma tstep_facts:
  assumes "pg_ok pg" and "tv_ok pg start t"
  shows "tv_ok pg start (tstep pg t c)" and "tv_pending t \<noteq> [] \<Longrightarrow> Suc (work pg (tstep pg t c)) = work pg t"
proof -
  have main: "tv_ok pg start (tstep pg t c) \<and> Suc (work pg (tstep pg t c)) = work pg t" if ne: "tv_pending t \<noteq> []"
  proof -
    obtain xs n i ys where s: "tv_pending t = xs @ (n, i) # ys" "tstep pg t c = traverse pg n i (t\<lparr>tv_pending := xs @ ys\<rparr>)"
      using tstep_split [OF ne] .
    have t: "t\<lparr>tv_pending := xs @ (n, i) # ys\<rparr> = t" using s(1) by simp
    have "ro_nodeMap (pg_router pg) n = Some i" using assms(2) s(1) by (simp add: tv_ok_def)
    then show ?thesis
      using tv_ok_traverse [where pg = pg and start = start and t = t and xs = xs and n = n and i = i and ys = ys, OF assms(1)] work_traverse [where pg = pg and n = n and i = i and t = t and xs = xs and ys = ys, OF assms(1)] assms(2) s(2) t by simp
  qed
  show "tv_ok pg start (tstep pg t c)" using main assms(2) by (cases "tv_pending t = []") (simp_all add: tstep_def)
  show "tv_pending t \<noteq> [] \<Longrightarrow> Suc (work pg (tstep pg t c)) = work pg t" using main by simp
qed

interpretation traversal: locked_object "tstep pg" "\<lambda>t. pg_ok pg \<and> tv_ok pg start t" for pg start
  by unfold_locales (simp add: tstep_facts)

lemma traversal_ends:
  assumes "pg_ok pg" and "tv_ok pg start t" and "work pg t \<le> length choices"
  shows "tv_pending (run (tstep pg) t choices) = []"
  using assms(2,3)
proof (induction choices arbitrary: t)
  case Nil
  then show ?case by (simp add: work_def)
next
  case (Cons c choices)
  show ?case
  proof (cases "tv_pending t = []")
    case True
    then have "tstep pg t c = t" for c by (simp add: tstep_def)
    then have "run (tstep pg) t (c # choices) = t" by (induction choices) simp_all
    then show ?thesis using True by (simp only:)
  next
    case False
    then show ?thesis using Cons tstep_facts [OF assms(1) Cons.prems(1), of c] by simp
  qed
qed

text \<open>C20. Parallel traversal.  On a partitioned graph built by any sequence of additions, and for every schedule of
  the goroutines, the traversal is over after one step more than there are edges, and it has then reported
  exactly the nodes reachable from the start, each once.\<close>

theorem traversal_visits_reachable:
  assumes "0 < numPartitions" and "startTraversal start (run pstep (newPartitionedGraph numPartitions) es) = (t0, pg)"
    and "edge_count pg < length choices"
  shows "let t = run (tstep pg) t0 choices in
     tv_pending t = [] \<and> distinct (tv_results t) \<and> set (tv_results t) = {n. (start, n) \<in> (parcs pg)\<^sup>*}"
proof -
  define pg0 where "pg0 = run pstep (newPartitionedGraph numPartitions) es"
  have ok0: "pg_ok pg0" unfolding pg0_def by (rule partitioned.inv_run) (rule pg_ok_new [OF assms(1)])
  obtain part where g: "getPartition start pg0 = (part, pg)" and t0: "t0 = \<lparr>tv_pending = [(start, part)], tv_visited = {}, tv_results = []\<rparr>"
    using assms(2) by (auto simp: startTraversal_def pg0_def split: prod.splits)
  note f = getPartition_facts [OF ok0 g]
  have tv: "tv_ok pg start t0" using f(2) by (simp add: tv_ok_def t0)
  have "work pg t0 = Suc (edge_count pg)" by (simp add: work_def edge_count_def t0)
  then have fin: "tv_pending (run (tstep pg) t0 choices) = []" using traversal_ends [OF f(6) tv] assms(3) by simp
  define t where "t = run (tstep pg) t0 choices"
  have ok: "tv_ok pg start t" unfolding t_def using traversal.inv_run [of pg start t0 choices] f(6) tv by simp
  have "parcs pg `` tv_visited t \<subseteq> tv_visited t" "start \<in> tv_visited t" using ok fin by (simp_all add: tv_ok_def t_def)
  then have "{n. (start, n) \<in> (parcs pg)\<^sup>*} \<subseteq> tv_visited t" using closed_unreachable by (metis mem_Collect_eq subsetI)
  then show ?thesis using ok fin by (auto simp: tv_ok_def t_def [symmetric] Let_def)
qed

definition small_graph :: "int PartitionedGraph" where
  "small_graph = run pstep (newPartitionedGraph 1) [PNode ''a'' Map.empty, PEdge ''e1'' ''a'' ''b'' Map.empty]"

lemma small_graph_facts:
  "startTraversal ''a'' small_graph = (\<lparr>tv_pending = [(''a'', 0)], tv_visited = {}, tv_results = []\<rparr>, small_graph)"
  "edge_count small_graph = 1"
  by (simp_all add: small_graph_def startTraversal_def newPartitionedGraph_def pgAddNode_def pgAddEdge_def getPartition_def
      assignPartition_def edge_count_def nodes_of_def succs_def spawned_def map_filter_def Let_def lessThan_Suc)

theorem traversal_visits_reachable_witness:
  "edge_count small_graph < length [5, 7 :: nat] \<and>
   (let t = run (tstep small_graph) (fst (startTraversal ''a'' small_graph)) [5, 7]
    in tv_results t = [''a'', ''b''] \<and> {n. (''a'', n) \<in> (parcs small_graph)\<^sup>*} = {''a'', ''b''})"
proof -
  have len: "edge_count small_graph < length [5, 7 :: nat]" by (simp add: small_graph_facts)
  define t0 where "t0 = \<lparr>tv_pending = [(''a'', 0)], tv_visited = {}, tv_results = []\<rparr>"
  have st: "startTraversal ''a'' small_graph = (t0, small_graph)" by (simp add: small_graph_facts t0_def)
  have r: "tv_results (run (tstep small_graph) t0 [5, 7]) = [''a'', ''b'']"
    unfolding t0_def by code_simp
  have "set (tv_results (run (tstep small_graph) t0 [5, 7])) = {n. (''a'', n) \<in> (parcs small_graph)\<^sup>*}"
    using traversal_visits_reachable [OF _ st [unfolded small_graph_def] len [unfolded small_graph_def]]
    unfolding small_graph_def [symmetric] Let_def by simp
  then show ?thesis using len r unfolding st Let_def by simp
qed

text \<open>Without the lock between look-up and assignment two concurrent additions of one node can put it into two
  partitions: the second assignment overrides the first in the router.\<close>

theorem router_race:
  "let (p1, pg1) = assignPartition ''x'' (newPartitionedGraph 2 :: int PartitionedGraph);
       (p2, pg2) = assignPartition ''x'' pg1
   in p1 = 0 \<and> p2 = 1 \<and> ro_nodeMap (pg_router pg2) ''x'' = Some 1"
  by code_simp

text \<open>Adding a node again forgets its edges.\<close>

theorem readding_node_drops_edges:
  "succs small_graph ''a'' = [''b''] \<and> succs (pgAddNode ''a'' Map.empty small_graph) ''a'' = []"
  by code_simp

end
