(* ===== verification/OptimisticGraph.thy ===== *)
theory OptimisticGraph
  imports GraphTraversal
begin

text \<open>
  The graph with optimistic transactions of \<open>src/solutions/solution21_graph_database.go\<close> (\<open>OptimisticGraph\<close>):
  transactions with read and write sets, validation and write phase of \<open>Commit\<close>, and cycle detection.  The
  transaction objects are kept in a list and named by their position, as callers hold pointers to them; the
  sets are Go maps that are ranged over, hence association lists.  \<open>Commit\<close> is an atomic step in the histories,
  and its two phases are also given separately, since the code takes no lock across them.  Shown: when a commit
  succeeds, every node the transaction read is still as it was read; and the cycle detection ends and answers
  correctly.
\<close>

section \<open>Data\<close>

record 'v VersionedNode =
  vnd_ID :: string
  vnd_Version :: int
  vnd_Properties :: "string \<rightharpoonup> 'v"
  vnd_Edges :: "string list"

record 'v VersionedEdge =
  ve_ID :: string
  ve_Version :: int
  ve_From :: string
  ve_To :: string
  ve_Properties :: "string \<rightharpoonup> 'v"

record 'v GraphTransaction =
  gt_ID :: string
  gt_StartTime :: gotime
  gt_ReadSet :: "(string \<times> int) list"
  gt_WriteSet :: "(string \<times> (string \<rightharpoonup> 'v)) list"
  gt_Status :: string

record 'v OptimisticGraph =
  og_nodes :: "string \<rightharpoonup> 'v VersionedNode"
  og_edges :: "string \<rightharpoonup> 'v VersionedEdge"
  og_txs :: "'v GraphTransaction list"
  og_transactions :: "string \<rightharpoonup> nat"
  og_globalClock :: int

definition newOptimisticGraph :: "'v OptimisticGraph" where
  "newOptimisticGraph = \<lparr>og_nodes = Map.empty, og_edges = Map.empty, og_txs = [], og_transactions = Map.empty, og_globalClock = 0\<rparr>"

section \<open>Transactions\<close>

text \<open>\<open>BeginTransaction\<close> reads the clock twice; the new transaction is the last of the list.\<close>

definition beginTransaction :: "gotime \<Rightarrow> gotime \<Rightarrow> 'v OptimisticGraph \<Rightarrow> 'v OptimisticGraph" where
  "beginTransaction now now' og =
     (let tx = \<lparr>gt_ID = ''tx_'' @ itoa now, gt_StartTime = now', gt_ReadSet = [], gt_WriteSet = [], gt_Status = ''active''\<rparr>
      in og\<lparr>og_txs := og_txs og @ [tx], og_transactions := (og_transactions og)(gt_ID tx \<mapsto> length (og_txs og))\<rparr>)"

datatype GraphError = NoSuchNode string | NodeDeleted string | Conflict string int int

definition readNode :: "nat \<Rightarrow> string \<Rightarrow> 'v OptimisticGraph \<Rightarrow> (GraphError + 'v VersionedNode) \<times> 'v OptimisticGraph" where
  "readNode tx nid og =
     (case og_nodes og nid of
        None \<Rightarrow> (Inl (NoSuchNode nid), og)
      | Some node \<Rightarrow>
          (let t = og_txs og ! tx
           in (Inr node, og\<lparr>og_txs := (og_txs og)[tx := t\<lparr>gt_ReadSet := AList.update nid (vnd_Version node) (gt_ReadSet t)\<rparr>]\<rparr>)))"

definition updateNode :: "nat \<Rightarrow> string \<Rightarrow> (string \<rightharpoonup> 'v) \<Rightarrow> 'v OptimisticGraph \<Rightarrow> 'v OptimisticGraph" where
  "updateNode tx nid updates og =
     (let t = og_txs og ! tx
      in og\<lparr>og_txs := (og_txs og)[tx := t\<lparr>gt_WriteSet := AList.update nid updates (gt_WriteSet t)\<rparr>]\<rparr>)"

text \<open>The validation phase; the entries come in the order of the iteration over the map.\<close>

fun validate :: "(string \<rightharpoonup> 'v VersionedNode) \<Rightarrow> (string \<times> int) list \<Rightarrow> GraphError + unit" where
  "validate nodes [] = Inr ()"
| "validate nodes ((nid, readVersion) # rs) =
     (case nodes nid of
        None \<Rightarrow> Inl (NodeDeleted nid)
      | Some node \<Rightarrow>
          if vnd_Version node \<noteq> readVersion then Inl (Conflict nid readVersion (vnd_Version node)) else validate nodes rs)"

text \<open>The write phase.\<close>

definition applyWrite :: "int \<Rightarrow> string \<times> (string \<rightharpoonup> 'v) \<Rightarrow> (string \<rightharpoonup> 'v VersionedNode) \<Rightarrow> (string \<rightharpoonup> 'v VersionedNode)" where
  "applyWrite newVersion = (\<lambda>(nid, updates) nodes.
     (case nodes nid of
        None \<Rightarrow> nodes
      | Some node \<Rightarrow> nodes(nid \<mapsto> node\<lparr>vnd_Properties := vnd_Properties node ++ updates, vnd_Version := newVersion\<rparr>)))"

definition writePhase :: "nat \<Rightarrow> 'v OptimisticGraph \<Rightarrow> 'v OptimisticGraph" where
  "writePhase tx og =
     (let t = og_txs og ! tx; newVersion = i64 (og_globalClock og + 1)
      in og\<lparr>og_globalClock := newVersion, og_nodes := fold (applyWrite newVersion) (gt_WriteSet t) (og_nodes og),
            og_txs := (og_txs og)[tx := t\<lparr>gt_Status := ''committed''\<rparr>]\<rparr>)"

definition commitTx :: "nat \<Rightarrow> 'v OptimisticGraph \<Rightarrow> (GraphError + unit) \<times> 'v OptimisticGraph" where
  "commitTx tx og =
     (case validate (og_nodes og) (gt_ReadSet (og_txs og ! tx)) of
        Inl e \<Rightarrow> (Inl e, og)
      | Inr () \<Rightarrow> (Inr (), writePhase tx og))"

datatype 'v OOp = OBegin gotime gotime | ORead nat string | OUpdate nat string "string \<rightharpoonup> 'v" | OCommit nat

fun ostep :: "'v OptimisticGraph \<Rightarrow> 'v OOp \<Rightarrow> 'v OptimisticGraph" where
  "ostep og (OBegin now now') = beginTransaction now now' og"
| "ostep og (ORead tx nid) = snd (readNode tx nid og)"
| "ostep og (OUpdate tx nid updates) = updateNode tx nid updates og"
| "ostep og (OCommit tx) = snd (commitTx tx og)"

text \<open>Operations name existing transactions, and the 64-bit clock has room for a commit.\<close>

fun oop_ok :: "'v OptimisticGraph \<Rightarrow> 'v OOp \<Rightarrow> bool" where
  "oop_ok og (OBegin now now') = True"
| "oop_ok og (ORead tx nid) = (tx < length (og_txs og))"
| "oop_ok og (OUpdate tx nid updates) = (tx < length (og_txs og))"
| "oop_ok og (OCommit tx) = (tx < length (og_txs og) \<and> og_globalClock og < 2 ^ 62)"

section \<open>Versions\<close>

definition og_ok :: "'v OptimisticGraph \<Rightarrow> bool" where
  "og_ok og \<longleftrightarrow> 0 \<le> og_globalClock og \<and> (\<forall>n node. og_nodes og n = Some node \<longrightarrow> vnd_Version node \<le> og_globalClock og)"

text \<open>How a node may change: not at all, or to a higher version.\<close>

definition evolves :: "'v VersionedNode \<Rightarrow> 'v VersionedNode option \<Rightarrow> bool" where
  "evolves node r \<longleftrightarrow> r = Some node \<or> (\<exists>node'. r = Some node' \<and> vnd_Version node < vnd_Version node')"

lemma evolves_trans: "evolves a (Some b) \<Longrightarrow> evolves b r \<Longrightarrow> evolves a r"
  by (auto simp: evolves_def)

lemma applyWrites_node:
  assumes "nodes n = Some node" and "vnd_Version node < v"
  shows "fold (applyWrite v) ws nodes n = Some node \<or> (\<exists>node'. fold (applyWrite v) ws nodes n = Some node' \<and> vnd_Version node' = v)"
proof -
  have "fold (applyWrite v) ws ns n = Some node \<or> (\<exists>node'. fold (applyWrite v) ws ns n = Some node' \<and> vnd_Version node' = v)"
    if "ns n = Some node \<or> (\<exists>node'. ns n = Some node' \<and> vnd_Version node' = v)" for ns
    using that
  proof (induction ws arbitrary: ns)
    case (Cons w ws)
    have "applyWrite v w ns n = Some node \<or> (\<exists>node'. applyWrite v w ns n = Some node' \<and> vnd_Version node' = v)"
      using Cons.prems by (cases w) (auto simp: applyWrite_def split: option.splits)
    then show ?case using Cons.IH by simp
  qed simp
  then show ?thesis using assms(1) by blast
qed

lemma applyWrites_None: "nodes n = None \<Longrightarrow> fold (applyWrite v) ws nodes n = None"
proof (induction ws arbitrary: nodes)
  case (Cons w ws)
  have "applyWrite v w nodes n = None" using Cons.prems by (cases w) (auto simp: applyWrite_def split: option.splits)
  then show ?case using Cons.IH by simp
qed simp

lemma writePhase_facts:
  assumes "og_ok og" and "og_globalClock og < 2 ^ 62"
  shows "og_ok (writePhase tx og)" and "og_nodes og n = Some node \<Longrightarrow> evolves node (og_nodes (writePhase tx og) n)"
proof -
  define v where "v = og_globalClock og + 1"
  have v: "i64 (og_globalClock og + 1) = v" using assms by (simp add: v_def og_ok_def in_i64I)
  define ws where "ws = gt_WriteSet (og_txs og ! tx)"
  have nodes: "og_nodes (writePhase tx og) = fold (applyWrite v) ws (og_nodes og)" "og_globalClock (writePhase tx og) = v"
    by (simp_all add: writePhase_def Let_def v ws_def)
  have lt: "vnd_Version node < v" if "og_nodes og n = Some node" for n node using assms(1) that by (force simp: og_ok_def v_def)
  have le: "vnd_Version node' \<le> v" if new: "og_nodes (writePhase tx og) n = Some node'" for n node'
  proof (cases "og_nodes og n")
    case None
    then show ?thesis using new applyWrites_None [of "og_nodes og" n v ws] nodes(1) by simp
  next
    case (Some node)
    then show ?thesis using new applyWrites_node [of "og_nodes og" n node v ws] lt [OF Some] nodes(1) by auto
  qed
  show "og_ok (writePhase tx og)" using assms(1) le nodes(2) by (simp add: og_ok_def v_def)
  show "og_nodes og n = Some node \<Longrightarrow> evolves node (og_nodes (writePhase tx og) n)"
    using applyWrites_node [of "og_nodes og" n node v ws] lt [of n node] nodes(1) by (auto simp: evolves_def)
qed

lemma commitTx_cases: "snd (commitTx tx og) = og \<or> snd (commitTx tx og) = writePhase tx og"
  by (auto simp: commitTx_def split: sum.splits option.splits unit.splits)

lemma ostep_facts:
  assumes "og_ok og" and "oop_ok og e"
  shows "og_ok (ostep og e)" and "og_nodes og n = Some node \<Longrightarrow> evolves node (og_nodes (ostep og e) n)"
proof -
  show "og_ok (ostep og e)"
  proof (cases e)
    case (OCommit tx)
    then show ?thesis using assms commitTx_cases [of tx og] writePhase_facts(1) [OF assms(1)] by auto
  qed (use assms(1) in \<open>auto simp: og_ok_def beginTransaction_def readNode_def updateNode_def Let_def split: option.splits\<close>)
  show "og_nodes og n = Some node \<Longrightarrow> evolves node (og_nodes (ostep og e) n)"
  proof (cases e)
    case (OCommit tx)
    assume n: "og_nodes og n = Some node"
    then have "evolves node (og_nodes (writePhase tx og) n)" using assms OCommit by (intro writePhase_facts(2)) auto
    then show ?thesis using n OCommit commitTx_cases [of tx og] by (auto simp: evolves_def)
  qed (auto simp: evolves_def beginTransaction_def readNode_def updateNode_def Let_def split: option.splits)
qed

interpretation optimistic: guarded_object ostep og_ok oop_ok
  by unfold_locales (rule ostep_facts(1))

lemma orun_evolves:
  "og_ok og \<Longrightarrow> admissible ostep oop_ok og es \<Longrightarrow> og_nodes og n = Some node \<Longrightarrow> evolves node (og_nodes (run ostep og es) n)"
proof (induction es arbitrary: og node)
  case Nil
  then show ?case by (simp add: evolves_def)
next
  case (Cons e es)
  then have step: "og_ok (ostep og e)" "evolves node (og_nodes (ostep og e) n)" by (simp_all add: ostep_facts)
  then obtain node' where n': "og_nodes (ostep og e) n = Some node'" "evolves node (Some node')" by (auto simp: evolves_def)
  then have "evolves node' (og_nodes (run ostep (ostep og e) es) n)" using Cons step(1) by simp
  then show ?case using evolves_trans [OF n'(2)] by simp
qed

text \<open>The recorded version of a read stays until the transaction reads the node again.\<close>

definition recorded :: "'v OptimisticGraph \<Rightarrow> nat \<Rightarrow> string \<Rightarrow> int option" where
  "recorded og tx n = (if tx < length (og_txs og) then map_of (gt_ReadSet (og_txs og ! tx)) n else None)"

lemma recorded_step:
  assumes "oop_ok og e" and "e \<noteq> ORead tx n" and "recorded og tx n = Some v"
  shows "recorded (ostep og e) tx n = Some v"
proof (cases e)
  case (OCommit tx')
  then show ?thesis using assms commitTx_cases [of tx' og]
    by (auto simp: recorded_def writePhase_def Let_def nth_list_update split: if_splits)
qed (use assms in \<open>auto simp: recorded_def beginTransaction_def readNode_def updateNode_def Let_def nth_append nth_list_update update_conv'
       split: if_splits option.splits\<close>)

lemma recorded_run:
  assumes "admissible ostep oop_ok og es" and "ORead tx n \<notin> set es" and "recorded og tx n = Some v"
  shows "recorded (run ostep og es) tx n = Some v"
  using assms by (induction es arbitrary: og) (auto simp: recorded_step)

lemma validate_ok: "validate nodes rs = Inr () \<Longrightarrow> map_of rs n = Some v \<Longrightarrow> \<exists>node. nodes n = Some node \<and> vnd_Version node = v"
  by (induction nodes rs rule: validate.induct) (auto split: option.splits if_splits)


definition demoGraph :: "int OptimisticGraph" where
  "demoGraph = newOptimisticGraph\<lparr>og_nodes := [''X'' \<mapsto> \<lparr>vnd_ID = ''X'', vnd_Version = 0, vnd_Properties = Map.empty, vnd_Edges = []\<rparr>]\<rparr>"


text \<open>When the phases of two commits overlap, both succeed and the first update is lost.\<close>

theorem overlapping_commits_lose_update:
  "let s = run ostep demoGraph [OBegin 1 1, OBegin 2 2, ORead 0 ''X'', ORead 1 ''X'', OUpdate 0 ''X'' [''n'' \<mapsto> 10], OUpdate 1 ''X'' [''n'' \<mapsto> 20]]
   in validate (og_nodes s) (gt_ReadSet (og_txs s ! 0)) = Inr () \<and> validate (og_nodes s) (gt_ReadSet (og_txs s ! 1)) = Inr () \<and>
      map_option (\<lambda>nd. vnd_Properties nd ''n'') (og_nodes (writePhase 1 (writePhase 0 s)) ''X'') = Some (Some 20)"
  by code_simp

section \<open>Cycle detection\<close>

text \<open>The closure \<open>dfs\<close> of \<open>CycleDetection\<close> with its captured variables as state and the depth of the recursion bounded
  by fuel; the inner option is the cycle, once found.  A context that is not cancelled is assumed.\<close>

record CycleState =
  cy_visited :: "string set"
  cy_recStack :: "string set"
  cy_path :: "string list"

definition cyTargets :: "'v OptimisticGraph \<Rightarrow> string \<Rightarrow> string list" where
  "cyTargets og nid =
     (case og_nodes og nid of None \<Rightarrow> [] | Some node \<Rightarrow> map ve_To (List.map_filter (og_edges og) (vnd_Edges node)))"

function cycDfs :: "'v OptimisticGraph \<Rightarrow> nat \<Rightarrow> string \<Rightarrow> CycleState \<Rightarrow> (CycleState \<times> string list option) option"
  and cycEdges :: "'v OptimisticGraph \<Rightarrow> nat \<Rightarrow> string list \<Rightarrow> CycleState \<Rightarrow> (CycleState \<times> string list option) option" where
  "cycDfs og 0 nid s = None"
| "cycDfs og (Suc fuel) nid s =
     (case cycEdges og fuel (cyTargets og nid)
             (s\<lparr>cy_visited := insert nid (cy_visited s), cy_recStack := insert nid (cy_recStack s), cy_path := cy_path s @ [nid]\<rparr>) of
        None \<Rightarrow> None
      | Some (s', Some c) \<Rightarrow> Some (s', Some c)
      | Some (s', None) \<Rightarrow> Some (s'\<lparr>cy_recStack := cy_recStack s' - {nid}, cy_path := butlast (cy_path s')\<rparr>, None))"
| "cycEdges og fuel [] s = Some (s, None)"
| "cycEdges og fuel (v # vs) s =
     (if v \<notin> cy_visited s then
        (case cycDfs og fuel v s of
           None \<Rightarrow> None
         | Some (s', Some c) \<Rightarrow> Some (s', Some c)
         | Some (s', None) \<Rightarrow> cycEdges og fuel vs s')
      else if v \<in> cy_recStack s then Some (s, Some (dropWhile (\<lambda>n. n \<noteq> v) (cy_path s)))
      else cycEdges og fuel vs s)"
  by pat_completeness auto
termination
  by (relation "measures [\<lambda>x. case x of Inl (og, fuel, _) \<Rightarrow> 2 * fuel | Inr (og, fuel, _) \<Rightarrow> Suc (2 * fuel),
                          \<lambda>x. case x of Inl _ \<Rightarrow> 0 | Inr (og, fuel, vs, _) \<Rightarrow> length vs]") auto

definition cycleDetection :: "'v OptimisticGraph \<Rightarrow> nat \<Rightarrow> string \<Rightarrow> (bool \<times> string list) option" where
  "cycleDetection og fuel start =
     map_option (\<lambda>(s, r). case r of None \<Rightarrow> (False, []) | Some c \<Rightarrow> (True, c))
       (cycDfs og fuel start \<lparr>cy_visited = {}, cy_recStack = {}, cy_path = []\<rparr>)"

definition oarcs :: "'v OptimisticGraph \<Rightarrow> (string \<times> string) set" where
  "oarcs og = {(u, v). v \<in> set (cyTargets og u)}"

text \<open>The nodes that are finished, and what is known of them: their successors are finished and none of them lies
  on a cycle.\<close>

definition finished :: "CycleState \<Rightarrow> string set" where
  "finished s = cy_visited s - set (cy_path s)"

definition cyc_ok :: "(string \<times> string) set \<Rightarrow> string set \<Rightarrow> CycleState \<Rightarrow> bool" where
  "cyc_ok E N s \<longleftrightarrow> cy_recStack s = set (cy_path s) \<and> distinct (cy_path s) \<and> set (cy_path s) \<subseteq> cy_visited s \<and>
     cy_visited s \<subseteq> N \<and> (cy_path s = [] \<or> is_path E (cy_path s)) \<and>
     E `` finished s \<subseteq> finished s \<and> (\<forall>v \<in> finished s. (v, v) \<notin> E\<^sup>+)"

definition is_cycle :: "(string \<times> string) set \<Rightarrow> string list \<Rightarrow> bool" where
  "is_cycle E c \<longleftrightarrow> is_path E c \<and> (last c, hd c) \<in> E"

lemma is_path_dropWhile:
  "is_path E p \<Longrightarrow> v \<in> set p \<Longrightarrow> is_path E (dropWhile (\<lambda>n. n \<noteq> v) p) \<and> hd (dropWhile (\<lambda>n. n \<noteq> v) p) = v \<and>
     last (dropWhile (\<lambda>n. n \<noteq> v) p) = last p \<and> set (dropWhile (\<lambda>n. n \<noteq> v) p) \<subseteq> set p"
  by (induction E p rule: is_path.induct) auto

lemma closed_trancl: "E `` V \<subseteq> V \<Longrightarrow> s \<in> V \<Longrightarrow> (s, v) \<in> E\<^sup>+ \<Longrightarrow> v \<in> V"
  using closed_unreachable [of E V s v] by (simp add: trancl_into_rtrancl)

text \<open>Finishing a node all of whose successors are finished.\<close>

lemma finish_node:
  assumes "E `` B \<subseteq> B" and "\<forall>v \<in> B. (v, v) \<notin> E\<^sup>+" and "E `` {u} \<subseteq> B" and "u \<notin> B"
  shows "E `` insert u B \<subseteq> insert u B \<and> (\<forall>v \<in> insert u B. (v, v) \<notin> E\<^sup>+)"
proof -
  have "(u, u) \<notin> E\<^sup>+"
  proof
    assume "(u, u) \<in> E\<^sup>+"
    then obtain x where "(u, x) \<in> E" "(x, u) \<in> E\<^sup>*" by (meson tranclD)
    then show False using assms closed_unreachable [of E B x u] by blast
  qed
  then show ?thesis using assms by blast
qed

lemma is_path_reach: "is_path E p \<Longrightarrow> v \<in> set p \<Longrightarrow> (hd p, v) \<in> E\<^sup>*"
  by (induction E p rule: is_path.induct) (auto intro: converse_rtrancl_into_rtrancl)

definition found_cycle :: "(string \<times> string) set \<Rightarrow> string \<Rightarrow> string list \<Rightarrow> bool" where
  "found_cycle E root c \<longleftrightarrow> is_cycle E c \<and> (root, hd c) \<in> E\<^sup>*"

definition push :: "string \<Rightarrow> CycleState \<Rightarrow> CycleState" where
  "push nid s = s\<lparr>cy_visited := insert nid (cy_visited s), cy_recStack := insert nid (cy_recStack s), cy_path := cy_path s @ [nid]\<rparr>"

definition pop :: "string \<Rightarrow> CycleState \<Rightarrow> CycleState" where
  "pop nid s = s\<lparr>cy_recStack := cy_recStack s - {nid}, cy_path := butlast (cy_path s)\<rparr>"

lemma cyc_ok_push:
  assumes "cyc_ok E N s" and "nid \<in> N" and "nid \<notin> cy_visited s" and "cy_path s = [] \<or> (last (cy_path s), nid) \<in> E"
  shows "cyc_ok E N (push nid s)"
proof -
  have "finished (push nid s) = finished s" using assms(3) by (auto simp: finished_def push_def)
  moreover have "is_path E (cy_path s @ [nid])" using assms(1,4) by (auto simp: cyc_ok_def is_path_snoc)
  moreover have "nid \<notin> set (cy_path s)" using assms(1,3) by (auto simp: cyc_ok_def)
  ultimately show ?thesis using assms(1,2) by (auto simp: cyc_ok_def push_def)
qed

lemma cyc_ok_pop:
  assumes "cyc_ok E N s" and "cy_path s = p @ [nid]" and "E `` {nid} \<subseteq> finished s"
  shows "cyc_ok E N (pop nid s)"
proof -
  have d: "nid \<notin> set p" "set (cy_path s) = insert nid (set p)" using assms(1,2) by (auto simp: cyc_ok_def)
  have "nid \<in> cy_visited s" "nid \<notin> finished s" using assms(1,2) by (auto simp: cyc_ok_def finished_def)
  then have f: "finished (pop nid s) = insert nid (finished s)" using d assms(2) by (auto simp: finished_def pop_def)
  have "E `` insert nid (finished s) \<subseteq> insert nid (finished s) \<and> (\<forall>v \<in> insert nid (finished s). (v, v) \<notin> E\<^sup>+)"
    by (rule finish_node) (use assms \<open>nid \<notin> finished s\<close> in \<open>simp_all add: cyc_ok_def\<close>)
  moreover have "p = [] \<or> is_path E p" using assms(1,2) by (auto simp: cyc_ok_def is_path_snoc)
  ultimately show ?thesis using assms(1,2) d f by (auto simp: cyc_ok_def pop_def)
qed

definition cyc_result :: "(string \<times> string) set \<Rightarrow> string set \<Rightarrow> string \<Rightarrow> CycleState \<Rightarrow> CycleState \<Rightarrow> string list option \<Rightarrow> bool" where
  "cyc_result E N root s s' r \<longleftrightarrow>
     (case r of Some c \<Rightarrow> found_cycle E root c
              | None \<Rightarrow> cyc_ok E N s' \<and> cy_path s' = cy_path s \<and> cy_visited s \<subseteq> cy_visited s')"

lemma cyc_outcome:
  assumes "oarcs og \<subseteq> UNIV \<times> N" and "finite N" and "cyc_ok (oarcs og) N s" and "card (N - cy_visited s) < fuel"
  shows "nid \<in> N \<Longrightarrow> nid \<notin> cy_visited s \<Longrightarrow> cy_path s = [] \<or> (last (cy_path s), nid) \<in> oarcs og \<Longrightarrow> hd (cy_path s @ [nid]) = root \<Longrightarrow>
      \<exists>s' r. cycDfs og fuel nid s = Some (s', r) \<and> cyc_result (oarcs og) N root s s' r \<and> (r = None \<longrightarrow> nid \<in> finished s')"
    and "cy_path s \<noteq> [] \<Longrightarrow> set vs \<subseteq> oarcs og `` {last (cy_path s)} \<Longrightarrow> hd (cy_path s) = root \<Longrightarrow>
      \<exists>s' r. cycEdges og fuel vs s = Some (s', r) \<and> cyc_result (oarcs og) N root s s' r \<and> (r = None \<longrightarrow> set vs \<subseteq> finished s')"
  using assms
proof (induction og fuel nid s and og fuel vs s rule: cycDfs_cycEdges.induct)
  case (2 og fuel nid s)
  define s1 where "s1 = push nid s"
  have ok1: "cyc_ok (oarcs og) N s1" unfolding s1_def by (rule cyc_ok_push [OF "2.prems"(7,1,2,3)])
  have "N - cy_visited s1 \<subset> N - cy_visited s" using "2.prems"(1,2) by (auto simp: s1_def push_def)
  then have "card (N - cy_visited s1) < card (N - cy_visited s)" using "2.prems"(6) by (intro psubset_card_mono) auto
  then have c1: "card (N - cy_visited s1) < fuel" using "2.prems"(8) by linarith
  have E: "set (cyTargets og nid) = oarcs og `` {nid}" by (auto simp: oarcs_def)
  have p1: "cy_path s1 = cy_path s @ [nid]" by (simp add: s1_def push_def)
  obtain s' r where r: "cycEdges og fuel (cyTargets og nid) s1 = Some (s', r)" "cyc_result (oarcs og) N root s1 s' r"
    "r = None \<longrightarrow> set (cyTargets og nid) \<subseteq> finished s'"
    using "2.IH" "2.prems"(4-6) ok1 c1 E p1 by (auto simp: s1_def push_def)
  show ?case
  proof (cases r)
    case (Some c)
    then show ?thesis using r(1,2) by (simp add: s1_def push_def cyc_result_def)
  next
    case None
    then have s': "cyc_ok (oarcs og) N s'" "cy_path s' = cy_path s @ [nid]" "cy_visited s1 \<subseteq> cy_visited s'" "oarcs og `` {nid} \<subseteq> finished s'"
      using r(2,3) E p1 by (simp_all add: cyc_result_def)
    have "cyc_ok (oarcs og) N (pop nid s')" by (rule cyc_ok_pop [OF s'(1,2,4)])
    moreover have "nid \<in> finished (pop nid s')" "cy_visited s \<subseteq> cy_visited (pop nid s')" "cy_path (pop nid s') = cy_path s"
      using s'(1-3) by (auto simp: pop_def finished_def s1_def push_def cyc_ok_def)
    ultimately have "cyc_result (oarcs og) N root s (pop nid s') None \<and> nid \<in> finished (pop nid s')" by (simp add: cyc_result_def)
    then show ?thesis using r(1) None by (simp add: s1_def push_def pop_def)
  qed
next
  case (4 og fuel v vs s)
  have E: "(last (cy_path s), v) \<in> oarcs og" "v \<in> N" using "4.prems"(2,4) by auto
  show ?case
  proof (cases "v \<in> cy_visited s")
    case False
    obtain s1 r1 where r1: "cycDfs og fuel v s = Some (s1, r1)" "cyc_result (oarcs og) N root s s1 r1" "r1 = None \<longrightarrow> v \<in> finished s1"
      using "4.IH"(1) False E "4.prems" by (auto simp: hd_append)
    show ?thesis
    proof (cases r1)
      case (Some c)
      then show ?thesis using r1 False by (simp add: cyc_result_def)
    next
      case None
      then have s1: "cyc_ok (oarcs og) N s1" "cy_path s1 = cy_path s" "cy_visited s \<subseteq> cy_visited s1" "v \<in> finished s1"
        using r1(2,3) by (simp_all add: cyc_result_def)
      have "card (N - cy_visited s1) \<le> card (N - cy_visited s)" using "4.prems"(5) s1(3) by (intro card_mono) auto
      then have "card (N - cy_visited s1) < fuel" using "4.prems"(7) by linarith
      then obtain s' r where r: "cycEdges og fuel vs s1 = Some (s', r)" "cyc_result (oarcs og) N root s1 s' r" "r = None \<longrightarrow> set vs \<subseteq> finished s'"
        using "4.IH"(2) [OF False r1(1) [unfolded None] refl refl] "4.prems" s1 by auto
      have "cyc_result (oarcs og) N root s s' r \<and> (r = None \<longrightarrow> set (v # vs) \<subseteq> finished s')"
        using r(2,3) s1 by (auto simp: cyc_result_def finished_def split: option.splits)
      then show ?thesis using r(1) r1(1) None False by auto
    qed
  next
    case True
    show ?thesis
    proof (cases "v \<in> cy_recStack s")
      case on: True
      then have v: "v \<in> set (cy_path s)" "is_path (oarcs og) (cy_path s)" using "4.prems"(1,6) by (auto simp: cyc_ok_def)
      then have "found_cycle (oarcs og) root (dropWhile (\<lambda>n. n \<noteq> v) (cy_path s))"
        using is_path_dropWhile [OF v(2,1)] is_path_reach [OF v(2,1)] E(1) "4.prems"(3) by (simp add: found_cycle_def is_cycle_def)
      then show ?thesis using True on by (simp add: cyc_result_def)
    next
      case off: False
      obtain s' r where r: "cycEdges og fuel vs s = Some (s', r)" "cyc_result (oarcs og) N root s s' r" "r = None \<longrightarrow> set vs \<subseteq> finished s'"
        using "4.IH"(3) True off "4.prems" by auto
      have "v \<in> finished s" using True off "4.prems"(6) by (auto simp: finished_def cyc_ok_def)
      then have "r = None \<longrightarrow> set (v # vs) \<subseteq> finished s'" using r(2,3) by (auto simp: cyc_result_def finished_def)
      then show ?thesis using r(1,2) True off by auto
    qed
  qed
qed (auto simp: cyc_result_def)

lemma is_cycle_trancl: "is_cycle E c \<Longrightarrow> (hd c, hd c) \<in> E\<^sup>+"
  using is_path_reaches [of E c] by (auto simp: is_cycle_def intro: rtrancl_into_trancl1)

text \<open>Cycle detection.  On every graph with finitely many edges the recursion ends within a depth of the number
  of edges plus two, and \<open>CycleDetection\<close> reports a cycle exactly when one can be reached from the start; the
  path it returns is then a cycle of the graph that is reachable from the start.\<close>

theorem cycle_detection_correct:
  assumes "finite (dom (og_edges og))" and "card (dom (og_edges og)) + 2 \<le> fuel"
  shows "\<exists>hasCycle c. cycleDetection og fuel start = Some (hasCycle, c) \<and>
     (hasCycle \<longleftrightarrow> (\<exists>v. (start, v) \<in> (oarcs og)\<^sup>* \<and> (v, v) \<in> (oarcs og)\<^sup>+)) \<and>
     (hasCycle \<longrightarrow> is_cycle (oarcs og) c \<and> (start, hd c) \<in> (oarcs og)\<^sup>*)"
proof -
  define N where "N = insert start (ve_To ` ran (og_edges og))"
  define s0 where "s0 = \<lparr>cy_visited = {}, cy_recStack = {}, cy_path = []\<rparr>"
  have "ran (og_edges og) = (\<lambda>k. the (og_edges og k)) ` dom (og_edges og)" by (force simp: ran_def)
  then have ran: "finite (ran (og_edges og))" "card (ran (og_edges og)) \<le> card (dom (og_edges og))"
    using assms(1) by (simp_all add: card_image_le)
  then have "card (ve_To ` ran (og_edges og)) \<le> card (dom (og_edges og))" using card_image_le order_trans by blast
  then have card: "card N \<le> Suc (card (dom (og_edges og)))" and fin: "finite N" using ran(1) by (auto simp: N_def card_insert_if)
  have sub: "oarcs og \<subseteq> UNIV \<times> N" by (auto simp: oarcs_def cyTargets_def map_filter_def N_def ran_def split: option.splits)
  have ok: "cyc_ok (oarcs og) N s0" by (simp add: cyc_ok_def s0_def finished_def)
  have fuel: "card (N - cy_visited s0) < fuel" using card assms(2) by (simp add: s0_def)
  obtain s r where r: "cycDfs og fuel start s0 = Some (s, r)" "cyc_result (oarcs og) N start s0 s r" "r = None \<longrightarrow> start \<in> finished s"
    using cyc_outcome(1) [OF sub fin ok fuel, of start start] by (auto simp: s0_def N_def)
  show ?thesis
  proof (cases r)
    case None
    then have "oarcs og `` finished s \<subseteq> finished s" "\<forall>v \<in> finished s. (v, v) \<notin> (oarcs og)\<^sup>+" "start \<in> finished s"
      using r(2,3) by (auto simp: cyc_result_def cyc_ok_def)
    then have "\<not> (\<exists>v. (start, v) \<in> (oarcs og)\<^sup>* \<and> (v, v) \<in> (oarcs og)\<^sup>+)" using closed_unreachable by metis
    moreover have "cycleDetection og fuel start = Some (False, [])" using None r(1) by (simp add: cycleDetection_def s0_def)
    ultimately show ?thesis by blast
  next
    case (Some c)
    then have c: "is_cycle (oarcs og) c" "(start, hd c) \<in> (oarcs og)\<^sup>*" using r(2) by (auto simp: cyc_result_def found_cycle_def)
    then show ?thesis using Some r(1) is_cycle_trancl [OF c(1)] by (auto simp: cycleDetection_def s0_def)
  qed
qed

definition cyclicGraph :: "int OptimisticGraph" where
  "cyclicGraph =
     (let nd = (\<lambda>n es. \<lparr>vnd_ID = n, vnd_Version = 0, vnd_Properties = Map.empty, vnd_Edges = es\<rparr>);
          ed = (\<lambda>f t. \<lparr>ve_ID = '''', ve_Version = 0, ve_From = f, ve_To = t, ve_Properties = Map.empty\<rparr>)
      in newOptimisticGraph\<lparr>og_nodes := [''W'' \<mapsto> nd ''W'' [''e0''], ''X'' \<mapsto> nd ''X'' [''e1''], ''Y'' \<mapsto> nd ''Y'' [''e2'']],
                            og_edges := [''e0'' \<mapsto> ed ''W'' ''X'', ''e1'' \<mapsto> ed ''X'' ''Y'', ''e2'' \<mapsto> ed ''Y'' ''X'']\<rparr>)"

theorem cycle_detection_correct_witness:
  "cycleDetection cyclicGraph 5 ''W'' = Some (True, [''X'', ''Y'']) \<and> is_cycle (oarcs cyclicGraph) [''X'', ''Y'']"
proof -
  have d: "dom (og_edges cyclicGraph) = {''e0'', ''e1'', ''e2''}" by (auto simp: cyclicGraph_def Let_def)
  have fin: "finite (dom (og_edges cyclicGraph))" by (simp add: d)
  have c: "card (dom (og_edges cyclicGraph)) + 2 \<le> 5" by (simp add: d)
  have e: "cycleDetection cyclicGraph 5 ''W'' = Some (True, [''X'', ''Y''])" by code_simp
  then show ?thesis using cycle_detection_correct [OF fin c, of "''W''"] by simp
qed

end
