(* ===== verification/ErasureStorage.thy ===== *)
theory ErasureStorage
  imports GoPrelude
begin

text \<open>
  The distributed object storage with erasure coding of \<open>src/solutions/solution24_object_storage.go\<close>
  (\<open>DistributedObjectStorage\<close>): splitting an object into data and parity chunks, placing them on nodes, reading
  them back.  SHA-256 with its hexadecimal printing is the parameter \<open>sha\<close>; that it has no collision on the two
  strings compared is a hypothesis where it is needed.  The goroutines of \<open>Put\<close> work on different nodes and
  append to one slice of locations; they run in the order given by an argument, each as one step.  The
  goroutines of \<open>Get\<close> fill different positions of a slice, so their order does not matter.  The ticker of the
  recovery service only logs.  Shown: the parity chunk restores any lost data chunk; in every history of writes
  and node failures \<open>Get\<close> returns nothing but the last value written; and when it does return it.
\<close>

unbundle bit_operations_syntax

section \<open>Erasure coding\<close>

type_synonym bytes = "8 word list"

definition chunkSize :: "nat \<Rightarrow> bytes \<Rightarrow> nat" where
  "chunkSize dataChunks data =
     (let n = length data div dataChunks in if length data mod dataChunks \<noteq> 0 then n + 1 else n)"

text \<open>A data chunk: a zeroed slice into which the piece of the data is copied.\<close>

definition dataChunk :: "nat \<Rightarrow> bytes \<Rightarrow> nat \<Rightarrow> bytes" where
  "dataChunk csize data i =
     (let start = i * csize;
          stop = (if start + csize > length data then length data else start + csize);
          piece = (if start < length data then take (stop - start) (drop start data) else [])
      in piece @ replicate (csize - length piece) 0)"

text \<open>The innermost loop of the parity computation.\<close>

definition xorInto :: "bytes \<Rightarrow> bytes \<Rightarrow> bytes" where
  "xorInto parity chunk = map (\<lambda>k. if k < length chunk then parity ! k XOR chunk ! k else parity ! k) [0..<length parity]"

definition parityChunk :: "nat \<Rightarrow> bytes list \<Rightarrow> bytes" where
  "parityChunk csize chunks = foldl xorInto (replicate csize 0) chunks"

definition encode :: "nat \<Rightarrow> nat \<Rightarrow> bytes \<Rightarrow> bytes list" where
  "encode dataChunks parityChunks data =
     (let csize = chunkSize dataChunks data; ds = map (dataChunk csize data) [0..<dataChunks]
      in ds @ map (\<lambda>i. parityChunk csize ds) [0..<parityChunks])"

definition decode :: "bytes option list \<Rightarrow> nat \<Rightarrow> bytes" where
  "decode chunks dataChunks = concat (map (\<lambda>i. case chunks ! i of None \<Rightarrow> [] | Some c \<Rightarrow> c) [0..<dataChunks])"

lemma length_dataChunk [simp]: "length (dataChunk csize data i) = csize"
  by (auto simp: dataChunk_def Let_def)

lemma chunkSize_cover: "0 < d \<Longrightarrow> length data \<le> d * chunkSize d data"
proof -
  assume "0 < d"
  define q r where "q = length data div d" and "r = length data mod d"
  have "length data = d * q + r" "r < d" using \<open>0 < d\<close> by (simp_all add: q_def r_def)
  then show ?thesis by (auto simp: chunkSize_def Let_def q_def [symmetric] r_def [symmetric])
qed

lemma chunkSize_exact: "0 < d \<Longrightarrow> d * chunkSize d data = length data \<longleftrightarrow> d dvd length data"
proof
  assume "0 < d" "d * chunkSize d data = length data"
  then show "d dvd length data" by (metis dvd_triv_left)
next
  assume "0 < d" "d dvd length data"
  then show "d * chunkSize d data = length data" by (simp add: chunkSize_def dvd_eq_mod_eq_0)
qed

text \<open>A chunk is a slice of the data padded with zeros; the chunks together are the padded data.\<close>

lemma dataChunk_slice:
  "length data \<le> n \<Longrightarrow> Suc i * csize \<le> n \<Longrightarrow>
     dataChunk csize data i = take csize (drop (i * csize) (data @ replicate (n - length data) 0))"
proof (cases "i * csize < length data")
  case True
  assume n: "length data \<le> n" "Suc i * csize \<le> n"
  then have "n - length data \<ge> i * csize + csize - length data" by simp
  then show ?thesis using True by (auto simp: dataChunk_def Let_def take_replicate min_def)
next
  case False
  assume n: "length data \<le> n" "Suc i * csize \<le> n"
  then have "i * csize + csize \<le> n" by simp
  then have "take csize (replicate (n - i * csize) (0 :: 8 word)) = replicate csize 0" by (simp add: take_replicate min_def)
  then show ?thesis using False n by (simp add: dataChunk_def Let_def drop_replicate)
qed

lemma concat_slices: "concat (map (\<lambda>i. take csize (drop (i * csize) xs)) [0..<d]) = take (d * csize) xs"
proof (induction d)
  case (Suc d)
  then show ?case by (simp add: take_add add.commute [of csize])
qed simp

lemma decode_all:
  assumes "0 < d" and "\<And>i. i < d \<Longrightarrow> chunks ! i = Some (encode d p data ! i)"
  shows "decode chunks d = data @ replicate (d * chunkSize d data - length data) 0"
proof -
  define csize where "csize = chunkSize d data"
  define n where "n = d * csize"
  have n: "length data \<le> n" using chunkSize_cover [OF assms(1), of data] by (simp add: n_def csize_def)
  have "(case chunks ! i of None \<Rightarrow> [] | Some c \<Rightarrow> c) = take csize (drop (i * csize) (data @ replicate (n - length data) 0))" if "i < d" for i
  proof -
    have "Suc i * csize \<le> n" unfolding n_def using that by (intro mult_le_mono1) simp
    then show ?thesis using assms(2) [OF that] that dataChunk_slice [OF n] by (simp add: encode_def csize_def Let_def nth_append)
  qed
  then have "decode chunks d = concat (map (\<lambda>i. take csize (drop (i * csize) (data @ replicate (n - length data) 0))) [0..<d])"
    unfolding decode_def by (intro arg_cong [of _ _ concat] map_cong) auto
  also have "\<dots> = data @ replicate (n - length data) 0" unfolding concat_slices n_def [symmetric] using n by simp
  finally show ?thesis by (simp add: n_def csize_def)
qed

text \<open>Parity at one position is the exclusive or of the chunks there.\<close>

lemma length_xorInto [simp]: "length (xorInto p c) = length p"
  by (simp add: xorInto_def)

lemma foldl_xorInto:
  assumes "k < length p" and "\<And>c. c \<in> set cs \<Longrightarrow> length c = length p"
  shows "foldl xorInto p cs ! k = foldr (\<lambda>c x. c ! k XOR x) cs (p ! k)"
  using assms
proof (induction cs arbitrary: p)
  case (Cons c cs)
  have "foldr (\<lambda>c x. c ! k XOR x) cs (p ! k XOR c ! k) = c ! k XOR foldr (\<lambda>c x. c ! k XOR x) cs (p ! k)"
    by (induction cs) (simp_all add: ac_simps)
  then show ?case using Cons by (simp add: xorInto_def)
qed simp

lemma length_foldl_xorInto [simp]: "length (foldl xorInto p cs) = length p"
  by (induction cs arbitrary: p) simp_all

lemma foldr_xor_remove:
  "i < length cs \<Longrightarrow> foldr (\<lambda>c x. f c XOR x) cs (0 :: 8 word) = f (cs ! i) XOR foldr (\<lambda>c x. f c XOR x) (take i cs @ drop (Suc i) cs) 0"
proof (induction cs arbitrary: i)
  case (Cons c cs)
  then show ?case by (cases i) (simp_all add: ac_simps)
qed simp

lemma xor_cancel: "x XOR (y XOR x) = (y :: 8 word)"
  by (rule bit_word_eqI) (auto simp: bit_simps)

text \<open>Parity.  Whatever the data, the exclusive or of a parity chunk and all data chunks but one is the
  missing data chunk.\<close>

theorem parity_restores_chunk:
  assumes "i < d" and "j < p"
  shows "let cs = encode d p data; ds = take d cs
         in foldl xorInto (cs ! (d + j)) (take i ds @ drop (Suc i) ds) = cs ! i"
proof -
  define csize where "csize = chunkSize d data"
  define ds where "ds = map (dataChunk csize data) [0..<d]"
  have len: "length c = csize" if "c \<in> set ds" for c using that by (auto simp: ds_def)
  have cs: "encode d p data = ds @ map (\<lambda>i. parityChunk csize ds) [0..<p]" by (simp add: encode_def ds_def csize_def Let_def)
  have L: "length ds = d" by (simp add: ds_def)
  define rest where "rest = take i ds @ drop (Suc i) ds"
  have rest: "c \<in> set rest \<Longrightarrow> length c = csize" for c using len by (auto simp: rest_def dest: in_set_takeD in_set_dropD)
  have par: "length (parityChunk csize ds) = csize" by (simp add: parityChunk_def)
  have "foldl xorInto (parityChunk csize ds) rest = ds ! i"
  proof (rule nth_equalityI)
    show "length (foldl xorInto (parityChunk csize ds) rest) = length (ds ! i)" using par len L assms(1) by simp
    fix k assume "k < length (foldl xorInto (parityChunk csize ds) rest)"
    then have k: "k < csize" using par by simp
    have p: "parityChunk csize ds ! k = ds ! i ! k XOR foldr (\<lambda>c x. c ! k XOR x) rest 0"
      using foldl_xorInto [of k "replicate csize 0" ds] len k foldr_xor_remove [of i ds "\<lambda>c. c ! k"] L assms(1)
      by (simp add: parityChunk_def rest_def)
    have F: "foldr (\<lambda>c x. c ! k XOR x) rest y = foldr (\<lambda>c x. c ! k XOR x) rest 0 XOR y" for y
      by (induction rest) (simp_all add: ac_simps)
    have "foldr (\<lambda>c x. c ! k XOR x) rest (parityChunk csize ds ! k) =
        foldr (\<lambda>c x. c ! k XOR x) rest 0 XOR (ds ! i ! k XOR foldr (\<lambda>c x. c ! k XOR x) rest 0)" unfolding p by (rule F)
    also have "\<dots> = ds ! i ! k" by (rule xor_cancel)
    finally show "foldl xorInto (parityChunk csize ds) rest ! k = ds ! i ! k"
      using foldl_xorInto [of k "parityChunk csize ds" rest] k par rest by simp
  qed
  then show ?thesis using L assms by (simp add: cs rest_def nth_append Let_def)
qed

theorem parity_restores_chunk_witness:
  "let cs = encode 4 2 [1, 2, 3, 4, 5]; ds = take 4 cs
   in cs = [[1, 2], [3, 4], [5, 0], [0, 0], [7, 6], [7, 6]] \<and> foldl xorInto (cs ! (4 + 0)) (take 1 ds @ drop (Suc 1) ds) = cs ! 1"
proof -
  have e: "encode 4 2 [1, 2, 3, 4, 5] = [[1, 2], [3, 4], [5, 0], [0, 0], [7, 6], [7, 6]]" by code_simp
  show ?thesis using parity_restores_chunk [of 1 4 0 2 "[1, 2, 3, 4, 5]"] e by (simp add: Let_def)
qed

section \<open>The storage\<close>

record DataChunk =
  dk_ObjectID :: string
  dk_ChunkID :: nat
  dk_Data :: bytes
  dk_Checksum :: string
  dk_Size :: int

record DataNode =
  dn_ID :: string
  dn_Capacity :: int
  dn_Used :: int
  dn_Objects :: "string \<rightharpoonup> DataChunk"
  dn_Status :: string

record ChunkLocation =
  loc_ChunkID :: nat
  loc_NodeID :: string
  loc_Type :: string

record ObjectMetadata =
  om_Key :: string
  om_Size :: int
  om_Chunks :: nat
  om_ParityChunks :: nat
  om_Created :: gotime
  om_Checksum :: string

record DistributedObjectStorage =
  dos_nodes :: "DataNode list"
  dos_objects :: "string \<rightharpoonup> ObjectMetadata"
  dos_location :: "string \<rightharpoonup> ChunkLocation list"
  dos_dataChunks :: nat
  dos_parityChunks :: nat

definition storageNode :: "nat \<Rightarrow> string" where
  "storageNode i = ''node-'' @ itoa (int i)"

definition newDistributedObjectStorage :: "nat \<Rightarrow> DistributedObjectStorage" where
  "newDistributedObjectStorage numNodes =
     \<lparr>dos_nodes = map (\<lambda>i. \<lparr>dn_ID = storageNode i, dn_Capacity = 1024 * 1024 * 1024, dn_Used = 0, dn_Objects = Map.empty,
                            dn_Status = ''active''\<rparr>) [0..<numNodes],
      dos_objects = Map.empty, dos_location = Map.empty, dos_dataChunks = 4, dos_parityChunks = 2\<rparr>"

text \<open>The selected nodes, by their positions.\<close>

definition selectNodes :: "nat \<Rightarrow> DistributedObjectStorage \<Rightarrow> nat list" where
  "selectNodes numChunks dos =
     filter (\<lambda>i. dn_Status (dos_nodes dos ! i) = ''active'' \<and> i64 (dn_Capacity (dos_nodes dos ! i) - dn_Used (dos_nodes dos ! i)) > 0)
       [0..<min numChunks (length (dos_nodes dos))]"

definition chunkKey :: "string \<Rightarrow> nat \<Rightarrow> string" where
  "chunkKey key i = key @ ''-'' @ itoa (int i)"

definition storeChunk :: "(bytes \<Rightarrow> string) \<Rightarrow> string \<Rightarrow> nat \<Rightarrow> bytes \<Rightarrow> DataNode \<Rightarrow> DataNode" where
  "storeChunk sha key chunkID chunk node =
     node\<lparr>dn_Objects := (dn_Objects node)(chunkKey key chunkID \<mapsto>
            \<lparr>dk_ObjectID = key, dk_ChunkID = chunkID, dk_Data = chunk, dk_Checksum = sha chunk, dk_Size = int (length chunk)\<rparr>),
          dn_Used := i64 (dn_Used node + int (length chunk))\<rparr>"

datatype StorageError = ReadFailed string | NotEnoughNodes | ObjectNotFound | ChecksumMismatch

text \<open>\<open>Put\<close>: the reader yields the data or an error; \<open>order\<close> lists the chunk numbers in the order in which their
  goroutines run.\<close>

definition dosPut :: "(bytes \<Rightarrow> string) \<Rightarrow> gotime \<Rightarrow> nat list \<Rightarrow> string \<Rightarrow> string + bytes \<Rightarrow> DistributedObjectStorage
    \<Rightarrow> (StorageError + unit) \<times> DistributedObjectStorage" where
  "dosPut sha now order key reader dos =
     (case reader of
        Inl err \<Rightarrow> (Inl (ReadFailed err), dos)
      | Inr data \<Rightarrow>
          (let chunks = encode (dos_dataChunks dos) (dos_parityChunks dos) data;
               selected = selectNodes (length chunks) dos
           in if length selected < length chunks then (Inl NotEnoughNodes, dos)
              else (let nodes = fold (\<lambda>i ns. ns[selected ! i := storeChunk sha key i (chunks ! i) (ns ! (selected ! i))]) order (dos_nodes dos);
                        locations = map (\<lambda>i. \<lparr>loc_ChunkID = i, loc_NodeID = dn_ID (dos_nodes dos ! (selected ! i)),
                                              loc_Type = (if i \<ge> dos_dataChunks dos then ''parity'' else ''data'')\<rparr>) order
                    in (Inr (), dos\<lparr>dos_nodes := nodes,
                          dos_objects := (dos_objects dos)(key \<mapsto>
                            \<lparr>om_Key = key, om_Size = int (length data), om_Chunks = dos_dataChunks dos, om_ParityChunks = dos_parityChunks dos,
                             om_Created = now, om_Checksum = sha data\<rparr>),
                          dos_location := (dos_location dos)(key \<mapsto> locations)\<rparr>))))"

definition getNode :: "string \<Rightarrow> DistributedObjectStorage \<Rightarrow> DataNode option" where
  "getNode nodeID dos = find (\<lambda>node. dn_ID node = nodeID) (dos_nodes dos)"

text \<open>The goroutine of one location: the chunk it finds.\<close>

definition fetchChunk :: "DistributedObjectStorage \<Rightarrow> string \<Rightarrow> ChunkLocation \<Rightarrow> bytes option" where
  "fetchChunk dos key loc =
     (case getNode (loc_NodeID loc) dos of
        None \<Rightarrow> None
      | Some node \<Rightarrow> if dn_Status node \<noteq> ''active'' then None
                     else map_option dk_Data (dn_Objects node (chunkKey key (loc_ChunkID loc))))"

definition fetchAll :: "DistributedObjectStorage \<Rightarrow> string \<Rightarrow> nat \<Rightarrow> ChunkLocation list \<Rightarrow> bytes option list" where
  "fetchAll dos key n locations =
     fold (\<lambda>loc chunks. case fetchChunk dos key loc of None \<Rightarrow> chunks | Some c \<Rightarrow> chunks[loc_ChunkID loc := Some c])
       locations (replicate n None)"

definition dosGet :: "(bytes \<Rightarrow> string) \<Rightarrow> string \<Rightarrow> DistributedObjectStorage \<Rightarrow> StorageError + bytes" where
  "dosGet sha key dos =
     (case dos_objects dos key of
        None \<Rightarrow> Inl ObjectNotFound
      | Some m \<Rightarrow>
          (let locations = (case dos_location dos key of None \<Rightarrow> [] | Some ls \<Rightarrow> ls);
               chunks = fetchAll dos key (om_Chunks m + om_ParityChunks m) locations;
               data = decode chunks (om_Chunks m)
           in if sha data \<noteq> om_Checksum m then Inl ChecksumMismatch else Inr data))"

text \<open>Histories of writes and of changes of a node's status (which only tests and operators make).\<close>

datatype SOp = SPut gotime "nat list" string "string + bytes" | SStatus nat string

definition setStatus :: "nat \<Rightarrow> string \<Rightarrow> DistributedObjectStorage \<Rightarrow> DistributedObjectStorage" where
  "setStatus i st dos = (if i < length (dos_nodes dos) then dos\<lparr>dos_nodes := (dos_nodes dos)[i := (dos_nodes dos ! i)\<lparr>dn_Status := st\<rparr>]\<rparr> else dos)"

fun sstep :: "(bytes \<Rightarrow> string) \<Rightarrow> DistributedObjectStorage \<Rightarrow> SOp \<Rightarrow> DistributedObjectStorage" where
  "sstep sha dos (SPut now order key reader) = snd (dosPut sha now order key reader dos)"
| "sstep sha dos (SStatus i st) = setStatus i st dos"

text \<open>Every goroutine of a \<open>Put\<close> runs once.\<close>

fun sop_ok :: "DistributedObjectStorage \<Rightarrow> SOp \<Rightarrow> bool" where
  "sop_ok dos (SPut now order key reader) = (mset order = mset [0..<dos_dataChunks dos + dos_parityChunks dos])"
| "sop_ok dos (SStatus i st) = True"

text \<open>What a successful \<open>Put\<close> leaves.\<close>

definition placed :: "DistributedObjectStorage \<Rightarrow> string \<Rightarrow> bytes \<Rightarrow> bool" where
  "placed dos key data \<longleftrightarrow>
     (let L = dos_dataChunks dos + dos_parityChunks dos; chunks = encode (dos_dataChunks dos) (dos_parityChunks dos) data
      in L \<le> length (dos_nodes dos) \<and>
         (\<forall>i < L. map_option dk_Data (dn_Objects (dos_nodes dos ! i) (chunkKey key i)) = Some (chunks ! i)) \<and>
         (\<exists>ls. dos_location dos key = Some ls \<and> distinct (map loc_ChunkID ls) \<and> set (map loc_ChunkID ls) = {..<L} \<and>
               (\<forall>loc \<in> set ls. loc_NodeID loc = storageNode (loc_ChunkID loc))))"

definition key_ok :: "(bytes \<Rightarrow> string) \<Rightarrow> DistributedObjectStorage \<Rightarrow> string \<Rightarrow> bytes option \<Rightarrow> bool" where
  "key_ok sha dos key r \<longleftrightarrow>
     (case dos_objects dos key of
        None \<Rightarrow> r = None
      | Some m \<Rightarrow> om_Chunks m = 4 \<and> om_ParityChunks m = 2 \<and> (\<exists>data. r = Some data \<and> om_Checksum m = sha data \<and> placed dos key data))"

definition dos_ok :: "(bytes \<Rightarrow> string) \<Rightarrow> DistributedObjectStorage \<Rightarrow> (string \<rightharpoonup> bytes) \<Rightarrow> bool" where
  "dos_ok sha dos kv \<longleftrightarrow> dos_dataChunks dos = 4 \<and> dos_parityChunks dos = 2 \<and>
     (\<forall>i < length (dos_nodes dos). dn_ID (dos_nodes dos ! i) = storageNode i) \<and> (\<forall>key. key_ok sha dos key (kv key))"

lemma key_ok_frame:
  "key_ok sha dos key r \<Longrightarrow> dos_objects dos' key = dos_objects dos key \<Longrightarrow>
     (\<And>data. placed dos key data \<Longrightarrow> placed dos' key data) \<Longrightarrow> key_ok sha dos' key r"
  by (auto simp: key_ok_def split: option.splits)

section \<open>The simulation\<close>

text \<open>The specification is a map from keys to the data last written.\<close>

fun kvWrite :: "(string \<rightharpoonup> bytes) \<Rightarrow> string \<times> bytes \<Rightarrow> (string \<rightharpoonup> bytes)" where
  "kvWrite kv (key, data) = kv(key \<mapsto> data)"

fun putLabel :: "(bytes \<Rightarrow> string) \<Rightarrow> DistributedObjectStorage \<Rightarrow> SOp \<Rightarrow> (string \<times> bytes) list" where
  "putLabel sha dos (SPut now order key reader) =
     (case (reader, fst (dosPut sha now order key reader dos)) of (Inr data, Inr _) \<Rightarrow> [(key, data)] | _ \<Rightarrow> [])"
| "putLabel sha dos (SStatus i st) = []"

lemma chunkKey_eq [simp]: "chunkKey k i = chunkKey k' j \<longleftrightarrow> k = k' \<and> i = j"
  using append_sep_inj [of k "CHR ''-''" "itoa (int i)" k' "itoa (int j)"] itoa_nat_no_minus by (auto simp: chunkKey_def)

lemma length_encode [simp]: "length (encode d p data) = d + p"
  by (simp add: encode_def Let_def)

lemma select_full:
  assumes "n \<le> length (selectNodes n dos)"
  shows "selectNodes n dos = [0..<n]" and "n \<le> length (dos_nodes dos)"
proof -
  have le: "length (selectNodes n dos) \<le> min n (length (dos_nodes dos))"
    unfolding selectNodes_def by (rule order_trans [OF length_filter_le]) simp
  then show n: "n \<le> length (dos_nodes dos)" using assms by simp
  have "length (selectNodes n dos) = length [0..<min n (length (dos_nodes dos))]" using le assms by simp
  then have "selectNodes n dos = [0..<min n (length (dos_nodes dos))]"
    unfolding selectNodes_def by (rule length_filter_eq)
  then show "selectNodes n dos = [0..<n]" using n by (simp add: min_def)
qed

text \<open>The state after a successful write.\<close>

lemma dosPut_success:
  assumes ok: "dos_ok sha dos kv" and order: "mset order = mset [0..<6]"
    and put: "dosPut sha now order key (Inr data) dos = (Inr (), dos')"
  shows "6 \<le> length (dos_nodes dos)" "length (dos_nodes dos') = length (dos_nodes dos)"
    "dos_dataChunks dos' = 4" "dos_parityChunks dos' = 2"
    "j < length (dos_nodes dos) \<Longrightarrow> dos_nodes dos' ! j =
       (if j < 6 then storeChunk sha key j (encode 4 2 data ! j) (dos_nodes dos ! j) else dos_nodes dos ! j)"
    "\<exists>m. dos_objects dos' = (dos_objects dos)(key \<mapsto> m) \<and> om_Chunks m = 4 \<and> om_ParityChunks m = 2 \<and> om_Checksum m = sha data"
    "\<exists>ls. dos_location dos' = (dos_location dos)(key \<mapsto> ls) \<and> map loc_ChunkID ls = order \<and>
        (\<forall>loc \<in> set ls. loc_NodeID loc = storageNode (loc_ChunkID loc))"
proof -
  have c: "dos_dataChunks dos = 4" "dos_parityChunks dos = 2" using ok by (simp_all add: dos_ok_def)
  have ids: "i < length (dos_nodes dos) \<Longrightarrow> dn_ID (dos_nodes dos ! i) = storageNode i" for i using ok by (simp add: dos_ok_def)
  have "6 \<le> length (selectNodes 6 dos)" using put by (auto simp: dosPut_def c Let_def split: if_splits)
  note sel = select_full [OF this]
  have s: "set order = {..<6}" "distinct order" using order by (metis atLeast_upt set_mset_mset) (metis order distinct_upt mset_eq_imp_distinct_iff)
  define f where "f = (\<lambda>i. storeChunk sha key i (encode 4 2 data ! i))"
  have "fold (\<lambda>i ns. ns[selectNodes 6 dos ! i := f i (ns ! (selectNodes 6 dos ! i))]) order (dos_nodes dos) =
      fold (\<lambda>i ns. ns[i := f i (ns ! i)]) order (dos_nodes dos)"
    using s(1) by (intro fold_cong) (auto simp: sel(1))
  then have dos': "dos' = dos\<lparr>dos_nodes := fold (\<lambda>i ns. ns[i := f i (ns ! i)]) order (dos_nodes dos),
      dos_objects := (dos_objects dos)(key \<mapsto> \<lparr>om_Key = key, om_Size = int (length data), om_Chunks = 4, om_ParityChunks = 2,
                             om_Created = now, om_Checksum = sha data\<rparr>),
      dos_location := (dos_location dos)(key \<mapsto> map (\<lambda>i. \<lparr>loc_ChunkID = i, loc_NodeID = dn_ID (dos_nodes dos ! (selectNodes 6 dos ! i)),
                                              loc_Type = (if i \<ge> 4 then ''parity'' else ''data'')\<rparr>) order)\<rparr>"
    using put by (simp add: dosPut_def c Let_def f_def split: if_splits)
  show "6 \<le> length (dos_nodes dos)" by (rule sel(2))
  show "length (dos_nodes dos') = length (dos_nodes dos)" by (simp add: dos')
  show "dos_dataChunks dos' = 4" "dos_parityChunks dos' = 2" by (simp_all add: dos' c)
  show "j < length (dos_nodes dos) \<Longrightarrow> dos_nodes dos' ! j =
       (if j < 6 then storeChunk sha key j (encode 4 2 data ! j) (dos_nodes dos ! j) else dos_nodes dos ! j)"
    using fold_update_own_nth [OF s(2), of "dos_nodes dos" j f] s(1) sel(2) by (auto simp: dos' f_def)
  show "\<exists>m. dos_objects dos' = (dos_objects dos)(key \<mapsto> m) \<and> om_Chunks m = 4 \<and> om_ParityChunks m = 2 \<and> om_Checksum m = sha data"
    by (intro exI [of _ "\<lparr>om_Key = key, om_Size = int (length data), om_Chunks = 4, om_ParityChunks = 2,
                             om_Created = now, om_Checksum = sha data\<rparr>"]) (simp add: dos')
  show "\<exists>ls. dos_location dos' = (dos_location dos)(key \<mapsto> ls) \<and> map loc_ChunkID ls = order \<and>
        (\<forall>loc \<in> set ls. loc_NodeID loc = storageNode (loc_ChunkID loc))"
    by (intro exI [of _ "map (\<lambda>i. \<lparr>loc_ChunkID = i, loc_NodeID = dn_ID (dos_nodes dos ! (selectNodes 6 dos ! i)),
                                 loc_Type = (if i \<ge> 4 then ''parity'' else ''data'')\<rparr>) order"])
      (use ids sel s(1) in \<open>auto simp: dos' comp_def\<close>)
qed

lemma placed_frame:
  assumes "placed dos key data" and "dos_dataChunks dos' = dos_dataChunks dos" "dos_parityChunks dos' = dos_parityChunks dos"
    and "length (dos_nodes dos') = length (dos_nodes dos)" and "dos_location dos' key = dos_location dos key"
    and "\<And>i. i < length (dos_nodes dos) \<Longrightarrow> dn_Objects (dos_nodes dos' ! i) (chunkKey key i) = dn_Objects (dos_nodes dos ! i) (chunkKey key i)"
  shows "placed dos' key data"
  using assms unfolding placed_def Let_def by auto

lemma dos_ok_put:
  assumes ok: "dos_ok sha dos kv" and order: "mset order = mset [0..<6]"
    and put: "dosPut sha now order key (Inr data) dos = (Inr (), dos')"
  shows "dos_ok sha dos' (kv(key \<mapsto> data))"
proof -
  note f = dosPut_success [OF ok order put]
  have c: "dos_dataChunks dos = 4" "dos_parityChunks dos = 2" using ok by (simp_all add: dos_ok_def)
  obtain m where m: "dos_objects dos' = (dos_objects dos)(key \<mapsto> m)" "om_Chunks m = 4" "om_ParityChunks m = 2" "om_Checksum m = sha data"
    using f(6) by blast
  obtain ls where ls: "dos_location dos' = (dos_location dos)(key \<mapsto> ls)" "map loc_ChunkID ls = order"
    "\<forall>loc \<in> set ls. loc_NodeID loc = storageNode (loc_ChunkID loc)" using f(7) by blast
  have s: "set order = {..<6}" "distinct order" using order by (metis atLeast_upt set_mset_mset) (metis order distinct_upt mset_eq_imp_distinct_iff)
  have new: "placed dos' key data"
    unfolding placed_def Let_def f(2-4) using f(1,5) ls s by (auto simp: storeChunk_def)
  have old: "placed dos' k d" if "placed dos k d" "k \<noteq> key" for k d
  proof (rule placed_frame [OF that(1)])
    show "dn_Objects (dos_nodes dos' ! i) (chunkKey k i) = dn_Objects (dos_nodes dos ! i) (chunkKey k i)" if "i < length (dos_nodes dos)" for i
      using f(5) [OF that] \<open>k \<noteq> key\<close> by (simp add: storeChunk_def)
  qed (use f c ls(1) that(2) in simp_all)
  have ids: "dn_ID (dos_nodes dos' ! i) = storageNode i" if "i < length (dos_nodes dos')" for i
    using that f(2) f(5) [of i] ok by (simp add: dos_ok_def storeChunk_def)
  have "key_ok sha dos' k ((kv(key \<mapsto> data)) k)" for k
  proof (cases "k = key")
    case True
    then show ?thesis using m new by (simp add: key_ok_def)
  next
    case False
    have "key_ok sha dos k (kv k)" using ok by (simp add: dos_ok_def)
    then show ?thesis using key_ok_frame [of sha dos k "kv k" dos'] False m(1) old by simp
  qed
  then show ?thesis using f(3,4) ids by (simp add: dos_ok_def)
qed

lemma dos_ok_status:
  assumes "dos_ok sha dos kv"
  shows "dos_ok sha (setStatus i st dos) kv"
proof -
  have "placed (setStatus i st dos) key data" if "placed dos key data" for key data
    by (rule placed_frame [OF that]) (auto simp: setStatus_def nth_list_update)
  moreover have "dos_objects (setStatus i st dos) = dos_objects dos" by (simp add: setStatus_def)
  moreover have "\<forall>j < length (dos_nodes (setStatus i st dos)). dn_ID (dos_nodes (setStatus i st dos) ! j) = storageNode j"
    using assms by (auto simp: dos_ok_def setStatus_def nth_list_update)
  moreover have "dos_dataChunks (setStatus i st dos) = 4" "dos_parityChunks (setStatus i st dos) = 2"
    using assms by (simp_all add: dos_ok_def setStatus_def)
  ultimately show ?thesis using assms key_ok_frame [of sha dos _ _ "setStatus i st dos"] unfolding dos_ok_def by simp
qed

lemma dosPut_failure: "fst (dosPut sha now order key reader dos) \<noteq> Inr () \<Longrightarrow> snd (dosPut sha now order key reader dos) = dos"
  by (auto simp: dosPut_def Let_def split: sum.splits if_splits)

interpretation erasure: simulation "sstep sha" sop_ok "dos_ok sha" "putLabel sha" kvWrite for sha
proof
  fix dos kv e assume ok: "dos_ok sha dos kv" and e: "sop_ok dos e"
  show "dos_ok sha (sstep sha dos e) (run kvWrite kv (putLabel sha dos e))"
  proof (cases e)
    case (SStatus i st)
    then show ?thesis using dos_ok_status [OF ok] by simp
  next
    case (SPut now order key reader)
    obtain r dos' where p: "dosPut sha now order key reader dos = (r, dos')" by fastforce
    have order: "mset order = mset [0..<6]" using e SPut ok by (simp add: dos_ok_def)
    show ?thesis
    proof (cases "\<exists>data. reader = Inr data \<and> r = Inr ()")
      case True
      then obtain data where "reader = Inr data" "r = Inr ()" by blast
      then show ?thesis using dos_ok_put [OF ok order, of now key data dos'] p SPut by simp
    next
      case False
      then have "fst (dosPut sha now order key reader dos) \<noteq> Inr ()" using p by (cases reader) (auto simp: dosPut_def)
      then have "dos' = dos" using dosPut_failure [of sha now order key reader dos] p by simp
      moreover have "putLabel sha dos e = []" using False SPut p by (auto split: sum.splits unit.splits)
      ultimately show ?thesis using ok SPut p by simp
    qed
  qed
qed

section \<open>Reading back\<close>

lemma getNode_at:
  assumes "\<forall>i < length (dos_nodes dos). dn_ID (dos_nodes dos ! i) = storageNode i" and "i < length (dos_nodes dos)"
  shows "getNode (storageNode i) dos = Some (dos_nodes dos ! i)"
proof -
  have inj: "storageNode i = storageNode j \<longleftrightarrow> i = j" for i j by (simp add: storageNode_def)
  have "find (\<lambda>node. dn_ID node = storageNode i) ns = Some (ns ! i)" if "i < length ns" "\<And>j. j < length ns \<Longrightarrow> dn_ID (ns ! j) = storageNode j"
    for ns :: "DataNode list"
    using that inj by (subst find_Some_iff) (auto intro!: exI [of _ i])
  then show ?thesis using assms by (simp add: getNode_def)
qed

lemma fetchAll_nth:
  assumes "distinct (map loc_ChunkID ls)" and "j < n" and "set (map loc_ChunkID ls) \<subseteq> {..<n}"
  shows "fetchAll dos key n ls ! j =
    (case find (\<lambda>loc. loc_ChunkID loc = j) ls of None \<Rightarrow> None | Some loc \<Rightarrow> fetchChunk dos key loc)"
proof -
  have "fold (\<lambda>loc chunks. case fetchChunk dos key loc of None \<Rightarrow> chunks | Some c \<Rightarrow> chunks[loc_ChunkID loc := Some c]) ls cs ! j =
      (case find (\<lambda>loc. loc_ChunkID loc = j) ls of None \<Rightarrow> cs ! j | Some loc \<Rightarrow> (case fetchChunk dos key loc of None \<Rightarrow> cs ! j | Some c \<Rightarrow> Some c))"
    if "length cs = n" for cs
    using that assms
  proof (induction ls arbitrary: cs)
    case (Cons loc ls)
    have none: "find (\<lambda>l. loc_ChunkID l = j) ls = None" if "loc_ChunkID loc = j" using Cons.prems(2) that by (auto simp: find_None_iff image_iff)
    show ?case using Cons.prems none
      by (cases "fetchChunk dos key loc") (auto simp: Cons.IH nth_list_update split: option.splits)
  qed simp
  then show ?thesis using assms(2) by (simp add: fetchAll_def split: option.splits)
qed

text \<open>The chunk at a position of the slice \<open>Get\<close> fills: the encoded chunk when its node is active.\<close>

lemma placed_fetch:
  assumes "dos_ok sha dos kv" and "placed dos key data" and "j < 6"
  shows "fetchAll dos key 6 (the (dos_location dos key)) ! j =
    (if dn_Status (dos_nodes dos ! j) = ''active'' then Some (encode 4 2 data ! j) else None)"
proof -
  have c: "dos_dataChunks dos = 4" "dos_parityChunks dos = 2"
    "\<forall>i < length (dos_nodes dos). dn_ID (dos_nodes dos ! i) = storageNode i" using assms(1) by (simp_all add: dos_ok_def)
  have len: "6 \<le> length (dos_nodes dos)"
    and chunk: "map_option dk_Data (dn_Objects (dos_nodes dos ! j) (chunkKey key j)) = Some (encode 4 2 data ! j)"
    using assms(2,3) c unfolding placed_def Let_def by auto
  obtain ls where ls: "dos_location dos key = Some ls" "distinct (map loc_ChunkID ls)" "set (map loc_ChunkID ls) = {..<6}"
    "\<forall>loc \<in> set ls. loc_NodeID loc = storageNode (loc_ChunkID loc)"
    using assms(2) c unfolding placed_def Let_def by auto
  obtain loc where loc: "find (\<lambda>loc. loc_ChunkID loc = j) ls = Some loc" "loc \<in> set ls" "loc_ChunkID loc = j"
  proof -
    have "j \<in> loc_ChunkID ` set ls" using ls(3) assms(3) by simp
    then have "find (\<lambda>loc. loc_ChunkID loc = j) ls \<noteq> None" by (auto simp: find_None_iff)
    then obtain l where l: "find (\<lambda>loc. loc_ChunkID loc = j) ls = Some l" by blast
    then have "l \<in> set ls" "loc_ChunkID l = j" by (auto simp: find_Some_iff)
    then show ?thesis using that l by blast
  qed
  have "fetchChunk dos key loc = (if dn_Status (dos_nodes dos ! j) = ''active'' then Some (encode 4 2 data ! j) else None)"
    using ls(4) loc(2,3) getNode_at [OF c(3), of j] len assms(3) chunk by (simp add: fetchChunk_def)
  then show ?thesis using fetchAll_nth [OF ls(2), of j 6 dos key] ls(1,3) loc(1) assms(3) by simp
qed

lemma dosGet_placed:
  assumes "dos_ok sha dos kv" and "kv key = Some data"
  shows "dosGet sha key dos =
    (let d = decode (fetchAll dos key 6 (the (dos_location dos key))) 4 in if sha d \<noteq> sha data then Inl ChecksumMismatch else Inr d)"
    and "placed dos key data"
proof -
  have k: "key_ok sha dos key (Some data)" using assms by (metis dos_ok_def)
  then obtain m where m: "dos_objects dos key = Some m" "om_Chunks m = 4" "om_ParityChunks m = 2" "om_Checksum m = sha data" "placed dos key data"
    by (auto simp: key_ok_def split: option.splits)
  then show "placed dos key data" by simp
  obtain ls where "dos_location dos key = Some ls" using m(5) unfolding placed_def Let_def by blast
  then show "dosGet sha key dos =
    (let d = decode (fetchAll dos key 6 (the (dos_location dos key))) 4 in if sha d \<noteq> sha data then Inl ChecksumMismatch else Inr d)"
    using m by (simp add: dosGet_def Let_def)
qed

text \<open>Integrity.  After any history of writes, in any goroutine order, and of node failures, \<open>Get\<close> returns for a key
  nothing but the value last written to it (provided SHA-256 does not collide), "not found" exactly for
  keys never written; and it does return the value when the four nodes of the data chunks are active and
  its length is a multiple of four.\<close>

theorem erasure_reads_last_write:
  assumes "admissible (sstep sha) sop_ok (newDistributedObjectStorage numNodes) es" and "inj sha"
  shows "let dos = run (sstep sha) (newDistributedObjectStorage numNodes) es;
             kv = run kvWrite Map.empty (observed (sstep sha) (putLabel sha) (newDistributedObjectStorage numNodes) es)
         in (dosGet sha key dos = Inl ObjectNotFound \<longleftrightarrow> kv key = None) \<and>
            (\<forall>x. dosGet sha key dos = Inr x \<longrightarrow> kv key = Some x) \<and>
            (\<forall>data. kv key = Some data \<and> 4 dvd length data \<and> list_all (\<lambda>i. dn_Status (dos_nodes dos ! i) = ''active'') [0..<4] \<longrightarrow>
               dosGet sha key dos = Inr data)"
proof -
  define dos where "dos = run (sstep sha) (newDistributedObjectStorage numNodes) es"
  define kv where "kv = run kvWrite Map.empty (observed (sstep sha) (putLabel sha) (newDistributedObjectStorage numNodes) es)"
  have "dos_ok sha (newDistributedObjectStorage numNodes) Map.empty"
    by (simp add: dos_ok_def key_ok_def newDistributedObjectStorage_def)
  then have ok: "dos_ok sha dos kv" unfolding dos_def kv_def by (rule erasure.rel_run [OF _ assms(1)])
  have none: "dosGet sha key dos = Inl ObjectNotFound" if "kv key = None"
  proof -
    have "key_ok sha dos key None" using ok that by (metis dos_ok_def)
    then show ?thesis by (simp add: key_ok_def dosGet_def split: option.splits)
  qed
  have some: "dosGet sha key dos \<noteq> Inl ObjectNotFound" "dosGet sha key dos = Inr x \<Longrightarrow> x = data" if "kv key = Some data" for data x
    using dosGet_placed(1) [OF ok that] assms(2) by (auto simp: Let_def inj_eq split: if_splits)
  have full: "dosGet sha key dos = Inr data"
    if k: "kv key = Some data" and d: "4 dvd length data" and act: "list_all (\<lambda>i. dn_Status (dos_nodes dos ! i) = ''active'') [0..<4]" for data
  proof -
    have "decode (fetchAll dos key 6 (the (dos_location dos key))) 4 = data @ replicate (4 * chunkSize 4 data - length data) 0"
      by (rule decode_all) (use placed_fetch [OF ok dosGet_placed(2) [OF ok k]] act in \<open>auto simp: list_all_iff\<close>)
    then show ?thesis using dosGet_placed(1) [OF ok k] chunkSize_exact [of 4 data] d by (simp add: Let_def)
  qed
  show ?thesis unfolding Let_def dos_def [symmetric] kv_def [symmetric] using none some full by (metis not_None_eq sum.distinct(1))
qed

definition sha0 :: "bytes \<Rightarrow> string" where
  "sha0 = map (\<lambda>b. char_of (unat b))"

lemma inj_sha0: "inj sha0"
proof -
  have "b = c" if "char_of (unat b) = (char_of (unat c) :: char)" for b c :: "8 word"
  proof -
    have "unat b mod 256 = unat c mod 256" using arg_cong [OF that, of "of_char :: char \<Rightarrow> nat"] by (simp add: of_char_of)
    moreover have "unat b < 256" "unat c < 256" using unsigned_less [of b] unsigned_less [of c] by simp_all
    ultimately have "unat b = unat c" by simp
    then show ?thesis by (rule unsigned_word_eqI)
  qed
  then show ?thesis unfolding sha0_def by (intro inj_mapI injI)
qed

definition onePut :: "bytes \<Rightarrow> SOp list" where
  "onePut data = [SPut 7 [3, 0, 5, 1, 2, 4] ''k'' (Inr data)]"

theorem erasure_reads_last_write_witness:
  "dosGet sha0 ''k'' (run (sstep sha0) (newDistributedObjectStorage 6) (onePut [1, 2, 3, 4])) = Inr [1, 2, 3, 4]"
proof -
  define es where "es = onePut [1, 2, 3, 4]"
  have adm: "admissible (sstep sha0) sop_ok (newDistributedObjectStorage 6) es"
    by (simp add: es_def onePut_def newDistributedObjectStorage_def add_mset_commute upt_rec eval_nat_numeral)
  have kv: "run kvWrite Map.empty (observed (sstep sha0) (putLabel sha0) (newDistributedObjectStorage 6) es) ''k'' = Some [1, 2, 3, 4]"
    unfolding es_def by code_simp
  have act: "list_all (\<lambda>i. dn_Status (dos_nodes (run (sstep sha0) (newDistributedObjectStorage 6) es) ! i) = ''active'') [0..<4]"
    unfolding es_def by code_simp
  have "4 dvd length [1 :: 8 word, 2, 3, 4]" by (simp add: eval_nat_numeral)
  then show ?thesis
    using erasure_reads_last_write [OF adm inj_sha0, of "''k''"] kv act unfolding es_def [symmetric] Let_def by blast
qed

text \<open>An object whose length is not a multiple of four comes back padded and fails its own checksum; and the parity
  chunks are never read, so one failed data node makes an object unreadable.\<close>

theorem padded_object_unreadable:
  "dosGet sha0 ''k'' (run (sstep sha0) (newDistributedObjectStorage 6) (onePut [1, 2, 3, 4, 5])) = Inl ChecksumMismatch"
  by code_simp

theorem parity_never_used:
  "dosGet sha0 ''k'' (run (sstep sha0) (newDistributedObjectStorage 6) (onePut [1, 2, 3, 4] @ [SStatus 1 ''failed''])) = Inl ChecksumMismatch"
  by code_simp

end
