(* ===== verification/ObjectStore.thy ===== *)
theory ObjectStore
  imports GoPrelude "HOL-Library.List_Lexorder" "HOL-Library.Char_ord"
begin

text \<open>
  The S3-compatible object storage of \<open>src/solutions/solution24_object_storage.go\<close> (\<open>S3CompatibleStorage\<close>): buckets,
  versioned objects, multipart uploads, listing and the lifecycle rules.  Every operation holds the lock of the
  object it changes and is one step.  MD5 with its hexadecimal printing is the parameter \<open>md5\<close>; \<open>now\<close> arguments are
  the clock readings.  Access lists, tags and content types, which no code reads, are left out.  Shown: in every
  history an object's versions are exactly the values written to it in order, the last one marked as the latest
  and returned by \<open>GetObject\<close>, and a completed multipart upload writes its parts in the order of their numbers,
  whatever the order of the uploads.
\<close>

section \<open>Data\<close>

type_synonym bytes = "8 word list"

record ObjectVersion =
  ov_VersionID :: string
  ov_Size :: int
  ov_ETag :: string
  ov_LastModified :: gotime
  ov_IsLatest :: bool
  ov_Data :: bytes

record Object =
  ob_Key :: string
  ob_Size :: int
  ob_ETag :: string
  ob_LastModified :: gotime
  ob_Metadata :: "string \<rightharpoonup> string"
  ob_Data :: bytes
  ob_Versions :: "ObjectVersion list"
  ob_StorageClass :: string

record Bucket =
  bk_Name :: string
  bk_Created :: gotime
  bk_Objects :: "(string \<times> Object) list"
  bk_Versioning :: bool

record Part =
  pa_PartNumber :: int
  pa_ETag :: string
  pa_Size :: int
  pa_Data :: bytes

record MultipartUpload =
  mu_UploadID :: string
  mu_Bucket :: string
  mu_Key :: string
  mu_Parts :: "int \<rightharpoonup> Part"
  mu_InitiatedAt :: gotime

record LifecycleRule =
  lr_ID :: string
  lr_Status :: string
  lr_Expiration :: int
  lr_TransitionDays :: int
  lr_TransitionClass :: string

record StorageMetrics =
  me_TotalObjects :: int
  me_TotalSize :: int
  me_TotalBuckets :: int
  me_RequestCount :: int
  me_UploadBytes :: int
  me_DownloadBytes :: int

record S3CompatibleStorage =
  s3_buckets :: "string \<rightharpoonup> Bucket"
  s3_uploads :: "string \<rightharpoonup> MultipartUpload"
  s3_versioning :: bool
  s3_rules :: "LifecycleRule list"
  s3_metrics :: StorageMetrics

definition newS3CompatibleStorage :: S3CompatibleStorage where
  "newS3CompatibleStorage =
     \<lparr>s3_buckets = Map.empty, s3_uploads = Map.empty, s3_versioning = True, s3_rules = [],
      s3_metrics = \<lparr>me_TotalObjects = 0, me_TotalSize = 0, me_TotalBuckets = 0, me_RequestCount = 0, me_UploadBytes = 0, me_DownloadBytes = 0\<rparr>\<rparr>"

datatype S3Error = BucketExists string | BucketNotFound string | KeyNotFound string | UploadNotFound string | PartNotFound int

section \<open>Operations\<close>

definition createBucket :: "gotime \<Rightarrow> string \<Rightarrow> S3CompatibleStorage \<Rightarrow> (S3Error + unit) \<times> S3CompatibleStorage" where
  "createBucket now name s3 =
     (case s3_buckets s3 name of
        Some _ \<Rightarrow> (Inl (BucketExists name), s3)
      | None \<Rightarrow>
          (Inr (), s3\<lparr>s3_buckets := (s3_buckets s3)(name \<mapsto>
                        \<lparr>bk_Name = name, bk_Created = now, bk_Objects = [], bk_Versioning = s3_versioning s3\<rparr>),
                      s3_metrics := (s3_metrics s3)\<lparr>me_TotalBuckets := i64 (me_TotalBuckets (s3_metrics s3) + 1)\<rparr>\<rparr>))"

definition emptyObject :: "string \<Rightarrow> Object" where
  "emptyObject key =
     \<lparr>ob_Key = key, ob_Size = 0, ob_ETag = '''', ob_LastModified = 0, ob_Metadata = Map.empty, ob_Data = [], ob_Versions = [], ob_StorageClass = ''''\<rparr>"

text \<open>The new version; \<open>idNow\<close> is the clock reading of \<open>generateVersionID\<close>.\<close>

definition addVersion :: "(bytes \<Rightarrow> string) \<Rightarrow> gotime \<Rightarrow> gotime \<Rightarrow> bytes \<Rightarrow> Object \<Rightarrow> Object" where
  "addVersion md5 idNow now data obj =
     obj\<lparr>ob_Versions := map (\<lambda>v. v\<lparr>ov_IsLatest := False\<rparr>) (ob_Versions obj) @
           [\<lparr>ov_VersionID = ''v-'' @ itoa idNow, ov_Size = int (length data), ov_ETag = md5 data, ov_LastModified = now, ov_IsLatest = True, ov_Data = data\<rparr>]\<rparr>"

definition updateObject :: "(bytes \<Rightarrow> string) \<Rightarrow> gotime \<Rightarrow> bytes \<Rightarrow> (string \<rightharpoonup> string) \<Rightarrow> Object \<Rightarrow> Object" where
  "updateObject md5 now data metadata obj =
     obj\<lparr>ob_Size := int (length data), ob_ETag := md5 data, ob_LastModified := now, ob_Data := data, ob_StorageClass := ''STANDARD'',
         ob_Metadata := ob_Metadata obj ++ metadata\<rparr>"

definition putObject :: "(bytes \<Rightarrow> string) \<Rightarrow> gotime \<Rightarrow> gotime \<Rightarrow> gotime \<Rightarrow> string \<Rightarrow> string \<Rightarrow> bytes \<Rightarrow> (string \<rightharpoonup> string)
    \<Rightarrow> S3CompatibleStorage \<Rightarrow> (S3Error + Object) \<times> S3CompatibleStorage" where
  "putObject md5 idNow now now' bucket key data metadata s3 =
     (case s3_buckets s3 bucket of
        None \<Rightarrow> (Inl (BucketNotFound bucket), s3)
      | Some b \<Rightarrow>
          (let obj0 = (case map_of (bk_Objects b) key of None \<Rightarrow> emptyObject key | Some o' \<Rightarrow> o');
               obj1 = (if bk_Versioning b then addVersion md5 idNow now data obj0 else obj0);
               obj = updateObject md5 now' data metadata obj1;
               m = s3_metrics s3;
               total = (case map_of (bk_Objects b) key of None \<Rightarrow> i64 (me_TotalObjects m + 1) | Some _ \<Rightarrow> me_TotalObjects m)
           in (Inr obj, s3\<lparr>s3_buckets := (s3_buckets s3)(bucket \<mapsto> b\<lparr>bk_Objects := AList.update key obj (bk_Objects b)\<rparr>),
                           s3_metrics := m\<lparr>me_TotalObjects := total, me_TotalSize := i64 (me_TotalSize m + ob_Size obj),
                                           me_UploadBytes := i64 (me_UploadBytes m + ob_Size obj)\<rparr>\<rparr>)))"

definition getObject :: "string \<Rightarrow> string \<Rightarrow> S3CompatibleStorage \<Rightarrow> (S3Error + Object) \<times> S3CompatibleStorage" where
  "getObject bucket key s3 =
     (case s3_buckets s3 bucket of
        None \<Rightarrow> (Inl (BucketNotFound bucket), s3)
      | Some b \<Rightarrow>
          (case map_of (bk_Objects b) key of
             None \<Rightarrow> (Inl (KeyNotFound key), s3)
           | Some obj \<Rightarrow>
               (let m = s3_metrics s3
                in (Inr obj, s3\<lparr>s3_metrics := m\<lparr>me_DownloadBytes := i64 (me_DownloadBytes m + ob_Size obj),
                                                 me_RequestCount := i64 (me_RequestCount m + 1)\<rparr>\<rparr>))))"

definition initiateMultipartUpload :: "gotime \<Rightarrow> gotime \<Rightarrow> string \<Rightarrow> string \<Rightarrow> S3CompatibleStorage \<Rightarrow> string \<times> S3CompatibleStorage" where
  "initiateMultipartUpload idNow now bucket key s3 =
     (let uploadID = ''upload-'' @ itoa idNow
      in (uploadID, s3\<lparr>s3_uploads := (s3_uploads s3)(uploadID \<mapsto>
            \<lparr>mu_UploadID = uploadID, mu_Bucket = bucket, mu_Key = key, mu_Parts = Map.empty, mu_InitiatedAt = now\<rparr>)\<rparr>))"

definition uploadPart :: "(bytes \<Rightarrow> string) \<Rightarrow> string \<Rightarrow> int \<Rightarrow> bytes \<Rightarrow> S3CompatibleStorage \<Rightarrow> (S3Error + string) \<times> S3CompatibleStorage" where
  "uploadPart md5 uploadID partNumber data s3 =
     (case s3_uploads s3 uploadID of
        None \<Rightarrow> (Inl (UploadNotFound uploadID), s3)
      | Some upload \<Rightarrow>
          (Inr (md5 data), s3\<lparr>s3_uploads := (s3_uploads s3)(uploadID \<mapsto> upload\<lparr>mu_Parts := (mu_Parts upload)(partNumber \<mapsto>
             \<lparr>pa_PartNumber = partNumber, pa_ETag = md5 data, pa_Size = int (length data), pa_Data = data\<rparr>)\<rparr>)\<rparr>))"

text \<open>The loop over the sorted part numbers.\<close>

fun combineParts :: "(int \<rightharpoonup> Part) \<Rightarrow> int list \<Rightarrow> bytes \<Rightarrow> S3Error + bytes" where
  "combineParts parts [] buffer = Inr buffer"
| "combineParts parts (n # ns) buffer =
     (case parts n of None \<Rightarrow> Inl (PartNotFound n) | Some p \<Rightarrow> combineParts parts ns (buffer @ pa_Data p))"

definition completeMultipartUpload :: "(bytes \<Rightarrow> string) \<Rightarrow> gotime \<Rightarrow> gotime \<Rightarrow> gotime \<Rightarrow> string \<Rightarrow> int list
    \<Rightarrow> S3CompatibleStorage \<Rightarrow> (S3Error + Object) \<times> S3CompatibleStorage" where
  "completeMultipartUpload md5 idNow now now' uploadID parts s3 =
     (case s3_uploads s3 uploadID of
        None \<Rightarrow> (Inl (UploadNotFound uploadID), s3)
      | Some upload \<Rightarrow>
          (case combineParts (mu_Parts upload) (sort parts) [] of
             Inl e \<Rightarrow> (Inl e, s3)
           | Inr data \<Rightarrow>
               (case putObject md5 idNow now now' (mu_Bucket upload) (mu_Key upload) data Map.empty s3 of
                  (Inl e, s3') \<Rightarrow> (Inl e, s3')
                | (Inr obj, s3') \<Rightarrow> (Inr obj, s3'\<lparr>s3_uploads := (s3_uploads s3')(uploadID := None)\<rparr>))))"

definition hasPrefix :: "string \<Rightarrow> string \<Rightarrow> bool" where
  "hasPrefix s prefix \<longleftrightarrow> length s \<ge> length prefix \<and> take (length prefix) s = prefix"

text \<open>\<open>ListObjects\<close>: the loop takes the first matches in the order of the iteration over the map, then sorts.\<close>

fun listLoop :: "string \<Rightarrow> int \<Rightarrow> (string \<times> Object) list \<Rightarrow> Object list \<Rightarrow> Object list" where
  "listLoop prefix maxKeys [] objects = objects"
| "listLoop prefix maxKeys ((key, obj) # os) objects =
     (if maxKeys > 0 \<and> int (length objects) \<ge> maxKeys then objects
      else if prefix = '''' \<or> hasPrefix key prefix then listLoop prefix maxKeys os (objects @ [obj])
      else listLoop prefix maxKeys os objects)"

definition listObjects :: "string \<Rightarrow> string \<Rightarrow> int \<Rightarrow> S3CompatibleStorage \<Rightarrow> S3Error + Object list" where
  "listObjects bucket prefix maxKeys s3 =
     (case s3_buckets s3 bucket of
        None \<Rightarrow> Inl (BucketNotFound bucket)
      | Some b \<Rightarrow> Inr (sort_key ob_Key (listLoop prefix maxKeys (bk_Objects b) [])))"

text \<open>The lifecycle rules on one object: whole days since the last change (the quotient in floating point is taken as exact); the object is removed from the bucket,
  once per rule that expires it in the metrics, or moved to another storage class.\<close>

definition ageDays :: "gotime \<Rightarrow> Object \<Rightarrow> int" where
  "ageDays now obj = (let d = now - ob_LastModified obj; day = 24 * 3600 * 1000000000 in if d \<ge> 0 then d div day else - ((- d) div day))"

definition applyRule :: "gotime \<Rightarrow> LifecycleRule \<Rightarrow> Object \<times> bool \<times> StorageMetrics \<Rightarrow> Object \<times> bool \<times> StorageMetrics" where
  "applyRule now rule = (\<lambda>(obj, present, m).
     if lr_Status rule \<noteq> ''Enabled'' then (obj, present, m)
     else (let age = ageDays now obj;
               (present', m') = (if lr_Expiration rule > 0 \<and> age > lr_Expiration rule
                                 then (False, m\<lparr>me_TotalObjects := i64 (me_TotalObjects m - 1), me_TotalSize := i64 (me_TotalSize m - ob_Size obj)\<rparr>)
                                 else (present, m));
               obj' = (if lr_TransitionDays rule > 0 \<and> age > lr_TransitionDays rule then obj\<lparr>ob_StorageClass := lr_TransitionClass rule\<rparr> else obj)
           in (obj', present', m')))"

fun applyToObjects :: "gotime \<Rightarrow> LifecycleRule list \<Rightarrow> (string \<times> Object) list \<Rightarrow> StorageMetrics \<Rightarrow> (string \<times> Object) list \<times> StorageMetrics" where
  "applyToObjects now rules [] m = ([], m)"
| "applyToObjects now rules ((key, obj) # os) m =
     (let (obj', present, m') = fold (applyRule now) rules (obj, True, m);
          (os', m'') = applyToObjects now rules os m'
      in (if present then (key, obj') # os' else os', m''))"

text \<open>One bucket of the lifecycle run.\<close>

definition applyLifecycleRules :: "gotime \<Rightarrow> string \<Rightarrow> S3CompatibleStorage \<Rightarrow> S3CompatibleStorage" where
  "applyLifecycleRules now bucket s3 =
     (case s3_buckets s3 bucket of
        None \<Rightarrow> s3
      | Some b \<Rightarrow> (let (os, m) = applyToObjects now (s3_rules s3) (bk_Objects b) (s3_metrics s3)
                   in s3\<lparr>s3_buckets := (s3_buckets s3)(bucket \<mapsto> b\<lparr>bk_Objects := os\<rparr>), s3_metrics := m\<rparr>))"

section \<open>Histories\<close>

text \<open>The calls of the clients, each one atomic; \<open>ListObjects\<close> changes nothing.\<close>

datatype S3Op =
    OpCreate gotime string
  | OpPut gotime gotime gotime string string bytes "string \<rightharpoonup> string"
  | OpGet string string
  | OpInitiate gotime gotime string string
  | OpPart string int bytes
  | OpComplete gotime gotime gotime string "int list"
  | OpLifecycle gotime string

fun s3Step :: "(bytes \<Rightarrow> string) \<Rightarrow> S3CompatibleStorage \<Rightarrow> S3Op \<Rightarrow> S3CompatibleStorage" where
  "s3Step md5 s (OpCreate now name) = snd (createBucket now name s)"
| "s3Step md5 s (OpPut idNow now now' b k data meta) = snd (putObject md5 idNow now now' b k data meta s)"
| "s3Step md5 s (OpGet b k) = snd (getObject b k s)"
| "s3Step md5 s (OpInitiate idNow now b k) = snd (initiateMultipartUpload idNow now b k s)"
| "s3Step md5 s (OpPart i n data) = snd (uploadPart md5 i n data s)"
| "s3Step md5 s (OpComplete idNow now now' i parts) = snd (completeMultipartUpload md5 idNow now now' i parts s)"
| "s3Step md5 s (OpLifecycle now b) = applyLifecycleRules now b s"

text \<open>The specification: every bucket maps a key to the values written to it, the oldest first.\<close>

type_synonym s3_spec = "string \<rightharpoonup> (string \<rightharpoonup> bytes list)"

datatype S3Label = Created string | Wrote string string bytes

definition written :: "bytes \<Rightarrow> bytes list option \<Rightarrow> bytes list" where
  "written data vs = (case vs of None \<Rightarrow> [data] | Some ds \<Rightarrow> ds @ [data])"

fun specStep :: "s3_spec \<Rightarrow> S3Label \<Rightarrow> s3_spec" where
  "specStep h (Created b) = (case h b of None \<Rightarrow> h(b \<mapsto> Map.empty) | Some _ \<Rightarrow> h)"
| "specStep h (Wrote b k data) = (case h b of None \<Rightarrow> h | Some ks \<Rightarrow> h(b \<mapsto> ks(k \<mapsto> written data (ks k))))"

text \<open>What a call does to the specification: a completed upload is a write of its parts.\<close>

fun s3Label :: "S3CompatibleStorage \<Rightarrow> S3Op \<Rightarrow> S3Label list" where
  "s3Label s (OpCreate now name) = [Created name]"
| "s3Label s (OpPut idNow now now' b k data meta) = [Wrote b k data]"
| "s3Label s (OpComplete idNow now now' i parts) =
     (case s3_uploads s i of
        None \<Rightarrow> []
      | Some u \<Rightarrow> (case combineParts (mu_Parts u) (sort parts) [] of Inl _ \<Rightarrow> [] | Inr data \<Rightarrow> [Wrote (mu_Bucket u) (mu_Key u) data]))"
| "s3Label s _ = []"

definition bucketHistory :: "Bucket \<Rightarrow> (string \<rightharpoonup> bytes list)" where
  "bucketHistory b k = map_option (\<lambda>obj. map ov_Data (ob_Versions obj)) (map_of (bk_Objects b) k)"

definition s3History :: "S3CompatibleStorage \<Rightarrow> s3_spec" where
  "s3History s b = map_option bucketHistory (s3_buckets s b)"

text \<open>An object whose last version, and no other, is the latest and is its content.\<close>

definition latestOnly :: "ObjectVersion list \<Rightarrow> bool" where
  "latestOnly vs \<longleftrightarrow> vs \<noteq> [] \<and> ov_IsLatest (last vs) \<and> (\<forall>v \<in> set (butlast vs). \<not> ov_IsLatest v)"

definition objectOk :: "(bytes \<Rightarrow> string) \<Rightarrow> Object \<Rightarrow> bool" where
  "objectOk md5 obj \<longleftrightarrow> latestOnly (ob_Versions obj) \<and> ob_Data obj = ov_Data (last (ob_Versions obj)) \<and>
     ob_ETag obj = md5 (ob_Data obj) \<and> ob_Size obj = int (length (ob_Data obj))"

definition bucketOk :: "(bytes \<Rightarrow> string) \<Rightarrow> Bucket \<Rightarrow> bool" where
  "bucketOk md5 b \<longleftrightarrow> bk_Versioning b \<and> distinct (map fst (bk_Objects b)) \<and>
     (\<forall>(k, obj) \<in> set (bk_Objects b). ob_Key obj = k \<and> objectOk md5 obj)"

definition s3Inv :: "(bytes \<Rightarrow> string) \<Rightarrow> S3CompatibleStorage \<Rightarrow> bool" where
  "s3Inv md5 s \<longleftrightarrow> s3_versioning s \<and> s3_rules s = [] \<and> (\<forall>b \<in> ran (s3_buckets s). bucketOk md5 b)"

lemma s3Inv_bucket: "s3Inv md5 s \<Longrightarrow> s3_buckets s n = Some b \<Longrightarrow> bucketOk md5 b"
  by (auto simp: s3Inv_def ran_def)

lemma s3Inv_upd:
  "s3Inv md5 s \<Longrightarrow> s3_buckets s' = (s3_buckets s)(n \<mapsto> b) \<Longrightarrow> bucketOk md5 b \<Longrightarrow> s3_versioning s' = s3_versioning s \<Longrightarrow>
   s3_rules s' = s3_rules s \<Longrightarrow> s3Inv md5 s'"
  by (auto simp: s3Inv_def ran_def)

lemma s3Inv_same:
  "s3Inv md5 s \<Longrightarrow> s3_buckets s' = s3_buckets s \<Longrightarrow> s3_versioning s' = s3_versioning s \<Longrightarrow> s3_rules s' = s3_rules s \<Longrightarrow> s3Inv md5 s'"
  by (simp add: s3Inv_def)

lemma s3History_same: "s3_buckets s' = s3_buckets s \<Longrightarrow> s3History s' = s3History s"
  by (simp add: s3History_def fun_eq_iff)

lemma s3History_upd: "s3_buckets s' = (s3_buckets s)(n \<mapsto> b) \<Longrightarrow> s3History s' = (s3History s)(n \<mapsto> bucketHistory b)"
  by (simp add: s3History_def fun_eq_iff)

lemma bucketOk_object: "bucketOk md5 b \<Longrightarrow> map_of (bk_Objects b) k = Some obj \<Longrightarrow> ob_Key obj = k \<and> objectOk md5 obj"
  by (auto simp: bucketOk_def dest: map_of_SomeD)

subsection \<open>One write\<close>

definition putResult :: "(bytes \<Rightarrow> string) \<Rightarrow> gotime \<Rightarrow> gotime \<Rightarrow> gotime \<Rightarrow> string \<Rightarrow> bytes \<Rightarrow> (string \<rightharpoonup> string) \<Rightarrow> Object option \<Rightarrow> Object" where
  "putResult md5 idNow now now' key data meta old =
     updateObject md5 now' data meta (addVersion md5 idNow now data (case old of None \<Rightarrow> emptyObject key | Some o' \<Rightarrow> o'))"

lemma putResult_fields [simp]:
  "ob_Data (putResult md5 idNow now now' key data meta old) = data"
  "ob_Size (putResult md5 idNow now now' key data meta old) = int (length data)"
  "ob_ETag (putResult md5 idNow now now' key data meta old) = md5 data"
  "ob_Key (putResult md5 idNow now now' key data meta old) = (case old of None \<Rightarrow> key | Some o' \<Rightarrow> ob_Key o')"
  by (simp_all add: putResult_def updateObject_def addVersion_def emptyObject_def split: option.splits)

lemma latestOnly_snoc: "latestOnly (map (\<lambda>v. v\<lparr>ov_IsLatest := False\<rparr>) vs @ [v]) \<longleftrightarrow> ov_IsLatest v"
  by (auto simp: latestOnly_def)

lemma objectOk_put: "objectOk md5 (putResult md5 idNow now now' key data meta old)"
  by (simp add: objectOk_def) (simp add: putResult_def updateObject_def addVersion_def latestOnly_snoc)

lemma history_put:
  "map ov_Data (ob_Versions (putResult md5 idNow now now' key data meta old)) =
     written data (map_option (\<lambda>obj. map ov_Data (ob_Versions obj)) old)"
  by (simp add: putResult_def updateObject_def addVersion_def emptyObject_def written_def o_def split: option.splits)

lemma putObject_cases:
  assumes "s3Inv md5 s"
  obtains "s3_buckets s b = None" "putObject md5 idNow now now' b k data meta s = (Inl (BucketNotFound b), s)"
  | bk s' where "s3_buckets s b = Some bk"
      "putObject md5 idNow now now' b k data meta s = (Inr (putResult md5 idNow now now' k data meta (map_of (bk_Objects bk) k)), s')"
      "s3_buckets s' = (s3_buckets s)(b \<mapsto> bk\<lparr>bk_Objects := AList.update k (putResult md5 idNow now now' k data meta (map_of (bk_Objects bk) k)) (bk_Objects bk)\<rparr>)"
      "s3_versioning s' = s3_versioning s" "s3_rules s' = s3_rules s" "s3_uploads s' = s3_uploads s"
proof (cases "s3_buckets s b")
  case None
  then show ?thesis using that(1) by (simp add: putObject_def)
next
  case (Some bk)
  with assms have v: "bk_Versioning bk" by (auto dest: s3Inv_bucket simp: bucketOk_def)
  show ?thesis
    by (rule that(2) [where s' = "snd (putObject md5 idNow now now' b k data meta s)", OF Some])
      (simp_all add: putObject_def Some v Let_def putResult_def)
qed

lemma bucketOk_put:
  assumes "bucketOk md5 bk"
  shows "bucketOk md5 (bk\<lparr>bk_Objects := AList.update k (putResult md5 idNow now now' k data meta (map_of (bk_Objects bk) k)) (bk_Objects bk)\<rparr>)"
proof -
  let ?obj = "putResult md5 idNow now now' k data meta (map_of (bk_Objects bk) k)"
  have "ob_Key ?obj = k" using assms by (auto split: option.splits dest: bucketOk_object)
  moreover have "objectOk md5 ?obj" by (rule objectOk_put)
  moreover have d: "distinct (map fst (bk_Objects bk))" using assms by (simp add: bucketOk_def)
  ultimately show ?thesis
    using assms by (simp add: bucketOk_def distinct_update set_alist_update [OF d]) 
qed

lemma bucketHistory_put:
  "bucketHistory (bk\<lparr>bk_Objects := AList.update k (putResult md5 idNow now now' k data meta (map_of (bk_Objects bk) k)) (bk_Objects bk)\<rparr>) =
     (bucketHistory bk)(k \<mapsto> written data (bucketHistory bk k))"
  by (rule ext) (simp add: bucketHistory_def update_conv' history_put)

lemma put_refines:
  assumes "s3Inv md5 s"
  shows "s3Inv md5 (snd (putObject md5 idNow now now' b k data meta s))"
    and "s3History (snd (putObject md5 idNow now now' b k data meta s)) = specStep (s3History s) (Wrote b k data)"
proof -
  have "s3Inv md5 (snd (putObject md5 idNow now now' b k data meta s)) \<and>
    s3History (snd (putObject md5 idNow now now' b k data meta s)) = specStep (s3History s) (Wrote b k data)"
  proof (cases rule: putObject_cases [OF assms, of b idNow now now' k data meta])
    case 1
    then show ?thesis using assms by (simp add: s3History_def)
  next
    case (2 bk s')
    have h: "s3History s b = Some (bucketHistory bk)" using 2(1) by (simp add: s3History_def)
    show ?thesis
      using s3Inv_upd [OF assms 2(3) bucketOk_put [OF s3Inv_bucket [OF assms 2(1)]] 2(4,5)] s3History_upd [OF 2(3)]
      by (simp add: 2(2) h bucketHistory_put)
  qed
  then show "s3Inv md5 (snd (putObject md5 idNow now now' b k data meta s))"
    and "s3History (snd (putObject md5 idNow now now' b k data meta s)) = specStep (s3History s) (Wrote b k data)" by simp_all
qed

subsection \<open>Every call\<close>

lemma applyToObjects_no_rules: "applyToObjects now [] os m = (os, m)"
  by (induction os) auto

lemma lifecycle_no_rules: "s3_rules s = [] \<Longrightarrow> s3_buckets (applyLifecycleRules now b s) = s3_buckets s"
  by (auto simp: applyLifecycleRules_def applyToObjects_no_rules fun_eq_iff split: option.splits)

lemma lifecycle_frame [simp]:
  "s3_versioning (applyLifecycleRules now b s) = s3_versioning s"
  "s3_rules (applyLifecycleRules now b s) = s3_rules s"
  "s3_uploads (applyLifecycleRules now b s) = s3_uploads s"
  by (auto simp: applyLifecycleRules_def split: option.splits prod.splits)

lemma getObject_frame [simp]:
  "s3_buckets (snd (getObject b k s)) = s3_buckets s"
  "s3_versioning (snd (getObject b k s)) = s3_versioning s"
  "s3_rules (snd (getObject b k s)) = s3_rules s"
  "s3_uploads (snd (getObject b k s)) = s3_uploads s"
  by (auto simp: getObject_def Let_def split: option.splits)

lemma initiate_frame [simp]:
  "s3_buckets (snd (initiateMultipartUpload idNow now b k s)) = s3_buckets s"
  "s3_versioning (snd (initiateMultipartUpload idNow now b k s)) = s3_versioning s"
  "s3_rules (snd (initiateMultipartUpload idNow now b k s)) = s3_rules s"
  by (auto simp: initiateMultipartUpload_def Let_def)

lemma uploadPart_frame [simp]:
  "s3_buckets (snd (uploadPart md5 i n data s)) = s3_buckets s"
  "s3_versioning (snd (uploadPart md5 i n data s)) = s3_versioning s"
  "s3_rules (snd (uploadPart md5 i n data s)) = s3_rules s"
  by (auto simp: uploadPart_def split: option.splits)

lemma create_refines:
  assumes "s3Inv md5 s"
  shows "s3Inv md5 (snd (createBucket now b s)) \<and> s3History (snd (createBucket now b s)) = specStep (s3History s) (Created b)"
proof (cases "s3_buckets s b")
  case None
  have "s3_versioning s" using assms by (simp add: s3Inv_def)
  then show ?thesis
    using assms None by (auto simp: createBucket_def s3Inv_def bucketOk_def s3History_def bucketHistory_def fun_eq_iff)
next
  case (Some bk)
  then show ?thesis using assms by (simp add: createBucket_def s3History_def)
qed

text \<open>The three outcomes of completing an upload.\<close>

lemma complete_cases:
  obtains (unknown) "s3_uploads s i = None" "completeMultipartUpload md5 idNow now now' i parts s = (Inl (UploadNotFound i), s)"
  | (missing) u e where "s3_uploads s i = Some u" "combineParts (mu_Parts u) (sort parts) [] = Inl e"
      "completeMultipartUpload md5 idNow now now' i parts s = (Inl e, s)"
  | (put) u data where "s3_uploads s i = Some u" "combineParts (mu_Parts u) (sort parts) [] = Inr data"
      "fst (completeMultipartUpload md5 idNow now now' i parts s) = fst (putObject md5 idNow now now' (mu_Bucket u) (mu_Key u) data Map.empty s)"
      "s3_buckets (snd (completeMultipartUpload md5 idNow now now' i parts s)) =
         s3_buckets (snd (putObject md5 idNow now now' (mu_Bucket u) (mu_Key u) data Map.empty s))"
      "s3_versioning (snd (completeMultipartUpload md5 idNow now now' i parts s)) =
         s3_versioning (snd (putObject md5 idNow now now' (mu_Bucket u) (mu_Key u) data Map.empty s))"
      "s3_rules (snd (completeMultipartUpload md5 idNow now now' i parts s)) =
         s3_rules (snd (putObject md5 idNow now now' (mu_Bucket u) (mu_Key u) data Map.empty s))"
proof (cases "s3_uploads s i")
  case None
  then show ?thesis using unknown by (simp add: completeMultipartUpload_def)
next
  case (Some u)
  show ?thesis
  proof (cases "combineParts (mu_Parts u) (sort parts) []")
    case (Inl e)
    then show ?thesis using missing Some by (simp add: completeMultipartUpload_def)
  next
    case (Inr data)
    show ?thesis
      by (rule put [OF Some Inr]) (simp_all add: completeMultipartUpload_def Some Inr split: prod.splits sum.splits)
  qed
qed

lemma complete_refines:
  assumes inv: "s3Inv md5 s"
  shows "s3Inv md5 (snd (completeMultipartUpload md5 idNow now now' i parts s)) \<and>
    s3History (snd (completeMultipartUpload md5 idNow now now' i parts s)) =
      run specStep (s3History s) (s3Label s (OpComplete idNow now now' i parts))"
proof (cases rule: complete_cases [of s i md5 idNow now now' parts])
  case (put u data)
  have "s3Inv md5 (snd (completeMultipartUpload md5 idNow now now' i parts s))"
    by (rule s3Inv_same [OF put_refines(1) [OF inv] put(4,5,6)])
  moreover have "s3History (snd (completeMultipartUpload md5 idNow now now' i parts s)) = specStep (s3History s) (Wrote (mu_Bucket u) (mu_Key u) data)"
    unfolding s3History_same [OF put(4)] by (rule put_refines(2) [OF inv])
  ultimately show ?thesis using put(1,2) by simp
qed (use inv in simp_all)

interpretation s3: refined_object "s3Step md5" "s3Inv md5" "\<lambda>_ _. True" s3History s3Label specStep
proof unfold_locales
  fix s e
  assume inv: "s3Inv md5 s"
  have "s3Inv md5 (s3Step md5 s e) \<and> s3History (s3Step md5 s e) = run specStep (s3History s) (s3Label s e)"
  proof (cases e)
    case (OpLifecycle now b)
    have "s3_rules s = []" using inv by (simp add: s3Inv_def)
    then show ?thesis using inv OpLifecycle by (auto simp: lifecycle_no_rules intro: s3Inv_same s3History_same)
  next
    case (OpComplete idNow now now' i parts)
    then show ?thesis using complete_refines [OF inv] by simp
  qed (use inv in \<open>auto simp: create_refines put_refines simp del: specStep.simps intro: s3Inv_same s3History_same\<close>)
  then show "s3Inv md5 (s3Step md5 s e)" and "s3History (s3Step md5 s e) = run specStep (s3History s) (s3Label s e)" by simp_all
qed

lemma s3Inv_new: "s3Inv md5 newS3CompatibleStorage"
  by (simp add: s3Inv_def newS3CompatibleStorage_def)

lemma s3History_new: "s3History newS3CompatibleStorage = Map.empty"
  by (simp add: s3History_def newS3CompatibleStorage_def fun_eq_iff)

lemma latestOnly_flags: "latestOnly vs \<longleftrightarrow> map ov_IsLatest vs = replicate (length vs - 1) False @ [True]"
proof (cases vs rule: rev_cases)
  case (snoc ws v)
  have "(\<forall>w \<in> set ws. \<not> ov_IsLatest w) \<longleftrightarrow> map ov_IsLatest ws = replicate (length ws) False"
    by (induction ws) auto
  then show ?thesis by (auto simp: snoc latestOnly_def)
qed (simp add: latestOnly_def)

text \<open>The writes of a history.\<close>

definition writes :: "(bytes \<Rightarrow> string) \<Rightarrow> S3Op list \<Rightarrow> s3_spec" where
  "writes md5 ops = run specStep Map.empty (observed (s3Step md5) s3Label newS3CompatibleStorage ops)"

text \<open>C22.  In every history of calls (creating buckets, single and multipart writes, reads, lifecycle runs, in any order),
  the versions of an object are exactly the values written to it, the oldest first: creating a bucket that exists
  and completing an unknown or incomplete upload change nothing, a write is added to the history of its key in its
  bucket and to no other one.  \<open>GetObject\<close> finds the objects that were written and only them, and
  returns the last value with its size and its hash; only the last version is marked as the latest one.\<close>

theorem s3_versions_are_writes:
  "case fst (getObject b k (run (s3Step md5) newS3CompatibleStorage ops)) of
      Inl (BucketNotFound b') \<Rightarrow> b' = b \<and> writes md5 ops b = None
    | Inl (KeyNotFound k') \<Rightarrow> k' = k \<and> (\<exists>ks. writes md5 ops b = Some ks \<and> ks k = None)
    | Inl _ \<Rightarrow> False
    | Inr obj \<Rightarrow> (\<exists>ks ds. writes md5 ops b = Some ks \<and> ks k = Some ds \<and> ds \<noteq> [] \<and> map ov_Data (ob_Versions obj) = ds \<and>
        ob_Data obj = last ds \<and> ob_ETag obj = md5 (last ds) \<and> ob_Size obj = int (length (last ds)) \<and>
        map ov_IsLatest (ob_Versions obj) = replicate (length ds - 1) False @ [True])"
proof -
  define s where "s = run (s3Step md5) newS3CompatibleStorage ops"
  have inv: "s3Inv md5 s" unfolding s_def by (rule s3.guarded_run) (simp_all add: s3Inv_new)
  have h: "writes md5 ops = s3History s"
    unfolding writes_def s_def using s3.abs_run [OF s3Inv_new, of md5 ops] by (simp add: s3History_new)
  show ?thesis
  proof (cases "s3_buckets s b")
    case None
    then show ?thesis by (simp add: h getObject_def s_def [symmetric] s3History_def)
  next
    case (Some bk)
    note bk = this
    show ?thesis
    proof (cases "map_of (bk_Objects bk) k")
      case None
      then show ?thesis by (simp add: h bk getObject_def s_def [symmetric] s3History_def bucketHistory_def)
    next
      case (Some obj)
      have ok: "objectOk md5 obj" using bucketOk_object [OF s3Inv_bucket [OF inv bk] Some] by simp
      then have ne: "ob_Versions obj \<noteq> []" by (simp add: objectOk_def latestOnly_def)
      have "map ov_IsLatest (ob_Versions obj) = replicate (length (ob_Versions obj) - 1) False @ [True]"
        using ok unfolding objectOk_def latestOnly_flags by simp
      then show ?thesis
        using ok ne Some by (simp add: h bk Let_def getObject_def s_def [symmetric] s3History_def bucketHistory_def objectOk_def last_map)
    qed
  qed
qed

section \<open>Multipart uploads\<close>

text \<open>The calls that leave the upload \<open>i\<close> open, and the parts that a history uploads to it: the last data per number.\<close>

fun keepsUpload :: "string \<Rightarrow> S3Op \<Rightarrow> bool" where
  "keepsUpload i (OpInitiate idNow now b k) \<longleftrightarrow> ''upload-'' @ itoa idNow \<noteq> i"
| "keepsUpload i (OpComplete idNow now now' j parts) \<longleftrightarrow> j \<noteq> i"
| "keepsUpload i _ \<longleftrightarrow> True"

fun addPart :: "string \<Rightarrow> (int \<rightharpoonup> bytes) \<Rightarrow> S3Op \<Rightarrow> (int \<rightharpoonup> bytes)" where
  "addPart i m (OpPart j n data) = (if j = i then m(n \<mapsto> data) else m)"
| "addPart i m _ = m"

definition uploadParts :: "string \<Rightarrow> S3Op list \<Rightarrow> int \<rightharpoonup> bytes" where
  "uploadParts i ops = run (addPart i) Map.empty ops"

definition uploadHas :: "string \<Rightarrow> string \<Rightarrow> string \<Rightarrow> S3CompatibleStorage \<Rightarrow> (int \<rightharpoonup> bytes) \<Rightarrow> bool" where
  "uploadHas i b k s m \<longleftrightarrow>
     (\<exists>u. s3_uploads s i = Some u \<and> mu_Bucket u = b \<and> mu_Key u = k \<and> (\<forall>n. map_option pa_Data (mu_Parts u n) = m n))"

lemma uploadHas_same: "uploadHas i b k s m \<Longrightarrow> s3_uploads s' i = s3_uploads s i \<Longrightarrow> uploadHas i b k s' m"
  by (simp add: uploadHas_def)

lemma putObject_uploads [simp]: "s3_uploads (snd (putObject md5 idNow now now' b k data meta s)) = s3_uploads s"
  by (simp add: putObject_def Let_def split: option.splits)

lemma createBucket_uploads [simp]: "s3_uploads (snd (createBucket now b s)) = s3_uploads s"
  by (simp add: createBucket_def split: option.splits)

lemma putObject_uploadsD: "putObject md5 idNow now now' b k data meta s = (r, s') \<Longrightarrow> s3_uploads s' = s3_uploads s"
  by (metis putObject_uploads snd_conv)

lemma complete_other_uploads: "j \<noteq> i \<Longrightarrow> s3_uploads (snd (completeMultipartUpload md5 idNow now now' j parts s)) i = s3_uploads s i"
  by (auto simp: completeMultipartUpload_def dest: putObject_uploadsD split: option.splits sum.splits prod.splits)

lemma uploadPart_has: "uploadHas i b k s m \<Longrightarrow> uploadHas i b k (snd (uploadPart md5 j n data s)) (addPart i m (OpPart j n data))"
  by (auto simp: uploadHas_def uploadPart_def split: option.splits)

lemma step_has:
  assumes "uploadHas i b k s m" and "keepsUpload i e"
  shows "uploadHas i b k (s3Step md5 s e) (addPart i m e)"
proof (cases e)
  case (OpPart j n data)
  then show ?thesis using uploadPart_has [OF assms(1)] by simp
next
  case (OpComplete idNow now now' j parts)
  then show ?thesis using assms by (auto intro: uploadHas_same complete_other_uploads)
next
  case (OpInitiate idNow now b' k')
  then show ?thesis using assms by (auto simp: initiateMultipartUpload_def Let_def intro!: uploadHas_same [OF assms(1)])
qed (use assms in \<open>auto intro: uploadHas_same\<close>)

text \<open>The parts of an open upload as a simulation: the history of the other calls does not disturb them.\<close>

interpretation upload: simulation "s3Step md5" "\<lambda>_. keepsUpload i" "uploadHas i b k" "\<lambda>_ e. [e]" "addPart i"
  by unfold_locales (simp add: step_has)



lemma combineParts_present:
  "\<forall>n \<in> set ns. \<exists>p. parts n = Some p \<Longrightarrow> combineParts parts ns buffer = Inr (buffer @ concat (map (\<lambda>n. pa_Data (the (parts n))) ns))"
  by (induction ns arbitrary: buffer) auto

lemma combineParts_absent:
  "n \<in> set ns \<Longrightarrow> parts n = None \<Longrightarrow> \<exists>m \<in> set ns. parts m = None \<and> combineParts parts ns buffer = Inl (PartNotFound m)"
proof (induction ns arbitrary: buffer)
  case (Cons a ns)
  then show ?case by (cases "parts a") auto
qed simp

lemma open_upload_parts:
  assumes "list_all (keepsUpload (''upload-'' @ itoa t)) ops"
  shows "uploadHas (''upload-'' @ itoa t) b k (run (s3Step md5) (snd (initiateMultipartUpload t now b k s)) ops)
    (uploadParts (''upload-'' @ itoa t) ops)"
proof -
  have "uploadHas (''upload-'' @ itoa t) b k (snd (initiateMultipartUpload t now b k s)) Map.empty"
    by (simp add: uploadHas_def initiateMultipartUpload_def Let_def)
  from upload.rel_run [OF this] show ?thesis using assms by (simp add: uploadParts_def admissible_list_all)
qed

lemma getObject_after_put:
  "fst (putObject md5 idNow now now' b k data meta s) = Inr obj \<Longrightarrow> s3_buckets s' = s3_buckets (snd (putObject md5 idNow now now' b k data meta s)) \<Longrightarrow>
   fst (getObject b k s') = Inr obj"
  by (auto simp: putObject_def getObject_def Let_def update_conv' split: option.splits)

text \<open> A multipart upload, from a store reached by any history: whatever calls happen between its start and its end, as
  long as none of them completes this upload or draws its identifier again, and in whatever order its parts arrive (a
  part that is uploaded twice counts with its last data), completing it with any list of part numbers either writes to
  its key the parts in ascending order of their numbers, whatever the order of the list, and closes the upload, so that
  a read returns the assembled object; or, when a number was never uploaded, fails with such a number
  and changes nothing.\<close>

theorem multipart_ascending:
  assumes "list_all (keepsUpload (''upload-'' @ itoa t)) ops"
    and "s3_buckets (run (s3Step md5) (snd (initiateMultipartUpload t now b k (run (s3Step md5) newS3CompatibleStorage before))) ops) b \<noteq> None"
  shows "let i = ''upload-'' @ itoa t;
             s = run (s3Step md5) (snd (initiateMultipartUpload t now b k (run (s3Step md5) newS3CompatibleStorage before))) ops;
             (result, s') = completeMultipartUpload md5 idNow now1 now2 i numbers s
         in if \<forall>n \<in> set numbers. uploadParts i ops n \<noteq> None
            then \<exists>obj. result = Inr obj \<and> ob_Data obj = concat (map (\<lambda>n. the (uploadParts i ops n)) (sort numbers)) \<and>
                       s3_uploads s' i = None \<and> fst (getObject b k s') = Inr obj
            else s' = s \<and> (\<exists>n \<in> set numbers. uploadParts i ops n = None \<and> result = Inl (PartNotFound n))"
proof -
  define i where "i = ''upload-'' @ itoa t"
  define s where "s = run (s3Step md5) (snd (initiateMultipartUpload t now b k (run (s3Step md5) newS3CompatibleStorage before))) ops"
  have inv: "s3Inv md5 s"
    unfolding s_def by (intro s3.guarded_run s3Inv_same [OF s3.guarded_run [OF s3Inv_new]]) simp_all
  obtain u where u: "s3_uploads s i = Some u" "mu_Bucket u = b" "mu_Key u = k"
    and parts: "\<And>n. map_option pa_Data (mu_Parts u n) = uploadParts i ops n"
    using open_upload_parts [OF assms(1)] unfolding uploadHas_def i_def s_def by metis
  obtain bk where bk: "s3_buckets s b = Some bk" using assms(2) unfolding s_def by auto
  show ?thesis
  proof (cases "\<forall>n \<in> set numbers. uploadParts i ops n \<noteq> None")
    case True
    have part: "\<exists>p. mu_Parts u n = Some p" "the (uploadParts i ops n) = pa_Data (the (mu_Parts u n))" if "n \<in> set numbers" for n
      using True that parts [of n] by (cases "mu_Parts u n"; force)+
    define data where "data = concat (map (\<lambda>n. the (uploadParts i ops n)) (sort numbers))"
    have "combineParts (mu_Parts u) (sort numbers) [] = Inr data"
      using part by (subst combineParts_present) (auto simp: data_def intro!: arg_cong [where f = concat])
    moreover obtain obj s1 where put: "putObject md5 idNow now1 now2 b k data Map.empty s = (Inr obj, s1)" "ob_Data obj = data"
      using putObject_cases [OF inv, of b idNow now1 now2 k data Map.empty] bk by (metis option.distinct(1) putResult_fields(1))
    ultimately have c: "completeMultipartUpload md5 idNow now1 now2 i numbers s = (Inr obj, s1\<lparr>s3_uploads := (s3_uploads s1)(i := None)\<rparr>)"
      using u by (simp add: completeMultipartUpload_def)
    have "fst (getObject b k (s1\<lparr>s3_uploads := (s3_uploads s1)(i := None)\<rparr>)) = Inr obj"
      by (rule getObject_after_put [of md5 idNow now1 now2 b k data Map.empty s]) (simp_all add: put)
    then show ?thesis using True c put(2) unfolding i_def [symmetric] s_def [symmetric] by (simp add: data_def)
  next
    case False
    then obtain n where "n \<in> set (sort numbers)" "mu_Parts u n = None" using parts by (metis map_option_is_None set_sort)
    from combineParts_absent [of n _ "mu_Parts u" "[]", OF this] obtain m where m: "m \<in> set numbers" "mu_Parts u m = None"
      "combineParts (mu_Parts u) (sort numbers) [] = Inl (PartNotFound m)" by auto
    then have "completeMultipartUpload md5 idNow now1 now2 i numbers s = (Inl (PartNotFound m), s)"
      using u by (simp add: completeMultipartUpload_def)
    moreover have "uploadParts i ops m = None" using parts [of m] m(2) by simp
    ultimately show ?thesis using False m(1) unfolding i_def [symmetric] s_def [symmetric] by auto
  qed
qed

theorem multipart_ascending_witness:
  "case fst (completeMultipartUpload (\<lambda>_. ''etag'') 9 10 11 ''upload-5'' [2, 1]
     (run (s3Step (\<lambda>_. ''etag'')) (snd (initiateMultipartUpload 5 6 ''b'' ''k''
        (run (s3Step (\<lambda>_. ''etag'')) newS3CompatibleStorage [OpCreate 1 ''b''])))
        [OpPart ''upload-5'' 2 [7, 8], OpPut 6 7 8 ''b'' ''k'' [1] Map.empty, OpPart ''upload-5'' 1 [3]])) of
     Inl _ \<Rightarrow> False | Inr obj \<Rightarrow> ob_Data obj = [3, 7, 8]"
proof -
  let ?ops = "[OpPart ''upload-5'' 2 [7, 8], OpPut 6 7 8 ''b'' ''k'' [1] Map.empty, OpPart ''upload-5'' 1 [3]]"
  have i: "''upload-'' @ itoa 5 = ''upload-5''" by code_simp
  have "list_all (keepsUpload (''upload-'' @ itoa 5)) ?ops" by simp
  moreover have "s3_buckets (run (s3Step (\<lambda>_. ''etag'')) (snd (initiateMultipartUpload 5 6 ''b'' ''k''
        (run (s3Step (\<lambda>_. ''etag'')) newS3CompatibleStorage [OpCreate 1 ''b'']))) ?ops) ''b'' \<noteq> None"
    by (simp add: newS3CompatibleStorage_def createBucket_def putObject_def Let_def)
  moreover have "\<forall>n \<in> set [2, 1]. uploadParts ''upload-5'' ?ops n \<noteq> None" by (simp add: uploadParts_def)
  moreover have "concat (map (\<lambda>n. the (uploadParts ''upload-5'' ?ops n)) (sort [2, 1])) = [3, 7, 8]" by (simp add: uploadParts_def)
  ultimately show ?thesis
    using multipart_ascending [of 5 ?ops "\<lambda>_. ''etag''" 6 "''b''" "''k''" "[OpCreate 1 ''b'']" 9 10 11 "[2, 1]"]
    unfolding i by (auto simp: Let_def split: prod.splits)
qed

end
