(* ===== verification/ContentStore.thy ===== *)
theory ContentStore
  imports GoPrelude
begin

text \<open>
  The content-addressable storage of \<open>src/solutions/solution24_object_storage.go\<close> (\<open>ContentAddressableStorage\<close>): objects
  under keys, an index from the hash of a content to the keys that hold it, reference counts and the
  deduplication index.  Every operation holds \<open>cas.mu\<close> and is one step.  SHA-256 with its hexadecimal printing is the
  parameter \<open>sha\<close>; \<open>now\<close> is the clock reading.  \<open>Store\<close> dereferences the object of the first key it finds in the index:
  \<open>None\<close> is the panic of a nil pointer.

  Shown: as long as no key is stored over, the store is a map from keys to contents, whatever contents
  are shared, and it never panics; the index names the keys of every content exactly.  A read returns what the
  simulated compression leaves of the content, which is the content itself in no case but a degenerate one; storing over
  a key makes the index stale, with the consequences proved at the end.
\<close>

section \<open>Data\<close>

type_synonym bytes = "8 word list"

record CASObject =
  co_Key :: string
  co_ContentHash :: string
  co_Size :: int
  co_RefCount :: int
  co_Created :: gotime
  co_Data :: bytes
  co_Compressed :: bool

record DedupBlock =
  db_Hash :: string
  db_Size :: int
  db_RefCount :: int
  db_Data :: bytes

record ContentAddressableStorage =
  cas_objects :: "string \<rightharpoonup> CASObject"
  cas_index :: "string \<rightharpoonup> string list"
  cas_hashIndex :: "string \<rightharpoonup> DedupBlock"
  cas_savedSpace :: int

definition newContentAddressableStorage :: ContentAddressableStorage where
  "newContentAddressableStorage = \<lparr>cas_objects = Map.empty, cas_index = Map.empty, cas_hashIndex = Map.empty, cas_savedSpace = 0\<rparr>"

datatype CASError = ObjectNotFound string

section \<open>Operations\<close>

text \<open>\<open>copy\<close> into a fresh slice of the given length, whose other bytes are zero.\<close>

definition copyInto :: "nat \<Rightarrow> bytes \<Rightarrow> bytes" where
  "copyInto n src = take n src @ replicate (n - length src) 0"

definition compress :: "bytes \<Rightarrow> bytes" where
  "compress data = (if length data < 100 then data else copyInto (length data div 2) (take (length data div 2) data))"

definition decompress :: "bytes \<Rightarrow> bytes" where
  "decompress data = copyInto (length data * 2) data"

text \<open>The two branches of \<open>Store\<close>: a content that the index knows, and a new one.\<close>

definition storeShared :: "gotime \<Rightarrow> string \<Rightarrow> string \<Rightarrow> string list \<Rightarrow> string \<Rightarrow> ContentAddressableStorage
    \<Rightarrow> (CASObject \<times> ContentAddressableStorage) option" where
  "storeShared now key contentHash existingKeys first cas =
     (case cas_objects cas first of
        None \<Rightarrow> None
      | Some existingObj0 \<Rightarrow>
          (let existingObj = existingObj0\<lparr>co_RefCount := i32 (co_RefCount existingObj0 + 1)\<rparr>;
               obj = \<lparr>co_Key = key, co_ContentHash = contentHash, co_Size = co_Size existingObj, co_RefCount = 1, co_Created = now,
                      co_Data = co_Data existingObj, co_Compressed = co_Compressed existingObj\<rparr>
           in Some (obj, cas\<lparr>cas_objects := (cas_objects cas)(first \<mapsto> existingObj, key \<mapsto> obj),
                             cas_index := (cas_index cas)(contentHash \<mapsto> existingKeys @ [key]),
                             cas_savedSpace := i64 (cas_savedSpace cas + co_Size obj)\<rparr>)))"

definition storeNew :: "gotime \<Rightarrow> string \<Rightarrow> bytes \<Rightarrow> string \<Rightarrow> ContentAddressableStorage \<Rightarrow> CASObject \<times> ContentAddressableStorage" where
  "storeNew now key data contentHash cas =
     (let compressed = compress data;
          obj = \<lparr>co_Key = key, co_ContentHash = contentHash, co_Size = int (length data), co_RefCount = 1, co_Created = now,
                 co_Data = compressed, co_Compressed = True\<rparr>
      in (obj, cas\<lparr>cas_objects := (cas_objects cas)(key \<mapsto> obj),
                   cas_index := (cas_index cas)(contentHash \<mapsto> [key]),
                   cas_hashIndex := (cas_hashIndex cas)(contentHash \<mapsto>
                     \<lparr>db_Hash = contentHash, db_Size = co_Size obj, db_RefCount = 1, db_Data = compressed\<rparr>)\<rparr>))"

definition store :: "(bytes \<Rightarrow> string) \<Rightarrow> gotime \<Rightarrow> string \<Rightarrow> bytes \<Rightarrow> ContentAddressableStorage
    \<Rightarrow> (CASObject \<times> ContentAddressableStorage) option" where
  "store sha now key data cas =
     (let contentHash = sha data
      in case cas_index cas contentHash of
           Some (first # rest) \<Rightarrow> storeShared now key contentHash (first # rest) first cas
         | _ \<Rightarrow> Some (storeNew now key data contentHash cas))"

definition retrieve :: "string \<Rightarrow> ContentAddressableStorage \<Rightarrow> CASError + bytes" where
  "retrieve key cas =
     (case cas_objects cas key of
        None \<Rightarrow> Inl (ObjectNotFound key)
      | Some obj \<Rightarrow> Inr (if co_Compressed obj then decompress (co_Data obj) else co_Data obj))"

text \<open>The reference counts of \<open>Delete\<close>: the count of the object, and of the block once the object has none left.\<close>

definition dropBlock :: "string \<Rightarrow> (string \<rightharpoonup> DedupBlock) \<Rightarrow> (string \<rightharpoonup> DedupBlock)" where
  "dropBlock h blocks =
     (case blocks h of
        None \<Rightarrow> blocks
      | Some block \<Rightarrow> (let n = i32 (db_RefCount block - 1)
                       in if n \<le> 0 then blocks(h := None) else blocks(h \<mapsto> block\<lparr>db_RefCount := n\<rparr>)))"

definition dropKey :: "string \<Rightarrow> string \<Rightarrow> (string \<rightharpoonup> string list) \<Rightarrow> (string \<rightharpoonup> string list)" where
  "dropKey h key index =
     (case index h of
        None \<Rightarrow> index
      | Some keys \<Rightarrow> (let newKeys = filter (\<lambda>k. k \<noteq> key) keys
                      in if newKeys \<noteq> [] then index(h \<mapsto> newKeys) else index(h := None)))"

definition deleteObject :: "string \<Rightarrow> ContentAddressableStorage \<Rightarrow> (CASError + unit) \<times> ContentAddressableStorage" where
  "deleteObject key cas =
     (case cas_objects cas key of
        None \<Rightarrow> (Inl (ObjectNotFound key), cas)
      | Some obj \<Rightarrow>
          (Inr (), cas\<lparr>cas_hashIndex := (if i32 (co_RefCount obj - 1) \<le> 0 then dropBlock (co_ContentHash obj) (cas_hashIndex cas) else cas_hashIndex cas),
                       cas_index := dropKey (co_ContentHash obj) key (cas_index cas),
                       cas_objects := (cas_objects cas)(key := None)\<rparr>))"

section \<open>Histories\<close>

datatype CASOp = StoreOp gotime string bytes | DeleteOp string

text \<open>A panic ends the process: the state becomes \<open>None\<close>.\<close>

fun casStep :: "(bytes \<Rightarrow> string) \<Rightarrow> ContentAddressableStorage option \<Rightarrow> CASOp \<Rightarrow> ContentAddressableStorage option" where
  "casStep sha None op = None"
| "casStep sha (Some cas) (StoreOp now key data) = map_option snd (store sha now key data cas)"
| "casStep sha (Some cas) (DeleteOp key) = Some (snd (deleteObject key cas))"

text \<open>The specification: keys and their contents.\<close>

fun contentStep :: "(string \<rightharpoonup> bytes) \<Rightarrow> CASOp \<Rightarrow> (string \<rightharpoonup> bytes)" where
  "contentStep m (StoreOp now key data) = m(key \<mapsto> data)"
| "contentStep m (DeleteOp key) = m(key := None)"

text \<open>A call is in order when it does not store over a key.\<close>

fun freshStore :: "ContentAddressableStorage option \<Rightarrow> CASOp \<Rightarrow> bool" where
  "freshStore (Some cas) (StoreOp now key data) \<longleftrightarrow> cas_objects cas key = None"
| "freshStore _ _ \<longleftrightarrow> True"

definition storedData :: "CASOp list \<Rightarrow> bytes set" where
  "storedData ops = {data. \<exists>now key. StoreOp now key data \<in> set ops}"

section \<open>The store as a map\<close>

text \<open>An object holds the content \<open>data\<close>; the index names the keys of every hash.\<close>

definition holds :: "(bytes \<Rightarrow> string) \<Rightarrow> CASObject \<Rightarrow> bytes \<Rightarrow> bool" where
  "holds sha obj data \<longleftrightarrow> co_ContentHash obj = sha data \<and> co_Size obj = int (length data) \<and> co_Data obj = compress data \<and> co_Compressed obj"

definition indexExact :: "(string \<rightharpoonup> CASObject) \<Rightarrow> (string \<rightharpoonup> string list) \<Rightarrow> bool" where
  "indexExact objects index \<longleftrightarrow>
     (\<forall>h keys. index h = Some keys \<longrightarrow> keys \<noteq> [] \<and> distinct keys) \<and>
     (\<forall>h k. (\<exists>keys. index h = Some keys \<and> k \<in> set keys) \<longleftrightarrow> map_option co_ContentHash (objects k) = Some h)"

definition casRel :: "(bytes \<Rightarrow> string) \<Rightarrow> bytes set \<Rightarrow> ContentAddressableStorage option \<Rightarrow> (string \<rightharpoonup> bytes) \<Rightarrow> bool" where
  "casRel sha D s m \<longleftrightarrow> (\<exists>cas. s = Some cas \<and> ran m \<subseteq> D \<and> indexExact (cas_objects cas) (cas_index cas) \<and>
     rel_fun (=) (rel_option (holds sha)) (cas_objects cas) m)"

lemma rel_mapI: "(\<And>k. rel_option R (f k) (g k)) \<Longrightarrow> rel_fun (=) (rel_option R) f g"
  by (simp add: rel_fun_def)

lemma rel_mapD: "rel_fun (=) (rel_option R) f g \<Longrightarrow> rel_option R (f k) (g k)"
  by (simp add: rel_fun_def)

lemma indexExact_mem:
  "indexExact objects index \<Longrightarrow> (\<exists>keys. index h = Some keys \<and> k \<in> set keys) \<longleftrightarrow> map_option co_ContentHash (objects k) = Some h"
  unfolding indexExact_def by blast

lemma indexExact_key:
  "indexExact objects index \<Longrightarrow> index h = Some keys \<Longrightarrow> k \<in> set keys \<Longrightarrow> \<exists>obj. objects k = Some obj \<and> co_ContentHash obj = h"
  using indexExact_mem [of objects index h k] by auto

lemma indexExact_obj:
  "indexExact objects index \<Longrightarrow> objects k = Some obj \<Longrightarrow> \<exists>keys. index (co_ContentHash obj) = Some keys \<and> k \<in> set keys"
  by (simp add: indexExact_mem)

lemma indexExact_keys: "indexExact objects index \<Longrightarrow> index h = Some keys \<Longrightarrow> keys \<noteq> [] \<and> distinct keys"
  unfolding indexExact_def by blast

lemma indexExact_hashes:
  "indexExact objects index \<Longrightarrow> (\<And>k. map_option co_ContentHash (objects' k) = map_option co_ContentHash (objects k)) \<Longrightarrow> indexExact objects' index"
  unfolding indexExact_def by simp

text \<open>A key is added at the end of the keys of its hash.\<close>

lemma indexExact_add:
  assumes ex: "indexExact objects index" and new: "objects k = None" and h: "co_ContentHash obj = h"
    and keys: "keys = (case index h of None \<Rightarrow> [] | Some ks \<Rightarrow> ks)"
  shows "indexExact (objects(k \<mapsto> obj)) (index(h \<mapsto> keys @ [k]))"
proof -
  have "k \<notin> set keys" using indexExact_key [OF ex, of h keys k] new keys by (auto split: option.splits)
  moreover have "distinct keys" using indexExact_keys [OF ex, of h] keys by (auto split: option.splits)
  ultimately have 1: "keys @ [k] \<noteq> [] \<and> distinct (keys @ [k])" by simp
  have other: "(\<exists>ks. index h' = Some ks \<and> k' \<in> set ks) \<longleftrightarrow> map_option co_ContentHash (objects k') = Some h'" for h' k'
    by (rule indexExact_mem [OF ex])
  have in_keys: "k' \<in> set keys \<longleftrightarrow> map_option co_ContentHash (objects k') = Some h" for k'
    unfolding other [symmetric] keys by (cases "index h") auto
  show ?thesis
    unfolding indexExact_def
  proof (intro conjI allI impI)
    fix h' ks
    assume "(index(h \<mapsto> keys @ [k])) h' = Some ks"
    then show "ks \<noteq> []" and "distinct ks" using 1 indexExact_keys [OF ex, of h' ks] by (auto split: if_splits)
  next
    fix h' k'
    show "(\<exists>ks. (index(h \<mapsto> keys @ [k])) h' = Some ks \<and> k' \<in> set ks) \<longleftrightarrow>
      map_option co_ContentHash ((objects(k \<mapsto> obj)) k') = Some h'"
      using in_keys [of k'] other [of h' k'] new h by (cases "h' = h"; cases "k' = k") simp_all
  qed
qed

lemma indexExact_drop:
  assumes ex: "indexExact objects index" and obj: "objects k = Some obj"
  shows "indexExact (objects(k := None)) (dropKey (co_ContentHash obj) k index)"
proof -
  obtain keys where keys: "index (co_ContentHash obj) = Some keys" "k \<in> set keys" using indexExact_obj [OF ex obj] by auto
  define h where "h = co_ContentHash obj"
  have idx: "dropKey h k index h' = (if h' = h then (if filter (\<lambda>x. x \<noteq> k) keys = [] then None else Some (filter (\<lambda>x. x \<noteq> k) keys)) else index h')" for h'
    using keys(1) by (simp add: dropKey_def h_def Let_def)
  have other: "(\<exists>ks. index h' = Some ks \<and> k' \<in> set ks) \<longleftrightarrow> map_option co_ContentHash (objects k') = Some h'" for h' k'
    by (rule indexExact_mem [OF ex])
  have in_keys: "k' \<in> set keys \<longleftrightarrow> map_option co_ContentHash (objects k') = Some h" for k'
    using other [of h k'] keys(1) by (simp add: h_def)
  have member: "(\<exists>ks. dropKey h k index h' = Some ks \<and> k' \<in> set ks) \<longleftrightarrow>
      map_option co_ContentHash ((objects(k := None)) k') = Some h'" for h' k'
  proof (cases "h' = h")
    case True
    have "(\<exists>ks. dropKey h k index h = Some ks \<and> k' \<in> set ks) \<longleftrightarrow> k' \<in> set (filter (\<lambda>x. x \<noteq> k) keys)"
      unfolding idx by (auto simp: filter_empty_conv)
    then show ?thesis using in_keys [of k'] True by (cases "k' = k") simp_all
  next
    case False
    then have "dropKey h k index h' = index h'" by (simp add: idx)
    then show ?thesis using other [of h' k'] obj False unfolding h_def by (cases "k' = k") simp_all
  qed
  show ?thesis
    unfolding indexExact_def h_def [symmetric] member
    using indexExact_keys [OF ex] keys(1) by (auto simp: idx h_def [symmetric] split: if_splits)
qed

lemma store_refines:
  assumes inj: "inj_on sha D" and rel: "casRel sha D (Some cas) m" and new: "cas_objects cas key = None" and D: "data \<in> D"
  shows "casRel sha D (map_option snd (store sha now key data cas)) (m(key \<mapsto> data))"
proof -
  have ex: "indexExact (cas_objects cas) (cas_index cas)" and ran: "ran m \<subseteq> D"
    and holds_m: "rel_option (holds sha) (cas_objects cas k) (m k)" for k
    using rel by (auto simp: casRel_def dest: rel_mapD)
  have ran': "ran (m(key \<mapsto> data)) \<subseteq> D" using ran D by (auto simp: ran_def)
  show ?thesis
  proof (cases "cas_index cas (sha data)")
    case None
    have "indexExact ((cas_objects cas)(key \<mapsto> fst (storeNew now key data (sha data) cas))) ((cas_index cas)(sha data \<mapsto> [] @ [key]))"
      by (rule indexExact_add [OF ex new]) (simp_all add: storeNew_def Let_def None)
    moreover have "holds sha (fst (storeNew now key data (sha data) cas)) data" by (simp add: holds_def storeNew_def Let_def)
    ultimately show ?thesis
      using ran' holds_m by (auto simp: casRel_def store_def None storeNew_def Let_def intro!: rel_mapI)
  next
    case (Some keys)
    then obtain first rest where keys: "keys = first # rest" using indexExact_keys [OF ex Some] by (cases keys) auto
    obtain old where old: "cas_objects cas first = Some old" "co_ContentHash old = sha data"
      using indexExact_key [OF ex Some, of first] keys by auto
    obtain d where d: "m first = Some d" "holds sha old d" using holds_m [of first] old(1) by (auto simp: option_rel_Some1)
    have "d \<in> D" using d(1) ran by (auto simp: ran_def)
    with d(2) old(2) D inj have "d = data" by (auto simp: holds_def inj_on_def)
    with d(2) have old_holds: "holds sha old data" by simp
    have ne: "first \<noteq> key" using old(1) new by auto
    define objects where "objects = (cas_objects cas)(first \<mapsto> old\<lparr>co_RefCount := i32 (co_RefCount old + 1)\<rparr>)"
    define obj where "obj = \<lparr>co_Key = key, co_ContentHash = sha data, co_Size = co_Size old, co_RefCount = 1, co_Created = now,
      co_Data = co_Data old, co_Compressed = co_Compressed old\<rparr>"
    have store: "map_option snd (store sha now key data cas) = Some (cas\<lparr>cas_objects := objects(key \<mapsto> obj),
        cas_index := (cas_index cas)(sha data \<mapsto> keys @ [key]), cas_savedSpace := i64 (cas_savedSpace cas + co_Size obj)\<rparr>)"
      by (simp add: store_def storeShared_def Some keys old(1) Let_def objects_def obj_def)
    have "indexExact objects (cas_index cas)"
      by (rule indexExact_hashes [OF ex]) (simp add: objects_def old(1))
    then have "indexExact (objects(key \<mapsto> obj)) ((cas_index cas)(sha data \<mapsto> keys @ [key]))"
      by (rule indexExact_add) (simp_all add: objects_def new ne ne [symmetric] obj_def Some)
    moreover have "rel_option (holds sha) ((objects(key \<mapsto> obj)) k) ((m(key \<mapsto> data)) k)" for k
      using holds_m [of k] old_holds d(1) \<open>d = data\<close> by (auto simp: objects_def obj_def holds_def)
    ultimately show ?thesis using ran' unfolding store casRel_def by (auto intro!: rel_mapI)
  qed
qed

lemma delete_refines:
  assumes "casRel sha D (Some cas) m"
  shows "casRel sha D (Some (snd (deleteObject key cas))) (m(key := None))"
proof -
  have ex: "indexExact (cas_objects cas) (cas_index cas)" and ran: "ran m \<subseteq> D"
    and holds_m: "rel_option (holds sha) (cas_objects cas k) (m k)" for k
    using assms by (auto simp: casRel_def dest: rel_mapD)
  have ran': "ran (m(key := None)) \<subseteq> D" using ran by (auto simp: ran_def)
  show ?thesis
  proof (cases "cas_objects cas key")
    case None
    then have "m key = None" using holds_m [of key] by simp
    then have "m(key := None) = m" by (simp add: fun_eq_iff)
    then show ?thesis using assms by (simp add: deleteObject_def None)
  next
    case (Some obj)
    then show ?thesis
      using ran' holds_m indexExact_drop [OF ex Some] by (auto simp: casRel_def deleteObject_def intro!: rel_mapI)
  qed
qed

definition knownData :: "bytes set \<Rightarrow> CASOp \<Rightarrow> bool" where
  "knownData D op = (case op of StoreOp _ _ data \<Rightarrow> data \<in> D | DeleteOp _ \<Rightarrow> True)"

lemma casRel_new: "casRel sha D (Some newContentAddressableStorage) Map.empty"
  by (simp add: casRel_def newContentAddressableStorage_def indexExact_def rel_fun_def)

lemma admissible_knownData:
  "admissible step ok s ops \<Longrightarrow> storedData ops \<subseteq> D \<Longrightarrow> admissible step (\<lambda>s op. ok s op \<and> knownData D op) s ops"
proof (induction ops arbitrary: s)
  case (Cons op ops)
  have "knownData D op" using Cons.prems(2) by (auto simp: storedData_def knownData_def split: CASOp.splits)
  moreover have "storedData ops \<subseteq> D" using Cons.prems(2) by (auto simp: storedData_def)
  ultimately show ?case using Cons by simp
qed simp

text \<open>Contents whose hashes do not collide make the store a map.\<close>

locale collision_free =
  fixes sha :: "bytes \<Rightarrow> string" and D :: "bytes set"
  assumes no_collision: "inj_on sha D"

sublocale collision_free \<subseteq> sim: simulation "casStep sha" "\<lambda>s op. freshStore s op \<and> knownData D op" "casRel sha D" "\<lambda>_ op. [op]" contentStep
proof unfold_locales
  fix s m op
  assume rel: "casRel sha D s m" and ok: "freshStore s op \<and> knownData D op"
  obtain cas where cas: "s = Some cas" using rel by (auto simp: casRel_def)
  show "casRel sha D (casStep sha s op) (run contentStep m [op])"
  proof (cases op)
    case (StoreOp now key data)
    then show ?thesis using store_refines [OF no_collision, of cas m key data now] rel ok by (simp add: cas knownData_def)
  next
    case (DeleteOp key)
    then show ?thesis using delete_refines rel by (simp add: cas)
  qed
qed

context collision_free
begin

lemma retrieve_rel: "casRel sha D s m \<Longrightarrow> \<exists>cas. s = Some cas \<and>
   retrieve key cas = (case m key of None \<Rightarrow> Inl (ObjectNotFound key) | Some d \<Rightarrow> Inr (decompress (compress d)))"
proof -
  assume "casRel sha D s m"
  then obtain cas where "s = Some cas" "rel_option (holds sha) (cas_objects cas key) (m key)" by (auto simp: casRel_def dest: rel_mapD)
  then show ?thesis by (cases "m key") (auto simp: retrieve_def holds_def option_rel_Some2)
qed

lemma index_rel: "casRel sha D (Some cas) m \<Longrightarrow> d \<in> D \<Longrightarrow>
   (case cas_index cas (sha d) of None \<Rightarrow> {} | Some keys \<Rightarrow> set keys) = {k. m k = Some d}"
proof -
  assume rel: "casRel sha D (Some cas) m" and d: "d \<in> D"
  then have ex: "indexExact (cas_objects cas) (cas_index cas)" and ran: "ran m \<subseteq> D"
    and holds_m: "rel_option (holds sha) (cas_objects cas k) (m k)" for k
    by (auto simp: casRel_def dest: rel_mapD)
  have "map_option co_ContentHash (cas_objects cas k) = Some (sha d) \<longleftrightarrow> m k = Some d" for k
  proof (cases "m k")
    case None
    then show ?thesis using holds_m [of k] by simp
  next
    case (Some e)
    then obtain obj where obj: "cas_objects cas k = Some obj" "holds sha obj e" using holds_m [of k] by (auto simp: option_rel_Some2)
    have "e \<in> D" using ran Some by (auto simp: ran_def)
    then have "sha e = sha d \<longleftrightarrow> e = d" using no_collision d by (auto simp: inj_on_def)
    then show ?thesis using obj Some by (simp add: holds_def)
  qed
  then have "k \<in> (case cas_index cas (sha d) of None \<Rightarrow> {} | Some keys \<Rightarrow> set keys) \<longleftrightarrow> m k = Some d" for k
    using indexExact_mem [OF ex, of "sha d" k] by (auto split: option.splits)
  then show ?thesis by auto
qed

lemma history_rel:
  assumes "admissible (casStep sha) freshStore (Some newContentAddressableStorage) ops" and "storedData ops \<subseteq> D"
  shows "casRel sha D (run (casStep sha) (Some newContentAddressableStorage) ops) (run contentStep Map.empty ops)"
  using sim.rel_run [OF casRel_new admissible_knownData [OF assms]] by simp

end

text \<open>A hash without collisions, the content itself, is an instance.\<close>

definition byteChar :: "8 word \<Rightarrow> char" where
  "byteChar w = char_of (unat w)"

lemma inj_byteChar: "inj byteChar"
proof (rule injI)
  fix x y
  assume "byteChar x = byteChar y"
  then have "(of_char (char_of (unat x)) :: nat) = of_char (char_of (unat y))" by (simp add: byteChar_def)
  moreover have "unat x < 256" "unat y < 256" using unsigned_less [of x] unsigned_less [of y] by simp_all
  ultimately have "unat x = unat y" by simp
  then show "x = y" by (rule unsigned_word_eqI)
qed

interpretation any_content: collision_free "map byteChar" UNIV
  by unfold_locales (simp add: inj_byteChar)

text \<open>C23.  When no two stored contents have the same hash and no call stores over a key, the store is a map: in every such
  history of \<open>Store\<close> and \<open>Delete\<close> calls it does not panic, \<open>Retrieve\<close> fails exactly on the keys that are absent and
  returns for the others the decompressed form of the content last stored there, however many keys share that
  content and in whatever order they were deleted, and the index lists for every content exactly the keys that hold it.\<close>

theorem cas_refines_map:
  assumes "inj_on sha (storedData ops)"
    and "admissible (casStep sha) freshStore (Some newContentAddressableStorage) ops"
  shows "\<exists>cas. run (casStep sha) (Some newContentAddressableStorage) ops = Some cas \<and>
    (\<forall>key. retrieve key cas = (case run contentStep Map.empty ops key of
       None \<Rightarrow> Inl (ObjectNotFound key) | Some d \<Rightarrow> Inr (decompress (compress d)))) \<and>
    (\<forall>d \<in> storedData ops. (case cas_index cas (sha d) of None \<Rightarrow> {} | Some keys \<Rightarrow> set keys) = {k. run contentStep Map.empty ops k = Some d})"
proof -
  have cf: "collision_free sha (storedData ops)" using assms(1) by unfold_locales
  have rel: "casRel sha (storedData ops) (run (casStep sha) (Some newContentAddressableStorage) ops) (run contentStep Map.empty ops)"
    by (rule collision_free.history_rel [OF cf assms(2)]) simp
  obtain cas where cas: "run (casStep sha) (Some newContentAddressableStorage) ops = Some cas"
    using collision_free.retrieve_rel [OF cf rel] by blast
  have "retrieve key cas = (case run contentStep Map.empty ops key of None \<Rightarrow> Inl (ObjectNotFound key) | Some d \<Rightarrow> Inr (decompress (compress d)))" for key
    using collision_free.retrieve_rel [OF cf rel, of key] cas by simp
  then show ?thesis using cas collision_free.index_rel [OF cf rel [unfolded cas]] by blast
qed

definition sampleOps :: "CASOp list" where
  "sampleOps = [StoreOp 1 ''a'' [1, 2], StoreOp 2 ''b'' [1, 2], StoreOp 3 ''c'' [3], DeleteOp ''a'', DeleteOp ''x'']"

theorem cas_refines_map_witness:
  "\<exists>cas. run (casStep (map byteChar)) (Some newContentAddressableStorage) sampleOps = Some cas \<and>
     retrieve ''a'' cas = Inl (ObjectNotFound ''a'') \<and> retrieve ''b'' cas = Inr [1, 2, 0, 0] \<and> retrieve ''c'' cas = Inr [3, 0]"
proof -
  have "admissible (casStep (map byteChar)) freshStore (Some newContentAddressableStorage) sampleOps" by code_simp
  moreover have "inj_on (map byteChar) (storedData sampleOps)" using any_content.no_collision by (rule inj_on_subset) simp
  ultimately show ?thesis
    using cas_refines_map [of "map byteChar" sampleOps]
    by (auto simp: sampleOps_def compress_def decompress_def copyInto_def numeral_eq_Suc)
qed

section \<open>The limits of the storage\<close>

text \<open>Which contents come back unchanged: only the empty one and those of even length, at least 100, whose second half is
  zero.  A short content comes back with as many zero bytes appended.\<close>

theorem cas_roundtrip_iff:
  "decompress (compress d) = d \<longleftrightarrow>
     d = [] \<or> length d \<ge> 100 \<and> even (length d) \<and> drop (length d div 2) d = replicate (length d div 2) 0"
proof (cases "length d < 100")
  case True
  then show ?thesis by (auto simp: compress_def decompress_def copyInto_def)
next
  case False
  define n where "n = length d div 2"
  have dc: "decompress (compress d) = take n d @ replicate n 0" using False by (simp add: compress_def decompress_def copyInto_def n_def)
  show ?thesis
  proof (cases "even (length d)")
    case True
    have "take n d @ replicate n 0 = d \<longleftrightarrow> replicate n 0 = drop n d"
      using append_take_drop_id [of n d] by (metis same_append_eq)
    then show ?thesis using False True dc unfolding n_def by auto
  next
    case odd: False
    have "length (decompress (compress d)) \<noteq> length d" unfolding dc using odd by (auto simp: n_def elim!: oddE)
    then show ?thesis using odd False by auto
  qed
qed

text \<open>Storing over a key leaves it in the list of its former content.  The next object with that content takes the data
  of the new one; and once the key is deleted, \<open>Store\<close> dereferences a nil pointer.\<close>

theorem cas_overwrite_shares_wrong_content:
  "map_option (retrieve ''k2'') (run (casStep (map byteChar)) (Some newContentAddressableStorage)
     [StoreOp 1 ''k1'' [1], StoreOp 2 ''k1'' [2], StoreOp 3 ''k2'' [1]]) = Some (Inr [2, 0])"
  by code_simp

theorem cas_overwrite_panics:
  "run (casStep (map byteChar)) (Some newContentAddressableStorage)
     [StoreOp 1 ''k1'' [1], StoreOp 2 ''k1'' [2], DeleteOp ''k1'', StoreOp 3 ''k2'' [1]] = None"
  by code_simp

text \<open>The block of a shared content disappears with the first reference that is deleted, when that is not the original one.\<close>

theorem cas_block_lost:
  "map_option (\<lambda>cas. (cas_hashIndex cas (map byteChar [1]) = None, cas_index cas (map byteChar [1])))
     (run (casStep (map byteChar)) (Some newContentAddressableStorage) [StoreOp 1 ''k1'' [1], StoreOp 2 ''k2'' [1], DeleteOp ''k2'']) =
   Some (True, Some [''k1''])"
  by code_simp

end
