(* ===== verification/PullPipeline.thy ===== *)
theory PullPipeline
  imports GoPrelude
begin

text \<open>
  The pull-based pipeline of \<open>src/solutions/challenge11_solution.go\<close> (\<open>solution1_PullBasedArchitecture\<close>) as a labelled
  transition system: the workers, the result collector, the expiry of the context and the main goroutine, which closes the
  channel after \<open>wg.Wait\<close>.  Every access to an atomic variable or to the channel is a step of its own, so that the
  check of the number of tasks in flight and its increment can be interleaved.  \<open>pp_processed\<close>,
  \<open>pp_timedOut\<close> and \<open>pp_zeroReads\<close> record what the goroutines print.  The send has a time limit of 100 ms; the
  runtime takes the timeout branch only while the channel is full.

  Shown, for every interleaving: the counter is the number of workers that hold a task, hence never above the number of
  workers; no task is lost or duplicated between the workers, the channel and the logs; nothing is sent on the closed
  channel; and after the context has expired the workers stop after a bounded number of steps.
\<close>

section \<open>The transition system\<close>

record Task =
  tk_ID :: int
  tk_Data :: "8 word list"

record Result =
  rs_TaskID :: int
  rs_Output :: "8 word list"

datatype Worker = Idle | Pulling | Counted | Processing Task | Finishing | Stopped

record PullBasedPipeline =
  pp_maxInflight :: int
  pp_inflight :: int
  pp_taskID :: int
  pp_results :: "Result list"
  pp_workers :: "Worker list"
  pp_collecting :: bool
  pp_cancelled :: bool
  pp_closed :: bool
  pp_processed :: "Result list"
  pp_timedOut :: "Result list"
  pp_zeroReads :: nat

definition newPullBasedPipeline :: "nat \<Rightarrow> int \<Rightarrow> PullBasedPipeline" where
  "newPullBasedPipeline workers maxInflight =
     \<lparr>pp_maxInflight = maxInflight, pp_inflight = 0, pp_taskID = 0, pp_results = [], pp_workers = replicate workers Idle,
      pp_collecting = True, pp_cancelled = False, pp_closed = False, pp_processed = [], pp_timedOut = [], pp_zeroReads = 0\<rparr>"

definition resultsCap :: nat where
  "resultsCap = 5"

text \<open>\<open>taskGenerator\<close> and the processing of a task.\<close>

definition taskGenerator :: "PullBasedPipeline \<Rightarrow> Task \<times> PullBasedPipeline" where
  "taskGenerator p = (let tid = i32 (pp_taskID p + 1) in (\<lparr>tk_ID = tid, tk_Data = replicate 1024 0\<rparr>, p\<lparr>pp_taskID := tid\<rparr>))"

definition resultOf :: "Task \<Rightarrow> Result" where
  "resultOf t = \<lparr>rs_TaskID = tk_ID t, rs_Output = replicate (length (tk_Data t)) 0\<rparr>"

definition setWorker :: "nat \<Rightarrow> Worker \<Rightarrow> PullBasedPipeline \<Rightarrow> PullBasedPipeline" where
  "setWorker i w p = p\<lparr>pp_workers := (pp_workers p)[i := w]\<rparr>"

text \<open>The next atomic action of worker \<open>i\<close>; \<open>None\<close> when it has returned.\<close>

definition workerAct :: "nat \<Rightarrow> PullBasedPipeline \<Rightarrow> PullBasedPipeline option" where
  "workerAct i p =
     (case pp_workers p ! i of
        Idle \<Rightarrow> Some (if pp_cancelled p then setWorker i Stopped p
                      else if pp_inflight p \<ge> pp_maxInflight p then p
                      else setWorker i Pulling p)
      | Pulling \<Rightarrow> Some (setWorker i Counted (p\<lparr>pp_inflight := i32 (pp_inflight p + 1)\<rparr>))
      | Counted \<Rightarrow> (let (t, p') = taskGenerator p in Some (setWorker i (Processing t) p'))
      | Processing t \<Rightarrow>
          Some (setWorker i Finishing
            (if length (pp_results p) < resultsCap then p\<lparr>pp_results := pp_results p @ [resultOf t]\<rparr>
             else p\<lparr>pp_timedOut := pp_timedOut p @ [resultOf t]\<rparr>))
      | Finishing \<Rightarrow> Some (setWorker i Idle (p\<lparr>pp_inflight := i32 (pp_inflight p - 1)\<rparr>))
      | Stopped \<Rightarrow> None)"

datatype PLabel = WorkerRuns nat | Collects | CollectorStops | Cancels | Closes

inductive pstep :: "PullBasedPipeline \<Rightarrow> PLabel \<Rightarrow> PullBasedPipeline \<Rightarrow> bool" where
  worker: "i < length (pp_workers p) \<Longrightarrow> workerAct i p = Some p' \<Longrightarrow> pstep p (WorkerRuns i) p'"
| collect: "pp_collecting p \<Longrightarrow> pp_results p = r # rs \<Longrightarrow>
    pstep p Collects (p\<lparr>pp_results := rs, pp_processed := pp_processed p @ [r]\<rparr>)"
| collect_closed: "pp_collecting p \<Longrightarrow> pp_results p = [] \<Longrightarrow> pp_closed p \<Longrightarrow>
    pstep p Collects (p\<lparr>pp_zeroReads := Suc (pp_zeroReads p)\<rparr>)"
| collector_stops: "pp_collecting p \<Longrightarrow> pp_cancelled p \<Longrightarrow> pstep p CollectorStops (p\<lparr>pp_collecting := False\<rparr>)"
| cancel: "pstep p Cancels (p\<lparr>pp_cancelled := True\<rparr>)"
| close: "pp_cancelled p \<Longrightarrow> \<forall>w \<in> set (pp_workers p). w = Stopped \<Longrightarrow> \<not> pp_closed p \<Longrightarrow>
    pstep p Closes (p\<lparr>pp_closed := True\<rparr>)"

inductive pexec :: "PullBasedPipeline \<Rightarrow> PLabel list \<Rightarrow> PullBasedPipeline \<Rightarrow> bool" where
  pexec_Nil: "pexec p [] p"
| pexec_snoc: "pexec p ls q \<Longrightarrow> pstep q l r \<Longrightarrow> pexec p (ls @ [l]) r"

inductive_simps worker_step_iff: "pstep p (WorkerRuns i) p'"

inductive_cases pstepE: "pstep p l p'"

section \<open>The counter and the tasks\<close>

fun holding :: "Worker \<Rightarrow> bool" where
  "holding Counted \<longleftrightarrow> True"
| "holding (Processing t) \<longleftrightarrow> True"
| "holding Finishing \<longleftrightarrow> True"
| "holding _ \<longleftrightarrow> False"

fun heldTask :: "Worker \<Rightarrow> int multiset" where
  "heldTask (Processing t) = {#tk_ID t#}"
| "heldTask _ = {#}"

definition inFlight :: "Worker list \<Rightarrow> nat" where
  "inFlight ws = length (filter holding ws)"

definition held :: "Worker list \<Rightarrow> int multiset" where
  "held ws = sum_list (map heldTask ws)"

text \<open>The identifiers of all tasks, wherever they are.\<close>

definition allTasks :: "PullBasedPipeline \<Rightarrow> int multiset" where
  "allTasks p = held (pp_workers p) + mset (map rs_TaskID (pp_results p)) + mset (map rs_TaskID (pp_processed p)) + mset (map rs_TaskID (pp_timedOut p))"

lemma inFlight_update:
  "i < length ws \<Longrightarrow> inFlight (ws[i := w]) + (if holding (ws ! i) then 1 else 0) = inFlight ws + (if holding w then 1 else 0)"
  unfolding inFlight_def by (rule length_filter_update)

lemma held_update: "i < length ws \<Longrightarrow> held (ws[i := w]) + heldTask (ws ! i) = held ws + heldTask w"
proof (induction ws arbitrary: i)
  case (Cons v ws)
  then show ?case
  proof (cases i)
    case 0
    then show ?thesis by (simp add: held_def ac_simps)
  next
    case (Suc j)
    then have "held (ws[j := w]) + heldTask (ws ! j) = held ws + heldTask w" using Cons by simp
    then show ?thesis using Suc by (simp add: held_def add.assoc)
  qed
qed simp

lemma inFlight_le: "inFlight ws \<le> length ws"
  by (simp add: inFlight_def)

lemma setWorker_fields [simp]:
  "pp_maxInflight (setWorker i w p) = pp_maxInflight p" "pp_inflight (setWorker i w p) = pp_inflight p"
  "pp_taskID (setWorker i w p) = pp_taskID p" "pp_results (setWorker i w p) = pp_results p"
  "pp_workers (setWorker i w p) = (pp_workers p)[i := w]" "pp_cancelled (setWorker i w p) = pp_cancelled p"
  "pp_closed (setWorker i w p) = pp_closed p" "pp_processed (setWorker i w p) = pp_processed p"
  "pp_timedOut (setWorker i w p) = pp_timedOut p" "pp_collecting (setWorker i w p) = pp_collecting p"
  by (simp_all add: setWorker_def)

lemma workerAct_cases:
  assumes "workerAct i p = Some p'"
  obtains (stop) "pp_workers p ! i = Idle" "pp_cancelled p" "p' = setWorker i Stopped p"
  | (wait) "pp_workers p ! i = Idle" "\<not> pp_cancelled p" "p' = p"
  | (pull) "pp_workers p ! i = Idle" "\<not> pp_cancelled p" "p' = setWorker i Pulling p"
  | (counts) "pp_workers p ! i = Pulling" "p' = setWorker i Counted (p\<lparr>pp_inflight := i32 (pp_inflight p + 1)\<rparr>)"
  | (generate) t where "pp_workers p ! i = Counted" "tk_ID t = i32 (pp_taskID p + 1)"
      "p' = setWorker i (Processing t) (p\<lparr>pp_taskID := i32 (pp_taskID p + 1)\<rparr>)"
  | (send) t where "pp_workers p ! i = Processing t" "length (pp_results p) < resultsCap"
      "p' = setWorker i Finishing (p\<lparr>pp_results := pp_results p @ [resultOf t]\<rparr>)"
  | (timeout) t where "pp_workers p ! i = Processing t"
      "p' = setWorker i Finishing (p\<lparr>pp_timedOut := pp_timedOut p @ [resultOf t]\<rparr>)"
  | (finish) "pp_workers p ! i = Finishing" "p' = setWorker i Idle (p\<lparr>pp_inflight := i32 (pp_inflight p - 1)\<rparr>)"
proof (cases "pp_workers p ! i")
  case Idle
  then show ?thesis using assms stop wait pull by (auto simp: workerAct_def split: if_splits)
next
  case Pulling
  then show ?thesis using assms counts by (simp add: workerAct_def)
next
  case Counted
  then show ?thesis
    using assms by (intro generate [of "\<lparr>tk_ID = i32 (pp_taskID p + 1), tk_Data = replicate 1024 0\<rparr>"]) (simp_all add: workerAct_def taskGenerator_def Let_def)
next
  case (Processing t)
  then show ?thesis using assms send timeout by (auto simp: workerAct_def split: if_splits)
next
  case Finishing
  then show ?thesis using assms finish by (simp add: workerAct_def)
next
  case Stopped
  then show ?thesis using assms by (simp add: workerAct_def)
qed

text \<open>The invariant: \<open>k\<close> workers, the counter exact, the channel within its capacity, \<open>n\<close> tasks generated
  and all accounted for, and a closed channel without workers.\<close>

definition pinv :: "nat \<Rightarrow> PullBasedPipeline \<Rightarrow> bool" where
  "pinv k p \<longleftrightarrow> length (pp_workers p) = k \<and> pp_inflight p = int (inFlight (pp_workers p)) \<and> length (pp_results p) \<le> resultsCap \<and>
     (\<exists>n. pp_taskID p = i32 (int n) \<and> allTasks p = mset (map (\<lambda>j. i32 (int j)) [1..<Suc n])) \<and>
     (pp_closed p \<longrightarrow> (\<forall>w \<in> set (pp_workers p). w = Stopped))"

definition accounted :: "PullBasedPipeline \<Rightarrow> bool" where
  "accounted p \<longleftrightarrow> (\<exists>n. pp_taskID p = i32 (int n) \<and> allTasks p = mset (map (\<lambda>j. i32 (int j)) [1..<Suc n]))"

lemma pinv_iff:
  "pinv k p \<longleftrightarrow> length (pp_workers p) = k \<and> pp_inflight p = int (inFlight (pp_workers p)) \<and> length (pp_results p) \<le> resultsCap \<and>
     accounted p \<and> (pp_closed p \<longrightarrow> (\<forall>w \<in> set (pp_workers p). w = Stopped))"
  by (auto simp: pinv_def accounted_def)

lemma accounted_same: "accounted p \<Longrightarrow> pp_taskID p' = pp_taskID p \<Longrightarrow> allTasks p' = allTasks p \<Longrightarrow> accounted p'"
  by (simp add: accounted_def)

lemma accounted_generate:
  assumes "accounted p" and "pp_taskID p' = i32 (pp_taskID p + 1)" and "allTasks p' = add_mset (i32 (pp_taskID p + 1)) (allTasks p)"
  shows "accounted p'"
proof -
  obtain n where n: "pp_taskID p = i32 (int n)" "allTasks p = mset (map (\<lambda>j. i32 (int j)) [1..<Suc n])"
    using assms(1) by (auto simp: accounted_def)
  have "pp_taskID p' = i32 (int (Suc n))" using assms(2) n(1) by (simp add: add.commute)
  moreover have "allTasks p' = mset (map (\<lambda>j. i32 (int j)) [1..<Suc (Suc n)])" using assms(3) n by (simp add: add.commute)
  ultimately show ?thesis unfolding accounted_def by blast
qed

lemma allTasks_worker:
  assumes "i < length (pp_workers p)" and "pp_workers p' = (pp_workers p)[i := w]"
    and "mset (map rs_TaskID (pp_results p')) + mset (map rs_TaskID (pp_processed p')) + mset (map rs_TaskID (pp_timedOut p')) =
         mset (map rs_TaskID (pp_results p)) + mset (map rs_TaskID (pp_processed p)) + mset (map rs_TaskID (pp_timedOut p)) + X"
    and "X + heldTask w = heldTask (pp_workers p ! i) + Y"
  shows "allTasks p' = allTasks p + Y"
proof -
  have "allTasks p' + heldTask (pp_workers p ! i) = allTasks p + (X + heldTask w)"
    using arg_cong2 [OF held_update [OF assms(1), of w] assms(3), of "(+)"]
    unfolding allTasks_def assms(2) by (simp only: ac_simps)
  then show ?thesis unfolding assms(4) by (simp add: ac_simps)
qed

lemma pinv_worker:
  assumes inv: "pinv k p" and k: "k < 2 ^ 31" and i: "i < length (pp_workers p)" and act: "workerAct i p = Some p'"
  shows "pinv k p'"
proof -
  have acc: "accounted p" and len: "length (pp_workers p) = k" and fl: "pp_inflight p = int (inFlight (pp_workers p))"
    and cap: "length (pp_results p) \<le> resultsCap" and cl: "pp_closed p \<longrightarrow> (\<forall>w \<in> set (pp_workers p). w = Stopped)"
    using inv by (simp_all add: pinv_iff)
  have "inFlight ws < 2 ^ 31" if "length ws = k" for ws using inFlight_le [of ws] k that by linarith
  then have small: "in_i32 (int (inFlight ws))" if "length ws = k" for ws using that by (auto simp: in_i32_def)
  have open_p: "\<not> pp_closed p"
  proof
    assume "pp_closed p"
    with cl i have "pp_workers p ! i = Stopped" by simp
    with act show False by (simp add: workerAct_def)
  qed
  note upd = inFlight_update [OF i] and tasks = allTasks_worker [OF i]
  from act show ?thesis
  proof (cases rule: workerAct_cases)
    case stop
    have "allTasks p' = allTasks p + {#}" by (rule tasks [where w = Stopped and X = "{#}"]) (simp_all add: stop)
    then show ?thesis using stop upd [of Stopped] len fl cap open_p accounted_same [OF acc, of p'] by (simp add: pinv_iff)
  next
    case wait
    then show ?thesis using inv by simp
  next
    case pull
    have "allTasks p' = allTasks p + {#}" by (rule tasks [where w = Pulling and X = "{#}"]) (simp_all add: pull)
    then show ?thesis using pull upd [of Pulling] len fl cap open_p accounted_same [OF acc, of p'] by (simp add: pinv_iff)
  next
    case counts
    have "allTasks p' = allTasks p + {#}" by (rule tasks [where w = Counted and X = "{#}"]) (simp_all add: counts)
    moreover have "i32 (pp_inflight p + 1) = int (inFlight ((pp_workers p)[i := Counted]))"
      using upd [of Counted] small [of "(pp_workers p)[i := Counted]"] len fl counts(1) by (simp add: add.commute)
    ultimately show ?thesis using counts len cap open_p accounted_same [OF acc, of p'] by (simp add: pinv_iff)
  next
    case (generate t)
    have "allTasks p' = allTasks p + {#tk_ID t#}"
      by (rule tasks [where w = "Processing t" and X = "{#}"]) (simp_all add: generate(1,3))
    then have "accounted p'" by (intro accounted_generate [OF acc]) (simp_all add: generate)
    then show ?thesis using generate upd [of "Processing t"] len fl cap open_p by (simp add: pinv_iff)
  next
    case (send t)
    have "allTasks p' = allTasks p + {#}"
      by (rule tasks [where w = Finishing and X = "{#tk_ID t#}"]) (simp_all add: send(1,3) resultOf_def)
    then show ?thesis using send upd [of Finishing] len fl open_p accounted_same [OF acc, of p'] by (simp add: pinv_iff)
  next
    case (timeout t)
    have "allTasks p' = allTasks p + {#}"
      by (rule tasks [where w = Finishing and X = "{#tk_ID t#}"]) (simp_all add: timeout resultOf_def)
    then show ?thesis using timeout upd [of Finishing] len fl cap open_p accounted_same [OF acc, of p'] by (simp add: pinv_iff)
  next
    case finish
    have "allTasks p' = allTasks p + {#}" by (rule tasks [where w = Idle and X = "{#}"]) (simp_all add: finish)
    moreover have "i32 (pp_inflight p - 1) = int (inFlight ((pp_workers p)[i := Idle]))"
    proof -
      have "pp_inflight p - 1 = int (inFlight ((pp_workers p)[i := Idle]))" using upd [of Idle] fl finish(1) by simp
      then show ?thesis using small [of "(pp_workers p)[i := Idle]"] len by simp
    qed
    ultimately show ?thesis using finish len cap open_p accounted_same [OF acc, of p'] by (simp add: pinv_iff)
  qed
qed

lemma pinv_step: "pstep p l p' \<Longrightarrow> pinv k p \<Longrightarrow> k < 2 ^ 31 \<Longrightarrow> pinv k p'"
proof (induction rule: pstep.induct)
  case (worker i p p')
  from worker.prems worker.hyps show ?case by (rule pinv_worker)
next
  case (collect p r rs)
  let ?q = "p\<lparr>pp_results := rs, pp_processed := pp_processed p @ [r]\<rparr>"
  have "allTasks ?q = allTasks p" using collect by (simp add: allTasks_def)
  then have "accounted ?q" using collect accounted_same [of p ?q] by (simp add: pinv_iff)
  then show ?case using collect by (simp add: pinv_iff)
qed (simp_all add: pinv_def allTasks_def)

lemma pinv_new: "pinv k (newPullBasedPipeline k m)"
proof -
  have "inFlight (replicate k Idle) = 0" by (simp add: inFlight_def)
  moreover have "held (replicate k Idle) = {#}" by (induction k) (simp_all add: held_def)
  moreover have "i32 (int 0) = 0" by (simp add: i32_def)
  ultimately show ?thesis by (auto simp: pinv_def newPullBasedPipeline_def allTasks_def intro!: exI [of _ 0])
qed

lemma pinv_exec: "pexec p ls q \<Longrightarrow> pinv k p \<Longrightarrow> k < 2 ^ 31 \<Longrightarrow> pinv k q"
  by (induction rule: pexec.induct) (auto intro: pinv_step)

lemma i32_inj_small: "n < 2 ^ 32 \<Longrightarrow> inj_on (\<lambda>j. i32 (int j)) {1..n}"
proof (rule inj_onI)
  fix x y
  assume n: "n < 2 ^ 32" and xy: "x \<in> {1..n}" "y \<in> {1..n}" and eq: "i32 (int x) = i32 (int y)"
  have "(int x + 2 ^ 31) mod 2 ^ 32 = (int y + 2 ^ 31) mod 2 ^ 32" using eq by (simp add: i32_def)
  then have "int x mod 2 ^ 32 = int y mod 2 ^ 32" using mod_diff_cong [of "int x + 2 ^ 31" "2 ^ 32" "int y + 2 ^ 31" "2 ^ 31" "2 ^ 31"] by simp
  then show "x = y" using n xy by simp
qed

text \<open> In every interleaving of the workers, the collector, the expiry of the context and the closing of the channel: the
  counter of tasks in flight equals the number of workers between its increment and its decrement, so it is never
  above the number of workers nor, where there are at most as many workers as the limit allows (5 and 10 in the
  program), above the limit; the channel holds at most five results; the tasks numbered \<open>1, \<dots>, n\<close> (modulo the 32 bits of the
  counter) that were generated are, each once, at a worker, in the channel, collected or dropped by a timeout, so that no
  task is lost, duplicated or, below \<open>2\<^sup>3\<^sup>2\<close> tasks, confused with another; and once the channel is closed no
  worker is left that could send on it.\<close>

theorem pull_pipeline_accounts:
  assumes exec: "pexec (newPullBasedPipeline k m) ls p" and k: "k < 2 ^ 31"
  shows "pp_inflight p = int (length (filter holding (pp_workers p))) \<and> pp_inflight p \<le> int k \<and>
    (int k \<le> m \<longrightarrow> pp_inflight p \<le> m) \<and>
    length (pp_results p) \<le> 5 \<and>
    (\<exists>n. pp_taskID p = i32 (int n) \<and> allTasks p = mset (map (\<lambda>j. i32 (int j)) [1..<Suc n]) \<and>
         (n < 2 ^ 32 \<longrightarrow> distinct (map (\<lambda>j. i32 (int j)) [1..<Suc n]))) \<and>
    (pp_closed p \<longrightarrow> (\<forall>w \<in> set (pp_workers p). w = Stopped))"
proof -
  have inv: "pinv k p" by (rule pinv_exec [OF exec pinv_new k])
  then have "pp_inflight p \<le> int k" using inFlight_le [of "pp_workers p"] by (simp add: pinv_def)
  moreover have "n < 2 ^ 32 \<Longrightarrow> distinct (map (\<lambda>j. i32 (int j)) [1..<Suc n])" for n
    using i32_inj_small [of n] by (simp add: distinct_map atLeastLessThanSuc_atLeastAtMost del: upt_Suc)
  ultimately show ?thesis using inv unfolding pinv_def resultsCap_def inFlight_def by auto
qed

section \<open>Shutdown\<close>

text \<open>The steps a worker has left once the context has expired.\<close>

fun stepsLeft :: "Worker \<Rightarrow> nat" where
  "stepsLeft Pulling = 5"
| "stepsLeft Counted = 4"
| "stepsLeft (Processing t) = 3"
| "stepsLeft Finishing = 2"
| "stepsLeft Idle = 1"
| "stepsLeft Stopped = 0"

definition workLeft :: "PullBasedPipeline \<Rightarrow> nat" where
  "workLeft p = sum_list (map stepsLeft (pp_workers p))"

fun isWorker :: "PLabel \<Rightarrow> bool" where
  "isWorker (WorkerRuns i) \<longleftrightarrow> True"
| "isWorker _ \<longleftrightarrow> False"

lemma stepsLeft_update: "i < length ws \<Longrightarrow> sum_list (map stepsLeft (ws[i := w])) + stepsLeft (ws ! i) = sum_list (map stepsLeft ws) + stepsLeft w"
proof (induction ws arbitrary: i)
  case (Cons v ws)
  then show ?case by (cases i) (auto simp: ac_simps)
qed simp

lemma stepsLeft_less: "i < length ws \<Longrightarrow> stepsLeft w < stepsLeft (ws ! i) \<Longrightarrow> sum_list (map stepsLeft (ws[i := w])) < sum_list (map stepsLeft ws)"
  using stepsLeft_update [of i ws w] by linarith

lemma worker_progress:
  assumes "i < length (pp_workers p)" and "pp_cancelled p" and "workerAct i p = Some p'"
  shows "workLeft p' < workLeft p \<and> pp_cancelled p'"
  using assms(3) by (cases rule: workerAct_cases) (use assms(1,2) in \<open>simp_all add: workLeft_def stepsLeft_less\<close>)

lemma step_cancelled: "pstep p l p' \<Longrightarrow> pp_cancelled p \<Longrightarrow>
    pp_cancelled p' \<and> workLeft p' + (if isWorker l then 1 else 0) \<le> workLeft p"
proof (induction rule: pstep.induct)
  case (worker i p p')
  then show ?case using worker_progress [of i p p'] by simp
qed (simp_all add: workLeft_def)

lemma exec_cancelled: "pexec p ls q \<Longrightarrow> pp_cancelled p \<Longrightarrow> pp_cancelled q \<and> workLeft q + length (filter isWorker ls) \<le> workLeft p"
proof (induction rule: pexec.induct)
  case (pexec_snoc p ls q l r)
  then show ?case using step_cancelled [of q l r] by (auto split: if_splits)
qed simp

lemma workLeft_le: "workLeft p \<le> 5 * length (pp_workers p)"
proof -
  have "stepsLeft w \<le> 5" for w by (cases w) auto
  then have "sum_list (map stepsLeft ws) \<le> 5 * length ws" for ws by (induction ws) (auto simp: add_mono)
  then show ?thesis by (simp add: workLeft_def)
qed

lemma worker_enabled: "i < length (pp_workers p) \<Longrightarrow> pp_workers p ! i \<noteq> Stopped \<Longrightarrow> \<exists>p'. pstep p (WorkerRuns i) p'"
  by (cases "pp_workers p ! i") (auto simp: worker_step_iff workerAct_def taskGenerator_def Let_def)

text \<open>C24.  Shutdown: from the moment the context has expired, in every interleaving, the \<open>k\<close> workers together take at most \<open>5 k\<close> more
  steps; a worker that has not returned can always take its next step, whatever the other goroutines do (a full
  channel ends in the timeout branch).  Hence \<open>wg.Wait\<close> returns and the channel is closed: when no worker
  can run any more, closing the channel is possible or already done.\<close>

theorem pull_pipeline_shuts_down:
  assumes "pexec (newPullBasedPipeline k m) ls p" and "k < 2 ^ 31" and "pp_cancelled p"
    and "pexec p ls' q"
  shows "length (filter isWorker ls') \<le> 5 * k \<and>
    (\<forall>i < k. pp_workers q ! i \<noteq> Stopped \<longrightarrow> (\<exists>q'. pstep q (WorkerRuns i) q')) \<and>
    ((\<forall>i q'. \<not> pstep q (WorkerRuns i) q') \<longrightarrow> pp_closed q \<or> (\<exists>q'. pstep q Closes q' \<and> pp_closed q'))"
proof -
  have p: "pinv k p" by (rule pinv_exec [OF assms(1) pinv_new assms(2)])
  then have q: "length (pp_workers q) = k" using pinv_exec [OF assms(4) _ assms(2)] by (simp add: pinv_def)
  have c: "pp_cancelled q" and "length (filter isWorker ls') \<le> workLeft p" using exec_cancelled [OF assms(4,3)] by simp_all
  moreover have "workLeft p \<le> 5 * k" using workLeft_le [of p] p by (simp add: pinv_def)
  moreover have en: "\<forall>i < k. pp_workers q ! i \<noteq> Stopped \<longrightarrow> (\<exists>q'. pstep q (WorkerRuns i) q')" using worker_enabled q by blast
  moreover have "pp_closed q \<or> (\<exists>q'. pstep q Closes q' \<and> pp_closed q')" if stuck: "\<forall>i q'. \<not> pstep q (WorkerRuns i) q'"
  proof -
    have "\<forall>w \<in> set (pp_workers q). w = Stopped" using en stuck q by (metis in_set_conv_nth)
    then show ?thesis using pstep.close [OF c] by fastforce
  qed
  ultimately show ?thesis by auto
qed


section \<open>Executions\<close>

text \<open>Executable runs: the actions of the workers for a list of worker numbers.\<close>

fun runWorkers :: "nat list \<Rightarrow> PullBasedPipeline \<Rightarrow> PullBasedPipeline option" where
  "runWorkers [] p = Some p"
| "runWorkers (i # is) p =
     (if i < length (pp_workers p) then (case workerAct i p of None \<Rightarrow> None | Some p' \<Rightarrow> runWorkers is p') else None)"

lemma pexec_Cons: "pstep p l q \<Longrightarrow> pexec q ls r \<Longrightarrow> pexec p (l # ls) r"
proof (rotate_tac 1, induction rule: pexec.induct)
  case (pexec_Nil q)
  then show ?case using pexec.pexec_snoc [OF pexec.pexec_Nil] by fastforce
next
  case (pexec_snoc q ls r l' s)
  then show ?case using pexec.pexec_snoc [of p "l # ls" r l' s] by simp
qed

lemma runWorkers_exec: "runWorkers is p = Some q \<Longrightarrow> pexec p (map WorkerRuns is) q"
  by (induction "is" p rule: runWorkers.induct)
    (auto intro: pexec.pexec_Nil pexec_Cons pstep.worker split: if_splits option.splits)

theorem pull_pipeline_accounts_witness:
  "case runWorkers [0, 1, 0, 0, 1, 0, 1] (newPullBasedPipeline 2 10) of
     None \<Rightarrow> False
   | Some p \<Rightarrow> pp_inflight p = 2 \<and> map rs_TaskID (pp_results p) = [1] \<and>
       (\<exists>n. pp_taskID p = i32 (int n) \<and> allTasks p = mset (map (\<lambda>j. i32 (int j)) [1..<Suc n]))"
proof -
  have r: "map_option (\<lambda>p. (pp_inflight p, map rs_TaskID (pp_results p))) (runWorkers [0, 1, 0, 0, 1, 0, 1] (newPullBasedPipeline 2 10)) = Some (2, [1])"
    by code_simp
  then obtain p where p: "runWorkers [0, 1, 0, 0, 1, 0, 1] (newPullBasedPipeline 2 10) = Some p" "pp_inflight p = 2" "map rs_TaskID (pp_results p) = [1]"
    by auto
  from pull_pipeline_accounts [OF runWorkers_exec [OF p(1)]] show ?thesis using p by auto
qed

theorem pull_pipeline_shuts_down_witness:
  "case runWorkers [0, 1, 0] (newPullBasedPipeline 2 10) of
     None \<Rightarrow> False
   | Some p \<Rightarrow> (case runWorkers [0, 1, 0, 0, 0, 1, 1, 1, 1] (p\<lparr>pp_cancelled := True\<rparr>) of
         None \<Rightarrow> False | Some q \<Rightarrow> (pp_closed q \<or> (\<exists>q'. pstep q Closes q' \<and> pp_closed q')))"
proof -
  have "(case runWorkers [0, 1, 0] (newPullBasedPipeline 2 10) of None \<Rightarrow> None
      | Some p \<Rightarrow> map_option pp_workers (runWorkers [0, 1, 0, 0, 0, 1, 1, 1, 1] (p\<lparr>pp_cancelled := True\<rparr>))) = Some [Stopped, Stopped]"
    by code_simp
  then obtain p q where p: "runWorkers [0, 1, 0] (newPullBasedPipeline 2 10) = Some p"
    and q: "runWorkers [0, 1, 0, 0, 0, 1, 1, 1, 1] (p\<lparr>pp_cancelled := True\<rparr>) = Some q" "pp_workers q = [Stopped, Stopped]"
    by (auto split: option.splits)
  have "pexec (newPullBasedPipeline 2 10) (map WorkerRuns [0, 1, 0] @ [Cancels]) (p\<lparr>pp_cancelled := True\<rparr>)"
    by (rule pexec.pexec_snoc [OF runWorkers_exec [OF p] pstep.cancel])
  from pull_pipeline_shuts_down [OF this _ _ runWorkers_exec [OF q(1)]]
  have "(\<forall>i q'. \<not> pstep q (WorkerRuns i) q') \<longrightarrow> pp_closed q \<or> (\<exists>q'. pstep q Closes q' \<and> pp_closed q')" by simp
  moreover have "\<not> pstep q (WorkerRuns i) q'" for i q'
    using q(2) by (auto simp: worker_step_iff workerAct_def nth_Cons' less_Suc_eq split: if_splits)
  ultimately show ?thesis using p q by simp
qed

text \<open>The check of the limit and the increment are two steps: with more workers than the limit allows, the limit is exceeded.\<close>

theorem pull_limit_exceeded:
  "map_option pp_inflight (runWorkers [0, 1, 0, 1] (newPullBasedPipeline 2 1)) = Some 2"
  by code_simp

end
