(* ===== verification/CircuitBreaker.thy ===== *)
theory CircuitBreaker
  imports GoPrelude
begin

text \<open>
  Token bucket and circuit breaker of \<open>src/solutions/challenge11_solution.go\<close>
  (\<open>solution2_TokenBucketWithCircuitBreaker\<close>).  The bucket is guarded by its mutex; the breaker consists of
  atomic variables, and every load and store is a step of its own.  A goroutine that runs \<open>processRequest\<close> is a program
  counter; a step of the system runs one atomic action of one goroutine, or refills the bucket, with the clock reading \<open>now\<close>.
  Messages that are only printed are left out.

  Shown, for every interleaving: the bucket never holds fewer than none or more than its capacity and admits at
  most its initial tokens plus the refills; and the breaker is not left closed after \<open>threshold\<close> failures: whenever no
  goroutine is inside its failure or closing code, a closed breaker has fewer failures than the threshold.
\<close>

section \<open>State\<close>

record TokenBucket =
  tb_tokens :: int
  tb_maxTokens :: int

datatype CircuitState = Closed | Open | HalfOpen

record CircuitBreaker =
  cb_failures :: int
  cb_successCount :: int
  cb_state :: CircuitState
  cb_threshold :: int
  cb_resetTimeout :: duration
  cb_lastFailTime :: gotime

text \<open>The points of \<open>processRequest\<close> between two atomic actions, with the result of the request at the end.\<close>

datatype Outcome = CircuitOpen | RateLimited | ProcessingFailed | Success

datatype Request =
    CheckState | CheckTimeout | StoreHalfOpen | AcquireToken | Work
  | StoreFailTime | LoadFailures | StoreOpen
  | LoadState | AddSuccess | LoadSuccess | StoreClosed | ResetFailures | ResetSuccess
  | Returned Outcome

record RateControl =
  rc_bucket :: TokenBucket
  rc_breaker :: CircuitBreaker
  rc_requests :: "Request list"

definition newRateControl :: "gotime \<Rightarrow> nat \<Rightarrow> RateControl" where
  "newRateControl now n =
     \<lparr>rc_bucket = \<lparr>tb_tokens = 10, tb_maxTokens = 10\<rparr>,
      rc_breaker = \<lparr>cb_failures = 0, cb_successCount = 0, cb_state = Closed, cb_threshold = 3, cb_resetTimeout = 1000000000, cb_lastFailTime = now\<rparr>,
      rc_requests = replicate n CheckState\<rparr>"

section \<open>Operations\<close>

definition refill :: "TokenBucket \<Rightarrow> TokenBucket" where
  "refill b = (if tb_tokens b < tb_maxTokens b then b\<lparr>tb_tokens := i32 (tb_tokens b + 1)\<rparr> else b)"

definition acquireToken :: "TokenBucket \<Rightarrow> bool \<times> TokenBucket" where
  "acquireToken b = (if tb_tokens b > 0 then (True, b\<lparr>tb_tokens := i32 (tb_tokens b - 1)\<rparr>) else (False, b))"

text \<open>\<open>checkCircuit\<close>: the state, and for an open circuit the time of the last failure.\<close>

definition afterState :: "CircuitBreaker \<Rightarrow> Request" where
  "afterState cb = (case cb_state cb of Open \<Rightarrow> CheckTimeout | HalfOpen \<Rightarrow> AcquireToken | Closed \<Rightarrow> AcquireToken)"

definition afterTimeout :: "gotime \<Rightarrow> CircuitBreaker \<Rightarrow> Request" where
  "afterTimeout now cb = (if now - cb_lastFailTime cb > cb_resetTimeout cb then StoreHalfOpen else Returned CircuitOpen)"

text \<open>One atomic action of the request with number \<open>reqID\<close>.\<close>

fun requestAct :: "gotime \<Rightarrow> nat \<Rightarrow> Request \<Rightarrow> TokenBucket \<Rightarrow> CircuitBreaker \<Rightarrow> Request \<times> TokenBucket \<times> CircuitBreaker" where
  "requestAct now reqID CheckState b cb = (afterState cb, b, cb)"
| "requestAct now reqID CheckTimeout b cb = (afterTimeout now cb, b, cb)"
| "requestAct now reqID StoreHalfOpen b cb = (AcquireToken, b, cb\<lparr>cb_state := HalfOpen\<rparr>)"
| "requestAct now reqID AcquireToken b cb =
     (let (ok, b') = acquireToken b in (if ok then Work else Returned RateLimited, b', cb))"
| "requestAct now reqID Work b cb =
     (if reqID mod 5 = 0 then (StoreFailTime, b, cb\<lparr>cb_failures := i32 (cb_failures cb + 1)\<rparr>) else (LoadState, b, cb))"
| "requestAct now reqID StoreFailTime b cb = (LoadFailures, b, cb\<lparr>cb_lastFailTime := now\<rparr>)"
| "requestAct now reqID LoadFailures b cb =
     (if cb_failures cb \<ge> cb_threshold cb then StoreOpen else Returned ProcessingFailed, b, cb)"
| "requestAct now reqID StoreOpen b cb = (Returned ProcessingFailed, b, cb\<lparr>cb_state := Open\<rparr>)"
| "requestAct now reqID LoadState b cb = (if cb_state cb = HalfOpen then AddSuccess else Returned Success, b, cb)"
| "requestAct now reqID AddSuccess b cb = (LoadSuccess, b, cb\<lparr>cb_successCount := i32 (cb_successCount cb + 1)\<rparr>)"
| "requestAct now reqID LoadSuccess b cb = (if cb_successCount cb \<ge> 2 then StoreClosed else Returned Success, b, cb)"
| "requestAct now reqID StoreClosed b cb = (ResetFailures, b, cb\<lparr>cb_state := Closed\<rparr>)"
| "requestAct now reqID ResetFailures b cb = (ResetSuccess, b, cb\<lparr>cb_failures := 0\<rparr>)"
| "requestAct now reqID ResetSuccess b cb = (Returned Success, b, cb\<lparr>cb_successCount := 0\<rparr>)"
| "requestAct now reqID (Returned r) b cb = (Returned r, b, cb)"

datatype RCStep = Request nat gotime | Refill

fun rcStep :: "RateControl \<Rightarrow> RCStep \<Rightarrow> RateControl" where
  "rcStep rc (Request i now) =
     (if i < length (rc_requests rc)
      then (let (r, b, cb) = requestAct now i (rc_requests rc ! i) (rc_bucket rc) (rc_breaker rc)
            in rc\<lparr>rc_bucket := b, rc_breaker := cb, rc_requests := (rc_requests rc)[i := r]\<rparr>)
      else rc)"
| "rcStep rc Refill = rc\<lparr>rc_bucket := refill (rc_bucket rc)\<rparr>"

section \<open>The bucket\<close>

text \<open>The requests that got a token, and those inside the code that counts a failure or closes the circuit.\<close>

fun admitted :: "Request \<Rightarrow> bool" where
  "admitted CheckState \<longleftrightarrow> False"
| "admitted CheckTimeout \<longleftrightarrow> False"
| "admitted StoreHalfOpen \<longleftrightarrow> False"
| "admitted AcquireToken \<longleftrightarrow> False"
| "admitted (Returned CircuitOpen) \<longleftrightarrow> False"
| "admitted (Returned RateLimited) \<longleftrightarrow> False"
| "admitted _ \<longleftrightarrow> True"

fun updating :: "Request \<Rightarrow> bool" where
  "updating StoreFailTime \<longleftrightarrow> True"
| "updating LoadFailures \<longleftrightarrow> True"
| "updating StoreOpen \<longleftrightarrow> True"
| "updating ResetFailures \<longleftrightarrow> True"
| "updating _ \<longleftrightarrow> False"

definition bucketOk :: "TokenBucket \<Rightarrow> bool" where
  "bucketOk b \<longleftrightarrow> 0 \<le> tb_tokens b \<and> tb_tokens b \<le> tb_maxTokens b \<and> tb_maxTokens b = 10"

definition breakerOk :: "RateControl \<Rightarrow> bool" where
  "breakerOk rc \<longleftrightarrow> cb_threshold (rc_breaker rc) = 3 \<and>
     (cb_state (rc_breaker rc) = Closed \<and> cb_failures (rc_breaker rc) \<ge> 3 \<longrightarrow> (\<exists>r \<in> set (rc_requests rc). updating r))"

definition rcInv :: "RateControl \<Rightarrow> bool" where
  "rcInv rc \<longleftrightarrow> bucketOk (rc_bucket rc) \<and> breakerOk rc"

definition spent :: "RateControl \<Rightarrow> int" where
  "spent rc = int (length (filter admitted (rc_requests rc))) + tb_tokens (rc_bucket rc)"

lemma small_i32: "- 1 \<le> x \<Longrightarrow> x \<le> 11 \<Longrightarrow> i32 x = x"
  by (rule i32_id) (simp add: in_i32_def)



text \<open>A request either keeps the bucket and its admission, or is admitted and takes a token.\<close>

lemma requestAct_bucket:
  assumes "bucketOk b" and "requestAct now i r b cb = (r', b', cb')"
  shows "bucketOk b' \<and> tb_tokens b' + (if admitted r' then 1 else 0) = tb_tokens b + (if admitted r then 1 else 0)"
  using assms
  by (cases r)
    (auto simp: afterState_def afterTimeout_def acquireToken_def bucketOk_def small_i32 split: CircuitState.splits if_splits Outcome.splits)

lemma refill_bucket: "bucketOk b \<Longrightarrow> bucketOk (refill b) \<and> tb_tokens (refill b) \<le> tb_tokens b + 1"
  by (auto simp: refill_def bucketOk_def small_i32)

section \<open>The breaker\<close>

text \<open>A closed breaker with too many failures comes from the action of a request that is still updating it, or was there before
  and is not the work of this request alone.\<close>

lemma requestAct_breaker:
  assumes "requestAct now i r b cb = (r', b', cb')" and "cb_threshold cb = 3"
    and "cb_state cb' = Closed" and "cb_failures cb' \<ge> 3" and "\<not> updating r'"
  shows "cb_state cb = Closed \<and> cb_failures cb \<ge> 3 \<and> \<not> updating r"
  using assms by (cases r) (auto simp: Let_def split: if_splits prod.splits)

lemma requestAct_threshold: "requestAct now i r b cb = (r', b', cb') \<Longrightarrow> cb_threshold cb' = cb_threshold cb"
  by (cases r) (auto split: if_splits prod.splits)

lemma breakerOk_request:
  assumes ok: "breakerOk rc" and i: "i < length (rc_requests rc)"
    and act: "requestAct now i (rc_requests rc ! i) (rc_bucket rc) (rc_breaker rc) = (r', b', cb')"
  shows "breakerOk (rc\<lparr>rc_bucket := b', rc_breaker := cb', rc_requests := (rc_requests rc)[i := r']\<rparr>)"
proof -
  have "\<exists>r \<in> set ((rc_requests rc)[i := r']). updating r" if "cb_state cb' = Closed" "cb_failures cb' \<ge> 3"
  proof (cases "updating r'")
    case True
    then show ?thesis using set_update_memI [OF i, of r'] by (rule bexI)
  next
    case False
    have old: "cb_state (rc_breaker rc) = Closed \<and> cb_failures (rc_breaker rc) \<ge> 3 \<and> \<not> updating (rc_requests rc ! i)"
      using requestAct_breaker [OF act _ that False] ok by (simp add: breakerOk_def)
    then have "\<exists>r \<in> set (rc_requests rc). updating r" using ok by (simp add: breakerOk_def)
    then obtain j where j: "j < length (rc_requests rc)" "updating (rc_requests rc ! j)" by (metis in_set_conv_nth)
    then have "(rc_requests rc)[i := r'] ! j = rc_requests rc ! j" using old by (cases "j = i") auto
    then show ?thesis using j by (metis length_list_update nth_mem)
  qed
  then show ?thesis using ok requestAct_threshold [OF act] by (simp add: breakerOk_def)
qed

lemma rcInv_step: "rcInv rc \<Longrightarrow> rcInv (rcStep rc e)"
proof (cases e)
  case (Request i now)
  assume inv: "rcInv rc"
  obtain r b cb where act: "requestAct now i (rc_requests rc ! i) (rc_bucket rc) (rc_breaker rc) = (r, b, cb)" by (metis prod_cases3)
  then show ?thesis
    using inv Request requestAct_bucket [OF _ act] breakerOk_request [OF _ _ act] by (auto simp: rcInv_def)
next
  case Refill
  assume "rcInv rc"
  then show ?thesis using Refill refill_bucket by (auto simp: rcInv_def breakerOk_def)
qed

interpretation rate_control: locked_object rcStep rcInv
  by unfold_locales (rule rcInv_step)

definition refills :: "RCStep list \<Rightarrow> nat" where
  "refills es = length (filter (\<lambda>e. e = Refill) es)"

lemma spent_step:
  assumes "rcInv rc"
  shows "spent (rcStep rc e) \<le> spent rc + (if e = Refill then 1 else 0)"
proof (cases e)
  case (Request i now)
  obtain r b cb where act: "requestAct now i (rc_requests rc ! i) (rc_bucket rc) (rc_breaker rc) = (r, b, cb)" by (metis prod_cases3)
  show ?thesis
  proof (cases "i < length (rc_requests rc)")
    case True
    have "tb_tokens b + (if admitted r then 1 else 0) = tb_tokens (rc_bucket rc) + (if admitted (rc_requests rc ! i) then 1 else 0)"
      using requestAct_bucket [OF _ act] assms by (simp add: rcInv_def)
    then show ?thesis
      using True act Request length_filter_update [OF True, of admitted r] by (auto simp: spent_def split: if_splits)
  qed (simp add: Request)
next
  case Refill
  then show ?thesis using refill_bucket [of "rc_bucket rc"] assms by (simp add: spent_def rcInv_def)
qed

lemma spent_run: "rcInv rc \<Longrightarrow> spent (run rcStep rc es) \<le> spent rc + int (refills es)"
proof (induction es arbitrary: rc)
  case (Cons e es)
  then have "spent (run rcStep (rcStep rc e) es) \<le> spent (rcStep rc e) + int (refills es)" by (simp add: rcInv_step)
  then show ?case using spent_step [OF Cons.prems, of e] by (simp add: refills_def split: if_splits)
qed (simp add: refills_def)

lemma rcInv_new: "rcInv (newRateControl now n)"
  by (simp add: rcInv_def newRateControl_def bucketOk_def breakerOk_def)

lemma spent_new: "spent (newRateControl now n) = 10"
  by (induction n) (simp_all add: spent_def newRateControl_def)

text \<open> In every interleaving of any number of requests and refills: the bucket holds between none and ten tokens, the number
  of requests that were admitted plus the tokens left is at most ten plus the number of refills, and the circuit is never left
  closed after three failures: a closed circuit with three or more counted failures exists only while some request is still
  between counting a failure and opening the circuit, or between closing it and resetting the counter.\<close>

theorem rate_control_safe:
  "let rc = run rcStep (newRateControl now n) es
   in 0 \<le> tb_tokens (rc_bucket rc) \<and> tb_tokens (rc_bucket rc) \<le> 10 \<and>
      int (length (filter admitted (rc_requests rc))) + tb_tokens (rc_bucket rc) \<le> 10 + int (refills es) \<and>
      \<not> (cb_state (rc_breaker rc) = Closed \<and> cb_failures (rc_breaker rc) \<ge> 3 \<and> \<not> list_ex updating (rc_requests rc))"
proof -
  define rc where "rc = run rcStep (newRateControl now n) es"
  have "rcInv rc" unfolding rc_def by (rule rate_control.inv_run [OF rcInv_new])
  moreover have "spent rc \<le> 10 + int (refills es)" unfolding rc_def using spent_run [OF rcInv_new, of now n es] by (simp add: spent_new)
  ultimately show ?thesis unfolding rc_def [symmetric] by (auto simp: Let_def rcInv_def bucketOk_def breakerOk_def spent_def list_ex_iff)
qed

section \<open>An open circuit\<close>

fun waiting :: "Request \<Rightarrow> bool" where
  "waiting CheckState \<longleftrightarrow> True"
| "waiting CheckTimeout \<longleftrightarrow> True"
| "waiting (Returned r) \<longleftrightarrow> True"
| "waiting _ \<longleftrightarrow> False"

definition openUntil :: "gotime \<Rightarrow> CircuitBreaker \<Rightarrow> bool" where
  "openUntil t cb \<longleftrightarrow> cb_state cb = Open \<and> cb_lastFailTime cb + cb_resetTimeout cb = t"

definition rejecting :: "CircuitBreaker \<Rightarrow> RateControl \<Rightarrow> bool" where
  "rejecting cb rc \<longleftrightarrow> rc_breaker rc = cb \<and> (\<forall>r \<in> set (rc_requests rc). waiting r)"

fun noLaterThan :: "gotime \<Rightarrow> RCStep \<Rightarrow> bool" where
  "noLaterThan t (Request i now) \<longleftrightarrow> now \<le> t"
| "noLaterThan t Refill \<longleftrightarrow> True"

lemma requestAct_open:
  assumes "openUntil t cb" and "now \<le> t" and "waiting r" and "requestAct now i r b cb = (r', b', cb')"
  shows "cb' = cb \<and> waiting r' \<and> admitted r' = admitted r"
  using assms by (cases r) (auto simp: openUntil_def afterState_def afterTimeout_def)

lemma rejecting_step:
  assumes "openUntil t cb" and "rejecting cb rc" and "noLaterThan t e"
  shows "rejecting cb (rcStep rc e) \<and> map admitted (rc_requests (rcStep rc e)) = map admitted (rc_requests rc)"
proof (cases e)
  case (Request i now)
  obtain r b cb' where act: "requestAct now i (rc_requests rc ! i) (rc_bucket rc) (rc_breaker rc) = (r, b, cb')" by (metis prod_cases3)
  show ?thesis
  proof (cases "i < length (rc_requests rc)")
    case True
    have "rc_breaker rc = cb" "waiting (rc_requests rc ! i)" "now \<le> t" using True assms(2,3) Request by (simp_all add: rejecting_def)
    then have "cb' = cb \<and> waiting r \<and> admitted r = admitted (rc_requests rc ! i)"
      using requestAct_open [OF assms(1)] act by blast
    moreover from this have "map admitted ((rc_requests rc)[i := r]) = map admitted (rc_requests rc)"
      using True by (simp add: map_update list_update_same_conv)
    ultimately show ?thesis
      using True Request act assms(2) by (auto simp: rejecting_def dest!: set_update_subset_insert [THEN subsetD])
  qed (use Request assms(2) in simp)
qed (use assms(2) in \<open>simp add: rejecting_def\<close>)

lemma rejecting_run:
  "openUntil t cb \<Longrightarrow> rejecting cb rc \<Longrightarrow> list_all (noLaterThan t) es \<Longrightarrow>
   rejecting cb (run rcStep rc es) \<and> map admitted (rc_requests (run rcStep rc es)) = map admitted (rc_requests rc)"
proof (induction es arbitrary: rc)
  case (Cons e es)
  then show ?case using rejecting_step [of t cb rc e] by simp
qed simp

text \<open> While the circuit is open and its reset time has not passed, and no request is past its check of the circuit, no request
  is admitted: through any steps of any requests and refills with clock readings up to the reset time the circuit stays
  open and unchanged and exactly the same requests are admitted as before.\<close>

theorem open_circuit_rejects:
  assumes "cb_state (rc_breaker rc) = Open" and "\<forall>r \<in> set (rc_requests rc). waiting r"
    and "list_all (noLaterThan (cb_lastFailTime (rc_breaker rc) + cb_resetTimeout (rc_breaker rc))) es"
  shows "rc_breaker (run rcStep rc es) = rc_breaker rc \<and>
    map admitted (rc_requests (run rcStep rc es)) = map admitted (rc_requests rc)"
  using rejecting_run [of _ "rc_breaker rc" rc es] assms by (simp add: openUntil_def rejecting_def)

text \<open>Two schedules of the program's own requests: five requests of which those numbered 0, 5 and 10 fail open the circuit, and
  a request after the reset time reaches the half-open state.\<close>

definition runRequest :: "nat \<Rightarrow> gotime \<Rightarrow> RCStep list" where
  "runRequest i now = replicate 11 (Request i now)"

definition openedCircuit :: RateControl where
  "openedCircuit = run rcStep (newRateControl 0 20) (runRequest 0 1 @ runRequest 5 2 @ runRequest 10 3)"

theorem open_circuit_rejects_witness:
  "cb_state (rc_breaker openedCircuit) = Open \<and> rc_requests (run rcStep openedCircuit (runRequest 1 1000000003)) ! 1 = Returned CircuitOpen \<and>
   rc_breaker (run rcStep openedCircuit (runRequest 1 1000000003)) = rc_breaker openedCircuit"
proof -
  have o1: "cb_state (rc_breaker openedCircuit) = Open" by code_simp
  have o2: "\<forall>r \<in> set (rc_requests openedCircuit). waiting r" by code_simp
  have o3: "list_all (noLaterThan (cb_lastFailTime (rc_breaker openedCircuit) + cb_resetTimeout (rc_breaker openedCircuit))) (runRequest 1 1000000003)"
    by code_simp
  have "rc_requests (run rcStep openedCircuit (runRequest 1 1000000003)) ! 1 = Returned CircuitOpen" by code_simp
  then show ?thesis using open_circuit_rejects [OF o1 o2 o3] o1 by simp
qed

text \<open>The number of successes in the half-open state is not reset when a failure opens the circuit again: after one success, a
  failure and another reset time, a single further success closes the circuit.\<close>

theorem stale_success_closes_circuit:
  "let half = run rcStep openedCircuit (runRequest 1 2000000000);
       again = run rcStep half (runRequest 15 2000000001);
       after = run rcStep again (runRequest 2 4000000000)
   in cb_state (rc_breaker half) = HalfOpen \<and> cb_state (rc_breaker again) = Open \<and> cb_successCount (rc_breaker again) = 1 \<and>
      cb_state (rc_breaker after) = Closed"
  by code_simp

end
