(* ===== verification/AdaptiveBuffer.thy ===== *)
theory AdaptiveBuffer
  imports GoPrelude
begin

text \<open>
  The adaptive buffer of \<open>src/solutions/challenge11_solution.go\<close> (\<open>solution3_AdaptiveBuffering\<close>): a queue whose capacity grows and
  shrinks with the observed throughput and drops.  Every operation holds \<open>buffer.mu\<close> and is one step; the pacing of
  producer and consumer, which only sleeps, is the choice of the history.  Shown: in every history the
  capacity stays between 16 and 238, the queue never holds more than 238 items, and items leave in the
  order in which they were accepted, none lost or duplicated but those dropped at the head.
\<close>

section \<open>Operations\<close>

record 'a AdaptiveBuffer =
  ab_data :: "'a list"
  ab_maxSize :: int
  ab_currentSize :: int
  ab_dropCount :: int
  ab_throughput :: int
  ab_lastAdjust :: gotime
  ab_dropPolicy :: string

definition newAdaptiveBuffer :: "gotime \<Rightarrow> string \<Rightarrow> 'a AdaptiveBuffer" where
  "newAdaptiveBuffer now policy =
     \<lparr>ab_data = [], ab_maxSize = 100, ab_currentSize = 0, ab_dropCount = 0, ab_throughput = 0, ab_lastAdjust = now, ab_dropPolicy = policy\<rparr>"

definition adjustedSize :: "int \<Rightarrow> int \<Rightarrow> int \<Rightarrow> int" where
  "adjustedSize drops tp maxSize =
     (if drops > 5 \<and> maxSize > 20 then i64 (maxSize * 8) div 10
      else if drops = 0 \<and> tp > 20 \<and> maxSize < 200 then i64 (maxSize * 12) div 10
      else maxSize)"

definition adjustBufferSize :: "gotime \<Rightarrow> 'a AdaptiveBuffer \<Rightarrow> 'a AdaptiveBuffer" where
  "adjustBufferSize now b =
     b\<lparr>ab_maxSize := adjustedSize (ab_dropCount b) (ab_throughput b) (ab_maxSize b), ab_dropCount := 0, ab_throughput := 0, ab_lastAdjust := now\<rparr>"

definition appendItem :: "'a \<Rightarrow> 'a AdaptiveBuffer \<Rightarrow> 'a AdaptiveBuffer" where
  "appendItem item b = b\<lparr>ab_data := ab_data b @ [item], ab_currentSize := i32 (int (length (ab_data b @ [item])))\<rparr>"

definition enqueue :: "'a \<Rightarrow> 'a AdaptiveBuffer \<Rightarrow> bool \<times> 'a AdaptiveBuffer" where
  "enqueue item b =
     (if int (length (ab_data b)) \<ge> ab_maxSize b
      then (if ab_dropPolicy b = ''tail'' then (False, b\<lparr>ab_dropCount := i64 (ab_dropCount b + 1)\<rparr>)
            else if ab_dropPolicy b = ''head'' then
              (True, appendItem item (b\<lparr>ab_data := drop 1 (ab_data b), ab_dropCount := i64 (ab_dropCount b + 1)\<rparr>))
            else (True, appendItem item b))
      else (True, appendItem item b))"

definition dequeue :: "'a AdaptiveBuffer \<Rightarrow> 'a option \<times> 'a AdaptiveBuffer" where
  "dequeue b =
     (case ab_data b of
        [] \<Rightarrow> (None, b)
      | item # rest \<Rightarrow> (Some item, b\<lparr>ab_data := rest, ab_currentSize := i32 (int (length rest)), ab_throughput := i64 (ab_throughput b + 1)\<rparr>))"

section \<open>Histories\<close>

datatype 'a BufferOp = Enqueue 'a | Dequeue | Adjust gotime

text \<open>The state of a history: the buffer and what its callers saw: the accepted items, the items that were taken, and
  those that a full buffer dropped at its head.\<close>

record 'a BufferRun =
  br_buffer :: "'a AdaptiveBuffer"
  br_accepted :: "'a list"
  br_taken :: "'a list"
  br_dropped :: "'a list"

definition headDrops :: "'a AdaptiveBuffer \<Rightarrow> 'a list" where
  "headDrops b = (if int (length (ab_data b)) \<ge> ab_maxSize b \<and> ab_dropPolicy b = ''head'' then take 1 (ab_data b) else [])"

fun bufStep :: "'a BufferRun \<Rightarrow> 'a BufferOp \<Rightarrow> 'a BufferRun" where
  "bufStep s (Enqueue item) =
     (let (ok, b) = enqueue item (br_buffer s)
      in s\<lparr>br_buffer := b, br_accepted := br_accepted s @ (if ok then [item] else []), br_dropped := br_dropped s @ headDrops (br_buffer s)\<rparr>)"
| "bufStep s Dequeue =
     (let (r, b) = dequeue (br_buffer s)
      in s\<lparr>br_buffer := b, br_taken := br_taken s @ (case r of None \<Rightarrow> [] | Some item \<Rightarrow> [item])\<rparr>)"
| "bufStep s (Adjust now) = s\<lparr>br_buffer := adjustBufferSize now (br_buffer s)\<rparr>"

definition startRun :: "gotime \<Rightarrow> string \<Rightarrow> 'a BufferRun" where
  "startRun now policy = \<lparr>br_buffer = newAdaptiveBuffer now policy, br_accepted = [], br_taken = [], br_dropped = []\<rparr>"

section \<open>Bounds\<close>

definition sizeOk :: "'a AdaptiveBuffer \<Rightarrow> bool" where
  "sizeOk b \<longleftrightarrow> 16 \<le> ab_maxSize b \<and> ab_maxSize b \<le> 238 \<and> length (ab_data b) \<le> 238 \<and> ab_currentSize b = int (length (ab_data b))"

lemma adjustedSize_bounds: "16 \<le> m \<Longrightarrow> m \<le> 238 \<Longrightarrow> 16 \<le> adjustedSize drops tp m \<and> adjustedSize drops tp m \<le> 238"
proof -
  assume m: "16 \<le> m" "m \<le> 238"
  then have "i64 (m * 8) = m * 8" "i64 (m * 12) = m * 12" by (auto intro!: i64_id in_i64I)
  then show ?thesis using m by (auto simp: adjustedSize_def)
qed

lemma small_length: "length xs \<le> 238 \<Longrightarrow> i32 (int (length xs)) = int (length xs)"
  by (rule i32_id) (simp add: in_i32_def)

lemma appendItem_ok: "16 \<le> ab_maxSize b \<Longrightarrow> ab_maxSize b \<le> 238 \<Longrightarrow> length (ab_data b) < 238 \<Longrightarrow> sizeOk (appendItem item b)"
  using small_length [of "ab_data b @ [item]"] by (simp add: sizeOk_def appendItem_def)

text \<open>The queue, the accepted items and the items gone, the latter a merge of those taken and those dropped.\<close>

definition fifoOk :: "'a BufferRun \<Rightarrow> bool" where
  "fifoOk s \<longleftrightarrow> (\<exists>gone \<in> shuffles (br_taken s) (br_dropped s). br_accepted s = gone @ ab_data (br_buffer s))"

definition bufInv :: "string \<Rightarrow> 'a BufferRun \<Rightarrow> bool" where
  "bufInv policy s \<longleftrightarrow> ab_dropPolicy (br_buffer s) = policy \<and> sizeOk (br_buffer s) \<and> fifoOk s \<and> (policy = ''tail'' \<longrightarrow> br_dropped s = [])"

lemma shuffles_snocL: "zs \<in> shuffles xs ys \<Longrightarrow> zs @ [x] \<in> shuffles (xs @ [x]) ys"
proof (induction xs ys arbitrary: zs rule: shuffles.induct)
  case (1 ys)
  then show ?case by (induction ys arbitrary: zs) (auto simp: Cons_in_shuffles_iff)
next
  case (2 xs)
  then show ?case by simp
next
  case (3 a xs b ys)
  then show ?case by (auto simp: image_iff)
qed

lemma shuffles_snocR: "zs \<in> shuffles xs ys \<Longrightarrow> zs @ [y] \<in> shuffles xs (ys @ [y])"
  using shuffles_snocL [of zs ys xs y] by (simp add: shuffles_commutes)

lemma enqueue_inv:
  assumes policy: "policy = ''tail'' \<or> policy = ''head''" and inv: "bufInv policy s"
  shows "bufInv policy (bufStep s (Enqueue item))"
proof -
  define b where "b = br_buffer s"
  have b: "16 \<le> ab_maxSize b" "ab_maxSize b \<le> 238" "length (ab_data b) \<le> 238" "sizeOk b" "ab_dropPolicy b = policy"
    and drops: "policy = ''tail'' \<longrightarrow> br_dropped s = []"
    using inv by (auto simp: bufInv_def sizeOk_def b_def)
  obtain gone where gone: "gone \<in> shuffles (br_taken s) (br_dropped s)" "br_accepted s = gone @ ab_data b"
    using inv by (auto simp: bufInv_def fifoOk_def b_def)
  show ?thesis
  proof (cases "int (length (ab_data b)) \<ge> ab_maxSize b")
    case False
    have "sizeOk (appendItem item b)" by (rule appendItem_ok) (use False b in auto)
    then show ?thesis
      using False b gone drops by (auto simp: bufInv_def fifoOk_def enqueue_def headDrops_def b_def [symmetric] appendItem_def)
  next
    case True
    show ?thesis
    proof (cases "policy = ''tail''")
      case True
      then show ?thesis
        using \<open>int (length (ab_data b)) \<ge> ab_maxSize b\<close> b gone drops
        by (auto simp: bufInv_def fifoOk_def enqueue_def headDrops_def b_def [symmetric] sizeOk_def)
    next
      case False
      with policy have head: "policy = ''head''" by simp
      obtain x xs where xs: "ab_data b = x # xs" using True b by (cases "ab_data b") auto
      have "sizeOk (appendItem item (b\<lparr>ab_data := xs, ab_dropCount := i64 (ab_dropCount b + 1)\<rparr>))"
        by (rule appendItem_ok) (use b xs in auto)
      moreover have "gone @ [x] \<in> shuffles (br_taken s) (br_dropped s @ [x])" by (rule shuffles_snocR [OF gone(1)])
      ultimately show ?thesis
        using True head xs b gone by (auto simp: bufInv_def fifoOk_def enqueue_def headDrops_def b_def [symmetric] appendItem_def intro!: bexI [of _ "gone @ [x]"])
    qed
  qed
qed

lemma dequeue_inv:
  assumes "bufInv policy s"
  shows "bufInv policy (bufStep s Dequeue)"
proof (cases "ab_data (br_buffer s)")
  case Nil
  then show ?thesis using assms by (simp add: dequeue_def)
next
  case (Cons x xs)
  obtain gone where gone: "gone \<in> shuffles (br_taken s) (br_dropped s)" "br_accepted s = gone @ x # xs"
    using assms Cons by (auto simp: bufInv_def fifoOk_def)
  have "gone @ [x] \<in> shuffles (br_taken s @ [x]) (br_dropped s)" by (rule shuffles_snocL [OF gone(1)])
  then show ?thesis
    using assms Cons gone small_length [of xs] by (auto simp: bufInv_def fifoOk_def dequeue_def sizeOk_def intro!: bexI [of _ "gone @ [x]"])
qed

lemma adjust_inv: "bufInv policy s \<Longrightarrow> bufInv policy (bufStep s (Adjust now))"
  using adjustedSize_bounds by (auto simp: bufInv_def fifoOk_def adjustBufferSize_def sizeOk_def)

text \<open>The two drop policies that the code implements.\<close>

interpretation tail_buffer: locked_object bufStep "bufInv ''tail''"
proof unfold_locales
  fix s :: "'a BufferRun" and e
  assume "bufInv ''tail'' s"
  then show "bufInv ''tail'' (bufStep s e)" by (cases e) (simp_all only: enqueue_inv dequeue_inv adjust_inv simp_thms)
qed

interpretation head_buffer: locked_object bufStep "bufInv ''head''"
proof unfold_locales
  fix s :: "'a BufferRun" and e
  assume "bufInv ''head'' s"
  then show "bufInv ''head'' (bufStep s e)" by (cases e) (simp_all only: enqueue_inv dequeue_inv adjust_inv simp_thms)
qed

lemma bufInv_start: "bufInv policy (startRun now policy)"
  by (simp add: bufInv_def startRun_def newAdaptiveBuffer_def sizeOk_def fifoOk_def)

text \<open> In every history of calls with either of the drop policies \<open>tail\<close> and \<open>head\<close>: the capacity stays between 16 and 238,
  whatever the adjustments; the buffer never holds more than 238 items and \<open>currentSize\<close> is their number; and the accepted
  items are those gone followed by those in the buffer, in order, where the items gone are a merge of those
  taken by consumers and those dropped.  With the policy \<open>tail\<close> of the program nothing that was accepted is ever
  dropped, so consumers receive exactly the accepted items, first in first out.\<close>

theorem adaptive_buffer_bounded_fifo:
  assumes "policy = ''tail'' \<or> policy = ''head''"
  shows "let s = run bufStep (startRun now policy) ops; b = br_buffer s
    in 16 \<le> ab_maxSize b \<and> ab_maxSize b \<le> 238 \<and> length (ab_data b) \<le> 238 \<and> ab_currentSize b = int (length (ab_data b)) \<and>
       (\<exists>gone \<in> shuffles (br_taken s) (br_dropped s). br_accepted s = gone @ ab_data b) \<and>
       (policy = ''tail'' \<longrightarrow> br_accepted s = br_taken s @ ab_data b)"
proof -
  define s where "s = run bufStep (startRun now policy) ops"
  have "bufInv policy s"
    using assms tail_buffer.inv_run [OF bufInv_start] head_buffer.inv_run [OF bufInv_start] unfolding s_def by blast
  moreover from this have "policy = ''tail'' \<longrightarrow> br_accepted s = br_taken s @ ab_data (br_buffer s)"
    by (auto simp: bufInv_def fifoOk_def)
  ultimately show ?thesis unfolding s_def [symmetric] by (auto simp: Let_def bufInv_def sizeOk_def fifoOk_def)
qed

theorem adaptive_buffer_bounded_fifo_witness:
  "let s = run bufStep (startRun 0 ''tail'') [Enqueue (1::int), Enqueue 2, Dequeue, Adjust 5, Enqueue 3]
   in br_accepted s = [1, 2, 3] \<and> br_taken s @ ab_data (br_buffer s) = [1, 2, 3]"
proof -
  have "br_accepted (run bufStep (startRun 0 ''tail'') [Enqueue (1::int), Enqueue 2, Dequeue, Adjust 5, Enqueue 3]) = [1, 2, 3]"
    by code_simp
  then show ?thesis
    using adaptive_buffer_bounded_fifo [of "''tail''" 0 "[Enqueue (1::int), Enqueue 2, Dequeue, Adjust 5, Enqueue 3]"]
    by (simp add: Let_def del: run.simps)
qed

text \<open>The declaration of the buffer names a third policy, \<open>random\<close>, for which \<open>enqueue\<close> has no branch: a full buffer grows.\<close>

lemma random_append: "ab_dropPolicy b = ''random'' \<Longrightarrow> snd (enqueue item b) = appendItem item b"
  by (simp add: enqueue_def)

theorem random_policy_unbounded:
  "length (ab_data (br_buffer (run bufStep (startRun now ''random'') (replicate n (Enqueue x))))) = n"
proof -
  have "ab_dropPolicy (br_buffer (run bufStep (startRun now ''random'') (replicate n (Enqueue x)))) = ''random'' \<and>
    length (ab_data (br_buffer (run bufStep (startRun now ''random'') (replicate n (Enqueue x))))) = n"
  proof (induction n)
    case 0
    then show ?case by (simp add: startRun_def newAdaptiveBuffer_def)
  next
    case (Suc n)
    have "replicate (Suc n) (Enqueue x) = replicate n (Enqueue x) @ [Enqueue x]" by (simp add: replicate_append_same)
    then show ?case using Suc by (simp only: run_append) (simp add: random_append appendItem_def case_prod_beta Let_def)
  qed
  then show ?thesis by simp
qed

end
