(* ===== verification/MessageBus.thy ===== *)
theory MessageBus
  imports GoPrelude
begin

unbundle bit_operations_syntax

text \<open>
  The message bus of \<open>src/solutions/solution18_message_bus.go\<close>: topics with partitioned logs, consumer groups with
  rebalancing, transactions, and consumption with retries and a dead-letter queue.  Operations on a partition, a
  group or the offsets hold the corresponding mutex and are one step; consuming a partition is one step, since the
  messages are read once under the lock and a partition is assigned to one consumer of a group.  Clock readings, the
  orders in which maps are iterated, and the outcome of every attempt of a handler (an error, a panic or a timeout counts as
  a failure) are arguments.  The configuration of a topic other than the number of its partitions, and message
  headers, are never read and left out.  \<open>None\<close> is a panic (a topic without partitions).

  Shown: the messages of a key are in one partition, in the order in which they were sent; a group handles every message of a
  partition at most once successfully and in order, and none is skipped that is not in the dead-letter queue; and a
  rebalance gives every partition of a subscribed topic to exactly one active consumer.
\<close>

section \<open>Data\<close>

type_synonym bytes = "8 word list"

record Message =
  ms_ID :: string
  ms_Topic :: string
  ms_Partition :: int
  ms_Offset :: int
  ms_Key :: bytes
  ms_Value :: bytes
  ms_Timestamp :: gotime

record Partition =
  pt_ID :: int
  pt_Messages :: "Message list"
  pt_Offset :: int
  pt_replicas :: "Message list list"

record Consumer =
  cn_ID :: string
  cn_GroupID :: string
  cn_Topics :: "string list"
  cn_Heartbeat :: gotime
  cn_Active :: bool

record ConsumerGroup =
  cg_ID :: string
  cg_Consumers :: "string \<rightharpoonup> Consumer"
  cg_Assignments :: "string \<rightharpoonup> (nat \<rightharpoonup> string)"
  cg_Generation :: int

datatype TxState = Pending | Committed | Aborted

record Transaction =
  tx_ID :: string
  tx_State :: TxState
  tx_Messages :: "Message list"
  tx_Timestamp :: gotime

text \<open>A topic is the list of its partitions; \<open>mb_handled\<close> records the successful calls of the handlers.\<close>

record MessageBus =
  mb_topics :: "string \<rightharpoonup> Partition list"
  mb_groups :: "string \<rightharpoonup> ConsumerGroup"
  mb_offsets :: "string \<rightharpoonup> (string \<rightharpoonup> (nat \<rightharpoonup> int))"
  mb_transactions :: "string \<rightharpoonup> Transaction"
  mb_dlq :: "Message list"
  mb_handled :: "(string \<times> Message) list"

definition newMessageBus :: MessageBus where
  "newMessageBus = \<lparr>mb_topics = Map.empty, mb_groups = Map.empty, mb_offsets = Map.empty, mb_transactions = Map.empty, mb_dlq = [], mb_handled = []\<rparr>"

datatype BusError =
    TopicExists string | TopicNotFound string | InvalidPartition int | GroupExists string | GroupNotFound string
  | ConsumerNotFound string | TxNotFound string | TxNotPending string | InvalidTopicOrPartition

section \<open>Topics and sending\<close>

definition emptyPartition :: "nat \<Rightarrow> Partition" where
  "emptyPartition i = \<lparr>pt_ID = int i, pt_Messages = [], pt_Offset = 0, pt_replicas = []\<rparr>"

definition createTopic :: "string \<Rightarrow> int \<Rightarrow> MessageBus \<Rightarrow> ((BusError + unit) \<times> MessageBus) option" where
  "createTopic name numPartitions mb =
     (case mb_topics mb name of
        Some _ \<Rightarrow> Some (Inl (TopicExists name), mb)
      | None \<Rightarrow>
          (if numPartitions < 0 then None
           else Some (Inr (), mb\<lparr>mb_topics := (mb_topics mb)(name \<mapsto> map emptyPartition [0..<nat numPartitions])\<rparr>)))"

text \<open>\<open>hash/fnv\<close>, 32 bit, variant 1a; the remainder of Go takes the sign of the dividend.\<close>

definition fnv32a :: "bytes \<Rightarrow> u32" where
  "fnv32a key = foldl (\<lambda>h b. (h XOR ucast b) * 16777619) 2166136261 key"

definition goRem :: "int \<Rightarrow> int \<Rightarrow> int" where
  "goRem a b = (if a \<ge> 0 then a mod b else - ((- a) mod b))"

definition selectPartition :: "gotime \<Rightarrow> bytes \<Rightarrow> nat \<Rightarrow> int option" where
  "selectPartition now key numPartitions =
     (if length key = 0 then (if numPartitions = 0 then None else Some (goRem now (int numPartitions)))
      else (if (of_nat numPartitions :: u32) = 0 then None
            else (let part = uint (fnv32a key mod of_nat numPartitions)
                  in Some (if part < 0 then - part else part))))"

definition replicateMessage :: "Message \<Rightarrow> Partition \<Rightarrow> Partition" where
  "replicateMessage message part = part\<lparr>pt_replicas := map (\<lambda>r. r @ [message]) (pt_replicas part)\<rparr>"

definition newMessage :: "gotime \<Rightarrow> string \<Rightarrow> int \<Rightarrow> bytes \<Rightarrow> bytes \<Rightarrow> Partition \<Rightarrow> Message" where
  "newMessage now topicName partitionID key value part =
     \<lparr>ms_ID = topicName @ ''-'' @ itoa partitionID @ ''-'' @ itoa (pt_Offset part), ms_Topic = topicName, ms_Partition = partitionID,
      ms_Offset = pt_Offset part, ms_Key = key, ms_Value = value, ms_Timestamp = now\<rparr>"

definition appendMessage :: "Message \<Rightarrow> Partition \<Rightarrow> Partition" where
  "appendMessage message part =
     part\<lparr>pt_Messages := pt_Messages part @ [message], pt_Offset := i64 (pt_Offset part + 1)\<rparr>"

definition send :: "gotime \<Rightarrow> gotime \<Rightarrow> string \<Rightarrow> bytes \<Rightarrow> bytes \<Rightarrow> MessageBus \<Rightarrow> ((BusError + unit) \<times> MessageBus) option" where
  "send selNow now topicName key value mb =
     (case mb_topics mb topicName of
        None \<Rightarrow> Some (Inl (TopicNotFound topicName), mb)
      | Some partitions \<Rightarrow>
          (case selectPartition selNow key (length partitions) of
             None \<Rightarrow> None
           | Some partitionID \<Rightarrow>
               (if partitionID < 0 \<or> partitionID \<ge> int (length partitions) then Some (Inl (InvalidPartition partitionID), mb)
                else (let part = partitions ! nat partitionID;
                          message = newMessage now topicName partitionID key value part;
                          part' = replicateMessage message (appendMessage message part)
                      in Some (Inr (), mb\<lparr>mb_topics := (mb_topics mb)(topicName \<mapsto> partitions[nat partitionID := part'])\<rparr>)))))"

section \<open>Consumer groups\<close>

definition createConsumerGroup :: "string \<Rightarrow> MessageBus \<Rightarrow> (BusError + unit) \<times> MessageBus" where
  "createConsumerGroup groupID mb =
     (case mb_groups mb groupID of
        Some _ \<Rightarrow> (Inl (GroupExists groupID), mb)
      | None \<Rightarrow>
          (Inr (), mb\<lparr>mb_groups := (mb_groups mb)(groupID \<mapsto>
                        \<lparr>cg_ID = groupID, cg_Consumers = Map.empty, cg_Assignments = Map.empty, cg_Generation = 0\<rparr>),
                      mb_offsets := (mb_offsets mb)(groupID \<mapsto> Map.empty)\<rparr>))"

definition joinGroup :: "gotime \<Rightarrow> string \<Rightarrow> string \<Rightarrow> string list \<Rightarrow> MessageBus \<Rightarrow> (BusError + unit) \<times> MessageBus" where
  "joinGroup now groupID consumerID topics mb =
     (case mb_groups mb groupID of
        None \<Rightarrow> (Inl (GroupNotFound groupID), mb)
      | Some grp \<Rightarrow>
          (Inr (), mb\<lparr>mb_groups := (mb_groups mb)(groupID \<mapsto> grp\<lparr>cg_Consumers := (cg_Consumers grp)(consumerID \<mapsto>
             \<lparr>cn_ID = consumerID, cn_GroupID = groupID, cn_Topics = topics, cn_Heartbeat = now, cn_Active = True\<rparr>)\<rparr>)\<rparr>))"

text \<open>\<open>rebalance\<close>: the partitions of the topics of the active consumers, in the order \<open>ids\<close> in which the map of consumers is
  iterated; the active consumers in the order \<open>ids'\<close> of the second iteration; then the assignment, in the order
  \<open>topicOrder\<close>.\<close>

definition addTopic :: "(string \<rightharpoonup> Partition list) \<Rightarrow> string \<Rightarrow> (string \<rightharpoonup> nat list) \<Rightarrow> (string \<rightharpoonup> nat list)" where
  "addTopic topics topicName tps =
     (case topics topicName of
        None \<Rightarrow> tps
      | Some [] \<Rightarrow> tps
      | Some partitions \<Rightarrow> tps(topicName \<mapsto> (case tps topicName of None \<Rightarrow> [] | Some ps \<Rightarrow> ps) @ [0..<length partitions]))"

definition isActive :: "(string \<rightharpoonup> Consumer) \<Rightarrow> string \<Rightarrow> bool" where
  "isActive consumers cid = (case consumers cid of None \<Rightarrow> False | Some c \<Rightarrow> cn_Active c)"

definition collectPartitions :: "(string \<rightharpoonup> Partition list) \<Rightarrow> (string \<rightharpoonup> Consumer) \<Rightarrow> string list \<Rightarrow> (string \<rightharpoonup> nat list)" where
  "collectPartitions topics consumers ids =
     fold (\<lambda>cid tps. if isActive consumers cid then fold (addTopic topics) (cn_Topics (the (consumers cid))) tps else tps) ids Map.empty"

text \<open>The partitions of one topic, from the running index of the consumers on; then all topics.\<close>

fun assignPartitions :: "string list \<Rightarrow> nat list \<Rightarrow> nat \<Rightarrow> (nat \<rightharpoonup> string) \<Rightarrow> (nat \<rightharpoonup> string) \<times> nat" where
  "assignPartitions active [] consumerIndex m = (m, consumerIndex)"
| "assignPartitions active (p # ps) consumerIndex m =
     assignPartitions active ps (consumerIndex + 1) (m(p \<mapsto> active ! (consumerIndex mod length active)))"

fun assignTopics :: "string list \<Rightarrow> (string \<rightharpoonup> nat list) \<Rightarrow> string list \<Rightarrow> nat \<Rightarrow> (string \<rightharpoonup> (nat \<rightharpoonup> string)) \<Rightarrow> (string \<rightharpoonup> (nat \<rightharpoonup> string))" where
  "assignTopics active tps [] consumerIndex as = as"
| "assignTopics active tps (t # ts) consumerIndex as =
     (let (m, consumerIndex') = assignPartitions active (the (tps t)) consumerIndex (case as t of None \<Rightarrow> Map.empty | Some m \<Rightarrow> m)
      in assignTopics active tps ts consumerIndex' (as(t \<mapsto> m)))"

definition rebalanceGroup :: "string list \<Rightarrow> string list \<Rightarrow> string list \<Rightarrow> (string \<rightharpoonup> Partition list) \<Rightarrow> ConsumerGroup \<Rightarrow> ConsumerGroup" where
  "rebalanceGroup ids ids' topicOrder topics grp =
     (let grp' = grp\<lparr>cg_Generation := i32 (cg_Generation grp + 1)\<rparr>;
          tps = collectPartitions topics (cg_Consumers grp) ids;
          active = filter (isActive (cg_Consumers grp)) ids'
      in if length active = 0 then grp'
         else grp'\<lparr>cg_Assignments := assignTopics active tps topicOrder 0 Map.empty\<rparr>)"

definition rebalance :: "string list \<Rightarrow> string list \<Rightarrow> string list \<Rightarrow> string \<Rightarrow> MessageBus \<Rightarrow> MessageBus" where
  "rebalance ids ids' topicOrder groupID mb =
     (case mb_groups mb groupID of
        None \<Rightarrow> mb
      | Some grp \<Rightarrow> mb\<lparr>mb_groups := (mb_groups mb)(groupID \<mapsto> rebalanceGroup ids ids' topicOrder (mb_topics mb) grp)\<rparr>)"

text \<open>The health check of one group; the rebalance that it starts is a later step.\<close>

definition checkGroupHealth :: "gotime \<Rightarrow> string \<Rightarrow> MessageBus \<Rightarrow> MessageBus" where
  "checkGroupHealth now groupID mb =
     (case mb_groups mb groupID of
        None \<Rightarrow> mb
      | Some grp \<Rightarrow> mb\<lparr>mb_groups := (mb_groups mb)(groupID \<mapsto> grp\<lparr>cg_Consumers :=
          (\<lambda>cid. map_option (\<lambda>c. if cn_Active c \<and> now - cn_Heartbeat c > 30 * 1000000000 then c\<lparr>cn_Active := False\<rparr> else c) (cg_Consumers grp cid))\<rparr>)\<rparr>)"

section \<open>Transactions\<close>

definition beginTransaction :: "gotime \<Rightarrow> gotime \<Rightarrow> MessageBus \<Rightarrow> string \<times> MessageBus" where
  "beginTransaction idNow now mb =
     (let txID = ''tx-'' @ itoa idNow
      in (txID, mb\<lparr>mb_transactions := (mb_transactions mb)(txID \<mapsto> \<lparr>tx_ID = txID, tx_State = Pending, tx_Messages = [], tx_Timestamp = now\<rparr>)\<rparr>))"

definition sendTransactional :: "gotime \<Rightarrow> string \<Rightarrow> string \<Rightarrow> bytes \<Rightarrow> bytes \<Rightarrow> MessageBus \<Rightarrow> (BusError + unit) \<times> MessageBus" where
  "sendTransactional now txID topicName key value mb =
     (case mb_transactions mb txID of
        None \<Rightarrow> (Inl (TxNotFound txID), mb)
      | Some tx \<Rightarrow>
          (if tx_State tx \<noteq> Pending then (Inl (TxNotPending txID), mb)
           else (Inr (), mb\<lparr>mb_transactions := (mb_transactions mb)(txID \<mapsto> tx\<lparr>tx_Messages := tx_Messages tx @
             [\<lparr>ms_ID = '''', ms_Topic = topicName, ms_Partition = 0, ms_Offset = 0, ms_Key = key, ms_Value = value, ms_Timestamp = now\<rparr>]\<rparr>)\<rparr>)))"

text \<open>\<open>CommitTransaction\<close>: the change of the state and the loop, with the clock readings \<open>clock i\<close> of the \<open>i\<close>-th send.\<close>

definition setTxState :: "TxState \<Rightarrow> string \<Rightarrow> MessageBus \<Rightarrow> MessageBus" where
  "setTxState st txID mb =
     mb\<lparr>mb_transactions := (case mb_transactions mb txID of
        None \<Rightarrow> mb_transactions mb | Some tx \<Rightarrow> (mb_transactions mb)(txID \<mapsto> tx\<lparr>tx_State := st\<rparr>))\<rparr>"

fun sendAll :: "string \<Rightarrow> (nat \<Rightarrow> gotime \<times> gotime) \<Rightarrow> nat \<Rightarrow> Message list \<Rightarrow> MessageBus \<Rightarrow> ((BusError + unit) \<times> MessageBus) option" where
  "sendAll txID clock i [] mb = Some (Inr (), mb)"
| "sendAll txID clock i (msg # msgs) mb =
     (case send (fst (clock i)) (snd (clock i)) (ms_Topic msg) (ms_Key msg) (ms_Value msg) mb of
        None \<Rightarrow> None
      | Some (Inl e, mb') \<Rightarrow> Some (Inl e, setTxState Aborted txID mb')
      | Some (Inr _, mb') \<Rightarrow> sendAll txID clock (i + 1) msgs mb')"

definition commitTransaction :: "(nat \<Rightarrow> gotime \<times> gotime) \<Rightarrow> string \<Rightarrow> MessageBus \<Rightarrow> ((BusError + unit) \<times> MessageBus) option" where
  "commitTransaction clock txID mb =
     (case mb_transactions mb txID of
        None \<Rightarrow> Some (Inl (TxNotFound txID), mb)
      | Some tx \<Rightarrow> sendAll txID clock 0 (tx_Messages tx) (setTxState Committed txID mb))"

section \<open>Consuming\<close>

definition lastOffset :: "string \<Rightarrow> string \<Rightarrow> nat \<Rightarrow> MessageBus \<Rightarrow> int" where
  "lastOffset groupID topicName partitionID mb =
     (case mb_offsets mb groupID of
        None \<Rightarrow> 0
      | Some topicOffsets \<Rightarrow> (case topicOffsets topicName of None \<Rightarrow> 0 | Some partitionOffsets \<Rightarrow> get0 partitionOffsets partitionID))"

definition commitOffset :: "string \<Rightarrow> string \<Rightarrow> nat \<Rightarrow> int \<Rightarrow> MessageBus \<Rightarrow> MessageBus" where
  "commitOffset groupID topicName partitionID offset mb =
     (let topicOffsets = (case mb_offsets mb groupID of None \<Rightarrow> Map.empty | Some m \<Rightarrow> m);
          partitionOffsets = (case topicOffsets topicName of None \<Rightarrow> Map.empty | Some m \<Rightarrow> m)
      in mb\<lparr>mb_offsets := (mb_offsets mb)(groupID \<mapsto> topicOffsets(topicName \<mapsto> partitionOffsets(partitionID \<mapsto> offset)))\<rparr>)"

text \<open>The attempts at one message: whether one of the remaining ones succeeds.\<close>

fun retryLoop :: "(nat \<Rightarrow> bool) \<Rightarrow> nat \<Rightarrow> nat \<Rightarrow> bool" where
  "retryLoop attempt retryCount 0 = False"
| "retryLoop attempt retryCount (Suc left) = (if attempt retryCount then True else retryLoop attempt (retryCount + 1) left)"

definition processMessage :: "(Message \<Rightarrow> nat \<Rightarrow> bool) \<Rightarrow> string \<Rightarrow> string \<Rightarrow> nat \<Rightarrow> Message \<Rightarrow> MessageBus \<Rightarrow> MessageBus" where
  "processMessage attempt groupID topicName partitionID msg mb =
     (if retryLoop (attempt msg) 0 3
      then (commitOffset groupID topicName partitionID (i64 (ms_Offset msg + 1)) mb)\<lparr>mb_handled := mb_handled mb @ [(groupID, msg)]\<rparr>
      else mb\<lparr>mb_dlq := mb_dlq mb @ [msg]\<rparr>)"

definition consumePartition :: "(Message \<Rightarrow> nat \<Rightarrow> bool) \<Rightarrow> string \<Rightarrow> string \<Rightarrow> nat \<Rightarrow> MessageBus \<Rightarrow> (BusError + unit) \<times> MessageBus" where
  "consumePartition attempt groupID topicName partitionID mb =
     (case mb_topics mb topicName of
        None \<Rightarrow> (Inl InvalidTopicOrPartition, mb)
      | Some partitions \<Rightarrow>
          (if partitionID \<ge> length partitions then (Inl InvalidTopicOrPartition, mb)
           else (Inr (), fold (processMessage attempt groupID topicName partitionID)
              (filter (\<lambda>msg. ms_Offset msg \<ge> lastOffset groupID topicName partitionID mb) (pt_Messages (partitions ! partitionID))) mb)))"

text \<open>The partitions of a consumer in the order in which the copied assignments are iterated.\<close>

definition assignedTo :: "ConsumerGroup \<Rightarrow> string \<Rightarrow> (string \<times> nat) list \<Rightarrow> (string \<times> nat) list" where
  "assignedTo grp consumerID order =
     filter (\<lambda>(t, p). case cg_Assignments grp t of None \<Rightarrow> False | Some m \<Rightarrow> m p = Some consumerID) order"

definition consumeWithRetry :: "(Message \<Rightarrow> nat \<Rightarrow> bool) \<Rightarrow> (string \<times> nat) list \<Rightarrow> string \<Rightarrow> string \<Rightarrow> MessageBus \<Rightarrow> (BusError + unit) \<times> MessageBus" where
  "consumeWithRetry attempt order groupID consumerID mb =
     (case mb_groups mb groupID of
        None \<Rightarrow> (Inl (GroupNotFound groupID), mb)
      | Some grp \<Rightarrow>
          (case cg_Consumers grp consumerID of
             None \<Rightarrow> (Inl (ConsumerNotFound consumerID), mb)
           | Some _ \<Rightarrow> (Inr (), fold (\<lambda>(t, p) mb. snd (consumePartition attempt groupID t p mb)) (assignedTo grp consumerID order) mb)))"

section \<open>Logs\<close>

text \<open>The log of a partition; a topic or partition that does not exist has none.\<close>

definition messagesOf :: "string \<Rightarrow> nat \<Rightarrow> MessageBus \<Rightarrow> Message list" where
  "messagesOf t p mb = (case mb_topics mb t of None \<Rightarrow> [] | Some ps \<Rightarrow> if p < length ps then pt_Messages (ps ! p) else [])"

definition nextOffset :: "string \<Rightarrow> nat \<Rightarrow> MessageBus \<Rightarrow> int" where
  "nextOffset t p mb = (case mb_topics mb t of None \<Rightarrow> 0 | Some ps \<Rightarrow> if p < length ps then pt_Offset (ps ! p) else 0)"

definition handledOf :: "string \<Rightarrow> string \<Rightarrow> nat \<Rightarrow> MessageBus \<Rightarrow> Message list" where
  "handledOf g t p mb = map snd (filter (\<lambda>(g', m). g' = g \<and> ms_Topic m = t \<and> ms_Partition m = int p) (mb_handled mb))"

text \<open>Up to \<open>2\<^sup>6\<^sup>2\<close> messages the offsets of a partition are the positions.\<close>

abbreviation smallLog :: "Message list \<Rightarrow> bool" where
  "smallLog msgs \<equiv> length msgs \<le> 2 ^ 62"

definition logOk :: "string \<Rightarrow> nat \<Rightarrow> MessageBus \<Rightarrow> bool" where
  "logOk t p mb \<longleftrightarrow> (\<forall>m \<in> set (messagesOf t p mb). ms_Topic m = t \<and> ms_Partition m = int p) \<and>
     (smallLog (messagesOf t p mb) \<longrightarrow>
        map ms_Offset (messagesOf t p mb) = map int [0..<length (messagesOf t p mb)] \<and> nextOffset t p mb = int (length (messagesOf t p mb)))"

text \<open>The progress of a group up to position \<open>k\<close> of a log: handled in order, the committed offset behind the last
  handled message, and every message before \<open>k\<close> handled or in the dead-letter queue.\<close>

definition progress :: "Message list \<Rightarrow> int \<Rightarrow> Message list \<Rightarrow> Message list \<Rightarrow> nat \<Rightarrow> bool" where
  "progress msgs c handled dlq k \<longleftrightarrow> 0 \<le> c \<and> c \<le> int k \<and> k \<le> length msgs \<and> sorted_wrt (<) (map ms_Offset handled) \<and>
     (\<forall>m \<in> set handled. m \<in> set msgs \<and> ms_Offset m < c) \<and> (\<forall>i < k. msgs ! i \<in> set handled \<union> set dlq)"

definition consOk :: "string \<Rightarrow> string \<Rightarrow> nat \<Rightarrow> MessageBus \<Rightarrow> bool" where
  "consOk g t p mb \<longleftrightarrow> (smallLog (messagesOf t p mb) \<longrightarrow>
     progress (messagesOf t p mb) (lastOffset g t p mb) (handledOf g t p mb) (mb_dlq mb) (nat (lastOffset g t p mb)))"

definition unused :: "string \<Rightarrow> MessageBus \<Rightarrow> bool" where
  "unused g mb \<longleftrightarrow> (\<forall>t p. lastOffset g t p mb = 0 \<and> handledOf g t p mb = [])"

definition busInv :: "MessageBus \<Rightarrow> bool" where
  "busInv mb \<longleftrightarrow> (\<forall>t p. logOk t p mb \<and> (\<forall>g. consOk g t p mb)) \<and> (\<forall>g. mb_groups mb g = None \<longrightarrow> unused g mb)"

lemma busInv_log: "busInv mb \<Longrightarrow> logOk t p mb"
  by (simp add: busInv_def)

lemma busInv_cons: "busInv mb \<Longrightarrow> consOk g t p mb"
  by (simp add: busInv_def)

lemma busInv_unused: "busInv mb \<Longrightarrow> mb_groups mb g = None \<Longrightarrow> unused g mb"
  by (simp add: busInv_def)

lemma busInvI:
  "(\<And>t p. logOk t p mb) \<Longrightarrow> (\<And>g t p. consOk g t p mb) \<Longrightarrow> (\<And>g. mb_groups mb g = None \<Longrightarrow> unused g mb) \<Longrightarrow> busInv mb"
  by (simp add: busInv_def)

text \<open>Operations that change none of this.\<close>

definition sameLogs :: "MessageBus \<Rightarrow> MessageBus \<Rightarrow> bool" where
  "sameLogs mb mb' \<longleftrightarrow> (\<forall>t p. messagesOf t p mb' = messagesOf t p mb \<and> nextOffset t p mb' = nextOffset t p mb) \<and>
     (\<forall>g t p. lastOffset g t p mb' = lastOffset g t p mb) \<and> mb_handled mb' = mb_handled mb \<and> mb_dlq mb' = mb_dlq mb \<and>
     (\<forall>g. mb_groups mb' g = None \<longrightarrow> mb_groups mb g = None)"

lemma sameLogs_refl: "sameLogs mb mb"
  by (simp add: sameLogs_def)

lemma sameLogs_inv:
  assumes same: "sameLogs mb mb'" and inv: "busInv mb"
  shows "busInv mb'"
proof (rule busInvI)
  have eq: "messagesOf t p mb' = messagesOf t p mb" "nextOffset t p mb' = nextOffset t p mb" "lastOffset g t p mb' = lastOffset g t p mb"
    "handledOf g t p mb' = handledOf g t p mb" "mb_dlq mb' = mb_dlq mb" for g t p
    using same by (simp_all add: sameLogs_def handledOf_def)
  show "logOk t p mb'" for t p using busInv_log [OF inv, of t p] by (simp add: logOk_def eq)
  show "consOk g t p mb'" for g t p using busInv_cons [OF inv, of g t p] by (simp add: consOk_def eq)
  show "unused g mb'" if "mb_groups mb' g = None" for g
    using busInv_unused [OF inv, of g] that same by (simp add: unused_def eq sameLogs_def)
qed

lemma sameLogs_fields:
  "mb_topics mb' = mb_topics mb \<Longrightarrow> mb_offsets mb' = mb_offsets mb \<Longrightarrow> mb_handled mb' = mb_handled mb \<Longrightarrow> mb_dlq mb' = mb_dlq mb \<Longrightarrow>
   (\<And>g. mb_groups mb' g = None \<Longrightarrow> mb_groups mb g = None) \<Longrightarrow> sameLogs mb mb'"
  by (simp add: sameLogs_def messagesOf_def nextOffset_def lastOffset_def)

lemma createTopic_same: "createTopic name n mb = Some (r, mb') \<Longrightarrow> sameLogs mb mb'"
  by (auto simp: createTopic_def sameLogs_def messagesOf_def nextOffset_def lastOffset_def emptyPartition_def split: option.splits if_splits)

lemma joinGroup_same: "sameLogs mb (snd (joinGroup now g c ts mb))"
  by (auto simp: joinGroup_def sameLogs_refl split: option.splits if_splits intro!: sameLogs_fields)

lemma rebalance_same: "sameLogs mb (rebalance ids ids' ts g mb)"
  by (auto simp: rebalance_def sameLogs_refl split: option.splits if_splits intro!: sameLogs_fields)

lemma health_same: "sameLogs mb (checkGroupHealth now g mb)"
  by (auto simp: checkGroupHealth_def sameLogs_refl split: option.splits if_splits intro!: sameLogs_fields)

lemma transactions_same:
  "sameLogs mb (snd (beginTransaction idNow now mb))" "sameLogs mb (snd (sendTransactional now tx t k v mb))" "sameLogs mb (setTxState st tx mb)"
  by (auto simp: beginTransaction_def sendTransactional_def setTxState_def Let_def sameLogs_refl split: option.splits intro!: sameLogs_fields)

lemma createGroup_inv: "busInv mb \<Longrightarrow> busInv (snd (createConsumerGroup g mb))"
proof (cases "mb_groups mb g")
  case None
  assume inv: "busInv mb"
  have "unused g mb" by (rule busInv_unused [OF inv None])
  then have "lastOffset g' t p (snd (createConsumerGroup g mb)) = lastOffset g' t p mb" for g' t p
    by (simp add: createConsumerGroup_def None unused_def lastOffset_def)
  then have "sameLogs mb (snd (createConsumerGroup g mb))"
    by (simp add: sameLogs_def) (simp add: createConsumerGroup_def None messagesOf_def nextOffset_def)
  then show ?thesis using inv by (rule sameLogs_inv)
qed (simp add: createConsumerGroup_def)

subsection \<open>Sending\<close>

text \<open>A send fails without effect, or appends one message to one log.\<close>

lemma send_cases:
  assumes "send selNow now t k v mb = Some (r, mb')"
  obtains (fails) e where "r = Inl e" "mb' = mb"
  | (appends) ps q where "r = Inr ()" "mb_topics mb t = Some ps" "q < length ps" "selectPartition selNow k (length ps) = Some (int q)"
      "mb_topics mb' = (mb_topics mb)(t \<mapsto> ps[q := replicateMessage (newMessage now t (int q) k v (ps ! q)) (appendMessage (newMessage now t (int q) k v (ps ! q)) (ps ! q))])"
      "mb_offsets mb' = mb_offsets mb" "mb_handled mb' = mb_handled mb" "mb_dlq mb' = mb_dlq mb" "mb_groups mb' = mb_groups mb" "mb_transactions mb' = mb_transactions mb"
proof (cases "r = Inr ()")
  case False
  then show ?thesis using assms fails by (auto simp: send_def Let_def split: option.splits if_splits)
next
  case True
  then obtain ps pid where ps: "mb_topics mb t = Some ps" "selectPartition selNow k (length ps) = Some pid" "0 \<le> pid" "pid < int (length ps)"
    using assms by (auto simp: send_def split: option.splits if_splits)
  then have pid: "selectPartition selNow k (length ps) = Some (int (nat pid))" "nat pid < length ps" by auto
  show ?thesis by (rule appends [OF True ps(1) pid(2,1)]) (use assms ps True in \<open>auto simp: send_def Let_def\<close>)
qed

lemma send_messages:
  assumes "mb_topics mb t = Some ps" and "q < length ps"
    and "mb_topics mb' = (mb_topics mb)(t \<mapsto> ps[q := replicateMessage m (appendMessage m (ps ! q))])"
  shows "messagesOf t' p mb' = (if t' = t \<and> p = q then messagesOf t q mb @ [m] else messagesOf t' p mb)"
    and "nextOffset t' p mb' = (if t' = t \<and> p = q then i64 (nextOffset t q mb + 1) else nextOffset t' p mb)"
  using assms by (auto simp: messagesOf_def nextOffset_def replicateMessage_def appendMessage_def nth_list_update split: option.splits)

lemma progress_append:
  assumes "progress msgs c h d k" and "k \<le> length msgs"
  shows "progress (msgs @ [m]) c h d k"
proof -
  have "(msgs @ [m]) ! i = msgs ! i" if "i < k" for i using that assms(2) by (simp add: nth_append)
  then show ?thesis using assms by (auto simp: progress_def)
qed

lemma send_inv:
  assumes inv: "busInv mb" and send: "send selNow now t k v mb = Some (r, mb')"
  shows "busInv mb'"
  using send
proof (cases rule: send_cases)
  case (fails e)
  then show ?thesis using inv by simp
next
  case (appends ps q)
  define m where "m = newMessage now t (int q) k v (ps ! q)"
  note eq = send_messages [OF appends(2,3) appends(5) [folded m_def]]
  have other: "lastOffset g t' p mb' = lastOffset g t' p mb" "handledOf g t' p mb' = handledOf g t' p mb" for g t' p
    using appends by (simp_all add: lastOffset_def handledOf_def)
  show ?thesis
  proof (rule busInvI)
    fix t' p
    show "logOk t' p mb'"
    proof (cases "t' = t \<and> p = q")
      case True
      have m: "ms_Topic m = t" "ms_Partition m = int q" "ms_Offset m = nextOffset t q mb"
        using appends(2,3) by (simp_all add: m_def newMessage_def nextOffset_def)
      have old: "logOk t q mb" by (rule busInv_log [OF inv])
      have "i64 (nextOffset t q mb + 1) = int (length (messagesOf t q mb @ [m]))"
        if "smallLog (messagesOf t q mb @ [m])"
      proof -
        have "nextOffset t q mb + 1 = int (length (messagesOf t q mb @ [m]))" using old that by (simp add: logOk_def)
        moreover have "in_i64 (int (length (messagesOf t q mb @ [m])))" using that by (intro in_i64I) simp_all
        ultimately show ?thesis by (simp only: i64_id)
      qed
      then show ?thesis using True old m unfolding logOk_def eq by auto
    next
      case False
      then show ?thesis using busInv_log [OF inv, of t' p] unfolding logOk_def eq by auto
    qed
  next
    fix g t' p
    have "consOk g t' p mb" by (rule busInv_cons [OF inv])
    then show "consOk g t' p mb'"
      using progress_append [of "messagesOf t q mb" "lastOffset g t q mb" "handledOf g t q mb" "mb_dlq mb" "nat (lastOffset g t q mb)" m]
      unfolding consOk_def eq other appends(8) by (auto simp: progress_def)
  next
    fix g
    assume "mb_groups mb' g = None"
    then show "unused g mb'" using busInv_unused [OF inv, of g] appends(9) by (simp add: unused_def other)
  qed
qed

subsection \<open>Consuming\<close>

lemma lastOffset_commit: "lastOffset g' t' p' (commitOffset g t p c mb) = (if g' = g \<and> t' = t \<and> p' = p then c else lastOffset g' t' p' mb)"
  by (auto simp: lastOffset_def commitOffset_def Let_def get0_def split: option.splits)

lemma commit_fields [simp]:
  "mb_topics (commitOffset g t p c mb) = mb_topics mb" "mb_handled (commitOffset g t p c mb) = mb_handled mb"
  "mb_dlq (commitOffset g t p c mb) = mb_dlq mb" "mb_groups (commitOffset g t p c mb) = mb_groups mb"
  by (simp_all add: commitOffset_def Let_def)

lemma process_fields [simp]:
  "mb_topics (processMessage attempt g t p m mb) = mb_topics mb" "mb_groups (processMessage attempt g t p m mb) = mb_groups mb"
  by (simp_all add: processMessage_def)

lemma fold_process_fields [simp]:
  "mb_topics (fold (processMessage attempt g t p) ms mb) = mb_topics mb" "mb_groups (fold (processMessage attempt g t p) ms mb) = mb_groups mb"
  by (induction ms arbitrary: mb) auto

lemma lastOffset_handled: "lastOffset g t p (mb\<lparr>mb_handled := h\<rparr>) = lastOffset g t p mb" "lastOffset g t p (mb\<lparr>mb_dlq := d\<rparr>) = lastOffset g t p mb"
  by (simp_all add: lastOffset_def)

text \<open>One message of the partition \<open>(t, p)\<close> for the group \<open>g\<close>: nothing changes for other groups and partitions but the dead-letter
  queue.\<close>

lemma process_other:
  assumes "ms_Topic m = t" and "ms_Partition m = int p" and "(g', t', p') \<noteq> (g, t, p)"
  shows "lastOffset g' t' p' (processMessage attempt g t p m mb) = lastOffset g' t' p' mb"
    and "handledOf g' t' p' (processMessage attempt g t p m mb) = handledOf g' t' p' mb"
  using assms by (auto simp: processMessage_def lastOffset_commit lastOffset_handled handledOf_def)

lemma process_dlq: "set (mb_dlq mb) \<subseteq> set (mb_dlq (processMessage attempt g t p m mb))"
  by (simp add: processMessage_def) blast

lemma process_this:
  assumes "ms_Topic m = t" and "ms_Partition m = int p"
  shows "lastOffset g t p (processMessage attempt g t p m mb) = (if retryLoop (attempt m) 0 3 then i64 (ms_Offset m + 1) else lastOffset g t p mb)"
    and "handledOf g t p (processMessage attempt g t p m mb) = handledOf g t p mb @ (if retryLoop (attempt m) 0 3 then [m] else [])"
    and "mb_dlq (processMessage attempt g t p m mb) = mb_dlq mb @ (if retryLoop (attempt m) 0 3 then [] else [m])"
  using assms by (simp_all add: processMessage_def lastOffset_commit lastOffset_handled handledOf_def)

lemma progress_process:
  assumes pr: "progress msgs (lastOffset g t p mb) (handledOf g t p mb) (mb_dlq mb) k" and k: "k < length msgs"
    and m: "ms_Topic (msgs ! k) = t" "ms_Partition (msgs ! k) = int p" and off: "ms_Offset (msgs ! k) = int k" and small: "smallLog msgs"
    and mb'_def: "mb' = processMessage attempt g t p (msgs ! k) mb"
  shows "progress msgs (lastOffset g t p mb') (handledOf g t p mb') (mb_dlq mb') (Suc k)"
proof -
  have i: "i64 (int k + 1) = int k + 1" using k small by (intro i64_id in_i64I) simp_all
  have before: "\<forall>i < k. msgs ! i \<in> set (handledOf g t p mb) \<union> set (mb_dlq mb)" and sorted: "sorted_wrt (<) (map ms_Offset (handledOf g t p mb))"
    and c: "0 \<le> lastOffset g t p mb" "lastOffset g t p mb \<le> int k"
    and h: "\<forall>m \<in> set (handledOf g t p mb). m \<in> set msgs \<and> ms_Offset m < lastOffset g t p mb"
    using pr by (simp_all add: progress_def)
  note this' = process_this [where g = g and attempt = attempt and mb = mb, OF m, folded mb'_def]
  show ?thesis
  proof (cases "retryLoop (attempt (msgs ! k)) 0 3")
    case True
    have "sorted_wrt (<) (map ms_Offset (handledOf g t p mb @ [msgs ! k]))"
      using sorted h c off by (force simp: sorted_wrt_append)
    then show ?thesis using True this' i off k before h c by (auto simp: progress_def less_Suc_eq)
  next
    case False
    then show ?thesis using this' k before h c sorted by (auto simp: progress_def less_Suc_eq)
  qed
qed

lemma progress_fold:
  assumes "progress msgs (lastOffset g t p mb) (handledOf g t p mb) (mb_dlq mb) k" and "k \<le> length msgs"
    and "\<And>i. i < length msgs \<Longrightarrow> ms_Topic (msgs ! i) = t \<and> ms_Partition (msgs ! i) = int p \<and> ms_Offset (msgs ! i) = int i" and "smallLog msgs"
  shows "let mb' = fold (processMessage attempt g t p) (drop k msgs) mb
    in progress msgs (lastOffset g t p mb') (handledOf g t p mb') (mb_dlq mb') (length msgs)"
  using assms(1,2)
proof (induction "length msgs - k" arbitrary: k mb)
  case 0
  then show ?case by (simp add: Let_def)
next
  case (Suc n)
  then have k: "k < length msgs" by simp
  have "drop k msgs = msgs ! k # drop (Suc k) msgs" using k by (rule Cons_nth_drop_Suc [symmetric])
  moreover have "progress msgs (lastOffset g t p (processMessage attempt g t p (msgs ! k) mb)) (handledOf g t p (processMessage attempt g t p (msgs ! k) mb))
      (mb_dlq (processMessage attempt g t p (msgs ! k) mb)) (Suc k)"
    using assms(3) [OF k] assms(4) by (intro progress_process [OF Suc.prems(1) k]) simp_all
  ultimately show ?case using Suc.hyps(1) [of "Suc k"] Suc.hyps(2) k by simp
qed

lemma progress_dlq: "progress msgs c h d k \<Longrightarrow> set d \<subseteq> set d' \<Longrightarrow> progress msgs c h d' k"
  by (auto simp: progress_def)

lemma progress_committed: "progress msgs c h d k \<Longrightarrow> progress msgs c h d (nat c)"
proof -
  assume "progress msgs c h d k"
  moreover from this have "nat c \<le> k" unfolding progress_def by linarith
  ultimately show ?thesis unfolding progress_def by auto
qed

lemma filter_offsets:
  assumes "map ms_Offset msgs = map int [0..<length msgs]" and "0 \<le> c"
  shows "filter (\<lambda>m. ms_Offset m \<ge> c) msgs = drop (nat c) msgs"
proof -
  have off: "ms_Offset (msgs ! i) = int i" if "i < length msgs" for i
    using arg_cong [OF assms(1), of "\<lambda>xs. xs ! i"] that by simp
  have "filter (\<lambda>m. ms_Offset m \<ge> c) (take (nat c) msgs) = []"
    unfolding filter_empty_conv set_conv_nth using assms(2) by (auto simp: off)
  moreover have "filter (\<lambda>m. ms_Offset m \<ge> c) (drop (nat c) msgs) = drop (nat c) msgs"
    unfolding filter_id_conv set_conv_nth using assms(2) by (auto simp: off)
  ultimately show ?thesis by (metis append_Nil append_take_drop_id filter_append)
qed

lemma fold_process_other:
  assumes "\<forall>m \<in> set ms. ms_Topic m = t \<and> ms_Partition m = int p" and "(g', t', p') \<noteq> (g, t, p)"
  shows "lastOffset g' t' p' (fold (processMessage attempt g t p) ms mb) = lastOffset g' t' p' mb \<and>
    handledOf g' t' p' (fold (processMessage attempt g t p) ms mb) = handledOf g' t' p' mb"
  using assms by (induction ms arbitrary: mb) (simp_all add: process_other)

lemma fold_process_dlq: "set (mb_dlq mb) \<subseteq> set (mb_dlq (fold (processMessage attempt g t p) ms mb))"
proof (induction ms arbitrary: mb)
  case (Cons m ms)
  then show ?case using process_dlq [of mb attempt g t p m] by (metis (no_types, lifting) fold_simps(2) order_trans)
qed simp

lemma consumePartition_inv:
  assumes inv: "busInv mb" and g: "mb_groups mb g \<noteq> None"
  shows "busInv (snd (consumePartition attempt g t p mb)) \<and> mb_groups (snd (consumePartition attempt g t p mb)) = mb_groups mb"
proof (cases "\<exists>ps. mb_topics mb t = Some ps \<and> p < length ps")
  case False
  then show ?thesis using inv by (auto simp: consumePartition_def split: option.splits)
next
  case True
  define ms where "ms = filter (\<lambda>m. ms_Offset m \<ge> lastOffset g t p mb) (messagesOf t p mb)"
  define mb' where "mb' = fold (processMessage attempt g t p) ms mb"
  have res: "snd (consumePartition attempt g t p mb) = mb'"
    using True by (auto simp: consumePartition_def mb'_def ms_def messagesOf_def)
  have same: "messagesOf t' p' mb' = messagesOf t' p' mb" "nextOffset t' p' mb' = nextOffset t' p' mb" "mb_groups mb' = mb_groups mb" for t' p'
    by (simp_all add: mb'_def messagesOf_def nextOffset_def)
  have log: "logOk t p mb" by (rule busInv_log [OF inv])
  have of_p: "\<forall>m \<in> set (messagesOf t p mb). ms_Topic m = t \<and> ms_Partition m = int p" using log by (simp add: logOk_def)
  have dlq: "set (mb_dlq mb) \<subseteq> set (mb_dlq mb')" unfolding mb'_def by (rule fold_process_dlq)
  have other: "lastOffset g' t' p' mb' = lastOffset g' t' p' mb \<and> handledOf g' t' p' mb' = handledOf g' t' p' mb" if "(g', t', p') \<noteq> (g, t, p)" for g' t' p'
    unfolding mb'_def by (rule fold_process_other [OF _ that]) (use of_p in \<open>auto simp: ms_def\<close>)
  have this_p: "consOk g t p mb'"
    unfolding consOk_def same
  proof
    assume small: "smallLog (messagesOf t p mb)"
    have off: "map ms_Offset (messagesOf t p mb) = map int [0..<length (messagesOf t p mb)]" using log small by (simp add: logOk_def)
    have pr: "progress (messagesOf t p mb) (lastOffset g t p mb) (handledOf g t p mb) (mb_dlq mb) (nat (lastOffset g t p mb))"
      using busInv_cons [OF inv, of g t p] small by (simp add: consOk_def)
    then have "ms = drop (nat (lastOffset g t p mb)) (messagesOf t p mb)"
      unfolding ms_def using filter_offsets [OF off] by (simp add: progress_def)
    moreover have "ms_Topic (messagesOf t p mb ! i) = t \<and> ms_Partition (messagesOf t p mb ! i) = int p \<and> ms_Offset (messagesOf t p mb ! i) = int i"
      if "i < length (messagesOf t p mb)" for i
      using of_p that arg_cong [OF off, of "\<lambda>xs. xs ! i"] by simp
    ultimately show "progress (messagesOf t p mb) (lastOffset g t p mb') (handledOf g t p mb') (mb_dlq mb') (nat (lastOffset g t p mb'))"
      using progress_fold [where attempt = attempt, OF pr _ _ small] pr unfolding mb'_def
      by (intro progress_committed [of _ _ _ _ "length (messagesOf t p mb)"]) (simp add: progress_def Let_def)
  qed
  have "busInv mb'"
  proof (rule busInvI)
    show "logOk t' p' mb'" for t' p' using busInv_log [OF inv, of t' p'] by (simp add: logOk_def same)
    show "consOk g' t' p' mb'" for g' t' p'
    proof (cases "(g', t', p') = (g, t, p)")
      case True
      then show ?thesis using this_p by simp
    next
      case False
      then show ?thesis using busInv_cons [OF inv, of g' t' p'] other [OF False] progress_dlq [OF _ dlq] by (simp add: consOk_def same)
    qed
    show "unused g' mb'" if "mb_groups mb' g' = None" for g'
    proof -
      have "g' \<noteq> g" using that g same(3) by auto
      then show ?thesis using busInv_unused [OF inv, of g'] that other [of g'] by (simp add: unused_def same)
    qed
  qed
  then show ?thesis using res same(3) by simp
qed

lemma consumeAll_inv:
  "busInv mb \<Longrightarrow> mb_groups mb g \<noteq> None \<Longrightarrow>
   busInv (fold (\<lambda>(t, p) mb. snd (consumePartition attempt g t p mb)) tps mb)"
proof (induction tps arbitrary: mb)
  case (Cons tp tps)
  obtain t p where "tp = (t, p)" by (cases tp)
  then show ?case using Cons.IH [of "snd (consumePartition attempt g t p mb)"] consumePartition_inv [OF Cons.prems, of attempt t p] Cons.prems(2) by simp
qed simp

lemma consume_inv: "busInv mb \<Longrightarrow> busInv (snd (consumeWithRetry attempt order g c mb))"
  by (auto simp: consumeWithRetry_def intro: consumeAll_inv split: option.splits)

section \<open>Histories\<close>

text \<open>The calls; the sends of a commit are sends between \<open>OpTxState\<close> steps, with which other calls may interleave.  A panic
  ends the process.\<close>

datatype BusOp =
    OpTopic string int
  | OpGroup string
  | OpJoin gotime string string "string list"
  | OpRebalance "string list" "string list" "string list" string
  | OpHealth gotime string
  | OpSend gotime gotime string bytes bytes
  | OpBegin gotime gotime
  | OpSendTx gotime string string bytes bytes
  | OpTxState TxState string
  | OpConsume "Message \<Rightarrow> nat \<Rightarrow> bool" "(string \<times> nat) list" string string

fun busStep :: "MessageBus option \<Rightarrow> BusOp \<Rightarrow> MessageBus option" where
  "busStep None op = None"
| "busStep (Some mb) (OpTopic t n) = map_option snd (createTopic t n mb)"
| "busStep (Some mb) (OpGroup g) = Some (snd (createConsumerGroup g mb))"
| "busStep (Some mb) (OpJoin now g c ts) = Some (snd (joinGroup now g c ts mb))"
| "busStep (Some mb) (OpRebalance ids ids' ts g) = Some (rebalance ids ids' ts g mb)"
| "busStep (Some mb) (OpHealth now g) = Some (checkGroupHealth now g mb)"
| "busStep (Some mb) (OpSend selNow now t k v) = map_option snd (send selNow now t k v mb)"
| "busStep (Some mb) (OpBegin idNow now) = Some (snd (beginTransaction idNow now mb))"
| "busStep (Some mb) (OpSendTx now tx t k v) = Some (snd (sendTransactional now tx t k v mb))"
| "busStep (Some mb) (OpTxState st tx) = Some (setTxState st tx mb)"
| "busStep (Some mb) (OpConsume attempt order g c) = Some (snd (consumeWithRetry attempt order g c mb))"

interpretation bus: locked_object busStep "pred_option busInv"
proof unfold_locales
  fix s e
  assume inv: "pred_option busInv s"
  show "pred_option busInv (busStep s e)"
  proof (cases s)
    case (Some mb)
    then have inv': "busInv mb" using inv by simp
    show ?thesis
      by (cases e)
        (use inv' in \<open>auto simp: Some pred_option_def intro: createGroup_inv send_inv consume_inv
           sameLogs_inv [OF joinGroup_same] sameLogs_inv [OF rebalance_same] sameLogs_inv [OF health_same]
           sameLogs_inv [OF transactions_same(1)] sameLogs_inv [OF transactions_same(2)] sameLogs_inv [OF transactions_same(3)]
           dest: createTopic_same [THEN sameLogs_inv]\<close>)
  qed simp
qed

lemma busInv_new: "busInv newMessageBus"
  by (rule busInvI)
    (simp_all add: newMessageBus_def logOk_def consOk_def unused_def messagesOf_def nextOffset_def lastOffset_def handledOf_def progress_def)


text \<open>A topic with two partitions; the handler fails on the second message of the partition, at every attempt.\<close>

definition sampleBus :: "BusOp list" where
  "sampleBus = [OpTopic ''t'' 1, OpGroup ''g'', OpJoin 1 ''g'' ''c'' [''t''], OpRebalance [''c''] [''c''] [''t''] ''g'',
     OpSend 2 3 ''t'' [1] [10], OpSend 4 5 ''t'' [2] [20], OpSend 6 7 ''t'' [1] [30],
     OpConsume (\<lambda>m n. ms_Value m \<noteq> [20]) [(''t'', 0)] ''g'' ''c'']"


section \<open>Keys\<close>

text \<open>The partition of a key.\<close>

lemma selectPartition_key: "k \<noteq> [] \<Longrightarrow> selectPartition selNow k n = selectPartition 0 k n"
  by (simp add: selectPartition_def)

text \<open>The specification: for every topic and key the values sent with it.\<close>

type_synonym key_log = "string \<Rightarrow> bytes \<Rightarrow> bytes list"

fun keyStep :: "key_log \<Rightarrow> string \<times> bytes \<times> bytes \<Rightarrow> key_log" where
  "keyStep l (t, k, v) = (\<lambda>t' k'. if t' = t \<and> k' = k then l t k @ [v] else l t' k')"

fun sendLabel :: "MessageBus option \<Rightarrow> BusOp \<Rightarrow> (string \<times> bytes \<times> bytes) list" where
  "sendLabel (Some mb) (OpSend selNow now t k v) =
     (case send selNow now t k v mb of Some (Inr _, _) \<Rightarrow> [(t, k, v)] | _ \<Rightarrow> [])"
| "sendLabel _ _ = []"

definition valuesOf :: "bytes \<Rightarrow> Message list \<Rightarrow> bytes list" where
  "valuesOf k msgs = map ms_Value (filter (\<lambda>m. ms_Key m = k) msgs)"

definition keyOk :: "string \<Rightarrow> bytes \<Rightarrow> (string \<rightharpoonup> Partition list) \<Rightarrow> bytes list \<Rightarrow> bool" where
  "keyOk t k topics vs \<longleftrightarrow> (case topics t of
      None \<Rightarrow> vs = []
    | Some ps \<Rightarrow> (\<forall>p < length ps. valuesOf k (pt_Messages (ps ! p)) = (if selectPartition 0 k (length ps) = Some (int p) then vs else [])))"

definition keyRel :: "MessageBus option \<Rightarrow> key_log \<Rightarrow> bool" where
  "keyRel s l \<longleftrightarrow> (\<forall>mb. s = Some mb \<longrightarrow> (\<forall>t k. k \<noteq> [] \<longrightarrow> keyOk t k (mb_topics mb) (l t k)))"

lemma keyRelD: "keyRel (Some mb) l \<Longrightarrow> k \<noteq> [] \<Longrightarrow> keyOk t k (mb_topics mb) (l t k)"
  by (simp add: keyRel_def)

lemma keyRel_same: "keyRel (Some mb) l \<Longrightarrow> mb_topics mb' = mb_topics mb \<Longrightarrow> keyRel (Some mb') l"
  by (simp add: keyRel_def)

lemma keyRel_create:
  assumes "keyRel (Some mb) l" and "createTopic t n mb = Some (r, mb')"
  shows "keyRel (Some mb') l"
proof (cases "mb_topics mb t")
  case None
  then have "mb_topics mb' = (mb_topics mb)(t \<mapsto> map emptyPartition [0..<nat n])"
    using assms(2) by (auto simp: createTopic_def split: if_splits)
  moreover have "l t k = []" if "k \<noteq> []" for k using keyRelD [OF assms(1) that, of t] None by (simp add: keyOk_def)
  ultimately show ?thesis
    using assms(1) by (auto simp: keyRel_def keyOk_def emptyPartition_def valuesOf_def)
next
  case (Some ps)
  then show ?thesis using assms by (simp add: createTopic_def)
qed

lemma keyOk_send:
  assumes ok: "keyOk t' k' (mb_topics mb) vs" and k': "k' \<noteq> []" and t: "mb_topics mb t = Some ps" and q: "q < length ps"
    and sel: "selectPartition selNow k (length ps) = Some (int q)"
    and m: "ms_Key m = k" "ms_Value m = v"
  shows "keyOk t' k' ((mb_topics mb)(t \<mapsto> ps[q := replicateMessage m (appendMessage m (ps ! q))])) (if t' = t \<and> k' = k then vs @ [v] else vs)"
proof (cases "t' = t")
  case False
  then show ?thesis using ok by (simp add: keyOk_def)
next
  case True
  have old: "valuesOf k' (pt_Messages (ps ! p)) = (if selectPartition 0 k' (length ps) = Some (int p) then vs else [])" if "p < length ps" for p
    using ok True t that by (simp add: keyOk_def)
  have "valuesOf k' (pt_Messages (ps[q := replicateMessage m (appendMessage m (ps ! q))] ! p)) =
      (if selectPartition 0 k' (length ps) = Some (int p) then if k' = k then vs @ [v] else vs else [])" if p: "p < length ps" for p
  proof (cases "p = q")
    case True
    have "valuesOf k' (pt_Messages (replicateMessage m (appendMessage m (ps ! q)))) = valuesOf k' (pt_Messages (ps ! q)) @ (if k' = k then [v] else [])"
      using m by (auto simp: valuesOf_def replicateMessage_def appendMessage_def)
    moreover have "selectPartition 0 k' (length ps) = Some (int q)" if "k' = k" using that sel k' selectPartition_key [of k selNow] by simp
    ultimately show ?thesis using True old [OF p] q by simp
  next
    case False
    have "\<not> (selectPartition 0 k' (length ps) = Some (int p) \<and> k' = k)" using sel k' selectPartition_key [of k selNow] False by auto
    then show ?thesis using False old [OF p] by auto
  qed
  then show ?thesis using True by (simp add: keyOk_def)
qed

lemma consumePartition_topics [simp]: "mb_topics (snd (consumePartition attempt g t p mb)) = mb_topics mb"
  by (auto simp: consumePartition_def split: option.splits)

lemma consume_topics [unchanged]: "mb_topics (snd (consumeWithRetry attempt order g c mb)) = mb_topics mb"
proof -
  have "mb_topics (fold (\<lambda>(t, p) mb. snd (consumePartition attempt g t p mb)) tps mb) = mb_topics mb" for tps mb
    by (induction tps arbitrary: mb) auto
  then show ?thesis by (auto simp: consumeWithRetry_def split: option.splits)
qed

lemma group_topics [unchanged]:
  "mb_topics (snd (createConsumerGroup g mb)) = mb_topics mb" "mb_topics (snd (joinGroup now g c ts mb)) = mb_topics mb"
  "mb_topics (rebalance ids ids' order g mb) = mb_topics mb" "mb_topics (checkGroupHealth now g mb) = mb_topics mb"
  by (simp_all add: createConsumerGroup_def joinGroup_def rebalance_def checkGroupHealth_def split: option.splits)

lemma tx_topics [unchanged]:
  "mb_topics (snd (beginTransaction idNow now mb)) = mb_topics mb" "mb_topics (snd (sendTransactional now tx t k v mb)) = mb_topics mb"
  "mb_topics (setTxState st tx mb) = mb_topics mb"
  by (simp_all add: beginTransaction_def sendTransactional_def setTxState_def Let_def split: option.splits)

lemma keyRel_send:
  assumes rel: "keyRel (Some mb) l" and send: "send selNow now t k v mb = Some (r, mb')"
  shows "keyRel (Some mb') (run keyStep l (sendLabel (Some mb) (OpSend selNow now t k v)))"
  using send
proof (cases rule: send_cases)
  case (fails e)
  then show ?thesis using rel send by simp
next
  case (appends ps q)
  have "keyOk t' k' (mb_topics mb') (if t' = t \<and> k' = k then l t' k' @ [v] else l t' k')" if "k' \<noteq> []" for t' k'
    unfolding appends(5) by (rule keyOk_send [OF keyRelD [OF rel that] that appends(2,3,4)]) (simp_all add: newMessage_def)
  moreover have "sendLabel (Some mb) (OpSend selNow now t k v) = [(t, k, v)]" using send appends(1) by simp
  moreover have "keyStep l (t, k, v) t' k' = (if t' = t \<and> k' = k then l t' k' @ [v] else l t' k')" for t' k' by simp
  ultimately show ?thesis unfolding keyRel_def by (simp del: keyStep.simps)
qed

interpretation keys: simulation busStep "\<lambda>_ _. True" keyRel sendLabel keyStep
proof unfold_locales
  fix s l e
  assume rel: "keyRel s l"
  show "keyRel (busStep s e) (run keyStep l (sendLabel s e))"
  proof (cases s)
    case None
    then show ?thesis by (simp add: keyRel_def)
  next
    case (Some mb)
    note rel' = rel [unfolded Some]
    show ?thesis
    proof (cases e)
      case (OpTopic t n)
      then show ?thesis using keyRel_create [OF rel', of t n] by (cases "createTopic t n mb") (auto simp: Some keyRel_def [of None])
    next
      case (OpSend selNow now t k v)
      then show ?thesis using keyRel_send [OF rel', of selNow now t k v] by (cases "send selNow now t k v mb") (auto simp: Some keyRel_def [of None] simp del: sendLabel.simps(1))
    qed (simp_all add: Some keyRel_same [OF rel'] unchanged)
  qed
qed

text \<open> In every history of calls, all messages with the same non-empty key of a topic are in one partition, the one the hash of the
  key selects, and they are there in the order in which they were sent, each once: the values with that key in the log of
  that partition are exactly the values of the successful sends, and no other partition of the topic has any.\<close>

theorem bus_key_order:
  assumes "run busStep (Some newMessageBus) ops = Some mb" and "mb_topics mb t = Some ps" and "k \<noteq> []" and "p < length ps"
  shows "map ms_Value (filter (\<lambda>m. ms_Key m = k) (messagesOf t p mb)) =
    (if selectPartition 0 k (length ps) = Some (int p)
     then run keyStep (\<lambda>_ _. []) (observed busStep sendLabel (Some newMessageBus) ops) t k else [])"
proof -
  have "keyRel (Some newMessageBus) (\<lambda>_ _. [])" by (simp add: keyRel_def keyOk_def newMessageBus_def)
  then have "keyRel (Some mb) (run keyStep (\<lambda>_ _. []) (observed busStep sendLabel (Some newMessageBus) ops))"
    using keys.rel_run [of "Some newMessageBus" _ ops] by (simp add: assms(1))
  from keyRelD [OF this assms(3), of t] show ?thesis
    using assms(2,4) by (simp add: keyOk_def messagesOf_def valuesOf_def)
qed

theorem bus_key_order_witness:
  "map_option (\<lambda>mb. map ms_Value (filter (\<lambda>m. ms_Key m = [1]) (messagesOf ''t'' 0 mb))) (run busStep (Some newMessageBus) sampleBus) = Some [[10], [30]] \<and>
   run keyStep (\<lambda>_ _. []) (observed busStep sendLabel (Some newMessageBus) sampleBus) ''t'' [1] = [[10], [30]]"
proof -
  have l: "run keyStep (\<lambda>_ _. []) (observed busStep sendLabel (Some newMessageBus) sampleBus) ''t'' [1] = [[10], [30]]" by code_simp
  have "map_option (\<lambda>mb. map_option length (mb_topics mb ''t'')) (run busStep (Some newMessageBus) sampleBus) = Some (Some 1)" by code_simp
  then obtain mb ps where mb: "run busStep (Some newMessageBus) sampleBus = Some mb" "mb_topics mb ''t'' = Some ps" "length ps = 1" by auto
  have "selectPartition 0 [1] 1 = Some (int 0)" by code_simp
  then show ?thesis using bus_key_order [OF mb(1,2), of "[1]" 0] mb l by simp
qed

section \<open>Rebalancing\<close>

definition numParts :: "(string \<rightharpoonup> Partition list) \<Rightarrow> string \<Rightarrow> nat" where
  "numParts topics t = (case topics t of None \<Rightarrow> 0 | Some ps \<Rightarrow> length ps)"

definition assigned :: "ConsumerGroup \<Rightarrow> string \<Rightarrow> nat \<Rightarrow> string option" where
  "assigned grp t p = (case cg_Assignments grp t of None \<Rightarrow> None | Some m \<Rightarrow> m p)"

definition subscribed :: "(string \<rightharpoonup> Consumer) \<Rightarrow> string set \<Rightarrow> string set" where
  "subscribed consumers ids = {t. \<exists>cid \<in> ids. isActive consumers cid \<and> t \<in> set (cn_Topics (the (consumers cid)))}"

text \<open>The collected partitions of the topic names \<open>S\<close>.\<close>

definition collected :: "(string \<rightharpoonup> Partition list) \<Rightarrow> string set \<Rightarrow> (string \<rightharpoonup> nat list) \<Rightarrow> bool" where
  "collected topics S tps \<longleftrightarrow> (\<forall>t. if t \<in> S \<and> numParts topics t > 0 then map_option set (tps t) = Some {..<numParts topics t} else tps t = None)"

lemma addTopic_apply:
  "addTopic topics t tps u =
     (if u = t \<and> numParts topics t > 0 then Some ((case tps t of None \<Rightarrow> [] | Some ps \<Rightarrow> ps) @ [0..<numParts topics t]) else tps u)"
  by (simp add: addTopic_def numParts_def split: option.splits list.splits)

lemma collected_add:
  assumes "collected topics S tps"
  shows "collected topics (insert t S) (addTopic topics t tps)"
  unfolding collected_def
proof (intro allI)
  fix u
  have c: "if u \<in> S \<and> numParts topics u > 0 then map_option set (tps u) = Some {..<numParts topics u} else tps u = None"
    using assms unfolding collected_def by (rule spec)
  show "if u \<in> insert t S \<and> numParts topics u > 0 then map_option set (addTopic topics t tps u) = Some {..<numParts topics u}
        else addTopic topics t tps u = None"
  proof (cases "u = t \<and> numParts topics t > 0")
    case True
    then show ?thesis using c by (cases "tps t") (auto simp: addTopic_apply atLeast0LessThan split: if_splits)
  next
    case False
    then have "addTopic topics t tps u = tps u" unfolding addTopic_apply by (rule if_not_P)
    then show ?thesis using c False by auto
  qed
qed

lemma collected_fold: "collected topics S tps \<Longrightarrow> collected topics (S \<union> set ts) (fold (addTopic topics) ts tps)"
proof (induction ts arbitrary: S tps)
  case (Cons t ts)
  then show ?case using Cons.IH [OF collected_add [OF Cons.prems, of t]] by simp
qed simp

lemma collected_consumers:
  "collected topics S tps \<Longrightarrow>
   collected topics (S \<union> subscribed consumers (set ids))
     (fold (\<lambda>cid tps. if isActive consumers cid then fold (addTopic topics) (cn_Topics (the (consumers cid))) tps else tps) ids tps)"
proof (induction ids arbitrary: S tps)
  case Nil
  then show ?case by (simp add: subscribed_def)
next
  case (Cons cid ids)
  have "subscribed consumers (set (cid # ids)) =
      (if isActive consumers cid then set (cn_Topics (the (consumers cid))) else {}) \<union> subscribed consumers (set ids)"
    by (auto simp: subscribed_def)
  then show ?case
    using Cons.IH [OF collected_fold [OF Cons.prems, of "cn_Topics (the (consumers cid))"]] Cons.IH [OF Cons.prems] by (simp add: Un_assoc)
qed

lemma collectPartitions_collected: "collected topics (subscribed consumers (set ids)) (collectPartitions topics consumers ids)"
  using collected_consumers [of topics "{}" Map.empty consumers ids] by (simp add: collectPartitions_def collected_def)

lemma assignPartitions_result:
  "active \<noteq> [] \<Longrightarrow> dom (fst (assignPartitions active ps i m)) = dom m \<union> set ps \<and> ran (fst (assignPartitions active ps i m)) \<subseteq> ran m \<union> set active"
proof (induction ps arbitrary: i m)
  case (Cons p ps)
  have "active ! (i mod length active) \<in> set active" using Cons.prems by simp
  define m' where "m' = m(p \<mapsto> active ! (i mod length active))"
  have m': "dom m' = insert p (dom m)" "ran m' \<subseteq> ran m \<union> set active"
    using \<open>active ! (i mod length active) \<in> set active\<close> by (auto simp: m'_def ran_def split: if_splits)
  show ?case using Cons.IH [OF Cons.prems, of "i + 1" m'] m' unfolding assignPartitions.simps m'_def [symmetric] by auto
qed simp

lemma assignTopics_other: "t \<notin> set ts \<Longrightarrow> assignTopics active tps ts i as t = as t"
  by (induction ts arbitrary: i as) (auto simp: Let_def split: prod.splits)

lemma assignTopics_result:
  "active \<noteq> [] \<Longrightarrow> distinct ts \<Longrightarrow> t \<in> set ts \<Longrightarrow> as t = None \<Longrightarrow>
   \<exists>m. assignTopics active tps ts i as t = Some m \<and> dom m = set (the (tps t)) \<and> ran m \<subseteq> set active"
proof (induction ts arbitrary: i as)
  case (Cons u ts)
  obtain m j where mj: "assignPartitions active (the (tps u)) i (case as u of None \<Rightarrow> Map.empty | Some m \<Rightarrow> m) = (m, j)" by fastforce
  show ?case
  proof (cases "u = t")
    case True
    then have "dom m = set (the (tps t)) \<and> ran m \<subseteq> set active"
      using assignPartitions_result [OF Cons.prems(1), of "the (tps t)" i Map.empty] mj Cons.prems(4) by simp
    then show ?thesis using True Cons.prems mj by (simp add: assignTopics_other)
  next
    case False
    then show ?thesis using Cons mj by simp
  qed
qed simp

text \<open> A rebalance of a group that has an active consumer, for every order in which the maps of consumers and topics are
  iterated: the generation is raised, every partition of every topic to which an active consumer of the group is subscribed
  is assigned to exactly one consumer, which is an active member of the group, and nothing else is assigned.\<close>

theorem rebalance_covers_partitions:
  assumes "set ids = dom (cg_Consumers grp)" and "set ids' = dom (cg_Consumers grp)"
    and "set topicOrder = dom (collectPartitions topics (cg_Consumers grp) ids)" and "distinct topicOrder"
    and "\<exists>c. isActive (cg_Consumers grp) c"
  shows "let grp' = rebalanceGroup ids ids' topicOrder topics grp
    in cg_Generation grp' = i32 (cg_Generation grp + 1) \<and> cg_Consumers grp' = cg_Consumers grp \<and>
       (if t \<in> subscribed (cg_Consumers grp) (dom (cg_Consumers grp)) \<and> p < numParts topics t
        then \<exists>c. assigned grp' t p = Some c \<and> isActive (cg_Consumers grp) c
        else assigned grp' t p = None)"
proof -
  define tps where "tps = collectPartitions topics (cg_Consumers grp) ids"
  define active where "active = filter (isActive (cg_Consumers grp)) ids'"
  have act: "active \<noteq> []" "set active \<subseteq> {c. isActive (cg_Consumers grp) c}"
    using assms(2,5) by (auto simp: active_def filter_empty_conv isActive_def split: option.splits)
  have tps: "collected topics (subscribed (cg_Consumers grp) (dom (cg_Consumers grp))) tps"
    unfolding tps_def assms(1) [symmetric] by (rule collectPartitions_collected)
  define grp' where "grp' = rebalanceGroup ids ids' topicOrder topics grp"
  have grp': "cg_Generation grp' = i32 (cg_Generation grp + 1)" "cg_Consumers grp' = cg_Consumers grp"
    "cg_Assignments grp' = assignTopics active tps topicOrder 0 Map.empty"
    using act(1) by (simp_all add: grp'_def rebalanceGroup_def Let_def tps_def [symmetric] active_def [symmetric])
  have "if t \<in> subscribed (cg_Consumers grp) (dom (cg_Consumers grp)) \<and> p < numParts topics t
      then \<exists>c. assigned grp' t p = Some c \<and> isActive (cg_Consumers grp) c else assigned grp' t p = None"
  proof (cases "t \<in> set topicOrder")
    case True
    then obtain m where m: "cg_Assignments grp' t = Some m" "dom m = set (the (tps t))" "ran m \<subseteq> set active"
      using assignTopics_result [OF act(1) assms(4) True, of Map.empty tps 0] grp'(3) by auto
    from True obtain ps where ps: "tps t = Some ps" using assms(3) by (auto simp: tps_def)
    then have "set ps = {..<numParts topics t} \<and> t \<in> subscribed (cg_Consumers grp) (dom (cg_Consumers grp))"
      using tps [unfolded collected_def, rule_format, of t] by (auto split: if_splits)
    moreover from this have dom_m: "dom m = {..<numParts topics t}" using m(2) ps by simp
    moreover have "isActive (cg_Consumers grp) c" if "m p = Some c" for c using that m(3) act(2) by (auto simp: ran_def)
    ultimately show ?thesis using m(1) by (cases "m p") (auto simp: assigned_def)
  next
    case False
    then have "tps t = None" using assms(3) by (auto simp: tps_def)
    then have "\<not> (t \<in> subscribed (cg_Consumers grp) (dom (cg_Consumers grp)) \<and> p < numParts topics t)"
      using tps [unfolded collected_def, rule_format, of t] by (auto split: if_splits)
    moreover have "assigned grp' t p = None" using assignTopics_other [OF False] grp'(3) by (simp add: assigned_def)
    ultimately show ?thesis by auto
  qed
  then show ?thesis unfolding grp'_def [symmetric] using grp' by simp
qed

definition sampleGroup :: ConsumerGroup where
  "sampleGroup = \<lparr>cg_ID = ''g'', cg_Consumers = [''c'' \<mapsto> \<lparr>cn_ID = ''c'', cn_GroupID = ''g'', cn_Topics = [''t''], cn_Heartbeat = 0, cn_Active = True\<rparr>],
     cg_Assignments = Map.empty, cg_Generation = 0\<rparr>"

definition sampleTopics :: "string \<rightharpoonup> Partition list" where
  "sampleTopics = [''t'' \<mapsto> [emptyPartition 0, emptyPartition 1]]"

theorem rebalance_covers_partitions_witness:
  "\<exists>c. assigned (rebalanceGroup [''c''] [''c''] [''t''] sampleTopics sampleGroup) ''t'' 1 = Some c \<and> isActive (cg_Consumers sampleGroup) c"
proof -
  have d: "dom (cg_Consumers sampleGroup) = {''c''}" by (simp add: sampleGroup_def)
  have a: "isActive (cg_Consumers sampleGroup) ''c''" by (simp add: sampleGroup_def isActive_def)
  have c: "collectPartitions sampleTopics (cg_Consumers sampleGroup) [''c''] = [''t'' \<mapsto> [0, 1]]"
    by (simp add: collectPartitions_def a) (simp add: sampleGroup_def sampleTopics_def addTopic_def numeral_eq_Suc)
  have s: "''t'' \<in> subscribed (cg_Consumers sampleGroup) {''c''}"
    using a by (simp add: subscribed_def) (simp add: sampleGroup_def)
  have n: "numParts sampleTopics ''t'' = 2" by (simp add: numParts_def sampleTopics_def)
  show ?thesis
    using rebalance_covers_partitions [of "[''c'']" sampleGroup "[''c'']" "[''t'']" sampleTopics "''t''" 1] a c d s n by (auto simp: Let_def)
qed

section \<open>Commits\<close>

text \<open>A commit is the change of the state followed by the sends of its messages.\<close>

definition txSends :: "(nat \<Rightarrow> gotime \<times> gotime) \<Rightarrow> nat \<Rightarrow> Message list \<Rightarrow> BusOp list" where
  "txSends clock i msgs = map (\<lambda>(j, m). OpSend (fst (clock j)) (snd (clock j)) (ms_Topic m) (ms_Key m) (ms_Value m)) (zip [i..<i + length msgs] msgs)"

lemma txSends_Cons:
  "txSends clock i (m # msgs) = OpSend (fst (clock i)) (snd (clock i)) (ms_Topic m) (ms_Key m) (ms_Value m) # txSends clock (i + 1) msgs"
  by (simp add: txSends_def upt_conv_Cons del: upt_Suc)

lemma sendAll_sends:
  "sendAll txID clock i msgs mb = Some (Inr (), mb') \<Longrightarrow> run busStep (Some mb) (txSends clock i msgs) = Some mb'"
proof (induction msgs arbitrary: i mb)
  case Nil
  then show ?case by (simp add: txSends_def)
next
  case (Cons m msgs)
  then obtain mb1 where "send (fst (clock i)) (snd (clock i)) (ms_Topic m) (ms_Key m) (ms_Value m) mb = Some (Inr (), mb1)"
    "sendAll txID clock (i + 1) msgs mb1 = Some (Inr (), mb')"
    by (auto split: option.splits prod.splits sum.splits)
  then show ?case using Cons.IH [of "i + 1" mb1] by (simp add: txSends_Cons)
qed

text \<open>A send to an existing topic with partitions succeeds, for clock readings after the epoch.\<close>

definition sendable :: "MessageBus \<Rightarrow> string \<Rightarrow> bool" where
  "sendable mb t \<longleftrightarrow> 0 < numParts (mb_topics mb) t \<and> numParts (mb_topics mb) t < 2 ^ 32"

lemma selectPartition_ok:
  assumes "0 < n" and "n < 2 ^ 32" and "0 \<le> selNow"
  shows "\<exists>q < n. selectPartition selNow k n = Some (int q)"
proof (cases "k = []")
  case True
  have "goRem selNow (int n) = int (nat (selNow mod int n))" "nat (selNow mod int n) < n" using assms by (simp_all add: goRem_def nat_less_iff)
  then show ?thesis using True assms by (auto simp: selectPartition_def)
next
  case False
  have n: "unat (of_nat n :: u32) = n" using assms(2) by (simp add: take_bit_nat_eq_self unsigned_of_nat)
  then have nz: "(of_nat n :: u32) \<noteq> 0" using assms(1) by (metis less_numeral_extra(3) unsigned_0)
  have "unat (fnv32a k mod of_nat n) < n" using unat_mod [of "fnv32a k" "of_nat n"] n assms(1) by simp
  then show ?thesis
    using False nz by (intro exI [of _ "unat (fnv32a k mod of_nat n)"]) (simp add: selectPartition_def Let_def)
qed

lemma send_ok:
  assumes "sendable mb t" and "0 \<le> selNow"
  shows "\<exists>mb'. send selNow now t k v mb = Some (Inr (), mb') \<and> (\<forall>t'. numParts (mb_topics mb') t' = numParts (mb_topics mb) t')"
proof -
  obtain ps where ps: "mb_topics mb t = Some ps" "0 < length ps" "length ps < 2 ^ 32"
    using assms(1) by (auto simp: sendable_def numParts_def split: option.splits)
  from selectPartition_ok [OF ps(2,3) assms(2)] obtain q where "q < length ps" "selectPartition selNow k (length ps) = Some (int q)" by blast
  then show ?thesis using ps by (auto simp: send_def Let_def numParts_def)
qed

lemma sendAll_ok:
  "\<forall>m \<in> set msgs. sendable mb (ms_Topic m) \<Longrightarrow> \<forall>j. 0 \<le> fst (clock j) \<Longrightarrow> \<exists>mb'. sendAll txID clock i msgs mb = Some (Inr (), mb')"
proof (induction msgs arbitrary: i mb)
  case (Cons m msgs)
  then obtain mb1 where s: "send (fst (clock i)) (snd (clock i)) (ms_Topic m) (ms_Key m) (ms_Value m) mb = Some (Inr (), mb1)"
    and "\<forall>t'. numParts (mb_topics mb1) t' = numParts (mb_topics mb) t'"
    using send_ok [of mb "ms_Topic m"] by (metis list.set_intros(1))
  then have "\<forall>m \<in> set msgs. sendable mb1 (ms_Topic m)" using Cons.prems(1) by (simp add: sendable_def)
  from Cons.IH [OF this Cons.prems(2), of "i + 1"] show ?case using s by simp
qed simp

text \<open> Committing a transaction all of whose topics exist with at least one partition succeeds and is exactly the change of its state
  to committed followed by one send per message of the transaction, in their order.\<close>

theorem commit_sends_all:
  assumes "mb_transactions mb txID = Some tx" and "\<forall>m \<in> set (tx_Messages tx). sendable mb (ms_Topic m)" and "\<forall>j. 0 \<le> fst (clock j)"
  shows "\<exists>mb'. commitTransaction clock txID mb = Some (Inr (), mb') \<and>
    run busStep (Some mb) (OpTxState Committed txID # txSends clock 0 (tx_Messages tx)) = Some mb'"
proof -
  have "\<forall>m \<in> set (tx_Messages tx). sendable (setTxState Committed txID mb) (ms_Topic m)" using assms(2) by (simp add: sendable_def tx_topics)
  from sendAll_ok [OF this assms(3)] obtain mb' where "sendAll txID clock 0 (tx_Messages tx) (setTxState Committed txID mb) = Some (Inr (), mb')" by blast
  then show ?thesis using sendAll_sends assms(1) by (simp add: commitTransaction_def)
qed

section \<open>The limits of the bus\<close>

text \<open>A commit that fails on a later message leaves the earlier ones in the logs, and a second commit sends them again.\<close>

definition partialTx :: "MessageBus option" where
  "partialTx = run busStep (Some newMessageBus) [OpTopic ''t'' 1, OpBegin 1 2, OpSendTx 3 ''tx-1'' ''t'' [1] [10], OpSendTx 4 ''tx-1'' ''missing'' [1] [20]]"

theorem aborted_commit_leaves_messages:
  "(case partialTx of None \<Rightarrow> None | Some mb \<Rightarrow> map_option (\<lambda>(r, mb'). (r, map ms_Value (messagesOf ''t'' 0 mb'))) (commitTransaction (\<lambda>i. (5, 6)) ''tx-1'' mb))
     = Some (Inl (TopicNotFound ''missing''), [[10]])"
  by code_simp

theorem commit_twice_duplicates:
  "(case run busStep (Some newMessageBus) [OpTopic ''t'' 1, OpBegin 1 2, OpSendTx 3 ''tx-1'' ''t'' [1] [10]] of None \<Rightarrow> None
    | Some mb \<Rightarrow> (case commitTransaction (\<lambda>i. (5, 6)) ''tx-1'' mb of None \<Rightarrow> None
      | Some (_, mb') \<Rightarrow> map_option (\<lambda>(r, mb''). (r, map ms_Value (messagesOf ''t'' 0 mb''))) (commitTransaction (\<lambda>i. (7, 8)) ''tx-1'' mb')))
     = Some (Inr (), [[10], [10]])"
  by code_simp

text \<open>A message that ends in the dead-letter queue does not advance the committed offset: while no later message succeeds, every
  consumption tries it again and adds it to the queue again.\<close>

theorem dead_letter_repeated:
  "map_option (\<lambda>mb. (map ms_Value (mb_dlq mb), lastOffset ''g'' ''t'' 0 mb))
     (run busStep (Some newMessageBus) [OpTopic ''t'' 1, OpGroup ''g'', OpJoin 1 ''g'' ''c'' [''t''], OpRebalance [''c''] [''c''] [''t''] ''g'',
        OpSend 2 3 ''t'' [1] [10], OpConsume (\<lambda>_ _. False) [(''t'', 0)] ''g'' ''c'', OpConsume (\<lambda>_ _. False) [(''t'', 0)] ''g'' ''c'']) =
   Some ([[10], [10]], 0)"
  by code_simp

text \<open>The assignment does not look at the subscriptions: a consumer gets partitions of a topic it did not subscribe to.\<close>

theorem rebalance_ignores_subscription:
  "(case run busStep (Some newMessageBus) [OpTopic ''t'' 1, OpTopic ''u'' 1, OpGroup ''g'', OpJoin 1 ''g'' ''a'' [''t''], OpJoin 2 ''g'' ''b'' [''u''],
       OpRebalance [''a'', ''b''] [''b'', ''a''] [''t'', ''u''] ''g''] of
      None \<Rightarrow> None | Some mb \<Rightarrow> map_option (\<lambda>grp. (assigned grp ''t'' 0, assigned grp ''u'' 0)) (mb_groups mb ''g''))
     = Some (Some ''b'', Some ''a'')"
  by code_simp

end
