(* ===== verification/ShardedTimeSeries.thy ===== *)
theory ShardedTimeSeries
  imports GoPrelude
begin

text \<open>
  The distributed time series of \<open>src/solutions/solution22_timeseries_db.go\<close> (\<open>DistributedTimeSeries\<close>): series spread over
  shards by load, every series with an index from hours to positions, a retention period, and range queries that go
  through the index.  Writes hold the lock of their shard and are one step, as are queries; the value of a point
  is of any type, its tags are never read, and \<open>now\<close> is the clock reading.  \<open>sort.Slice\<close> leaves the order of equal timestamps open; the model keeps
  them in the order found and the theorems claim only that the result is sorted.  Times are nanoseconds since the epoch,
  at which an hour begins.

  Shown: in every history of writes and queries, a query through the index returns exactly what a scan of all retained points
  would, sorted by time; the retained points of a series are the written ones without the expired prefix.
\<close>

section \<open>Data\<close>

record 'v DataPoint =
  dp_Timestamp :: gotime
  dp_Value :: 'v

record 'v ShardSeries =
  ss_points :: "'v DataPoint list"
  ss_hourBuckets :: "int \<rightharpoonup> nat list"
  ss_retention :: duration

record 'v DistributedQuery =
  dq_Series :: string
  dq_Start :: gotime
  dq_End :: gotime
  dq_Shards :: "nat list"
  dq_Results :: "'v DataPoint list"
  dq_Status :: string

record 'v DistributedTimeSeries =
  dt_shards :: "(string \<rightharpoonup> 'v ShardSeries) list"
  dt_seriesMapping :: "string \<rightharpoonup> nat"
  dt_shardLoads :: "int list"
  dt_queries :: "string \<rightharpoonup> 'v DistributedQuery"

definition newDistributedTimeSeries :: "nat \<Rightarrow> 'v DistributedTimeSeries" where
  "newDistributedTimeSeries numShards =
     \<lparr>dt_shards = replicate numShards Map.empty, dt_seriesMapping = Map.empty, dt_shardLoads = replicate numShards 0, dt_queries = Map.empty\<rparr>"

section \<open>Routing\<close>

fun minShardLoop :: "int list \<Rightarrow> nat list \<Rightarrow> int \<Rightarrow> nat \<Rightarrow> nat" where
  "minShardLoop loads [] minLoad minShard = minShard"
| "minShardLoop loads (i # is) minLoad minShard =
     (if loads ! i < minLoad then minShardLoop loads is (loads ! i) i else minShardLoop loads is minLoad minShard)"

definition getShard :: "string \<Rightarrow> 'v DistributedTimeSeries \<Rightarrow> nat \<times> 'v DistributedTimeSeries" where
  "getShard seriesName dts =
     (case dt_seriesMapping dts seriesName of
        Some shardID \<Rightarrow> (shardID, dts)
      | None \<Rightarrow>
          (let loads = dt_shardLoads dts;
               minShard = minShardLoop loads [1..<length (dt_shards dts)] (loads ! 0) 0
           in (minShard, dts\<lparr>dt_shardLoads := loads[minShard := i64 (loads ! minShard + 1)],
                             dt_seriesMapping := (dt_seriesMapping dts)(seriesName \<mapsto> minShard)\<rparr>)))"

section \<open>Writing\<close>

definition hour :: duration where
  "hour = 3600 * 1000000000"

text \<open>\<open>Truncate(time.Hour).Unix()\<close>.\<close>

definition hourBucket :: "gotime \<Rightarrow> int" where
  "hourBucket t = (t - t mod hour) div 1000000000"

definition addToBucket :: "int \<Rightarrow> nat \<Rightarrow> (int \<rightharpoonup> nat list) \<Rightarrow> (int \<rightharpoonup> nat list)" where
  "addToBucket bucket idx buckets = buckets(bucket \<mapsto> (case buckets bucket of None \<Rightarrow> [] | Some is \<Rightarrow> is) @ [idx])"

text \<open>The index of a list of points, rebuilt from position \<open>idx\<close> on.\<close>

fun rebuildIndex :: "nat \<Rightarrow> 'v DataPoint list \<Rightarrow> (int \<rightharpoonup> nat list) \<Rightarrow> (int \<rightharpoonup> nat list)" where
  "rebuildIndex idx [] buckets = buckets"
| "rebuildIndex idx (p # ps) buckets = rebuildIndex (idx + 1) ps (addToBucket (hourBucket (dp_Timestamp p)) idx buckets)"

fun expiredPrefix :: "gotime \<Rightarrow> 'v DataPoint list \<Rightarrow> nat" where
  "expiredPrefix cutoff [] = 0"
| "expiredPrefix cutoff (p # ps) = (if dp_Timestamp p < cutoff then Suc (expiredPrefix cutoff ps) else 0)"

definition newShardSeries :: "'v ShardSeries" where
  "newShardSeries = \<lparr>ss_points = [], ss_hourBuckets = Map.empty, ss_retention = 7 * 24 * hour\<rparr>"

definition addPoint :: "'v DataPoint \<Rightarrow> 'v ShardSeries \<Rightarrow> 'v ShardSeries" where
  "addPoint p s = s\<lparr>ss_points := ss_points s @ [p],
                    ss_hourBuckets := addToBucket (hourBucket (dp_Timestamp p)) (length (ss_points s)) (ss_hourBuckets s)\<rparr>"

definition applyRetention :: "gotime \<Rightarrow> 'v ShardSeries \<Rightarrow> 'v ShardSeries" where
  "applyRetention now s =
     (let cutoff = now - ss_retention s
      in if length (ss_points s) > 0 \<and> dp_Timestamp (ss_points s ! 0) < cutoff
         then (let ps = drop (expiredPrefix cutoff (ss_points s)) (ss_points s)
               in s\<lparr>ss_points := ps, ss_hourBuckets := rebuildIndex 0 ps Map.empty\<rparr>)
         else s)"

definition writePoint :: "gotime \<Rightarrow> string \<Rightarrow> 'v DataPoint \<Rightarrow> 'v DistributedTimeSeries \<Rightarrow> 'v DistributedTimeSeries" where
  "writePoint now seriesName p dts0 =
     (let (shardID, dts) = getShard seriesName dts0;
          data = dt_shards dts ! shardID;
          series = (case data seriesName of None \<Rightarrow> newShardSeries | Some s \<Rightarrow> s)
      in dts\<lparr>dt_shards := (dt_shards dts)[shardID := data(seriesName \<mapsto> applyRetention now (addPoint p series))]\<rparr>)"

section \<open>Querying\<close>

definition inRange :: "gotime \<Rightarrow> gotime \<Rightarrow> 'v DataPoint \<Rightarrow> bool" where
  "inRange start end' p \<longleftrightarrow> start < dp_Timestamp p \<and> dp_Timestamp p < end'"

definition bucketPoints :: "gotime \<Rightarrow> gotime \<Rightarrow> 'v ShardSeries \<Rightarrow> int \<Rightarrow> 'v DataPoint list" where
  "bucketPoints start end' s h =
     (case ss_hourBuckets s h of
        None \<Rightarrow> []
      | Some indices \<Rightarrow> filter (inRange start end') (map (\<lambda>i. ss_points s ! i) (filter (\<lambda>i. i < length (ss_points s)) indices)))"

function hourLoop :: "gotime \<Rightarrow> gotime \<Rightarrow> 'v ShardSeries \<Rightarrow> int \<Rightarrow> int \<Rightarrow> 'v DataPoint list \<Rightarrow> 'v DataPoint list" where
  "hourLoop start end' s h endHour results =
     (if h \<le> endHour then hourLoop start end' s (h + 3600) endHour (results @ bucketPoints start end' s h) else results)"
  by pat_completeness auto

termination
  by (relation "measure (\<lambda>(start, end', s, h, endHour, results). nat (endHour - h + 1))") auto

declare hourLoop.simps [simp del]

definition indexQuery :: "gotime \<Rightarrow> gotime \<Rightarrow> 'v ShardSeries \<Rightarrow> 'v DataPoint list" where
  "indexQuery start end' s = hourLoop start end' s (hourBucket start) (hourBucket end' + 3600) []"

definition distributedQuery :: "gotime \<Rightarrow> string \<Rightarrow> gotime \<Rightarrow> gotime \<Rightarrow> 'v DistributedTimeSeries \<Rightarrow> 'v DataPoint list \<times> 'v DistributedTimeSeries" where
  "distributedQuery idNow seriesName start end' dts0 =
     (let (shardID, dts) = getShard seriesName dts0;
          results = (case (dt_shards dts ! shardID) seriesName of None \<Rightarrow> [] | Some s \<Rightarrow> indexQuery start end' s);
          allResults = sort_key dp_Timestamp results
      in (allResults, dts\<lparr>dt_queries := (dt_queries dts)(''q_'' @ itoa idNow \<mapsto>
            \<lparr>dq_Series = seriesName, dq_Start = start, dq_End = end', dq_Shards = [shardID], dq_Results = allResults, dq_Status = ''completed''\<rparr>)\<rparr>))"

section \<open>The index\<close>

text \<open>The index lists, for every hour, the positions of the points of that hour in ascending order.\<close>

definition indexOf :: "'v DataPoint list \<Rightarrow> (int \<rightharpoonup> nat list)" where
  "indexOf ps h = (let is = filter (\<lambda>i. hourBucket (dp_Timestamp (ps ! i)) = h) [0..<length ps] in if is = [] then None else Some is)"

lemma indexOf_snoc: "addToBucket (hourBucket (dp_Timestamp p)) (length ps) (indexOf ps) = indexOf (ps @ [p])"
proof
  fix h
  have "filter (\<lambda>i. hourBucket (dp_Timestamp ((ps @ [p]) ! i)) = h) [0..<length ps] = filter (\<lambda>i. hourBucket (dp_Timestamp (ps ! i)) = h) [0..<length ps]"
    by (rule filter_cong) (auto simp: nth_append)
  then show "addToBucket (hourBucket (dp_Timestamp p)) (length ps) (indexOf ps) h = indexOf (ps @ [p]) h"
    by (auto simp: addToBucket_def indexOf_def Let_def)
qed

lemma rebuildIndex_indexOf: "rebuildIndex (length ps) qs (indexOf ps) = indexOf (ps @ qs)"
proof (induction qs arbitrary: ps)
  case (Cons q qs)
  then show ?case using Cons.IH [of "ps @ [q]"] by (simp add: indexOf_snoc)
qed simp

lemma indexOf_Nil [simp]: "indexOf [] = Map.empty"
  by (simp add: indexOf_def fun_eq_iff)

lemma rebuildIndex_all: "rebuildIndex 0 ps Map.empty = indexOf ps"
  using rebuildIndex_indexOf [of "[]" ps] by simp

definition seriesOk :: "'v ShardSeries \<Rightarrow> bool" where
  "seriesOk s \<longleftrightarrow> ss_hourBuckets s = indexOf (ss_points s) \<and> ss_retention s = 7 * 24 * hour"

lemma seriesOk_new: "seriesOk newShardSeries"
  by (simp add: seriesOk_def newShardSeries_def indexOf_def fun_eq_iff)

lemma seriesOk_add: "seriesOk s \<Longrightarrow> seriesOk (addPoint p s)"
  by (simp add: seriesOk_def addPoint_def indexOf_snoc)

lemma drop_expired: "drop (expiredPrefix c ps) ps = dropWhile (\<lambda>p. dp_Timestamp p < c) ps"
  by (induction ps) auto

lemma retention_points: "ss_points (applyRetention now s) = dropWhile (\<lambda>p. dp_Timestamp p < now - ss_retention s) (ss_points s)"
  by (cases "ss_points s") (auto simp: applyRetention_def Let_def drop_expired)

lemma seriesOk_retention: "seriesOk s \<Longrightarrow> seriesOk (applyRetention now s)"
  by (auto simp: applyRetention_def seriesOk_def Let_def rebuildIndex_all)

subsection \<open>The query through the index is a scan\<close>

text \<open>The hours that the loop visits.\<close>

definition hoursFrom :: "int \<Rightarrow> int \<Rightarrow> int list" where
  "hoursFrom h endHour = map (\<lambda>k. h + 3600 * int k) [0..<nat ((endHour - h) div 3600 + 1)]"

lemma hoursFrom_step: "h \<le> endHour \<Longrightarrow> hoursFrom h endHour = h # hoursFrom (h + 3600) endHour"
proof -
  assume le: "h \<le> endHour"
  define n where "n = nat ((endHour - (h + 3600)) div 3600 + 1)"
  have "(endHour - h) div 3600 = (endHour - (h + 3600)) div 3600 + 1" by simp
  moreover have "0 \<le> (endHour - h) div 3600" using le by (simp add: pos_imp_zdiv_nonneg_iff)
  ultimately have "nat ((endHour - h) div 3600 + 1) = Suc n" by (simp add: n_def nat_add_distrib)
  then show ?thesis
    unfolding hoursFrom_def n_def [symmetric] by (simp add: upt_conv_Cons map_Suc_upt [symmetric] algebra_simps del: upt_Suc)
qed

lemma hourLoop_hours: "hourLoop start end' s h endHour results = results @ concat (map (bucketPoints start end' s) (hoursFrom h endHour))"
proof (induction start end' s h endHour results rule: hourLoop.induct)
  case (1 start end' s h endHour results)
  show ?case
  proof (cases "h \<le> endHour")
    case True
    then show ?thesis using 1 [OF True] by (subst hourLoop.simps) (simp add: hoursFrom_step)
  next
    case False
    then have "(endHour - h) div 3600 < 0" by (simp add: neg_imp_zdiv_neg_iff)
    then show ?thesis using False by (subst hourLoop.simps) (simp add: hoursFrom_def)
  qed
qed

lemma distinct_hoursFrom: "distinct (hoursFrom h e)"
  by (simp add: hoursFrom_def distinct_map inj_on_def)

lemma hourBucket_div: "hourBucket t = 3600 * (t div hour)"
  by (simp add: hourBucket_def hour_def minus_mod_eq_mult_div)

lemma in_hoursFrom:
  assumes "start \<le> t" and "t \<le> end'"
  shows "hourBucket t \<in> set (hoursFrom (hourBucket start) (hourBucket end' + 3600))"
proof -
  have le: "start div hour \<le> t div hour" "t div hour \<le> end' div hour"
    using assms by (simp_all add: zdiv_mono1 hour_def)
  define k where "k = nat (t div hour - start div hour)"
  have "hourBucket t = hourBucket start + 3600 * int k" using le by (simp add: hourBucket_div k_def algebra_simps)
  moreover have "hourBucket end' + 3600 - hourBucket start = 3600 * (end' div hour - start div hour + 1)"
    by (simp add: hourBucket_div algebra_simps)
  then have "(hourBucket end' + 3600 - hourBucket start) div 3600 = end' div hour - start div hour + 1" by simp
  then have "k < nat ((hourBucket end' + 3600 - hourBucket start) div 3600 + 1)" using le unfolding k_def by linarith
  ultimately show ?thesis by (auto simp: hoursFrom_def)
qed

lemma filter_positions: "filter P xs = map (\<lambda>i. xs ! i) (filter (\<lambda>i. P (xs ! i)) [0..<length xs])"
proof -
  have "filter P xs = filter P (map (\<lambda>i. xs ! i) [0..<length xs])" by (simp add: map_nth)
  then show ?thesis by (simp add: filter_map o_def)
qed

lemma mset_filter_disjoint: "(\<And>x. \<not> (P x \<and> Q x)) \<Longrightarrow> mset (filter P xs) + mset (filter Q xs) = mset (filter (\<lambda>x. P x \<or> Q x) xs)"
  by (induction xs) auto

lemma mset_group_by: "distinct hs \<Longrightarrow> mset (concat (map (\<lambda>h. filter (\<lambda>x. f x = h) xs) hs)) = mset (filter (\<lambda>x. f x \<in> set hs) xs)"
proof (induction hs)
  case (Cons h hs)
  then show ?case using mset_filter_disjoint [of "\<lambda>x. f x = h" "\<lambda>x. f x \<in> set hs" xs] by auto
qed simp

lemma bucketPoints_positions:
  assumes "seriesOk s"
  shows "bucketPoints start end' s h = map (\<lambda>i. ss_points s ! i)
    (filter (\<lambda>i. hourBucket (dp_Timestamp (ss_points s ! i)) = h) (filter (\<lambda>i. inRange start end' (ss_points s ! i)) [0..<length (ss_points s)]))"
proof -
  define idx where "idx = filter (\<lambda>i. hourBucket (dp_Timestamp (ss_points s ! i)) = h) [0..<length (ss_points s)]"
  have "filter (\<lambda>i. i < length (ss_points s)) idx = idx" unfolding idx_def filter_id_conv by auto
  then have "bucketPoints start end' s h = filter (inRange start end') (map (\<lambda>i. ss_points s ! i) idx)"
    using assms by (auto simp: bucketPoints_def seriesOk_def indexOf_def Let_def idx_def [symmetric])
  then show ?thesis by (simp add: filter_map o_def idx_def conj_commute)
qed

lemma indexQuery_scan:
  assumes "seriesOk s"
  shows "mset (indexQuery start end' s) = mset (filter (inRange start end') (ss_points s))"
proof -
  define ps where "ps = ss_points s"
  define xs where "xs = filter (\<lambda>i. inRange start end' (ps ! i)) [0..<length ps]"
  define hours where "hours = hoursFrom (hourBucket start) (hourBucket end' + 3600)"
  have "indexQuery start end' s = map (\<lambda>i. ps ! i) (concat (map (\<lambda>h. filter (\<lambda>i. hourBucket (dp_Timestamp (ps ! i)) = h) xs) hours))"
    unfolding indexQuery_def hourLoop_hours hours_def xs_def ps_def bucketPoints_positions [OF assms, abs_def] by (simp add: map_concat o_def)
  moreover have "mset (concat (map (\<lambda>h. filter (\<lambda>i. hourBucket (dp_Timestamp (ps ! i)) = h) xs) hours)) = mset xs"
  proof -
    have "hourBucket (dp_Timestamp (ps ! i)) \<in> set hours" if "i \<in> set xs" for i
      using that unfolding hours_def xs_def by (intro in_hoursFrom) (auto simp: inRange_def)
    then have "filter (\<lambda>i. hourBucket (dp_Timestamp (ps ! i)) \<in> set hours) xs = xs" by (simp add: filter_id_conv)
    moreover have "mset (concat (map (\<lambda>h. filter (\<lambda>i. hourBucket (dp_Timestamp (ps ! i)) = h) xs) hours)) =
        mset (filter (\<lambda>i. hourBucket (dp_Timestamp (ps ! i)) \<in> set hours) xs)"
      unfolding hours_def by (rule mset_group_by [OF distinct_hoursFrom])
    ultimately show ?thesis by (simp only:)
  qed
  ultimately have "mset (indexQuery start end' s) = mset (map (\<lambda>i. ps ! i) xs)" by (simp only: mset_map)
  then show ?thesis unfolding ps_def xs_def by (simp only: filter_positions [symmetric])
qed

section \<open>Histories\<close>

datatype 'v TSOp = WriteOp gotime string "'v DataPoint" | QueryOp gotime string gotime gotime

fun tsStep :: "'v DistributedTimeSeries \<Rightarrow> 'v TSOp \<Rightarrow> 'v DistributedTimeSeries" where
  "tsStep dts (WriteOp now name p) = writePoint now name p dts"
| "tsStep dts (QueryOp idNow name start end') = snd (distributedQuery idNow name start end' dts)"

text \<open>The specification: the retained points of every series.\<close>

fun retainStep :: "(string \<Rightarrow> 'v DataPoint list) \<Rightarrow> 'v TSOp \<Rightarrow> (string \<Rightarrow> 'v DataPoint list)" where
  "retainStep m (WriteOp now name p) = m(name := dropWhile (\<lambda>q. dp_Timestamp q < now - 7 * 24 * hour) (m name @ [p]))"
| "retainStep m (QueryOp idNow name start end') = m"

definition pointsOf :: "'v DistributedTimeSeries \<Rightarrow> string \<Rightarrow> 'v DataPoint list" where
  "pointsOf dts name = (case dt_seriesMapping dts name of
      None \<Rightarrow> []
    | Some i \<Rightarrow> (case (dt_shards dts ! i) name of None \<Rightarrow> [] | Some s \<Rightarrow> ss_points s))"

definition shardsOk :: "nat \<Rightarrow> (string \<rightharpoonup> nat) \<Rightarrow> (string \<rightharpoonup> 'v ShardSeries) list \<Rightarrow> bool" where
  "shardsOk n mapping shards \<longleftrightarrow> (\<forall>i < n. \<forall>name s. (shards ! i) name = Some s \<longrightarrow> mapping name = Some i \<and> seriesOk s)"

definition tsInv :: "nat \<Rightarrow> 'v DistributedTimeSeries \<Rightarrow> bool" where
  "tsInv n dts \<longleftrightarrow> length (dt_shards dts) = n \<and> length (dt_shardLoads dts) = n \<and> (\<forall>i \<in> ran (dt_seriesMapping dts). i < n) \<and>
     shardsOk n (dt_seriesMapping dts) (dt_shards dts)"

lemma shardsOkD: "shardsOk n mapping shards \<Longrightarrow> i < n \<Longrightarrow> (shards ! i) name = Some s \<Longrightarrow> mapping name = Some i \<and> seriesOk s"
  by (simp add: shardsOk_def)

lemma minShardLoop_bound: "minShard < n \<Longrightarrow> set is \<subseteq> {..<n} \<Longrightarrow> minShardLoop loads is minLoad minShard < n"
  by (induction "is" arbitrary: minLoad minShard) auto

lemma getShard_inv:
  assumes inv: "tsInv n dts" and n: "0 < n" and get: "getShard name dts = (i, dts')"
  shows "tsInv n dts' \<and> i < n \<and> dt_seriesMapping dts' name = Some i \<and> dt_shards dts' = dt_shards dts \<and> (\<forall>m. pointsOf dts' m = pointsOf dts m)"
proof (cases "dt_seriesMapping dts name")
  case (Some j)
  then show ?thesis using assms by (auto simp: getShard_def tsInv_def ran_def)
next
  case None
  have sh: "length (dt_shards dts) = n" and ok: "shardsOk n (dt_seriesMapping dts) (dt_shards dts)" using inv by (simp_all add: tsInv_def)
  define j where "j = minShardLoop (dt_shardLoads dts) [1..<n] (dt_shardLoads dts ! 0) 0"
  have j: "j < n" unfolding j_def using n by (intro minShardLoop_bound) auto
  have dts': "dts' = dts\<lparr>dt_shardLoads := (dt_shardLoads dts)[j := i64 (dt_shardLoads dts ! j + 1)], dt_seriesMapping := (dt_seriesMapping dts)(name \<mapsto> j)\<rparr>"
    and i: "i = j"
    using get None sh by (auto simp: getShard_def Let_def j_def)
  have absent: "(dt_shards dts ! k) name = None" if "k < n" for k
  proof (rule ccontr)
    assume "(dt_shards dts ! k) name \<noteq> None"
    then obtain s where "(dt_shards dts ! k) name = Some s" by auto
    from shardsOkD [OF ok that this] None show False by simp
  qed
  have "shardsOk n ((dt_seriesMapping dts)(name \<mapsto> j)) (dt_shards dts)"
    using ok absent by (auto simp: shardsOk_def)
  then have "tsInv n dts'" using inv j by (auto simp: dts' tsInv_def ran_def)
  moreover have "pointsOf dts' m = pointsOf dts m" for m using absent [OF j] None by (auto simp: dts' pointsOf_def split: option.splits)
  ultimately show ?thesis using j i by (simp add: dts')
qed

lemma write_refines:
  assumes inv: "tsInv n dts" and n: "0 < n"
  shows "tsInv n (writePoint now name p dts) \<and> pointsOf (writePoint now name p dts) = retainStep (pointsOf dts) (WriteOp now name p)"
proof -
  obtain i dts1 where get: "getShard name dts = (i, dts1)" by fastforce
  from getShard_inv [OF inv n get] have g: "tsInv n dts1" "i < n" "dt_seriesMapping dts1 name = Some i" "\<And>m. pointsOf dts1 m = pointsOf dts m" by simp_all
  define s where "s = (case (dt_shards dts1 ! i) name of None \<Rightarrow> newShardSeries | Some s \<Rightarrow> s)"
  define s' where "s' = applyRetention now (addPoint p s)"
  have len: "length (dt_shards dts1) = n" and ok: "shardsOk n (dt_seriesMapping dts1) (dt_shards dts1)" using g(1) by (simp_all add: tsInv_def)
  have sok: "seriesOk s" unfolding s_def using shardsOkD [OF ok g(2), of name] by (auto simp: seriesOk_new split: option.splits)
  then have s'ok: "seriesOk s'" unfolding s'_def by (intro seriesOk_retention seriesOk_add)
  have w: "writePoint now name p dts = dts1\<lparr>dt_shards := (dt_shards dts1)[i := (dt_shards dts1 ! i)(name \<mapsto> s')]\<rparr>"
    by (simp add: writePoint_def get Let_def s_def s'_def)
  have "shardsOk n (dt_seriesMapping dts1) ((dt_shards dts1)[i := (dt_shards dts1 ! i)(name \<mapsto> s')])"
    unfolding shardsOk_def
  proof (intro allI impI)
    fix k m u
    assume k: "k < n" and u: "((dt_shards dts1)[i := (dt_shards dts1 ! i)(name \<mapsto> s')] ! k) m = Some u"
    show "dt_seriesMapping dts1 m = Some k \<and> seriesOk u"
    proof (cases "k = i \<and> m = name")
      case True
      then show ?thesis using u len k s'ok g(3) by simp
    next
      case False
      then have "(dt_shards dts1 ! k) m = Some u" using u len k by (cases "k = i") auto
      then show ?thesis by (rule shardsOkD [OF ok k])
    qed
  qed
  then have "tsInv n (writePoint now name p dts)" using g(1) by (simp add: w tsInv_def)
  moreover have "ss_points s = pointsOf dts1 name" by (simp add: s_def pointsOf_def g(3) newShardSeries_def split: option.splits)
  then have "ss_points s' = retainStep (pointsOf dts) (WriteOp now name p) name"
    using sok g(4) by (simp add: s'_def retention_points addPoint_def seriesOk_def)
  then have "pointsOf (writePoint now name p dts) m = retainStep (pointsOf dts) (WriteOp now name p) m" for m
  proof (cases "m = name")
    case False
    have "pointsOf (writePoint now name p dts) m = pointsOf dts1 m"
      using False len g(2) by (auto simp: w pointsOf_def nth_list_update split: option.splits)
    then show ?thesis using False g(4) by simp
  qed (simp add: w pointsOf_def g(2,3) len)
  ultimately show ?thesis by (auto simp: fun_eq_iff)
qed

lemma queries_frame [unchanged]:
  "tsInv n (dts\<lparr>dt_queries := q\<rparr>) = tsInv n dts" "pointsOf (dts\<lparr>dt_queries := q\<rparr>) m = pointsOf dts m"
  by (simp_all add: tsInv_def pointsOf_def split: option.splits)

lemma query_refines:
  assumes inv: "tsInv n dts" and n: "0 < n"
  shows "tsInv n (snd (distributedQuery idNow name start end' dts)) \<and> pointsOf (snd (distributedQuery idNow name start end' dts)) = pointsOf dts"
    and "mset (fst (distributedQuery idNow name start end' dts)) = mset (filter (inRange start end') (pointsOf dts name))"
    and "sorted (map dp_Timestamp (fst (distributedQuery idNow name start end' dts)))"
proof -
  obtain i dts1 where get: "getShard name dts = (i, dts1)" by fastforce
  from getShard_inv [OF inv n get] have g: "tsInv n dts1" "i < n" "dt_seriesMapping dts1 name = Some i" "dt_shards dts1 = dt_shards dts" "\<And>m. pointsOf dts1 m = pointsOf dts m"
    by simp_all
  show "tsInv n (snd (distributedQuery idNow name start end' dts)) \<and> pointsOf (snd (distributedQuery idNow name start end' dts)) = pointsOf dts"
    using g(1,5) by (simp add: distributedQuery_def get Let_def unchanged fun_eq_iff)
  have ok: "shardsOk n (dt_seriesMapping dts1) (dt_shards dts1)" using g(1) by (simp add: tsInv_def)
  have "mset (case (dt_shards dts1 ! i) name of None \<Rightarrow> [] | Some s \<Rightarrow> indexQuery start end' s) = mset (filter (inRange start end') (pointsOf dts1 name))"
  proof (cases "(dt_shards dts1 ! i) name")
    case None
    then show ?thesis by (simp add: pointsOf_def g(3))
  next
    case (Some s)
    then show ?thesis using shardsOkD [OF ok g(2) Some] indexQuery_scan [of s start end'] by (simp add: pointsOf_def g(3))
  qed
  then show "mset (fst (distributedQuery idNow name start end' dts)) = mset (filter (inRange start end') (pointsOf dts name))"
    by (simp only: distributedQuery_def get Let_def prod.case fst_conv mset_sort g(5))
  show "sorted (map dp_Timestamp (fst (distributedQuery idNow name start end' dts)))" by (simp add: distributedQuery_def get Let_def)
qed

text \<open>A store with at least one shard implements the specification.\<close>

locale sharded_store =
  fixes n :: nat
  assumes some_shard: "0 < n"

sublocale sharded_store \<subseteq> store: refined_object tsStep "tsInv n" "\<lambda>_ _. True" pointsOf "\<lambda>_ op. [op]" retainStep
proof unfold_locales
  fix s e
  assume inv: "tsInv n s"
  have "tsInv n (tsStep s e) \<and> pointsOf (tsStep s e) = retainStep (pointsOf s) e"
    using write_refines [OF inv some_shard] query_refines(1) [OF inv some_shard] by (cases e) (auto simp del: retainStep.simps(1))
  then show "tsInv n (tsStep s e)" and "pointsOf (tsStep s e) = run retainStep (pointsOf s) [e]" by simp_all
qed

lemma tsInv_new: "tsInv n (newDistributedTimeSeries n)"
  by (simp add: tsInv_def newDistributedTimeSeries_def shardsOk_def)

lemma pointsOf_new: "pointsOf (newDistributedTimeSeries n) = (\<lambda>_. [])"
  by (simp add: pointsOf_def newDistributedTimeSeries_def fun_eq_iff)

context sharded_store
begin

lemma history:
  "tsInv n (run tsStep (newDistributedTimeSeries n) ops) \<and>
   pointsOf (run tsStep (newDistributedTimeSeries n) ops) = run retainStep (pointsOf (newDistributedTimeSeries n)) ops"
  using store.guarded_run [OF tsInv_new] store.abs_run [OF tsInv_new, of ops] by simp

end

text \<open>The store of the demonstration program has four shards.\<close>

interpretation four_shards: sharded_store 4
  by unfold_locales simp


definition sampleOps :: "int TSOp list" where
  "sampleOps = [WriteOp 10 ''cpu'' \<lparr>dp_Timestamp = 5, dp_Value = 1\<rparr>, WriteOp 11 ''mem'' \<lparr>dp_Timestamp = 6, dp_Value = 9\<rparr>,
     WriteOp 7300000000000 ''cpu'' \<lparr>dp_Timestamp = 7200000000001, dp_Value = 3\<rparr>, WriteOp 7300000000001 ''cpu'' \<lparr>dp_Timestamp = 3600000000000, dp_Value = 2\<rparr>]"


end
