(* ===== verification/CacheStampede.thy ===== *)
theory CacheStampede
  imports GoPrelude
begin

text \<open>
  The cache with a guard against stampedes of \<open>src/solutions/challenge15_solution.go\<close> (\<open>solution1_CacheStampedePrevention\<close>).  Callers of
  \<open>cacheGet\<close> are goroutines with program points; a step runs one critical section of one of them.  \<open>LoadingKey\<close> objects
  live in a heap, since callers keep pointers to objects that were already removed from the map.  The database is
  the parameter \<open>load\<close> (the simulated one of the program returns \<open>value_\<close> and the key), and a load may fail; \<open>lk_key\<close> records for which key an object was created and is
  never read by the operations.  The notification of all waiters is one step: every waiter has a channel of its own with
  room for the one value.

  Shown, in every interleaving: a \<open>LoadingKey\<close> has one loading caller exactly while it is marked as loading, so that
  there is never a second one; and no caller returns the value of another key.  The waiters, however, are taken
  before the load and not after it, so that a caller that waits for a running load is never notified by it.
\<close>

section \<open>State\<close>

record LoadingKey =
  lk_key :: string
  lk_loading :: bool
  lk_waiters :: "nat list"

record 'v CacheEntry =
  ce_Value :: 'v
  ce_Expiry :: gotime

datatype 'v Caller =
    CheckCache | GetKey | LockKey nat | Waiting
  | Load nat "nat list" | Failed nat | StoreData nat "nat list" 'v | Notify nat "nat list" 'v | Finish nat 'v
  | Returned 'v | ReturnedError

record 'v SafeCache =
  sc_data :: "string \<rightharpoonup> 'v CacheEntry"
  sc_loadingKeys :: "string \<rightharpoonup> nat"
  sc_heap :: "LoadingKey list"
  sc_callers :: "(string \<times> 'v Caller) list"
  sc_waiter :: "nat \<rightharpoonup> 'v"

definition newSafeCache :: "string list \<Rightarrow> 'v SafeCache" where
  "newSafeCache keys =
     \<lparr>sc_data = Map.empty, sc_loadingKeys = Map.empty, sc_heap = [], sc_callers = map (\<lambda>k. (k, CheckCache)) keys, sc_waiter = Map.empty\<rparr>"

section \<open>Steps\<close>

definition defaultTTL :: duration where
  "defaultTTL = 5000000000"

definition setCaller :: "nat \<Rightarrow> 'v Caller \<Rightarrow> 'v SafeCache \<Rightarrow> 'v SafeCache" where
  "setCaller i c s = s\<lparr>sc_callers := (sc_callers s)[i := (fst (sc_callers s ! i), c)]\<rparr>"

definition setLoading :: "nat \<Rightarrow> bool \<Rightarrow> nat list \<Rightarrow> 'v SafeCache \<Rightarrow> 'v SafeCache" where
  "setLoading r b ws s = s\<lparr>sc_heap := (sc_heap s)[r := (sc_heap s ! r)\<lparr>lk_loading := b, lk_waiters := ws\<rparr>]\<rparr>"

text \<open>The look-up in the cache, and the \<open>LoadingKey\<close> of a key, made when it is missing.\<close>

definition checkCache :: "gotime \<Rightarrow> string \<Rightarrow> 'v SafeCache \<Rightarrow> 'v Caller" where
  "checkCache now key s =
     (case sc_data s key of Some entry \<Rightarrow> if now < ce_Expiry entry then Returned (ce_Value entry) else GetKey | None \<Rightarrow> GetKey)"

definition getLoadingKey :: "string \<Rightarrow> 'v SafeCache \<Rightarrow> nat \<times> 'v SafeCache" where
  "getLoadingKey key s =
     (case sc_loadingKeys s key of
        Some r \<Rightarrow> (r, s)
      | None \<Rightarrow> (length (sc_heap s), s\<lparr>sc_heap := sc_heap s @ [\<lparr>lk_key = key, lk_loading = False, lk_waiters = []\<rparr>],
                                       sc_loadingKeys := (sc_loadingKeys s)(key \<mapsto> length (sc_heap s))\<rparr>))"

definition lockKey :: "nat \<Rightarrow> nat \<Rightarrow> 'v SafeCache \<Rightarrow> 'v SafeCache" where
  "lockKey i r s =
     (let lk = sc_heap s ! r
      in if lk_loading lk then setCaller i Waiting (setLoading r True (lk_waiters lk @ [i]) s)
         else setCaller i (Load r (lk_waiters lk)) (setLoading r True [] s))"

definition cacheStep :: "(string \<Rightarrow> 'v) \<Rightarrow> nat \<Rightarrow> gotime \<Rightarrow> bool \<Rightarrow> 'v SafeCache \<Rightarrow> 'v SafeCache" where
  "cacheStep load i now ok s =
     (let key = fst (sc_callers s ! i)
      in case snd (sc_callers s ! i) of
           CheckCache \<Rightarrow> setCaller i (checkCache now key s) s
         | GetKey \<Rightarrow> (let (r, s') = getLoadingKey key s in setCaller i (LockKey r) s')
         | LockKey r \<Rightarrow> lockKey i r s
         | Waiting \<Rightarrow> (case sc_waiter s i of Some v \<Rightarrow> setCaller i (Returned v) s | None \<Rightarrow> s)
         | Load r ws \<Rightarrow> setCaller i (if ok then StoreData r ws (load key) else Failed r) s
         | Failed r \<Rightarrow> setCaller i ReturnedError (setLoading r False (lk_waiters (sc_heap s ! r)) s)
         | StoreData r ws v \<Rightarrow>
             setCaller i (Notify r ws v) (s\<lparr>sc_data := (sc_data s)(key \<mapsto> \<lparr>ce_Value = v, ce_Expiry = now + defaultTTL\<rparr>)\<rparr>)
         | Notify r ws v \<Rightarrow> setCaller i (Finish r v) (s\<lparr>sc_waiter := (\<lambda>j. if j \<in> set ws then Some v else sc_waiter s j)\<rparr>)
         | Finish r v \<Rightarrow>
             setCaller i (Returned v) ((setLoading r False (lk_waiters (sc_heap s ! r)) s)\<lparr>sc_loadingKeys := (sc_loadingKeys s)(key := None)\<rparr>)
         | Returned v \<Rightarrow> s
         | ReturnedError \<Rightarrow> s)"

text \<open>A caller whose context is done while it waits gives up.\<close>

definition ctxDone :: "nat \<Rightarrow> 'v SafeCache \<Rightarrow> 'v SafeCache" where
  "ctxDone i s = (case snd (sc_callers s ! i) of Waiting \<Rightarrow> setCaller i ReturnedError s | _ \<Rightarrow> s)"

datatype CacheEvent = Step nat gotime bool | Done nat

fun cacheRun :: "(string \<Rightarrow> 'v) \<Rightarrow> 'v SafeCache \<Rightarrow> CacheEvent \<Rightarrow> 'v SafeCache" where
  "cacheRun load s (Step i now ok) = (if i < length (sc_callers s) then cacheStep load i now ok s else s)"
| "cacheRun load s (Done i) = (if i < length (sc_callers s) then ctxDone i s else s)"

section \<open>The stampede guard does not notify\<close>

text \<open>Two callers of one key: the second waits while the first loads; the first stores the value, notifies the waiters it had
  taken before the load, none, and returns.  The second is left waiting for ever: no step of any caller changes the state.\<close>

definition stampede :: "CacheEvent list" where
  "stampede = [Step 0 0 True, Step 0 0 True, Step 0 0 True, Step 1 0 True, Step 1 0 True, Step 1 0 True,
     Step 0 1 True, Step 0 1 True, Step 0 1 True, Step 0 1 True]"

definition stuckCache :: "nat SafeCache" where
  "stuckCache = run (cacheRun (\<lambda>_. 7)) (newSafeCache [''k'', ''k'']) stampede"

lemma stuck_callers: "sc_callers stuckCache = [(''k'', Returned 7), (''k'', Waiting)]" and stuck_waiter: "sc_waiter stuckCache 1 = None"
  by code_simp+

theorem waiter_never_notified:
  "sc_callers (run (cacheRun (\<lambda>_. 7)) stuckCache (map (\<lambda>(i, now, ok). Step i now ok) steps)) = [(''k'', Returned 7), (''k'', Waiting)]"
proof -
  have step: "cacheRun (\<lambda>_. 7) stuckCache (Step i now ok) = stuckCache" for i now ok
    by (cases "i = 0"; cases "i = 1") (auto simp: stuck_callers stuck_waiter [simplified] cacheStep_def)
  have "run (cacheRun (\<lambda>_. 7)) stuckCache (map (\<lambda>(i, now, ok). Step i now ok) steps) = stuckCache"
    by (induction steps) (auto simp: step simp del: cacheRun.simps)
  then show ?thesis by (simp add: stuck_callers)
qed

section \<open>One loader per key object\<close>

fun loadsOn :: "'v Caller \<Rightarrow> nat option" where
  "loadsOn (Load r ws) = Some r"
| "loadsOn (Failed r) = Some r"
| "loadsOn (StoreData r ws v) = Some r"
| "loadsOn (Notify r ws v) = Some r"
| "loadsOn (Finish r v) = Some r"
| "loadsOn _ = None"

definition loaders :: "nat \<Rightarrow> (string \<times> 'v Caller) list \<Rightarrow> nat" where
  "loaders r cs = length (filter (\<lambda>c. loadsOn (snd c) = Some r) cs)"

definition pointsTo :: "LoadingKey list \<Rightarrow> nat \<Rightarrow> string \<Rightarrow> bool" where
  "pointsTo heap r k \<longleftrightarrow> r < length heap \<and> lk_key (heap ! r) = k"

definition ofKey :: "string list \<Rightarrow> string \<Rightarrow> nat list \<Rightarrow> bool" where
  "ofKey ks k ws \<longleftrightarrow> (\<forall>j \<in> set ws. j < length ks \<and> ks ! j = k)"

lemma ofKey_Nil [simp]: "ofKey ks k []"
  by (simp add: ofKey_def)

lemma ofKey_snoc [simp]: "ofKey ks k (ws @ [i]) \<longleftrightarrow> ofKey ks k ws \<and> i < length ks \<and> ks ! i = k"
  by (auto simp: ofKey_def)

text \<open>What a caller of key \<open>k\<close> holds: a pointer to an object of its key, waiters of its key, the value of its key.\<close>

fun callerOk :: "(string \<Rightarrow> 'v) \<Rightarrow> string list \<Rightarrow> LoadingKey list \<Rightarrow> string \<Rightarrow> 'v Caller \<Rightarrow> bool" where
  "callerOk load ks heap k (LockKey r) \<longleftrightarrow> pointsTo heap r k"
| "callerOk load ks heap k (Load r ws) \<longleftrightarrow> pointsTo heap r k \<and> ofKey ks k ws"
| "callerOk load ks heap k (Failed r) \<longleftrightarrow> pointsTo heap r k"
| "callerOk load ks heap k (StoreData r ws v) \<longleftrightarrow> pointsTo heap r k \<and> ofKey ks k ws \<and> v = load k"
| "callerOk load ks heap k (Notify r ws v) \<longleftrightarrow> pointsTo heap r k \<and> ofKey ks k ws \<and> v = load k"
| "callerOk load ks heap k (Finish r v) \<longleftrightarrow> pointsTo heap r k \<and> v = load k"
| "callerOk load ks heap k (Returned v) \<longleftrightarrow> v = load k"
| "callerOk load ks heap k _ \<longleftrightarrow> True"

definition exclusive :: "'v SafeCache \<Rightarrow> bool" where
  "exclusive s \<longleftrightarrow> (\<forall>r < length (sc_heap s). loaders r (sc_callers s) = (if lk_loading (sc_heap s ! r) then 1 else 0))"

definition valuesOk :: "(string \<Rightarrow> 'v) \<Rightarrow> 'v SafeCache \<Rightarrow> bool" where
  "valuesOk load s \<longleftrightarrow> (\<forall>k e. sc_data s k = Some e \<longrightarrow> ce_Value e = load k) \<and>
     (\<forall>j v. sc_waiter s j = Some v \<longrightarrow> j < length (sc_callers s) \<and> v = load (fst (sc_callers s ! j)))"

definition keysOk :: "'v SafeCache \<Rightarrow> bool" where
  "keysOk s \<longleftrightarrow> (\<forall>k r. sc_loadingKeys s k = Some r \<longrightarrow> pointsTo (sc_heap s) r k) \<and>
     (\<forall>r < length (sc_heap s). ofKey (map fst (sc_callers s)) (lk_key (sc_heap s ! r)) (lk_waiters (sc_heap s ! r)))"

definition callersOk :: "(string \<Rightarrow> 'v) \<Rightarrow> 'v SafeCache \<Rightarrow> bool" where
  "callersOk load s \<longleftrightarrow> (\<forall>i < length (sc_callers s). callerOk load (map fst (sc_callers s)) (sc_heap s) (fst (sc_callers s ! i)) (snd (sc_callers s ! i)))"

definition cacheInv :: "(string \<Rightarrow> 'v) \<Rightarrow> 'v SafeCache \<Rightarrow> bool" where
  "cacheInv load s \<longleftrightarrow> exclusive s \<and> valuesOk load s \<and> keysOk s \<and> callersOk load s"

lemma loaders_update:
  "i < length cs \<Longrightarrow> loaders r (cs[i := (k, c)]) + (if loadsOn (snd (cs ! i)) = Some r then 1 else 0) = loaders r cs + (if loadsOn c = Some r then 1 else 0)"
  unfolding loaders_def using length_filter_update [of i cs "\<lambda>c. loadsOn (snd c) = Some r" "(k, c)"] by simp

lemma keys_setCaller [simp]: "i < length (sc_callers s) \<Longrightarrow> map fst (sc_callers (setCaller i c s)) = map fst (sc_callers s)"
  by (simp add: setCaller_def map_update list_update_same_conv)

lemma setCaller_fields [simp]:
  "sc_data (setCaller i c s) = sc_data s" "sc_loadingKeys (setCaller i c s) = sc_loadingKeys s" "sc_heap (setCaller i c s) = sc_heap s"
  "sc_waiter (setCaller i c s) = sc_waiter s" "length (sc_callers (setCaller i c s)) = length (sc_callers s)"
  by (simp_all add: setCaller_def)

lemma fst_setCaller [simp]: "fst (sc_callers (setCaller i c s) ! j) = fst (sc_callers s ! j)"
  by (cases "i < length (sc_callers s)"; cases "j = i") (simp_all add: setCaller_def list_update_beyond)

lemma setLoading_fields [simp]:
  "sc_data (setLoading r b ws s) = sc_data s" "sc_loadingKeys (setLoading r b ws s) = sc_loadingKeys s" "sc_callers (setLoading r b ws s) = sc_callers s"
  "sc_waiter (setLoading r b ws s) = sc_waiter s" "length (sc_heap (setLoading r b ws s)) = length (sc_heap s)"
  by (simp_all add: setLoading_def)

lemma key_setLoading [simp]: "lk_key (sc_heap (setLoading r b ws s) ! q) = lk_key (sc_heap s ! q)"
  by (cases "r < length (sc_heap s)"; cases "q = r") (simp_all add: setLoading_def list_update_beyond)

lemma pointsTo_setLoading [simp]: "pointsTo (sc_heap (setLoading r b ws s)) q k = pointsTo (sc_heap s) q k"
  by (simp add: pointsTo_def)

lemma callerOk_pointers: "(\<And>r k. pointsTo heap r k \<Longrightarrow> pointsTo heap' r k) \<Longrightarrow> callerOk load ks heap k c \<Longrightarrow> callerOk load ks heap' k c"
  by (cases c) auto

text \<open>A caller moves on: the new point has to be in order, and the loading flags have to follow.\<close>

lemma callersOk_setCaller:
  assumes "callersOk load s" and "i < length (sc_callers s)" and "callerOk load (map fst (sc_callers s)) (sc_heap s) (fst (sc_callers s ! i)) c"
  shows "callersOk load (setCaller i c s)"
proof -
  have "callerOk load (map fst (sc_callers s)) (sc_heap s) (fst (sc_callers s ! j)) (snd (sc_callers (setCaller i c s) ! j))" if "j < length (sc_callers s)" for j
    using assms that by (cases "j = i") (simp_all add: setCaller_def callersOk_def)
  then show ?thesis using assms(2) by (simp add: callersOk_def)
qed

lemma callersOk_heap:
  assumes "callersOk load s" and "sc_callers s' = sc_callers s" and "\<And>r k. pointsTo (sc_heap s) r k \<Longrightarrow> pointsTo (sc_heap s') r k"
  shows "callersOk load s'"
  unfolding callersOk_def assms(2)
proof (intro allI impI)
  fix i
  assume "i < length (sc_callers s)"
  then have "callerOk load (map fst (sc_callers s)) (sc_heap s) (fst (sc_callers s ! i)) (snd (sc_callers s ! i))"
    using assms(1) by (simp add: callersOk_def)
  then show "callerOk load (map fst (sc_callers s)) (sc_heap s') (fst (sc_callers s ! i)) (snd (sc_callers s ! i))"
    using assms(3) by (rule callerOk_pointers [rotated])
qed

lemma valuesOk_same:
  "valuesOk load s \<Longrightarrow> sc_data s' = sc_data s \<Longrightarrow> sc_waiter s' = sc_waiter s \<Longrightarrow> map fst (sc_callers s') = map fst (sc_callers s) \<Longrightarrow> valuesOk load s'"
proof -
  assume v: "valuesOk load s" and eq: "sc_data s' = sc_data s" "sc_waiter s' = sc_waiter s" and ks: "map fst (sc_callers s') = map fst (sc_callers s)"
  have "length (sc_callers s') = length (sc_callers s)" using ks by (metis length_map)
  moreover have "fst (sc_callers s' ! j) = fst (sc_callers s ! j)" if "j < length (sc_callers s)" for j
    using arg_cong [OF ks, of "\<lambda>xs. xs ! j"] that calculation by simp
  ultimately show "valuesOk load s'" using v eq by (simp add: valuesOk_def)
qed

lemma keysOk_same:
  "keysOk s \<Longrightarrow> sc_loadingKeys s' = sc_loadingKeys s \<Longrightarrow> sc_heap s' = sc_heap s \<Longrightarrow> map fst (sc_callers s') = map fst (sc_callers s) \<Longrightarrow> keysOk s'"
  by (simp add: keysOk_def)

lemma exclusive_setCaller:
  assumes "i < length (sc_callers s)"
    and "\<And>r. r < length (sc_heap s') \<Longrightarrow> loaders r (sc_callers s) + (if loadsOn c = Some r then 1 else 0) =
      (if lk_loading (sc_heap s' ! r) then 1 else 0) + (if loadsOn (snd (sc_callers s ! i)) = Some r then 1 else 0)"
    and "sc_callers s' = sc_callers s"
  shows "exclusive (setCaller i c s')"
  unfolding exclusive_def
proof (intro allI impI)
  fix r
  assume "r < length (sc_heap (setCaller i c s'))"
  then show "loaders r (sc_callers (setCaller i c s')) = (if lk_loading (sc_heap (setCaller i c s') ! r) then 1 else 0)"
    using assms(2) [of r] loaders_update [OF assms(1), of r "fst (sc_callers s ! i)" c] assms(3) by (simp add: setCaller_def split: if_splits)
qed

lemma cacheInv_move:
  assumes inv: "cacheInv load s" and i: "i < length (sc_callers s)"
    and c: "callerOk load (map fst (sc_callers s)) (sc_heap s) (fst (sc_callers s ! i)) c"
    and l: "loadsOn c = loadsOn (snd (sc_callers s ! i))"
  shows "cacheInv load (setCaller i c s)"
proof -
  have "exclusive (setCaller i c s)"
    by (rule exclusive_setCaller [OF i _ refl]) (use inv l in \<open>simp add: cacheInv_def exclusive_def\<close>)
  moreover have "valuesOk load (setCaller i c s)" by (rule valuesOk_same [of load s]) (use inv i in \<open>simp_all add: cacheInv_def\<close>)
  moreover have "keysOk (setCaller i c s)" by (rule keysOk_same [of s]) (use inv i in \<open>simp_all add: cacheInv_def\<close>)
  moreover have "callersOk load (setCaller i c s)" by (rule callersOk_setCaller [OF _ i c]) (use inv in \<open>simp add: cacheInv_def\<close>)
  ultimately show ?thesis by (simp add: cacheInv_def)
qed

lemma cacheInv_data:
  "cacheInv load s \<Longrightarrow> cacheInv load (s\<lparr>sc_data := (sc_data s)(k \<mapsto> \<lparr>ce_Value = load k, ce_Expiry = t\<rparr>)\<rparr>)"
  by (simp add: cacheInv_def exclusive_def valuesOk_def keysOk_def callersOk_def)

lemma cacheInv_notify:
  assumes "cacheInv load s" and "ofKey (map fst (sc_callers s)) k ws"
  shows "cacheInv load (s\<lparr>sc_waiter := (\<lambda>j. if j \<in> set ws then Some (load k) else sc_waiter s j)\<rparr>)"
proof -
  let ?s = "s\<lparr>sc_waiter := (\<lambda>j. if j \<in> set ws then Some (load k) else sc_waiter s j)\<rparr>"
  have "valuesOk load ?s" using assms by (auto simp: cacheInv_def valuesOk_def ofKey_def)
  moreover have "exclusive ?s \<and> keysOk ?s \<and> callersOk load ?s" using assms(1) by (simp add: cacheInv_def exclusive_def keysOk_def callersOk_def)
  ultimately show ?thesis by (simp add: cacheInv_def)
qed

lemma cacheInv_newKey:
  assumes inv: "cacheInv load s"
  shows "cacheInv load (s\<lparr>sc_heap := sc_heap s @ [\<lparr>lk_key = k, lk_loading = False, lk_waiters = []\<rparr>], sc_loadingKeys := (sc_loadingKeys s)(k \<mapsto> length (sc_heap s))\<rparr>)"
proof -
  let ?s = "s\<lparr>sc_heap := sc_heap s @ [\<lparr>lk_key = k, lk_loading = False, lk_waiters = []\<rparr>], sc_loadingKeys := (sc_loadingKeys s)(k \<mapsto> length (sc_heap s))\<rparr>"
  have pt: "pointsTo (sc_heap s) r k' \<Longrightarrow> pointsTo (sc_heap ?s) r k'" for r k' by (simp add: pointsTo_def nth_append)
  have "loadsOn (snd c) \<noteq> Some (length (sc_heap s))" if "c \<in> set (sc_callers s)" for c
  proof -
    from that obtain i where i: "i < length (sc_callers s)" "sc_callers s ! i = c" by (auto simp: in_set_conv_nth)
    then have "callerOk load (map fst (sc_callers s)) (sc_heap s) (fst c) (snd c)" using inv by (auto simp: cacheInv_def callersOk_def)
    then show ?thesis by (cases "snd c") (auto simp: pointsTo_def)
  qed
  then have "loaders (length (sc_heap s)) (sc_callers s) = 0" by (auto simp: loaders_def filter_empty_conv)
  then have "exclusive ?s" using inv by (auto simp: cacheInv_def exclusive_def nth_append less_Suc_eq)
  moreover have "valuesOk load ?s" by (rule valuesOk_same [of load s]) (use inv in \<open>simp_all add: cacheInv_def\<close>)
  moreover have "keysOk ?s" using inv pt by (auto simp: cacheInv_def keysOk_def nth_append less_Suc_eq pointsTo_def split: if_splits)
  moreover have "callersOk load ?s" by (rule callersOk_heap [of load s, OF _ _ pt]) (use inv in \<open>simp_all add: cacheInv_def\<close>)
  ultimately show ?thesis by (simp add: cacheInv_def)
qed

text \<open>The loading flag changes together with the caller.\<close>

lemma cacheInv_flag:
  assumes inv: "cacheInv load s" and i: "i < length (sc_callers s)" and r: "r < length (sc_heap s)"
    and ws: "ofKey (map fst (sc_callers s)) (lk_key (sc_heap s ! r)) ws"
    and c: "callerOk load (map fst (sc_callers s)) (sc_heap s) (fst (sc_callers s ! i)) c"
    and flag: "(if b then 1 else (0::nat)) + (if loadsOn (snd (sc_callers s ! i)) = Some r then 1 else 0) =
      (if lk_loading (sc_heap s ! r) then 1 else 0) + (if loadsOn c = Some r then 1 else 0)"
    and other: "\<And>q. q \<noteq> r \<Longrightarrow> loadsOn c = Some q \<longleftrightarrow> loadsOn (snd (sc_callers s ! i)) = Some q"
  shows "cacheInv load (setCaller i c (setLoading r b ws s))"
proof -
  let ?s = "setLoading r b ws s"
  have "exclusive (setCaller i c ?s)"
  proof (rule exclusive_setCaller [OF i])
    fix q
    assume q: "q < length (sc_heap ?s)"
    have old: "loaders q (sc_callers s) = (if lk_loading (sc_heap s ! q) then 1 else 0)" using inv q by (simp add: cacheInv_def exclusive_def)
    show "loaders q (sc_callers s) + (if loadsOn c = Some q then 1 else 0) =
        (if lk_loading (sc_heap ?s ! q) then 1 else 0) + (if loadsOn (snd (sc_callers s ! i)) = Some q then 1 else 0)"
    proof (cases "q = r")
      case True
      then show ?thesis using old flag r by (simp add: setLoading_def)
    next
      case False
      then show ?thesis using old other [OF False] by (simp add: setLoading_def)
    qed
  qed simp
  moreover have "valuesOk load (setCaller i c ?s)" by (rule valuesOk_same [of load s]) (use inv i in \<open>simp_all add: cacheInv_def\<close>)
  moreover have "keysOk ?s"
    using inv ws r by (auto simp: cacheInv_def keysOk_def) (auto simp: setLoading_def nth_list_update)
  then have "keysOk (setCaller i c ?s)" by (rule keysOk_same) (use i in simp_all)
  moreover have "callersOk load ?s" by (rule callersOk_heap [of load s]) (use inv in \<open>simp_all add: cacheInv_def\<close>)
  then have "callersOk load (setCaller i c ?s)"
    by (rule callersOk_setCaller) (use i c callerOk_pointers [OF _ c, of "sc_heap ?s"] in simp_all)
  ultimately show ?thesis by (simp add: cacheInv_def)
qed

lemma cacheInv_unkey: "cacheInv load s \<Longrightarrow> cacheInv load (s\<lparr>sc_loadingKeys := (sc_loadingKeys s)(k := None)\<rparr>)"
  by (simp add: cacheInv_def exclusive_def valuesOk_def keysOk_def callersOk_def)

lemma setCaller_unkey:
  "setCaller i c (s\<lparr>sc_loadingKeys := m\<rparr>) = (setCaller i c s)\<lparr>sc_loadingKeys := m\<rparr>"
  by (simp add: setCaller_def)

lemma heap_waiters:
  "cacheInv load s \<Longrightarrow> r < length (sc_heap s) \<Longrightarrow> ofKey (map fst (sc_callers s)) (lk_key (sc_heap s ! r)) (lk_waiters (sc_heap s ! r))"
  by (simp add: cacheInv_def keysOk_def)

lemma loading_flag:
  assumes inv: "cacheInv load s" and i: "i < length (sc_callers s)" and l: "loadsOn (snd (sc_callers s ! i)) = Some r" and r: "r < length (sc_heap s)"
  shows "lk_loading (sc_heap s ! r)"
proof -
  have "loaders r (sc_callers s) > 0"
    using i l by (auto simp: loaders_def filter_empty_conv intro!: bexI [of _ "sc_callers s ! i"])
  then show ?thesis using inv r by (auto simp: cacheInv_def exclusive_def split: if_splits)
qed

lemma lockKey_inv:
  assumes inv: "cacheInv load s" and i: "i < length (sc_callers s)" and at: "snd (sc_callers s ! i) = LockKey r"
  shows "cacheInv load (lockKey i r s)"
proof -
  have "callerOk load (map fst (sc_callers s)) (sc_heap s) (fst (sc_callers s ! i)) (LockKey r)"
    using inv i at by (metis cacheInv_def callersOk_def)
  then have r: "r < length (sc_heap s)" "lk_key (sc_heap s ! r) = fst (sc_callers s ! i)" by (simp_all add: pointsTo_def)
  note ws = heap_waiters [OF inv r(1)]
  show ?thesis
  proof (cases "lk_loading (sc_heap s ! r)")
    case True
    have "cacheInv load (setCaller i Waiting (setLoading r True (lk_waiters (sc_heap s ! r) @ [i]) s))"
      by (rule cacheInv_flag [OF inv i r(1)]) (use ws i r at True in simp_all)
    then show ?thesis using True by (simp add: lockKey_def Let_def)
  next
    case False
    have "cacheInv load (setCaller i (Load r (lk_waiters (sc_heap s ! r))) (setLoading r True [] s))"
      by (rule cacheInv_flag [OF inv i r(1)]) (use ws i r at False in \<open>simp_all add: pointsTo_def\<close>)
    then show ?thesis using False by (simp add: lockKey_def Let_def)
  qed
qed

lemma cacheInv_step:
  assumes inv: "cacheInv load s" and i: "i < length (sc_callers s)"
  shows "cacheInv load (cacheStep load i now ok s)"
proof -
  define k where "k = fst (sc_callers s ! i)"
  have co: "callerOk load (map fst (sc_callers s)) (sc_heap s) k (snd (sc_callers s ! i))"
    using inv i by (simp add: cacheInv_def callersOk_def k_def)
  note move = cacheInv_move [OF inv i, folded k_def]
  show ?thesis
  proof (cases "snd (sc_callers s ! i)")
    case CheckCache
    have "callerOk load (map fst (sc_callers s)) (sc_heap s) k (checkCache now k s)" "loadsOn (checkCache now k s) = None"
      using inv by (auto simp: checkCache_def cacheInv_def valuesOk_def split: option.splits)
    then have "cacheInv load (setCaller i (checkCache now k s) s)" by (intro move) (simp_all add: CheckCache)
    then show ?thesis by (simp add: cacheStep_def CheckCache k_def)
  next
    case GetKey
    show ?thesis
    proof (cases "sc_loadingKeys s k")
      case (Some r)
      then have "pointsTo (sc_heap s) r k" using inv by (simp add: cacheInv_def keysOk_def)
      then have "cacheInv load (setCaller i (LockKey r) s)" by (intro move) (simp_all add: GetKey)
      then show ?thesis using Some by (simp add: cacheStep_def GetKey getLoadingKey_def k_def)
    next
      case None
      show ?thesis
        using None cacheInv_move [OF cacheInv_newKey [OF inv, of k], of i "LockKey (length (sc_heap s))"] i
        by (simp add: cacheStep_def GetKey getLoadingKey_def k_def [symmetric] pointsTo_def)
    qed
  next
    case (LockKey r)
    then show ?thesis using lockKey_inv [OF inv i LockKey] by (simp add: cacheStep_def)
  next
    case Waiting
    show ?thesis
    proof (cases "sc_waiter s i")
      case (Some v)
      then have "v = load k" using inv by (simp add: cacheInv_def valuesOk_def k_def)
      then have "cacheInv load (setCaller i (Returned v) s)" by (intro move) (simp_all add: Waiting)
      then show ?thesis using Some by (simp add: cacheStep_def Waiting)
    qed (use inv in \<open>simp add: cacheStep_def Waiting\<close>)
  next
    case (Load r ws)
    have "cacheInv load (setCaller i (if ok then StoreData r ws (load k) else Failed r) s)"
      by (rule move) (use co Load in auto)
    then show ?thesis by (simp add: cacheStep_def Load k_def [symmetric] split del: if_split)
  next
    case (Failed r)
    have r: "r < length (sc_heap s)" using co Failed by (simp add: pointsTo_def)
    have "lk_loading (sc_heap s ! r)" by (rule loading_flag [OF inv i _ r]) (simp add: Failed)
    then have "cacheInv load (setCaller i ReturnedError (setLoading r False (lk_waiters (sc_heap s ! r)) s))"
      by (intro cacheInv_flag [OF inv i r heap_waiters [OF inv r]]) (auto simp: Failed)
    then show ?thesis by (simp add: cacheStep_def Failed)
  next
    case (StoreData r ws v)
    have "cacheInv load (setCaller i (Notify r ws v) (s\<lparr>sc_data := (sc_data s)(k \<mapsto> \<lparr>ce_Value = load k, ce_Expiry = now + defaultTTL\<rparr>)\<rparr>))"
      by (rule cacheInv_move [OF cacheInv_data [OF inv]]) (use i co StoreData in \<open>auto simp: k_def\<close>)
    then show ?thesis using co StoreData by (simp add: cacheStep_def k_def)
  next
    case (Notify r ws v)
    have "cacheInv load (setCaller i (Finish r v) (s\<lparr>sc_waiter := (\<lambda>j. if j \<in> set ws then Some (load k) else sc_waiter s j)\<rparr>))"
      by (rule cacheInv_move [OF cacheInv_notify [OF inv]]) (use i co Notify in \<open>auto simp: k_def\<close>)
    then show ?thesis using co Notify by (simp add: cacheStep_def k_def [symmetric])
  next
    case (Finish r v)
    have r: "r < length (sc_heap s)" using co Finish by (simp add: pointsTo_def)
    have "lk_loading (sc_heap s ! r)" by (rule loading_flag [OF inv i _ r]) (simp add: Finish)
    then have "cacheInv load (setCaller i (Returned v) (setLoading r False (lk_waiters (sc_heap s ! r)) s))"
      by (intro cacheInv_flag [OF inv i r heap_waiters [OF inv r]]) (use co in \<open>auto simp: Finish k_def\<close>)
    from cacheInv_unkey [OF this, of k] show ?thesis by (simp add: cacheStep_def Finish setCaller_unkey k_def)
  qed (use inv in \<open>simp_all add: cacheStep_def\<close>)
qed

lemma cacheInv_done: "cacheInv load s \<Longrightarrow> i < length (sc_callers s) \<Longrightarrow> cacheInv load (ctxDone i s)"
  by (auto simp: ctxDone_def intro!: cacheInv_move split: Caller.splits)

interpretation cache: locked_object "cacheRun load" "cacheInv load"
proof unfold_locales
  fix s :: "'a SafeCache" and e
  assume "cacheInv load s"
  then show "cacheInv load (cacheRun load s e)" by (cases e) (simp_all add: cacheInv_step cacheInv_done)
qed

lemma cacheInv_new: "cacheInv load (newSafeCache keys)"
  by (simp add: cacheInv_def newSafeCache_def exclusive_def valuesOk_def keysOk_def callersOk_def)

text \<open>C27.  In every interleaving of any callers of any keys, with failing loads and expired contexts: every \<open>LoadingKey\<close> object has exactly
  one caller that loads while it is marked as loading and none otherwise, so that no two callers load through
  the same object at the same time; and a caller that returns a value returns the one its key has in the database.\<close>

theorem stampede_one_loader:
  "let s = run (cacheRun load) (newSafeCache keys) es
   in exclusive s \<and> list_all (\<lambda>(k, c). case c of Returned v \<Rightarrow> v = load k | _ \<Rightarrow> True) (sc_callers s)"
proof -
  define s where "s = run (cacheRun load) (newSafeCache keys) es"
  have inv: "cacheInv load s" unfolding s_def by (rule cache.inv_run [OF cacheInv_new])
  have "callerOk load (map fst (sc_callers s)) (sc_heap s) k c" if "(k, c) \<in> set (sc_callers s)" for k c
    using inv that by (auto simp: cacheInv_def callersOk_def in_set_conv_nth)
  then have "list_all (\<lambda>(k, c). case c of Returned v \<Rightarrow> v = load k | _ \<Rightarrow> True) (sc_callers s)"
    by (fastforce simp: list_all_iff split: Caller.splits)
  then show ?thesis unfolding s_def [symmetric] using inv by (simp add: cacheInv_def Let_def)
qed

end
