(* ===== verification/CacheConsistency.thy ===== *)
theory CacheConsistency
  imports GoPrelude
begin

text \<open>
  The hot-key cache and the write-through cache of \<open>src/solutions/challenge15_solution.go\<close> (\<open>solution2_HotKeyHandling\<close>,
  \<open>solution3_ConsistencyGuarantee\<close>).  For both, reads and writes are given as the sequence of their atomic
  accesses and composed to whole calls; the two clock readings of a cache entry are one.  Shown: when whole calls do not overlap, every read returns the last value written,
  whatever the clock, the promotions and the invalidations; when they overlap, both caches can keep a value that was
  overwritten, for ever in the first and until its expiry in the second.
\<close>

section \<open>Hot keys\<close>

record 'v HotKeyCache =
  hk_globalCache :: "string \<rightharpoonup> 'v"
  hk_localReplica :: "string \<rightharpoonup> 'v"
  hk_hotKeys :: "string \<rightharpoonup> int"
  hk_threshold :: int

definition newHotKeyCache :: "'v HotKeyCache" where
  "newHotKeyCache = \<lparr>hk_globalCache = Map.empty, hk_localReplica = Map.empty, hk_hotKeys = Map.empty, hk_threshold = 100\<rparr>"

text \<open>The accesses of \<open>cacheIncrementAccess\<close>: the counter, the load of the global value at the threshold, the store into the replica.\<close>

definition countAccess :: "string \<Rightarrow> 'v HotKeyCache \<Rightarrow> int \<times> 'v HotKeyCache" where
  "countAccess key c = (let n = i64 (get0 (hk_hotKeys c) key + 1) in (n, c\<lparr>hk_hotKeys := (hk_hotKeys c)(key \<mapsto> n)\<rparr>))"

definition storeReplica :: "string \<Rightarrow> 'v \<Rightarrow> 'v HotKeyCache \<Rightarrow> 'v HotKeyCache" where
  "storeReplica key v c = c\<lparr>hk_localReplica := (hk_localReplica c)(key \<mapsto> v)\<rparr>"

definition storeGlobal :: "string \<Rightarrow> 'v \<Rightarrow> 'v HotKeyCache \<Rightarrow> 'v HotKeyCache" where
  "storeGlobal key v c = c\<lparr>hk_globalCache := (hk_globalCache c)(key \<mapsto> v)\<rparr>"

definition cacheIncrementAccess :: "string \<Rightarrow> 'v HotKeyCache \<Rightarrow> int \<times> 'v HotKeyCache" where
  "cacheIncrementAccess key c0 =
     (let (n, c) = countAccess key c0
      in (n, if n = hk_threshold c then (case hk_globalCache c key of Some v \<Rightarrow> storeReplica key v c | None \<Rightarrow> c) else c))"

definition hotGet :: "string \<Rightarrow> 'v HotKeyCache \<Rightarrow> 'v option \<times> 'v HotKeyCache" where
  "hotGet key c =
     (case hk_localReplica c key of
        Some v \<Rightarrow> (Some v, snd (cacheIncrementAccess key c))
      | None \<Rightarrow>
          (case hk_globalCache c key of
             Some v \<Rightarrow> (Some v, snd (cacheIncrementAccess key c))
           | None \<Rightarrow> (None, c)))"

definition hotSet :: "string \<Rightarrow> 'v \<Rightarrow> 'v HotKeyCache \<Rightarrow> 'v HotKeyCache" where
  "hotSet key v c0 =
     (let c = storeGlobal key v c0
      in case hk_localReplica c key of Some _ \<Rightarrow> storeReplica key v c | None \<Rightarrow> c)"

datatype 'v CacheCall = GetCall gotime string | SetCall gotime string 'v | Invalidate string

text \<open>The specification of both caches: the last value written.\<close>

fun lastWrite :: "(string \<rightharpoonup> 'v) \<Rightarrow> 'v CacheCall \<Rightarrow> (string \<rightharpoonup> 'v)" where
  "lastWrite m (SetCall now k v) = m(k \<mapsto> v)"
| "lastWrite m _ = m"

fun hotStep :: "'v HotKeyCache \<Rightarrow> 'v CacheCall \<Rightarrow> 'v HotKeyCache" where
  "hotStep c (GetCall now k) = snd (hotGet k c)"
| "hotStep c (SetCall now k v) = hotSet k v c"
| "hotStep c (Invalidate k) = c"

definition replicaOk :: "'v HotKeyCache \<Rightarrow> bool" where
  "replicaOk c \<longleftrightarrow> hk_localReplica c \<subseteq>\<^sub>m hk_globalCache c"

lemma increment_global [simp]: "hk_globalCache (snd (cacheIncrementAccess k c)) = hk_globalCache c"
  by (auto simp: cacheIncrementAccess_def countAccess_def storeReplica_def Let_def split: option.splits)

lemma increment_ok: "replicaOk c \<Longrightarrow> replicaOk (snd (cacheIncrementAccess k c))"
  by (auto simp: cacheIncrementAccess_def countAccess_def storeReplica_def Let_def replicaOk_def map_le_def split: option.splits)

lemma hotGet_ok: "replicaOk c \<Longrightarrow> replicaOk (snd (hotGet k c)) \<and> hk_globalCache (snd (hotGet k c)) = hk_globalCache c"
  by (auto simp: hotGet_def increment_ok split: option.splits)

lemma hotSet_ok: "replicaOk c \<Longrightarrow> replicaOk (hotSet k v c) \<and> hk_globalCache (hotSet k v c) = (hk_globalCache c)(k \<mapsto> v)"
  by (auto simp: hotSet_def storeGlobal_def storeReplica_def Let_def replicaOk_def map_le_def split: option.splits)

interpretation hot: refined_object hotStep replicaOk "\<lambda>_ _. True" hk_globalCache "\<lambda>_ e. [e]" lastWrite
proof unfold_locales
  fix c :: "'v HotKeyCache" and e
  assume "replicaOk c"
  then have "replicaOk (hotStep c e) \<and> hk_globalCache (hotStep c e) = lastWrite (hk_globalCache c) e"
    by (cases e) (simp_all add: hotGet_ok hotSet_ok)
  then show "replicaOk (hotStep c e)" and "hk_globalCache (hotStep c e) = run lastWrite (hk_globalCache c) [e]" by simp_all
qed

lemma hotGet_value: "replicaOk c \<Longrightarrow> fst (hotGet k c) = hk_globalCache c k"
  by (auto simp: hotGet_def replicaOk_def map_le_def dom_def split: option.splits)

section \<open>Write-through\<close>

record 'v CacheEntry =
  ce_Value :: 'v
  ce_Version :: gotime
  ce_Expiry :: gotime

record 'v ConsistentCache =
  cc_cache :: "string \<rightharpoonup> 'v CacheEntry"
  cc_dataStore :: "string \<rightharpoonup> 'v"
  cc_subscribers :: "string list list"

definition newConsistentCache :: "'v ConsistentCache" where
  "newConsistentCache = \<lparr>cc_cache = Map.empty, cc_dataStore = Map.empty, cc_subscribers = []\<rparr>"

definition cacheSubscribe :: "'v ConsistentCache \<Rightarrow> nat \<times> 'v ConsistentCache" where
  "cacheSubscribe c = (length (cc_subscribers c), c\<lparr>cc_subscribers := cc_subscribers c @ [[]]\<rparr>)"

definition fillCache :: "gotime \<Rightarrow> string \<Rightarrow> 'v \<Rightarrow> 'v ConsistentCache \<Rightarrow> 'v ConsistentCache" where
  "fillCache now key v c = c\<lparr>cc_cache := (cc_cache c)(key \<mapsto> \<lparr>ce_Value = v, ce_Version = now, ce_Expiry = now + 5000000000\<rparr>)\<rparr>"

text \<open>The notification is dropped for a subscriber whose channel of 100 places is full.\<close>

definition notifyAll :: "string \<Rightarrow> 'v ConsistentCache \<Rightarrow> 'v ConsistentCache" where
  "notifyAll key c = c\<lparr>cc_subscribers := map (\<lambda>ch. if length ch < 100 then ch @ [key] else ch) (cc_subscribers c)\<rparr>"

definition writeThrough :: "gotime \<Rightarrow> string \<Rightarrow> 'v \<Rightarrow> 'v ConsistentCache \<Rightarrow> 'v ConsistentCache" where
  "writeThrough now key v c = fillCache now key v (c\<lparr>cc_dataStore := (cc_dataStore c)(key \<mapsto> v)\<rparr>)"

definition cacheSet :: "gotime \<Rightarrow> string \<Rightarrow> 'v \<Rightarrow> 'v ConsistentCache \<Rightarrow> 'v ConsistentCache" where
  "cacheSet now key v c = notifyAll key (writeThrough now key v c)"

definition freshEntry :: "gotime \<Rightarrow> string \<Rightarrow> 'v ConsistentCache \<Rightarrow> 'v option" where
  "freshEntry now key c =
     (case cc_cache c key of None \<Rightarrow> None | Some e \<Rightarrow> if now > ce_Expiry e then None else Some (ce_Value e))"

definition cacheGet :: "gotime \<Rightarrow> string \<Rightarrow> 'v ConsistentCache \<Rightarrow> 'v option \<times> 'v ConsistentCache" where
  "cacheGet now key c =
     (case freshEntry now key c of
        Some v \<Rightarrow> (Some v, c)
      | None \<Rightarrow> (case cc_dataStore c key of Some v \<Rightarrow> (Some v, fillCache now key v c) | None \<Rightarrow> (None, c)))"

definition invalidate :: "string \<Rightarrow> 'v ConsistentCache \<Rightarrow> 'v ConsistentCache" where
  "invalidate key c = c\<lparr>cc_cache := (cc_cache c)(key := None)\<rparr>"

fun ccStep :: "'v ConsistentCache \<Rightarrow> 'v CacheCall \<Rightarrow> 'v ConsistentCache" where
  "ccStep c (GetCall now k) = snd (cacheGet now k c)"
| "ccStep c (SetCall now k v) = cacheSet now k v c"
| "ccStep c (Invalidate k) = invalidate k c"

definition coherent :: "'v ConsistentCache \<Rightarrow> bool" where
  "coherent c \<longleftrightarrow> (\<forall>k e. cc_cache c k = Some e \<longrightarrow> cc_dataStore c k = Some (ce_Value e))"

interpretation wt: refined_object ccStep coherent "\<lambda>_ _. True" cc_dataStore "\<lambda>_ e. [e]" lastWrite
proof unfold_locales
  fix c :: "'v ConsistentCache" and e
  assume "coherent c"
  then have "coherent (ccStep c e) \<and> cc_dataStore (ccStep c e) = lastWrite (cc_dataStore c) e"
    by (cases e) (auto simp: cacheGet_def cacheSet_def writeThrough_def notifyAll_def fillCache_def invalidate_def coherent_def split: option.splits)
  then show "coherent (ccStep c e)" and "cc_dataStore (ccStep c e) = run lastWrite (cc_dataStore c) [e]" by simp_all
qed

lemma cacheGet_value: "coherent c \<Longrightarrow> fst (cacheGet now k c) = cc_dataStore c k"
  by (auto simp: cacheGet_def freshEntry_def coherent_def split: option.splits)

lemma new_hot: "replicaOk newHotKeyCache" "hk_globalCache newHotKeyCache = Map.empty"
  by (simp_all add: replicaOk_def newHotKeyCache_def)

lemma new_wt: "coherent newConsistentCache" "cc_dataStore newConsistentCache = Map.empty"
  by (simp_all add: coherent_def newConsistentCache_def)

text \<open> When calls do not overlap, both caches are transparent: after every sequence of reads, writes and invalidations a read of
  any key at any time returns the last value written to it, and nothing when it was never written, although hot keys
  are answered from a replica and expired or invalidated entries are loaded again.\<close>

theorem caches_transparent:
  "fst (hotGet k (run hotStep newHotKeyCache ops)) = run lastWrite Map.empty ops k \<and>
   fst (cacheGet now k (run ccStep newConsistentCache ops)) = run lastWrite Map.empty ops k"
proof
  show "fst (hotGet k (run hotStep newHotKeyCache ops)) = run lastWrite Map.empty ops k"
    using hotGet_value [OF hot.guarded_run [of newHotKeyCache ops]] hot.abs_run [of newHotKeyCache ops] by (simp add: new_hot)
  show "fst (cacheGet now k (run ccStep newConsistentCache ops)) = run lastWrite Map.empty ops k"
    using cacheGet_value [OF wt.guarded_run [of newConsistentCache ops]] wt.abs_run [of newConsistentCache ops] by (simp add: new_wt)
qed

section \<open>Overlapping calls\<close>

text \<open>The read that reaches the threshold loads the global value; before it stores that value into the replica, a write of the key
  finishes, which finds no replica to update.  From then on every read returns the overwritten value.\<close>

theorem promotion_keeps_old_value:
  "let c1 = storeGlobal ''k'' (1::int) newHotKeyCache;
       old = the (hk_globalCache c1 ''k'');
       c2 = hotSet ''k'' 2 c1;
       c3 = storeReplica ''k'' old c2
   in fst (hotGet ''k'' c3) = Some 1 \<and> hk_globalCache c3 ''k'' = Some 2"
  by code_simp

text \<open>A read that misses takes the value from the data store; before it fills the cache, a write finishes.  The cache then holds
  the overwritten value until it expires.\<close>

theorem late_fill_keeps_old_value:
  "let c1 = invalidate ''k'' (cacheSet 0 ''k'' (1::int) newConsistentCache);
       old = the (cc_dataStore c1 ''k'');
       c2 = cacheSet 1 ''k'' 2 c1;
       c3 = fillCache 2 ''k'' old c2
   in fst (cacheGet 3 ''k'' c3) = Some 1 \<and> cc_dataStore c3 ''k'' = Some 2"
  by code_simp

end
