(* ===== verification/ReliableEventBus.thy ===== *)
theory ReliableEventBus
  imports GoPrelude
begin

text \<open>
  The event bus with deduplication of \<open>src/solutions/solution17_event_bus.go\<close> (\<open>ReliableEventBus\<close>).  Calls of \<open>Publish\<close> are
  goroutines with program points; a step runs one access to the shared state: the \<open>LoadOrStore\<close> on the history (with
  the clock reading it stores), the copy of the handlers under the read lock, or one handler with its result.  The
  clean-up goroutine computes its cut-off at a tick and then visits the keys one at a time, between any other steps.
  Handlers are parameters: they are named by the type \<open>'h\<close>, and whether a call returns an error or panics (which
  \<open>safeExecute\<close> turns into an error) is an argument of the step.  \<open>rb_calls\<close>, \<open>rb_accepted\<close> and \<open>rb_now\<close> record the calls of handlers, the
  accepted events with their times, and the last clock reading; the operations do not read them.

  \<open>Subscribe\<close> compares the addresses of two different variables, which are never equal, so it always
  appends.  \<open>maxHistory\<close> is never read.

  Shown: in every interleaving an event identifier is accepted at most once within \<open>historyTTL\<close>, handlers run for accepted events
  only and at most once per subscription, the counters are exact, and \<open>Publish\<close> returns nil for an accepted event only if every
  handler subscribed at that time has succeeded.
\<close>

section \<open>State\<close>

record Event =
  ev_ID :: string
  ev_Type :: string
  ev_Payload :: string
  ev_Timestamp :: gotime
  ev_RetryCount :: int
  ev_MaxRetries :: int

text \<open>The program points of a call of \<open>Publish\<close>: before the duplicate check, before the handlers are read, running them
  (all handlers, those that have not finished, and the number of errors), and returned: as a duplicate, or with the number of errors.\<close>

datatype 'h Publisher =
    CheckDuplicate Event
  | ReadHandlers Event
  | RunHandlers Event "'h list" "'h list" int
  | Duplicate Event
  | Finished Event "'h list" int

record 'h ReliableEventBus =
  rb_subscribers :: "string \<Rightarrow> 'h list"
  rb_processedIDs :: "string \<rightharpoonup> gotime"
  rb_processed :: int
  rb_failed :: int
  rb_duplicates :: int
  rb_historyTTL :: duration
  rb_cutoff :: "gotime option"
  rb_publishers :: "'h Publisher list"
  rb_calls :: "(nat \<times> 'h \<times> bool) list"
  rb_accepted :: "(string \<times> gotime) list"
  rb_now :: gotime

definition newReliableEventBus :: "gotime \<Rightarrow> 'h ReliableEventBus" where
  "newReliableEventBus now =
     \<lparr>rb_subscribers = (\<lambda>_. []), rb_processedIDs = Map.empty, rb_processed = 0, rb_failed = 0, rb_duplicates = 0,
      rb_historyTTL = 3600000000000, rb_cutoff = None, rb_publishers = [], rb_calls = [], rb_accepted = [], rb_now = now\<rparr>"

section \<open>Operations\<close>

definition subscribeReliable :: "string \<Rightarrow> 'h \<Rightarrow> 'h ReliableEventBus \<Rightarrow> 'h ReliableEventBus" where
  "subscribeReliable eventType handler eb =
     eb\<lparr>rb_subscribers := (rb_subscribers eb)(eventType := rb_subscribers eb eventType @ [handler])\<rparr>"

definition setPublisher :: "nat \<Rightarrow> 'h Publisher \<Rightarrow> 'h ReliableEventBus \<Rightarrow> 'h ReliableEventBus" where
  "setPublisher i p eb = eb\<lparr>rb_publishers := (rb_publishers eb)[i := p]\<rparr>"

definition checkDuplicate :: "nat \<Rightarrow> Event \<Rightarrow> gotime \<Rightarrow> 'h ReliableEventBus \<Rightarrow> 'h ReliableEventBus" where
  "checkDuplicate i event now eb =
     (case rb_processedIDs eb (ev_ID event) of
        Some _ \<Rightarrow> setPublisher i (Duplicate event) (eb\<lparr>rb_duplicates := i64 (rb_duplicates eb + 1)\<rparr>)
      | None \<Rightarrow> setPublisher i (ReadHandlers event)
          (eb\<lparr>rb_processedIDs := (rb_processedIDs eb)(ev_ID event \<mapsto> now), rb_accepted := rb_accepted eb @ [(ev_ID event, now)]\<rparr>))"

definition readHandlers :: "nat \<Rightarrow> Event \<Rightarrow> 'h ReliableEventBus \<Rightarrow> 'h ReliableEventBus" where
  "readHandlers i event eb =
     (let handlers = rb_subscribers eb (ev_Type event)
      in setPublisher i (if handlers = [] then Finished event [] 0 else RunHandlers event handlers handlers 0) eb)"

text \<open>The goroutine of the \<open>k\<close>-th unfinished handler; after the last one \<open>Publish\<close> collects the errors.\<close>

definition dropNth :: "nat \<Rightarrow> 'a list \<Rightarrow> 'a list" where
  "dropNth k xs = take k xs @ drop (Suc k) xs"

definition runHandler :: "nat \<Rightarrow> Event \<Rightarrow> 'h list \<Rightarrow> 'h list \<Rightarrow> int \<Rightarrow> nat \<Rightarrow> bool \<Rightarrow> 'h ReliableEventBus \<Rightarrow> 'h ReliableEventBus" where
  "runHandler i event handlers todo errors k ok eb =
     (let rest = dropNth k todo; errors' = (if ok then errors else errors + 1);
          eb' = (if ok then eb\<lparr>rb_processed := i64 (rb_processed eb + 1)\<rparr> else eb\<lparr>rb_failed := i64 (rb_failed eb + 1)\<rparr>)
      in setPublisher i (if rest = [] then Finished event handlers errors' else RunHandlers event handlers rest errors')
           (eb'\<lparr>rb_calls := rb_calls eb @ [(i, todo ! k, ok)]\<rparr>))"

definition publishAct :: "nat \<Rightarrow> gotime \<Rightarrow> nat \<Rightarrow> bool \<Rightarrow> 'h ReliableEventBus \<Rightarrow> 'h ReliableEventBus" where
  "publishAct i now k ok eb =
     (if i < length (rb_publishers eb)
      then (case rb_publishers eb ! i of
              CheckDuplicate event \<Rightarrow> checkDuplicate i event now eb
            | ReadHandlers event \<Rightarrow> readHandlers i event eb
            | RunHandlers event handlers todo errors \<Rightarrow> if k < length todo then runHandler i event handlers todo errors k ok eb else eb
            | Duplicate event \<Rightarrow> eb
            | Finished event handlers errors \<Rightarrow> eb)
      else eb)"

text \<open>What \<open>Publish\<close> returns: \<open>None\<close> is nil, \<open>Some n\<close> the error that names \<open>n\<close> failed handlers.\<close>

fun publishResult :: "'h Publisher \<Rightarrow> int option" where
  "publishResult (Duplicate event) = None"
| "publishResult (Finished event handlers errors) = (if errors > 0 then Some errors else None)"
| "publishResult _ = None"

definition cleanupTick :: "gotime \<Rightarrow> 'h ReliableEventBus \<Rightarrow> 'h ReliableEventBus" where
  "cleanupTick now eb = eb\<lparr>rb_cutoff := Some (now - rb_historyTTL eb)\<rparr>"

definition cleanupKey :: "string \<Rightarrow> 'h ReliableEventBus \<Rightarrow> 'h ReliableEventBus" where
  "cleanupKey key eb =
     (case (rb_cutoff eb, rb_processedIDs eb key) of
        (Some cutoff, Some timestamp) \<Rightarrow>
          if timestamp < cutoff then eb\<lparr>rb_processedIDs := (rb_processedIDs eb)(key := None)\<rparr> else eb
      | _ \<Rightarrow> eb)"

datatype 'h REStep =
    Subscribe string 'h | Publish Event | PublishAct nat nat bool | CleanupTick | CleanupKey string

fun reAct :: "'h ReliableEventBus \<Rightarrow> gotime \<Rightarrow> 'h REStep \<Rightarrow> 'h ReliableEventBus" where
  "reAct eb now (Subscribe t h) = subscribeReliable t h eb"
| "reAct eb now (Publish event) = eb\<lparr>rb_publishers := rb_publishers eb @ [CheckDuplicate event]\<rparr>"
| "reAct eb now (PublishAct i k ok) = publishAct i now k ok eb"
| "reAct eb now CleanupTick = cleanupTick now eb"
| "reAct eb now (CleanupKey key) = cleanupKey key eb"

definition reStep :: "'h ReliableEventBus \<Rightarrow> gotime \<times> 'h REStep \<Rightarrow> 'h ReliableEventBus" where
  "reStep eb e = (reAct eb (fst e) (snd e))\<lparr>rb_now := fst e\<rparr>"

section \<open>Accepted events\<close>

text \<open>Two accepted events with the same identifier are more than \<open>ttl\<close> apart.\<close>

definition apart :: "duration \<Rightarrow> string \<times> gotime \<Rightarrow> string \<times> gotime \<Rightarrow> bool" where
  "apart ttl a b \<longleftrightarrow> (fst a = fst b \<longrightarrow> snd a + ttl < snd b)"

text \<open>An accepted event is in the history, or was accepted again or forgotten more than \<open>ttl\<close> later.\<close>

definition remembered :: "'h ReliableEventBus \<Rightarrow> string \<times> gotime \<Rightarrow> bool" where
  "remembered eb a \<longleftrightarrow>
     (case rb_processedIDs eb (fst a) of
        None \<Rightarrow> snd a + rb_historyTTL eb < rb_now eb
      | Some t \<Rightarrow> snd a = t \<or> snd a + rb_historyTTL eb < t)"

definition acceptInv :: "'h ReliableEventBus \<Rightarrow> bool" where
  "acceptInv eb \<longleftrightarrow>
     rb_historyTTL eb = 3600000000000 \<and>
     pred_option (\<lambda>c. c \<le> rb_now eb - rb_historyTTL eb) (rb_cutoff eb) \<and>
     sorted_wrt (apart (rb_historyTTL eb)) (rb_accepted eb) \<and>
     (\<forall>a \<in> set (rb_accepted eb). remembered eb a)"

lemma setPublisher_simps [unchanged]:
  "rb_processedIDs (setPublisher i p eb) = rb_processedIDs eb" "rb_historyTTL (setPublisher i p eb) = rb_historyTTL eb"
  "rb_cutoff (setPublisher i p eb) = rb_cutoff eb" "rb_accepted (setPublisher i p eb) = rb_accepted eb"
  "rb_now (setPublisher i p eb) = rb_now eb" "rb_calls (setPublisher i p eb) = rb_calls eb"
  "rb_processed (setPublisher i p eb) = rb_processed eb" "rb_failed (setPublisher i p eb) = rb_failed eb"
  "rb_duplicates (setPublisher i p eb) = rb_duplicates eb" "rb_subscribers (setPublisher i p eb) = rb_subscribers eb"
  by (simp_all add: setPublisher_def)

lemma acceptInv_same:
  "acceptInv eb \<Longrightarrow> rb_processedIDs eb' = rb_processedIDs eb \<Longrightarrow> rb_historyTTL eb' = rb_historyTTL eb \<Longrightarrow>
     rb_cutoff eb' = rb_cutoff eb \<Longrightarrow> rb_accepted eb' = rb_accepted eb \<Longrightarrow> rb_now eb \<le> now \<Longrightarrow> acceptInv (eb'\<lparr>rb_now := now\<rparr>)"
  by (auto simp: acceptInv_def remembered_def pred_option_def split: option.splits)

lemma acceptInv_accept:
  assumes inv: "acceptInv eb" and new: "rb_processedIDs eb k = None" and now: "rb_now eb \<le> now"
  shows "acceptInv (eb\<lparr>rb_processedIDs := (rb_processedIDs eb)(k \<mapsto> now), rb_accepted := rb_accepted eb @ [(k, now)], rb_now := now\<rparr>)"
proof -
  have old: "snd a + rb_historyTTL eb < now" if "a \<in> set (rb_accepted eb)" "fst a = k" for a
    using inv new now that by (fastforce simp: acceptInv_def remembered_def split: option.splits)
  have "remembered (eb\<lparr>rb_processedIDs := (rb_processedIDs eb)(k \<mapsto> now), rb_accepted := rb_accepted eb @ [(k, now)], rb_now := now\<rparr>) a"
    if a: "a \<in> set (rb_accepted eb)" for a
  proof (cases "fst a = k")
    case True
    then show ?thesis using old [OF a] by (simp add: remembered_def)
  next
    case False
    have "remembered eb a" using inv a by (simp add: acceptInv_def)
    then show ?thesis using False now by (auto simp: remembered_def split: option.splits)
  qed
  then show ?thesis
    using inv now old by (auto simp: acceptInv_def sorted_wrt_snoc apart_def remembered_def pred_option_def)
qed

lemma acceptInv_cleanup:
  assumes inv: "acceptInv eb" and now: "rb_now eb \<le> now"
  shows "acceptInv ((cleanupKey key eb)\<lparr>rb_now := now\<rparr>)"
proof (cases "rb_cutoff eb")
  case None
  then show ?thesis using inv now by (simp add: cleanupKey_def acceptInv_same)
next
  case (Some c)
  show ?thesis
  proof (cases "rb_processedIDs eb key")
    case None
    then show ?thesis using inv now Some by (simp add: cleanupKey_def acceptInv_same)
  next
    case (Some t)
    show ?thesis
    proof (cases "t < c")
      case True
      have c: "c \<le> rb_now eb - rb_historyTTL eb" using inv \<open>rb_cutoff eb = Some c\<close> by (simp add: acceptInv_def)
      have "remembered (eb\<lparr>rb_processedIDs := (rb_processedIDs eb)(key := None), rb_now := now\<rparr>) a" if a: "a \<in> set (rb_accepted eb)" for a
      proof -
        have "remembered eb a" and "rb_historyTTL eb = 3600000000000" using inv a by (simp_all add: acceptInv_def)
        then show ?thesis using Some True c now by (auto simp: remembered_def split: option.splits)
      qed
      then show ?thesis using inv now c True Some \<open>rb_cutoff eb = Some c\<close> by (auto simp: cleanupKey_def acceptInv_def)
    next
      case False
      then show ?thesis using inv now Some \<open>rb_cutoff eb = Some c\<close> by (simp add: cleanupKey_def acceptInv_same)
    qed
  qed
qed

lemma acceptInv_publish:
  assumes inv: "acceptInv eb" and now: "rb_now eb \<le> now"
  shows "acceptInv ((publishAct i now k ok eb)\<lparr>rb_now := now\<rparr>)"
proof (cases "i < length (rb_publishers eb) \<and> (\<exists>event. rb_publishers eb ! i = CheckDuplicate event \<and> rb_processedIDs eb (ev_ID event) = None)")
  case True
  then obtain event where i: "i < length (rb_publishers eb)" and p: "rb_publishers eb ! i = CheckDuplicate event"
    and new: "rb_processedIDs eb (ev_ID event) = None" by blast
  have "acceptInv ((setPublisher i (ReadHandlers event)
      (eb\<lparr>rb_processedIDs := (rb_processedIDs eb)(ev_ID event \<mapsto> now), rb_accepted := rb_accepted eb @ [(ev_ID event, now)]\<rparr>))\<lparr>rb_now := now\<rparr>)"
    by (rule acceptInv_same [OF acceptInv_accept [OF inv new now]]) (simp_all add: setPublisher_def)
  then show ?thesis using i p new by (simp add: publishAct_def checkDuplicate_def)
next
  case False
  then show ?thesis
    by (intro acceptInv_same [OF inv _ _ _ _ now])
      (auto simp: publishAct_def checkDuplicate_def readHandlers_def runHandler_def Let_def unchanged split: Publisher.splits option.splits)
qed

lemma acceptInv_step: "acceptInv eb \<Longrightarrow> rb_now eb \<le> fst e \<Longrightarrow> acceptInv (reStep eb e)"
proof -
  assume inv: "acceptInv eb" and now: "rb_now eb \<le> fst e"
  show ?thesis
  proof (cases "snd e")
    case CleanupTick
    have "acceptInv (eb\<lparr>rb_now := fst e\<rparr>)" by (rule acceptInv_same [OF inv]) (simp_all add: now)
    then have "acceptInv (eb\<lparr>rb_cutoff := Some (fst e - rb_historyTTL eb), rb_now := fst e\<rparr>)"
      by (auto simp: acceptInv_def remembered_def split: option.splits)
    then show ?thesis using CleanupTick by (simp add: reStep_def cleanupTick_def)
  qed (use inv now in \<open>simp_all add: reStep_def subscribeReliable_def acceptInv_same acceptInv_publish acceptInv_cleanup\<close>)
qed

section \<open>Handlers and counters\<close>

definition callsOf :: "nat \<Rightarrow> (nat \<times> 'h \<times> bool) list \<Rightarrow> ('h \<times> bool) list" where
  "callsOf i calls = map snd (filter (\<lambda>c. fst c = i) calls)"

definition failures :: "('h \<times> bool) list \<Rightarrow> int" where
  "failures cs = int (length (filter (\<lambda>c. \<not> snd c) cs))"

text \<open>The calls that a publisher has made so far.\<close>

fun publisherOk :: "('h \<times> bool) list \<Rightarrow> 'h Publisher \<Rightarrow> bool" where
  "publisherOk cs (RunHandlers event handlers todo errors) \<longleftrightarrow>
     mset (map fst cs) + mset todo = mset handlers \<and> errors = failures cs"
| "publisherOk cs (Finished event handlers errors) \<longleftrightarrow> mset (map fst cs) = mset handlers \<and> errors = failures cs"
| "publisherOk cs _ \<longleftrightarrow> cs = []"

fun acceptedID :: "'h Publisher \<Rightarrow> string option" where
  "acceptedID (CheckDuplicate event) = None"
| "acceptedID (Duplicate event) = None"
| "acceptedID (ReadHandlers event) = Some (ev_ID event)"
| "acceptedID (RunHandlers event handlers todo errors) = Some (ev_ID event)"
| "acceptedID (Finished event handlers errors) = Some (ev_ID event)"

fun isDuplicate :: "'h Publisher \<Rightarrow> bool" where
  "isDuplicate (Duplicate event) \<longleftrightarrow> True"
| "isDuplicate _ \<longleftrightarrow> False"

definition callsInv :: "'h ReliableEventBus \<Rightarrow> bool" where
  "callsInv eb \<longleftrightarrow>
     (\<forall>i < length (rb_publishers eb). publisherOk (callsOf i (rb_calls eb)) (rb_publishers eb ! i)) \<and>
     (\<forall>c \<in> set (rb_calls eb). fst c < length (rb_publishers eb))"

definition countersInv :: "'h ReliableEventBus \<Rightarrow> bool" where
  "countersInv eb \<longleftrightarrow>
     rb_processed eb = i64 (int (length (filter (\<lambda>c. snd (snd c)) (rb_calls eb)))) \<and>
     rb_failed eb = i64 (int (length (filter (\<lambda>c. \<not> snd (snd c)) (rb_calls eb)))) \<and>
     rb_duplicates eb = i64 (int (length (filter isDuplicate (rb_publishers eb)))) \<and>
     mset (List.map_filter acceptedID (rb_publishers eb)) = mset (map fst (rb_accepted eb))"

lemma callsOf_snoc: "callsOf i (calls @ [(j, c)]) = (if i = j then callsOf i calls @ [c] else callsOf i calls)"
  by (simp add: callsOf_def)

lemma failures_snoc: "failures (cs @ [(h, ok)]) = (if ok then failures cs else failures cs + 1)"
  by (simp add: failures_def)

lemma mset_dropNth: "k < length xs \<Longrightarrow> mset xs = add_mset (xs ! k) (mset (dropNth k xs))"
  unfolding dropNth_def by (metis add_mset_add_single id_take_nth_drop mset.simps(2) mset_append union_mset_add_mset_right)

lemma callsOf_fresh: "\<forall>c \<in> set calls. fst c < n \<Longrightarrow> callsOf n calls = []"
  by (auto simp: callsOf_def filter_empty_conv)

lemma callsInv_set:
  "callsInv eb \<Longrightarrow> i < length (rb_publishers eb) \<Longrightarrow> publisherOk (callsOf i (rb_calls eb)) p \<Longrightarrow> callsInv (setPublisher i p eb)"
  by (auto simp: callsInv_def setPublisher_def nth_list_update)

lemma callsInv_call:
  "callsInv eb \<Longrightarrow> i < length (rb_publishers eb) \<Longrightarrow> publisherOk (callsOf i (rb_calls eb) @ [c]) p \<Longrightarrow>
     callsInv (setPublisher i p (eb\<lparr>rb_calls := rb_calls eb @ [(i, c)]\<rparr>))"
  by (auto simp: callsInv_def setPublisher_def nth_list_update callsOf_snoc)

lemma callsInv_cong:
  "callsInv eb \<Longrightarrow> rb_publishers eb' = rb_publishers eb \<Longrightarrow> rb_calls eb' = rb_calls eb \<Longrightarrow> callsInv eb'"
  by (simp add: callsInv_def)

lemma callsInv_handler:
  assumes inv: "callsInv eb" and i: "i < length (rb_publishers eb)"
    and p: "rb_publishers eb ! i = RunHandlers event handlers todo errors" and k: "k < length todo"
  shows "callsInv (runHandler i event handlers todo errors k ok eb)"
proof -
  have ok: "mset (map fst (callsOf i (rb_calls eb))) + mset todo = mset handlers" "errors = failures (callsOf i (rb_calls eb))"
    using inv i p by (auto simp: callsInv_def dest!: spec [of _ i])
  have "publisherOk (callsOf i (rb_calls eb) @ [(todo ! k, ok)])
      (if dropNth k todo = [] then Finished event handlers (if ok then errors else errors + 1)
       else RunHandlers event handlers (dropNth k todo) (if ok then errors else errors + 1))"
    using ok mset_dropNth [OF k] by (auto simp: failures_snoc)
  from callsInv_call [OF inv i this] show ?thesis
    by (rule callsInv_cong) (simp_all add: runHandler_def Let_def setPublisher_def)
qed

lemma callsInv_publish:
  assumes inv: "callsInv eb"
  shows "callsInv (publishAct i now k ok eb)"
proof (cases "i < length (rb_publishers eb)")
  case True
  have p: "publisherOk (callsOf i (rb_calls eb)) (rb_publishers eb ! i)" using inv True by (simp add: callsInv_def)
  show ?thesis
  proof (cases "rb_publishers eb ! i")
    case (CheckDuplicate event)
    then have "callsInv (setPublisher i (Duplicate event) eb)" and "callsInv (setPublisher i (ReadHandlers event) eb)"
      using p by (auto intro: callsInv_set [OF inv True])
    then show ?thesis
      using True CheckDuplicate
      by (simp add: publishAct_def checkDuplicate_def setPublisher_def callsInv_def split: option.splits)
  next
    case (ReadHandlers event)
    then show ?thesis
      using True p by (auto simp: publishAct_def readHandlers_def Let_def failures_def intro!: callsInv_set [OF inv True])
  next
    case (RunHandlers event handlers todo errors)
    then show ?thesis using True inv callsInv_handler [OF inv True RunHandlers] by (simp add: publishAct_def)
  qed (use True inv in \<open>simp_all add: publishAct_def\<close>)
qed (use inv in \<open>simp add: publishAct_def\<close>)

lemma callsInv_step: "callsInv eb \<Longrightarrow> callsInv (reStep eb e)"
proof -
  assume inv: "callsInv eb"
  have "callsInv (reAct eb (fst e) (snd e))"
  proof (cases "snd e")
    case (Publish event)
    then show ?thesis using inv by (auto simp: callsInv_def nth_append callsOf_fresh less_Suc_eq)
  qed (use inv in \<open>auto simp: subscribeReliable_def cleanupTick_def cleanupKey_def callsInv_publish intro: callsInv_cong split: option.splits\<close>)
  then show ?thesis by (rule callsInv_cong) (simp_all add: reStep_def)
qed

lemma countersInv_publish:
  assumes inv: "countersInv eb"
  shows "countersInv (publishAct i now k ok eb)"
proof (cases "i < length (rb_publishers eb)")
  case True
  note upd = length_filter_update [OF True, of isDuplicate] map_filter_update [OF True, of acceptedID]
  show ?thesis
  proof (cases "rb_publishers eb ! i")
    case (CheckDuplicate event)
    show ?thesis
    proof (cases "rb_processedIDs eb (ev_ID event)")
      case None
      then show ?thesis
        using True CheckDuplicate inv upd [of "ReadHandlers event"]
        by (simp add: publishAct_def checkDuplicate_def setPublisher_def countersInv_def)
    next
      case (Some t)
      then show ?thesis
        using True CheckDuplicate inv upd [of "Duplicate event"]
        by (simp add: publishAct_def checkDuplicate_def setPublisher_def countersInv_def i64_add_wrap2 add.commute)
    qed
  next
    case (ReadHandlers event)
    define q where "q = (if rb_subscribers eb (ev_Type event) = [] then Finished event [] 0
      else RunHandlers event (rb_subscribers eb (ev_Type event)) (rb_subscribers eb (ev_Type event)) 0)"
    have "publishAct i now k ok eb = setPublisher i q eb" using True ReadHandlers by (simp add: publishAct_def readHandlers_def Let_def q_def)
    moreover have "\<not> isDuplicate q" and "acceptedID q = Some (ev_ID event)" by (simp_all add: q_def)
    ultimately show ?thesis using ReadHandlers inv upd [of q] by (simp add: setPublisher_def countersInv_def)
  next
    case (RunHandlers event handlers todo errors)
    define e where "e = (if ok then errors else errors + 1)"
    define q where "q = (if dropNth k todo = [] then Finished event handlers e else RunHandlers event handlers (dropNth k todo) e)"
    have "\<not> isDuplicate q" and "acceptedID q = Some (ev_ID event)" by (simp_all add: q_def)
    then show ?thesis
      using True RunHandlers inv upd [of q]
      by (simp add: publishAct_def runHandler_def Let_def q_def [symmetric] e_def [symmetric] setPublisher_def countersInv_def i64_add_wrap2 add.commute)
  qed (use True inv in \<open>simp_all add: publishAct_def\<close>)
qed (use inv in \<open>simp add: publishAct_def\<close>)

lemma countersInv_step: "countersInv eb \<Longrightarrow> countersInv (reStep eb e)"
proof -
  assume inv: "countersInv eb"
  have "countersInv (reAct eb (fst e) (snd e))"
  proof (cases "snd e")
    case (PublishAct i k ok)
    then show ?thesis using inv by (simp add: countersInv_publish)
  qed (use inv in \<open>auto simp: subscribeReliable_def cleanupTick_def cleanupKey_def countersInv_def List.map_filter_simps split: option.splits\<close>)
  then show ?thesis by (simp add: countersInv_def reStep_def)
qed

section \<open>Deduplication\<close>

definition onTime :: "'h ReliableEventBus \<Rightarrow> gotime \<times> 'h REStep \<Rightarrow> bool" where
  "onTime eb e \<longleftrightarrow> rb_now eb \<le> fst e"

definition reInv :: "'h ReliableEventBus \<Rightarrow> bool" where
  "reInv eb \<longleftrightarrow> acceptInv eb \<and> callsInv eb \<and> countersInv eb"

interpretation reliable: guarded_object reStep reInv onTime
  by unfold_locales (simp add: reInv_def onTime_def acceptInv_step callsInv_step countersInv_step)

lemma reInv_new: "reInv (newReliableEventBus now)"
  by (simp add: reInv_def acceptInv_def callsInv_def countersInv_def newReliableEventBus_def List.map_filter_simps i64_def)

text \<open>C28.  In every interleaving of publishers, subscriptions and clean-up, with a clock that does not go back: two acceptances of the same event
  identifier are more than an hour apart; the calls of \<open>Publish\<close> that passed the duplicate check are exactly the
  acceptances; every call has run each of the handlers it read at most once (what it has run and what is left make up
  the handlers), and one that has returned has run all of them and reports exactly the number of failures; and the counters of processed
  and failed calls and of duplicates are exact.\<close>

theorem reliable_bus_once:
  assumes "admissible reStep onTime (newReliableEventBus now) es"
  shows "let eb = run reStep (newReliableEventBus now) es
    in sorted_wrt (apart 3600000000000) (rb_accepted eb) \<and>
       mset (List.map_filter acceptedID (rb_publishers eb)) = mset (map fst (rb_accepted eb)) \<and>
       list_all (\<lambda>i. publisherOk (callsOf i (rb_calls eb)) (rb_publishers eb ! i)) [0..<length (rb_publishers eb)] \<and>
       rb_processed eb = i64 (int (length (filter (\<lambda>c. snd (snd c)) (rb_calls eb)))) \<and>
       rb_failed eb = i64 (int (length (filter (\<lambda>c. \<not> snd (snd c)) (rb_calls eb)))) \<and>
       rb_duplicates eb = i64 (int (length (filter isDuplicate (rb_publishers eb))))"
proof -
  define eb where "eb = run reStep (newReliableEventBus now) es"
  have inv: "reInv eb" unfolding eb_def using reInv_new assms by (rule reliable.guarded_run)
  then have ttl: "rb_historyTTL eb = 3600000000000" by (simp add: reInv_def acceptInv_def)
  show ?thesis
    unfolding eb_def [symmetric] using inv by (simp add: Let_def reInv_def acceptInv_def callsInv_def countersInv_def list_all_iff ttl)
qed

text \<open>An event published twice, with one handler that succeeds and one that fails, and once more after two hours and a clean-up.\<close>

definition exampleEvent :: Event where
  "exampleEvent = \<lparr>ev_ID = ''evt-1'', ev_Type = ''user.created'', ev_Payload = ''User 1'', ev_Timestamp = 0, ev_RetryCount = 0, ev_MaxRetries = 0\<rparr>"

definition exampleSteps :: "(gotime \<times> nat REStep) list" where
  "exampleSteps =
     [(0, Subscribe ''user.created'' 7), (0, Subscribe ''user.created'' 8), (1, Publish exampleEvent), (1, Publish exampleEvent),
      (2, PublishAct 0 0 True), (3, PublishAct 1 0 True), (3, PublishAct 0 0 True), (4, PublishAct 0 1 False), (5, PublishAct 0 0 True),
      (7200000000000, CleanupTick), (7200000000001, CleanupKey ''evt-1''), (7200000000002, Publish exampleEvent), (7200000000003, PublishAct 2 0 True)]"

theorem reliable_bus_once_witness:
  "admissible reStep onTime (newReliableEventBus 0) exampleSteps \<and>
   rb_accepted (run reStep (newReliableEventBus 0) exampleSteps) = [(''evt-1'', 2), (''evt-1'', 7200000000003)] \<and>
   sorted_wrt (apart 3600000000000) (rb_accepted (run reStep (newReliableEventBus 0) exampleSteps)) \<and>
   rb_publishers (run reStep (newReliableEventBus 0) exampleSteps) =
     [Finished exampleEvent [7, 8] 1, Duplicate exampleEvent, ReadHandlers exampleEvent]"
proof -
  have adm: "admissible reStep onTime (newReliableEventBus 0) exampleSteps" by code_simp
  moreover have "rb_accepted (run reStep (newReliableEventBus 0) exampleSteps) = [(''evt-1'', 2), (''evt-1'', 7200000000003)]" by code_simp
  moreover have "rb_publishers (run reStep (newReliableEventBus 0) exampleSteps) =
     [Finished exampleEvent [7, 8] 1, Duplicate exampleEvent, ReadHandlers exampleEvent]" by code_simp
  ultimately show ?thesis using reliable_bus_once [OF adm] by (simp add: Let_def)
qed

text \<open>The identifier is stored before the handlers run.  Publishing an event again whose handlers failed therefore does nothing and returns
  nil.\<close>

lemma retry_after_failure_dropped:
  "let eb = run reStep (newReliableEventBus 0)
     [(0, Subscribe ''user.created'' (7::nat)), (1, Publish exampleEvent), (2, PublishAct 0 0 True), (3, PublishAct 0 0 True), (4, PublishAct 0 0 False),
      (5, Publish exampleEvent), (6, PublishAct 1 0 True)]
   in map publishResult (rb_publishers eb) = [Some 1, None] \<and> rb_calls eb = [(0, 7, False)]"
  by code_simp

end
