(* ===== verification/BoundedEventBus.thy ===== *)
theory BoundedEventBus
  imports ReliableEventBus
begin

text \<open>
  The event bus with bounded resources of \<open>src/solutions/solution17_event_bus.go\<close> (\<open>BoundedEventBus\<close>): the ring buffer with the
  recent events, the subscriptions ordered by priority, the buffered channel and the pool of workers with its
  shut-down.  \<open>Subscribe\<close> inserts with \<open>append\<close>, which writes into the array of the old slice when its capacity
  allows; since a worker goes on with the slice it has read, arrays live in a heap and slices refer to them.  How much
  \<open>append\<close> allocates is left to the Go implementation and is the parameter \<open>grow\<close>.  Publishers and workers are goroutines
  with program points; which ready branch a \<open>select\<close> takes is an argument of the step.  The channel has a positive capacity (the
  program uses 100).  Errors of handlers are only logged.  \<open>bb_accepted\<close>, \<open>bb_taken\<close>, \<open>bb_done\<close> and \<open>bb_handled\<close> record the events sent, received and finished, and the calls of
  handlers; the operations do not read them.

  Shown: \<open>GetRecent\<close> returns the last events in their order; subscriptions are kept by descending priority, equal ones in the order
  of their arrival; in every interleaving the channel is first in first out and within its capacity, and every accepted
  event is in the channel, with one worker, or finished; and after \<open>Shutdown\<close> the workers finish everything that is in the channel, in a bounded
  number of steps.
\<close>

section \<open>Ring buffer\<close>

record 'a RingBuffer =
  rg_buffer :: "'a list"
  rg_head :: int
  rg_tail :: int
  rg_size :: int

definition newRingBuffer :: "'a \<Rightarrow> nat \<Rightarrow> 'a RingBuffer" where
  "newRingBuffer zero sz = \<lparr>rg_buffer = replicate sz zero, rg_head = 0, rg_tail = 0, rg_size = int sz\<rparr>"

text \<open>With a size of zero the remainder panics.\<close>

definition ringAdd :: "'a \<Rightarrow> 'a RingBuffer \<Rightarrow> 'a RingBuffer option" where
  "ringAdd event rb =
     (if rg_size rb = 0 then None
      else (let tail = i64 (rg_tail rb + 1);
                rb' = rb\<lparr>rg_buffer := (rg_buffer rb)[nat (rg_tail rb mod rg_size rb) := event], rg_tail := tail\<rparr>
            in Some (if i64 (tail - rg_head rb) > rg_size rb then rb'\<lparr>rg_head := i64 (tail - rg_size rb)\<rparr> else rb')))"

text \<open>\<open>make\<close> with a negative length panics.\<close>

definition getRecent :: "int \<Rightarrow> 'a RingBuffer \<Rightarrow> 'a list option" where
  "getRecent n rb =
     (let avail = i64 (rg_tail rb - rg_head rb); n' = (if n > avail then avail else n)
      in if n' < 0 then None
         else Some (map (\<lambda>i. rg_buffer rb ! nat ((rg_tail rb - n' + int i) mod rg_size rb)) [0..<nat n']))"

text \<open>The buffer after a number of additions: position \<open>p\<close> of the ring holds the last event whose number is \<open>p\<close> modulo the size.\<close>

definition ringOk :: "'a list \<Rightarrow> 'a RingBuffer \<Rightarrow> bool" where
  "ringOk es rb \<longleftrightarrow>
     0 < rg_size rb \<and> rg_size rb < 2 ^ 62 \<and> length (rg_buffer rb) = nat (rg_size rb) \<and>
     rg_tail rb = int (length es) \<and> rg_head rb = max 0 (int (length es) - rg_size rb) \<and>
     (\<forall>j < length es. int (length es) - rg_size rb \<le> int j \<longrightarrow> rg_buffer rb ! nat (int j mod rg_size rb) = es ! j)"

lemma same_slot:
  "int m - s \<le> int j \<Longrightarrow> j < m \<Longrightarrow> int j mod s = int m mod s \<Longrightarrow> 0 < s \<Longrightarrow> int j = int m - s"
proof -
  assume a: "int m - s \<le> int j" "j < m" "int j mod s = int m mod s" "0 < s"
  then have "s dvd (int m - int j)" by (metis mod_eq_dvd_iff)
  then have "s \<le> int m - int j" using a(2) by (intro zdvd_imp_le) auto
  then show ?thesis using a(1) by linarith
qed

lemma ringOk_add:
  assumes ok: "ringOk es rb" and len: "length es < 2 ^ 62"
  shows "pred_option (ringOk (es @ [e])) (ringAdd e rb) \<and> ringAdd e rb \<noteq> None"
proof -
  let ?s = "rg_size rb"
  have small: "i64 (int (length es) + 1) = int (length es) + 1" using len by (intro i64_id in_i64I) simp_all
  define h where "h = rg_head rb"
  have h: "h = max 0 (int (length es) - ?s)" and s: "0 < ?s" "?s < 2 ^ 62" and tail: "rg_tail rb = int (length es)"
    using ok by (simp_all add: ringOk_def h_def)
  have d: "i64 (int (length es) + 1 - h) = int (length es) + 1 - h" using h s len by (intro i64_id in_i64I) (simp_all add: max_def)
  have n: "i64 (int (length es) + 1 - ?s) = int (length es) + 1 - ?s"
    using s len by (intro i64_id) (simp add: in_i64_def)
  have slot: "(rg_buffer rb)[nat (int (length es) mod ?s) := e] ! nat (int j mod ?s) = (es @ [e]) ! j"
    if j: "j < Suc (length es)" "int (length es) + 1 - ?s \<le> int j" for j
  proof (cases "j = length es")
    case True
    have "nat (int j mod ?s) < length (rg_buffer rb)" using ok s by (simp add: ringOk_def nat_less_iff)
    then show ?thesis using True by simp
  next
    case False
    then have jl: "j < length es" and ge: "int (length es) - ?s \<le> int j" using j by simp_all
    have "int j mod ?s \<noteq> int (length es) mod ?s" using same_slot [OF ge jl _ s(1)] j(2) by auto
    then have "nat (int j mod ?s) \<noteq> nat (int (length es) mod ?s)" using s by (simp add: nat_eq_iff)
    then show ?thesis using ok jl ge by (simp add: ringOk_def nth_append)
  qed
  show ?thesis
    using ok s h d n small slot by (auto simp: ringAdd_def Let_def ringOk_def tail h_def [symmetric])
qed

fun ringAddAll :: "'a list \<Rightarrow> 'a RingBuffer \<Rightarrow> 'a RingBuffer option" where
  "ringAddAll [] rb = Some rb"
| "ringAddAll (e # es) rb = Option.bind (ringAdd e rb) (ringAddAll es)"

lemma ringOk_addAll:
  "ringOk es rb \<Longrightarrow> length es + length fs < 2 ^ 62 \<Longrightarrow> \<exists>rb'. ringAddAll fs rb = Some rb' \<and> ringOk (es @ fs) rb'"
proof (induction fs arbitrary: es rb)
  case (Cons f fs)
  then obtain rb' where "ringAdd f rb = Some rb'" "ringOk (es @ [f]) rb'" using ringOk_add [of es rb f] by auto
  then show ?case using Cons.IH [of "es @ [f]" rb'] Cons.prems by simp
qed simp

lemma ringOk_new: "0 < sz \<Longrightarrow> sz < 2 ^ 62 \<Longrightarrow> ringOk [] (newRingBuffer zero sz)"
  by (simp add: ringOk_def newRingBuffer_def)

lemma getRecent_ok:
  assumes ok: "ringOk es rb" and len: "length es < 2 ^ 62" and n: "0 \<le> n"
  shows "getRecent n rb = Some (drop (length es - nat (min n (min (rg_size rb) (int (length es))))) es)"
proof -
  let ?s = "rg_size rb" and ?l = "int (length es)"
  have s: "0 < ?s" "?s < 2 ^ 62" and tail: "rg_tail rb = ?l" and head: "rg_head rb = max 0 (?l - ?s)" using ok by (simp_all add: ringOk_def)
  have "i64 (?l - max 0 (?l - ?s)) = min ?s ?l" using len s by (subst i64_id) (auto simp: in_i64_def)
  then have avail: "i64 (rg_tail rb - rg_head rb) = min ?s ?l" by (simp add: tail head)
  define m where "m = min n (min ?s ?l)"
  have m: "0 \<le> m" "m \<le> ?s" "m \<le> ?l" using n s by (auto simp: m_def)
  have eq: "map (\<lambda>i. rg_buffer rb ! nat ((?l - m + int i) mod ?s)) [0..<nat m] = drop (length es - nat m) es"
  proof (rule nth_equalityI)
    show "length (map (\<lambda>i. rg_buffer rb ! nat ((?l - m + int i) mod ?s)) [0..<nat m]) = length (drop (length es - nat m) es)" using m by simp
  next
    fix i assume "i < length (map (\<lambda>i. rg_buffer rb ! nat ((?l - m + int i) mod ?s)) [0..<nat m])"
    then have i: "i < nat m" by simp
    define j where "j = length es - nat m + i"
    have j: "int j = ?l - m + int i" "j < length es" using i m by (auto simp: j_def)
    then have "rg_buffer rb ! nat (int j mod ?s) = es ! j" using ok m by (auto simp: ringOk_def)
    then show "map (\<lambda>i. rg_buffer rb ! nat ((?l - m + int i) mod ?s)) [0..<nat m] ! i = drop (length es - nat m) es ! i"
      unfolding j(1) using i j(2) m by (simp add: j_def)
  qed
  have "(if n > min ?s ?l then min ?s ?l else n) = m" by (auto simp: m_def min_def)
  then have "getRecent n rb = (if m < 0 then None
      else Some (map (\<lambda>i. rg_buffer rb ! nat ((rg_tail rb - m + int i) mod ?s)) [0..<nat m]))"
    unfolding getRecent_def Let_def avail by simp
  then show ?thesis using eq m by (simp add: tail m_def [symmetric])
qed

text \<open> After any number of additions to a ring buffer of any positive size, \<open>GetRecent\<close> with \<open>n\<close> returns the last events
  in the order of their arrival: \<open>n\<close> of them, or as many as were added and fit.\<close>

theorem ring_returns_recent:
  assumes "0 < sz" and "sz < 2 ^ 62" and "length es < 2 ^ 62" and "0 \<le> n"
  shows "Option.bind (ringAddAll es (newRingBuffer zero sz)) (getRecent n) =
    Some (drop (length es - min (nat n) (min sz (length es))) es)"
proof -
  obtain rb where rb: "ringAddAll es (newRingBuffer zero sz) = Some rb" "ringOk es rb"
    using ringOk_addAll [OF ringOk_new [OF assms(1,2)], of es zero] assms(3) by auto
  have sz: "rg_size rb = int sz"
  proof -
    have "rg_size rb' = rg_size r" if "ringAdd e r = Some rb'" for e and r rb' :: "'a RingBuffer"
      using that by (auto simp: ringAdd_def Let_def split: if_splits)
    then have "ringAddAll es r = Some rb' \<Longrightarrow> rg_size rb' = rg_size r" for r rb' :: "'a RingBuffer"
      by (induction es arbitrary: r) (auto simp: bind_eq_Some_conv)
    then show ?thesis using rb(1) by (simp add: newRingBuffer_def)
  qed
  have "nat (min n (min (int sz) (int (length es)))) = min (nat n) (min sz (length es))" using assms(4) by (auto simp: min_def)
  then show ?thesis using getRecent_ok [OF rb(2) assms(3,4)] rb(1) sz by simp
qed

theorem ring_returns_recent_witness:
  "Option.bind (ringAddAll [1, 2, 3, 4, 5] (newRingBuffer 0 3)) (getRecent 10) = Some [3, 4, 5 :: int]"
  using ring_returns_recent [of 3 "[1, 2, 3, 4, 5 :: int]" 10 0] by simp

section \<open>Slices\<close>

text \<open>An array with its capacity and the elements written so far; a slice is a prefix of an array.\<close>

record 'a GoArray =
  ga_cap :: nat
  ga_items :: "'a list"

record Slice =
  sl_arr :: nat
  sl_len :: nat

type_synonym 'a Heap = "'a GoArray list"

fun sliceItems :: "'a Heap \<Rightarrow> Slice option \<Rightarrow> 'a list" where
  "sliceItems heap None = []"
| "sliceItems heap (Some s) = take (sl_len s) (ga_items (heap ! sl_arr s))"

text \<open>\<open>append(s[:n], xs...)\<close>: in place when the capacity allows, else in a new array.\<close>

definition goAppend :: "(nat \<Rightarrow> nat) \<Rightarrow> 'a Heap \<Rightarrow> Slice option \<Rightarrow> nat \<Rightarrow> 'a list \<Rightarrow> 'a Heap \<times> Slice option" where
  "goAppend grow heap s n xs =
     (let new = take n (sliceItems heap s) @ xs;
          fresh = (heap @ [\<lparr>ga_cap = grow (length new), ga_items = new\<rparr>], Some \<lparr>sl_arr = length heap, sl_len = length new\<rparr>)
      in case s of
           None \<Rightarrow> fresh
         | Some sl \<Rightarrow>
             (let a = heap ! sl_arr sl
              in if length new \<le> ga_cap a
                 then (heap[sl_arr sl := a\<lparr>ga_items := new @ drop (length new) (ga_items a)\<rparr>], Some \<lparr>sl_arr = sl_arr sl, sl_len = length new\<rparr>)
                 else fresh))"

section \<open>Subscriptions\<close>

record 'h EventSubscriber =
  es_ID :: string
  es_Handler :: 'h
  es_Priority :: int
  es_Filter :: "(Event \<Rightarrow> bool) option"

datatype PublishResult = Sent | BufferFull | Cancelled

datatype BPublisher = Sending Event | Returned Event PublishResult

text \<open>The program points of \<open>worker\<close> and \<open>processEvent\<close>; the flag says whether the worker is emptying the channel after the
  shut-down.\<close>

datatype Worker =
    Waiting bool
  | Lookup bool Event
  | Handling bool Event "Slice option" nat
  | Stopped

record 'h BoundedEventBus =
  bb_subscribers :: "string \<Rightarrow> Slice option"
  bb_heap :: "'h EventSubscriber Heap"
  bb_buffer :: "Event list"
  bb_capacity :: nat
  bb_workers :: "Worker list"
  bb_shutdown :: bool
  bb_history :: "Event RingBuffer option"
  bb_publishers :: "BPublisher list"
  bb_accepted :: "Event list"
  bb_taken :: "Event list"
  bb_done :: "Event list"
  bb_handled :: "(Event \<times> 'h) list"

definition zeroEvent :: Event where
  "zeroEvent = \<lparr>ev_ID = [], ev_Type = [], ev_Payload = [], ev_Timestamp = 0, ev_RetryCount = 0, ev_MaxRetries = 0\<rparr>"

definition newBoundedEventBus :: "nat \<Rightarrow> nat \<Rightarrow> 'h BoundedEventBus" where
  "newBoundedEventBus workers bufferSize =
     \<lparr>bb_subscribers = (\<lambda>_. None), bb_heap = [], bb_buffer = [], bb_capacity = bufferSize, bb_workers = replicate workers (Waiting False),
      bb_shutdown = False, bb_history = Some (newRingBuffer zeroEvent 1000), bb_publishers = [],
      bb_accepted = [], bb_taken = [], bb_done = [], bb_handled = []\<rparr>"

text \<open>The position at which \<open>Subscribe\<close> inserts, if there is one.\<close>

fun lowerPriority :: "('a \<Rightarrow> int) \<Rightarrow> int \<Rightarrow> 'a list \<Rightarrow> nat option" where
  "lowerPriority prio p [] = None"
| "lowerPriority prio p (x # xs) = (if p > prio x then Some 0 else map_option Suc (lowerPriority prio p xs))"

text \<open>The insertion of a subscriber into the slice of its event type; \<open>prio\<close> is its field for the priority.\<close>

definition insertSubscriber :: "(nat \<Rightarrow> nat) \<Rightarrow> ('a \<Rightarrow> int) \<Rightarrow> 'a Heap \<Rightarrow> Slice option \<Rightarrow> 'a \<Rightarrow> 'a Heap \<times> Slice option" where
  "insertSubscriber grow prio heap s subscriber =
     (let subs = sliceItems heap s
      in case lowerPriority prio (prio subscriber) subs of
           Some i \<Rightarrow> goAppend grow heap s i (subscriber # drop i subs)
         | None \<Rightarrow> goAppend grow heap s (length subs) [subscriber])"

definition subscribeBounded :: "(nat \<Rightarrow> nat) \<Rightarrow> string \<Rightarrow> 'h EventSubscriber \<Rightarrow> 'h BoundedEventBus \<Rightarrow> 'h BoundedEventBus" where
  "subscribeBounded grow eventType subscriber eb =
     (let (heap, s') = insertSubscriber grow es_Priority (bb_heap eb) (bb_subscribers eb eventType) subscriber
      in eb\<lparr>bb_heap := heap, bb_subscribers := (bb_subscribers eb)(eventType := s')\<rparr>)"

section \<open>Publishing and processing\<close>

definition publishBounded :: "Event \<Rightarrow> 'h BoundedEventBus \<Rightarrow> 'h BoundedEventBus" where
  "publishBounded event eb =
     eb\<lparr>bb_history := Option.bind (bb_history eb) (ringAdd event), bb_publishers := bb_publishers eb @ [Sending event]\<rparr>"

text \<open>The \<open>select\<close> of \<open>Publish\<close>: the send is possible while there is room; the timer and the context are always possible.\<close>

definition publishSelect :: "nat \<Rightarrow> PublishResult \<Rightarrow> 'h BoundedEventBus \<Rightarrow> 'h BoundedEventBus" where
  "publishSelect i r eb =
     (if i < length (bb_publishers eb)
      then (case bb_publishers eb ! i of
              Sending event \<Rightarrow>
                if r = Sent
                then (if length (bb_buffer eb) < bb_capacity eb
                      then eb\<lparr>bb_buffer := bb_buffer eb @ [event], bb_accepted := bb_accepted eb @ [event],
                              bb_publishers := (bb_publishers eb)[i := Returned event Sent]\<rparr>
                      else eb)
                else eb\<lparr>bb_publishers := (bb_publishers eb)[i := Returned event r]\<rparr>
            | Returned event r' \<Rightarrow> eb)
      else eb)"

definition setWorker :: "nat \<Rightarrow> Worker \<Rightarrow> 'h BoundedEventBus \<Rightarrow> 'h BoundedEventBus" where
  "setWorker i w eb = eb\<lparr>bb_workers := (bb_workers eb)[i := w]\<rparr>"

definition receiveEvent :: "nat \<Rightarrow> bool \<Rightarrow> 'h BoundedEventBus \<Rightarrow> 'h BoundedEventBus" where
  "receiveEvent i draining eb =
     (case bb_buffer eb of
        [] \<Rightarrow> if draining then setWorker i Stopped eb else eb
      | event # rest \<Rightarrow> setWorker i (Lookup draining event) (eb\<lparr>bb_buffer := rest, bb_taken := bb_taken eb @ [event]\<rparr>))"

definition passesFilter :: "'h EventSubscriber \<Rightarrow> Event \<Rightarrow> bool" where
  "passesFilter s event = (case es_Filter s of None \<Rightarrow> True | Some f \<Rightarrow> f event)"

text \<open>One iteration of the loop of \<open>processEvent\<close>; the element is read from the array when its turn comes.\<close>

definition handleNext :: "nat \<Rightarrow> bool \<Rightarrow> Event \<Rightarrow> Slice option \<Rightarrow> nat \<Rightarrow> 'h BoundedEventBus \<Rightarrow> 'h BoundedEventBus" where
  "handleNext i draining event s j eb =
     (let subs = sliceItems (bb_heap eb) s
      in if j < length subs
         then setWorker i (Handling draining event s (Suc j))
                (if passesFilter (subs ! j) event then eb\<lparr>bb_handled := bb_handled eb @ [(event, es_Handler (subs ! j))]\<rparr> else eb)
         else setWorker i (Waiting draining) (eb\<lparr>bb_done := bb_done eb @ [event]\<rparr>))"

text \<open>A step of worker \<open>i\<close>; \<open>stop\<close> is the choice of the \<open>select\<close> when the shut-down channel is closed as well.\<close>

definition workerStep :: "nat \<Rightarrow> bool \<Rightarrow> 'h BoundedEventBus \<Rightarrow> 'h BoundedEventBus" where
  "workerStep i stop eb =
     (if i < length (bb_workers eb)
      then (case bb_workers eb ! i of
              Waiting draining \<Rightarrow>
                if \<not> draining \<and> bb_shutdown eb \<and> (stop \<or> bb_buffer eb = []) then setWorker i (Waiting True) eb
                else receiveEvent i draining eb
            | Lookup draining event \<Rightarrow> setWorker i (Handling draining event (bb_subscribers eb (ev_Type event)) 0) eb
            | Handling draining event s j \<Rightarrow> handleNext i draining event s j eb
            | Stopped \<Rightarrow> eb)
      else eb)"

text \<open>Closing the channel a second time panics.\<close>

definition shutdownBounded :: "'h BoundedEventBus \<Rightarrow> 'h BoundedEventBus option" where
  "shutdownBounded eb = (if bb_shutdown eb then None else Some (eb\<lparr>bb_shutdown := True\<rparr>))"

datatype 'h BStep =
    BSubscribe string "'h EventSubscriber" | BPublish Event | BSelect nat PublishResult | BWorker nat bool | BShutdown

fun bbStep :: "(nat \<Rightarrow> nat) \<Rightarrow> 'h BoundedEventBus \<Rightarrow> 'h BStep \<Rightarrow> 'h BoundedEventBus" where
  "bbStep grow eb (BSubscribe t s) = subscribeBounded grow t s eb"
| "bbStep grow eb (BPublish event) = publishBounded event eb"
| "bbStep grow eb (BSelect i r) = publishSelect i r eb"
| "bbStep grow eb (BWorker i stop) = workerStep i stop eb"
| "bbStep grow eb BShutdown = (case shutdownBounded eb of None \<Rightarrow> eb | Some eb' \<Rightarrow> eb')"

section \<open>Accounting\<close>

fun workerEvent :: "Worker \<Rightarrow> Event option" where
  "workerEvent (Lookup draining event) = Some event"
| "workerEvent (Handling draining event s j) = Some event"
| "workerEvent _ = None"

definition accountInv :: "'h BoundedEventBus \<Rightarrow> bool" where
  "accountInv eb \<longleftrightarrow>
     bb_accepted eb = bb_taken eb @ bb_buffer eb \<and> length (bb_buffer eb) \<le> bb_capacity eb \<and>
     mset (bb_taken eb) = mset (List.map_filter workerEvent (bb_workers eb)) + mset (bb_done eb)"

lemma accountInv_cong:
  "accountInv eb \<Longrightarrow> bb_accepted eb' = bb_accepted eb \<Longrightarrow> bb_taken eb' = bb_taken eb \<Longrightarrow> bb_buffer eb' = bb_buffer eb \<Longrightarrow>
     bb_capacity eb' = bb_capacity eb \<Longrightarrow> bb_done eb' = bb_done eb \<Longrightarrow>
     mset (List.map_filter workerEvent (bb_workers eb')) = mset (List.map_filter workerEvent (bb_workers eb)) \<Longrightarrow> accountInv eb'"
  by (simp add: accountInv_def)

lemma accountInv_worker:
  assumes inv: "accountInv eb"
  shows "accountInv (workerStep i stop eb)"
proof (cases "i < length (bb_workers eb)")
  case True
  note upd = map_filter_update [OF True, of workerEvent]
  show ?thesis
  proof (cases "bb_workers eb ! i")
    case (Waiting draining)
    show ?thesis
    proof (cases "\<not> draining \<and> bb_shutdown eb \<and> (stop \<or> bb_buffer eb = [])")
      case goesOn: True
      then show ?thesis
        using True Waiting upd [of "Waiting True"] by (intro accountInv_cong [OF inv]) (simp_all add: workerStep_def setWorker_def)
    next
      case False
      then have step: "workerStep i stop eb = receiveEvent i draining eb" using True Waiting by (auto simp: workerStep_def)
      show ?thesis
      proof (cases "bb_buffer eb")
        case Nil
        then show ?thesis
          using step inv Waiting upd [of Stopped] by (auto simp: receiveEvent_def setWorker_def intro!: accountInv_cong [OF inv])
      next
        case (Cons event rest)
        then show ?thesis using step inv Waiting upd [of "Lookup draining event"] by (simp add: receiveEvent_def setWorker_def accountInv_def)
      qed
    qed
  next
    case (Lookup draining event)
    then show ?thesis
      using True upd [of "Handling draining event (bb_subscribers eb (ev_Type event)) 0"]
      by (intro accountInv_cong [OF inv]) (simp_all add: workerStep_def setWorker_def)
  next
    case (Handling draining event s j)
    then show ?thesis
      using True inv upd [of "Handling draining event s (Suc j)"] upd [of "Waiting draining"]
      by (simp add: workerStep_def handleNext_def Let_def setWorker_def accountInv_def)
  qed (use True inv in \<open>simp add: workerStep_def\<close>)
qed (use inv in \<open>simp add: workerStep_def\<close>)

lemma accountInv_step: "accountInv eb \<Longrightarrow> accountInv (bbStep grow eb e)"
proof (cases e)
  case (BSubscribe t s)
  assume "accountInv eb"
  then show ?thesis using BSubscribe by (simp add: subscribeBounded_def Let_def split_beta accountInv_def)
next
  case (BSelect i r)
  assume "accountInv eb"
  then show ?thesis using BSelect by (auto simp: publishSelect_def accountInv_def split: BPublisher.splits)
next
  case (BWorker i stop)
  assume "accountInv eb"
  then show ?thesis using BWorker by (simp add: accountInv_worker)
qed (auto simp: publishBounded_def shutdownBounded_def accountInv_def)

lemma accountInv_new: "accountInv (newBoundedEventBus workers bufferSize)"
  by (induction workers) (simp_all add: accountInv_def newBoundedEventBus_def List.map_filter_simps)

interpretation bounded: locked_object "bbStep grow" accountInv for grow
  by unfold_locales (rule accountInv_step)

section \<open>Priorities\<close>

definition subsOf :: "'h BoundedEventBus \<Rightarrow> string \<Rightarrow> 'h EventSubscriber list" where
  "subsOf eb t = sliceItems (bb_heap eb) (bb_subscribers eb t)"

text \<open>Every slice lies inside its array, and slices of different event types have different arrays.\<close>

definition sliceOk :: "'a Heap \<Rightarrow> Slice option \<Rightarrow> bool" where
  "sliceOk heap s \<longleftrightarrow> pred_option (\<lambda>s. sl_arr s < length heap \<and> sl_len s \<le> length (ga_items (heap ! sl_arr s))) s"

definition tableOk :: "'a Heap \<Rightarrow> (string \<Rightarrow> Slice option) \<Rightarrow> bool" where
  "tableOk heap subs \<longleftrightarrow>
     (\<forall>t. sliceOk heap (subs t)) \<and>
     (\<forall>t t' s s'. t \<noteq> t' \<longrightarrow> subs t = Some s \<longrightarrow> subs t' = Some s' \<longrightarrow> sl_arr s \<noteq> sl_arr s')"

definition heapOk :: "'h BoundedEventBus \<Rightarrow> bool" where
  "heapOk eb \<longleftrightarrow> tableOk (bb_heap eb) (bb_subscribers eb)"

lemma goAppend_result:
  assumes "sliceOk heap s" and "goAppend grow heap s n xs = (heap', s')"
  shows "sliceOk heap' s' \<and> sliceItems heap' s' = take n (sliceItems heap s) @ xs \<and> length heap \<le> length heap' \<and>
    (\<exists>r. s' = Some r \<and> (sl_arr r = length heap \<or> (\<exists>sl. s = Some sl \<and> sl_arr r = sl_arr sl))) \<and>
    (\<forall>a < length heap. (\<forall>sl. s = Some sl \<longrightarrow> a \<noteq> sl_arr sl) \<longrightarrow> heap' ! a = heap ! a)"
  using assms
  by (cases s) (auto simp: goAppend_def Let_def sliceOk_def nth_append split: if_splits)

lemma sliceItems_heap:
  "sliceOk heap s \<Longrightarrow> length heap \<le> length heap' \<Longrightarrow> \<forall>sl. s = Some sl \<longrightarrow> heap' ! sl_arr sl = heap ! sl_arr sl \<Longrightarrow>
     sliceItems heap' s = sliceItems heap s \<and> sliceOk heap' s"
  by (cases s) (auto simp: sliceOk_def)

definition insertByPriority :: "('a \<Rightarrow> int) \<Rightarrow> 'a \<Rightarrow> 'a list \<Rightarrow> 'a list" where
  "insertByPriority prio x xs = (case lowerPriority prio (prio x) xs of Some i \<Rightarrow> take i xs @ x # drop i xs | None \<Rightarrow> xs @ [x])"

lemma insertSubscriber_goAppend:
  "\<exists>n ys. insertSubscriber grow prio heap s x = goAppend grow heap s n ys \<and>
     take n (sliceItems heap s) @ ys = insertByPriority prio x (sliceItems heap s)"
proof (cases "lowerPriority prio (prio x) (sliceItems heap s)")
  case None
  then show ?thesis
    by (intro exI [of _ "length (sliceItems heap s)"] exI [of _ "[x]"]) (simp add: insertSubscriber_def insertByPriority_def Let_def)
next
  case (Some i)
  then show ?thesis
    by (intro exI [of _ i] exI [of _ "x # drop i (sliceItems heap s)"]) (simp add: insertSubscriber_def insertByPriority_def Let_def)
qed

lemma insertSubscriber_result:
  assumes ok: "tableOk heap subs" and ins: "insertSubscriber grow prio heap (subs t) x = (heap', s')"
  shows "tableOk heap' (subs(t := s')) \<and>
    sliceItems heap' ((subs(t := s')) t') = (if t' = t then insertByPriority prio x (sliceItems heap (subs t)) else sliceItems heap (subs t'))"
proof -
  obtain n ys where app: "goAppend grow heap (subs t) n ys = (heap', s')"
    and list: "take n (sliceItems heap (subs t)) @ ys = insertByPriority prio x (sliceItems heap (subs t))"
    using insertSubscriber_goAppend ins by metis
  have old: "sliceOk heap (subs u)" for u using ok by (simp add: tableOk_def)
  note res = goAppend_result [OF old app]
  have fresh: "sl_arr sl < length heap" if "subs u = Some sl" for u sl
    using old [of u] that by (simp add: sliceOk_def)
  have apart: "sl_arr sl \<noteq> sl_arr sl'" if "subs u = Some sl" "subs t = Some sl'" "u \<noteq> t" for u sl sl'
    using ok that unfolding tableOk_def by blast
  have other: "sliceItems heap' (subs u) = sliceItems heap (subs u) \<and> sliceOk heap' (subs u)" if "u \<noteq> t" for u
  proof (rule sliceItems_heap [OF old])
    show "length heap \<le> length heap'" using res by simp
    show "\<forall>sl. subs u = Some sl \<longrightarrow> heap' ! sl_arr sl = heap ! sl_arr sl"
      using res fresh apart that by blast
  qed
  have "tableOk heap' (subs(t := s'))"
    using ok other res fresh unfolding tableOk_def by (auto split: if_splits) (metis nat_less_le)+
  then show ?thesis using other res list by auto
qed

lemma subscribe_result:
  assumes ok: "heapOk eb"
  shows "heapOk (subscribeBounded grow t x eb) \<and>
    subsOf (subscribeBounded grow t x eb) t' = (if t' = t then insertByPriority es_Priority x (subsOf eb t) else subsOf eb t')"
proof -
  obtain heap s' where ins: "insertSubscriber grow es_Priority (bb_heap eb) (bb_subscribers eb t) x = (heap, s')" by fastforce
  with insertSubscriber_result [OF ok [unfolded heapOk_def] ins, of t'] show ?thesis
    by (simp add: subscribeBounded_def heapOk_def subsOf_def)
qed

lemma lowerPriority_split:
  "case lowerPriority prio p xs of
     Some i \<Rightarrow> i < length xs \<and> (\<forall>y \<in> set (take i xs). p \<le> prio y) \<and> prio (xs ! i) < p
   | None \<Rightarrow> \<forall>y \<in> set xs. p \<le> prio y"
  by (induction xs) (auto split: option.splits)

lemma insertByPriority_sort:
  "insertByPriority prio x (sort_key (\<lambda>s. - prio s) xs) = sort_key (\<lambda>s. - prio s) (xs @ [x])"
proof -
  define ys where "ys = sort_key (\<lambda>s. - prio s) xs"
  obtain as bs where ys: "ys = as @ bs" "insertByPriority prio x ys = as @ x # bs"
    and as: "\<forall>y \<in> set as. prio x \<le> prio y" and bs: "bs = [] \<or> prio (hd bs) < prio x"
    using lowerPriority_split [where prio = prio and p = "prio x" and xs = ys]
    by (cases "lowerPriority prio (prio x) ys") (auto simp: insertByPriority_def hd_drop_conv_nth intro: that [of ys "[]"] that [of "take i ys" "drop i ys" for i])
  have sorted: "sorted (map (\<lambda>s. - prio s) ys)" by (simp add: ys_def)
  then have lower: "\<forall>y \<in> set bs. prio y < prio x" using bs ys(1) by (cases bs) (auto simp: sorted_append)
  show ?thesis unfolding ys_def [symmetric]
  proof (rule properties_for_sort_key [symmetric])
    have "mset as + mset bs = mset xs" using arg_cong [OF ys(1), of mset] by (simp add: ys_def mset_sort)
    then show "mset (insertByPriority prio x ys) = mset (xs @ [x])" using ys by simp
    show "sorted (map (\<lambda>s. - prio s) (insertByPriority prio x ys))"
      using sorted ys as lower by (auto simp: sorted_append)
  next
    fix k assume "k \<in> set (insertByPriority prio x ys)"
    have st: "filter (\<lambda>s. - prio k = - prio s) ys = filter (\<lambda>s. - prio k = - prio s) xs"
      unfolding ys_def using sort_key_stable [of "\<lambda>s. - prio s" "- prio k" xs] by (simp add: eq_commute)
    have "filter (\<lambda>s. prio k = prio s) bs = []" if "prio k = prio x" using lower that by (auto simp: filter_empty_conv)
    then show "filter (\<lambda>s. - prio k = - prio s) (insertByPriority prio x ys) = filter (\<lambda>s. - prio k = - prio s) (xs @ [x])"
      using st ys by auto
  qed
qed

text \<open>The subscriptions of a history to an event type, in their order.\<close>

fun subscriptions :: "string \<Rightarrow> 'h BStep list \<Rightarrow> 'h EventSubscriber list" where
  "subscriptions t [] = []"
| "subscriptions t (BSubscribe t' s # es) = (if t' = t then s # subscriptions t es else subscriptions t es)"
| "subscriptions t (_ # es) = subscriptions t es"

lemma setWorker_subs [unchanged]:
  "bb_heap (setWorker i w eb) = bb_heap eb" "bb_subscribers (setWorker i w eb) = bb_subscribers eb"
  "bb_buffer (setWorker i w eb) = bb_buffer eb" "bb_shutdown (setWorker i w eb) = bb_shutdown eb"
  by (simp_all add: setWorker_def)

lemma workerStep_subs [unchanged]:
  "bb_heap (workerStep i stop eb) = bb_heap eb" "bb_subscribers (workerStep i stop eb) = bb_subscribers eb"
  "bb_shutdown (workerStep i stop eb) = bb_shutdown eb"
  by (simp_all add: workerStep_def receiveEvent_def handleNext_def Let_def unchanged split: Worker.splits list.splits)

lemma other_subs:
  assumes "\<And>t s. e \<noteq> BSubscribe t s"
  shows "bb_heap (bbStep grow eb e) = bb_heap eb \<and> bb_subscribers (bbStep grow eb e) = bb_subscribers eb"
  using assms
  by (cases e) (auto simp: publishBounded_def publishSelect_def shutdownBounded_def unchanged split: BPublisher.splits)

lemma subs_step:
  assumes ok: "heapOk eb"
  shows "heapOk (bbStep grow eb e) \<and>
    subsOf (bbStep grow eb e) t = fold (insertByPriority es_Priority) (subscriptions t [e]) (subsOf eb t)"
proof (cases "\<exists>u s. e = BSubscribe u s")
  case True
  then show ?thesis using subscribe_result [OF ok] by auto
next
  case False
  then have "subscriptions t [e] = []" by (cases e) auto
  then show ?thesis using False ok other_subs [of e grow eb] by (auto simp: heapOk_def subsOf_def)
qed

lemma subscriptions_Cons: "subscriptions t (e # es) = subscriptions t [e] @ subscriptions t es"
  by (cases e) auto

lemma subs_run:
  "heapOk eb \<Longrightarrow> subsOf (run (bbStep grow) eb es) t = fold (insertByPriority es_Priority) (subscriptions t es) (subsOf eb t)"
proof (induction es arbitrary: eb)
  case (Cons e es)
  have "heapOk (bbStep grow eb e)" and "subsOf (bbStep grow eb e) t = fold (insertByPriority es_Priority) (subscriptions t [e]) (subsOf eb t)"
    using subs_step [OF Cons.prems] by auto
  then show ?case using Cons.IH by (subst subscriptions_Cons) simp
qed simp

lemma fold_insertByPriority:
  "fold (insertByPriority prio) ys (sort_key (\<lambda>s. - prio s) xs) = sort_key (\<lambda>s. - prio s) (xs @ ys)"
  by (induction ys arbitrary: xs) (simp_all add: insertByPriority_sort)

lemma heapOk_new: "heapOk (newBoundedEventBus workers bufferSize)"
  by (simp add: heapOk_def tableOk_def sliceOk_def newBoundedEventBus_def)

text \<open> In every interleaving of subscriptions, publishers, workers and shut-down: the accepted events are those that workers have received
  followed by those in the channel, in the order of the sends; the channel is within its capacity; every received event is with exactly
  one worker or finished; and the subscriptions to every event type are all that were made, sorted by descending priority, those of equal priority
  in the order in which they were made.\<close>

theorem bounded_bus_accounts:
  "let eb = run (bbStep grow) (newBoundedEventBus workers bufferSize) es
   in bb_accepted eb = bb_taken eb @ bb_buffer eb \<and> length (bb_buffer eb) \<le> bb_capacity eb \<and>
      mset (bb_taken eb) = mset (List.map_filter workerEvent (bb_workers eb)) + mset (bb_done eb) \<and>
      subsOf eb t = sort_key (\<lambda>s. - es_Priority s) (subscriptions t es)"
proof -
  define eb where "eb = run (bbStep grow) (newBoundedEventBus workers bufferSize) es"
  have "accountInv eb" unfolding eb_def by (rule bounded.inv_run [OF accountInv_new])
  moreover have "subsOf eb t = fold (insertByPriority es_Priority) (subscriptions t es) []"
    unfolding eb_def using subs_run [OF heapOk_new] by (simp add: subsOf_def newBoundedEventBus_def)
  then have "subsOf eb t = sort_key (\<lambda>s. - es_Priority s) (subscriptions t es)"
    using fold_insertByPriority [of es_Priority "subscriptions t es" "[]"] by simp
  ultimately show ?thesis unfolding eb_def [symmetric] by (simp add: Let_def accountInv_def)
qed

section \<open>Shut-down\<close>

text \<open>The number of steps that the workers need to finish.\<close>

fun workOf :: "'h BoundedEventBus \<Rightarrow> Worker \<Rightarrow> nat" where
  "workOf eb (Waiting draining) = (if draining then 1 else 2)"
| "workOf eb (Lookup draining event) = length (subsOf eb (ev_Type event)) + 2 + (if draining then 1 else 2)"
| "workOf eb (Handling draining event s j) = (length (sliceItems (bb_heap eb) s) - j) + 1 + (if draining then 1 else 2)"
| "workOf eb Stopped = 0"

definition shutdownWork :: "'h BoundedEventBus \<Rightarrow> nat" where
  "shutdownWork eb = sum_list (map (workOf eb) (bb_workers eb)) + sum_list (map (\<lambda>event. 3 + length (subsOf eb (ev_Type event))) (bb_buffer eb))"

lemma workOf_cong: "bb_heap eb' = bb_heap eb \<Longrightarrow> bb_subscribers eb' = bb_subscribers eb \<Longrightarrow> workOf eb' w = workOf eb w"
  by (cases w) (simp_all add: subsOf_def)

lemma work_set:
  assumes "i < length (bb_workers eb)" and "bb_heap eb' = bb_heap eb" and "bb_subscribers eb' = bb_subscribers eb"
    and "bb_workers eb' = (bb_workers eb)[i := w]"
  shows "sum_list (map (workOf eb') (bb_workers eb')) + workOf eb (bb_workers eb ! i) = sum_list (map (workOf eb) (bb_workers eb)) + workOf eb w"
proof -
  have "workOf eb' = workOf eb" using workOf_cong [OF assms(2,3)] by blast
  then show ?thesis using sum_list_map_update [OF assms(1), of "workOf eb" w] assms(4) by simp
qed

definition active :: "'h BoundedEventBus \<Rightarrow> nat \<times> bool \<Rightarrow> bool" where
  "active eb e \<longleftrightarrow> fst e < length (bb_workers eb) \<and> bb_workers eb ! fst e \<noteq> Stopped"

definition poolStep :: "'h BoundedEventBus \<Rightarrow> nat \<times> bool \<Rightarrow> 'h BoundedEventBus" where
  "poolStep eb e = workerStep (fst e) (snd e) eb"

lemma poolStep_work:
  assumes down: "bb_shutdown eb" and act: "active eb e"
  shows "Suc (shutdownWork (poolStep eb e)) = shutdownWork eb"
proof -
  define i where "i = fst e"
  define eb' where "eb' = poolStep eb e"
  have i: "i < length (bb_workers eb)" "bb_workers eb ! i \<noteq> Stopped" using act by (simp_all add: active_def i_def)
  have same: "bb_heap eb' = bb_heap eb" "bb_subscribers eb' = bb_subscribers eb" by (simp_all add: eb'_def poolStep_def unchanged)
  then have subs: "subsOf eb' = subsOf eb" by (simp add: subsOf_def fun_eq_iff)
  have "\<exists>w. bb_workers eb' = (bb_workers eb)[i := w] \<and>
      (bb_buffer eb' = bb_buffer eb \<and> Suc (workOf eb w) = workOf eb (bb_workers eb ! i) \<or>
       (\<exists>event. bb_buffer eb = event # bb_buffer eb' \<and> workOf eb w = workOf eb (bb_workers eb ! i) + length (subsOf eb (ev_Type event)) + 2))"
    using i down unfolding eb'_def poolStep_def i_def [symmetric]
    by (cases "bb_workers eb ! i")
      (auto simp: workerStep_def receiveEvent_def handleNext_def Let_def setWorker_def subsOf_def split: list.splits)
  then obtain w where w: "bb_workers eb' = (bb_workers eb)[i := w]"
    and d: "bb_buffer eb' = bb_buffer eb \<and> Suc (workOf eb w) = workOf eb (bb_workers eb ! i) \<or>
       (\<exists>event. bb_buffer eb = event # bb_buffer eb' \<and> workOf eb w = workOf eb (bb_workers eb ! i) + length (subsOf eb (ev_Type event)) + 2)"
    by blast
  show ?thesis
    using d work_set [OF i(1) same w] unfolding eb'_def [symmetric] by (auto simp: shutdownWork_def subs)
qed

text \<open>A worker stops only when the channel is empty, and workers put nothing into it.\<close>

definition drained :: "'h BoundedEventBus \<Rightarrow> bool" where
  "drained eb \<longleftrightarrow> bb_shutdown eb \<and> (list_all (\<lambda>w. w = Stopped) (bb_workers eb) \<longrightarrow> bb_buffer eb = [])"

lemma drained_step:
  assumes d: "drained eb" and act: "active eb e"
  shows "drained (poolStep eb e)"
proof -
  define i where "i = fst e"
  have i: "i < length (bb_workers eb)" "bb_workers eb ! i \<noteq> Stopped" using act by (simp_all add: active_def i_def)
  have "bb_buffer (poolStep eb e) = []" if "bb_workers (poolStep eb e) ! i = Stopped"
    using that i unfolding poolStep_def i_def [symmetric]
    by (cases "bb_workers eb ! i")
      (auto simp: workerStep_def receiveEvent_def handleNext_def Let_def setWorker_def split: list.splits if_splits)
  moreover have "length (bb_workers (poolStep eb e)) = length (bb_workers eb)"
    by (simp add: poolStep_def workerStep_def receiveEvent_def handleNext_def Let_def setWorker_def split: Worker.splits list.splits)
  ultimately show ?thesis using d i by (simp add: drained_def list_all_length poolStep_def unchanged)
qed

interpretation pool: guarded_object poolStep drained active
  by unfold_locales (rule drained_step)

lemma poolStep_run_work:
  "bb_shutdown eb \<Longrightarrow> admissible poolStep active eb es \<Longrightarrow> length es + shutdownWork (run poolStep eb es) = shutdownWork eb"
proof (induction es arbitrary: eb)
  case (Cons e es)
  have "bb_shutdown (poolStep eb e)" using Cons.prems by (simp add: poolStep_def unchanged)
  then have "length es + shutdownWork (run poolStep (poolStep eb e) es) = shutdownWork (poolStep eb e)" using Cons by simp
  then show ?case using poolStep_work [of eb e] Cons.prems by simp
qed simp

interpretation pool_account: locked_object poolStep accountInv
  by unfold_locales (simp add: poolStep_def accountInv_worker)


definition exampleSub :: "string \<Rightarrow> nat \<Rightarrow> int \<Rightarrow> nat EventSubscriber" where
  "exampleSub name h p = \<lparr>es_ID = name, es_Handler = h, es_Priority = p, es_Filter = None\<rparr>"

definition exampleHistory :: "nat BStep list" where
  "exampleHistory =
     [BSubscribe ''user.created'' (exampleSub ''low'' 1 1), BSubscribe ''user.created'' (exampleSub ''high'' 2 10),
      BPublish exampleEvent, BSelect 0 Sent, BShutdown]"


text \<open>An insertion in front writes into the array that a worker is still reading: here a worker that has called the first
  two handlers calls the second one again and never the third.\<close>

lemma subscribe_shifts_running_worker:
  "bb_handled (run (bbStep (\<lambda>n. 4)) (newBoundedEventBus 1 4)
     [BSubscribe ''user.created'' (exampleSub ''a'' 1 10), BSubscribe ''user.created'' (exampleSub ''b'' 2 5), BSubscribe ''user.created'' (exampleSub ''c'' 3 1),
      BPublish exampleEvent, BSelect 0 Sent, BWorker 0 False, BWorker 0 False, BWorker 0 False, BWorker 0 False,
      BSubscribe ''user.created'' (exampleSub ''d'' 4 20), BWorker 0 False, BWorker 0 False])
   = [(exampleEvent, 1), (exampleEvent, 2), (exampleEvent, 2)]"
  by code_simp

text \<open>The channel is not closed by \<open>Shutdown\<close>: \<open>Publish\<close> still succeeds when no worker is left, and the event stays in the channel.\<close>

lemma publish_after_shutdown_accepted:
  "let eb = run (bbStep (\<lambda>n. 2 * n)) (newBoundedEventBus 1 4) [BShutdown, BWorker 0 True, BWorker 0 True, BPublish exampleEvent, BSelect 0 Sent]
   in bb_workers eb = [Stopped] \<and> bb_publishers eb = [BoundedEventBus.Returned exampleEvent Sent] \<and> bb_buffer eb = [exampleEvent]"
  by code_simp

end
