(* ===== verification/BreakerEventBus.thy ===== *)
theory BreakerEventBus
  imports ReliableEventBus
begin

text \<open>
  The event bus with circuit breakers and a dead-letter queue of \<open>src/solutions/solution17_event_bus.go\<close> (\<open>CircuitBreakerEventBus\<close>).
  Calls of \<open>Publish\<close> and of \<open>ProcessDLQ\<close> are goroutines; the former have program points between any two accesses to
  shared variables (the atomic variables of the breaker, its failure time under the mutex, the dead-letter
  queue under its mutex).  The order in which handlers finish, whether each of them fails, and clock readings are arguments of
  the steps.  \<open>bk_rejected\<close>, \<open>bk_attempts\<close>, \<open>bk_delivered\<close> and \<open>bk_discarded\<close> record the events that a direct call put into the queue, the number of
  retries started, and the identifiers of the events that a retry delivered or gave up; the operations do not read them.

  Shown, for every interleaving: a breaker is not left closed after five failures; an event that was put into the dead-letter queue is in it, under way,
  delivered or discarded; and the number of retries is bounded by \<open>2 ^ MaxRetries - 1\<close> for an event, which can be reached, because a retry that meets
  an open circuit puts the event into the queue twice.
\<close>

section \<open>State\<close>

datatype BreakerState = StateClosed | StateOpen | StateHalfOpen

record Breaker =
  br_failures :: int
  br_lastFailTime :: gotime
  br_state :: BreakerState
  br_maxFailures :: int
  br_cooldownTime :: duration

datatype PubError = CircuitOpen | AllHandlersFailed

text \<open>The program points of \<open>Publish\<close>, \<open>Allow\<close>, \<open>RecordFailure\<close> and \<open>RecordSuccess\<close>; the numbers are the counts of successful and
  failed handlers.\<close>

datatype 'h Point =
    PLookup | PLoadState "'h list" | PCheckTime "'h list" | PStoreHalfOpen "'h list" | PLoadFailures "'h list" | PReject
  | PRun "'h list" int int
  | PAddFailure int | PStoreTime int int | PStoreOpen int
  | PLoadStateAgain int | PStoreClosed int | PResetFailures int
  | PReturned "PubError option"

text \<open>A goroutine: a direct call of \<open>Publish\<close>, or \<open>ProcessDLQ\<close> before it takes the queue, between two events, and inside \<open>Publish\<close>.\<close>

datatype 'h Task =
    Direct Event "'h Point"
  | TakeQueue
  | NextEvent "Event list"
  | Retry Event "'h Point" "Event list"

record 'h BreakerEventBus =
  bk_subscribers :: "string \<Rightarrow> 'h list"
  bk_breakers :: "string \<rightharpoonup> Breaker"
  bk_dlq :: "Event list"
  bk_tasks :: "'h Task list"
  bk_rejected :: "Event list"
  bk_attempts :: nat
  bk_delivered :: "string list"
  bk_discarded :: "string list"

definition newBreakerEventBus :: "'h BreakerEventBus" where
  "newBreakerEventBus =
     \<lparr>bk_subscribers = (\<lambda>_. []), bk_breakers = Map.empty, bk_dlq = [], bk_tasks = [],
      bk_rejected = [], bk_attempts = 0, bk_delivered = [], bk_discarded = []\<rparr>"

section \<open>Operations\<close>

definition newBreaker :: Breaker where
  "newBreaker = \<lparr>br_failures = 0, br_lastFailTime = 0, br_state = StateClosed, br_maxFailures = 5, br_cooldownTime = 30000000000\<rparr>"

definition subscribeBreaker :: "string \<Rightarrow> 'h \<Rightarrow> 'h BreakerEventBus \<Rightarrow> 'h BreakerEventBus" where
  "subscribeBreaker eventType handler eb =
     eb\<lparr>bk_subscribers := (bk_subscribers eb)(eventType := bk_subscribers eb eventType @ [handler]),
        bk_breakers := (case bk_breakers eb eventType of
           None \<Rightarrow> (bk_breakers eb)(eventType \<mapsto> newBreaker)
         | Some _ \<Rightarrow> bk_breakers eb)\<rparr>"

text \<open>The handlers and the breaker are read together under the lock; without a breaker the calls on it are skipped.\<close>

definition afterLookup :: "'h list \<Rightarrow> Breaker option \<Rightarrow> 'h Point" where
  "afterLookup handlers cb =
     (if handlers = [] then PReturned None else case cb of None \<Rightarrow> PRun handlers 0 0 | Some _ \<Rightarrow> PLoadState handlers)"

definition returned :: "int \<Rightarrow> int \<Rightarrow> 'h Point" where
  "returned successCount failureCount = PReturned (if failureCount > 0 \<and> successCount = 0 then Some AllHandlersFailed else None)"

definition afterHandlers :: "Breaker option \<Rightarrow> int \<Rightarrow> int \<Rightarrow> 'h Point" where
  "afterHandlers cb successCount failureCount =
     (case cb of
        None \<Rightarrow> returned successCount failureCount
      | Some _ \<Rightarrow> if failureCount > 0 then PAddFailure successCount
                  else if successCount > 0 then PLoadStateAgain successCount
                  else returned successCount failureCount)"

definition runOne :: "Breaker option \<Rightarrow> 'h list \<Rightarrow> int \<Rightarrow> int \<Rightarrow> nat \<Rightarrow> bool \<Rightarrow> 'h Point" where
  "runOne cb todo s f k ok =
     (let rest = dropNth k todo; s' = (if ok then s + 1 else s); f' = (if ok then f else f + 1)
      in if rest = [] then afterHandlers cb s' f' else PRun rest s' f')"

text \<open>One access of \<open>Publish\<close>: the next point and the breaker.\<close>

fun pointStep :: "gotime \<Rightarrow> nat \<Rightarrow> bool \<Rightarrow> 'h list \<Rightarrow> 'h Point \<Rightarrow> Breaker option \<Rightarrow> 'h Point \<times> Breaker option" where
  "pointStep now k ok handlers PLookup cb = (afterLookup handlers cb, cb)"
| "pointStep now k ok _ (PLoadState hs) (Some b) =
     (case br_state b of StateClosed \<Rightarrow> PRun hs 0 0 | StateOpen \<Rightarrow> PCheckTime hs | StateHalfOpen \<Rightarrow> PLoadFailures hs, Some b)"
| "pointStep now k ok _ (PCheckTime hs) (Some b) =
     (if now - br_lastFailTime b > br_cooldownTime b then PStoreHalfOpen hs else PReject, Some b)"
| "pointStep now k ok _ (PStoreHalfOpen hs) (Some b) = (PRun hs 0 0, Some (b\<lparr>br_state := StateHalfOpen\<rparr>))"
| "pointStep now k ok _ (PLoadFailures hs) (Some b) = (if br_failures b < br_maxFailures b div 2 then PRun hs 0 0 else PReject, Some b)"
| "pointStep now k ok _ (PRun todo s f) cb = (if k < length todo then runOne cb todo s f k ok else PRun todo s f, cb)"
| "pointStep now k ok _ (PAddFailure s) (Some b) =
     (PStoreTime s (i64 (br_failures b + 1)), Some (b\<lparr>br_failures := i64 (br_failures b + 1)\<rparr>))"
| "pointStep now k ok _ (PStoreTime s n) (Some b) =
     (if n \<ge> br_maxFailures b then PStoreOpen s else returned s 1, Some (b\<lparr>br_lastFailTime := now\<rparr>))"
| "pointStep now k ok _ (PStoreOpen s) (Some b) = (returned s 1, Some (b\<lparr>br_state := StateOpen\<rparr>))"
| "pointStep now k ok _ (PLoadStateAgain s) (Some b) = (if br_state b = StateHalfOpen then PStoreClosed s else returned s 0, Some b)"
| "pointStep now k ok _ (PStoreClosed s) (Some b) = (PResetFailures s, Some (b\<lparr>br_state := StateClosed\<rparr>))"
| "pointStep now k ok _ (PResetFailures s) (Some b) = (returned s 0, Some (b\<lparr>br_failures := 0\<rparr>))"
| "pointStep now k ok _ p cb = (p, cb)"

definition setTask :: "nat \<Rightarrow> 'h Task \<Rightarrow> 'h BreakerEventBus \<Rightarrow> 'h BreakerEventBus" where
  "setTask i t eb = eb\<lparr>bk_tasks := (bk_tasks eb)[i := t]\<rparr>"

text \<open>An access of the call that publishes \<open>event\<close>; \<open>mk\<close> puts the new point back into its goroutine.\<close>

definition publishStep :: "nat \<Rightarrow> gotime \<Rightarrow> nat \<Rightarrow> bool \<Rightarrow> Event \<Rightarrow> 'h Point \<Rightarrow> ('h Point \<Rightarrow> 'h Task) \<Rightarrow> 'h BreakerEventBus \<Rightarrow> 'h BreakerEventBus" where
  "publishStep i now k ok event p mk eb =
     (if p = PReject then setTask i (mk (PReturned (Some CircuitOpen))) (eb\<lparr>bk_dlq := bk_dlq eb @ [event]\<rparr>)
      else (let (p', cb) = pointStep now k ok (bk_subscribers eb (ev_Type event)) p (bk_breakers eb (ev_Type event))
            in setTask i (mk p') (eb\<lparr>bk_breakers := (bk_breakers eb)(ev_Type event := cb)\<rparr>)))"

fun nextEvent :: "nat \<Rightarrow> Event list \<Rightarrow> 'h BreakerEventBus \<Rightarrow> 'h BreakerEventBus" where
  "nextEvent i [] eb = eb"
| "nextEvent i (event # rest) eb =
     (let event' = event\<lparr>ev_RetryCount := i64 (ev_RetryCount event + 1)\<rparr>
      in if ev_RetryCount event' \<le> ev_MaxRetries event' then setTask i (Retry event' PLookup rest) (eb\<lparr>bk_attempts := Suc (bk_attempts eb)\<rparr>)
         else setTask i (NextEvent rest) (eb\<lparr>bk_discarded := bk_discarded eb @ [ev_ID event]\<rparr>))"

definition retryReturned :: "nat \<Rightarrow> Event \<Rightarrow> PubError option \<Rightarrow> Event list \<Rightarrow> 'h BreakerEventBus \<Rightarrow> 'h BreakerEventBus" where
  "retryReturned i event err rest eb =
     setTask i (NextEvent rest)
       (case err of None \<Rightarrow> eb\<lparr>bk_delivered := bk_delivered eb @ [ev_ID event]\<rparr> | Some _ \<Rightarrow> eb\<lparr>bk_dlq := bk_dlq eb @ [event]\<rparr>)"

definition taskStep :: "nat \<Rightarrow> gotime \<Rightarrow> nat \<Rightarrow> bool \<Rightarrow> 'h BreakerEventBus \<Rightarrow> 'h BreakerEventBus" where
  "taskStep i now k ok eb =
     (if i < length (bk_tasks eb)
      then (case bk_tasks eb ! i of
              Direct event p \<Rightarrow>
                publishStep i now k ok event p (Direct event) (if p = PReject then eb\<lparr>bk_rejected := bk_rejected eb @ [event]\<rparr> else eb)
            | TakeQueue \<Rightarrow> setTask i (NextEvent (bk_dlq eb)) (eb\<lparr>bk_dlq := []\<rparr>)
            | NextEvent events \<Rightarrow> nextEvent i events eb
            | Retry event p rest \<Rightarrow>
                (case p of PReturned err \<Rightarrow> retryReturned i event err rest eb
                 | _ \<Rightarrow> publishStep i now k ok event p (\<lambda>p. Retry event p rest) eb))
      else eb)"

datatype 'h KStep = KSubscribe string 'h | KPublish Event | KProcessDLQ | KTask nat gotime nat bool

fun bkStep :: "'h BreakerEventBus \<Rightarrow> 'h KStep \<Rightarrow> 'h BreakerEventBus" where
  "bkStep eb (KSubscribe t h) = subscribeBreaker t h eb"
| "bkStep eb (KPublish event) = eb\<lparr>bk_tasks := bk_tasks eb @ [Direct event PLookup]\<rparr>"
| "bkStep eb KProcessDLQ = eb\<lparr>bk_tasks := bk_tasks eb @ [TakeQueue]\<rparr>"
| "bkStep eb (KTask i now k ok) = taskStep i now k ok eb"

section \<open>The breaker opens\<close>

text \<open>Between counting the fifth failure and opening the circuit, or between closing it and resetting the counter.\<close>

fun updatingPoint :: "'h Point \<Rightarrow> bool" where
  "updatingPoint (PStoreTime s n) \<longleftrightarrow> n \<ge> 5"
| "updatingPoint (PStoreOpen s) \<longleftrightarrow> True"
| "updatingPoint (PResetFailures s) \<longleftrightarrow> True"
| "updatingPoint _ \<longleftrightarrow> False"

fun updating :: "string \<Rightarrow> 'h Task \<Rightarrow> bool" where
  "updating t (Direct event p) \<longleftrightarrow> ev_Type event = t \<and> updatingPoint p"
| "updating t (Retry event p rest) \<longleftrightarrow> ev_Type event = t \<and> updatingPoint p"
| "updating t _ \<longleftrightarrow> False"

definition tripped :: "Breaker option \<Rightarrow> bool" where
  "tripped cb \<longleftrightarrow> (case cb of None \<Rightarrow> False | Some b \<Rightarrow> br_state b = StateClosed \<and> br_failures b \<ge> 5)"

definition breakersInv :: "'h BreakerEventBus \<Rightarrow> bool" where
  "breakersInv eb \<longleftrightarrow>
     (\<forall>t. pred_option (\<lambda>b. br_maxFailures b = 5) (bk_breakers eb t)) \<and>
     (\<forall>t. tripped (bk_breakers eb t) \<longrightarrow> list_ex (updating t) (bk_tasks eb))"

lemma returned_not_updating [simp]: "\<not> updatingPoint (returned s f)"
  by (simp add: returned_def)

lemma afterHandlers_not_updating [simp]: "\<not> updatingPoint (afterHandlers cb s f)"
  by (simp add: afterHandlers_def split: option.splits)

lemma pointStep_breaker:
  assumes "pointStep now k ok hs p cb = (p', cb')" and "pred_option (\<lambda>b. br_maxFailures b = 5) cb"
  shows "pred_option (\<lambda>b. br_maxFailures b = 5) cb' \<and>
    (tripped cb' \<longrightarrow> \<not> updatingPoint p' \<longrightarrow> tripped cb \<and> \<not> updatingPoint p)"
  using assms
  by (cases p; cases cb)
    (auto simp: tripped_def afterLookup_def runOne_def Let_def split: if_splits option.splits BreakerState.splits)

lemma list_ex_update:
  "i < length xs \<Longrightarrow> list_ex P xs \<Longrightarrow> P y \<or> \<not> P (xs ! i) \<Longrightarrow> list_ex P (xs[i := y])"
proof -
  assume i: "i < length xs" and ex: "list_ex P xs" and y: "P y \<or> \<not> P (xs ! i)"
  obtain j where j: "j < length xs" "P (xs ! j)" using ex by (auto simp: list_ex_length)
  show ?thesis
  proof (cases "j = i")
    case True
    then show ?thesis using y j i by (auto simp: list_ex_length intro!: exI [of _ i])
  next
    case False
    then show ?thesis using j by (auto simp: list_ex_length intro!: exI [of _ j])
  qed
qed

lemma breakersInv_point:
  assumes inv: "breakersInv eb" and i: "i < length (bk_tasks eb)"
    and step: "pointStep now k ok hs p (bk_breakers eb t) = (p', cb)"
    and old: "\<And>u. updating u (bk_tasks eb ! i) \<longleftrightarrow> u = t \<and> updatingPoint p"
    and new: "\<And>u. updating u T \<longleftrightarrow> u = t \<and> updatingPoint p'"
    and eb': "bk_breakers eb' = (bk_breakers eb)(t := cb)" "bk_tasks eb' = (bk_tasks eb)[i := T]"
  shows "breakersInv eb'"
proof -
  have max: "pred_option (\<lambda>b. br_maxFailures b = 5) (bk_breakers eb u)" for u using inv by (simp add: breakersInv_def)
  note pt = pointStep_breaker [OF step max]
  have "list_ex (updating u) (bk_tasks eb')" if trip: "tripped (bk_breakers eb' u)" for u
  proof (cases "u = t")
    case True
    show ?thesis
    proof (cases "updatingPoint p'")
      case True
      then have "updating u T" using new [of u] \<open>u = t\<close> by blast
      then show ?thesis unfolding eb'(2) list_ex_iff using set_update_memI [OF i, of T] by blast
    next
      case False
      then have "tripped (bk_breakers eb u)" "\<not> updatingPoint p" using pt trip True eb'(1) by auto
      then have "list_ex (updating u) (bk_tasks eb)" "\<not> updating u (bk_tasks eb ! i)" using inv old by (auto simp: breakersInv_def)
      then show ?thesis unfolding eb'(2) using i by (intro list_ex_update) auto
    qed
  next
    case False
    then have "tripped (bk_breakers eb u)" using trip eb'(1) by simp
    then have "list_ex (updating u) (bk_tasks eb)" "\<not> updating u (bk_tasks eb ! i)" using inv old False by (auto simp: breakersInv_def)
    then show ?thesis unfolding eb'(2) using i by (intro list_ex_update) auto
  qed
  then show ?thesis using max pt eb'(1) by (auto simp: breakersInv_def)
qed

lemma breakersInv_idle:
  assumes inv: "breakersInv eb" and i: "i < length (bk_tasks eb)" and old: "\<And>u. \<not> updating u (bk_tasks eb ! i)"
    and eb': "bk_breakers eb' = bk_breakers eb" "bk_tasks eb' = (bk_tasks eb)[i := T]"
  shows "breakersInv eb'"
  using inv eb' i old by (auto simp: breakersInv_def intro!: list_ex_update)

lemma breakersInv_publish:
  assumes inv: "breakersInv eb" and i: "i < length (bk_tasks eb)"
    and old: "\<And>u. updating u (bk_tasks eb ! i) \<longleftrightarrow> u = ev_Type event \<and> updatingPoint p"
    and new: "\<And>u q. updating u (mk q) \<longleftrightarrow> u = ev_Type event \<and> updatingPoint q"
    and same: "bk_breakers eb0 = bk_breakers eb" "bk_tasks eb0 = bk_tasks eb"
  shows "breakersInv (publishStep i now k ok event p mk eb0)"
proof (cases "p = PReject")
  case True
  then show ?thesis
    using same old by (intro breakersInv_idle [OF inv i]) (auto simp: publishStep_def setTask_def)
next
  case False
  obtain p' cb where st: "pointStep now k ok (bk_subscribers eb0 (ev_Type event)) p (bk_breakers eb (ev_Type event)) = (p', cb)" by fastforce
  show ?thesis
    by (rule breakersInv_point [OF inv i st old]) (use False st same new in \<open>auto simp: publishStep_def setTask_def\<close>)
qed

lemma breakersInv_task:
  assumes inv: "breakersInv eb"
  shows "breakersInv (taskStep i now k ok eb)"
proof (cases "i < length (bk_tasks eb)")
  case True
  show ?thesis
  proof (cases "bk_tasks eb ! i")
    case (Direct event p)
    then show ?thesis using True by (auto simp: taskStep_def intro!: breakersInv_publish [OF inv True])
  next
    case TakeQueue
    then show ?thesis using True by (intro breakersInv_idle [OF inv True]) (auto simp: taskStep_def setTask_def)
  next
    case (NextEvent events)
    then show ?thesis
      using True inv
      by (cases events) (auto simp: taskStep_def setTask_def Let_def intro!: breakersInv_idle [OF inv True, of "_ :: 'a BreakerEventBus"])
  next
    case (Retry event p rest)
    show ?thesis
    proof (cases "\<exists>err. p = PReturned err")
      case True
      then show ?thesis
        using \<open>i < length (bk_tasks eb)\<close> Retry
        by (auto simp: taskStep_def retryReturned_def setTask_def intro!: breakersInv_idle [OF inv \<open>i < length (bk_tasks eb)\<close>] split: option.splits)
    next
      case False
      then have "taskStep i now k ok eb = publishStep i now k ok event p (\<lambda>p. Retry event p rest) eb"
        using True Retry by (auto simp: taskStep_def split: Point.splits)
      moreover have "breakersInv (publishStep i now k ok event p (\<lambda>p. Retry event p rest) eb)"
        by (rule breakersInv_publish [OF inv True]) (use Retry in auto)
      ultimately show ?thesis by simp
    qed
  qed
qed (use inv in \<open>simp add: taskStep_def\<close>)

lemma breakersInv_step: "breakersInv eb \<Longrightarrow> breakersInv (bkStep eb e)"
proof (cases e)
  case (KSubscribe t h)
  assume "breakersInv eb"
  then show ?thesis using KSubscribe by (auto simp: subscribeBreaker_def breakersInv_def newBreaker_def tripped_def split: option.splits)
next
  case (KTask i now k ok)
  assume "breakersInv eb"
  then show ?thesis using KTask by (simp add: breakersInv_task)
qed (auto simp: breakersInv_def)

section \<open>The dead-letter queue\<close>

text \<open>What is left of the retries of an event, and how many attempts that can lead to.\<close>

definition budget :: "Event \<Rightarrow> nat" where
  "budget event = nat (ev_MaxRetries event - ev_RetryCount event)"

definition attemptsLeft :: "Event \<Rightarrow> nat" where
  "attemptsLeft event = 2 ^ budget event - 1"

text \<open>A retry puts the event into the queue at most twice: when it meets an open circuit, and when it returns with an error.\<close>

fun copies :: "'h Point \<Rightarrow> nat" where
  "copies (PReturned None) = 0"
| "copies (PReturned (Some err)) = 1"
| "copies _ = 2"

fun taskAttempts :: "'h Task \<Rightarrow> nat" where
  "taskAttempts (Direct event p) = 0"
| "taskAttempts TakeQueue = 0"
| "taskAttempts (NextEvent events) = sum_list (map attemptsLeft events)"
| "taskAttempts (Retry event p rest) = copies p * attemptsLeft event + sum_list (map attemptsLeft rest)"

fun taskEvents :: "'h Task \<Rightarrow> Event list" where
  "taskEvents (Direct event p) = [event]"
| "taskEvents TakeQueue = []"
| "taskEvents (NextEvent events) = events"
| "taskEvents (Retry event p rest) = event # rest"

text \<open>The identifiers of events from the queue that a goroutine has not settled yet.\<close>

fun taskIDs :: "'h Task \<Rightarrow> string list" where
  "taskIDs (NextEvent events) = map ev_ID events"
| "taskIDs (Retry event p rest) = map ev_ID (event # rest)"
| "taskIDs _ = []"

definition retryOk :: "Event \<Rightarrow> bool" where
  "retryOk event \<longleftrightarrow> 0 \<le> ev_RetryCount event \<and> ev_RetryCount event < 2 ^ 62 \<and> ev_MaxRetries event < 2 ^ 62"

definition retriesOk :: "'h BreakerEventBus \<Rightarrow> bool" where
  "retriesOk eb \<longleftrightarrow> list_all retryOk (bk_dlq eb) \<and> list_all (\<lambda>t. list_all retryOk (taskEvents t)) (bk_tasks eb)"

definition pendingAttempts :: "'h BreakerEventBus \<Rightarrow> nat" where
  "pendingAttempts eb = sum_list (map attemptsLeft (bk_dlq eb)) + sum_list (map taskAttempts (bk_tasks eb))"

definition attemptsInv :: "'h BreakerEventBus \<Rightarrow> bool" where
  "attemptsInv eb \<longleftrightarrow> retriesOk eb \<and> bk_attempts eb + pendingAttempts eb \<le> sum_list (map attemptsLeft (bk_rejected eb))"

text \<open>The identifiers under way.\<close>

definition openIDs :: "'h BreakerEventBus \<Rightarrow> string set" where
  "openIDs eb = set (map ev_ID (bk_dlq eb)) \<union> (\<Union>t \<in> set (bk_tasks eb). set (taskIDs t))"

definition settledInv :: "'h BreakerEventBus \<Rightarrow> bool" where
  "settledInv eb \<longleftrightarrow> ev_ID ` set (bk_rejected eb) \<subseteq> openIDs eb \<union> set (bk_delivered eb) \<union> set (bk_discarded eb)"

lemma attemptsLeft_retry:
  assumes "retryOk event" and "event' = event\<lparr>ev_RetryCount := i64 (ev_RetryCount event + 1)\<rparr>" and "ev_RetryCount event' \<le> ev_MaxRetries event'"
  shows "retryOk event' \<and> Suc (2 * attemptsLeft event') = attemptsLeft event"
proof -
  have r: "i64 (ev_RetryCount event + 1) = ev_RetryCount event + 1" using assms(1) by (intro i64_id in_i64I) (simp_all add: retryOk_def)
  have "budget event = Suc (budget event')" using assms r by (simp add: budget_def)
  moreover have "(2::nat) ^ n \<noteq> 0" for n by simp
  ultimately have "Suc (2 * attemptsLeft event') = attemptsLeft event" by (simp add: attemptsLeft_def Suc_diff_le [symmetric] diff_mult_distrib2)
  then show ?thesis using assms r by (simp add: retryOk_def)
qed

lemma copies_le: "copies p \<le> 2"
  by (cases p rule: copies.cases) simp_all

lemma retriesOk_set:
  "retriesOk eb \<Longrightarrow> list_all retryOk (taskEvents T) \<Longrightarrow> list_all retryOk dlq \<Longrightarrow> bk_dlq eb' = dlq \<Longrightarrow> bk_tasks eb' = (bk_tasks eb)[i := T] \<Longrightarrow> retriesOk eb'"
  by (auto simp: retriesOk_def list_all_iff dest!: set_update_subset_insert [THEN subsetD])

lemma attemptsInv_set:
  assumes inv: "attemptsInv eb" and i: "i < length (bk_tasks eb)"
    and T: "list_all retryOk (taskEvents T)" and dlq: "list_all retryOk (bk_dlq eb')"
    and tasks: "bk_tasks eb' = (bk_tasks eb)[i := T]"
    and rej: "bk_rejected eb' = bk_rejected eb @ new"
    and less: "bk_attempts eb' + sum_list (map attemptsLeft (bk_dlq eb')) + taskAttempts T
      \<le> bk_attempts eb + sum_list (map attemptsLeft (bk_dlq eb)) + taskAttempts (bk_tasks eb ! i) + sum_list (map attemptsLeft new)"
  shows "attemptsInv eb'"
proof -
  have "retriesOk eb'" using inv by (intro retriesOk_set [OF _ T dlq refl tasks]) (simp add: attemptsInv_def)
  moreover have "bk_attempts eb' + pendingAttempts eb' \<le> sum_list (map attemptsLeft (bk_rejected eb'))"
    using inv less sum_list_map_update [OF i, of taskAttempts T] unfolding tasks rej attemptsInv_def pendingAttempts_def by simp
  ultimately show ?thesis by (simp add: attemptsInv_def)
qed

lemma nextEvent_attempts:
  assumes inv: "attemptsInv eb" and i: "i < length (bk_tasks eb)" and t: "bk_tasks eb ! i = NextEvent events"
  shows "attemptsInv (nextEvent i events eb)"
proof (cases events)
  case Nil
  then show ?thesis using inv by simp
next
  case (Cons event rest)
  have ok: "list_all retryOk events" using inv i t by (auto simp: attemptsInv_def retriesOk_def list_all_length)
  have dlq: "list_all retryOk (bk_dlq eb)" using inv by (simp add: attemptsInv_def retriesOk_def)
  define event' where "event' = event\<lparr>ev_RetryCount := i64 (ev_RetryCount event + 1)\<rparr>"
  show ?thesis
  proof (cases "ev_RetryCount event' \<le> ev_MaxRetries event'")
    case True
    have r: "retryOk event'" "Suc (2 * attemptsLeft event') = attemptsLeft event"
      using attemptsLeft_retry [OF _ event'_def True] ok Cons by auto
    have "nextEvent i events eb = setTask i (Retry event' PLookup rest) (eb\<lparr>bk_attempts := Suc (bk_attempts eb)\<rparr>)"
      using Cons True by (simp add: Let_def event'_def)
    then show ?thesis
      using r ok dlq t Cons by (intro attemptsInv_set [OF inv i, of "Retry event' PLookup rest" _ "[]"]) (auto simp: setTask_def)
  next
    case False
    then have "nextEvent i events eb = setTask i (NextEvent rest) (eb\<lparr>bk_discarded := bk_discarded eb @ [ev_ID event]\<rparr>)"
      using Cons by (simp add: Let_def event'_def)
    then show ?thesis
      using ok dlq t Cons by (intro attemptsInv_set [OF inv i, of "NextEvent rest" _ "[]"]) (auto simp: setTask_def)
  qed
qed

lemma attemptsInv_task:
  assumes inv: "attemptsInv eb"
  shows "attemptsInv (taskStep i now k ok eb)"
proof (cases "i < length (bk_tasks eb)")
  case i: True
  have ok: "list_all retryOk (taskEvents (bk_tasks eb ! i))" and dlq: "list_all retryOk (bk_dlq eb)"
    using inv i by (auto simp: attemptsInv_def retriesOk_def list_all_length)
  show ?thesis
  proof (cases "bk_tasks eb ! i")
    case (Direct event p)
    obtain p' cb where st: "pointStep now k ok (bk_subscribers eb (ev_Type event)) p (bk_breakers eb (ev_Type event)) = (p', cb)" by fastforce
    show ?thesis
    proof (cases "p = PReject")
      case True
      then show ?thesis
        using i ok dlq Direct
        by (intro attemptsInv_set [OF inv i, of "Direct event (PReturned (Some CircuitOpen))" _ "[event]"]) (simp_all add: taskStep_def publishStep_def setTask_def)
    next
      case False
      then show ?thesis
        using i ok dlq Direct st by (intro attemptsInv_set [OF inv i, of "Direct event p'" _ "[]"]) (simp_all add: taskStep_def publishStep_def setTask_def)
    qed
  next
    case TakeQueue
    then show ?thesis
      using i dlq by (intro attemptsInv_set [OF inv i, of "NextEvent (bk_dlq eb)" _ "[]"]) (simp_all add: taskStep_def setTask_def)
  next
    case (NextEvent events)
    then show ?thesis using nextEvent_attempts [OF inv i] i by (simp add: taskStep_def)
  next
    case (Retry event p rest)
    consider (ret) err where "p = PReturned err" | (rej) "p = PReject" | (other) "p \<noteq> PReject" "\<And>err. p \<noteq> PReturned err" by blast
    then show ?thesis
    proof cases
      case ret
      then show ?thesis
        using i ok dlq Retry
        by (intro attemptsInv_set [OF inv i, of "NextEvent rest" _ "[]"]) (auto simp: taskStep_def retryReturned_def setTask_def split: option.splits)
    next
      case rej
      then show ?thesis
        using i ok dlq Retry
        by (intro attemptsInv_set [OF inv i, of "Retry event (PReturned (Some CircuitOpen)) rest" _ "[]"]) (simp_all add: taskStep_def publishStep_def setTask_def)
    next
      case other
      obtain p' cb where st: "pointStep now k ok (bk_subscribers eb (ev_Type event)) p (bk_breakers eb (ev_Type event)) = (p', cb)" by fastforce
      have "taskStep i now k ok eb = setTask i (Retry event p' rest) (eb\<lparr>bk_breakers := (bk_breakers eb)(ev_Type event := cb)\<rparr>)"
        using i Retry other st by (cases p) (auto simp: taskStep_def publishStep_def)
      moreover have "copies p = 2" using other by (cases p rule: copies.cases) auto
      moreover have "copies p' * attemptsLeft event \<le> 2 * attemptsLeft event" using copies_le mult_le_mono1 by blast
      ultimately show ?thesis
        using ok dlq Retry by (intro attemptsInv_set [OF inv i, of "Retry event p' rest" _ "[]"]) (simp_all add: setTask_def)
    qed
  qed
qed (use inv in \<open>simp add: taskStep_def\<close>)

lemma settled_trans:
  "R' \<subseteq> R \<union> D' \<Longrightarrow> D' \<subseteq> P' \<Longrightarrow> R \<subseteq> P \<union> A \<union> B \<Longrightarrow> P \<subseteq> P' \<union> A' \<union> B' \<Longrightarrow> A \<subseteq> A' \<Longrightarrow> B \<subseteq> B' \<Longrightarrow> R' \<subseteq> P' \<union> A' \<union> B'"
  by blast

lemma settledInv_set:
  assumes inv: "settledInv eb" and i: "i < length (bk_tasks eb)" and tasks: "bk_tasks eb' = (bk_tasks eb)[i := T]"
    and rej: "ev_ID ` set (bk_rejected eb') \<subseteq> ev_ID ` set (bk_rejected eb) \<union> ev_ID ` set (bk_dlq eb')"
    and kept: "ev_ID ` set (bk_dlq eb) \<union> set (taskIDs (bk_tasks eb ! i)) \<subseteq>
      ev_ID ` set (bk_dlq eb') \<union> set (taskIDs T) \<union> set (bk_delivered eb') \<union> set (bk_discarded eb')"
    and "set (bk_delivered eb) \<subseteq> set (bk_delivered eb')" and "set (bk_discarded eb) \<subseteq> set (bk_discarded eb')"
  shows "settledInv eb'"
proof -
  have T: "T \<in> set (bk_tasks eb')" unfolding tasks using i by (rule set_update_memI)
  define U where "U = (\<Union>t \<in> set (bk_tasks eb). set (taskIDs t))"
  define U' where "U' = (\<Union>t \<in> set (bk_tasks eb'). set (taskIDs t))"
  define D where "D = ev_ID ` set (bk_dlq eb)"
  define D' where "D' = ev_ID ` set (bk_dlq eb')"
  have "U \<subseteq> set (taskIDs (bk_tasks eb ! i)) \<union> U'"
  proof
    fix x assume "x \<in> U"
    then obtain j where j: "j < length (bk_tasks eb)" "x \<in> set (taskIDs (bk_tasks eb ! j))" unfolding U_def by (metis UN_E in_set_conv_nth)
    then have "j \<noteq> i \<Longrightarrow> bk_tasks eb ! j \<in> set (bk_tasks eb')" unfolding tasks by (metis length_list_update nth_list_update_neq nth_mem)
    then show "x \<in> set (taskIDs (bk_tasks eb ! i)) \<union> U'" unfolding U'_def using j by (cases "j = i") auto
  qed
  moreover have "set (taskIDs T) \<subseteq> U'" unfolding U'_def using T by blast
  ultimately have "openIDs eb \<subseteq> openIDs eb' \<union> set (bk_delivered eb') \<union> set (bk_discarded eb')"
    using kept unfolding openIDs_def set_map U_def [symmetric] U'_def [symmetric] D_def [symmetric] D'_def [symmetric] by blast
  moreover have "ev_ID ` set (bk_dlq eb') \<subseteq> openIDs eb'" by (simp add: openIDs_def)
  moreover have "ev_ID ` set (bk_rejected eb) \<subseteq> openIDs eb \<union> set (bk_delivered eb) \<union> set (bk_discarded eb)" using inv by (simp add: settledInv_def)
  ultimately have "ev_ID ` set (bk_rejected eb') \<subseteq> openIDs eb' \<union> set (bk_delivered eb') \<union> set (bk_discarded eb')"
    by (intro settled_trans [OF rej _ _ _ assms(6,7)])
  then show ?thesis by (simp add: settledInv_def)
qed

lemma settledInv_publish:
  assumes inv: "settledInv eb" and i: "i < length (bk_tasks eb)" and mk: "\<And>q. taskIDs (mk q) = taskIDs (bk_tasks eb ! i)"
    and eb0: "eb0 = eb \<or> p = PReject \<and> eb0 = eb\<lparr>bk_rejected := bk_rejected eb @ [event]\<rparr>"
  shows "settledInv (publishStep i now k ok event p mk eb0)"
proof (cases "p = PReject")
  case True
  then show ?thesis
    using eb0 mk by (intro settledInv_set [OF inv i, of _ "mk (PReturned (Some CircuitOpen))"]) (auto simp: publishStep_def setTask_def)
next
  case False
  obtain p' cb where st: "pointStep now k ok (bk_subscribers eb (ev_Type event)) p (bk_breakers eb (ev_Type event)) = (p', cb)" by fastforce
  show ?thesis
    using eb0 mk False st by (intro settledInv_set [OF inv i, of _ "mk p'"]) (auto simp: publishStep_def setTask_def)
qed

lemma settledInv_next:
  assumes inv: "settledInv eb" and i: "i < length (bk_tasks eb)" and t: "bk_tasks eb ! i = NextEvent (event # rest)"
  shows "settledInv (nextEvent i (event # rest) eb)"
proof (cases "i64 (ev_RetryCount event + 1) \<le> ev_MaxRetries event")
  case True
  then show ?thesis
    using t by (intro settledInv_set [OF inv i, of _ "Retry (event\<lparr>ev_RetryCount := i64 (ev_RetryCount event + 1)\<rparr>) PLookup rest"]) (auto simp: Let_def setTask_def)
next
  case False
  then show ?thesis using t by (intro settledInv_set [OF inv i, of _ "NextEvent rest"]) (auto simp: Let_def setTask_def)
qed

lemma settledInv_task:
  assumes inv: "settledInv eb"
  shows "settledInv (taskStep i now k ok eb)"
proof (cases "i < length (bk_tasks eb)")
  case i: True
  show ?thesis
  proof (cases "bk_tasks eb ! i")
    case (Direct event p)
    then show ?thesis using i by (auto simp: taskStep_def intro!: settledInv_publish [OF inv i])
  next
    case TakeQueue
    then show ?thesis using i by (intro settledInv_set [OF inv i, of _ "NextEvent (bk_dlq eb)"]) (auto simp: taskStep_def setTask_def)
  next
    case (NextEvent events)
    then show ?thesis using settledInv_next [OF inv i] i inv by (cases events) (simp_all add: taskStep_def)
  next
    case (Retry event p rest)
    show ?thesis
    proof (cases "\<exists>err. p = PReturned err")
      case True
      then show ?thesis
        using i Retry by (intro settledInv_set [OF inv i, of _ "NextEvent rest"]) (auto simp: taskStep_def retryReturned_def setTask_def split: option.splits)
    next
      case False
      then have "taskStep i now k ok eb = publishStep i now k ok event p (\<lambda>p. Retry event p rest) eb"
        using i Retry by (auto simp: taskStep_def split: Point.splits)
      moreover have "settledInv (publishStep i now k ok event p (\<lambda>p. Retry event p rest) eb)"
        by (rule settledInv_publish [OF inv i]) (use Retry in auto)
      ultimately show ?thesis by simp
    qed
  qed
qed (use inv in \<open>simp add: taskStep_def\<close>)

section \<open>Safety of the bus\<close>

definition bkInv :: "'h BreakerEventBus \<Rightarrow> bool" where
  "bkInv eb \<longleftrightarrow> breakersInv eb \<and> attemptsInv eb \<and> settledInv eb"

fun publishOk :: "'h KStep \<Rightarrow> bool" where
  "publishOk (KPublish event) \<longleftrightarrow> retryOk event"
| "publishOk _ \<longleftrightarrow> True"

lemma bkInv_step: "bkInv eb \<Longrightarrow> publishOk e \<Longrightarrow> bkInv (bkStep eb e)"
proof (cases e)
  case (KTask i now k ok)
  assume "bkInv eb"
  then show ?thesis using KTask by (simp add: bkInv_def breakersInv_task attemptsInv_task settledInv_task)
next
  case (KSubscribe t h)
  assume "bkInv eb"
  then show ?thesis
    using KSubscribe breakersInv_step [of eb e]
    by (simp add: bkInv_def subscribeBreaker_def attemptsInv_def retriesOk_def pendingAttempts_def settledInv_def openIDs_def)
qed (use breakersInv_step [of eb e] in \<open>auto simp: bkInv_def attemptsInv_def retriesOk_def pendingAttempts_def settledInv_def openIDs_def\<close>)

interpretation breaker_bus: guarded_object bkStep bkInv "\<lambda>_. publishOk"
  by unfold_locales (rule bkInv_step)

lemma bkInv_new: "bkInv newBreakerEventBus"
  by (simp add: bkInv_def breakersInv_def attemptsInv_def retriesOk_def pendingAttempts_def settledInv_def newBreakerEventBus_def tripped_def)

text \<open>C30.  In every interleaving of publishers, handlers and runs of \<open>ProcessDLQ\<close>: a breaker that is closed after five or more failures has a
  goroutine that is about to open it or to reset its counter; every event that a direct call put into the dead-letter queue is in the
  queue, in the hands of \<open>ProcessDLQ\<close>, delivered or discarded; and the retries started so far are at most \<open>2 ^ (MaxRetries - RetryCount) - 1\<close> for each of
  these events.\<close>

theorem breaker_bus_safe:
  assumes "list_all publishOk es"
  shows "let eb = run bkStep newBreakerEventBus es
    in (tripped (bk_breakers eb t) \<longrightarrow> list_ex (updating t) (bk_tasks eb)) \<and>
       ev_ID ` set (bk_rejected eb) \<subseteq> openIDs eb \<union> set (bk_delivered eb) \<union> set (bk_discarded eb) \<and>
       bk_attempts eb \<le> sum_list (map (\<lambda>event. 2 ^ nat (ev_MaxRetries event - ev_RetryCount event) - 1) (bk_rejected eb))"
proof -
  define eb where "eb = run bkStep newBreakerEventBus es"
  have "bkInv eb" unfolding eb_def using assms by (intro breaker_bus.guarded_run [OF bkInv_new]) (simp add: admissible_list_all)
  moreover have "attemptsLeft = (\<lambda>event. 2 ^ nat (ev_MaxRetries event - ev_RetryCount event) - 1)" by (simp add: fun_eq_iff attemptsLeft_def budget_def)
  ultimately show ?thesis unfolding eb_def [symmetric] by (auto simp: Let_def bkInv_def breakersInv_def attemptsInv_def settledInv_def)
qed

text \<open>Five failing events open the circuit; the sixth one is rejected and retried while the circuit stays open.\<close>

definition paymentEvent :: Event where
  "paymentEvent = \<lparr>ev_ID = ''evt-6'', ev_Type = ''payment'', ev_Payload = [], ev_Timestamp = 0, ev_RetryCount = 0, ev_MaxRetries = 2\<rparr>"

definition openCircuit :: "nat KStep list" where
  "openCircuit = KSubscribe ''payment'' 0 # concat (map (\<lambda>n. KPublish paymentEvent # replicate 6 (KTask n 0 0 False)) [0..<6])"

definition processRound :: "nat \<Rightarrow> nat KStep list" where
  "processRound n = KProcessDLQ # replicate 30 (KTask n 0 0 False)"

theorem breaker_bus_safe_witness:
  "let eb = run bkStep newBreakerEventBus (openCircuit @ processRound 6 @ processRound 7 @ processRound 8)
   in list_all publishOk (openCircuit @ processRound 6 @ processRound 7 @ processRound 8) \<and>
      bk_rejected eb = [paymentEvent] \<and> bk_attempts eb = 3 \<and> bk_dlq eb = [] \<and> length (bk_discarded eb) = 4 \<and>
      bk_attempts eb \<le> sum_list (map (\<lambda>event. 2 ^ nat (ev_MaxRetries event - ev_RetryCount event) - 1) (bk_rejected eb))"
proof -
  define es where "es = openCircuit @ processRound 6 @ processRound 7 @ processRound 8"
  have ok: "list_all publishOk es" unfolding es_def by code_simp
  have "bk_rejected (run bkStep newBreakerEventBus es) = [paymentEvent]" unfolding es_def by code_simp
  moreover have "bk_attempts (run bkStep newBreakerEventBus es) = 3" unfolding es_def by code_simp
  moreover have "bk_dlq (run bkStep newBreakerEventBus es) = []" unfolding es_def by code_simp
  moreover have "length (bk_discarded (run bkStep newBreakerEventBus es)) = 4" unfolding es_def by code_simp
  ultimately show ?thesis unfolding es_def [symmetric] using breaker_bus_safe [OF ok, of "''payment''"] ok by (simp add: Let_def)
qed

text \<open>\<open>Publish\<close> itself puts a rejected event into the queue, and so does \<open>ProcessDLQ\<close> when \<open>Publish\<close> returns an error: with every round the queue
  doubles.\<close>

lemma dead_letters_double:
  "length (bk_dlq (run bkStep newBreakerEventBus openCircuit)) = 1"
  "length (bk_dlq (run bkStep newBreakerEventBus (openCircuit @ processRound 6))) = 2"
  "length (bk_dlq (run bkStep newBreakerEventBus (openCircuit @ processRound 6 @ processRound 7))) = 4"
  by code_simp+

text \<open>Successes in the closed state do not reset the counter, so that any five failures, with however many successes between them, open the circuit.\<close>

lemma failures_accumulate:
  "let eb = run bkStep newBreakerEventBus
     (KSubscribe ''payment'' (0::nat) # concat (map (\<lambda>n. KPublish paymentEvent # replicate 6 (KTask n 0 0 (even n))) [0..<10]))
   in map_option br_state (bk_breakers eb ''payment'') = Some StateOpen"
  by code_simp

end
