(* ===== verification/BufferedLogger.thy ===== *)
theory BufferedLogger
  imports GoPrelude
begin

text \<open>
  The buffered logger of \<open>src/solutions/solution19_distributed_logging.go\<close> (\<open>BufferedLogger\<close>).  Calls of \<open>Log\<close> are goroutines that send on the
  buffered channel; the goroutine \<open>processBatches\<close> collects entries and flushes them when the batch is full, at a tick and at
  the shut-down.  A step is one access to the channel or to a counter, or a whole \<open>flushBatch\<close>, which waits for all sinks and works on data that only
  this goroutine touches.  Which ready branch of a \<open>select\<close> is taken is an argument.  Sinks are an interface: every sink has the list of batches that
  its \<open>Write\<close> was called with, and the errors it returns are only logged.  The fields of an entry, which no code inspects, and the average batch
  size, which no code reads, are left out.  \<open>bl_accepted\<close> and \<open>bl_flushed\<close> record the entries that were sent and those that were flushed; a sink records how many entries had been
  flushed before it was added.

  Shown, in every interleaving: every sink gets exactly the entries flushed since it was added, in the order in which they were accepted; nothing
  accepted is lost or duplicated on the way; batches other than the last one have at most the batch size; the counters are exact.
\<close>

section \<open>State\<close>

datatype LogLevel = DEBUG | INFO | WARN | ERROR | FATAL

record LogEntry =
  le_Level :: LogLevel
  le_Timestamp :: gotime
  le_Message :: string
  le_TraceID :: string
  le_SpanID :: string
  le_Service :: string
  le_Host :: string

text \<open>The program points of \<open>Log\<close>.\<close>

datatype Logger = TrySend LogEntry | RetrySend LogEntry | CountLog | CountDrop | Logged | Dropped

datatype Processor = Collecting | Draining | Ended

record Sink =
  sk_start :: nat
  sk_batches :: "LogEntry list list"

record BufferedLogger =
  bl_buffer :: "LogEntry list"
  bl_bufferSize :: nat
  bl_batch :: "LogEntry list"
  bl_batchSize :: nat
  bl_sinks :: "Sink list"
  bl_shutdown :: bool
  bl_totalLogs :: int
  bl_droppedLogs :: int
  bl_batchesSent :: int
  bl_processor :: Processor
  bl_loggers :: "Logger list"
  bl_accepted :: "LogEntry list"
  bl_flushed :: "LogEntry list"

definition newBufferedLogger :: "nat \<Rightarrow> nat \<Rightarrow> BufferedLogger" where
  "newBufferedLogger bufferSize batchSize =
     \<lparr>bl_buffer = [], bl_bufferSize = bufferSize, bl_batch = [], bl_batchSize = batchSize, bl_sinks = [], bl_shutdown = False,
      bl_totalLogs = 0, bl_droppedLogs = 0, bl_batchesSent = 0, bl_processor = Collecting, bl_loggers = [], bl_accepted = [], bl_flushed = []\<rparr>"

section \<open>Operations\<close>

definition newEntry :: "gotime \<Rightarrow> LogLevel \<Rightarrow> string \<Rightarrow> LogEntry" where
  "newEntry now level message =
     \<lparr>le_Level = level, le_Timestamp = now, le_Message = message, le_TraceID = [], le_SpanID = [], le_Service = ''default'', le_Host = ''localhost''\<rparr>"

definition setLogger :: "nat \<Rightarrow> Logger \<Rightarrow> BufferedLogger \<Rightarrow> BufferedLogger" where
  "setLogger i p l = l\<lparr>bl_loggers := (bl_loggers l)[i := p]\<rparr>"

definition sendEntry :: "nat \<Rightarrow> LogEntry \<Rightarrow> BufferedLogger \<Rightarrow> BufferedLogger" where
  "sendEntry i entry l = setLogger i CountLog (l\<lparr>bl_buffer := bl_buffer l @ [entry], bl_accepted := bl_accepted l @ [entry]\<rparr>)"

text \<open>\<open>Log\<close>: an attempt without waiting, then one with a timer (\<open>timeout\<close> says that it has fired).\<close>

definition logAct :: "nat \<Rightarrow> bool \<Rightarrow> BufferedLogger \<Rightarrow> BufferedLogger" where
  "logAct i timeout l =
     (if i < length (bl_loggers l)
      then (let room = length (bl_buffer l) < bl_bufferSize l
            in case bl_loggers l ! i of
                 TrySend entry \<Rightarrow> if room then sendEntry i entry l else setLogger i (RetrySend entry) l
               | RetrySend entry \<Rightarrow> if timeout then setLogger i CountDrop l else if room then sendEntry i entry l else l
               | CountLog \<Rightarrow> setLogger i Logged (l\<lparr>bl_totalLogs := i64 (bl_totalLogs l + 1)\<rparr>)
               | CountDrop \<Rightarrow> setLogger i Dropped (l\<lparr>bl_droppedLogs := i64 (bl_droppedLogs l + 1)\<rparr>)
               | Logged \<Rightarrow> l
               | Dropped \<Rightarrow> l)
      else l)"

definition flushBatch :: "BufferedLogger \<Rightarrow> BufferedLogger" where
  "flushBatch l =
     (if bl_batch l = [] then l
      else l\<lparr>bl_batch := [], bl_batchesSent := i64 (bl_batchesSent l + 1),
             bl_sinks := map (\<lambda>s. s\<lparr>sk_batches := sk_batches s @ [bl_batch l]\<rparr>) (bl_sinks l),
             bl_flushed := bl_flushed l @ bl_batch l\<rparr>)"

definition collectEntry :: "BufferedLogger \<Rightarrow> BufferedLogger" where
  "collectEntry l =
     (case bl_buffer l of
        [] \<Rightarrow> l
      | entry # rest \<Rightarrow> l\<lparr>bl_buffer := rest, bl_batch := bl_batch l @ [entry]\<rparr>)"

datatype Ready = Receive | Tick | ShutdownSignal

definition processAct :: "Ready \<Rightarrow> BufferedLogger \<Rightarrow> BufferedLogger" where
  "processAct ready l =
     (case bl_processor l of
        Collecting \<Rightarrow>
          (case ready of
             Receive \<Rightarrow>
               (if bl_buffer l = [] then l
                else (let l' = collectEntry l in if length (bl_batch l') \<ge> bl_batchSize l' then flushBatch l' else l'))
           | Tick \<Rightarrow> flushBatch l
           | ShutdownSignal \<Rightarrow> if bl_shutdown l then l\<lparr>bl_processor := Draining\<rparr> else l)
      | Draining \<Rightarrow> if bl_buffer l = [] then (flushBatch l)\<lparr>bl_processor := Ended\<rparr> else collectEntry l
      | Ended \<Rightarrow> l)"

definition addSink :: "BufferedLogger \<Rightarrow> BufferedLogger" where
  "addSink l = l\<lparr>bl_sinks := bl_sinks l @ [\<lparr>sk_start = length (bl_flushed l), sk_batches = []\<rparr>]\<rparr>"

text \<open>\<open>Shutdown\<close> closes a channel, which panics the second time; then it waits for \<open>processBatches\<close> and closes the sinks.\<close>

definition shutdownLogger :: "BufferedLogger \<Rightarrow> BufferedLogger option" where
  "shutdownLogger l = (if bl_shutdown l then None else Some (l\<lparr>bl_shutdown := True\<rparr>))"

definition shutdownReturns :: "BufferedLogger \<Rightarrow> bool" where
  "shutdownReturns l \<longleftrightarrow> bl_processor l = Ended"

datatype BLStep = Log gotime LogLevel string | LogAct nat bool | Process Ready | AddSink | Shutdown

fun blStep :: "BufferedLogger \<Rightarrow> BLStep \<Rightarrow> BufferedLogger" where
  "blStep l (Log now level message) = l\<lparr>bl_loggers := bl_loggers l @ [TrySend (newEntry now level message)]\<rparr>"
| "blStep l (LogAct i timeout) = logAct i timeout l"
| "blStep l (Process ready) = processAct ready l"
| "blStep l AddSink = addSink l"
| "blStep l Shutdown = (case shutdownLogger l of None \<Rightarrow> l | Some l' \<Rightarrow> l')"

section \<open>Delivery\<close>

text \<open>What a sink has been given: the entries flushed since it was added, in non-empty batches of at most \<open>limit\<close> entries; only
  the last batch of a logger that has ended may be longer.\<close>

definition sinkOk :: "nat \<Rightarrow> bool \<Rightarrow> LogEntry list \<Rightarrow> Sink \<Rightarrow> bool" where
  "sinkOk limit ended flushed s \<longleftrightarrow>
     sk_start s \<le> length flushed \<and> concat (sk_batches s) = drop (sk_start s) flushed \<and>
     list_all (\<lambda>b. b \<noteq> []) (sk_batches s) \<and>
     list_all (\<lambda>b. length b \<le> limit) (if ended then butlast (sk_batches s) else sk_batches s)"

definition deliveryInv :: "BufferedLogger \<Rightarrow> bool" where
  "deliveryInv l \<longleftrightarrow>
     bl_accepted l = bl_flushed l @ bl_batch l @ bl_buffer l \<and> length (bl_buffer l) \<le> bl_bufferSize l \<and>
     list_all (sinkOk (max 1 (bl_batchSize l)) (bl_processor l = Ended) (bl_flushed l)) (bl_sinks l) \<and>
     (bl_processor l = Collecting \<longrightarrow> length (bl_batch l) < max 1 (bl_batchSize l)) \<and>
     (bl_processor l = Ended \<longrightarrow> bl_batch l = []) \<and> (bl_processor l \<noteq> Collecting \<longrightarrow> bl_shutdown l)"

lemma sinkOk_flush:
  "sinkOk limit False flushed s \<Longrightarrow> batch \<noteq> [] \<Longrightarrow> ended \<or> length batch \<le> limit \<Longrightarrow>
     sinkOk limit ended (flushed @ batch) (s\<lparr>sk_batches := sk_batches s @ [batch]\<rparr>)"
  by (auto simp: sinkOk_def list_all_iff)

lemma sinkOk_end: "sinkOk limit False flushed s \<Longrightarrow> sinkOk limit True flushed s"
  by (auto simp: sinkOk_def list_all_iff dest: in_set_butlastD)

lemma sinkOk_new: "sinkOk limit ended flushed \<lparr>sk_start = length flushed, sk_batches = []\<rparr>"
  by (simp add: sinkOk_def)



lemma flushed_sinks:
  "list_all (sinkOk limit False flushed) sinks \<Longrightarrow> batch \<noteq> [] \<Longrightarrow> ended \<or> length batch \<le> limit \<Longrightarrow>
     list_all (sinkOk limit ended (flushed @ batch)) (map (\<lambda>s. s\<lparr>sk_batches := sk_batches s @ [batch]\<rparr>) sinks)"
  by (auto simp: list_all_iff intro!: sinkOk_flush)

lemma deliveryInv_process:
  assumes inv: "deliveryInv l"
  shows "deliveryInv (processAct ready l)"
proof (cases "bl_processor l")
  case Collecting
  show ?thesis
  proof (cases ready)
    case Receive
    then show ?thesis
      using Collecting inv
      by (cases "bl_buffer l") (auto simp: processAct_def collectEntry_def flushBatch_def Let_def deliveryInv_def intro!: flushed_sinks)
  next
    case Tick
    then show ?thesis using Collecting inv by (auto simp: processAct_def flushBatch_def deliveryInv_def intro!: flushed_sinks)
  next
    case ShutdownSignal
    then show ?thesis using Collecting inv by (auto simp: processAct_def deliveryInv_def)
  qed
next
  case Draining
  show ?thesis
  proof (cases "bl_buffer l")
    case Nil
    then show ?thesis
      using Draining inv
      by (auto simp: processAct_def flushBatch_def deliveryInv_def list_all_iff sinkOk_end intro!: flushed_sinks [unfolded list_all_iff, rule_format])
  next
    case (Cons entry rest)
    then show ?thesis using Draining inv by (auto simp: processAct_def collectEntry_def deliveryInv_def)
  qed
next
  case Ended
  then show ?thesis using inv by (simp add: processAct_def)
qed

lemma deliveryInv_log: "deliveryInv l \<Longrightarrow> deliveryInv (logAct i timeout l)"
  by (auto simp: logAct_def sendEntry_def setLogger_def Let_def deliveryInv_def split: Logger.splits)

lemma deliveryInv_step: "deliveryInv l \<Longrightarrow> deliveryInv (blStep l e)"
proof (cases e)
  case AddSink
  assume "deliveryInv l"
  then show ?thesis using AddSink by (simp add: addSink_def deliveryInv_def sinkOk_new)
next
  case (LogAct i timeout)
  assume "deliveryInv l"
  then show ?thesis using LogAct by (simp add: deliveryInv_log)
next
  case (Process ready)
  assume "deliveryInv l"
  then show ?thesis using Process by (simp add: deliveryInv_process)
qed (auto simp: deliveryInv_def shutdownLogger_def)

section \<open>Counters\<close>

definition countsInv :: "BufferedLogger \<Rightarrow> bool" where
  "countsInv l \<longleftrightarrow>
     bl_totalLogs l = i64 (int (length (filter (\<lambda>p. p = Logged) (bl_loggers l)))) \<and>
     bl_droppedLogs l = i64 (int (length (filter (\<lambda>p. p = Dropped) (bl_loggers l)))) \<and>
     length (bl_accepted l) = length (filter (\<lambda>p. p = Logged \<or> p = CountLog) (bl_loggers l))"

lemma countsInv_log:
  assumes inv: "countsInv l"
  shows "countsInv (logAct i timeout l)"
proof (cases "i < length (bl_loggers l)")
  case True
  note upd = length_filter_update [OF True, of "\<lambda>p. p = Logged"] length_filter_update [OF True, of "\<lambda>p. p = Dropped"]
    length_filter_update [OF True, of "\<lambda>p. p = Logged \<or> p = CountLog"]
  show ?thesis
  proof (cases "bl_loggers l ! i")
    case (TrySend entry)
    then show ?thesis
      using True inv upd [of CountLog] upd [of "RetrySend entry"] by (simp add: logAct_def sendEntry_def setLogger_def Let_def countsInv_def)
  next
    case (RetrySend entry)
    then show ?thesis
      using True inv upd [of CountLog] upd [of CountDrop] by (simp add: logAct_def sendEntry_def setLogger_def Let_def countsInv_def)
  next
    case CountLog
    then show ?thesis
      using True inv upd [of Logged] by (simp add: logAct_def setLogger_def Let_def countsInv_def i64_add_wrap2 add.commute)
  next
    case CountDrop
    then show ?thesis
      using True inv upd [of Dropped] by (simp add: logAct_def setLogger_def Let_def countsInv_def i64_add_wrap2 add.commute)
  qed (use True inv in \<open>simp_all add: logAct_def\<close>)
qed (use inv in \<open>simp add: logAct_def\<close>)

lemma countsInv_step: "countsInv l \<Longrightarrow> countsInv (blStep l e)"
proof (cases e)
  case (LogAct i timeout)
  assume "countsInv l"
  then show ?thesis using LogAct by (simp add: countsInv_log)
next
  case (Process ready)
  assume "countsInv l"
  moreover have "bl_loggers (processAct ready l) = bl_loggers l" "bl_accepted (processAct ready l) = bl_accepted l"
    "bl_totalLogs (processAct ready l) = bl_totalLogs l" "bl_droppedLogs (processAct ready l) = bl_droppedLogs l"
    by (simp_all add: processAct_def collectEntry_def flushBatch_def Let_def split: Processor.splits Ready.splits list.splits)
  ultimately show ?thesis using Process by (simp add: countsInv_def)
qed (auto simp: countsInv_def addSink_def shutdownLogger_def)

definition blInv :: "BufferedLogger \<Rightarrow> bool" where
  "blInv l \<longleftrightarrow> deliveryInv l \<and> countsInv l"

interpretation buffered: locked_object blStep blInv
  by unfold_locales (simp add: blInv_def deliveryInv_step countsInv_step)

lemma blInv_new: "blInv (newBufferedLogger bufferSize batchSize)"
  by (simp add: blInv_def deliveryInv_def countsInv_def newBufferedLogger_def i64_def)

lemma sizes_step: "bl_batchSize (blStep l e) = bl_batchSize l"
  by (cases e)
    (simp_all add: addSink_def shutdownLogger_def logAct_def sendEntry_def setLogger_def processAct_def collectEntry_def flushBatch_def Let_def
       split: Processor.splits Ready.splits list.splits Logger.splits)

lemma sizes_run: "bl_batchSize (run blStep l es) = bl_batchSize l"
  by (induction es arbitrary: l) (simp_all add: sizes_step)


text \<open>The channel stays open after the shut-down: an entry that is logged then is accepted and never written.\<close>

lemma log_after_shutdown_lost:
  "let l = run blStep (newBufferedLogger 10 2) [AddSink, Shutdown, Process ShutdownSignal, Process Receive, Log 0 INFO ''late'', LogAct 0 False, LogAct 0 False]
   in bl_processor l = Ended \<and> bl_totalLogs l = 1 \<and> map sk_batches (bl_sinks l) = [[]]"
  by code_simp

text \<open>The batch written at the shut-down is as long as the batch and the channel together.\<close>

lemma shutdown_batch_exceeds_size:
  "map (map length \<circ> sk_batches)
     (bl_sinks (run blStep (newBufferedLogger 10 2)
        (AddSink # concat (map (\<lambda>i. [Log 0 INFO [], LogAct i False]) [0..<5]) @
         [Shutdown, Process ShutdownSignal] @ replicate 6 (Process Receive)))) = [[5]]"
  by code_simp

end
