(* ===== verification/LogSinks.thy ===== *)
theory LogSinks
  imports BufferedLogger
begin

text \<open>
  The structured logger and the logger with several sinks of \<open>src/solutions/solution19_distributed_logging.go\<close> (\<open>StructuredLogger\<close>, \<open>MultiSinkLogger\<close>).

  Calls of \<open>LogWithContext\<close> are goroutines: the entry is built and enriched on the stack, recorded under the lock of the correlation tracker, and written to
  the sinks that were read under the lock, one after the other.  The enrichers are those of the constructor.  \<open>sg_recorded\<close> lists the recorded entries with a trace identifier and the time of recording.  Sampling always answers yes; the end times and spans of a trace are never
  written and left out.

  A call of \<open>MultiSinkLogger.Log\<close> is one step: the breakers are plain variables, and the code relies on calls that do not overlap.  The order in which the
  map of sinks is visited, clock readings and the results of the sinks are arguments.  \<open>ms_writes\<close> and \<open>ms_fallbackWrites\<close> record the calls of \<open>Write\<close>.

  Shown: a trace contains exactly the entries recorded for it, in order, all of them enriched, and every sink gets every entry of the calls that reached it exactly once; an
  entry goes to exactly the sinks whose filter admits it and whose breaker lets it pass, and to the fallback exactly when none of them accepted it; and between two calls a breaker
  is closed with fewer than five failures or open after at least five.
\<close>

section \<open>Structured logger\<close>

record TraceInfo =
  ti_TraceID :: string
  ti_StartTime :: gotime
  ti_Logs :: "LogEntry list"

type_synonym LogEnricher = "gotime \<Rightarrow> LogEntry \<Rightarrow> LogEntry"

record LogContext =
  cx_trace :: "string option"
  cx_span :: "string option"

datatype SLogger = Correlate LogEntry | ReadSinks LogEntry | Writing LogEntry nat nat

record StructuredLogger =
  sg_sinks :: "LogEntry list list"
  sg_enrichers :: "LogEnricher list"
  sg_traces :: "string \<rightharpoonup> TraceInfo"
  sg_loggers :: "SLogger list"
  sg_recorded :: "(LogEntry \<times> gotime) list"

definition enrichWithHostInfo :: LogEnricher where
  "enrichWithHostInfo now entry =
     (let e = (if le_Host entry = [] then entry\<lparr>le_Host := ''localhost''\<rparr> else entry)
      in if le_Service e = [] then e\<lparr>le_Service := ''app''\<rparr> else e)"

definition enrichWithTimestamp :: LogEnricher where
  "enrichWithTimestamp now entry = (if le_Timestamp entry = zeroTime then entry\<lparr>le_Timestamp := now\<rparr> else entry)"

definition addEnricher :: "LogEnricher \<Rightarrow> StructuredLogger \<Rightarrow> StructuredLogger" where
  "addEnricher enricher l = l\<lparr>sg_enrichers := sg_enrichers l @ [enricher]\<rparr>"

definition newStructuredLogger :: StructuredLogger where
  "newStructuredLogger =
     addEnricher enrichWithTimestamp (addEnricher enrichWithHostInfo
       \<lparr>sg_sinks = [], sg_enrichers = [], sg_traces = Map.empty, sg_loggers = [], sg_recorded = []\<rparr>)"

definition addStructuredSink :: "StructuredLogger \<Rightarrow> StructuredLogger" where
  "addStructuredSink l = l\<lparr>sg_sinks := sg_sinks l @ [[]]\<rparr>"

definition getOr :: "'a \<Rightarrow> 'a option \<Rightarrow> 'a" where
  "getOr d x = (case x of None \<Rightarrow> d | Some y \<Rightarrow> y)"

definition contextEntry :: "LogContext \<Rightarrow> LogLevel \<Rightarrow> string \<Rightarrow> LogEntry" where
  "contextEntry ctx level message =
     \<lparr>le_Level = level, le_Timestamp = zeroTime, le_Message = message, le_TraceID = getOr [] (cx_trace ctx), le_SpanID = getOr [] (cx_span ctx),
      le_Service = [], le_Host = []\<rparr>"

definition enrich :: "LogEnricher list \<Rightarrow> gotime \<Rightarrow> LogEntry \<Rightarrow> LogEntry" where
  "enrich enrichers now entry = fold (\<lambda>f. f now) enrichers entry"

definition logWithContext :: "gotime \<Rightarrow> LogContext \<Rightarrow> LogLevel \<Rightarrow> string \<Rightarrow> StructuredLogger \<Rightarrow> StructuredLogger" where
  "logWithContext now ctx level message l =
     l\<lparr>sg_loggers := sg_loggers l @ [Correlate (enrich (sg_enrichers l) now (contextEntry ctx level message))]\<rparr>"

definition correlate :: "gotime \<Rightarrow> LogEntry \<Rightarrow> StructuredLogger \<Rightarrow> StructuredLogger" where
  "correlate now entry l =
     (if le_TraceID entry = [] then l
      else l\<lparr>sg_traces := (sg_traces l)(le_TraceID entry \<mapsto>
                (case sg_traces l (le_TraceID entry) of
                   Some trace \<Rightarrow> trace\<lparr>ti_Logs := ti_Logs trace @ [entry]\<rparr>
                 | None \<Rightarrow> \<lparr>ti_TraceID = le_TraceID entry, ti_StartTime = now, ti_Logs = [entry]\<rparr>)),
             sg_recorded := sg_recorded l @ [(entry, now)]\<rparr>)"

definition structuredAct :: "nat \<Rightarrow> gotime \<Rightarrow> StructuredLogger \<Rightarrow> StructuredLogger" where
  "structuredAct i now l =
     (if i < length (sg_loggers l)
      then (case sg_loggers l ! i of
              Correlate entry \<Rightarrow> (correlate now entry l)\<lparr>sg_loggers := (sg_loggers l)[i := ReadSinks entry]\<rparr>
            | ReadSinks entry \<Rightarrow> l\<lparr>sg_loggers := (sg_loggers l)[i := Writing entry (length (sg_sinks l)) 0]\<rparr>
            | Writing entry n j \<Rightarrow>
                if j < n then l\<lparr>sg_sinks := (sg_sinks l)[j := sg_sinks l ! j @ [entry]], sg_loggers := (sg_loggers l)[i := Writing entry n (Suc j)]\<rparr>
                else l)
      else l)"

definition getTraceInfo :: "string \<Rightarrow> StructuredLogger \<Rightarrow> TraceInfo option" where
  "getTraceInfo traceID l = sg_traces l traceID"

datatype SLStep = LogWithContext gotime LogContext LogLevel string | SAct nat gotime | SAddSink

fun slStep :: "StructuredLogger \<Rightarrow> SLStep \<Rightarrow> StructuredLogger" where
  "slStep l (LogWithContext now ctx level message) = logWithContext now ctx level message l"
| "slStep l (SAct i now) = structuredAct i now l"
| "slStep l SAddSink = addStructuredSink l"

section \<open>Traces\<close>

definition enriched :: "LogEntry \<Rightarrow> bool" where
  "enriched entry \<longleftrightarrow> le_Host entry \<noteq> [] \<and> le_Service entry \<noteq> []"

fun loggerEntry :: "SLogger \<Rightarrow> LogEntry" where
  "loggerEntry (Correlate entry) = entry"
| "loggerEntry (ReadSinks entry) = entry"
| "loggerEntry (Writing entry n j) = entry"

text \<open>The entry of a call that has written to sink \<open>j\<close>.\<close>

fun wroteTo :: "nat \<Rightarrow> SLogger \<Rightarrow> LogEntry option" where
  "wroteTo j (Writing entry n k) = (if j < k then Some entry else None)"
| "wroteTo j _ = None"

definition traceOf :: "string \<Rightarrow> (LogEntry \<times> gotime) list \<Rightarrow> TraceInfo option" where
  "traceOf t recorded =
     (case filter (\<lambda>r. le_TraceID (fst r) = t) recorded of
        [] \<Rightarrow> None
      | r # rs \<Rightarrow> Some \<lparr>ti_TraceID = t, ti_StartTime = snd r, ti_Logs = map fst (r # rs)\<rparr>)"

definition tracesInv :: "StructuredLogger \<Rightarrow> bool" where
  "tracesInv l \<longleftrightarrow>
     (\<forall>t. sg_traces l t = traceOf t (sg_recorded l)) \<and> list_all (\<lambda>p. enriched (loggerEntry p)) (sg_loggers l) \<and>
     list_all (\<lambda>r. enriched (fst r) \<and> le_TraceID (fst r) \<noteq> []) (sg_recorded l) \<and> sg_enrichers l = [enrichWithHostInfo, enrichWithTimestamp]"

definition sinksInv :: "StructuredLogger \<Rightarrow> bool" where
  "sinksInv l \<longleftrightarrow>
     (\<forall>j < length (sg_sinks l). mset (sg_sinks l ! j) = mset (List.map_filter (wroteTo j) (sg_loggers l))) \<and>
     (\<forall>p \<in> set (sg_loggers l). case p of Writing entry n k \<Rightarrow> k \<le> n \<and> n \<le> length (sg_sinks l) | _ \<Rightarrow> True)"

lemma enriched_entry: "enriched (enrich [enrichWithHostInfo, enrichWithTimestamp] now entry)"
  by (simp add: enrich_def enriched_def enrichWithHostInfo_def enrichWithTimestamp_def Let_def)

lemma traceOf_snoc:
  "traceOf t (rs @ [(entry, now)]) =
     (if le_TraceID entry = t
      then Some (case traceOf t rs of
                   Some trace \<Rightarrow> trace\<lparr>ti_Logs := ti_Logs trace @ [entry]\<rparr>
                 | None \<Rightarrow> \<lparr>ti_TraceID = t, ti_StartTime = now, ti_Logs = [entry]\<rparr>)
      else traceOf t rs)"
  by (auto simp: traceOf_def split: list.splits)

lemma tracesInv_correlate:
  assumes "\<forall>t. sg_traces l t = traceOf t (sg_recorded l)"
  shows "sg_traces (correlate now entry l) t = traceOf t (sg_recorded (correlate now entry l))"
  using assms by (auto simp: correlate_def traceOf_snoc)

lemma tracesInv_step: "tracesInv l \<Longrightarrow> tracesInv (slStep l e)"
proof (cases e)
  case (LogWithContext now ctx level message)
  assume "tracesInv l"
  then show ?thesis using LogWithContext by (simp add: tracesInv_def logWithContext_def enriched_entry)
next
  case (SAct i now)
  assume inv: "tracesInv l"
  show ?thesis
  proof (cases "i < length (sg_loggers l)")
    case True
    have en: "enriched (loggerEntry (sg_loggers l ! i))" using inv True by (auto simp: tracesInv_def list_all_length)
    have upd: "list_all (\<lambda>p. enriched (loggerEntry p)) ((sg_loggers l)[i := p])" if "enriched (loggerEntry p)" for p
      using inv that by (auto simp: tracesInv_def list_all_iff dest!: set_update_subset_insert [THEN subsetD])
    show ?thesis
    proof (cases "sg_loggers l ! i")
      case (Correlate entry)
      then show ?thesis
        using True inv en upd [of "ReadSinks entry"] SAct
        by (auto simp: structuredAct_def tracesInv_def tracesInv_correlate) (auto simp: correlate_def)
    next
      case (ReadSinks entry)
      then show ?thesis using True inv en upd [of "Writing entry (length (sg_sinks l)) 0"] SAct by (simp add: structuredAct_def tracesInv_def)
    next
      case (Writing entry n j)
      then show ?thesis using True inv en upd [of "Writing entry n (Suc j)"] SAct by (simp add: structuredAct_def tracesInv_def)
    qed
  qed (use inv SAct in \<open>simp add: structuredAct_def\<close>)
qed (simp add: tracesInv_def addStructuredSink_def)

lemma sinksInv_step: "sinksInv l \<Longrightarrow> sinksInv (slStep l e)"
proof (cases e)
  case (LogWithContext now ctx level message)
  assume "sinksInv l"
  then show ?thesis using LogWithContext by (auto simp: sinksInv_def logWithContext_def List.map_filter_simps split: SLogger.splits)
next
  case SAddSink
  assume inv: "sinksInv l"
  have "wroteTo (length (sg_sinks l)) p = None" if "p \<in> set (sg_loggers l)" for p
    using inv that by (cases p) (auto simp: sinksInv_def)
  then have "List.map_filter (wroteTo (length (sg_sinks l))) (sg_loggers l) = []" by (simp add: List.map_filter_def filter_empty_conv)
  then show ?thesis using SAddSink inv by (auto simp: sinksInv_def addStructuredSink_def nth_append less_Suc_eq split: SLogger.splits)
next
  case (SAct i now)
  assume inv: "sinksInv l"
  show ?thesis
  proof (cases "i < length (sg_loggers l)")
    case True
    note upd = map_filter_update [OF True, of "wroteTo j" for j]
    have ok: "case sg_loggers l ! i of Writing entry n k \<Rightarrow> k \<le> n \<and> n \<le> length (sg_sinks l) | _ \<Rightarrow> True"
      using inv True by (auto simp: sinksInv_def)
    show ?thesis
    proof (cases "sg_loggers l ! i")
      case (Correlate entry)
      have "mset (List.map_filter (wroteTo j) ((sg_loggers l)[i := ReadSinks entry])) = mset (List.map_filter (wroteTo j) (sg_loggers l))" for j
        using upd [of j "ReadSinks entry"] Correlate by simp
      then show ?thesis
        using True inv Correlate SAct
        by (auto simp: structuredAct_def sinksInv_def correlate_def dest!: set_update_subset_insert [THEN subsetD] split: SLogger.splits if_splits)
    next
      case (ReadSinks entry)
      have "mset (List.map_filter (wroteTo j) ((sg_loggers l)[i := Writing entry (length (sg_sinks l)) 0])) = mset (List.map_filter (wroteTo j) (sg_loggers l))" for j
        using upd [of j "Writing entry (length (sg_sinks l)) 0"] ReadSinks by simp
      then show ?thesis
        using True inv ReadSinks SAct by (auto simp: structuredAct_def sinksInv_def dest!: set_update_subset_insert [THEN subsetD] split: SLogger.splits)
    next
      case (Writing entry n k)
      have m: "mset (List.map_filter (wroteTo j) ((sg_loggers l)[i := Writing entry n (Suc k)])) =
          mset (List.map_filter (wroteTo j) (sg_loggers l)) + (if j = k then {#entry#} else {#})" for j
        using upd [of j "Writing entry n (Suc k)"] Writing by (auto simp: less_Suc_eq split: if_splits)
      show ?thesis
      proof (cases "k < n")
        case k: True
        then have "k < length (sg_sinks l)" using ok Writing by simp
        then show ?thesis
          using True inv Writing SAct k m ok
          by (auto simp: structuredAct_def sinksInv_def nth_list_update dest!: set_update_subset_insert [THEN subsetD] split: SLogger.splits)
      qed (use True inv Writing SAct in \<open>simp add: structuredAct_def\<close>)
    qed
  qed (use inv SAct in \<open>simp add: structuredAct_def\<close>)
qed

interpretation structured: locked_object slStep "\<lambda>l. tracesInv l \<and> sinksInv l"
  by unfold_locales (simp add: tracesInv_step sinksInv_step)

lemma structured_new: "tracesInv newStructuredLogger \<and> sinksInv newStructuredLogger"
  by (simp add: tracesInv_def sinksInv_def newStructuredLogger_def addEnricher_def traceOf_def)

text \<open> In every interleaving of calls and new sinks: \<open>GetTraceInfo\<close> returns the trace with exactly the entries recorded with this identifier, in the order of their
  recording, and the time of the first of them; every entry has a host and a service; and a sink has been given exactly the entries of the calls that have passed it, once
  each.\<close>

theorem structured_traces_complete:
  "let l = run slStep newStructuredLogger es
   in getTraceInfo t l = traceOf t (sg_recorded l) \<and> list_all (\<lambda>r. enriched (fst r)) (sg_recorded l) \<and>
      list_all (\<lambda>j. mset (sg_sinks l ! j) = mset (List.map_filter (wroteTo j) (sg_loggers l))) [0..<length (sg_sinks l)]"
  using structured.inv_run [OF structured_new, of es]
  by (auto simp: Let_def getTraceInfo_def tracesInv_def sinksInv_def list_all_iff)

section \<open>Several sinks\<close>

text \<open>The states of a breaker are the numbers 0 (closed), 1 (open) and 2 (half-open).\<close>

record LogCircuitBreaker =
  lc_failures :: int
  lc_lastFailTime :: gotime
  lc_state :: int
  lc_maxFailures :: int
  lc_cooldown :: duration

record SinkStat =
  st_Written :: int
  st_Failed :: int
  st_Latency :: duration
  st_LastError :: "string option"

record SinkWrapper =
  sw_Priority :: int
  sw_Filter :: "(LogEntry \<Rightarrow> bool) option"

record MultiSinkLogger =
  ms_sinks :: "string \<rightharpoonup> SinkWrapper"
  ms_breakers :: "string \<rightharpoonup> LogCircuitBreaker"
  ms_fallback :: bool
  ms_stats :: "string \<rightharpoonup> SinkStat"
  ms_writes :: "(string \<times> LogEntry \<times> bool) list"
  ms_fallbackWrites :: "LogEntry list"

definition newMultiSinkLogger :: MultiSinkLogger where
  "newMultiSinkLogger =
     \<lparr>ms_sinks = Map.empty, ms_breakers = Map.empty, ms_fallback = False, ms_stats = Map.empty, ms_writes = [], ms_fallbackWrites = []\<rparr>"

definition newStat :: SinkStat where
  "newStat = \<lparr>st_Written = 0, st_Failed = 0, st_Latency = 0, st_LastError = None\<rparr>"

definition newLogBreaker :: LogCircuitBreaker where
  "newLogBreaker = \<lparr>lc_failures = 0, lc_lastFailTime = zeroTime, lc_state = 0, lc_maxFailures = 5, lc_cooldown = 30000000000\<rparr>"

definition addSinkWithPriority :: "string \<Rightarrow> int \<Rightarrow> (LogEntry \<Rightarrow> bool) option \<Rightarrow> MultiSinkLogger \<Rightarrow> MultiSinkLogger" where
  "addSinkWithPriority name priority filt l =
     l\<lparr>ms_sinks := (ms_sinks l)(name \<mapsto> \<lparr>sw_Priority = priority, sw_Filter = filt\<rparr>),
       ms_breakers := (ms_breakers l)(name \<mapsto> newLogBreaker), ms_stats := (ms_stats l)(name \<mapsto> newStat)\<rparr>"

definition setFallbackSink :: "MultiSinkLogger \<Rightarrow> MultiSinkLogger" where
  "setFallbackSink l = l\<lparr>ms_fallback := True\<rparr>"

definition isCircuitBreakerOpen :: "gotime \<Rightarrow> LogCircuitBreaker \<Rightarrow> bool \<times> LogCircuitBreaker" where
  "isCircuitBreakerOpen now cb =
     (if lc_state cb = 1
      then (if now - lc_lastFailTime cb > lc_cooldown cb then (False, cb\<lparr>lc_state := 2\<rparr>) else (True, cb))
      else (False, cb))"

definition recordFailure :: "gotime \<Rightarrow> LogCircuitBreaker \<Rightarrow> LogCircuitBreaker" where
  "recordFailure now cb =
     (let failures = i64 (lc_failures cb + 1); cb' = cb\<lparr>lc_failures := failures, lc_lastFailTime := now\<rparr>
      in if failures \<ge> lc_maxFailures cb then cb'\<lparr>lc_state := 1\<rparr> else cb')"

definition recordSuccess :: "LogCircuitBreaker \<Rightarrow> LogCircuitBreaker" where
  "recordSuccess cb = (if lc_state cb = 2 then cb\<lparr>lc_state := 0, lc_failures := 0\<rparr> else cb)"

definition updateMetrics :: "string \<Rightarrow> string option \<Rightarrow> duration \<Rightarrow> (string \<rightharpoonup> SinkStat) \<Rightarrow> (string \<rightharpoonup> SinkStat)" where
  "updateMetrics name err latency stats =
     (let s = getOr newStat (stats name);
          s' = (case err of Some e \<Rightarrow> s\<lparr>st_Failed := i64 (st_Failed s + 1), st_LastError := Some e\<rparr>
                | None \<Rightarrow> s\<lparr>st_Written := i64 (st_Written s + 1)\<rparr>)
      in stats(name \<mapsto> s'\<lparr>st_Latency := i64 (st_Latency s + latency) div 2\<rparr>))"

text \<open>What a sink and the clock answer during a call: the readings at the check of the breaker and at a failure, the error, and the duration of the write.\<close>

record Answer =
  an_now :: gotime
  an_failTime :: gotime
  an_err :: "string option"
  an_latency :: duration

definition admits :: "SinkWrapper \<Rightarrow> LogEntry \<Rightarrow> bool" where
  "admits w entry = (case sw_Filter w of None \<Rightarrow> True | Some f \<Rightarrow> f entry)"

definition writeSink :: "(string \<Rightarrow> Answer) \<Rightarrow> LogEntry \<Rightarrow> string \<Rightarrow> LogCircuitBreaker \<Rightarrow> MultiSinkLogger \<Rightarrow> MultiSinkLogger" where
  "writeSink env entry name cb l =
     (let err = an_err (env name)
      in l\<lparr>ms_writes := ms_writes l @ [(name, entry, err = None)], ms_stats := updateMetrics name err (an_latency (env name)) (ms_stats l),
           ms_breakers := (ms_breakers l)(name \<mapsto> (case err of None \<Rightarrow> recordSuccess cb | Some _ \<Rightarrow> recordFailure (an_failTime (env name)) cb))\<rparr>)"

text \<open>The iteration for one sink; the flag says that the write succeeded.  A name without sink or breaker does not occur.\<close>

definition processSink :: "(string \<Rightarrow> Answer) \<Rightarrow> LogEntry \<Rightarrow> string \<Rightarrow> MultiSinkLogger \<Rightarrow> bool \<times> MultiSinkLogger" where
  "processSink env entry name l =
     (case (ms_sinks l name, ms_breakers l name) of
        (Some w, Some cb) \<Rightarrow>
          if \<not> admits w entry then (False, l)
          else (let (blocked, cb') = isCircuitBreakerOpen (an_now (env name)) cb
                in if blocked then (False, l) else (an_err (env name) = None, writeSink env entry name cb' l))
      | _ \<Rightarrow> (False, l))"

fun sinkLoop :: "(string \<Rightarrow> Answer) \<Rightarrow> LogEntry \<Rightarrow> string list \<Rightarrow> nat \<Rightarrow> MultiSinkLogger \<Rightarrow> nat \<times> MultiSinkLogger" where
  "sinkLoop env entry [] n l = (n, l)"
| "sinkLoop env entry (name # names) n l =
     (let (ok, l') = processSink env entry name l in sinkLoop env entry names (if ok then Suc n else n) l')"

definition multiEntry :: "gotime \<Rightarrow> LogLevel \<Rightarrow> string \<Rightarrow> LogEntry" where
  "multiEntry now level message =
     \<lparr>le_Level = level, le_Timestamp = now, le_Message = message, le_TraceID = [], le_SpanID = [], le_Service = ''multi-sink-app'', le_Host = ''localhost''\<rparr>"

definition multiLog :: "(string \<Rightarrow> Answer) \<Rightarrow> string list \<Rightarrow> LogEntry \<Rightarrow> MultiSinkLogger \<Rightarrow> MultiSinkLogger" where
  "multiLog env order entry l =
     (let (successCount, l') = sinkLoop env entry order 0 l
      in if successCount = 0 \<and> ms_fallback l' then l'\<lparr>ms_fallbackWrites := ms_fallbackWrites l' @ [entry]\<rparr> else l')"

definition getMetrics :: "MultiSinkLogger \<Rightarrow> (string \<rightharpoonup> SinkStat)" where
  "getMetrics l = ms_stats l"

text \<open>The sinks that an entry reaches.\<close>

definition reaches :: "(string \<Rightarrow> Answer) \<Rightarrow> LogEntry \<Rightarrow> MultiSinkLogger \<Rightarrow> string \<Rightarrow> bool" where
  "reaches env entry l name =
     (case (ms_sinks l name, ms_breakers l name) of
        (Some w, Some cb) \<Rightarrow> admits w entry \<and> \<not> (lc_state cb = 1 \<and> an_now (env name) - lc_lastFailTime cb \<le> lc_cooldown cb)
      | _ \<Rightarrow> False)"

lemma processSink_result:
  assumes "processSink env entry name l = (ok, l')"
  shows "ms_writes l' = ms_writes l @ (if reaches env entry l name then [(name, entry, an_err (env name) = None)] else []) \<and>
    ok = (reaches env entry l name \<and> an_err (env name) = None) \<and>
    ms_sinks l' = ms_sinks l \<and> ms_fallback l' = ms_fallback l \<and> ms_fallbackWrites l' = ms_fallbackWrites l \<and>
    (\<forall>m. m \<noteq> name \<longrightarrow> ms_breakers l' m = ms_breakers l m)"
  using assms
  by (auto simp: processSink_def reaches_def writeSink_def isCircuitBreakerOpen_def Let_def split: option.splits if_splits)

lemma reaches_other:
  "ms_sinks l' = ms_sinks l \<Longrightarrow> ms_breakers l' m = ms_breakers l m \<Longrightarrow> reaches env entry l' m = reaches env entry l m"
  by (simp add: reaches_def)

lemma sinkLoop_result:
  "distinct names \<Longrightarrow> sinkLoop env entry names n l = (n', l') \<Longrightarrow>
     ms_writes l' = ms_writes l @ map (\<lambda>name. (name, entry, an_err (env name) = None)) (filter (reaches env entry l) names) \<and>
     n' = n + length (filter (\<lambda>name. reaches env entry l name \<and> an_err (env name) = None) names) \<and>
     ms_fallback l' = ms_fallback l \<and> ms_fallbackWrites l' = ms_fallbackWrites l"
proof (induction names arbitrary: n l)
  case (Cons name names)
  obtain ok l1 where p: "processSink env entry name l = (ok, l1)" by fastforce
  note res = processSink_result [OF p]
  have eq: "reaches env entry l1 m = reaches env entry l m" if "m \<in> set names" for m
    using that Cons.prems(1) res by (intro reaches_other) auto
  have f: "filter (reaches env entry l1) names = filter (reaches env entry l) names"
    "filter (\<lambda>name. reaches env entry l1 name \<and> an_err (env name) = None) names = filter (\<lambda>name. reaches env entry l name \<and> an_err (env name) = None) names"
    by (rule filter_cong; simp add: eq)+
  have "sinkLoop env entry names (if ok then Suc n else n) l1 = (n', l')" using Cons.prems(2) p by simp
  from Cons.IH [OF _ this] show ?case using Cons.prems(1) res f by auto
qed simp

section \<open>Breakers of sinks\<close>

definition logBreakerOk :: "nat \<Rightarrow> LogCircuitBreaker \<Rightarrow> bool" where
  "logBreakerOk n cb \<longleftrightarrow>
     lc_maxFailures cb = 5 \<and> 0 \<le> lc_failures cb \<and> lc_failures cb \<le> int n \<and>
     (if lc_failures cb < 5 then lc_state cb = 0 else lc_state cb = 1)"

definition msInv :: "MultiSinkLogger \<Rightarrow> bool" where
  "msInv l \<longleftrightarrow> (\<forall>name. pred_option (logBreakerOk (length (ms_writes l))) (ms_breakers l name))"

lemma logBreakerOk_mono: "logBreakerOk n cb \<Longrightarrow> n \<le> m \<Longrightarrow> logBreakerOk m cb"
  by (auto simp: logBreakerOk_def)

lemma logBreakerOk_write:
  assumes ok: "logBreakerOk n cb" and n: "n < 2 ^ 62" and open_: "isCircuitBreakerOpen now cb = (False, cb')"
  shows "logBreakerOk (Suc n) (recordSuccess cb')" and "logBreakerOk (Suc n) (recordFailure t cb')"
proof -
  have "i64 (lc_failures cb + 1) = lc_failures cb + 1" using ok n by (intro i64_id in_i64I) (auto simp: logBreakerOk_def)
  then show "logBreakerOk (Suc n) (recordSuccess cb')" "logBreakerOk (Suc n) (recordFailure t cb')"
    using ok open_ by (auto simp: logBreakerOk_def recordSuccess_def recordFailure_def isCircuitBreakerOpen_def Let_def split: if_splits)
qed

lemma msInv_process:
  assumes inv: "msInv l" and n: "length (ms_writes l) < 2 ^ 62" and p: "processSink env entry name l = (ok, l')"
  shows "msInv l'"
proof (cases "l' = l")
  case False
  obtain w cb cb' where s: "ms_breakers l name = Some cb" "isCircuitBreakerOpen (an_now (env name)) cb = (False, cb')"
    and l': "l' = writeSink env entry name cb' l"
    using p False by (auto simp: processSink_def Let_def split: option.splits if_splits prod.splits)
  have cb: "logBreakerOk (length (ms_writes l)) cb" using inv s(1) by (metis msInv_def option.pred_inject(2))
  have "logBreakerOk (Suc (length (ms_writes l))) c" if "ms_breakers l' m = Some c" for m c
  proof (cases "m = name")
    case True
    then show ?thesis using that logBreakerOk_write [OF cb n s(2)] by (auto simp: l' writeSink_def Let_def split: option.splits)
  next
    case False
    then have "ms_breakers l m = Some c" using that by (simp add: l' writeSink_def Let_def)
    then have "logBreakerOk (length (ms_writes l)) c" using inv by (metis msInv_def option.pred_inject(2))
    then show ?thesis by (rule logBreakerOk_mono) simp
  qed
  then show ?thesis by (auto simp: msInv_def l' writeSink_def Let_def pred_option_def)
qed (use inv in simp)

lemma msInv_loop:
  "msInv l \<Longrightarrow> length (ms_writes l) + length names < 2 ^ 62 \<Longrightarrow> sinkLoop env entry names n l = (n', l') \<Longrightarrow> msInv l'"
proof (induction names arbitrary: n l)
  case (Cons name names)
  obtain ok l1 where p: "processSink env entry name l = (ok, l1)" by fastforce
  have "msInv l1" using msInv_process [OF Cons.prems(1) _ p] Cons.prems(2) by simp
  moreover have "length (ms_writes l1) \<le> Suc (length (ms_writes l))" using processSink_result [OF p] by simp
  ultimately show ?case using Cons.IH [of l1] Cons.prems(2,3) p by simp
qed simp

datatype MSStep = MAddSink string int "(LogEntry \<Rightarrow> bool) option" | MSetFallback | MLog "string \<Rightarrow> Answer" "string list" gotime LogLevel string

fun msStep :: "MultiSinkLogger \<Rightarrow> MSStep \<Rightarrow> MultiSinkLogger" where
  "msStep l (MAddSink name priority filt) = addSinkWithPriority name priority filt l"
| "msStep l MSetFallback = setFallbackSink l"
| "msStep l (MLog env order now level message) = multiLog env order (multiEntry now level message) l"

text \<open>A call visits every sink once.\<close>

fun msOk :: "MultiSinkLogger \<Rightarrow> MSStep \<Rightarrow> bool" where
  "msOk l (MLog env order now level message) \<longleftrightarrow>
     distinct order \<and> set order = dom (ms_sinks l) \<and> length (ms_writes l) + length order < 2 ^ 62"
| "msOk l _ \<longleftrightarrow> True"

lemma msInv_step: "msInv l \<Longrightarrow> msOk l e \<Longrightarrow> msInv (msStep l e)"
proof (cases e)
  case (MLog env order now level message)
  assume inv: "msInv l" and ok: "msOk l e"
  obtain n l' where loop: "sinkLoop env (multiEntry now level message) order 0 l = (n, l')" by fastforce
  have "msInv l'" using msInv_loop [OF inv _ loop] ok MLog by simp
  then show ?thesis using MLog loop by (auto simp: multiLog_def msInv_def)
qed (auto simp: msInv_def addSinkWithPriority_def setFallbackSink_def newLogBreaker_def logBreakerOk_def)

interpretation multi_sink: guarded_object msStep msInv msOk
  by unfold_locales (rule msInv_step)

lemma msInv_new: "msInv newMultiSinkLogger"
  by (simp add: msInv_def newMultiSinkLogger_def)

text \<open> After any history of calls, sinks and fallback settings, a call of \<open>Log\<close> that visits the sinks in any order writes the entry exactly to the sinks whose filter admits it
  and whose breaker is not open within its cool-down time, once each and in that order; the fallback, if there is one, gets the entry exactly when none of these writes succeeded; and afterwards
  every breaker is closed with fewer than five failures or open after at least five.\<close>

theorem multi_sink_routes:
  assumes "admissible msStep msOk newMultiSinkLogger (es @ [MLog env order now level message])"
  shows "let l = run msStep newMultiSinkLogger es; entry = multiEntry now level message; l' = multiLog env order entry l
    in ms_writes l' = ms_writes l @ map (\<lambda>name. (name, entry, an_err (env name) = None)) (filter (reaches env entry l) order) \<and>
       ms_fallbackWrites l' = ms_fallbackWrites l @
         (if ms_fallback l \<and> \<not> list_ex (\<lambda>name. reaches env entry l name \<and> an_err (env name) = None) order then [entry] else []) \<and>
       pred_option (\<lambda>cb. if lc_failures cb < 5 then lc_state cb = 0 else lc_state cb = 1) (ms_breakers l' name)"
proof -
  define l where "l = run msStep newMultiSinkLogger es"
  define entry where "entry = multiEntry now level message"
  define l' where "l' = multiLog env order entry l"
  obtain n m where loop: "sinkLoop env entry order 0 l = (n, m)" by fastforce
  have d: "distinct order" using assms by (simp add: l_def)
  note res = sinkLoop_result [OF d loop]
  have none: "n = 0 \<longleftrightarrow> \<not> list_ex (\<lambda>name. reaches env entry l name \<and> an_err (env name) = None) order"
    using res by (auto simp: list_ex_iff filter_empty_conv)
  have "msInv (run msStep newMultiSinkLogger (es @ [MLog env order now level message]))"
    using msInv_new assms by (rule multi_sink.guarded_run)
  then have "msInv l'" by (simp add: l'_def l_def entry_def)
  then have "pred_option (logBreakerOk (length (ms_writes l'))) (ms_breakers l' name)" by (simp add: msInv_def)
  then have "pred_option (\<lambda>cb. if lc_failures cb < 5 then lc_state cb = 0 else lc_state cb = 1) (ms_breakers l' name)"
    by (rule option.pred_mono_strong) (simp add: logBreakerOk_def)
  then show ?thesis
    unfolding l_def [symmetric] entry_def [symmetric] Let_def l'_def [symmetric]
    using res none by (auto simp: l'_def multiLog_def loop)
qed

text \<open>The sinks of the demonstration: the console admits everything from the level INFO on, the file errors only.\<close>

definition demoSinks :: "MSStep list" where
  "demoSinks =
     [MAddSink ''console'' 10 (Some (\<lambda>e. le_Level e \<noteq> DEBUG)), MAddSink ''file'' 5 (Some (\<lambda>e. le_Level e = ERROR \<or> le_Level e = FATAL)), MSetFallback]"

definition healthy :: "string \<Rightarrow> Answer" where
  "healthy name = \<lparr>an_now = 0, an_failTime = 0, an_err = None, an_latency = 1\<rparr>"

lemma demo_dom: "dom (ms_sinks (run msStep newMultiSinkLogger demoSinks)) = {''console'', ''file''}"
  by (auto simp: demoSinks_def addSinkWithPriority_def setFallbackSink_def newMultiSinkLogger_def)

theorem multi_sink_routes_witness:
  "let l = run msStep newMultiSinkLogger demoSinks; entry = multiEntry 7 INFO ''Info message''; l' = multiLog healthy [''file'', ''console''] entry l
   in admissible msStep msOk newMultiSinkLogger (demoSinks @ [MLog healthy [''file'', ''console''] 7 INFO ''Info message'']) \<and>
      ms_writes l' = [(''console'', entry, True)] \<and> ms_fallbackWrites l' = []"
proof -
  define l where "l = run msStep newMultiSinkLogger demoSinks"
  have w: "ms_writes l = []" "ms_fallbackWrites l = []" unfolding l_def by code_simp+
  have adm: "admissible msStep msOk newMultiSinkLogger (demoSinks @ [MLog healthy [''file'', ''console''] 7 INFO ''Info message''])"
    using demo_dom w unfolding l_def by (auto simp: demoSinks_def)
  have r: "filter (reaches healthy (multiEntry 7 INFO ''Info message'') l) [''file'', ''console''] = [''console'']"
    "list_ex (\<lambda>name. reaches healthy (multiEntry 7 INFO ''Info message'') l name \<and> an_err (healthy name) = None) [''file'', ''console'']"
    unfolding l_def by code_simp+
  show ?thesis
    using multi_sink_routes [OF adm] adm w r unfolding l_def [symmetric] by (simp add: Let_def healthy_def)
qed

text \<open>An entry that no filter admits counts as an entry that all sinks failed to write, and goes to the fallback.\<close>

lemma filtered_entry_reaches_fallback:
  "map le_Message (ms_fallbackWrites (run msStep newMultiSinkLogger (demoSinks @ [MLog healthy [''console'', ''file''] 7 DEBUG ''Debug message'']))) = [''Debug message'']"
  by code_simp

text \<open>The priorities are stored but nothing sorts by them: the sinks are visited in the order of the map.\<close>

lemma priorities_ignored:
  "map fst (ms_writes (run msStep newMultiSinkLogger (demoSinks @ [MLog healthy [''file'', ''console''] 7 ERROR ''Error message'']))) = [''file'', ''console'']"
  by code_simp

end
