(* ===== verification/CompressedSeries.thy ===== *)
theory CompressedSeries
  imports ShardedTimeSeries "HOL-Library.AList"
begin

text \<open>
  The time series with a write buffer and compression of \<open>src/solutions/solution22_timeseries_db.go\<close> (\<open>CompressedTimeSeries\<close>).  \<open>Write\<close> adds to the
  buffer under its lock and starts a flush when the buffer is full; the ticker starts flushes as well.  A flush is a goroutine: it
  takes the buffer, then creates and extends the series one after the other, under their locks and between any other
  steps.  The order in which the map of pending points is visited is an argument.  \<open>Compress\<close> sorts the slice it is given in place, and that slice is a part of the points of the series, so the model
  sorts them there.  \<open>sort.Slice\<close> leaves the order of equal timestamps open; the model keeps the order found.

  Values have an arbitrary type; their difference, their zero and the text that \<open>fmt\<close> prints for them are parameters.  A slice of eight bytes of a shorter text takes the zero bytes that
  follow it in memory.  \<open>bk_points\<close> records the points a block was made from; the operations do not read it.

  Shown: in every interleaving each written point is in the buffer, with a flush, in memory or in a block, exactly once; blocks hold
  1000 points and cover their times; and a query returns, sorted, exactly the points in memory of its range and a placeholder for every block that overlaps it,
  so that no block with a point of the range is passed over.
\<close>

section \<open>Data\<close>

record 'v CompressedBlock =
  bk_StartTime :: gotime
  bk_EndTime :: gotime
  bk_NumPoints :: int
  bk_Data :: string
  bk_points :: "'v DataPoint list"

record 'v SeriesData =
  sd_points :: "'v DataPoint list"
  sd_compressed :: "'v CompressedBlock list"

text \<open>A flush before it takes the buffer, before it looks up the series of its next points, and before it appends them.\<close>

datatype 'v Flush =
    TakeBuffer
  | FindSeries "(string \<times> 'v DataPoint list) list"
  | AppendPoints string "'v DataPoint list" "(string \<times> 'v DataPoint list) list"

record 'v CompressedTimeSeries =
  ct_series :: "string \<rightharpoonup> 'v SeriesData"
  ct_pending :: "(string \<times> 'v DataPoint list) list"
  ct_size :: int
  ct_maxSize :: int
  ct_flushes :: "'v Flush list"

record 'v Arith =
  ar_sub :: "'v \<Rightarrow> 'v \<Rightarrow> 'v"
  ar_zero :: 'v
  ar_show :: "'v \<Rightarrow> string"

definition newCompressedTimeSeries :: "'v CompressedTimeSeries" where
  "newCompressedTimeSeries = \<lparr>ct_series = Map.empty, ct_pending = [], ct_size = 0, ct_maxSize = 10000, ct_flushes = []\<rparr>"

section \<open>Compression\<close>

definition eightBytes :: "string \<Rightarrow> string" where
  "eightBytes s = take 8 (s @ replicate 8 (CHR 0x00))"

definition floatToBytes :: "'v Arith \<Rightarrow> 'v \<Rightarrow> string" where
  "floatToBytes A f = eightBytes (ar_show A f)"

definition int64ToBytes :: "int \<Rightarrow> string" where
  "int64ToBytes i = eightBytes (itoa i)"

fun deltaLoop :: "'v Arith \<Rightarrow> 'v \<Rightarrow> gotime \<Rightarrow> 'v DataPoint list \<Rightarrow> string" where
  "deltaLoop A prevValue prevTime [] = []"
| "deltaLoop A prevValue prevTime (p # ps) =
     floatToBytes A (ar_sub A (dp_Value p) prevValue) @ int64ToBytes (i64 (dp_Timestamp p - prevTime)) @ deltaLoop A (dp_Value p) (dp_Timestamp p) ps"

text \<open>The sorted points and their encoding.\<close>

definition compressPoints :: "'v Arith \<Rightarrow> 'v DataPoint list \<Rightarrow> 'v DataPoint list \<times> string" where
  "compressPoints A points =
     (let sorted = sort_key dp_Timestamp points
      in (sorted,
          case sorted of
            [] \<Rightarrow> []
          | p # ps \<Rightarrow> floatToBytes A (dp_Value p) @ int64ToBytes (dp_Timestamp p) @ deltaLoop A (dp_Value p) (dp_Timestamp p) ps))"

definition decompressPoints :: "string \<Rightarrow> 'v DataPoint list" where
  "decompressPoints data = []"

section \<open>Writing and flushing\<close>

definition pendingOf :: "(string \<times> 'v DataPoint list) list \<Rightarrow> string \<Rightarrow> 'v DataPoint list" where
  "pendingOf pending name = (case map_of pending name of None \<Rightarrow> [] | Some ps \<Rightarrow> ps)"

definition writeBuffered :: "string \<Rightarrow> 'v DataPoint \<Rightarrow> 'v CompressedTimeSeries \<Rightarrow> 'v CompressedTimeSeries" where
  "writeBuffered seriesName point ts =
     (let ts' = ts\<lparr>ct_pending := AList.update seriesName (pendingOf (ct_pending ts) seriesName @ [point]) (ct_pending ts), ct_size := i64 (ct_size ts + 1)\<rparr>
      in if ct_size ts' \<ge> ct_maxSize ts' then ts'\<lparr>ct_flushes := ct_flushes ts' @ [TakeBuffer]\<rparr> else ts')"

definition newSeriesData :: "'v SeriesData" where
  "newSeriesData = \<lparr>sd_points = [], sd_compressed = []\<rparr>"

definition appendAndCompress :: "'v Arith \<Rightarrow> 'v DataPoint list \<Rightarrow> 'v SeriesData \<Rightarrow> 'v SeriesData" where
  "appendAndCompress A points series =
     (let all = sd_points series @ points
      in if length all > 1000
         then (let (sorted, data) = compressPoints A (take 1000 all)
               in series\<lparr>sd_compressed := sd_compressed series @
                           [\<lparr>bk_StartTime = dp_Timestamp (sorted ! 0), bk_EndTime = dp_Timestamp (sorted ! 999), bk_NumPoints = 1000, bk_Data = data, bk_points = sorted\<rparr>],
                         sd_points := drop 1000 all\<rparr>)
         else series\<lparr>sd_points := all\<rparr>)"

definition seriesOf :: "'v CompressedTimeSeries \<Rightarrow> string \<Rightarrow> 'v SeriesData" where
  "seriesOf ts name = (case ct_series ts name of None \<Rightarrow> newSeriesData | Some s \<Rightarrow> s)"

definition setFlush :: "nat \<Rightarrow> 'v Flush \<Rightarrow> 'v CompressedTimeSeries \<Rightarrow> 'v CompressedTimeSeries" where
  "setFlush i f ts = ts\<lparr>ct_flushes := (ct_flushes ts)[i := f]\<rparr>"

definition flushAct :: "'v Arith \<Rightarrow> nat \<Rightarrow> (string \<times> 'v DataPoint list) list \<Rightarrow> 'v CompressedTimeSeries \<Rightarrow> 'v CompressedTimeSeries" where
  "flushAct A i order ts =
     (if i < length (ct_flushes ts)
      then (case ct_flushes ts ! i of
              TakeBuffer \<Rightarrow>
                setFlush i (FindSeries (if mset order = mset (ct_pending ts) then order else ct_pending ts)) (ts\<lparr>ct_pending := [], ct_size := 0\<rparr>)
            | FindSeries [] \<Rightarrow> ts
            | FindSeries ((name, points) # todo) \<Rightarrow>
                setFlush i (AppendPoints name points todo) (ts\<lparr>ct_series := (ct_series ts)(name \<mapsto> seriesOf ts name)\<rparr>)
            | AppendPoints name points todo \<Rightarrow>
                setFlush i (FindSeries todo) (ts\<lparr>ct_series := (ct_series ts)(name \<mapsto> appendAndCompress A points (seriesOf ts name))\<rparr>))
      else ts)"

section \<open>Querying\<close>

definition blockOverlaps :: "gotime \<Rightarrow> gotime \<Rightarrow> 'v CompressedBlock \<Rightarrow> bool" where
  "blockOverlaps start end' block \<longleftrightarrow> bk_EndTime block > start \<and> bk_StartTime block < end'"

definition querySeries :: "'v Arith \<Rightarrow> string \<Rightarrow> gotime \<Rightarrow> gotime \<Rightarrow> 'v CompressedTimeSeries \<Rightarrow> 'v DataPoint list option" where
  "querySeries A seriesName start end' ts =
     (case ct_series ts seriesName of
        None \<Rightarrow> None
      | Some series \<Rightarrow>
          Some (sort_key dp_Timestamp
            (map (\<lambda>b. \<lparr>dp_Timestamp = bk_StartTime b, dp_Value = ar_zero A\<rparr>) (filter (blockOverlaps start end') (sd_compressed series)) @
             filter (\<lambda>p. dp_Timestamp p > start \<and> dp_Timestamp p < end') (sd_points series))))"

datatype 'v CTStep = CWrite string "'v DataPoint" | CTick | CFlush nat "(string \<times> 'v DataPoint list) list"

fun ctStep :: "'v Arith \<Rightarrow> 'v CompressedTimeSeries \<Rightarrow> 'v CTStep \<Rightarrow> 'v CompressedTimeSeries" where
  "ctStep A ts (CWrite name point) = writeBuffered name point ts"
| "ctStep A ts CTick = ts\<lparr>ct_flushes := ct_flushes ts @ [TakeBuffer]\<rparr>"
| "ctStep A ts (CFlush i order) = flushAct A i order ts"

section \<open>No point is lost\<close>

definition pointsIn :: "string \<Rightarrow> (string \<times> 'v DataPoint list) list \<Rightarrow> 'v DataPoint list" where
  "pointsIn name pending = concat (map snd (filter (\<lambda>p. fst p = name) pending))"

fun flushPoints :: "string \<Rightarrow> 'v Flush \<Rightarrow> 'v DataPoint list" where
  "flushPoints name TakeBuffer = []"
| "flushPoints name (FindSeries todo) = pointsIn name todo"
| "flushPoints name (AppendPoints n points todo) = (if n = name then points else []) @ pointsIn name todo"

definition storedPoints :: "'v SeriesData \<Rightarrow> 'v DataPoint list" where
  "storedPoints s = concat (map bk_points (sd_compressed s)) @ sd_points s"

text \<open>The points of a series, wherever they are.\<close>

definition allPoints :: "'v CompressedTimeSeries \<Rightarrow> string \<Rightarrow> 'v DataPoint multiset" where
  "allPoints ts name =
     mset (pointsIn name (ct_pending ts)) + (\<Sum>f \<leftarrow> ct_flushes ts. mset (flushPoints name f)) + mset (storedPoints (seriesOf ts name))"

definition blockOk :: "'v CompressedBlock \<Rightarrow> bool" where
  "blockOk b \<longleftrightarrow> bk_NumPoints b = 1000 \<and> length (bk_points b) = 1000 \<and> sorted (map dp_Timestamp (bk_points b)) \<and>
     bk_StartTime b = dp_Timestamp (bk_points b ! 0) \<and> bk_EndTime b = dp_Timestamp (bk_points b ! 999)"

definition ctInv :: "'v CompressedTimeSeries \<Rightarrow> bool" where
  "ctInv ts \<longleftrightarrow>
     distinct (map fst (ct_pending ts)) \<and> ct_size ts = i64 (\<Sum>p \<leftarrow> ct_pending ts. int (length (snd p))) \<and>
     (\<forall>name. list_all blockOk (sd_compressed (seriesOf ts name)))"

fun writesTo :: "string \<Rightarrow> 'v CTStep list \<Rightarrow> 'v DataPoint list" where
  "writesTo name [] = []"
| "writesTo name (CWrite n p # es) = (if n = name then p # writesTo name es else writesTo name es)"
| "writesTo name (_ # es) = writesTo name es"

lemma sum_list_update_add:
  "i < length xs \<Longrightarrow> (\<Sum>x \<leftarrow> xs[i := y]. g x) + g (xs ! i) = (\<Sum>x \<leftarrow> xs. g x) + (g y :: 'm :: comm_monoid_add)"
proof (induction xs arbitrary: i)
  case (Cons x xs)
  then show ?case by (cases i) (auto simp: ac_simps)
qed simp

lemma pointsIn_update:
  "distinct (map fst pending) \<Longrightarrow>
     mset (pointsIn name (AList.update n (pendingOf pending n @ [p]) pending)) = mset (pointsIn name pending) + (if n = name then {#p#} else {#})"
proof (induction pending)
  case Nil
  then show ?case by (simp add: pointsIn_def pendingOf_def)
next
  case (Cons q qs)
  show ?case
  proof (cases "fst q = n")
    case True
    then show ?thesis by (cases q) (simp add: pointsIn_def pendingOf_def)
  next
    case False
    then have "pendingOf (q # qs) n = pendingOf qs n" by (cases q) (simp add: pendingOf_def)
    then show ?thesis using Cons False by (cases q) (auto simp: pointsIn_def)
  qed
qed

lemma size_update:
  "distinct (map fst pending) \<Longrightarrow>
     (\<Sum>q \<leftarrow> AList.update n (pendingOf pending n @ [p]) pending. int (length (snd q))) = (\<Sum>q \<leftarrow> pending. int (length (snd q))) + 1"
proof (induction pending)
  case (Cons q qs)
  show ?case
  proof (cases "fst q = n")
    case True
    then show ?thesis by (cases q) (simp add: pendingOf_def)
  next
    case False
    then have "pendingOf (q # qs) n = pendingOf qs n" by (cases q) (simp add: pendingOf_def)
    then show ?thesis using Cons False by (cases q) auto
  qed
qed (simp add: pendingOf_def)

lemma pointsIn_mset: "mset xs = mset ys \<Longrightarrow> mset (pointsIn name xs) = mset (pointsIn name ys)"
proof -
  have *: "mset (pointsIn name zs) = \<Sum>\<^sub># (image_mset (\<lambda>p. mset (snd p)) (filter_mset (\<lambda>p. fst p = name) (mset zs)))" for zs
    by (induction zs) (auto simp: pointsIn_def)
  assume "mset xs = mset ys"
  then show ?thesis by (simp add: *)
qed

lemma appendAndCompress_points: "mset (storedPoints (appendAndCompress A points s)) = mset (storedPoints s) + mset points"
proof (cases "length (sd_points s @ points) > 1000")
  case True
  have "mset (take 1000 (sd_points s @ points)) + mset (drop 1000 (sd_points s @ points)) = mset (sd_points s @ points)"
    by (metis append_take_drop_id mset_append)
  then show ?thesis using True by (simp add: appendAndCompress_def Let_def compressPoints_def storedPoints_def)
qed (simp add: appendAndCompress_def Let_def storedPoints_def)

lemma appendAndCompress_blocks:
  "list_all blockOk (sd_compressed s) \<Longrightarrow> list_all blockOk (sd_compressed (appendAndCompress A points s))"
  by (auto simp: appendAndCompress_def Let_def compressPoints_def blockOk_def)
lemma allPoints_flush:
  assumes i: "i < length (ct_flushes ts)"
    and tasks: "ct_flushes ts' = (ct_flushes ts)[i := f]"
    and same: "mset (pointsIn name (ct_pending ts')) + mset (flushPoints name f) + mset (storedPoints (seriesOf ts' name)) =
      mset (pointsIn name (ct_pending ts)) + mset (flushPoints name (ct_flushes ts ! i)) + mset (storedPoints (seriesOf ts name))"
  shows "allPoints ts' name = allPoints ts name"
proof -
  define S where "S = (\<Sum>x \<leftarrow> ct_flushes ts. mset (flushPoints name x))"
  define S' where "S' = (\<Sum>x \<leftarrow> (ct_flushes ts)[i := f]. mset (flushPoints name x))"
  have "S' + mset (flushPoints name (ct_flushes ts ! i)) = S + mset (flushPoints name f)"
    unfolding S_def S'_def by (rule sum_list_update_add [OF i])
  from mset_exchange [OF same this] show ?thesis unfolding allPoints_def tasks S_def [symmetric] S'_def [symmetric] .
qed

lemma seriesOf_upd: "seriesOf (ts\<lparr>ct_series := (ct_series ts)(n \<mapsto> s)\<rparr>) name = (if name = n then s else seriesOf ts name)"
  by (simp add: seriesOf_def)

lemma seriesOf_setFlush [unchanged]: "seriesOf (setFlush i f ts) name = seriesOf ts name" "ct_pending (setFlush i f ts) = ct_pending ts"
  "ct_size (setFlush i f ts) = ct_size ts" "ct_flushes (setFlush i f ts) = (ct_flushes ts)[i := f]"
  by (simp_all add: seriesOf_def setFlush_def)

lemma seriesOf_pending [unchanged]: "seriesOf (ts\<lparr>ct_pending := p, ct_size := n\<rparr>) name = seriesOf ts name"
  by (simp add: seriesOf_def)

lemma flushAct_points: "allPoints (flushAct A i order ts) name = allPoints ts name"
proof (cases "i < length (ct_flushes ts)")
  case True
  show ?thesis
  proof (cases "ct_flushes ts ! i")
    case TakeBuffer
    define todo where "todo = (if mset order = mset (ct_pending ts) then order else ct_pending ts)"
    have "mset (pointsIn name todo) = mset (pointsIn name (ct_pending ts))" unfolding todo_def using pointsIn_mset [of order "ct_pending ts" name] by simp
    moreover have "flushAct A i order ts = setFlush i (FindSeries todo) (ts\<lparr>ct_pending := [], ct_size := 0\<rparr>)"
      using True TakeBuffer by (simp add: flushAct_def todo_def)
    moreover have "pointsIn name [] = ([] :: 'a DataPoint list)" by (simp add: pointsIn_def)
    ultimately show ?thesis
      using TakeBuffer by (intro allPoints_flush [OF True, of _ "FindSeries todo"]) (simp_all add: unchanged)
  next
    case (FindSeries todo)
    show ?thesis
    proof (cases todo)
      case (Cons p rest)
      obtain n ps where p: "p = (n, ps)" by fastforce
      have "seriesOf (flushAct A i order ts) name = seriesOf ts name" using True FindSeries Cons p by (auto simp: flushAct_def unchanged seriesOf_upd)
      moreover have "ct_flushes (flushAct A i order ts) = (ct_flushes ts)[i := AppendPoints n ps rest]" "ct_pending (flushAct A i order ts) = ct_pending ts"
        using True FindSeries Cons p by (simp_all add: flushAct_def setFlush_def)
      ultimately show ?thesis using FindSeries Cons p by (intro allPoints_flush [OF True]) (auto simp: pointsIn_def)
    qed (use True FindSeries in \<open>simp add: flushAct_def\<close>)
  next
    case (AppendPoints n ps rest)
    have "seriesOf (flushAct A i order ts) name = (if name = n then appendAndCompress A ps (seriesOf ts n) else seriesOf ts name)"
      using True AppendPoints by (simp add: flushAct_def unchanged seriesOf_upd)
    then show ?thesis
      using True AppendPoints
      by (intro allPoints_flush [OF True, of _ "FindSeries rest"]) (auto simp: flushAct_def setFlush_def appendAndCompress_points)
  qed
qed (simp add: flushAct_def)

lemma allPoints_step:
  assumes "distinct (map fst (ct_pending ts))"
  shows "allPoints (ctStep A ts e) name = allPoints ts name + mset (writesTo name [e])"
proof (cases e)
  case (CWrite n p)
  have "seriesOf (writeBuffered n p ts) name = seriesOf ts name" by (simp add: writeBuffered_def seriesOf_def Let_def)
  moreover have "mset (pointsIn name (ct_pending (writeBuffered n p ts))) = mset (pointsIn name (ct_pending ts)) + (if n = name then {#p#} else {#})"
    using pointsIn_update [OF assms, of name n p] by (auto simp: writeBuffered_def Let_def)
  moreover have "(\<Sum>f \<leftarrow> ct_flushes (writeBuffered n p ts). mset (flushPoints name f)) = (\<Sum>f \<leftarrow> ct_flushes ts. mset (flushPoints name f))"
    by (simp add: writeBuffered_def Let_def)
  ultimately show ?thesis using CWrite by (simp add: allPoints_def)
next
  case CTick
  then show ?thesis by (simp add: allPoints_def seriesOf_def)
next
  case (CFlush i order)
  then show ?thesis by (simp add: flushAct_points)
qed

lemma ctInv_flush:
  assumes inv: "ctInv ts"
  shows "ctInv (flushAct A i order ts)"
proof (cases "i < length (ct_flushes ts)")
  case True
  have blocks: "list_all blockOk (sd_compressed (seriesOf ts name))" for name using inv by (simp add: ctInv_def)
  show ?thesis
  proof (cases "ct_flushes ts ! i")
    case TakeBuffer
    then show ?thesis using True blocks by (simp add: flushAct_def ctInv_def unchanged i64_def)
  next
    case (FindSeries todo)
    then show ?thesis
      using True inv blocks by (cases todo) (auto simp: flushAct_def ctInv_def unchanged seriesOf_upd split: prod.splits)
  next
    case (AppendPoints n ps rest)
    then show ?thesis
      using True inv blocks by (auto simp: flushAct_def ctInv_def unchanged seriesOf_upd appendAndCompress_blocks)
  qed
qed (use inv in \<open>simp add: flushAct_def\<close>)

lemma ctInv_step: "ctInv ts \<Longrightarrow> ctInv (ctStep A ts e)"
proof (cases e)
  case (CWrite n p)
  assume inv: "ctInv ts"
  have "seriesOf (writeBuffered n p ts) name = seriesOf ts name" for name by (simp add: writeBuffered_def seriesOf_def Let_def)
  moreover have "distinct (map fst (ct_pending (writeBuffered n p ts)))" using inv by (simp add: ctInv_def writeBuffered_def Let_def distinct_update)
  moreover have "ct_size (writeBuffered n p ts) = i64 (\<Sum>q \<leftarrow> ct_pending (writeBuffered n p ts). int (length (snd q)))"
    using inv by (simp add: ctInv_def writeBuffered_def Let_def size_update)
  ultimately show ?thesis using inv CWrite by (simp add: ctInv_def)
next
  case CTick
  assume "ctInv ts"
  then show ?thesis using CTick by (simp add: ctInv_def seriesOf_def)
next
  case (CFlush i order)
  assume "ctInv ts"
  then show ?thesis using CFlush by (simp add: ctInv_flush)
qed

interpretation compressed: locked_object "ctStep A" ctInv for A
  by unfold_locales (rule ctInv_step)

lemma ctInv_new: "ctInv newCompressedTimeSeries"
  by (simp add: ctInv_def newCompressedTimeSeries_def seriesOf_def newSeriesData_def i64_def)

lemma writesTo_Cons: "writesTo name (e # es) = writesTo name [e] @ writesTo name es"
  by (cases e) auto

lemma allPoints_run: "ctInv ts \<Longrightarrow> allPoints (run (ctStep A) ts es) name = allPoints ts name + mset (writesTo name es)"
proof (induction es arbitrary: ts)
  case (Cons e es)
  then have "allPoints (ctStep A ts e) name = allPoints ts name + mset (writesTo name [e])" by (simp add: allPoints_step ctInv_def)
  then show ?case using Cons by (subst writesTo_Cons) (simp add: ctInv_step)
qed simp

lemma block_covers: "blockOk b \<Longrightarrow> p \<in> set (bk_points b) \<Longrightarrow> bk_StartTime b \<le> dp_Timestamp p \<and> dp_Timestamp p \<le> bk_EndTime b"
proof -
  assume b: "blockOk b" and p: "p \<in> set (bk_points b)"
  then obtain k where k: "k < 1000" "bk_points b ! k = p" by (auto simp: blockOk_def in_set_conv_nth)
  have s: "sorted (map dp_Timestamp (bk_points b))" and l: "length (bk_points b) = 1000" using b by (simp_all add: blockOk_def)
  have "dp_Timestamp (bk_points b ! 0) \<le> dp_Timestamp p" "dp_Timestamp p \<le> dp_Timestamp (bk_points b ! 999)"
    using sorted_nth_mono [OF s, of 0 k] sorted_nth_mono [OF s, of k 999] k l by auto
  then show ?thesis using b by (simp add: blockOk_def)
qed

text \<open> In every interleaving of writes, ticks and flushes: the written points of a series are, each once, those in the buffer, with a flush, in the blocks and in memory; the size
  of the buffer is the number of points in it; and a query of the series returns, sorted by time, one placeholder for every block that overlaps the range, and exactly the points in memory
  that lie in it; a block that holds a point of the range overlaps it.\<close>

theorem compressed_series_complete:
  "let ts = run (ctStep A) newCompressedTimeSeries es
   in allPoints ts name = mset (writesTo name es) \<and> ct_size ts = i64 (\<Sum>p \<leftarrow> ct_pending ts. int (length (snd p))) \<and>
      (case querySeries A name start end' ts of
         None \<Rightarrow> ct_series ts name = None
       | Some result \<Rightarrow>
           sorted (map dp_Timestamp result) \<and>
           mset result =
             image_mset (\<lambda>b. \<lparr>dp_Timestamp = bk_StartTime b, dp_Value = ar_zero A\<rparr>) (filter_mset (blockOverlaps start end') (mset (sd_compressed (seriesOf ts name)))) +
             filter_mset (\<lambda>p. start < dp_Timestamp p \<and> dp_Timestamp p < end') (mset (sd_points (seriesOf ts name)))) \<and>
      list_all (\<lambda>b. if list_ex (\<lambda>p. start < dp_Timestamp p \<and> dp_Timestamp p < end') (bk_points b) then blockOverlaps start end' b else True)
        (sd_compressed (seriesOf ts name))"
proof -
  define ts where "ts = run (ctStep A) newCompressedTimeSeries es"
  have inv: "ctInv ts" unfolding ts_def by (rule compressed.inv_run [OF ctInv_new])
  have "allPoints ts name = mset (writesTo name es)"
    unfolding ts_def using allPoints_run [OF ctInv_new]
    by (simp add: allPoints_def newCompressedTimeSeries_def seriesOf_def newSeriesData_def storedPoints_def pointsIn_def)
  moreover have "blockOverlaps start end' b"
    if "b \<in> set (sd_compressed (seriesOf ts name))" "p \<in> set (bk_points b)" "start < dp_Timestamp p" "dp_Timestamp p < end'" for b p
    using that inv block_covers [of b p] by (auto simp: ctInv_def list_all_iff blockOverlaps_def)
  ultimately show ?thesis
    unfolding ts_def [symmetric] Let_def using inv
    by (auto simp: ctInv_def querySeries_def seriesOf_def list_all_iff list_ex_iff split: option.splits)
qed

text \<open>The encoding cuts every number to eight characters, so that different points get the same bytes; and \<open>Decompress\<close> returns nothing.\<close>

lemma encoding_not_injective:
  "let A = \<lparr>ar_sub = (\<lambda>x y. x - y), ar_zero = 0, ar_show = itoa\<rparr>
   in snd (compressPoints A [\<lparr>dp_Timestamp = 1700000000000000000, dp_Value = 1\<rparr>]) = snd (compressPoints A [\<lparr>dp_Timestamp = 1700000000000000001, dp_Value = 1\<rparr>])"
  by (simp add: Let_def compressPoints_def floatToBytes_def int64ToBytes_def eightBytes_def itoa_def digits10.simps)

lemma decompress_loses_points: "decompressPoints (snd (compressPoints A [p])) \<noteq> [p]"
  by (simp add: decompressPoints_def)

end
