(* ===== verification/WindowedSeries.thy ===== *)
theory WindowedSeries
  imports ShardedTimeSeries
begin

text \<open>
  The windowed time series of \<open>src/solutions/solution22_timeseries_db.go\<close> (\<open>WindowedTimeSeries\<close>).  Calls of \<open>Insert\<close> are goroutines that find or create the window under the lock, compare the
  timestamp with the watermark, and add the point under the lock of the window; the watermark goroutine closes windows under the lock and then visits the late data one key at a time.  A step is one of these
  accesses.  Windows are never removed, so a window is named by its key; the key is a text with a resolution of seconds and is modelled by the
  number of the second.  Values have an arbitrary type with the floating-point operations as parameters; a missing entry of \<open>State\<close> reads as zero.
  \<open>ww_inserted\<close> and \<open>ww_lateSeen\<close> record the points inserted and those found late; the operations do not read them.

  Shown, for windows of a fixed number of seconds, in every interleaving: every point is in the window of its time or was found late or is under way, exactly once; a window contains only points of its interval; and
  \<open>Aggregate\<close> returns for every closed window the average of the points in it.
\<close>

section \<open>State\<close>

record 'v Floats =
  fl_zero :: 'v
  fl_isZero :: "'v \<Rightarrow> bool"
  fl_one :: 'v
  fl_add :: "'v \<Rightarrow> 'v \<Rightarrow> 'v"
  fl_div :: "'v \<Rightarrow> 'v \<Rightarrow> 'v"

record 'v Window =
  wn_Start :: gotime
  wn_End :: gotime
  wn_Points :: "'v DataPoint list"
  wn_count :: "'v option"
  wn_sum :: "'v option"
  wn_Closed :: bool

datatype 'v Insert =
    FindWindow "'v DataPoint" duration
  | CheckLate int "'v DataPoint"
  | AddToWindow int "'v DataPoint"
  | Inserted

record 'v WindowedTimeSeries =
  ww_windows :: "int \<rightharpoonup> 'v Window"
  ww_watermark :: gotime
  ww_oldWatermark :: gotime
  ww_lateData :: "gotime \<rightharpoonup> 'v DataPoint"
  ww_inserts :: "'v Insert list"
  ww_inserted :: "'v DataPoint list"
  ww_lateSeen :: "'v DataPoint list"

definition newWindowedTimeSeries :: "gotime \<Rightarrow> 'v WindowedTimeSeries" where
  "newWindowedTimeSeries now =
     \<lparr>ww_windows = Map.empty, ww_watermark = now - 60000000000, ww_oldWatermark = now - 60000000000, ww_lateData = Map.empty,
      ww_inserts = [], ww_inserted = [], ww_lateSeen = []\<rparr>"

section \<open>Average\<close>

definition orZero :: "'v Floats \<Rightarrow> 'v option \<Rightarrow> 'v" where
  "orZero F x = (case x of None \<Rightarrow> fl_zero F | Some v \<Rightarrow> v)"

definition avgAdd :: "'v Floats \<Rightarrow> 'v Window \<Rightarrow> 'v DataPoint \<Rightarrow> 'v Window" where
  "avgAdd F window point =
     window\<lparr>wn_Points := wn_Points window @ [point],
            wn_count := Some (fl_add F (orZero F (wn_count window)) (fl_one F)),
            wn_sum := Some (fl_add F (orZero F (wn_sum window)) (dp_Value point))\<rparr>"

definition avgCompute :: "'v Floats \<Rightarrow> 'v Window \<Rightarrow> 'v" where
  "avgCompute F window =
     (let n = orZero F (wn_count window); s = orZero F (wn_sum window) in if fl_isZero F n then fl_zero F else fl_div F s n)"

definition avgMerge :: "'v Floats \<Rightarrow> 'v Window list \<Rightarrow> 'v" where
  "avgMerge F windows =
     (let totalCount = fold (\<lambda>w c. fl_add F c (orZero F (wn_count w))) windows (fl_zero F);
          totalSum = fold (\<lambda>w s. fl_add F s (orZero F (wn_sum w))) windows (fl_zero F)
      in if fl_isZero F totalCount then fl_zero F else fl_div F totalSum totalCount)"

section \<open>Operations\<close>

definition getWindow :: "gotime \<Rightarrow> duration \<Rightarrow> int" where
  "getWindow timestamp windowSize = goTruncate windowSize timestamp div 1000000000"

definition newWindow :: "gotime \<Rightarrow> duration \<Rightarrow> 'v Window" where
  "newWindow timestamp windowSize =
     (let windowStart = goTruncate windowSize timestamp
      in \<lparr>wn_Start = windowStart, wn_End = windowStart + windowSize, wn_Points = [], wn_count = None, wn_sum = None, wn_Closed = False\<rparr>)"

definition setInsert :: "nat \<Rightarrow> 'v Insert \<Rightarrow> 'v WindowedTimeSeries \<Rightarrow> 'v WindowedTimeSeries" where
  "setInsert i x wts = wts\<lparr>ww_inserts := (ww_inserts wts)[i := x]\<rparr>"

definition findWindow :: "'v DataPoint \<Rightarrow> duration \<Rightarrow> 'v WindowedTimeSeries \<Rightarrow> 'v WindowedTimeSeries" where
  "findWindow point windowSize wts =
     (let key = getWindow (dp_Timestamp point) windowSize
      in case ww_windows wts key of
           Some _ \<Rightarrow> wts
         | None \<Rightarrow> wts\<lparr>ww_windows := (ww_windows wts)(key \<mapsto> newWindow (dp_Timestamp point) windowSize)\<rparr>)"

definition insertAct :: "'v Floats \<Rightarrow> nat \<Rightarrow> 'v WindowedTimeSeries \<Rightarrow> 'v WindowedTimeSeries" where
  "insertAct F i wts =
     (if i < length (ww_inserts wts)
      then (case ww_inserts wts ! i of
              FindWindow point windowSize \<Rightarrow> setInsert i (CheckLate (getWindow (dp_Timestamp point) windowSize) point) (findWindow point windowSize wts)
            | CheckLate key point \<Rightarrow>
                if dp_Timestamp point < ww_watermark wts
                then setInsert i Inserted (wts\<lparr>ww_lateData := (ww_lateData wts)(dp_Timestamp point \<mapsto> point), ww_lateSeen := ww_lateSeen wts @ [point]\<rparr>)
                else setInsert i (AddToWindow key point) wts
            | AddToWindow key point \<Rightarrow>
                setInsert i Inserted (wts\<lparr>ww_windows := (ww_windows wts)(key := map_option (\<lambda>w. avgAdd F w point) (ww_windows wts key))\<rparr>)
            | Inserted \<Rightarrow> wts)
      else wts)"

definition closeBefore :: "gotime \<Rightarrow> 'v Window \<Rightarrow> 'v Window" where
  "closeBefore watermark window = (if wn_End window < watermark \<and> \<not> wn_Closed window then window\<lparr>wn_Closed := True\<rparr> else window)"

definition advanceWatermark :: "gotime \<Rightarrow> 'v WindowedTimeSeries \<Rightarrow> 'v WindowedTimeSeries" where
  "advanceWatermark now wts =
     (let watermark = now - 30000000000
      in wts\<lparr>ww_oldWatermark := ww_watermark wts, ww_watermark := watermark, ww_windows := (\<lambda>key. map_option (closeBefore watermark) (ww_windows wts key))\<rparr>)"

definition cleanLate :: "gotime \<Rightarrow> 'v WindowedTimeSeries \<Rightarrow> 'v WindowedTimeSeries" where
  "cleanLate timestamp wts =
     (if ww_oldWatermark wts < timestamp \<and> timestamp < ww_watermark wts then wts\<lparr>ww_lateData := (ww_lateData wts)(timestamp := None)\<rparr> else wts)"

definition aggregate :: "'v Floats \<Rightarrow> string \<Rightarrow> 'v WindowedTimeSeries \<Rightarrow> (int \<rightharpoonup> 'v) option" where
  "aggregate F aggregator wts =
     (if aggregator = ''avg''
      then Some (\<lambda>key. case ww_windows wts key of
                    Some w \<Rightarrow> if wn_Closed w then Some (avgCompute F w) else None
                  | None \<Rightarrow> None)
      else None)"

datatype 'v WStep = WInsert "'v DataPoint" duration | WAct nat | WAdvance gotime | WCleanLate gotime

fun wwStep :: "'v Floats \<Rightarrow> 'v WindowedTimeSeries \<Rightarrow> 'v WStep \<Rightarrow> 'v WindowedTimeSeries" where
  "wwStep F wts (WInsert point windowSize) =
     wts\<lparr>ww_inserts := ww_inserts wts @ [FindWindow point windowSize], ww_inserted := ww_inserted wts @ [point]\<rparr>"
| "wwStep F wts (WAct i) = insertAct F i wts"
| "wwStep F wts (WAdvance now) = advanceWatermark now wts"
| "wwStep F wts (WCleanLate timestamp) = cleanLate timestamp wts"

section \<open>Windows and their points\<close>

lemma truncate_seconds:
  assumes "0 < w" and "1000000000 dvd w"
  shows "goTruncate w t = getWindow t w * 1000000000" and "goTruncate w t \<le> t" and "t < goTruncate w t + w"
proof -
  have eq: "goTruncate w t = zeroTime + w * ((t - zeroTime) div w)"
    using assms(1) minus_mod_eq_mult_div [of "t - zeroTime" w] by (simp add: goTruncate_def algebra_simps)
  have "1000000000 dvd goTruncate w t" unfolding eq using assms(2) by (auto simp: zeroTime_def)
  then show "goTruncate w t = getWindow t w * 1000000000" by (simp add: getWindow_def)
  have "0 \<le> (t - zeroTime) mod w" "(t - zeroTime) mod w < w" using assms(1) by simp_all
  then show "goTruncate w t \<le> t" and "t < goTruncate w t + w" using assms(1) by (simp_all add: goTruncate_def)
qed

text \<open>The running count and sum of a list of points.\<close>

definition runningCount :: "'v Floats \<Rightarrow> 'v DataPoint list \<Rightarrow> 'v" where
  "runningCount F ps = fold (\<lambda>p c. fl_add F c (fl_one F)) ps (fl_zero F)"

definition runningSum :: "'v Floats \<Rightarrow> 'v DataPoint list \<Rightarrow> 'v" where
  "runningSum F ps = fold (\<lambda>p s. fl_add F s (dp_Value p)) ps (fl_zero F)"

definition average :: "'v Floats \<Rightarrow> 'v DataPoint list \<Rightarrow> 'v" where
  "average F ps = (if fl_isZero F (runningCount F ps) then fl_zero F else fl_div F (runningSum F ps) (runningCount F ps))"

definition inWindow :: "'v Window \<Rightarrow> 'v DataPoint \<Rightarrow> bool" where
  "inWindow W p \<longleftrightarrow> wn_Start W \<le> dp_Timestamp p \<and> dp_Timestamp p < wn_End W"

definition windowOk :: "'v Floats \<Rightarrow> duration \<Rightarrow> int \<Rightarrow> 'v Window \<Rightarrow> bool" where
  "windowOk F w key W \<longleftrightarrow>
     wn_Start W = key * 1000000000 \<and> wn_End W = wn_Start W + w \<and> list_all (inWindow W) (wn_Points W) \<and>
     orZero F (wn_count W) = runningCount F (wn_Points W) \<and> orZero F (wn_sum W) = runningSum F (wn_Points W)"

fun insertOk :: "duration \<Rightarrow> 'v WindowedTimeSeries \<Rightarrow> 'v Insert \<Rightarrow> bool" where
  "insertOk w wts (FindWindow point windowSize) \<longleftrightarrow> windowSize = w"
| "insertOk w wts (CheckLate key point) \<longleftrightarrow> key = getWindow (dp_Timestamp point) w \<and> ww_windows wts key \<noteq> None"
| "insertOk w wts (AddToWindow key point) \<longleftrightarrow> key = getWindow (dp_Timestamp point) w \<and> ww_windows wts key \<noteq> None"
| "insertOk w wts Inserted \<longleftrightarrow> True"

fun insertPoint :: "'v Insert \<Rightarrow> 'v DataPoint option" where
  "insertPoint (FindWindow point windowSize) = Some point"
| "insertPoint (CheckLate key point) = Some point"
| "insertPoint (AddToWindow key point) = Some point"
| "insertPoint Inserted = None"

definition pointsAt :: "'v WindowedTimeSeries \<Rightarrow> int \<Rightarrow> 'v DataPoint list" where
  "pointsAt wts key = (case ww_windows wts key of None \<Rightarrow> [] | Some W \<Rightarrow> wn_Points W)"

definition atKey :: "duration \<Rightarrow> int \<Rightarrow> 'v DataPoint list \<Rightarrow> 'v DataPoint multiset" where
  "atKey w key ps = filter_mset (\<lambda>p. getWindow (dp_Timestamp p) w = key) (mset ps)"

definition windowsInv :: "'v Floats \<Rightarrow> duration \<Rightarrow> 'v WindowedTimeSeries \<Rightarrow> bool" where
  "windowsInv F w wts \<longleftrightarrow>
     (\<forall>key. pred_option (windowOk F w key) (ww_windows wts key)) \<and> list_all (insertOk w wts) (ww_inserts wts) \<and>
     (\<forall>key. atKey w key (ww_inserted wts) =
        mset (pointsAt wts key) + atKey w key (List.map_filter insertPoint (ww_inserts wts)) + atKey w key (ww_lateSeen wts))"

lemma insertOk_mono: "insertOk w wts x \<Longrightarrow> (\<And>k. ww_windows wts k \<noteq> None \<Longrightarrow> ww_windows wts' k \<noteq> None) \<Longrightarrow> insertOk w wts' x"
  by (cases x) auto

lemma atKey_update:
  assumes "i < length xs"
  shows "atKey w key (List.map_filter insertPoint (xs[i := y])) + atKey w key (case insertPoint (xs ! i) of None \<Rightarrow> [] | Some p \<Rightarrow> [p]) =
    atKey w key (List.map_filter insertPoint xs) + atKey w key (case insertPoint y of None \<Rightarrow> [] | Some p \<Rightarrow> [p])"
proof -
  have s: "mset_set (set_option x) = mset (case x of None \<Rightarrow> [] | Some p \<Rightarrow> [p])" for x :: "'a DataPoint option" by (cases x) auto
  have "filter_mset P (mset (List.map_filter insertPoint (xs[i := y])) + mset_set (set_option (insertPoint (xs ! i)))) =
      filter_mset P (mset (List.map_filter insertPoint xs) + mset_set (set_option (insertPoint y)))" for P
    using map_filter_update [OF assms, of insertPoint y] by simp
  then show ?thesis by (simp only: atKey_def s filter_union_mset)
qed

lemma windowsInv_set:
  assumes inv: "windowsInv F w wts" and i: "i < length (ww_inserts wts)"
    and ins: "ww_inserts wts' = (ww_inserts wts)[i := x]" "ww_inserted wts' = ww_inserted wts"
    and x: "insertOk w wts' x" and keep: "\<And>k. ww_windows wts k \<noteq> None \<Longrightarrow> ww_windows wts' k \<noteq> None"
    and ok: "\<And>key. pred_option (windowOk F w key) (ww_windows wts' key)"
    and same: "\<And>key. mset (pointsAt wts' key) + atKey w key (case insertPoint x of None \<Rightarrow> [] | Some p \<Rightarrow> [p]) + atKey w key (ww_lateSeen wts') =
      mset (pointsAt wts key) + atKey w key (case insertPoint (ww_inserts wts ! i) of None \<Rightarrow> [] | Some p \<Rightarrow> [p]) + atKey w key (ww_lateSeen wts)"
  shows "windowsInv F w wts'"
proof -
  have "list_all (insertOk w wts') ((ww_inserts wts)[i := x])"
    using inv x insertOk_mono [OF _ keep] by (auto simp: windowsInv_def list_all_iff dest!: set_update_subset_insert [THEN subsetD])
  moreover have "atKey w key (ww_inserted wts) =
      mset (pointsAt wts' key) + atKey w key (List.map_filter insertPoint ((ww_inserts wts)[i := x])) + atKey w key (ww_lateSeen wts')" for key
  proof -
    have "atKey w key (ww_inserted wts) = mset (pointsAt wts key) + atKey w key (List.map_filter insertPoint (ww_inserts wts)) + atKey w key (ww_lateSeen wts)"
      using inv by (simp add: windowsInv_def)
    also have "\<dots> = mset (pointsAt wts' key) + atKey w key (List.map_filter insertPoint ((ww_inserts wts)[i := x])) + atKey w key (ww_lateSeen wts')"
      by (rule mset_exchange [OF same [symmetric] atKey_update [OF i, of w key x, symmetric]])
    finally show ?thesis .
  qed
  ultimately show ?thesis using ok by (simp add: windowsInv_def ins)
qed

lemma windowOk_new:
  "0 < w \<Longrightarrow> 1000000000 dvd w \<Longrightarrow> windowOk F w (getWindow t w) (newWindow t w)"
  using truncate_seconds(1) [of w t]
  by (simp add: windowOk_def newWindow_def Let_def orZero_def runningCount_def runningSum_def)

lemma windowOk_add:
  assumes "0 < w" and "1000000000 dvd w" and "windowOk F w (getWindow (dp_Timestamp p) w) W"
  shows "windowOk F w (getWindow (dp_Timestamp p) w) (avgAdd F W p)"
proof -
  have "inWindow W p" using assms(3) truncate_seconds [OF assms(1,2), of "dp_Timestamp p"] by (simp add: windowOk_def inWindow_def)
  moreover have "inWindow (avgAdd F W p) = inWindow W" by (simp add: fun_eq_iff inWindow_def avgAdd_def)
  ultimately show ?thesis using assms(3) by (simp add: windowOk_def avgAdd_def orZero_def runningCount_def runningSum_def)
qed

lemma windowOk_close: "windowOk F w key (closeBefore m W) = windowOk F w key W"
  by (simp add: closeBefore_def windowOk_def inWindow_def [abs_def])

lemma windowsInv_act:
  assumes w: "0 < w" "1000000000 dvd w" and inv: "windowsInv F w wts"
  shows "windowsInv F w (insertAct F i wts)"
proof (cases "i < length (ww_inserts wts)")
  case True
  have ok: "pred_option (windowOk F w key) (ww_windows wts key)" for key using inv by (simp add: windowsInv_def)
  have ins: "insertOk w wts (ww_inserts wts ! i)" using inv True by (auto simp: windowsInv_def list_all_length)
  show ?thesis
  proof (cases "ww_inserts wts ! i")
    case (FindWindow p s)
    then have s: "s = w" using ins by simp
    define wts' where "wts' = insertAct F i wts"
    have wts': "wts' = setInsert i (CheckLate (getWindow (dp_Timestamp p) w) p) (findWindow p w wts)"
      using True FindWindow s by (simp add: insertAct_def wts'_def)
    have win: "ww_windows wts' = (case ww_windows wts (getWindow (dp_Timestamp p) w) of Some _ \<Rightarrow> ww_windows wts
        | None \<Rightarrow> (ww_windows wts)(getWindow (dp_Timestamp p) w \<mapsto> newWindow (dp_Timestamp p) w))"
      by (simp add: wts' setInsert_def findWindow_def Let_def split: option.splits)
    have pts: "pointsAt wts' key = pointsAt wts key" for key
      unfolding pointsAt_def win by (simp add: newWindow_def Let_def split: option.splits)
    show ?thesis unfolding wts'_def [symmetric]
    proof (rule windowsInv_set [OF inv True, of wts' "CheckLate (getWindow (dp_Timestamp p) w) p"])
      show "ww_inserts wts' = (ww_inserts wts)[i := CheckLate (getWindow (dp_Timestamp p) w) p]" "ww_inserted wts' = ww_inserted wts"
        by (simp_all add: wts' setInsert_def findWindow_def Let_def split: option.splits)
      show "insertOk w wts' (CheckLate (getWindow (dp_Timestamp p) w) p)" using win by (auto split: option.splits)
      show "ww_windows wts' k \<noteq> None" if "ww_windows wts k \<noteq> None" for k using that win by (auto split: option.splits)
      show "pred_option (windowOk F w key) (ww_windows wts' key)" for key
        unfolding win using ok windowOk_new [OF w] by (auto split: option.splits)
      have "ww_lateSeen wts' = ww_lateSeen wts" by (simp add: wts' setInsert_def findWindow_def Let_def split: option.splits)
      then show "mset (pointsAt wts' key) + atKey w key (case insertPoint (CheckLate (getWindow (dp_Timestamp p) w) p) of None \<Rightarrow> [] | Some p \<Rightarrow> [p]) + atKey w key (ww_lateSeen wts') =
          mset (pointsAt wts key) + atKey w key (case insertPoint (ww_inserts wts ! i) of None \<Rightarrow> [] | Some p \<Rightarrow> [p]) + atKey w key (ww_lateSeen wts)" for key
        using pts FindWindow by simp
    qed
  next
    case (CheckLate key p)
    show ?thesis
    proof (cases "dp_Timestamp p < ww_watermark wts")
      case late: True
      then show ?thesis
        using True CheckLate ok
        by (intro windowsInv_set [OF inv True, of _ Inserted]) (simp_all add: insertAct_def setInsert_def pointsAt_def atKey_def)
    next
      case False
      then show ?thesis
        using True CheckLate ok ins
        by (intro windowsInv_set [OF inv True, of _ "AddToWindow key p"]) (auto simp: insertAct_def setInsert_def pointsAt_def)
    qed
  next
    case (AddToWindow key p)
    then have key: "key = getWindow (dp_Timestamp p) w" and ex: "ww_windows wts key \<noteq> None" using ins by auto
    then obtain W where W: "ww_windows wts key = Some W" by blast
    have "windowOk F w key (avgAdd F W p)" using windowOk_add [OF w, of F p W] ok [of key] W key by simp
    then show ?thesis
      using True AddToWindow ok W key
      by (intro windowsInv_set [OF inv True, of _ Inserted]) (auto simp: insertAct_def setInsert_def pointsAt_def atKey_def avgAdd_def)
  qed (use True inv in \<open>simp add: insertAct_def\<close>)
qed (use inv in \<open>simp add: insertAct_def\<close>)

fun sizeIs :: "duration \<Rightarrow> 'v WStep \<Rightarrow> bool" where
  "sizeIs w (WInsert point windowSize) \<longleftrightarrow> windowSize = w"
| "sizeIs w _ \<longleftrightarrow> True"

lemma windowsInv_cong:
  assumes "windowsInv F w wts" and "\<And>k. ww_windows wts' k = None \<longleftrightarrow> ww_windows wts k = None"
    and "\<And>k. pred_option (windowOk F w k) (ww_windows wts' k)" and "\<And>k. pointsAt wts' k = pointsAt wts k"
    and "ww_inserts wts' = ww_inserts wts" "ww_inserted wts' = ww_inserted wts" "ww_lateSeen wts' = ww_lateSeen wts"
  shows "windowsInv F w wts'"
proof -
  have "insertOk w wts' x = insertOk w wts x" for x using assms(2) by (cases x) auto
  then show ?thesis using assms by (simp add: windowsInv_def list_all_iff)
qed

lemma windowsInv_step:
  assumes w: "0 < w" "1000000000 dvd w" and inv: "windowsInv F w wts" and e: "sizeIs w e"
  shows "windowsInv F w (wwStep F wts e)"
proof (cases e)
  case (WInsert p s)
  have "insertOk w (wwStep F wts e) x = insertOk w wts x" for x by (cases x) (simp_all add: WInsert)
  then show ?thesis
    using inv e WInsert by (auto simp: windowsInv_def list_all_iff pointsAt_def List.map_filter_simps atKey_def)
next
  case (WAct i)
  then show ?thesis using windowsInv_act [OF w inv] by simp
next
  case (WAdvance now)
  have "pointsAt (advanceWatermark now wts) k = pointsAt wts k" for k
    by (simp add: advanceWatermark_def Let_def pointsAt_def closeBefore_def split: option.splits)
  moreover have "pred_option (windowOk F w k) (ww_windows (advanceWatermark now wts) k)" for k
    using inv by (cases "ww_windows wts k") (auto simp: advanceWatermark_def Let_def windowsInv_def windowOk_close dest: spec [of _ k])
  ultimately show ?thesis using WAdvance by (intro windowsInv_cong [OF inv]) (simp_all add: advanceWatermark_def Let_def)
next
  case (WCleanLate t)
  then show ?thesis using inv by (intro windowsInv_cong [OF inv]) (simp_all add: cleanLate_def pointsAt_def windowsInv_def)
qed

text \<open>The interface that fixes the size of the windows.\<close>

locale fixed_windows =
  fixes w :: duration
  assumes positive: "0 < w" and seconds: "1000000000 dvd w"

sublocale fixed_windows \<subseteq> windows: guarded_object "wwStep F" "windowsInv F w" "\<lambda>_. sizeIs w" for F
  by unfold_locales (rule windowsInv_step [OF positive seconds])

lemma windowsInv_new: "windowsInv F w (newWindowedTimeSeries now)"
  by (simp add: windowsInv_def newWindowedTimeSeries_def pointsAt_def atKey_def)

context fixed_windows
begin

lemma history: "list_all (sizeIs w) es \<Longrightarrow> windowsInv F w (run (wwStep F) (newWindowedTimeSeries now) es)"
  using windows.guarded_run [OF windowsInv_new] by (simp add: admissible_list_all)

end

interpretation minutes: fixed_windows 60000000000
  by unfold_locales simp_all

text \<open> In every interleaving of insertions into windows of a fixed whole number of seconds, of the watermark and of the clean-up: the points inserted for a window are, each once, those in the window, those
  under way and those found late; a window holds points of its interval only; and \<open>Aggregate\<close> returns for a closed window the average of its points, as the floating-point operations give it for them in the order of their
  arrival.\<close>

theorem windows_average_their_points:
  assumes "0 < w" and "1000000000 dvd w" and "list_all (sizeIs w) es"
  shows "let wts = run (wwStep F) (newWindowedTimeSeries now) es
    in atKey w key (ww_inserted wts) =
         mset (pointsAt wts key) + atKey w key (List.map_filter insertPoint (ww_inserts wts)) + atKey w key (ww_lateSeen wts) \<and>
       (case ww_windows wts key of
          None \<Rightarrow> Option.bind (aggregate F ''avg'' wts) (\<lambda>r. r key) = None
        | Some W \<Rightarrow>
            list_all (inWindow W) (wn_Points W) \<and> wn_Start W = key * 1000000000 \<and> wn_End W = wn_Start W + w \<and>
            Option.bind (aggregate F ''avg'' wts) (\<lambda>r. r key) = (if wn_Closed W then Some (average F (wn_Points W)) else None))"
proof -
  define wts where "wts = run (wwStep F) (newWindowedTimeSeries now) es"
  have inv: "windowsInv F w wts" unfolding wts_def using assms by (intro fixed_windows.history fixed_windows.intro)
  have ok: "pred_option (windowOk F w key) (ww_windows wts key)" and
    acc: "atKey w key (ww_inserted wts) = mset (pointsAt wts key) + atKey w key (List.map_filter insertPoint (ww_inserts wts)) + atKey w key (ww_lateSeen wts)"
    using inv by (simp_all add: windowsInv_def)
  show ?thesis
  proof (cases "ww_windows wts key")
    case None
    then show ?thesis unfolding wts_def [symmetric] using acc by (simp add: Let_def aggregate_def)
  next
    case (Some W)
    then have "windowOk F w key W" using ok by simp
    then show ?thesis
      unfolding wts_def [symmetric] using acc Some by (simp add: Let_def aggregate_def windowOk_def avgCompute_def average_def)
  qed
qed

definition intFloats :: "int Floats" where
  "intFloats = \<lparr>fl_zero = 0, fl_isZero = (\<lambda>x. x = 0), fl_one = 1, fl_add = (+), fl_div = (div)\<rparr>"

definition sampleInserts :: "int WStep list" where
  "sampleInserts =
     [WInsert \<lparr>dp_Timestamp = 1000000000, dp_Value = 4\<rparr> 60000000000, WInsert \<lparr>dp_Timestamp = 2000000000, dp_Value = 8\<rparr> 60000000000,
      WAct 0, WAct 1, WAct 1, WAct 0, WAct 0, WAct 1, WAdvance 100000000000]"

theorem windows_average_their_points_witness:
  "let wts = run (wwStep intFloats) (newWindowedTimeSeries 0) sampleInserts
   in list_all (sizeIs 60000000000) sampleInserts \<and> map_option wn_Closed (ww_windows wts 0) = Some True \<and>
      Option.bind (aggregate intFloats ''avg'' wts) (\<lambda>r. r 0) = Some 6 \<and>
      atKey 60000000000 0 (ww_inserted wts) =
        mset (pointsAt wts 0) + atKey 60000000000 0 (List.map_filter insertPoint (ww_inserts wts)) + atKey 60000000000 0 (ww_lateSeen wts)"
proof -
  have l: "list_all (sizeIs 60000000000) sampleInserts" by (simp add: sampleInserts_def)
  have "map_option wn_Closed (ww_windows (run (wwStep intFloats) (newWindowedTimeSeries 0) sampleInserts) 0) = Some True" by code_simp
  moreover have "Option.bind (aggregate intFloats ''avg'' (run (wwStep intFloats) (newWindowedTimeSeries 0) sampleInserts)) (\<lambda>r. r 0) = Some 6" by code_simp
  ultimately show ?thesis using windows_average_their_points [of 60000000000 sampleInserts intFloats 0 0] l by (simp add: Let_def)
qed

section \<open>What the code does not guarantee\<close>

text \<open>The key has a resolution of seconds: windows of half a second share one.\<close>

lemma short_windows_collide:
  "getWindow 0 500000000 = getWindow 500000000 500000000 \<and> goTruncate 500000000 0 \<noteq> goTruncate 500000000 500000000"
  by code_simp

text \<open>Late points with the same timestamp overwrite each other, and what the comment calls reprocessing only deletes them.\<close>

lemma late_data_lost:
  "let wts = run (wwStep intFloats) (newWindowedTimeSeries 100000000000)
     [WInsert \<lparr>dp_Timestamp = 0, dp_Value = 1\<rparr> 60000000000, WInsert \<lparr>dp_Timestamp = 0, dp_Value = 2\<rparr> 60000000000, WAct 0, WAct 0, WAct 1, WAct 1]
   in map dp_Value (ww_lateSeen wts) = [1, 2] \<and> map_option dp_Value (ww_lateData wts 0) = Some 2 \<and> map_option wn_Points (ww_windows wts 0) = Some []"
  by code_simp

text \<open>The watermark can pass between the check and the addition: a closed window still changes.\<close>

lemma closed_window_changes:
  "let es = [WInsert \<lparr>dp_Timestamp = 0, dp_Value = 5\<rparr> 60000000000, WAct 0, WAct 0, WAdvance 100000000000];
       wts = run (wwStep intFloats) (newWindowedTimeSeries 0) es; wts' = run (wwStep intFloats) wts [WAct 0]
   in map_option wn_Closed (ww_windows wts 0) = Some True \<and> map_option (length \<circ> wn_Points) (ww_windows wts 0) = Some 0 \<and>
      map_option (length \<circ> wn_Points) (ww_windows wts' 0) = Some 1"
  by code_simp

end
