(* ===== verification/RateLimiters.thy ===== *)
theory RateLimiters
  imports GoPrelude "HOL-Library.Sublist"
begin

text \<open>
  Limits on what callers may do: the sliding-window limiter and the token channel of \<open>src/solutions/solution04_rate_limiter.go\<close> (solutions 4, 2 and 3), and the counter with a limit, the rate limiter with atomic tokens and the memory guard of
  \<open>src/solutions/solution07_security.go\<close> (solutions 2 and 3).  Operations under a mutex are one step; for atomic variables every access is a step, and callers are goroutines with program points.  \<open>now\<close> is a clock reading.

  Shown: the sliding window never admits more than \<open>rate\<close> requests within a window and refuses only when it must; the token channel never holds more than its capacity and admits at most the initial tokens and the refills; the
  counter hands out the numbers from 1 to its limit, each once and in order, in every interleaving; the memory guard keeps its account within the limit for sizes without overflow.  The rate limiter with atomic tokens can exceed its maximum, which is proved on an example, together with what does
  hold.
\<close>

section \<open>Sliding window\<close>

record SlidingWindowLimiter =
  sw_requests :: "gotime list"
  sw_rate :: int
  sw_window :: duration

definition newSlidingWindowLimiter :: "int \<Rightarrow> duration \<Rightarrow> SlidingWindowLimiter" where
  "newSlidingWindowLimiter rate window = \<lparr>sw_requests = [], sw_rate = rate, sw_window = window\<rparr>"

definition allow :: "gotime \<Rightarrow> SlidingWindowLimiter \<Rightarrow> bool \<times> SlidingWindowLimiter" where
  "allow now swl =
     (let windowStart = now - sw_window swl; valid = filter (\<lambda>req. req > windowStart) (sw_requests swl)
      in if int (length valid) < sw_rate swl then (True, swl\<lparr>sw_requests := valid @ [now]\<rparr>) else (False, swl\<lparr>sw_requests := valid\<rparr>))"

text \<open>\<open>WaitForSlot\<close> calls \<open>Allow\<close> at the given times until it succeeds.\<close>

fun waitForSlot :: "gotime list \<Rightarrow> SlidingWindowLimiter \<Rightarrow> (gotime \<times> SlidingWindowLimiter) option" where
  "waitForSlot [] swl = None"
| "waitForSlot (now # ts) swl = (case allow now swl of (True, swl') \<Rightarrow> Some (now, swl') | (False, swl') \<Rightarrow> waitForSlot ts swl')"

text \<open>The times at which a history of calls was admitted.\<close>

fun admissions :: "gotime list \<Rightarrow> SlidingWindowLimiter \<Rightarrow> gotime list" where
  "admissions [] swl = []"
| "admissions (now # ts) swl = (let (ok, swl') = allow now swl in (if ok then [now] else []) @ admissions ts swl')"

text \<open>The stored requests are the admitted ones of the last window, of which there are at most \<open>rate\<close>; among all admitted requests any two that are \<open>rate\<close> positions apart are at least a window apart.\<close>

definition swOk :: "gotime \<Rightarrow> gotime list \<Rightarrow> SlidingWindowLimiter \<Rightarrow> bool" where
  "swOk now adm swl \<longleftrightarrow>
     sorted adm \<and> (\<forall>t \<in> set adm. t \<le> now) \<and> suffix (sw_requests swl) adm \<and>
     (\<forall>t \<in> set (take (length adm - length (sw_requests swl)) adm). t + sw_window swl \<le> now) \<and>
     (\<forall>i. i + nat (sw_rate swl) < length adm \<longrightarrow> adm ! i + sw_window swl \<le> adm ! (i + nat (sw_rate swl)))"

lemma filter_sorted_suffix: "sorted xs \<Longrightarrow> \<exists>ys. xs = ys @ filter (\<lambda>x. x > c) xs \<and> (\<forall>y \<in> set ys. y \<le> (c :: int))"
proof (induction xs)
  case (Cons x xs)
  show ?case
  proof (cases "x > c")
    case True
    then have "filter (\<lambda>x. x > c) (x # xs) = x # xs" using Cons.prems by (intro filter_True) auto
    then show ?thesis by (intro exI [of _ "[]"]) simp
  next
    case False
    then obtain ys where "xs = ys @ filter (\<lambda>x. x > c) xs" "\<forall>y \<in> set ys. y \<le> c" using Cons by auto
    then show ?thesis using False by (intro exI [of _ "x # ys"]) auto
  qed
qed simp

lemma swOk_trim:
  assumes ok: "swOk t0 adm swl" and now: "t0 \<le> now" and valid: "valid = filter (\<lambda>req. req > now - sw_window swl) (sw_requests swl)"
  shows "swOk now adm (swl\<lparr>sw_requests := valid\<rparr>)"
proof -
  obtain zs where adm: "adm = zs @ sw_requests swl" using ok by (auto simp: swOk_def suffix_def)
  have s: "sorted (sw_requests swl)" using ok adm by (auto simp: swOk_def sorted_append)
  obtain ys where ys: "sw_requests swl = ys @ valid" "\<forall>y \<in> set ys. y \<le> now - sw_window swl"
    using filter_sorted_suffix [OF s, of "now - sw_window swl"] valid by auto
  have "suffix valid adm" using adm ys by (auto simp: suffix_def)
  moreover have "take (length adm - length valid) adm = zs @ ys" using adm ys by simp
  moreover have "\<forall>t \<in> set zs. t + sw_window swl \<le> now" using ok adm now by (auto simp: swOk_def)
  ultimately show ?thesis using ok ys now by (auto simp: swOk_def)
qed

lemma swOk_admit:
  assumes ok: "swOk now adm swl" and room: "int (length (sw_requests swl)) < sw_rate swl"
  shows "swOk now (adm @ [now]) (swl\<lparr>sw_requests := sw_requests swl @ [now]\<rparr>)"
proof -
  obtain zs where adm: "adm = zs @ sw_requests swl" using ok by (auto simp: swOk_def suffix_def)
  have old: "t + sw_window swl \<le> now" if "t \<in> set zs" for t using ok adm that by (auto simp: swOk_def)
  have "(adm @ [now]) ! i + sw_window swl \<le> (adm @ [now]) ! (i + nat (sw_rate swl))" if i: "i + nat (sw_rate swl) < Suc (length adm)" for i
  proof (cases "i + nat (sw_rate swl) < length adm")
    case True
    then show ?thesis using ok by (auto simp: swOk_def nth_append)
  next
    case False
    then have e: "i + nat (sw_rate swl) = length adm" using i by simp
    then have "i < length zs" using adm room by simp
    then have "adm ! i \<in> set zs" using adm by (simp add: nth_append)
    then show ?thesis using old e room by (auto simp: nth_append)
  qed
  moreover have "suffix (sw_requests swl @ [now]) (adm @ [now])" using adm by (auto simp: suffix_def)
  ultimately show ?thesis using ok adm old by (auto simp: swOk_def sorted_append)
qed

lemma admissions_ok:
  "swOk t0 adm swl \<Longrightarrow> sorted (t0 # ts) \<Longrightarrow>
     let all = adm @ admissions ts swl in \<forall>i. i + nat (sw_rate swl) < length all \<longrightarrow> all ! i + sw_window swl \<le> all ! (i + nat (sw_rate swl))"
proof (induction ts arbitrary: t0 adm swl)
  case Nil
  then show ?case by (simp add: swOk_def Let_def)
next
  case (Cons now ts)
  define valid where "valid = filter (\<lambda>req. req > now - sw_window swl) (sw_requests swl)"
  have trim: "swOk now adm (swl\<lparr>sw_requests := valid\<rparr>)" using swOk_trim [OF Cons.prems(1) _ valid_def] Cons.prems(2) by simp
  show ?case
  proof (cases "int (length valid) < sw_rate swl")
    case True
    then have "swOk now (adm @ [now]) (swl\<lparr>sw_requests := valid @ [now]\<rparr>)" using swOk_admit [OF trim] by simp
    from Cons.IH [OF this] show ?thesis using Cons.prems(2) True by (simp add: allow_def Let_def valid_def)
  next
    case False
    from Cons.IH [OF trim] show ?thesis using Cons.prems(2) False by (simp add: allow_def Let_def valid_def)
  qed
qed

text \<open> For a clock that does not go back, among all admitted requests any two that are \<open>rate\<close> positions apart are at least a window apart: no window of the given length contains more than
  \<open>rate\<close> of them.\<close>

theorem sliding_window_limits:
  assumes "sorted ts"
  shows "let adm = admissions ts (newSlidingWindowLimiter rate window)
    in list_all (\<lambda>i. if i + nat rate < length adm then adm ! i + window \<le> adm ! (i + nat rate) else True) [0..<length adm]"
proof -
  obtain t0 where t0: "sorted (t0 # ts)"
    using assms by (cases ts) (auto intro: that [of "hd ts"])
  have "swOk t0 [] (newSlidingWindowLimiter rate window)" by (simp add: swOk_def newSlidingWindowLimiter_def)
  from admissions_ok [OF this t0] show ?thesis by (simp add: Let_def list_all_iff newSlidingWindowLimiter_def)
qed

theorem sliding_window_limits_witness:
  "let ts = [0, 10, 20, 30, 1000, 1005, 1010, 1015]; adm = admissions ts (newSlidingWindowLimiter 3 1000)
   in sorted ts \<and> adm = [0, 10, 20, 1000, 1010] \<and>
      list_all (\<lambda>i. if i + 3 < length adm then adm ! i + 1000 \<le> adm ! (i + 3) else True) [0..<length adm]"
proof -
  have s: "sorted [0, 10, 20, 30, 1000, 1005, 1010, 1015 :: gotime]" by simp
  have "admissions [0, 10, 20, 30, 1000, 1005, 1010, 1015] (newSlidingWindowLimiter 3 1000) = [0, 10, 20, 1000, 1010]" by code_simp
  then show ?thesis using sliding_window_limits [OF s, of 3 1000] by (simp add: Let_def)
qed

text \<open>\<open>WaitForSlot\<close> returns: a call that is repeated until a window after the last request succeeds.\<close>

lemma allow_after_window:
  "0 < sw_rate swl \<Longrightarrow> \<forall>t \<in> set (sw_requests swl). t + sw_window swl \<le> now \<Longrightarrow> fst (allow now swl)"
proof -
  assume "0 < sw_rate swl" and old: "\<forall>t \<in> set (sw_requests swl). t + sw_window swl \<le> now"
  have "filter (\<lambda>req. req > now - sw_window swl) (sw_requests swl) = []" using old by (force simp: filter_empty_conv)
  then show ?thesis using \<open>0 < sw_rate swl\<close> by (simp add: allow_def Let_def)
qed

lemma waitForSlot_returns:
  "0 < sw_rate swl \<Longrightarrow> \<forall>t \<in> set (sw_requests swl). t + sw_window swl \<le> now \<Longrightarrow> waitForSlot (ts @ [now]) swl \<noteq> None"
proof (induction ts arbitrary: swl)
  case Nil
  then show ?case using allow_after_window [of swl now] by (cases "allow now swl") auto
next
  case (Cons t ts)
  obtain ok swl' where a: "allow t swl = (ok, swl')" by fastforce
  then show ?case
    using Cons by (cases ok) (auto simp: allow_def Let_def split: if_splits)
qed

section \<open>Token channel\<close>

text \<open>A channel of capacity \<open>rate\<close>, filled at the start.  The goroutine that adds tokens waits for a tick or the end (\<open>WaitTick\<close>), makes \<open>rate\<close> attempts after a tick (\<open>Filling\<close> with the attempts left), and returns when it takes the
  branch of the closed channel \<open>stop\<close>.  \<open>tk_consumed\<close> and \<open>tk_ticks\<close> count what has happened.  (\<open>make\<close> panics for a negative \<open>rate\<close>.)\<close>

datatype Refiller = WaitTick | Filling nat | RefillerDone

record RateLimiter =
  tk_rate :: nat
  tk_tokens :: nat
  tk_stop :: bool
  tk_refiller :: Refiller
  tk_consumed :: nat
  tk_ticks :: nat

definition newRateLimiter :: "nat \<Rightarrow> RateLimiter" where
  "newRateLimiter rate = \<lparr>tk_rate = rate, tk_tokens = rate, tk_stop = False, tk_refiller = WaitTick, tk_consumed = 0, tk_ticks = 0\<rparr>"

definition refillTick :: "RateLimiter \<Rightarrow> RateLimiter" where
  "refillTick rl = (case tk_refiller rl of WaitTick \<Rightarrow> rl\<lparr>tk_refiller := Filling (tk_rate rl), tk_ticks := Suc (tk_ticks rl)\<rparr> | _ \<Rightarrow> rl)"

definition refillAttempt :: "RateLimiter \<Rightarrow> RateLimiter" where
  "refillAttempt rl =
     (case tk_refiller rl of
        Filling (Suc k) \<Rightarrow> rl\<lparr>tk_tokens := (if tk_tokens rl < tk_rate rl then Suc (tk_tokens rl) else tk_tokens rl), tk_refiller := Filling k\<rparr>
      | Filling 0 \<Rightarrow> rl\<lparr>tk_refiller := WaitTick\<rparr>
      | _ \<Rightarrow> rl)"

definition refillStop :: "RateLimiter \<Rightarrow> RateLimiter" where
  "refillStop rl = (case tk_refiller rl of WaitTick \<Rightarrow> (if tk_stop rl then rl\<lparr>tk_refiller := RefillerDone\<rparr> else rl) | _ \<Rightarrow> rl)"

text \<open>A receive from the empty channel blocks.\<close>

definition takeToken :: "RateLimiter \<Rightarrow> RateLimiter" where
  "takeToken rl = (case tk_tokens rl of 0 \<Rightarrow> rl | Suc n \<Rightarrow> rl\<lparr>tk_tokens := n, tk_consumed := Suc (tk_consumed rl)\<rparr>)"

datatype TKStep = RefillTick | RefillAttempt | RefillStop | TakeToken | CloseStop

fun tkStep :: "RateLimiter \<Rightarrow> TKStep \<Rightarrow> RateLimiter" where
  "tkStep rl RefillTick = refillTick rl"
| "tkStep rl RefillAttempt = refillAttempt rl"
| "tkStep rl RefillStop = refillStop rl"
| "tkStep rl TakeToken = takeToken rl"
| "tkStep rl CloseStop = rl\<lparr>tk_stop := True\<rparr>"

fun attemptsLeft :: "Refiller \<Rightarrow> nat" where
  "attemptsLeft (Filling k) = k"
| "attemptsLeft _ = 0"

definition tkInv :: "nat \<Rightarrow> RateLimiter \<Rightarrow> bool" where
  "tkInv rate rl \<longleftrightarrow> tk_rate rl = rate \<and> tk_tokens rl \<le> rate \<and> tk_consumed rl + tk_tokens rl + attemptsLeft (tk_refiller rl) \<le> rate + rate * tk_ticks rl"

interpretation token_channel: locked_object tkStep "tkInv rate" for rate
proof
  fix rl e
  assume "tkInv rate rl"
  then show "tkInv rate (tkStep rl e)"
    by (cases e) (auto simp: tkInv_def refillTick_def refillAttempt_def refillStop_def takeToken_def split: nat.splits Refiller.splits)
qed

lemma token_channel_limits:
  "let rl = run tkStep (newRateLimiter rate) es in tk_tokens rl \<le> rate \<and> tk_consumed rl \<le> rate * Suc (tk_ticks rl)"
proof -
  have "tkInv rate (newRateLimiter rate)" by (simp add: tkInv_def newRateLimiter_def)
  from token_channel.inv_run [OF this, of es] show ?thesis by (simp add: tkInv_def Let_def)
qed

section \<open>Counter with a limit\<close>

datatype Increment = AddOne | RollBack | Rejected | Granted int

record SecureCounter =
  sc_value :: int
  sc_limit :: int
  sc_callers :: "Increment list"
  sc_granted :: "int list"

definition newSecureCounter :: "int \<Rightarrow> nat \<Rightarrow> SecureCounter" where
  "newSecureCounter limit n = \<lparr>sc_value = 0, sc_limit = limit, sc_callers = replicate n AddOne, sc_granted = []\<rparr>"

definition counterIncrement :: "nat \<Rightarrow> SecureCounter \<Rightarrow> SecureCounter" where
  "counterIncrement i c =
     (if i < length (sc_callers c)
      then (case sc_callers c ! i of
              AddOne \<Rightarrow>
                (let newVal = i64 (sc_value c + 1)
                 in if newVal > sc_limit c then c\<lparr>sc_value := newVal, sc_callers := (sc_callers c)[i := RollBack]\<rparr>
                    else c\<lparr>sc_value := newVal, sc_callers := (sc_callers c)[i := Granted newVal], sc_granted := sc_granted c @ [newVal]\<rparr>)
            | RollBack \<Rightarrow> c\<lparr>sc_value := i64 (sc_value c - 1), sc_callers := (sc_callers c)[i := Rejected]\<rparr>
            | Rejected \<Rightarrow> c
            | Granted v \<Rightarrow> c)
      else c)"

text \<open>The value is the number of grants and of pending roll-backs, of which there are some only when the limit is used up.\<close>

definition rollbacks :: "SecureCounter \<Rightarrow> nat" where
  "rollbacks c = length (filter (\<lambda>p. p = RollBack) (sc_callers c))"

definition scInv :: "int \<Rightarrow> nat \<Rightarrow> SecureCounter \<Rightarrow> bool" where
  "scInv limit n c \<longleftrightarrow>
     sc_limit c = limit \<and> length (sc_callers c) = n \<and> sc_granted c = [1..int (length (sc_granted c))] \<and> int (length (sc_granted c)) \<le> limit \<and>
     sc_value c = int (length (sc_granted c)) + int (rollbacks c) \<and>
     (list_ex (\<lambda>p. p = RollBack \<or> p = Rejected) (sc_callers c) \<longrightarrow> int (length (sc_granted c)) = limit) \<and>
     length (filter (\<lambda>p. \<exists>v. p = Granted v) (sc_callers c)) = length (sc_granted c)"

lemma rollbacks_le: "rollbacks c \<le> length (sc_callers c)"
  by (simp add: rollbacks_def)

lemma list_ex_update_iff: "i < length xs \<Longrightarrow> list_ex P (xs[i := y]) \<Longrightarrow> P y \<or> list_ex P xs"
  by (auto simp: list_ex_iff dest!: set_update_subset_insert [THEN subsetD])

lemma scInv_step:
  assumes inv: "scInv limit n c" and limit: "0 \<le> limit" "limit < 2 ^ 62" "n < 2 ^ 61"
  shows "scInv limit n (counterIncrement i c)"
proof (cases "i < length (sc_callers c)")
  case True
  note upd = length_filter_update [OF True, of "\<lambda>p. p = RollBack"] length_filter_update [OF True, of "\<lambda>p. \<exists>v. p = Granted v"]
  note ex = list_ex_update_iff [OF True, of "\<lambda>p. p = RollBack \<or> p = Rejected"]
  have len: "int (length (sc_granted c)) \<le> limit" "length (sc_callers c) = n" "rollbacks c \<le> n" using inv rollbacks_le [of c] by (simp_all add: scInv_def)
  have val: "sc_value c = int (length (sc_granted c)) + int (rollbacks c)" using inv by (simp add: scInv_def)
  have small: "i64 (sc_value c + 1) = sc_value c + 1" "rollbacks c > 0 \<Longrightarrow> i64 (sc_value c - 1) = sc_value c - 1"
    using val len limit by (auto intro!: i64_id in_i64I)
  show ?thesis
  proof (cases "sc_callers c ! i")
    case AddOne
    show ?thesis
    proof (cases "sc_value c + 1 > limit")
      case over: True
      have "int (length (sc_granted c)) = limit"
      proof (cases "rollbacks c = 0")
        case True
        then show ?thesis using over val len by simp
      next
        case False
        then have "list_ex (\<lambda>p. p = RollBack \<or> p = Rejected) (sc_callers c)" by (auto simp: rollbacks_def list_ex_iff filter_empty_conv)
        then show ?thesis using inv by (simp add: scInv_def)
      qed
      then show ?thesis
        using True AddOne inv over small upd [of RollBack] by (simp add: counterIncrement_def Let_def scInv_def rollbacks_def)
    next
      case False
      have none: "rollbacks c = 0"
      proof (rule ccontr)
        assume "rollbacks c \<noteq> 0"
        then have "list_ex (\<lambda>p. p = RollBack \<or> p = Rejected) (sc_callers c)" by (auto simp: rollbacks_def list_ex_iff filter_empty_conv)
        then have "int (length (sc_granted c)) = limit" using inv by (simp add: scInv_def)
        then show False using False val by simp
      qed
      have "\<not> list_ex (\<lambda>p. p = RollBack \<or> p = Rejected) (sc_callers c)" using inv False val none by (auto simp: scInv_def)
      then have noex: "\<not> list_ex (\<lambda>p. p = RollBack \<or> p = Rejected) ((sc_callers c)[i := Granted (sc_value c + 1)])" using ex by blast
      have "sc_granted c @ [sc_value c + 1] = [1..int (length (sc_granted c @ [sc_value c + 1]))]"
        using inv val none upto_snoc [of "length (sc_granted c)"] by (simp add: scInv_def add.commute)
      then show ?thesis
        using True AddOne inv False small none val noex upd [of "Granted (sc_value c + 1)"]
        by (simp add: counterIncrement_def Let_def scInv_def rollbacks_def add.commute)
    qed
  next
    case RollBack
    then have "RollBack \<in> set (sc_callers c)" using True nth_mem by metis
    then have "list_ex (\<lambda>p. p = RollBack \<or> p = Rejected) (sc_callers c)" and "rollbacks c > 0"
      by (auto simp: list_ex_iff rollbacks_def filter_empty_conv)
    then have full: "int (length (sc_granted c)) = limit" "sc_granted c = [1..limit]" using inv by (auto simp: scInv_def)
    then show ?thesis
      using True RollBack inv small upd [of Rejected] \<open>rollbacks c > 0\<close> by (simp add: counterIncrement_def scInv_def rollbacks_def)
  qed (use True inv in \<open>simp_all add: counterIncrement_def\<close>)
qed (use inv in \<open>simp add: counterIncrement_def\<close>)

interpretation secure_counter: locked_object "\<lambda>c i. counterIncrement i c" "\<lambda>c. 0 \<le> limit \<and> limit < 2 ^ 62 \<and> n < 2 ^ 61 \<and> scInv limit n c" for limit n
  by unfold_locales (use scInv_step in blast)

text \<open> In every interleaving of \<open>n\<close> calls of \<open>counterIncrement\<close>, each made of an atomic increment and, above the limit, an atomic decrement, the numbers that were granted are 1, 2, 3 and so on, each once and in
  the order of the increments, never above the limit; as many callers hold a grant as there are numbers.  A caller is refused only when all numbers up to the limit have been granted, and the value goes back to the number of grants when no roll-back is pending.\<close>

theorem secure_counter_exact:
  assumes "0 \<le> limit" and "limit < 2 ^ 62" and "n < 2 ^ 61"
  shows "let c = run (\<lambda>c i. counterIncrement i c) (newSecureCounter limit n) es; k = int (length (sc_granted c))
    in sc_granted c = [1..k] \<and> k \<le> limit \<and>
       length (filter (\<lambda>p. case p of Granted v \<Rightarrow> True | _ \<Rightarrow> False) (sc_callers c)) = length (sc_granted c) \<and>
       (Rejected \<in> set (sc_callers c) \<longrightarrow> k = limit) \<and> (RollBack \<notin> set (sc_callers c) \<longrightarrow> sc_value c = k)"
proof -
  define c where "c = run (\<lambda>c i. counterIncrement i c) (newSecureCounter limit n) es"
  have "scInv limit n (newSecureCounter limit n)" using assms by (simp add: scInv_def newSecureCounter_def rollbacks_def list_ex_iff)
  from secure_counter.inv_run [of limit n _ es] this assms have inv: "scInv limit n c" by (simp add: c_def)
  have "(\<lambda>p. case p of Granted v \<Rightarrow> True | _ \<Rightarrow> False) = (\<lambda>p. \<exists>v. p = Granted v)" by (auto simp: fun_eq_iff split: Increment.splits)
  moreover have "RollBack \<notin> set (sc_callers c) \<Longrightarrow> rollbacks c = 0" by (auto simp: rollbacks_def filter_empty_conv)
  ultimately show ?thesis using inv unfolding c_def [symmetric] by (auto simp: Let_def scInv_def list_ex_iff)
qed

theorem secure_counter_exact_witness:
  "let c = run (\<lambda>c i. counterIncrement i c) (newSecureCounter 2 4) [0, 1, 2, 3, 2, 3]
   in sc_granted c = [1, 2] \<and> sc_callers c = [Granted 1, Granted 2, Rejected, Rejected] \<and> sc_value c = 2"
proof -
  have c: "sc_callers (run (\<lambda>c i. counterIncrement i c) (newSecureCounter 2 4) [0, 1, 2, 3, 2, 3]) = [Granted 1, Granted 2, Rejected, Rejected]" by code_simp
  define c' where "c' = run (\<lambda>c i. counterIncrement i c) (newSecureCounter 2 4) [0, 1, 2, 3, 2, 3]"
  have "sc_granted c' = [1..int (length (sc_granted c'))]" "int (length (sc_granted c')) = 2" "sc_value c' = 2"
    using secure_counter_exact [of 2 4 "[0, 1, 2, 3, 2, 3]"] c unfolding c'_def [symmetric] by (auto simp: Let_def)
  then have "sc_granted c' = [1..2]" and "sc_value c' = 2" by metis+
  then show ?thesis using c unfolding c'_def [symmetric] by (simp add: Let_def upto.simps)
qed

section \<open>Rate limiter with atomic tokens\<close>

text \<open>A caller loads the tokens, fills them up under \<open>refillMu\<close> when none were left and a second has passed, takes one and gives it back when there was none.  \<open>rl_since\<close> counts the requests granted since the tokens were last filled,
  \<open>rl_late\<close> the callers that then still had a token to give back, and \<open>rl_refills\<close> lists the times of filling.\<close>

datatype Acquire = LoadTokens | CheckRefill | Consume | GiveBack | Refused | Acquired

record SecureRateLimiter =
  rl_tokens :: int
  rl_maxTokens :: int
  rl_lastRefill :: gotime
  rl_callers :: "Acquire list"
  rl_since :: nat
  rl_late :: nat
  rl_refills :: "gotime list"

definition newSecureRateLimiter :: "int \<Rightarrow> gotime \<Rightarrow> nat \<Rightarrow> SecureRateLimiter" where
  "newSecureRateLimiter maxTokens now n =
     \<lparr>rl_tokens = maxTokens, rl_maxTokens = maxTokens, rl_lastRefill = now, rl_callers = replicate n LoadTokens, rl_since = 0, rl_late = 0, rl_refills = [now]\<rparr>"

definition givingBack :: "SecureRateLimiter \<Rightarrow> nat" where
  "givingBack l = length (filter (\<lambda>p. p = GiveBack) (rl_callers l))"

definition second :: duration where
  "second = 1000000000"

definition refillTokens :: "gotime \<Rightarrow> SecureRateLimiter \<Rightarrow> SecureRateLimiter" where
  "refillTokens now l =
     (if now - rl_lastRefill l > second
      then l\<lparr>rl_tokens := rl_maxTokens l, rl_lastRefill := now, rl_since := 0, rl_late := givingBack l, rl_refills := rl_refills l @ [now]\<rparr>
      else l)"

definition limiterTryAcquire :: "SecureRateLimiter \<Rightarrow> nat \<times> gotime \<Rightarrow> SecureRateLimiter" where
  "limiterTryAcquire l e =
     (let (i, now) = e; goto = (\<lambda>l p. l\<lparr>rl_callers := (rl_callers l)[i := p]\<rparr>)
      in if i < length (rl_callers l)
         then (case rl_callers l ! i of
                 LoadTokens \<Rightarrow> goto l (if rl_tokens l \<le> 0 then CheckRefill else Consume)
               | CheckRefill \<Rightarrow> goto (refillTokens now l) Consume
               | Consume \<Rightarrow>
                   (let remaining = i64 (rl_tokens l - 1)
                    in if remaining < 0 then goto (l\<lparr>rl_tokens := remaining\<rparr>) GiveBack
                       else goto (l\<lparr>rl_tokens := remaining, rl_since := Suc (rl_since l)\<rparr>) Acquired)
               | GiveBack \<Rightarrow> goto (l\<lparr>rl_tokens := i64 (rl_tokens l + 1)\<rparr>) Refused
               | Refused \<Rightarrow> l
               | Acquired \<Rightarrow> l)
         else l)"

text \<open>Tokens, grants and pending roll-backs since the last filling add up; fillings are more than a second apart.\<close>

definition rlInv :: "int \<Rightarrow> nat \<Rightarrow> SecureRateLimiter \<Rightarrow> bool" where
  "rlInv maxTokens n l \<longleftrightarrow>
     rl_maxTokens l = maxTokens \<and> length (rl_callers l) = n \<and>
     rl_tokens l + int (rl_since l) + int (givingBack l) = maxTokens + int (rl_late l) \<and> rl_late l \<le> n \<and> int (rl_since l) \<le> maxTokens + int (rl_late l) \<and>
     sorted_wrt (\<lambda>a b. b - a > second) (rl_refills l) \<and> rl_refills l \<noteq> [] \<and> last (rl_refills l) = rl_lastRefill l"

lemma givingBack_le: "givingBack l \<le> length (rl_callers l)"
  by (simp add: givingBack_def)

lemma rlInv_step:
  assumes inv: "rlInv maxTokens n l" and bounds: "0 \<le> maxTokens" "maxTokens < 2 ^ 62" "n < 2 ^ 61"
  shows "rlInv maxTokens n (limiterTryAcquire l (i, now))"
proof (cases "i < length (rl_callers l)")
  case True
  note upd = length_filter_update [OF True, of "\<lambda>p. p = GiveBack"]
  have le: "rl_late l \<le> n" "int (rl_since l) \<le> maxTokens + int (rl_late l)" "givingBack l \<le> n"
    "rl_tokens l = maxTokens + int (rl_late l) - int (rl_since l) - int (givingBack l)"
    using inv givingBack_le [of l] by (simp_all add: rlInv_def)
  have small: "i64 (rl_tokens l - 1) = rl_tokens l - 1" "i64 (rl_tokens l + 1) = rl_tokens l + 1"
    using le bounds by (auto intro!: i64_id simp: in_i64_def)
  show ?thesis
  proof (cases "rl_callers l ! i")
    case CheckRefill
    have gb: "givingBack (refillTokens now l) = givingBack l" "rl_callers (refillTokens now l) = rl_callers l"
      by (simp_all add: givingBack_def refillTokens_def)
    have sorted: "sorted_wrt (\<lambda>a b. b - a > second) (rl_refills l @ [now])" if "now - rl_lastRefill l > second"
    proof -
      have "now - a > second" if "a \<in> set (rl_refills l)" for a
        using that inv \<open>now - rl_lastRefill l > second\<close>
        by (cases "rl_refills l" rule: rev_cases) (auto simp: rlInv_def sorted_wrt_append second_def)
      then show ?thesis using inv by (auto simp: rlInv_def sorted_wrt_append)
    qed
    have "rlInv maxTokens n (refillTokens now l)"
      using inv le(3) sorted bounds by (auto simp: rlInv_def refillTokens_def givingBack_def)
    then show ?thesis
      using True CheckRefill upd [of Consume] gb by (simp add: limiterTryAcquire_def Let_def rlInv_def givingBack_def)
  next
    case Consume
    then show ?thesis
      using True inv small le upd [of GiveBack] upd [of Acquired]
      by (auto simp: limiterTryAcquire_def Let_def rlInv_def givingBack_def)
  next
    case GiveBack
    then have "givingBack l > 0" using True nth_mem [OF True] by (auto simp: givingBack_def filter_empty_conv)
    then show ?thesis
      using True inv small le upd [of Refused] GiveBack by (simp add: limiterTryAcquire_def Let_def rlInv_def givingBack_def)
  qed (use True inv upd [of CheckRefill] upd [of Consume] in \<open>simp_all add: limiterTryAcquire_def Let_def rlInv_def givingBack_def\<close>)
qed (use inv in \<open>simp add: limiterTryAcquire_def Let_def\<close>)

interpretation secure_limiter: locked_object limiterTryAcquire "\<lambda>l. 0 \<le> maxTokens \<and> maxTokens < 2 ^ 62 \<and> n < 2 ^ 61 \<and> rlInv maxTokens n l" for maxTokens n
  by unfold_locales (use rlInv_step in \<open>auto simp: split_paired_all\<close>)

text \<open>What the limiter guarantees: between two fillings, which are more than a second apart, it grants at most \<open>maxTokens\<close> requests and one for every caller that had a token to give back at the time of filling.\<close>

lemma secure_limiter_bound:
  assumes "0 \<le> maxTokens" and "maxTokens < 2 ^ 62" and "n < 2 ^ 61"
  shows "let l = run limiterTryAcquire (newSecureRateLimiter maxTokens now n) es
    in int (rl_since l) \<le> maxTokens + int (rl_late l) \<and> rl_late l \<le> n \<and> sorted_wrt (\<lambda>a b. b - a > second) (rl_refills l)"
proof -
  have "rlInv maxTokens n (newSecureRateLimiter maxTokens now n)" using assms by (simp add: rlInv_def newSecureRateLimiter_def givingBack_def)
  from secure_limiter.inv_run [of maxTokens n _ es] this assms show ?thesis by (simp add: Let_def rlInv_def)
qed

text \<open>The additional grants occur: with two tokens, three callers are granted requests after one filling, because the third had a token to give back when the fourth stored the maximum.\<close>

lemma refill_exceeds_maximum:
  "let soon = 1; later = second + 1; es = [(0, soon), (1, soon), (2, soon), (0, soon), (1, soon), (2, soon), (3, soon), (3, later), (2, later), (3, later), (4, later), (4, later), (5, later), (5, later)];
       l = run limiterTryAcquire (newSecureRateLimiter 2 0 6) es
   in rl_since l = 3 \<and> rl_callers l = [Acquired, Acquired, Refused, Acquired, Acquired, Acquired]"
  by code_simp

section \<open>Memory guard\<close>

text \<open>\<open>make\<close> panics for a size that is negative or above what the machine can address, \<open>maxAlloc\<close>; by then the account has been changed, and the deferred call unlocks the mutex.\<close>

datatype Allocation = Allocated int | LimitExceeded | PanicMake

record MemoryGuard =
  mg_maxAllocation :: int
  mg_current :: int

definition memGuardAllocate :: "int \<Rightarrow> int \<Rightarrow> MemoryGuard \<Rightarrow> Allocation \<times> MemoryGuard" where
  "memGuardAllocate maxAlloc sz g =
     (if i64 (mg_current g + sz) > mg_maxAllocation g then (LimitExceeded, g)
      else let g' = g\<lparr>mg_current := i64 (mg_current g + sz)\<rparr>
           in if sz < 0 \<or> sz > maxAlloc then (PanicMake, g') else (Allocated sz, g'))"

definition memGuardFree :: "int \<Rightarrow> MemoryGuard \<Rightarrow> MemoryGuard" where
  "memGuardFree sz g = g\<lparr>mg_current := i64 (mg_current g - sz)\<rparr>"

text \<open>A history of allocations and of releases of slices that are held: the state is the guard with the sizes held.\<close>

datatype MGStep = Allocate int | Release nat

fun mgStep :: "int \<Rightarrow> MemoryGuard \<times> int list \<Rightarrow> MGStep \<Rightarrow> MemoryGuard \<times> int list" where
  "mgStep maxAlloc (g, held) (Allocate sz) = (case memGuardAllocate maxAlloc sz g of (Allocated k, g') \<Rightarrow> (g', held @ [k]) | (_, g') \<Rightarrow> (g', held))"
| "mgStep maxAlloc (g, held) (Release i) = (if i < length held then (memGuardFree (held ! i) g, take i held @ drop (Suc i) held) else (g, held))"

fun mgOk :: "int \<Rightarrow> MemoryGuard \<times> int list \<Rightarrow> MGStep \<Rightarrow> bool" where
  "mgOk maxAlloc s (Allocate sz) \<longleftrightarrow> 0 \<le> sz \<and> sz \<le> maxAlloc \<and> sz < 2 ^ 62"
| "mgOk maxAlloc s (Release i) \<longleftrightarrow> True"

definition mgInv :: "int \<Rightarrow> MemoryGuard \<times> int list \<Rightarrow> bool" where
  "mgInv limit s \<longleftrightarrow>
     0 \<le> limit \<and> limit < 2 ^ 62 \<and> mg_maxAllocation (fst s) = limit \<and> mg_current (fst s) = sum_list (snd s) \<and> list_all (\<lambda>k. 0 \<le> k) (snd s) \<and> sum_list (snd s) \<le> limit"

lemma sum_list_remove_nth: "i < length xs \<Longrightarrow> sum_list (take i xs) + sum_list (drop (Suc i) xs) = sum_list xs - (xs ! i :: int)"
  using arg_cong [OF id_take_nth_drop [of i xs], of sum_list] by simp

interpretation memory_guard: guarded_object "mgStep maxAlloc" "mgInv limit" "mgOk maxAlloc" for maxAlloc limit
proof
  fix s :: "MemoryGuard \<times> int list" and e
  assume inv: "mgInv limit s" and ok: "mgOk maxAlloc s e"
  obtain g held where s: "s = (g, held)" by fastforce
  have nonneg: "0 \<le> sum_list held" using inv s by (auto simp: mgInv_def list_all_iff intro: sum_list_nonneg)
  show "mgInv limit (mgStep maxAlloc s e)"
  proof (cases e)
    case (Allocate sz)
    then have "i64 (mg_current g + sz) = mg_current g + sz" using inv ok s nonneg by (auto simp: mgInv_def intro!: i64_id)
    then show ?thesis using inv ok s Allocate by (auto simp: mgInv_def memGuardAllocate_def Let_def)
  next
    case (Release i)
    show ?thesis
    proof (cases "i < length held")
      case True
      have "0 \<le> sum_list (take i held)" "0 \<le> sum_list (drop (Suc i) held)" "0 \<le> held ! i"
        using inv s True by (auto simp: mgInv_def list_all_iff intro!: sum_list_nonneg dest!: in_set_takeD in_set_dropD)
      moreover note sum_list_remove_nth [OF True]
      moreover have "list_all (\<lambda>k. 0 \<le> k) (take i held @ drop (Suc i) held)"
        using inv s by (auto simp: mgInv_def list_all_iff dest!: in_set_takeD in_set_dropD)
      ultimately show ?thesis using inv s Release True by (auto simp: mgInv_def memGuardFree_def intro!: i64_id)
    qed (use inv s Release in simp)
  qed
qed

text \<open>The account is the sum of the sizes held and within the limit.\<close>

lemma memory_guard_accounts:
  assumes "0 \<le> limit" and "limit < 2 ^ 62"
    and "admissible (mgStep maxAlloc) (mgOk maxAlloc) (\<lparr>mg_maxAllocation = limit, mg_current = 0\<rparr>, []) es"
  shows "case run (mgStep maxAlloc) (\<lparr>mg_maxAllocation = limit, mg_current = 0\<rparr>, []) es of (g, held) \<Rightarrow> mg_current g = sum_list held \<and> sum_list held \<le> limit"
  using memory_guard.guarded_run [OF _ assms(3), of limit] assms(1,2) by (auto simp: mgInv_def split: prod.splits)

text \<open>For a size near the top of the machine integers the sum wraps around: the request passes the check and, although \<open>make\<close> then panics, the account has become negative, so that a later request for twice the limit is granted.\<close>

lemma huge_request_passes_guard:
  "let g = \<lparr>mg_maxAllocation = 104857600, mg_current = 1\<rparr>; (r, g') = memGuardAllocate (2 ^ 48) (2 ^ 63 - 1) g; (r', g'') = memGuardAllocate (2 ^ 48) 209715200 g'
   in r = PanicMake \<and> mg_current g' = - (2 ^ 63) \<and> r' = Allocated 209715200"
  by (simp add: memGuardAllocate_def i64_def)

end
