(* ===== verification/ResourcePools.thy ===== *)
theory ResourcePools
  imports GoPrelude
begin

text \<open>
  Pools of shared resources: the connection pool and the pool of files of \<open>src/solutions/solution06_resource_leak.go\<close> (solutions 3 and 2) and the pool of workers of \<open>src/solutions/solution07_security.go\<close> (solution 3).

  \<^item> In the connection pool \<open>poolGet\<close> and \<open>poolCleanupIdle\<close> hold the read lock of the pool only, so that the mutex of each connection is the unit of interleaving: looking at one connection is a step.  A caller
    is a goroutine of the demonstration: it gets a connection, uses it and puts it back.
  \<^item> In the pool of workers every atomic access and every channel operation is a step.
  \<^item> The pool of files holds its mutex throughout.  The entry that an iteration over a Go map meets first is an input, and so is what \<open>os.CreateTemp\<close> returns.

  Shown: no connection is held by two callers, a connection is marked as in use exactly while a caller holds it, and the cleaning of idle connections does not change that; the workers run every accepted task once, and the count of tasks
  stays below the limit, whose check therefore never refuses; the pool of files never keeps more than its maximum.  Examples show what the pools do not guarantee.
\<close>

section \<open>Connection pool\<close>

record DBConnection =
  InUse :: bool
  LastUsed :: gotime

datatype PoolCaller = Scanning nat | Holding nat | Returned | NoConnection

text \<open>\<open>cp_cleaner\<close> is a run of \<open>poolCleanupIdle\<close>: the clock reading it began with and the next connection it looks at.\<close>

record ConnectionPool =
  connections :: "DBConnection list"
  maxIdleTime :: duration
  cp_callers :: "PoolCaller list"
  cp_cleaner :: "(gotime \<times> nat) option"

definition poolInit :: "nat \<Rightarrow> duration \<Rightarrow> gotime \<Rightarrow> nat \<Rightarrow> ConnectionPool" where
  "poolInit maxConn idle now n =
     \<lparr>connections = replicate maxConn \<lparr>InUse = False, LastUsed = now\<rparr>, maxIdleTime = idle, cp_callers = replicate n (Scanning 0), cp_cleaner = None\<rparr>"

text \<open>One step of \<open>poolGet\<close> for the caller \<open>i\<close>: it locks the connection it is at.\<close>

definition poolGet :: "nat \<Rightarrow> gotime \<Rightarrow> ConnectionPool \<Rightarrow> ConnectionPool" where
  "poolGet i now p =
     (if i < length (cp_callers p)
      then (case cp_callers p ! i of
              Scanning k \<Rightarrow>
                (if k < length (connections p)
                 then if \<not> InUse (connections p ! k)
                      then p\<lparr>connections := (connections p)[k := \<lparr>InUse = True, LastUsed = now\<rparr>], cp_callers := (cp_callers p)[i := Holding k]\<rparr>
                      else p\<lparr>cp_callers := (cp_callers p)[i := Scanning (Suc k)]\<rparr>
                 else p\<lparr>cp_callers := (cp_callers p)[i := NoConnection]\<rparr>)
            | _ \<Rightarrow> p)
      else p)"

definition poolPut :: "nat \<Rightarrow> gotime \<Rightarrow> ConnectionPool \<Rightarrow> ConnectionPool" where
  "poolPut i now p =
     (if i < length (cp_callers p)
      then (case cp_callers p ! i of
              Holding k \<Rightarrow> p\<lparr>connections := (connections p)[k := \<lparr>InUse = False, LastUsed = now\<rparr>], cp_callers := (cp_callers p)[i := Returned]\<rparr>
            | _ \<Rightarrow> p)
      else p)"

definition poolCleanupIdle :: "gotime \<Rightarrow> ConnectionPool \<Rightarrow> ConnectionPool" where
  "poolCleanupIdle now p =
     (case cp_cleaner p of
        None \<Rightarrow> p\<lparr>cp_cleaner := Some (now, 0)\<rparr>
      | Some (started, k) \<Rightarrow>
          (if k < length (connections p)
           then p\<lparr>connections := (if \<not> InUse (connections p ! k) \<and> started - LastUsed (connections p ! k) > maxIdleTime p
                                  then (connections p)[k := (connections p ! k)\<lparr>LastUsed := started\<rparr>] else connections p),
                  cp_cleaner := Some (started, Suc k)\<rparr>
           else p\<lparr>cp_cleaner := None\<rparr>))"

text \<open>\<open>poolStats\<close> reads \<open>InUse\<close> without the mutex of the connection; the model gives the numbers it prints when no other step comes between.\<close>

definition poolStats :: "ConnectionPool \<Rightarrow> nat \<times> nat" where
  "poolStats p = (let inUse = length (filter InUse (connections p)) in (inUse, length (connections p) - inUse))"

datatype CPStep = Get nat gotime | Put nat gotime | Cleanup gotime

fun cpStep :: "ConnectionPool \<Rightarrow> CPStep \<Rightarrow> ConnectionPool" where
  "cpStep p (Get i now) = poolGet i now p"
| "cpStep p (Put i now) = poolPut i now p"
| "cpStep p (Cleanup now) = poolCleanupIdle now p"

text \<open>A connection is in use exactly when one caller holds it, and no caller holds what is not there.\<close>

definition holders :: "nat \<Rightarrow> PoolCaller list \<Rightarrow> nat" where
  "holders k cs = length (filter (\<lambda>c. c = Holding k) cs)"

definition cpInv :: "nat \<Rightarrow> nat \<Rightarrow> ConnectionPool \<Rightarrow> bool" where
  "cpInv maxConn n p \<longleftrightarrow>
     length (connections p) = maxConn \<and> length (cp_callers p) = n \<and>
     (\<forall>k. holders k (cp_callers p) = (if k < maxConn \<and> InUse (connections p ! k) then 1 else 0))"

lemma holders_move:
  "i < length cs \<Longrightarrow> holders k (cs[i := c]) + (if cs ! i = Holding k then 1 else 0) = holders k cs + (if c = Holding k then 1 else 0)"
  unfolding holders_def using length_filter_update [of i cs "\<lambda>c. c = Holding k" c] by (auto split: if_splits)

lemma cpInv_get:
  assumes inv: "cpInv maxConn n p"
  shows "cpInv maxConn n (poolGet i now p)"
proof (cases "i < length (cp_callers p)")
  case True
  note move = holders_move [OF True]
  show ?thesis
  proof (cases "cp_callers p ! i")
    case (Scanning k)
    have "holders k' ((cp_callers p)[i := Scanning j]) = holders k' (cp_callers p)" "holders k' ((cp_callers p)[i := NoConnection]) = holders k' (cp_callers p)"
      "holders k' ((cp_callers p)[i := Holding k]) = holders k' (cp_callers p) + (if k' = k then 1 else 0)" for k' j
      using move [of k' "Scanning j"] move [of k' NoConnection] move [of k' "Holding k"] Scanning by (auto split: if_splits)
    then show ?thesis
      using True Scanning inv by (auto simp: poolGet_def cpInv_def nth_list_update)
  qed (use True inv in \<open>simp_all add: poolGet_def\<close>)
qed (use inv in \<open>simp add: poolGet_def\<close>)

lemma cpInv_put:
  assumes inv: "cpInv maxConn n p"
  shows "cpInv maxConn n (poolPut i now p)"
proof (cases "i < length (cp_callers p)")
  case True
  show ?thesis
  proof (cases "cp_callers p ! i")
    case (Holding k)
    have "holders k (cp_callers p) > 0" using Holding nth_mem [OF True] by (auto simp: holders_def filter_empty_conv)
    then have k: "k < maxConn" "InUse (connections p ! k)" "holders k (cp_callers p) = 1" using inv by (auto simp: cpInv_def split: if_splits)
    have "holders k' ((cp_callers p)[i := Returned]) = (if k' = k then 0 else holders k' (cp_callers p))" for k'
      using holders_move [OF True, of k' Returned] Holding k(3) by (auto split: if_splits)
    then show ?thesis
      using True Holding inv k by (auto simp: poolPut_def cpInv_def nth_list_update)
  qed (use True inv in \<open>simp_all add: poolPut_def\<close>)
qed (use inv in \<open>simp add: poolPut_def\<close>)

lemma cpInv_cleanup: "cpInv maxConn n p \<Longrightarrow> cpInv maxConn n (poolCleanupIdle now p)"
  by (auto simp: poolCleanupIdle_def cpInv_def nth_list_update split: option.splits)

interpretation connection_pool: locked_object cpStep "cpInv maxConn n" for maxConn n
proof
  fix p e
  assume "cpInv maxConn n p"
  then show "cpInv maxConn n (cpStep p e)" by (cases e) (auto intro: cpInv_get cpInv_put cpInv_cleanup)
qed

lemma cpInv_init: "cpInv maxConn n (poolInit maxConn idle now n)"
  by (auto simp: cpInv_def poolInit_def holders_def)

lemma one_position:
  assumes "length (filter P xs) \<le> 1" and "i < length xs" "j < length xs" "P (xs ! i)" "P (xs ! j)"
  shows "i = j"
proof (rule ccontr)
  assume "i \<noteq> j"
  then have "card {i, j} = 2" by simp
  moreover have "{i, j} \<subseteq> {k. k < length xs \<and> P (xs ! k)}" using assms by auto
  then have "card {i, j} \<le> length (filter P xs)" unfolding length_filter_conv_card by (rule card_mono [rotated]) simp
  ultimately show False using assms(1) by simp
qed

lemma length_filter_sum: "length (filter P xs) = (\<Sum>k < length xs. if P (xs ! k) then 1 else 0)"
  unfolding length_filter_conv_card card_eq_sum using sum.inter_filter [of "{..<length xs}" "\<lambda>_. 1 :: nat" "\<lambda>k. P (xs ! k)"] by simp

lemma sum_holders:
  "\<forall>k. Holding k \<in> set cs \<longrightarrow> k < m \<Longrightarrow> (\<Sum>k < m. holders k cs) = length (filter (\<lambda>c. case c of Holding k \<Rightarrow> True | _ \<Rightarrow> False) cs)"
proof (induction cs)
  case (Cons c cs)
  have "holders k (c # cs) = (if c = Holding k then 1 else 0) + holders k cs" for k by (simp add: holders_def)
  then have "(\<Sum>k < m. holders k (c # cs)) = (\<Sum>k < m. if c = Holding k then 1 else 0) + (\<Sum>k < m. holders k cs)" by (simp add: sum.distrib)
  moreover have "(\<Sum>k < m. if c = Holding k then 1 else 0) = (case c of Holding k \<Rightarrow> 1 | _ \<Rightarrow> 0)"
    using Cons.prems by (cases c) auto
  ultimately show ?case using Cons by (cases c) auto
qed (simp add: holders_def)

lemma holders_pos: "0 < holders k cs \<longleftrightarrow> Holding k \<in> set cs"
  by (auto simp: holders_def filter_empty_conv)

text \<open> In every interleaving of the steps of \<open>poolGet\<close>, \<open>poolPut\<close> and \<open>poolCleanupIdle\<close> no connection is held by two callers, a connection is in use exactly when a caller holds it, and the number in use that
  \<open>poolStats\<close> counts is the number of callers that hold one.  In particular, once every caller has returned its connection or was refused, all connections are idle.\<close>

theorem connection_pool_exclusive:
  "let p = run cpStep (poolInit maxConn idle now n) es
   in (\<forall>i j k. i < n \<and> j < n \<and> cp_callers p ! i = Holding k \<and> cp_callers p ! j = Holding k \<longrightarrow> i = j) \<and>
      (\<forall>k. k < maxConn \<and> InUse (connections p ! k) \<longleftrightarrow> Holding k \<in> set (cp_callers p)) \<and>
      fst (poolStats p) = length (filter (\<lambda>c. case c of Holding k \<Rightarrow> True | _ \<Rightarrow> False) (cp_callers p))"
proof -
  define p where "p = run cpStep (poolInit maxConn idle now n) es"
  have inv: "cpInv maxConn n p" using connection_pool.inv_run [OF cpInv_init] by (simp add: p_def)
  then have h: "holders k (cp_callers p) = (if k < maxConn \<and> InUse (connections p ! k) then 1 else 0)" for k by (simp add: cpInv_def)
  have len: "length (connections p) = maxConn" "length (cp_callers p) = n" using inv by (simp_all add: cpInv_def)
  show ?thesis unfolding p_def [symmetric] Let_def
  proof (intro conjI allI impI)
    fix i j k
    assume "i < n \<and> j < n \<and> cp_callers p ! i = Holding k \<and> cp_callers p ! j = Holding k"
    then show "i = j" using one_position [of "\<lambda>c. c = Holding k" "cp_callers p" i j] h [of k] len by (auto simp: holders_def split: if_splits)
  next
    fix k
    show "(k < maxConn \<and> InUse (connections p ! k)) = (Holding k \<in> set (cp_callers p))"
      using h [of k] by (simp flip: holders_pos)
  next
    have "length (filter InUse (connections p)) = (\<Sum>k < maxConn. holders k (cp_callers p))"
      unfolding length_filter_sum len by (intro sum.cong) (auto simp: h)
    also have "\<dots> = length (filter (\<lambda>c. case c of Holding k \<Rightarrow> True | _ \<Rightarrow> False) (cp_callers p))"
      using sum_holders [of "cp_callers p" maxConn] h by (simp flip: holders_pos)
    finally show "fst (poolStats p) = length (filter (\<lambda>c. case c of Holding k \<Rightarrow> True | _ \<Rightarrow> False) (cp_callers p))"
      by (simp add: poolStats_def Let_def)
  qed
qed

theorem connection_pool_exclusive_witness:
  "let p = run cpStep (poolInit 2 30 0 3) [Get 0 1, Get 1 1, Get 1 2, Get 2 2, Cleanup 40, Cleanup 40, Put 0 41, Get 2 42]
   in cp_callers p = [Returned, Holding 1, Scanning 2] \<and> fst (poolStats p) = 1 \<and> InUse (connections p ! 1)"
proof -
  define es where "es = [Get 0 1, Get 1 1, Get 1 2, Get 2 2, Cleanup 40, Cleanup 40, Put 0 41, Get 2 42]"
  define p where "p = run cpStep (poolInit 2 30 0 3) es"
  have c: "cp_callers p = [Returned, Holding 1, Scanning 2]" unfolding p_def es_def by code_simp
  have "(\<forall>k. k < 2 \<and> InUse (connections p ! k) \<longleftrightarrow> Holding k \<in> set (cp_callers p)) \<and>
      fst (poolStats p) = length (filter (\<lambda>c. case c of Holding k \<Rightarrow> True | _ \<Rightarrow> False) (cp_callers p))"
    using connection_pool_exclusive [of 2 30 0 3 es] unfolding p_def [symmetric] Let_def by blast
  then have "fst (poolStats p) = 1" and "InUse (connections p ! 1)" using c by auto
  then show ?thesis using c unfolding es_def [symmetric] p_def [symmetric] by (simp add: Let_def)
qed

text \<open>A caller can be refused although one of the two connections was free at every moment: it finds the first in use, which is then put back before another caller takes the second.\<close>

lemma refused_although_free:
  "let es = [Get 0 1, Get 1 1, Get 2 1, Put 0 2, Get 2 3, Get 1 4, Get 1 4]; after = (\<lambda>m. run cpStep (poolInit 2 30 0 3) (take m es))
   in cp_callers (after 7) ! 1 = NoConnection \<and> list_all (\<lambda>m. list_ex (\<lambda>c. \<not> InUse c) (connections (after m))) [0..<8]"
  by code_simp

section \<open>Pool of workers\<close>

datatype Submitter = CheckCount | SendTask | CountTask | Accepted | TooMany | QueueFull

datatype PoolWorker = Receiving | TakeSlot nat | RunTask nat | GiveSlot nat | CountDown nat

text \<open>Submitter \<open>i\<close> submits the task \<open>i\<close>.  \<open>wp_done\<close> lists the tasks in the order in which they were run.\<close>

record SecureWorkerPool =
  wp_slots :: nat
  wp_capSlots :: nat
  wp_tasks :: "nat list"
  wp_capTasks :: nat
  wp_taskCount :: int
  wp_maxTasks :: int
  wp_submitters :: "Submitter list"
  wp_workers :: "PoolWorker list"
  wp_done :: "nat list"

definition newSecureWorkerPool :: "nat \<Rightarrow> nat \<Rightarrow> int \<Rightarrow> nat \<Rightarrow> SecureWorkerPool" where
  "newSecureWorkerPool nw q maxTasks n =
     \<lparr>wp_slots = 0, wp_capSlots = nw, wp_tasks = [], wp_capTasks = q, wp_taskCount = 0, wp_maxTasks = maxTasks,
      wp_submitters = replicate n CheckCount, wp_workers = replicate nw Receiving, wp_done = []\<rparr>"

text \<open>A step of \<open>poolSubmit\<close>; the flag says whether the timer fired, which matters only while the task waits for room in the queue.\<close>

definition poolSubmit :: "nat \<Rightarrow> bool \<Rightarrow> SecureWorkerPool \<Rightarrow> SecureWorkerPool" where
  "poolSubmit i timedOut p =
     (let goto = (\<lambda>p c. p\<lparr>wp_submitters := (wp_submitters p)[i := c]\<rparr>)
      in if i < length (wp_submitters p)
         then (case wp_submitters p ! i of
                 CheckCount \<Rightarrow> goto p (if wp_taskCount p \<ge> wp_maxTasks p then TooMany else SendTask)
               | SendTask \<Rightarrow>
                   (if timedOut then goto p QueueFull
                    else if length (wp_tasks p) < wp_capTasks p then goto (p\<lparr>wp_tasks := wp_tasks p @ [i]\<rparr>) CountTask
                    else p)
               | CountTask \<Rightarrow> goto (p\<lparr>wp_taskCount := i64 (wp_taskCount p + 1)\<rparr>) Accepted
               | _ \<Rightarrow> p)
         else p)"

definition workerTurn :: "nat \<Rightarrow> SecureWorkerPool \<Rightarrow> SecureWorkerPool" where
  "workerTurn j p =
     (let goto = (\<lambda>p w. p\<lparr>wp_workers := (wp_workers p)[j := w]\<rparr>)
      in if j < length (wp_workers p)
         then (case wp_workers p ! j of
                 Receiving \<Rightarrow> (case wp_tasks p of [] \<Rightarrow> p | t # ts \<Rightarrow> goto (p\<lparr>wp_tasks := ts\<rparr>) (TakeSlot t))
               | TakeSlot t \<Rightarrow> (if wp_slots p < wp_capSlots p then goto (p\<lparr>wp_slots := Suc (wp_slots p)\<rparr>) (RunTask t) else p)
               | RunTask t \<Rightarrow> goto (p\<lparr>wp_done := wp_done p @ [t]\<rparr>) (GiveSlot t)
               | GiveSlot t \<Rightarrow> (if wp_slots p > 0 then goto (p\<lparr>wp_slots := wp_slots p - 1\<rparr>) (CountDown t) else p)
               | CountDown t \<Rightarrow> goto (p\<lparr>wp_taskCount := i64 (wp_taskCount p - 1)\<rparr>) Receiving)
         else p)"

datatype WPStep = Submit nat bool | Worker nat

fun wpStep :: "SecureWorkerPool \<Rightarrow> WPStep \<Rightarrow> SecureWorkerPool" where
  "wpStep p (Submit i timedOut) = poolSubmit i timedOut p"
| "wpStep p (Worker j) = workerTurn j p"

text \<open>The count lags behind the tasks that are queued or with a worker by the submitters that have not counted yet; the slots are those of the workers that hold one; every task is where its submitter says.\<close>

fun taskBefore :: "PoolWorker \<Rightarrow> nat list" where
  "taskBefore (TakeSlot t) = [t]"
| "taskBefore (RunTask t) = [t]"
| "taskBefore _ = []"

definition busy :: "SecureWorkerPool \<Rightarrow> nat" where
  "busy p = length (filter (\<lambda>w. w \<noteq> Receiving) (wp_workers p))"

definition slotted :: "SecureWorkerPool \<Rightarrow> nat" where
  "slotted p = length (filter (\<lambda>w. case w of RunTask t \<Rightarrow> True | GiveSlot t \<Rightarrow> True | _ \<Rightarrow> False) (wp_workers p))"

definition uncounted :: "SecureWorkerPool \<Rightarrow> nat" where
  "uncounted p = length (filter (\<lambda>c. c = CountTask) (wp_submitters p))"

definition located :: "SecureWorkerPool \<Rightarrow> nat list" where
  "located p = wp_tasks p @ concat (map taskBefore (wp_workers p)) @ wp_done p"

definition taken :: "Submitter \<Rightarrow> bool" where
  "taken c \<longleftrightarrow> c = CountTask \<or> c = Accepted"

definition wpFixed :: "nat \<Rightarrow> nat \<Rightarrow> int \<Rightarrow> nat \<Rightarrow> SecureWorkerPool \<Rightarrow> bool" where
  "wpFixed nw q maxTasks n p \<longleftrightarrow>
     wp_capSlots p = nw \<and> wp_capTasks p = q \<and> wp_maxTasks p = maxTasks \<and> length (wp_submitters p) = n \<and> length (wp_workers p) = nw \<and> length (wp_tasks p) \<le> q"

definition wpCounts :: "SecureWorkerPool \<Rightarrow> bool" where
  "wpCounts p \<longleftrightarrow> wp_taskCount p + int (uncounted p) = int (length (wp_tasks p)) + int (busy p) \<and> wp_slots p = slotted p \<and> TooMany \<notin> set (wp_submitters p)"

definition wpTasks :: "SecureWorkerPool \<Rightarrow> bool" where
  "wpTasks p \<longleftrightarrow> distinct (located p) \<and> (\<forall>t. t \<in> set (located p) \<longleftrightarrow> t < length (wp_submitters p) \<and> taken (wp_submitters p ! t))"

definition wpInv :: "nat \<Rightarrow> nat \<Rightarrow> int \<Rightarrow> nat \<Rightarrow> SecureWorkerPool \<Rightarrow> bool" where
  "wpInv nw q maxTasks n p \<longleftrightarrow> wpFixed nw q maxTasks n p \<and> wpCounts p \<and> wpTasks p"

definition wpSizes :: "nat \<Rightarrow> nat \<Rightarrow> int \<Rightarrow> nat \<Rightarrow> bool" where
  "wpSizes nw q maxTasks n \<longleftrightarrow> int (q + nw) < maxTasks \<and> q + nw < 2 ^ 61 \<and> n < 2 ^ 61"

lemma mset_concat_update:
  "j < length ws \<Longrightarrow> mset (concat (map f (ws[j := w]))) + mset (f (ws ! j)) = mset (concat (map f ws)) + mset (f w)"
proof -
  assume "j < length ws"
  then have "concat (map f ws) = concat (map f (take j ws)) @ f (ws ! j) @ concat (map f (drop (Suc j) ws))"
    using arg_cong [OF id_take_nth_drop [of j ws], of "\<lambda>xs. concat (map f xs)"] by simp
  then show ?thesis using \<open>j < length ws\<close> by (simp add: upd_conv_take_nth_drop)
qed

lemma wpTasks_same:
  "wpTasks p \<Longrightarrow> mset (located p') = mset (located p) \<Longrightarrow> map taken (wp_submitters p') = map taken (wp_submitters p) \<Longrightarrow> wpTasks p'"
proof -
  assume inv: "wpTasks p" and loc: "mset (located p') = mset (located p)" and sub: "map taken (wp_submitters p') = map taken (wp_submitters p)"
  have len: "length (wp_submitters p') = length (wp_submitters p)" using arg_cong [OF sub, of length] by simp
  have "taken (wp_submitters p' ! t) = taken (wp_submitters p ! t)" if "t < length (wp_submitters p)" for t
    using arg_cong [OF sub, of "\<lambda>xs. xs ! t"] that len by simp
  then show ?thesis
    using inv len mset_eq_setD [OF loc] mset_eq_imp_distinct_iff [OF loc] by (auto simp: wpTasks_def)
qed

lemma map_taken_update: "i < length cs \<Longrightarrow> taken c = taken (cs ! i) \<Longrightarrow> map taken (cs[i := c]) = map taken cs"
  by (simp add: map_update list_update_same_conv)

lemma busy_le: "busy p \<le> length (wp_workers p)" "uncounted p \<le> length (wp_submitters p)"
  by (simp_all add: busy_def uncounted_def)

lemma wpInv_submit:
  assumes inv: "wpInv nw q maxTasks n p" and sizes: "wpSizes nw q maxTasks n"
  shows "wpInv nw q maxTasks n (poolSubmit i timedOut p)"
proof (cases "i < length (wp_submitters p)")
  case True
  have fixed: "wpFixed nw q maxTasks n p" and counts: "wpCounts p" and tasks: "wpTasks p" using inv by (simp_all add: wpInv_def)
  have upd: "length (filter (\<lambda>c. c = CountTask) ((wp_submitters p)[i := c])) + (if wp_submitters p ! i = CountTask then 1 else 0) = uncounted p + (if c = CountTask then 1 else 0)" for c
    unfolding uncounted_def using length_filter_update [OF True, of "\<lambda>c. c = CountTask" c] by (auto split: if_splits)
  have le: "wp_taskCount p \<le> int (q + nw)" "- int n \<le> wp_taskCount p"
    using counts fixed busy_le [of p] by (auto simp: wpCounts_def wpFixed_def)
  have too: "TooMany \<notin> set ((wp_submitters p)[i := c])" if "c \<noteq> TooMany" for c
    using counts that by (auto simp: wpCounts_def dest!: set_update_subset_insert [THEN subsetD])
  note defs = poolSubmit_def Let_def wpInv_def wpFixed_def wpCounts_def uncounted_def busy_def slotted_def
  show ?thesis
  proof (cases "wp_submitters p ! i")
    case CheckCount
    have "wpTasks (p\<lparr>wp_submitters := (wp_submitters p)[i := SendTask]\<rparr>)"
      by (rule wpTasks_same [OF tasks]) (use CheckCount True in \<open>simp_all add: located_def map_taken_update taken_def\<close>)
    then show ?thesis
      using True CheckCount fixed counts le sizes upd [of SendTask] too [of SendTask] by (simp add: defs wpSizes_def)
  next
    case SendTask
    have q: "wpTasks (p\<lparr>wp_submitters := (wp_submitters p)[i := QueueFull]\<rparr>)"
      by (rule wpTasks_same [OF tasks]) (use SendTask True in \<open>simp_all add: located_def map_taken_update taken_def\<close>)
    have "i \<notin> set (located p)" using tasks SendTask by (auto simp: wpTasks_def taken_def)
    then have s: "wpTasks (p\<lparr>wp_tasks := wp_tasks p @ [i], wp_submitters := (wp_submitters p)[i := CountTask]\<rparr>)"
      using tasks True by (auto simp: wpTasks_def located_def nth_list_update taken_def)
    show ?thesis
      using True SendTask fixed counts tasks upd [of QueueFull] upd [of CountTask] too [of QueueFull] too [of CountTask] q s
      by (auto simp: defs)
  next
    case CountTask
    have t: "wpTasks (p\<lparr>wp_taskCount := x, wp_submitters := (wp_submitters p)[i := Accepted]\<rparr>)" for x
      by (rule wpTasks_same [OF tasks]) (use CountTask True in \<open>simp_all add: located_def map_taken_update taken_def\<close>)
    have "i64 (wp_taskCount p + 1) = wp_taskCount p + 1" using le sizes by (auto simp: wpSizes_def in_i64_def intro!: i64_id)
    then show ?thesis using True CountTask fixed counts upd [of Accepted] too [of Accepted] t by (simp add: defs)
  qed (use True inv in \<open>simp_all add: poolSubmit_def\<close>)
qed (use inv in \<open>simp add: poolSubmit_def Let_def\<close>)

lemma wpInv_worker:
  assumes inv: "wpInv nw q maxTasks n p" and sizes: "wpSizes nw q maxTasks n"
  shows "wpInv nw q maxTasks n (workerTurn j p)"
proof (cases "j < length (wp_workers p)")
  case True
  have fixed: "wpFixed nw q maxTasks n p" and counts: "wpCounts p" and tasks: "wpTasks p" using inv by (simp_all add: wpInv_def)
  note b = length_filter_update [OF True, of "\<lambda>w. w \<noteq> Receiving"]
  note s = length_filter_update [OF True, of "\<lambda>w. case w of RunTask t \<Rightarrow> True | GiveSlot t \<Rightarrow> True | _ \<Rightarrow> False"]
  note m = mset_concat_update [OF True, of taskBefore]
  have le: "wp_taskCount p \<le> int (q + nw)" "- int n \<le> wp_taskCount p"
    using counts fixed busy_le [of p] by (auto simp: wpCounts_def wpFixed_def)
  note defs = workerTurn_def Let_def wpInv_def wpFixed_def wpCounts_def uncounted_def busy_def slotted_def
  show ?thesis
  proof (cases "wp_workers p ! j")
    case Receiving
    show ?thesis
    proof (cases "wp_tasks p")
      case (Cons t ts)
      have "wpTasks (p\<lparr>wp_tasks := ts, wp_workers := (wp_workers p)[j := TakeSlot t]\<rparr>)"
        by (rule wpTasks_same [OF tasks]) (use m [of "TakeSlot t"] Receiving Cons in \<open>simp_all add: located_def\<close>)
      then show ?thesis using True Receiving Cons fixed counts b [of "TakeSlot t"] s [of "TakeSlot t"] by (simp add: defs)
    qed (use True Receiving inv in \<open>simp add: workerTurn_def\<close>)
  next
    case (TakeSlot t)
    have "wpTasks (p\<lparr>wp_slots := x, wp_workers := (wp_workers p)[j := RunTask t]\<rparr>)" for x
      by (rule wpTasks_same [OF tasks]) (use m [of "RunTask t"] TakeSlot in \<open>simp_all add: located_def\<close>)
    then show ?thesis using True TakeSlot fixed counts tasks b [of "RunTask t"] s [of "RunTask t"] by (simp add: defs)
  next
    case (RunTask t)
    have "wpTasks (p\<lparr>wp_done := wp_done p @ [t], wp_workers := (wp_workers p)[j := GiveSlot t]\<rparr>)"
      by (rule wpTasks_same [OF tasks]) (use m [of "GiveSlot t"] RunTask in \<open>simp_all add: located_def\<close>)
    then show ?thesis using True RunTask fixed counts b [of "GiveSlot t"] s [of "GiveSlot t"] by (simp add: defs)
  next
    case (GiveSlot t)
    have "wpTasks (p\<lparr>wp_slots := x, wp_workers := (wp_workers p)[j := CountDown t]\<rparr>)" for x
      by (rule wpTasks_same [OF tasks]) (use m [of "CountDown t"] GiveSlot in \<open>simp_all add: located_def\<close>)
    then show ?thesis using True GiveSlot fixed counts tasks b [of "CountDown t"] s [of "CountDown t"] by (auto simp: defs)
  next
    case (CountDown t)
    have "wpTasks (p\<lparr>wp_taskCount := x, wp_workers := (wp_workers p)[j := Receiving]\<rparr>)" for x
      by (rule wpTasks_same [OF tasks]) (use m [of Receiving] CountDown in \<open>simp_all add: located_def\<close>)
    moreover have "i64 (wp_taskCount p - 1) = wp_taskCount p - 1" using le sizes by (auto simp: wpSizes_def in_i64_def intro!: i64_id)
    ultimately show ?thesis using True CountDown fixed counts b [of Receiving] s [of Receiving] by (simp add: defs)
  qed
qed (use inv in \<open>simp add: workerTurn_def Let_def\<close>)

interpretation worker_pool: locked_object wpStep "\<lambda>p. wpSizes nw q maxTasks n \<and> wpInv nw q maxTasks n p" for nw q maxTasks n
proof
  fix p e
  assume "wpSizes nw q maxTasks n \<and> wpInv nw q maxTasks n p"
  then show "wpSizes nw q maxTasks n \<and> wpInv nw q maxTasks n (wpStep p e)" by (cases e) (simp_all add: wpInv_submit wpInv_worker)
qed

lemma wpInv_new: "wpInv nw q maxTasks n (newSecureWorkerPool nw q maxTasks n)"
proof -
  have "concat (map taskBefore (replicate nw Receiving)) = []" by (induction nw) simp_all
  then show ?thesis
    by (auto simp: wpInv_def wpFixed_def wpCounts_def wpTasks_def newSecureWorkerPool_def uncounted_def busy_def slotted_def located_def taken_def)
qed

lemma slot_free:
  assumes "j < length (wp_workers p)" and "wp_workers p ! j = TakeSlot t"
  shows "slotted p < length (wp_workers p)"
proof -
  have "TakeSlot t \<in> set (wp_workers p)" using assms nth_mem by metis
  then show ?thesis unfolding slotted_def by (intro length_filter_less) auto
qed

text \<open> The pool of workers, in every interleaving of submitters and workers: no task is run twice and only accepted tasks are run; the count of tasks never exceeds the capacity of the queue and the number of workers, hence, when the
  limit is larger than these together (1000 against 105 in the program), no submitter is refused for the limit; a worker that wants a slot never waits; and once no submitter is about to count and no worker is busy, every accepted task has run or is in the queue and the count is the length of the queue.\<close>

theorem worker_pool_accounts:
  assumes "int (q + nw) < maxTasks" and "q + nw < 2 ^ 61" and "n < 2 ^ 61"
  shows "let p = run wpStep (newSecureWorkerPool nw q maxTasks n) es
    in distinct (wp_done p) \<and> (\<forall>t \<in> set (wp_done p). t < n \<and> wp_submitters p ! t \<in> {CountTask, Accepted}) \<and>
       wp_taskCount p \<le> int (q + nw) \<and> TooMany \<notin> set (wp_submitters p) \<and>
       (\<forall>j t. j < nw \<and> wp_workers p ! j = TakeSlot t \<longrightarrow> wp_slots p < nw) \<and>
       (CountTask \<notin> set (wp_submitters p) \<and> set (wp_workers p) \<subseteq> {Receiving} \<longrightarrow>
          wp_taskCount p = int (length (wp_tasks p)) \<and> set (wp_done p) \<union> set (wp_tasks p) = {t. t < n \<and> wp_submitters p ! t = Accepted})"
proof -
  define p where "p = run wpStep (newSecureWorkerPool nw q maxTasks n) es"
  have "wpSizes nw q maxTasks n" using assms by (simp add: wpSizes_def)
  then have inv: "wpInv nw q maxTasks n p" using worker_pool.inv_run [of nw q maxTasks n _ es] wpInv_new by (simp add: p_def)
  have len: "length (wp_submitters p) = n" "length (wp_workers p) = nw" "length (wp_tasks p) \<le> q" using inv by (simp_all add: wpInv_def wpFixed_def)
  have tasks: "distinct (located p)" "t \<in> set (located p) \<longleftrightarrow> t < n \<and> taken (wp_submitters p ! t)" for t
    using inv len by (simp_all add: wpInv_def wpTasks_def)
  have counts: "wp_taskCount p + int (uncounted p) = int (length (wp_tasks p)) + int (busy p)" "wp_slots p = slotted p" "TooMany \<notin> set (wp_submitters p)"
    using inv by (simp_all add: wpInv_def wpCounts_def)
  have "wp_taskCount p \<le> int (q + nw)" using counts(1) len busy_le [of p] by simp
  moreover have "wp_taskCount p = int (length (wp_tasks p))" and "set (wp_done p) \<union> set (wp_tasks p) = {t. t < n \<and> wp_submitters p ! t = Accepted}"
    if quiet: "CountTask \<notin> set (wp_submitters p)" "set (wp_workers p) \<subseteq> {Receiving}"
  proof -
    have ws: "wp_workers p = replicate nw Receiving" using quiet(2) len(2) by (auto intro!: replicate_eqI)
    have "concat (map taskBefore (replicate nw Receiving)) = []" by (induction nw) simp_all
    then have "set (located p) = set (wp_done p) \<union> set (wp_tasks p)" by (auto simp: located_def ws)
    moreover have "taken (wp_submitters p ! t) \<longleftrightarrow> wp_submitters p ! t = Accepted" if "t < n" for t
      using quiet(1) that len(1) nth_mem [of t "wp_submitters p"] unfolding taken_def by metis
    ultimately show "set (wp_done p) \<union> set (wp_tasks p) = {t. t < n \<and> wp_submitters p ! t = Accepted}" using tasks(2) by auto
    have "uncounted p = 0" "busy p = 0" using quiet(1) ws by (auto simp: uncounted_def busy_def filter_empty_conv)
    then show "wp_taskCount p = int (length (wp_tasks p))" using counts(1) by simp
  qed
  moreover have "distinct (wp_done p)" "set (wp_done p) \<subseteq> set (located p)" using tasks(1) by (auto simp: located_def)
  ultimately show ?thesis
    using tasks(2) counts slot_free [of _ p] len unfolding p_def [symmetric] by (auto simp: Let_def taken_def)
qed

theorem worker_pool_accounts_witness:
  "let p = run wpStep (newSecureWorkerPool 1 2 4 3) [Submit 0 False, Submit 0 False, Worker 0, Worker 0, Submit 1 False, Submit 1 False, Submit 0 False, Submit 2 False, Submit 2 True, Submit 1 False, Worker 0, Worker 0, Worker 0]
   in wp_submitters p = [Accepted, Accepted, QueueFull] \<and> wp_done p = [0] \<and> wp_tasks p = [1] \<and> wp_taskCount p = 1"
proof -
  define es where "es = [Submit 0 False, Submit 0 False, Worker 0, Worker 0, Submit 1 False, Submit 1 False, Submit 0 False, Submit 2 False, Submit 2 True, Submit 1 False, Worker 0, Worker 0, Worker 0]"
  have "wp_submitters (run wpStep (newSecureWorkerPool 1 2 4 3) es) = [Accepted, Accepted, QueueFull]" "wp_workers (run wpStep (newSecureWorkerPool 1 2 4 3) es) = [Receiving]"
    "wp_tasks (run wpStep (newSecureWorkerPool 1 2 4 3) es) = [1]" "wp_done (run wpStep (newSecureWorkerPool 1 2 4 3) es) = [0]"
    unfolding es_def by code_simp+
  then show ?thesis using worker_pool_accounts [of 2 1 4 3 es] unfolding es_def [symmetric] by (simp add: Let_def)
qed

section \<open>Pool of files\<close>

text \<open>A file is its number in the order of creation.  \<open>fp_open\<close> holds the files that are open, \<open>fp_disk\<close> those that exist on disk.\<close>

record FilePool =
  fp_files :: "(string \<times> nat) list"
  fp_maxFiles :: nat
  fp_created :: nat
  fp_open :: "nat set"
  fp_disk :: "nat set"

definition newFilePool :: "nat \<Rightarrow> FilePool" where
  "newFilePool maxFiles = \<lparr>fp_files = [], fp_maxFiles = maxFiles, fp_created = 0, fp_open = {}, fp_disk = {}\<rparr>"

text \<open>The entry that goes when the pool is full is the one at the position \<open>pick\<close>, reduced to a position of the table: the first that the iteration meets.\<close>

definition evict :: "nat \<Rightarrow> FilePool \<Rightarrow> FilePool" where
  "evict pick p =
     (if length (fp_files p) \<ge> fp_maxFiles p
      then (case fp_files p of
              [] \<Rightarrow> p
            | _ \<Rightarrow> let k = pick mod length (fp_files p)
                   in p\<lparr>fp_files := take k (fp_files p) @ drop (Suc k) (fp_files p), fp_open := fp_open p - {snd (fp_files p ! k)}\<rparr>)
      else p)"

definition poolOpen :: "string \<Rightarrow> nat \<Rightarrow> bool \<Rightarrow> FilePool \<Rightarrow> nat option \<times> FilePool" where
  "poolOpen name pick createFails p =
     (case map_of (fp_files p) name of
        Some f \<Rightarrow> (Some f, p)
      | None \<Rightarrow>
          (let p = evict pick p
           in if createFails then (None, p)
              else let f = fp_created p
                   in (Some f, p\<lparr>fp_files := fp_files p @ [(name, f)], fp_created := Suc f, fp_open := insert f (fp_open p), fp_disk := insert f (fp_disk p)\<rparr>)))"

definition poolCloseAll :: "FilePool \<Rightarrow> FilePool" where
  "poolCloseAll p = p\<lparr>fp_files := [], fp_open := fp_open p - set (map snd (fp_files p)), fp_disk := fp_disk p - set (map snd (fp_files p))\<rparr>"

datatype FPStep = Open string nat bool | CloseAll

fun fpStep :: "FilePool \<Rightarrow> FPStep \<Rightarrow> FilePool" where
  "fpStep p (Open name pick createFails) = snd (poolOpen name pick createFails p)"
| "fpStep p CloseAll = poolCloseAll p"

definition fpInv :: "nat \<Rightarrow> FilePool \<Rightarrow> bool" where
  "fpInv maxFiles p \<longleftrightarrow>
     fp_maxFiles p = maxFiles \<and> length (fp_files p) \<le> maxFiles \<and> distinct (map fst (fp_files p)) \<and> distinct (map snd (fp_files p)) \<and>
     fp_open p = set (map snd (fp_files p)) \<and> fp_open p \<subseteq> fp_disk p \<and> fp_disk p \<subseteq> {..<fp_created p}"

lemma fpInv_evict:
  assumes inv: "fpInv maxFiles p" and "0 < maxFiles"
  shows "fpInv maxFiles (evict pick p) \<and> length (fp_files (evict pick p)) < maxFiles \<and> set (fp_files (evict pick p)) \<subseteq> set (fp_files p) \<and>
    fp_created (evict pick p) = fp_created p"
proof (cases "length (fp_files p) \<ge> fp_maxFiles p")
  case True
  define k where "k = pick mod length (fp_files p)"
  have "fp_files p \<noteq> []" using True assms by (auto simp: fpInv_def)
  then have k: "k < length (fp_files p)" by (simp add: k_def)
  then have split: "fp_files p = take k (fp_files p) @ [fp_files p ! k] @ drop (Suc k) (fp_files p)" by (simp add: Cons_nth_drop_Suc)
  have e: "evict pick p = p\<lparr>fp_files := take k (fp_files p) @ drop (Suc k) (fp_files p), fp_open := fp_open p - {snd (fp_files p ! k)}\<rparr>"
    using True \<open>fp_files p \<noteq> []\<close> by (cases "fp_files p") (simp_all add: evict_def k_def Let_def)
  define xs x ys where "xs = take k (fp_files p)" and "x = fp_files p ! k" and "ys = drop (Suc k) (fp_files p)"
  then have e: "evict pick p = p\<lparr>fp_files := xs @ ys, fp_open := fp_open p - {snd x}\<rparr>" and s: "fp_files p = xs @ x # ys" using e split by simp_all
  show ?thesis unfolding e using inv s by (auto simp: fpInv_def)
qed (use assms in \<open>auto simp: evict_def fpInv_def\<close>)

interpretation file_pool: locked_object fpStep "\<lambda>p. 0 < maxFiles \<and> fpInv maxFiles p" for maxFiles
proof
  fix p e
  assume a: "0 < maxFiles \<and> fpInv maxFiles p"
  show "0 < maxFiles \<and> fpInv maxFiles (fpStep p e)"
  proof (cases e)
    case (Open name pick createFails)
    define p' where "p' = evict pick p"
    have p': "fpInv maxFiles p'" "length (fp_files p') < maxFiles" "set (fp_files p') \<subseteq> set (fp_files p)" using fpInv_evict [of maxFiles p pick] a by (auto simp: p'_def)
    show ?thesis
    proof (cases "map_of (fp_files p) name")
      case None
      then have "name \<notin> fst ` set (fp_files p')" using p'(3) by (auto simp: map_of_eq_None_iff)
      moreover have "fp_created p' \<notin> snd ` set (fp_files p')" using p'(1) unfolding fpInv_def by (metis lessThan_iff less_irrefl list.set_map subsetD)
      ultimately show ?thesis using a p' None Open
        by (auto simp: poolOpen_def Let_def p'_def [symmetric] fpInv_def)
    qed (use a Open in \<open>simp add: poolOpen_def\<close>)
  qed (use a in \<open>auto simp: poolCloseAll_def fpInv_def\<close>)
qed

text \<open>The pool keeps at most the maximum of files, under different names, and exactly these are open.\<close>

lemma file_pool_bounded:
  assumes "0 < maxFiles"
  shows "let p = run fpStep (newFilePool maxFiles) es
    in length (fp_files p) \<le> maxFiles \<and> distinct (map fst (fp_files p)) \<and> fp_open p = set (map snd (fp_files p))"
  using file_pool.inv_run [of maxFiles "newFilePool maxFiles" es] assms by (simp add: fpInv_def newFilePool_def Let_def)

text \<open>A file that is closed because the pool is full stays on disk for ever, since only \<open>poolCloseAll\<close> removes files, and it may still be in the hands of the caller that opened it; the file that goes need not be the oldest.\<close>

lemma evicted_file_leaks:
  "let p = run fpStep (newFilePool 2) [Open ''a'' 0 False, Open ''b'' 0 False, Open ''c'' 1 False]; p' = poolCloseAll p
   in map fst (fp_files p) = [''a'', ''c''] \<and> fp_open p = {0, 2} \<and> fp_open p' = {} \<and> fp_disk p' = {1}"
  by (simp add: newFilePool_def poolOpen_def evict_def poolCloseAll_def Let_def) auto

end
