(* ===== verification/SecureTokens.thy ===== *)
theory SecureTokens
  imports GoPrelude "HOL-Library.Word"
begin

unbundle bit_operations_syntax

text \<open>
  Secrets and tokens: the comparison of secrets, the access control, the sessions and the nonces of \<open>src/solutions/solution07_security.go\<close> (solutions 1, 2 and 4).  SHA-256 is the parameter \<open>sha256\<close>; what \<open>crypto/rand\<close> delivers,
  bytes or an error, is an input of the operations that call it.  Strings that are compared or printed are lists of bytes; \<open>subtle.ConstantTimeCompare\<close> and \<open>hex.EncodeToString\<close> are modelled.

  Shown: the comparison without early return accepts exactly what the naive one accepts, if the digests of the two strings do not collide; the access control answers with the last decision for a user and a resource; a session is accepted
  exactly until its time to live has passed, in every interleaving; a nonce is accepted at most once and only within its time to live.  For the sessions random bytes are assumed not to repeat.
\<close>

section \<open>Comparison of secrets\<close>

type_synonym byte = "8 word"

fun vulnerableLoop :: "byte list \<Rightarrow> byte list \<Rightarrow> bool" where
  "vulnerableLoop (x # xs) (y # ys) = (if x \<noteq> y then False else vulnerableLoop xs ys)"
| "vulnerableLoop _ _ = True"

definition vulnerableVerify :: "byte list \<Rightarrow> byte list \<Rightarrow> bool" where
  "vulnerableVerify input secret = (if length input \<noteq> length secret then False else vulnerableLoop input secret)"

text \<open>\<open>subtle.ConstantTimeCompare\<close> collects the differences of all bytes; \<open>constantTimeByteEq\<close> is 1 for equal bytes.\<close>

definition constantTimeByteEq :: "byte \<Rightarrow> byte \<Rightarrow> int" where
  "constantTimeByteEq x y = uint (drop_bit 31 ((ucast (x XOR y) :: 32 word) - 1))"

fun differences :: "byte \<Rightarrow> byte list \<Rightarrow> byte list \<Rightarrow> byte" where
  "differences v (x # xs) (y # ys) = differences (v OR (x XOR y)) xs ys"
| "differences v _ _ = v"

definition constantTimeCompare :: "byte list \<Rightarrow> byte list \<Rightarrow> int" where
  "constantTimeCompare xs ys = (if length xs \<noteq> length ys then 0 else constantTimeByteEq (differences 0 xs ys) 0)"

definition secureVerify :: "(byte list \<Rightarrow> byte list) \<Rightarrow> byte list \<Rightarrow> byte list \<Rightarrow> bool" where
  "secureVerify sha256 input secret = (constantTimeCompare (sha256 input) (sha256 secret) = 1)"

text \<open>The same with a loop of dummy work, whose result is dropped.\<close>

definition dummyWork :: int where
  "dummyWork = foldl (\<lambda>w i. w + i) 0 [0..99]"

definition advancedSecureVerify :: "(byte list \<Rightarrow> byte list) \<Rightarrow> byte list \<Rightarrow> byte list \<Rightarrow> bool" where
  "advancedSecureVerify sha256 input secret = (let result = constantTimeCompare (sha256 input) (sha256 secret); _ = dummyWork in result = 1)"

definition maskString :: "string \<Rightarrow> string" where
  "maskString s = (if length s \<le> 4 then ''****'' else take 2 s @ ''****'' @ drop (length s - 2) s)"

lemma vulnerableLoop_iff: "length xs = length ys \<Longrightarrow> vulnerableLoop xs ys \<longleftrightarrow> xs = ys"
  by (induction xs ys rule: vulnerableLoop.induct) auto

lemma xor_zero_iff: "x XOR y = 0 \<longleftrightarrow> x = (y :: byte)"
proof
  assume "x XOR y = 0"
  then have "(x XOR y) XOR y = y" by simp
  then show "x = y" by (simp add: xor.assoc)
qed simp

lemma constantTimeByteEq_iff: "constantTimeByteEq x y = (if x = y then 1 else 0)"
proof (cases "x = y")
  case True
  then show ?thesis by (simp add: constantTimeByteEq_def)
next
  case False
  then have nz: "x XOR y \<noteq> 0" by (simp add: xor_zero_iff)
  then have pos: "0 < uint (x XOR y)" by (simp add: word_neq_0_conv word_less_def)
  have lt: "uint (x XOR y) < 256" using uint_lt2p [of "x XOR y"] by simp
  have "uint ((ucast (x XOR y) :: 32 word) - 1) = uint (x XOR y) - 1"
    using pos lt by (simp add: uint_word_ariths uint_up_ucast is_up)
  then have "uint (drop_bit 31 ((ucast (x XOR y) :: 32 word) - 1)) = (uint (x XOR y) - 1) div 2 ^ 31"
    by (simp add: drop_bit_eq_div uint_div)
  then show ?thesis using False pos lt by (simp add: constantTimeByteEq_def)
qed

lemma differences_zero: "length xs = length ys \<Longrightarrow> differences v xs ys = 0 \<longleftrightarrow> v = 0 \<and> xs = ys"
proof (induction v xs ys rule: differences.induct)
  case (1 v x xs y ys)
  have "v OR (x XOR y) = 0 \<longleftrightarrow> v = 0 \<and> x = y" by (simp add: or_eq_0_iff xor_zero_iff)
  then show ?case using 1 by auto
qed auto

lemma constantTimeCompare_iff: "constantTimeCompare xs ys = 1 \<longleftrightarrow> xs = ys"
  by (auto simp: constantTimeCompare_def constantTimeByteEq_iff differences_zero)

text \<open> The comparison through digests and \<open>ConstantTimeCompare\<close>, with or without dummy work, accepts exactly the inputs that the naive comparison accepts, if the digests of input and secret do not collide.\<close>

theorem secure_verify_equivalent:
  assumes "sha256 input = sha256 secret \<Longrightarrow> input = secret"
  shows "secureVerify sha256 input secret = vulnerableVerify input secret \<and> advancedSecureVerify sha256 input secret = vulnerableVerify input secret"
  using assms by (auto simp: secureVerify_def advancedSecureVerify_def vulnerableVerify_def constantTimeCompare_iff vulnerableLoop_iff Let_def)

theorem secure_verify_equivalent_witness:
  "let sha = (\<lambda>xs. [of_nat (length xs), foldr (\<lambda>x s. x + 3 * s) xs 0])
   in secureVerify sha [1, 2, 3] [1, 2, 4] = vulnerableVerify [1, 2, 3] [1, 2, 4] \<and> \<not> vulnerableVerify [1, 2, 3] [1, 2, 4] \<and> secureVerify sha [1, 2] [1, 2]"
proof -
  define sha :: "byte list \<Rightarrow> byte list" where "sha = (\<lambda>xs. [of_nat (length xs), foldr (\<lambda>x s. x + 3 * s) xs 0])"
  have "sha [1, 2, 3] \<noteq> sha [1, 2, 4]" by (simp add: sha_def)
  then have "secureVerify sha [1, 2, 3] [1, 2, 4] = vulnerableVerify [1, 2, 3] [1, 2, 4]" "secureVerify sha [1, 2] [1, 2] = vulnerableVerify [1, 2] [1, 2]"
    using secure_verify_equivalent [of sha "[1, 2, 3]" "[1, 2, 4]"] secure_verify_equivalent [of sha "[1, 2]" "[1, 2]"] by simp_all
  then show ?thesis unfolding sha_def [symmetric] by (simp add: Let_def vulnerableVerify_def)
qed

text \<open>The mask shows at most the first two and the last two characters, and nothing of a short string.\<close>

lemma maskString_shows_four:
  "maskString (a # b # m @ [y, z]) = (if m = [] then ''****'' else [a, b] @ ''****'' @ [y, z])"
  by (simp add: maskString_def)

section \<open>Access control\<close>

type_synonym Permissions = "string \<rightharpoonup> (string \<rightharpoonup> bool)"

definition acSetPermission :: "string \<Rightarrow> string \<Rightarrow> bool \<Rightarrow> Permissions \<Rightarrow> Permissions" where
  "acSetPermission user resource allowed ac =
     (let ac = (if ac user = None then ac(user \<mapsto> Map.empty) else ac)
      in ac(user \<mapsto> (the (ac user))(resource \<mapsto> allowed)))"

definition acCheckPermission :: "string \<Rightarrow> string \<Rightarrow> Permissions \<Rightarrow> bool" where
  "acCheckPermission user resource ac =
     (case ac user of Some userPerms \<Rightarrow> (case userPerms resource of Some b \<Rightarrow> b | None \<Rightarrow> False) | None \<Rightarrow> False)"

lemma acCheckPermission_set [simp]:
  "acCheckPermission u r (acSetPermission user resource allowed ac) = (if u = user \<and> r = resource then allowed else acCheckPermission u r ac)"
  by (auto simp: acCheckPermission_def acSetPermission_def Let_def)

text \<open>After any sequence of decisions the last one for the user and the resource counts, and without one access is denied.\<close>

fun decision :: "string \<Rightarrow> string \<Rightarrow> (string \<times> string \<times> bool) list \<Rightarrow> bool" where
  "decision u r [] = False"
| "decision u r (d # ds) = (if fst d = u \<and> fst (snd d) = r then snd (snd d) else decision u r ds)"

lemma access_control_last_decision:
  "acCheckPermission u r (foldl (\<lambda>ac d. acSetPermission (fst d) (fst (snd d)) (snd (snd d)) ac) Map.empty ds) = decision u r (rev ds)"
proof (induction ds rule: rev_induct)
  case Nil
  then show ?case by (simp add: acCheckPermission_def)
qed auto

section \<open>Tokens\<close>

text \<open>\<open>hex.EncodeToString\<close> prints two digits for a byte.\<close>

definition hexDigits :: string where
  "hexDigits = ''0123456789abcdef''"

definition hexEncode :: "byte list \<Rightarrow> string" where
  "hexEncode bs = concat (map (\<lambda>b. [hexDigits ! unat (drop_bit 4 b), hexDigits ! unat (b AND 15)]) bs)"

text \<open>\<open>generateSecureToken\<close>: the input is what \<open>rand.Read\<close> filled in, or nothing for an error.\<close>

definition generateSecureToken :: "byte list option \<Rightarrow> string option" where
  "generateSecureToken bs = map_option hexEncode bs"

lemma hexDigits_inj: "i < 16 \<Longrightarrow> j < 16 \<Longrightarrow> hexDigits ! i = hexDigits ! j \<Longrightarrow> i = j"
proof -
  have "distinct hexDigits" "length hexDigits = 16" by (simp_all add: hexDigits_def)
  then show "i < 16 \<Longrightarrow> j < 16 \<Longrightarrow> hexDigits ! i = hexDigits ! j \<Longrightarrow> i = j" by (simp add: nth_eq_iff_index_eq)
qed

lemma hexByte_inj:
  fixes a b :: byte
  assumes "hexDigits ! unat (drop_bit 4 a) = hexDigits ! unat (drop_bit 4 b)" and "hexDigits ! unat (a AND 15) = hexDigits ! unat (b AND 15)"
  shows "a = b"
proof -
  have hi: "unat (drop_bit 4 x) = unat x div 16" for x :: byte by (simp add: drop_bit_eq_div unat_div)
  have lo: "unat (x AND 15) = unat x mod 16" for x :: byte
  proof -
    have "x AND 15 = take_bit 4 x" by (simp add: take_bit_eq_mask mask_eq_exp_minus_1)
    then show ?thesis by (simp add: take_bit_eq_mod unat_mod)
  qed
  have lt: "unat x < 256" for x :: byte using unsigned_less [of x, where ?'a = nat] by simp
  have "unat a div 16 = unat b div 16" using assms(1) lt [of a] lt [of b] unfolding hi by (intro hexDigits_inj) auto
  moreover have "unat a mod 16 = unat b mod 16" using assms(2) unfolding lo by (intro hexDigits_inj) auto
  ultimately have "unat a = unat b" by (metis div_mult_mod_eq)
  then show ?thesis by (simp add: word_unat_eq_iff)
qed

text \<open>Different random bytes give different tokens.\<close>

lemma hexEncode_inj: "hexEncode xs = hexEncode ys \<longleftrightarrow> xs = ys"
proof
  show "hexEncode xs = hexEncode ys \<Longrightarrow> xs = ys"
  proof (induction xs arbitrary: ys)
    case Nil
    then show ?case by (cases ys) (simp_all add: hexEncode_def)
  next
    case (Cons x xs)
    then obtain y ys' where ys: "ys = y # ys'" by (cases ys) (simp_all add: hexEncode_def)
    then have "hexEncode xs = hexEncode ys'" and "x = y" using Cons.prems hexByte_inj [of x y] by (simp_all add: hexEncode_def)
    then show ?case using Cons.IH ys by simp
  qed
qed simp

section \<open>Sessions\<close>

text \<open>\<open>sessionMgrValidateSession\<close> reads the table under the read lock and deletes an expired entry later under the write lock.  \<open>ss_log\<close> records the sessions created.\<close>

datatype Validation = ReadSession string | DropSession string | Answer bool

record SecureSessionManager =
  ss_sessions :: "string \<rightharpoonup> gotime"
  ss_ttl :: duration
  ss_validators :: "Validation list"
  ss_log :: "(string \<times> gotime) list"

definition newSessionManager :: "duration \<Rightarrow> string list \<Rightarrow> SecureSessionManager" where
  "newSessionManager ttl toks = \<lparr>ss_sessions = Map.empty, ss_ttl = ttl, ss_validators = map ReadSession toks, ss_log = []\<rparr>"

definition sessionMgrCreateSession :: "byte list option \<Rightarrow> gotime \<Rightarrow> SecureSessionManager \<Rightarrow> SecureSessionManager" where
  "sessionMgrCreateSession bs now m =
     (case generateSecureToken bs of
        None \<Rightarrow> m
      | Some token \<Rightarrow> m\<lparr>ss_sessions := (ss_sessions m)(token \<mapsto> now), ss_log := ss_log m @ [(token, now)]\<rparr>)"

definition sessionMgrValidateSession :: "nat \<Rightarrow> gotime \<Rightarrow> SecureSessionManager \<Rightarrow> SecureSessionManager" where
  "sessionMgrValidateSession i now m =
     (if i < length (ss_validators m)
      then (case ss_validators m ! i of
              ReadSession token \<Rightarrow>
                m\<lparr>ss_validators := (ss_validators m)[i :=
                    (case ss_sessions m token of
                       None \<Rightarrow> Answer False
                     | Some createdAt \<Rightarrow> (if now - createdAt > ss_ttl m then DropSession token else Answer True))]\<rparr>
            | DropSession token \<Rightarrow> m\<lparr>ss_sessions := (ss_sessions m)(token := None), ss_validators := (ss_validators m)[i := Answer False]\<rparr>
            | Answer b \<Rightarrow> m)
      else m)"

datatype SMStep = CreateSession "byte list option" gotime | ValidateSession nat gotime

fun smStep :: "SecureSessionManager \<Rightarrow> SMStep \<Rightarrow> SecureSessionManager" where
  "smStep m (CreateSession bs now) = sessionMgrCreateSession bs now m"
| "smStep m (ValidateSession i now) = sessionMgrValidateSession i now m"

fun smTime :: "SMStep \<Rightarrow> gotime" where
  "smTime (CreateSession bs now) = now"
| "smTime (ValidateSession i now) = now"

text \<open>Random bytes are not drawn twice.\<close>

fun drawn :: "SMStep \<Rightarrow> byte list list" where
  "drawn (CreateSession (Some bs) now) = [bs]"
| "drawn _ = []"

text \<open>A session that was created is in the table or its time to live has passed; so it has for a session about to be dropped.\<close>

definition expired :: "duration \<Rightarrow> gotime \<Rightarrow> (string \<times> gotime) list \<Rightarrow> string \<Rightarrow> bool" where
  "expired ttl clock log token \<longleftrightarrow> (\<forall>t. (token, t) \<in> set log \<longrightarrow> clock - t > ttl)"

definition tableOk :: "duration \<Rightarrow> gotime \<Rightarrow> (string \<times> gotime) list \<Rightarrow> (string \<rightharpoonup> gotime) \<Rightarrow> bool" where
  "tableOk ttl clock log tab \<longleftrightarrow>
     distinct (map fst log) \<and> (\<forall>token t. tab token = Some t \<longrightarrow> (token, t) \<in> set log) \<and> (\<forall>token. tab token = None \<longrightarrow> expired ttl clock log token)"

definition smInv :: "duration \<Rightarrow> gotime \<Rightarrow> SecureSessionManager \<Rightarrow> bool" where
  "smInv ttl clock m \<longleftrightarrow>
     ss_ttl m = ttl \<and> tableOk ttl clock (ss_log m) (ss_sessions m) \<and>
     (\<forall>token. DropSession token \<in> set (ss_validators m) \<longrightarrow> token \<in> fst ` set (ss_log m) \<and> expired ttl clock (ss_log m) token)"

lemma expired_later: "expired ttl clock log token \<Longrightarrow> clock \<le> now \<Longrightarrow> expired ttl now log token"
  by (fastforce simp: expired_def)

lemma expired_snoc: "expired ttl clock (log @ [(token', t)]) token \<longleftrightarrow> expired ttl clock log token \<and> (token = token' \<longrightarrow> clock - t > ttl)"
  by (auto simp: expired_def)

lemma logged_unique: "distinct (map fst log) \<Longrightarrow> (token, t) \<in> set log \<Longrightarrow> expired ttl clock log token \<longleftrightarrow> clock - t > ttl"
  by (auto simp: expired_def dest: eq_key_imp_eq_value)

lemma tableOk_insert:
  "tableOk ttl now log tab \<Longrightarrow> token \<notin> fst ` set log \<Longrightarrow> tableOk ttl now (log @ [(token, now)]) (tab(token \<mapsto> now))"
  by (auto simp: tableOk_def expired_snoc)

lemma tableOk_remove: "tableOk ttl now log tab \<Longrightarrow> expired ttl now log token \<Longrightarrow> tableOk ttl now log (tab(token := None))"
  by (auto simp: tableOk_def)

lemma tableOk_lookup:
  "tableOk ttl now log tab \<Longrightarrow> tab token = Some t \<Longrightarrow> (token, t) \<in> set log \<and> (expired ttl now log token \<longleftrightarrow> now - t > ttl)"
  using logged_unique [of log token t] by (auto simp: tableOk_def)

lemma smInv_later: "smInv ttl clock m \<Longrightarrow> clock \<le> now \<Longrightarrow> smInv ttl now m"
  unfolding smInv_def tableOk_def using expired_later [of ttl clock "ss_log m" _ now] by blast

lemma smInv_create:
  assumes inv: "smInv ttl now m" and new: "hexEncode bs \<notin> fst ` set (ss_log m)"
  shows "smInv ttl now (sessionMgrCreateSession (Some bs) now m)"
proof -
  have "DropSession token \<in> set (ss_validators m) \<Longrightarrow> token \<noteq> hexEncode bs" for token using inv new by (auto simp: smInv_def)
  then show ?thesis
    using inv new tableOk_insert by (auto simp: smInv_def sessionMgrCreateSession_def generateSecureToken_def expired_snoc)
qed

lemma smInv_validate:
  assumes inv: "smInv ttl now m"
  shows "smInv ttl now (sessionMgrValidateSession i now m)"
proof (cases "i < length (ss_validators m)")
  case True
  have keep: "DropSession tk \<in> set ((ss_validators m)[i := v]) \<Longrightarrow> DropSession tk = v \<or> DropSession tk \<in> set (ss_validators m)" for tk v
    using set_update_subset_insert [of "ss_validators m" i v] by auto
  show ?thesis
  proof (cases "ss_validators m ! i")
    case (ReadSession token)
    show ?thesis
    proof (cases "ss_sessions m token")
      case None
      then show ?thesis using True ReadSession inv by (auto simp: smInv_def sessionMgrValidateSession_def dest!: keep)
    next
      case (Some t)
      then have l: "(token, t) \<in> set (ss_log m)" and "expired ttl now (ss_log m) token \<longleftrightarrow> now - t > ttl" "ss_ttl m = ttl"
        using inv tableOk_lookup [of ttl now "ss_log m" "ss_sessions m" token t] by (auto simp: smInv_def)
      moreover have "token \<in> fst ` set (ss_log m)" using l by force
      ultimately show ?thesis using True ReadSession inv Some by (auto simp: smInv_def sessionMgrValidateSession_def dest!: keep)
    qed
  next
    case (DropSession token)
    then have "expired ttl now (ss_log m) token" using inv nth_mem [OF True] by (auto simp: smInv_def)
    then show ?thesis using True DropSession inv tableOk_remove by (auto simp: smInv_def sessionMgrValidateSession_def dest!: keep)
  qed (use True inv in \<open>simp add: sessionMgrValidateSession_def\<close>)
qed (use inv in \<open>simp add: sessionMgrValidateSession_def\<close>)

fun createdBy :: "SMStep \<Rightarrow> (string \<times> gotime) list" where
  "createdBy (CreateSession (Some bs) now) = [(hexEncode bs, now)]"
| "createdBy (CreateSession None now) = []"
| "createdBy (ValidateSession i now) = []"

lemma createdBy_drawn: "map fst (createdBy e) = map hexEncode (drawn e)"
  by (cases e rule: createdBy.cases) simp_all

lemma sessions_run:
  assumes "sorted (map smTime es)" and "distinct (concat (map drawn es))" and "\<forall>e \<in> set es. smTime e \<le> clock"
  shows "smInv ttl clock (run smStep (newSessionManager ttl toks) es) \<and> ss_log (run smStep (newSessionManager ttl toks) es) = concat (map createdBy es)"
  using assms
proof (induction es arbitrary: clock rule: rev_induct)
  case Nil
  then show ?case by (auto simp: smInv_def newSessionManager_def expired_def tableOk_def)
next
  case (snoc e es)
  define m where "m = run smStep (newSessionManager ttl toks) es"
  have "\<forall>e' \<in> set es. smTime e' \<le> smTime e" using snoc.prems(1) by (auto simp: sorted_append)
  then have ih: "smInv ttl (smTime e) m" "ss_log m = concat (map createdBy es)" using snoc.IH snoc.prems by (simp_all add: m_def sorted_append)
  have names: "map fst (ss_log m) = map hexEncode (concat (map drawn es))"
    unfolding ih(2) by (induction es) (simp_all add: createdBy_drawn)
  have "smInv ttl (smTime e) (smStep m e) \<and> ss_log (smStep m e) = ss_log m @ createdBy e"
  proof (cases e rule: createdBy.cases)
    case (1 bs now)
    then have "bs \<notin> set (concat (map drawn es))" using snoc.prems(2) by auto
    then have "hexEncode bs \<notin> set (map fst (ss_log m))" unfolding names by (auto simp: hexEncode_inj)
    then have "hexEncode bs \<notin> fst ` set (ss_log m)" by simp
    then have "smInv ttl now (sessionMgrCreateSession (Some bs) now m)" using smInv_create ih(1) 1 by simp
    then show ?thesis using 1 by (simp add: sessionMgrCreateSession_def generateSecureToken_def)
  next
    case (2 now)
    then show ?thesis using ih by (simp add: sessionMgrCreateSession_def generateSecureToken_def)
  next
    case (3 i now)
    then show ?thesis using ih smInv_validate by (auto simp: sessionMgrValidateSession_def split: Validation.splits)
  qed
  then show ?case using smInv_later [of ttl "smTime e"] snoc.prems(3) ih(2) by (auto simp: m_def)
qed

lemma validators_length: "length (ss_validators (run smStep (newSessionManager ttl toks) es)) = length toks"
proof (induction es rule: rev_induct)
  case (snoc e es)
  then show ?case by (cases e) (auto simp: sessionMgrCreateSession_def sessionMgrValidateSession_def split: option.splits Validation.splits)
qed (simp add: newSessionManager_def)

text \<open> For a clock that does not go back and random bytes that are not drawn twice, a validation answers that the session is valid exactly when the session was created at most the time to live ago, whatever other validations did to
  the table before; any other token is refused, at once or after the expired entry is deleted.\<close>

theorem session_valid_iff_fresh:
  assumes "sorted (map smTime es @ [now])" and "distinct (concat (map drawn es))"
    and "i < length toks" and "ss_validators (run smStep (newSessionManager ttl toks) es) ! i = ReadSession token"
  shows "let m = run smStep (newSessionManager ttl toks) es; v = ss_validators (smStep m (ValidateSession i now)) ! i
    in (v = Answer True \<longleftrightarrow> (\<exists>bs t. CreateSession (Some bs) t \<in> set es \<and> token = hexEncode bs \<and> now - t \<le> ttl)) \<and>
       (v \<noteq> Answer True \<longrightarrow> v \<in> {Answer False, DropSession token})"
proof -
  define m where "m = run smStep (newSessionManager ttl toks) es"
  have "smInv ttl now m" and log: "ss_log m = concat (map createdBy es)"
    using sessions_run [of es now ttl toks] assms(1,2) by (auto simp: m_def sorted_append)
  then have ok: "tableOk ttl now (ss_log m) (ss_sessions m)" and ttl: "ss_ttl m = ttl" by (simp_all add: smInv_def)
  have created: "(token, t) \<in> set (ss_log m) \<longleftrightarrow> (\<exists>bs. CreateSession (Some bs) t \<in> set es \<and> token = hexEncode bs)" for t
  proof -
    have "(token, t) \<in> set (createdBy e) \<longleftrightarrow> (\<exists>bs. e = CreateSession (Some bs) t \<and> token = hexEncode bs)" for e
      by (cases e rule: createdBy.cases) auto
    then show ?thesis unfolding log by fastforce
  qed
  have "i < length (ss_validators m)" using assms(3) validators_length [of ttl toks es] by (simp add: m_def)
  moreover have "ss_validators m ! i = ReadSession token" using assms(4) by (simp add: m_def)
  ultimately have v: "ss_validators (smStep m (ValidateSession i now)) ! i =
      (case ss_sessions m token of None \<Rightarrow> Answer False | Some t \<Rightarrow> (if now - t > ttl then DropSession token else Answer True))"
    using ttl by (simp add: sessionMgrValidateSession_def cong: option.case_cong)
  have fresh: "(\<exists>bs t. CreateSession (Some bs) t \<in> set es \<and> token = hexEncode bs \<and> now - t \<le> ttl) \<longleftrightarrow> \<not> expired ttl now (ss_log m) token"
    by (simp add: expired_def created not_less) blast
  have "tab = None \<Longrightarrow> expired ttl now (ss_log m) token" "tab = Some t \<Longrightarrow> expired ttl now (ss_log m) token \<longleftrightarrow> now - t > ttl" if "tab = ss_sessions m token" for tab t
    using ok tableOk_lookup [OF ok, of token t] that by (auto simp: tableOk_def)
  then show ?thesis unfolding m_def [symmetric] Let_def v fresh by (cases "ss_sessions m token") auto
qed

theorem session_valid_iff_fresh_witness:
  "let es = [CreateSession (Some [171, 1]) 10, CreateSession None 20, CreateSession (Some [205]) 30, ValidateSession 1 40, ValidateSession 1 41];
       m = run smStep (newSessionManager 25 [hexEncode [205], hexEncode [171, 1]]) es
   in hexEncode [205] = ''cd'' \<and> ss_validators m = [ReadSession ''cd'', Answer False] \<and> ss_validators (smStep m (ValidateSession 0 55)) ! 0 = Answer True"
proof -
  define es where "es = [CreateSession (Some [171, 1]) 10, CreateSession None 20, CreateSession (Some [205]) 30, ValidateSession 1 40, ValidateSession 1 41]"
  have h: "hexEncode [205] = ''cd''" "hexEncode [171, 1] = ''ab01''" by code_simp+
  have v: "ss_validators (run smStep (newSessionManager 25 [hexEncode [205], hexEncode [171, 1]]) es) = [ReadSession ''cd'', Answer False]"
    unfolding es_def h by (simp add: newSessionManager_def sessionMgrCreateSession_def sessionMgrValidateSession_def generateSecureToken_def h)
  have "ss_validators (smStep (run smStep (newSessionManager 25 [hexEncode [205], hexEncode [171, 1]]) es) (ValidateSession 0 55)) ! 0 = Answer True"
  proof -
    have c: "\<exists>bs t. CreateSession (Some bs) t \<in> set es \<and> ''cd'' = hexEncode bs \<and> 55 - t \<le> 25"
      by (rule exI [of _ "[205]"], rule exI [of _ 30]) (simp add: es_def h)
    have "sorted (map smTime es @ [55])" "distinct (concat (map drawn es))" by (simp_all add: es_def)
    then show ?thesis using session_valid_iff_fresh [of es 55 0 "[hexEncode [205], hexEncode [171, 1]]" 25 "''cd''"] v c by (simp add: Let_def)
  qed
  then show ?thesis using v h unfolding es_def [symmetric] by (simp add: Let_def)
qed

section \<open>Nonces\<close>

record NonceManager =
  nm_nonces :: "string \<rightharpoonup> gotime"
  nm_ttl :: duration

definition nonceMgrGenerateNonce :: "byte list option \<Rightarrow> gotime \<Rightarrow> NonceManager \<Rightarrow> NonceManager" where
  "nonceMgrGenerateNonce bs now m =
     (case generateSecureToken bs of None \<Rightarrow> m | Some nonce \<Rightarrow> m\<lparr>nm_nonces := (nm_nonces m)(nonce \<mapsto> now)\<rparr>)"

definition nonceMgrValidateNonce :: "string \<Rightarrow> gotime \<Rightarrow> NonceManager \<Rightarrow> bool \<times> NonceManager" where
  "nonceMgrValidateNonce nonce now m =
     (case nm_nonces m nonce of
        None \<Rightarrow> (False, m)
      | Some usedAt \<Rightarrow> (now - usedAt \<le> nm_ttl m, m\<lparr>nm_nonces := (nm_nonces m)(nonce := None)\<rparr>))"

datatype NMStep = GenerateNonce "byte list option" gotime | ValidateNonce string gotime

fun nmStep :: "NonceManager \<Rightarrow> NMStep \<Rightarrow> NonceManager" where
  "nmStep m (GenerateNonce bs now) = nonceMgrGenerateNonce bs now m"
| "nmStep m (ValidateNonce nonce now) = snd (nonceMgrValidateNonce nonce now m)"

text \<open>What the table should say of a nonce after a history: the time of its generation, unless it was validated since.\<close>

fun outstanding :: "string \<Rightarrow> NMStep list \<Rightarrow> gotime option" where
  "outstanding nonce [] = None"
| "outstanding nonce (GenerateNonce (Some bs) t # es) = (if hexEncode bs = nonce then Some t else outstanding nonce es)"
| "outstanding nonce (GenerateNonce None t # es) = outstanding nonce es"
| "outstanding nonce (ValidateNonce n t # es) = (if n = nonce then None else outstanding nonce es)"

lemma nonces_outstanding: "nm_nonces (run nmStep \<lparr>nm_nonces = Map.empty, nm_ttl = ttl\<rparr> es) nonce = outstanding nonce (rev es)"
proof (induction es rule: rev_induct)
  case (snoc e es)
  then show ?case
    by (cases "(nonce, e # rev es)" rule: outstanding.cases)
      (auto simp: nonceMgrGenerateNonce_def generateSecureToken_def nonceMgrValidateNonce_def split: option.splits)
qed simp

lemma nonce_ttl: "nm_ttl (run nmStep m es) = nm_ttl m"
proof (induction es rule: rev_induct)
  case (snoc e es)
  then show ?case by (cases e) (auto simp: nonceMgrGenerateNonce_def nonceMgrValidateNonce_def split: option.splits)
qed simp

text \<open> After any history of generations and validations, a nonce is accepted exactly when it was generated at most the time to live ago and has not been validated since; a second validation of it is refused at any time.\<close>

theorem nonce_single_use:
  "let m = run nmStep \<lparr>nm_nonces = Map.empty, nm_ttl = ttl\<rparr> es; (ok, m') = nonceMgrValidateNonce nonce now m
   in (ok \<longleftrightarrow> (case outstanding nonce (rev es) of None \<Rightarrow> False | Some t \<Rightarrow> now - t \<le> ttl)) \<and> \<not> fst (nonceMgrValidateNonce nonce later m')"
proof -
  define m where "m = run nmStep \<lparr>nm_nonces = Map.empty, nm_ttl = ttl\<rparr> es"
  have "nm_nonces m nonce = outstanding nonce (rev es)" "nm_ttl m = ttl"
    by (simp_all add: m_def nonces_outstanding nonce_ttl)
  then show ?thesis unfolding m_def [symmetric] by (auto simp: Let_def nonceMgrValidateNonce_def split: option.splits prod.splits)
qed

end
