(* ===== verification/LockFreeQueue.thy ===== *)
theory LockFreeQueue
  imports GoPrelude "HOL-Library.Sublist"
begin

text \<open>
  The lock-free queue of \<open>src/solutions/solution08_performance.go\<close> (solution 1, improvement 3): a linked list with atomic pointers, to which calls append a node with compare-and-swap.  The node of a call is the next free address;
  address 0 is the sentinel.  Every access of an atomic pointer is a step, and a call is a goroutine with a program point.  \<open>lq_links\<close> records the nodes in the order in which they were linked and \<open>lq_swings\<close> counts the moves of the
  tail pointer: both are read by no step.  There is no operation that removes a node.

  Shown, for every interleaving: the list that starts at the head holds exactly the values of the calls that have linked their node, in the order of linking, each once; the tail is at the last node or the one before; a call that began after
  another one had finished comes later in the list; and every call finishes after a bounded number of its own steps, whatever the others do.
\<close>

record QNode =
  nd_value :: int
  nd_next :: "nat option"

datatype Enqueue = Begin int | LoadTail nat | LoadNext nat nat | Recheck nat nat "nat option" | TryLink nat nat | HelpSwing nat nat nat | SwingTail nat nat | Enqueued nat

record LockFreeQueue =
  lq_nodes :: "QNode list"
  lq_head :: nat
  lq_tail :: nat
  lq_calls :: "Enqueue list"
  lq_links :: "nat list"
  lq_swings :: nat

definition newLockFreeQueue :: "int list \<Rightarrow> LockFreeQueue" where
  "newLockFreeQueue vs = \<lparr>lq_nodes = [\<lparr>nd_value = 0, nd_next = None\<rparr>], lq_head = 0, lq_tail = 0, lq_calls = map Begin vs, lq_links = [], lq_swings = 0\<rparr>"

definition nextOf :: "LockFreeQueue \<Rightarrow> nat \<Rightarrow> nat option" where
  "nextOf q a = nd_next (lq_nodes q ! a)"

definition setCall :: "nat \<Rightarrow> Enqueue \<Rightarrow> LockFreeQueue \<Rightarrow> LockFreeQueue" where
  "setCall i c q = q\<lparr>lq_calls := (lq_calls q)[i := c]\<rparr>"

definition casTail :: "nat \<Rightarrow> nat \<Rightarrow> LockFreeQueue \<Rightarrow> LockFreeQueue" where
  "casTail old new q = (if lq_tail q = old then q\<lparr>lq_tail := new, lq_swings := Suc (lq_swings q)\<rparr> else q)"

definition linkNode :: "nat \<Rightarrow> nat \<Rightarrow> LockFreeQueue \<Rightarrow> LockFreeQueue" where
  "linkNode lst new q = q\<lparr>lq_nodes := (lq_nodes q)[lst := (lq_nodes q ! lst)\<lparr>nd_next := Some new\<rparr>], lq_links := lq_links q @ [new]\<rparr>"

fun enqueueAct :: "nat \<Rightarrow> Enqueue \<Rightarrow> LockFreeQueue \<Rightarrow> LockFreeQueue" where
  "enqueueAct i (Begin v) q = setCall i (LoadTail (length (lq_nodes q))) (q\<lparr>lq_nodes := lq_nodes q @ [\<lparr>nd_value = v, nd_next = None\<rparr>]\<rparr>)"
| "enqueueAct i (LoadTail new) q = setCall i (LoadNext new (lq_tail q)) q"
| "enqueueAct i (LoadNext new lst) q = setCall i (Recheck new lst (nextOf q lst)) q"
| "enqueueAct i (Recheck new lst nxt) q =
     setCall i (if lst = lq_tail q then (case nxt of None \<Rightarrow> TryLink new lst | Some b \<Rightarrow> HelpSwing new lst b) else LoadTail new) q"
| "enqueueAct i (TryLink new lst) q = (if nextOf q lst = None then setCall i (SwingTail new lst) (linkNode lst new q) else setCall i (LoadTail new) q)"
| "enqueueAct i (HelpSwing new lst b) q = setCall i (LoadTail new) (casTail lst b q)"
| "enqueueAct i (SwingTail new lst) q = setCall i (Enqueued new) (casTail lst new q)"
| "enqueueAct i (Enqueued new) q = q"

definition enqueueStep :: "LockFreeQueue \<Rightarrow> nat \<Rightarrow> LockFreeQueue" where
  "enqueueStep q i = (if i < length (lq_calls q) then enqueueAct i (lq_calls q ! i) q else q)"

text \<open>The values from an address on, along the pointers.\<close>

fun valuesFrom :: "nat \<Rightarrow> LockFreeQueue \<Rightarrow> nat option \<Rightarrow> int list" where
  "valuesFrom (Suc fuel) q (Some a) = nd_value (lq_nodes q ! a) # valuesFrom fuel q (nextOf q a)"
| "valuesFrom fuel q _ = []"

text \<open>The values in the queue: those after the sentinel.  There are at most as many as there are nodes.\<close>

definition contents :: "LockFreeQueue \<Rightarrow> int list" where
  "contents q = valuesFrom (length (lq_nodes q)) q (nextOf q (lq_head q))"

section \<open>Invariant\<close>

definition path :: "LockFreeQueue \<Rightarrow> nat list" where
  "path q = 0 # lq_links q"

text \<open>The nodes that were linked form a chain; the tail is at its end or one node before.\<close>

definition chainOk :: "LockFreeQueue \<Rightarrow> bool" where
  "chainOk q \<longleftrightarrow>
     lq_head q = 0 \<and> distinct (path q) \<and> set (path q) \<subseteq> {..<length (lq_nodes q)} \<and>
     (\<forall>k < length (path q). nextOf q (path q ! k) = (if Suc k < length (path q) then Some (path q ! Suc k) else None)) \<and>
     (\<forall>a < length (lq_nodes q). a \<notin> set (path q) \<longrightarrow> nextOf q a = None) \<and>
     lq_swings q < length (path q) \<and> length (path q) \<le> Suc (Suc (lq_swings q)) \<and> lq_tail q = path q ! lq_swings q"

text \<open>A call reads the tail at a position that the tail does not fall behind.\<close>

definition passed :: "LockFreeQueue \<Rightarrow> nat \<Rightarrow> bool" where
  "passed q a \<longleftrightarrow> (\<exists>k \<le> lq_swings q. a = path q ! k)"

fun nodeOf :: "Enqueue \<Rightarrow> nat option" where
  "nodeOf (Begin v) = None"
| "nodeOf (LoadTail new) = Some new"
| "nodeOf (LoadNext new lst) = Some new"
| "nodeOf (Recheck new lst nxt) = Some new"
| "nodeOf (TryLink new lst) = Some new"
| "nodeOf (HelpSwing new lst b) = Some new"
| "nodeOf (SwingTail new lst) = Some new"
| "nodeOf (Enqueued new) = Some new"

fun linked :: "Enqueue \<Rightarrow> bool" where
  "linked (SwingTail new lst) = True"
| "linked (Enqueued new) = True"
| "linked _ = False"

fun callOk :: "LockFreeQueue \<Rightarrow> Enqueue \<Rightarrow> bool" where
  "callOk q (LoadNext new lst) \<longleftrightarrow> passed q lst"
| "callOk q (Recheck new lst nxt) \<longleftrightarrow> passed q lst \<and> (case nxt of None \<Rightarrow> True | Some b \<Rightarrow> nextOf q lst = Some b)"
| "callOk q (TryLink new lst) \<longleftrightarrow> passed q lst"
| "callOk q (HelpSwing new lst b) \<longleftrightarrow> passed q lst \<and> nextOf q lst = Some b"
| "callOk q (SwingTail new lst) \<longleftrightarrow> passed q lst \<and> nextOf q lst = Some new"
| "callOk q (Enqueued new) \<longleftrightarrow> passed q new"
| "callOk q (Begin v) \<longleftrightarrow> True"
| "callOk q (LoadTail new) \<longleftrightarrow> True"

text \<open>The node of a call holds its value, belongs to no other call, and is linked exactly when the call is past the link.\<close>

definition ownOk :: "LockFreeQueue \<Rightarrow> int \<Rightarrow> Enqueue \<Rightarrow> bool" where
  "ownOk q v c \<longleftrightarrow>
     (case nodeOf c of
        None \<Rightarrow> c = Begin v
      | Some a \<Rightarrow> 0 < a \<and> a < length (lq_nodes q) \<and> nd_value (lq_nodes q ! a) = v \<and> (a \<in> set (lq_links q) \<longleftrightarrow> linked c))"

definition separate :: "nat option list \<Rightarrow> bool" where
  "separate ns \<longleftrightarrow> (\<forall>i < length ns. \<forall>j < length ns. ns ! i = ns ! j \<and> ns ! i \<noteq> None \<longrightarrow> i = j)"

definition callsOk :: "int list \<Rightarrow> LockFreeQueue \<Rightarrow> bool" where
  "callsOk vs q \<longleftrightarrow>
     length (lq_calls q) = length vs \<and>
     (\<forall>i < length vs. callOk q (lq_calls q ! i) \<and> ownOk q (vs ! i) (lq_calls q ! i)) \<and>
     separate (map nodeOf (lq_calls q)) \<and> Some ` set (lq_links q) \<subseteq> set (map nodeOf (lq_calls q))"

definition lqInv :: "int list \<Rightarrow> LockFreeQueue \<Rightarrow> bool" where
  "lqInv vs q \<longleftrightarrow> chainOk q \<and> callsOk vs q"

lemma chainD:
  assumes "chainOk q"
  shows "distinct (path q)" "lq_swings q < length (path q)" "lq_tail q = path q ! lq_swings q" "length (path q) \<le> Suc (Suc (lq_swings q))"
    "k < length (path q) \<Longrightarrow> nextOf q (path q ! k) = (if Suc k < length (path q) then Some (path q ! Suc k) else None)"
    "k < length (path q) \<Longrightarrow> path q ! k < length (lq_nodes q)"
    "a < length (lq_nodes q) \<Longrightarrow> a \<notin> set (path q) \<Longrightarrow> nextOf q a = None"
  using assms by (auto simp: chainOk_def subset_iff)

text \<open>A node whose successor is missing and that the tail has not left behind is the last one, and the tail is there.\<close>

lemma passed_end:
  assumes chain: "chainOk q" and "passed q a" and none: "nextOf q a = None"
  shows "Suc (lq_swings q) = length (path q) \<and> a = lq_tail q"
proof -
  obtain k where k: "k \<le> lq_swings q" "a = path q ! k" using assms(2) by (auto simp: passed_def)
  then have "\<not> Suc k < length (path q)" using chainD(2) [OF chain] chainD(5) [OF chain, of k] none by (auto split: if_splits)
  then have "k = lq_swings q" and "Suc (lq_swings q) = length (path q)" using k(1) chainD(2) [OF chain] by simp_all
  then show ?thesis using k(2) chainD(3) [OF chain] by simp
qed

lemma tail_next:
  assumes chain: "chainOk q" and "nextOf q (lq_tail q) = Some b"
  shows "Suc (lq_swings q) < length (path q) \<and> b = path q ! Suc (lq_swings q)"
  using chainD(2,3) [OF chain] chainD(5) [OF chain, of "lq_swings q"] assms(2) by (auto split: if_splits)

lemma nextOf_simps [simp]:
  "nextOf (setCall i c q) a = nextOf q a" "path (setCall i c q) = path q" "nextOf (casTail x y q) a = nextOf q a" "path (casTail x y q) = path q"
  "lq_nodes (setCall i c q) = lq_nodes q" "lq_nodes (casTail x y q) = lq_nodes q" "lq_links (setCall i c q) = lq_links q" "lq_links (casTail x y q) = lq_links q"
  "lq_calls (casTail x y q) = lq_calls q" "lq_swings (setCall i c q) = lq_swings q" "lq_tail (setCall i c q) = lq_tail q" "lq_head (setCall i c q) = lq_head q"
  "lq_head (casTail x y q) = lq_head q" "lq_calls (setCall i c q) = (lq_calls q)[i := c]" "passed (setCall i c q) = passed q"
  by (simp_all add: setCall_def casTail_def nextOf_def path_def passed_def fun_eq_iff)

lemma chainOk_setCall [simp]: "chainOk (setCall i c q) \<longleftrightarrow> chainOk q"
  by (simp add: chainOk_def)

lemma chainOk_swing:
  assumes chain: "chainOk q" and b: "nextOf q a = Some b"
  shows "chainOk (casTail a b q)"
proof (cases "lq_tail q = a")
  case True
  then show ?thesis using tail_next [OF chain, of b] b chain by (auto simp: chainOk_def casTail_def nextOf_def path_def)
next
  case False
  then have "casTail a b q = q" by (simp add: casTail_def)
  then show ?thesis using chain by simp
qed

lemma passed_swing: "passed q x \<Longrightarrow> passed (casTail a b q) x"
proof -
  assume "passed q x"
  then obtain k where "k \<le> lq_swings q" "x = path q ! k" by (auto simp: passed_def)
  moreover have "lq_swings q \<le> lq_swings (casTail a b q)" by (simp add: casTail_def)
  ultimately show ?thesis unfolding passed_def by (intro exI [of _ k]) simp
qed

lemma passed_swung:
  assumes chain: "chainOk q" and "passed q a" and b: "nextOf q a = Some b"
  shows "passed (casTail a b q) b"
proof -
  obtain k where k: "k \<le> lq_swings q" "a = path q ! k" using assms(2) by (auto simp: passed_def)
  then have b': "Suc k < length (path q)" "b = path q ! Suc k" using chainD(2) [OF chain] chainD(5) [OF chain, of k] b by (auto split: if_splits)
  have "Suc k \<le> lq_swings (casTail a b q)"
  proof (cases "k = lq_swings q")
    case True
    then show ?thesis using k chainD(3) [OF chain] by (simp add: casTail_def)
  next
    case False
    then show ?thesis using k by (simp add: casTail_def)
  qed
  then show ?thesis unfolding passed_def using b' by (intro exI [of _ "Suc k"]) simp
qed

lemma linkNode_simps:
  "lq_calls (linkNode a new q) = lq_calls q" "length (lq_nodes (linkNode a new q)) = length (lq_nodes q)" "path (linkNode a new q) = path q @ [new]"
  "lq_swings (linkNode a new q) = lq_swings q" "lq_tail (linkNode a new q) = lq_tail q" "lq_head (linkNode a new q) = lq_head q"
  "a < length (lq_nodes q) \<Longrightarrow> nextOf (linkNode a new q) x = (if x = a then Some new else nextOf q x)"
  "nd_value (lq_nodes (linkNode a new q) ! x) = nd_value (lq_nodes q ! x)" "lq_links (linkNode a new q) = lq_links q @ [new]"
  by (simp_all add: linkNode_def path_def nextOf_def nth_list_update) (cases "a < length (lq_nodes q)"; simp add: nth_list_update list_update_beyond)

lemma chainOk_link:
  assumes chain: "chainOk q" and a: "passed q a" "nextOf q a = None" and new: "new < length (lq_nodes q)" "new \<notin> set (path q)"
  shows "chainOk (linkNode a new q)"
proof -
  have e: "Suc (lq_swings q) = length (path q)" "a = path q ! lq_swings q" using passed_end [OF chain a] chainD(3) [OF chain] by simp_all
  have al: "a < length (lq_nodes q)" using chainD(2,6) [OF chain] e by simp
  have "nextOf q new = None" using chainD(7) [OF chain] new by simp
  moreover have "a \<noteq> new" using e chainD(2) [OF chain] new(2) by auto
  ultimately have nx: "nextOf (linkNode a new q) ((path q @ [new]) ! k) = (if Suc k < Suc (length (path q)) then Some ((path q @ [new]) ! Suc k) else None)"
    if kl: "k < Suc (length (path q))" for k
  proof -
    consider "k = length (path q)" | "k = lq_swings q" | "Suc k < length (path q)" using kl e(1) by linarith
    then show ?thesis
    proof cases
      case 3
      then have "path q ! k \<noteq> a" using e chainD(1,2) [OF chain] by (auto simp: nth_eq_iff_index_eq)
      then show ?thesis using 3 al chainD(5) [OF chain, of k] by (simp add: linkNode_simps nth_append)
    qed (use \<open>nextOf q new = None\<close> \<open>a \<noteq> new\<close> e al in \<open>simp_all add: linkNode_simps nth_append\<close>)
  qed
  have un: "nextOf (linkNode a new q) x = None" if "x < length (lq_nodes q)" "x \<notin> set (path q @ [new])" for x
    using chainD(7) [OF chain, of x] that al e chainD(2) [OF chain] by (auto simp: linkNode_simps)
  have tl: "lq_tail q = (path q @ [new]) ! lq_swings q" using chainD(2,3) [OF chain] by (simp add: nth_append)
  show ?thesis
    using chain new e(1) nx un tl unfolding chainOk_def linkNode_simps(1-6) by simp
qed

lemma callOk_setCall [simp]: "callOk (setCall i c q) d \<longleftrightarrow> callOk q d"
  by (cases d) (simp_all split: option.splits)

lemma callOk_swing: "callOk q d \<Longrightarrow> callOk (casTail a b q) d"
  by (cases d) (auto intro: passed_swing split: option.splits)

lemma ownOk_simps [simp]: "ownOk (setCall i c q) v d \<longleftrightarrow> ownOk q v d" "ownOk (casTail a b q) v d \<longleftrightarrow> ownOk q v d"
  by (simp_all add: ownOk_def split: option.splits)

lemma callsOkD:
  assumes "callsOk vs q" and "i < length vs"
  shows "callOk q (lq_calls q ! i)" "ownOk q (vs ! i) (lq_calls q ! i)" "length (lq_calls q) = length vs"
    "j < length vs \<Longrightarrow> i \<noteq> j \<Longrightarrow> nodeOf (lq_calls q ! i) = Some a \<Longrightarrow> nodeOf (lq_calls q ! j) \<noteq> Some a"
  using assms unfolding callsOk_def by (simp_all add: separate_def) metis

lemma callsOk_swing: "callsOk vs q \<Longrightarrow> callsOk vs (casTail a b q)"
  unfolding callsOk_def by (simp add: callOk_swing)

lemma map_nodeOf_update: "nodeOf c = nodeOf (cs ! i) \<Longrightarrow> map nodeOf (cs[i := c]) = map nodeOf cs"
  by (cases "i < length cs") (simp_all add: map_update list_update_same_conv list_update_beyond)

text \<open>A call moves on and keeps its node.\<close>

lemma callsOk_move:
  assumes ok: "callsOk vs q" and i: "i < length vs" and node: "nodeOf c = nodeOf (lq_calls q ! i)" "nodeOf c \<noteq> None"
    and l: "linked c = linked (lq_calls q ! i)" and c: "callOk q c"
  shows "callsOk vs (setCall i c q)"
proof -
  have len: "length (lq_calls q) = length vs" using ok by (simp add: callsOk_def)
  have "ownOk q (vs ! i) c" using callsOkD(2) [OF ok i] node l by (auto simp: ownOk_def split: option.splits)
  then have "callOk q ((lq_calls q)[i := c] ! j) \<and> ownOk q (vs ! j) ((lq_calls q)[i := c] ! j)" if "j < length vs" for j
    using that c len i callsOkD(1,2) [OF ok that] by (auto simp: nth_list_update)
  then show ?thesis
    using ok map_nodeOf_update [OF node(1)] unfolding callsOk_def by simp
qed

lemma passed_link: "chainOk q \<Longrightarrow> passed q x \<Longrightarrow> passed (linkNode a new q) x"
proof -
  assume chain: "chainOk q" and "passed q x"
  then obtain k where "k \<le> lq_swings q" "x = path q ! k" by (auto simp: passed_def)
  then show ?thesis using chainD(2) [OF chain] unfolding passed_def by (intro exI [of _ k]) (simp add: linkNode_simps nth_append)
qed

lemma passed_node: "chainOk q \<Longrightarrow> passed q x \<Longrightarrow> x < length (lq_nodes q)"
  using chainD(2,6) [of q] by (fastforce simp: passed_def)

lemma callOk_link:
  assumes "chainOk q" and "passed q a" and "nextOf q a = None" and "callOk q d"
  shows "callOk (linkNode a new q) d"
  using assms passed_link [OF assms(1)] passed_node [OF assms(1,2)]
  by (cases d) (auto simp: linkNode_simps split: option.splits)

text \<open>The call \<open>i\<close> links its node.\<close>

lemma lqInv_link:
  assumes inv: "lqInv vs q" and i: "i < length vs" and c: "lq_calls q ! i = TryLink new a" and none: "nextOf q a = None"
  shows "lqInv vs (setCall i (SwingTail new a) (linkNode a new q))"
proof -
  have chain: "chainOk q" and ok: "callsOk vs q" using inv by (simp_all add: lqInv_def)
  have a: "passed q a" using callsOkD(1) [OF ok i] c by simp
  have new: "0 < new" "new < length (lq_nodes q)" "new \<notin> set (lq_links q)" "nd_value (lq_nodes q ! new) = vs ! i"
    using callsOkD(2) [OF ok i] c by (simp_all add: ownOk_def)
  have al: "a < length (lq_nodes q)" by (rule passed_node [OF chain a])
  have len: "length (lq_calls q) = length vs" using ok by (simp add: callsOk_def)
  have chain': "chainOk (linkNode a new q)" by (rule chainOk_link [OF chain a none]) (use new in \<open>simp_all add: path_def\<close>)
  have calls: "callOk (linkNode a new q) ((lq_calls q)[i := SwingTail new a] ! j)" if "j < length vs" for j
    using callOk_link [OF chain a none callsOkD(1) [OF ok that], of new] passed_link [OF chain a, of a new] al that len i by (simp add: nth_list_update linkNode_simps)
  have own: "ownOk (linkNode a new q) (vs ! j) ((lq_calls q)[i := SwingTail new a] ! j)" if j: "j < length vs" for j
  proof (cases "j = i")
    case True
    then show ?thesis using new len i by (simp add: ownOk_def linkNode_simps)
  next
    case False
    then have "nodeOf (lq_calls q ! j) \<noteq> Some new" using callsOkD(4) [OF ok i j] c by simp
    then show ?thesis using callsOkD(2) [OF ok j] False by (auto simp: ownOk_def linkNode_simps split: option.splits)
  qed
  have "Some new \<in> set (map nodeOf (lq_calls q))" using nth_mem [of i "map nodeOf (lq_calls q)"] i len c by simp
  then have "callsOk vs (setCall i (SwingTail new a) (linkNode a new q))"
    using calls own ok map_nodeOf_update [of "SwingTail new a" "lq_calls q" i] c unfolding callsOk_def by (simp add: linkNode_simps)
  then show ?thesis using chain' by (simp add: lqInv_def)
qed

text \<open>The call \<open>i\<close> begins: its node is new.\<close>

definition freshNode :: "int \<Rightarrow> LockFreeQueue \<Rightarrow> LockFreeQueue" where
  "freshNode v q = q\<lparr>lq_nodes := lq_nodes q @ [\<lparr>nd_value = v, nd_next = None\<rparr>]\<rparr>"

lemma freshNode_simps:
  "lq_calls (freshNode v q) = lq_calls q" "path (freshNode v q) = path q" "lq_swings (freshNode v q) = lq_swings q" "lq_tail (freshNode v q) = lq_tail q"
  "lq_head (freshNode v q) = lq_head q" "lq_links (freshNode v q) = lq_links q" "passed (freshNode v q) = passed q" "length (lq_nodes (freshNode v q)) = Suc (length (lq_nodes q))"
  "a < length (lq_nodes q) \<Longrightarrow> nextOf (freshNode v q) a = nextOf q a" "a < length (lq_nodes q) \<Longrightarrow> lq_nodes (freshNode v q) ! a = lq_nodes q ! a"
  "lq_nodes (freshNode v q) ! length (lq_nodes q) = \<lparr>nd_value = v, nd_next = None\<rparr>" "nextOf (freshNode v q) (length (lq_nodes q)) = None"
  by (simp_all add: freshNode_def path_def nextOf_def passed_def fun_eq_iff nth_append)

lemma separate_update:
  assumes "separate ns" and "Some a \<notin> set ns"
  shows "separate (ns[i := Some a])"
proof (cases "i < length ns")
  case True
  have "ns ! j \<noteq> Some a" if "j < length ns" for j using assms(2) that nth_mem by metis
  then show ?thesis using assms(1) True unfolding separate_def by (simp add: nth_list_update) metis
qed (use assms in \<open>simp add: list_update_beyond\<close>)

lemma lqInv_begin:
  assumes inv: "lqInv vs q" and i: "i < length vs" and c: "lq_calls q ! i = Begin v"
  shows "lqInv vs (setCall i (LoadTail (length (lq_nodes q))) (freshNode v q))"
proof -
  have chain: "chainOk q" and ok: "callsOk vs q" using inv by (simp_all add: lqInv_def)
  have len: "length (lq_calls q) = length vs" and v: "v = vs ! i" using ok callsOkD(2) [OF ok i] c by (simp_all add: callsOk_def ownOk_def)
  have pl: "path q ! k < length (lq_nodes q)" if "k < length (path q)" for k using chainD(6) [OF chain that] .
  have old: "a < length (lq_nodes q)" if "a \<in> set (path q)" for a using chain that by (auto simp: chainOk_def)
  have chain': "chainOk (freshNode v q)"
    using chain pl old unfolding chainOk_def by (auto simp: freshNode_simps less_Suc_eq)
  have call: "callOk (freshNode v q) d" if "callOk q d" for d
    using that passed_node [OF chain] by (cases d) (auto simp: freshNode_simps split: option.splits)
  have own: "ownOk (freshNode v q) w d" if "ownOk q w d" for w d
    using that by (auto simp: ownOk_def freshNode_simps split: option.splits)
  have new: "ownOk (freshNode v q) v (LoadTail (length (lq_nodes q)))"
    using old [of "length (lq_nodes q)"] old [of 0] by (auto simp: ownOk_def freshNode_simps path_def)
  have "callOk (freshNode v q) ((lq_calls q)[i := LoadTail (length (lq_nodes q))] ! j) \<and> ownOk (freshNode v q) (vs ! j) ((lq_calls q)[i := LoadTail (length (lq_nodes q))] ! j)"
    if j: "j < length vs" for j
    using call [OF callsOkD(1) [OF ok j]] own [OF callsOkD(2) [OF ok j]] new v len i j by (auto simp: nth_list_update)
  moreover have fresh: "Some (length (lq_nodes q)) \<notin> set (map nodeOf (lq_calls q))"
  proof
    assume "Some (length (lq_nodes q)) \<in> set (map nodeOf (lq_calls q))"
    then obtain j where "j < length vs" "nodeOf (lq_calls q ! j) = Some (length (lq_nodes q))" using len by (auto simp: in_set_conv_nth)
    then show False using callsOkD(2) [OF ok] by (fastforce simp: ownOk_def)
  qed
  moreover have "Some ` set (lq_links q) \<subseteq> set (map nodeOf ((lq_calls q)[i := LoadTail (length (lq_nodes q))]))"
  proof
    fix x
    assume "x \<in> Some ` set (lq_links q)"
    then have "x \<in> set (map nodeOf (lq_calls q))" "x \<noteq> None" using ok by (auto simp: callsOk_def)
    then obtain j where j: "j < length vs" "nodeOf (lq_calls q ! j) = x" using len by (auto simp: in_set_conv_nth)
    then have "j \<noteq> i" using c \<open>x \<noteq> None\<close> by auto
    then show "x \<in> set (map nodeOf ((lq_calls q)[i := LoadTail (length (lq_nodes q))]))"
      using j len nth_mem [of j "map nodeOf ((lq_calls q)[i := LoadTail (length (lq_nodes q))])"] by simp
  qed
  ultimately have "callsOk vs (setCall i (LoadTail (length (lq_nodes q))) (freshNode v q))"
    using ok len separate_update [OF _ fresh, of i] unfolding callsOk_def by (simp add: freshNode_simps map_update)
  then show ?thesis using chain' by (simp add: lqInv_def)
qed

lemma lqInv_step:
  assumes inv: "lqInv vs q"
  shows "lqInv vs (enqueueStep q i)"
proof (cases "i < length vs")
  case i: True
  have chain: "chainOk q" and ok: "callsOk vs q" using inv by (simp_all add: lqInv_def)
  have len: "length (lq_calls q) = length vs" using ok by (simp add: callsOk_def)
  note move = callsOk_move [OF ok i] and mine = callsOkD(1) [OF ok i]
  have "passed q (lq_tail q)" using chainD(3) [OF chain] by (auto simp: passed_def)
  moreover have "lqInv vs (enqueueAct i (lq_calls q ! i) q)"
  proof (cases "lq_calls q ! i")
    case (Begin v)
    then show ?thesis using lqInv_begin [OF inv i Begin] by (simp add: freshNode_def)
  next
    case (LoadTail new)
    then show ?thesis using chain move [of "LoadNext new (lq_tail q)"] \<open>passed q (lq_tail q)\<close> by (simp add: lqInv_def)
  next
    case (LoadNext new lst)
    then show ?thesis using chain move [of "Recheck new lst (nextOf q lst)"] mine by (simp add: lqInv_def split: option.splits)
  next
    case (Recheck new lst nxt)
    then show ?thesis
      using chain move [of "TryLink new lst"] move [of "LoadTail new"] move [of "HelpSwing new lst b" for b] mine by (auto simp: lqInv_def split: option.splits)
  next
    case (TryLink new lst)
    then show ?thesis using chain lqInv_link [OF inv i TryLink] move [of "LoadTail new"] by (simp add: lqInv_def)
  next
    case (HelpSwing new lst b)
    then have "callsOk vs (setCall i (LoadTail new) (casTail lst b q))" using callsOk_move [OF callsOk_swing [OF ok] i, of "LoadTail new"] by simp
    then show ?thesis using HelpSwing chainOk_swing [OF chain] mine by (simp add: lqInv_def)
  next
    case (SwingTail new lst)
    then have "callsOk vs (setCall i (Enqueued new) (casTail lst new q))"
      using callsOk_move [OF callsOk_swing [OF ok] i, of "Enqueued new"] passed_swung [OF chain] mine by simp
    then show ?thesis using SwingTail chainOk_swing [OF chain] mine by (simp add: lqInv_def)
  qed (use inv in simp)
  ultimately show ?thesis using i len by (simp add: enqueueStep_def)
qed (use inv in \<open>simp add: enqueueStep_def lqInv_def callsOk_def\<close>)

interpretation lock_free_queue: locked_object enqueueStep "lqInv vs" for vs
  by unfold_locales (rule lqInv_step)

lemma lqInv_new: "lqInv vs (newLockFreeQueue vs)"
  by (auto simp: lqInv_def chainOk_def callsOk_def newLockFreeQueue_def path_def nextOf_def ownOk_def separate_def)

section \<open>What the queue holds\<close>

definition valueAt :: "LockFreeQueue \<Rightarrow> nat \<Rightarrow> int" where
  "valueAt q a = nd_value (lq_nodes q ! a)"

lemma valuesFrom_path:
  assumes chain: "chainOk q"
  shows "k < length (path q) \<Longrightarrow> length (path q) \<le> fuel + Suc k \<Longrightarrow> valuesFrom fuel q (nextOf q (path q ! k)) = map (valueAt q) (drop (Suc k) (path q))"
proof (induction fuel arbitrary: k)
  case 0
  then show ?case by simp
next
  case (Suc fuel)
  then show ?case
    using chainD(5) [OF chain, of k] by (auto simp: valueAt_def Cons_nth_drop_Suc [symmetric] split: if_splits)
qed

lemma contents_links:
  assumes chain: "chainOk q"
  shows "contents q = map (valueAt q) (lq_links q)"
proof -
  have "card (set (path q)) \<le> length (lq_nodes q)" using chain card_mono [of "{..<length (lq_nodes q)}" "set (path q)"] by (simp add: chainOk_def)
  then have "length (path q) \<le> length (lq_nodes q)" using distinct_card [OF chainD(1) [OF chain]] by simp
  then show ?thesis using valuesFrom_path [OF chain, of 0 "length (lq_nodes q)"] chain by (simp add: contents_def chainOk_def path_def)
qed

lemma enqueueStep_grows:
  "prefix (lq_links q) (lq_links (enqueueStep q i)) \<and> (\<forall>a < length (lq_nodes q). valueAt (enqueueStep q i) a = valueAt q a) \<and> length (lq_nodes q) \<le> length (lq_nodes (enqueueStep q i))"
  by (cases "(i, lq_calls q ! i, q)" rule: enqueueAct.cases)
    (auto simp: enqueueStep_def valueAt_def linkNode_simps freshNode_simps nth_append)

lemma run_grows:
  "prefix (lq_links q) (lq_links (run enqueueStep q es)) \<and> (\<forall>a < length (lq_nodes q). valueAt (run enqueueStep q es) a = valueAt q a)"
proof (induction es arbitrary: q)
  case (Cons i es)
  show ?case using Cons [of "enqueueStep q i"] enqueueStep_grows [of q i] by (auto intro: prefix_order.trans)
qed simp

lemma contents_grow:
  assumes "lqInv vs q"
  shows "prefix (contents q) (contents (run enqueueStep q es))"
proof -
  have chain: "chainOk q" "chainOk (run enqueueStep q es)" using assms lock_free_queue.inv_run [OF assms] by (simp_all add: lqInv_def)
  obtain xs where xs: "lq_links (run enqueueStep q es) = lq_links q @ xs" using run_grows [of q es] by (auto simp: prefix_def)
  have "map (valueAt (run enqueueStep q es)) (lq_links q) = map (valueAt q) (lq_links q)"
    using run_grows [of q es] chain(1) by (auto simp: chainOk_def path_def)
  then show ?thesis unfolding contents_links [OF chain(1)] contents_links [OF chain(2)] xs map_append by (metis prefixI)
qed

text \<open>The nodes that are linked are those of the calls past the link.\<close>

lemma linked_calls:
  assumes inv: "lqInv vs q"
  shows "mset (lq_links q) = mset (map (\<lambda>i. the (nodeOf (lq_calls q ! i))) (filter (\<lambda>i. linked (lq_calls q ! i)) [0..<length vs]))"
proof -
  have chain: "chainOk q" and ok: "callsOk vs q" using inv by (simp_all add: lqInv_def)
  define js where "js = filter (\<lambda>i. linked (lq_calls q ! i)) [0..<length vs]"
  have node: "\<exists>a. nodeOf c = Some a" if "linked c" for c using that by (cases c) simp_all
  have own: "nodeOf (lq_calls q ! i) = Some a \<Longrightarrow> a \<in> set (lq_links q) \<longleftrightarrow> linked (lq_calls q ! i)" if "i < length vs" for i a
    using callsOkD(2) [OF ok that] by (simp add: ownOk_def)
  have "inj_on (\<lambda>i. the (nodeOf (lq_calls q ! i))) (set js)"
  proof (rule inj_onI)
    fix i j
    assume ij: "i \<in> set js" "j \<in> set js" "the (nodeOf (lq_calls q ! i)) = the (nodeOf (lq_calls q ! j))"
    then obtain a where "nodeOf (lq_calls q ! i) = Some a" "nodeOf (lq_calls q ! j) = Some a" using node by (fastforce simp: js_def)
    then show "i = j" using callsOkD(4) [OF ok, of i j a] ij by (auto simp: js_def)
  qed
  then have "distinct (map (\<lambda>i. the (nodeOf (lq_calls q ! i))) js)" by (simp add: distinct_map js_def)
  moreover have "distinct (lq_links q)" using chain by (simp add: chainOk_def path_def)
  moreover have "set (lq_links q) = set (map (\<lambda>i. the (nodeOf (lq_calls q ! i))) js)"
  proof
    show "set (lq_links q) \<subseteq> set (map (\<lambda>i. the (nodeOf (lq_calls q ! i))) js)"
    proof
      fix a
      assume a: "a \<in> set (lq_links q)"
      then have "Some a \<in> set (map nodeOf (lq_calls q))" and "length (lq_calls q) = length vs" using ok by (auto simp: callsOk_def)
      then obtain i where i: "i < length vs" "nodeOf (lq_calls q ! i) = Some a" by (auto simp: in_set_conv_nth)
      then have "i \<in> set js" using own [OF i] a by (simp add: js_def)
      then show "a \<in> set (map (\<lambda>i. the (nodeOf (lq_calls q ! i))) js)" using i(2) by (auto intro!: image_eqI [of _ _ i])
    qed
    show "set (map (\<lambda>i. the (nodeOf (lq_calls q ! i))) js) \<subseteq> set (lq_links q)"
      using node own by (fastforce simp: js_def)
  qed
  ultimately show ?thesis unfolding js_def [symmetric] using set_eq_iff_mset_eq_distinct by blast
qed

text \<open>C32.  In every interleaving of calls of the lock-free enqueue, the list from the head on holds exactly the values of the calls that have linked their node, each once.  Nothing is ever removed or reordered: what the list held after the first \<open>m\<close> steps
  is a beginning of what it holds later, so that a value whose call had finished by then comes before every value linked afterwards.  The tail is the last node or the one before it, and when all calls have finished it is the last one.\<close>

theorem queue_linearizable:
  "let q = run enqueueStep (newLockFreeQueue vs) es
   in mset (contents q) = mset (map (nth vs) (filter (\<lambda>i. linked (lq_calls q ! i)) [0..<length vs])) \<and>
      prefix (contents (run enqueueStep (newLockFreeQueue vs) (take m es))) (contents q) \<and>
      (case nextOf q (lq_tail q) of None \<Rightarrow> True | Some b \<Rightarrow> nextOf q b = None) \<and>
      (list_all (\<lambda>c. \<exists>a. c = Enqueued a) (lq_calls q) \<longrightarrow> nextOf q (lq_tail q) = None)"
proof -
  define q where "q = run enqueueStep (newLockFreeQueue vs) es"
  have inv: "lqInv vs q" using lock_free_queue.inv_run [OF lqInv_new] by (simp add: q_def)
  then have chain: "chainOk q" and ok: "callsOk vs q" by (simp_all add: lqInv_def)
  have "mset (contents q) = image_mset (valueAt q) (mset (lq_links q))" by (simp add: contents_links [OF chain])
  also have "\<dots> = mset (map (nth vs) (filter (\<lambda>i. linked (lq_calls q ! i)) [0..<length vs]))"
  proof -
    have "valueAt q (the (nodeOf (lq_calls q ! i))) = vs ! i" if "i < length vs" "linked (lq_calls q ! i)" for i
      using callsOkD(2) [OF ok that(1)] that(2) by (cases "lq_calls q ! i") (simp_all add: ownOk_def valueAt_def)
    then show ?thesis unfolding linked_calls [OF inv] by (auto simp: multiset.map_comp intro!: image_mset_cong)
  qed
  finally have 1: "mset (contents q) = mset (map (nth vs) (filter (\<lambda>i. linked (lq_calls q ! i)) [0..<length vs]))" .
  have 2: "prefix (contents (run enqueueStep (newLockFreeQueue vs) (take m es))) (contents q)"
    using contents_grow [OF lock_free_queue.inv_run [OF lqInv_new], of vs "take m es" "drop m es"] run_append [of enqueueStep "newLockFreeQueue vs" "take m es" "drop m es"]
    by (simp add: q_def)
  have 3: "nextOf q b = None" if "nextOf q (lq_tail q) = Some b" for b
    using tail_next [OF chain that] chainD(5) [OF chain, of "Suc (lq_swings q)"] chainD(4) [OF chain] by auto
  have 4: "nextOf q (lq_tail q) = None" if fin: "list_all (\<lambda>c. \<exists>a. c = Enqueued a) (lq_calls q)"
  proof (rule ccontr)
    assume "nextOf q (lq_tail q) \<noteq> None"
    then obtain b where b: "Suc (lq_swings q) < length (path q)" "b = path q ! Suc (lq_swings q)" using tail_next [OF chain] by auto
    then have "Some b \<in> set (map nodeOf (lq_calls q))" and "length (lq_calls q) = length vs" using ok nth_mem [of "lq_swings q" "lq_links q"] by (auto simp: callsOk_def path_def)
    then obtain i where i: "i < length vs" "nodeOf (lq_calls q ! i) = Some b" by (auto simp: in_set_conv_nth)
    moreover obtain a where "lq_calls q ! i = Enqueued a" using fin i(1) \<open>length (lq_calls q) = length vs\<close> by (auto simp: list_all_length)
    ultimately have "i < length vs" "lq_calls q ! i = Enqueued b" by simp_all
    then have "passed q b" using callsOkD(1) [OF ok] by force
    then show False using b chainD(1,2) [OF chain] by (auto simp: passed_def nth_eq_iff_index_eq)
  qed
  show ?thesis using 1 2 3 4 unfolding q_def [symmetric] by (simp add: Let_def split: option.splits)
qed

section \<open>Every call finishes\<close>

text \<open>A call whose reading is out of date has to try once more.  Every link and every move of the tail is paid for by the calls: there are at most as many of each as there are calls.\<close>

fun stale :: "LockFreeQueue \<Rightarrow> Enqueue \<Rightarrow> bool" where
  "stale q (LoadNext new lst) \<longleftrightarrow> lq_tail q \<noteq> lst"
| "stale q (Recheck new lst nxt) \<longleftrightarrow> lq_tail q \<noteq> lst \<or> nextOf q lst \<noteq> nxt"
| "stale q (TryLink new lst) \<longleftrightarrow> nextOf q lst \<noteq> None"
| "stale q (HelpSwing new lst b) \<longleftrightarrow> lq_tail q \<noteq> lst"
| "stale q _ \<longleftrightarrow> False"

definition changesLeft :: "nat \<Rightarrow> LockFreeQueue \<Rightarrow> nat" where
  "changesLeft n q = (n - length (lq_links q)) + (n - lq_swings q)"

fun stage :: "Enqueue \<Rightarrow> nat" where
  "stage (Begin v) = 6"
| "stage (LoadTail new) = 5"
| "stage (LoadNext new lst) = 4"
| "stage (Recheck new lst nxt) = 3"
| "stage (TryLink new lst) = 2"
| "stage (HelpSwing new lst b) = 2"
| "stage (SwingTail new lst) = 1"
| "stage (Enqueued new) = 0"

definition stepsLeft :: "nat \<Rightarrow> LockFreeQueue \<Rightarrow> Enqueue \<Rightarrow> nat" where
  "stepsLeft n q c = (if linked c then stage c else 5 * changesLeft n q + stage c + (if stale q c then 5 else 0))"

lemma links_bound:
  assumes inv: "lqInv vs q"
  shows "length (lq_links q) \<le> length vs" "lq_swings q \<le> length vs"
proof -
  have "length (filter (\<lambda>i. linked (lq_calls q ! i)) [0..<length vs]) \<le> length vs" using length_filter_le [of _ "[0..<length vs]"] by simp
  then have "size (mset (lq_links q)) \<le> length vs" unfolding linked_calls [OF inv] size_mset length_map .
  then show "length (lq_links q) \<le> length vs" by simp
  then show "lq_swings q \<le> length vs" using chainD(2) [of q] inv by (simp add: lqInv_def path_def)
qed

text \<open>A step changes neither the tail nor a pointer, or it uses up a change.\<close>

lemma step_changes:
  assumes inv: "lqInv vs q"
  shows "(lq_tail (enqueueStep q i) = lq_tail q \<and> changesLeft (length vs) (enqueueStep q i) = changesLeft (length vs) q \<and>
      (\<forall>a < length (lq_nodes q). nextOf (enqueueStep q i) a = nextOf q a)) \<or> changesLeft (length vs) (enqueueStep q i) < changesLeft (length vs) q"
proof (cases "i < length (lq_calls q)")
  case True
  note bound = links_bound [OF lqInv_step [OF inv, of i]]
  show ?thesis
    using True bound
    by (cases "(i, lq_calls q ! i, q)" rule: enqueueAct.cases)
      (auto simp: enqueueStep_def changesLeft_def casTail_def linkNode_simps freshNode_simps setCall_def nextOf_def path_def nth_append linkNode_def)
qed (simp add: enqueueStep_def)

lemma calls_other: "i \<noteq> j \<Longrightarrow> lq_calls (enqueueStep q i) ! j = lq_calls q ! j"
  by (cases "(i, lq_calls q ! i, q)" rule: enqueueAct.cases) (auto simp: enqueueStep_def linkNode_simps)

text \<open>The steps of the others do not add to what a call still has to do.\<close>

lemma stepsLeft_other:
  assumes inv: "lqInv vs q" and j: "j < length vs"
  shows "stepsLeft (length vs) (enqueueStep q i) (lq_calls q ! j) \<le> stepsLeft (length vs) q (lq_calls q ! j)"
proof -
  have chain: "chainOk q" using inv by (simp add: lqInv_def)
  have ok: "callOk q (lq_calls q ! j)" using inv callsOkD(1) [OF _ j] by (simp add: lqInv_def)
  consider "lq_tail (enqueueStep q i) = lq_tail q" "changesLeft (length vs) (enqueueStep q i) = changesLeft (length vs) q" "\<forall>a < length (lq_nodes q). nextOf (enqueueStep q i) a = nextOf q a"
    | "changesLeft (length vs) (enqueueStep q i) < changesLeft (length vs) q" using step_changes [OF inv, of i] by blast
  then show ?thesis
  proof cases
    case 1
    have "stale (enqueueStep q i) (lq_calls q ! j) = stale q (lq_calls q ! j)"
      using ok 1 passed_node [OF chain] by (cases "lq_calls q ! j") simp_all
    then show ?thesis using 1 by (simp add: stepsLeft_def)
  qed (simp add: stepsLeft_def)
qed

lemma stepsLeft_own:
  assumes inv: "lqInv vs q" and i: "i < length vs" and busy: "stage (lq_calls q ! i) \<noteq> 0"
  shows "stepsLeft (length vs) (enqueueStep q i) (lq_calls (enqueueStep q i) ! i) < stepsLeft (length vs) q (lq_calls q ! i)"
proof -
  have chain: "chainOk q" and ok: "callsOk vs q" using inv by (simp_all add: lqInv_def)
  have len: "length (lq_calls q) = length vs" using ok by (simp add: callsOk_def)
  have mine: "callOk q (lq_calls q ! i)" by (rule callsOkD(1) [OF ok i])
  note simps = enqueueStep_def stepsLeft_def changesLeft_def i len
  show ?thesis
  proof (cases "lq_calls q ! i")
    case (Begin v)
    then show ?thesis by (simp add: simps setCall_def)
  next
    case (Recheck new lst nxt)
    then show ?thesis using mine by (auto simp: simps setCall_def nextOf_def split: option.splits)
  next
    case (HelpSwing new lst b)
    show ?thesis
    proof (cases "lq_tail q = lst")
      case True
      then have "Suc (lq_swings q) \<le> length vs" using links_bound(2) [OF lqInv_step [OF inv, of i]] HelpSwing i len by (simp add: enqueueStep_def casTail_def)
      then show ?thesis using HelpSwing True by (simp add: simps casTail_def)
    next
      case False
      then show ?thesis using HelpSwing by (simp add: simps casTail_def)
    qed
  qed (use busy in \<open>simp_all add: simps casTail_def linkNode_simps(1)\<close>)
qed

lemma stepsLeft_run:
  assumes "lqInv vs q" and "i < length vs"
  shows "stepsLeft (length vs) (run enqueueStep q es) (lq_calls (run enqueueStep q es) ! i) \<le> stepsLeft (length vs) q (lq_calls q ! i) - count_list es i"
  using assms
proof (induction es arbitrary: q)
  case (Cons j es)
  have ih: "stepsLeft (length vs) (run enqueueStep q (j # es)) (lq_calls (run enqueueStep q (j # es)) ! i) \<le>
      stepsLeft (length vs) (enqueueStep q j) (lq_calls (enqueueStep q j) ! i) - count_list es i"
    using Cons.IH [OF lqInv_step [OF Cons.prems(1)] Cons.prems(2)] by simp
  show ?case
  proof (cases "j = i")
    case False
    then show ?thesis using ih stepsLeft_other [OF Cons.prems, of j] by (simp add: calls_other)
  next
    case True
    show ?thesis
    proof (cases "stage (lq_calls q ! i) = 0")
      case z: True
      then obtain a where "lq_calls q ! i = Enqueued a" by (cases "lq_calls q ! i") simp_all
      then have "enqueueStep q j = q" using True by (simp add: enqueueStep_def)
      moreover have "stepsLeft (length vs) q (lq_calls q ! i) = 0" using \<open>lq_calls q ! i = Enqueued a\<close> by (simp add: stepsLeft_def)
      ultimately show ?thesis using ih by simp
    next
      case False
      then show ?thesis using ih stepsLeft_own [OF Cons.prems False] True by simp
    qed
  qed
qed simp

text \<open>C33.  Every call of the lock-free enqueue finishes: among \<open>n\<close> calls, one that has made \<open>10 n + 6\<close> steps of its own has returned, whatever the schedule of the others, and then its value is in the queue.\<close>

theorem queue_enqueue_finishes:
  assumes "i < length vs" and "10 * length vs + 6 \<le> count_list es i"
  shows "let q = run enqueueStep (newLockFreeQueue vs) es in (\<exists>a. lq_calls q ! i = Enqueued a) \<and> vs ! i \<in> set (contents q)"
proof -
  define q where "q = run enqueueStep (newLockFreeQueue vs) es"
  have inv: "lqInv vs q" using lock_free_queue.inv_run [OF lqInv_new] by (simp add: q_def)
  have "stepsLeft (length vs) (newLockFreeQueue vs) (lq_calls (newLockFreeQueue vs) ! i) = 10 * length vs + 6"
    using assms(1) by (simp add: stepsLeft_def newLockFreeQueue_def changesLeft_def)
  then have "stepsLeft (length vs) q (lq_calls q ! i) = 0" using stepsLeft_run [OF lqInv_new assms(1), of es] assms(2) by (simp add: q_def)
  then obtain a where a: "lq_calls q ! i = Enqueued a" by (cases "lq_calls q ! i") (simp_all add: stepsLeft_def)
  then have "a \<in> set (lq_links q)" "valueAt q a = vs ! i" using inv callsOkD(2) [OF _ assms(1), of q] by (simp_all add: lqInv_def ownOk_def valueAt_def)
  then have "vs ! i \<in> set (contents q)" using contents_links [of q] inv by (force simp: lqInv_def)
  then show ?thesis using a unfolding q_def [symmetric] by (simp add: Let_def)
qed

theorem queue_enqueue_finishes_witness:
  "let q = run enqueueStep (newLockFreeQueue [7, 8]) (concat (replicate 26 [1, 0])) in (\<exists>a. lq_calls q ! 0 = Enqueued a) \<and> 7 \<in> set (contents q)"
proof -
  have "10 * length [7 :: int, 8] + 6 \<le> count_list (concat (replicate 26 [1, 0 :: nat])) 0" by (simp add: numeral_nat)
  then show ?thesis using queue_enqueue_finishes [of 0 "[7, 8]" "concat (replicate 26 [1, 0])"] by (simp only: Let_def) simp
qed

text \<open>Two calls that both read the sentinel as the last node: one links first, the other one tries again behind it and moves the tail.\<close>

theorem queue_linearizable_witness:
  "let es = [0, 1, 0, 1, 0, 1, 0, 1, 1, 0, 1, 1, 1, 1, 1, 0, 1, 1, 1, 1, 1, 1, 0, 0, 0, 0, 0, 0, 0, 0, 0, 0];
       q = run enqueueStep (newLockFreeQueue [7, 8]) es
   in lq_calls q = [Enqueued 1, Enqueued 2] \<and> contents q = [8, 7] \<and> nextOf q (lq_tail q) = None \<and> prefix (contents (run enqueueStep (newLockFreeQueue [7, 8]) (take 9 es))) [8, 7]"
proof -
  define es :: "nat list" where "es = [0, 1, 0, 1, 0, 1, 0, 1, 1, 0, 1, 1, 1, 1, 1, 0, 1, 1, 1, 1, 1, 1, 0, 0, 0, 0, 0, 0, 0, 0, 0, 0]"
  define q where "q = run enqueueStep (newLockFreeQueue [7, 8]) es"
  have c: "lq_calls q = [Enqueued 1, Enqueued 2]" "contents q = [8, 7]" unfolding q_def es_def by code_simp+
  then have "nextOf q (lq_tail q) = None \<and> prefix (contents (run enqueueStep (newLockFreeQueue [7, 8]) (take 9 es))) (contents q)"
    using queue_linearizable [of "[7, 8]" es 9] unfolding q_def [symmetric] by (simp add: Let_def)
  then show ?thesis using c unfolding es_def [symmetric] q_def [symmetric] Let_def by simp
qed

end
