(* ===== verification/ScalingPatterns.thy ===== *)
theory ScalingPatterns
  imports GoPrelude
begin

text \<open>
  The other structures of \<open>src/solutions/solution08_performance.go\<close> that keep state: the counter with sixteen shards (solution 1), the collection of items into batches (solution 2 and the batch example) and the pool that starts workers on demand
  (solution 3).  Locking one shard is a step; in the pool every atomic access is a step.

  Shown: a total that is read while other goroutines increment lies between the number of increments when the reading began and the number when it ended, and is exact when nobody increments; batches hold the items in order, all of them, and only
  the last may be short; the pool never has more workers than its maximum, nor fewer than its minimum before the channel is closed.
\<close>

section \<open>Sharded counter\<close>

text \<open>A reading in progress is at a shard with the sum so far; \<open>sr_from\<close> records the number of increments when it began.\<close>

datatype TotalReading = NotStarted | Reading nat int int | TotalIs int int

record ShardedCounter =
  sh_values :: "int list"
  sh_readers :: "TotalReading list"

definition newShardedCounter :: "nat \<Rightarrow> ShardedCounter" where
  "newShardedCounter n = \<lparr>sh_values = replicate 16 0, sh_readers = replicate n NotStarted\<rparr>"

text \<open>\<open>shardedIncrement\<close>; the identifier of a worker is not negative.\<close>

definition shardedIncrement :: "nat \<Rightarrow> ShardedCounter \<Rightarrow> ShardedCounter" where
  "shardedIncrement wid c = (let k = wid mod 16 in c\<lparr>sh_values := (sh_values c)[k := i64 (sh_values c ! k + 1)]\<rparr>)"

definition increments :: "ShardedCounter \<Rightarrow> int" where
  "increments c = sum_list (sh_values c)"

definition shardedTotal :: "nat \<Rightarrow> ShardedCounter \<Rightarrow> ShardedCounter" where
  "shardedTotal r c =
     (if r < length (sh_readers c)
      then (case sh_readers c ! r of
              NotStarted \<Rightarrow> c\<lparr>sh_readers := (sh_readers c)[r := Reading 0 0 (increments c)]\<rparr>
            | Reading k tot began \<Rightarrow>
                c\<lparr>sh_readers := (sh_readers c)[r := (if k < length (sh_values c) then Reading (Suc k) (i64 (tot + sh_values c ! k)) began else TotalIs tot began)]\<rparr>
            | TotalIs tot began \<Rightarrow> c)
      else c)"

datatype SCStep = ShardIncrement nat | ReadStep nat

fun shStep :: "ShardedCounter \<Rightarrow> SCStep \<Rightarrow> ShardedCounter" where
  "shStep c (ShardIncrement wid) = shardedIncrement wid c"
| "shStep c (ReadStep r) = shardedTotal r c"

fun shOk :: "ShardedCounter \<Rightarrow> SCStep \<Rightarrow> bool" where
  "shOk c e \<longleftrightarrow> increments c < 2 ^ 63 - 1"

text \<open>The shards already read have only grown since; together with the others they have all that was there at the beginning.\<close>

fun readerOk :: "int list \<Rightarrow> TotalReading \<Rightarrow> bool" where
  "readerOk vs NotStarted \<longleftrightarrow> True"
| "readerOk vs (Reading k tot began) \<longleftrightarrow> k \<le> length vs \<and> 0 \<le> tot \<and> tot \<le> sum_list (take k vs) \<and> began \<le> tot + sum_list (drop k vs)"
| "readerOk vs (TotalIs tot began) \<longleftrightarrow> began \<le> tot \<and> tot \<le> sum_list vs"

definition shInv :: "nat \<Rightarrow> ShardedCounter \<Rightarrow> bool" where
  "shInv n c \<longleftrightarrow> length (sh_values c) = 16 \<and> length (sh_readers c) = n \<and> list_all (\<lambda>v. 0 \<le> v) (sh_values c) \<and> list_all (readerOk (sh_values c)) (sh_readers c)"

lemma nonneg_parts: "list_all (\<lambda>v. 0 \<le> v) vs \<Longrightarrow> 0 \<le> sum_list (take k vs) \<and> 0 \<le> sum_list (drop k (vs :: int list))"
  by (auto simp: list_all_iff intro!: sum_list_nonneg dest!: in_set_takeD in_set_dropD)

lemma take_drop_sum: "sum_list (take k vs) + sum_list (drop k vs) = sum_list (vs :: int list)"
  by (metis append_take_drop_id sum_list_append)

lemma nth_le_sum: "list_all (\<lambda>v. 0 \<le> v) vs \<Longrightarrow> k < length vs \<Longrightarrow> vs ! k \<le> sum_list (vs :: int list)"
  using nonneg_parts [of vs k] nonneg_parts [of vs "Suc k"] take_drop_sum [of k vs] by (simp add: Cons_nth_drop_Suc [symmetric])

lemma sum_increment: "k < length vs \<Longrightarrow> sum_list (vs[k := vs ! k + 1]) = sum_list vs + (1 :: int)"
proof (induction vs arbitrary: k)
  case (Cons v vs)
  then show ?case by (cases k) simp_all
qed simp

lemma sum_update_take: "k < length vs \<Longrightarrow> sum_list (take j (vs[k := vs ! k + 1])) = sum_list (take j vs) + (if k < j then 1 else (0 :: int))"
  using sum_increment [of k "take j vs"] by (cases "k < j") (simp_all add: take_update_swap list_update_beyond)

lemma sum_update_drop: "k < length vs \<Longrightarrow> sum_list (drop j (vs[k := vs ! k + 1])) = sum_list (drop j vs) + (if k < j then 0 else (1 :: int))"
  using sum_increment [of "k - j" "drop j vs"] by (cases "k < j") (simp_all add: drop_update_swap drop_update_cancel)

lemma readerOk_increment:
  assumes "k < length vs" and "readerOk vs r"
  shows "readerOk (vs[k := vs ! k + 1]) r"
  using assms by (cases r) (auto simp: sum_update_take sum_update_drop sum_increment)

interpretation sharded_counter: guarded_object shStep "shInv n" shOk for n
proof
  fix c e
  assume inv: "shInv n c" and ok: "shOk c e"
  have nn: "list_all (\<lambda>v. 0 \<le> v) (sh_values c)" and l: "length (sh_values c) = 16" and ro: "list_all (readerOk (sh_values c)) (sh_readers c)" using inv by (simp_all add: shInv_def)
  show "shInv n (shStep c e)"
  proof (cases e)
    case (ShardIncrement wid)
    define k where "k = wid mod 16"
    have k: "k < length (sh_values c)" using l by (simp add: k_def)
    have "0 \<le> sh_values c ! k" using nn k by (simp add: list_all_length)
    then have "i64 (sh_values c ! k + 1) = sh_values c ! k + 1" using nth_le_sum [OF nn k] ok by (auto simp: increments_def intro!: i64_id)
    moreover have "list_all (\<lambda>v. 0 \<le> v) ((sh_values c)[k := sh_values c ! k + 1])" using nn \<open>0 \<le> sh_values c ! k\<close> k by (auto simp: list_all_length nth_list_update)
    moreover have "list_all (readerOk ((sh_values c)[k := sh_values c ! k + 1])) (sh_readers c)" using ro readerOk_increment [OF k] by (auto simp: list_all_iff)
    ultimately show ?thesis using inv ShardIncrement by (simp add: shInv_def shardedIncrement_def Let_def k_def)
  next
    case (ReadStep r)
    show ?thesis
    proof (cases "r < length (sh_readers c)")
      case True
      then have mine: "readerOk (sh_values c) (sh_readers c ! r)" using ro by (simp add: list_all_length)
      have set: "list_all (readerOk (sh_values c)) ((sh_readers c)[r := x])" if "readerOk (sh_values c) x" for x
        using ro that by (auto simp: list_all_iff dest!: set_update_subset_insert [THEN subsetD])
      show ?thesis
      proof (cases "sh_readers c ! r")
        case (Reading k tot began)
        show ?thesis
        proof (cases "k < length (sh_values c)")
          case k: True
          have "sum_list (take (Suc k) (sh_values c)) = sum_list (take k (sh_values c)) + sh_values c ! k"
            "sum_list (drop k (sh_values c)) = sh_values c ! k + sum_list (drop (Suc k) (sh_values c))"
            using k by (simp_all add: take_Suc_conv_app_nth Cons_nth_drop_Suc [symmetric])
          moreover have "0 \<le> sh_values c ! k" using nn k by (simp add: list_all_length)
          moreover have "sum_list (take (Suc k) (sh_values c)) \<le> sum_list (sh_values c)" using take_drop_sum [of "Suc k" "sh_values c"] nonneg_parts [OF nn, of "Suc k"] by simp
          moreover have "i64 (tot + sh_values c ! k) = tot + sh_values c ! k" using calculation mine Reading ok by (auto simp: increments_def intro!: i64_id)
          ultimately have "readerOk (sh_values c) (Reading (Suc k) (i64 (tot + sh_values c ! k)) began)" using mine Reading k by simp
          then show ?thesis using inv ReadStep True Reading k set by (simp add: shInv_def shardedTotal_def)
        next
          case False
          then show ?thesis using inv ReadStep True Reading set [of "TotalIs tot began"] mine by (simp add: shInv_def shardedTotal_def)
        qed
      qed (use inv ReadStep True set [of "Reading 0 0 (increments c)"] in \<open>simp_all add: shInv_def shardedTotal_def increments_def\<close>)
    qed (use inv ReadStep in \<open>simp add: shardedTotal_def\<close>)
  qed
qed

lemma shInv_new: "shInv n (newShardedCounter n)"
  by (simp add: shInv_def newShardedCounter_def list_all_iff)

text \<open>The increments are all counted.\<close>

lemma increments_step: "shInv n c \<Longrightarrow> shOk c e \<Longrightarrow> increments (shStep c e) = increments c + (case e of ShardIncrement wid \<Rightarrow> 1 | ReadStep r \<Rightarrow> 0)"
proof (cases e)
  case (ShardIncrement wid)
  assume inv: "shInv n c" and ok: "shOk c e"
  have k: "wid mod 16 < length (sh_values c)" and nn: "list_all (\<lambda>v. 0 \<le> v) (sh_values c)" using inv by (simp_all add: shInv_def)
  have "0 \<le> sh_values c ! (wid mod 16)" using nn k by (simp add: list_all_length)
  then have "i64 (sh_values c ! (wid mod 16) + 1) = sh_values c ! (wid mod 16) + 1" using nth_le_sum [OF nn k] ok by (auto simp: increments_def intro!: i64_id)
  then show ?thesis using ShardIncrement sum_increment [OF k] by (simp add: shardedIncrement_def Let_def increments_def)
next
  case (ReadStep r)
  then show ?thesis by (auto simp: shardedTotal_def increments_def split: TotalReading.splits)
qed

text \<open> In every interleaving of increments and readings, the shards together hold the number of increments, and a finished reading lies between the number of increments when it began and the present number; hence it is exact if there were none in between.\<close>

theorem sharded_total_bounds:
  assumes "length es < 2 ^ 62"
  shows "let c = run shStep (newShardedCounter n) es
    in increments c = int (length (filter (\<lambda>e. case e of ShardIncrement wid \<Rightarrow> True | ReadStep r \<Rightarrow> False) es)) \<and>
       list_all (\<lambda>r. case r of TotalIs tot began \<Rightarrow> began \<le> tot \<and> tot \<le> increments c | _ \<Rightarrow> True) (sh_readers c)"
proof -
  have "admissible shStep shOk (newShardedCounter n) es \<and>
      increments (run shStep (newShardedCounter n) es) = int (length (filter (\<lambda>e. case e of ShardIncrement wid \<Rightarrow> True | ReadStep r \<Rightarrow> False) es))"
    using assms
  proof (induction es rule: rev_induct)
    case Nil
    then show ?case by (simp add: newShardedCounter_def increments_def sum_list_replicate)
  next
    case (snoc e es)
    then have ih: "admissible shStep shOk (newShardedCounter n) es"
      "increments (run shStep (newShardedCounter n) es) = int (length (filter (\<lambda>e. case e of ShardIncrement wid \<Rightarrow> True | ReadStep r \<Rightarrow> False) es))" by (simp_all del: shOk.simps)
    have "shInv n (run shStep (newShardedCounter n) es)" by (rule sharded_counter.guarded_run [OF shInv_new ih(1)])
    moreover have "length es < 2 ^ 62" using snoc.prems by simp
    then have "length (filter (\<lambda>e. case e of ShardIncrement wid \<Rightarrow> True | ReadStep r \<Rightarrow> False) es) < 2 ^ 62" by (rule le_less_trans [OF length_filter_le])
    then have "shOk (run shStep (newShardedCounter n) es) e" using ih(2) by simp
    ultimately show ?case using ih increments_step by (auto simp del: shOk.simps split: SCStep.splits)
  qed
  moreover from this have "shInv n (run shStep (newShardedCounter n) es)" using sharded_counter.guarded_run [OF shInv_new] by blast
  then have "list_all (readerOk (sh_values (run shStep (newShardedCounter n) es))) (sh_readers (run shStep (newShardedCounter n) es))" by (simp add: shInv_def)
  then have "list_all (\<lambda>r. case r of TotalIs tot began \<Rightarrow> began \<le> tot \<and> tot \<le> increments (run shStep (newShardedCounter n) es) | _ \<Rightarrow> True)
      (sh_readers (run shStep (newShardedCounter n) es))"
    by (rule list.pred_mono_strong) (auto simp: increments_def split: TotalReading.splits)
  ultimately show ?thesis unfolding Let_def by blast
qed

theorem sharded_total_bounds_witness:
  "let c = run shStep (newShardedCounter 1) ([ShardIncrement 3, ShardIncrement 19, ReadStep 0, ReadStep 0, ShardIncrement 0, ShardIncrement 5] @ replicate 16 (ReadStep 0))
   in sh_readers c = [TotalIs 3 2] \<and> increments c = 4"
proof -
  define es where "es = [ShardIncrement 3, ShardIncrement 19, ReadStep 0, ReadStep 0, ShardIncrement 0, ShardIncrement 5] @ replicate 16 (ReadStep 0)"
  have "sh_readers (run shStep (newShardedCounter 1) es) = [TotalIs 3 2]" unfolding es_def by code_simp
  then show ?thesis using sharded_total_bounds [of es 1] unfolding es_def [symmetric] by (simp add: Let_def) (simp add: es_def)
qed

section \<open>Batches\<close>

text \<open>The loop that collects items and sends a batch when it is full; the rest is sent at the end.\<close>

fun batchLoop :: "nat \<Rightarrow> 'a list \<Rightarrow> 'a list \<Rightarrow> 'a list list" where
  "batchLoop batchSize batch [] = (if length batch > 0 then [batch] else [])"
| "batchLoop batchSize batch (x # xs) =
     (let batch = batch @ [x] in if length batch = batchSize then batch # batchLoop batchSize [] xs else batchLoop batchSize batch xs)"

lemma batchLoop_items: "concat (batchLoop n batch xs) = batch @ xs"
  by (induction n batch xs rule: batchLoop.induct) (auto simp: Let_def)

lemma batchLoop_sizes:
  "length batch < n \<Longrightarrow> batchLoop n batch xs \<noteq> [] \<Longrightarrow>
     list_all (\<lambda>b. length b = n) (butlast (batchLoop n batch xs)) \<and> 0 < length (last (batchLoop n batch xs)) \<and> length (last (batchLoop n batch xs)) \<le> n"
  by (induction n batch xs rule: batchLoop.induct) (auto simp: Let_def split: if_splits)

lemma batches_complete:
  assumes "0 < n"
  shows "concat (batchLoop n [] xs) = xs \<and> length (batchLoop n [] xs) = (length xs + n - 1) div n"
proof -
  have "length (batchLoop n batch xs) = (length batch + length xs + n - 1) div n" if "length batch < n" for batch
    using that assms
  proof (induction n batch xs rule: batchLoop.induct)
    case (1 n batch)
    then show ?case by (cases "length batch") (auto simp: div_add_self2)
  next
    case (2 n batch x xs)
    show ?case
    proof (cases "Suc (length batch) = n")
      case True
      then have "length batch + length (x # xs) + n - 1 = length xs + n - 1 + n" using 2 by simp
      then have "(length batch + length (x # xs) + n - 1) div n = (length xs + n - 1 + n) div n" by (rule arg_cong)
      also have "\<dots> = Suc ((length xs + n - 1) div n)" using 2 by (simp only: div_add_self2)
      finally show ?thesis using 2 True by (simp add: Let_def)
    next
      case False
      then show ?thesis using 2 by (simp add: Let_def)
    qed
  qed
  from this [of "[]"] show ?thesis using assms by (simp add: batchLoop_items)
qed

section \<open>Pool that grows\<close>

text \<open>\<open>dp_running\<close> counts the goroutines that run \<open>poolWorker\<close>, \<open>dp_leaving\<close> those whose loop has ended but whose decrement is to come.  The monitor reads the length of the queue and the count, and starts a worker in a later step if it decided to.\<close>

record DynamicPool =
  dp_minWorkers :: nat
  dp_maxWorkers :: nat
  dp_workerCount :: int
  dp_running :: nat
  dp_leaving :: nat
  dp_closed :: bool
  dp_monitor :: bool

definition newDynamicPool :: "nat \<Rightarrow> nat \<Rightarrow> DynamicPool" where
  "newDynamicPool mn mx = \<lparr>dp_minWorkers = mn, dp_maxWorkers = mx, dp_workerCount = int mn, dp_running = mn, dp_leaving = 0, dp_closed = False, dp_monitor = False\<rparr>"

text \<open>A tick of the monitor: \<open>queueSize\<close> is the length of the channel at that moment.\<close>

definition monitorTick :: "nat \<Rightarrow> DynamicPool \<Rightarrow> DynamicPool" where
  "monitorTick queueSize p =
     (if dp_monitor p then p
      else p\<lparr>dp_monitor := (int queueSize > dp_workerCount p * 2 \<and> dp_workerCount p < int (dp_maxWorkers p))\<rparr>)"

definition startWorker :: "DynamicPool \<Rightarrow> DynamicPool" where
  "startWorker p = (if dp_monitor p then p\<lparr>dp_monitor := False, dp_workerCount := i32 (dp_workerCount p + 1), dp_running := Suc (dp_running p)\<rparr> else p)"

definition loopEnds :: "DynamicPool \<Rightarrow> DynamicPool" where
  "loopEnds p = (if dp_closed p \<and> dp_running p > 0 then p\<lparr>dp_running := dp_running p - 1, dp_leaving := Suc (dp_leaving p)\<rparr> else p)"

definition workerLeaves :: "DynamicPool \<Rightarrow> DynamicPool" where
  "workerLeaves p = (if dp_leaving p > 0 then p\<lparr>dp_leaving := dp_leaving p - 1, dp_workerCount := i32 (dp_workerCount p - 1)\<rparr> else p)"

datatype DPStep = MonitorTick nat | StartWorker | LoopEnds | WorkerLeaves | CloseTasks

fun dpStep :: "DynamicPool \<Rightarrow> DPStep \<Rightarrow> DynamicPool" where
  "dpStep p (MonitorTick queueSize) = monitorTick queueSize p"
| "dpStep p StartWorker = startWorker p"
| "dpStep p LoopEnds = loopEnds p"
| "dpStep p WorkerLeaves = workerLeaves p"
| "dpStep p CloseTasks = p\<lparr>dp_closed := True\<rparr>"

definition dpInv :: "nat \<Rightarrow> nat \<Rightarrow> DynamicPool \<Rightarrow> bool" where
  "dpInv mn mx p \<longleftrightarrow>
     mn \<le> mx \<and> mx < 2 ^ 31 \<and> dp_maxWorkers p = mx \<and> dp_workerCount p = int (dp_running p + dp_leaving p) \<and> dp_running p + dp_leaving p \<le> mx \<and>
     (dp_monitor p \<longrightarrow> dp_running p + dp_leaving p < mx) \<and> (\<not> dp_closed p \<longrightarrow> mn \<le> dp_running p \<and> dp_leaving p = 0)"

interpretation dynamic_pool: locked_object dpStep "dpInv mn mx" for mn mx
proof
  fix p e
  assume inv: "dpInv mn mx p"
  then have s: "dp_running p + dp_leaving p < mx \<Longrightarrow> i32 (int (dp_running p + dp_leaving p) + 1) = int (dp_running p + dp_leaving p) + 1"
    "0 < dp_leaving p \<Longrightarrow> i32 (int (dp_running p + dp_leaving p) - 1) = int (dp_running p + dp_leaving p) - 1"
    by (auto simp: dpInv_def in_i32_def intro!: i32_id)
  show "dpInv mn mx (dpStep p e)"
    using inv s by (cases e) (auto simp: dpInv_def monitorTick_def startWorker_def loopEnds_def workerLeaves_def)
qed

lemma dynamic_pool_bounds:
  assumes "mn \<le> mx" and "mx < 2 ^ 31"
  shows "let p = run dpStep (newDynamicPool mn mx) es in dp_running p \<le> mx \<and> dp_workerCount p = int (dp_running p + dp_leaving p) \<and> (\<not> dp_closed p \<longrightarrow> mn \<le> dp_running p)"
proof -
  have "dpInv mn mx (newDynamicPool mn mx)" using assms by (simp add: dpInv_def newDynamicPool_def)
  from dynamic_pool.inv_run [OF this, of es] show ?thesis by (auto simp: dpInv_def Let_def)
qed

text \<open>The monitor never stops: it can still start a worker after the channel is closed, which ends at once.\<close>

lemma monitor_outlives_pool:
  "let p = run dpStep (newDynamicPool 0 4) [MonitorTick 5, CloseTasks, StartWorker] in dp_closed p \<and> dp_running p = 1"
  by code_simp

end
