(* ===== verification/ProgressTracker.thy ===== *)
theory ProgressTracker
  imports GoPrelude
begin

text \<open>
  The progress of a learner in \<open>src/tracker/progress.go\<close>: lessons, challenges, achievements, experience points and levels.  Every operation holds \<open>pt.mu\<close> and is one step.  Fields that no code reads or changes, names, descriptions and the output are left out, as are the file
  operations \<open>Save\<close> and \<open>Load\<close>, which only print and parse JSON.  The two floating-point fields of the statistics are left out too.

  The loop of \<open>checkLevelUp\<close> is a partial function on machine integers; that it returns is proved for the states that occur.

  Shown: from a new tracker on, all operations return; the points of the levels passed and the present points are together ten times the scores of the completed lessons, twenty times the scores of the first accepted solutions and the rewards of the achievements; achievements
  are unlocked once and exactly when earned; a challenge is completed exactly when a solution was accepted; the progress bar is full exactly when everything is done.  Examples show that a level-up earned by an achievement is delayed and that the best score can be lost.
\<close>

section \<open>State\<close>

record LessonProgress =
  lp_Completed :: bool
  lp_CompletedAt :: gotime
  lp_Attempts :: int
  lp_Score :: int

record Solution =
  so_Timestamp :: gotime
  so_Code :: string
  so_Score :: int
  so_Passed :: bool

record ChallengeProgress =
  ch_Status :: string
  ch_Attempts :: int
  ch_BestScore :: int
  ch_CompletedAt :: gotime
  ch_Solutions :: "Solution list"

record Achievement =
  ac_ID :: string
  ac_UnlockedAt :: gotime
  ac_XPReward :: int

record ProgressTracker =
  pt_LastAccess :: gotime
  pt_Level :: int
  pt_XP :: int
  pt_lessons :: "(string \<times> LessonProgress) list"
  pt_challenges :: "(string \<times> ChallengeProgress) list"
  pt_achievements :: "Achievement list"

definition lessonIDs :: "string list" where
  "lessonIDs = [''01_goroutine'', ''02_race'', ''03_channel'', ''04_select'', ''05_context'', ''06_timeout'', ''07_nonblocking'', ''08_worker'', ''09_fanin'', ''10_pipeline'',
     ''11_semaphore'', ''12_circuit'', ''13_pubsub'', ''14_bounded'', ''15_retry'', ''16_batch'']"

definition challengeIDs :: "string list" where
  "challengeIDs = [''deadlock'', ''race'', ''leak'', ''ratelimit'']"

definition newLesson :: LessonProgress where
  "newLesson = \<lparr>lp_Completed = False, lp_CompletedAt = zeroTime, lp_Attempts = 0, lp_Score = 0\<rparr>"

definition newChallenge :: ChallengeProgress where
  "newChallenge = \<lparr>ch_Status = ''not_started'', ch_Attempts = 0, ch_BestScore = 0, ch_CompletedAt = zeroTime, ch_Solutions = []\<rparr>"

definition initializeLessons :: "ProgressTracker \<Rightarrow> ProgressTracker" where
  "initializeLessons pt = foldl (\<lambda>pt k. if map_of (pt_lessons pt) k = None then pt\<lparr>pt_lessons := pt_lessons pt @ [(k, newLesson)]\<rparr> else pt) pt lessonIDs"

definition initializeChallenges :: "ProgressTracker \<Rightarrow> ProgressTracker" where
  "initializeChallenges pt = foldl (\<lambda>pt k. if map_of (pt_challenges pt) k = None then pt\<lparr>pt_challenges := pt_challenges pt @ [(k, newChallenge)]\<rparr> else pt) pt challengeIDs"

text \<open>A tracker without a file to load.\<close>

definition newProgressTracker :: ProgressTracker where
  "newProgressTracker = initializeChallenges (initializeLessons
     \<lparr>pt_LastAccess = zeroTime, pt_Level = 1, pt_XP = 0, pt_lessons = [], pt_challenges = [], pt_achievements = []\<rparr>)"

text \<open>A change through the pointer that the map holds.\<close>

definition modify :: "string \<Rightarrow> ('a \<Rightarrow> 'a) \<Rightarrow> (string \<times> 'a) list \<Rightarrow> (string \<times> 'a) list" where
  "modify k f = map (\<lambda>(k', v). (k', if k' = k then f v else v))"

section \<open>Operations\<close>

partial_function (option) checkLevelUp :: "int \<Rightarrow> int \<Rightarrow> (int \<times> int) option" where
  "checkLevelUp level xp =
     (let requiredXP = i64 (level * 100)
      in if xp \<ge> requiredXP then checkLevelUp (i64 (level + 1)) (i64 (xp - requiredXP)) else Some (level, xp))"

declare checkLevelUp.simps [code]

definition checkAndUnlockAchievement :: "gotime \<Rightarrow> string \<Rightarrow> int \<Rightarrow> ProgressTracker \<Rightarrow> ProgressTracker" where
  "checkAndUnlockAchievement now aid xp pt =
     (if list_ex (\<lambda>a. ac_ID a = aid) (pt_achievements pt) then pt
      else pt\<lparr>pt_achievements := pt_achievements pt @ [\<lparr>ac_ID = aid, ac_UnlockedAt = now, ac_XPReward = xp\<rparr>], pt_XP := i64 (pt_XP pt + xp)\<rparr>)"

definition completedLessons :: "ProgressTracker \<Rightarrow> nat" where
  "completedLessons pt = length (filter (\<lambda>(k, l). lp_Completed l) (pt_lessons pt))"

definition completedChallenges :: "ProgressTracker \<Rightarrow> nat" where
  "completedChallenges pt = length (filter (\<lambda>(k, c). ch_Status c = ''completed'') (pt_challenges pt))"

definition checkAchievements :: "gotime \<Rightarrow> ProgressTracker \<Rightarrow> ProgressTracker" where
  "checkAchievements now pt =
     (let pt = checkAndUnlockAchievement now ''beginner'' 50 pt;
          pt = (if completedLessons pt \<ge> 5 then checkAndUnlockAchievement now ''explorer'' 100 pt else pt);
          pt = (if completedLessons pt = length (pt_lessons pt) then checkAndUnlockAchievement now ''master'' 500 pt else pt);
          pt = (if list_ex (\<lambda>(k, c). ch_Status c = ''completed'') (pt_challenges pt) then checkAndUnlockAchievement now ''challenger'' 100 pt else pt)
      in if completedChallenges pt = length (pt_challenges pt) then checkAndUnlockAchievement now ''conqueror'' 1000 pt else pt)"

definition startLesson :: "string \<Rightarrow> gotime \<Rightarrow> ProgressTracker \<Rightarrow> ProgressTracker" where
  "startLesson lessonID now pt =
     (case map_of (pt_lessons pt) lessonID of
        None \<Rightarrow> pt
      | Some l \<Rightarrow> pt\<lparr>pt_lessons := modify lessonID (\<lambda>l. l\<lparr>lp_Attempts := i64 (lp_Attempts l + 1)\<rparr>) (pt_lessons pt), pt_LastAccess := now\<rparr>)"

text \<open>The common part of completing a lesson and a challenge: points, levels, achievements.\<close>

definition gainXP :: "gotime \<Rightarrow> int \<Rightarrow> ProgressTracker \<Rightarrow> ProgressTracker option" where
  "gainXP now xpGained pt =
     Option.bind (checkLevelUp (pt_Level pt) (i64 (pt_XP pt + xpGained)))
       (\<lambda>(level, xp). Some (checkAchievements now (pt\<lparr>pt_Level := level, pt_XP := xp\<rparr>)))"

definition completeLesson :: "string \<Rightarrow> int \<Rightarrow> gotime \<Rightarrow> ProgressTracker \<Rightarrow> ProgressTracker option" where
  "completeLesson lessonID score now pt =
     (case map_of (pt_lessons pt) lessonID of
        None \<Rightarrow> Some pt
      | Some l \<Rightarrow>
          (if lp_Completed l then Some pt
           else gainXP now (i64 (score * 10))
                  (pt\<lparr>pt_lessons := modify lessonID (\<lambda>l. l\<lparr>lp_Completed := True, lp_CompletedAt := now, lp_Score := score\<rparr>) (pt_lessons pt)\<rparr>)))"

definition startChallenge :: "string \<Rightarrow> gotime \<Rightarrow> ProgressTracker \<Rightarrow> ProgressTracker" where
  "startChallenge challengeID now pt =
     (case map_of (pt_challenges pt) challengeID of
        None \<Rightarrow> pt
      | Some c \<Rightarrow>
          pt\<lparr>pt_challenges := modify challengeID
                 (\<lambda>c. c\<lparr>ch_Status := (if ch_Status c = ''not_started'' then ''in_progress'' else ch_Status c), ch_Attempts := i64 (ch_Attempts c + 1)\<rparr>) (pt_challenges pt),
             pt_LastAccess := now\<rparr>)"

definition submitChallengeSolution :: "string \<Rightarrow> string \<Rightarrow> int \<Rightarrow> bool \<Rightarrow> gotime \<Rightarrow> ProgressTracker \<Rightarrow> ProgressTracker option" where
  "submitChallengeSolution challengeID code score passed now pt =
     (case map_of (pt_challenges pt) challengeID of
        None \<Rightarrow> Some pt
      | Some c \<Rightarrow>
          (let solution = \<lparr>so_Timestamp = now, so_Code = code, so_Score = score, so_Passed = passed\<rparr>;
               upd = (\<lambda>f. pt\<lparr>pt_challenges := modify challengeID (\<lambda>c. f (c\<lparr>ch_Solutions := ch_Solutions c @ [solution]\<rparr>)) (pt_challenges pt)\<rparr>)
           in if passed \<and> ch_Status c \<noteq> ''completed''
              then gainXP now (i64 (score * 20)) (upd (\<lambda>c. c\<lparr>ch_Status := ''completed'', ch_CompletedAt := now, ch_BestScore := score\<rparr>))
              else if score > ch_BestScore c then Some (upd (\<lambda>c. c\<lparr>ch_BestScore := score\<rparr>))
              else Some (upd id)))"

text \<open>Counters of \<open>GetStatistics\<close>.\<close>

record Statistics =
  TotalLessons :: nat
  CompletedLessons :: nat
  TotalChallenges :: nat
  CompletedChallenges :: nat
  TotalAchievements :: nat
  TotalAttempts :: int
  TotalXP :: int
  Level :: int

definition getStatistics :: "ProgressTracker \<Rightarrow> Statistics" where
  "getStatistics pt =
     \<lparr>TotalLessons = length (pt_lessons pt), CompletedLessons = completedLessons pt, TotalChallenges = length (pt_challenges pt), CompletedChallenges = completedChallenges pt,
      TotalAchievements = length (pt_achievements pt), TotalAttempts = foldl (\<lambda>n (k, l). i64 (n + lp_Attempts l)) 0 (pt_lessons pt), TotalXP = pt_XP pt, Level = pt_Level pt\<rparr>"

text \<open>The bar as code points: 9608 is the full block, 9617 the light one.\<close>

definition makeProgressBar :: "nat \<Rightarrow> nat \<Rightarrow> nat list" where
  "makeProgressBar current tot =
     (if tot = 0 then map of_char ''[----------]''
      else let filled = (current * 20) div tot in [of_char CHR ''[''] @ map (\<lambda>i. if i < filled then 9608 else 9617) [0..<20] @ [of_char CHR '']''])"

datatype PTStep = StartLesson string gotime | CompleteLesson string int gotime | StartChallenge string gotime | SubmitSolution string string int bool gotime

fun ptStep :: "ProgressTracker \<Rightarrow> PTStep \<Rightarrow> ProgressTracker option" where
  "ptStep pt (StartLesson k now) = Some (startLesson k now pt)"
| "ptStep pt (CompleteLesson k score now) = completeLesson k score now pt"
| "ptStep pt (StartChallenge k now) = Some (startChallenge k now pt)"
| "ptStep pt (SubmitSolution k code score passed now) = submitChallengeSolution k code score passed now pt"

fun ptRun :: "ProgressTracker \<Rightarrow> PTStep list \<Rightarrow> ProgressTracker option" where
  "ptRun pt [] = Some pt"
| "ptRun pt (e # es) = Option.bind (ptStep pt e) (\<lambda>pt. ptRun pt es)"

section \<open>Levels\<close>

text \<open>The points that the levels up to \<open>level\<close> have cost.\<close>

definition levelCost :: "int \<Rightarrow> int" where
  "levelCost level = 50 * level * (level - 1)"

lemma levelCost_Suc: "levelCost (level + 1) = levelCost level + 100 * level"
  by (simp add: levelCost_def algebra_simps)

lemma level_small:
  assumes "1 \<le> level" and "levelCost level < 2 ^ 61"
  shows "level < 2 ^ 56"
proof (rule ccontr)
  assume "\<not> level < 2 ^ 56"
  then have big: "2 ^ 56 \<le> level" by simp
  then have "50 * level * 1 \<le> 50 * level * (level - 1)" by (intro mult_left_mono) simp_all
  then show False using assms(2) big by (simp add: levelCost_def)
qed

text \<open>The loop returns, pays for the levels it passes and stops below the points of the next level.\<close>

lemma checkLevelUp_returns:
  assumes "1 \<le> level" and "0 \<le> xp" and "levelCost level + xp < 2 ^ 61"
  shows "\<exists>level' xp'. checkLevelUp level xp = Some (level', xp') \<and> level \<le> level' \<and> 0 \<le> xp' \<and> xp' < 100 * level' \<and> levelCost level' + xp' = levelCost level + xp"
  using assms
proof (induction "nat xp" arbitrary: level xp rule: less_induct)
  case less
  have "level < 2 ^ 56" using level_small [of level] less.prems by simp
  then have req: "i64 (level * 100) = level * 100" and nxt: "i64 (level + 1) = level + 1" using less.prems(1) by (auto intro!: i64_id)
  have cost: "0 \<le> levelCost level" using less.prems(1) by (simp add: levelCost_def)
  show ?case
  proof (cases "xp \<ge> level * 100")
    case False
    then have "checkLevelUp level xp = Some (level, xp)" by (subst checkLevelUp.simps) (simp add: req Let_def)
    then show ?thesis using False less.prems by auto
  next
    case True
    have "i64 (xp - level * 100) = xp - level * 100" using True less.prems cost by (auto intro!: i64_id)
    then have step: "checkLevelUp level xp = checkLevelUp (level + 1) (xp - level * 100)" using True by (subst checkLevelUp.simps) (simp add: req nxt Let_def)
    have "\<exists>level' xp'. checkLevelUp (level + 1) (xp - level * 100) = Some (level', xp') \<and> level + 1 \<le> level' \<and> 0 \<le> xp' \<and> xp' < 100 * level' \<and>
        levelCost level' + xp' = levelCost (level + 1) + (xp - level * 100)"
      by (rule less.hyps) (use True less.prems in \<open>simp_all add: levelCost_Suc\<close>)
    then show ?thesis unfolding step by (auto simp: levelCost_Suc)
  qed
qed

section \<open>Achievements\<close>

definition rewardTable :: "(string \<times> int) list" where
  "rewardTable = [(''beginner'', 50), (''explorer'', 100), (''master'', 500), (''challenger'', 100), (''conqueror'', 1000)]"

definition ids :: "ProgressTracker \<Rightarrow> string set" where
  "ids pt = ac_ID ` set (pt_achievements pt)"

definition rewards :: "ProgressTracker \<Rightarrow> int" where
  "rewards pt = sum_list (map ac_XPReward (pt_achievements pt))"

definition achOk :: "ProgressTracker \<Rightarrow> bool" where
  "achOk pt \<longleftrightarrow> distinct (map ac_ID (pt_achievements pt)) \<and> (\<forall>a \<in> set (pt_achievements pt). (ac_ID a, ac_XPReward a) \<in> set rewardTable)"

text \<open>The points spent and left that do not come from achievements.\<close>

definition balance :: "ProgressTracker \<Rightarrow> int" where
  "balance pt = levelCost (pt_Level pt) + pt_XP pt - rewards pt"

definition unlocked :: "int \<Rightarrow> string set \<Rightarrow> ProgressTracker \<Rightarrow> ProgressTracker \<Rightarrow> bool" where
  "unlocked r A p q \<longleftrightarrow>
     pt_lessons q = pt_lessons p \<and> pt_challenges q = pt_challenges p \<and> pt_Level q = pt_Level p \<and> balance q = balance p \<and> achOk q \<and> ids q = ids p \<union> A \<and>
     pt_XP p \<le> pt_XP q \<and> pt_XP q \<le> pt_XP p + r"

lemma rewards_bound:
  assumes "achOk pt"
  shows "0 \<le> rewards pt \<and> rewards pt \<le> 1750"
proof -
  define R where "R = (\<lambda>k. the (map_of rewardTable k))"
  have eq: "ac_XPReward a = R (ac_ID a)" and known: "ac_ID a \<in> set (map fst rewardTable)" if "a \<in> set (pt_achievements pt)" for a
    using assms that by (auto simp: achOk_def R_def rewardTable_def)
  have d: "distinct (map ac_ID (pt_achievements pt))" using assms by (simp add: achOk_def)
  have "rewards pt = sum_list (map R (map ac_ID (pt_achievements pt)))"
    unfolding rewards_def map_map comp_def using eq by (intro arg_cong [of _ _ sum_list] map_cong) simp_all
  also have "\<dots> = sum R (set (map ac_ID (pt_achievements pt)))" by (rule sum_list_distinct_conv_sum_set [OF d])
  finally have r: "rewards pt = sum R (set (map ac_ID (pt_achievements pt)))" .
  have sub: "set (map ac_ID (pt_achievements pt)) \<subseteq> set (map fst rewardTable)" using known by auto
  have pos: "0 \<le> R k" if "k \<in> set (map fst rewardTable)" for k using that by (auto simp: R_def rewardTable_def)
  have "sum R (set (map ac_ID (pt_achievements pt))) \<le> sum R (set (map fst rewardTable))" by (rule sum_mono2) (use sub pos in auto)
  moreover have "sum R (set (map fst rewardTable)) = 1750" by (simp add: R_def rewardTable_def)
  moreover have "0 \<le> sum R (set (map ac_ID (pt_achievements pt)))" by (rule sum_nonneg) (use sub pos in blast)
  ultimately show ?thesis using r by simp
qed

lemma unlocked_refl: "achOk p \<Longrightarrow> unlocked 0 {} p p"
  by (simp add: unlocked_def)

lemma unlocked_trans: "unlocked r A p q \<Longrightarrow> unlocked s B q t \<Longrightarrow> unlocked (r + s) (A \<union> B) p t"
  by (auto simp: unlocked_def)

lemma unlock_one:
  assumes ok: "achOk p" and "(aid, xp) \<in> set rewardTable" and xp: "0 \<le> pt_XP p" "pt_XP p < 2 ^ 62"
  shows "unlocked xp {aid} p (checkAndUnlockAchievement now aid xp p)"
proof -
  have r: "0 \<le> xp" "xp \<le> 1000" using assms(2) by (auto simp: rewardTable_def)
  show ?thesis
  proof (cases "list_ex (\<lambda>a. ac_ID a = aid) (pt_achievements p)")
    case True
    then have "aid \<in> ids p" by (auto simp: list_ex_iff ids_def)
    then show ?thesis using ok True r by (auto simp: unlocked_def checkAndUnlockAchievement_def)
  next
    case False
    have "i64 (pt_XP p + xp) = pt_XP p + xp" using xp r by (auto intro!: i64_id)
    then show ?thesis
      using ok False r assms(2) by (auto simp: unlocked_def checkAndUnlockAchievement_def balance_def rewards_def ids_def achOk_def list_ex_iff)
  qed
qed

lemma unlock_if:
  assumes p: "unlocked r A p0 p" and "(aid, xp) \<in> set rewardTable" and xp: "0 \<le> pt_XP p0" "pt_XP p0 + r < 2 ^ 62"
  shows "unlocked (r + xp) (A \<union> (if b then {aid} else {})) p0 (if b then checkAndUnlockAchievement now aid xp p else p)"
proof (cases b)
  case True
  have "achOk p" "0 \<le> pt_XP p" "pt_XP p < 2 ^ 62" using p xp by (auto simp: unlocked_def)
  then show ?thesis using True unlocked_trans [OF p unlock_one [OF _ assms(2)], of now] by simp
next
  case False
  have "0 \<le> xp" using assms(2) by (auto simp: rewardTable_def)
  then show ?thesis using False p by (auto simp: unlocked_def)
qed

definition someCompleted :: "ProgressTracker \<Rightarrow> bool" where
  "someCompleted pt \<longleftrightarrow> list_ex (\<lambda>(k, c). ch_Status c = ''completed'') (pt_challenges pt)"

text \<open>The achievements that are due.\<close>

definition due :: "ProgressTracker \<Rightarrow> string set" where
  "due pt = (if 0 < completedLessons pt \<or> someCompleted pt then {''beginner''} else {}) \<union> (if completedLessons pt \<ge> 5 then {''explorer''} else {}) \<union>
     (if completedLessons pt = length (pt_lessons pt) then {''master''} else {}) \<union> (if someCompleted pt then {''challenger''} else {}) \<union>
     (if completedChallenges pt = length (pt_challenges pt) then {''conqueror''} else {})"

lemma checkAchievements_unlocks:
  assumes ok: "achOk pt" and xp: "0 \<le> pt_XP pt" "pt_XP pt < 2 ^ 61" and some: "0 < completedLessons pt \<or> someCompleted pt"
  shows "unlocked 1750 (due pt) pt (checkAchievements now pt)"
proof -
  note un = unlocked_def [THEN iffD1, THEN conjunct1] unlocked_def [THEN iffD1, THEN conjunct2, THEN conjunct1]
  define p1 where "p1 = checkAndUnlockAchievement now ''beginner'' 50 pt"
  define p2 where "p2 = (if completedLessons p1 \<ge> 5 then checkAndUnlockAchievement now ''explorer'' 100 p1 else p1)"
  define p3 where "p3 = (if completedLessons p2 = length (pt_lessons p2) then checkAndUnlockAchievement now ''master'' 500 p2 else p2)"
  define p4 where "p4 = (if someCompleted p3 then checkAndUnlockAchievement now ''challenger'' 100 p3 else p3)"
  define p5 where "p5 = (if completedChallenges p4 = length (pt_challenges p4) then checkAndUnlockAchievement now ''conqueror'' 1000 p4 else p4)"
  have t: "(''beginner'', 50) \<in> set rewardTable" "(''explorer'', 100) \<in> set rewardTable" "(''master'', 500) \<in> set rewardTable" "(''challenger'', 100) \<in> set rewardTable" "(''conqueror'', 1000) \<in> set rewardTable"
    by (simp_all add: rewardTable_def)
  have "unlocked 50 {''beginner''} pt p1" unfolding p1_def by (rule unlock_one) (use assms t in simp_all)
  note 1 = this
  note 2 = unlock_if [OF 1 t(2), of "completedLessons p1 \<ge> 5" now, folded p2_def]
  have u2: "unlocked 150 ({''beginner''} \<union> (if completedLessons p1 \<ge> 5 then {''explorer''} else {})) pt p2" using 2 xp by simp
  note 3 = unlock_if [OF u2 t(3), of "completedLessons p2 = length (pt_lessons p2)" now, folded p3_def]
  have u3: "unlocked 650 ({''beginner''} \<union> (if completedLessons p1 \<ge> 5 then {''explorer''} else {}) \<union> (if completedLessons p2 = length (pt_lessons p2) then {''master''} else {})) pt p3"
    using 3 xp by simp
  note 4 = unlock_if [OF u3 t(4), of "someCompleted p3" now, folded p4_def]
  have u4: "unlocked 750 ({''beginner''} \<union> (if completedLessons p1 \<ge> 5 then {''explorer''} else {}) \<union> (if completedLessons p2 = length (pt_lessons p2) then {''master''} else {}) \<union>
      (if someCompleted p3 then {''challenger''} else {})) pt p4"
    using 4 xp by simp
  note 5 = unlock_if [OF u4 t(5), of "completedChallenges p4 = length (pt_challenges p4)" now, folded p5_def]
  have same: "completedLessons p1 = completedLessons pt" "completedLessons p2 = completedLessons pt" "pt_lessons p2 = pt_lessons pt" "someCompleted p3 = someCompleted pt"
    "completedChallenges p4 = completedChallenges pt" "pt_challenges p4 = pt_challenges pt"
    using 1 u2 u3 u4 by (auto simp: unlocked_def completedLessons_def completedChallenges_def someCompleted_def)
  have "checkAchievements now pt = p5"
    unfolding checkAchievements_def p5_def p4_def p3_def p2_def p1_def someCompleted_def Let_def ..
  then show ?thesis using 5 xp some unfolding same due_def by simp
qed

section \<open>Accounts\<close>

definition summed :: "('a \<Rightarrow> int) \<Rightarrow> (string \<times> 'a) list \<Rightarrow> int" where
  "summed g xs = sum_list (map (\<lambda>(k, v). g v) xs)"

lemma fst_modify [simp]: "map fst (modify k f xs) = map fst xs" "length (modify k f xs) = length xs"
  by (induction xs) (auto simp: modify_def)

lemma modify_other: "k \<notin> fst ` set xs \<Longrightarrow> modify k f xs = xs"
  by (induction xs) (auto simp: modify_def)

lemma summed_modify:
  "distinct (map fst xs) \<Longrightarrow> map_of xs k = Some v \<Longrightarrow> summed g (modify k f xs) = summed g xs + g (f v) - g v"
proof (induction xs)
  case (Cons x xs)
  obtain k' v' where x: "x = (k', v')" by fastforce
  show ?case
  proof (cases "k' = k")
    case True
    then have "k \<notin> fst ` set xs" using Cons.prems x by simp
    then have "modify k f (x # xs) = (k, f v') # xs" using x True modify_other [of k xs f] by (simp add: modify_def)
    then show ?thesis using True Cons.prems x by (simp add: summed_def)
  next
    case False
    then show ?thesis using Cons x by (simp add: summed_def modify_def)
  qed
qed simp

lemma ball_modify:
  assumes "\<forall>(k', v) \<in> set xs. P v" and "\<And>v. P v \<Longrightarrow> P (f v)"
  shows "\<forall>(k', v) \<in> set (modify k f xs). P v"
  using assms by (auto simp: modify_def)

definition lessonXP :: "LessonProgress \<Rightarrow> int" where
  "lessonXP l = (if lp_Completed l then 10 * lp_Score l else 0)"

text \<open>A challenge earns points for its first accepted solution.\<close>

definition challengeXP :: "ChallengeProgress \<Rightarrow> int" where
  "challengeXP c = (case filter so_Passed (ch_Solutions c) of [] \<Rightarrow> 0 | s # ss \<Rightarrow> 20 * so_Score s)"

definition earned :: "ProgressTracker \<Rightarrow> int" where
  "earned pt = summed lessonXP (pt_lessons pt) + summed challengeXP (pt_challenges pt)"

definition lessonOk :: "int \<Rightarrow> LessonProgress \<Rightarrow> bool" where
  "lessonOk S l \<longleftrightarrow> (lp_Completed l \<longrightarrow> 0 \<le> lp_Score l \<and> lp_Score l \<le> S)"

definition challengeOk :: "int \<Rightarrow> ChallengeProgress \<Rightarrow> bool" where
  "challengeOk S c \<longleftrightarrow> (\<forall>s \<in> set (ch_Solutions c). 0 \<le> so_Score s \<and> so_Score s \<le> S) \<and> (ch_Status c = ''completed'' \<longleftrightarrow> (\<exists>s \<in> set (ch_Solutions c). so_Passed s))"

definition ptInv :: "int \<Rightarrow> ProgressTracker \<Rightarrow> bool" where
  "ptInv S pt \<longleftrightarrow>
     map fst (pt_lessons pt) = lessonIDs \<and> map fst (pt_challenges pt) = challengeIDs \<and>
     (\<forall>(k, l) \<in> set (pt_lessons pt). lessonOk S l) \<and> (\<forall>(k, c) \<in> set (pt_challenges pt). challengeOk S c) \<and>
     1 \<le> pt_Level pt \<and> 0 \<le> pt_XP pt \<and> achOk pt \<and> ids pt = due pt \<and> balance pt = earned pt"

lemma summed_bound:
  assumes "\<forall>(k, v) \<in> set xs. 0 \<le> g v \<and> g v \<le> B"
  shows "0 \<le> summed g xs \<and> summed g xs \<le> int (length xs) * B"
  using assms by (induction xs) (auto simp: summed_def algebra_simps)

lemma earned_bound:
  assumes "0 \<le> S" and l: "\<forall>(k, l) \<in> set (pt_lessons pt). lessonOk S l" and c: "\<forall>(k, c) \<in> set (pt_challenges pt). challengeOk S c"
    and "map fst (pt_lessons pt) = lessonIDs" "map fst (pt_challenges pt) = challengeIDs"
  shows "0 \<le> earned pt \<and> earned pt \<le> 240 * S"
proof -
  have "length (pt_lessons pt) = 16" "length (pt_challenges pt) = 4"
    using arg_cong [OF assms(4), of length] arg_cong [OF assms(5), of length] by (simp_all add: lessonIDs_def challengeIDs_def)
  moreover have "\<forall>(k, v) \<in> set (pt_lessons pt). 0 \<le> lessonXP v \<and> lessonXP v \<le> 10 * S" using l assms(1) by (auto simp: lessonOk_def lessonXP_def)
  moreover have "0 \<le> challengeXP v \<and> challengeXP v \<le> 20 * S" if "challengeOk S v" for v
  proof (cases "filter so_Passed (ch_Solutions v)")
    case (Cons s ss)
    then have "s \<in> set (ch_Solutions v)" by (auto simp: filter_eq_Cons_iff)
    then show ?thesis using that Cons by (auto simp: challengeXP_def challengeOk_def)
  qed (use assms(1) in \<open>simp add: challengeXP_def\<close>)
  ultimately show ?thesis
    using summed_bound [of "pt_lessons pt" lessonXP "10 * S"] summed_bound [of "pt_challenges pt" challengeXP "20 * S"] c by (force simp: earned_def)
qed

lemma count_summed: "int (length (filter (\<lambda>(k, v). P v) xs)) = summed (\<lambda>v. if P v then 1 else 0) xs"
  by (induction xs) (auto simp: summed_def)

lemma completed_summed:
  "int (completedLessons pt) = summed (\<lambda>l. if lp_Completed l then 1 else 0) (pt_lessons pt)"
  "int (completedChallenges pt) = summed (\<lambda>c. if ch_Status c = ''completed'' then 1 else 0) (pt_challenges pt)"
  unfolding completedLessons_def completedChallenges_def by (rule count_summed)+

lemma someCompleted_iff: "someCompleted pt \<longleftrightarrow> 0 < completedChallenges pt"
  by (auto simp: someCompleted_def completedChallenges_def list_ex_iff filter_empty_conv)

lemma completed_le: "completedLessons pt \<le> length (pt_lessons pt)" "completedChallenges pt \<le> length (pt_challenges pt)"
  by (simp_all add: completedLessons_def completedChallenges_def)

text \<open>Completing one more lesson or challenge makes achievements due and takes none away.\<close>

lemma due_mono:
  assumes "completedLessons p \<le> completedLessons q" "completedChallenges p \<le> completedChallenges q"
    and "length (pt_lessons q) = length (pt_lessons p)" "length (pt_challenges q) = length (pt_challenges p)"
  shows "due p \<subseteq> due q"
  using assms completed_le [of p] completed_le [of q] unfolding due_def someCompleted_iff by (auto split: if_splits)

lemma gainXP_ok:
  assumes S: "0 \<le> S" "S \<le> 2 ^ 50" and gained: "0 \<le> xpGained"
    and frame: "map fst (pt_lessons pt) = lessonIDs" "map fst (pt_challenges pt) = challengeIDs"
      "\<forall>(k, l) \<in> set (pt_lessons pt). lessonOk S l" "\<forall>(k, c) \<in> set (pt_challenges pt). challengeOk S c"
    and pts: "1 \<le> pt_Level pt" "0 \<le> pt_XP pt" "balance pt + xpGained = earned pt"
    and ach: "achOk pt" "ids pt \<subseteq> due pt" and some: "0 < completedLessons pt \<or> someCompleted pt"
  shows "\<exists>pt'. gainXP now xpGained pt = Some pt' \<and> ptInv S pt'"
proof -
  have e: "0 \<le> earned pt" "earned pt \<le> 240 * S" using earned_bound [OF S(1) frame(3,4,1,2)] by simp_all
  have r: "0 \<le> rewards pt" "rewards pt \<le> 1750" using rewards_bound [OF ach(1)] by simp_all
  have sum: "levelCost (pt_Level pt) + (pt_XP pt + xpGained) < 2 ^ 60" using pts(3) e r S by (simp add: balance_def)
  have cost: "0 \<le> levelCost (pt_Level pt)" using pts(1) by (simp add: levelCost_def)
  then have wrap: "i64 (pt_XP pt + xpGained) = pt_XP pt + xpGained" using sum pts gained by (auto intro!: i64_id)
  obtain level xp where up: "checkLevelUp (pt_Level pt) (pt_XP pt + xpGained) = Some (level, xp)" "pt_Level pt \<le> level" "0 \<le> xp"
      "levelCost level + xp = levelCost (pt_Level pt) + (pt_XP pt + xpGained)"
    using checkLevelUp_returns [of "pt_Level pt" "pt_XP pt + xpGained"] pts gained sum by auto
  define q where "q = pt\<lparr>pt_Level := level, pt_XP := xp\<rparr>"
  have "0 \<le> levelCost level" using up(2) pts(1) by (simp add: levelCost_def)
  then have "pt_XP q < 2 ^ 61" using up(4) sum by (simp add: q_def)
  moreover have "achOk q" "ids q = ids pt" "due q = due pt" "completedLessons q = completedLessons pt" "someCompleted q = someCompleted pt" "rewards q = rewards pt" "earned q = earned pt"
    using ach(1) by (simp_all add: achOk_def ids_def due_def completedLessons_def completedChallenges_def someCompleted_def rewards_def earned_def q_def)
  moreover have "balance q = earned q" using pts(3) up(4) calculation by (simp add: balance_def q_def)
  ultimately have u: "unlocked 1750 (due pt) q (checkAchievements now q)" and q: "balance q = earned pt" "ids q \<subseteq> due pt" "0 \<le> pt_XP q"
    using checkAchievements_unlocks [of q now] some up(3) ach(2) by (simp_all add: q_def)
  have "due (checkAchievements now q) = due pt" "earned (checkAchievements now q) = earned pt"
    using u by (simp_all add: unlocked_def due_def completedLessons_def completedChallenges_def someCompleted_def earned_def q_def)
  then have "ptInv S (checkAchievements now q)"
    using u q frame up(2) pts(1) unfolding ptInv_def unlocked_def by (auto simp: q_def)
  then show ?thesis using up(1) wrap by (simp add: gainXP_def q_def)
qed

lemma keys_distinct: "distinct lessonIDs" "distinct challengeIDs"
  by (simp_all add: lessonIDs_def challengeIDs_def)

lemma ptInv_completeLesson:
  assumes inv: "ptInv S pt" and S: "0 \<le> S" "S \<le> 2 ^ 50" and score: "0 \<le> score" "score \<le> S"
  shows "\<exists>pt'. completeLesson lessonID score now pt = Some pt' \<and> ptInv S pt'"
proof (cases "map_of (pt_lessons pt) lessonID")
  case (Some l)
  show ?thesis
  proof (cases "lp_Completed l")
    case False
    define f where "f = (\<lambda>l. l\<lparr>lp_Completed := True, lp_CompletedAt := now, lp_Score := score\<rparr> :: LessonProgress)"
    define q where "q = pt\<lparr>pt_lessons := modify lessonID f (pt_lessons pt)\<rparr>"
    have d: "distinct (map fst (pt_lessons pt))" using inv keys_distinct by (simp add: ptInv_def)
    note sums = summed_modify [OF d Some, of _ f]
    have "int (completedLessons q) = int (completedLessons pt) + 1" using sums False by (simp add: completed_summed q_def f_def)
    then have c: "completedLessons q = Suc (completedLessons pt)" "completedChallenges q = completedChallenges pt" by (simp_all add: q_def completedChallenges_def)
    have "i64 (score * 10) = score * 10" using score S by (auto intro!: i64_id)
    moreover have "\<exists>pt'. gainXP now (score * 10) q = Some pt' \<and> ptInv S pt'"
    proof (rule gainXP_ok [OF S])
      show "\<forall>(k, l) \<in> set (pt_lessons q). lessonOk S l"
        using ball_modify [of "pt_lessons pt" "lessonOk S" f lessonID] inv score by (auto simp: q_def ptInv_def f_def lessonOk_def)
      show "balance q + score * 10 = earned q"
        using inv sums [of lessonXP] False by (simp add: ptInv_def balance_def earned_def rewards_def q_def f_def lessonXP_def)
      have "ids q = due pt" using inv by (simp add: ptInv_def ids_def q_def)
      then show "ids q \<subseteq> due q" using due_mono [of pt q] c by (simp add: q_def)
    qed (use inv score c in \<open>simp_all add: ptInv_def q_def achOk_def\<close>)
    ultimately show ?thesis using Some False by (simp add: completeLesson_def q_def f_def)
  qed (use Some inv in \<open>simp add: completeLesson_def\<close>)
qed (use inv in \<open>simp add: completeLesson_def\<close>)

lemma ball_modify_at:
  assumes "distinct (map fst xs)" and "map_of xs k = Some c" and "\<forall>(k', v) \<in> set xs. P v" and "P (f c)"
  shows "\<forall>(k', v) \<in> set (modify k f xs). P v"
proof -
  have "v = c" if "(k, v) \<in> set xs" for v using map_of_is_SomeI [OF assms(1) that] assms(2) by simp
  then show ?thesis using assms(3,4) by (auto simp: modify_def)
qed

lemma ptInv_change_at:
  assumes inv: "ptInv S pt" and c: "map_of (pt_challenges pt) k = Some c"
    and f: "challengeOk S (f c)" "challengeXP (f c) = challengeXP c" "ch_Status (f c) = ''completed'' \<longleftrightarrow> ch_Status c = ''completed''"
  shows "ptInv S (pt\<lparr>pt_challenges := modify k f (pt_challenges pt)\<rparr>)"
proof -
  define q where "q = pt\<lparr>pt_challenges := modify k f (pt_challenges pt)\<rparr>"
  have d: "distinct (map fst (pt_challenges pt))" using inv keys_distinct by (simp add: ptInv_def)
  note sums = summed_modify [OF d c, of _ f]
  have cc: "completedLessons q = completedLessons pt" by (simp add: q_def completedLessons_def)
  have "int (completedChallenges q) = int (completedChallenges pt)" using sums f(3) by (simp add: completed_summed q_def)
  then have ch: "completedChallenges q = completedChallenges pt" by simp
  have len: "length (pt_lessons q) = length (pt_lessons pt)" "length (pt_challenges q) = length (pt_challenges pt)" by (simp_all add: q_def)
  have "due q = due pt" by (simp only: due_def someCompleted_iff cc ch len)
  moreover have "earned q = earned pt" using sums [of challengeXP] f(2) by (simp add: earned_def q_def)
  moreover have "\<forall>(k, c) \<in> set (pt_challenges q). challengeOk S c"
    using ball_modify_at [OF d c, of "challengeOk S" f] inv f(1) by (simp add: q_def ptInv_def)
  ultimately show ?thesis unfolding q_def [symmetric] using inv by (auto simp: ptInv_def q_def ids_def balance_def rewards_def achOk_def)
qed

lemma challengeOk_submit:
  "challengeOk S v \<Longrightarrow> 0 \<le> so_Score s \<Longrightarrow> so_Score s \<le> S \<Longrightarrow> (so_Passed s \<longrightarrow> ch_Status v = ''completed'') \<Longrightarrow> challengeOk S (v\<lparr>ch_Solutions := ch_Solutions v @ [s]\<rparr>)"
  by (auto simp: challengeOk_def)

lemma challengeXP_append: "challengeXP (v\<lparr>ch_Solutions := ch_Solutions v @ [s]\<rparr>) = (if (\<exists>t \<in> set (ch_Solutions v). so_Passed t) \<or> \<not> so_Passed s then challengeXP v else 20 * so_Score s)"
  by (auto simp: challengeXP_def filter_empty_conv split: list.splits)

lemma ptInv_submit:
  assumes inv: "ptInv S pt" and S: "0 \<le> S" "S \<le> 2 ^ 50" and score: "0 \<le> score" "score \<le> S"
  shows "\<exists>pt'. submitChallengeSolution challengeID code score passed now pt = Some pt' \<and> ptInv S pt'"
proof (cases "map_of (pt_challenges pt) challengeID")
  case (Some c)
  define s where "s = \<lparr>so_Timestamp = now, so_Code = code, so_Score = score, so_Passed = passed\<rparr>"
  have s: "so_Score s = score" "so_Passed s = passed" by (simp_all add: s_def)
  have cok: "challengeOk S c" using inv map_of_SomeD [OF Some] by (auto simp: ptInv_def)
  show ?thesis
  proof (cases "passed \<and> ch_Status c \<noteq> ''completed''")
    case True
    define f where "f = (\<lambda>v. v\<lparr>ch_Solutions := ch_Solutions v @ [s]\<rparr>\<lparr>ch_Status := ''completed'', ch_CompletedAt := now, ch_BestScore := score\<rparr> :: ChallengeProgress)"
    define q where "q = pt\<lparr>pt_challenges := modify challengeID f (pt_challenges pt)\<rparr>"
    have d: "distinct (map fst (pt_challenges pt))" using inv keys_distinct by (simp add: ptInv_def)
    note sums = summed_modify [OF d Some, of _ f]
    have "int (completedChallenges q) = int (completedChallenges pt) + 1" using sums True by (simp add: completed_summed q_def f_def)
    then have n: "completedChallenges q = Suc (completedChallenges pt)" "completedLessons q = completedLessons pt" by (simp_all add: q_def completedLessons_def)
    have np: "\<not> (\<exists>t \<in> set (ch_Solutions c). so_Passed t)" using cok True by (simp add: challengeOk_def)
    have "challengeXP (f c) = challengeXP (c\<lparr>ch_Solutions := ch_Solutions c @ [s]\<rparr>)" by (simp add: challengeXP_def f_def)
    then have xp: "challengeXP (f c) = 20 * score" "challengeXP c = 0" using np True s by (auto simp: challengeXP_append challengeXP_def filter_empty_conv split: list.splits)
    have "i64 (score * 20) = score * 20" using score S by (auto intro!: i64_id)
    moreover have "\<exists>pt'. gainXP now (score * 20) q = Some pt' \<and> ptInv S pt'"
    proof (rule gainXP_ok [OF S])
      show "\<forall>(k, c) \<in> set (pt_challenges q). challengeOk S c"
        using ball_modify [of "pt_challenges pt" "challengeOk S" f challengeID] inv score s True by (auto simp: q_def ptInv_def f_def challengeOk_def)
      show "balance q + score * 20 = earned q"
        using inv sums [of challengeXP] xp by (simp add: ptInv_def balance_def earned_def rewards_def q_def)
      have "ids q = due pt" using inv by (simp add: ptInv_def ids_def q_def)
      then show "ids q \<subseteq> due q" using due_mono [of pt q] n by (simp add: q_def)
      show "0 < completedLessons q \<or> someCompleted q" using n by (simp add: someCompleted_iff)
    qed (use inv score in \<open>simp_all add: ptInv_def q_def achOk_def\<close>)
    ultimately show ?thesis using Some True by (simp add: submitChallengeSolution_def Let_def q_def f_def s_def)
  next
    case False
    define f where "f = (\<lambda>v. (if score > ch_BestScore c then (\<lambda>v. v\<lparr>ch_BestScore := score\<rparr>) else id) (v\<lparr>ch_Solutions := ch_Solutions v @ [s]\<rparr>) :: ChallengeProgress)"
    have e: "submitChallengeSolution challengeID code score passed now pt = Some (pt\<lparr>pt_challenges := modify challengeID f (pt_challenges pt)\<rparr>)"
      using Some False by (auto simp: submitChallengeSolution_def Let_def f_def s_def id_def)
    have x: "challengeXP (f c) = challengeXP (c\<lparr>ch_Solutions := ch_Solutions c @ [s]\<rparr>)" by (simp add: challengeXP_def f_def)
    have "challengeXP (f c) = challengeXP c" unfolding x challengeXP_append using False cok s by (auto simp: challengeOk_def)
    moreover have "ch_Status (f c) = ch_Status c" by (simp add: f_def)
    ultimately have "ptInv S (pt\<lparr>pt_challenges := modify challengeID f (pt_challenges pt)\<rparr>)"
    proof (intro ptInv_change_at [OF inv Some])
      show "challengeOk S (f c)" using challengeOk_submit [OF cok, of s] s score False by (simp add: f_def challengeOk_def)
    qed simp_all
    then show ?thesis using e by simp
  qed
qed (use inv in \<open>simp add: submitChallengeSolution_def\<close>)

lemma ptInv_startLesson: "ptInv S pt \<Longrightarrow> ptInv S (startLesson lessonID now pt)"
proof (cases "map_of (pt_lessons pt) lessonID")
  case (Some l)
  assume inv: "ptInv S pt"
  define f where "f = (\<lambda>l. l\<lparr>lp_Attempts := i64 (lp_Attempts l + 1)\<rparr> :: LessonProgress)"
  define q where "q = pt\<lparr>pt_lessons := modify lessonID f (pt_lessons pt), pt_LastAccess := now\<rparr>"
  have d: "distinct (map fst (pt_lessons pt))" using inv keys_distinct by (simp add: ptInv_def)
  note sums = summed_modify [OF d Some, of _ f]
  have "int (completedLessons q) = int (completedLessons pt)" using sums by (simp add: completed_summed q_def f_def)
  then have cl: "completedLessons q = completedLessons pt" by simp
  have cc: "completedChallenges q = completedChallenges pt" by (simp add: q_def completedChallenges_def)
  have len: "length (pt_lessons q) = length (pt_lessons pt)" "length (pt_challenges q) = length (pt_challenges pt)" by (simp_all add: q_def)
  have "due q = due pt" by (simp only: due_def someCompleted_iff cl cc len)
  moreover have "earned q = earned pt" using sums [of lessonXP] by (simp add: earned_def q_def f_def lessonXP_def)
  moreover have "\<forall>(k, l) \<in> set (pt_lessons q). lessonOk S l"
    using ball_modify [of "pt_lessons pt" "lessonOk S" f lessonID] inv by (simp add: q_def ptInv_def f_def lessonOk_def)
  ultimately have "ptInv S q" using inv by (auto simp: ptInv_def q_def ids_def balance_def rewards_def achOk_def)
  then show ?thesis using Some by (simp add: startLesson_def q_def f_def)
qed (simp add: startLesson_def)

lemma ptInv_startChallenge: "ptInv S pt \<Longrightarrow> ptInv S (startChallenge challengeID now pt)"
proof (cases "map_of (pt_challenges pt) challengeID")
  case (Some c)
  assume inv: "ptInv S pt"
  define f where "f = (\<lambda>c. c\<lparr>ch_Status := (if ch_Status c = ''not_started'' then ''in_progress'' else ch_Status c), ch_Attempts := i64 (ch_Attempts c + 1)\<rparr> :: ChallengeProgress)"
  have "challengeOk S c" using inv map_of_SomeD [OF Some] by (auto simp: ptInv_def)
  then have "ptInv S (pt\<lparr>pt_challenges := modify challengeID f (pt_challenges pt)\<rparr>)"
    by (intro ptInv_change_at [OF inv Some]) (auto simp: f_def challengeOk_def challengeXP_def)
  then show ?thesis
    using Some by (simp add: startChallenge_def f_def ptInv_def ids_def due_def completedLessons_def completedChallenges_def someCompleted_def balance_def rewards_def achOk_def earned_def)
qed (simp add: startChallenge_def)

lemma ptInv_new: "0 \<le> S \<Longrightarrow> ptInv S newProgressTracker"
proof -
  assume "0 \<le> S"
  have l: "pt_lessons newProgressTracker = map (\<lambda>k. (k, newLesson)) lessonIDs" "pt_challenges newProgressTracker = map (\<lambda>k. (k, newChallenge)) challengeIDs"
    by (simp_all add: newProgressTracker_def initializeLessons_def initializeChallenges_def lessonIDs_def challengeIDs_def)
  have o: "pt_Level newProgressTracker = 1" "pt_XP newProgressTracker = 0" "pt_achievements newProgressTracker = []"
    by (simp_all add: newProgressTracker_def initializeLessons_def initializeChallenges_def lessonIDs_def challengeIDs_def)
  show ?thesis
    using l o by (simp add: ptInv_def lessonOk_def challengeOk_def newLesson_def newChallenge_def achOk_def ids_def due_def completedLessons_def completedChallenges_def someCompleted_def
        balance_def earned_def rewards_def summed_def lessonXP_def challengeXP_def levelCost_def lessonIDs_def challengeIDs_def)
qed

text \<open>Scores are not negative and at most \<open>S\<close>.\<close>

fun scoreOk :: "int \<Rightarrow> PTStep \<Rightarrow> bool" where
  "scoreOk S (CompleteLesson k score now) \<longleftrightarrow> 0 \<le> score \<and> score \<le> S"
| "scoreOk S (SubmitSolution k code score passed now) \<longleftrightarrow> 0 \<le> score \<and> score \<le> S"
| "scoreOk S _ \<longleftrightarrow> True"

lemma ptInv_step:
  assumes "ptInv S pt" "0 \<le> S" "S \<le> 2 ^ 50" "scoreOk S e"
  shows "\<exists>pt'. ptStep pt e = Some pt' \<and> ptInv S pt'"
  using assms by (cases e) (simp_all add: ptInv_startLesson ptInv_startChallenge ptInv_completeLesson ptInv_submit)

lemma ptInv_run:
  assumes "ptInv S pt" "0 \<le> S" "S \<le> 2 ^ 50" "list_all (scoreOk S) es"
  shows "\<exists>pt'. ptRun pt es = Some pt' \<and> ptInv S pt'"
  using assms
proof (induction es arbitrary: pt)
  case (Cons e es)
  obtain pt1 where "ptStep pt e = Some pt1" "ptInv S pt1" using ptInv_step [of S pt e] Cons.prems by auto
  then show ?case using Cons.IH [of pt1] Cons.prems by simp
qed simp



text \<open>The rewards of achievements are added after the check for a new level: after a first lesson with score 9 the learner has 140 points, more than the 100 of the first level, and stays there until something else is completed.  The achievement for a first
  lesson is also given for a challenge.\<close>

lemma delayed_level_up:
  "map_option (\<lambda>pt. (pt_Level pt, pt_XP pt)) (ptRun newProgressTracker [CompleteLesson ''01_goroutine'' 9 5]) = Some (1, 140)"
  by code_simp

lemma beginner_without_lesson:
  "map_option (\<lambda>pt. (completedLessons pt, map ac_ID (pt_achievements pt))) (ptRun newProgressTracker [SubmitSolution ''race'' ''x'' 1 True 5]) = Some (0, [''beginner'', ''challenger''])"
  by code_simp

text \<open>The first accepted solution overwrites a better score of an earlier, refused one.\<close>

lemma best_score_overwritten:
  "map_option (\<lambda>pt. map_option ch_BestScore (map_of (pt_challenges pt) ''race'')) (ptRun newProgressTracker [SubmitSolution ''race'' ''x'' 90 False 5, SubmitSolution ''race'' ''y'' 60 True 6]) = Some (Some 60)"
  by code_simp

section \<open>Progress bar\<close>

text \<open>The bar has as many full blocks as the share of twenty that is done, and is full exactly when all is done.\<close>

lemma progress_bar_full:
  assumes "0 < tot" and "current \<le> tot"
  shows "length (filter (\<lambda>r. r = 9608) (makeProgressBar current tot)) = (current * 20) div tot \<and> ((current * 20) div tot = 20 \<longleftrightarrow> current = tot)"
proof -
  have le: "(current * 20) div tot \<le> 20"
  proof -
    have "current * 20 \<le> tot * 20" using assms(2) by (rule mult_le_mono1)
    then have "(current * 20) div tot \<le> (tot * 20) div tot" by (rule div_le_mono)
    then show ?thesis using assms(1) by simp
  qed
  have "length (filter (\<lambda>i. i < k) [0..<20]) = k" if "k \<le> 20" for k :: nat
  proof -
    have "[0..<20] = [0..<k] @ [k..<20]" using that upt_add_eq_append [of 0 k "20 - k"] by simp
    then have "filter (\<lambda>i. i < k) [0..<20] = [0..<k]" by (simp add: filter_empty_conv)
    then show ?thesis by simp
  qed
  from this [OF le] have "length (filter (\<lambda>r. r = 9608) (makeProgressBar current tot)) = (current * 20) div tot"
    using assms(1) by (simp add: makeProgressBar_def Let_def filter_map comp_def)
  moreover have "(current * 20) div tot = 20 \<longleftrightarrow> current = tot"
  proof
    assume "(current * 20) div tot = 20"
    then have "20 * tot \<le> current * 20" using assms(1) by (metis times_div_less_eq_dividend mult.commute)
    then show "current = tot" using assms(2) by simp
  qed (use assms in simp)
  ultimately show ?thesis by simp
qed

end
