(* ===== verification/LoadBalancer.thy ===== *)
theory LoadBalancer
  imports GoPrelude "HOL-Library.Word"
begin

text \<open>
  The load balancer of \<open>src/scenarios/real_world.go\<close> (scenario 3): servers with a health flag that a goroutine for each server changes at random, and requests that choose a server round robin.  Every atomic access and every use of the mutex of a server is a step; a
  request is a goroutine with a program point.  The counter is a 64-bit word that wraps around.

  Shown: a request that runs alone finds a healthy server whenever there is one, for every value of the counter, also when it wraps around during the search; in every interleaving the load of a server is the number of requests that it is working on, and
  a request takes a server only after it found it healthy.  An example shows that requests that run at the same time can miss the only healthy server.
\<close>

record Server =
  sv_Healthy :: bool
  sv_Load :: int

text \<open>\<open>selectServer\<close> for a caller that runs alone: the index of the server and the counter afterwards.\<close>

function selectServer :: "Server list \<Rightarrow> 64 word \<Rightarrow> nat \<Rightarrow> nat option \<times> 64 word" where
  "selectServer servers current attempts =
     (if attempts < length servers * 2
      then let n = current + 1; k = unat n mod length servers
           in if sv_Healthy (servers ! k) then (Some k, n) else selectServer servers n (Suc attempts)
      else (None, current))"
  by pat_completeness auto
termination by (relation "measure (\<lambda>(servers, current, attempts). length servers * 2 - attempts)") auto

declare selectServer.simps [simp del]

text \<open>Requests that run at the same time.\<close>

datatype Request = Pick nat | CheckHealth nat nat | TakeLoad nat | Working nat | Served nat | NoServer

record LoadBalancer =
  lb_servers :: "Server list"
  lb_current :: "64 word"
  lb_requests :: "Request list"

definition newLoadBalancer :: "nat \<Rightarrow> nat \<Rightarrow> LoadBalancer" where
  "newLoadBalancer m n = \<lparr>lb_servers = replicate m \<lparr>sv_Healthy = True, sv_Load = 0\<rparr>, lb_current = 0, lb_requests = replicate n (Pick 0)\<rparr>"

definition addLoad :: "nat \<Rightarrow> int \<Rightarrow> LoadBalancer \<Rightarrow> LoadBalancer" where
  "addLoad k d lb = lb\<lparr>lb_servers := (lb_servers lb)[k := (lb_servers lb ! k)\<lparr>sv_Load := i64 (sv_Load (lb_servers lb ! k) + d)\<rparr>]\<rparr>"

definition setRequest :: "nat \<Rightarrow> Request \<Rightarrow> LoadBalancer \<Rightarrow> LoadBalancer" where
  "setRequest i r lb = lb\<lparr>lb_requests := (lb_requests lb)[i := r]\<rparr>"

fun requestAct :: "nat \<Rightarrow> Request \<Rightarrow> LoadBalancer \<Rightarrow> LoadBalancer" where
  "requestAct i (Pick attempts) lb =
     (if attempts < length (lb_servers lb) * 2
      then let n = lb_current lb + 1 in setRequest i (CheckHealth attempts (unat n mod length (lb_servers lb))) (lb\<lparr>lb_current := n\<rparr>)
      else setRequest i NoServer lb)"
| "requestAct i (CheckHealth attempts k) lb = setRequest i (if sv_Healthy (lb_servers lb ! k) then TakeLoad k else Pick (Suc attempts)) lb"
| "requestAct i (TakeLoad k) lb = setRequest i (Working k) (addLoad k 1 lb)"
| "requestAct i (Working k) lb = setRequest i (Served k) (addLoad k (-1) lb)"
| "requestAct i (Served k) lb = lb"
| "requestAct i NoServer lb = lb"

definition handleRequest :: "nat \<Rightarrow> LoadBalancer \<Rightarrow> LoadBalancer" where
  "handleRequest i lb = (if i < length (lb_requests lb) then requestAct i (lb_requests lb ! i) lb else lb)"

definition healthCheck :: "nat \<Rightarrow> bool \<Rightarrow> LoadBalancer \<Rightarrow> LoadBalancer" where
  "healthCheck k healthy lb =
     (if k < length (lb_servers lb) then lb\<lparr>lb_servers := (lb_servers lb)[k := (lb_servers lb ! k)\<lparr>sv_Healthy := healthy\<rparr>]\<rparr> else lb)"

datatype LBStep = RequestStep nat | HealthStep nat bool

fun lbStep :: "LoadBalancer \<Rightarrow> LBStep \<Rightarrow> LoadBalancer" where
  "lbStep lb (RequestStep i) = handleRequest i lb"
| "lbStep lb (HealthStep k healthy) = healthCheck k healthy lb"

section \<open>A request alone\<close>

text \<open>Among twice as many values of the counter as there are servers every server comes up, even if the counter wraps around in between.\<close>

lemma unat_add_nat: "unat (c + of_nat a :: 64 word) = (unat c + a) mod 2 ^ 64"
  by (simp add: unat_word_ariths unat_of_nat mod_simps)

lemma every_server_comes_up:
  assumes h: "h < L" and L: "L \<le> 2 ^ 63"
  shows "\<exists>a < L * 2. unat (c + of_nat a :: 64 word) mod L = h"
proof (cases "unat c + L \<le> 2 ^ 64")
  case True
  define a where "a = (if unat c mod L \<le> h then h - unat c mod L else h + L - unat c mod L)"
  have m: "unat c mod L < L" using h by simp
  then have al: "a < L" using h by (auto simp: a_def)
  have "unat (c + of_nat a) = unat c + a" unfolding unat_add_nat using True al by simp
  moreover have "(unat c + a) mod L = h"
  proof -
    have "x + (if x \<le> h then h - x else h + L - x) = h \<or> x + (if x \<le> h then h - x else h + L - x) = h + L" if "x < L" for x using that by auto
    from this [OF m] have "unat c mod L + a = h \<or> unat c mod L + a = h + L" by (simp only: a_def)
    then have "(unat c mod L + a) mod L = h" using h by auto
    then show ?thesis by (simp add: mod_add_left_eq)
  qed
  ultimately show ?thesis using al by (intro exI [of _ a]) simp
next
  case False
  define w where "w = 2 ^ 64 - unat c"
  have c: "unat c < 2 ^ 64" using unsigned_less [of c, where ?'a = nat] by simp
  have w: "w < L" "unat c + w = 2 ^ 64" using False c by (simp_all add: w_def)
  have "unat c + (w + h) = 2 ^ 64 + h" unfolding add.assoc [symmetric] w(2) ..
  then have "unat (c + of_nat (w + h)) = (2 ^ 64 + h) mod 2 ^ 64" unfolding unat_add_nat by (rule arg_cong)
  moreover have "h < 2 ^ 64" using h L by simp
  ultimately have "unat (c + of_nat (w + h)) = h" by simp
  then show ?thesis using w h by (intro exI [of _ "w + h"]) simp
qed

text \<open>What the search returns: the first healthy server in the order of the counter.\<close>

lemma selectServer_result:
  "length servers * 2 - attempts = d \<Longrightarrow>
     (case fst (selectServer servers current attempts) of
        Some k \<Rightarrow> k < length servers \<and> sv_Healthy (servers ! k)
      | None \<Rightarrow> \<forall>a < d. \<not> sv_Healthy (servers ! (unat (current + 1 + of_nat a) mod length servers)))"
proof (induction d arbitrary: current attempts)
  case 0
  then show ?case by (subst selectServer.simps) simp
next
  case (Suc d)
  then have att: "attempts < length servers * 2" and d: "length servers * 2 - Suc attempts = d" by simp_all
  define k where "k = unat (current + 1) mod length servers"
  have len: "0 < length servers" using att by (cases servers) simp_all
  show ?case
  proof (cases "sv_Healthy (servers ! k)")
    case True
    then show ?thesis using att len by (subst selectServer.simps) (simp add: Let_def k_def)
  next
    case False
    then have s: "selectServer servers current attempts = selectServer servers (current + 1) (Suc attempts)"
      using att by (subst selectServer.simps) (simp add: Let_def k_def)
    have "\<forall>a < Suc d. \<not> sv_Healthy (servers ! (unat (current + 1 + of_nat a) mod length servers))"
      if "\<forall>a < d. \<not> sv_Healthy (servers ! (unat (current + 1 + 1 + of_nat a) mod length servers))"
    proof (intro allI impI)
      fix a
      assume "a < Suc d"
      then show "\<not> sv_Healthy (servers ! (unat (current + 1 + of_nat a) mod length servers))"
        using that False by (cases a) (simp_all add: k_def add.assoc)
    qed
    then show ?thesis using Suc.IH [OF d, of "current + 1"] unfolding s by (auto split: option.splits)
  qed
qed

text \<open> A request that runs alone finds a server that is healthy if there is one, and none otherwise, for every value of the counter.\<close>

theorem select_server_finds_healthy:
  assumes "length servers \<le> 2 ^ 63"
  shows "case fst (selectServer servers current 0) of
      Some k \<Rightarrow> k < length servers \<and> sv_Healthy (servers ! k)
    | None \<Rightarrow> \<not> list_ex sv_Healthy servers"
proof (cases "fst (selectServer servers current 0)")
  case None
  have "\<not> sv_Healthy (servers ! h)" if "h < length servers" for h
    using selectServer_result [of servers 0 "length servers * 2" current] None every_server_comes_up [OF that assms, of "current + 1"] by auto
  then show ?thesis using None by (auto simp: list_ex_length)
next
  case (Some k)
  then show ?thesis using selectServer_result [of servers 0 "length servers * 2" current] by simp
qed

theorem select_server_finds_healthy_witness:
  "let servers = [\<lparr>sv_Healthy = False, sv_Load = 0\<rparr>, \<lparr>sv_Healthy = False, sv_Load = 0\<rparr>, \<lparr>sv_Healthy = True, sv_Load = 0\<rparr>] in \<exists>k. fst (selectServer servers (- 2) 0) = Some k \<and> sv_Healthy (servers ! k)"
proof -
  define servers where "servers = [\<lparr>sv_Healthy = False, sv_Load = 0\<rparr>, \<lparr>sv_Healthy = False, sv_Load = 0\<rparr>, \<lparr>sv_Healthy = True, sv_Load = 0\<rparr>]"
  have "length servers \<le> 2 ^ 63" "list_ex sv_Healthy servers" by (simp_all add: servers_def)
  then show ?thesis using select_server_finds_healthy [of servers "- 2"] unfolding servers_def [symmetric] by (auto simp: Let_def split: option.splits)
qed

section \<open>Requests together\<close>

text \<open>The load of a server is the number of requests it works on; requests point at servers that exist.\<close>

definition workingOn :: "nat \<Rightarrow> Request list \<Rightarrow> nat" where
  "workingOn k rs = length (filter (\<lambda>r. r = Working k) rs)"

fun requestOk :: "nat \<Rightarrow> Request \<Rightarrow> bool" where
  "requestOk m (Pick attempts) \<longleftrightarrow> attempts \<le> m * 2"
| "requestOk m (CheckHealth attempts k) \<longleftrightarrow> attempts < m * 2 \<and> k < m"
| "requestOk m (TakeLoad k) \<longleftrightarrow> k < m"
| "requestOk m (Working k) \<longleftrightarrow> k < m"
| "requestOk m _ \<longleftrightarrow> True"

definition lbInv :: "nat \<Rightarrow> nat \<Rightarrow> LoadBalancer \<Rightarrow> bool" where
  "lbInv m n lb \<longleftrightarrow>
     n < 2 ^ 62 \<and> length (lb_servers lb) = m \<and> length (lb_requests lb) = n \<and> list_all (requestOk m) (lb_requests lb) \<and>
     (\<forall>k < m. sv_Load (lb_servers lb ! k) = int (workingOn k (lb_requests lb)))"

lemma workingOn_update:
  "i < length rs \<Longrightarrow> workingOn k (rs[i := r]) + (if rs ! i = Working k then 1 else 0) = workingOn k rs + (if r = Working k then 1 else 0)"
  unfolding workingOn_def using length_filter_update [of i rs "\<lambda>r. r = Working k" r] by (auto split: if_splits)

lemma workingOn_le: "workingOn k rs \<le> length rs"
  by (simp add: workingOn_def)

lemma lbInv_move:
  assumes inv: "lbInv m n lb" and i: "i < n" and r: "requestOk m r" "\<And>k. r \<noteq> Working k" "\<And>k. lb_requests lb ! i \<noteq> Working k"
  shows "lbInv m n (setRequest i r lb)"
proof -
  have "workingOn k ((lb_requests lb)[i := r]) = workingOn k (lb_requests lb)" for k
    using workingOn_update [of i "lb_requests lb" k r] inv i r by (simp add: lbInv_def)
  moreover have "list_all (requestOk m) ((lb_requests lb)[i := r])"
    using inv r(1) by (auto simp: lbInv_def list_all_iff dest!: set_update_subset_insert [THEN subsetD])
  ultimately show ?thesis using inv by (simp add: lbInv_def setRequest_def)
qed

lemma lbInv_load:
  assumes inv: "lbInv m n lb" and i: "i < n" and k: "k < m" and r: "requestOk m r"
    and d: "\<And>k'. int (workingOn k' ((lb_requests lb)[i := r])) = int (workingOn k' (lb_requests lb)) + (if k' = k then d else 0)"
  shows "lbInv m n (setRequest i r (addLoad k d lb))"
proof -
  have len: "length (lb_servers lb) = m" "length (lb_requests lb) = n" "n < 2 ^ 62" using inv by (simp_all add: lbInv_def)
  have "workingOn k ((lb_requests lb)[i := r]) \<le> n" using workingOn_le [of k "(lb_requests lb)[i := r]"] len by simp
  then have "0 \<le> int (workingOn k (lb_requests lb)) + d" "int (workingOn k (lb_requests lb)) + d < 2 ^ 63" using d [of k] len(3) by simp_all
  then have "i64 (sv_Load (lb_servers lb ! k) + d) = int (workingOn k (lb_requests lb)) + d" using inv k by (auto simp: lbInv_def intro!: i64_id)
  moreover have "list_all (requestOk m) ((lb_requests lb)[i := r])"
    using inv r by (auto simp: lbInv_def list_all_iff dest!: set_update_subset_insert [THEN subsetD])
  ultimately show ?thesis using inv k d by (auto simp: lbInv_def setRequest_def addLoad_def nth_list_update)
qed

interpretation load_balancer: locked_object lbStep "lbInv m n" for m n
proof
  fix lb e
  assume inv: "lbInv m n lb"
  have len: "length (lb_servers lb) = m" "length (lb_requests lb) = n" using inv by (simp_all add: lbInv_def)
  show "lbInv m n (lbStep lb e)"
  proof (cases e)
    case (HealthStep k healthy)
    then show ?thesis using inv by (auto simp: healthCheck_def lbInv_def nth_list_update)
  next
    case (RequestStep i)
    show ?thesis
    proof (cases "i < n")
      case True
      then have mine: "requestOk m (lb_requests lb ! i)" using inv by (simp add: lbInv_def list_all_length)
      have "lbInv m n (requestAct i (lb_requests lb ! i) lb)"
      proof (cases "lb_requests lb ! i")
        case (Pick attempts)
        have "lbInv m n (lb\<lparr>lb_current := c\<rparr>)" for c using inv by (simp add: lbInv_def)
        moreover have "0 < m" if "attempts < m * 2" using that by (cases m) simp_all
        ultimately show ?thesis
          using Pick len lbInv_move [of m n "lb\<lparr>lb_current := lb_current lb + 1\<rparr>" i "CheckHealth attempts (unat (lb_current lb + 1) mod m)"] lbInv_move [OF inv True, of NoServer] True
          by (simp add: Let_def)
      next
        case (CheckHealth attempts k)
        then show ?thesis using lbInv_move [OF inv True, of "TakeLoad k"] lbInv_move [OF inv True, of "Pick (Suc attempts)"] mine by simp
      next
        case (TakeLoad k)
        have "int (workingOn k' ((lb_requests lb)[i := Working k])) = int (workingOn k' (lb_requests lb)) + (if k' = k then 1 else 0)" for k'
          using workingOn_update [of i "lb_requests lb" k' "Working k"] TakeLoad True len by (auto split: if_splits)
        then show ?thesis using lbInv_load [OF inv True, of k "Working k" 1] TakeLoad mine by simp
      next
        case (Working k)
        have "int (workingOn k' ((lb_requests lb)[i := Served k])) = int (workingOn k' (lb_requests lb)) + (if k' = k then - 1 else 0)" for k'
          using workingOn_update [of i "lb_requests lb" k' "Served k"] Working True len by (auto split: if_splits)
        then show ?thesis using lbInv_load [OF inv True, of k "Served k" "- 1"] Working mine by simp
      qed (use inv in simp_all)
      then show ?thesis using RequestStep True len by (simp add: handleRequest_def)
    qed (use inv len RequestStep in \<open>simp add: handleRequest_def\<close>)
  qed
qed

lemma load_is_requests:
  assumes "n < 2 ^ 62" and "k < m"
  shows "let lb = run lbStep (newLoadBalancer m n) es in sv_Load (lb_servers lb ! k) = int (length (filter (\<lambda>r. r = Working k) (lb_requests lb)))"
proof -
  have "lbInv m n (newLoadBalancer m n)" using assms by (simp add: lbInv_def newLoadBalancer_def list_all_iff workingOn_def)
  from load_balancer.inv_run [OF this, of es] show ?thesis using assms(2) by (simp add: lbInv_def workingOn_def Let_def)
qed

text \<open>With two servers, one of them down, a request can draw every other value of the counter while three others draw the values in between: it finds the same server down four times and is refused, although the other server is healthy all the time.\<close>

lemma refused_although_healthy:
  "let es = HealthStep 1 False # map RequestStep [0, 0, 1, 0, 0, 2, 0, 0, 3, 0, 0, 0]; lb = run lbStep (newLoadBalancer 2 4) es
   in lb_requests lb ! 0 = NoServer \<and> sv_Healthy (lb_servers lb ! 0)"
  by code_simp

end
