(* ===== verification/ChatRoom.thy ===== *)
theory ChatRoom
  imports GoPrelude
begin

text \<open>
  The chat room of \<open>src/scenarios/real_world.go\<close> (scenario 2): one goroutine manages the room and selects among the channels \<open>join\<close>, \<open>leave\<close> and \<open>broadcast\<close>, and a goroutine for every user joins, sends messages and leaves.  The channels have no buffer, so that a value
  passes only when one goroutine is ready to send and another one is ready to receive: \<open>sendsTo\<close> and \<open>receivesFrom\<close> say what each goroutine is ready for, and the step relation \<open>chatStep\<close> lets any such pair communicate.  The channels of the users have room for ten messages.

  Shown: after a user has joined, the managing goroutine is ready to send the notification on \<open>broadcast\<close>, from which only it receives; every execution stops after at most two steps, no message ever reaches a user, and nobody leaves the room.  So the program hangs.
\<close>

section \<open>State\<close>

record Message =
  From :: string
  Content :: string

record User =
  us_ID :: string
  us_Name :: string

datatype Manager = Selecting | Notifying Message

datatype Member = Joining | Registering | Talking nat | Leaving | Gone

datatype Chan = JoinChan | LeaveChan | BroadcastChan

datatype Goroutine = ManagerG | MemberG nat

record ChatRoom =
  cr_users :: "string \<rightharpoonup> Message list"
  cr_manager :: Manager
  cr_members :: "(User \<times> Member) list"
  cr_read :: "(string \<times> Message) list"

definition newChatRoom :: "User list \<Rightarrow> ChatRoom" where
  "newChatRoom us = \<lparr>cr_users = Map.empty, cr_manager = Selecting, cr_members = map (\<lambda>u. (u, Joining)) us, cr_read = []\<rparr>"

text \<open>A user sends three messages.\<close>

definition speech :: "nat \<Rightarrow> User \<Rightarrow> Message" where
  "speech n u = \<lparr>From = us_Name u, Content = ''message '' @ itoa (int (3 - n))\<rparr>"

definition joined :: "User \<Rightarrow> Message" where
  "joined u = \<lparr>From = ''System'', Content = us_Name u @ '' joined''\<rparr>"

definition left :: "User \<Rightarrow> Message" where
  "left u = \<lparr>From = ''System'', Content = us_Name u @ '' left''\<rparr>"

definition userOf :: "ChatRoom \<Rightarrow> nat \<Rightarrow> User" where
  "userOf r i = fst (cr_members r ! i)"

definition pointOf :: "ChatRoom \<Rightarrow> nat \<Rightarrow> Member" where
  "pointOf r i = snd (cr_members r ! i)"

definition setPoint :: "nat \<Rightarrow> Member \<Rightarrow> ChatRoom \<Rightarrow> ChatRoom" where
  "setPoint i p r = r\<lparr>cr_members := (cr_members r)[i := (userOf r i, p)]\<rparr>"

text \<open>The branch of \<open>broadcast\<close>: every user whose channel has room gets the message.\<close>

definition deliver :: "Message \<Rightarrow> ChatRoom \<Rightarrow> ChatRoom" where
  "deliver m r = r\<lparr>cr_users := (\<lambda>k. map_option (\<lambda>ms. if length ms < 10 then ms @ [m] else ms) (cr_users r k))\<rparr>"

section \<open>Steps\<close>

fun sendsTo :: "ChatRoom \<Rightarrow> Goroutine \<Rightarrow> Chan option" where
  "sendsTo r ManagerG = (case cr_manager r of Selecting \<Rightarrow> None | Notifying m \<Rightarrow> Some BroadcastChan)"
| "sendsTo r (MemberG i) =
     (if i < length (cr_members r)
      then (case pointOf r i of Joining \<Rightarrow> Some JoinChan | Talking (Suc n) \<Rightarrow> Some BroadcastChan | Leaving \<Rightarrow> Some LeaveChan | _ \<Rightarrow> None)
      else None)"

fun receivesFrom :: "ChatRoom \<Rightarrow> Goroutine \<Rightarrow> Chan set" where
  "receivesFrom r ManagerG = (case cr_manager r of Selecting \<Rightarrow> {JoinChan, LeaveChan, BroadcastChan} | Notifying m \<Rightarrow> {})"
| "receivesFrom r (MemberG i) = {}"

text \<open>What happens when the goroutine sends to the manager, or the manager to itself.\<close>

fun transfer :: "Goroutine \<Rightarrow> ChatRoom \<Rightarrow> ChatRoom" where
  "transfer ManagerG r = (case cr_manager r of Selecting \<Rightarrow> r | Notifying m \<Rightarrow> deliver m (r\<lparr>cr_manager := Selecting\<rparr>))"
| "transfer (MemberG i) r =
     (let u = userOf r i
      in case pointOf r i of
           Joining \<Rightarrow> setPoint i Registering (r\<lparr>cr_users := (cr_users r)(us_ID u \<mapsto> []), cr_manager := Notifying (joined u)\<rparr>)
         | Talking (Suc n) \<Rightarrow> setPoint i (Talking n) (deliver (speech (Suc n) u) r)
         | Leaving \<Rightarrow> setPoint i Gone (r\<lparr>cr_users := (cr_users r)(us_ID u := None), cr_manager := Notifying (left u)\<rparr>)
         | _ \<Rightarrow> r)"

text \<open>Steps that need no partner: a user registers its own channel, goes on after the last message, and reads a message from its channel.\<close>

inductive chatStep :: "ChatRoom \<Rightarrow> ChatRoom \<Rightarrow> bool" where
  communicate: "g \<noteq> g' \<Longrightarrow> sendsTo r g = Some c \<Longrightarrow> c \<in> receivesFrom r g' \<Longrightarrow> chatStep r (transfer g r)"
| register: "i < length (cr_members r) \<Longrightarrow> pointOf r i = Registering \<Longrightarrow> chatStep r (setPoint i (Talking 3) (r\<lparr>cr_users := (cr_users r)(us_ID (userOf r i) \<mapsto> [])\<rparr>))"
| rest: "i < length (cr_members r) \<Longrightarrow> pointOf r i = Talking 0 \<Longrightarrow> chatStep r (setPoint i Leaving r)"
| read: "cr_users r k = Some (m # ms) \<Longrightarrow> chatStep r (r\<lparr>cr_users := (cr_users r)(k \<mapsto> ms), cr_read := cr_read r @ [(k, m)]\<rparr>)"

inductive_cases chatStepE: "chatStep r r'"

section \<open>The room hangs\<close>

text \<open>Either nobody has joined, or the manager waits to send and the one user who joined is about to register or to talk.\<close>

definition hangs :: "User list \<Rightarrow> ChatRoom \<Rightarrow> bool" where
  "hangs us r \<longleftrightarrow>
     cr_read r = [] \<and> (\<forall>k ms. cr_users r k = Some ms \<longrightarrow> ms = []) \<and>
     ((cr_manager r = Selecting \<and> cr_members r = map (\<lambda>u. (u, Joining)) us) \<or>
      (\<exists>m i p. cr_manager r = Notifying m \<and> i < length us \<and> p \<in> {Registering, Talking 3} \<and> cr_members r = (map (\<lambda>u. (u, Joining)) us)[i := (us ! i, p)]))"

lemma hangs_new: "hangs us (newChatRoom us)"
  by (simp add: hangs_def newChatRoom_def)

lemma hangs_step:
  assumes "chatStep r r'" and h: "hangs us r"
  shows "hangs us r'"
  using assms(1)
proof (cases rule: chatStep.cases)
  case (communicate g g' c)
  then have g': "g' = ManagerG" "cr_manager r = Selecting" by (cases g'; auto split: Manager.splits)+
  then obtain i where i: "g = MemberG i" "i < length (cr_members r)" using communicate by (cases g) (auto split: if_splits)
  have m: "cr_members r = map (\<lambda>u. (u, Joining)) us" using h g' by (auto simp: hangs_def)
  then have "pointOf r i = Joining" "userOf r i = us ! i" "i < length us" using i by (simp_all add: pointOf_def userOf_def)
  then show ?thesis using communicate(1) h m i by (auto simp: hangs_def setPoint_def Let_def userOf_def)
next
  case (register i)
  then obtain m j p where r: "cr_manager r = Notifying m" "j < length us" "cr_members r = (map (\<lambda>u. (u, Joining)) us)[j := (us ! j, p)]"
    using h by (auto simp: hangs_def pointOf_def)
  then have "i = j" using register by (auto simp: pointOf_def nth_list_update split: if_splits)
  then show ?thesis using register h r by (auto simp: hangs_def setPoint_def userOf_def)
next
  case (rest i)
  then show ?thesis using h by (auto simp: hangs_def pointOf_def nth_list_update split: if_splits)
next
  case (read k m ms)
  then show ?thesis using h by (auto simp: hangs_def)
qed

text \<open>The steps that are left: one user joins and registers.\<close>

definition stepsToGo :: "ChatRoom \<Rightarrow> nat" where
  "stepsToGo r = (if cr_manager r = Selecting then 2 else if Registering \<in> snd ` set (cr_members r) then 1 else 0)"

lemma hangs_points:
  assumes "hangs us r" and "i < length (cr_members r)"
  shows "pointOf r i \<in> {Joining, Registering, Talking 3}" "length (cr_members r) = length us"
proof -
  have "length (cr_members r) = length us \<and> (\<exists>j p. p \<in> {Joining, Registering, Talking 3} \<and> cr_members r = (map (\<lambda>u. (u, Joining)) us)[j := (us ! j, p)])"
  proof (cases "cr_manager r = Selecting")
    case True
    then have m: "cr_members r = map (\<lambda>u. (u, Joining)) us" using assms(1) by (auto simp: hangs_def)
    then have "cr_members r = (map (\<lambda>u. (u, Joining)) us)[length us := (us ! length us, Joining)]" by (simp add: list_update_beyond)
    then show ?thesis using m by auto
  next
    case False
    then show ?thesis using assms(1) by (auto simp: hangs_def)
  qed
  then have "length (cr_members r) = length us" and "snd ` set (cr_members r) \<subseteq> {Joining, Registering, Talking 3}"
    by (auto dest!: set_update_subset_insert [THEN subsetD])
  then show "pointOf r i \<in> {Joining, Registering, Talking 3}" "length (cr_members r) = length us"
    using nth_mem [OF assms(2)] by (auto simp: pointOf_def)
qed

lemma hangs_counts:
  assumes "chatStep r r'" and h: "hangs us r"
  shows "stepsToGo r = Suc (stepsToGo r')"
  using assms(1)
proof (cases rule: chatStep.cases)
  case (communicate g g' c)
  then have g': "cr_manager r = Selecting" by (cases g') (auto split: Manager.splits)
  then obtain i where i: "g = MemberG i" "i < length (cr_members r)" using communicate by (cases g) (auto split: if_splits)
  then have "pointOf r i = Joining" using h g' by (auto simp: hangs_def pointOf_def)
  then have "cr_manager r' \<noteq> Selecting" "Registering \<in> snd ` set (cr_members r')"
    using communicate(1) i by (auto simp: setPoint_def Let_def userOf_def intro!: image_eqI [of _ _ "(userOf r i, Registering)"] set_update_memI)
  then show ?thesis using g' by (simp add: stepsToGo_def)
next
  case (register i)
  have n: "cr_manager r \<noteq> Selecting" using h register by (auto simp: hangs_def pointOf_def)
  then obtain m j p where r: "cr_manager r = Notifying m" "j < length us" "cr_members r = (map (\<lambda>u. (u, Joining)) us)[j := (us ! j, p)]" using h by (auto simp: hangs_def)
  then have "i = j" using register by (auto simp: pointOf_def nth_list_update split: if_splits)
  have "Registering \<in> snd ` set (cr_members r)"
    using register(2,3) by (auto simp: pointOf_def intro!: image_eqI [of _ _ "cr_members r ! i"])
  moreover have "cr_members r' = (map (\<lambda>u. (u, Joining)) us)[j := (us ! j, Talking 3)]" using register r \<open>i = j\<close> by (simp add: setPoint_def userOf_def)
  then have "Registering \<notin> snd ` set (cr_members r')" by (auto dest!: set_update_subset_insert [THEN subsetD])
  ultimately show ?thesis using n register(1) by (simp add: stepsToGo_def setPoint_def)
next
  case (rest i)
  then show ?thesis using hangs_points [OF h, of i] by simp
next
  case (read k m ms)
  then show ?thesis using h by (auto simp: hangs_def)
qed

lemma hangs_moves:
  assumes h: "hangs us r" and "us \<noteq> []" and "0 < stepsToGo r"
  shows "\<exists>r'. chatStep r r'"
proof (cases "cr_manager r = Selecting")
  case True
  then have m: "cr_members r = map (\<lambda>u. (u, Joining)) us" using h by (auto simp: hangs_def)
  then have "sendsTo r (MemberG 0) = Some JoinChan" "JoinChan \<in> receivesFrom r ManagerG" using assms(2) True by (simp_all add: pointOf_def)
  then show ?thesis using communicate [of "MemberG 0" ManagerG r JoinChan] by blast
next
  case False
  then have "Registering \<in> snd ` set (cr_members r)" using assms(3) by (simp add: stepsToGo_def split: if_splits)
  then obtain i where "i < length (cr_members r)" "pointOf r i = Registering" by (auto simp: in_set_conv_nth pointOf_def)
  then show ?thesis using register by blast
qed

lemma hangs_run:
  assumes "(chatStep ^^ n) (newChatRoom us) r"
  shows "hangs us r \<and> n + stepsToGo r = 2"
  using assms
proof (induction n arbitrary: r)
  case 0
  then have "r = newChatRoom us" by simp
  then show ?case using hangs_new by (simp add: stepsToGo_def newChatRoom_def)
next
  case (Suc n)
  then obtain s where "(chatStep ^^ n) (newChatRoom us) s" "chatStep s r" by auto
  then show ?case using Suc.IH [of s] hangs_step [of s r us] hangs_counts [of s r us] by simp
qed

text \<open> With at least one user, every execution of the chat room has at most two steps: one user joins and registers its channel.  In no state has a message been read or is one waiting in a channel of a user, and no user has left; before the second step there is a next step, after it there is none.  The
  managing goroutine waits for ever to send the notification, and all others wait for it.\<close>

theorem chat_room_hangs:
  assumes "(chatStep ^^ n) (newChatRoom us) r" and "us \<noteq> []"
  shows "n \<le> 2 \<and> cr_read r = [] \<and> (\<forall>k. cr_users r k \<in> {None, Some []}) \<and> Gone \<notin> snd ` set (cr_members r) \<and>
    (if n = 2 then \<forall>r'. \<not> chatStep r r' else \<exists>r'. chatStep r r')"
proof -
  have h: "hangs us r" and n: "n + stepsToGo r = 2" using hangs_run [OF assms(1)] by simp_all
  have "\<not> chatStep r r'" if "n = 2" for r' using hangs_counts [OF _ h, of r'] n that by auto
  moreover have "\<exists>r'. chatStep r r'" if "n \<noteq> 2" using hangs_moves [OF h assms(2)] n that by simp
  moreover have "Gone \<notin> snd ` set (cr_members r)" using hangs_points(1) [OF h] by (fastforce simp: in_set_conv_nth pointOf_def)
  moreover have "cr_read r = []" using h by (simp add: hangs_def)
  moreover have "cr_users r k \<in> {None, Some []}" for k using h by (cases "cr_users r k") (auto simp: hangs_def)
  ultimately show ?thesis using n by auto
qed

theorem chat_room_hangs_witness:
  "\<exists>r r'. chatStep (newChatRoom [\<lparr>us_ID = ''user1'', us_Name = ''Tanaka''\<rparr>, \<lparr>us_ID = ''user2'', us_Name = ''Suzuki''\<rparr>]) r \<and> cr_manager r \<noteq> Selecting \<and> chatStep r r' \<and> (\<forall>r''. \<not> chatStep r' r'')"
proof -
  define us where "us = [\<lparr>us_ID = ''user1'', us_Name = ''Tanaka''\<rparr>, \<lparr>us_ID = ''user2'', us_Name = ''Suzuki''\<rparr>]"
  have u: "us \<noteq> []" by (simp add: us_def)
  define r where "r = transfer (MemberG 0) (newChatRoom us)"
  have s1: "chatStep (newChatRoom us) r"
    unfolding r_def by (rule communicate [of _ ManagerG _ JoinChan]) (simp_all add: newChatRoom_def us_def pointOf_def)
  have m: "cr_manager r \<noteq> Selecting" by (simp add: r_def newChatRoom_def us_def pointOf_def setPoint_def Let_def)
  have "(chatStep ^^ 1) (newChatRoom us) r" using s1 by (auto simp: relcompp_apply)
  then obtain r' where s2: "chatStep r r'" using chat_room_hangs [of 1 us r] u by auto
  then have "(chatStep ^^ 2) (newChatRoom us) r'" using s1 by (auto simp: numeral_2_eq_2)
  then have "\<forall>r''. \<not> chatStep r' r''" using chat_room_hangs [of 2 us r'] u by simp
  then show ?thesis using s1 s2 m unfolding us_def [symmetric] by blast
qed

end
