(* ===== verification/ExampleBus.thy ===== *)
theory ExampleBus
  imports MessageBus "HOL-Library.Sublist"
begin

text \<open>
  The message bus of \<open>src/practical/message_bus_example.go\<close>: partitioned topics with a retention policy, consumer groups and committed offsets.  It needs no service outside the repository.  Unlike the bus of \<open>solution18_message_bus.go\<close> it stores committed offsets by group and partition only,
  calls a handler once and keeps no record of failed messages.  The digest of keys is shared with \<open>MessageBus\<close>.

  Every critical section is a step; a run of \<open>consumePartition\<close> reads the offset, then copies the messages, then handles them one at a time, and any number of runs overlap, which includes the order in which a consumer takes its own.  Clock readings, iteration orders and the outcome of handlers (an error, a panic and a timeout are failures) are
  inputs.  A publication that panics (a topic without partitions) ends the program and leaves the state as it is.  \<open>xb_sent\<close> and \<open>xb_handled\<close> record what was published and what was handled successfully; headers are left out.

  Shown, for every interleaving: a partition holds, in the order of publication, the messages published to it except the oldest ones that retention removed, with consecutive offsets; messages of a key are in one partition; the counters are exact; and the dead-letter queue is never used.  Examples
  show that failed messages are lost, that topics of a group disturb each other's offsets, and that retention keeps messages of which all are too old.
\<close>

section \<open>State\<close>

record ExMessage =
  em_ID :: string
  em_Topic :: string
  em_Partition :: nat
  em_Offset :: int
  em_Key :: bytes
  em_Value :: bytes
  em_Timestamp :: gotime
  em_Attempts :: int

record ExPartition =
  ep_Messages :: "ExMessage list"
  ep_Offset :: int

record ExTopic =
  et_Partitions :: "ExPartition list"
  et_RetentionPeriod :: duration

record ExConsumer =
  ec_Topics :: "string list"
  ec_Heartbeat :: gotime
  ec_Active :: bool

record ExGroup =
  eg_Consumers :: "string \<rightharpoonup> ExConsumer"
  eg_Assignments :: "nat \<rightharpoonup> string"
  eg_RebalanceVersion :: int

datatype Consuming = Assigned string string nat | OffsetRead string string nat int | Handling string nat "ExMessage list"

record MessageBusExample =
  xb_topics :: "string \<rightharpoonup> ExTopic"
  xb_groups :: "string \<rightharpoonup> ExGroup"
  xb_offsets :: "string \<rightharpoonup> (nat \<rightharpoonup> int)"
  xb_dlq :: "ExMessage list"
  xb_published :: int
  xb_consumed :: int
  xb_inDLQ :: int
  xb_loops :: "(string \<times> string \<times> string list) list"
  xb_runs :: "Consuming list"
  xb_sent :: "ExMessage list"
  xb_handled :: "(string \<times> ExMessage) list"

definition newMessageBusExample :: MessageBusExample where
  "newMessageBusExample = \<lparr>xb_topics = Map.empty, xb_groups = Map.empty, xb_offsets = Map.empty, xb_dlq = [], xb_published = 0, xb_consumed = 0, xb_inDLQ = 0, xb_loops = [], xb_runs = [], xb_sent = [], xb_handled = []\<rparr>"

section \<open>Topics\<close>

definition exCreateTopic :: "string \<Rightarrow> nat \<Rightarrow> duration \<Rightarrow> MessageBusExample \<Rightarrow> (BusError + unit) \<times> MessageBusExample" where
  "exCreateTopic name numPartitions retention mb =
     (case xb_topics mb name of
        Some _ \<Rightarrow> (Inl (TopicExists name), mb)
      | None \<Rightarrow> (Inr (), mb\<lparr>xb_topics := (xb_topics mb)(name \<mapsto> \<lparr>et_Partitions = replicate numPartitions \<lparr>ep_Messages = [], ep_Offset = 0\<rparr>, et_RetentionPeriod = retention\<rparr>)\<rparr>))"

text \<open>Keys are distributed by their hash, messages without key by the clock.  \<open>None\<close> is a panic: a division by zero or a negative index.\<close>

definition exSelectPartition :: "gotime \<Rightarrow> bytes \<Rightarrow> nat \<Rightarrow> nat option" where
  "exSelectPartition now key numPartitions =
     (if numPartitions = 0 then None
      else if length key = 0 then (let p = goRem now (int numPartitions) in if p < 0 then None else Some (nat p))
      else Some (unat (fnv32a key) mod numPartitions))"

definition exMessage :: "gotime \<Rightarrow> string \<Rightarrow> nat \<Rightarrow> bytes \<Rightarrow> bytes \<Rightarrow> ExPartition \<Rightarrow> ExMessage" where
  "exMessage now topicName partitionID key value part =
     \<lparr>em_ID = topicName @ ''-'' @ itoa (int partitionID) @ ''-'' @ itoa (ep_Offset part), em_Topic = topicName, em_Partition = partitionID, em_Offset = ep_Offset part,
      em_Key = key, em_Value = value, em_Timestamp = now, em_Attempts = 0\<rparr>"

definition exPublish :: "gotime \<Rightarrow> gotime \<Rightarrow> string \<Rightarrow> bytes \<Rightarrow> bytes \<Rightarrow> MessageBusExample \<Rightarrow> ((BusError + unit) \<times> MessageBusExample) option" where
  "exPublish selNow now topicName key value mb =
     (case xb_topics mb topicName of
        None \<Rightarrow> Some (Inl (TopicNotFound topicName), mb)
      | Some topic \<Rightarrow>
          map_option (\<lambda>p. let part = et_Partitions topic ! p; message = exMessage now topicName p key value part;
                              part' = part\<lparr>ep_Messages := ep_Messages part @ [message], ep_Offset := i64 (ep_Offset part + 1)\<rparr>
                          in (Inr (), mb\<lparr>xb_topics := (xb_topics mb)(topicName \<mapsto> topic\<lparr>et_Partitions := (et_Partitions topic)[p := part']\<rparr>),
                                         xb_published := i64 (xb_published mb + 1), xb_sent := xb_sent mb @ [message]\<rparr>))
            (exSelectPartition selNow key (length (et_Partitions topic))))"

text \<open>The retention policy for one partition: the position of the first message after the cut-off, or 0.\<close>

fun cutoffIndex :: "gotime \<Rightarrow> nat \<Rightarrow> ExMessage list \<Rightarrow> nat" where
  "cutoffIndex cutoff i [] = 0"
| "cutoffIndex cutoff i (m # ms) = (if em_Timestamp m > cutoff then i else cutoffIndex cutoff (Suc i) ms)"

definition exEnforceRetention :: "gotime \<Rightarrow> string \<Rightarrow> nat \<Rightarrow> MessageBusExample \<Rightarrow> MessageBusExample" where
  "exEnforceRetention now topicName p mb =
     (case xb_topics mb topicName of
        None \<Rightarrow> mb
      | Some topic \<Rightarrow>
          (if p < length (et_Partitions topic)
           then let part = et_Partitions topic ! p; k = cutoffIndex (now - et_RetentionPeriod topic) 0 (ep_Messages part)
                in mb\<lparr>xb_topics := (xb_topics mb)(topicName \<mapsto> topic\<lparr>et_Partitions := (et_Partitions topic)[p := part\<lparr>ep_Messages := drop k (ep_Messages part)\<rparr>]\<rparr>)\<rparr>
           else mb))"

section \<open>Groups\<close>

definition exCreateConsumerGroup :: "string \<Rightarrow> MessageBusExample \<Rightarrow> (BusError + unit) \<times> MessageBusExample" where
  "exCreateConsumerGroup groupID mb =
     (case xb_groups mb groupID of
        Some _ \<Rightarrow> (Inl (GroupExists groupID), mb)
      | None \<Rightarrow> (Inr (), mb\<lparr>xb_groups := (xb_groups mb)(groupID \<mapsto> \<lparr>eg_Consumers = Map.empty, eg_Assignments = Map.empty, eg_RebalanceVersion = 0\<rparr>),
                            xb_offsets := (xb_offsets mb)(groupID \<mapsto> Map.empty)\<rparr>))"

definition exJoinGroup :: "gotime \<Rightarrow> string \<Rightarrow> string \<Rightarrow> string list \<Rightarrow> MessageBusExample \<Rightarrow> (BusError + unit) \<times> MessageBusExample" where
  "exJoinGroup now groupID consumerID topics mb =
     (case xb_groups mb groupID of
        None \<Rightarrow> (Inl (GroupNotFound groupID), mb)
      | Some g \<Rightarrow> (Inr (), mb\<lparr>xb_groups := (xb_groups mb)(groupID \<mapsto>
                     g\<lparr>eg_Consumers := (eg_Consumers g)(consumerID \<mapsto> \<lparr>ec_Topics = topics, ec_Heartbeat = now, ec_Active = True\<rparr>)\<rparr>)\<rparr>))"

definition exHeartbeat :: "gotime \<Rightarrow> string \<Rightarrow> string \<Rightarrow> MessageBusExample \<Rightarrow> MessageBusExample" where
  "exHeartbeat now groupID consumerID mb =
     (case xb_groups mb groupID of
        None \<Rightarrow> mb
      | Some g \<Rightarrow> (case eg_Consumers g consumerID of
                     None \<Rightarrow> mb
                   | Some c \<Rightarrow> mb\<lparr>xb_groups := (xb_groups mb)(groupID \<mapsto> g\<lparr>eg_Consumers := (eg_Consumers g)(consumerID \<mapsto> c\<lparr>ec_Heartbeat := now\<rparr>)\<rparr>)\<rparr>))"

text \<open>\<open>rebalance\<close>: \<open>topicOrder\<close> and \<open>consumerOrder\<close> are the orders in which the two maps are iterated.  The partitions of all topics are numbered from 0, so that later topics overwrite the assignments of earlier ones.\<close>

definition activeIn :: "ExGroup \<Rightarrow> string \<Rightarrow> bool" where
  "activeIn g c = (case eg_Consumers g c of None \<Rightarrow> False | Some consumer \<Rightarrow> ec_Active consumer)"

definition subscribed :: "ExGroup \<Rightarrow> string list \<Rightarrow> string \<Rightarrow> bool" where
  "subscribed g activeConsumers t = list_ex (\<lambda>c. case eg_Consumers g c of None \<Rightarrow> False | Some consumer \<Rightarrow> t \<in> set (ec_Topics consumer)) activeConsumers"

definition exRebalance :: "string \<Rightarrow> string list \<Rightarrow> string list \<Rightarrow> MessageBusExample \<Rightarrow> MessageBusExample" where
  "exRebalance groupID topicOrder consumerOrder mb =
     (case xb_groups mb groupID of
        None \<Rightarrow> mb
      | Some g \<Rightarrow>
          (let activeConsumers = filter (activeIn g) consumerOrder;
               topics = filter (subscribed g activeConsumers) topicOrder;
               allPartitions = concat (map (\<lambda>t. case xb_topics mb t of None \<Rightarrow> [] | Some topic \<Rightarrow> [0..<length (et_Partitions topic)]) topics)
           in if activeConsumers = [] then mb
              else mb\<lparr>xb_groups := (xb_groups mb)(groupID \<mapsto>
                     g\<lparr>eg_Assignments := foldl (\<lambda>a i. a(allPartitions ! i \<mapsto> activeConsumers ! (i mod length activeConsumers))) Map.empty [0..<length allPartitions],
                       eg_RebalanceVersion := i64 (eg_RebalanceVersion g + 1)\<rparr>)\<rparr>))"

section \<open>Consuming\<close>

text \<open>\<open>Consume\<close> looks its consumer up once and then polls; a round of \<open>consumePartitions\<close> copies the partitions assigned to the consumer and visits each of them, in the order \<open>order\<close>, for every topic of the consumer.\<close>

definition exConsume :: "string \<Rightarrow> string \<Rightarrow> MessageBusExample \<Rightarrow> (BusError + unit) \<times> MessageBusExample" where
  "exConsume groupID consumerID mb =
     (case xb_groups mb groupID of
        None \<Rightarrow> (Inl (GroupNotFound groupID), mb)
      | Some g \<Rightarrow>
          (case eg_Consumers g consumerID of
             None \<Rightarrow> (Inl (ConsumerNotFound consumerID), mb)
           | Some c \<Rightarrow> (Inr (), mb\<lparr>xb_loops := xb_loops mb @ [(groupID, consumerID, ec_Topics c)]\<rparr>)))"

definition exConsumePartitions :: "nat \<Rightarrow> nat list \<Rightarrow> MessageBusExample \<Rightarrow> MessageBusExample" where
  "exConsumePartitions l order mb =
     (if l < length (xb_loops mb)
      then case xb_loops mb ! l of (groupID, consumerID, topics) \<Rightarrow>
             (case xb_groups mb groupID of
                None \<Rightarrow> mb
              | Some g \<Rightarrow> mb\<lparr>xb_runs := xb_runs mb @ concat (map (\<lambda>p. map (\<lambda>t. Assigned groupID t p) topics) (filter (\<lambda>p. eg_Assignments g p = Some consumerID) order))\<rparr>)
      else mb)"

text \<open>A group without offsets reads offset 0.\<close>

definition exLastOffset :: "string \<Rightarrow> nat \<Rightarrow> MessageBusExample \<Rightarrow> int" where
  "exLastOffset groupID p mb = (case xb_offsets mb groupID of None \<Rightarrow> 0 | Some offs \<Rightarrow> (case offs p of None \<Rightarrow> 0 | Some k \<Rightarrow> k))"

definition exCommitOffset :: "string \<Rightarrow> nat \<Rightarrow> int \<Rightarrow> MessageBusExample \<Rightarrow> MessageBusExample" where
  "exCommitOffset groupID p offset mb =
     mb\<lparr>xb_offsets := (xb_offsets mb)(groupID \<mapsto> (case xb_offsets mb groupID of None \<Rightarrow> Map.empty | Some offs \<Rightarrow> offs)(p \<mapsto> offset))\<rparr>"

text \<open>The message is a copy, so that the attempt counted here is forgotten.\<close>

definition exHandleFailedMessage :: "ExMessage \<Rightarrow> MessageBusExample \<Rightarrow> MessageBusExample" where
  "exHandleFailedMessage msg mb =
     (let msg = msg\<lparr>em_Attempts := i64 (em_Attempts msg + 1)\<rparr>
      in if em_Attempts msg \<ge> 3 then mb\<lparr>xb_dlq := xb_dlq mb @ [msg], xb_inDLQ := i64 (xb_inDLQ mb + 1)\<rparr> else mb)"

definition exConsumeStep :: "nat \<Rightarrow> bool \<Rightarrow> MessageBusExample \<Rightarrow> MessageBusExample" where
  "exConsumeStep r ok mb =
     (if r < length (xb_runs mb)
      then (case xb_runs mb ! r of
              Assigned groupID topicName p \<Rightarrow>
                (case xb_topics mb topicName of
                   None \<Rightarrow> mb\<lparr>xb_runs := (xb_runs mb)[r := Handling groupID p []]\<rparr>
                 | Some topic \<Rightarrow> mb\<lparr>xb_runs := (xb_runs mb)[r := if p \<ge> length (et_Partitions topic) then Handling groupID p [] else OffsetRead groupID topicName p (exLastOffset groupID p mb)]\<rparr>)
            | OffsetRead groupID topicName p lo \<Rightarrow>
                (case xb_topics mb topicName of
                   None \<Rightarrow> mb
                 | Some topic \<Rightarrow> mb\<lparr>xb_runs := (xb_runs mb)[r := Handling groupID p (filter (\<lambda>m. em_Offset m \<ge> lo) (ep_Messages (et_Partitions topic ! p)))]\<rparr>)
            | Handling groupID p [] \<Rightarrow> mb
            | Handling groupID p (msg # msgs) \<Rightarrow>
                (let mb' = mb\<lparr>xb_runs := (xb_runs mb)[r := Handling groupID p msgs]\<rparr>
                 in if ok then exCommitOffset groupID p (i64 (em_Offset msg + 1)) (mb'\<lparr>xb_consumed := i64 (xb_consumed mb' + 1), xb_handled := xb_handled mb' @ [(groupID, msg)]\<rparr>)
                    else exHandleFailedMessage msg mb'))
      else mb)"

datatype ExStep =
    ExCreateTopic string nat duration | ExPublish gotime gotime string bytes bytes | ExRetention gotime string nat | ExCreateGroup string | ExJoin gotime string string "string list"
  | ExHeartbeat gotime string string | ExRebalance string "string list" "string list" | ExConsume string string | ExPoll nat "nat list" | ExRun nat bool

fun exStep :: "MessageBusExample \<Rightarrow> ExStep \<Rightarrow> MessageBusExample" where
  "exStep mb (ExCreateTopic name n retention) = snd (exCreateTopic name n retention mb)"
| "exStep mb (ExPublish selNow now topic key value) = (case exPublish selNow now topic key value mb of None \<Rightarrow> mb | Some (r, mb') \<Rightarrow> mb')"
| "exStep mb (ExRetention now topic p) = exEnforceRetention now topic p mb"
| "exStep mb (ExCreateGroup g) = snd (exCreateConsumerGroup g mb)"
| "exStep mb (ExJoin now g c topics) = snd (exJoinGroup now g c topics mb)"
| "exStep mb (ExHeartbeat now g c) = exHeartbeat now g c mb"
| "exStep mb (ExRebalance g topics consumers) = exRebalance g topics consumers mb"
| "exStep mb (ExConsume g c) = snd (exConsume g c mb)"
| "exStep mb (ExPoll l order) = exConsumePartitions l order mb"
| "exStep mb (ExRun r ok) = exConsumeStep r ok mb"

text \<open>Fewer than \<open>2 ^ 62\<close> messages are published and handled.\<close>

fun exOk :: "MessageBusExample \<Rightarrow> ExStep \<Rightarrow> bool" where
  "exOk mb e \<longleftrightarrow> length (xb_sent mb) < 2 ^ 62 \<and> length (xb_handled mb) < 2 ^ 62"


section \<open>What the partitions hold\<close>

definition sentTo :: "ExMessage list \<Rightarrow> string \<Rightarrow> nat \<Rightarrow> ExMessage list" where
  "sentTo sent t p = filter (\<lambda>m. em_Topic m = t \<and> em_Partition m = p) sent"

lemma sentTo_snoc [simp]: "sentTo (sent @ [m]) t p = sentTo sent t p @ (if em_Topic m = t \<and> em_Partition m = p then [m] else [])"
  by (simp add: sentTo_def)

definition partitionOk :: "ExMessage list \<Rightarrow> string \<Rightarrow> nat \<Rightarrow> ExPartition \<Rightarrow> bool" where
  "partitionOk sent t p part \<longleftrightarrow> ep_Offset part = int (length (sentTo sent t p)) \<and> suffix (ep_Messages part) (sentTo sent t p)"

definition routed :: "(string \<rightharpoonup> ExTopic) \<Rightarrow> ExMessage \<Rightarrow> bool" where
  "routed topics m \<longleftrightarrow> (\<exists>topic. topics (em_Topic m) = Some topic \<and> em_Partition m < length (et_Partitions topic)
      \<and> (em_Key m \<noteq> [] \<longrightarrow> em_Partition m = unat (fnv32a (em_Key m)) mod length (et_Partitions topic)) \<and> em_Attempts m = 0)"

definition topicsOk :: "(string \<rightharpoonup> ExTopic) \<Rightarrow> ExMessage list \<Rightarrow> bool" where
  "topicsOk topics sent \<longleftrightarrow>
     (\<forall>t topic p. topics t = Some topic \<longrightarrow> p < length (et_Partitions topic) \<longrightarrow> partitionOk sent t p (et_Partitions topic ! p))
     \<and> (\<forall>t p. map em_Offset (sentTo sent t p) = map int [0..<length (sentTo sent t p)])
     \<and> (\<forall>m \<in> set sent. routed topics m)"

fun runMessages :: "Consuming \<Rightarrow> ExMessage list" where
  "runMessages (Handling g p ms) = ms"
| "runMessages _ = []"

text \<open>A run that copies messages reads them from a partition of the topic; partitions are never removed.\<close>

definition runOk :: "(string \<rightharpoonup> ExTopic) \<Rightarrow> Consuming \<Rightarrow> bool" where
  "runOk topics r \<longleftrightarrow> (case r of OffsetRead g t p lo \<Rightarrow> (\<exists>topic. topics t = Some topic \<and> p < length (et_Partitions topic)) | _ \<Rightarrow> True)"

lemma runOk_simps [simp]: "runOk topics (Assigned g t p)" "runOk topics (Handling g p ms)"
  by (simp_all add: runOk_def)

lemma runOk_new_topic [simp]: "topics t = None \<Longrightarrow> runOk topics r \<Longrightarrow> runOk (topics(t \<mapsto> topic)) r"
  by (auto simp: runOk_def split: Consuming.splits)

lemma runOk_partition [simp]: "topics t = Some topic \<Longrightarrow> runOk (topics(t \<mapsto> topic\<lparr>et_Partitions := (et_Partitions topic)[p := part]\<rparr>)) r \<longleftrightarrow> runOk topics r"
  by (auto simp: runOk_def split: Consuming.splits)

definition consumingOk :: "MessageBusExample \<Rightarrow> bool" where
  "consumingOk mb \<longleftrightarrow> (\<forall>r \<in> set (xb_runs mb). set (runMessages r) \<subseteq> set (xb_sent mb) \<and> runOk (xb_topics mb) r)
     \<and> snd ` set (xb_handled mb) \<subseteq> set (xb_sent mb)"

definition countersOk :: "MessageBusExample \<Rightarrow> bool" where
  "countersOk mb \<longleftrightarrow> xb_published mb = int (length (xb_sent mb)) \<and> xb_consumed mb = int (length (xb_handled mb)) \<and> xb_dlq mb = [] \<and> xb_inDLQ mb = 0"

definition exInv :: "MessageBusExample \<Rightarrow> bool" where
  "exInv mb \<longleftrightarrow> topicsOk (xb_topics mb) (xb_sent mb) \<and> consumingOk mb \<and> countersOk mb"

subsection \<open>Topics\<close>

lemma topicsOk_new_topic:
  assumes "topicsOk topics sent" "topics t = None"
  shows "topicsOk (topics(t \<mapsto> \<lparr>et_Partitions = replicate n \<lparr>ep_Messages = [], ep_Offset = 0\<rparr>, et_RetentionPeriod = r\<rparr>)) sent"
proof -
  have "m \<in> set sent \<Longrightarrow> em_Topic m \<noteq> t" for m using assms by (auto simp: topicsOk_def routed_def)
  then have "sentTo sent t p = []" for p by (auto simp: sentTo_def filter_empty_conv)
  with assms show ?thesis by (auto simp: topicsOk_def routed_def partitionOk_def)
qed

lemma topicsOk_partition:
  assumes "topicsOk topics sent" "topics t = Some topic" "p < length (et_Partitions topic)"
    and "partitionOk sent t p part"
  shows "topicsOk (topics(t \<mapsto> topic\<lparr>et_Partitions := (et_Partitions topic)[p := part]\<rparr>)) sent"
  using assms unfolding topicsOk_def routed_def by (auto simp: nth_list_update)

lemma topicsOk_publish:
  assumes "topicsOk topics sent" "topics t = Some topic" "p < length (et_Partitions topic)" "length sent < 2 ^ 62"
    and "key \<noteq> [] \<Longrightarrow> p = unat (fnv32a key) mod length (et_Partitions topic)"
    and "m = exMessage now t p key v (et_Partitions topic ! p)"
  shows "topicsOk (topics(t \<mapsto> topic\<lparr>et_Partitions := (et_Partitions topic)[p := (et_Partitions topic ! p)\<lparr>ep_Messages := ep_Messages (et_Partitions topic ! p) @ [m],
            ep_Offset := i64 (ep_Offset (et_Partitions topic ! p) + 1)\<rparr>]\<rparr>)) (sent @ [m])"
proof -
  have le: "length (sentTo sent t p) < 2 ^ 62" using assms(4) by (simp add: sentTo_def) (meson le_less_trans length_filter_le)
  then have "i64 (int (length (sentTo sent t p)) + 1) = int (length (sentTo sent t p)) + 1" by (intro i64_id in_i64I) simp_all
  with assms show ?thesis
    unfolding topicsOk_def routed_def
    by (auto simp: nth_list_update partitionOk_def exMessage_def suffix_def)
qed


lemma exSelectPartition_bound:
  "exSelectPartition now key n = Some p \<Longrightarrow> p < n"
  "exSelectPartition now key n = Some p \<Longrightarrow> key \<noteq> [] \<Longrightarrow> p = unat (fnv32a key) mod n"
proof -
  assume s: "exSelectPartition now key n = Some p"
  have "goRem now (int n) < int n" if "0 < n"
    using that pos_mod_bound[of "int n" now] pos_mod_sign[of "int n" "- now"] by (simp add: goRem_def del: pos_mod_sign)
  with s show "p < n" by (auto simp: exSelectPartition_def Let_def split: if_splits)
  show "key \<noteq> [] \<Longrightarrow> p = unat (fnv32a key) mod n" using s by (auto simp: exSelectPartition_def split: if_splits)
qed

subsection \<open>Every step keeps the invariant\<close>

lemma exInv_createTopic: "exInv mb \<Longrightarrow> exInv (snd (exCreateTopic t n r mb))"
  by (auto simp: exInv_def exCreateTopic_def consumingOk_def countersOk_def topicsOk_new_topic split: option.splits)

lemma exInv_publish:
  assumes "exInv mb" "length (xb_sent mb) < 2 ^ 62" "exPublish selNow now t key v mb = Some (r, mb')"
  shows "exInv mb'"
proof (cases "xb_topics mb t")
  case None
  then show ?thesis using assms by (auto simp: exPublish_def)
next
  case (Some topic)
  obtain p where p: "exSelectPartition selNow key (length (et_Partitions topic)) = Some p"
    using assms(3) Some by (auto simp: exPublish_def)
  let ?m = "exMessage now t p key v (et_Partitions topic ! p)"
  have "topicsOk (xb_topics mb) (xb_sent mb)" using assms(1) by (simp add: exInv_def)
  from topicsOk_publish[OF this Some exSelectPartition_bound(1)[OF p] assms(2) exSelectPartition_bound(2)[OF p] refl, of now v]
  have "topicsOk (xb_topics mb') (xb_sent mb')" using assms(3) Some p by (auto simp: exPublish_def Let_def)
  moreover have "i64 (int (length (xb_sent mb)) + 1) = int (length (xb_sent mb)) + 1"
    using assms(2) by (intro i64_id in_i64I) simp_all
  ultimately show ?thesis
    using assms(1,3) Some p by (fastforce simp: exInv_def exPublish_def Let_def consumingOk_def countersOk_def)
qed

lemma exInv_retention: "exInv mb \<Longrightarrow> exInv (exEnforceRetention now t p mb)"
proof (cases "xb_topics mb t")
  case (Some topic)
  assume inv: "exInv mb"
  show ?thesis
  proof (cases "p < length (et_Partitions topic)")
    case True
    let ?part = "et_Partitions topic ! p"
    have "partitionOk (xb_sent mb) t p ?part" using inv Some True by (auto simp: exInv_def topicsOk_def)
    then have "partitionOk (xb_sent mb) t p (?part\<lparr>ep_Messages := drop k (ep_Messages ?part)\<rparr>)" for k
      by (auto simp: partitionOk_def intro: suffix_order.trans[OF suffix_drop])
    with inv Some True show ?thesis
      by (auto simp: exInv_def exEnforceRetention_def Let_def topicsOk_partition consumingOk_def countersOk_def)
  qed (use inv Some in \<open>simp add: exEnforceRetention_def\<close>)
qed (simp add: exEnforceRetention_def)

lemma exInv_groups:
  "exInv mb \<Longrightarrow> exInv (snd (exCreateConsumerGroup g mb))"
  "exInv mb \<Longrightarrow> exInv (snd (exJoinGroup now g c ts mb))"
  "exInv mb \<Longrightarrow> exInv (exHeartbeat now g c mb)"
  "exInv mb \<Longrightarrow> exInv (exRebalance g to co mb)"
  "exInv mb \<Longrightarrow> exInv (snd (exConsume g c mb))"
  by (auto simp: exInv_def consumingOk_def countersOk_def exCreateConsumerGroup_def exJoinGroup_def exHeartbeat_def exRebalance_def exConsume_def Let_def
      split: option.splits)

lemma exInv_poll: "exInv mb \<Longrightarrow> exInv (exConsumePartitions l order mb)"
  by (auto simp: exInv_def consumingOk_def countersOk_def exConsumePartitions_def split: option.splits prod.splits)

lemma stored_sent:
  assumes "topicsOk topics sent" "topics t = Some topic" "p < length (et_Partitions topic)"
  shows "set (ep_Messages (et_Partitions topic ! p)) \<subseteq> set sent"
proof -
  have "partitionOk sent t p (et_Partitions topic ! p)" using assms by (auto simp: topicsOk_def)
  then have "set (ep_Messages (et_Partitions topic ! p)) \<subseteq> set (sentTo sent t p)" by (auto simp: partitionOk_def dest: set_mono_suffix)
  then show ?thesis by (auto simp: sentTo_def)
qed


lemma exInv_failed: "exInv mb \<Longrightarrow> em_Attempts msg = 0 \<Longrightarrow> exInv (exHandleFailedMessage msg mb)"
  by (simp add: exHandleFailedMessage_def i64_def)

lemma exInv_run:
  assumes "exInv mb" "length (xb_handled mb) < 2 ^ 62"
  shows "exInv (exConsumeStep r ok mb)"
proof (cases "r < length (xb_runs mb)")
  case True
  have run: "set (runMessages (xb_runs mb ! r)) \<subseteq> set (xb_sent mb)" "runOk (xb_topics mb) (xb_runs mb ! r)"
    using assms(1) True by (auto simp: exInv_def consumingOk_def)
  have upd: "exInv (mb\<lparr>xb_runs := (xb_runs mb)[r := x]\<rparr>)" if "set (runMessages x) \<subseteq> set (xb_sent mb)" "runOk (xb_topics mb) x" for x
    using assms(1) that by (auto simp: exInv_def consumingOk_def countersOk_def dest!: set_update_subset_insert[THEN subsetD])
  show ?thesis
  proof (cases "xb_runs mb ! r")
    case (Assigned g t p)
    with True show ?thesis by (auto simp: exConsumeStep_def runOk_def intro!: upd split: option.split)
  next
    case (OffsetRead g t p lo)
    with run(2) obtain topic where t: "xb_topics mb t = Some topic" "p < length (et_Partitions topic)" by (auto simp: runOk_def)
    with assms(1) have "set (ep_Messages (et_Partitions topic ! p)) \<subseteq> set (xb_sent mb)" by (auto simp: exInv_def dest: stored_sent)
    with OffsetRead True t show ?thesis by (auto simp: exConsumeStep_def runOk_def intro!: upd)
  next
    case (Handling g p ms)
    show ?thesis
    proof (cases ms)
      case Nil
      with Handling assms True show ?thesis by (simp add: exConsumeStep_def)
    next
      case (Cons m ms')
      let ?mb = "mb\<lparr>xb_runs := (xb_runs mb)[r := Handling g p ms']\<rparr>"
      have u: "exInv ?mb" using run(1) Handling Cons by (intro upd) (auto simp: runOk_def)
      have m: "m \<in> set (xb_sent mb)" using run(1) Handling Cons by auto
      then have "em_Attempts m = 0" using assms(1) by (auto simp: exInv_def topicsOk_def routed_def)
      then have "exInv (exHandleFailedMessage m ?mb)" using u by (intro exInv_failed)
      moreover have "i64 (int (length (xb_handled mb)) + 1) = int (length (xb_handled mb)) + 1" using assms(2) by (intro i64_id in_i64I) simp_all
      then have "exInv (exCommitOffset g p k (?mb\<lparr>xb_consumed := i64 (xb_consumed ?mb + 1), xb_handled := xb_handled ?mb @ [(g, m)]\<rparr>))" for k
        using u m by (auto simp: exInv_def exCommitOffset_def consumingOk_def countersOk_def)
      ultimately show ?thesis using Handling Cons True by (simp add: exConsumeStep_def Let_def)
    qed
  qed
qed (use assms in \<open>simp add: exConsumeStep_def\<close>)

interpretation exbus: guarded_object exStep exInv exOk
proof
  fix mb e
  assume "exInv mb" "exOk mb e"
  then show "exInv (exStep mb e)"
    by (cases e) (auto simp: exInv_createTopic exInv_retention exInv_groups exInv_poll exInv_run intro: exInv_publish split: option.split)
qed

lemma exInv_new [simp]: "exInv newMessageBusExample"
  by (simp add: exInv_def newMessageBusExample_def topicsOk_def sentTo_def consumingOk_def countersOk_def)


section \<open>Properties\<close>

text \<open>C35.  After any interleaving of the operations, a partition holds the messages published to it, in the order of publication and with consecutive offsets, without the \<open>k\<close> oldest ones that the retention policy has removed; its next
  offset is the number of messages published to it; a message with a key is in the partition that the hash of the key gives; handlers have only seen published messages; the counters are exact and the dead-letter queue is never used.\<close>

theorem example_bus_logs:
  fixes es :: "ExStep list" and t :: string and p :: nat
  defines "mb \<equiv> run exStep newMessageBusExample es"
  defines "sent \<equiv> sentTo (xb_sent mb) t p"
  assumes "admissible exStep exOk newMessageBusExample es"
    and "xb_topics mb t = Some topic" and "p < length (et_Partitions topic)"
  shows "\<exists>k \<le> length sent. ep_Messages (et_Partitions topic ! p) = drop k sent
             \<and> map em_Offset (ep_Messages (et_Partitions topic ! p)) = map int [k..<length sent]
             \<and> ep_Offset (et_Partitions topic ! p) = int (length sent)
             \<and> (\<forall>m \<in> set sent. em_Key m \<noteq> [] \<longrightarrow> p = unat (fnv32a (em_Key m)) mod length (et_Partitions topic))
             \<and> snd ` set (xb_handled mb) \<subseteq> set (xb_sent mb)
             \<and> xb_published mb = int (length (xb_sent mb)) \<and> xb_consumed mb = int (length (xb_handled mb)) \<and> xb_dlq mb = []"
proof -
  have inv: "exInv mb" unfolding mb_def by (rule exbus.guarded_run[OF exInv_new assms(3)])
  then have "partitionOk (xb_sent mb) t p (et_Partitions topic ! p)" using assms(4,5) by (auto simp: exInv_def topicsOk_def)
  then obtain pre where pre: "sent = pre @ ep_Messages (et_Partitions topic ! p)" "ep_Offset (et_Partitions topic ! p) = int (length sent)"
    unfolding partitionOk_def sent_def suffix_def by auto
  have "map em_Offset sent = map int [0..<length sent]" using inv unfolding exInv_def topicsOk_def sent_def by blast
  then have "drop (length pre) (map em_Offset sent) = drop (length pre) (map int [0..<length sent])" by simp
  then have "map em_Offset (ep_Messages (et_Partitions topic ! p)) = map int [length pre..<length sent]"
    using pre(1) by (simp add: drop_map)
  moreover have "p = unat (fnv32a (em_Key m)) mod length (et_Partitions topic)" if "m \<in> set sent" "em_Key m \<noteq> []" for m
    using inv assms(4) that unfolding exInv_def topicsOk_def sent_def sentTo_def routed_def by fastforce
  ultimately show ?thesis
    using inv pre by (intro exI[of _ "length pre"]) (auto simp: exInv_def consumingOk_def countersOk_def)
qed

definition busExample :: "ExStep list" where
  "busExample =
     [ExCreateTopic ''a'' 1 100, ExCreateTopic ''b'' 1 100, ExCreateGroup ''g'', ExJoin 0 ''g'' ''c'' [''a'', ''b''], ExRebalance ''g'' [''a'', ''b''] [''c''],
      ExConsume ''g'' ''c'', ExPublish 1 1 ''a'' [1] [10], ExPublish 2 2 ''a'' [1] [20], ExPublish 3 3 ''b'' [2] [30]]"

lemmas bus_defs = busExample_def newMessageBusExample_def exCreateTopic_def exCreateConsumerGroup_def exJoinGroup_def exRebalance_def exConsume_def exPublish_def
  exSelectPartition_def exEnforceRetention_def exMessage_def activeIn_def subscribed_def exConsumePartitions_def exConsumeStep_def exLastOffset_def exCommitOffset_def
  exHandleFailedMessage_def i64_def Let_def

lemma busExample_admissible: "admissible exStep exOk newMessageBusExample (busExample @ [ExRetention 101 ''a'' 0])"
  by (simp add: bus_defs)

lemma busExample_topic:
  "\<exists>topic. xb_topics (run exStep newMessageBusExample (busExample @ [ExRetention 101 ''a'' 0])) ''a'' = Some topic \<and> length (et_Partitions topic) = 1
     \<and> map em_Offset (ep_Messages (et_Partitions topic ! 0)) = [1]"
  by (simp add: bus_defs)

theorem example_bus_logs_witness:
  "\<exists>topic k. xb_topics (run exStep newMessageBusExample (busExample @ [ExRetention 101 ''a'' 0])) ''a'' = Some topic \<and> map em_Offset (ep_Messages (et_Partitions topic ! 0)) = [1]
     \<and> ep_Messages (et_Partitions topic ! 0) = drop k (sentTo (xb_sent (run exStep newMessageBusExample (busExample @ [ExRetention 101 ''a'' 0]))) ''a'' 0)"
proof -
  obtain topic where t: "xb_topics (run exStep newMessageBusExample (busExample @ [ExRetention 101 ''a'' 0])) ''a'' = Some topic" "length (et_Partitions topic) = 1"
    "map em_Offset (ep_Messages (et_Partitions topic ! 0)) = [1]"
    using busExample_topic by (elim exE conjE)
  from t(2) have "0 < length (et_Partitions topic)" by simp
  from example_bus_logs[OF busExample_admissible t(1) this]
  obtain k where "ep_Messages (et_Partitions topic ! 0) = drop k (sentTo (xb_sent (run exStep newMessageBusExample (busExample @ [ExRetention 101 ''a'' 0]))) ''a'' 0)"
    by (elim exE conjE)
  with t(1,3) show ?thesis by (intro exI conjI)
qed

subsection \<open>What the bus does not do\<close>

text \<open>A message whose handler fails is lost as soon as a later message of the partition is handled: the offset committed for the later one is beyond it, no retry takes place, and no dead letter is recorded.\<close>

definition failedFirst :: "ExStep list" where
  "failedFirst = busExample @ [ExPoll 0 [0], ExRun 0 True, ExRun 0 True, ExRun 0 False, ExRun 0 True, ExPoll 0 [0], ExRun 2 True, ExRun 2 True]"

lemma failed_message_lost:
  "map (em_Value \<circ> snd) (xb_handled (run exStep newMessageBusExample failedFirst)) = [[20]]
   \<and> xb_runs (run exStep newMessageBusExample failedFirst) ! 2 = Handling ''g'' 0 [] \<and> xb_dlq (run exStep newMessageBusExample failedFirst) = []"
  by (simp add: failedFirst_def bus_defs)

text \<open>The topics of a group share the offsets of their partitions: once two messages of topic \<open>a\<close> have been handled, the message of topic \<open>b\<close> is passed over.\<close>

definition bothTopics :: "ExStep list" where
  "bothTopics = busExample @ [ExPoll 0 [0], ExRun 0 True, ExRun 0 True, ExRun 0 True, ExRun 0 True, ExRun 1 True, ExRun 1 True]"

lemma topics_share_offsets:
  "map (em_Value \<circ> snd) (xb_handled (run exStep newMessageBusExample bothTopics)) = [[10], [20]]
   \<and> xb_runs (run exStep newMessageBusExample bothTopics) ! 1 = Handling ''g'' 0 []"
  by (simp add: bothTopics_def bus_defs)

text \<open>The retention policy keeps every message of a partition in which all of them are too old.\<close>

lemma cutoffIndex_all_old: "\<forall>m \<in> set ms. em_Timestamp m \<le> cutoff \<Longrightarrow> cutoffIndex cutoff i ms = 0"
  by (induction ms arbitrary: i) auto

lemma retention_keeps_all_old:
  assumes "xb_topics mb t = Some topic" "p < length (et_Partitions topic)"
    and "\<forall>m \<in> set (ep_Messages (et_Partitions topic ! p)). em_Timestamp m \<le> now - et_RetentionPeriod topic"
  shows "xb_topics (exEnforceRetention now t p mb) = xb_topics mb"
  using assms by (auto simp: exEnforceRetention_def cutoffIndex_all_old Let_def)

end
