(* ===== verification/ExampleEventBus.thy ===== *)
theory ExampleEventBus
  imports BoundedEventBus
begin

text \<open>
  The event bus of \<open>src/practical/event_bus_example.go\<close>: subscribers by priority with filters and retries, a buffered channel with a
  pool of workers, one goroutine for every delivery, and a circuit breaker in front of \<open>Publish\<close>.

  Publishers, workers and deliveries are goroutines with program points; every access of shared memory under a mutex is a step.  Slices are
  those of \<open>BoundedEventBus\<close>, because \<open>processEvent\<close> appends the subscribers of \<open>*\<close> to the slice it has read, in place when the
  capacity allows.  The outcome of a handler (an error and a panic are failures), the ready branch of a \<open>select\<close> and the readings of the
  clock are inputs; times for logging, the source and the correlation of events are left out.  \<open>xe_taken\<close>, \<open>xe_accepted\<close> and the finished deliveries record
  what has happened; a round is the processing of one event by a worker.

  Shown: when all subscriptions are made before the first event, every event that a worker has processed was delivered exactly to the subscribers of its type, by
  descending priority, and then to those of \<open>*\<close>, where the filter accepts it, each with at most \<open>MaxRetries\<close> repetitions; the channel is first in first out; the
  counters are exact.  A subscription during the processing of an event can be overwritten for good.  The breaker never closes again, and after two to four failures on probation the
  bus refuses every event for ever.
\<close>

section \<open>State\<close>

record BusEvent =
  be_ID :: string
  be_Type :: string
  be_Payload :: string
  be_Timestamp :: gotime

record Subscriber =
  su_ID :: string
  su_Filter :: "(BusEvent \<Rightarrow> bool) option"
  su_Priority :: int
  su_MaxRetries :: int

datatype XBreakerState = BClosed | BOpen | BHalfOpen

record XBreaker =
  br_failures :: int
  br_maxFailures :: int
  br_state :: XBreakerState
  br_lastFailure :: gotime
  br_cooldown :: duration

datatype XPublisher =
    XAllow BusEvent
  | XReset BusEvent
  | XStamp BusEvent
  | XSelect BusEvent
  | XTimeout BusEvent
  | XAccepted BusEvent
  | XRefused
  | XFailed
  | XPanicked

text \<open>The program points of \<open>worker\<close> and \<open>processEvent\<close>; the number is that of the round.\<close>

datatype XWorker =
    XIdle
  | XTaken nat BusEvent
  | XTypeRead nat BusEvent "Slice option"
  | XBothRead nat BusEvent "Slice option" "Slice option"
  | XLoop nat BusEvent "Slice option" nat
  | XWait nat BusEvent
  | XCount nat BusEvent
  | XStopped

datatype DeliveryState = Trying | Succeeding | GivingUp | Recording | Delivered | Abandoned

record Delivery =
  de_round :: nat
  de_event :: BusEvent
  de_sub :: Subscriber
  de_retry :: int
  de_calls :: "bool list"
  de_state :: DeliveryState

record EventBusExample =
  xe_subscribers :: "string \<Rightarrow> Slice option"
  xe_heap :: "Subscriber Heap"
  xe_totalEvents :: int
  xe_processedEvents :: int
  xe_failedEvents :: int
  xe_subscriberMetrics :: "string \<rightharpoonup> int \<times> int"
  xe_breaker :: XBreaker
  xe_buffer :: "BusEvent list"
  xe_closed :: bool
  xe_workers :: "XWorker list"
  xe_publishers :: "XPublisher list"
  xe_deliveries :: "Delivery list"
  xe_accepted :: "BusEvent list"
  xe_taken :: "BusEvent list"
  xe_done :: "nat list"

definition newEventBusExample :: "nat \<Rightarrow> EventBusExample" where
  "newEventBusExample workers =
     \<lparr>xe_subscribers = (\<lambda>_. None), xe_heap = [], xe_totalEvents = 0, xe_processedEvents = 0, xe_failedEvents = 0, xe_subscriberMetrics = Map.empty,
      xe_breaker = \<lparr>br_failures = 0, br_maxFailures = 5, br_state = BClosed, br_lastFailure = 0, br_cooldown = 30 * 10 ^ 9\<rparr>,
      xe_buffer = [], xe_closed = False, xe_workers = replicate workers XIdle, xe_publishers = [], xe_deliveries = [],
      xe_accepted = [], xe_taken = [], xe_done = []\<rparr>"

section \<open>Subscribing\<close>

definition xSubscribe :: "(nat \<Rightarrow> nat) \<Rightarrow> string \<Rightarrow> Subscriber \<Rightarrow> EventBusExample \<Rightarrow> EventBusExample" where
  "xSubscribe grow eventType subscriber eb =
     (let metrics = (case xe_subscriberMetrics eb (su_ID subscriber) of
                       None \<Rightarrow> (xe_subscriberMetrics eb)(su_ID subscriber \<mapsto> (0, 0)) | Some _ \<Rightarrow> xe_subscriberMetrics eb);
          (heap, s') = insertSubscriber grow su_Priority (xe_heap eb) (xe_subscribers eb eventType) subscriber
      in eb\<lparr>xe_subscriberMetrics := metrics, xe_heap := heap, xe_subscribers := (xe_subscribers eb)(eventType := s')\<rparr>)"

section \<open>Circuit breaker\<close>

text \<open>The part of \<open>Allow\<close> under the read lock: the answer, or \<open>None\<close> when the breaker has to be put on probation under the write lock first.\<close>

definition allowCheck :: "gotime \<Rightarrow> XBreaker \<Rightarrow> bool option" where
  "allowCheck now cb =
     (case br_state cb of
        BOpen \<Rightarrow> if now - br_lastFailure cb > br_cooldown cb then None else Some False
      | BHalfOpen \<Rightarrow> Some (br_failures cb < br_maxFailures cb div 2)
      | BClosed \<Rightarrow> Some True)"

definition allowReset :: "XBreaker \<Rightarrow> XBreaker" where
  "allowReset cb = cb\<lparr>br_state := BHalfOpen, br_failures := 0\<rparr>"

definition xRecordFailure :: "gotime \<Rightarrow> XBreaker \<Rightarrow> XBreaker" where
  "xRecordFailure now cb =
     (let cb' = cb\<lparr>br_failures := i64 (br_failures cb + 1), br_lastFailure := now\<rparr>
      in if br_failures cb' \<ge> br_maxFailures cb' then cb'\<lparr>br_state := BOpen\<rparr> else cb')"

text \<open>No code calls \<open>RecordSuccess\<close>.\<close>

definition xRecordSuccess :: "XBreaker \<Rightarrow> XBreaker" where
  "xRecordSuccess cb =
     (let cb' = (if br_state cb = BHalfOpen \<and> br_failures cb = 0 then cb\<lparr>br_state := BClosed\<rparr> else cb)
      in if br_failures cb' > 0 then cb'\<lparr>br_failures := br_failures cb' - 1\<rparr> else cb')"

section \<open>Publishing\<close>

definition setXPublisher :: "nat \<Rightarrow> XPublisher \<Rightarrow> EventBusExample \<Rightarrow> EventBusExample" where
  "setXPublisher i p eb = eb\<lparr>xe_publishers := (xe_publishers eb)[i := p]\<rparr>"

definition xPublish :: "BusEvent \<Rightarrow> EventBusExample \<Rightarrow> EventBusExample" where
  "xPublish event eb = eb\<lparr>xe_publishers := xe_publishers eb @ [XAllow event]\<rparr>"

datatype XReady = SendReady | TimerReady | ContextDone

text \<open>The zero time is 0.  A send on the closed channel panics.\<close>

definition publisherStep :: "nat \<Rightarrow> gotime \<Rightarrow> XReady \<Rightarrow> EventBusExample \<Rightarrow> EventBusExample" where
  "publisherStep i now ready eb =
     (if i < length (xe_publishers eb)
      then (case xe_publishers eb ! i of
              XAllow event \<Rightarrow>
                (case allowCheck now (xe_breaker eb) of
                   None \<Rightarrow> setXPublisher i (XReset event) eb
                 | Some True \<Rightarrow> setXPublisher i (XStamp event) eb
                 | Some False \<Rightarrow> setXPublisher i XRefused eb)
            | XReset event \<Rightarrow> setXPublisher i (XStamp event) (eb\<lparr>xe_breaker := allowReset (xe_breaker eb)\<rparr>)
            | XStamp event \<Rightarrow>
                setXPublisher i (XSelect (if be_Timestamp event = 0 then event\<lparr>be_Timestamp := now\<rparr> else event))
                  (eb\<lparr>xe_totalEvents := i64 (xe_totalEvents eb + 1)\<rparr>)
            | XSelect event \<Rightarrow>
                (case ready of
                   SendReady \<Rightarrow>
                     if xe_closed eb then setXPublisher i XPanicked eb
                     else if length (xe_buffer eb) < 10000
                     then setXPublisher i (XAccepted event) (eb\<lparr>xe_buffer := xe_buffer eb @ [event], xe_accepted := xe_accepted eb @ [event]\<rparr>)
                     else eb
                 | TimerReady \<Rightarrow> setXPublisher i (XTimeout event) eb
                 | ContextDone \<Rightarrow> setXPublisher i XFailed eb)
            | XTimeout event \<Rightarrow> setXPublisher i XFailed (eb\<lparr>xe_breaker := xRecordFailure now (xe_breaker eb)\<rparr>)
            | _ \<Rightarrow> eb)
      else eb)"

section \<open>Processing\<close>

definition setXWorker :: "nat \<Rightarrow> XWorker \<Rightarrow> EventBusExample \<Rightarrow> EventBusExample" where
  "setXWorker i w eb = eb\<lparr>xe_workers := (xe_workers eb)[i := w]\<rparr>"

definition acceptsEvent :: "BusEvent \<Rightarrow> Subscriber \<Rightarrow> bool" where
  "acceptsEvent event sub = (case su_Filter sub of None \<Rightarrow> True | Some f \<Rightarrow> f event)"

definition newDelivery :: "nat \<Rightarrow> BusEvent \<Rightarrow> Subscriber \<Rightarrow> Delivery" where
  "newDelivery n event sub = \<lparr>de_round = n, de_event = event, de_sub = sub, de_retry = 0, de_calls = [], de_state = Trying\<rparr>"

definition deliveryOver :: "Delivery \<Rightarrow> bool" where
  "deliveryOver d \<longleftrightarrow> de_state d = Delivered \<or> de_state d = Abandoned"

definition xWorkerStep :: "(nat \<Rightarrow> nat) \<Rightarrow> nat \<Rightarrow> EventBusExample \<Rightarrow> EventBusExample" where
  "xWorkerStep grow i eb =
     (if i < length (xe_workers eb)
      then (case xe_workers eb ! i of
              XIdle \<Rightarrow>
                (case xe_buffer eb of
                   [] \<Rightarrow> if xe_closed eb then setXWorker i XStopped eb else eb
                 | event # rest \<Rightarrow> setXWorker i (XTaken (length (xe_taken eb)) event) (eb\<lparr>xe_buffer := rest, xe_taken := xe_taken eb @ [event]\<rparr>))
            | XTaken n event \<Rightarrow> setXWorker i (XTypeRead n event (xe_subscribers eb (be_Type event))) eb
            | XTypeRead n event s \<Rightarrow> setXWorker i (XBothRead n event s (xe_subscribers eb ''*'')) eb
            | XBothRead n event s w \<Rightarrow>
                (let (heap, s') = goAppend grow (xe_heap eb) s (length (sliceItems (xe_heap eb) s)) (sliceItems (xe_heap eb) w)
                 in setXWorker i (XLoop n event s' 0) (eb\<lparr>xe_heap := heap\<rparr>))
            | XLoop n event s j \<Rightarrow>
                (let subs = sliceItems (xe_heap eb) s
                 in if j < length subs
                    then setXWorker i (XLoop n event s (Suc j))
                           (if acceptsEvent event (subs ! j) then eb\<lparr>xe_deliveries := xe_deliveries eb @ [newDelivery n event (subs ! j)]\<rparr> else eb)
                    else setXWorker i (XWait n event) eb)
            | XWait n event \<Rightarrow> if list_all (\<lambda>d. de_round d = n \<longrightarrow> deliveryOver d) (xe_deliveries eb) then setXWorker i (XCount n event) eb else eb
            | XCount n event \<Rightarrow> setXWorker i XIdle (eb\<lparr>xe_processedEvents := i64 (xe_processedEvents eb + 1), xe_done := xe_done eb @ [n]\<rparr>)
            | XStopped \<Rightarrow> eb)
      else eb)"

definition updateSubscriberMetrics :: "string \<Rightarrow> bool \<Rightarrow> EventBusExample \<Rightarrow> EventBusExample" where
  "updateSubscriberMetrics subscriberID success eb =
     (let (processed, failed) = (case xe_subscriberMetrics eb subscriberID of None \<Rightarrow> (0, 0) | Some m \<Rightarrow> m)
      in if success then eb\<lparr>xe_subscriberMetrics := (xe_subscriberMetrics eb)(subscriberID \<mapsto> (i64 (processed + 1), failed))\<rparr>
         else eb\<lparr>xe_subscriberMetrics := (xe_subscriberMetrics eb)(subscriberID \<mapsto> (processed, i64 (failed + 1))), xe_failedEvents := i64 (xe_failedEvents eb + 1)\<rparr>)"

definition setDelivery :: "nat \<Rightarrow> Delivery \<Rightarrow> EventBusExample \<Rightarrow> EventBusExample" where
  "setDelivery k d eb = eb\<lparr>xe_deliveries := (xe_deliveries eb)[k := d]\<rparr>"

text \<open>The goroutine of a delivery: the loop over the attempts, the metrics, the failure for the breaker.\<close>

definition deliveryStep :: "nat \<Rightarrow> gotime \<Rightarrow> bool \<Rightarrow> EventBusExample \<Rightarrow> EventBusExample" where
  "deliveryStep k now ok eb =
     (if k < length (xe_deliveries eb)
      then (let d = xe_deliveries eb ! k
            in case de_state d of
                 Trying \<Rightarrow>
                   if de_retry d \<le> su_MaxRetries (de_sub d)
                   then setDelivery k (d\<lparr>de_calls := de_calls d @ [ok], de_retry := (if ok then de_retry d else i64 (de_retry d + 1)), de_state := (if ok then Succeeding else Trying)\<rparr>) eb
                   else setDelivery k (d\<lparr>de_state := GivingUp\<rparr>) eb
               | Succeeding \<Rightarrow> setDelivery k (d\<lparr>de_state := Delivered\<rparr>) (updateSubscriberMetrics (su_ID (de_sub d)) True eb)
               | GivingUp \<Rightarrow> setDelivery k (d\<lparr>de_state := Recording\<rparr>) (updateSubscriberMetrics (su_ID (de_sub d)) False eb)
               | Recording \<Rightarrow> setDelivery k (d\<lparr>de_state := Abandoned\<rparr>) (eb\<lparr>xe_breaker := xRecordFailure now (xe_breaker eb)\<rparr>)
               | _ \<Rightarrow> eb)
      else eb)"

text \<open>Closing the channel a second time panics.\<close>

definition xShutdown :: "EventBusExample \<Rightarrow> EventBusExample option" where
  "xShutdown eb = (if xe_closed eb then None else Some (eb\<lparr>xe_closed := True\<rparr>))"

datatype XStep =
    XSubscribe string Subscriber | XPublish BusEvent | XPublisherStep nat gotime XReady | XWorkerStep nat | XDeliveryStep nat gotime bool | XShutdown

fun xStep :: "(nat \<Rightarrow> nat) \<Rightarrow> EventBusExample \<Rightarrow> XStep \<Rightarrow> EventBusExample" where
  "xStep grow eb (XSubscribe t s) = xSubscribe grow t s eb"
| "xStep grow eb (XPublish event) = xPublish event eb"
| "xStep grow eb (XPublisherStep i now ready) = publisherStep i now ready eb"
| "xStep grow eb (XWorkerStep i) = xWorkerStep grow i eb"
| "xStep grow eb (XDeliveryStep k now ok) = deliveryStep k now ok eb"
| "xStep grow eb XShutdown = (case xShutdown eb of None \<Rightarrow> eb | Some eb' \<Rightarrow> eb')"


section \<open>Subscriptions before the first event\<close>

text \<open>A slice under iteration: its content, and that its array belongs to no other event type.\<close>

definition loopOk :: "'a Heap \<Rightarrow> (string \<Rightarrow> Slice option) \<Rightarrow> string \<Rightarrow> Slice option \<Rightarrow> 'a list \<Rightarrow> bool" where
  "loopOk heap table t s xs \<longleftrightarrow>
     sliceOk heap s \<and> sliceItems heap s = xs \<and> (\<forall>u sl sl'. s = Some sl \<longrightarrow> table u = Some sl' \<longrightarrow> sl_arr sl = sl_arr sl' \<longrightarrow> u = t)"

lemma append_keeps_table:
  assumes ok: "tableOk heap table" and app: "goAppend grow heap (table t) (length (sliceItems heap (table t))) ws = (heap', s')"
  shows "tableOk heap' table \<and> sliceItems heap' (table u) = sliceItems heap (table u)"
proof -
  have old: "sliceOk heap (table v)" for v using ok by (simp add: tableOk_def)
  note res = goAppend_result [OF old app]
  have same: "sliceItems heap' (table t) = sliceItems heap (table t) \<and> sliceOk heap' (table t)"
    using old [of t] app by (cases "table t") (auto simp: goAppend_def Let_def sliceOk_def nth_append split: if_splits)
  have "sliceItems heap' (table v) = sliceItems heap (table v) \<and> sliceOk heap' (table v)" for v
  proof (cases "v = t")
    case False
    have "heap' ! sl_arr sl = heap ! sl_arr sl" if "table v = Some sl" for sl
    proof -
      have "sl_arr sl < length heap" using old [of v] that by (simp add: sliceOk_def)
      moreover have "\<forall>sl'. table t = Some sl' \<longrightarrow> sl_arr sl \<noteq> sl_arr sl'" using ok that False unfolding tableOk_def by blast
      ultimately show ?thesis using res by blast
    qed
    then show ?thesis using res by (intro sliceItems_heap [OF old]) auto
  qed (simp add: same)
  then show ?thesis using ok by (auto simp: tableOk_def)
qed

lemma append_new_loop:
  assumes ok: "tableOk heap table" and app: "goAppend grow heap (table t) (length (sliceItems heap (table t))) ws = (heap', s')"
  shows "loopOk heap' table t s' (sliceItems heap (table t) @ ws)"
proof -
  have old: "sliceOk heap (table v)" for v using ok by (simp add: tableOk_def)
  note res = goAppend_result [OF old app]
  have "u = t" if "s' = Some sl" "table u = Some sl'" "sl_arr sl = sl_arr sl'" for u sl sl'
  proof (rule ccontr)
    assume "u \<noteq> t"
    moreover have "sl_arr sl' < length heap" using old [of u] that(2) by (simp add: sliceOk_def)
    ultimately show False using res that ok unfolding tableOk_def by (metis less_irrefl option.inject)
  qed
  then show ?thesis using res by (simp add: loopOk_def)
qed

lemma append_keeps_loop:
  assumes ok: "tableOk heap table" and app: "goAppend grow heap (table t) (length (sliceItems heap (table t))) ws = (heap', s')"
    and lp: "loopOk heap table u r (sliceItems heap (table u) @ ws)"
  shows "loopOk heap' table u r (sliceItems heap (table u) @ ws)"
proof (cases "\<exists>sl sl'. r = Some sl \<and> table t = Some sl' \<and> sl_arr sl = sl_arr sl'")
  case True
  then obtain sl sl' where sl: "r = Some sl" "table t = Some sl'" "sl_arr sl = sl_arr sl'" by blast
  then have "u = t" using lp by (auto simp: loopOk_def)
  define a where "a = heap ! sl_arr sl"
  define new where "new = sliceItems heap (table t) @ ws"
  have r: "sl_arr sl < length heap" "sl_len sl \<le> length (ga_items a)" "take (sl_len sl) (ga_items a) = new"
    using lp sl(1) \<open>u = t\<close> by (simp_all add: loopOk_def sliceOk_def a_def new_def)
  then have len: "sl_len sl = length new" by (metis length_take min.absorb2)
  have [simp]: "take (min (length xs) n) xs = take n xs" for xs :: "'a list" and n by (simp add: min_def)
  have "heap' = heap[sl_arr sl := a\<lparr>ga_items := new @ drop (length new) (ga_items a)\<rparr>] \<or> (\<exists>b. heap' = heap @ [b])"
    using app sl(2) unfolding a_def new_def sl(3) by (auto simp: goAppend_def Let_def split: if_splits)
  then have "sliceOk heap' r \<and> sliceItems heap' r = new"
    using r len sl(1) by (auto simp: sliceOk_def nth_append a_def [symmetric])
  then show ?thesis using lp \<open>u = t\<close> by (simp add: loopOk_def new_def)
next
  case False
  have old: "sliceOk heap (table v)" for v using ok by (simp add: tableOk_def)
  note res = goAppend_result [OF old app]
  have "\<forall>sl. r = Some sl \<longrightarrow> heap' ! sl_arr sl = heap ! sl_arr sl"
    using False res lp by (auto simp: loopOk_def sliceOk_def)
  then show ?thesis using lp res sliceItems_heap [of heap r heap'] by (auto simp: loopOk_def)
qed


subsection \<open>Rounds\<close>

text \<open>The subscribers to which the event of a round has been given, and whether these deliveries are over.\<close>

definition started :: "Delivery list \<Rightarrow> nat \<Rightarrow> Subscriber list" where
  "started ds n = map de_sub (filter (\<lambda>d. de_round d = n) ds)"

definition allOver :: "Delivery list \<Rightarrow> nat \<Rightarrow> bool" where
  "allOver ds n \<longleftrightarrow> (\<forall>d \<in> set ds. de_round d = n \<longrightarrow> deliveryOver d)"

text \<open>The subscribers that an event is meant for.\<close>

definition recipients :: "(string \<Rightarrow> Subscriber list) \<Rightarrow> BusEvent \<Rightarrow> Subscriber list" where
  "recipients subs event = filter (acceptsEvent event) (subs (be_Type event) @ subs ''*'')"

fun roundOf :: "XWorker \<Rightarrow> (nat \<times> BusEvent) option" where
  "roundOf XIdle = None"
| "roundOf (XTaken n event) = Some (n, event)"
| "roundOf (XTypeRead n event s) = Some (n, event)"
| "roundOf (XBothRead n event s w) = Some (n, event)"
| "roundOf (XLoop n event s j) = Some (n, event)"
| "roundOf (XWait n event) = Some (n, event)"
| "roundOf (XCount n event) = Some (n, event)"
| "roundOf XStopped = None"

fun xWorkerOk :: "(string \<Rightarrow> Subscriber list) \<Rightarrow> Subscriber Heap \<Rightarrow> (string \<Rightarrow> Slice option) \<Rightarrow> Delivery list \<Rightarrow> XWorker \<Rightarrow> bool" where
  "xWorkerOk subs heap table ds XIdle \<longleftrightarrow> True"
| "xWorkerOk subs heap table ds (XTaken n event) \<longleftrightarrow> started ds n = []"
| "xWorkerOk subs heap table ds (XTypeRead n event s) \<longleftrightarrow> started ds n = [] \<and> s = table (be_Type event)"
| "xWorkerOk subs heap table ds (XBothRead n event s w) \<longleftrightarrow> started ds n = [] \<and> s = table (be_Type event) \<and> w = table ''*''"
| "xWorkerOk subs heap table ds (XLoop n event s j) \<longleftrightarrow>
     started ds n = filter (acceptsEvent event) (take j (subs (be_Type event) @ subs ''*'')) \<and>
     loopOk heap table (be_Type event) s (subs (be_Type event) @ subs ''*'')"
| "xWorkerOk subs heap table ds (XWait n event) \<longleftrightarrow> started ds n = recipients subs event"
| "xWorkerOk subs heap table ds (XCount n event) \<longleftrightarrow> started ds n = recipients subs event \<and> allOver ds n"
| "xWorkerOk subs heap table ds XStopped \<longleftrightarrow> True"

definition xTableOk :: "(string \<Rightarrow> Subscriber list) \<Rightarrow> EventBusExample \<Rightarrow> bool" where
  "xTableOk subs eb \<longleftrightarrow> tableOk (xe_heap eb) (xe_subscribers eb) \<and> (\<forall>t. sliceItems (xe_heap eb) (xe_subscribers eb t) = subs t)"

definition xRoundsOk :: "(string \<Rightarrow> Subscriber list) \<Rightarrow> EventBusExample \<Rightarrow> bool" where
  "xRoundsOk subs eb \<longleftrightarrow>
     mset (map fst (List.map_filter roundOf (xe_workers eb))) + mset (xe_done eb) = mset [0..<length (xe_taken eb)] \<and>
     (\<forall>w \<in> set (xe_workers eb). \<forall>n event. roundOf w = Some (n, event) \<longrightarrow> xe_taken eb ! n = event) \<and>
     (\<forall>n \<in> set (xe_done eb). started (xe_deliveries eb) n = recipients subs (xe_taken eb ! n) \<and> allOver (xe_deliveries eb) n) \<and>
     (\<forall>d \<in> set (xe_deliveries eb). de_round d < length (xe_taken eb))"

definition xInv :: "(string \<Rightarrow> Subscriber list) \<Rightarrow> EventBusExample \<Rightarrow> bool" where
  "xInv subs eb \<longleftrightarrow> xTableOk subs eb \<and> xRoundsOk subs eb \<and>
     (\<forall>w \<in> set (xe_workers eb). xWorkerOk subs (xe_heap eb) (xe_subscribers eb) (xe_deliveries eb) w)"

lemma started_append [simp]: "started (ds @ [d]) n = started ds n @ (if de_round d = n then [de_sub d] else [])"
  by (simp add: started_def)

lemma round_positions:
  assumes "distinct (map fst (List.map_filter f ws))" "i < length ws" "k < length ws" "f (ws ! i) = Some (n, a)" "f (ws ! k) = Some (n, b)"
  shows "i = k"
  using assms
proof (induction ws arbitrary: i k)
  case (Cons w ws)
  have mem: "n \<in> set (map fst (List.map_filter f ws))" if "j < length ws" "f (ws ! j) = Some (n, c)" for j c
    using that by (force simp: List.map_filter_def in_set_conv_nth image_iff)
  show ?case using Cons mem by (cases i; cases k) (auto simp: List.map_filter_simps split: option.splits)
qed simp

lemma rounds_distinct:
  assumes "xRoundsOk subs eb"
  shows "distinct (map fst (List.map_filter roundOf (xe_workers eb)) @ xe_done eb)"
    and "set (map fst (List.map_filter roundOf (xe_workers eb)) @ xe_done eb) = {..<length (xe_taken eb)}"
proof -
  have m: "mset (map fst (List.map_filter roundOf (xe_workers eb)) @ xe_done eb) = mset [0..<length (xe_taken eb)]"
    using assms by (simp add: xRoundsOk_def)
  show "distinct (map fst (List.map_filter roundOf (xe_workers eb)) @ xe_done eb)"
    using mset_eq_imp_distinct_iff [OF m] by simp
  show "set (map fst (List.map_filter roundOf (xe_workers eb)) @ xe_done eb) = {..<length (xe_taken eb)}"
    using mset_eq_setD [OF m] by (simp add: atLeast0LessThan)
qed

text \<open>A worker's round is its own.\<close>

lemma own_round:
  assumes "xRoundsOk subs eb" "i < length (xe_workers eb)" "roundOf (xe_workers eb ! i) = Some (n, event)"
  shows "n < length (xe_taken eb)" "n \<notin> set (xe_done eb)" "xe_taken eb ! n = event"
    and "\<And>k b. k < length (xe_workers eb) \<Longrightarrow> roundOf (xe_workers eb ! k) = Some (n, b) \<Longrightarrow> k = i"
proof -
  have mem: "n \<in> set (map fst (List.map_filter roundOf (xe_workers eb)))"
    using assms(2,3) by (force simp: List.map_filter_def in_set_conv_nth image_iff)
  then show "n < length (xe_taken eb)" "n \<notin> set (xe_done eb)" using rounds_distinct [OF assms(1)] by auto
  show "xe_taken eb ! n = event" using assms unfolding xRoundsOk_def by (metis nth_mem)
  show "k = i" if "k < length (xe_workers eb)" "roundOf (xe_workers eb ! k) = Some (n, b)" for k b
    using round_positions [OF _ that(1) assms(2) that(2) assms(3)] rounds_distinct(1) [OF assms(1)] by simp
qed


subsection \<open>Steps of the workers\<close>

lemma xWorkerOk_new_delivery:
  assumes "xWorkerOk subs heap table ds w" "\<And>event. roundOf w \<noteq> Some (n, event)" "de_round d = n"
  shows "xWorkerOk subs heap table (ds @ [d]) w"
  using assms by (cases w) (auto simp: allOver_def)

lemma map_filter_same:
  "i < length ws \<Longrightarrow> f w = f (ws ! i) \<Longrightarrow> List.map_filter f (ws[i := w]) = List.map_filter f ws"
proof (induction ws arbitrary: i)
  case (Cons x ws)
  then show ?case by (cases i) (auto simp: List.map_filter_simps split: option.split)
qed simp

lemma xInv_move:
  assumes inv: "xInv subs eb" and i: "i < length (xe_workers eb)"
    and r: "roundOf (xe_workers eb ! i) = Some (n, event)" "roundOf w = Some (n, event)"
    and table: "xTableOk subs (eb\<lparr>xe_heap := heap\<rparr>)"
    and ds: "ds = xe_deliveries eb \<or> (\<exists>sub. ds = xe_deliveries eb @ [newDelivery n event sub])"
    and frame: "\<And>w'. xWorkerOk subs (xe_heap eb) (xe_subscribers eb) ds w' \<Longrightarrow> xWorkerOk subs heap (xe_subscribers eb) ds w'"
    and new: "xWorkerOk subs heap (xe_subscribers eb) ds w"
  shows "xInv subs (eb\<lparr>xe_heap := heap, xe_deliveries := ds, xe_workers := (xe_workers eb)[i := w]\<rparr>)"
proof -
  have rounds: "xRoundsOk subs eb" using inv by (simp add: xInv_def)
  note own = own_round [OF rounds i r(1)]
  have "xWorkerOk subs heap (xe_subscribers eb) ds w'" if mem: "w' \<in> set ((xe_workers eb)[i := w])" for w'
  proof -
    obtain k where k: "k < length (xe_workers eb)" "w' = (xe_workers eb)[i := w] ! k"
      using mem unfolding in_set_conv_nth length_list_update by blast
    show ?thesis
    proof (cases "k = i")
      case False
      then have w': "w' = xe_workers eb ! k" using k by simp
      then have "xWorkerOk subs (xe_heap eb) (xe_subscribers eb) (xe_deliveries eb) w'" using inv k(1) by (simp add: xInv_def)
      moreover have "roundOf w' \<noteq> Some (n, e)" for e using own(4) False w' k(1) by blast
      ultimately show ?thesis using ds by (intro frame) (auto simp: newDelivery_def intro!: xWorkerOk_new_delivery)
    qed (use k new i in simp)
  qed
  moreover have "xRoundsOk subs (eb\<lparr>xe_heap := heap, xe_deliveries := ds, xe_workers := (xe_workers eb)[i := w]\<rparr>)"
  proof -
    have keep: "started ds m = started (xe_deliveries eb) m" "allOver ds m = allOver (xe_deliveries eb) m" if "m \<in> set (xe_done eb)" for m
      using ds own(2) that by (auto simp: allOver_def newDelivery_def)
    have ws: "w' \<in> set ((xe_workers eb)[i := w]) \<Longrightarrow> w' \<in> set (xe_workers eb) \<or> w' = w" for w'
      using set_update_subset_insert [of "xe_workers eb" i w] by auto
    have "de_round d < length (xe_taken eb)" if "d \<in> set ds" for d using ds own(1) rounds that by (auto simp: newDelivery_def xRoundsOk_def)
    moreover have "xe_taken eb ! m = e" if "w' \<in> set ((xe_workers eb)[i := w])" "roundOf w' = Some (m, e)" for w' m e
      using ws [OF that(1)] that(2) own(3) r(2) rounds unfolding xRoundsOk_def by (metis option.inject prod.inject)
    ultimately show ?thesis
      using rounds r map_filter_same [OF i, of roundOf w] keep unfolding xRoundsOk_def by simp
  qed
  ultimately show ?thesis using table by (simp add: xInv_def xTableOk_def)
qed


lemma xInv_heap_same:
  "xInv subs eb \<Longrightarrow> xTableOk subs (eb\<lparr>xe_heap := xe_heap eb\<rparr>)"
  by (simp add: xInv_def)

lemma xInv_take:
  assumes inv: "xInv subs eb" and i: "i < length (xe_workers eb)" "xe_workers eb ! i = XIdle" and buf: "xe_buffer eb = event # rest"
  shows "xInv subs (setXWorker i (XTaken (length (xe_taken eb)) event) (eb\<lparr>xe_buffer := rest, xe_taken := xe_taken eb @ [event]\<rparr>))"
proof -
  have rounds: "xRoundsOk subs eb" using inv by (simp add: xInv_def)
  have none: "started (xe_deliveries eb) (length (xe_taken eb)) = []" using rounds by (auto simp: xRoundsOk_def started_def filter_empty_conv)
  have less: "n < length (xe_taken eb)" if "w \<in> set (xe_workers eb)" "roundOf w = Some (n, e)" for w n e
    using that own_round(1) [OF rounds] by (metis in_set_conv_nth)
  have fin: "n < length (xe_taken eb)" if "n \<in> set (xe_done eb)" for n
    using rounds_distinct(2) [OF rounds] that by auto
  have "mset (map fst (List.map_filter roundOf ((xe_workers eb)[i := XTaken (length (xe_taken eb)) event])))
          = mset (map fst (List.map_filter roundOf (xe_workers eb))) + {#length (xe_taken eb)#}"
    using map_filter_update [OF i(1), of roundOf "XTaken (length (xe_taken eb)) event"] i(2) by simp
  then have "xRoundsOk subs (setXWorker i (XTaken (length (xe_taken eb)) event) (eb\<lparr>xe_buffer := rest, xe_taken := xe_taken eb @ [event]\<rparr>))"
    using rounds less fin
    by (auto simp: xRoundsOk_def setXWorker_def nth_append less_Suc_eq dest!: set_update_subset_insert [THEN subsetD])
  then show ?thesis
    using inv none by (auto simp: xInv_def xTableOk_def setXWorker_def dest!: set_update_subset_insert [THEN subsetD])
qed

lemma xInv_count:
  assumes inv: "xInv subs eb" and i: "i < length (xe_workers eb)" "xe_workers eb ! i = XCount n event"
  shows "xInv subs (setXWorker i XIdle (eb\<lparr>xe_processedEvents := p, xe_done := xe_done eb @ [n]\<rparr>))"
proof -
  have rounds: "xRoundsOk subs eb" using inv by (simp add: xInv_def)
  have ok: "xWorkerOk subs (xe_heap eb) (xe_subscribers eb) (xe_deliveries eb) (XCount n event)" using inv i by (metis nth_mem xInv_def)
  have taken: "xe_taken eb ! n = event" using own_round(3) [OF rounds i(1)] i(2) by simp
  have "mset (map fst (List.map_filter roundOf (xe_workers eb))) = mset (map fst (List.map_filter roundOf ((xe_workers eb)[i := XIdle]))) + {#n#}"
    using map_filter_update [OF i(1), of roundOf XIdle] i(2) by simp (metis image_mset_add_mset fst_conv mset_map)
  then have "xRoundsOk subs (setXWorker i XIdle (eb\<lparr>xe_processedEvents := p, xe_done := xe_done eb @ [n]\<rparr>))"
    using rounds taken ok by (auto simp: xRoundsOk_def setXWorker_def dest!: set_update_subset_insert [THEN subsetD])
  then show ?thesis
    using inv by (auto simp: xInv_def xTableOk_def setXWorker_def dest!: set_update_subset_insert [THEN subsetD])
qed


lemma xInv_stop: "xInv subs eb \<Longrightarrow> i < length (xe_workers eb) \<Longrightarrow> xe_workers eb ! i = XIdle \<Longrightarrow> xInv subs (setXWorker i XStopped eb)"
  by (auto simp: xInv_def xTableOk_def xRoundsOk_def setXWorker_def map_filter_same dest!: set_update_subset_insert [THEN subsetD])

lemma xInv_append:
  assumes inv: "xInv subs eb" and i: "i < length (xe_workers eb)" "xe_workers eb ! i = XBothRead n event s w"
    and app: "goAppend grow (xe_heap eb) s (length (sliceItems (xe_heap eb) s)) (sliceItems (xe_heap eb) w) = (heap, s')"
  shows "xInv subs (setXWorker i (XLoop n event s' 0) (eb\<lparr>xe_heap := heap\<rparr>))"
proof -
  have ok: "started (xe_deliveries eb) n = []" "s = xe_subscribers eb (be_Type event)" "w = xe_subscribers eb ''*''"
    using inv i by (metis nth_mem xInv_def xWorkerOk.simps(4))+
  have table: "tableOk (xe_heap eb) (xe_subscribers eb)" and items: "\<And>t. sliceItems (xe_heap eb) (xe_subscribers eb t) = subs t"
    using inv by (simp_all add: xInv_def xTableOk_def)
  note app' = app [unfolded ok(2)]
  have ws: "sliceItems (xe_heap eb) w = subs ''*''" using items ok(3) by simp
  have "xInv subs (eb\<lparr>xe_heap := heap, xe_deliveries := xe_deliveries eb, xe_workers := (xe_workers eb)[i := XLoop n event s' 0]\<rparr>)"
  proof (rule xInv_move [OF inv i(1), where n = n and event = event])
    show "xTableOk subs (eb\<lparr>xe_heap := heap\<rparr>)" using append_keeps_table [OF table app'] items by (auto simp: xTableOk_def)
    show "xWorkerOk subs heap (xe_subscribers eb) (xe_deliveries eb) w'" if "xWorkerOk subs (xe_heap eb) (xe_subscribers eb) (xe_deliveries eb) w'" for w'
      using that append_keeps_loop [OF table app' [unfolded ws]] by (cases w') (auto simp: items)
    show "xWorkerOk subs heap (xe_subscribers eb) (xe_deliveries eb) (XLoop n event s' 0)"
      using append_new_loop [OF table app'] ok(1) by (simp add: items ws)
  qed (use i in simp_all)
  then show ?thesis by (simp add: setXWorker_def)
qed

lemma xInv_loop:
  assumes inv: "xInv subs eb" and i: "i < length (xe_workers eb)" "xe_workers eb ! i = XLoop n event s j"
  shows "xInv subs (xWorkerStep grow i eb)"
proof -
  let ?xs = "subs (be_Type event) @ subs ''*''"
  have ok: "started (xe_deliveries eb) n = filter (acceptsEvent event) (take j ?xs)" "loopOk (xe_heap eb) (xe_subscribers eb) (be_Type event) s ?xs"
    using inv i by (metis nth_mem xInv_def xWorkerOk.simps(5))+
  then have items: "sliceItems (xe_heap eb) s = ?xs" by (simp add: loopOk_def)
  let ?ds = "xe_deliveries eb @ (if j < length ?xs \<and> acceptsEvent event (?xs ! j) then [newDelivery n event (?xs ! j)] else [])"
  let ?w = "if j < length ?xs then XLoop n event s (Suc j) else XWait n event"
  have "xInv subs (eb\<lparr>xe_heap := xe_heap eb, xe_deliveries := ?ds, xe_workers := (xe_workers eb)[i := ?w]\<rparr>)"
  proof (rule xInv_move [OF inv i(1), where n = n and event = event])
    show "xWorkerOk subs (xe_heap eb) (xe_subscribers eb) ?ds ?w"
    proof (cases "j < length ?xs")
      case True
      then show ?thesis using ok take_Suc_conv_app_nth [OF True] by (auto simp: newDelivery_def simp del: take_append)
    next
      case False
      then show ?thesis using ok by (auto simp: recipients_def)
    qed
  qed (use i inv xInv_heap_same in auto)
  then show ?thesis using i items by (auto simp: xWorkerStep_def setXWorker_def Let_def split: if_splits)
qed

lemma xInv_worker: "xInv subs eb \<Longrightarrow> xInv subs (xWorkerStep grow i eb)"
proof (cases "i < length (xe_workers eb)")
  case i: True
  assume inv: "xInv subs eb"
  have ok: "xWorkerOk subs (xe_heap eb) (xe_subscribers eb) (xe_deliveries eb) (xe_workers eb ! i)" using inv i by (simp add: xInv_def)
  have move: "xInv subs (setXWorker i w eb)"
    if "roundOf (xe_workers eb ! i) = Some (n, event)" "roundOf w = Some (n, event)" "xWorkerOk subs (xe_heap eb) (xe_subscribers eb) (xe_deliveries eb) w" for n event w
    using xInv_move [OF inv i that(1,2) xInv_heap_same [OF inv], of "xe_deliveries eb"] that(3) by (simp add: setXWorker_def)
  show ?thesis
  proof (cases "xe_workers eb ! i")
    case XIdle
    then show ?thesis using inv i xInv_take [OF inv i] xInv_stop [OF inv i] by (auto simp: xWorkerStep_def split: list.split)
  next
    case (XBothRead n event s w)
    then show ?thesis using inv i xInv_append [OF inv i] by (auto simp: xWorkerStep_def split: prod.split)
  next
    case (XLoop n event s j)
    then show ?thesis using xInv_loop [OF inv i] by simp
  next
    case (XWait n event)
    then show ?thesis using inv i ok by (auto simp: xWorkerStep_def allOver_def list_all_iff intro!: move)
  next
    case (XCount n event)
    then show ?thesis using inv i xInv_count [OF inv i] by (simp add: xWorkerStep_def)
  qed (use inv i ok in \<open>auto simp: xWorkerStep_def intro!: move\<close>)
qed (simp add: xWorkerStep_def)


subsection \<open>Deliveries and counters\<close>

fun callsOk :: "int \<Rightarrow> bool list \<Rightarrow> int \<Rightarrow> DeliveryState \<Rightarrow> bool" where
  "callsOk m calls retry Trying \<longleftrightarrow> calls = replicate (nat retry) False \<and> 0 \<le> retry \<and> retry \<le> max 0 (m + 1)"
| "callsOk m calls retry Succeeding \<longleftrightarrow> calls = replicate (nat retry) False @ [True] \<and> 0 \<le> retry \<and> retry \<le> m"
| "callsOk m calls retry Delivered \<longleftrightarrow> calls = replicate (nat retry) False @ [True] \<and> 0 \<le> retry \<and> retry \<le> m"
| "callsOk m calls retry _ \<longleftrightarrow> calls = replicate (nat (m + 1)) False"

definition deliveryOk :: "Delivery \<Rightarrow> bool" where
  "deliveryOk d \<longleftrightarrow> su_MaxRetries (de_sub d) < 2 ^ 62 \<and> callsOk (su_MaxRetries (de_sub d)) (de_calls d) (de_retry d) (de_state d)"

fun failureCounted :: "DeliveryState \<Rightarrow> nat" where
  "failureCounted Recording = 1"
| "failureCounted Abandoned = 1"
| "failureCounted _ = 0"

definition xCountersOk :: "EventBusExample \<Rightarrow> bool" where
  "xCountersOk eb \<longleftrightarrow> xe_accepted eb = xe_taken eb @ xe_buffer eb \<and> length (xe_buffer eb) \<le> 10000 \<and>
     xe_processedEvents eb = i64 (int (length (xe_done eb))) \<and>
     xe_failedEvents eb = i64 (int (sum_list (map (failureCounted \<circ> de_state) (xe_deliveries eb))))"

definition busInv :: "(string \<Rightarrow> Subscriber list) \<Rightarrow> EventBusExample \<Rightarrow> bool" where
  "busInv subs eb \<longleftrightarrow> xInv subs eb \<and> (\<forall>d \<in> set (xe_deliveries eb). deliveryOk d) \<and> xCountersOk eb
     \<and> (\<forall>t. \<forall>s \<in> set (subs t). su_MaxRetries s < 2 ^ 62)"

lemma xInv_same:
  assumes "xInv subs eb" "xe_heap eb' = xe_heap eb" "xe_subscribers eb' = xe_subscribers eb" "xe_workers eb' = xe_workers eb"
    "xe_taken eb' = xe_taken eb" "xe_done eb' = xe_done eb" "xe_deliveries eb' = xe_deliveries eb"
  shows "xInv subs eb'"
  using assms by (simp add: xInv_def xTableOk_def xRoundsOk_def)

lemma updateSubscriberMetrics_same [unchanged]:
  "xe_heap (updateSubscriberMetrics s ok eb) = xe_heap eb" "xe_subscribers (updateSubscriberMetrics s ok eb) = xe_subscribers eb"
  "xe_workers (updateSubscriberMetrics s ok eb) = xe_workers eb" "xe_taken (updateSubscriberMetrics s ok eb) = xe_taken eb"
  "xe_done (updateSubscriberMetrics s ok eb) = xe_done eb" "xe_deliveries (updateSubscriberMetrics s ok eb) = xe_deliveries eb"
  "xe_buffer (updateSubscriberMetrics s ok eb) = xe_buffer eb" "xe_accepted (updateSubscriberMetrics s ok eb) = xe_accepted eb"
  "xe_processedEvents (updateSubscriberMetrics s ok eb) = xe_processedEvents eb" "xe_publishers (updateSubscriberMetrics s ok eb) = xe_publishers eb"
  "xe_failedEvents (updateSubscriberMetrics s ok eb) = (if ok then xe_failedEvents eb else i64 (xe_failedEvents eb + 1))"
  "xe_breaker (updateSubscriberMetrics s ok eb) = xe_breaker eb" "xe_closed (updateSubscriberMetrics s ok eb) = xe_closed eb"
  by (auto simp: updateSubscriberMetrics_def split: option.split)

lemma xInv_setDelivery:
  assumes inv: "xInv subs eb" and k: "k < length (xe_deliveries eb)" "de_round d = de_round (xe_deliveries eb ! k)" "de_sub d = de_sub (xe_deliveries eb ! k)"
    and over: "\<not> deliveryOver (xe_deliveries eb ! k)"
  shows "xInv subs (setDelivery k d eb)"
proof -
  let ?ds = "(xe_deliveries eb)[k := d]"
  have same: "started ?ds n = started (xe_deliveries eb) n" for n
  proof -
    have "map (\<lambda>d. (de_round d, de_sub d)) ?ds = map (\<lambda>d. (de_round d, de_sub d)) (xe_deliveries eb)"
      using k by (simp add: map_update list_update_same_conv)
    moreover have "started ds n = map snd (filter (\<lambda>p. fst p = n) (map (\<lambda>d. (de_round d, de_sub d)) ds))" for ds
      by (induction ds) (simp_all add: started_def)
    ultimately show ?thesis by simp
  qed
  have over': "allOver (xe_deliveries eb) n \<Longrightarrow> allOver ?ds n" for n
    using k over by (auto simp: allOver_def dest!: set_update_subset_insert [THEN subsetD])
  have "xWorkerOk subs heap table (xe_deliveries eb) w \<Longrightarrow> xWorkerOk subs heap table ?ds w" for heap table w
    using over' by (cases w) (auto simp: same)
  moreover have "de_round x < length (xe_taken eb)" if "x \<in> set ?ds" for x
  proof -
    have "x = d \<or> x \<in> set (xe_deliveries eb)" using that set_update_subset_insert [of "xe_deliveries eb" k d] by blast
    then show ?thesis using inv k unfolding xInv_def xRoundsOk_def by (metis nth_mem)
  qed
  ultimately show ?thesis
    using inv over' unfolding xInv_def xRoundsOk_def setDelivery_def xTableOk_def by (simp add: same)
qed


lemma setters_same [unchanged]:
  "xe_buffer (setXWorker i w eb) = xe_buffer eb" "xe_accepted (setXWorker i w eb) = xe_accepted eb" "xe_taken (setXWorker i w eb) = xe_taken eb"
  "xe_processedEvents (setXWorker i w eb) = xe_processedEvents eb" "xe_failedEvents (setXWorker i w eb) = xe_failedEvents eb"
  "xe_done (setXWorker i w eb) = xe_done eb" "xe_deliveries (setXWorker i w eb) = xe_deliveries eb"
  "xe_buffer (setXPublisher i p eb) = xe_buffer eb" "xe_accepted (setXPublisher i p eb) = xe_accepted eb" "xe_taken (setXPublisher i p eb) = xe_taken eb"
  "xe_processedEvents (setXPublisher i p eb) = xe_processedEvents eb" "xe_failedEvents (setXPublisher i p eb) = xe_failedEvents eb"
  "xe_done (setXPublisher i p eb) = xe_done eb" "xe_deliveries (setXPublisher i p eb) = xe_deliveries eb" "xe_heap (setXPublisher i p eb) = xe_heap eb"
  "xe_subscribers (setXPublisher i p eb) = xe_subscribers eb" "xe_workers (setXPublisher i p eb) = xe_workers eb"
  "xe_buffer (setDelivery k d eb) = xe_buffer eb" "xe_accepted (setDelivery k d eb) = xe_accepted eb" "xe_taken (setDelivery k d eb) = xe_taken eb"
  "xe_processedEvents (setDelivery k d eb) = xe_processedEvents eb" "xe_failedEvents (setDelivery k d eb) = xe_failedEvents eb"
  "xe_done (setDelivery k d eb) = xe_done eb" "xe_deliveries (setDelivery k d eb) = (xe_deliveries eb)[k := d]"
  by (simp_all add: setXWorker_def setXPublisher_def setDelivery_def)

lemma busInv_publisher: "busInv subs eb \<Longrightarrow> busInv subs (publisherStep i now ready eb)"
proof -
  assume inv: "busInv subs eb"
  have same: "xe_heap (publisherStep i now ready eb) = xe_heap eb" "xe_subscribers (publisherStep i now ready eb) = xe_subscribers eb"
    "xe_workers (publisherStep i now ready eb) = xe_workers eb" "xe_taken (publisherStep i now ready eb) = xe_taken eb"
    "xe_done (publisherStep i now ready eb) = xe_done eb" "xe_deliveries (publisherStep i now ready eb) = xe_deliveries eb"
    "xe_processedEvents (publisherStep i now ready eb) = xe_processedEvents eb" "xe_failedEvents (publisherStep i now ready eb) = xe_failedEvents eb"
    by (simp_all add: publisherStep_def unchanged split: XPublisher.split option.split bool.split XReady.split)
  have "xe_accepted (publisherStep i now ready eb) = xe_taken eb @ xe_buffer (publisherStep i now ready eb)
        \<and> length (xe_buffer (publisherStep i now ready eb)) \<le> 10000"
    using inv by (auto simp: busInv_def xCountersOk_def publisherStep_def unchanged split: XPublisher.split option.split bool.split XReady.split)
  then show ?thesis using inv same xInv_same [of subs eb "publisherStep i now ready eb"] by (simp add: busInv_def xCountersOk_def)
qed

lemma busInv_worker:
  assumes inv: "busInv subs eb"
  shows "busInv subs (xWorkerStep grow i eb)"
proof -
  have xinv: "xInv subs eb" using inv by (simp add: busInv_def)
  have ds: "xe_deliveries (xWorkerStep grow i eb) = xe_deliveries eb
      \<or> (\<exists>n event s t. s \<in> set (subs t) \<and> xe_deliveries (xWorkerStep grow i eb) = xe_deliveries eb @ [newDelivery n event s])"
  proof (cases "i < length (xe_workers eb) \<and> (\<exists>n event s j. xe_workers eb ! i = XLoop n event s j)")
    case True
    then obtain n event s j where i: "i < length (xe_workers eb)" "xe_workers eb ! i = XLoop n event s j" by blast
    have "loopOk (xe_heap eb) (xe_subscribers eb) (be_Type event) s (subs (be_Type event) @ subs ''*'')"
      using xinv i by (metis nth_mem xInv_def xWorkerOk.simps(5))
    then have "sliceItems (xe_heap eb) s = subs (be_Type event) @ subs ''*''" by (simp add: loopOk_def)
    moreover have "j < length (subs (be_Type event) @ subs ''*'') \<Longrightarrow> \<exists>t. (subs (be_Type event) @ subs ''*'') ! j \<in> set (subs t)"
      using nth_mem [of j "subs (be_Type event) @ subs ''*''"] by auto
    ultimately show ?thesis using i by (auto simp: xWorkerStep_def Let_def unchanged)
  next
    case False
    then show ?thesis by (auto simp: xWorkerStep_def unchanged split: XWorker.split list.split prod.split)
  qed
  then have "(\<forall>d \<in> set (xe_deliveries (xWorkerStep grow i eb)). deliveryOk d)
      \<and> sum_list (map (failureCounted \<circ> de_state) (xe_deliveries (xWorkerStep grow i eb))) = sum_list (map (failureCounted \<circ> de_state) (xe_deliveries eb))"
    using inv by (auto simp: busInv_def newDelivery_def deliveryOk_def)
  moreover have "xe_accepted (xWorkerStep grow i eb) = xe_taken (xWorkerStep grow i eb) @ xe_buffer (xWorkerStep grow i eb) \<and> length (xe_buffer (xWorkerStep grow i eb)) \<le> 10000
      \<and> xe_processedEvents (xWorkerStep grow i eb) = i64 (int (length (xe_done (xWorkerStep grow i eb)))) \<and> xe_failedEvents (xWorkerStep grow i eb) = xe_failedEvents eb"
    using inv by (auto simp: busInv_def xCountersOk_def xWorkerStep_def Let_def unchanged algebra_simps i64_add_wrap2 split: XWorker.split list.split prod.split)
  ultimately show ?thesis using inv xInv_worker [OF xinv] by (simp add: busInv_def xCountersOk_def)
qed


lemma busInv_delivery: "busInv subs eb \<Longrightarrow> busInv subs (deliveryStep k now ok eb)"
proof (cases "k < length (xe_deliveries eb) \<and> \<not> deliveryOver (xe_deliveries eb ! k)")
  case True
  assume inv: "busInv subs eb"
  define d where "d = xe_deliveries eb ! k"
  have k: "k < length (xe_deliveries eb)" and over: "\<not> deliveryOver d" using True by (simp_all add: d_def)
  have ok: "deliveryOk d" using inv k by (auto simp: busInv_def d_def)
  have step: "busInv subs (setDelivery k d' eb')"
    if "xInv subs eb'" "xCountersOk (setDelivery k d' eb')" "xe_deliveries eb' = xe_deliveries eb" "de_round d' = de_round d" "de_sub d' = de_sub d" "deliveryOk d'" for d' eb'
    using that k over inv xInv_setDelivery [of subs eb' k d']
    by (auto simp: busInv_def d_def unchanged dest!: set_update_subset_insert [THEN subsetD])
  have sum: "sum_list (map (failureCounted \<circ> de_state) ((xe_deliveries eb)[k := d'])) + failureCounted (de_state d)
        = sum_list (map (failureCounted \<circ> de_state) (xe_deliveries eb)) + failureCounted (de_state d')" for d'
    using sum_list_map_update [OF k, of "failureCounted \<circ> de_state" d'] by (simp add: d_def)
  have x: "xInv subs eb" and c: "xCountersOk eb" using inv by (simp_all add: busInv_def)
  have upd: "xInv subs (updateSubscriberMetrics s b eb)" "xInv subs (eb\<lparr>xe_breaker := br\<rparr>)" for s b br
    using x by (auto intro: xInv_same simp: unchanged)
  show ?thesis
  proof (cases "de_state d")
    case Trying
    then have "0 \<le> de_retry d" "de_retry d \<le> max 0 (su_MaxRetries (de_sub d) + 1)" "su_MaxRetries (de_sub d) < 2 ^ 62"
      "de_calls d = replicate (nat (de_retry d)) False" using ok by (simp_all add: deliveryOk_def)
    moreover from this have "i64 (de_retry d + 1) = de_retry d + 1" if "de_retry d \<le> su_MaxRetries (de_sub d)"
      using that by (intro i64_id in_i64I) simp_all
    moreover have "replicate (nat (m + 1)) False = replicate (nat m) False @ [False]" if "0 \<le> m" for m
      using that by (simp add: nat_add_distrib replicate_append_same)
    ultimately show ?thesis
      using Trying k x c sum by (auto simp: deliveryStep_def Let_def d_def [symmetric] deliveryOk_def xCountersOk_def unchanged max_def intro!: step split: if_splits)
  next
    case Succeeding
    then show ?thesis using k c ok sum upd by (auto simp: deliveryStep_def Let_def d_def [symmetric] deliveryOk_def xCountersOk_def unchanged intro!: step)
  next
    case GivingUp
    then show ?thesis using k c ok sum upd by (auto simp: deliveryStep_def Let_def d_def [symmetric] deliveryOk_def xCountersOk_def unchanged algebra_simps i64_add_wrap2 intro!: step)
  next
    case Recording
    moreover from this have "sum_list (map (failureCounted \<circ> de_state) ((xe_deliveries eb)[k := d\<lparr>de_state := Abandoned\<rparr>]))
        = sum_list (map (failureCounted \<circ> de_state) (xe_deliveries eb))" using sum [of "d\<lparr>de_state := Abandoned\<rparr>"] by simp
    ultimately show ?thesis using k c ok upd by (auto simp: deliveryStep_def Let_def d_def [symmetric] deliveryOk_def xCountersOk_def unchanged intro!: step)
  qed (use over in \<open>simp_all add: deliveryOver_def\<close>)
next
  case False
  assume "busInv subs eb"
  then show ?thesis using False by (auto simp: deliveryStep_def deliveryOver_def Let_def split: DeliveryState.split)
qed

fun isSubscribe :: "XStep \<Rightarrow> bool" where
  "isSubscribe (XSubscribe t s) = True"
| "isSubscribe _ = False"

lemma busInv_step:
  assumes "busInv subs eb" "\<not> isSubscribe e"
  shows "busInv subs (xStep grow eb e)"
proof (cases e)
  case (XPublish event)
  then show ?thesis using assms(1) xInv_same [of subs eb "xPublish event eb"] by (simp add: busInv_def xPublish_def xCountersOk_def)
next
  case XShutdown
  then show ?thesis using assms(1) xInv_same [of subs eb "eb\<lparr>xe_closed := True\<rparr>"] by (simp add: busInv_def xShutdown_def xCountersOk_def)
qed (use assms in \<open>auto simp: busInv_publisher busInv_worker busInv_delivery\<close>)

interpretation events: guarded_object "xStep grow" "busInv subs" "\<lambda>_ e. \<not> isSubscribe e" for grow subs
  by unfold_locales (rule busInv_step)


section \<open>Every recipient gets the event\<close>

text \<open>The subscribers of an event type after a list of subscriptions.\<close>

definition subscribersOf :: "(string \<times> Subscriber) list \<Rightarrow> string \<Rightarrow> Subscriber list" where
  "subscribersOf ss t = sort_key (\<lambda>s. - su_Priority s) (map snd (filter (\<lambda>p. fst p = t) ss))"

lemma subscribersOf_snoc:
  "subscribersOf (ss @ [(t, s)]) u = (if u = t then insertByPriority su_Priority s (subscribersOf ss t) else subscribersOf ss u)"
  using insertByPriority_sort [of su_Priority s] by (auto simp: subscribersOf_def)

lemma set_subscribersOf [simp]: "s \<in> set (subscribersOf ss t) \<longleftrightarrow> (t, s) \<in> set ss"
  by (force simp: subscribersOf_def)

lemma busInv_subscribe:
  "list_all (\<lambda>p. su_MaxRetries (snd p) < 2 ^ 62) ss \<Longrightarrow>
     busInv (subscribersOf ss) (run (xStep grow) (newEventBusExample workers) (map (\<lambda>(t, s). XSubscribe t s) ss))
     \<and> xe_workers (run (xStep grow) (newEventBusExample workers) (map (\<lambda>(t, s). XSubscribe t s) ss)) = replicate workers XIdle
     \<and> xe_taken (run (xStep grow) (newEventBusExample workers) (map (\<lambda>(t, s). XSubscribe t s) ss)) = []
     \<and> xe_deliveries (run (xStep grow) (newEventBusExample workers) (map (\<lambda>(t, s). XSubscribe t s) ss)) = []"
proof (induction ss rule: rev_induct)
  case Nil
  have "List.map_filter roundOf (replicate workers XIdle) = []" by (induction workers) (simp_all add: List.map_filter_simps)
  then show ?case
    by (auto simp: busInv_def xInv_def xTableOk_def tableOk_def sliceOk_def xRoundsOk_def xCountersOk_def newEventBusExample_def subscribersOf_def i64_def)
next
  case (snoc x ss)
  obtain t s where x: "x = (t, s)" by fastforce
  define eb where "eb = run (xStep grow) (newEventBusExample workers) (map (\<lambda>(t, s). XSubscribe t s) ss)"
  have IH: "busInv (subscribersOf ss) eb" "xe_workers eb = replicate workers XIdle" "xe_taken eb = []" "xe_deliveries eb = []"
    using snoc by (simp_all add: eb_def)
  obtain heap s' where ins: "insertSubscriber grow su_Priority (xe_heap eb) (xe_subscribers eb t) s = (heap, s')" by fastforce
  have table: "tableOk (xe_heap eb) (xe_subscribers eb)" "\<And>u. sliceItems (xe_heap eb) (xe_subscribers eb u) = subscribersOf ss u"
    using IH(1) by (simp_all add: busInv_def xInv_def xTableOk_def)
  have "xTableOk (subscribersOf (ss @ [(t, s)])) (xSubscribe grow t s eb)"
    using insertSubscriber_result [OF table(1) ins] table(2) by (simp add: xTableOk_def xSubscribe_def ins subscribersOf_snoc Let_def)
  moreover have "xe_done eb = []" using IH rounds_distinct(2) [of "subscribersOf ss" eb] by (auto simp: busInv_def xInv_def)
  ultimately show ?case
    using IH snoc.prems unfolding x map_append run_append eb_def [symmetric]
    by (auto simp: busInv_def xInv_def xRoundsOk_def xCountersOk_def xSubscribe_def ins Let_def list_all_iff)
qed


definition subscribed :: "(nat \<Rightarrow> nat) \<Rightarrow> nat \<Rightarrow> (string \<times> Subscriber) list \<Rightarrow> EventBusExample" where
  "subscribed grow workers ss = run (xStep grow) (newEventBusExample workers) (map (\<lambda>(t, s). XSubscribe t s) ss)"

text \<open>C36.  When the subscriptions come first, then in every interleaving of publishers, workers, deliveries and shut-down: the channel is first in first out; an
  event that a worker has processed was delivered exactly to the subscribers of its type that accept it, by descending priority, and then to
  those of \<open>*\<close>; each of these deliveries has ended, by a call that succeeded after at most \<open>MaxRetries\<close> failures, or after \<open>MaxRetries + 1\<close> failed calls; no event is processed
  twice.\<close>

theorem example_events_delivered:
  fixes es :: "XStep list" and grow :: "nat \<Rightarrow> nat" and workers :: nat and ss :: "(string \<times> Subscriber) list"
  defines "eb \<equiv> run (xStep grow) (subscribed grow workers ss) es"
  assumes "list_all (\<lambda>(t, s). su_MaxRetries s < 2 ^ 62) ss" and "list_all (\<lambda>e. \<not> isSubscribe e) es"
  shows "xe_accepted eb = xe_taken eb @ xe_buffer eb \<and> length (xe_buffer eb) \<le> 10000
    \<and> distinct (xe_done eb) \<and> xe_processedEvents eb = i64 (int (length (xe_done eb)))
    \<and> (\<forall>n \<in> set (xe_done eb). n < length (xe_taken eb)
         \<and> started (xe_deliveries eb) n = recipients (subscribersOf ss) (xe_taken eb ! n)
         \<and> (\<forall>d \<in> set (xe_deliveries eb). de_round d = n \<longrightarrow>
              (\<exists>k \<le> su_MaxRetries (de_sub d). de_calls d = replicate (nat k) False @ [True]) \<or> de_calls d = replicate (nat (su_MaxRetries (de_sub d) + 1)) False))"
proof -
  have "list_all (\<lambda>p. su_MaxRetries (snd p) < 2 ^ 62) ss" using assms(2) by (auto simp: list_all_iff)
  then have "busInv (subscribersOf ss) (subscribed grow workers ss)" using busInv_subscribe by (simp add: subscribed_def)
  then have inv: "busInv (subscribersOf ss) eb" unfolding eb_def by (rule events.guarded_run) (simp add: assms(3) admissible_list_all)
  then have rounds: "xRoundsOk (subscribersOf ss) eb" by (simp add: busInv_def xInv_def)
  have "n < length (xe_taken eb)" if "n \<in> set (xe_done eb)" for n using rounds_distinct(2) [OF rounds] that by auto
  moreover have "(\<exists>k \<le> su_MaxRetries (de_sub d). de_calls d = replicate (nat k) False @ [True]) \<or> de_calls d = replicate (nat (su_MaxRetries (de_sub d) + 1)) False"
    if "d \<in> set (xe_deliveries eb)" "deliveryOver d" for d
  proof -
    have "deliveryOk d" using that inv by (simp add: busInv_def)
    then show ?thesis using that(2) by (auto simp: deliveryOk_def deliveryOver_def)
  qed
  ultimately show ?thesis
    using inv rounds rounds_distinct(1) [OF rounds] by (auto simp: busInv_def xCountersOk_def xRoundsOk_def allOver_def)
qed

definition sampleSubs :: "(string \<times> Subscriber) list" where
  "sampleSubs = [(''a'', \<lparr>su_ID = ''s1'', su_Filter = None, su_Priority = 1, su_MaxRetries = 1\<rparr>),
                 (''a'', \<lparr>su_ID = ''s2'', su_Filter = None, su_Priority = 5, su_MaxRetries = 0\<rparr>),
                 (''*'', \<lparr>su_ID = ''s3'', su_Filter = Some (\<lambda>e. be_ID e = ''e1''), su_Priority = 9, su_MaxRetries = 0\<rparr>)]"

definition sampleEvent :: BusEvent where
  "sampleEvent = \<lparr>be_ID = ''e1'', be_Type = ''a'', be_Payload = [], be_Timestamp = 0\<rparr>"

definition sampleSteps :: "XStep list" where
  "sampleSteps = XPublish sampleEvent # replicate 3 (XPublisherStep 0 7 SendReady) @ replicate 8 (XWorkerStep 0)
     @ replicate 2 (XDeliveryStep 0 8 True) @ [XDeliveryStep 1 8 False, XDeliveryStep 1 9 True, XDeliveryStep 1 9 True]
     @ replicate 4 (XDeliveryStep 2 9 False) @ replicate 2 (XWorkerStep 0)"

lemmas xbus_defs = sampleEvent_def newEventBusExample_def xSubscribe_def insertSubscriber_def goAppend_def xPublish_def publisherStep_def setXPublisher_def
  allowCheck_def xWorkerStep_def setXWorker_def deliveryStep_def setDelivery_def newDelivery_def acceptsEvent_def deliveryOver_def updateSubscriberMetrics_def xRecordFailure_def
  Let_def i64_def numeral_eq_Suc


lemma sample_done: "xe_done (run (xStep id) (subscribed id 1 sampleSubs) sampleSteps) = [0]
   \<and> xe_taken (run (xStep id) (subscribed id 1 sampleSubs) sampleSteps) = [sampleEvent\<lparr>be_Timestamp := 7\<rparr>]"
  by (simp add: sampleSteps_def sampleSubs_def subscribed_def xbus_defs)


theorem example_events_delivered_witness:
  "map su_ID (started (xe_deliveries (run (xStep id) (subscribed id 1 sampleSubs) sampleSteps)) 0) = [''s2'', ''s1'', ''s3'']"
proof -
  have "started (xe_deliveries (run (xStep id) (subscribed id 1 sampleSubs) sampleSteps)) 0 = recipients (subscribersOf sampleSubs) (sampleEvent\<lparr>be_Timestamp := 7\<rparr>)"
  proof -
    have "list_all (\<lambda>(t, s). su_MaxRetries s < 2 ^ 62) sampleSubs" by (simp add: sampleSubs_def)
    moreover have "list_all (\<lambda>e. \<not> isSubscribe e) sampleSteps" by (simp add: sampleSteps_def numeral_eq_Suc)
    ultimately show ?thesis using example_events_delivered [of sampleSubs sampleSteps id 1] sample_done by simp
  qed
  then show ?thesis by (simp add: recipients_def subscribersOf_def sampleSubs_def sampleEvent_def acceptsEvent_def)
qed

section \<open>A subscription during processing\<close>

text \<open>A worker has read the slice of an event type; a new subscriber is written behind it into the same array; then the worker appends the subscribers
  of \<open>*\<close> to the slice it has, in the same place.  The new subscriber is lost and one of \<open>*\<close> stands in the table instead.  The capacity of four for three elements
  is what the Go implementation allocates.\<close>

definition sub :: "string \<Rightarrow> int \<Rightarrow> Subscriber" where
  "sub name priority = \<lparr>su_ID = name, su_Filter = None, su_Priority = priority, su_MaxRetries = 0\<rparr>"

definition overlapping :: "XStep list" where
  "overlapping = [XSubscribe ''a'' (sub ''s1'' 9), XSubscribe ''a'' (sub ''s2'' 8), XSubscribe ''a'' (sub ''s3'' 7), XSubscribe ''*'' (sub ''audit'' 0), XPublish sampleEvent,
     XPublisherStep 0 1 SendReady, XPublisherStep 0 1 SendReady, XPublisherStep 0 1 SendReady, XWorkerStep 0, XWorkerStep 0,
     XSubscribe ''a'' (sub ''s4'' 6), XWorkerStep 0, XWorkerStep 0]"

definition goGrow :: "nat \<Rightarrow> nat" where
  "goGrow n = (if n = 3 then 4 else n)"

lemma subscriber_overwritten:
  "map su_ID (sliceItems (xe_heap (run (xStep goGrow) (newEventBusExample 1) overlapping)) (xe_subscribers (run (xStep goGrow) (newEventBusExample 1) overlapping) ''a''))
     = [''s1'', ''s2'', ''s3'', ''audit'']"
  by (simp add: overlapping_def sub_def goGrow_def xbus_defs)

text \<open>An event of type \<open>*\<close> is delivered twice to every subscriber of \<open>*\<close>.\<close>

lemma wildcard_event_twice: "be_Type event = ''*'' \<Longrightarrow> recipients subs event = filter (acceptsEvent event) (subs ''*'') @ filter (acceptsEvent event) (subs ''*'')"
  by (simp add: recipients_def)

section \<open>The circuit breaker\<close>

text \<open>No step closes the breaker.\<close>

lemma breaker_steps:
  "xe_breaker (xStep grow eb e) = xe_breaker eb \<or> xe_breaker (xStep grow eb e) = allowReset (xe_breaker eb) \<or> (\<exists>now. xe_breaker (xStep grow eb e) = xRecordFailure now (xe_breaker eb))"
proof (cases e)
  case (XPublisherStep i now ready)
  then show ?thesis by (auto simp: publisherStep_def setXPublisher_def split: XPublisher.split option.split bool.split XReady.split)
next
  case (XWorkerStep i)
  have "xe_breaker (xWorkerStep grow i eb) = xe_breaker eb"
    by (simp add: xWorkerStep_def setXWorker_def Let_def split: XWorker.split list.split prod.split)
  then show ?thesis using XWorkerStep by simp
next
  case (XDeliveryStep k now ok)
  have "xe_breaker (deliveryStep k now ok eb) = xe_breaker eb \<or> xe_breaker (deliveryStep k now ok eb) = xRecordFailure now (xe_breaker eb)"
    by (cases "de_state (xe_deliveries eb ! k)") (simp_all add: deliveryStep_def setDelivery_def Let_def unchanged)
  then show ?thesis using XDeliveryStep by auto
qed (simp_all add: xSubscribe_def xPublish_def xShutdown_def Let_def split: prod.split)

lemma breaker_never_closes: "br_state (xe_breaker eb) \<noteq> BClosed \<Longrightarrow> br_state (xe_breaker (run (xStep grow) eb es)) \<noteq> BClosed"
proof (induction es arbitrary: eb)
  case (Cons e es)
  have "br_state (xe_breaker (xStep grow eb e)) \<noteq> BClosed"
    using Cons.prems breaker_steps [of grow eb e] by (auto simp: allowReset_def xRecordFailure_def Let_def split: if_splits)
  then show ?case using Cons.IH by simp
qed simp


text \<open>A bus at rest on probation after at least two failures: nothing is under way, and \<open>Allow\<close> refuses.\<close>

fun publisherResting :: "XPublisher \<Rightarrow> bool" where
  "publisherResting (XAllow event) = True"
| "publisherResting (XAccepted event) = True"
| "publisherResting XRefused = True"
| "publisherResting XFailed = True"
| "publisherResting XPanicked = True"
| "publisherResting _ = False"

definition refusing :: "BusEvent list \<Rightarrow> EventBusExample \<Rightarrow> bool" where
  "refusing accepted eb \<longleftrightarrow> br_state (xe_breaker eb) = BHalfOpen \<and> br_failures (xe_breaker eb) \<ge> br_maxFailures (xe_breaker eb) div 2
     \<and> xe_buffer eb = [] \<and> list_all (\<lambda>w. w = XIdle \<or> w = XStopped) (xe_workers eb) \<and> list_all deliveryOver (xe_deliveries eb)
     \<and> list_all publisherResting (xe_publishers eb) \<and> xe_accepted eb = accepted"

lemma list_all_update: "list_all P xs \<Longrightarrow> P x \<Longrightarrow> list_all P (xs[i := x])"
  by (auto simp: list_all_iff dest!: set_update_subset_insert [THEN subsetD])

lemma refusing_step: "refusing accepted eb \<Longrightarrow> refusing accepted (xStep grow eb e)"
proof (cases e)
  case (XPublisherStep i now ready)
  assume r: "refusing accepted eb"
  have "publisherResting (xe_publishers eb ! i)" if "i < length (xe_publishers eb)" using r that by (simp add: refusing_def list_all_length)
  then show ?thesis using r XPublisherStep
    by (cases "xe_publishers eb ! i") (auto simp: refusing_def publisherStep_def allowCheck_def setXPublisher_def intro!: list_all_update)
next
  case (XWorkerStep i)
  assume r: "refusing accepted eb"
  have "xe_workers eb ! i = XIdle \<or> xe_workers eb ! i = XStopped" if "i < length (xe_workers eb)" using r that by (simp add: refusing_def list_all_length)
  then show ?thesis using r XWorkerStep by (auto simp: refusing_def xWorkerStep_def setXWorker_def intro!: list_all_update)
next
  case (XDeliveryStep k now ok)
  assume r: "refusing accepted eb"
  have "deliveryOver (xe_deliveries eb ! k)" if "k < length (xe_deliveries eb)" using r that by (simp add: refusing_def list_all_length)
  then show ?thesis using r XDeliveryStep by (auto simp: deliveryStep_def deliveryOver_def)
qed (auto simp: refusing_def xSubscribe_def xPublish_def xShutdown_def Let_def split: prod.split)

interpretation refusing: locked_object "xStep grow" "refusing accepted" for grow accepted
  by unfold_locales (rule refusing_step)

text \<open> Once the breaker is on probation with at least two failures (half of the limit, rounded down) and nothing is under way, the bus accepts no event in any further history, however much
  time passes: no operation lowers the number of failures or leaves the probation.\<close>

theorem probation_refuses_for_ever:
  assumes "refusing accepted eb"
  shows "xe_accepted (run (xStep grow) eb es) = accepted \<and> list_all publisherResting (xe_publishers (run (xStep grow) eb es))
    \<and> br_state (xe_breaker (run (xStep grow) eb es)) = BHalfOpen"
  using refusing.inv_run [OF assms, of grow es] by (simp add: refusing_def)


text \<open>Five failures open the breaker; after the cooldown an event with two failing subscribers is let through.\<close>

definition failAll :: "nat list \<Rightarrow> XStep list" where
  "failAll ks = concat (map (\<lambda>k. replicate 4 (XDeliveryStep k 5 False)) ks)"

definition outage :: "XStep list" where
  "outage = map (XSubscribe ''a'') [sub ''s'' 1, sub ''s'' 1, sub ''s'' 1, sub ''s'' 1, sub ''s'' 1] @ map (XSubscribe ''b'') [sub ''s'' 1, sub ''s'' 1]
     @ XPublish sampleEvent # replicate 3 (XPublisherStep 0 1 SendReady) @ replicate 10 (XWorkerStep 0) @ failAll [0, 1, 2, 3, 4] @ replicate 2 (XWorkerStep 0)
     @ XPublish (sampleEvent\<lparr>be_Type := ''b''\<rparr>) # replicate 4 (XPublisherStep 1 (10 ^ 11) SendReady) @ replicate 7 (XWorkerStep 0) @ failAll [5, 6] @ replicate 2 (XWorkerStep 0)"

lemma outage_refusing: "\<exists>accepted. refusing accepted (run (xStep id) (newEventBusExample 1) outage) \<and> length accepted = 2"
  by (simp add: refusing_def outage_def failAll_def sub_def allowReset_def xbus_defs)

theorem probation_refuses_for_ever_witness:
  "length (xe_accepted (run (xStep id) (run (xStep id) (newEventBusExample 1) outage) [XPublish sampleEvent, XPublisherStep 2 (10 ^ 30) SendReady])) = 2"
proof -
  obtain accepted where "refusing accepted (run (xStep id) (newEventBusExample 1) outage)" "length accepted = 2"
    using outage_refusing by (elim exE conjE)
  with probation_refuses_for_ever [OF this(1), of id "[XPublish sampleEvent, XPublisherStep 2 (10 ^ 30) SendReady]"] show ?thesis by (elim conjE) simp
qed

end
