(* ===== verification/ExampleLogging.thy ===== *)
theory ExampleLogging
  imports GoPrelude
begin

text \<open>
  The logging system of \<open>src/practical/distributed_logging_example.go\<close>: sampling, enrichment, the ring buffer on two atomic positions, the batcher, the writing to
  the sinks with retries, and the shut-down of the two processing goroutines.

  Every access of an atomic variable or of a slot of the ring is a step, so that writers and the reader interleave as finely as in the code; the batcher is guarded by its
  mutex.  The random numbers of the sampler enter as the answer of \<open>ShouldSample\<close> with its two comparisons, the outcome of a sink as its answer; the HTTP client is a list of answers.  Fields, traces and latencies are left out.
  \<open>lx_read\<close>, \<open>lx_taken\<close> and \<open>lx_written\<close> record the entries read from the ring, the batches taken from the batcher and those given to the sinks.

  Shown: while no write finds the ring full, sequential writes and reads behave as a queue; in every interleaving the entries read are, in their order, those of the batches
  taken followed by the current batch, which is shorter than the batch size, and the counters account for every call of \<open>Log\<close> and every batch.  Examples show what the
  ring does when it has been full, when the reader overtakes a writer, and what the shut-down loses.
\<close>

section \<open>Ring buffer\<close>

record 'a Ring =
  ri_buffer :: "'a list"
  ri_size :: int
  ri_writePos :: int
  ri_readPos :: int

definition newRing :: "'a \<Rightarrow> nat \<Rightarrow> 'a Ring" where
  "newRing zero sz = \<lparr>ri_buffer = replicate sz zero, ri_size = int sz, ri_writePos = 0, ri_readPos = 0\<rparr>"

text \<open>The steps of \<open>Write\<close>: claim a position, compare with the reader, store.\<close>

definition ringClaim :: "'a Ring \<Rightarrow> int \<times> 'a Ring" where
  "ringClaim rb = (let p = i64 (ri_writePos rb + 1) in (i64 (p - 1), rb\<lparr>ri_writePos := p\<rparr>))"

definition ringHasRoom :: "int \<Rightarrow> 'a Ring \<Rightarrow> bool" where
  "ringHasRoom pos rb \<longleftrightarrow> \<not> i64 (pos - ri_readPos rb) \<ge> ri_size rb"

definition ringStore :: "int \<Rightarrow> 'a \<Rightarrow> 'a Ring \<Rightarrow> 'a Ring" where
  "ringStore pos entry rb = rb\<lparr>ri_buffer := (ri_buffer rb)[nat (pos mod ri_size rb) := entry]\<rparr>"

definition ringWrite :: "'a \<Rightarrow> 'a Ring \<Rightarrow> bool \<times> 'a Ring" where
  "ringWrite entry rb = (let (pos, rb') = ringClaim rb in if ringHasRoom pos rb' then (True, ringStore pos entry rb') else (False, rb'))"

text \<open>The steps of \<open>Read\<close>: compare the positions, advance, read the slot.\<close>

definition ringHasNext :: "int \<Rightarrow> 'a Ring \<Rightarrow> bool" where
  "ringHasNext pos rb \<longleftrightarrow> \<not> pos \<ge> ri_writePos rb"

definition ringAdvance :: "'a Ring \<Rightarrow> 'a Ring" where
  "ringAdvance rb = rb\<lparr>ri_readPos := i64 (ri_readPos rb + 1)\<rparr>"

definition ringSlot :: "int \<Rightarrow> 'a Ring \<Rightarrow> 'a" where
  "ringSlot pos rb = ri_buffer rb ! nat (pos mod ri_size rb)"

definition ringRead :: "'a Ring \<Rightarrow> 'a option \<times> 'a Ring" where
  "ringRead rb = (let pos = ri_readPos rb in if ringHasNext pos rb then (Some (ringSlot pos (ringAdvance rb)), ringAdvance rb) else (None, rb))"

section \<open>Batcher\<close>

record 'a Batcher =
  ba_batchSize :: int
  ba_batch :: "'a list"
  ba_flush :: bool

definition newLogBatcher :: "int \<Rightarrow> 'a Batcher" where
  "newLogBatcher batchSize = \<lparr>ba_batchSize = batchSize, ba_batch = [], ba_flush = False\<rparr>"

text \<open>\<open>Add\<close> returns the full batch, if there is one; \<open>ba_flush\<close> is the channel of capacity one.\<close>

definition batcherAdd :: "'a \<Rightarrow> 'a Batcher \<Rightarrow> 'a list option \<times> 'a Batcher" where
  "batcherAdd entry lb =
     (let batch = ba_batch lb @ [entry]
      in if int (length batch) \<ge> ba_batchSize lb then (Some batch, lb\<lparr>ba_batch := []\<rparr>)
         else (None, lb\<lparr>ba_batch := batch, ba_flush := True\<rparr>))"

definition getBatch :: "'a Batcher \<Rightarrow> 'a list option \<times> 'a Batcher" where
  "getBatch lb = (if ba_batch lb = [] then (None, lb) else (Some (ba_batch lb), lb\<lparr>ba_batch := []\<rparr>))"

section \<open>Sinks\<close>

text \<open>\<open>NetworkSink.Write\<close>: at most \<open>retryCount + 1\<close> posts; \<open>posts\<close> are the answers of the client to the posts, in order.\<close>

fun networkWrite :: "nat \<Rightarrow> nat \<Rightarrow> (nat \<Rightarrow> bool) \<Rightarrow> bool \<times> nat" where
  "networkWrite 0 i posts = (False, i)"
| "networkWrite (Suc n) i posts = (if posts i then (True, Suc i) else networkWrite n (Suc i) posts)"

definition networkSinkWrite :: "nat \<Rightarrow> (nat \<Rightarrow> bool) \<Rightarrow> bool \<times> nat" where
  "networkSinkWrite retryCount posts = networkWrite (Suc retryCount) 0 posts"

lemma networkWrite_result:
  "networkWrite n i posts = (case find posts [i..<i + n] of Some j \<Rightarrow> (True, Suc j) | None \<Rightarrow> (False, i + n))"
proof (induction n arbitrary: i)
  case (Suc n)
  have "[i..<i + Suc n] = i # [Suc i..<Suc i + n]" using upt_conv_Cons [of i "i + Suc n"] by simp
  then show ?case using Suc [of "Suc i"] by (simp del: upt_Suc split: option.split)
qed simp

text \<open>The network sink succeeds exactly when one of the first \<open>retryCount + 1\<close> posts does, and stops there.\<close>

lemma networkSink_retries:
  "networkSinkWrite retryCount posts = (case find posts [0..<Suc retryCount] of Some j \<Rightarrow> (True, Suc j) | None \<Rightarrow> (False, Suc retryCount))"
  using networkWrite_result [of "Suc retryCount" 0 posts] unfolding networkSinkWrite_def add_0 .

text \<open>\<open>ElasticsearchSink.Write\<close>: an action and a document per entry, each with a newline; \<open>json\<close> prints them.\<close>

definition bulkData :: "(string \<Rightarrow> string) \<Rightarrow> ('a \<Rightarrow> string) \<Rightarrow> string \<Rightarrow> 'a list \<Rightarrow> string" where
  "bulkData action json index entries = concat (map (\<lambda>entry. action index @ [CHR 0x0A] @ json entry @ [CHR 0x0A]) entries)"

section \<open>Logging system\<close>

datatype LxLevel = LevelDebug | LevelInfo | LevelWarn | LevelError | LevelFatal

record LxEntry =
  le_Level :: LxLevel
  le_Timestamp :: gotime
  le_Message :: string
  le_Service :: string
  le_Host :: string

text \<open>The sampling rates in percent; the zero value of the map is not needed, since every level has one.\<close>

fun sampleRate :: "LxLevel \<Rightarrow> nat" where
  "sampleRate LevelDebug = 10"
| "sampleRate LevelInfo = 50"
| "sampleRate _ = 100"

text \<open>\<open>r1\<close> and \<open>r2\<close> are the two random numbers in percent, below 100.\<close>

definition shouldSample :: "nat \<Rightarrow> nat \<Rightarrow> LxLevel \<Rightarrow> bool" where
  "shouldSample r1 r2 level = (if r1 < 10 then True else r2 < sampleRate level)"

lemma severe_always_sampled: "r2 < 100 \<Longrightarrow> level \<in> {LevelWarn, LevelError, LevelFatal} \<Longrightarrow> shouldSample r1 r2 level"
  by (auto simp: shouldSample_def)

type_synonym LxEnrich = "gotime \<Rightarrow> LxEntry \<Rightarrow> LxEntry"

definition lxEnrichWithHostInfo :: LxEnrich where
  "lxEnrichWithHostInfo now entry = entry\<lparr>le_Host := ''localhost'', le_Service := ''example-service''\<rparr>"

definition lxEnrichWithTimestamp :: LxEnrich where
  "lxEnrichWithTimestamp now entry = (if le_Timestamp entry = 0 then entry\<lparr>le_Timestamp := now\<rparr> else entry)"

definition zeroEntry :: LxEntry where
  "zeroEntry = \<lparr>le_Level = LevelDebug, le_Timestamp = 0, le_Message = [], le_Service = [], le_Host = []\<rparr>"

text \<open>The program points of a call of \<open>Log\<close>, of \<open>processBuffer\<close> (with the flag for the phase after the shut-down) and of \<open>processBatcher\<close>.\<close>

datatype LogCall = Sampling LxLevel string | Claiming LxEntry | Comparing LxEntry int | Storing LxEntry int | Counting | Dropping | Logged | Dropped

datatype BufferLoop = BPoll bool | BAdvance bool int | BSlot bool int | BAdd bool LxEntry | BWrite bool "LxEntry list" | BEnd

datatype BatcherLoop = TSelect | TWrite bool "LxEntry list" | TEnd

record LoggingSystem =
  lx_sinks :: "string list"
  lx_ring :: "LxEntry Ring"
  lx_batcher :: "LxEntry Batcher"
  lx_enrichers :: "LxEnrich list"
  lx_totalLogs :: int
  lx_droppedLogs :: int
  lx_errorCount :: int
  lx_sinkMetrics :: "string \<rightharpoonup> int \<times> int"
  lx_shutdown :: bool
  lx_calls :: "LogCall list"
  lx_bufferLoop :: BufferLoop
  lx_batcherLoop :: BatcherLoop
  lx_read :: "LxEntry list"
  lx_taken :: "LxEntry list list"
  lx_written :: "LxEntry list list"

definition newLogging :: LoggingSystem where
  "newLogging = \<lparr>lx_sinks = [], lx_ring = newRing zeroEntry 10000, lx_batcher = newLogBatcher 100, lx_enrichers = [lxEnrichWithHostInfo, lxEnrichWithTimestamp],
     lx_totalLogs = 0, lx_droppedLogs = 0, lx_errorCount = 0, lx_sinkMetrics = Map.empty, lx_shutdown = False, lx_calls = [],
     lx_bufferLoop = BPoll False, lx_batcherLoop = TSelect, lx_read = [], lx_taken = [], lx_written = []\<rparr>"

definition addLogSink :: "string \<Rightarrow> LoggingSystem \<Rightarrow> LoggingSystem" where
  "addLogSink name dl = dl\<lparr>lx_sinks := lx_sinks dl @ [name], lx_sinkMetrics := (lx_sinkMetrics dl)(name \<mapsto> (0, 0))\<rparr>"

definition addLogEnricher :: "LxEnrich \<Rightarrow> LoggingSystem \<Rightarrow> LoggingSystem" where
  "addLogEnricher f dl = dl\<lparr>lx_enrichers := lx_enrichers dl @ [f]\<rparr>"

definition callLog :: "LxLevel \<Rightarrow> string \<Rightarrow> LoggingSystem \<Rightarrow> LoggingSystem" where
  "callLog level message dl = dl\<lparr>lx_calls := lx_calls dl @ [Sampling level message]\<rparr>"

definition setLogCall :: "nat \<Rightarrow> LogCall \<Rightarrow> LoggingSystem \<Rightarrow> LoggingSystem" where
  "setLogCall i c dl = dl\<lparr>lx_calls := (lx_calls dl)[i := c]\<rparr>"

definition logStep :: "nat \<Rightarrow> gotime \<Rightarrow> nat \<Rightarrow> nat \<Rightarrow> LoggingSystem \<Rightarrow> LoggingSystem" where
  "logStep i now r1 r2 dl =
     (if i < length (lx_calls dl)
      then (case lx_calls dl ! i of
              Sampling level message \<Rightarrow>
                if \<not> shouldSample r1 r2 level then setLogCall i Dropping dl
                else setLogCall i (Claiming (fold (\<lambda>f entry. f now entry) (lx_enrichers dl) \<lparr>le_Level = level, le_Timestamp = 0, le_Message = message, le_Service = [], le_Host = []\<rparr>)) dl
            | Claiming entry \<Rightarrow> (let (pos, ring) = ringClaim (lx_ring dl) in setLogCall i (Comparing entry pos) (dl\<lparr>lx_ring := ring\<rparr>))
            | Comparing entry pos \<Rightarrow> setLogCall i (if ringHasRoom pos (lx_ring dl) then Storing entry pos else Dropping) dl
            | Storing entry pos \<Rightarrow> setLogCall i Counting (dl\<lparr>lx_ring := ringStore pos entry (lx_ring dl)\<rparr>)
            | Counting \<Rightarrow> setLogCall i Logged (dl\<lparr>lx_totalLogs := i64 (lx_totalLogs dl + 1)\<rparr>)
            | Dropping \<Rightarrow> setLogCall i Dropped (dl\<lparr>lx_droppedLogs := i64 (lx_droppedLogs dl + 1)\<rparr>)
            | _ \<Rightarrow> dl)
      else dl)"

text \<open>\<open>writeBatch\<close>: every sink gets the batch; \<open>ok\<close> tells for each sink whether the write succeeds.  The goroutines only meet in the metrics, under their mutex.\<close>

definition writeToSink :: "LxEntry list \<Rightarrow> string \<times> bool \<Rightarrow> LoggingSystem \<Rightarrow> LoggingSystem" where
  "writeToSink batch so dl =
     (case so of (name, ok) \<Rightarrow>
        (case lx_sinkMetrics dl name of
           None \<Rightarrow> dl
         | Some (written, failed) \<Rightarrow>
             if ok then dl\<lparr>lx_sinkMetrics := (lx_sinkMetrics dl)(name \<mapsto> (i64 (written + int (length batch)), failed))\<rparr>
             else dl\<lparr>lx_sinkMetrics := (lx_sinkMetrics dl)(name \<mapsto> (written, i64 (failed + int (length batch)))), lx_errorCount := i64 (lx_errorCount dl + 1)\<rparr>))"

definition writeBatch :: "(nat \<Rightarrow> bool) \<Rightarrow> LxEntry list \<Rightarrow> LoggingSystem \<Rightarrow> LoggingSystem" where
  "writeBatch ok batch dl = (fold (writeToSink batch) (zip (lx_sinks dl) (map ok [0..<length (lx_sinks dl)])) dl)\<lparr>lx_written := lx_written dl @ [batch]\<rparr>"

definition bufferStep :: "bool \<Rightarrow> (nat \<Rightarrow> bool) \<Rightarrow> LoggingSystem \<Rightarrow> LoggingSystem" where
  "bufferStep stop ok dl =
     (case lx_bufferLoop dl of
        BPoll draining \<Rightarrow>
          (let draining = (draining \<or> (lx_shutdown dl \<and> stop)); pos = ri_readPos (lx_ring dl)
           in if ringHasNext pos (lx_ring dl) then dl\<lparr>lx_bufferLoop := BAdvance draining pos\<rparr>
              else if draining then dl\<lparr>lx_bufferLoop := BEnd\<rparr> else dl)
      | BAdvance draining pos \<Rightarrow> dl\<lparr>lx_ring := ringAdvance (lx_ring dl), lx_bufferLoop := BSlot draining pos\<rparr>
      | BSlot draining pos \<Rightarrow> (let entry = ringSlot pos (lx_ring dl) in dl\<lparr>lx_read := lx_read dl @ [entry], lx_bufferLoop := BAdd draining entry\<rparr>)
      | BAdd draining entry \<Rightarrow>
          (let (full, lb) = batcherAdd entry (lx_batcher dl)
           in case full of
                None \<Rightarrow> dl\<lparr>lx_batcher := lb, lx_bufferLoop := BPoll draining\<rparr>
              | Some batch \<Rightarrow> dl\<lparr>lx_batcher := lb, lx_taken := lx_taken dl @ [batch], lx_bufferLoop := BWrite draining batch\<rparr>)
      | BWrite draining batch \<Rightarrow> (writeBatch ok batch dl)\<lparr>lx_bufferLoop := BPoll draining\<rparr>
      | BEnd \<Rightarrow> dl)"

datatype BatcherEvent = OnShutdown | OnTicker | OnFlush

text \<open>The \<open>select\<close> of \<open>processBatcher\<close>: the branch for the shut-down is ready once the channel is closed.\<close>

definition batcherStep :: "BatcherEvent \<Rightarrow> (nat \<Rightarrow> bool) \<Rightarrow> LoggingSystem \<Rightarrow> LoggingSystem" where
  "batcherStep ev ok dl =
     (case lx_batcherLoop dl of
        TSelect \<Rightarrow>
          if ev = OnFlush then dl\<lparr>lx_batcher := (lx_batcher dl)\<lparr>ba_flush := False\<rparr>\<rparr>
          else if ev = OnShutdown \<and> \<not> lx_shutdown dl then dl
          else (let (part, lb) = getBatch (lx_batcher dl)
                in case part of
                     None \<Rightarrow> if ev = OnShutdown then dl\<lparr>lx_batcherLoop := TEnd\<rparr> else dl
                   | Some batch \<Rightarrow> dl\<lparr>lx_batcher := lb, lx_taken := lx_taken dl @ [batch], lx_batcherLoop := TWrite (ev = OnShutdown) batch\<rparr>)
      | TWrite ending batch \<Rightarrow> (writeBatch ok batch dl)\<lparr>lx_batcherLoop := (if ending then TEnd else TSelect)\<rparr>
      | TEnd \<Rightarrow> dl)"

datatype LxStep =
    LxSink string | LxEnricher LxEnrich | LxLog LxLevel string | LxLogStep nat gotime nat nat | LxBuffer bool "nat \<Rightarrow> bool" | LxBatcher BatcherEvent "nat \<Rightarrow> bool" | LxShutdown

fun lxStep :: "LoggingSystem \<Rightarrow> LxStep \<Rightarrow> LoggingSystem" where
  "lxStep dl (LxSink name) = addLogSink name dl"
| "lxStep dl (LxEnricher f) = addLogEnricher f dl"
| "lxStep dl (LxLog level message) = callLog level message dl"
| "lxStep dl (LxLogStep i now r1 r2) = logStep i now r1 r2 dl"
| "lxStep dl (LxBuffer stop ok) = bufferStep stop ok dl"
| "lxStep dl (LxBatcher ev ok) = batcherStep ev ok dl"
| "lxStep dl LxShutdown = dl\<lparr>lx_shutdown := True\<rparr>"


section \<open>The ring is a queue while it is never full\<close>

datatype 'a RingOp = RWrite 'a | RRead

fun ringStep :: "'a Ring \<Rightarrow> 'a RingOp \<Rightarrow> 'a Ring" where
  "ringStep rb (RWrite x) = snd (ringWrite x rb)"
| "ringStep rb RRead = snd (ringRead rb)"

fun queueStep :: "'a list \<Rightarrow> 'a RingOp \<Rightarrow> 'a list" where
  "queueStep q (RWrite x) = q @ [x]"
| "queueStep q RRead = tl q"

fun neverFull :: "'a Ring \<Rightarrow> 'a RingOp \<Rightarrow> bool" where
  "neverFull rb (RWrite x) \<longleftrightarrow> ri_writePos rb - ri_readPos rb < ri_size rb \<and> ri_writePos rb < 2 ^ 62"
| "neverFull rb RRead \<longleftrightarrow> True"

text \<open>The content of the ring: the slots from the reading to the writing position.\<close>

definition ringContent :: "'a Ring \<Rightarrow> 'a list" where
  "ringContent rb = map (\<lambda>i. ringSlot (ri_readPos rb + int i) rb) [0..<nat (ri_writePos rb - ri_readPos rb)]"

definition posOk :: "'a Ring \<Rightarrow> bool" where
  "posOk rb \<longleftrightarrow> 0 \<le> ri_readPos rb \<and> ri_readPos rb \<le> ri_writePos rb \<and> ri_writePos rb - ri_readPos rb \<le> ri_size rb \<and> ri_writePos rb \<le> 2 ^ 62
     \<and> 0 < ri_size rb \<and> length (ri_buffer rb) = nat (ri_size rb)"

lemma distinct_slots:
  fixes a b s :: int
  assumes "0 \<le> a" "a < b" "b - a < s" shows "a mod s \<noteq> b mod s"
proof
  assume "a mod s = b mod s"
  then have "(b - a) mod s = (a - a) mod s" by (intro mod_diff_cong) simp_all
  then have "(b - a) mod s = 0" by simp
  moreover have "(b - a) mod s = b - a" using assms by simp
  ultimately show False using assms by simp
qed

lemma ringClaim_pos: "posOk rb \<Longrightarrow> ri_writePos rb < 2 ^ 62 \<Longrightarrow> ringClaim rb = (ri_writePos rb, rb\<lparr>ri_writePos := ri_writePos rb + 1\<rparr>)"
proof -
  assume "posOk rb" "ri_writePos rb < 2 ^ 62"
  then have "i64 (ri_writePos rb + 1) = ri_writePos rb + 1" "i64 (ri_writePos rb) = ri_writePos rb" by (auto simp: posOk_def intro!: i64_id in_i64I)
  then show ?thesis by (simp add: ringClaim_def)
qed

lemma ringWrite_result:
  assumes "posOk rb" "neverFull rb (RWrite x)"
  shows "fst (ringWrite x rb) \<and> posOk (snd (ringWrite x rb)) \<and> ringContent (snd (ringWrite x rb)) = ringContent rb @ [x]"
proof -
  let ?w = "ri_writePos rb" let ?r = "ri_readPos rb" let ?s = "ri_size rb"
  have b: "0 \<le> ?r" "?r \<le> ?w" "?w - ?r < ?s" "?w < 2 ^ 62" "0 < ?s" "length (ri_buffer rb) = nat ?s" using assms by (auto simp: posOk_def)
  have "i64 (?w - ?r) = ?w - ?r" using b by (intro i64_id in_i64I) simp_all
  then have res: "ringWrite x rb = (True, ringStore ?w x (rb\<lparr>ri_writePos := ?w + 1\<rparr>))"
    using b ringClaim_pos [OF assms(1) b(4)] by (simp add: ringWrite_def ringHasRoom_def)
  have slot: "nat ((?r + int i) mod ?s) \<noteq> nat (?w mod ?s)" if "i < nat (?w - ?r)" for i
  proof -
    have "(?r + int i) mod ?s \<noteq> ?w mod ?s" using b that by (intro distinct_slots) auto
    then show ?thesis using b(5) by (simp add: nat_eq_iff2)
  qed
  have n: "nat (?w + 1 - ?r) = Suc (nat (?w - ?r))" using b by simp
  have m: "nat (?w mod ?s) < length (ri_buffer rb)" using b by simp
  have "ringContent (ringStore ?w x (rb\<lparr>ri_writePos := ?w + 1\<rparr>)) = ringContent rb @ [x]"
    using slot b m by (simp add: ringContent_def ringStore_def ringSlot_def n nth_list_update_neq [OF not_sym])
  moreover have "posOk (ringStore ?w x (rb\<lparr>ri_writePos := ?w + 1\<rparr>))" using b by (simp add: posOk_def ringStore_def)
  ultimately show ?thesis by (simp add: res)
qed

lemma ringRead_result:
  assumes "posOk rb"
  shows "posOk (snd (ringRead rb)) \<and> ringContent (snd (ringRead rb)) = tl (ringContent rb)
    \<and> fst (ringRead rb) = (case ringContent rb of [] \<Rightarrow> None | x # xs \<Rightarrow> Some x)"
proof (cases "ri_readPos rb < ri_writePos rb")
  case True
  let ?w = "ri_writePos rb" let ?r = "ri_readPos rb"
  have b: "0 \<le> ?r" "?r < ?w" "?w \<le> 2 ^ 62" using assms True by (auto simp: posOk_def)
  have i: "i64 (?r + 1) = ?r + 1" using b by (intro i64_id in_i64I) simp_all
  have n: "nat (?w - ?r) = Suc (nat (?w - (?r + 1)))" using b by simp
  have content: "ringContent rb = ringSlot ?r rb # map (\<lambda>i. ringSlot (?r + 1 + int i) rb) [0..<nat (?w - (?r + 1))]"
    unfolding ringContent_def n by (subst upt_conv_Cons, simp, subst map_Suc_upt [symmetric]) (simp add: add.assoc)
  have "ringRead rb = (Some (ringSlot ?r rb), rb\<lparr>ri_readPos := ?r + 1\<rparr>)"
    using True i by (simp add: ringRead_def ringHasNext_def ringAdvance_def ringSlot_def Let_def)
  then show ?thesis unfolding content using assms b by (simp add: ringContent_def ringSlot_def posOk_def)
next
  case False
  then show ?thesis using assms by (simp add: ringRead_def ringHasNext_def ringContent_def)
qed


interpretation ring: refined_object ringStep posOk neverFull ringContent "\<lambda>_ e. [e]" queueStep
proof
  fix rb :: "'a Ring" and e
  assume ok: "posOk rb" "neverFull rb e"
  have w: "posOk (snd (ringWrite x rb)) \<and> ringContent (snd (ringWrite x rb)) = ringContent rb @ [x]" if "e = RWrite x" for x
    using ringWrite_result [OF ok(1), of x] ok(2) that by simp
  show "posOk (ringStep rb e)" using w ringRead_result [OF ok(1)] by (cases e) auto
  show "ringContent (ringStep rb e) = run queueStep (ringContent rb) [e]" using w ringRead_result [OF ok(1)] by (cases e) auto
qed

text \<open>C37.  While no write finds the ring full, sequential writes and reads make it a queue: its content is that of the queue after the same operations, every write succeeds, and a
  read returns the oldest element, or reports an empty buffer exactly when the queue is empty.\<close>

theorem ring_is_queue:
  fixes ops :: "'a RingOp list" and zero :: 'a and sz :: nat
  defines "rb \<equiv> run ringStep (newRing zero sz) ops"
  defines "q \<equiv> run queueStep [] ops"
  assumes "0 < sz" and "admissible ringStep neverFull (newRing zero sz) ops"
  shows "ringContent rb = q \<and> fst (ringRead rb) = (case q of [] \<Rightarrow> None | x # xs \<Rightarrow> Some x) \<and> (\<forall>x. neverFull rb (RWrite x) \<longrightarrow> fst (ringWrite x rb))"
proof -
  have new: "posOk (newRing zero sz)" "ringContent (newRing zero sz) = []" using assms(3) by (simp_all add: posOk_def newRing_def ringContent_def)
  have ok: "posOk rb" unfolding rb_def by (rule ring.guarded_run [OF new(1) assms(4)])
  have "ringContent rb = q" using ring.abs_run [OF new(1) assms(4)] by (simp add: rb_def q_def new(2))
  then show ?thesis using ringRead_result [OF ok] ringWrite_result [OF ok] by auto
qed

theorem ring_is_queue_witness:
  "ringContent (run ringStep (newRing 0 2) [RWrite 5, RWrite 6, RRead, RWrite (7 :: int)]) = [6, 7]"
  using ring_is_queue [of 2 "0 :: int" "[RWrite 5, RWrite 6, RRead, RWrite 7]"]
  by (simp add: newRing_def ringWrite_def ringClaim_def ringHasRoom_def ringStore_def ringRead_def ringHasNext_def ringAdvance_def ringSlot_def i64_def)

text \<open>A write that finds the ring full advances the position all the same: the reader later takes the slot for a new entry and gets an old one again.\<close>

lemma overflow_repeats_entry:
  "fst (ringRead (run ringStep (newRing 0 1) [RWrite 5, RWrite 6, RRead])) = Some (5 :: int) \<and> ringContent (run ringStep (newRing 0 1) [RWrite 5, RWrite 6]) = [5, 5 :: int]"
  by (simp add: newRing_def ringWrite_def ringClaim_def ringHasRoom_def ringStore_def ringRead_def ringHasNext_def ringAdvance_def ringSlot_def ringContent_def i64_def numeral_eq_Suc)


section \<open>Accounting\<close>

fun entryInHand :: "BufferLoop \<Rightarrow> LxEntry list" where
  "entryInHand (BAdd draining entry) = [entry]"
| "entryInHand _ = []"

fun bufferBatch :: "BufferLoop \<Rightarrow> LxEntry list list" where
  "bufferBatch (BWrite draining batch) = [batch]"
| "bufferBatch _ = []"

fun batcherBatch :: "BatcherLoop \<Rightarrow> LxEntry list list" where
  "batcherBatch (TWrite ending batch) = [batch]"
| "batcherBatch _ = []"

definition lxInv :: "LoggingSystem \<Rightarrow> bool" where
  "lxInv dl \<longleftrightarrow>
     lx_read dl = concat (lx_taken dl) @ ba_batch (lx_batcher dl) @ entryInHand (lx_bufferLoop dl) \<and>
     ba_batchSize (lx_batcher dl) = 100 \<and> length (ba_batch (lx_batcher dl)) < 100 \<and> (\<forall>b \<in> set (lx_taken dl). b \<noteq> [] \<and> length b \<le> 100) \<and>
     mset (lx_taken dl) = mset (lx_written dl) + mset (bufferBatch (lx_bufferLoop dl)) + mset (batcherBatch (lx_batcherLoop dl)) \<and>
     lx_totalLogs dl = i64 (int (length (filter (\<lambda>c. c = Logged) (lx_calls dl)))) \<and>
     lx_droppedLogs dl = i64 (int (length (filter (\<lambda>c. c = Dropped) (lx_calls dl))))"

lemma writeToSink_same [unchanged]:
  "lx_sinks (writeToSink b so dl) = lx_sinks dl" "lx_ring (writeToSink b so dl) = lx_ring dl" "lx_batcher (writeToSink b so dl) = lx_batcher dl"
  "lx_totalLogs (writeToSink b so dl) = lx_totalLogs dl" "lx_droppedLogs (writeToSink b so dl) = lx_droppedLogs dl" "lx_calls (writeToSink b so dl) = lx_calls dl"
  "lx_bufferLoop (writeToSink b so dl) = lx_bufferLoop dl" "lx_batcherLoop (writeToSink b so dl) = lx_batcherLoop dl" "lx_read (writeToSink b so dl) = lx_read dl"
  "lx_taken (writeToSink b so dl) = lx_taken dl" "lx_written (writeToSink b so dl) = lx_written dl"
  by (auto simp: writeToSink_def split: prod.split option.split)

lemma writeBatch_same [unchanged]:
  "lx_ring (writeBatch ok b dl) = lx_ring dl" "lx_batcher (writeBatch ok b dl) = lx_batcher dl"
  "lx_totalLogs (writeBatch ok b dl) = lx_totalLogs dl" "lx_droppedLogs (writeBatch ok b dl) = lx_droppedLogs dl" "lx_calls (writeBatch ok b dl) = lx_calls dl"
  "lx_bufferLoop (writeBatch ok b dl) = lx_bufferLoop dl" "lx_batcherLoop (writeBatch ok b dl) = lx_batcherLoop dl" "lx_read (writeBatch ok b dl) = lx_read dl"
  "lx_taken (writeBatch ok b dl) = lx_taken dl" "lx_written (writeBatch ok b dl) = lx_written dl @ [b]" "lx_sinks (writeBatch ok b dl) = lx_sinks dl"
proof -
  have f: "g (fold (writeToSink b) sos dl) = g dl" if "\<And>so d. g (writeToSink b so d) = g d" for g :: "LoggingSystem \<Rightarrow> 'x" and sos
    using that by (induction sos arbitrary: dl) simp_all
  show "lx_ring (writeBatch ok b dl) = lx_ring dl" "lx_batcher (writeBatch ok b dl) = lx_batcher dl"
    "lx_totalLogs (writeBatch ok b dl) = lx_totalLogs dl" "lx_droppedLogs (writeBatch ok b dl) = lx_droppedLogs dl" "lx_calls (writeBatch ok b dl) = lx_calls dl"
    "lx_bufferLoop (writeBatch ok b dl) = lx_bufferLoop dl" "lx_batcherLoop (writeBatch ok b dl) = lx_batcherLoop dl" "lx_read (writeBatch ok b dl) = lx_read dl"
    "lx_taken (writeBatch ok b dl) = lx_taken dl" "lx_written (writeBatch ok b dl) = lx_written dl @ [b]" "lx_sinks (writeBatch ok b dl) = lx_sinks dl"
    unfolding writeBatch_def by (simp_all add: f unchanged)
qed

lemma setLogCall_count:
  assumes "i < length cs" "cs ! i \<noteq> x"
  shows "length (filter (\<lambda>c. c = x) (cs[i := c])) = length (filter (\<lambda>c. c = x) cs) + (if c = x then 1 else 0)"
  using length_filter_update [OF assms(1), of "\<lambda>c. c = x" c] assms(2) by simp

lemma lxInv_log: "lxInv dl \<Longrightarrow> lxInv (logStep i now r1 r2 dl)"
proof (cases "i < length (lx_calls dl)")
  case True
  assume "lxInv dl"
  then show ?thesis
    using True setLogCall_count [OF True, of Logged] setLogCall_count [OF True, of Dropped]
    by (cases "lx_calls dl ! i") (auto simp: lxInv_def logStep_def setLogCall_def ringClaim_def Let_def i64_add_wrap2 add.commute)
qed (simp add: logStep_def)

lemma lxInv_buffer: "lxInv dl \<Longrightarrow> lxInv (bufferStep stop ok dl)"
  by (cases "lx_bufferLoop dl") (auto simp: lxInv_def bufferStep_def batcherAdd_def Let_def unchanged split: option.split)

lemma lxInv_batcher: "lxInv dl \<Longrightarrow> lxInv (batcherStep ev ok dl)"
  by (cases "lx_batcherLoop dl") (auto simp: lxInv_def batcherStep_def getBatch_def Let_def unchanged split: option.split)

interpretation logging: locked_object lxStep lxInv
proof
  fix dl e
  assume "lxInv dl"
  then show "lxInv (lxStep dl e)"
    by (cases e) (auto simp: lxInv_log lxInv_buffer lxInv_batcher, auto simp: lxInv_def addLogSink_def addLogEnricher_def callLog_def)
qed



lemma replicate_four: "replicate 4 x = [x, x, x, x]" and replicate_five: "replicate 5 x = [x, x, x, x, x]"
  by (simp_all add: numeral_eq_Suc)

definition demoLog :: "LxStep list" where
  "demoLog = LxLog LevelError ''m'' # replicate 5 (LxLogStep 0 7 0 0) @ [LxShutdown] @ replicate 4 (LxBuffer True (\<lambda>_. True)) @ [LxBuffer True (\<lambda>_. True), LxBatcher OnShutdown (\<lambda>_. True), LxBatcher OnShutdown (\<lambda>_. True)]"

lemmas log_defs = newLogging_def newRing_def newLogBatcher_def callLog_def logStep_def setLogCall_def shouldSample_def lxEnrichWithHostInfo_def lxEnrichWithTimestamp_def ringClaim_def ringHasRoom_def
  ringStore_def ringHasNext_def ringAdvance_def ringSlot_def bufferStep_def batcherStep_def batcherAdd_def getBatch_def writeBatch_def i64_def Let_def



section \<open>What is lost\<close>

text \<open>The batcher ends before the buffer is drained: the entry stays in the batcher.\<close>

lemma shutdown_loses_entries:
  "\<exists>entry. lx_bufferLoop (run lxStep newLogging
       (LxLog LevelError ''m'' # replicate 5 (LxLogStep 0 7 0 0) @ [LxShutdown, LxBatcher OnShutdown (\<lambda>_. True)] @ replicate 5 (LxBuffer True (\<lambda>_. True)))) = BEnd
   \<and> lx_batcherLoop (run lxStep newLogging
       (LxLog LevelError ''m'' # replicate 5 (LxLogStep 0 7 0 0) @ [LxShutdown, LxBatcher OnShutdown (\<lambda>_. True)] @ replicate 5 (LxBuffer True (\<lambda>_. True)))) = TEnd
   \<and> ba_batch (lx_batcher (run lxStep newLogging
       (LxLog LevelError ''m'' # replicate 5 (LxLogStep 0 7 0 0) @ [LxShutdown, LxBatcher OnShutdown (\<lambda>_. True)] @ replicate 5 (LxBuffer True (\<lambda>_. True))))) = [entry]
   \<and> le_Message entry = ''m''"
  by (simp add: log_defs replicate_five)

text \<open>The position is claimed before the entry is stored: a reader in between takes the empty slot.\<close>

lemma reader_overtakes_writer:
  "lx_read (run lxStep newLogging (LxLog LevelError ''m'' # replicate 2 (LxLogStep 0 7 0 0) @ replicate 3 (LxBuffer False (\<lambda>_. True)))) = [zeroEntry]"
  by (simp add: log_defs numeral_2_eq_2 numeral_3_eq_3)

section \<open>Metrics of the sinks\<close>

text \<open>A batch adds its length to the written or to the failed entries of every sink.\<close>

lemma writeToSinks_metrics:
  assumes "distinct names" "length names = length oks"
  shows "lx_sinkMetrics (fold (writeToSink b) (zip names oks) dl) name =
    (case map_of (zip names oks) name of
       None \<Rightarrow> lx_sinkMetrics dl name
     | Some ok \<Rightarrow> map_option (\<lambda>(written, failed). if ok then (i64 (written + int (length b)), failed) else (written, i64 (failed + int (length b)))) (lx_sinkMetrics dl name))"
  using assms
proof (induction names arbitrary: oks dl)
  case (Cons n names)
  then obtain ok oks' where oks: "oks = ok # oks'" by (cases oks) auto
  have none: "map_of (zip names oks') n = None" using Cons.prems by (auto simp: map_of_eq_None_iff dest: set_zip_leftD)
  have IH: "lx_sinkMetrics (fold (writeToSink b) (zip names oks') dl') name =
    (case map_of (zip names oks') name of None \<Rightarrow> lx_sinkMetrics dl' name
     | Some ok \<Rightarrow> map_option (\<lambda>(written, failed). if ok then (i64 (written + int (length b)), failed) else (written, i64 (failed + int (length b)))) (lx_sinkMetrics dl' name))" for dl'
    using Cons oks by simp
  show ?case
  proof (cases "name = n")
    case True
    have "lx_sinkMetrics (writeToSink b (n, ok) dl) n =
      map_option (\<lambda>(written, failed). if ok then (i64 (written + int (length b)), failed) else (written, i64 (failed + int (length b)))) (lx_sinkMetrics dl n)"
      by (auto simp: writeToSink_def split: option.split)
    then show ?thesis using none oks True IH by simp
  next
    case False
    then have "lx_sinkMetrics (writeToSink b (n, ok) dl) name = lx_sinkMetrics dl name" by (auto simp: writeToSink_def split: option.split)
    then show ?thesis using False oks by (simp add: IH split: option.split)
  qed
qed simp

lemma writeBatch_metrics:
  assumes "distinct (lx_sinks dl)" "k < length (lx_sinks dl)" "lx_sinkMetrics dl (lx_sinks dl ! k) = Some (written, failed)"
  shows "lx_sinkMetrics (writeBatch ok b dl) (lx_sinks dl ! k) = Some (if ok k then (i64 (written + int (length b)), failed) else (written, i64 (failed + int (length b))))"
proof -
  have "map_of (zip (lx_sinks dl) (map ok [0..<length (lx_sinks dl)])) (lx_sinks dl ! k) = Some (ok k)"
    using assms(1,2) by (simp add: map_of_zip_nth)
  then show ?thesis using writeToSinks_metrics [OF assms(1), of "map ok [0..<length (lx_sinks dl)]" b dl "lx_sinks dl ! k"] assms(3) by (simp add: writeBatch_def)
qed

end
