(* ===== verification/BattleSystem.thy ===== *)
theory BattleSystem
  imports GoPrelude
begin

text \<open>
  The battles of \<open>src/interactive/battle_system.go\<close>: players with skills and cooldowns, and a battle between two of them with one goroutine for each player, the
  channel of turns and the goroutine that processes them.

  The two players of a battle are different, as in the program, and are named by their side.  Every access of an atomic variable, of the channel and of the skills is a step.  The random numbers of \<open>chooseSkill\<close> and \<open>executeSkill\<close>
  are inputs, restricted to the values that the random generator can return; a critical hit is an input too.  Its factor 1.5 is exact in floating point for the numbers that occur.  Times for the log are left out.

  Shown, for every interleaving: outside the processing of a turn the hit points are between 0 and the maximum; a battle that names a winner has a loser without hit points; the damage dealt by one
  player is the damage received by the other.  A winner is only announced after the time limit of five minutes, because the goroutine of the winner goes on until then.
\<close>

section \<open>Players\<close>

record Skill =
  sk_Name :: string
  sk_Damage :: int
  sk_Cooldown :: duration
  sk_LastUsed :: "gotime option"
  sk_Goroutines :: nat
  sk_Complexity :: int

record Fighter =
  fi_Name :: string
  fi_Level :: int
  fi_Rating :: int
  fi_Wins :: int
  fi_Losses :: int
  fi_CurrentHP :: int
  fi_MaxHP :: int
  fi_Skills :: "Skill list"
  fi_TotalDamageDealt :: int
  fi_TotalDamageReceived :: int
  fi_CriticalHits :: int

definition skill :: "string \<Rightarrow> int \<Rightarrow> int \<Rightarrow> nat \<Rightarrow> int \<Rightarrow> Skill" where
  "skill name damage seconds goroutines complexity =
     \<lparr>sk_Name = name, sk_Damage = damage, sk_Cooldown = seconds * 10 ^ 9, sk_LastUsed = None, sk_Goroutines = goroutines, sk_Complexity = complexity\<rparr>"

definition generateSkills :: "int \<Rightarrow> Skill list" where
  "generateSkills level =
     [skill ''Parallel Strike'' 15 2 5 1, skill ''Channel Burst'' 20 3 3 2]
     @ (if level \<ge> 5 then [skill ''Mutex Shield'' (-10) 5 1 1] else [])
     @ (if level \<ge> 10 then [skill ''Worker Pool Strike'' 35 4 10 3] else [])
     @ (if level \<ge> 15 then [skill ''Pipeline Combo'' 50 6 20 5] else [])"

definition createPlayer :: "string \<Rightarrow> int \<Rightarrow> Fighter" where
  "createPlayer name level =
     (let hp = i32 (100 + level * 20)
      in \<lparr>fi_Name = name, fi_Level = level, fi_Rating = 1000, fi_Wins = 0, fi_Losses = 0, fi_CurrentHP = hp, fi_MaxHP = hp, fi_Skills = generateSkills level,
          fi_TotalDamageDealt = 0, fi_TotalDamageReceived = 0, fi_CriticalHits = 0\<rparr>)"

section \<open>Skills\<close>

text \<open>A skill that was never used has the zero time, which is longer ago than any cooldown.\<close>

definition offCooldown :: "gotime \<Rightarrow> Skill \<Rightarrow> bool" where
  "offCooldown now s = (case sk_LastUsed s of None \<Rightarrow> True | Some t \<Rightarrow> now - t \<ge> sk_Cooldown s)"

fun pickSkill :: "int \<Rightarrow> int \<Rightarrow> Skill list \<Rightarrow> Skill option" where
  "pickSkill randWeight currentWeight [] = None"
| "pickSkill randWeight currentWeight (s # ss) =
     (let currentWeight = currentWeight + sk_Complexity s
      in if randWeight < currentWeight then Some s else if ss = [] then Some s else pickSkill randWeight currentWeight ss)"

definition chooseSkill :: "gotime \<Rightarrow> int \<Rightarrow> Fighter \<Rightarrow> Skill option" where
  "chooseSkill now randWeight player =
     (let availableSkills = filter (offCooldown now) (fi_Skills player)
      in if availableSkills = [] then None
         else if sum_list (map sk_Complexity availableSkills) = 0 then Some (hd availableSkills)
         else pickSkill randWeight 0 availableSkills)"

fun markUsed :: "gotime \<Rightarrow> string \<Rightarrow> Skill list \<Rightarrow> Skill list" where
  "markUsed now name [] = []"
| "markUsed now name (s # ss) = (if sk_Name s = name then s\<lparr>sk_LastUsed := Some now\<rparr> # ss else s # markUsed now name ss)"

text \<open>\<open>variations\<close> are the contributions of the goroutines, each from -2 to 2; the conversion of the product with 1.5 to an integer truncates towards zero.\<close>

definition truncHalf :: "int \<Rightarrow> int" where
  "truncHalf x = (if x \<ge> 0 then x div 2 else - ((- x) div 2))"

definition variationsOk :: "Skill \<Rightarrow> int list \<Rightarrow> bool" where
  "variationsOk s vs \<longleftrightarrow> length vs = sk_Goroutines s \<and> list_all (\<lambda>v. -2 \<le> v \<and> v \<le> 2) vs"

definition executeSkill :: "Skill \<Rightarrow> int list \<Rightarrow> bool \<Rightarrow> int" where
  "executeSkill s variations critical =
     (let totalVariation = foldl (\<lambda>a v. i32 (a + v)) 0 variations; finalDamage = i32 (sk_Damage s + totalVariation)
      in if critical then i32 (truncHalf (3 * finalDamage)) else finalDamage)"

section \<open>Battles\<close>

datatype Side = First | Second

fun other :: "Side \<Rightarrow> Side" where
  "other First = Second"
| "other Second = First"

record Turn =
  tu_Player :: Side
  tu_Skill :: Skill

record BattleEvent =
  bv_Player :: Side
  bv_Action :: string
  bv_Damage :: int
  bv_Goroutines :: nat

text \<open>The program points of \<open>run\<close> with \<open>processTurn\<close>, and of \<open>playerAI\<close>.\<close>

datatype MainLoop = MStart | MSelect | MUse Turn | MApply Turn int | MFix Turn int | MLog Turn int | MCheck | MWait | MDone

datatype AI = ANotStarted | AWait | ACheck | ASend Turn | AReturned

record Battle =
  bt_First :: Fighter
  bt_Second :: Fighter
  bt_Winner :: "Side option"
  bt_Log :: "BattleEvent list"
  bt_turnChan :: "Turn list"
  bt_expired :: bool
  bt_main :: MainLoop
  bt_ai :: "Side \<Rightarrow> AI"

fun fighter :: "Side \<Rightarrow> Battle \<Rightarrow> Fighter" where
  "fighter First b = bt_First b"
| "fighter Second b = bt_Second b"

fun setFighter :: "Side \<Rightarrow> Fighter \<Rightarrow> Battle \<Rightarrow> Battle" where
  "setFighter First f b = b\<lparr>bt_First := f\<rparr>"
| "setFighter Second f b = b\<lparr>bt_Second := f\<rparr>"

definition startBattle :: "Fighter \<Rightarrow> Fighter \<Rightarrow> Battle" where
  "startBattle player1 player2 =
     \<lparr>bt_First = player1, bt_Second = player2, bt_Winner = None, bt_Log = [], bt_turnChan = [], bt_expired = False, bt_main = MStart, bt_ai = (\<lambda>_. ANotStarted)\<rparr>"

definition resetHP :: "Fighter \<Rightarrow> Fighter" where
  "resetHP f = f\<lparr>fi_CurrentHP := fi_MaxHP f\<rparr>"

text \<open>Damage to the opponent: the subtraction; damage below zero heals the player; a damage of zero does nothing.\<close>

definition applyDamage :: "Turn \<Rightarrow> int \<Rightarrow> Battle \<Rightarrow> Battle" where
  "applyDamage turn damage b =
     (let s = tu_Player turn; p = fighter s b; t = fighter (other s) b
      in if damage > 0 then setFighter (other s) (t\<lparr>fi_CurrentHP := i32 (fi_CurrentHP t - damage)\<rparr>) (b\<lparr>bt_main := MFix turn damage\<rparr>)
         else if damage < 0
         then (let newHP = i32 (fi_CurrentHP p + i32 (- damage)) in setFighter s (p\<lparr>fi_CurrentHP := (if newHP > fi_MaxHP p then fi_MaxHP p else newHP)\<rparr>) (b\<lparr>bt_main := MLog turn damage\<rparr>))
         else b\<lparr>bt_main := MLog turn damage\<rparr>)"

text \<open>Hit points below zero become zero; then the statistics of both players.\<close>

definition fixHP :: "Turn \<Rightarrow> int \<Rightarrow> Battle \<Rightarrow> Battle" where
  "fixHP turn damage b =
     (let s = tu_Player turn; p = fighter s b; t = fighter (other s) b; hp = (if fi_CurrentHP t < 0 then 0 else fi_CurrentHP t)
      in setFighter s (p\<lparr>fi_TotalDamageDealt := i64 (fi_TotalDamageDealt p + damage)\<rparr>)
           (setFighter (other s) (t\<lparr>fi_CurrentHP := hp, fi_TotalDamageReceived := i64 (fi_TotalDamageReceived t + damage)\<rparr>) (b\<lparr>bt_main := MLog turn damage\<rparr>)))"

definition logTurn :: "Turn \<Rightarrow> int \<Rightarrow> Battle \<Rightarrow> Battle" where
  "logTurn turn damage b =
     b\<lparr>bt_Log := bt_Log b @ [\<lparr>bv_Player = tu_Player turn, bv_Action = sk_Name (tu_Skill turn), bv_Damage = damage, bv_Goroutines = sk_Goroutines (tu_Skill turn)\<rparr>], bt_main := MCheck\<rparr>"

text \<open>The cooldown starts and the damage is computed; critical hits are always counted for the first player.\<close>

definition useSkill :: "gotime \<Rightarrow> int list \<Rightarrow> bool \<Rightarrow> Turn \<Rightarrow> Battle \<Rightarrow> Battle" where
  "useSkill now variations critical turn b =
     (let s = tu_Player turn; p = fighter s b;
          b' = setFighter s (p\<lparr>fi_Skills := markUsed now (sk_Name (tu_Skill turn)) (fi_Skills p)\<rparr>) (b\<lparr>bt_main := MApply turn (executeSkill (tu_Skill turn) variations critical)\<rparr>)
      in if critical then b'\<lparr>bt_First := (bt_First b')\<lparr>fi_CriticalHits := i32 (fi_CriticalHits (bt_First b') + 1)\<rparr>\<rparr> else b')"

definition checkWinner :: "Battle \<Rightarrow> Battle" where
  "checkWinner b =
     (if fi_CurrentHP (bt_First b) \<le> 0 then b\<lparr>bt_Winner := Some Second, bt_main := MWait\<rparr>
      else if fi_CurrentHP (bt_Second b) \<le> 0 then b\<lparr>bt_Winner := Some First, bt_main := MWait\<rparr>
      else b\<lparr>bt_main := MSelect\<rparr>)"

datatype MainChoice = OnContext | OnTurn

definition mainStep :: "MainChoice \<Rightarrow> gotime \<Rightarrow> int list \<Rightarrow> bool \<Rightarrow> Battle \<Rightarrow> Battle" where
  "mainStep choice now variations critical b =
     (case bt_main b of
        MStart \<Rightarrow> b\<lparr>bt_First := resetHP (bt_First b), bt_Second := resetHP (bt_Second b), bt_ai := (\<lambda>_. AWait), bt_main := MSelect\<rparr>
      | MSelect \<Rightarrow>
          (case choice of
             OnContext \<Rightarrow> if bt_expired b then b\<lparr>bt_main := MWait\<rparr> else b
           | OnTurn \<Rightarrow> (case bt_turnChan b of [] \<Rightarrow> b | turn # rest \<Rightarrow> b\<lparr>bt_turnChan := rest, bt_main := MUse turn\<rparr>))
      | MUse turn \<Rightarrow> if variationsOk (tu_Skill turn) variations then useSkill now variations critical turn b else b
      | MApply turn damage \<Rightarrow> applyDamage turn damage b
      | MFix turn damage \<Rightarrow> fixHP turn damage b
      | MLog turn damage \<Rightarrow> logTurn turn damage b
      | MCheck \<Rightarrow> checkWinner b
      | MWait \<Rightarrow> if bt_ai b First = AReturned \<and> bt_ai b Second = AReturned then b\<lparr>bt_main := MDone\<rparr> else b
      | MDone \<Rightarrow> b)"

datatype AIChoice = AOnContext | AOnTicker

text \<open>The goroutine of a player; \<open>sent\<close> tells whether the send or the timer of the inner \<open>select\<close> is taken.\<close>

definition aiStep :: "Side \<Rightarrow> AIChoice \<Rightarrow> gotime \<Rightarrow> int \<Rightarrow> bool \<Rightarrow> Battle \<Rightarrow> Battle" where
  "aiStep s choice now randWeight sent b =
     (let setAI = (\<lambda>a b. b\<lparr>bt_ai := (bt_ai b)(s := a)\<rparr>)
      in case bt_ai b s of
           AWait \<Rightarrow> if choice = AOnContext then (if bt_expired b then setAI AReturned b else b)
                    else if fi_CurrentHP (fighter s b) \<le> 0 then setAI AReturned b else setAI ACheck b
         | ACheck \<Rightarrow> (case chooseSkill now randWeight (fighter s b) of None \<Rightarrow> setAI AWait b | Some sk \<Rightarrow> setAI (ASend \<lparr>tu_Player = s, tu_Skill = sk\<rparr>) b)
         | ASend turn \<Rightarrow> if sent then (if length (bt_turnChan b) < 10 then setAI AWait (b\<lparr>bt_turnChan := bt_turnChan b @ [turn]\<rparr>) else b) else setAI AWait b
         | _ \<Rightarrow> b)"

datatype BattleStep = BMain MainChoice gotime "int list" bool | BAI Side AIChoice gotime int bool | BExpire

fun battleStep :: "Battle \<Rightarrow> BattleStep \<Rightarrow> Battle" where
  "battleStep b (BMain choice now vs critical) = mainStep choice now vs critical b"
| "battleStep b (BAI s choice now r sent) = aiStep s choice now r sent b"
| "battleStep b BExpire = b\<lparr>bt_expired := True\<rparr>"

section \<open>Results\<close>

record BattleResult =
  rs_Winner :: "Side option"
  rs_Loser :: Side
  rs_TotalDamage :: int
  rs_SkillsUsed :: nat
  rs_MaxGoroutines :: nat

definition calculateResult :: "Battle \<Rightarrow> BattleResult" where
  "calculateResult b =
     \<lparr>rs_Winner = bt_Winner b, rs_Loser = (if bt_Winner b = Some First then Second else First),
      rs_TotalDamage = foldl (\<lambda>a e. i32 (a + bv_Damage e)) 0 (bt_Log b), rs_SkillsUsed = length (bt_Log b),
      rs_MaxGoroutines = foldl (\<lambda>a e. if bv_Goroutines e > a then bv_Goroutines e else a) 0 (bt_Log b)\<rparr>"

text \<open>The update of wins and ratings after a battle with a winner.\<close>

definition updateRatings :: "BattleResult \<Rightarrow> Battle \<Rightarrow> Battle" where
  "updateRatings r b =
     (case rs_Winner r of
        None \<Rightarrow> b
      | Some w \<Rightarrow>
          (let l = rs_Loser r; fw = fighter w b; fl = fighter l b; loserNewRating = fi_Rating fl - 25
           in setFighter l (fl\<lparr>fi_Losses := i32 (fi_Losses fl + 1), fi_Rating := (if loserNewRating < 0 then 0 else loserNewRating)\<rparr>)
                (setFighter w (fw\<lparr>fi_Wins := i32 (fi_Wins fw + 1), fi_Rating := fi_Rating fw + 25\<rparr>) b)))"


section \<open>Damage\<close>

definition skillOk :: "Skill \<Rightarrow> bool" where
  "skillOk s \<longleftrightarrow> (sk_Damage s, sk_Goroutines s) \<in> {(15, 5), (20, 3), (-10, 1), (35, 10), (50, 20)}"

lemma generateSkills_ok: "s \<in> set (generateSkills level) \<Longrightarrow> skillOk s"
  by (auto simp: generateSkills_def skill_def skillOk_def)

lemma skillOk_used: "skillOk (s\<lparr>sk_LastUsed := t\<rparr>) = skillOk s"
  by (simp add: skillOk_def)

lemma markUsed_ok: "\<forall>s \<in> set ss. skillOk s \<Longrightarrow> s \<in> set (markUsed now name ss) \<Longrightarrow> skillOk s"
  by (induction ss) (auto simp: skillOk_used split: if_splits)

lemma pickSkill_mem: "pickSkill r w ss = Some s \<Longrightarrow> s \<in> set ss"
  by (induction r w ss rule: pickSkill.induct) (auto simp: Let_def split: if_splits)

lemma chooseSkill_mem: "chooseSkill now r f = Some s \<Longrightarrow> s \<in> set (fi_Skills f) \<and> offCooldown now s"
  using pickSkill_mem [of r 0 "filter (offCooldown now) (fi_Skills f)" s] hd_in_set [of "filter (offCooldown now) (fi_Skills f)"]
  by (auto simp: chooseSkill_def Let_def split: if_splits)

lemma variation_sum:
  assumes "list_all (\<lambda>v. -2 \<le> v \<and> v \<le> 2) vs" "abs a + 2 * int (length vs) < 2 ^ 31"
  shows "foldl (\<lambda>a v. i32 (a + v)) a vs = a + sum_list vs \<and> abs (sum_list vs) \<le> 2 * int (length vs)"
  using assms
proof (induction vs arbitrary: a)
  case (Cons v vs)
  have v: "-2 \<le> v" "v \<le> 2" "list_all (\<lambda>v. -2 \<le> v \<and> v \<le> 2) vs" using Cons.prems by simp_all
  then have "i32 (a + v) = a + v" using Cons.prems(2) by (intro i32_id) (simp add: in_i32_def abs_le_iff abs_if split: if_splits)
  moreover have "abs (a + v) + 2 * int (length vs) < 2 ^ 31" using Cons.prems(2) v by (simp add: abs_if split: if_splits)
  ultimately show ?case using Cons.IH [of "a + v"] v by (simp add: abs_if split: if_splits)
qed simp

text \<open>The damage differs from that of the skill by at most two for every goroutine.\<close>

lemma executeSkill_bounds:
  assumes "skillOk s" "variationsOk s vs"
  shows "abs (executeSkill s vs False - sk_Damage s) \<le> 2 * int (sk_Goroutines s)" "-18 \<le> executeSkill s vs c" "executeSkill s vs c \<le> 135"
proof -
  have sum: "foldl (\<lambda>a v. i32 (a + v)) 0 vs = sum_list vs" "abs (sum_list vs) \<le> 2 * int (sk_Goroutines s)"
    using variation_sum [of vs 0] assms by (auto simp: variationsOk_def skillOk_def)
  define d where "d = sk_Damage s + sum_list vs"
  have d: "abs (d - sk_Damage s) \<le> 2 * int (sk_Goroutines s)" using sum by (simp add: d_def)
  have b: "-12 \<le> d" "d \<le> 90" using d assms(1) by (auto simp: skillOk_def abs_le_iff)
  have "i32 d = d" using b by (intro i32_id) (simp add: in_i32_def)
  moreover have t: "-18 \<le> truncHalf (3 * d)" "truncHalf (3 * d) \<le> 135" using b unfolding truncHalf_def by presburger+
  then have "i32 (truncHalf (3 * d)) = truncHalf (3 * d)" by (intro i32_id) (simp add: in_i32_def)
  ultimately have "executeSkill s vs c = (if c then truncHalf (3 * d) else d)" for c by (simp add: executeSkill_def sum(1) d_def [symmetric])
  then show "abs (executeSkill s vs False - sk_Damage s) \<le> 2 * int (sk_Goroutines s)" "-18 \<le> executeSkill s vs c" "executeSkill s vs c \<le> 135"
    using d b t by auto
qed


section \<open>The course of a battle\<close>

definition alive :: "Fighter \<Rightarrow> bool" where
  "alive f \<longleftrightarrow> 0 < fi_CurrentHP f \<and> fi_CurrentHP f \<le> fi_MaxHP f"

definition hpOk :: "Fighter \<Rightarrow> bool" where
  "hpOk f \<longleftrightarrow> 0 \<le> fi_CurrentHP f \<and> fi_CurrentHP f \<le> fi_MaxHP f"

definition fighterOk :: "Fighter \<Rightarrow> bool" where
  "fighterOk f \<longleftrightarrow> 0 < fi_MaxHP f \<and> fi_MaxHP f < 2 ^ 30 \<and> (\<forall>s \<in> set (fi_Skills f). skillOk s)"

fun phaseOk :: "MainLoop \<Rightarrow> Battle \<Rightarrow> bool" where
  "phaseOk MStart b \<longleftrightarrow> bt_ai b = (\<lambda>_. ANotStarted) \<and> bt_turnChan b = [] \<and> bt_Winner b = None"
| "phaseOk MSelect b \<longleftrightarrow> (\<forall>s. alive (fighter s b)) \<and> bt_Winner b = None"
| "phaseOk (MUse t) b \<longleftrightarrow> (\<forall>s. alive (fighter s b)) \<and> skillOk (tu_Skill t) \<and> bt_Winner b = None"
| "phaseOk (MApply t d) b \<longleftrightarrow> (\<forall>s. alive (fighter s b)) \<and> -18 \<le> d \<and> d \<le> 135 \<and> bt_Winner b = None"
| "phaseOk (MFix t d) b \<longleftrightarrow> alive (fighter (tu_Player t) b) \<and> 0 < d \<and> -135 \<le> fi_CurrentHP (fighter (other (tu_Player t)) b)
     \<and> fi_CurrentHP (fighter (other (tu_Player t)) b) \<le> fi_MaxHP (fighter (other (tu_Player t)) b) \<and> bt_Winner b = None"
| "phaseOk (MLog t d) b \<longleftrightarrow> alive (fighter (tu_Player t) b) \<and> hpOk (fighter (other (tu_Player t)) b) \<and> bt_Winner b = None"
| "phaseOk MCheck b \<longleftrightarrow> (\<exists>s. alive (fighter s b) \<and> hpOk (fighter (other s) b)) \<and> bt_Winner b = None"
| "phaseOk m b \<longleftrightarrow> (case bt_Winner b of None \<Rightarrow> bt_expired b \<and> (\<forall>s. alive (fighter s b)) | Some s \<Rightarrow> alive (fighter s b) \<and> fi_CurrentHP (fighter (other s) b) = 0)
     \<and> (m = MDone \<longrightarrow> (\<forall>s. bt_ai b s = AReturned))"

definition turnsOk :: "Battle \<Rightarrow> bool" where
  "turnsOk b \<longleftrightarrow> length (bt_turnChan b) \<le> 10 \<and> (\<forall>t \<in> set (bt_turnChan b). skillOk (tu_Skill t)) \<and> (\<forall>s t. bt_ai b s = ASend t \<longrightarrow> skillOk (tu_Skill t))"

definition battleInv :: "Battle \<Rightarrow> bool" where
  "battleInv b \<longleftrightarrow> (\<forall>s. fighterOk (fighter s b)) \<and> phaseOk (bt_main b) b \<and> turnsOk b
     \<and> (\<forall>s. bt_ai b s = AReturned \<longrightarrow> bt_expired b \<or> fi_CurrentHP (fighter s b) \<le> 0)
     \<and> (\<forall>s. fi_TotalDamageDealt (fighter s b) = fi_TotalDamageReceived (fighter (other s) b))"

lemma all_sides: "(\<forall>s. P s) \<longleftrightarrow> P First \<and> P Second"
  by (metis Side.exhaust)

lemma ex_sides: "(\<exists>s. P s) \<longleftrightarrow> P First \<or> P Second"
  by (metis Side.exhaust)

lemma fighter_upd [simp]:
  "fighter s (b\<lparr>bt_ai := x1\<rparr>) = fighter s b" "fighter s (b\<lparr>bt_turnChan := x2\<rparr>) = fighter s b" "fighter s (b\<lparr>bt_main := x3\<rparr>) = fighter s b"
  "fighter s (b\<lparr>bt_expired := x4\<rparr>) = fighter s b" "fighter s (b\<lparr>bt_Winner := x5\<rparr>) = fighter s b" "fighter s (b\<lparr>bt_Log := x6\<rparr>) = fighter s b"
  by (cases s; simp)+

lemma setFighter_upd [simp]:
  "fighter s (setFighter s' f b) = (if s = s' then f else fighter s b)"
  "bt_ai (setFighter s' f b) = bt_ai b" "bt_turnChan (setFighter s' f b) = bt_turnChan b" "bt_main (setFighter s' f b) = bt_main b"
  "bt_expired (setFighter s' f b) = bt_expired b" "bt_Winner (setFighter s' f b) = bt_Winner b"
  by (cases s; cases s'; simp)+

lemma other_simps [simp]: "other s \<noteq> s" "s \<noteq> other s" "other (other s) = s" "s \<noteq> s' \<longleftrightarrow> s' = other s" "other s = other s' \<longleftrightarrow> s = s'"
  by (cases s; cases s'; simp)+

lemma battleInv_ai: "battleInv b \<Longrightarrow> battleInv (aiStep s choice now r sent b)"
proof -
  assume inv: "battleInv b"
  have ok: "skillOk sk" if "chooseSkill now r (fighter s b) = Some sk" for sk
    using chooseSkill_mem [OF that] inv by (auto simp: battleInv_def fighterOk_def)
  have phase: "phaseOk (bt_main b) (b\<lparr>bt_ai := (bt_ai b)(s := a)\<rparr>) \<and> phaseOk (bt_main b) (b\<lparr>bt_turnChan := ts, bt_ai := (bt_ai b)(s := a)\<rparr>)"
    if "bt_ai b s \<noteq> ANotStarted" "bt_ai b s \<noteq> AReturned" for a ts
    using inv that by (cases "bt_main b") (auto simp: battleInv_def split: option.splits)
  show ?thesis
    using inv ok phase by (cases "bt_ai b s") (auto simp: battleInv_def aiStep_def turnsOk_def Let_def split: option.splits)
qed


lemma returned_expired: "battleInv b \<Longrightarrow> alive (fighter s b) \<Longrightarrow> bt_ai b s = AReturned \<Longrightarrow> bt_expired b"
  unfolding battleInv_def alive_def by (metis leD)

lemma battleInv_use:
  assumes inv: "battleInv b" and m: "bt_main b = MUse turn" and vs: "variationsOk (tu_Skill turn) vs"
  shows "battleInv (useSkill now vs c turn b)"
proof -
  have ok: "\<forall>s. alive (fighter s b)" "skillOk (tu_Skill turn)" using inv m by (simp_all add: battleInv_def)
  have ai: "bt_ai b s = AReturned \<Longrightarrow> bt_expired b" for s using returned_expired [OF inv] ok(1) by blast
  define b' where "b' = setFighter (tu_Player turn) ((fighter (tu_Player turn) b)\<lparr>fi_Skills := markUsed now (sk_Name (tu_Skill turn)) (fi_Skills (fighter (tu_Player turn) b))\<rparr>)
      (b\<lparr>bt_main := MApply turn (executeSkill (tu_Skill turn) vs c)\<rparr>)"
  have same: "fi_CurrentHP (fighter s b') = fi_CurrentHP (fighter s b)" "fi_MaxHP (fighter s b') = fi_MaxHP (fighter s b)"
    "fi_TotalDamageDealt (fighter s b') = fi_TotalDamageDealt (fighter s b)" "fi_TotalDamageReceived (fighter s b') = fi_TotalDamageReceived (fighter s b)"
    "\<forall>sk \<in> set (fi_Skills (fighter s b')). skillOk sk" for s
    using inv markUsed_ok [of "fi_Skills (fighter (tu_Player turn) b)" _ now "sk_Name (tu_Skill turn)"] by (auto simp: b'_def battleInv_def fighterOk_def)
  have flds: "bt_ai b' = bt_ai b" "bt_turnChan b' = bt_turnChan b" "bt_expired b' = bt_expired b" "bt_Winner b' = None" "bt_main b' = MApply turn (executeSkill (tu_Skill turn) vs c)"
    using inv m by (simp_all add: b'_def battleInv_def)
  have "battleInv b'"
    using inv ok same flds executeSkill_bounds(2,3) [OF ok(2) vs] ai by (simp add: battleInv_def fighterOk_def alive_def turnsOk_def)
  moreover have "battleInv (b'\<lparr>bt_First := (bt_First b')\<lparr>fi_CriticalHits := k\<rparr>\<rparr>)" if "battleInv b'" for k
    using that flds ai by (simp add: battleInv_def all_sides fighterOk_def turnsOk_def alive_def)
  moreover have "useSkill now vs c turn b = (if c then b'\<lparr>bt_First := (bt_First b')\<lparr>fi_CriticalHits := i32 (fi_CriticalHits (bt_First b') + 1)\<rparr>\<rparr> else b')"
    by (simp add: useSkill_def Let_def b'_def)
  ultimately show ?thesis by presburger
qed

lemma battleInv_apply:
  assumes inv: "battleInv b" and m: "bt_main b = MApply turn d"
  shows "battleInv (applyDamage turn d b)"
proof -
  let ?p = "fighter (tu_Player turn) b" let ?t = "fighter (other (tu_Player turn)) b"
  have ok: "\<forall>s. alive (fighter s b)" "-18 \<le> d" "d \<le> 135" and f: "\<forall>s. fighterOk (fighter s b)" using inv m by (simp_all add: battleInv_def)
  have ai: "bt_ai b s = AReturned \<Longrightarrow> bt_expired b" for s using returned_expired [OF inv] ok(1) by blast
  have hp: "0 < fi_CurrentHP ?p" "fi_CurrentHP ?p \<le> fi_MaxHP ?p" "fi_MaxHP ?p < 2 ^ 30" "0 < fi_CurrentHP ?t" "fi_CurrentHP ?t \<le> fi_MaxHP ?t" "fi_MaxHP ?t < 2 ^ 30"
    using ok(1) f by (auto simp: alive_def fighterOk_def)
  have "i32 (fi_CurrentHP ?t - d) = fi_CurrentHP ?t - d" "i32 (- d) = - d" "d < 0 \<Longrightarrow> i32 (fi_CurrentHP ?p - d) = fi_CurrentHP ?p - d"
    using hp ok by (auto intro!: i32_id simp: in_i32_def)
  then show ?thesis
    using inv m hp ok(2,3) ai [of First] ai [of Second]
    by (cases "tu_Player turn") (auto simp: battleInv_def all_sides applyDamage_def Let_def fighterOk_def turnsOk_def alive_def hpOk_def)
qed

lemma battleInv_fix:
  assumes inv: "battleInv b" and m: "bt_main b = MFix turn d"
  shows "battleInv (fixHP turn d b)"
proof -
  let ?s = "tu_Player turn"
  have eq: "fi_TotalDamageDealt (fighter s b) = fi_TotalDamageReceived (fighter (other s) b)" for s using inv by (simp add: battleInv_def)
  have "\<forall>s. fi_TotalDamageDealt (fighter s (fixHP turn d b)) = fi_TotalDamageReceived (fighter (other s) (fixHP turn d b))"
    using eq [of ?s] eq [of "other ?s"] by (auto simp: fixHP_def Let_def)
  moreover have "bt_ai b s = AReturned \<Longrightarrow> bt_expired b \<or> fi_CurrentHP (fighter s (fixHP turn d b)) \<le> 0" for s
    using inv by (auto simp: battleInv_def fixHP_def Let_def)
  moreover have "0 \<le> fi_MaxHP (fighter s b)" for s using inv by (simp add: battleInv_def fighterOk_def less_imp_le)
  ultimately show ?thesis
    using inv m by (auto simp: battleInv_def fixHP_def Let_def fighterOk_def turnsOk_def alive_def hpOk_def)
qed


lemma battleInv_check:
  assumes inv: "battleInv b" and m: "bt_main b = MCheck"
  shows "battleInv (checkWinner b)"
proof -
  obtain s where s: "alive (fighter s b)" "hpOk (fighter (other s) b)" using inv m by (auto simp: battleInv_def)
  then show ?thesis using inv m
    by (cases s) (auto simp: battleInv_def checkWinner_def alive_def hpOk_def all_sides turnsOk_def fighterOk_def)
qed

lemma battleInv_main: "battleInv b \<Longrightarrow> battleInv (mainStep choice now vs c b)"
proof -
  assume inv: "battleInv b"
  show ?thesis
  proof (cases "bt_main b")
    case MStart
    then show ?thesis using inv
      by (auto simp: battleInv_def mainStep_def all_sides resetHP_def fighterOk_def alive_def turnsOk_def)
  next
    case MSelect
    then show ?thesis using inv
      by (auto simp: battleInv_def mainStep_def turnsOk_def split: MainChoice.split list.split)
  next
    case (MUse turn)
    then show ?thesis using inv battleInv_use [OF inv] by (simp add: mainStep_def)
  next
    case (MLog turn d)
    then show ?thesis using inv by (auto simp: battleInv_def mainStep_def logTurn_def turnsOk_def)
  next
    case MWait
    then show ?thesis using inv by (auto simp: battleInv_def mainStep_def turnsOk_def all_sides split: option.splits)
  qed (use inv battleInv_apply [OF inv] battleInv_fix [OF inv] battleInv_check [OF inv] in \<open>simp_all add: mainStep_def\<close>)
qed

lemma battleInv_expire: "battleInv b \<Longrightarrow> battleInv (b\<lparr>bt_expired := True\<rparr>)"
  by (cases "bt_main b") (auto simp: battleInv_def turnsOk_def split: option.splits)

interpretation battle: locked_object battleStep battleInv
proof
  fix b e
  assume "battleInv b"
  then show "battleInv (battleStep b e)" by (cases e) (simp_all add: battleInv_main battleInv_ai battleInv_expire)
qed

lemma createPlayer_ok: "-4 \<le> level \<Longrightarrow> level \<le> 10 ^ 6 \<Longrightarrow> fighterOk (createPlayer name level)"
  using generateSkills_ok i32_id [of "100 + level * 20"] by (auto simp: fighterOk_def createPlayer_def Let_def in_i32_def)


lemma alive_hp: "alive f \<Longrightarrow> hpOk f"
  by (simp add: alive_def hpOk_def)

lemma dead_hp: "fighterOk f \<Longrightarrow> fi_CurrentHP f = 0 \<Longrightarrow> hpOk f"
  by (simp add: fighterOk_def hpOk_def)

text \<open>C39.  In every interleaving of a battle between two players of ordinary levels: whenever no turn is under way the hit points are between 0 and the maximum; a named winner has hit points left and
  the loser none; one player has dealt what the other has received; and a battle is over only after its time limit, also when a winner is known before.\<close>

theorem battle_outcome:
  fixes es :: "BattleStep list" and n1 n2 :: string and l1 l2 :: int
  defines "b \<equiv> run battleStep (startBattle (createPlayer n1 l1) (createPlayer n2 l2)) es"
  assumes "-4 \<le> l1" "l1 \<le> 10 ^ 6" "-4 \<le> l2" "l2 \<le> 10 ^ 6"
  shows "(bt_main b \<in> {MSelect, MCheck, MWait, MDone} \<longrightarrow> hpOk (fighter s b))
    \<and> (bt_Winner b = Some s \<longrightarrow> 0 < fi_CurrentHP (fighter s b) \<and> fi_CurrentHP (fighter (other s) b) = 0)
    \<and> (bt_main b = MDone \<longrightarrow> bt_expired b)
    \<and> fi_TotalDamageDealt (fighter s b) = fi_TotalDamageReceived (fighter (other s) b) \<and> length (bt_turnChan b) \<le> 10"
proof -
  have "battleInv (startBattle (createPlayer n1 l1) (createPlayer n2 l2))"
    using createPlayer_ok [of l1 n1] createPlayer_ok [of l2 n2] assms(2-5)
    by (simp add: battleInv_def startBattle_def all_sides turnsOk_def createPlayer_def Let_def)
  then have inv: "battleInv b" unfolding b_def by (rule battle.inv_run)
  then have ph: "phaseOk (bt_main b) b" and ok: "\<And>s. fighterOk (fighter s b)" by (simp_all add: battleInv_def)
  have over: "alive (fighter w b) \<and> fi_CurrentHP (fighter (other w) b) = 0" if "bt_Winner b = Some w" for w
    using ph that by (cases "bt_main b") simp_all
  have "hpOk (fighter s b)" if "bt_main b \<in> {MSelect, MCheck, MWait, MDone}"
  proof -
    have "(\<forall>s. alive (fighter s b)) \<or> (\<exists>w. alive (fighter w b) \<and> hpOk (fighter (other w) b))"
    proof (cases "bt_Winner b")
      case None
      then show ?thesis using ph that by auto
    next
      case (Some w)
      then show ?thesis using over [OF Some] dead_hp [OF ok] by blast
    qed
    then show ?thesis using alive_hp by (metis other_simps(4))
  qed
  moreover have "0 < fi_CurrentHP (fighter s b) \<and> fi_CurrentHP (fighter (other s) b) = 0" if "bt_Winner b = Some s"
    using over [OF that] by (simp add: alive_def)
  moreover have "bt_expired b" if m: "bt_main b = MDone"
  proof (cases "bt_Winner b")
    case None
    then show ?thesis using ph m by simp
  next
    case (Some w)
    then show ?thesis using over [OF Some] ph m returned_expired [OF inv, of w] by simp
  qed
  ultimately show ?thesis using inv by (auto simp: battleInv_def turnsOk_def)
qed


text \<open>A battle that is decided by its first turn: the loser's goroutine ends by itself, the winner's at the time limit.\<close>

definition decidedBattle :: "BattleStep list" where
  "decidedBattle = [BMain OnTurn 0 [] False, BAI First AOnTicker 5 0 True, BAI First AOnTicker 5 0 True, BAI First AOnTicker 5 0 True, BMain OnTurn 6 [] False,
     BMain OnTurn 6 [2, 2, 2, 2, 2] False, BMain OnTurn 7 [] False, BMain OnTurn 7 [] False, BMain OnTurn 7 [] False, BMain OnTurn 7 [] False,
     BAI Second AOnTicker 8 0 True, BAI First AOnContext 9 0 True, BMain OnTurn 9 [] False, BExpire, BAI First AOnContext 9 0 True, BMain OnTurn 9 [] False]"

lemmas battle_defs = startBattle_def createPlayer_def generateSkills_def skill_def mainStep_def aiStep_def resetHP_def chooseSkill_def offCooldown_def useSkill_def variationsOk_def executeSkill_def
  applyDamage_def fixHP_def logTurn_def checkWinner_def i32_def i64_def Let_def

lemma decidedBattle_result:
  "bt_Winner (run battleStep (startBattle (createPlayer ''a'' 0) (createPlayer ''b'' (-4))) decidedBattle) = Some First
   \<and> bt_main (run battleStep (startBattle (createPlayer ''a'' 0) (createPlayer ''b'' (-4))) decidedBattle) = MDone"
  by (simp add: decidedBattle_def battle_defs)

theorem battle_outcome_witness:
  "bt_expired (run battleStep (startBattle (createPlayer ''a'' 0) (createPlayer ''b'' (-4))) decidedBattle)
   \<and> fi_CurrentHP (fighter Second (run battleStep (startBattle (createPlayer ''a'' 0) (createPlayer ''b'' (-4))) decidedBattle)) = 0"
  using battle_outcome [of 0 "-4" "''a''" "''b''" decidedBattle First] decidedBattle_result by simp

text \<open>Critical hits of the second player are counted for the first.\<close>

lemma critical_hits_of_first:
  "fi_CriticalHits (bt_Second (useSkill now vs True turn b)) = fi_CriticalHits (bt_Second b)"
  by (cases "tu_Player turn") (simp_all add: useSkill_def Let_def)

text \<open>Without a winner the first player is reported as the loser.\<close>

lemma draw_has_loser: "bt_Winner b = None \<Longrightarrow> rs_Loser (calculateResult b) = First"
  by (simp add: calculateResult_def)

text \<open>Ratings stay non-negative, and their sum never falls; it rises exactly when the loser has less than 25.\<close>

lemma ratings_sum:
  assumes "bt_Winner b = Some w" "0 \<le> fi_Rating (fighter First b)" "0 \<le> fi_Rating (fighter Second b)"
  shows "let b' = updateRatings (calculateResult b) b
         in 0 \<le> fi_Rating (fighter First b') \<and> 0 \<le> fi_Rating (fighter Second b') \<and>
            fi_Rating (fighter First b') + fi_Rating (fighter Second b') = fi_Rating (fighter First b) + fi_Rating (fighter Second b) + max 0 (25 - fi_Rating (fighter (other w) b))"
  using assms by (cases w) (auto simp: updateRatings_def calculateResult_def Let_def)

end
