(* ===== verification/LearningSystem.thy ===== *)
theory LearningSystem
  imports GoPrelude
begin

text \<open>
  The interactive learning session of \<open>src/interactive/learning_system.go\<close>: the dialogue with its commands, the access to challenges by level, experience points, statistics and
  achievements.

  The session is a function of the lines that are read.  What a challenge does is its \<open>RunFunc\<close>, of which only the outcome matters; the durations and the day of the month are inputs.  Texts that are only printed, the success
  rate (a floating-point number that is only printed) and the metrics and leaderboards that nothing updates are left out.  \<open>lp_rewards\<close> records the rewards paid for challenges.

  Shown, for every list of lines: points and levels account exactly for the rewards and the achievements, the statistics are consistent, achievements are unique and given when they are due, and a challenge is
  only paid for when its level has been reached; an unknown or locked challenge and an unknown command change nothing.  Examples show the delayed promotion and the bonus that is announced and not
  paid.
\<close>

section \<open>Challenges\<close>

record Challenge =
  ch_ID :: string
  ch_Category :: string
  ch_Difficulty :: int
  ch_XPReward :: int
  ch_Hints :: "string list"
  ch_RunFunc :: "bool option"

definition challenge :: "string \<Rightarrow> string \<Rightarrow> int \<Rightarrow> int \<Rightarrow> string list \<Rightarrow> bool option \<Rightarrow> Challenge" where
  "challenge i category difficulty reward hints r =
     \<lparr>ch_ID = i, ch_Category = category, ch_Difficulty = difficulty, ch_XPReward = reward, ch_Hints = hints, ch_RunFunc = r\<rparr>"

definition lsChallenges :: "Challenge list" where
  "lsChallenges =
     [challenge ''basic-1'' ''basics'' 1 10 [''Use the 'go' keyword'', ''Don't forget to wait for completion'', ''sync.WaitGroup can help''] (Some True),
      challenge ''basic-2'' ''basics'' 2 20 [''Channels are typed'', ''Use <- to send and receive'', ''Unbuffered channels block''] None,
      challenge ''conc-1'' ''concurrency'' 4 50 [''Use go run -race to detect races'', ''Mutexes protect shared state'', ''Atomic operations are lock-free''] None,
      challenge ''conc-2'' ''concurrency'' 5 75 [''Lock ordering prevents deadlocks'', ''Timeouts can break deadlocks'', ''Visualize the dependency graph''] None,
      challenge ''dist-1'' ''distributed'' 6 100 [''Tokens regenerate over time'', ''Use time.Ticker for periodic refills'', ''Consider burst capacity''] None,
      challenge ''dist-2'' ''distributed'' 7 125 [''Track failure rate'', ''Three states: closed, open, half-open'', ''Use timeouts for recovery''] None,
      challenge ''adv-1'' ''advanced'' 8 150 [''Pub/Sub pattern'', ''Handle backpressure'', ''Consider message ordering''] None,
      challenge ''adv-2'' ''advanced'' 9 200 [''Cache invalidation strategies'', ''Consistent hashing for distribution'', ''Handle cache stampede''] None]"

section \<open>Player\<close>

record Player =
  lp_Level :: int
  lp_XP :: int
  lp_Achievements :: "string list"
  lp_LastActive :: gotime
  lp_ChallengesCompleted :: int
  lp_TotalAttempts :: int
  lp_BestTime :: duration
  lp_CurrentStreak :: int
  lp_BestStreak :: int
  lp_rewards :: "int list"

record LearningSystem =
  ls_player :: Player
  ls_challenges :: "Challenge list"
  ls_currentIdx :: nat

definition newLearningSystem :: "gotime \<Rightarrow> LearningSystem" where
  "newLearningSystem now =
     \<lparr>ls_player = \<lparr>lp_Level = 1, lp_XP = 0, lp_Achievements = [], lp_LastActive = now, lp_ChallengesCompleted = 0, lp_TotalAttempts = 0, lp_BestTime = 0,
        lp_CurrentStreak = 0, lp_BestStreak = 0, lp_rewards = []\<rparr>,
      ls_challenges = lsChallenges, ls_currentIdx = 0\<rparr>"

definition canAccess :: "Challenge \<Rightarrow> Player \<Rightarrow> bool" where
  "canAccess ch p = (let requiredLevel = ch_Difficulty ch div 2; requiredLevel = (if requiredLevel = 0 then 1 else requiredLevel) in lp_Level p \<ge> requiredLevel)"

definition awardXP :: "int \<Rightarrow> Player \<Rightarrow> Player" where
  "awardXP xp p =
     (let p = p\<lparr>lp_XP := i64 (lp_XP p + xp), lp_rewards := lp_rewards p @ [xp]\<rparr>; requiredXP = i64 (lp_Level p * 100)
      in if lp_XP p \<ge> requiredXP then p\<lparr>lp_Level := i64 (lp_Level p + 1), lp_XP := i64 (lp_XP p - requiredXP)\<rparr> else p)"

definition updateStats :: "bool \<Rightarrow> duration \<Rightarrow> Player \<Rightarrow> Player" where
  "updateStats success dur p =
     (let p = p\<lparr>lp_TotalAttempts := i64 (lp_TotalAttempts p + 1)\<rparr>
      in if success
         then (let p = p\<lparr>lp_ChallengesCompleted := i64 (lp_ChallengesCompleted p + 1), lp_CurrentStreak := i64 (lp_CurrentStreak p + 1)\<rparr>;
                   p = (if lp_CurrentStreak p > lp_BestStreak p then p\<lparr>lp_BestStreak := lp_CurrentStreak p\<rparr> else p)
               in if lp_BestTime p = 0 \<or> dur < lp_BestTime p then p\<lparr>lp_BestTime := dur\<rparr> else p)
         else p\<lparr>lp_CurrentStreak := 0\<rparr>)"

definition achievementTable :: "(string \<times> int) list" where
  "achievementTable = [(''first-challenge'', 20), (''streak-5'', 50), (''level-10'', 200)]"

definition checkAchievementCondition :: "string \<Rightarrow> Player \<Rightarrow> bool" where
  "checkAchievementCondition i p =
     (if i = ''first-challenge'' then lp_ChallengesCompleted p \<ge> 1
      else if i = ''streak-5'' then lp_CurrentStreak p \<ge> 5
      else if i = ''level-10'' then lp_Level p \<ge> 10
      else False)"

definition unlockOne :: "string \<times> int \<Rightarrow> Player \<Rightarrow> Player" where
  "unlockOne a p =
     (if fst a \<notin> set (lp_Achievements p) \<and> checkAchievementCondition (fst a) p
      then p\<lparr>lp_Achievements := lp_Achievements p @ [fst a], lp_XP := i64 (lp_XP p + snd a)\<rparr> else p)"

definition lsCheckAchievements :: "Player \<Rightarrow> Player" where
  "lsCheckAchievements p = fold unlockOne achievementTable p"

section \<open>Commands\<close>

datatype LearnError = NoChallengeID | ChallengeNotFound string | ChallengeLocked int | UnknownCommand string

definition lsStartChallenge :: "duration \<Rightarrow> string \<Rightarrow> LearningSystem \<Rightarrow> (LearnError + unit) \<times> LearningSystem" where
  "lsStartChallenge dur i ls =
     (case find (\<lambda>ch. ch_ID ch = i) (ls_challenges ls) of
        None \<Rightarrow> (Inl (ChallengeNotFound i), ls)
      | Some ch \<Rightarrow>
          if \<not> canAccess ch (ls_player ls) then (Inl (ChallengeLocked (ch_Difficulty ch div 2)), ls)
          else if ch_RunFunc ch = Some False then (Inr (), ls\<lparr>ls_player := updateStats False dur (ls_player ls)\<rparr>)
          else (Inr (), ls\<lparr>ls_player := lsCheckAchievements (updateStats True dur (awardXP (ch_XPReward ch) (ls_player ls)))\<rparr>))"

text \<open>The challenge is a copy, so that the doubled reward is not the one that is paid.\<close>

definition startDailyChallenge :: "nat \<Rightarrow> duration \<Rightarrow> LearningSystem \<Rightarrow> (LearnError + unit) \<times> LearningSystem" where
  "startDailyChallenge today dur ls =
     (let ch = ls_challenges ls ! (today mod length (ls_challenges ls)); ch = ch\<lparr>ch_XPReward := ch_XPReward ch * 2\<rparr>
      in lsStartChallenge dur (ch_ID ch) ls)"

text \<open>The hint that is printed; the rotation works on a copy and a new array.\<close>

definition showHint :: "LearningSystem \<Rightarrow> string option" where
  "showHint ls =
     (if ls_currentIdx ls \<ge> length (ls_challenges ls) then None
      else case ch_Hints (ls_challenges ls ! ls_currentIdx ls) of [] \<Rightarrow> None | h # hs \<Rightarrow> Some h)"

text \<open>\<open>strings.Split\<close> with a space, and \<open>strings.TrimSpace\<close> on the characters that a terminal sends.\<close>

fun splitSpace :: "string \<Rightarrow> string list" where
  "splitSpace [] = [[]]"
| "splitSpace (c # cs) = (if c = CHR '' '' then [] # splitSpace cs else (case splitSpace cs of [] \<Rightarrow> [[c]] | w # ws \<Rightarrow> (c # w) # ws))"

definition isSpace :: "char \<Rightarrow> bool" where
  "isSpace c \<longleftrightarrow> c \<in> set [CHR '' '', CHR 0x09, CHR 0x0A, CHR 0x0B, CHR 0x0C, CHR 0x0D]"

definition trimSpace :: "string \<Rightarrow> string" where
  "trimSpace s = rev (dropWhile isSpace (rev (dropWhile isSpace s)))"

definition handleCommand :: "nat \<Rightarrow> duration \<Rightarrow> string \<Rightarrow> LearningSystem \<Rightarrow> (LearnError + unit) \<times> LearningSystem" where
  "handleCommand today dur input ls =
     (let parts = splitSpace input; command = hd parts
      in if command \<in> {''challenges'', ''1''} then (Inr (), ls)
         else if command \<in> {''start'', ''2''} then (if length parts < 2 then (Inl NoChallengeID, ls) else lsStartChallenge dur (parts ! 1) ls)
         else if command \<in> {''hint'', ''3'', ''stats'', ''4'', ''achievements'', ''5'', ''leaderboard'', ''6''} then (Inr (), ls)
         else if command \<in> {''daily'', ''7''} then startDailyChallenge today dur ls
         else if command \<in> {''help'', ''8''} then (Inr (), ls)
         else (Inl (UnknownCommand command), ls))"

text \<open>One round of \<open>Start\<close>; a line is given with the day, the duration of the challenge and the time of its end.\<close>

record Line =
  ln_text :: string
  ln_day :: nat
  ln_duration :: duration
  ln_now :: gotime

definition quits :: "Line \<Rightarrow> bool" where
  "quits l \<longleftrightarrow> trimSpace (ln_text l) \<in> {''quit'', ''exit''}"

definition oneRound :: "Line \<Rightarrow> LearningSystem \<Rightarrow> LearningSystem" where
  "oneRound l ls =
     (let ls = snd (handleCommand (ln_day l) (ln_duration l) (trimSpace (ln_text l)) ls)
      in ls\<lparr>ls_player := (ls_player ls)\<lparr>lp_LastActive := ln_now l\<rparr>\<rparr>)"

fun startSession :: "Line list \<Rightarrow> LearningSystem \<Rightarrow> LearningSystem" where
  "startSession [] ls = ls"
| "startSession (l # lines) ls = (if quits l then ls else startSession lines (oneRound l ls))"

text \<open>The rows of the leaderboard.\<close>

definition leaderboardRows :: "string \<Rightarrow> LearningSystem \<Rightarrow> (string \<times> int \<times> int \<times> int) list" where
  "leaderboardRows name ls = [(''Alice'', 15, 3250, 1), (''Bob'', 12, 2100, 2), (name, lp_Level (ls_player ls), lp_XP (ls_player ls), 3)]"


section \<open>Accounting\<close>

definition levelCost :: "int \<Rightarrow> int" where
  "levelCost level = 50 * level * (level - 1)"

definition bonus :: "string set \<Rightarrow> int" where
  "bonus as = sum_list (map snd (filter (\<lambda>a. fst a \<in> as) achievementTable))"

definition statsOk :: "Player \<Rightarrow> bool" where
  "statsOk p \<longleftrightarrow> 0 \<le> lp_CurrentStreak p \<and> lp_CurrentStreak p \<le> lp_BestStreak p \<and> lp_BestStreak p \<le> lp_ChallengesCompleted p
     \<and> lp_ChallengesCompleted p \<le> lp_TotalAttempts p \<and> lp_ChallengesCompleted p = int (length (lp_rewards p))"

definition pointsOk :: "Player \<Rightarrow> bool" where
  "pointsOk p \<longleftrightarrow> 1 \<le> lp_Level p \<and> lp_Level p \<le> 1 + int (length (lp_rewards p)) \<and> 0 \<le> lp_XP p
     \<and> lp_XP p + levelCost (lp_Level p) = sum_list (lp_rewards p) + bonus (set (lp_Achievements p))
     \<and> (\<forall>r \<in> set (lp_rewards p). 0 < r \<and> r \<le> 200)"

definition achievementsOk :: "Player \<Rightarrow> bool" where
  "achievementsOk p \<longleftrightarrow> distinct (lp_Achievements p) \<and> set (lp_Achievements p) =
     (if lp_ChallengesCompleted p \<ge> 1 then {''first-challenge''} else {}) \<union> (if lp_BestStreak p \<ge> 5 then {''streak-5''} else {})
     \<union> (if lp_Level p \<ge> 10 then {''level-10''} else {})"

definition playerOk :: "Player \<Rightarrow> bool" where
  "playerOk p \<longleftrightarrow> statsOk p \<and> pointsOk p \<and> achievementsOk p"

lemma bonus_bounds: "0 \<le> bonus as" "bonus as \<le> 270"
  by (auto simp: bonus_def achievementTable_def)

lemma lp_rewards_bound: "\<forall>r \<in> set rs. 0 < r \<and> r \<le> (200 :: int) \<Longrightarrow> sum_list rs \<le> 200 * int (length rs)"
  by (induction rs) auto

lemma levelCost_nonneg: "1 \<le> level \<Longrightarrow> 0 \<le> levelCost level"
  by (simp add: levelCost_def)

lemma pointsOk_bound: "pointsOk p \<Longrightarrow> lp_XP p \<le> 200 * int (length (lp_rewards p)) + 270"
  using lp_rewards_bound [of "lp_rewards p"] bonus_bounds(2) [of "set (lp_Achievements p)"] levelCost_nonneg [of "lp_Level p"] by (auto simp: pointsOk_def)

lemma award_points:
  assumes "pointsOk p" "0 < r" "r \<le> 200" "length (lp_rewards p) < 2 ^ 40"
  shows "pointsOk (awardXP r p) \<and> lp_rewards (awardXP r p) = lp_rewards p @ [r] \<and> lp_Level p \<le> lp_Level (awardXP r p)
    \<and> lp_Achievements (awardXP r p) = lp_Achievements p \<and> lp_CurrentStreak (awardXP r p) = lp_CurrentStreak p \<and> lp_BestStreak (awardXP r p) = lp_BestStreak p
    \<and> lp_ChallengesCompleted (awardXP r p) = lp_ChallengesCompleted p \<and> lp_TotalAttempts (awardXP r p) = lp_TotalAttempts p"
proof -
  have b: "0 \<le> lp_XP p" "lp_XP p \<le> 200 * 2 ^ 40 + 270" "1 \<le> lp_Level p" "lp_Level p \<le> 1 + 2 ^ 40"
    using assms pointsOk_bound [OF assms(1)] by (auto simp: pointsOk_def)
  have i: "i64 (lp_XP p + r) = lp_XP p + r" "i64 (lp_Level p * 100) = lp_Level p * 100" "i64 (lp_Level p + 1) = lp_Level p + 1"
    using b assms by (auto intro!: i64_id in_i64I)
  have parts: "lp_XP p + levelCost (lp_Level p) = sum_list (lp_rewards p) + bonus (set (lp_Achievements p))" "lp_Level p \<le> 1 + int (length (lp_rewards p))"
    "\<forall>r \<in> set (lp_rewards p @ [r]). 0 < r \<and> r \<le> 200"
    using assms(1-3) by (auto simp: pointsOk_def)
  show ?thesis
  proof (cases "lp_XP p + r \<ge> lp_Level p * 100")
    case True
    then have "i64 (lp_XP p + r - lp_Level p * 100) = lp_XP p + r - lp_Level p * 100" using b assms by (intro i64_id in_i64I) auto
    then have aw: "awardXP r p = p\<lparr>lp_Level := lp_Level p + 1, lp_XP := lp_XP p + r - lp_Level p * 100, lp_rewards := lp_rewards p @ [r]\<rparr>"
      using True by (simp add: awardXP_def Let_def i)
    have "levelCost (lp_Level p + 1) = levelCost (lp_Level p) + 100 * lp_Level p" by (simp add: levelCost_def algebra_simps)
    then have "lp_XP p + r - lp_Level p * 100 + levelCost (lp_Level p + 1) = sum_list (lp_rewards p @ [r]) + bonus (set (lp_Achievements p))"
      unfolding sum_list_append using parts(1) by simp
    moreover have "0 \<le> lp_XP p + r - lp_Level p * 100" "1 \<le> lp_Level p + 1" "lp_Level p + 1 \<le> 1 + int (length (lp_rewards p @ [r]))" "lp_Level p \<le> lp_Level p + 1"
      using True b parts(2) by simp_all
    ultimately show ?thesis using parts(3) by (simp add: aw pointsOk_def)
  next
    case False
    then have aw: "awardXP r p = p\<lparr>lp_XP := lp_XP p + r, lp_rewards := lp_rewards p @ [r]\<rparr>" by (simp add: awardXP_def Let_def i)
    have "lp_XP p + r + levelCost (lp_Level p) = sum_list (lp_rewards p @ [r]) + bonus (set (lp_Achievements p))"
      unfolding sum_list_append using parts(1) by simp
    moreover have "0 \<le> lp_XP p + r" "1 \<le> lp_Level p" "lp_Level p \<le> 1 + int (length (lp_rewards p @ [r]))" "lp_Level p \<le> lp_Level p"
      using b assms(2) parts(2) by simp_all
    ultimately show ?thesis using parts(3) by (simp add: aw pointsOk_def)
  qed
qed

text \<open>The achievements that are missing before the check, with what they are worth.\<close>

definition missing :: "Player \<Rightarrow> string \<times> int \<Rightarrow> bool" where
  "missing p a \<longleftrightarrow> fst a \<notin> set (lp_Achievements p) \<and> checkAchievementCondition (fst a) p"

lemma fold_unlock:
  assumes "distinct (map fst tab)" "in_i64 (lp_XP p)"
  shows "fold unlockOne tab p =
    p\<lparr>lp_Achievements := lp_Achievements p @ map fst (filter (missing p) tab), lp_XP := i64 (lp_XP p + sum_list (map snd (filter (missing p) tab)))\<rparr>"
  using assms
proof (induction tab arbitrary: p)
  case (Cons a tab)
  show ?case
  proof (cases "missing p a")
    case True
    define p' where "p' = p\<lparr>lp_Achievements := lp_Achievements p @ [fst a], lp_XP := i64 (lp_XP p + snd a)\<rparr>"
    have step: "unlockOne a p = p'" using True by (simp add: unlockOne_def missing_def p'_def)
    have "filter (missing p') tab = filter (missing p) tab"
      using Cons.prems(1) by (intro filter_cong) (auto simp: missing_def p'_def checkAchievementCondition_def rev_image_eqI)
    moreover have "in_i64 (lp_XP p')" by (simp add: p'_def)
    ultimately show ?thesis using Cons.IH [of p'] Cons.prems(1) True by (simp add: step) (simp add: p'_def add.assoc)
  next
    case False
    then have "unlockOne a p = p" by (auto simp: unlockOne_def missing_def)
    then show ?thesis using Cons False by simp
  qed
qed simp

lemma sum_filter_disj: "sum_list (map snd (filter (\<lambda>a. P a \<or> Q a) tab)) = sum_list (map snd (filter P tab)) + (sum_list (map snd (filter (\<lambda>a. \<not> P a \<and> Q a) tab)) :: int)"
  by (induction tab) auto

lemma check_achievements:
  assumes "distinct (lp_Achievements p)" "0 \<le> lp_XP p" "lp_XP p < 2 ^ 60"
  shows "\<exists>as. lsCheckAchievements p = p\<lparr>lp_Achievements := as, lp_XP := lp_XP p + (bonus (set as) - bonus (set (lp_Achievements p)))\<rparr>
    \<and> distinct as \<and> set as = set (lp_Achievements p) \<union> {i \<in> fst ` set achievementTable. checkAchievementCondition i p}"
proof -
  let ?as = "lp_Achievements p @ map fst (filter (missing p) achievementTable)"
  have dt: "distinct (map fst achievementTable)" by (simp add: achievementTable_def)
  have f: "filter (\<lambda>a. fst a \<in> set ?as) achievementTable = filter (\<lambda>a. fst a \<in> set (lp_Achievements p) \<or> checkAchievementCondition (fst a) p) achievementTable"
    by (intro filter_cong) (auto simp: missing_def)
  have b: "bonus (set ?as) = bonus (set (lp_Achievements p)) + sum_list (map snd (filter (missing p) achievementTable))"
    unfolding bonus_def f sum_filter_disj missing_def ..
  then have "0 \<le> sum_list (map snd (filter (missing p) achievementTable))" "sum_list (map snd (filter (missing p) achievementTable)) \<le> 270"
    by (auto simp: achievementTable_def)
  then have "i64 (lp_XP p + sum_list (map snd (filter (missing p) achievementTable))) = lp_XP p + sum_list (map snd (filter (missing p) achievementTable))"
    using assms by (intro i64_id in_i64I) auto
  moreover have "in_i64 (lp_XP p)" using assms by (intro in_i64I) auto
  ultimately have "lsCheckAchievements p = p\<lparr>lp_Achievements := ?as, lp_XP := lp_XP p + (bonus (set ?as) - bonus (set (lp_Achievements p)))\<rparr>"
    using fold_unlock [OF dt, of p] b by (simp add: lsCheckAchievements_def)
  moreover have "distinct ?as" using assms(1) dt by (auto simp: distinct_map missing_def intro: inj_on_subset)
  ultimately show ?thesis by (intro exI [of _ ?as]) (auto simp: missing_def)
qed


lemma updateStats_success:
  assumes "statsOk p0" "lp_TotalAttempts p0 < 2 ^ 40"
    and "lp_CurrentStreak p = lp_CurrentStreak p0" "lp_BestStreak p = lp_BestStreak p0" "lp_ChallengesCompleted p = lp_ChallengesCompleted p0" "lp_TotalAttempts p = lp_TotalAttempts p0"
    and "lp_rewards p = lp_rewards p0 @ [r]"
  shows "statsOk (updateStats True dur p) \<and> lp_TotalAttempts (updateStats True dur p) = lp_TotalAttempts p0 + 1 \<and> lp_ChallengesCompleted (updateStats True dur p) = lp_ChallengesCompleted p0 + 1
    \<and> lp_CurrentStreak (updateStats True dur p) = lp_CurrentStreak p0 + 1 \<and> lp_BestStreak (updateStats True dur p) = max (lp_BestStreak p0) (lp_CurrentStreak p0 + 1)
    \<and> lp_Level (updateStats True dur p) = lp_Level p \<and> lp_XP (updateStats True dur p) = lp_XP p \<and> lp_Achievements (updateStats True dur p) = lp_Achievements p
    \<and> lp_rewards (updateStats True dur p) = lp_rewards p"
proof -
  have w: "i64 (lp_TotalAttempts p0 + 1) = lp_TotalAttempts p0 + 1" "i64 (lp_ChallengesCompleted p0 + 1) = lp_ChallengesCompleted p0 + 1" "i64 (lp_CurrentStreak p0 + 1) = lp_CurrentStreak p0 + 1"
    using assms(1,2) by (auto simp: statsOk_def intro!: i64_id in_i64I)
  have u: "updateStats True dur p = p\<lparr>lp_TotalAttempts := lp_TotalAttempts p0 + 1, lp_ChallengesCompleted := lp_ChallengesCompleted p0 + 1, lp_CurrentStreak := lp_CurrentStreak p0 + 1,
      lp_BestStreak := max (lp_BestStreak p0) (lp_CurrentStreak p0 + 1), lp_BestTime := (if lp_BestTime p = 0 \<or> dur < lp_BestTime p then dur else lp_BestTime p)\<rparr>"
    using assms(3-6) by (simp add: updateStats_def Let_def w max_def)
  show ?thesis using assms(1,7) by (simp add: u statsOk_def)
qed

lemma due_union:
  fixes a s t :: string and b u l l' :: int
  assumes "l \<le> l'"
  shows "(if c then {a} else {}) \<union> (if 5 \<le> b then {s} else {}) \<union> (if 10 \<le> l then {t} else {}) \<union> ({a} \<union> (if 5 \<le> u then {s} else {}) \<union> (if 10 \<le> l' then {t} else {}))
    = {a} \<union> (if 5 \<le> max b u then {s} else {}) \<union> (if 10 \<le> l' then {t} else {})"
  using assms by auto

lemma playerOk_complete:
  assumes ok: "playerOk p" and r: "0 < r" "r \<le> 200" and small: "lp_TotalAttempts p < 2 ^ 40"
  shows "playerOk (lsCheckAchievements (updateStats True dur (awardXP r p))) \<and> lp_TotalAttempts (lsCheckAchievements (updateStats True dur (awardXP r p))) = lp_TotalAttempts p + 1"
proof -
  have parts: "statsOk p" "pointsOk p" "achievementsOk p" using ok by (simp_all add: playerOk_def)
  have len: "length (lp_rewards p) < 2 ^ 40" using parts(1) small by (auto simp: statsOk_def)
  note aw = award_points [OF parts(2) r len]
  define q where "q = updateStats True dur (awardXP r p)"
  have q: "statsOk q" "lp_TotalAttempts q = lp_TotalAttempts p + 1" "lp_ChallengesCompleted q = lp_ChallengesCompleted p + 1" "lp_CurrentStreak q = lp_CurrentStreak p + 1"
    "lp_BestStreak q = max (lp_BestStreak p) (lp_CurrentStreak p + 1)" "lp_Level p \<le> lp_Level q" "lp_Achievements q = lp_Achievements p" "pointsOk q" "lp_rewards q = lp_rewards p @ [r]"
  proof -
    have u: "statsOk q \<and> lp_TotalAttempts q = lp_TotalAttempts p + 1 \<and> lp_ChallengesCompleted q = lp_ChallengesCompleted p + 1
      \<and> lp_CurrentStreak q = lp_CurrentStreak p + 1 \<and> lp_BestStreak q = max (lp_BestStreak p) (lp_CurrentStreak p + 1)
      \<and> lp_Level q = lp_Level (awardXP r p) \<and> lp_XP q = lp_XP (awardXP r p) \<and> lp_Achievements q = lp_Achievements (awardXP r p) \<and> lp_rewards q = lp_rewards (awardXP r p)"
      unfolding q_def using aw by (intro updateStats_success [OF parts(1) small]) simp_all
    then have "pointsOk q \<longleftrightarrow> pointsOk (awardXP r p)" by (simp add: pointsOk_def)
    then show "statsOk q" "lp_TotalAttempts q = lp_TotalAttempts p + 1" "lp_ChallengesCompleted q = lp_ChallengesCompleted p + 1" "lp_CurrentStreak q = lp_CurrentStreak p + 1"
      "lp_BestStreak q = max (lp_BestStreak p) (lp_CurrentStreak p + 1)" "lp_Level p \<le> lp_Level q" "lp_Achievements q = lp_Achievements p" "pointsOk q" "lp_rewards q = lp_rewards p @ [r]"
      using u aw by simp_all
  qed
  have "lp_XP q < 2 ^ 60" using pointsOk_bound [OF q(8)] q(9) len by simp
  moreover have "0 \<le> lp_XP q" using q(8) by (simp add: pointsOk_def)
  ultimately obtain as where res: "lsCheckAchievements q = q\<lparr>lp_Achievements := as, lp_XP := lp_XP q + (bonus (set as) - bonus (set (lp_Achievements q)))\<rparr>"
    and as: "distinct as" "set as = set (lp_Achievements q) \<union> {i \<in> fst ` set achievementTable. checkAchievementCondition i q}"
    using check_achievements [of q] parts(3) q(7) by (auto simp: achievementsOk_def)
  have "bonus (set (lp_Achievements q)) \<le> bonus (set as)"
    using as(2) by (auto simp: bonus_def achievementTable_def)
  then have "pointsOk (lsCheckAchievements q)" using q(8) by (simp add: res pointsOk_def)
  moreover have "statsOk (lsCheckAchievements q)" using q(1) by (simp add: res statsOk_def)
  moreover have "achievementsOk (lsCheckAchievements q)"
  proof -
    have old: "set (lp_Achievements q) = (if lp_ChallengesCompleted p \<ge> 1 then {''first-challenge''} else {}) \<union> (if lp_BestStreak p \<ge> 5 then {''streak-5''} else {})
       \<union> (if lp_Level p \<ge> 10 then {''level-10''} else {})" using parts(3) q(7) by (simp add: achievementsOk_def)
    have new: "{i \<in> fst ` set achievementTable. checkAchievementCondition i q} = {''first-challenge''} \<union> (if lp_CurrentStreak p + 1 \<ge> 5 then {''streak-5''} else {})
       \<union> (if lp_Level q \<ge> 10 then {''level-10''} else {})"
      using q(3,4) parts(1) by (auto simp: achievementTable_def checkAchievementCondition_def statsOk_def)
    have "set as = {''first-challenge''} \<union> (if max (lp_BestStreak p) (lp_CurrentStreak p + 1) \<ge> 5 then {''streak-5''} else {}) \<union> (if lp_Level q \<ge> 10 then {''level-10''} else {})"
      unfolding as(2) old new by (rule due_union [OF q(6)])
    then show ?thesis using as(1) q(3,5) parts(1) by (simp add: res achievementsOk_def statsOk_def)
  qed
  ultimately show ?thesis using q(2) by (simp add: playerOk_def res flip: q_def)
qed


definition sessionOk :: "LearningSystem \<Rightarrow> bool" where
  "sessionOk ls \<longleftrightarrow> ls_challenges ls = lsChallenges \<and> playerOk (ls_player ls) \<and> lp_ChallengesCompleted (ls_player ls) = lp_TotalAttempts (ls_player ls)"

lemma table_rewards: "ch \<in> set lsChallenges \<Longrightarrow> 0 < ch_XPReward ch \<and> ch_XPReward ch \<le> 200 \<and> ch_RunFunc ch \<noteq> Some False"
  by (auto simp: lsChallenges_def challenge_def)

lemma completed_by_check: "lp_ChallengesCompleted (lsCheckAchievements p) = lp_ChallengesCompleted p"
  by (simp add: lsCheckAchievements_def achievementTable_def unlockOne_def)

lemma start_ok:
  assumes ok: "sessionOk ls" and small: "lp_TotalAttempts (ls_player ls) < 2 ^ 40"
  shows "sessionOk (snd (lsStartChallenge dur i ls)) \<and> lp_TotalAttempts (ls_player (snd (lsStartChallenge dur i ls))) \<le> lp_TotalAttempts (ls_player ls) + 1"
proof (cases "find (\<lambda>ch. ch_ID ch = i) (ls_challenges ls)")
  case (Some ch)
  let ?p = "ls_player ls"
  have "ch \<in> set lsChallenges" using ok Some by (auto simp: sessionOk_def find_Some_iff)
  note ch = table_rewards [OF this]
  have p: "playerOk ?p" "lp_ChallengesCompleted ?p = lp_TotalAttempts ?p" using ok by (simp_all add: sessionOk_def)
  note fin = playerOk_complete [OF p(1) conjunct1 [OF ch] _ small, of dur]
  have parts: "statsOk ?p" "pointsOk ?p" using p(1) by (simp_all add: playerOk_def)
  have len: "length (lp_rewards ?p) < 2 ^ 40" using parts(1) small by (auto simp: statsOk_def)
  have aw: "pointsOk (awardXP (ch_XPReward ch) ?p) \<and> lp_rewards (awardXP (ch_XPReward ch) ?p) = lp_rewards ?p @ [ch_XPReward ch] \<and> lp_Level ?p \<le> lp_Level (awardXP (ch_XPReward ch) ?p)
    \<and> lp_Achievements (awardXP (ch_XPReward ch) ?p) = lp_Achievements ?p \<and> lp_CurrentStreak (awardXP (ch_XPReward ch) ?p) = lp_CurrentStreak ?p
    \<and> lp_BestStreak (awardXP (ch_XPReward ch) ?p) = lp_BestStreak ?p
    \<and> lp_ChallengesCompleted (awardXP (ch_XPReward ch) ?p) = lp_ChallengesCompleted ?p \<and> lp_TotalAttempts (awardXP (ch_XPReward ch) ?p) = lp_TotalAttempts ?p"
    using ch by (intro award_points [OF parts(2) _ _ len]) simp_all
  have "lp_ChallengesCompleted (updateStats True dur (awardXP (ch_XPReward ch) ?p)) = lp_ChallengesCompleted ?p + 1"
    using updateStats_success [OF parts(1) small, of "awardXP (ch_XPReward ch) ?p" "ch_XPReward ch" dur] aw by simp
  then show ?thesis using Some ok ch fin p(2) by (simp add: lsStartChallenge_def sessionOk_def completed_by_check)
qed (use ok in \<open>simp add: lsStartChallenge_def\<close>)

lemma round_ok:
  assumes "sessionOk ls" "lp_TotalAttempts (ls_player ls) < 2 ^ 40"
  shows "sessionOk (oneRound l ls) \<and> lp_TotalAttempts (ls_player (oneRound l ls)) \<le> lp_TotalAttempts (ls_player ls) + 1"
proof -
  let ?ls = "snd (handleCommand (ln_day l) (ln_duration l) (trimSpace (ln_text l)) ls)"
  have "sessionOk ?ls \<and> lp_TotalAttempts (ls_player ?ls) \<le> lp_TotalAttempts (ls_player ls) + 1"
    using assms start_ok [OF assms] by (simp add: handleCommand_def startDailyChallenge_def Let_def)
  then show ?thesis by (simp add: oneRound_def Let_def sessionOk_def playerOk_def statsOk_def pointsOk_def achievementsOk_def)
qed

lemma session_ok:
  "sessionOk ls \<Longrightarrow> lp_TotalAttempts (ls_player ls) + int (length lines) < 2 ^ 40 \<Longrightarrow>
     sessionOk (startSession lines ls) \<and> lp_TotalAttempts (ls_player (startSession lines ls)) \<le> lp_TotalAttempts (ls_player ls) + int (length lines)"
proof (induction lines arbitrary: ls)
  case (Cons l lines)
  have "lp_TotalAttempts (ls_player ls) < 2 ^ 40" using Cons.prems by simp
  then have "sessionOk (oneRound l ls)" "lp_TotalAttempts (ls_player (oneRound l ls)) \<le> lp_TotalAttempts (ls_player ls) + 1" using round_ok Cons.prems(1) by blast+
  then show ?case using Cons by force
qed simp

text \<open> For every list of fewer than \<open>2 ^ 40\<close> lines, the session ends with points and levels that account exactly for the rewards of the completed challenges and of the achievements (a level
  costs a hundred points times its number), with consistent statistics in which every attempt is a success, and with exactly the achievements that are due, each once.\<close>

theorem learning_session_accounts:
  fixes lines :: "Line list" and now :: gotime
  defines "p \<equiv> ls_player (startSession lines (newLearningSystem now))"
  assumes "length lines < 2 ^ 40"
  shows "lp_XP p + levelCost (lp_Level p) = sum_list (lp_rewards p) + bonus (set (lp_Achievements p)) \<and> 0 \<le> lp_XP p \<and> 1 \<le> lp_Level p
    \<and> lp_TotalAttempts p = int (length (lp_rewards p)) \<and> lp_ChallengesCompleted p = lp_TotalAttempts p \<and> lp_TotalAttempts p \<le> int (length lines)
    \<and> lp_CurrentStreak p \<le> lp_BestStreak p \<and> distinct (lp_Achievements p)
    \<and> set (lp_Achievements p) = (if lp_ChallengesCompleted p \<ge> 1 then {''first-challenge''} else {}) \<union> (if lp_BestStreak p \<ge> 5 then {''streak-5''} else {})
        \<union> (if lp_Level p \<ge> 10 then {''level-10''} else {})"
proof -
  have new: "sessionOk (newLearningSystem now)"
    by (simp add: sessionOk_def newLearningSystem_def playerOk_def statsOk_def pointsOk_def achievementsOk_def levelCost_def bonus_def)
  have "lp_TotalAttempts (ls_player (newLearningSystem now)) + int (length lines) < 2 ^ 40" using assms(2) by (simp add: newLearningSystem_def)
  from session_ok [OF new this] have "sessionOk (startSession lines (newLearningSystem now))" "lp_TotalAttempts p \<le> int (length lines)"
    by (simp_all add: p_def newLearningSystem_def)
  then show ?thesis unfolding p_def sessionOk_def playerOk_def statsOk_def pointsOk_def achievementsOk_def by simp
qed


definition line :: "string \<Rightarrow> Line" where
  "line t = \<lparr>ln_text = t, ln_day = 0, ln_duration = 1, ln_now = 0\<rparr>"

definition fiveLessons :: "Line list" where
  "fiveLessons = replicate 5 (line ''start basic-1'') @ [line ''frobnicate'', line '' quit'']"

lemmas session_defs = line_def quits_def oneRound_def handleCommand_def lsStartChallenge_def newLearningSystem_def lsChallenges_def challenge_def canAccess_def awardXP_def updateStats_def
  lsCheckAchievements_def achievementTable_def unlockOne_def checkAchievementCondition_def trimSpace_def isSpace_def i64_def Let_def

text \<open>After five lessons the rewards of the achievements lift the points over the limit of the level, but the level stays.\<close>

lemma level_up_delayed:
  "lp_Level (ls_player (startSession fiveLessons (newLearningSystem 0))) = 1 \<and> lp_XP (ls_player (startSession fiveLessons (newLearningSystem 0))) = 120"
  by code_simp

theorem learning_session_accounts_witness:
  "lp_XP (ls_player (startSession fiveLessons (newLearningSystem 0))) + levelCost (lp_Level (ls_player (startSession fiveLessons (newLearningSystem 0))))
     = sum_list (lp_rewards (ls_player (startSession fiveLessons (newLearningSystem 0)))) + bonus (set (lp_Achievements (ls_player (startSession fiveLessons (newLearningSystem 0)))))"
  using learning_session_accounts [of fiveLessons 0] by (simp add: fiveLessons_def)

text \<open>The daily challenge pays what the challenge pays on other days.\<close>

lemma daily_bonus_not_paid:
  "ls_challenges ls = lsChallenges \<Longrightarrow> startDailyChallenge today dur ls = lsStartChallenge dur (ch_ID (lsChallenges ! (today mod 8))) ls"
  by (simp add: startDailyChallenge_def Let_def lsChallenges_def)

text \<open>The hint is always the first one of the first challenge.\<close>

lemma hint_never_changes: "sessionOk ls \<Longrightarrow> ls_currentIdx ls = 0 \<Longrightarrow> showHint ls = Some ''Use the 'go' keyword''"
  by (simp add: showHint_def sessionOk_def lsChallenges_def challenge_def)

text \<open>Errors leave the session as it is.\<close>

lemma start_error: "fst (lsStartChallenge dur i ls) = Inl e \<Longrightarrow> snd (lsStartChallenge dur i ls) = ls"
  by (auto simp: lsStartChallenge_def split: option.splits if_splits)

lemma command_error:
  assumes "fst (if a then (Inr (), ls) else if b then (if c then (Inl e1, ls) else f) else if d then (Inr (), ls) else if x then g else if h then (Inr (), ls) else (Inl e2, ls)) = Inl e"
    and "fst f = Inl e \<Longrightarrow> snd f = ls" "fst g = Inl e \<Longrightarrow> snd g = ls"
  shows "snd (if a then (Inr (), ls) else if b then (if c then (Inl e1, ls) else f) else if d then (Inr (), ls) else if x then g else if h then (Inr (), ls) else (Inl e2, ls)) = ls"
  using assms by (auto split: if_splits)

lemma errors_change_nothing: "fst (handleCommand today dur input ls) = Inl e \<Longrightarrow> snd (handleCommand today dur input ls) = ls"
  unfolding handleCommand_def startDailyChallenge_def Let_def by (erule command_error) (simp_all only: start_error)

lemma locked_challenge:
  "find (\<lambda>ch. ch_ID ch = i) (ls_challenges ls) = Some ch \<Longrightarrow> lp_Level (ls_player ls) < ch_Difficulty ch div 2 \<Longrightarrow>
     lsStartChallenge dur i ls = (Inl (ChallengeLocked (ch_Difficulty ch div 2)), ls)"
  by (simp add: lsStartChallenge_def canAccess_def Let_def)

end
