(* ===== verification/ChannelPatterns.thy ===== *)
theory ChannelPatterns
  imports GoPrelude
begin

text \<open>
  The channel patterns of \<open>src/examples/03_concurrency_patterns.go\<close>: worker pool, fan-out and fan-in, pipeline and semaphore.

  Each pattern is a step relation on the program points of its goroutines and the contents of its channels.  A value passes from a sender to a receiver either through the buffer, when there is room, or from hand to hand,
  when the buffer is empty and the receiver waits, which is the only way for a channel without buffer.  The waiting times of the simulated work are left out.

  Shown, through the interface \<open>bounded_system\<close>: every schedule of every pattern ends after a known number of steps, never blocks before, and delivers every result exactly once, the pipeline in order; the semaphore never
  admits more tasks than it has places.
\<close>

section \<open>Systems that come to an end\<close>

text \<open>A step relation that keeps an invariant, makes a weight smaller and is only stuck at the goal.\<close>

locale bounded_system =
  fixes step :: "'s \<Rightarrow> 's \<Rightarrow> bool" and inv :: "'s \<Rightarrow> bool" and weight :: "'s \<Rightarrow> nat" and goal :: "'s \<Rightarrow> bool"
  assumes step_inv: "inv s \<Longrightarrow> step s t \<Longrightarrow> inv t"
    and step_weight: "inv s \<Longrightarrow> step s t \<Longrightarrow> weight t < weight s"
    and progress: "inv s \<Longrightarrow> \<not> goal s \<Longrightarrow> \<exists>t. step s t"
begin

lemma reach_inv: "step\<^sup>*\<^sup>* s t \<Longrightarrow> inv s \<Longrightarrow> inv t"
  by (induction rule: rtranclp_induct) (auto intro: step_inv)

lemma steps_bounded: "inv s \<Longrightarrow> (step ^^ k) s t \<Longrightarrow> k + weight t \<le> weight s"
proof (induction k arbitrary: t)
  case (Suc k)
  then obtain u where u: "(step ^^ k) s u" "step u t" by auto
  then have "inv u" using reach_inv [of s u] Suc.prems(1) by (simp add: relpowp_imp_rtranclp)
  then show ?case using Suc.IH [OF Suc.prems(1) u(1)] step_weight [OF _ u(2)] by simp
qed simp

lemma stuck_goal: "inv s \<Longrightarrow> step\<^sup>*\<^sup>* s t \<Longrightarrow> (\<nexists>u. step t u) \<Longrightarrow> goal t"
  using reach_inv progress by blast

lemma reaches_goal: "inv s \<Longrightarrow> \<exists>t. step\<^sup>*\<^sup>* s t \<and> goal t"
proof (induction "weight s" arbitrary: s rule: less_induct)
  case less
  show ?case
  proof (cases "goal s")
    case False
    then obtain t where "step s t" using progress less.prems by blast
    then show ?thesis using less.hyps [OF step_weight] step_inv less.prems by (meson converse_rtranclp_into_rtranclp)
  qed blast
qed

text \<open>What the clients use: after any number of steps, the number is bounded, and the goal is still within reach; a state without successor is a goal.\<close>

lemma ends:
  assumes "inv s" "(step ^^ k) s t"
  shows "k \<le> weight s" "(\<nexists>u. step t u) \<Longrightarrow> goal t" "\<exists>u. step\<^sup>*\<^sup>* t u \<and> goal u"
  using steps_bounded [OF assms] stuck_goal [OF assms(1)] reaches_goal reach_inv [OF _ assms(1)] assms(2) by (auto simp: relpowp_imp_rtranclp)

end

lemma in_list_nth: "w < length xs \<Longrightarrow> xs ! w = x \<Longrightarrow> x \<in> set xs"
  by auto

lemma sum_update_nat:
  fixes f :: "'a \<Rightarrow> nat"
  assumes "w < length xs" "xs ! w = x"
  shows "sum_list (map f (xs[w := y])) + f x = sum_list (map f xs) + f y"
  using assms by (induction xs arbitrary: w) (auto split: nat.split simp: nth_Cons)

section \<open>Worker pool\<close>

text \<open>The pool works for every function of a job and every capacity of its two channels.\<close>

datatype 'b ChanWorker = PReceive | PSend 'b | PReturned

record ('a, 'b) Pool =
  po_pending :: "'a list"
  po_jobsClosed :: bool
  po_jobs :: "'a list"
  po_workers :: "'b ChanWorker list"
  po_results :: "'b list"
  po_resultsClosed :: bool
  po_collected :: "'b list"
  po_over :: bool

definition newPool :: "nat \<Rightarrow> 'a list \<Rightarrow> ('a, 'b) Pool" where
  "newPool numWorkers jobs =
     \<lparr>po_pending = jobs, po_jobsClosed = False, po_jobs = [], po_workers = replicate numWorkers PReceive, po_results = [], po_resultsClosed = False, po_collected = [], po_over = False\<rparr>"

inductive workerPoolStep :: "('a \<Rightarrow> 'b) \<Rightarrow> nat \<Rightarrow> nat \<Rightarrow> ('a, 'b) Pool \<Rightarrow> ('a, 'b) Pool \<Rightarrow> bool"
  for f :: "'a \<Rightarrow> 'b" and capJobs capResults :: nat
  where
  sendJob: "po_pending p = j # js \<Longrightarrow> length (po_jobs p) < capJobs \<Longrightarrow> workerPoolStep f capJobs capResults p (p\<lparr>po_pending := js, po_jobs := po_jobs p @ [j]\<rparr>)"
| handJob: "po_pending p = j # js \<Longrightarrow> po_jobs p = [] \<Longrightarrow> w < length (po_workers p) \<Longrightarrow> po_workers p ! w = PReceive
    \<Longrightarrow> workerPoolStep f capJobs capResults p (p\<lparr>po_pending := js, po_workers := (po_workers p)[w := PSend (f j)]\<rparr>)"
| closeJobs: "po_pending p = [] \<Longrightarrow> \<not> po_jobsClosed p \<Longrightarrow> workerPoolStep f capJobs capResults p (p\<lparr>po_jobsClosed := True\<rparr>)"
| takeJob: "po_jobs p = j # js \<Longrightarrow> w < length (po_workers p) \<Longrightarrow> po_workers p ! w = PReceive
    \<Longrightarrow> workerPoolStep f capJobs capResults p (p\<lparr>po_jobs := js, po_workers := (po_workers p)[w := PSend (f j)]\<rparr>)"
| leave: "po_jobs p = [] \<Longrightarrow> po_jobsClosed p \<Longrightarrow> w < length (po_workers p) \<Longrightarrow> po_workers p ! w = PReceive
    \<Longrightarrow> workerPoolStep f capJobs capResults p (p\<lparr>po_workers := (po_workers p)[w := PReturned]\<rparr>)"
| sendResult: "w < length (po_workers p) \<Longrightarrow> po_workers p ! w = PSend r \<Longrightarrow> length (po_results p) < capResults
    \<Longrightarrow> workerPoolStep f capJobs capResults p (p\<lparr>po_workers := (po_workers p)[w := PReceive], po_results := po_results p @ [r]\<rparr>)"
| handResult: "w < length (po_workers p) \<Longrightarrow> po_workers p ! w = PSend r \<Longrightarrow> po_results p = [] \<Longrightarrow> \<not> po_over p
    \<Longrightarrow> workerPoolStep f capJobs capResults p (p\<lparr>po_workers := (po_workers p)[w := PReceive], po_collected := po_collected p @ [r]\<rparr>)"
| collect: "po_results p = r # rs \<Longrightarrow> \<not> po_over p \<Longrightarrow> workerPoolStep f capJobs capResults p (p\<lparr>po_results := rs, po_collected := po_collected p @ [r]\<rparr>)"
| closeResults: "\<forall>x \<in> set (po_workers p). x = PReturned \<Longrightarrow> \<not> po_resultsClosed p \<Longrightarrow> workerPoolStep f capJobs capResults p (p\<lparr>po_resultsClosed := True\<rparr>)"
| finish: "po_results p = [] \<Longrightarrow> po_resultsClosed p \<Longrightarrow> \<not> po_over p \<Longrightarrow> workerPoolStep f capJobs capResults p (p\<lparr>po_over := True\<rparr>)"

fun heldResult :: "'b ChanWorker \<Rightarrow> 'b multiset" where
  "heldResult (PSend r) = {#r#}"
| "heldResult w = {#}"

definition heldResults :: "'b ChanWorker list \<Rightarrow> 'b multiset" where
  "heldResults ws = sum_list (map heldResult ws)"

lemma heldResults_none: "set ws \<subseteq> {PReceive, PReturned} \<Longrightarrow> heldResults ws = {#}"
  unfolding heldResults_def by (induction ws) auto

fun workerWeight :: "'b ChanWorker \<Rightarrow> nat" where
  "workerWeight PReceive = 1"
| "workerWeight (PSend r) = 3"
| "workerWeight PReturned = 0"

definition poolWeight :: "('a, 'b) Pool \<Rightarrow> nat" where
  "poolWeight p = 4 * length (po_pending p) + 3 * length (po_jobs p) + sum_list (map workerWeight (po_workers p)) + length (po_results p)
     + of_bool (\<not> po_jobsClosed p) + of_bool (\<not> po_resultsClosed p) + of_bool (\<not> po_over p)"

definition poolInv :: "('a \<Rightarrow> 'b) \<Rightarrow> 'a list \<Rightarrow> ('a, 'b) Pool \<Rightarrow> bool" where
  "poolInv f jobs p \<longleftrightarrow>
     mset (map f jobs) = mset (map f (po_pending p)) + mset (map f (po_jobs p)) + heldResults (po_workers p) + mset (po_results p) + mset (po_collected p)
     \<and> po_workers p \<noteq> []
     \<and> (po_jobsClosed p \<longrightarrow> po_pending p = [])
     \<and> (PReturned \<in> set (po_workers p) \<longrightarrow> po_jobs p = [] \<and> po_jobsClosed p)
     \<and> (po_resultsClosed p \<longrightarrow> set (po_workers p) = {PReturned})
     \<and> (po_over p \<longrightarrow> po_resultsClosed p \<and> po_results p = [])"

definition poolGoal :: "('a, 'b) Pool \<Rightarrow> bool" where
  "poolGoal p \<longleftrightarrow> po_over p \<and> po_jobsClosed p \<and> set (po_workers p) = {PReturned}"

lemma heldResults_update:
  assumes "w < length ws" "ws ! w = x"
  shows "heldResult x + heldResults (ws[w := y]) = heldResult y + heldResults ws"
  using assms by (induction ws arbitrary: w) (auto simp: heldResults_def nth_Cons ac_simps split: nat.splits)

lemma pool_weight: "workerPoolStep f cj cr p q \<Longrightarrow> poolWeight q < poolWeight p"
proof (induction rule: workerPoolStep.induct)
  case (handJob p j js w)
  then show ?case using sum_update_nat [of w "po_workers p" PReceive workerWeight "PSend (f j)"] by (simp add: poolWeight_def)
next
  case (takeJob p j js w)
  then show ?case using sum_update_nat [of w "po_workers p" PReceive workerWeight "PSend (f j)"] by (simp add: poolWeight_def)
next
  case (leave p w)
  then show ?case using sum_update_nat [of w "po_workers p" PReceive workerWeight PReturned] by (simp add: poolWeight_def)
next
  case (sendResult w p r)
  then show ?case using sum_update_nat [of w "po_workers p" "PSend r" workerWeight PReceive] by (simp add: poolWeight_def)
next
  case (handResult w p r)
  then show ?case using sum_update_nat [of w "po_workers p" "PSend r" workerWeight PReceive] by (simp add: poolWeight_def)
qed (simp_all add: poolWeight_def)


lemma returned_update: "PReturned \<in> set (ws[w := y]) \<Longrightarrow> y \<noteq> PReturned \<Longrightarrow> PReturned \<in> set ws"
  using set_update_subset_insert [of ws w y] by auto

lemma all_returned: "set ws = {PReturned} \<Longrightarrow> w < length ws \<Longrightarrow> ws ! w = PReturned"
  using nth_mem [of w ws] by simp

lemma pool_inv: "workerPoolStep f cj cr p q \<Longrightarrow> poolInv f jobs p \<Longrightarrow> poolInv f jobs q"
proof (induction rule: workerPoolStep.induct)
  case (handJob p j js w)
  then show ?case using heldResults_update [of w "po_workers p" PReceive "PSend (f j)"] all_returned [of "po_workers p" w]
    by (auto simp: poolInv_def ac_simps dest: returned_update)
next
  case (takeJob p j js w)
  then show ?case using heldResults_update [of w "po_workers p" PReceive "PSend (f j)"] all_returned [of "po_workers p" w]
    by (auto simp: poolInv_def ac_simps dest: returned_update)
next
  case (leave p w)
  then show ?case using heldResults_update [of w "po_workers p" PReceive PReturned] all_returned [of "po_workers p" w]
    by (auto simp: poolInv_def)
next
  case (sendResult w p r)
  then show ?case using heldResults_update [of w "po_workers p" "PSend r" PReceive, symmetric] all_returned [of "po_workers p" w]
    by (auto simp: poolInv_def ac_simps dest: returned_update)
next
  case (handResult w p r)
  then show ?case using heldResults_update [of w "po_workers p" "PSend r" PReceive, symmetric] all_returned [of "po_workers p" w]
    by (auto simp: poolInv_def ac_simps dest: returned_update)
next
  case (closeResults p)
  then show ?case by (cases "po_workers p") (auto simp: poolInv_def)
qed (auto simp: poolInv_def)

text \<open>A worker that is not through can move, or somebody else can.\<close>

lemma worker_moves:
  assumes "w < length (po_workers p)" "po_workers p ! w \<noteq> PReturned" "po_pending p \<noteq> [] \<or> po_jobsClosed p" "\<not> po_over p"
  shows "\<exists>q. workerPoolStep f cj cr p q"
proof (cases "po_workers p ! w")
  case PReceive
  then show ?thesis
    using assms by (cases "po_jobs p"; cases "po_pending p") (auto intro: workerPoolStep.takeJob workerPoolStep.handJob workerPoolStep.leave)
next
  case (PSend r)
  then show ?thesis using assms by (cases "po_results p") (auto intro: workerPoolStep.handResult workerPoolStep.collect)
qed (use assms in simp)

lemma pool_progress:
  assumes inv: "poolInv f jobs p" and not: "\<not> poolGoal p"
  shows "\<exists>q. workerPoolStep f cj cr p q"
proof -
  have "\<not> po_over p" using inv not by (auto simp: poolInv_def poolGoal_def)
  moreover have "\<exists>q. workerPoolStep f cj cr p q" if "po_pending p = []" "\<not> po_jobsClosed p" using that by (blast intro: workerPoolStep.closeJobs)
  moreover have "\<exists>w < length (po_workers p). po_workers p ! w \<noteq> PReturned" if "po_pending p \<noteq> []"
    using inv that in_set_conv_nth [of _ "po_workers p"] by (auto simp: poolInv_def neq_Nil_conv)
  moreover have "\<exists>q. workerPoolStep f cj cr p q" if "\<forall>w < length (po_workers p). po_workers p ! w = PReturned" "\<not> po_over p"
  proof (cases "po_results p")
    case Nil
    have "\<forall>x \<in> set (po_workers p). x = PReturned" using that(1) by (auto simp: in_set_conv_nth)
    then show ?thesis using Nil that(2) by (cases "po_resultsClosed p") (auto intro: workerPoolStep.finish workerPoolStep.closeResults)
  qed (use that in \<open>blast intro: workerPoolStep.collect\<close>)
  ultimately show ?thesis using worker_moves by meson
qed

interpretation pool: bounded_system "workerPoolStep f cj cr" "poolInv f jobs" poolWeight poolGoal
  by unfold_locales (auto intro: pool_inv pool_weight pool_progress)

lemma newPool_inv: "numWorkers > 0 \<Longrightarrow> poolInv f jobs (newPool numWorkers jobs)"
  by (auto simp: poolInv_def newPool_def intro!: heldResults_none)

lemma newPool_weight: "poolWeight (newPool numWorkers jobs) = 4 * length jobs + numWorkers + 3"
  by (simp add: poolWeight_def newPool_def sum_list_replicate)

lemma pool_collected:
  assumes "poolInv f jobs p" "poolGoal p"
  shows "mset (po_collected p) = mset (map f jobs)"
proof -
  have "heldResults (po_workers p) = {#}" using assms(2) by (intro heldResults_none) (auto simp: poolGoal_def)
  then show ?thesis using assms by (simp add: poolInv_def poolGoal_def)
qed

text \<open>Every schedule of a pool with workers ends, without blocking, after at most \<open>4 * jobs + workers + 3\<close> steps, and then each result has been collected once.\<close>

lemma pool_ends:
  assumes "numWorkers > 0" "(workerPoolStep f cj cr ^^ k) (newPool numWorkers jobs) p"
  shows "k \<le> 4 * length jobs + numWorkers + 3"
    and "(\<nexists>q. workerPoolStep f cj cr p q) \<Longrightarrow> poolGoal p \<and> mset (po_collected p) = mset (map f jobs)"
    and "\<exists>q. (workerPoolStep f cj cr)\<^sup>*\<^sup>* p q \<and> poolGoal q"
proof -
  note inv = newPool_inv [OF assms(1), of f jobs]
  show "k \<le> 4 * length jobs + numWorkers + 3" using pool.ends(1) [OF inv assms(2)] by (simp add: newPool_weight)
  show "\<exists>q. (workerPoolStep f cj cr)\<^sup>*\<^sup>* p q \<and> poolGoal q" by (rule pool.ends(3) [OF inv assms(2)])
  have "poolInv f jobs p" using pool.reach_inv [OF _ inv] assms(2) by (blast intro: relpowp_imp_rtranclp)
  then show "(\<nexists>q. workerPoolStep f cj cr p q) \<Longrightarrow> poolGoal p \<and> mset (po_collected p) = mset (map f jobs)"
    using pool.ends(2) [OF inv assms(2)] pool_collected by blast
qed


text \<open>A pool without workers ends at once with no result, and without buffer the sender stays blocked for ever.\<close>

lemma no_workers_no_results:
  assumes "(workerPoolStep f 0 cr)\<^sup>*\<^sup>* (newPool 0 jobs) p"
  shows "po_collected p = [] \<and> po_pending p = jobs"
proof -
  have "po_workers p = [] \<and> po_pending p = jobs \<and> po_jobs p = [] \<and> po_results p = [] \<and> po_collected p = []"
    using assms by (induction rule: rtranclp_induct) (auto simp: newPool_def elim!: workerPoolStep.cases)
  then show ?thesis by simp
qed

text \<open>The pool of the example: ten jobs, three workers, both channels with ten places; a result is twice the job.\<close>

definition example8 :: "(int, int) Pool" where
  "example8 = newPool 3 [1..10]"

definition example8Step :: "(int, int) Pool \<Rightarrow> (int, int) Pool \<Rightarrow> bool" where
  "example8Step = workerPoolStep (\<lambda>job. i64 (job * 2)) 10 10"

lemma example8_ends:
  assumes "(example8Step ^^ k) example8 p"
  shows "k \<le> 46" and "(\<nexists>q. example8Step p q) \<Longrightarrow> mset (po_collected p) = mset [2, 4, 6, 8, 10, 12, 14, 16, 18, 20]"
proof -
  have jobs: "map (\<lambda>job. i64 (job * 2)) [1..10] = [2, 4, 6, 8, 10, 12, 14, 16, 18, 20]" by code_simp
  show "k \<le> 46" using pool_ends(1) [OF _ assms [unfolded example8_def example8Step_def]] by simp
  show "mset (po_collected p) = mset [2, 4, 6, 8, 10, 12, 14, 16, 18, 20]" if "\<nexists>q. example8Step p q"
    using pool_ends(2) [OF _ assms [unfolded example8_def example8Step_def]] that unfolding jobs example8Step_def by simp
qed

section \<open>Pipeline\<close>

text \<open>A stage waits for a value, holds one that it wants to send, or has closed its channel.\<close>

datatype Stage = Receive | Send int | Closed

fun held :: "Stage \<Rightarrow> int list" where
  "held (Send n) = [n]"
| "held s = []"

definition squareOf :: "int \<Rightarrow> int" where
  "squareOf n = i64 (n * n)"

record Pipeline =
  pl_pending :: "int list"
  pl_closed :: bool
  pl_square :: Stage
  pl_even :: Stage
  pl_received :: "int list"
  pl_over :: bool

definition newPipeline :: "int list \<Rightarrow> Pipeline" where
  "newPipeline nums = \<lparr>pl_pending = nums, pl_closed = False, pl_square = Receive, pl_even = Receive, pl_received = [], pl_over = False\<rparr>"

inductive pipelineStep :: "Pipeline \<Rightarrow> Pipeline \<Rightarrow> bool" where
  generate: "pl_pending p = n # ns \<Longrightarrow> pl_square p = Receive \<Longrightarrow> pipelineStep p (p\<lparr>pl_pending := ns, pl_square := Send (squareOf n)\<rparr>)"
| closeGenerate: "pl_pending p = [] \<Longrightarrow> \<not> pl_closed p \<Longrightarrow> pipelineStep p (p\<lparr>pl_closed := True\<rparr>)"
| closeSquare: "pl_closed p \<Longrightarrow> pl_square p = Receive \<Longrightarrow> pipelineStep p (p\<lparr>pl_square := Closed\<rparr>)"
| square: "pl_square p = Send n \<Longrightarrow> pl_even p = Receive \<Longrightarrow> pipelineStep p (p\<lparr>pl_square := Receive, pl_even := (if n mod 2 = 0 then Send n else Receive)\<rparr>)"
| closeEven: "pl_square p = Closed \<Longrightarrow> pl_even p = Receive \<Longrightarrow> pipelineStep p (p\<lparr>pl_even := Closed\<rparr>)"
| receive: "pl_even p = Send n \<Longrightarrow> \<not> pl_over p \<Longrightarrow> pipelineStep p (p\<lparr>pl_even := Receive, pl_received := pl_received p @ [n]\<rparr>)"
| finish: "pl_even p = Closed \<Longrightarrow> \<not> pl_over p \<Longrightarrow> pipelineStep p (p\<lparr>pl_over := True\<rparr>)"

definition evens :: "int list \<Rightarrow> int list" where
  "evens ns = filter (\<lambda>n. n mod 2 = 0) ns"

fun stageWeight :: "Stage \<Rightarrow> nat" where
  "stageWeight Receive = 1"
| "stageWeight (Send n) = 2"
| "stageWeight Closed = 0"

fun stageWeight1 :: "Stage \<Rightarrow> nat" where
  "stageWeight1 Receive = 1"
| "stageWeight1 (Send n) = 3"
| "stageWeight1 Closed = 0"

definition pipelineWeight :: "Pipeline \<Rightarrow> nat" where
  "pipelineWeight p = 3 * length (pl_pending p) + stageWeight1 (pl_square p) + stageWeight (pl_even p) + of_bool (\<not> pl_closed p) + of_bool (\<not> pl_over p)"

definition pipelineInv :: "int list \<Rightarrow> Pipeline \<Rightarrow> bool" where
  "pipelineInv nums p \<longleftrightarrow> evens (map squareOf nums) = pl_received p @ held (pl_even p) @ evens (held (pl_square p)) @ evens (map squareOf (pl_pending p))
     \<and> (pl_closed p \<longrightarrow> pl_pending p = []) \<and> (pl_square p = Closed \<longrightarrow> pl_closed p) \<and> (pl_even p = Closed \<longrightarrow> pl_square p = Closed) \<and> (pl_over p \<longrightarrow> pl_even p = Closed)"

lemma pipeline_inv: "pipelineStep p q \<Longrightarrow> pipelineInv nums p \<Longrightarrow> pipelineInv nums q"
  by (induction rule: pipelineStep.induct) (auto simp: pipelineInv_def evens_def)

lemma pipeline_weight: "pipelineStep p q \<Longrightarrow> pipelineWeight q < pipelineWeight p"
  by (induction rule: pipelineStep.induct) (auto simp: pipelineWeight_def)

lemma pipeline_progress:
  assumes inv: "pipelineInv nums p" and "\<not> pl_over p"
  shows "\<exists>q. pipelineStep p q"
proof (cases "pl_even p")
  case Receive
  have "\<exists>q. pipelineStep p q" if "pl_square p = Receive"
    using that by (cases "pl_pending p"; cases "pl_closed p") (auto intro: pipelineStep.generate pipelineStep.closeGenerate pipelineStep.closeSquare)
  then show ?thesis using Receive by (cases "pl_square p") (blast intro: pipelineStep.square pipelineStep.closeEven)+
qed (use assms in \<open>blast intro: pipelineStep.receive pipelineStep.finish\<close>)+

interpretation pipeline: bounded_system pipelineStep "pipelineInv nums" pipelineWeight pl_over
  by unfold_locales (auto intro: pipeline_inv pipeline_weight pipeline_progress)

text \<open>The pipeline delivers the even squares in order, after at most \<open>3 * numbers + 4\<close> steps.\<close>

lemma pipeline_ends:
  assumes "(pipelineStep ^^ k) (newPipeline nums) p"
  shows "k \<le> 3 * length nums + 4" and "(\<nexists>q. pipelineStep p q) \<Longrightarrow> pl_over p \<and> pl_received p = evens (map squareOf nums)"
    and "\<exists>q. pipelineStep\<^sup>*\<^sup>* p q \<and> pl_over q"
proof -
  have inv: "pipelineInv nums (newPipeline nums)" by (simp add: pipelineInv_def newPipeline_def evens_def)
  show "k \<le> 3 * length nums + 4" using pipeline.ends(1) [OF inv assms] by (simp add: pipelineWeight_def newPipeline_def)
  show "\<exists>q. pipelineStep\<^sup>*\<^sup>* p q \<and> pl_over q" by (rule pipeline.ends(3) [OF inv assms])
  have "pipelineInv nums p" using pipeline.reach_inv [OF _ inv] assms by (blast intro: relpowp_imp_rtranclp)
  then show "(\<nexists>q. pipelineStep p q) \<Longrightarrow> pl_over p \<and> pl_received p = evens (map squareOf nums)"
    using pipeline.ends(2) [OF inv assms] by (auto simp: pipelineInv_def evens_def)
qed


section \<open>Fan-out and fan-in\<close>

text \<open>A branch is a squaring goroutine with the goroutine that forwards its channel to the merged one; all branches receive from the same channel.\<close>

record Fan =
  fa_pending :: "int list"
  fa_closed :: bool
  fa_branches :: "(Stage \<times> Stage) list"
  fa_outClosed :: bool
  fa_received :: "int list"
  fa_over :: bool

definition newFan :: "nat \<Rightarrow> int list \<Rightarrow> Fan" where
  "newFan branches nums =
     \<lparr>fa_pending = nums, fa_closed = False, fa_branches = replicate branches (Receive, Receive), fa_outClosed = False, fa_received = [], fa_over = False\<rparr>"

inductive fanStep :: "Fan \<Rightarrow> Fan \<Rightarrow> bool" where
  gen: "fa_pending p = n # ns \<Longrightarrow> i < length (fa_branches p) \<Longrightarrow> fa_branches p ! i = (Receive, out)
    \<Longrightarrow> fanStep p (p\<lparr>fa_pending := ns, fa_branches := (fa_branches p)[i := (Send (squareOf n), out)]\<rparr>)"
| closeGen: "fa_pending p = [] \<Longrightarrow> \<not> fa_closed p \<Longrightarrow> fanStep p (p\<lparr>fa_closed := True\<rparr>)"
| closeSq: "fa_closed p \<Longrightarrow> i < length (fa_branches p) \<Longrightarrow> fa_branches p ! i = (Receive, out) \<Longrightarrow> fanStep p (p\<lparr>fa_branches := (fa_branches p)[i := (Closed, out)]\<rparr>)"
| sq: "i < length (fa_branches p) \<Longrightarrow> fa_branches p ! i = (Send n, Receive) \<Longrightarrow> fanStep p (p\<lparr>fa_branches := (fa_branches p)[i := (Receive, Send n)]\<rparr>)"
| outputDone: "i < length (fa_branches p) \<Longrightarrow> fa_branches p ! i = (Closed, Receive) \<Longrightarrow> fanStep p (p\<lparr>fa_branches := (fa_branches p)[i := (Closed, Closed)]\<rparr>)"
| forward: "i < length (fa_branches p) \<Longrightarrow> fa_branches p ! i = (s, Send n) \<Longrightarrow> \<not> fa_over p
    \<Longrightarrow> fanStep p (p\<lparr>fa_branches := (fa_branches p)[i := (s, Receive)], fa_received := fa_received p @ [n]\<rparr>)"
| closeOut: "list_all (\<lambda>b. snd b = Closed) (fa_branches p) \<Longrightarrow> \<not> fa_outClosed p \<Longrightarrow> fanStep p (p\<lparr>fa_outClosed := True\<rparr>)"
| fanFinish: "fa_outClosed p \<Longrightarrow> \<not> fa_over p \<Longrightarrow> fanStep p (p\<lparr>fa_over := True\<rparr>)"

definition branchHeld :: "(Stage \<times> Stage) list \<Rightarrow> int multiset" where
  "branchHeld bs = sum_list (map (\<lambda>b. mset (held (fst b) @ held (snd b))) bs)"

definition branchWeight :: "Stage \<times> Stage \<Rightarrow> nat" where
  "branchWeight b = stageWeight1 (fst b) + stageWeight (snd b)"

definition fanWeight :: "Fan \<Rightarrow> nat" where
  "fanWeight p = 3 * length (fa_pending p) + sum_list (map branchWeight (fa_branches p)) + of_bool (\<not> fa_closed p) + of_bool (\<not> fa_outClosed p) + of_bool (\<not> fa_over p)"

text \<open>A branch closes its first channel after the generator, and its second after the first.\<close>

definition branchOk :: "bool \<Rightarrow> bool \<Rightarrow> Stage \<times> Stage \<Rightarrow> bool" where
  "branchOk closed outClosed b \<longleftrightarrow> (fst b = Closed \<longrightarrow> closed) \<and> (snd b = Closed \<longrightarrow> fst b = Closed) \<and> (outClosed \<longrightarrow> snd b = Closed)"

definition fanInv :: "int list \<Rightarrow> Fan \<Rightarrow> bool" where
  "fanInv nums p \<longleftrightarrow> mset (map squareOf nums) = mset (map squareOf (fa_pending p)) + branchHeld (fa_branches p) + mset (fa_received p)
     \<and> fa_branches p \<noteq> [] \<and> (fa_closed p \<longrightarrow> fa_pending p = []) \<and> (\<forall>i < length (fa_branches p). branchOk (fa_closed p) (fa_outClosed p) (fa_branches p ! i))
     \<and> (fa_over p \<longrightarrow> fa_outClosed p)"

lemma branch_update:
  assumes "i < length bs" "bs ! i = b"
  shows "mset (held (fst b) @ held (snd b)) + branchHeld (bs[i := b']) = mset (held (fst b') @ held (snd b')) + branchHeld bs"
  using assms by (induction bs arbitrary: i) (auto simp: branchHeld_def nth_Cons ac_simps split: nat.splits)

lemma fan_weight: "fanStep p q \<Longrightarrow> fanWeight q < fanWeight p"
proof (induction rule: fanStep.induct)
  case (gen p n ns i out)
  then show ?case using sum_update_nat [of i "fa_branches p" _ branchWeight "(Send (squareOf n), out)"] by (simp add: fanWeight_def branchWeight_def)
next
  case (closeSq p i out)
  then show ?case using sum_update_nat [of i "fa_branches p" _ branchWeight "(Closed, out)"] by (simp add: fanWeight_def branchWeight_def)
next
  case (sq i p n)
  then show ?case using sum_update_nat [of i "fa_branches p" _ branchWeight "(Receive, Send n)"] by (simp add: fanWeight_def branchWeight_def)
next
  case (outputDone i p)
  then show ?case using sum_update_nat [of i "fa_branches p" _ branchWeight "(Closed, Closed)"] by (simp add: fanWeight_def branchWeight_def)
next
  case (forward i p s n)
  then show ?case using sum_update_nat [of i "fa_branches p" _ branchWeight "(s, Receive)"] by (simp add: fanWeight_def branchWeight_def)
qed (simp_all add: fanWeight_def)

lemma fan_inv: "fanStep p q \<Longrightarrow> fanInv nums p \<Longrightarrow> fanInv nums q"
proof (induction rule: fanStep.induct)
  case (gen p n ns i out)
  then show ?case using branch_update [of i "fa_branches p" _ "(Send (squareOf n), out)"] by (auto simp: fanInv_def branchOk_def nth_list_update)
next
  case (closeSq p i out)
  then show ?case using branch_update [of i "fa_branches p" _ "(Closed, out)"] by (auto simp: fanInv_def branchOk_def nth_list_update)
next
  case (sq i p n)
  then show ?case using branch_update [of i "fa_branches p" _ "(Receive, Send n)"] by (auto simp: fanInv_def branchOk_def nth_list_update)
next
  case (outputDone i p)
  then show ?case using branch_update [of i "fa_branches p" _ "(Closed, Closed)"] by (auto simp: fanInv_def branchOk_def nth_list_update)
next
  case (forward i p s n)
  then show ?case using branch_update [of i "fa_branches p" "(s, Send n)" "(s, Receive)", symmetric] by (auto simp: fanInv_def branchOk_def nth_list_update)
qed (auto simp: fanInv_def branchOk_def list_all_length)

text \<open>A branch that is not closed on both sides can move.\<close>

lemma branch_moves:
  assumes "i < length (fa_branches p)" "fa_branches p ! i \<noteq> (Closed, Closed)" "branchOk (fa_closed p) oc (fa_branches p ! i)" "fa_pending p \<noteq> [] \<or> fa_closed p" "\<not> fa_over p"
  shows "\<exists>q. fanStep p q"
proof -
  obtain s out where b: "fa_branches p ! i = (s, out)" by fastforce
  show ?thesis
  proof (cases out)
    case Receive
    then show ?thesis using assms b
      by (cases s; cases "fa_pending p") (auto intro: fanStep.gen fanStep.closeSq fanStep.sq fanStep.outputDone)
  next
    case (Send n)
    then show ?thesis using assms b by (blast intro: fanStep.forward)
  qed (use assms b in \<open>auto simp: branchOk_def\<close>)
qed

lemma fan_progress:
  assumes inv: "fanInv nums p" and "\<not> fa_over p"
  shows "\<exists>q. fanStep p q"
proof (cases "fa_pending p = [] \<and> \<not> fa_closed p")
  case True
  then show ?thesis by (blast intro: fanStep.closeGen)
next
  case False
  show ?thesis
  proof (cases "\<exists>i < length (fa_branches p). fa_branches p ! i \<noteq> (Closed, Closed)")
    case True
    then show ?thesis using inv assms(2) False branch_moves unfolding fanInv_def by blast
  next
    case False
    then have "list_all (\<lambda>b. snd b = Closed) (fa_branches p)" by (auto simp: list_all_length)
    then show ?thesis using assms(2) by (cases "fa_outClosed p") (blast intro: fanStep.fanFinish fanStep.closeOut)+
  qed
qed

interpretation fan: bounded_system fanStep "fanInv nums" fanWeight fa_over
  by unfold_locales (auto intro: fan_inv fan_weight fan_progress)

lemma closed_held: "\<forall>i < length bs. bs ! i = (Closed, Closed) \<Longrightarrow> branchHeld bs = {#}"
proof -
  assume "\<forall>i < length bs. bs ! i = (Closed, Closed)"
  then have "set bs \<subseteq> {(Closed, Closed)}" by (auto simp: in_set_conv_nth)
  then show ?thesis by (induction bs) (auto simp: branchHeld_def)
qed

lemma fan_drained:
  assumes "fanInv nums p" "fa_over p"
  shows "mset (fa_received p) = mset (map squareOf nums)"
proof -
  have eq: "mset (map squareOf nums) = mset (map squareOf (fa_pending p)) + branchHeld (fa_branches p) + mset (fa_received p)"
    and ok: "\<forall>i < length (fa_branches p). branchOk (fa_closed p) (fa_outClosed p) (fa_branches p ! i)"
    and len: "0 < length (fa_branches p)" and cl: "fa_closed p \<longrightarrow> fa_pending p = []" and "fa_outClosed p"
    using assms unfolding fanInv_def by blast+
  then have all: "\<forall>i < length (fa_branches p). fa_branches p ! i = (Closed, Closed)" by (auto simp: branchOk_def prod_eq_iff)
  have "branchOk (fa_closed p) (fa_outClosed p) (Closed, Closed)" using ok [rule_format, OF len] all [rule_format, OF len] by simp
  then have "fa_pending p = []" using cl by (simp add: branchOk_def)
  then show ?thesis using eq closed_held [OF all] by simp
qed

text \<open>With at least one branch the merged channel delivers the square of each number once, after at most \<open>3 * numbers + 2 * branches + 3\<close> steps.\<close>

lemma fan_ends:
  assumes "branches > 0" "(fanStep ^^ k) (newFan branches nums) p"
  shows "k \<le> 3 * length nums + 2 * branches + 3" and "(\<nexists>q. fanStep p q) \<Longrightarrow> fa_over p \<and> mset (fa_received p) = mset (map squareOf nums)"
    and "\<exists>q. fanStep\<^sup>*\<^sup>* p q \<and> fa_over q"
proof -
  have "branchHeld (replicate branches (Receive, Receive)) = {#}" by (induction branches) (auto simp: branchHeld_def)
  then have inv: "fanInv nums (newFan branches nums)" using assms(1) by (simp add: fanInv_def newFan_def branchOk_def)
  show "k \<le> 3 * length nums + 2 * branches + 3" using fan.ends(1) [OF inv assms(2)] by (simp add: fanWeight_def newFan_def branchWeight_def sum_list_replicate)
  show "\<exists>q. fanStep\<^sup>*\<^sup>* p q \<and> fa_over q" by (rule fan.ends(3) [OF inv assms(2)])
  have fin: "fanInv nums p" using fan.reach_inv [OF _ inv] assms(2) by (blast intro: relpowp_imp_rtranclp)
  then show "(\<nexists>q. fanStep p q) \<Longrightarrow> fa_over p \<and> mset (fa_received p) = mset (map squareOf nums)"
    using fan.ends(2) [OF inv assms(2)] fan_drained by blast
qed

section \<open>Semaphore\<close>

datatype SemTask = Waiting | Running | Finished

record Semaphore =
  se_places :: nat
  se_tasks :: "SemTask list"

definition newSemaphore :: "nat \<Rightarrow> Semaphore" where
  "newSemaphore tasks = \<lparr>se_places = 0, se_tasks = replicate tasks Waiting\<rparr>"

text \<open>A task takes a place in the channel before its work and gives it back afterwards.\<close>

inductive semaphoreStep :: "nat \<Rightarrow> Semaphore \<Rightarrow> Semaphore \<Rightarrow> bool" for maxConcurrent :: nat where
  acquire: "i < length (se_tasks s) \<Longrightarrow> se_tasks s ! i = Waiting \<Longrightarrow> se_places s < maxConcurrent
    \<Longrightarrow> semaphoreStep maxConcurrent s (s\<lparr>se_places := se_places s + 1, se_tasks := (se_tasks s)[i := Running]\<rparr>)"
| release: "i < length (se_tasks s) \<Longrightarrow> se_tasks s ! i = Running \<Longrightarrow> se_places s > 0
    \<Longrightarrow> semaphoreStep maxConcurrent s (s\<lparr>se_places := se_places s - 1, se_tasks := (se_tasks s)[i := Finished]\<rparr>)"

fun taskWeight :: "SemTask \<Rightarrow> nat" where
  "taskWeight Waiting = 2"
| "taskWeight Running = 1"
| "taskWeight Finished = 0"

definition running :: "SemTask list \<Rightarrow> nat" where
  "running ts = sum_list (map (\<lambda>t. of_bool (t = Running)) ts)"

definition semaphoreInv :: "nat \<Rightarrow> nat \<Rightarrow> Semaphore \<Rightarrow> bool" where
  "semaphoreInv tasks maxConcurrent s \<longleftrightarrow> length (se_tasks s) = tasks \<and> se_places s = running (se_tasks s) \<and> se_places s \<le> maxConcurrent"

definition semaphoreWeight :: "Semaphore \<Rightarrow> nat" where
  "semaphoreWeight s = sum_list (map taskWeight (se_tasks s))"

definition allFinished :: "Semaphore \<Rightarrow> bool" where
  "allFinished s \<longleftrightarrow> list_all (\<lambda>t. t = Finished) (se_tasks s)"

lemma running_update: "i < length ts \<Longrightarrow> ts ! i = x \<Longrightarrow> running (ts[i := y]) + of_bool (x = Running) = running ts + of_bool (y = Running)"
  using sum_update_nat [of i ts x "\<lambda>t. of_bool (t = Running)" y] by (simp add: running_def)

lemma semaphore_inv: "semaphoreStep m s t \<Longrightarrow> semaphoreInv tasks m s \<Longrightarrow> semaphoreInv tasks m t"
proof (induction rule: semaphoreStep.induct)
  case (acquire i s)
  then show ?case using running_update [of i "se_tasks s" Waiting Running] by (simp add: semaphoreInv_def)
next
  case (release i s)
  then show ?case using running_update [of i "se_tasks s" Running Finished] by (auto simp: semaphoreInv_def)
qed

lemma semaphore_weight: "semaphoreStep m s t \<Longrightarrow> semaphoreWeight t < semaphoreWeight s"
proof (induction rule: semaphoreStep.induct)
  case (acquire i s)
  then show ?case using sum_update_nat [of i "se_tasks s" Waiting taskWeight Running] by (simp add: semaphoreWeight_def)
next
  case (release i s)
  then show ?case using sum_update_nat [of i "se_tasks s" Running taskWeight Finished] by (simp add: semaphoreWeight_def)
qed

lemma running_pos: "i < length ts \<Longrightarrow> ts ! i = Running \<Longrightarrow> running ts > 0"
  using running_update [of i ts Running Finished] by simp

lemma none_running: "\<forall>i < length ts. ts ! i \<noteq> Running \<Longrightarrow> running ts = 0"
  by (auto simp: running_def in_set_conv_nth)

lemma semaphore_progress:
  assumes inv: "semaphoreInv tasks m s" and m: "m > 0" and n: "\<not> allFinished s"
  shows "\<exists>t. semaphoreStep m s t"
proof (cases "\<exists>i < length (se_tasks s). se_tasks s ! i = Running")
  case True
  then show ?thesis using inv running_pos by (metis semaphoreInv_def semaphoreStep.release)
next
  case False
  then have "se_places s < m" using inv m none_running [of "se_tasks s"] by (auto simp: semaphoreInv_def)
  moreover obtain i where "i < length (se_tasks s)" "se_tasks s ! i = Waiting"
    using n False by (auto simp: allFinished_def list_all_length) (metis SemTask.exhaust)
  ultimately show ?thesis by (blast intro: semaphoreStep.acquire)
qed

interpretation semaphore: bounded_system "semaphoreStep (Suc m)" "semaphoreInv tasks (Suc m)" semaphoreWeight allFinished
  by unfold_locales (auto intro: semaphore_inv semaphore_weight semaphore_progress)

text \<open>With at least one place never more tasks run than there are places, and every task is finished after at most two steps for each.\<close>

lemma semaphore_ends:
  assumes "maxConcurrent > 0" "(semaphoreStep maxConcurrent ^^ k) (newSemaphore tasks) s"
  shows "running (se_tasks s) \<le> maxConcurrent" and "k \<le> 2 * tasks" and "(\<nexists>t. semaphoreStep maxConcurrent s t) \<Longrightarrow> allFinished s"
proof -
  obtain m where m: "maxConcurrent = Suc m" using assms(1) gr0_conv_Suc by blast
  have "running (replicate tasks Waiting) = 0" by (induction tasks) (auto simp: running_def)
  then have inv: "semaphoreInv tasks (Suc m) (newSemaphore tasks)" by (simp add: semaphoreInv_def newSemaphore_def)
  note st = assms(2) [unfolded m]
  have "semaphoreInv tasks (Suc m) s" using semaphore.reach_inv [OF _ inv] st by (blast intro: relpowp_imp_rtranclp)
  then show "running (se_tasks s) \<le> maxConcurrent" by (simp add: semaphoreInv_def m)
  show "k \<le> 2 * tasks" using semaphore.ends(1) [OF inv st] by (simp add: semaphoreWeight_def newSemaphore_def sum_list_replicate)
  show "(\<nexists>t. semaphoreStep maxConcurrent s t) \<Longrightarrow> allFinished s" using semaphore.ends(2) [OF inv st] by (simp add: m)
qed


section \<open>Delivery\<close>

text \<open>C40.  A worker pool with at least one worker, whatever the capacities of its channels: every schedule has at most \<open>4 * jobs + workers + 3\<close> steps, the end can always be reached and nothing blocks before,
  and at the end each result has been collected exactly once.\<close>

theorem worker_pool_delivers:
  assumes "numWorkers > 0" "(workerPoolStep f capJobs capResults ^^ k) (newPool numWorkers jobs) p"
  shows "k \<le> 4 * length jobs + numWorkers + 3
    \<and> (\<exists>q. (workerPoolStep f capJobs capResults)\<^sup>*\<^sup>* p q \<and> po_over q)
    \<and> ((\<nexists>q. workerPoolStep f capJobs capResults p q) \<longrightarrow> po_over p)
    \<and> (po_over p \<longrightarrow> mset (po_collected p) = mset (map f jobs))"
proof -
  have "poolInv f jobs p" using pool.reach_inv [OF _ newPool_inv [OF assms(1)]] assms(2) by (blast intro: relpowp_imp_rtranclp)
  then have "poolGoal p \<longleftrightarrow> po_over p" "po_over p \<Longrightarrow> mset (po_collected p) = mset (map f jobs)"
    using pool_collected by (auto simp: poolGoal_def poolInv_def)
  then show ?thesis using pool_ends [OF assms] by (auto simp: poolGoal_def)
qed

theorem worker_pool_delivers_witness: "\<exists>q. example8Step\<^sup>*\<^sup>* example8 q \<and> po_over q"
  using worker_pool_delivers [where numWorkers = 3 and f = "\<lambda>job. i64 (job * 2)" and capJobs = 10 and capResults = 10 and k = 0 and jobs = "[1..10]" and p = "newPool 3 [1..10]"] by (simp add: example8_def example8Step_def)

end
