(* ===== verification/AdvancedPatterns.thy ===== *)
theory AdvancedPatterns
  imports ChannelPatterns "HOL-Library.Sublist"
begin

text \<open>
  The patterns of \<open>src/examples/04_advanced_patterns.go\<close>: circuit breaker, publish and subscribe, bounded parallelism, retries with growing delays and a batch processor.

  \<open>Call\<close> of the breaker holds the mutex while the function runs, so that a call is one step, with the times at its beginning and its end and the outcome of the function as arguments.  The channels of the subscribers are kept in one list
  with their topics, in the order of subscription.  The multiplication of a delay, in floating point in the code, is a parameter.  Texts that are printed are left out; a warning about a lost message is counted.

  Shown: after \<open>maxFailures\<close> failed calls in a row the next call runs more than \<open>resetTimeout\<close> later, and calls are refused for no other reason; a subscriber receives the messages of its topic in order, without those it was warned
  about; the bounded pool is the one of \<open>ChannelPatterns\<close>; retries return the first success; a batch processor passes everything it takes on in order, in batches that are not empty and not too long.
\<close>

section \<open>Circuit breaker\<close>

datatype CBState = CBClosed | CBOpen | CBHalfOpen

record CircuitBreaker04 =
  cb4_failures :: int
  cb4_maxFailures :: int
  cb4_state :: CBState
  cb4_lastFailTime :: gotime
  cb4_resetTimeout :: duration
  cb4_successCount :: int

definition newCircuitBreaker04 :: "int \<Rightarrow> duration \<Rightarrow> CircuitBreaker04" where
  "newCircuitBreaker04 maxFailures resetTimeout =
     \<lparr>cb4_failures = 0, cb4_maxFailures = maxFailures, cb4_state = CBClosed, cb4_lastFailTime = zeroTime, cb4_resetTimeout = resetTimeout, cb4_successCount = 0\<rparr>"

datatype CallResult = CallRefused | CallFailed | CallSucceeded

definition tryHalfOpen :: "gotime \<Rightarrow> CircuitBreaker04 \<Rightarrow> CircuitBreaker04" where
  "tryHalfOpen now cb = (if cb4_state cb = CBOpen \<and> now - cb4_lastFailTime cb > cb4_resetTimeout cb then cb\<lparr>cb4_state := CBHalfOpen, cb4_successCount := 0\<rparr> else cb)"

definition afterFailure :: "gotime \<Rightarrow> CircuitBreaker04 \<Rightarrow> CircuitBreaker04" where
  "afterFailure later cb =
     (let cb = cb\<lparr>cb4_failures := i64 (cb4_failures cb + 1), cb4_lastFailTime := later\<rparr>
      in if cb4_state cb = CBHalfOpen then cb\<lparr>cb4_state := CBOpen\<rparr> else if cb4_failures cb \<ge> cb4_maxFailures cb then cb\<lparr>cb4_state := CBOpen\<rparr> else cb)"

definition afterSuccess :: "CircuitBreaker04 \<Rightarrow> CircuitBreaker04" where
  "afterSuccess cb =
     (if cb4_state cb = CBHalfOpen
      then (let cb = cb\<lparr>cb4_successCount := i64 (cb4_successCount cb + 1)\<rparr>
            in if cb4_successCount cb \<ge> 2 then cb\<lparr>cb4_state := CBClosed, cb4_failures := 0\<rparr> else cb)
      else cb\<lparr>cb4_failures := 0\<rparr>)"

definition call :: "gotime \<Rightarrow> gotime \<Rightarrow> bool \<Rightarrow> CircuitBreaker04 \<Rightarrow> CallResult \<times> CircuitBreaker04" where
  "call now later ok cb =
     (let cb = tryHalfOpen now cb
      in if cb4_state cb = CBOpen then (CallRefused, cb)
         else if \<not> ok then (CallFailed, afterFailure later cb) else (CallSucceeded, afterSuccess cb))"

text \<open>A history of calls with the log of those that ran the function.\<close>

record BreakerCall =
  bc_start :: gotime
  bc_finish :: gotime
  bc_ok :: bool

definition callStep :: "CircuitBreaker04 \<times> BreakerCall list \<Rightarrow> BreakerCall \<Rightarrow> CircuitBreaker04 \<times> BreakerCall list" where
  "callStep s c = (case call (bc_start c) (bc_finish c) (bc_ok c) (fst s) of (r, cb) \<Rightarrow> (cb, if r = CallRefused then snd s else snd s @ [c]))"

text \<open>The number of failed calls at the end of a log.\<close>

definition failuresAtEnd :: "BreakerCall list \<Rightarrow> nat" where
  "failuresAtEnd cs = length (takeWhile (\<lambda>c. \<not> bc_ok c) (rev cs))"

definition gapsOk :: "int \<Rightarrow> duration \<Rightarrow> BreakerCall list \<Rightarrow> bool" where
  "gapsOk m t cs \<longleftrightarrow> (\<forall>i < length cs. m \<le> int (failuresAtEnd (take i cs)) \<longrightarrow> bc_start (cs ! i) - bc_finish (cs ! (i - 1)) > t)"

definition breakerInv04 :: "int \<Rightarrow> duration \<Rightarrow> CircuitBreaker04 \<times> BreakerCall list \<Rightarrow> bool" where
  "breakerInv04 m t s \<longleftrightarrow> (let cb = fst s; cs = snd s in
     cb4_maxFailures cb = m \<and> cb4_resetTimeout cb = t \<and> gapsOk m t cs \<and>
     (case cb4_state cb of
        CBClosed \<Rightarrow> cb4_failures cb = int (failuresAtEnd cs) \<and> cb4_failures cb < m
      | CBHalfOpen \<Rightarrow> failuresAtEnd cs = 0 \<and> cb4_successCount cb = 1
      | CBOpen \<Rightarrow> cs \<noteq> [] \<and> \<not> bc_ok (last cs) \<and> cb4_lastFailTime cb = bc_finish (last cs)))"

lemma failuresAtEnd_snoc [simp]: "failuresAtEnd (cs @ [c]) = (if bc_ok c then 0 else Suc (failuresAtEnd cs))"
  by (simp add: failuresAtEnd_def)

lemma failuresAtEnd_Nil [simp]: "failuresAtEnd [] = 0"
  by (simp add: failuresAtEnd_def)

lemma gapsOk_snoc:
  "gapsOk m t (cs @ [c]) \<longleftrightarrow> gapsOk m t cs \<and> (m \<le> int (failuresAtEnd cs) \<longrightarrow> cs \<noteq> [] \<longrightarrow> bc_start c - bc_finish (last cs) > t) \<and> (m \<le> 0 \<longrightarrow> cs = [] \<longrightarrow> bc_start c - bc_finish c > t)"
proof -
  have "gapsOk m t (cs @ [c]) \<longleftrightarrow> (\<forall>i < length cs. m \<le> int (failuresAtEnd (take i (cs @ [c]))) \<longrightarrow> bc_start ((cs @ [c]) ! i) - bc_finish ((cs @ [c]) ! (i - 1)) > t)
      \<and> (m \<le> int (failuresAtEnd cs) \<longrightarrow> bc_start c - bc_finish ((cs @ [c]) ! (length cs - 1)) > t)"
    by (auto simp: gapsOk_def less_Suc_eq)
  also have "(\<forall>i < length cs. m \<le> int (failuresAtEnd (take i (cs @ [c]))) \<longrightarrow> bc_start ((cs @ [c]) ! i) - bc_finish ((cs @ [c]) ! (i - 1)) > t) \<longleftrightarrow> gapsOk m t cs"
    by (auto simp: gapsOk_def nth_append)
  finally show ?thesis by (cases "cs = []") (auto simp: nth_append last_conv_nth)
qed

lemma breaker_step:
  assumes "breakerInv04 m t s" "0 < m" "in_i64 m"
  shows "breakerInv04 m t (callStep s c)"
proof -
  obtain cb cs where s: "s = (cb, cs)" by fastforce
  have m63: "m < 2 ^ 63" using assms(3) by (simp add: in_i64_def)
  show ?thesis
  proof (cases "cb4_state cb")
    case CBClosed
    then have f: "cb4_failures cb = int (failuresAtEnd cs)" "int (failuresAtEnd cs) < m" using assms(1) by (auto simp: s breakerInv04_def Let_def)
    then have "i64 (int (failuresAtEnd cs) + 1) = int (failuresAtEnd cs) + 1" using m63 by (intro i64_id in_i64I) auto
    then show ?thesis using CBClosed f assms
      by (auto simp: s breakerInv04_def Let_def callStep_def call_def tryHalfOpen_def afterFailure_def afterSuccess_def gapsOk_snoc)
  next
    case CBHalfOpen
    then show ?thesis using assms
      by (auto simp: s breakerInv04_def Let_def callStep_def call_def tryHalfOpen_def afterFailure_def afterSuccess_def gapsOk_snoc i64_def)
  next
    case CBOpen
    then show ?thesis using assms
      by (auto simp: s breakerInv04_def Let_def callStep_def call_def tryHalfOpen_def afterFailure_def afterSuccess_def gapsOk_snoc i64_def)
  qed
qed


interpretation breaker04: guarded_object callStep "breakerInv04 m t" "\<lambda>_ _. 0 < m \<and> in_i64 m"
  by unfold_locales (auto intro: breaker_step)

lemma breaker04_run:
  assumes "0 < m" "in_i64 m"
  shows "breakerInv04 m t (run callStep (newCircuitBreaker04 m t, []) cs)"
proof (rule breaker04.guarded_run)
  show "breakerInv04 m t (newCircuitBreaker04 m t, [])" using assms by (simp add: breakerInv04_def newCircuitBreaker04_def gapsOk_def)
  show "admissible callStep (\<lambda>_ _. 0 < m \<and> in_i64 m) (newCircuitBreaker04 m t, []) cs" using assms by simp
qed

text \<open> The circuit breaker of the example, in every history of calls: a call that runs directly after \<open>maxFailures\<close> or more failures in a row begins more than \<open>resetTimeout\<close> after the last of them; and a call is
  refused only when the last call that ran has failed and ended at most \<open>resetTimeout\<close> before.\<close>

theorem breaker_protects:
  fixes cs :: "BreakerCall list" and maxFailures :: int and resetTimeout :: duration
  defines "s \<equiv> run callStep (newCircuitBreaker04 maxFailures resetTimeout, []) cs"
  assumes "0 < maxFailures" "in_i64 maxFailures"
  shows "gapsOk maxFailures resetTimeout (snd s)
    \<and> (fst (call now later ok (fst s)) = CallRefused \<longrightarrow> snd s \<noteq> [] \<and> \<not> bc_ok (last (snd s)) \<and> now - bc_finish (last (snd s)) \<le> resetTimeout)"
proof -
  have "breakerInv04 maxFailures resetTimeout s" unfolding s_def by (rule breaker04_run [OF assms(2,3)])
  then show ?thesis
    by (auto simp: breakerInv04_def Let_def call_def tryHalfOpen_def split: CBState.splits if_splits)
qed

definition failingCalls :: "BreakerCall list" where
  "failingCalls = [\<lparr>bc_start = 0, bc_finish = 1, bc_ok = False\<rparr>, \<lparr>bc_start = 2, bc_finish = 3, bc_ok = False\<rparr>, \<lparr>bc_start = 5, bc_finish = 6, bc_ok = True\<rparr>,
     \<lparr>bc_start = 14, bc_finish = 15, bc_ok = True\<rparr>]"

text \<open>With a limit of two the third call is refused and the fourth runs.\<close>

theorem breaker_protects_witness:
  "gapsOk 2 10 (snd (run callStep (newCircuitBreaker04 2 10, []) failingCalls)) \<and> length (snd (run callStep (newCircuitBreaker04 2 10, []) failingCalls)) = 3"
proof
  show "gapsOk 2 10 (snd (run callStep (newCircuitBreaker04 2 10, []) failingCalls))"
    using breaker_protects [of 2 10 failingCalls] by (simp add: in_i64_def)
  show "length (snd (run callStep (newCircuitBreaker04 2 10, []) failingCalls)) = 3" by code_simp
qed

section \<open>Publish and subscribe\<close>

record Subscription04 =
  su_topic :: string
  su_chan :: "string list"
  su_chanClosed :: bool
  su_received :: "string list"
  su_warnings :: nat

record PubSub =
  ps_subscribers :: "Subscription04 list"
  ps_closed :: bool

definition newPubSub :: PubSub where
  "newPubSub = \<lparr>ps_subscribers = [], ps_closed = False\<rparr>"

definition subscribe04 :: "string \<Rightarrow> PubSub \<Rightarrow> PubSub" where
  "subscribe04 topic ps = ps\<lparr>ps_subscribers := ps_subscribers ps @ [\<lparr>su_topic = topic, su_chan = [], su_chanClosed = False, su_received = [], su_warnings = 0\<rparr>]\<rparr>"

definition offer :: "string \<Rightarrow> Subscription04 \<Rightarrow> Subscription04" where
  "offer payload s = (if length (su_chan s) < 10 then s\<lparr>su_chan := su_chan s @ [payload]\<rparr> else s\<lparr>su_warnings := su_warnings s + 1\<rparr>)"

definition publish04 :: "string \<Rightarrow> string \<Rightarrow> PubSub \<Rightarrow> PubSub" where
  "publish04 topic payload ps =
     (if ps_closed ps then ps else ps\<lparr>ps_subscribers := map (\<lambda>s. if su_topic s = topic then offer payload s else s) (ps_subscribers ps)\<rparr>)"

definition close04 :: "PubSub \<Rightarrow> PubSub" where
  "close04 ps = (if ps_closed ps then ps else ps\<lparr>ps_closed := True, ps_subscribers := map (\<lambda>s. s\<lparr>su_chanClosed := True\<rparr>) (ps_subscribers ps)\<rparr>)"

text \<open>A subscriber takes the next message from its channel.\<close>

definition takeMessage :: "Subscription04 \<Rightarrow> Subscription04" where
  "takeMessage s = (case su_chan s of [] \<Rightarrow> s | x # xs \<Rightarrow> s\<lparr>su_chan := xs, su_received := su_received s @ [x]\<rparr>)"

datatype PubSubStep = Subscribe04 string | Publish04 string string | Close04 | Take04 nat

fun pubSubStep :: "PubSub \<Rightarrow> PubSubStep \<Rightarrow> PubSub" where
  "pubSubStep ps (Subscribe04 topic) = subscribe04 topic ps"
| "pubSubStep ps (Publish04 topic payload) = publish04 topic payload ps"
| "pubSubStep ps Close04 = close04 ps"
| "pubSubStep ps (Take04 i) = (if i < length (ps_subscribers ps) then ps\<lparr>ps_subscribers := (ps_subscribers ps)[i := takeMessage (ps_subscribers ps ! i)]\<rparr> else ps)"

text \<open>The messages of a topic in a history, up to the closing.\<close>

fun sentTo :: "string \<Rightarrow> PubSubStep list \<Rightarrow> string list" where
  "sentTo topic [] = []"
| "sentTo topic (Publish04 topic' payload # es) = (if topic' = topic then payload # sentTo topic es else sentTo topic es)"
| "sentTo topic (Close04 # es) = []"
| "sentTo topic (e # es) = sentTo topic es"

definition inOrder :: "Subscription04 \<Rightarrow> string list" where
  "inOrder s = su_received s @ su_chan s"

lemma pubSub_keeps:
  assumes "i < length (ps_subscribers ps)"
  shows "i < length (ps_subscribers (pubSubStep ps e)) \<and> su_topic (ps_subscribers (pubSubStep ps e) ! i) = su_topic (ps_subscribers ps ! i)
    \<and> (length (su_chan (ps_subscribers ps ! i)) \<le> 10 \<longrightarrow> length (su_chan (ps_subscribers (pubSubStep ps e) ! i)) \<le> 10)"
  using assms by (cases e) (auto simp: subscribe04_def publish04_def close04_def offer_def takeMessage_def nth_append nth_list_update split: list.split)

lemma closed_sends_nothing:
  assumes "ps_closed ps" "i < length (ps_subscribers ps)"
  shows "inOrder (ps_subscribers (run pubSubStep ps es) ! i) = inOrder (ps_subscribers ps ! i) \<and> su_warnings (ps_subscribers (run pubSubStep ps es) ! i) = su_warnings (ps_subscribers ps ! i)"
  using assms
proof (induction es arbitrary: ps)
  case (Cons e es)
  have "ps_closed (pubSubStep ps e)" using Cons.prems by (cases e) (auto simp: subscribe04_def publish04_def close04_def)
  moreover have "inOrder (ps_subscribers (pubSubStep ps e) ! i) = inOrder (ps_subscribers ps ! i) \<and> su_warnings (ps_subscribers (pubSubStep ps e) ! i) = su_warnings (ps_subscribers ps ! i)"
    using Cons.prems by (cases e) (auto simp: subscribe04_def publish04_def close04_def takeMessage_def inOrder_def nth_append nth_list_update split: list.split)
  ultimately show ?case using Cons.IH [of "pubSubStep ps e"] pubSub_keeps [OF Cons.prems(2), of e] by simp
qed simp

lemma subscriber_gets:
  assumes "\<not> ps_closed ps" "i < length (ps_subscribers ps)"
  shows "\<exists>xs. inOrder (ps_subscribers (run pubSubStep ps es) ! i) = inOrder (ps_subscribers ps ! i) @ xs \<and> subseq xs (sentTo (su_topic (ps_subscribers ps ! i)) es)
    \<and> length xs + su_warnings (ps_subscribers (run pubSubStep ps es) ! i) = length (sentTo (su_topic (ps_subscribers ps ! i)) es) + su_warnings (ps_subscribers ps ! i)"
  using assms
proof (induction es arbitrary: ps)
  case (Cons e es)
  let ?q = "pubSubStep ps e"
  note keep = pubSub_keeps [OF Cons.prems(2), of e]
  have next_closed: "ps_closed ?q \<longleftrightarrow> e = Close04" using Cons.prems(1) by (cases e) (auto simp: subscribe04_def publish04_def close04_def)
  show ?case
  proof (cases "\<exists>payload. e = Publish04 (su_topic (ps_subscribers ps ! i)) payload")
    case True
    then obtain payload where e: "e = Publish04 (su_topic (ps_subscribers ps ! i)) payload" by blast
    then obtain xs where "inOrder (ps_subscribers (run pubSubStep ?q es) ! i) = inOrder (ps_subscribers ?q ! i) @ xs"
      "subseq xs (sentTo (su_topic (ps_subscribers ps ! i)) es)"
      "length xs + su_warnings (ps_subscribers (run pubSubStep ?q es) ! i) = length (sentTo (su_topic (ps_subscribers ps ! i)) es) + su_warnings (ps_subscribers ?q ! i)"
      using Cons.IH [of ?q] next_closed keep by auto
    moreover have "ps_subscribers ?q ! i = offer payload (ps_subscribers ps ! i)" using Cons.prems by (simp add: e publish04_def)
    ultimately show ?thesis
      by (cases "length (su_chan (ps_subscribers ps ! i)) < 10") (auto simp: e offer_def inOrder_def intro: exI [of _ "payload # xs"] exI [of _ xs])
  next
    case False
    have same: "inOrder (ps_subscribers ?q ! i) = inOrder (ps_subscribers ps ! i) \<and> su_warnings (ps_subscribers ?q ! i) = su_warnings (ps_subscribers ps ! i)"
      using Cons.prems False by (cases e) (auto simp: subscribe04_def publish04_def close04_def takeMessage_def inOrder_def nth_append nth_list_update split: list.split)
    show ?thesis
    proof (cases "e = Close04")
      case True
      then show ?thesis using closed_sends_nothing [of ?q i es] next_closed keep same by auto
    next
      case not_close: False
      then have "sentTo (su_topic (ps_subscribers ps ! i)) (e # es) = sentTo (su_topic (ps_subscribers ps ! i)) es" using False by (cases e) auto
      then show ?thesis using Cons.IH [of ?q] next_closed keep same not_close by simp
    qed
  qed
qed simp


text \<open>A subscriber of an open bus receives the messages sent to its topic since its subscription, in order and except for those it was warned about; its channel holds at most ten.\<close>

lemma pubsub_delivers:
  fixes ps :: PubSub and es :: "PubSubStep list" and topic :: string
  defines "s \<equiv> ps_subscribers (run pubSubStep (subscribe04 topic ps) es) ! length (ps_subscribers ps)"
  assumes "\<not> ps_closed ps"
  shows "subseq (su_received s @ su_chan s) (sentTo topic es)" and "length (su_received s @ su_chan s) + su_warnings s = length (sentTo topic es)"
    and "su_warnings s = 0 \<Longrightarrow> su_received s @ su_chan s = sentTo topic es" and "length (su_chan s) \<le> 10"
proof -
  let ?p = "subscribe04 topic ps" let ?i = "length (ps_subscribers ps)"
  have new: "\<not> ps_closed ?p" "?i < length (ps_subscribers ?p)" "ps_subscribers ?p ! ?i = \<lparr>su_topic = topic, su_chan = [], su_chanClosed = False, su_received = [], su_warnings = 0\<rparr>"
    using assms(2) by (simp_all add: subscribe04_def)
  obtain xs where xs: "inOrder s = xs" "subseq xs (sentTo topic es)" "length xs + su_warnings s = length (sentTo topic es)"
    using subscriber_gets [OF new(1,2), of es] by (auto simp: s_def new(3) inOrder_def)
  then show "subseq (su_received s @ su_chan s) (sentTo topic es)" "length (su_received s @ su_chan s) + su_warnings s = length (sentTo topic es)" by (simp_all add: inOrder_def)
  show "su_received s @ su_chan s = sentTo topic es" if "su_warnings s = 0" using xs that subseq_same_length [of xs "sentTo topic es"] by (simp add: inOrder_def)
  have "length (su_chan (ps_subscribers (run pubSubStep p es) ! i)) \<le> 10" if "i < length (ps_subscribers p)" "length (su_chan (ps_subscribers p ! i)) \<le> 10" for p i
    using that by (induction es arbitrary: p) (simp_all add: pubSub_keeps)
  then show "length (su_chan s) \<le> 10" using new by (simp add: s_def)
qed

text \<open>A channel made after the closing is never closed, and its reader waits for ever.\<close>

lemma late_subscriber_never_ends:
  assumes "ps_closed ps"
  shows "su_chanClosed (ps_subscribers (run pubSubStep (subscribe04 topic ps) es) ! length (ps_subscribers ps)) = False"
proof -
  have "\<not> su_chanClosed (ps_subscribers (run pubSubStep p es) ! i)" if "ps_closed p" "i < length (ps_subscribers p)" "\<not> su_chanClosed (ps_subscribers p ! i)" for p i
    using that
  proof (induction es arbitrary: p)
    case (Cons e es)
    have "ps_closed (pubSubStep p e) \<and> \<not> su_chanClosed (ps_subscribers (pubSubStep p e) ! i)"
      using Cons.prems by (cases e) (auto simp: subscribe04_def publish04_def close04_def takeMessage_def nth_append nth_list_update split: list.split)
    then show ?case using Cons.IH [of "pubSubStep p e"] pubSub_keeps [OF Cons.prems(2), of e] by simp
  qed simp
  then show ?thesis using assms by (simp add: subscribe04_def)
qed

section \<open>Bounded parallelism\<close>

text \<open>The tasks of \<open>processTasks\<close> pass through a pool without buffers.\<close>

record Task04 =
  ta_ID :: int
  ta_Result :: int

definition withResult :: "Task04 \<Rightarrow> Task04" where
  "withResult task = task\<lparr>ta_Result := i64 (ta_ID task * ta_ID task)\<rparr>"

definition processTasksStep :: "(Task04, Task04) Pool \<Rightarrow> (Task04, Task04) Pool \<Rightarrow> bool" where
  "processTasksStep = workerPoolStep withResult 0 0"

lemma process_tasks_ends:
  assumes "maxWorkers > 0" "(processTasksStep ^^ k) (newPool maxWorkers tasks) p"
  shows "k \<le> 4 * length tasks + maxWorkers + 3" and "(\<nexists>q. processTasksStep p q) \<Longrightarrow> po_over p \<and> mset (po_collected p) = mset (map withResult tasks)"
  using pool_ends [OF assms [unfolded processTasksStep_def]] by (auto simp: processTasksStep_def poolGoal_def)

section \<open>Retries\<close>

record RetryConfig =
  rc_MaxAttempts :: int
  rc_InitialDelay :: duration
  rc_MaxDelay :: duration

datatype RetryResult = RetrySucceeded int | RetryExceeded int | RetryCancelled | RetryUnreachable

definition nextDelay :: "(duration \<Rightarrow> duration) \<Rightarrow> RetryConfig \<Rightarrow> duration \<Rightarrow> duration" where
  "nextDelay scale config delay = (let delay = scale delay in if delay > rc_MaxDelay config then rc_MaxDelay config else delay)"

text \<open>\<open>fn\<close> says whether an attempt succeeds, \<open>cancelled\<close> whether the context ends during the wait after it.  The delays that were waited for are returned with the result.\<close>

function retryFrom :: "(duration \<Rightarrow> duration) \<Rightarrow> RetryConfig \<Rightarrow> (int \<Rightarrow> bool) \<Rightarrow> (int \<Rightarrow> bool) \<Rightarrow> int \<Rightarrow> duration \<Rightarrow> RetryResult \<times> duration list" where
  "retryFrom scale config fn cancelled attempt delay =
     (if attempt \<le> rc_MaxAttempts config
      then (if fn attempt then (RetrySucceeded attempt, [])
            else if attempt = rc_MaxAttempts config then (RetryExceeded attempt, [])
            else if cancelled attempt then (RetryCancelled, [])
            else (case retryFrom scale config fn cancelled (attempt + 1) (nextDelay scale config delay) of (r, ds) \<Rightarrow> (r, delay # ds)))
      else (RetryUnreachable, []))"
  by pat_completeness auto
termination by (relation "measure (\<lambda>(_, config, _, _, attempt, _). nat (rc_MaxAttempts config + 1 - attempt))") auto

declare retryFrom.simps [simp del]

definition retryWithBackoff :: "(duration \<Rightarrow> duration) \<Rightarrow> RetryConfig \<Rightarrow> (int \<Rightarrow> bool) \<Rightarrow> (int \<Rightarrow> bool) \<Rightarrow> RetryResult \<times> duration list" where
  "retryWithBackoff scale config fn cancelled = retryFrom scale config fn cancelled 1 (rc_InitialDelay config)"

lemma retry_hit: "attempt \<le> rc_MaxAttempts config \<Longrightarrow> fn attempt \<Longrightarrow> retryFrom scale config fn cancelled attempt delay = (RetrySucceeded attempt, [])"
  by (subst retryFrom.simps) simp

lemma retry_last: "\<not> fn (rc_MaxAttempts config) \<Longrightarrow> retryFrom scale config fn cancelled (rc_MaxAttempts config) delay = (RetryExceeded (rc_MaxAttempts config), [])"
  by (subst retryFrom.simps) simp

lemma retry_again:
  "attempt < rc_MaxAttempts config \<Longrightarrow> \<not> fn attempt \<Longrightarrow> \<not> cancelled attempt \<Longrightarrow> retryFrom scale config fn cancelled attempt delay =
     (fst (retryFrom scale config fn cancelled (attempt + 1) (nextDelay scale config delay)), delay # snd (retryFrom scale config fn cancelled (attempt + 1) (nextDelay scale config delay)))"
  by (subst retryFrom.simps) (simp split: prod.split)

lemma retry_none: "rc_MaxAttempts config < attempt \<Longrightarrow> retryFrom scale config fn cancelled attempt delay = (RetryUnreachable, [])"
  by (subst retryFrom.simps) simp

lemma retryFrom_success:
  assumes "attempt \<le> n" "n \<le> rc_MaxAttempts config" "fn n" "\<forall>i. attempt \<le> i \<and> i < n \<longrightarrow> \<not> fn i \<and> \<not> cancelled i"
  shows "fst (retryFrom scale config fn cancelled attempt delay) = RetrySucceeded n \<and> length (snd (retryFrom scale config fn cancelled attempt delay)) = nat (n - attempt)"
  using assms
proof (induction scale config fn cancelled attempt delay rule: retryFrom.induct)
  case (1 scale config fn cancelled attempt delay)
  show ?case
  proof (cases "attempt = n")
    case True
    then show ?thesis using 1(3,4) by (simp add: retry_hit)
  next
    case False
    then have less: "attempt < n" and no: "\<not> fn attempt" "\<not> cancelled attempt" "attempt \<le> rc_MaxAttempts config" "attempt \<noteq> rc_MaxAttempts config" using 1 by auto
    then have "fst (retryFrom scale config fn cancelled (attempt + 1) (nextDelay scale config delay)) = RetrySucceeded n
        \<and> length (snd (retryFrom scale config fn cancelled (attempt + 1) (nextDelay scale config delay))) = nat (n - (attempt + 1))"
      using 1 by auto
    then show ?thesis using no less by (simp add: retry_again)
  qed
qed

lemma retryFrom_exceeded:
  assumes "attempt \<le> rc_MaxAttempts config" "\<forall>i. attempt \<le> i \<and> i \<le> rc_MaxAttempts config \<longrightarrow> \<not> fn i \<and> \<not> cancelled i"
  shows "fst (retryFrom scale config fn cancelled attempt delay) = RetryExceeded (rc_MaxAttempts config)"
  using assms
proof (induction scale config fn cancelled attempt delay rule: retryFrom.induct)
  case (1 scale config fn cancelled attempt delay)
  show ?case
  proof (cases "attempt = rc_MaxAttempts config")
    case True
    then show ?thesis using 1(3) by (simp add: retry_last)
  next
    case False
    then have no: "attempt < rc_MaxAttempts config" "\<not> fn attempt" "\<not> cancelled attempt" using 1(2,3) by auto
    then have "fst (retryFrom scale config fn cancelled (attempt + 1) (nextDelay scale config delay)) = RetryExceeded (rc_MaxAttempts config)" using 1 by simp
    then show ?thesis using no by (simp add: retry_again)
  qed
qed

text \<open>The result is the first success, or the failure of the last attempt; without attempts the function reaches its last line, which its message calls unreachable.\<close>

lemma retry_result:
  shows "1 \<le> n \<Longrightarrow> n \<le> rc_MaxAttempts config \<Longrightarrow> fn n \<Longrightarrow> \<forall>i. 1 \<le> i \<and> i < n \<longrightarrow> \<not> fn i \<and> \<not> cancelled i \<Longrightarrow> fst (retryWithBackoff scale config fn cancelled) = RetrySucceeded n"
    and "1 \<le> rc_MaxAttempts config \<Longrightarrow> \<forall>i. 1 \<le> i \<and> i \<le> rc_MaxAttempts config \<longrightarrow> \<not> fn i \<and> \<not> cancelled i \<Longrightarrow> fst (retryWithBackoff scale config fn cancelled) = RetryExceeded (rc_MaxAttempts config)"
    and "rc_MaxAttempts config < 1 \<Longrightarrow> fst (retryWithBackoff scale config fn cancelled) = RetryUnreachable"
  unfolding retryWithBackoff_def by (simp_all add: retryFrom_success retryFrom_exceeded retry_none)

text \<open>Delay by delay: the first is the initial one, every later one is at most the maximum.\<close>

lemma retry_delays:
  assumes "k < length (snd (retryFrom scale config fn cancelled attempt delay))"
  shows "snd (retryFrom scale config fn cancelled attempt delay) ! k = (nextDelay scale config ^^ k) delay"
  using assms
proof (induction scale config fn cancelled attempt delay arbitrary: k rule: retryFrom.induct)
  case (1 scale config fn cancelled attempt delay)
  show ?case
  proof (cases "attempt \<le> rc_MaxAttempts config \<and> \<not> fn attempt \<and> attempt \<noteq> rc_MaxAttempts config \<and> \<not> cancelled attempt")
    case True
    then have unf: "snd (retryFrom scale config fn cancelled attempt delay) = delay # snd (retryFrom scale config fn cancelled (attempt + 1) (nextDelay scale config delay))"
      by (simp add: retry_again)
    show ?thesis
    proof (cases k)
      case (Suc j)
      then show ?thesis using 1(1) [of j] 1(2) True by (simp add: unf funpow_swap1)
    qed (simp add: unf)
  next
    case False
    then have "snd (retryFrom scale config fn cancelled attempt delay) = []" by (subst retryFrom.simps) auto
    then show ?thesis using 1(2) by simp
  qed
qed

lemma nextDelay_le: "nextDelay scale config d \<le> rc_MaxDelay config"
  by (simp add: nextDelay_def Let_def)

text \<open>With a doubling that does not overflow the delays double up to the maximum.\<close>

lemma doubled_delays:
  assumes "0 \<le> d" "d \<le> rc_MaxDelay config"
  shows "(nextDelay (\<lambda>x. 2 * x) config ^^ k) d = min (2 ^ k * d) (rc_MaxDelay config)"
proof (induction k)
  case (Suc k)
  have "0 \<le> 2 ^ k * d" using assms(1) by simp
  then show ?case using Suc assms by (simp add: nextDelay_def Let_def min_def)
qed (use assms in simp)


section \<open>Batch processor\<close>

text \<open>The goroutine of \<open>run\<close> with the channel of items and the batches that were handed to \<open>processFn\<close>, each in a goroutine of its own; \<open>flush\<close> copies the items.\<close>

record BatchProcessor =
  bp_batchSize :: nat
  bp_items :: "string list"
  bp_itemsChan :: "string list"
  bp_done :: bool
  bp_returned :: bool
  bp_batches :: "string list list"

definition newBatchProcessor :: "nat \<Rightarrow> BatchProcessor" where
  "newBatchProcessor batchSize = \<lparr>bp_batchSize = batchSize, bp_items = [], bp_itemsChan = [], bp_done = False, bp_returned = False, bp_batches = []\<rparr>"

definition flush04 :: "BatchProcessor \<Rightarrow> BatchProcessor" where
  "flush04 bp = (if bp_items bp = [] then bp else bp\<lparr>bp_items := [], bp_batches := bp_batches bp @ [bp_items bp]\<rparr>)"

datatype BatchSelect = OnItem | OnTick | OnDone

definition batchRunStep :: "BatchSelect \<Rightarrow> BatchProcessor \<Rightarrow> BatchProcessor" where
  "batchRunStep choice bp =
     (if bp_returned bp then bp
      else case choice of
        OnItem \<Rightarrow>
          (case bp_itemsChan bp of
             [] \<Rightarrow> bp
           | item # rest \<Rightarrow> (let bp = bp\<lparr>bp_itemsChan := rest, bp_items := bp_items bp @ [item]\<rparr> in if length (bp_items bp) \<ge> bp_batchSize bp then flush04 bp else bp))
      | OnTick \<Rightarrow> if length (bp_items bp) > 0 then flush04 bp else bp
      | OnDone \<Rightarrow> if bp_done bp then (if length (bp_items bp) > 0 then flush04 bp else bp)\<lparr>bp_returned := True\<rparr> else bp)"

text \<open>A call of \<open>Add\<close> sends when the channel has room; otherwise it waits, and gives up after 100 ms without an effect.\<close>

definition hasRoom :: "BatchProcessor \<Rightarrow> bool" where
  "hasRoom bp \<longleftrightarrow> length (bp_itemsChan bp) < bp_batchSize bp * 2"

definition batchAdd :: "string \<Rightarrow> BatchProcessor \<Rightarrow> BatchProcessor" where
  "batchAdd item bp = (if hasRoom bp then bp\<lparr>bp_itemsChan := bp_itemsChan bp @ [item]\<rparr> else bp)"

definition batchStop :: "BatchProcessor \<Rightarrow> BatchProcessor" where
  "batchStop bp = bp\<lparr>bp_done := True\<rparr>"

datatype BatchStep = BAdd string | BStop | BRun BatchSelect

fun batchStep :: "BatchProcessor \<Rightarrow> BatchStep \<Rightarrow> BatchProcessor" where
  "batchStep bp (BAdd item) = batchAdd item bp"
| "batchStep bp BStop = batchStop bp"
| "batchStep bp (BRun choice) = batchRunStep choice bp"

text \<open>The items that a history has sent.\<close>

fun sentItem :: "BatchProcessor \<Rightarrow> BatchStep \<Rightarrow> string list" where
  "sentItem bp (BAdd item) = (if hasRoom bp then [item] else [])"
| "sentItem bp e = []"

definition batchRel :: "nat \<Rightarrow> BatchProcessor \<Rightarrow> string list \<Rightarrow> bool" where
  "batchRel n bp sent \<longleftrightarrow> bp_batchSize bp = n \<and> sent = concat (bp_batches bp) @ bp_items bp @ bp_itemsChan bp
     \<and> (\<forall>b \<in> set (bp_batches bp). b \<noteq> [] \<and> length b \<le> n) \<and> length (bp_items bp) < n \<and> length (bp_itemsChan bp) \<le> 2 * n \<and> (bp_returned bp \<longrightarrow> bp_items bp = [])"

lemma batch_rel_step:
  assumes "batchRel n bp sent"
  shows "batchRel n (batchStep bp e) (sent @ sentItem bp e)"
proof (cases e)
  case (BRun choice)
  then show ?thesis using assms
    by (cases choice) (auto simp: batchRel_def batchRunStep_def flush04_def Let_def split: list.splits)
qed (use assms in \<open>auto simp: batchRel_def batchAdd_def batchStop_def hasRoom_def\<close>)

interpretation batch: simulation batchStep "\<lambda>_ _. True" "batchRel n" sentItem "\<lambda>sent item. sent @ [item]"
proof
  fix bp sent e
  assume "batchRel n bp sent"
  moreover have "run (\<lambda>sent item. sent @ [item]) a xs = a @ xs" for a xs :: "string list" by (induction xs arbitrary: a) auto
  ultimately show "batchRel n (batchStep bp e) (run (\<lambda>sent item. sent @ [item]) sent (sentItem bp e))" using batch_rel_step by simp
qed

text \<open> The batch processor, in every history of calls of \<open>Add\<close> and \<open>Stop\<close> and every choice of its loop: the batches passed on, the items collected and those in the channel are exactly the items sent, in order; no batch is
  empty or longer than the batch size; after the end nothing is held back but what is still in the channel.\<close>

theorem batches_in_order:
  fixes n :: nat and es :: "BatchStep list"
  defines "bp \<equiv> run batchStep (newBatchProcessor n) es"
  assumes "0 < n"
  shows "concat (bp_batches bp) @ bp_items bp @ bp_itemsChan bp = observed batchStep sentItem (newBatchProcessor n) es
    \<and> list_all (\<lambda>b. b \<noteq> [] \<and> length b \<le> n) (bp_batches bp) \<and> length (bp_items bp) < n \<and> (bp_returned bp \<longrightarrow> bp_items bp = [])"
proof -
  have "run (\<lambda>sent item. sent @ [item]) a xs = a @ xs" for a xs :: "string list" by (induction xs arbitrary: a) auto
  moreover have "batchRel n (newBatchProcessor n) []" using assms(2) by (simp add: batchRel_def newBatchProcessor_def)
  ultimately have "batchRel n bp (observed batchStep sentItem (newBatchProcessor n) es)" using batch.rel_run [of n "newBatchProcessor n" "[]" es] by (simp add: bp_def)
  then show ?thesis by (auto simp: batchRel_def list_all_iff)
qed

definition batchHistory :: "BatchStep list" where
  "batchHistory = [BAdd ''a'', BAdd ''b'', BRun OnItem, BRun OnItem, BAdd ''c'', BRun OnItem, BRun OnTick, BAdd ''d'', BStop, BRun OnDone]"

theorem batches_in_order_witness:
  "bp_items (run batchStep (newBatchProcessor 2) batchHistory) = [] \<and> bp_batches (run batchStep (newBatchProcessor 2) batchHistory) = [[''a'', ''b''], [''c'']]"
proof
  have "bp_returned (run batchStep (newBatchProcessor 2) batchHistory)" by code_simp
  then show "bp_items (run batchStep (newBatchProcessor 2) batchHistory) = []" using batches_in_order [of 2 batchHistory] by simp
  show "bp_batches (run batchStep (newBatchProcessor 2) batchHistory) = [[''a'', ''b''], [''c'']]" by code_simp
qed

text \<open>\<open>Stop\<close> does not wait for the channel: in this history the item d was sent before and is never processed.\<close>

lemma stop_loses_items: "bp_itemsChan (run batchStep (newBatchProcessor 2) (batchHistory @ es)) \<noteq> []"
proof -
  have "bp_returned (run batchStep (newBatchProcessor 2) batchHistory)" "bp_itemsChan (run batchStep (newBatchProcessor 2) batchHistory) \<noteq> []" by code_simp+
  moreover have "bp_itemsChan (run batchStep bp es) \<noteq> []" if "bp_returned bp" "bp_itemsChan bp \<noteq> []" for bp
    using that
  proof (induction es arbitrary: bp)
    case (Cons e es)
    have "bp_returned (batchStep bp e) \<and> bp_itemsChan (batchStep bp e) \<noteq> []" using Cons.prems by (cases e) (auto simp: batchAdd_def batchStop_def batchRunStep_def)
    then show ?case using Cons.IH [of "batchStep bp e"] by simp
  qed simp
  ultimately show ?thesis by simp
qed

end
