(* ===== verification/Evaluators.thy ===== *)
theory Evaluators
  imports LearningSystem SecureTokens "HOL-Library.Sublist"
begin

text \<open>
  The evaluators: \<open>src/internal/evaluator/evaluator.go\<close>, which runs a function and scores it, and the dialogue of \<open>src/interactive/evaluator_interactive.go\<close>, which scores its own tests and keeps points, levels and achievements.

  What a test measures (durations, numbers of goroutines, memory, the outcome of a function) is an argument.  The comparisons of the floating-point ratio with its four limits are arguments too.  Texts and colours are left out.

  Shown: scores are between 0 and their maximum, with the exception of a tolerated number of leaks below zero; a function that panics is reported like a deadlock; the points, levels and achievements of a dialogue
  account exactly for the scores, and the progress bar is never too long; the constant-time comparison is equality; the input filter refuses exactly the inputs with a dangerous part.
\<close>

section \<open>Scores of a function\<close>

record TestResult =
  tr_Passed :: bool
  tr_Score :: int
  tr_MaxScore :: int
  tr_Goroutines :: int
  tr_Errors :: "string list"

definition newResult :: TestResult where
  "newResult = \<lparr>tr_Passed = False, tr_Score = 0, tr_MaxScore = 10, tr_Goroutines = 0, tr_Errors = []\<rparr>"

text \<open>The function returns in time, panics, or does neither before the time-out; only a return is announced on the channel.\<close>

datatype FnOutcome = Returns | Panics string | Hangs

definition evaluateDeadlock :: "FnOutcome \<Rightarrow> TestResult" where
  "evaluateDeadlock outcome =
     (let result = (case outcome of Panics r \<Rightarrow> newResult\<lparr>tr_Errors := [''Panic: '' @ r]\<rparr> | _ \<Rightarrow> newResult)
      in case outcome of
           Returns \<Rightarrow> result\<lparr>tr_Passed := True, tr_Score := 10\<rparr>
         | _ \<Rightarrow> result\<lparr>tr_Passed := False, tr_Score := 0, tr_Errors := tr_Errors result @ [''Function timed out - possible deadlock'']\<rparr>)"

definition evaluateRaceCondition :: "int \<Rightarrow> int \<Rightarrow> TestResult" where
  "evaluateRaceCondition actualValue expectedValue =
     (if actualValue = expectedValue then newResult\<lparr>tr_Passed := True, tr_Score := 10\<rparr>
      else newResult\<lparr>tr_Passed := False, tr_Score := 5, tr_Errors := [''value mismatch'']\<rparr>)"

definition evaluateGoroutineLeak :: "int \<Rightarrow> int \<Rightarrow> int \<Rightarrow> TestResult" where
  "evaluateGoroutineLeak initial final acceptableLeaks =
     (let leaked = final - initial; result = newResult\<lparr>tr_Goroutines := leaked\<rparr>
      in if leaked \<le> acceptableLeaks then result\<lparr>tr_Passed := True, tr_Score := 10\<rparr>
         else (let score = 10 - leaked; score = (if score < 0 then 0 else score)
               in result\<lparr>tr_Passed := False, tr_Score := score, tr_Errors := [itoa leaked @ '' goroutines leaked'']\<rparr>))"

text \<open>The arguments say whether the ratio of the duration to the baseline is at most 0.5, 0.8, 1.2 and 1.5.\<close>

definition evaluatePerformance :: "bool \<Rightarrow> bool \<Rightarrow> bool \<Rightarrow> bool \<Rightarrow> TestResult" where
  "evaluatePerformance le05 le08 le12 le15 =
     (let score = (if le05 then 10 else if le08 then 9 else if le12 then 8 else if le15 then 6 else 4)
      in newResult\<lparr>tr_Score := score, tr_Passed := score \<ge> 6\<rparr>)"

text \<open>The totals of \<open>PrintSummary\<close> over the results in the order of the evaluations.\<close>

definition summary :: "TestResult list \<Rightarrow> int \<times> int \<times> nat" where
  "summary results =
     fold (\<lambda>r (ttl, maximum, passed). (ttl + tr_Score r, maximum + tr_MaxScore r, if tr_Passed r then passed + 1 else passed)) results (0, 0, 0)"

datatype Evaluation = Deadlock FnOutcome | Race int int | Leak int int int | Performance bool bool bool bool

fun evaluate :: "Evaluation \<Rightarrow> TestResult" where
  "evaluate (Deadlock outcome) = evaluateDeadlock outcome"
| "evaluate (Race actual expected) = evaluateRaceCondition actual expected"
| "evaluate (Leak initial final acceptable) = evaluateGoroutineLeak initial final acceptable"
| "evaluate (Performance a b c d) = evaluatePerformance a b c d"

fun tolerable :: "Evaluation \<Rightarrow> bool" where
  "tolerable (Leak initial final acceptable) \<longleftrightarrow> 0 \<le> acceptable"
| "tolerable e \<longleftrightarrow> True"

lemma score_bounds: "tolerable e \<Longrightarrow> 0 \<le> tr_Score (evaluate e) \<and> tr_Score (evaluate e) \<le> 10 \<and> tr_MaxScore (evaluate e) = 10"
  by (cases e) (auto simp: evaluateDeadlock_def evaluateRaceCondition_def evaluateGoroutineLeak_def evaluatePerformance_def newResult_def Let_def split: FnOutcome.splits)

text \<open>Full marks are given exactly for what is right; the other tests pass with less.\<close>

lemma passed_iff:
  "tr_Passed (evaluateDeadlock outcome) \<longleftrightarrow> outcome = Returns"
  "tr_Passed (evaluateRaceCondition actual expected) \<longleftrightarrow> actual = expected"
  "tr_Passed (evaluateGoroutineLeak i f acc) \<longleftrightarrow> f - i \<le> acc"
  "tr_Passed (evaluatePerformance a b c d) \<longleftrightarrow> a \<or> b \<or> c \<or> d"
  by (auto simp: evaluateDeadlock_def evaluateRaceCondition_def evaluateGoroutineLeak_def evaluatePerformance_def newResult_def Let_def split: FnOutcome.splits)

lemma summary_fold:
  "fold (\<lambda>r (ttl, maximum, passed). (ttl + tr_Score r, maximum + tr_MaxScore r, if tr_Passed r then passed + 1 else passed)) rs (t, m, p) =
     (t + sum_list (map tr_Score rs), m + sum_list (map tr_MaxScore rs), p + length (filter tr_Passed rs))"
  by (induction rs arbitrary: t m p) auto

lemma summary_totals: "summary rs = (sum_list (map tr_Score rs), sum_list (map tr_MaxScore rs), length (filter tr_Passed rs))"
  unfolding summary_def by (subst summary_fold) simp

lemma summary_bounds:
  assumes "list_all tolerable es"
  shows "case summary (map evaluate es) of (ttl, maximum, passed) \<Rightarrow> 0 \<le> ttl \<and> ttl \<le> maximum \<and> maximum = 10 * int (length es) \<and> passed \<le> length es"
proof -
  have "0 \<le> sum_list (map tr_Score (map evaluate es)) \<and> sum_list (map tr_Score (map evaluate es)) \<le> 10 * int (length es) \<and> sum_list (map tr_MaxScore (map evaluate es)) = 10 * int (length es)"
    using assms by (induction es) (auto dest: score_bounds)
  then show ?thesis using length_filter_le [of tr_Passed "map evaluate es"] by (simp add: summary_totals)
qed

text \<open>A panic is reported as a time-out, and a tolerance below zero gives more than the maximum.\<close>

lemma panic_looks_like_deadlock: "tr_Errors (evaluateDeadlock (Panics r)) = [''Panic: '' @ r, ''Function timed out - possible deadlock'']"
  by (simp add: evaluateDeadlock_def newResult_def Let_def)

lemma negative_tolerance: "tr_Score (evaluateGoroutineLeak 10 7 (-5)) = 13"
  by (simp add: evaluateGoroutineLeak_def newResult_def Let_def)

section \<open>Tests of the dialogue\<close>

text \<open>\<open>differences\<close> is the loop over both inputs, as in \<open>SecureTokens\<close>.\<close>

definition constTimeEqual :: "byte list \<Rightarrow> byte list \<Rightarrow> bool" where
  "constTimeEqual a b = (if length a \<noteq> length b then False else differences 0 a b = 0)"

text \<open>The comparison whose time does not depend on the contents is equality.\<close>

lemma const_time_equal_iff: "constTimeEqual a b \<longleftrightarrow> a = b"
  by (auto simp: constTimeEqual_def differences_zero)

definition dangerous :: "string list" where
  "dangerous = [[CHR 0x27], '';'', ''--'', ''..'', ''<'', ''>'', ''script'']"

fun contains :: "string \<Rightarrow> string \<Rightarrow> bool" where
  "contains [] d = (d = [])"
| "contains (c # cs) d = (prefix d (c # cs) \<or> contains cs d)"

fun isValidInput_from :: "string list \<Rightarrow> string \<Rightarrow> bool" where
  "isValidInput_from [] input = True"
| "isValidInput_from (d # ds) input = (if contains input d then False else isValidInput_from ds input)"

definition isValidInput :: "string \<Rightarrow> bool" where
  "isValidInput input = isValidInput_from dangerous input"

lemma contains_iff: "contains s d \<longleftrightarrow> sublist d s"
  by (induction s) (auto simp: sublist_Cons_right)

lemma valid_input_iff: "isValidInput input \<longleftrightarrow> (\<forall>d \<in> set dangerous. \<not> sublist d input)"
proof -
  have "isValidInput_from ds input \<longleftrightarrow> (\<forall>d \<in> set ds. \<not> sublist d input)" for ds by (induction ds) (auto simp: contains_iff)
  then show ?thesis by (simp add: isValidInput_def)
qed

text \<open>Each test returns whether it passed and its points.  The detection of deadlocks waits and then always passes; the counter is only changed by atomic additions.\<close>

definition testGoroutineManagement :: "int \<Rightarrow> int \<Rightarrow> bool \<times> int" where
  "testGoroutineManagement initial final = (let leaked = final - initial in if leaked > 0 then (False, 0) else (True, 10))"

text \<open>The number received, or nothing within a second.\<close>

definition testChannelUsage :: "nat option \<Rightarrow> bool \<times> int" where
  "testChannelUsage received = (case received of Some n \<Rightarrow> if n = 10 then (True, 10) else (False, 0) | None \<Rightarrow> (False, 0))"

definition testDeadlockDetection :: "bool \<times> int" where
  "testDeadlockDetection = (True, 15)"

definition testRaceCondition :: "bool \<times> int" where
  "testRaceCondition = (let counter = ((\<lambda>c. i64 (c + 1)) ^^ 1000) 0 in if counter = 1000 then (True, 15) else (False, 0))"

lemma atomic_additions: "n < 2 ^ 62 \<Longrightarrow> ((\<lambda>c. i64 (c + 1)) ^^ n) 0 = int n"
proof (induction n)
  case (Suc n)
  then have "i64 (int n + 1) = int n + 1" by (intro i64_id in_i64I) auto
  then show ?case using Suc by simp
qed simp

lemma race_test_passes: "testRaceCondition = (True, 15)"
  by (simp add: testRaceCondition_def atomic_additions)

section \<open>Points of the dialogue\<close>

record IEvaluator =
  ie_score :: int
  ie_level :: int
  ie_experience :: int
  ie_achievements :: "string set"

definition newInteractiveEvaluator :: IEvaluator where
  "newInteractiveEvaluator = \<lparr>ie_score = 0, ie_level = 1, ie_experience = 0, ie_achievements = {}\<rparr>"

definition updateScore :: "int \<Rightarrow> IEvaluator \<Rightarrow> IEvaluator" where
  "updateScore points e =
     (let e = e\<lparr>ie_score := i64 (ie_score e + points), ie_experience := i64 (ie_experience e + points)\<rparr>; nextLevelXP = i64 (ie_level e * 100)
      in if ie_experience e \<ge> nextLevelXP then e\<lparr>ie_level := i64 (ie_level e + 1), ie_experience := i64 (ie_experience e - nextLevelXP)\<rparr> else e)"

definition ieCheckAchievements :: "string \<Rightarrow> bool \<Rightarrow> IEvaluator \<Rightarrow> IEvaluator" where
  "ieCheckAchievements name earned e = (if earned \<and> name \<notin> ie_achievements e then e\<lparr>ie_achievements := insert name (ie_achievements e)\<rparr> else e)"

definition sumPassed :: "(bool \<times> int) list \<Rightarrow> int" where
  "sumPassed tests = foldl (\<lambda>t (success, score). if success then t + score else t) 0 tests"

definition evaluateConcurrency :: "int \<Rightarrow> int \<Rightarrow> nat option \<Rightarrow> IEvaluator \<Rightarrow> IEvaluator" where
  "evaluateConcurrency initial final received e =
     (let tests = [testGoroutineManagement initial final, testChannelUsage received, testDeadlockDetection, testRaceCondition]
      in ieCheckAchievements ''concurrency_master'' (length (filter fst tests) = length tests) (updateScore (sumPassed tests) e))"

definition evaluateMemoryManagement :: "u64 \<Rightarrow> u64 \<Rightarrow> bool \<Rightarrow> IEvaluator \<Rightarrow> IEvaluator" where
  "evaluateMemoryManagement initialMem finalMem poolTest e =
     (let leaked = finalMem - initialMem; score = (if leaked < 1024 * 1024 then 20 else 5); score = (if poolTest then score + 15 else score) in updateScore score e)"

text \<open>The difference of unsigned numbers wraps around, so that memory that was freed counts as a leak.\<close>

lemma freed_memory_is_leak: "ie_score (evaluateMemoryManagement 2 1 False newInteractiveEvaluator) = 5"
  by (simp add: evaluateMemoryManagement_def updateScore_def newInteractiveEvaluator_def Let_def i64_def)

definition benchmarkScore :: "duration \<Rightarrow> int" where
  "benchmarkScore d = (if d < 100 * 10 ^ 6 then 20 else if d < 500 * 10 ^ 6 then 10 else 0)"

definition ieEvaluatePerformance :: "duration \<Rightarrow> duration \<Rightarrow> duration \<Rightarrow> IEvaluator \<Rightarrow> IEvaluator" where
  "ieEvaluatePerformance d1 d2 d3 e = updateScore (benchmarkScore d1 + benchmarkScore d2 + benchmarkScore d3) e"

text \<open>The rejected requests of the loop over a semaphore with ten places; the argument says for each request whether it found a place.\<close>

definition testResourceExhaustion :: "bool list \<Rightarrow> bool" where
  "testResourceExhaustion admitted = (let rejected = length (filter Not admitted) in rejected > 0 \<and> rejected < 100)"

definition testInputValidation :: bool where
  "testInputValidation =
     list_all (\<lambda>input. \<not> isValidInput input) [[CHR 0x27] @ ''; DROP TABLE users; --'', ''../../../etc/passwd'', ''<script>alert('' @ [CHR 0x27] @ ''XSS'' @ [CHR 0x27] @ '')</script>'']"

lemma input_validation_passes: "testInputValidation"
  by code_simp

definition testTimingAttackProtection :: "duration \<Rightarrow> duration \<Rightarrow> bool" where
  "testTimingAttackProtection time1 time2 = (let diff = time1 - time2; diff = (if diff < 0 then - diff else diff) in diff < 100 * 10 ^ 3)"

definition evaluateSecurity :: "duration \<Rightarrow> duration \<Rightarrow> bool list \<Rightarrow> IEvaluator \<Rightarrow> IEvaluator" where
  "evaluateSecurity time1 time2 admitted e =
     (let ttl = sumPassed [(testTimingAttackProtection time1 time2, 15), (testResourceExhaustion admitted, 15), (testInputValidation, 10)]
      in ieCheckAchievements ''security_expert'' (ttl \<ge> 30) (updateScore ttl e))"

definition simulateDistributedTests :: "int list \<Rightarrow> int" where
  "simulateDistributedTests clocks = foldl (\<lambda>score now. if now mod 2 = 0 then score + 10 else score + 5) 0 clocks"

definition evaluateDistributed :: "int \<Rightarrow> int \<Rightarrow> int \<Rightarrow> int \<Rightarrow> IEvaluator \<Rightarrow> IEvaluator" where
  "evaluateDistributed t1 t2 t3 t4 e = updateScore (simulateDistributedTests [t1, t2, t3, t4]) e"

text \<open>A line that is read with what its evaluation measures.\<close>

record EvalLine =
  el_text :: string
  el_initial :: int
  el_final :: int
  el_received :: "nat option"
  el_initialMem :: u64
  el_finalMem :: u64
  el_poolTest :: bool
  el_durations :: "duration \<times> duration \<times> duration"
  el_admitted :: "bool list"
  el_clocks :: "int \<times> int \<times> int \<times> int"

definition evalChoice :: "EvalLine \<Rightarrow> IEvaluator \<Rightarrow> IEvaluator" where
  "evalChoice l e =
     (let choice = trimSpace (el_text l)
      in if choice = ''1'' then evaluateConcurrency (el_initial l) (el_final l) (el_received l) e
         else if choice = ''2'' then evaluateMemoryManagement (el_initialMem l) (el_finalMem l) (el_poolTest l) e
         else if choice = ''3'' then (case el_durations l of (d1, d2, d3) \<Rightarrow> ieEvaluatePerformance d1 d2 d3 e)
         else if choice = ''4'' then (case el_durations l of (d1, d2, d3) \<Rightarrow> evaluateSecurity d1 d2 (el_admitted l) e)
         else if choice = ''5'' then (case el_clocks l of (t1, t2, t3, t4) \<Rightarrow> evaluateDistributed t1 t2 t3 t4 e)
         else e)"

fun startInteractiveEvaluation :: "EvalLine list \<Rightarrow> IEvaluator \<Rightarrow> IEvaluator" where
  "startInteractiveEvaluation [] e = e"
| "startInteractiveEvaluation (l # ls) e = (if trimSpace (el_text l) = ''0'' then e else startInteractiveEvaluation ls (evalChoice l e))"

text \<open>Points, levels and score of a dialogue of at most \<open>n\<close> evaluations.\<close>

definition ieOk :: "nat \<Rightarrow> IEvaluator \<Rightarrow> bool" where
  "ieOk n e \<longleftrightarrow> 1 \<le> ie_level e \<and> 0 \<le> ie_experience e \<and> ie_experience e < ie_level e * 100 \<and> ie_score e = ie_experience e + levelCost (ie_level e)
     \<and> ie_score e \<le> 60 * int n \<and> ie_level e \<le> 1 + int n \<and> ie_achievements e \<subseteq> {''concurrency_master'', ''security_expert''}"

lemma update_ok:
  assumes "ieOk n e" "0 \<le> points" "points \<le> 60" "n < 2 ^ 50"
  shows "ieOk (n + 1) (updateScore points e)"
proof -
  have b: "0 \<le> ie_score e" "ie_score e \<le> 60 * 2 ^ 50" "ie_level e \<le> 1 + 2 ^ 50" "ie_experience e \<le> 60 * 2 ^ 50"
    using assms levelCost_nonneg [of "ie_level e"] by (auto simp: ieOk_def)
  have w: "i64 (ie_score e + points) = ie_score e + points" "i64 (ie_experience e + points) = ie_experience e + points" "i64 (ie_level e * 100) = ie_level e * 100" "i64 (ie_level e + 1) = ie_level e + 1"
    using assms b by (auto simp: ieOk_def intro!: i64_id in_i64I)
  show ?thesis
  proof (cases "ie_experience e + points \<ge> ie_level e * 100")
    case True
    then have "i64 (ie_experience e + points - ie_level e * 100) = ie_experience e + points - ie_level e * 100" using b assms by (intro i64_id in_i64I) (auto simp: ieOk_def)
    moreover have "levelCost (ie_level e + 1) = levelCost (ie_level e) + 100 * ie_level e" by (simp add: levelCost_def algebra_simps)
    moreover from calculation(1) have "updateScore points e = e\<lparr>ie_score := ie_score e + points, ie_level := ie_level e + 1, ie_experience := ie_experience e + points - ie_level e * 100\<rparr>"
      using True by (simp add: updateScore_def Let_def w)
    ultimately show ?thesis using True assms by (simp add: ieOk_def)
  next
    case False
    then have "updateScore points e = e\<lparr>ie_score := ie_score e + points, ie_experience := ie_experience e + points\<rparr>" by (simp add: updateScore_def Let_def w)
    then show ?thesis using False assms by (simp add: ieOk_def)
  qed
qed

lemma ieOk_mono: "ieOk n e \<Longrightarrow> ieOk (n + 1) e"
  by (auto simp: ieOk_def)

lemma achievement_ok: "ieOk n e \<Longrightarrow> name \<in> {''concurrency_master'', ''security_expert''} \<Longrightarrow> ieOk n (ieCheckAchievements name earned e)"
  by (simp add: ieOk_def ieCheckAchievements_def)

lemma choice_ok:
  assumes "ieOk n e" "n < 2 ^ 50"
  shows "ieOk (n + 1) (evalChoice l e)"
proof -
  note up = update_ok [OF assms(1) _ _ assms(2)]
  have "ieOk (n + 1) (evaluateConcurrency i f r e)" for i f r
    unfolding evaluateConcurrency_def Let_def
    by (intro achievement_ok up) (auto simp: sumPassed_def testGoroutineManagement_def testChannelUsage_def testDeadlockDetection_def race_test_passes Let_def split: option.split)
  moreover have "ieOk (n + 1) (evaluateMemoryManagement k m p e)" for k m p
    unfolding evaluateMemoryManagement_def Let_def by (intro up) auto
  moreover have "ieOk (n + 1) (ieEvaluatePerformance d1 d2 d3 e)" for d1 d2 d3
    unfolding ieEvaluatePerformance_def by (intro up) (auto simp: benchmarkScore_def)
  moreover have "ieOk (n + 1) (evaluateSecurity d1 d2 a e)" for d1 d2 a
    unfolding evaluateSecurity_def Let_def by (intro achievement_ok up) (auto simp: sumPassed_def)
  moreover have "ieOk (n + 1) (evaluateDistributed t1 t2 t3 t4 e)" for t1 t2 t3 t4
    unfolding evaluateDistributed_def by (intro up) (auto simp: simulateDistributedTests_def)
  ultimately show ?thesis using ieOk_mono [OF assms(1)] by (simp add: evalChoice_def Let_def split: prod.split)
qed

lemma dialogue_ok: "ieOk n e \<Longrightarrow> n + length ls < 2 ^ 50 \<Longrightarrow> ieOk (n + length ls) (startInteractiveEvaluation ls e)"
proof (induction ls arbitrary: n e)
  case (Cons l ls)
  have "ieOk (n + length (l # ls)) e" using Cons.prems(1) by (auto simp: ieOk_def)
  moreover have "ieOk (n + 1 + length ls) (startInteractiveEvaluation ls (evalChoice l e))" using Cons.IH [of "n + 1" "evalChoice l e"] Cons.prems choice_ok [of n e l] by simp
  ultimately show ?case by simp
qed simp

text \<open> After every dialogue with the interactive evaluator the experience is what the levels have left of the score and stays below what the present level needs, so that the progress bar is never too long; every
  evaluation brings at most 60 points and one level.\<close>

theorem evaluation_accounts:
  fixes ls :: "EvalLine list"
  defines "e \<equiv> startInteractiveEvaluation ls newInteractiveEvaluator"
  assumes "length ls < 2 ^ 50"
  shows "ie_score e = ie_experience e + levelCost (ie_level e) \<and> 0 \<le> ie_experience e \<and> ie_experience e < ie_level e * 100 \<and> ie_score e \<le> 60 * int (length ls) \<and> ie_level e \<le> 1 + int (length ls)"
  using dialogue_ok [of 0 newInteractiveEvaluator ls] assms by (simp add: ieOk_def newInteractiveEvaluator_def levelCost_def)

definition evalLine :: "string \<Rightarrow> EvalLine" where
  "evalLine t = \<lparr>el_text = t, el_initial = 2, el_final = 2, el_received = Some 10, el_initialMem = 0, el_finalMem = 0, el_poolTest = True, el_durations = (1, 1, 1), el_admitted = replicate 10 True @ replicate 90 False, el_clocks = (0, 1, 2, 3)\<rparr>"

theorem evaluation_accounts_witness:
  "ie_experience (startInteractiveEvaluation [evalLine ''1'', evalLine '' 3'', evalLine ''0'', evalLine ''4''] newInteractiveEvaluator) < 200
   \<and> ie_level (startInteractiveEvaluation [evalLine ''1'', evalLine '' 3'', evalLine ''0'', evalLine ''4''] newInteractiveEvaluator) = 2"
proof -
  have "ie_level (startInteractiveEvaluation [evalLine ''1'', evalLine '' 3'', evalLine ''0'', evalLine ''4''] newInteractiveEvaluator) = 2"
    by (simp add: evalLine_def evalChoice_def trimSpace_def isSpace_def evaluateConcurrency_def race_test_passes testGoroutineManagement_def testChannelUsage_def testDeadlockDetection_def
        sumPassed_def ieCheckAchievements_def updateScore_def newInteractiveEvaluator_def ieEvaluatePerformance_def benchmarkScore_def i64_def Let_def)
  then show ?thesis using evaluation_accounts [of "[evalLine ''1'', evalLine '' 3'', evalLine ''0'', evalLine ''4'']"] by simp
qed

end
