(* ===== verification/TransactionCoordinator.thy ===== *)
theory TransactionCoordinator
  imports GoPrelude
begin

text \<open>
  The coordinator of distributed transactions of \<open>src/challenges/challenge31_distributed_transaction.go\<close>: lock manager, transactions with write sets, and the commit in two phases.

  Values are integers, as in the program that uses the coordinator.  A commit visits the participants with one goroutine each: every visit is a step, and the calls of several transactions interleave.  Failures of participants during the preparation
  and the order in which a read finds the participants are arguments; time stamps, and fields that nothing reads (read set, wait graph, transaction log) are left out.  The short loop that starts the preparation reads the availability of all participants in one step;
  transaction numbers are natural numbers (the code would wrap after \<open>2 ^ 64\<close> transactions).

  The file is an exercise, and its comments name faults.  Shown is what holds in spite of them: locks of different transactions on one resource are never in conflict; only the second phase of a commit changes data; and as long as the
  second phases of different transactions do not overlap, all participants together behave like a single store.  An example shows that overlapping commits leave the participants with different data.
\<close>

section \<open>Lock manager\<close>

datatype LockType = SharedLock | ExclusiveLock

record TxnLock =
  lo_TxnID :: nat
  lo_Type :: LockType

type_synonym LockManager = "string \<Rightarrow> TxnLock list"

definition newLockManager :: LockManager where
  "newLockManager = (\<lambda>_. [])"

definition conflicting :: "nat \<Rightarrow> LockType \<Rightarrow> TxnLock \<Rightarrow> bool" where
  "conflicting txnID lockType l \<longleftrightarrow> (lo_Type l = ExclusiveLock \<or> lockType = ExclusiveLock) \<and> lo_TxnID l \<noteq> txnID"

text \<open>The result says whether the lock was granted; otherwise the call returns an error.\<close>

definition acquireLock :: "nat \<Rightarrow> string \<Rightarrow> LockType \<Rightarrow> LockManager \<Rightarrow> bool \<times> LockManager" where
  "acquireLock txnID resource lockType lm =
     (if list_ex (conflicting txnID lockType) (lm resource) then (False, lm)
      else (True, lm(resource := lm resource @ [\<lparr>lo_TxnID = txnID, lo_Type = lockType\<rparr>])))"

definition releaseLocks :: "nat \<Rightarrow> LockManager \<Rightarrow> LockManager" where
  "releaseLocks txnID lm = (\<lambda>resource. filter (\<lambda>l. lo_TxnID l \<noteq> txnID) (lm resource))"

datatype LockStep = Acquire nat string LockType | Release nat

fun lockStep :: "LockManager \<Rightarrow> LockStep \<Rightarrow> LockManager" where
  "lockStep lm (Acquire txnID resource lockType) = snd (acquireLock txnID resource lockType lm)"
| "lockStep lm (Release txnID) = releaseLocks txnID lm"

definition locksOk :: "LockManager \<Rightarrow> bool" where
  "locksOk lm \<longleftrightarrow> (\<forall>resource. \<forall>l \<in> set (lm resource). \<forall>l' \<in> set (lm resource). lo_TxnID l \<noteq> lo_TxnID l' \<longrightarrow> lo_Type l = SharedLock \<and> lo_Type l' = SharedLock)"

lemma no_conflict: "\<not> list_ex (conflicting txnID lockType) ls \<Longrightarrow> l \<in> set ls \<Longrightarrow> lo_TxnID l \<noteq> txnID \<Longrightarrow> lo_Type l = SharedLock \<and> lockType = SharedLock"
  by (metis LockType.exhaust conflicting_def list_ex_iff)

interpretation locks: locked_object lockStep locksOk
proof
  fix lm e
  assume ok: "locksOk lm"
  show "locksOk (lockStep lm e)"
  proof (cases e)
    case (Acquire txnID resource lockType)
    then show ?thesis using ok no_conflict [of txnID lockType "lm resource"] by (auto simp: locksOk_def acquireLock_def)
  next
    case (Release txnID)
    then show ?thesis using ok by (auto simp: locksOk_def releaseLocks_def)
  qed
qed

text \<open> In every history of the lock manager two locks of different transactions on one resource are both shared; and a lock is granted exactly when it keeps this so.\<close>

theorem lock_manager_exclusive:
  fixes es :: "LockStep list"
  defines "lm \<equiv> run lockStep newLockManager es"
  assumes "l \<in> set (lm resource)" "l' \<in> set (lm resource)" "lo_TxnID l \<noteq> lo_TxnID l'"
  shows "lo_Type l = SharedLock \<and> lo_Type l' = SharedLock
    \<and> (fst (acquireLock txnID resource lockType lm) \<longleftrightarrow> locksOk (lm(resource := lm resource @ [\<lparr>lo_TxnID = txnID, lo_Type = lockType\<rparr>])))"
proof -
  have ok: "locksOk lm" unfolding lm_def by (rule locks.inv_run) (simp add: locksOk_def newLockManager_def)
  have "fst (acquireLock txnID resource lockType lm) \<longleftrightarrow> \<not> list_ex (conflicting txnID lockType) (lm resource)" by (simp add: acquireLock_def)
  also have "\<dots> \<longleftrightarrow> locksOk (lm(resource := lm resource @ [\<lparr>lo_TxnID = txnID, lo_Type = lockType\<rparr>]))"
  proof
    assume "\<not> list_ex (conflicting txnID lockType) (lm resource)"
    then show "locksOk (lm(resource := lm resource @ [\<lparr>lo_TxnID = txnID, lo_Type = lockType\<rparr>]))"
      using locks.inv_step [OF ok, of "Acquire txnID resource lockType"] by (simp add: acquireLock_def)
  next
    assume new: "locksOk (lm(resource := lm resource @ [\<lparr>lo_TxnID = txnID, lo_Type = lockType\<rparr>]))"
    have "lo_Type x = SharedLock \<and> lockType = SharedLock" if "x \<in> set (lm resource)" "lo_TxnID x \<noteq> txnID" for x
      using new [unfolded locksOk_def, rule_format, of x resource "\<lparr>lo_TxnID = txnID, lo_Type = lockType\<rparr>"] that by simp
    then show "\<not> list_ex (conflicting txnID lockType) (lm resource)" by (auto simp: list_ex_iff conflicting_def)
  qed
  finally show ?thesis using ok assms(2-4) unfolding locksOk_def by blast
qed

definition lockHistory :: "LockStep list" where
  "lockHistory = [Acquire 1 ''a'' SharedLock, Acquire 2 ''a'' SharedLock, Acquire 1 ''a'' ExclusiveLock, Acquire 3 ''b'' ExclusiveLock, Release 3]"

theorem lock_manager_exclusive_witness:
  "length (run lockStep newLockManager lockHistory ''a'') = 2 \<and> \<not> fst (acquireLock 1 ''a'' ExclusiveLock (run lockStep newLockManager lockHistory))
   \<and> fst (acquireLock 3 ''a'' SharedLock (run lockStep newLockManager lockHistory))"
proof -
  have lm: "run lockStep newLockManager lockHistory ''a'' = [\<lparr>lo_TxnID = 1, lo_Type = SharedLock\<rparr>, \<lparr>lo_TxnID = 2, lo_Type = SharedLock\<rparr>]" by code_simp
  then have "fst (acquireLock 3 ''a'' SharedLock (run lockStep newLockManager lockHistory)) \<longleftrightarrow>
      locksOk ((run lockStep newLockManager lockHistory)(''a'' := run lockStep newLockManager lockHistory ''a'' @ [\<lparr>lo_TxnID = 3, lo_Type = SharedLock\<rparr>]))"
    using lock_manager_exclusive [of "\<lparr>lo_TxnID = 1, lo_Type = SharedLock\<rparr>" lockHistory "''a''" "\<lparr>lo_TxnID = 2, lo_Type = SharedLock\<rparr>" 3 SharedLock] by simp
  moreover have "run lockStep newLockManager lockHistory = newLockManager(''a'' := [\<lparr>lo_TxnID = 1, lo_Type = SharedLock\<rparr>, \<lparr>lo_TxnID = 2, lo_Type = SharedLock\<rparr>])"
    by (rule ext) (simp add: lockHistory_def acquireLock_def releaseLocks_def newLockManager_def conflicting_def)
  ultimately show ?thesis by (simp add: locksOk_def newLockManager_def acquireLock_def conflicting_def)
qed


section \<open>Transactions\<close>

datatype TxnState = TxnInit | TxnActive | TxnPreparing | TxnPrepared | TxnCommitting | TxnCommitted | TxnAborting | TxnAborted

datatype ParticipantState = ParticipantInit | ParticipantReady | ParticipantPrepared | ParticipantCommitted | ParticipantAborted

record Participant31 =
  pa_State :: ParticipantState
  pa_Data :: "string \<rightharpoonup> int"
  pa_available :: bool

text \<open>The program points of \<open>Commit\<close>: the participants that are still to be visited in a phase, and the errors of the first.\<close>

datatype CommitPoint = NoCommit | Preparing "string list" "string list" | ToCommit | Committing "string list"

record Txn31 =
  tx_State :: TxnState
  tx_WriteSet :: "string \<rightharpoonup> int"
  tx_Operations :: "(string \<times> int) list"
  tx_commit :: CommitPoint

record Coordinator31 =
  tc_ids :: "string list"
  tc_participants :: "string \<Rightarrow> Participant31"
  tc_txnCounter :: nat
  tc_activeTxns :: "nat \<Rightarrow> Txn31 option"

definition newTransactionCoordinator :: Coordinator31 where
  "newTransactionCoordinator =
     \<lparr>tc_ids = [], tc_participants = (\<lambda>_. \<lparr>pa_State = ParticipantInit, pa_Data = Map.empty, pa_available = True\<rparr>), tc_txnCounter = 0, tc_activeTxns = Map.empty\<rparr>"

definition addParticipant :: "string \<Rightarrow> Coordinator31 \<Rightarrow> Coordinator31" where
  "addParticipant i tc =
     tc\<lparr>tc_ids := (if i \<in> set (tc_ids tc) then tc_ids tc else tc_ids tc @ [i]),
        tc_participants := (tc_participants tc)(i := \<lparr>pa_State = ParticipantInit, pa_Data = Map.empty, pa_available = True\<rparr>)\<rparr>"

definition beginTransaction31 :: "Coordinator31 \<Rightarrow> nat \<times> Coordinator31" where
  "beginTransaction31 tc =
     (let txnID = tc_txnCounter tc + 1
      in (txnID, tc\<lparr>tc_txnCounter := txnID,
            tc_activeTxns := (tc_activeTxns tc)(txnID \<mapsto> \<lparr>tx_State = TxnActive, tx_WriteSet = Map.empty, tx_Operations = [], tx_commit = NoCommit\<rparr>)\<rparr>))"

text \<open>A read looks at the write set and then at the available participants in the order in which the loop over the map finds them.\<close>

fun readFrom :: "string \<Rightarrow> (string \<Rightarrow> Participant31) \<Rightarrow> string list \<Rightarrow> int option" where
  "readFrom key ps [] = None"
| "readFrom key ps (i # is) =
     (if \<not> pa_available (ps i) then readFrom key ps is
      else case pa_Data (ps i) key of Some v \<Rightarrow> Some v | None \<Rightarrow> readFrom key ps is)"

definition read31 :: "string list \<Rightarrow> string \<Rightarrow> Txn31 \<Rightarrow> Coordinator31 \<Rightarrow> int option" where
  "read31 order key txn tc = (case tx_WriteSet txn key of Some v \<Rightarrow> Some v | None \<Rightarrow> readFrom key (tc_participants tc) order)"

definition write31 :: "string \<Rightarrow> int \<Rightarrow> Txn31 \<Rightarrow> Txn31 option" where
  "write31 key value txn =
     (if tx_State txn \<noteq> TxnActive then None
      else Some (txn\<lparr>tx_WriteSet := (tx_WriteSet txn)(key \<mapsto> value), tx_Operations := tx_Operations txn @ [(key, value)]\<rparr>))"

definition setTxn :: "nat \<Rightarrow> Txn31 \<Rightarrow> Coordinator31 \<Rightarrow> Coordinator31" where
  "setTxn t txn tc = tc\<lparr>tc_activeTxns := (tc_activeTxns tc)(t \<mapsto> txn)\<rparr>"

definition setParticipant :: "string \<Rightarrow> Participant31 \<Rightarrow> Coordinator31 \<Rightarrow> Coordinator31" where
  "setParticipant i p tc = tc\<lparr>tc_participants := (tc_participants tc)(i := p)\<rparr>"

text \<open>The steps of \<open>prepare\<close>: its start with the participants that are available, the visit of a participant, which may fail, and its end.\<close>

definition startPrepare :: "Coordinator31 \<Rightarrow> Txn31 \<Rightarrow> Txn31" where
  "startPrepare tc txn =
     (if tx_commit txn = NoCommit then txn\<lparr>tx_State := TxnPreparing, tx_commit := Preparing (filter (\<lambda>i. pa_available (tc_participants tc i)) (tc_ids tc)) []\<rparr> else txn)"

definition prepareTxnAt :: "nat \<Rightarrow> string \<Rightarrow> bool \<Rightarrow> Coordinator31 \<Rightarrow> Txn31 \<Rightarrow> Coordinator31" where
  "prepareTxnAt t i fails tc txn =
     (case tx_commit txn of
        Preparing left errors \<Rightarrow>
          if i \<in> set left
          then (if fails then setTxn t (txn\<lparr>tx_commit := Preparing (remove1 i left) (errors @ [i])\<rparr>) tc
                else setParticipant i ((tc_participants tc i)\<lparr>pa_State := ParticipantPrepared\<rparr>) (setTxn t (txn\<lparr>tx_commit := Preparing (remove1 i left) errors\<rparr>) tc))
          else tc
      | _ \<Rightarrow> tc)"

definition endPrepare :: "Txn31 \<Rightarrow> Txn31" where
  "endPrepare txn =
     (case tx_commit txn of
        Preparing [] errors \<Rightarrow> if errors = [] then txn\<lparr>tx_State := TxnPrepared, tx_commit := ToCommit\<rparr> else txn\<lparr>tx_commit := NoCommit\<rparr>
      | _ \<Rightarrow> txn)"

text \<open>The steps of \<open>doCommit\<close>; it visits all participants, available or not.\<close>

definition startCommit :: "Coordinator31 \<Rightarrow> Txn31 \<Rightarrow> Txn31" where
  "startCommit tc txn = (if tx_commit txn = ToCommit then txn\<lparr>tx_State := TxnCommitting, tx_commit := Committing (tc_ids tc)\<rparr> else txn)"

definition commitTxnAt :: "nat \<Rightarrow> string \<Rightarrow> Coordinator31 \<Rightarrow> Txn31 \<Rightarrow> Coordinator31" where
  "commitTxnAt t i tc txn =
     (case tx_commit txn of
        Committing left \<Rightarrow>
          if i \<in> set left
          then setParticipant i ((tc_participants tc i)\<lparr>pa_Data := pa_Data (tc_participants tc i) ++ tx_WriteSet txn, pa_State := ParticipantCommitted\<rparr>)
                 (setTxn t (txn\<lparr>tx_commit := Committing (remove1 i left)\<rparr>) tc)
          else tc
      | _ \<Rightarrow> tc)"

definition endCommit :: "Txn31 \<Rightarrow> Txn31" where
  "endCommit txn = (case tx_commit txn of Committing [] \<Rightarrow> txn\<lparr>tx_State := TxnCommitted, tx_commit := NoCommit\<rparr> | _ \<Rightarrow> txn)"

definition simulatePartition :: "string \<Rightarrow> Coordinator31 \<Rightarrow> Coordinator31" where
  "simulatePartition i tc = (if i \<in> set (tc_ids tc) then setParticipant i ((tc_participants tc i)\<lparr>pa_available := False\<rparr>) tc else tc)"

datatype TxnStep = Begin31 | Write31 nat string int | StartPrepare nat | PrepareAt nat string bool | EndPrepare nat | StartCommit nat | CommitAt nat string | EndCommit nat | Partition31 string

definition onTxn :: "nat \<Rightarrow> (Txn31 \<Rightarrow> Coordinator31) \<Rightarrow> Coordinator31 \<Rightarrow> Coordinator31" where
  "onTxn t f tc = (case tc_activeTxns tc t of None \<Rightarrow> tc | Some txn \<Rightarrow> f txn)"

fun txnStep :: "Coordinator31 \<Rightarrow> TxnStep \<Rightarrow> Coordinator31" where
  "txnStep tc Begin31 = snd (beginTransaction31 tc)"
| "txnStep tc (Write31 t key value) = onTxn t (\<lambda>txn. case write31 key value txn of None \<Rightarrow> tc | Some txn' \<Rightarrow> setTxn t txn' tc) tc"
| "txnStep tc (StartPrepare t) = onTxn t (\<lambda>txn. setTxn t (startPrepare tc txn) tc) tc"
| "txnStep tc (PrepareAt t i fails) = onTxn t (prepareTxnAt t i fails tc) tc"
| "txnStep tc (EndPrepare t) = onTxn t (\<lambda>txn. setTxn t (endPrepare txn) tc) tc"
| "txnStep tc (StartCommit t) = onTxn t (\<lambda>txn. setTxn t (startCommit tc txn) tc) tc"
| "txnStep tc (CommitAt t i) = onTxn t (commitTxnAt t i tc) tc"
| "txnStep tc (EndCommit t) = onTxn t (\<lambda>txn. setTxn t (endCommit txn) tc) tc"
| "txnStep tc (Partition31 i) = simulatePartition i tc"


section \<open>Serial commits\<close>

text \<open>What a transaction in its second phase still has to write: the participants not yet visited, and the write set.\<close>

definition phase2 :: "Txn31 option \<Rightarrow> (string list \<times> (string \<rightharpoonup> int)) option" where
  "phase2 txn = (case txn of None \<Rightarrow> None | Some x \<Rightarrow> (case tx_commit x of Committing left \<Rightarrow> Some (left, tx_WriteSet x) | _ \<Rightarrow> None))"

definition committing :: "Coordinator31 \<Rightarrow> nat \<Rightarrow> (string list \<times> (string \<rightharpoonup> int)) option" where
  "committing tc t = phase2 (tc_activeTxns tc t)"

definition noneCommitting :: "Coordinator31 \<Rightarrow> bool" where
  "noneCommitting tc \<longleftrightarrow> list_all (\<lambda>t. committing tc t = None) [0..<tc_txnCounter tc + 1]"

text \<open>A second phase begins only when no other one is under way.\<close>

fun serial :: "Coordinator31 \<Rightarrow> TxnStep \<Rightarrow> bool" where
  "serial tc (StartCommit t) \<longleftrightarrow> noneCommitting tc"
| "serial tc e \<longleftrightarrow> True"

text \<open>The abstract store: a commit writes its write set at its end.\<close>

fun committed :: "Coordinator31 \<Rightarrow> TxnStep \<Rightarrow> (string \<rightharpoonup> int) list" where
  "committed tc (EndCommit t) = (case committing tc t of Some ([], w) \<Rightarrow> [w] | _ \<Rightarrow> [])"
| "committed tc e = []"

definition txnsOk :: "Coordinator31 \<Rightarrow> bool" where
  "txnsOk tc \<longleftrightarrow> (\<forall>t txn. tc_activeTxns tc t = Some txn \<longrightarrow> t \<le> tc_txnCounter tc \<and> (tx_State txn = TxnActive \<longrightarrow> phase2 (Some txn) = None))"

definition dataOk :: "(nat \<Rightarrow> (string list \<times> (string \<rightharpoonup> int)) option) \<Rightarrow> string list \<Rightarrow> (string \<Rightarrow> string \<rightharpoonup> int) \<Rightarrow> (string \<rightharpoonup> int) \<Rightarrow> bool" where
  "dataOk com ids data store \<longleftrightarrow> distinct ids
     \<and> (\<forall>t l w. com t = Some (l, w) \<longrightarrow> distinct l \<and> set l \<subseteq> set ids \<and> (\<forall>i \<in> set ids. data i = (if i \<in> set l then store else store ++ w)) \<and> (\<forall>t'. com t' \<noteq> None \<longrightarrow> t' = t))
     \<and> ((\<forall>t. com t = None) \<longrightarrow> (\<forall>i \<in> set ids. data i = store))"

definition dataOf :: "Coordinator31 \<Rightarrow> string \<Rightarrow> string \<rightharpoonup> int" where
  "dataOf tc i = pa_Data (tc_participants tc i)"

definition storeRel :: "Coordinator31 \<Rightarrow> (string \<rightharpoonup> int) \<Rightarrow> bool" where
  "storeRel tc store \<longleftrightarrow> txnsOk tc \<and> dataOk (committing tc) (tc_ids tc) (dataOf tc) store"

lemma noneCommitting_iff: "txnsOk tc \<Longrightarrow> noneCommitting tc \<longleftrightarrow> (\<forall>t. committing tc t = None)"
proof -
  assume ok: "txnsOk tc"
  have "committing tc t = None" if "\<not> t < tc_txnCounter tc + 1" for t
  proof (cases "tc_activeTxns tc t")
    case (Some txn)
    then have "t \<le> tc_txnCounter tc" using ok unfolding txnsOk_def by blast
    then show ?thesis using that by simp
  qed (simp add: committing_def phase2_def)
  then show ?thesis unfolding noneCommitting_def list_all_iff by (metis add_0 atLeast0LessThan lessThan_iff set_upt)
qed

lemma set_simps [simp]:
  "tc_ids (setTxn t txn tc) = tc_ids tc" "tc_ids (setParticipant i p tc) = tc_ids tc" "tc_txnCounter (setTxn t txn tc) = tc_txnCounter tc" "tc_txnCounter (setParticipant i p tc) = tc_txnCounter tc"
  "committing (setTxn t txn tc) = (committing tc)(t := phase2 (Some txn))" "committing (setParticipant i p tc) = committing tc"
  "dataOf (setTxn t txn tc) = dataOf tc" "dataOf (setParticipant i p tc) = (dataOf tc)(i := pa_Data p)"
  "tc_activeTxns (setParticipant i p tc) = tc_activeTxns tc" "tc_activeTxns (setTxn t txn tc) = (tc_activeTxns tc)(t \<mapsto> txn)" "tc_participants (setTxn t txn tc) = tc_participants tc"
  by (auto simp: setTxn_def setParticipant_def committing_def dataOf_def)

lemma setTxn_ok: "txnsOk tc \<Longrightarrow> tc_activeTxns tc t \<noteq> None \<Longrightarrow> (tx_State txn = TxnActive \<longrightarrow> phase2 (Some txn) = None) \<Longrightarrow> txnsOk (setTxn t txn tc)"
  by (auto simp: txnsOk_def)

text \<open>A step that keeps the data and the second phases keeps the relation.\<close>

lemma quiet:
  assumes "storeRel tc store" "txnsOk tc'" "tc_ids tc' = tc_ids tc" "committing tc' = committing tc" "dataOf tc' = dataOf tc"
  shows "storeRel tc' store"
  using assms by (simp add: storeRel_def)

lemma quiet_txn:
  assumes "storeRel tc store" "tc_activeTxns tc t = Some txn" "phase2 (Some txn') = phase2 (Some txn)" "tx_State txn' = TxnActive \<longrightarrow> phase2 (Some txn') = None"
  shows "storeRel (setTxn t txn' tc) store"
proof (rule quiet [OF assms(1)])
  show "txnsOk (setTxn t txn' tc)" using assms by (intro setTxn_ok) (auto simp: storeRel_def)
  show "committing (setTxn t txn' tc) = committing tc" using assms(2,3) by (auto simp: committing_def)
qed simp_all


lemma rel_begin: "storeRel tc store \<Longrightarrow> storeRel (snd (beginTransaction31 tc)) store"
proof (rule quiet)
  assume rel: "storeRel tc store"
  then have ok: "txnsOk tc" by (simp add: storeRel_def)
  then have "tc_activeTxns tc (tc_txnCounter tc + 1) = None" unfolding txnsOk_def by (metis Suc_eq_plus1 not_less_eq_eq option.exhaust order_refl)
  then show "committing (snd (beginTransaction31 tc)) = committing tc" by (auto simp: committing_def beginTransaction31_def Let_def phase2_def)
  show "txnsOk (snd (beginTransaction31 tc))" using ok by (auto simp: txnsOk_def beginTransaction31_def Let_def phase2_def le_SucI)
  show "dataOf (snd (beginTransaction31 tc)) = dataOf tc" by (rule ext) (simp add: dataOf_def beginTransaction31_def Let_def)
qed (simp_all add: beginTransaction31_def Let_def)

lemma rel_write:
  assumes rel: "storeRel tc store" and a: "tc_activeTxns tc t = Some txn" and w: "write31 key value txn = Some txn'"
  shows "storeRel (setTxn t txn' tc) store"
proof -
  have act: "tx_State txn = TxnActive" and t': "txn' = txn\<lparr>tx_WriteSet := (tx_WriteSet txn)(key \<mapsto> value), tx_Operations := tx_Operations txn @ [(key, value)]\<rparr>"
    using w by (auto simp: write31_def split: if_splits)
  have none: "phase2 (Some txn) = None" using rel a act by (auto simp: storeRel_def txnsOk_def)
  then have "phase2 (Some txn') = None" by (auto simp: t' phase2_def split: CommitPoint.splits)
  then show ?thesis using quiet_txn [OF rel a, of txn'] none by simp
qed

lemma rel_prepare:
  assumes rel: "storeRel tc store" and a: "tc_activeTxns tc t = Some txn"
  shows "storeRel (setTxn t (startPrepare tc txn) tc) store" "storeRel (prepareTxnAt t i fails tc txn) store" "storeRel (setTxn t (endPrepare txn) tc) store"
proof -
  have act: "tx_State txn = TxnActive \<longrightarrow> phase2 (Some txn) = None" using rel a by (auto simp: storeRel_def txnsOk_def)
  show "storeRel (setTxn t (startPrepare tc txn) tc) store" by (rule quiet_txn [OF rel a]) (use act in \<open>auto simp: startPrepare_def phase2_def\<close>)
  show "storeRel (setTxn t (endPrepare txn) tc) store"
    by (rule quiet_txn [OF rel a]) (use act in \<open>auto simp: endPrepare_def phase2_def split: CommitPoint.splits list.splits\<close>)
  have part: "storeRel (setParticipant i ((tc_participants tc' i)\<lparr>pa_State := s\<rparr>) tc') store" if "storeRel tc' store" for tc' s
    using that by (rule quiet) (use that in \<open>auto simp: storeRel_def txnsOk_def dataOf_def\<close>)
  have "storeRel (setTxn t (txn\<lparr>tx_commit := Preparing l e\<rparr>) tc) store" if "tx_commit txn = Preparing l' e'" for l e l' e'
    by (rule quiet_txn [OF rel a]) (use act that in \<open>auto simp: phase2_def\<close>)
  then show "storeRel (prepareTxnAt t i fails tc txn) store" using rel part by (auto simp: prepareTxnAt_def split: CommitPoint.split) (metis set_simps(11))
qed

lemma rel_start_commit:
  assumes rel: "storeRel tc store" and a: "tc_activeTxns tc t = Some txn" and none: "noneCommitting tc"
  shows "storeRel (setTxn t (startCommit tc txn) tc) store"
proof (cases "tx_commit txn = ToCommit")
  case True
  have ok: "txnsOk tc" and d: "dataOk (committing tc) (tc_ids tc) (dataOf tc) store" using rel by (auto simp: storeRel_def)
  have no: "committing tc t' = None" for t' using none noneCommitting_iff [OF ok] by blast
  have new: "phase2 (Some (startCommit tc txn)) = Some (tc_ids tc, tx_WriteSet txn)" "tx_State (startCommit tc txn) \<noteq> TxnActive" using True by (auto simp: startCommit_def phase2_def)
  have "dataOk ((committing tc)(t := Some (tc_ids tc, tx_WriteSet txn))) (tc_ids tc) (dataOf tc) store" using d no by (auto simp: dataOk_def)
  then show ?thesis using setTxn_ok [OF ok, of t "startCommit tc txn"] a new by (simp add: storeRel_def)
next
  case False
  then have "setTxn t (startCommit tc txn) tc = tc" using a by (simp add: startCommit_def setTxn_def map_upd_triv)
  then show ?thesis using rel by simp
qed

lemma data_visit:
  assumes d: "dataOk com ids data store" and c: "com t = Some (l, w)" and i: "i \<in> set l"
  shows "dataOk (com(t := Some (remove1 i l, w))) ids (data(i := data i ++ w)) store"
proof -
  have l: "distinct l" "set l \<subseteq> set ids" "\<forall>j \<in> set ids. data j = (if j \<in> set l then store else store ++ w)" "\<forall>t'. com t' \<noteq> None \<longrightarrow> t' = t" "distinct ids"
    using d c unfolding dataOk_def by blast+
  have "set (remove1 i l) = set l - {i}" using l(1) by (rule set_remove1_eq)
  moreover have "data i = store" using l(3) [rule_format, of i] l(2) i by auto
  ultimately show ?thesis using l i by (auto simp: dataOk_def)
qed

lemma data_end:
  assumes d: "dataOk com ids data store" and c: "com t = Some ([], w)"
  shows "dataOk (com(t := None)) ids data (store ++ w)"
proof -
  have all: "\<forall>j \<in> set ids. data j = (if j \<in> set [] then store else store ++ w)" and only: "\<forall>t'. com t' \<noteq> None \<longrightarrow> t' = t" and "distinct ids"
    using d c unfolding dataOk_def by blast+
  have "\<forall>j \<in> set ids. data j = store ++ w" using all by simp
  moreover have "(com(t := None)) t' = None" for t' using only by (cases "com t'"; cases "t' = t") simp_all
  ultimately show ?thesis using \<open>distinct ids\<close> unfolding dataOk_def by (metis option.distinct(1))
qed

lemma rel_commit_at:
  assumes rel: "storeRel tc store" and a: "tc_activeTxns tc t = Some txn"
  shows "storeRel (commitTxnAt t i tc txn) store"
proof (cases "\<exists>l. tx_commit txn = Committing l \<and> i \<in> set l")
  case True
  then obtain l where l: "tx_commit txn = Committing l" "i \<in> set l" by blast
  have ok: "txnsOk tc" and d: "dataOk (committing tc) (tc_ids tc) (dataOf tc) store" using rel by (auto simp: storeRel_def)
  have c: "committing tc t = Some (l, tx_WriteSet txn)" using a l by (simp add: committing_def phase2_def)
  have "phase2 (Some txn) \<noteq> None" using l by (simp add: phase2_def)
  then have "tx_State txn \<noteq> TxnActive" using ok a unfolding txnsOk_def by metis
  then have "txnsOk (setTxn t (txn\<lparr>tx_commit := Committing (remove1 i l)\<rparr>) tc)" using ok a by (intro setTxn_ok) auto
  then have "txnsOk (commitTxnAt t i tc txn)" using l by (simp add: commitTxnAt_def txnsOk_def)
  moreover have "dataOf tc i ++ tx_WriteSet txn = pa_Data (tc_participants tc i) ++ tx_WriteSet txn" by (simp add: dataOf_def)
  ultimately show ?thesis using data_visit [OF d c l(2)] l by (simp add: storeRel_def commitTxnAt_def phase2_def)
next
  case False
  then have "commitTxnAt t i tc txn = tc" by (auto simp: commitTxnAt_def split: CommitPoint.split)
  then show ?thesis using rel by simp
qed

lemma rel_end_commit:
  assumes rel: "storeRel tc store" and a: "tc_activeTxns tc t = Some txn"
  shows "storeRel (setTxn t (endCommit txn) tc) (run (++) store (committed tc (EndCommit t)))"
proof (cases "tx_commit txn = Committing []")
  case True
  have ok: "txnsOk tc" and d: "dataOk (committing tc) (tc_ids tc) (dataOf tc) store" using rel by (auto simp: storeRel_def)
  have c: "committing tc t = Some ([], tx_WriteSet txn)" using a True by (simp add: committing_def phase2_def)
  have "phase2 (Some (endCommit txn)) = None" using True by (simp add: endCommit_def phase2_def)
  then show ?thesis using setTxn_ok [OF ok, of t "endCommit txn"] a data_end [OF d c] c by (simp add: storeRel_def)
next
  case False
  then have "endCommit txn = txn" "committed tc (EndCommit t) = []" using a by (auto simp: endCommit_def committing_def phase2_def split: CommitPoint.splits list.splits)
  then show ?thesis using rel a by (simp add: setTxn_def map_upd_triv)
qed


lemma rel_partition: "storeRel tc store \<Longrightarrow> storeRel (simulatePartition i tc) store"
proof -
  assume rel: "storeRel tc store"
  have "storeRel (setParticipant i ((tc_participants tc i)\<lparr>pa_available := False\<rparr>) tc) store"
    by (rule quiet [OF rel]) (use rel in \<open>auto simp: storeRel_def txnsOk_def dataOf_def\<close>)
  then show ?thesis using rel by (simp add: simulatePartition_def)
qed

interpretation coordinator: simulation txnStep serial storeRel committed "(++)"
proof
  fix tc store e
  assume rel: "storeRel tc store" and ser: "serial tc e"
  show "storeRel (txnStep tc e) (run (++) store (committed tc e))"
  proof (cases e)
    case Begin31
    then show ?thesis using rel_begin [OF rel] by simp
  next
    case (EndCommit t)
    then show ?thesis using rel rel_end_commit [OF rel] by (cases "tc_activeTxns tc t") (simp_all add: onTxn_def committing_def phase2_def)
  next
    case (Write31 t key v)
    then show ?thesis using rel rel_write [OF rel] by (cases "tc_activeTxns tc t") (auto simp: onTxn_def split: option.split)
  next
    case (StartCommit t)
    then show ?thesis using rel ser rel_start_commit [OF rel] by (cases "tc_activeTxns tc t") (simp_all add: onTxn_def)
  qed (use rel rel_prepare [OF rel] rel_commit_at [OF rel] rel_partition [OF rel] in \<open>simp_all add: onTxn_def split: option.split\<close>)
qed

text \<open> As long as second phases of commits do not overlap, the participants, whose data agree at the beginning, behave like one store to which every commit adds its write set at its end: whenever no second phase is under way, each of
  them holds exactly this store.  Failed and unfinished commits leave no trace, and participants cut off by a partition take part.\<close>

theorem serial_commits_refine_store:
  fixes tc0 :: Coordinator31 and es :: "TxnStep list"
  defines "tc \<equiv> run txnStep tc0 es"
  assumes "storeRel tc0 store" "admissible txnStep serial tc0 es" "noneCommitting tc" "i \<in> set (tc_ids tc)"
  shows "pa_Data (tc_participants tc i) = run (++) store (observed txnStep committed tc0 es)"
proof -
  have rel: "storeRel tc (run (++) store (observed txnStep committed tc0 es))" unfolding tc_def by (rule coordinator.rel_run [OF assms(2,3)])
  then have "\<forall>t. committing tc t = None" using noneCommitting_iff [of tc] assms(4) by (simp add: storeRel_def)
  then show ?thesis using rel assms(5) by (simp add: storeRel_def dataOk_def dataOf_def)
qed

text \<open>Two participants with the balances of the demonstration, and two transfers.\<close>

definition twoNodes :: Coordinator31 where
  "twoNodes = addParticipant ''node2'' (addParticipant ''node1'' newTransactionCoordinator)"

definition commitAll :: "nat \<Rightarrow> TxnStep list" where
  "commitAll t = [StartPrepare t, PrepareAt t ''node2'' False, PrepareAt t ''node1'' False, EndPrepare t, StartCommit t, CommitAt t ''node1'', CommitAt t ''node2'', EndCommit t]"

definition twoTransfers :: "TxnStep list" where
  "twoTransfers = [Begin31, Begin31, Write31 1 ''alice'' 900, Write31 2 ''alice'' 950, Write31 1 ''bob'' 1100] @ commitAll 1 @ [Partition31 ''node2'', StartPrepare 2, PrepareAt 2 ''node1'' True, EndPrepare 2]"

lemma twoNodes_rel: "storeRel twoNodes Map.empty"
  by (auto simp: storeRel_def twoNodes_def addParticipant_def newTransactionCoordinator_def txnsOk_def dataOk_def committing_def phase2_def dataOf_def)

lemmas txn_defs = twoNodes_def addParticipant_def newTransactionCoordinator_def onTxn_def setTxn_def setParticipant_def beginTransaction31_def write31_def startPrepare_def prepareTxnAt_def endPrepare_def
  startCommit_def commitTxnAt_def endCommit_def simulatePartition_def noneCommitting_def committing_def phase2_def Let_def

theorem serial_commits_refine_store_witness:
  "pa_Data (tc_participants (run txnStep twoNodes twoTransfers) ''node2'') = [''alice'' \<mapsto> 900, ''bob'' \<mapsto> 1100]"
proof -
  have adm: "admissible txnStep serial twoNodes twoTransfers" "noneCommitting (run txnStep twoNodes twoTransfers)" "''node2'' \<in> set (tc_ids (run txnStep twoNodes twoTransfers))"
    and obs: "observed txnStep committed twoNodes twoTransfers = [[''alice'' \<mapsto> 900, ''bob'' \<mapsto> 1100]]"
    by (simp_all add: twoTransfers_def commitAll_def txn_defs upt_rec)
  show ?thesis using serial_commits_refine_store [OF twoNodes_rel adm] by (simp add: obs)
qed

text \<open>When the second phases overlap, the participants can end with different data.\<close>

definition overlapping :: "TxnStep list" where
  "overlapping = [Begin31, Begin31, Write31 1 ''alice'' 900, Write31 2 ''alice'' 950]
     @ concat (map (\<lambda>t. [StartPrepare t, PrepareAt t ''node1'' False, PrepareAt t ''node2'' False, EndPrepare t, StartCommit t]) [1, 2])
     @ [CommitAt 1 ''node1'', CommitAt 2 ''node1'', CommitAt 2 ''node2'', CommitAt 1 ''node2'', EndCommit 1, EndCommit 2]"

lemma overlapping_commits_diverge:
  "pa_Data (tc_participants (run txnStep twoNodes overlapping) ''node1'') ''alice'' = Some 950 \<and> pa_Data (tc_participants (run txnStep twoNodes overlapping) ''node2'') ''alice'' = Some 900"
  by (simp add: overlapping_def txn_defs)

text \<open>A second call of \<open>Commit\<close> is not refused: it writes the old write set over what others have committed since.\<close>

lemma repeated_commit_overwrites:
  "pa_Data (tc_participants (run txnStep twoNodes ([Begin31, Begin31, Write31 1 ''alice'' 900, Write31 2 ''alice'' 950] @ commitAll 1 @ commitAll 2 @ commitAll 1)) ''node1'') ''alice'' = Some 900"
  by (simp add: commitAll_def txn_defs)

text \<open>A transaction reads what it has written; otherwise, when the participants agree, the common value, as long as one of them is available.\<close>

lemma read_own_write: "write31 key value txn = Some txn' \<Longrightarrow> read31 order key txn' tc = Some value"
  by (auto simp: write31_def read31_def split: if_splits)

lemma read_common:
  assumes "\<forall>i \<in> set order. pa_Data (tc_participants tc i) = store" "\<exists>i \<in> set order. pa_available (tc_participants tc i)" "tx_WriteSet txn key = None"
  shows "read31 order key txn tc = store key"
proof -
  have "readFrom key ps order = store key" if "\<forall>i \<in> set order. pa_Data (ps i) = store" "\<exists>i \<in> set order. pa_available (ps i)" for ps
    using that
  proof (induction order)
    case (Cons i js)
    show ?case
    proof (cases "pa_available (ps i) \<and> store key \<noteq> None")
      case True
      then show ?thesis using Cons.prems by auto
    next
      case False
      have "readFrom key ps js = store key" if "store key = None" using Cons.prems(1) that by (induction js) auto
      then show ?thesis using False Cons by (auto split: option.split)
    qed
  qed simp
  then show ?thesis using assms by (simp add: read31_def)
qed

end
