(* ===== verification/Spec2Isabelle.thy ===== *)
theory Spec2Isabelle
  imports DistributedLock Redlock LeaseLock CausalOrder LamportOrder SequenceBuffer
    TwoPhaseCommit Saga RetrySaga Orchestrator Choreography EventSourcingCQRS EventStore StreamProcessing Blockchain
    ConsistentHashing ColumnarStorage WideColumnStore DistributedColumnar
    GraphTraversal PartitionedGraph OptimisticGraph ErasureStorage ObjectStore ContentStore
    PullPipeline CircuitBreaker AdaptiveBuffer MessageBus ShardedTimeSeries CacheStampede CacheConsistency
    ReliableEventBus BoundedEventBus BreakerEventBus BufferedLogger LogSinks
    CompressedSeries WindowedSeries RateLimiters ResourcePools SecureTokens LockFreeQueue ScalingPatterns ProgressTracker LoadBalancer ChatRoom
    ExampleBus ExampleEventBus ExampleLogging BattleSystem LearningSystem ChannelPatterns AdvancedPatterns Evaluators
    TransactionCoordinator
begin

text \<open>
  \<^bold>\<open>The program.\<close>  The repository is a collection of self-contained Go programs on concurrency and distributed
  systems.  A program of \<open>src/challenges/\<close> poses a problem with deliberate faults; the file of the same number under
  \<open>src/solutions/\<close> is the repaired component, and these components are the greater part of what the development models.
  \<open>src/practical/\<close> has larger programs, three of which (message bus, event bus, logging) need no external service;
  \<open>src/tracker/\<close>, \<open>src/scenarios/\<close>, \<open>src/interactive/\<close> and \<open>src/internal/evaluator/\<close> hold the progress of a learner, simulations,
  games and evaluations; \<open>src/examples/\<close> introduces the patterns.  The programs do not call
  each other: every file brings its own types, and its parts interact through the state guarded by its mutexes,
  through atomic variables and through channels.  \<open>src/cmd/\<close> starts them from menus.

  \<^bold>\<open>The theories\<close> (sources under \<open>src/solutions/\<close> where no directory is given).

  \<^item> \<open>GoPrelude\<close>: fixed-width integers, maps with explicit key orders, heaps, the results of fallible calls, \<open>run\<close>
    (an interleaving of operations as a list of steps), \<open>admissible\<close> (a side condition at every step), \<open>observed\<close>
    (the abstract operations of a history), and the interfaces below.
  \<^item> \<open>solution04_rate_limiter.go\<close>, \<open>solution06_resource_leak.go\<close>, \<open>solution07_security.go\<close>: \<open>RateLimiters\<close> (token bucket,
    sliding window, counters of failed attempts), \<open>ResourcePools\<close> (files, connections, workers), \<open>SecureTokens\<close> (sessions, nonces,
    comparison of digests).
  \<^item> \<open>solution08_performance.go\<close>: \<open>LockFreeQueue\<close> (Michael--Scott enqueue: every interleaving is a list of the linked
    values, and every call ends), \<open>ScalingPatterns\<close> (sharded counter, batches, dynamic pool).
  \<^item> \<open>challenge09_solution.go\<close>, distributed locks: \<open>DistributedLock\<close> (TTL lock with fencing tokens: exclusion, growing
    tokens, stale tokens stay refused), \<open>Redlock\<close> (a majority of nodes; validity time, clean-up after failure),
    \<open>LeaseLock\<close> (leases with shared records).
  \<^item> \<open>challenge10_solution.go\<close>, message order: \<open>CausalOrder\<close> (vector clocks; causal delivery), \<open>LamportOrder\<close> (clock
    condition and total order), \<open>SequenceBuffer\<close> (reordering buffers per partition).
  \<^item> \<open>challenge11_solution.go\<close>, backpressure: \<open>PullPipeline\<close> (a labelled transition system of workers; accounting and
    shut-down), \<open>CircuitBreaker\<close> (token bucket and breaker), \<open>AdaptiveBuffer\<close> (capacity bounds, first in first out).
  \<^item> \<open>challenge12_solution.go\<close>, consistency: \<open>TwoPhaseCommit\<close> (replicas refine one store), \<open>Saga\<close> (compensation, and the
    contract of compensable steps), \<open>EventSourcingCQRS\<close> (replay rebuilds the read model).
  \<^item> \<open>challenge13_solution.go\<close>: \<open>EventStore\<close> (streams, snapshots, projections, versioned handlers).
  \<^item> \<open>challenge14_solution.go\<close>, sagas: \<open>RetrySaga\<close>, \<open>Orchestrator\<close>, \<open>Choreography\<close>.
  \<^item> \<open>challenge15_solution.go\<close>, caches: \<open>CacheStampede\<close> (one loader per key), \<open>CacheConsistency\<close> (hot-key replicas and
    the write-through cache).
  \<^item> \<open>challenge16_solution.go\<close>: \<open>StreamProcessing\<close> (windows, watermark, checkpoints).
  \<^item> \<open>solution17_event_bus.go\<close>: \<open>ReliableEventBus\<close> (each event once), \<open>BoundedEventBus\<close> (workers on a bounded channel,
    subscribers by priority, ring of recent events), \<open>BreakerEventBus\<close> (circuit breaker and retries).
  \<^item> \<open>solution18_message_bus.go\<close>: \<open>MessageBus\<close> (partitioned logs, consumer groups, transactions, dead letters).
  \<^item> \<open>solution19_distributed_logging.go\<close>: \<open>BufferedLogger\<close> (batches of entries), \<open>LogSinks\<close> (several sinks with breakers,
    traces).
  \<^item> \<open>solution20_blockchain_consensus.go\<close>: \<open>Blockchain\<close> (proof of work, PBFT replica, Raft node).
  \<^item> \<open>solution21_graph_database.go\<close>: \<open>GraphTraversal\<close> (BFS, DFS), \<open>PartitionedGraph\<close> (routing, parallel traversal),
    \<open>OptimisticGraph\<close> (optimistic transactions, cycle detection).
  \<^item> \<open>solution22_timeseries_db.go\<close>: \<open>ShardedTimeSeries\<close> (the sharded store with its hour index), \<open>CompressedSeries\<close> (blocks of
    delta-encoded points), \<open>WindowedSeries\<close> (continuous averages over windows).
  \<^item> \<open>solution23_columnar_storage.go\<close>: \<open>ColumnarStorage\<close>, \<open>WideColumnStore\<close>, \<open>ConsistentHashing\<close>,
    \<open>DistributedColumnar\<close>.
  \<^item> \<open>solution24_object_storage.go\<close>: \<open>ObjectStore\<close> (buckets, versions, multipart uploads), \<open>ContentStore\<close>
    (deduplication), \<open>ErasureStorage\<close> (chunks and parity).
  \<^item> \<open>src/tracker/progress.go\<close>: \<open>ProgressTracker\<close> (lessons, challenges, levels, achievements).
  \<^item> \<open>src/scenarios/real_world.go\<close>: \<open>LoadBalancer\<close> (round robin over healthy servers), \<open>ChatRoom\<close> (a room of
    goroutines on unbuffered channels, as a step relation).
  \<^item> \<open>src/practical/\<close>: \<open>ExampleBus\<close> (\<open>message_bus_example.go\<close>: logs with retention, consumer groups), \<open>ExampleEventBus\<close>
    (\<open>event_bus_example.go\<close>: priorities, wildcards, retries, breaker; tables as slices in a heap), \<open>ExampleLogging\<close>
    (\<open>distributed_logging_example.go\<close>: ring buffer, batcher, sampler, sinks).
  \<^item> \<open>src/interactive/\<close>: \<open>BattleSystem\<close> (\<open>battle_system.go\<close>: two players, a channel of turns), \<open>LearningSystem\<close>
    (\<open>learning_system.go\<close>: the dialogue and its accounts of points), \<open>Evaluators\<close> (\<open>evaluator_interactive.go\<close>, with
    \<open>src/internal/evaluator/evaluator.go\<close>: scores, totals, levels).
  \<^item> \<open>src/examples/\<close>: \<open>ChannelPatterns\<close> (\<open>03_concurrency_patterns.go\<close>: worker pool, fan-out and fan-in, pipeline and
    semaphore, as step relations that always end with every result delivered), \<open>AdvancedPatterns\<close>
    (\<open>04_advanced_patterns.go\<close>: circuit breaker, publish and subscribe, bounded parallelism, retries, batches).
  \<^item> \<open>src/challenges/challenge31_distributed_transaction.go\<close>: \<open>TransactionCoordinator\<close> (an exercise without a solution; the lock
    manager, and commits in two phases that refine one store as long as they do not overlap).

  Within a theory the definitions follow the order of the source: the types as \<open>record\<close> and \<open>datatype\<close>, one definition
  per function or method under the name the code gives it, then a datatype of the operations with the step function
  that runs one of them, the invariant, the lemmas and the properties.  Definitions that the code does not have
  (invariants, abstract specifications, recorded histories) are not translations of source lines.

  \<^bold>\<open>Interfaces.\<close>  \<open>guarded_object\<close> (operations that keep an invariant where a side condition holds; hence every
  admissible history does), \<open>locked_object\<close> (without side condition; a sublocale), \<open>monotone_object\<close> (with a quantity
  that never decreases), \<open>simulation\<close> (a relation to an abstract object kept by every operation) and \<open>refined_object\<close> (its
  functional case) are stated in \<open>GoPrelude\<close> and interpreted by every component that has such a contract.  \<open>compensable\<close>
  (\<open>Saga\<close>) is the contract of a step and its compensation, with interpretations for both sagas; \<open>collision_free\<close>
  (\<open>ContentStore\<close>) states what the content store needs of its digest; \<open>sharded_store\<close> (\<open>ShardedTimeSeries\<close>) fixes the
  number of shards, \<open>fixed_windows\<close> (\<open>WindowedSeries\<close>) the width of the windows.
  \<open>bounded_system\<close> (\<open>ChannelPatterns\<close>) is the contract of a step relation that is only stuck at its goal and has a weight that every step
  decreases; all four channel patterns are instances.

  \<^bold>\<open>Conventions.\<close>  A critical section (the code between \<open>Lock\<close> and \<open>Unlock\<close>) is one step; where the code releases a lock
  in the middle of an operation, or works on atomic variables, each access is a step of its own and the goroutines
  interleave freely.  Histories are arbitrary lists of operations, so every theorem about a \<open>run\<close> is about all
  schedules.  Readings of \<open>time.Now\<close>, the iteration order of maps, the order in which goroutines reach a channel, and
  the outcome of failing calls are arguments.  Errors are values of a sum or option type, a panic is \<open>None\<close>.  Digests,
  number formatting, message handlers, log sinks, data sources and the growth of a slice by \<open>append\<close> are parameters;
  random numbers are arguments.  Integers that are compared or counted are
  \<open>int\<close> or \<open>nat\<close> with \<open>i64\<close>, \<open>i32\<close> written out where the result of an arithmetic operation may wrap; hashes are words.
  Floating-point values have an arbitrary type with the operations as parameters, or are not computed with.  Printing,
  logging and fields that the code writes but never reads are left out (such as message headers, tags, access-control
  lists, the \<open>Received\<close> time of \<open>VMessage\<close>, payload and timestamp of saga commands, the \<open>Signature\<close> of PBFT messages).

  \<^bold>\<open>Bounds and fuel.\<close>  Where a 64-bit counter grows by one per operation, the histories are those in which it stays
  below \<open>2 ^ 62\<close> (fencing tokens, versions, clocks, sequence numbers, stream lengths), so that no further step can wrap it.
  The search for a nonce is unbounded in the code and takes its number of rounds as an argument; the theorems hold for every
  number.  Depth-first search has fuel, and the theorem states that the number of nodes plus two is enough; likewise the number
  of edges plus two for cycle detection.  Breadth-first search is for graphs of at most 1000 nodes, the capacity of the
  channel used as queue: with more on one level the code blocks.  The choreography is for at most ten orders, the
  capacity of its event channel.  The workers of the pull-based pipeline take at most five steps each after the context has
  expired.  A call of the lock-free \<open>enqueue\<close> among \<open>n\<close> takes at most \<open>10 * n + 6\<close> steps of its own, and the reading of the list has the
  number of nodes as fuel.  The loop of \<open>checkLevelUp\<close> is a \<open>partial_function\<close>, and is shown to return for scores up to \<open>2 ^ 50\<close>.  Learning
  sessions have fewer than \<open>2 ^ 40\<close> lines, evaluations fewer than \<open>2 ^ 50\<close>, fighters have levels from -4 (below which the hit points are not positive) to a million.

  \<^bold>\<open>Findings.\<close>  Where the code does not do what it means to, the theory states what it does do and, mostly, proves a
  concrete instance, such as \<open>Saga.order_total_overflows\<close>, \<open>WideColumnStore.flushed_value_lost\<close>,
  \<open>OptimisticGraph\<close>'s overlapping commits, \<open>PullPipeline\<close>'s exceeded limit, \<open>RateLimiters.refill_exceeds_maximum\<close>,
  \<open>ChatRoom.chat_room_hangs\<close>, \<open>ExampleEventBus.subscriber_overwritten\<close>, \<open>ExampleEventBus.probation_refuses_for_ever\<close>
  or \<open>BattleSystem.battle_outcome\<close>.

  \<^bold>\<open>Not modelled.\<close>  The other programs of \<open>src/practical/\<close> call client libraries and servers that are not part of the
  repository.  The other exercises of \<open>src/challenges/\<close> contain the faults that the solutions repair, or leave their central functions
  open.  Solutions 01 to 03 and 05 are short demonstrations that keep no state beyond a counter or a channel.  The order and pipeline scenarios print
  random outcomes.  The first two files of introductory examples, the quiz, the tutorial, the exercises of the dialogue, the visualizer and the
  debugging aid, the command-line runners and the tests print, read input or measure time.
\<close>

end
